(* ===== verification/Prelude.thy ===== *)
theory Prelude
  imports Main "HOL-Library.Word"
begin

text \<open>
  What the components of the engine share: the machine types of the C++ source, the shape of its
  "search an array, return the index or \<open>SIZE_MAX\<close>" loops, and the collections of facts that carry
  the component proofs.
\<close>

unbundle bit_operations_syntax

section \<open>Types\<close>

text \<open>
  \<open>size_t\<close> values that are bit patterns (tagged pointers, attribute words) are 64-bit words: the
  model is the 64-bit build. Sizes and indices, which the code never lets wrap, are naturals.
  A \<open>char16_t\<close> code unit is a natural; the code only compares code units, and subtracts
  \<open>'0'\<close> from one it has tested to be a digit.
\<close>

type_synonym u64 = "64 word"
type_synonym addr = "64 word"
type_synonym code_unit = nat
type_synonym ustring = "nat list"

abbreviation unit_of :: "char \<Rightarrow> code_unit" where
  "unit_of c \<equiv> of_char c"

text \<open>The code units of an ASCII literal.\<close>

definition us :: "string \<Rightarrow> ustring" where
  "us s = map of_char s"

section \<open>Collections of facts\<close>

named_theorems flag_simps \<open>attribute words read back\<close>
named_theorems search_simps \<open>results of the search loops\<close>
named_theorems wf_intros \<open>well-formedness of what an operation builds\<close>

section \<open>Testing one bit of a word\<close>

lemma and_two_power_eq_0: "(w AND 2 ^ n = (0 :: 'a :: len word)) \<longleftrightarrow> \<not> bit w n"
proof -
  have "w AND 2 ^ n = (if bit w n then push_bit n 1 else 0)"
    by (rule bit_eqI) (auto simp: bit_simps)
  then show ?thesis by (auto simp: bit_imp_le_length dest: bit_imp_le_length)
qed

lemma word_of_nat_unat: "of_nat (unat w) = (w :: 'a :: len word)"
  by simp

lemma unatD: "unat (w :: 'a :: len word) = n \<Longrightarrow> w = of_nat n"
  by (metis word_of_nat_unat)

section \<open>The position of the highest bit\<close>

text \<open>\<open>FAST_LOG2_UINT\<close> of the source, and the exponent a conversion to \<open>double\<close> needs.\<close>

fun fastLog2 :: "nat \<Rightarrow> nat" where
  "fastLog2 n = (if n \<le> 1 then 0 else Suc (fastLog2 (n div 2)))"

declare fastLog2.simps [simp del]

lemma fastLog2_bounds: "0 < n \<Longrightarrow> 2 ^ fastLog2 n \<le> n \<and> n < 2 ^ (fastLog2 n + 1)"
proof (induction n rule: fastLog2.induct)
  case (1 n)
  show ?case
  proof (cases "n \<le> 1")
    case False
    then have "fastLog2 n = Suc (fastLog2 (n div 2))" by (simp add: fastLog2.simps [of n])
    moreover have "2 ^ fastLog2 (n div 2) \<le> n div 2 \<and> n div 2 < 2 ^ (fastLog2 (n div 2) + 1)"
      using 1 False by simp
    ultimately show ?thesis by auto
  qed (use 1 in \<open>simp add: fastLog2.simps\<close>)
qed

section \<open>Search loops\<close>

text \<open>
  \<open>for (size_t i = 0; i < size; i++) if (P(xs[i])) return i; ... return SIZE_MAX;\<close>
  with \<open>None\<close> for \<open>SIZE_MAX\<close>.
\<close>

fun find_from :: "('a \<Rightarrow> bool) \<Rightarrow> nat \<Rightarrow> 'a list \<Rightarrow> nat option" where
  "find_from P i [] = None"
| "find_from P i (x # xs) = (if P x then Some i else find_from P (Suc i) xs)"

definition find_index :: "('a \<Rightarrow> bool) \<Rightarrow> 'a list \<Rightarrow> nat option" where
  "find_index P xs = find_from P 0 xs"

lemma find_from_shift: "find_from P (Suc i) xs = map_option Suc (find_from P i xs)"
  by (induction xs arbitrary: i) auto

lemma find_index_Nil [simp]: "find_index P [] = None"
  by (simp add: find_index_def)

lemma find_index_Cons [simp]:
  "find_index P (x # xs) = (if P x then Some 0 else map_option Suc (find_index P xs))"
  by (simp add: find_index_def find_from_shift)

lemma find_index_None [search_simps]: "find_index P xs = None \<longleftrightarrow> (\<forall>x \<in> set xs. \<not> P x)"
  by (induction xs) auto

lemma find_index_SomeD:
  "find_index P xs = Some i \<Longrightarrow> i < length xs \<and> P (xs ! i) \<and> (\<forall>j < i. \<not> P (xs ! j))"
proof (induction xs arbitrary: i)
  case (Cons x xs)
  then show ?case
    by (cases i) (auto split: if_splits simp: nth_Cons split: nat.splits)
qed simp

lemma find_index_SomeI:
  "i < length xs \<Longrightarrow> P (xs ! i) \<Longrightarrow> (\<And>j. j < i \<Longrightarrow> \<not> P (xs ! j)) \<Longrightarrow> find_index P xs = Some i"
proof (induction xs arbitrary: i)
  case (Cons x xs)
  show ?case
  proof (cases i)
    case (Suc k)
    from Cons.prems(3) [of 0] Suc have "\<not> P x" by simp
    moreover have "find_index P xs = Some k"
      using Cons.prems Suc by (intro Cons.IH) force+
    ultimately show ?thesis using Suc by simp
  qed (use Cons.prems in simp)
qed simp

lemma find_index_cong:
  "(\<And>x. x \<in> set xs \<Longrightarrow> P x = Q x) \<Longrightarrow> find_index P xs = find_index Q xs"
  by (induction xs) auto

lemma find_index_append:
  "find_index P (xs @ ys) =
     (case find_index P xs of Some i \<Rightarrow> Some i
      | None \<Rightarrow> map_option (\<lambda>j. j + length xs) (find_index P ys))"
  by (induction xs)
    (auto split: option.splits simp: option.map_comp comp_def option.map_ident)

section \<open>Cyclic searches\<close>

text \<open>The first position, cyclically from \<open>hand\<close>, at which \<open>P\<close> fails.\<close>

lemma first_cyclic:
  fixes n :: nat
  assumes "i < n" "hand < n" "\<not> P i"
  shows "\<exists>d < n. (\<forall>e < d. P ((hand + e) mod n)) \<and> \<not> P ((hand + d) mod n)"
proof -
  let ?Q = "\<lambda>d. \<not> P ((hand + d) mod n)"
  have "(hand + (i + n - hand) mod n) mod n = i"
    using assms by (simp add: mod_simps)
  then have Q: "?Q ((i + n - hand) mod n)" using assms(3) by simp
  have "(LEAST d. ?Q d) \<le> (i + n - hand) mod n" using Q by (rule Least_le)
  also have "\<dots> < n" using assms by (simp add: mod_less_divisor [OF le_less_trans])
  finally show ?thesis using LeastI [of ?Q, OF Q] not_less_Least [of _ ?Q] by blast
qed

text \<open>\<open>x & (capacity - 1)\<close> for a power of two.\<close>

lemma and_mask_mod: "(x :: nat) AND (2 ^ k - 1) = x mod 2 ^ k"
  using take_bit_eq_mask [of k x] by (simp add: take_bit_eq_mod mask_eq_exp_minus_1)

lemmas and_mask_mods = and_mask_mod and_mask_mod [unfolded One_nat_def]

lemma nth_update_if: "i < length xs \<Longrightarrow> xs[j := x] ! i = (if j = i then x else xs ! i)"
  by simp

section \<open>Removing one position of a vector\<close>

definition remove_at :: "nat \<Rightarrow> 'a list \<Rightarrow> 'a list" where
  "remove_at i xs = take i xs @ drop (Suc i) xs"

lemma length_remove_at [simp]: "i < length xs \<Longrightarrow> length (remove_at i xs) = length xs - 1"
  by (simp add: remove_at_def)

lemma set_remove_at_subset: "set (remove_at i xs) \<subseteq> set xs"
  by (auto simp: remove_at_def dest: in_set_takeD in_set_dropD)

lemma map_remove_at: "map f (remove_at i xs) = remove_at i (map f xs)"
  by (simp add: remove_at_def take_map drop_map)

lemma distinct_remove_at: "distinct xs \<Longrightarrow> distinct (remove_at i xs)"
  using set_take_disj_set_drop_if_distinct [of xs i "Suc i"]
  by (simp add: remove_at_def)

lemma set_remove_at_distinct:
  assumes "distinct xs" "i < length xs"
  shows "set (remove_at i xs) = set xs - {xs ! i}"
proof -
  have "xs = take i xs @ xs ! i # drop (Suc i) xs"
    using assms(2) by (rule id_take_nth_drop)
  then have "set xs = set (take i xs) \<union> {xs ! i} \<union> set (drop (Suc i) xs)"
    by (metis Un_insert_right list.simps(15) set_append sup_bot_right sup_commute insert_is_Un)
  moreover have "xs ! i \<notin> set (remove_at i xs)"
    using assms \<open>xs = _\<close> by (metis distinct_append distinct.simps(2) disjoint_iff list.set_intros(1) remove_at_def set_append Un_iff)
  ultimately show ?thesis
    by (auto simp: remove_at_def)
qed

end
