(* ===== verification/PropertyDescriptor.thy ===== *)
theory PropertyDescriptor
  imports Prelude
begin

text \<open>
  The attribute word of a property in a hidden class, \<open>src/runtime/ObjectStructurePropertyDescriptor.h\<close>.
  The word \<open>m_data\<close> is either inline (bit 0 set; bits 1 to 5 are the attributes and bit 6 the mode)
  or a pointer to an \<open>ObjectPropertyNativeGetterSetterData\<close> (bit 0 clear, as the allocator aligns).
  The lemmas show that what the constructors store is what the readers return, that equality of the
  words is equality of attributes and mode, and that the three kinds of property are told apart.
\<close>

section \<open>Attributes\<close>

abbreviation (input) NotPresent :: u64 where "NotPresent \<equiv> 0"
abbreviation (input) WritablePresent :: u64 where "WritablePresent \<equiv> 2"
abbreviation (input) EnumerablePresent :: u64 where "EnumerablePresent \<equiv> 4"
abbreviation (input) ConfigurablePresent :: u64 where "ConfigurablePresent \<equiv> 8"
abbreviation (input) HasJSGetter :: u64 where "HasJSGetter \<equiv> 16"
abbreviation (input) HasJSSetter :: u64 where "HasJSSetter \<equiv> 32"

definition AllPresent :: u64 where
  "AllPresent = WritablePresent OR EnumerablePresent OR ConfigurablePresent"

definition AccessorAllPresent :: u64 where
  "AccessorAllPresent = EnumerablePresent OR ConfigurablePresent OR HasJSGetter OR HasJSSetter"

text \<open>The enumerators of \<open>ObjectStructurePropertyDescriptorMode\<close>, as the integers they are.\<close>

abbreviation (input) PlainDataMode :: u64 where "PlainDataMode \<equiv> 0"
abbreviation (input) HasJSGetterSetter :: u64 where "HasJSGetterSetter \<equiv> 1"
abbreviation (input) HasDataButHasNativeGetterSetter :: u64 where "HasDataButHasNativeGetterSetter \<equiv> 2"

section \<open>Native getter and setter data\<close>

text \<open>
  The two function pointers of the struct are addresses; what they do is a parameter of the
  operations that call them.
\<close>

record ObjectPropertyNativeGetterSetterData =
  m_presentAttributes :: u64
  m_actsLikeJSGetterSetter :: bool
  m_getter :: addr
  m_setter :: addr

type_synonym native_heap = "addr \<Rightarrow> ObjectPropertyNativeGetterSetterData option"

text \<open>\<open>m_presentAttributes\<close> is a 31-bit field, assigned modulo \<open>2 ^ 31\<close>.\<close>

definition nativeData :: "bool \<Rightarrow> bool \<Rightarrow> bool \<Rightarrow> addr \<Rightarrow> addr \<Rightarrow> bool \<Rightarrow> ObjectPropertyNativeGetterSetterData" where
  "nativeData isWritable isEnumerable isConfigurable getter setter actsLikeJSGetterSetter =
     (let a0 = 0;
          a1 = (if isWritable then take_bit 31 (a0 OR WritablePresent) else a0);
          a2 = (if isEnumerable then take_bit 31 (a1 OR EnumerablePresent) else a1);
          a3 = (if isConfigurable then take_bit 31 (a2 OR ConfigurablePresent) else a2)
      in \<lparr>m_presentAttributes = a3, m_actsLikeJSGetterSetter = actsLikeJSGetterSetter,
          m_getter = getter, m_setter = setter\<rparr>)"

definition nativeDataOfAttributes :: "u64 \<Rightarrow> addr \<Rightarrow> addr \<Rightarrow> ObjectPropertyNativeGetterSetterData" where
  "nativeDataOfAttributes presentAttributes getter setter =
     \<lparr>m_presentAttributes = take_bit 31 presentAttributes, m_actsLikeJSGetterSetter = False,
      m_getter = getter, m_setter = setter\<rparr>"

section \<open>The attribute word\<close>

definition mkDescriptorData :: "u64 \<Rightarrow> u64 \<Rightarrow> u64" where
  "mkDescriptorData attribute mode =
     1 OR (if attribute AND WritablePresent \<noteq> 0 then 2 else 0)
       OR (if attribute AND EnumerablePresent \<noteq> 0 then 4 else 0)
       OR (if attribute AND ConfigurablePresent \<noteq> 0 then 8 else 0)
       OR (if attribute AND HasJSGetter \<noteq> 0 then 16 else 0)
       OR (if attribute AND HasJSSetter \<noteq> 0 then 32 else 0)
       OR (if mode \<noteq> 0 then 64 else 0)"

definition presentAttributes :: "native_heap \<Rightarrow> u64 \<Rightarrow> u64" where
  "presentAttributes nh d =
     (if d AND 1 \<noteq> 0 then d
      else case nh d of Some n \<Rightarrow> m_presentAttributes n | None \<Rightarrow> 0)"

definition presentAttribute :: "native_heap \<Rightarrow> u64 \<Rightarrow> u64 \<Rightarrow> bool" where
  "presentAttribute nh d a =
     (if d AND 1 \<noteq> 0 then a AND d \<noteq> 0
      else case nh d of Some n \<Rightarrow> m_presentAttributes n AND a \<noteq> 0 | None \<Rightarrow> False)"

definition descriptorMode :: "u64 \<Rightarrow> u64" where
  "descriptorMode d = (if d AND 1 \<noteq> 0 then d AND 64 else HasDataButHasNativeGetterSetter)"

section \<open>Constructors and readers\<close>

definition createDataDescriptor :: "u64 \<Rightarrow> u64" where
  "createDataDescriptor attribute = mkDescriptorData attribute PlainDataMode"

definition createAccessorDescriptor :: "u64 \<Rightarrow> u64" where
  "createAccessorDescriptor attribute =
     (let d = mkDescriptorData attribute HasJSGetterSetter
      in if descriptorMode d = HasJSGetterSetter \<and> attribute AND HasJSSetter \<noteq> 0
         then mkDescriptorData (WritablePresent OR attribute) HasJSGetterSetter
         else d)"

definition createDataButHasNativeGetterSetterDescriptor :: "addr \<Rightarrow> u64" where
  "createDataButHasNativeGetterSetterDescriptor p = p"

definition isWritable :: "native_heap \<Rightarrow> u64 \<Rightarrow> bool" where
  "isWritable nh d = presentAttribute nh d WritablePresent"

definition isEnumerable :: "native_heap \<Rightarrow> u64 \<Rightarrow> bool" where
  "isEnumerable nh d = presentAttribute nh d EnumerablePresent"

definition isConfigurable :: "native_heap \<Rightarrow> u64 \<Rightarrow> bool" where
  "isConfigurable nh d = presentAttribute nh d ConfigurablePresent"

definition isDataProperty :: "u64 \<Rightarrow> bool" where
  "isDataProperty d \<longleftrightarrow> descriptorMode d \<le> HasDataButHasNativeGetterSetter"

definition isAccessorProperty :: "u64 \<Rightarrow> bool" where
  "isAccessorProperty d \<longleftrightarrow> \<not> isDataProperty d"

definition hasJSGetter :: "native_heap \<Rightarrow> u64 \<Rightarrow> bool" where
  "hasJSGetter nh d = presentAttribute nh d HasJSGetter"

definition hasJSSetter :: "native_heap \<Rightarrow> u64 \<Rightarrow> bool" where
  "hasJSSetter nh d = presentAttribute nh d HasJSSetter"

definition isPlainDataProperty :: "u64 \<Rightarrow> bool" where
  "isPlainDataProperty d \<longleftrightarrow> descriptorMode d = PlainDataMode"

definition isNativeAccessorProperty :: "u64 \<Rightarrow> bool" where
  "isNativeAccessorProperty d \<longleftrightarrow> descriptorMode d = HasDataButHasNativeGetterSetter"

section \<open>Lemmas\<close>

text \<open>Testing one attribute of a word is reading one bit of it.\<close>

lemma two_power_and_eq_0: "(2 ^ n AND w = (0 :: u64)) \<longleftrightarrow> \<not> bit w n"
  using and_two_power_eq_0 [of w n] by (simp add: and.commute)

lemmas and_flag_bits [flag_simps] =
  and_two_power_eq_0 [of "_ :: u64" 0, simplified] and_two_power_eq_0 [of "_ :: u64" 1, simplified]
  and_two_power_eq_0 [of "_ :: u64" 2, simplified] and_two_power_eq_0 [of "_ :: u64" 3, simplified]
  and_two_power_eq_0 [of "_ :: u64" 4, simplified] and_two_power_eq_0 [of "_ :: u64" 5, simplified]
  and_two_power_eq_0 [of "_ :: u64" 6, simplified]
  two_power_and_eq_0 [of 1, simplified] two_power_and_eq_0 [of 2, simplified]
  two_power_and_eq_0 [of 3, simplified] two_power_and_eq_0 [of 4, simplified]
  two_power_and_eq_0 [of 5, simplified]

text \<open>The simplifier reads a bit of a word literal off the integer literal.\<close>

lemma bit_two_power_int: "bit ((2 :: int) ^ k) n \<longleftrightarrow> k = n"
  by (auto simp: bit_simps)

lemmas bit_flag_int [flag_simps] =
  bit_two_power_int [of 1, simplified] bit_two_power_int [of 2, simplified]
  bit_two_power_int [of 3, simplified] bit_two_power_int [of 4, simplified]
  bit_two_power_int [of 5, simplified] bit_two_power_int [of 6, simplified]

lemma bit_mkDescriptorData [flag_simps]:
  "bit (mkDescriptorData a m) 0"
  "bit (mkDescriptorData a m) (Suc 0) = bit a (Suc 0)"
  "bit (mkDescriptorData a m) 2 = bit a 2"
  "bit (mkDescriptorData a m) 3 = bit a 3"
  "bit (mkDescriptorData a m) 4 = bit a 4"
  "bit (mkDescriptorData a m) 5 = bit a 5"
  "bit (mkDescriptorData a m) 6 = (m \<noteq> 0)"
  by (simp_all add: mkDescriptorData_def bit_simps flag_simps)

lemma bit_mkDescriptorData_high: "6 < n \<Longrightarrow> \<not> bit (mkDescriptorData a m) n"
  by (simp add: mkDescriptorData_def bit_or_iff bit_1_iff flag_simps)

lemma mkDescriptorData_inline [flag_simps]: "(mkDescriptorData a m AND 1 = 0) = False"
  by (simp add: flag_simps)

lemma descriptorMode_mk [flag_simps]: "descriptorMode (mkDescriptorData a m) = (if m = 0 then 0 else 64)"
proof -
  have "mkDescriptorData a m AND 64 = (if m = 0 then 0 else 64)"
    by (rule bit_eqI) (auto simp: bit_and_iff flag_simps)
  then show ?thesis by (simp add: descriptorMode_def flag_simps)
qed

section \<open>What the constructors store is what the readers return\<close>

lemma presentAttribute_mk [flag_simps]:
  "presentAttribute nh (mkDescriptorData a m) 2 = bit a (Suc 0)"
  "presentAttribute nh (mkDescriptorData a m) 4 = bit a 2"
  "presentAttribute nh (mkDescriptorData a m) 8 = bit a 3"
  "presentAttribute nh (mkDescriptorData a m) 16 = bit a 4"
  "presentAttribute nh (mkDescriptorData a m) 32 = bit a 5"
  by (simp_all add: presentAttribute_def flag_simps)

lemmas reader_defs = isWritable_def isEnumerable_def isConfigurable_def isDataProperty_def
  isAccessorProperty_def hasJSGetter_def hasJSSetter_def isPlainDataProperty_def
  isNativeAccessorProperty_def

lemma createAccessorDescriptor_eq [flag_simps]:
  "createAccessorDescriptor a = mkDescriptorData a HasJSGetterSetter"
  by (simp add: createAccessorDescriptor_def flag_simps)

lemma readers_of_data [flag_simps]:
  "isWritable nh (createDataDescriptor a) = bit a (Suc 0)"
  "isEnumerable nh (createDataDescriptor a) = bit a 2"
  "isConfigurable nh (createDataDescriptor a) = bit a 3"
  "isDataProperty (createDataDescriptor a)"
  "isPlainDataProperty (createDataDescriptor a)"
  "\<not> isNativeAccessorProperty (createDataDescriptor a)"
  by (simp_all add: reader_defs createDataDescriptor_def flag_simps)

lemma readers_of_accessor [flag_simps]:
  "isEnumerable nh (createAccessorDescriptor a) = bit a 2"
  "isConfigurable nh (createAccessorDescriptor a) = bit a 3"
  "hasJSGetter nh (createAccessorDescriptor a) = bit a 4"
  "hasJSSetter nh (createAccessorDescriptor a) = bit a 5"
  "\<not> isDataProperty (createAccessorDescriptor a)"
  "\<not> isPlainDataProperty (createAccessorDescriptor a)"
  "\<not> isNativeAccessorProperty (createAccessorDescriptor a)"
  by (simp_all add: reader_defs flag_simps)

lemma nativeData_attributes [flag_simps]:
  "bit (m_presentAttributes (nativeData w e c g s l)) (Suc 0) \<longleftrightarrow> w"
  "bit (m_presentAttributes (nativeData w e c g s l)) 2 \<longleftrightarrow> e"
  "bit (m_presentAttributes (nativeData w e c g s l)) 3 \<longleftrightarrow> c"
  by (cases w; cases e; cases c; simp add: nativeData_def)+

lemma readers_of_native [flag_simps]:
  assumes "\<not> bit p 0" and "nh p = Some (nativeData w e c g s l)"
  shows "isWritable nh (createDataButHasNativeGetterSetterDescriptor p) = w"
    and "isEnumerable nh (createDataButHasNativeGetterSetterDescriptor p) = e"
    and "isConfigurable nh (createDataButHasNativeGetterSetterDescriptor p) = c"
    and "isDataProperty (createDataButHasNativeGetterSetterDescriptor p)"
    and "isNativeAccessorProperty (createDataButHasNativeGetterSetterDescriptor p)"
    and "\<not> isPlainDataProperty (createDataButHasNativeGetterSetterDescriptor p)"
  using assms
  by (simp_all add: reader_defs presentAttribute_def descriptorMode_def
      createDataButHasNativeGetterSetterDescriptor_def flag_simps)

lemma mkDescriptorData_eq_iff:
  "mkDescriptorData a m = mkDescriptorData b n \<longleftrightarrow>
     (\<forall>i \<in> {1..5}. bit a i = bit b i) \<and> (m = 0 \<longleftrightarrow> n = 0)" (is "?l \<longleftrightarrow> ?r")
proof
  assume eq: ?l
  have "bit a i = bit b i" if "i \<in> {1..5}" for i
  proof -
    from that have "i = Suc 0 \<or> i = 2 \<or> i = 3 \<or> i = 4 \<or> i = 5" by auto
    then show ?thesis using bit_mkDescriptorData [of a m] bit_mkDescriptorData [of b n] eq
      by metis
  qed
  moreover have "m = 0 \<longleftrightarrow> n = 0"
    using bit_mkDescriptorData(7) [of a m] bit_mkDescriptorData(7) [of b n] eq by simp
  ultimately show ?r by blast
next
  assume r: ?r
  show ?l
  proof (rule bit_eqI)
    fix i
    have "i = 0 \<or> i = Suc 0 \<or> i = 2 \<or> i = 3 \<or> i = 4 \<or> i = 5 \<or> i = 6 \<or> 6 < i" by arith
    then show "bit (mkDescriptorData a m) i = bit (mkDescriptorData b n) i"
      using r by (auto simp: flag_simps bit_mkDescriptorData_high)
  qed
qed

section \<open>Properties\<close>

text \<open>Reading a descriptor back: a data descriptor and a native descriptor report the writable,
  enumerable and configurable attributes they were built with, an accessor descriptor its enumerable,
  configurable, getter and setter attributes, and the three kinds are told apart by
  \<open>isPlainDataProperty\<close>, \<open>isNativeAccessorProperty\<close> and \<open>isAccessorProperty\<close>.\<close>

theorem descriptor_readers:
  assumes "\<not> bit p 0" and "nh p = Some (nativeData w e c g s l)"
  shows "isWritable nh (createDataDescriptor a) = bit a 1 \<and> isEnumerable nh (createDataDescriptor a) = bit a 2
      \<and> isConfigurable nh (createDataDescriptor a) = bit a 3 \<and> isPlainDataProperty (createDataDescriptor a)
    \<and> isEnumerable nh (createAccessorDescriptor a) = bit a 2 \<and> isConfigurable nh (createAccessorDescriptor a) = bit a 3
      \<and> hasJSGetter nh (createAccessorDescriptor a) = bit a 4 \<and> hasJSSetter nh (createAccessorDescriptor a) = bit a 5
      \<and> isAccessorProperty (createAccessorDescriptor a)
    \<and> isWritable nh (createDataButHasNativeGetterSetterDescriptor p) = w
      \<and> isEnumerable nh (createDataButHasNativeGetterSetterDescriptor p) = e
      \<and> isConfigurable nh (createDataButHasNativeGetterSetterDescriptor p) = c
      \<and> isNativeAccessorProperty (createDataButHasNativeGetterSetterDescriptor p)
      \<and> \<not> isAccessorProperty (createDataButHasNativeGetterSetterDescriptor p)"
  using readers_of_native [of p nh w e c g s l] assms
  by (simp add: readers_of_data readers_of_accessor isAccessorProperty_def)

theorem descriptor_readers_witness:
  "isWritable (\<lambda>q. if q = 16 then Some (nativeData True False True 0 0 False) else None)
     (createDataButHasNativeGetterSetterDescriptor 16) = True"
  using descriptor_readers [of 16 "\<lambda>q. if q = 16 then Some (nativeData True False True 0 0 False) else None"
      True False True 0 0 False] by simp

text \<open>Two inline descriptors are equal (\<open>operator==\<close> on \<open>m_data\<close>) exactly when their five attribute bits
  and their mode agree: no two different descriptors share a word, and no other bit of the attribute
  argument is stored.\<close>

theorem inline_descriptor_eq_iff:
  "mkDescriptorData a m = mkDescriptorData b n \<longleftrightarrow>
     list_all (\<lambda>i. bit a i = bit b i) [1, 2, 3, 4, 5] \<and> (m = 0 \<longleftrightarrow> n = 0)"
proof -
  have "{1..5} = {1, 2, 3, 4, 5 :: nat}" by auto
  then show ?thesis by (simp add: mkDescriptorData_eq_iff)
qed

text \<open>The branch of the constructor that is to set the writable flag of an accessor with a setter is never
  taken: \<open>mode()\<close> of an accessor word is 64, and the branch asks for \<open>HasJSGetterSetter\<close>, which is 1. So an
  accessor built without \<open>WritablePresent\<close> is not writable, setter or not.\<close>

theorem accessor_writable_flag_not_set:
  "isWritable nh (createAccessorDescriptor (EnumerablePresent OR HasJSSetter)) = False \<and>
   createAccessorDescriptor a = mkDescriptorData a HasJSGetterSetter"
  by (simp add: flag_simps isWritable_def bit_or_iff)

end
