(* ===== verification/Strings.thy ===== *)
theory Strings
  imports Prelude
begin

text \<open>
  Strings of code units and the conversions between strings and array indices,
  \<open>src/runtime/String.cpp\<close>: \<open>isIndexString\<close>, \<open>convertToIndexNumber\<close> and its callers
  \<open>tryToUseAsIndex\<close>, \<open>tryToUseAsIndex32\<close>, \<open>tryToUseAsIndexProperty\<close>, the digit loops of
  \<open>fromInt32\<close> and \<open>fromUint32\<close>, \<open>equals\<close> and \<open>stringCompare\<close>. A string is the list of its code
  units; whether the buffer is 8 or 16 bits wide does not change what these functions return.
\<close>

section \<open>Reading one code unit\<close>

text \<open>
  \<open>charAt(0)\<close> of the empty string: the engine's only empty atomic string is the literal \<open>""\<close> in
  external memory, whose element 0 is its terminating NUL.
\<close>

definition charAt0 :: "ustring \<Rightarrow> code_unit" where
  "charAt0 s = (case s of [] \<Rightarrow> 0 | c # _ \<Rightarrow> c)"

definition is_digit :: "code_unit \<Rightarrow> bool" where
  "is_digit c \<longleftrightarrow> unit_of (CHR ''0'') \<le> c \<and> c \<le> unit_of (CHR ''9'')"

section \<open>Index strings\<close>

definition isIndexString :: "ustring \<Rightarrow> bool" where
  "isIndexString s =
     (if length s = 1
      then \<not> (charAt0 s < unit_of (CHR ''0'') \<or> charAt0 s > unit_of (CHR ''9''))
      else if charAt0 s < unit_of (CHR ''1'') \<or> charAt0 s > unit_of (CHR ''9'') then False
      else list_all (\<lambda>c. \<not> (c < unit_of (CHR ''0'') \<or> c > unit_of (CHR ''9''))) (drop 1 s))"

fun convertToIndexLoop :: "nat \<Rightarrow> nat \<Rightarrow> ustring \<Rightarrow> nat" where
  "convertToIndexLoop maxLimit number [] = number"
| "convertToIndexLoop maxLimit number (c # cs) =
     (if c < unit_of (CHR ''0'') \<or> c > unit_of (CHR ''9'') then maxLimit
      else let cnum = c - unit_of (CHR ''0'')
           in if number > (maxLimit - cnum) div 10 then maxLimit
              else convertToIndexLoop maxLimit (number * 10 + cnum) cs)"

definition convertToIndexNumber :: "ustring \<Rightarrow> nat \<Rightarrow> nat" where
  "convertToIndexNumber s maxLimit =
     (case s of [] \<Rightarrow> maxLimit
      | first # _ \<Rightarrow>
          if length s > 1 \<and> first = unit_of (CHR ''0'') then maxLimit
          else convertToIndexLoop maxLimit 0 s)"

definition tryToUseAsIndex :: "ustring \<Rightarrow> nat" where
  "tryToUseAsIndex s = convertToIndexNumber s (2 ^ 64 - 1)"

definition tryToUseAsIndex32 :: "ustring \<Rightarrow> nat" where
  "tryToUseAsIndex32 s = convertToIndexNumber s (2 ^ 32 - 1) mod 2 ^ 32"

definition tryToUseAsIndexProperty :: "ustring \<Rightarrow> nat" where
  "tryToUseAsIndexProperty s = tryToUseAsIndex32 s"

section \<open>Printing integers\<close>

text \<open>
  The two loops fill a \<open>char\<close> buffer from its end; the accumulator is what has been written.
\<close>

fun itoaLoop :: "nat \<Rightarrow> ustring \<Rightarrow> ustring" where
  "itoaLoop absVal acc =
     (if absVal > 0 then itoaLoop (absVal div 10) ((unit_of (CHR ''0'') + absVal mod 10) # acc) else acc)"

definition fromInt32 :: "int \<Rightarrow> ustring" where
  "fromInt32 v =
     (if v = 0 then [unit_of (CHR ''0'')]
      else let negative = v < 0; absVal = nat \<bar>v\<bar>; digits = itoaLoop absVal []
           in if negative then unit_of (CHR ''-'') # digits else digits)"

text \<open>\<open>'0' + (v)\<close> is stored in a \<open>char\<close>: it is taken modulo 256.\<close>

fun utoaLoop :: "nat \<Rightarrow> ustring \<Rightarrow> ustring" where
  "utoaLoop v acc =
     (if v > 0 then utoaLoop (v div 10) (((unit_of (CHR ''0'') + v) mod 256) # acc) else acc)"

definition fromUint32 :: "nat \<Rightarrow> ustring" where
  "fromUint32 v = (if v = 0 then [unit_of (CHR ''0'')] else utoaLoop v [])"

definition isUint32Only :: "nat \<Rightarrow> bool" where
  "isUint32Only num \<longleftrightarrow> (word_of_nat num :: 32 word) AND 0x80000000 \<noteq> 0"

text \<open>The overload with an \<open>ExecutionState\<close>, which the conversions of array-index keys call.\<close>

definition fromUint32State :: "nat \<Rightarrow> ustring" where
  "fromUint32State v = (if isUint32Only v then fromUint32 v else fromInt32 (int v))"

section \<open>Equality and order\<close>

definition stringEquals :: "ustring \<Rightarrow> ustring \<Rightarrow> bool" where
  "stringEquals a b = (if length a \<noteq> length b then False else list_all2 (=) a b)"

fun commonPrefix :: "ustring \<Rightarrow> ustring \<Rightarrow> nat" where
  "commonPrefix (x # xs) (y # ys) = (if x = y then Suc (commonPrefix xs ys) else 0)"
| "commonPrefix xs ys = 0"

definition stringCompare :: "ustring \<Rightarrow> ustring \<Rightarrow> int" where
  "stringCompare c1 c2 =
     (let l1 = length c1; l2 = length c2; lmin = (if l1 < l2 then l1 else l2);
          pos = commonPrefix c1 c2
      in if pos < lmin then (if c1 ! pos > c2 ! pos then 1 else -1)
         else if l1 = l2 then 0
         else if l1 > l2 then 1 else -1)"

section \<open>Hash\<close>

definition stringHash :: "ustring \<Rightarrow> 32 word" where
  "stringHash src = fold (\<lambda>c hash. (hash XOR of_nat c) * 0x01000193) src 0x811c9dc5"

text \<open>\<open>hashValue<32, true>\<close>: at most the first 32 code units.\<close>

definition stringHashValue :: "ustring \<Rightarrow> u64" where
  "stringHashValue s = ucast (stringHash (take (min 32 (length s)) s))"

section \<open>Lemmas\<close>

declare itoaLoop.simps [simp del] utoaLoop.simps [simp del]

lemma stringEquals_eq [simp]: "stringEquals a b \<longleftrightarrow> a = b"
  by (auto simp: stringEquals_def list_all2_conv_all_nth intro: nth_equalityI)

subsection \<open>Decimal digits\<close>

text \<open>The reference: the value a digit string denotes, and the digits of a number.\<close>

fun digits_value :: "nat \<Rightarrow> ustring \<Rightarrow> nat" where
  "digits_value acc [] = acc"
| "digits_value acc (c # cs) = digits_value (acc * 10 + (c - unit_of (CHR ''0''))) cs"

lemma digits_value_append: "digits_value acc (xs @ [c]) = digits_value acc xs * 10 + (c - 48)"
  by (induction xs arbitrary: acc) auto

lemma digits_value_ge: "acc \<le> digits_value acc cs"
proof (induction cs arbitrary: acc)
  case (Cons c cs)
  have "acc \<le> acc * 10 + (c - 48)" by simp
  also have "\<dots> \<le> digits_value (acc * 10 + (c - 48)) cs" by (rule Cons.IH)
  finally show ?case by simp
qed simp

lemma itoaLoop_append: "itoaLoop v acc = itoaLoop v [] @ acc"
proof (induction v arbitrary: acc rule: less_induct)
  case (less v)
  show ?case
  proof (cases "v = 0")
    case False
    then have "v div 10 < v" by simp
    then have IH: "itoaLoop (v div 10) as = itoaLoop (v div 10) [] @ as" for as
      by (rule less)
    have step: "itoaLoop v as = itoaLoop (v div 10) ((48 + v mod 10) # as)" for as
      using False by (simp add: itoaLoop.simps [of v as])
    show ?thesis
      by (simp add: step IH [of "_ # acc"] IH [of "[_]"])
  qed (simp add: itoaLoop.simps)
qed

lemma itoaLoop_rec: "0 < v \<Longrightarrow> itoaLoop v [] = itoaLoop (v div 10) [] @ [48 + v mod 10]"
  by (subst itoaLoop.simps) (simp add: itoaLoop_append [of _ "[_]"])

lemma itoaLoop_digits: "c \<in> set (itoaLoop v []) \<Longrightarrow> 48 \<le> c \<and> c \<le> 57"
proof (induction v rule: less_induct)
  case (less v)
  show ?case
  proof (cases "v = 0")
    case True
    with less.prems show ?thesis by (simp add: itoaLoop.simps)
  next
    case False
    then have "v div 10 < v" by simp
    with less False show ?thesis by (auto simp: itoaLoop_rec)
  qed
qed

lemma digits_value_itoa: "digits_value 0 (itoaLoop v []) = v"
proof (induction v rule: less_induct)
  case (less v)
  show ?case
  proof (cases "v = 0")
    case False
    then have "v div 10 < v" by simp
    with less False show ?thesis by (simp add: itoaLoop_rec digits_value_append)
  qed (simp add: itoaLoop.simps)
qed

lemma itoaLoop_Nil_iff [simp]: "itoaLoop v [] = [] \<longleftrightarrow> v = 0"
  by (cases "v = 0") (auto simp: itoaLoop_rec itoaLoop.simps [of 0])

lemma hd_itoaLoop: "0 < v \<Longrightarrow> hd (itoaLoop v []) \<noteq> 48"
proof (induction v rule: less_induct)
  case (less v)
  show ?case
  proof (cases "v < 10")
    case True
    with less.prems show ?thesis by (simp add: itoaLoop_rec itoaLoop.simps [of 0])
  next
    case False
    then have "v div 10 < v" "0 < v div 10" by (auto simp: div_greater_zero_iff)
    with less.IH less.prems show ?thesis by (simp add: itoaLoop_rec hd_append)
  qed
qed

subsection \<open>Reading an index back\<close>

lemma convertToIndexLoop_le:
  "number \<le> maxLimit \<Longrightarrow> 9 \<le> maxLimit \<Longrightarrow> convertToIndexLoop maxLimit number cs \<le> maxLimit"
proof (induction maxLimit number cs rule: convertToIndexLoop.induct)
  case (2 maxLimit number c cs)
  show ?case
  proof (cases "c < 48 \<or> c > 57 \<or> number > (maxLimit - (c - 48)) div 10")
    case True
    then show ?thesis by auto
  next
    case False
    then have "number * 10 + (c - 48) \<le> maxLimit" using 2(3) by auto
    with False 2 show ?thesis by simp
  qed
qed simp

lemma convertToIndexLoop_digits:
  assumes "\<forall>c \<in> set cs. 48 \<le> c \<and> c \<le> 57" and "digits_value number cs \<le> maxLimit"
  shows "convertToIndexLoop maxLimit number cs = digits_value number cs"
  using assms
proof (induction cs arbitrary: number)
  case (Cons c cs)
  have "number * 10 + (c - 48) \<le> maxLimit"
    using Cons.prems(2) digits_value_ge [of "number * 10 + (c - 48)" cs] by simp
  then have "\<not> number > (maxLimit - (c - 48)) div 10" by auto
  with Cons show ?case by simp
qed simp

lemma convertToIndexLoop_valid:
  assumes "convertToIndexLoop maxLimit number cs = n" and "n < maxLimit"
  shows "(\<forall>c \<in> set cs. 48 \<le> c \<and> c \<le> 57) \<and> digits_value number cs = n"
  using assms
  by (induction cs arbitrary: number) (auto simp: Let_def split: if_splits)

lemma digits_value_inj:
  assumes "\<forall>c \<in> set cs. 48 \<le> c \<and> c \<le> 57" "cs \<noteq> []" "hd cs \<noteq> 48"
  shows "itoaLoop (digits_value 0 cs) [] = cs"
  using assms
proof (induction cs rule: rev_induct)
  case (snoc c cs)
  have c: "48 \<le> c" "c \<le> 57" using snoc.prems by auto
  show ?case
  proof (cases "cs = []")
    case True
    with snoc.prems c show ?thesis
      by (simp add: itoaLoop_rec itoaLoop.simps [of 0])
  next
    case False
    with snoc have IH: "itoaLoop (digits_value 0 cs) [] = cs" by (simp add: hd_append)
    with False have "digits_value 0 cs \<noteq> 0" by (metis itoaLoop_Nil_iff)
    moreover have "(digits_value 0 cs * 10 + (c - 48)) div 10 = digits_value 0 cs"
      using c by simp
    moreover obtain d where d: "c = 48 + d" "d < 10"
      using c le_Suc_ex [of 48 c] by auto
    moreover from d have "(digits_value 0 cs * 10 + (c - 48)) mod 10 = c - 48"
      by simp
    ultimately show ?thesis using IH c by (simp add: digits_value_append itoaLoop_rec)
  qed
qed simp

subsection \<open>Order\<close>

lemma commonPrefix_le: "commonPrefix a b \<le> length a \<and> commonPrefix a b \<le> length b"
  by (induction a b rule: commonPrefix.induct) auto

lemma stringCompare_Cons:
  "stringCompare (x # a) (y # b) = (if x = y then stringCompare a b else if x > y then 1 else -1)"
  by (simp add: stringCompare_def Let_def)

lemma stringCompare_Nil:
  "stringCompare [] b = (if b = [] then 0 else -1)"
  "stringCompare a [] = (if a = [] then 0 else 1)"
  by (simp_all add: stringCompare_def Let_def)

text \<open>\<open>String::stringCompare\<close> is the lexicographic order of the code units: 0 exactly on equal
  strings, -1 when the first string is lexicographically smaller, 1 otherwise.\<close>

theorem stringCompare_lexicographic:
  "stringCompare a b =
     (if a = b then 0 else if (a, b) \<in> lexord {(x, y). x < y} then -1 else 1)"
proof (induction a arbitrary: b)
  case Nil
  then show ?case by (cases b) (auto simp: stringCompare_Nil)
next
  case (Cons x a)
  then show ?case by (cases b) (auto simp: stringCompare_Cons stringCompare_Nil)
qed

subsection \<open>Index strings\<close>

lemma fromInt32_digits: "0 < v \<Longrightarrow> fromInt32 (int v) = itoaLoop v []"
  by (simp add: fromInt32_def Let_def)

lemma convertToIndexNumber_fromInt32:
  assumes "n < maxLimit" "9 \<le> maxLimit"
  shows "convertToIndexNumber (fromInt32 (int n)) maxLimit = n"
proof (cases "n = 0")
  case True
  with assms show ?thesis by (simp add: fromInt32_def convertToIndexNumber_def Let_def)
next
  case False
  then obtain c cs where s: "itoaLoop n [] = c # cs" by (cases "itoaLoop n []") auto
  with False hd_itoaLoop [of n] have "c \<noteq> 48" by simp
  moreover have "convertToIndexLoop maxLimit 0 (c # cs) = n"
    using convertToIndexLoop_digits [of "c # cs" 0 maxLimit] assms s
      digits_value_itoa [of n] itoaLoop_digits [of _ n] by auto
  ultimately show ?thesis
    using False s by (simp add: fromInt32_digits convertToIndexNumber_def)
qed

lemma index_number_iff:
  assumes "n < maxLimit" and "9 \<le> maxLimit"
  shows "convertToIndexNumber s maxLimit = n \<longleftrightarrow> s = fromInt32 (int n)"
proof
  assume conv: "convertToIndexNumber s maxLimit = n"
  with assms obtain c cs where s: "s = c # cs" and lz: "\<not> (cs \<noteq> [] \<and> c = 48)"
    and loop: "convertToIndexLoop maxLimit 0 s = n"
    by (cases s) (auto simp: convertToIndexNumber_def split: if_splits)
  from convertToIndexLoop_valid [OF loop assms(1)]
  have d: "\<forall>c \<in> set s. 48 \<le> c \<and> c \<le> 57" "digits_value 0 s = n" by auto
  show "s = fromInt32 (int n)"
  proof (cases "c = 48")
    case True
    with lz s d show ?thesis by (simp add: fromInt32_def)
  next
    case False
    with digits_value_inj [of s] d s have eq: "itoaLoop n [] = s" by auto
    with s have "n \<noteq> 0" using itoaLoop_Nil_iff [of n] by force
    with eq show ?thesis by (simp add: fromInt32_digits)
  qed
next
  assume "s = fromInt32 (int n)"
  with assms show "convertToIndexNumber s maxLimit = n"
    by (simp add: convertToIndexNumber_fromInt32)
qed

text \<open>\<open>convertToIndexNumber\<close> accepts exactly the canonical decimal numerals below its limit: for a
  limit of at least 9 and \<open>n\<close> below it, the result is \<open>n\<close> exactly when the string is the one
  \<open>fromInt32\<close> prints for \<open>n\<close> (no sign, no leading zero, no overflow).\<close>

theorem convertToIndexNumber_iff:
  assumes "n < maxLimit" and "9 \<le> maxLimit"
  shows "convertToIndexNumber s maxLimit = n \<longleftrightarrow> s = fromInt32 (int n)"
  using assms by (rule index_number_iff)

theorem convertToIndexNumber_iff_witness:
  "convertToIndexNumber (us ''4294967294'') (2 ^ 32 - 1) = 4294967294 \<longleftrightarrow>
     us ''4294967294'' = fromInt32 (int 4294967294)"
  using convertToIndexNumber_iff [of 4294967294 "2 ^ 32 - 1" "us ''4294967294''"] by simp

subsection \<open>The digits \<open>fromUint32\<close> stores\<close>

lemma utoaLoop_append: "utoaLoop v acc = utoaLoop v [] @ acc"
proof (induction v arbitrary: acc rule: less_induct)
  case (less v)
  show ?case
  proof (cases "v = 0")
    case False
    then have "v div 10 < v" by simp
    then have IH: "utoaLoop (v div 10) as = utoaLoop (v div 10) [] @ as" for as
      by (rule less)
    have step: "utoaLoop v as = utoaLoop (v div 10) (((48 + v) mod 256) # as)" for as
      using False by (simp add: utoaLoop.simps [of v as])
    show ?thesis
      by (simp add: step IH [of "_ # acc"] IH [of "[_]"])
  qed (simp add: utoaLoop.simps)
qed

lemma utoaLoop_rec: "0 < v \<Longrightarrow> utoaLoop v [] = utoaLoop (v div 10) [] @ [(48 + v) mod 256]"
  by (subst utoaLoop.simps) (simp add: utoaLoop_append [of _ "[_]"])

lemma utoaLoop_neq: "10 \<le> v \<Longrightarrow> utoaLoop v [] \<noteq> itoaLoop v []"
proof (induction v rule: less_induct)
  case (less v)
  show ?case
  proof (cases "v < 100")
    case True
    then have "(48 + v) mod 256 = 48 + v" by simp
    moreover have "v mod 10 < 10" by simp
    ultimately have "(48 + v) mod 256 \<noteq> 48 + v mod 10" using less.prems by linarith
    then show ?thesis using less.prems by (simp add: utoaLoop_rec itoaLoop_rec)
  next
    case False
    then have "v div 10 < v" "10 \<le> v div 10" by auto
    then have "utoaLoop (v div 10) [] \<noteq> itoaLoop (v div 10) []" by (rule less.IH)
    with less.prems show ?thesis by (simp add: utoaLoop_rec [of v] itoaLoop_rec [of v])
  qed
qed

lemma isUint32Only_iff: "v < 2 ^ 32 \<Longrightarrow> isUint32Only v \<longleftrightarrow> 2 ^ 31 \<le> v"
proof -
  assume v: "v < 2 ^ 32"
  let ?w = "word_of_nat v :: 32 word"
  have "isUint32Only v \<longleftrightarrow> bit ?w 31"
    using and_two_power_eq_0 [of ?w 31] by (simp add: isUint32Only_def)
  also have "\<dots> \<longleftrightarrow> bit v 31" by (simp add: bit_simps)
  also have "\<dots> \<longleftrightarrow> 2 ^ 31 \<le> v"
  proof
    assume "bit v 31"
    then show "2 ^ 31 \<le> v" by (auto simp: bit_iff_odd intro: ccontr)
  next
    assume "2 ^ 31 \<le> v"
    with v have "v div 2 ^ 31 = 1" by (intro div_nat_eqI) auto
    then show "bit v 31" by (simp add: bit_iff_odd)
  qed
  finally show ?thesis .
qed

lemma fromUint32_decimal: "fromUint32 v = fromInt32 (int v) \<longleftrightarrow> v < 10"
proof (cases "v = 0")
  case False
  show ?thesis
  proof (cases "v < 10")
    case True
    with False show ?thesis
      by (simp add: fromUint32_def fromInt32_digits utoaLoop_rec itoaLoop_rec
          utoaLoop.simps [of 0] itoaLoop.simps [of 0])
  next
    assume "\<not> v < 10"
    with False utoaLoop_neq [of v] show ?thesis
      by (simp add: fromUint32_def fromInt32_digits)
  qed
qed (simp add: fromUint32_def fromInt32_def)

text \<open>\<open>String::fromUint32(v, state)\<close> prints the decimal numeral of its argument exactly below
  \<open>2 ^ 31\<close>: from there on it calls \<open>fromUint32(v)\<close>, whose loop stores \<open>'0' + v\<close> where the loop of
  \<open>fromInt32\<close> stores \<open>'0' + v % 10\<close>, and the characters are wrong.\<close>

theorem fromUint32State_decimal_iff:
  assumes "v < 2 ^ 32"
  shows "fromUint32State v = fromInt32 (int v) \<longleftrightarrow> v < 2 ^ 31"
  using isUint32Only_iff [OF assms] fromUint32_decimal [of v]
  by (auto simp: fromUint32State_def)

theorem fromUint32State_decimal_iff_witness:
  "fromUint32State 4000000000 \<noteq> fromInt32 4000000000"
  using fromUint32State_decimal_iff [of 4000000000] by simp

text \<open>The string \<open>fromInt32\<close> prints for an \<open>int32_t\<close> has at most 11 characters, so the digit loop and the
  sign stay inside the 11 bytes in front of the terminator of its 12-byte buffer.\<close>

theorem fromInt32_fits_buffer:
  assumes "- (2 ^ 31) \<le> v" and "v < 2 ^ 31"
  shows "length (fromInt32 v) \<le> 11"
proof -
  have "length (itoaLoop n []) \<le> k" if "n < 10 ^ k" for n k
    using that
  proof (induction k arbitrary: n)
    case (Suc k)
    show ?case
    proof (cases "n = 0")
      case False
      have "n div 10 < 10 ^ k" using Suc.prems by (simp add: less_mult_imp_div_less mult.commute)
      then show ?thesis using Suc.IH False by (simp add: itoaLoop_rec)
    qed (simp add: itoaLoop.simps)
  qed (simp add: itoaLoop.simps)
  moreover have "nat \<bar>v\<bar> < 10 ^ 10" using assms by simp
  ultimately have "length (itoaLoop (nat \<bar>v\<bar>) []) \<le> 10" by blast
  then show ?thesis
    by (cases "v < 0") (auto simp: fromInt32_def Let_def)
qed

theorem fromInt32_fits_buffer_witness: "length (fromInt32 (- (2 ^ 31))) \<le> 11"
  using fromInt32_fits_buffer [of "- (2 ^ 31)"] by simp

end
