(* ===== verification/SetAssociativeCache.thy ===== *)
theory SetAssociativeCache
  imports Prelude
begin

text \<open>
  The two content caches of \<open>src/runtime/SetAssociativeCache.h\<close>: \<open>SLRUSetCache\<close>, the two-way
  set-associative cache in front of the atomic-string table, and \<open>ClockCache\<close>, the second-chance
  cache of compiled regular expressions. The contract of a content cache is the locale
  \<open>content_cache\<close>; both caches, with each admission policy, interpret it, so a computation
  memoised through any of them returns what the computation returns.
\<close>

section \<open>The contract\<close>

locale content_cache =
  fixes lookup :: "'c \<Rightarrow> 'k \<Rightarrow> 'v option \<times> 'c"
    and insert :: "'c \<Rightarrow> 'k \<Rightarrow> 'v \<Rightarrow> 'c"
    and admissible :: "'k \<Rightarrow> 'v \<Rightarrow> bool"
    and inv :: "('k \<Rightarrow> 'v \<Rightarrow> bool) \<Rightarrow> 'c \<Rightarrow> bool"
  assumes lookup_sound: "inv R c \<Longrightarrow> lookup c k = (Some v, c') \<Longrightarrow> R k v"
    and lookup_inv: "inv R c \<Longrightarrow> inv R (snd (lookup c k))"
    and insert_inv: "inv R c \<Longrightarrow> admissible k v \<Longrightarrow> R k v \<Longrightarrow> inv R (insert c k v)"
    and inv_mono: "inv R c \<Longrightarrow> (\<And>k v. R k v \<Longrightarrow> S k v) \<Longrightarrow> inv S c"
begin

definition memo :: "('k \<Rightarrow> 'v) \<Rightarrow> 'c \<Rightarrow> 'k \<Rightarrow> 'v \<times> 'c" where
  "memo f c k =
     (case lookup c k of
        (Some v, c') \<Rightarrow> (v, c')
      | (None, c') \<Rightarrow> (f k, insert c' k (f k)))"

fun memos :: "('k \<Rightarrow> 'v) \<Rightarrow> 'c \<Rightarrow> 'k list \<Rightarrow> 'v list \<times> 'c" where
  "memos f c [] = ([], c)"
| "memos f c (k # ks) =
     (let (v, c') = memo f c k; (vs, c'') = memos f c' ks in (v # vs, c''))"

lemma memo_correct:
  assumes "inv (\<lambda>k v. v = f k) c" and "admissible k (f k)"
  shows "fst (memo f c k) = f k" and "inv (\<lambda>k v. v = f k) (snd (memo f c k))"
  using assms lookup_sound [OF assms(1), of k] lookup_inv [OF assms(1), of k]
  by (auto simp: memo_def split: prod.splits option.splits intro: insert_inv)

lemma memos_correct:
  assumes "inv (\<lambda>k v. v = f k) c" and "\<forall>k \<in> set ks. admissible k (f k)"
  shows "fst (memos f c ks) = map f ks"
  using assms
proof (induction ks arbitrary: c)
  case (Cons k ks)
  with memo_correct [of f c k] show ?case
    by (auto simp: Let_def case_prod_beta)
qed simp

end

section \<open>\<open>SLRUSetCache\<close>\<close>

text \<open>
  The number of sets is the template argument; a \<open>String*\<close> is an address, null being 0. A key is
  the list of its bytes, \<open>src[0 .. len)\<close>.
\<close>

abbreviation (input) ways :: nat where "ways \<equiv> 2"
abbreviation (input) maxKeyLength :: nat where "maxKeyLength \<equiv> 16"

record Metadata =
  len :: nat
  buffer :: "nat list"

record SLRUSetCache =
  m_objects :: "addr list"
  m_metadata :: "Metadata list"

definition slru_init :: "nat \<Rightarrow> SLRUSetCache" where
  "slru_init sets =
     \<lparr>m_objects = replicate (sets * ways) 0,
      m_metadata = replicate (sets * ways) \<lparr>len = 0, buffer = replicate maxKeyLength 0\<rparr>\<rparr>"

definition computeHash :: "nat list \<Rightarrow> 32 word" where
  "computeHash src = fold (\<lambda>c hash. (hash XOR of_nat c) * 16777619) src 2166136261"

definition setIndex :: "nat \<Rightarrow> nat list \<Rightarrow> nat" where
  "setIndex sets src = unat (computeHash src) AND (sets - 1)"

text \<open>\<open>obj && meta.len == len && memcmp(meta.buffer, src, len) == 0\<close>\<close>

definition slotHit :: "SLRUSetCache \<Rightarrow> nat \<Rightarrow> nat list \<Rightarrow> bool" where
  "slotHit c i src \<longleftrightarrow>
     m_objects c ! i \<noteq> 0 \<and> len (m_metadata c ! i) = length src \<and>
     take (length src) (buffer (m_metadata c ! i)) = src"

text \<open>\<open>meta.len = len; memcpy(meta.buffer, src, len)\<close>\<close>

definition writeMeta :: "Metadata \<Rightarrow> nat list \<Rightarrow> Metadata" where
  "writeMeta m src = m\<lparr>len := length src, buffer := src @ drop (length src) (buffer m)\<rparr>"

definition slru_lookup :: "nat \<Rightarrow> SLRUSetCache \<Rightarrow> nat list \<Rightarrow> addr option \<times> SLRUSetCache" where
  "slru_lookup sets c src =
     (let baseIdx = setIndex sets src * 2;
          str0 = m_objects c ! (baseIdx + 0);
          str1 = m_objects c ! (baseIdx + 1);
          meta1 = m_metadata c ! (baseIdx + 1)
      in if slotHit c (baseIdx + 0) src then (Some str0, c)
         else if slotHit c (baseIdx + 1) src
         then (let tempStr = m_objects c ! (baseIdx + 0);
                   tempMeta = m_metadata c ! (baseIdx + 0)
               in (Some str1,
                   c\<lparr>m_objects := (m_objects c)[baseIdx + 0 := str1, baseIdx + 1 := tempStr],
                     m_metadata := (m_metadata c)[baseIdx + 0 := meta1, baseIdx + 1 := tempMeta]\<rparr>))
         else (None, c))"

definition insertMRU :: "nat \<Rightarrow> SLRUSetCache \<Rightarrow> nat list \<Rightarrow> addr \<Rightarrow> SLRUSetCache" where
  "insertMRU sets c src resultString =
     (let baseIdx = setIndex sets src * 2;
          objs = (m_objects c)[baseIdx + 1 := m_objects c ! (baseIdx + 0)];
          metas = (m_metadata c)[baseIdx + 1 := m_metadata c ! (baseIdx + 0)]
      in c\<lparr>m_objects := objs[baseIdx + 0 := resultString],
           m_metadata := metas[baseIdx + 0 := writeMeta (metas ! (baseIdx + 0)) src]\<rparr>)"

definition insertProbation :: "nat \<Rightarrow> SLRUSetCache \<Rightarrow> nat list \<Rightarrow> addr \<Rightarrow> SLRUSetCache" where
  "insertProbation sets c src resultString =
     (let baseIdx = setIndex sets src * 2
      in c\<lparr>m_objects := (m_objects c)[baseIdx + 1 := resultString],
           m_metadata := (m_metadata c)[baseIdx + 1 := writeMeta (m_metadata c ! (baseIdx + 1)) src]\<rparr>)"

section \<open>\<open>ClockCache\<close>\<close>

record ('k, 'v) Slot =
  m_key :: 'k
  m_value :: 'v
  m_used :: bool
  m_valid :: bool

record ('k, 'v) ClockCache =
  m_slots :: "('k, 'v) Slot list"
  m_clockHand :: nat

text \<open>\<open>Slot()\<close> value-initialises the key and the value: \<open>k0\<close> and \<open>v0\<close>.\<close>

definition clock_clear :: "nat \<Rightarrow> 'k \<Rightarrow> 'v \<Rightarrow> ('k, 'v) ClockCache" where
  "clock_clear WaysT k0 v0 =
     \<lparr>m_slots = replicate WaysT \<lparr>m_key = k0, m_value = v0, m_used = False, m_valid = False\<rparr>,
      m_clockHand = 0\<rparr>"

definition clock_lookup :: "('k, 'v) ClockCache \<Rightarrow> 'k \<Rightarrow> 'v option \<times> ('k, 'v) ClockCache" where
  "clock_lookup c key =
     (case find_index (\<lambda>slot. m_valid slot \<and> m_key slot = key) (m_slots c) of
        Some i \<Rightarrow> (Some (m_value (m_slots c ! i)),
                   c\<lparr>m_slots := (m_slots c)[i := (m_slots c ! i)\<lparr>m_used := True\<rparr>]\<rparr>)
      | None \<Rightarrow> (None, c))"

text \<open>
  The sweep of \<open>insert\<close>. The guard \<open>hand < length slots\<close> is the array bound, an invariant of the
  hand; the loop ends because each turn clears a used bit.
\<close>

function clockSweep :: "('k, 'v) Slot list \<Rightarrow> nat \<Rightarrow> ('k, 'v) Slot list \<times> nat" where
  "clockSweep slots hand =
     (if hand < length slots \<and> m_used (slots ! hand)
      then clockSweep (slots[hand := (slots ! hand)\<lparr>m_used := False\<rparr>]) ((hand + 1) mod length slots)
      else (slots, hand))"
  by pat_completeness auto

definition usedCount :: "('k, 'v) Slot list \<Rightarrow> nat" where
  "usedCount slots = length (filter m_used slots)"

lemma usedCount_clear:
  "i < length slots \<Longrightarrow> m_used (slots ! i) \<Longrightarrow>
     Suc (usedCount (slots[i := (slots ! i)\<lparr>m_used := False\<rparr>])) = usedCount slots"
proof (induction slots arbitrary: i)
  case (Cons s slots)
  then show ?case by (cases i) (auto simp: usedCount_def)
qed simp

termination clockSweep
  by (relation "measure (\<lambda>(slots, hand). usedCount slots)")
    (auto dest: usedCount_clear)

definition clock_insert :: "('k, 'v) ClockCache \<Rightarrow> 'k \<Rightarrow> 'v \<Rightarrow> ('k, 'v) ClockCache" where
  "clock_insert c key value =
     (let (slots, hand) = clockSweep (m_slots c) (m_clockHand c)
      in c\<lparr>m_slots := slots[hand := \<lparr>m_key = key, m_value = value, m_used = True, m_valid = True\<rparr>],
           m_clockHand := (hand + 1) mod length (m_slots c)\<rparr>)"

declare clockSweep.simps [simp del]

section \<open>\<open>SLRUSetCache\<close> keeps the contract\<close>

text \<open>
  The invariant: the two arrays have one element per way of each set, and a live way holds a value
  related to the key its metadata spells.
\<close>

definition slot_key :: "Metadata \<Rightarrow> nat list" where
  "slot_key m = take (len m) (buffer m)"

definition slot_ok :: "(nat list \<Rightarrow> addr \<Rightarrow> bool) \<Rightarrow> addr \<Rightarrow> Metadata \<Rightarrow> bool" where
  "slot_ok R p m \<longleftrightarrow>
     length (buffer m) = maxKeyLength \<and> len m \<le> maxKeyLength \<and> (p \<noteq> 0 \<longrightarrow> R (slot_key m) p)"

definition slru_inv :: "nat \<Rightarrow> (nat list \<Rightarrow> addr \<Rightarrow> bool) \<Rightarrow> SLRUSetCache \<Rightarrow> bool" where
  "slru_inv sets R c \<longleftrightarrow>
     0 < sets \<and> length (m_objects c) = sets * ways \<and> length (m_metadata c) = sets * ways \<and>
     (\<forall>i < sets * ways. slot_ok R (m_objects c ! i) (m_metadata c ! i))"

lemma setIndex_less: "0 < sets \<Longrightarrow> setIndex sets src < sets"
proof -
  assume "0 < sets"
  have "int (setIndex sets src) \<le> int (sets - 1)"
    unfolding setIndex_def of_nat_and_eq by (rule AND_upper2) simp
  with \<open>0 < sets\<close> show ?thesis by linarith
qed

lemma setIndex_slots:
  "0 < sets \<Longrightarrow> setIndex sets src * 2 < sets * 2 \<and> Suc (setIndex sets src * 2) < sets * 2"
  using setIndex_less [of sets src] by simp

lemma slot_ok_write:
  "slot_ok S p' m \<Longrightarrow> length src \<le> maxKeyLength \<Longrightarrow> R src p \<Longrightarrow> slot_ok R p (writeMeta m src)"
  by (simp add: slot_ok_def writeMeta_def slot_key_def)

lemma slotHit_key: "slotHit c i src \<Longrightarrow> slot_key (m_metadata c ! i) = src \<and> m_objects c ! i \<noteq> 0"
  by (simp add: slotHit_def slot_key_def)

lemma slru_inv_init: "0 < sets \<Longrightarrow> slru_inv sets R (slru_init sets)"
  by (simp add: slru_inv_def slru_init_def slot_ok_def)

lemma slru_lookup_sound:
  assumes inv: "slru_inv sets R c" and hit: "slru_lookup sets c src = (Some p, c')"
  shows "R src p"
proof -
  let ?b = "setIndex sets src * 2"
  from inv have b: "?b < sets * 2" "Suc ?b < sets * 2"
    using setIndex_slots [of sets src] by (auto simp only: slru_inv_def)
  obtain i where i: "i = ?b \<or> i = Suc ?b" "slotHit c i src" "p = m_objects c ! i"
    using hit by (fastforce simp: slru_lookup_def Let_def split: if_splits)
  with b have "i < sets * 2" by auto
  with inv slotHit_key [OF i(2)] i(3) show ?thesis
    by (auto simp: slru_inv_def slot_ok_def)
qed

lemma slru_lookup_inv: "slru_inv sets R c \<Longrightarrow> slru_inv sets R (snd (slru_lookup sets c src))"
  using setIndex_slots [of sets src]
  by (auto simp: slru_lookup_def slru_inv_def Let_def nth_list_update)

lemma insertMRU_inv:
  "slru_inv sets R c \<Longrightarrow> length src \<le> maxKeyLength \<Longrightarrow> R src p \<Longrightarrow> slru_inv sets R (insertMRU sets c src p)"
  using setIndex_slots [of sets src]
    slot_ok_write [of R "m_objects c ! (setIndex sets src * 2)" "m_metadata c ! (setIndex sets src * 2)" src R p]
  by (auto simp: insertMRU_def slru_inv_def Let_def nth_list_update)

lemma insertProbation_inv:
  "slru_inv sets R c \<Longrightarrow> length src \<le> maxKeyLength \<Longrightarrow> R src p \<Longrightarrow> slru_inv sets R (insertProbation sets c src p)"
  using setIndex_slots [of sets src]
    slot_ok_write [of R "m_objects c ! Suc (setIndex sets src * 2)" "m_metadata c ! Suc (setIndex sets src * 2)" src R p]
  by (auto simp: insertProbation_def slru_inv_def Let_def nth_list_update)

lemma slru_inv_mono: "slru_inv sets R c \<Longrightarrow> (\<And>k v. R k v \<Longrightarrow> S k v) \<Longrightarrow> slru_inv sets S c"
  by (auto simp: slru_inv_def slot_ok_def)

interpretation slru_mru: content_cache "slru_lookup sets" "insertMRU sets"
  "\<lambda>k v. length k \<le> maxKeyLength" "slru_inv sets" for sets
  by unfold_locales
    (fact slru_lookup_sound slru_lookup_inv insertMRU_inv slru_inv_mono)+

interpretation slru_probation: content_cache "slru_lookup sets" "insertProbation sets"
  "\<lambda>k v. length k \<le> maxKeyLength" "slru_inv sets" for sets
  by unfold_locales
    (fact slru_lookup_sound slru_lookup_inv insertProbation_inv slru_inv_mono)+

section \<open>\<open>ClockCache\<close> keeps the contract\<close>

definition clock_inv :: "('k \<Rightarrow> 'v \<Rightarrow> bool) \<Rightarrow> ('k, 'v) ClockCache \<Rightarrow> bool" where
  "clock_inv R c \<longleftrightarrow>
     m_clockHand c < length (m_slots c) \<and>
     (\<forall>s \<in> set (m_slots c). m_valid s \<longrightarrow> R (m_key s) (m_value s))"

text \<open>A sweep only clears used bits.\<close>

definition same_entry :: "('k, 'v) Slot \<Rightarrow> ('k, 'v) Slot \<Rightarrow> bool" where
  "same_entry s t \<longleftrightarrow> m_key s = m_key t \<and> m_value s = m_value t \<and> m_valid s = m_valid t"

lemma clockSweep_props:
  assumes "hand < length slots" and "clockSweep slots hand = (slots', hand')"
  shows "length slots' = length slots \<and> hand' < length slots' \<and> \<not> m_used (slots' ! hand') \<and>
    list_all2 same_entry slots' slots"
  using assms
proof (induction slots hand rule: clockSweep.induct)
  case (1 slots hand)
  show ?case
  proof (cases "m_used (slots ! hand)")
    case True
    let ?slots = "slots[hand := (slots ! hand)\<lparr>m_used := False\<rparr>]"
    have "clockSweep ?slots ((hand + 1) mod length slots) = (slots', hand')"
      using 1(3) 1(2) True by (simp add: clockSweep.simps [of slots hand])
    moreover have "(hand + 1) mod length slots < length ?slots"
      using 1(2) by (simp add: mod_less_divisor [OF le_less_trans])
    ultimately have "length slots' = length ?slots \<and> hand' < length slots' \<and>
        \<not> m_used (slots' ! hand') \<and> list_all2 same_entry slots' ?slots"
      using 1 True by blast
    moreover have "list_all2 same_entry ?slots slots"
      using 1(2) by (auto simp: list_all2_conv_all_nth nth_list_update same_entry_def)
    ultimately show ?thesis
      by (simp add: list_all2_conv_all_nth same_entry_def)
  next
    case False
    with 1 show ?thesis
      by (subst (asm) clockSweep.simps) (simp add: list_all2_refl same_entry_def)
  qed
qed

lemma clock_inv_clear: "0 < w \<Longrightarrow> clock_inv R (clock_clear w k0 v0)"
  by (simp add: clock_inv_def clock_clear_def)

lemma clock_lookup_sound: "clock_inv R c \<Longrightarrow> clock_lookup c k = (Some v, c') \<Longrightarrow> R k v"
  by (auto simp: clock_lookup_def clock_inv_def split: option.splits dest!: find_index_SomeD)

lemma clock_lookup_inv: "clock_inv R c \<Longrightarrow> clock_inv R (snd (clock_lookup c k))"
  by (auto simp: clock_lookup_def clock_inv_def all_set_conv_all_nth nth_list_update
      split: option.splits if_splits dest!: find_index_SomeD)

lemma clock_insert_inv:
  assumes "clock_inv R c" "R k v"
  shows "clock_inv R (clock_insert c k v)"
proof -
  obtain slots' hand' where sw: "clockSweep (m_slots c) (m_clockHand c) = (slots', hand')"
    by fastforce
  with assms clockSweep_props [OF _ sw]
  have "length slots' = length (m_slots c)" "hand' < length slots'"
    "list_all2 same_entry slots' (m_slots c)" "0 < length (m_slots c)"
    by (auto simp: clock_inv_def)
  with assms sw show ?thesis
    by (auto simp: clock_insert_def clock_inv_def all_set_conv_all_nth nth_list_update
        list_all2_conv_all_nth same_entry_def)
qed

lemma clock_inv_mono: "clock_inv R c \<Longrightarrow> (\<And>k v. R k v \<Longrightarrow> S k v) \<Longrightarrow> clock_inv S c"
  by (auto simp: clock_inv_def)

interpretation clock: content_cache clock_lookup clock_insert "\<lambda>k v. True" clock_inv
  by unfold_locales
    (fact clock_lookup_sound clock_lookup_inv clock_inv_mono | simp add: clock_insert_inv)+

section \<open>What an admission does to the next lookup\<close>

lemma slru_lookup_None:
  "slru_lookup sets c src = (None, c') \<longleftrightarrow>
     \<not> slotHit c (setIndex sets src * 2) src \<and> \<not> slotHit c (Suc (setIndex sets src * 2)) src \<and> c' = c"
  by (auto simp: slru_lookup_def Let_def)

lemma slru_lookup_way0:
  "slotHit c (setIndex sets src * 2) src \<Longrightarrow>
     slru_lookup sets c src = (Some (m_objects c ! (setIndex sets src * 2)), c)"
  by (simp add: slru_lookup_def Let_def)

lemma slotHit_probation_even:
  "slotHit (insertProbation sets c src p) (i * 2) src' = slotHit c (i * 2) src'"
  "m_objects (insertProbation sets c src p) ! (i * 2) = m_objects c ! (i * 2)"
proof -
  have "Suc (setIndex sets src * 2) \<noteq> i * 2" by presburger
  then show "slotHit (insertProbation sets c src p) (i * 2) src' = slotHit c (i * 2) src'"
    "m_objects (insertProbation sets c src p) ! (i * 2) = m_objects c ! (i * 2)"
    by (auto simp: slotHit_def insertProbation_def Let_def)
qed

lemma slotHit_probation_odd:
  assumes "slru_inv sets R c" "length src \<le> 16" "p \<noteq> 0"
  shows "slotHit (insertProbation sets c src p) (Suc (setIndex sets src * 2)) src"
    and "m_objects (insertProbation sets c src p) ! Suc (setIndex sets src * 2) = p"
  using assms setIndex_slots [of sets src]
  by (auto simp: slru_inv_def slotHit_def insertProbation_def writeMeta_def Let_def)

lemma slru_lookup_way1:
  assumes "\<not> slotHit c (setIndex sets src * 2) src" "slotHit c (Suc (setIndex sets src * 2)) src"
  shows "fst (slru_lookup sets c src) = Some (m_objects c ! Suc (setIndex sets src * 2))"
  using assms by (simp add: slru_lookup_def Let_def)

text \<open>
  The hand stops at the first slot, cyclically from where it stood, whose used bit was clear.
\<close>

lemma clockSweep_stop:
  assumes "hand < length slots" "d < length slots"
    and "\<forall>e < d. m_used (slots ! ((hand + e) mod length slots))"
    and "\<not> m_used (slots ! ((hand + d) mod length slots))"
  shows "snd (clockSweep slots hand) = (hand + d) mod length slots"
  using assms
proof (induction d arbitrary: slots hand)
  case 0
  then show ?case by (simp add: clockSweep.simps [of slots hand])
next
  case (Suc d)
  let ?n = "length slots"
  let ?slots = "slots[hand := (slots ! hand)\<lparr>m_used := False\<rparr>]"
  have used: "m_used (slots ! hand)" using Suc.prems(1,3) by force
  have other: "?slots ! ((Suc hand + e) mod ?n) = slots ! ((hand + Suc e) mod ?n)" if "Suc e < ?n" for e
  proof -
    have "(hand + Suc e) mod ?n \<noteq> hand"
      using Suc.prems(1) that by (cases "hand + Suc e < ?n") (simp_all add: le_mod_geq)
    then show ?thesis by simp
  qed
  have "snd (clockSweep ?slots (Suc hand mod ?n)) = (Suc hand mod ?n + d) mod length ?slots"
  proof (rule Suc.IH)
    show "Suc hand mod ?n < length ?slots" using Suc.prems(1) by (simp add: mod_less_divisor [OF le_less_trans])
    show "d < length ?slots" using Suc.prems(2) by simp
    show "\<forall>e < d. m_used (?slots ! ((Suc hand mod ?n + e) mod length ?slots))"
      using Suc.prems(2,3) other by (auto simp: mod_simps)
    show "\<not> m_used (?slots ! ((Suc hand mod ?n + d) mod length ?slots))"
      using Suc.prems(2,4) other by (auto simp: mod_simps)
  qed
  with used Suc.prems(1) show ?case
    by (simp add: clockSweep.simps [of slots hand] mod_simps)
qed

lemma clockSweep_second_chance:
  assumes "hand < length slots" "i < length slots" "\<not> m_used (slots ! i)"
  shows "\<not> m_used (slots ! snd (clockSweep slots hand))"
  using first_cyclic [of i "length slots" hand "\<lambda>j. m_used (slots ! j)"] assms clockSweep_stop [of hand slots]
  by metis

section \<open>Properties\<close>

text \<open>A computation memoised through \<open>SLRUSetCache\<close> with the probation admission policy, starting from
  the state \<open>init\<close> leaves, returns for every sequence of keys of at most \<open>maxKeyLength\<close> bytes what
  the computation itself returns: hits, promotions, evictions and hash collisions never change a result.\<close>

theorem slru_memo_transparent:
  assumes "0 < sets" and "\<forall>k \<in> set ks. length k \<le> maxKeyLength"
  shows "fst (content_cache.memos (slru_lookup sets) (insertProbation sets) f (slru_init sets) ks) = map f ks"
  using assms by (intro slru_probation.memos_correct) (auto intro: slru_inv_init)

theorem slru_memo_transparent_witness:
  "fst (content_cache.memos (slru_lookup 2) (insertProbation 2) (\<lambda>k. of_nat (length k) + 16)
     (slru_init 2) [[97], [98, 99], [97]]) = [17, 18, 17]"
  using slru_memo_transparent [of 2 "[[97], [98, 99], [97]]" "\<lambda>k. of_nat (length k) + 16"] by simp

text \<open>\<open>insertProbation\<close> after a miss makes the next lookup of that key return the inserted string, and
  an entry that sits in a protected way (way 0) of any set is still found with its own value: content
  seen once cannot evict it.\<close>

theorem insertProbation_admission:
  assumes "slru_inv sets R c" and "length src \<le> maxKeyLength" and "p \<noteq> 0"
    and "fst (slru_lookup sets c src) = None"
  shows "fst (slru_lookup sets (insertProbation sets c src p) src) = Some p \<and>
    (\<forall>src'. slotHit c (setIndex sets src' * 2) src' \<longrightarrow>
       fst (slru_lookup sets (insertProbation sets c src p) src') = fst (slru_lookup sets c src'))"
proof
  have miss: "\<not> slotHit c (setIndex sets src * 2) src"
    using assms(4) slru_lookup_way0 by fastforce
  show "fst (slru_lookup sets (insertProbation sets c src p) src) = Some p"
    using slotHit_probation_odd [OF assms(1-3)] slotHit_probation_even(1) [of sets c src p "setIndex sets src" src] miss
    by (simp add: slru_lookup_way1)
  show "\<forall>src'. slotHit c (setIndex sets src' * 2) src' \<longrightarrow>
       fst (slru_lookup sets (insertProbation sets c src p) src') = fst (slru_lookup sets c src')"
    using slotHit_probation_even [of sets c src p]
    by (simp add: slru_lookup_way0)
qed

theorem insertProbation_admission_witness:
  "fst (slru_lookup 1 (insertProbation 1 (slru_init 1) [97, 98] 64) [97, 98]) = Some 64"
  using insertProbation_admission [of 1 "\<lambda>k v. True" "slru_init 1" "[97, 98]" 64]
    slru_inv_init [of 1 "\<lambda>k v. True"]
  by (simp add: slru_lookup_def slru_init_def slotHit_def setIndex_def)

text \<open>\<open>ClockCache::insert\<close> after a miss makes the key found with its value, and it gives every recently
  used slot its second chance: when some slot has its used bit clear, each slot whose bit is set keeps
  its key, value and validity.\<close>

theorem clock_insert_second_chance:
  assumes "clock_inv R c" and "fst (clock_lookup c k) = None"
  shows "fst (clock_lookup (clock_insert c k v) k) = Some v \<and>
    ((\<exists>i < length (m_slots c). \<not> m_used (m_slots c ! i)) \<longrightarrow>
     (\<forall>j < length (m_slots c). m_used (m_slots c ! j) \<longrightarrow>
        same_entry (m_slots (clock_insert c k v) ! j) (m_slots c ! j)))"
proof -
  obtain slots' hand' where sw: "clockSweep (m_slots c) (m_clockHand c) = (slots', hand')"
    by fastforce
  have hand: "m_clockHand c < length (m_slots c)" using assms(1) by (simp add: clock_inv_def)
  note props = clockSweep_props [OF hand sw]
  have miss: "\<not> (m_valid s \<and> m_key s = k)" if "s \<in> set slots'" for s
    using assms(2) props that
    by (fastforce simp: clock_lookup_def find_index_None in_set_conv_nth list_all2_conv_all_nth
        same_entry_def split: option.splits)
  let ?s = "\<lparr>m_key = k, m_value = v, m_used = True, m_valid = True\<rparr>"
  have "find_index (\<lambda>slot. m_valid slot \<and> m_key slot = k) (slots'[hand' := ?s]) = Some hand'"
    using props miss by (intro find_index_SomeI) auto
  then have "fst (clock_lookup (clock_insert c k v) k) = Some v"
    using sw props by (simp add: clock_lookup_def clock_insert_def)
  moreover have "same_entry (m_slots (clock_insert c k v) ! j) (m_slots c ! j)"
    if "i < length (m_slots c)" "\<not> m_used (m_slots c ! i)" "j < length (m_slots c)" "m_used (m_slots c ! j)" for i j
    using clockSweep_second_chance [OF hand that(1,2)] that(3,4) sw props
    by (auto simp: clock_insert_def nth_list_update list_all2_conv_all_nth)
  ultimately show ?thesis by blast
qed

theorem clock_insert_second_chance_witness:
  "fst (clock_lookup (clock_insert (clock_clear 2 (0 :: nat) (0 :: nat)) 5 7) 5) = Some 7"
  using clock_insert_second_chance [of "\<lambda>k v. True" "clock_clear 2 (0 :: nat) (0 :: nat)" 5 7]
    clock_inv_clear [of 2 "\<lambda>k v. True" "0 :: nat" "0 :: nat"]
  by (simp add: clock_lookup_def clock_clear_def numeral_2_eq_2)

end
