(* ===== verification/PropertyName.thy ===== *)
theory PropertyName
  imports Strings SetAssociativeCache
begin

text \<open>
  Interned strings and property names: \<open>AtomicString::init\<close> and the \<open>AtomicString(Context*, String*)\<close>
  constructor (\<open>src/runtime/AtomicString.cpp\<close>, \<open>AtomicString.h\<close>), the tagged word of
  \<open>ObjectStructurePropertyName\<close> (\<open>src/runtime/ObjectStructurePropertyName.h\<close>) and its \<open>ToPropertyKey\<close>
  constructor (\<open>src/runtime/Object.cpp\<close>). The lemmas show that interning keeps one string per content
  and that the pointer comparisons of \<open>operator==\<close> decide equality of property keys.
\<close>

section \<open>Strings and symbols in memory\<close>

text \<open>
  \<open>StringCell tag content has8Bit isView\<close>: the members of \<open>String\<close> the code of this theory reads;
  \<open>isView\<close> is \<open>isStringView() || isCompressibleString() || isReloadableString()\<close>.
\<close>

datatype heap_cell =
  StringCell (m_typeTag: u64) (cellContent: ustring) (cellHas8Bit: bool) (cellIsView: bool)
| SymbolCell (symbolDescription: ustring)

text \<open>
  The state the constructors share: memory, the atomic-string table, the empty string of the thread,
  the table of one-character strings and the lookup cache of the VM instance.
\<close>

record atom_state =
  heap :: "addr \<Rightarrow> heap_cell option"
  atomicStringMap :: "addr list"
  emptyString :: addr
  asciiTable :: "addr list"
  m_atomicStringLookupCache :: SLRUSetCache

abbreviation (input) STRING_TAG :: u64 where "STRING_TAG \<equiv> 1"
abbreviation (input) SYMBOL_TAG :: u64 where "SYMBOL_TAG \<equiv> 2"

definition getTypeTag :: "atom_state \<Rightarrow> addr \<Rightarrow> u64" where
  "getTypeTag st p = (case heap st p of
     Some (StringCell tag _ _ _) \<Rightarrow> tag | Some (SymbolCell _) \<Rightarrow> SYMBOL_TAG | None \<Rightarrow> 0)"

definition isSymbolPointer :: "atom_state \<Rightarrow> addr \<Rightarrow> bool" where
  "isSymbolPointer st p \<longleftrightarrow> getTypeTag st p = SYMBOL_TAG"

definition content :: "atom_state \<Rightarrow> addr \<Rightarrow> ustring" where
  "content st p = (case heap st p of Some (StringCell _ s _ _) \<Rightarrow> s | _ \<Rightarrow> [])"

definition has8BitContent :: "atom_state \<Rightarrow> addr \<Rightarrow> bool" where
  "has8BitContent st p = (case heap st p of Some (StringCell _ _ b _) \<Rightarrow> b | _ \<Rightarrow> False)"

definition isView :: "atom_state \<Rightarrow> addr \<Rightarrow> bool" where
  "isView st p = (case heap st p of Some (StringCell _ _ _ v) \<Rightarrow> v | _ \<Rightarrow> False)"

definition isAtomicStringSource :: "atom_state \<Rightarrow> addr \<Rightarrow> bool" where
  "isAtomicStringSource st p \<longleftrightarrow> getTypeTag st p > STRING_TAG"

definition canonicalAtomicString :: "atom_state \<Rightarrow> addr \<Rightarrow> addr" where
  "canonicalAtomicString st p = getTypeTag st p AND NOT STRING_TAG"

section \<open>Interning\<close>

text \<open>The table is a hash set of strings by content; \<open>find\<close> returns the member with that content.\<close>

definition findAtom :: "atom_state \<Rightarrow> ustring \<Rightarrow> addr option" where
  "findAtom st s = List.find (\<lambda>a. stringEquals (content st a) s) (atomicStringMap st)"

definition setTag :: "addr \<Rightarrow> u64 \<Rightarrow> atom_state \<Rightarrow> atom_state" where
  "setTag p tag st = (case heap st p of
     Some (StringCell _ s b v) \<Rightarrow> st\<lparr>heap := (heap st)(p := Some (StringCell tag s b v))\<rparr>
   | _ \<Rightarrow> st)"

definition insertAtom :: "addr \<Rightarrow> atom_state \<Rightarrow> atom_state" where
  "insertAtom p st = st\<lparr>atomicStringMap := p # atomicStringMap st\<rparr>"

text \<open>A new string object; \<open>fresh\<close> is the address the allocator returns.\<close>

definition newString :: "addr \<Rightarrow> ustring \<Rightarrow> bool \<Rightarrow> atom_state \<Rightarrow> atom_state" where
  "newString fresh s has8Bit st =
     st\<lparr>heap := (heap st)(fresh := Some (StringCell STRING_TAG s has8Bit False))\<rparr>"

text \<open>
  The copy of a view, \<open>String::fromLatin1(buffer)\<close> or \<open>new UTF16String(buffer)\<close>.
\<close>

definition copyString :: "addr \<Rightarrow> addr \<Rightarrow> atom_state \<Rightarrow> addr \<times> atom_state" where
  "copyString fresh p st =
     (if has8BitContent st p \<and> content st p = [] then (emptyString st, st)
      else (fresh, newString fresh (content st p) (has8BitContent st p) st))"

definition initInMap :: "addr \<Rightarrow> addr \<Rightarrow> atom_state \<Rightarrow> addr \<times> atom_state" where
  "initInMap fresh name st =
     (if isAtomicStringSource st name then (canonicalAtomicString st name, st)
      else case findAtom st (content st name) of
        None \<Rightarrow>
          (let (name', st') = (if isView st name then copyString fresh name st else (name, st))
           in (name', setTag name' (STRING_TAG OR name') (insertAtom name' st')))
      | Some a \<Rightarrow> (a, setTag name (STRING_TAG OR a) st))"

abbreviation (input) atomicStringLookupCacheSets :: nat where "atomicStringLookupCacheSets \<equiv> 128"

definition initInContext :: "addr \<Rightarrow> addr \<Rightarrow> atom_state \<Rightarrow> addr \<times> atom_state" where
  "initInContext fresh name st =
     (if has8BitContent st name \<and> length (content st name) \<le> 16
      then (case slru_lookup atomicStringLookupCacheSets (m_atomicStringLookupCache st) (content st name) of
              (Some hit, cache) \<Rightarrow> (hit, st\<lparr>m_atomicStringLookupCache := cache\<rparr>)
            | (None, cache) \<Rightarrow>
                (let buf = content st name;
                     (a, st') = initInMap fresh name (st\<lparr>m_atomicStringLookupCache := cache\<rparr>)
                 in (a, st'\<lparr>m_atomicStringLookupCache :=
                          insertProbation atomicStringLookupCacheSets (m_atomicStringLookupCache st') buf a\<rparr>)))
      else initInMap fresh name st)"

definition atomicString :: "addr \<Rightarrow> addr \<Rightarrow> atom_state \<Rightarrow> addr \<times> atom_state" where
  "atomicString fresh name st =
     (if isAtomicStringSource st name then (canonicalAtomicString st name, st)
      else initInContext fresh name st)"

text \<open>\<open>AtomicString::init(AtomicStringMap*, const LChar*, size_t)\<close>, for text that is not yet a string.\<close>

definition initLatin1 :: "addr \<Rightarrow> ustring \<Rightarrow> atom_state \<Rightarrow> addr \<times> atom_state" where
  "initLatin1 fresh src st =
     (case findAtom st src of
        None \<Rightarrow>
          (fresh, setTag fresh (STRING_TAG OR fresh) (insertAtom fresh (newString fresh src True st)))
      | Some a \<Rightarrow> (a, st))"

text \<open>\<open>AtomicString::init(AtomicStringMap*, const char16_t*, size_t)\<close>\<close>

definition initUTF16 :: "addr \<Rightarrow> ustring \<Rightarrow> atom_state \<Rightarrow> addr \<times> atom_state" where
  "initUTF16 fresh src st =
     (case findAtom st src of
        None \<Rightarrow>
          (let (newStr, st') =
                 (if list_all (\<lambda>c. c < 256) src
                  then if src = [] then (emptyString st, st) else (fresh, newString fresh src True st)
                  else (fresh, newString fresh src False st))
           in (newStr, setTag newStr (STRING_TAG OR newStr) (insertAtom newStr st')))
      | Some a \<Rightarrow> (a, st))"

definition hasAtom :: "ustring \<Rightarrow> atom_state \<Rightarrow> addr option" where
  "hasAtom src st = findAtom st src"

section \<open>Property names\<close>

type_synonym pname = u64

abbreviation (input) ATOMIC_VIAS :: u64 where "ATOMIC_VIAS \<equiv> 1"

definition nameOfAtomicString :: "addr \<Rightarrow> pname" where
  "nameOfAtomicString a = a OR ATOMIC_VIAS"

definition nameOfSymbol :: "addr \<Rightarrow> pname" where
  "nameOfSymbol p = p"

definition emptyPropertyName :: "atom_state \<Rightarrow> pname" where
  "emptyPropertyName st = emptyString st OR ATOMIC_VIAS"

definition hasAtomicString :: "pname \<Rightarrow> bool" where
  "hasAtomicString d \<longleftrightarrow> d AND ATOMIC_VIAS \<noteq> 0"

definition hasSymbol :: "atom_state \<Rightarrow> pname \<Rightarrow> bool" where
  "hasSymbol st d \<longleftrightarrow> isSymbolPointer st d"

definition isSymbol :: "atom_state \<Rightarrow> pname \<Rightarrow> bool" where
  "isSymbol st d \<longleftrightarrow> (if hasAtomicString d then False else isSymbolPointer st d)"

definition isPlainString :: "atom_state \<Rightarrow> pname \<Rightarrow> bool" where
  "isPlainString st d \<longleftrightarrow> (if hasAtomicString d then True else \<not> hasSymbol st d)"

definition plainString :: "pname \<Rightarrow> addr" where
  "plainString d = (if hasAtomicString d then d - ATOMIC_VIAS else d)"

definition asAtomicString :: "pname \<Rightarrow> addr" where
  "asAtomicString d = d - ATOMIC_VIAS"

definition nameIsIndexString :: "atom_state \<Rightarrow> pname \<Rightarrow> bool" where
  "nameIsIndexString st d \<longleftrightarrow> isPlainString st d \<and> isIndexString (content st (plainString d))"

definition nameTryToUseAsIndexProperty :: "atom_state \<Rightarrow> pname \<Rightarrow> nat" where
  "nameTryToUseAsIndexProperty st d =
     (if isPlainString st d then tryToUseAsIndexProperty (content st (plainString d)) else 2 ^ 32 - 1)"

definition nameEqualsString :: "atom_state \<Rightarrow> pname \<Rightarrow> addr \<Rightarrow> bool" where
  "nameEqualsString st d s \<longleftrightarrow>
     isPlainString st d \<and> (s = plainString d \<or> stringEquals (content st (plainString d)) (content st s))"

text \<open>\<open>operator==(const ObjectStructurePropertyName&, const ObjectStructurePropertyName&)\<close>\<close>

definition nameEq :: "atom_state \<Rightarrow> pname \<Rightarrow> pname \<Rightarrow> bool" where
  "nameEq st a b =
     (let aa = hasAtomicString a; ab = hasAtomicString b
      in if aa \<and> ab then a = b
         else let sa = \<not> aa \<and> hasSymbol st a; sb = \<not> ab \<and> hasSymbol st b
              in if sa \<and> sb then a = b
                 else if \<not> sa \<and> \<not> sb then stringEquals (content st (plainString a)) (content st (plainString b))
                 else False)"

text \<open>\<open>operator==(const ObjectStructurePropertyName&, const AtomicString&)\<close>\<close>

definition nameEqAtomic :: "atom_state \<Rightarrow> pname \<Rightarrow> addr \<Rightarrow> bool" where
  "nameEqAtomic st a b =
     (if hasAtomicString a then asAtomicString a = b
      else if \<not> hasSymbol st a then stringEquals (content st (plainString a)) (content st b)
      else False)"

text \<open>
  \<open>hashValue\<close>: \<open>std::hash\<close> of the pointer of an atomic string, the pointer of a symbol, the content
  hash of a plain string. The two hash functions are arguments.
\<close>

definition hashValue :: "(addr \<Rightarrow> u64) \<Rightarrow> (ustring \<Rightarrow> u64) \<Rightarrow> atom_state \<Rightarrow> pname \<Rightarrow> u64" where
  "hashValue ptrHash strHash st d =
     (if hasAtomicString d then ptrHash (asAtomicString d)
      else if hasSymbol st d then d
      else strHash (content st d))"

text \<open>
  The \<open>ToPropertyKey\<close> constructor on a value that \<open>toPrimitive\<close> and \<open>toString\<close> have already made a
  symbol or a string: \<open>p\<close> is its address.
\<close>

definition toPropertyName :: "addr \<Rightarrow> addr \<Rightarrow> atom_state \<Rightarrow> pname \<times> atom_state" where
  "toPropertyName fresh p st =
     (if isSymbolPointer st p then (p, st)
      else let v = getTypeTag st p
           in if v > STRING_TAG then (v, st)
              else case content st p of
                [] \<Rightarrow> (emptyString st OR ATOMIC_VIAS, st)
              | c # _ \<Rightarrow>
                  (let needsRemainNormalString =
                         (c = unit_of (CHR ''.'') \<or> is_digit c) \<and> length (content st p) > 16
                   in if needsRemainNormalString then (p, st)
                      else if c < 256 \<and> length (content st p) = 1
                      then (asciiTable st ! c OR ATOMIC_VIAS, st)
                      else let (a, st') = atomicString fresh p st in (a OR ATOMIC_VIAS, st')))"

section \<open>The invariant of the interned strings\<close>

definition is_string :: "atom_state \<Rightarrow> addr \<Rightarrow> bool" where
  "is_string st p \<longleftrightarrow> (\<exists>tag s b v. heap st p = Some (StringCell tag s b v))"

text \<open>The atom a string's tag may name: itself or a table member with the same content.\<close>

definition tag_ok :: "atom_state \<Rightarrow> addr \<Rightarrow> bool" where
  "tag_ok st p \<longleftrightarrow> getTypeTag st p = STRING_TAG \<or>
     (\<exists>a \<in> set (atomicStringMap st). getTypeTag st p = STRING_TAG OR a \<and> content st a = content st p)"

definition atoms_ok :: "atom_state \<Rightarrow> bool" where
  "atoms_ok st \<longleftrightarrow>
     (\<forall>p. heap st p \<noteq> None \<longrightarrow> p \<noteq> 0 \<and> \<not> bit p 0) \<and>
     (\<forall>p. is_string st p \<longrightarrow> tag_ok st p) \<and>
     (\<forall>a \<in> set (atomicStringMap st). is_string st a) \<and>
     distinct (map (content st) (atomicStringMap st)) \<and>
     emptyString st \<in> set (atomicStringMap st) \<and> content st (emptyString st) = [] \<and>
     length (asciiTable st) = 256 \<and>
     (\<forall>c < 256. asciiTable st ! c \<in> set (atomicStringMap st) \<and> content st (asciiTable st ! c) = [c]) \<and>
     slru_inv atomicStringLookupCacheSets (\<lambda>k a. a \<in> set (atomicStringMap st) \<and> content st a = k)
       (m_atomicStringLookupCache st)"

text \<open>An address the allocator may return.\<close>

definition fresh_ok :: "atom_state \<Rightarrow> addr \<Rightarrow> bool" where
  "fresh_ok st p \<longleftrightarrow> heap st p = None \<and> p \<noteq> 0 \<and> \<not> bit p 0"

lemma atoms_okD:
  assumes "atoms_ok st"
  shows "heap st p \<noteq> None \<Longrightarrow> p \<noteq> 0 \<and> \<not> bit p 0"
    and "is_string st p \<Longrightarrow> tag_ok st p"
    and "a \<in> set (atomicStringMap st) \<Longrightarrow> is_string st a"
    and "distinct (map (content st) (atomicStringMap st))"
    and "emptyString st \<in> set (atomicStringMap st)" "content st (emptyString st) = []"
    and "c < 256 \<Longrightarrow> asciiTable st ! c \<in> set (atomicStringMap st) \<and> content st (asciiTable st ! c) = [c]"
  using assms by (auto simp: atoms_ok_def)

subsection \<open>Tagged addresses\<close>

lemma or_one_add: "\<not> bit (p :: u64) 0 \<Longrightarrow> p OR 1 = p + 1"
  by (rule disjunctive_add_eq_or [symmetric]) (auto intro!: bit_eqI simp: bit_simps)

lemma or_one_minus [simp]: "\<not> bit (p :: u64) 0 \<Longrightarrow> (p OR 1) - 1 = p"
  by (simp add: or_one_add)

lemma or_one_mask [simp]: "\<not> bit (p :: u64) 0 \<Longrightarrow> (1 OR p) AND NOT 1 = p"
proof (rule bit_eqI)
  fix n
  assume "\<not> bit p 0"
  then show "bit ((1 OR p) AND NOT 1) n = bit p n"
    by (cases n) (auto simp: bit_simps dest: bit_imp_le_length)
qed

lemma or_one_gt: "p \<noteq> 0 \<Longrightarrow> \<not> bit (p :: u64) 0 \<Longrightarrow> 1 OR p > 1"
proof -
  assume "p \<noteq> 0" "\<not> bit p 0"
  then have "1 OR p \<noteq> 0" "1 OR p \<noteq> 1"
    using or_one_mask [of p] by auto
  then show ?thesis by (metis word_neq_0_conv word_less_1 linorder_neqE word_gt_0)
qed

lemma hasAtomicString_bit: "hasAtomicString d \<longleftrightarrow> bit d 0"
  using and_two_power_eq_0 [of d 0] by (simp add: hasAtomicString_def)

lemma hasAtomicString_or [simp]: "hasAtomicString (p OR 1)"
  by (simp add: hasAtomicString_bit bit_or_iff)

lemma or_one_inj: "\<not> bit (p :: u64) 0 \<Longrightarrow> \<not> bit q 0 \<Longrightarrow> p OR 1 = q OR 1 \<longleftrightarrow> p = q"
  by (metis or_one_minus)

subsection \<open>Atoms are unique\<close>

lemma atom_unique:
  assumes "atoms_ok st" "a \<in> set (atomicStringMap st)" "b \<in> set (atomicStringMap st)"
    "content st a = content st b"
  shows "a = b"
  using atoms_okD(4) [OF assms(1)] assms(2-4) by (auto simp: distinct_map dest: inj_onD)

lemma atom_aligned:
  assumes "atoms_ok st" "a \<in> set (atomicStringMap st)"
  shows "a \<noteq> 0 \<and> \<not> bit a 0"
  using atoms_okD(3) [OF assms] atoms_okD(1) [OF assms(1), of a] by (auto simp: is_string_def)

lemma findAtom_Some: "findAtom st s = Some a \<Longrightarrow> a \<in> set (atomicStringMap st) \<and> content st a = s"
  by (auto simp: findAtom_def find_Some_iff in_set_conv_nth)

lemma findAtom_None: "findAtom st s = None \<Longrightarrow> a \<in> set (atomicStringMap st) \<Longrightarrow> content st a \<noteq> s"
  by (auto simp: findAtom_def find_None_iff)

lemma canonicalAtomicString_atom:
  assumes "atoms_ok st" "is_string st p" "isAtomicStringSource st p"
  shows "canonicalAtomicString st p \<in> set (atomicStringMap st)"
    and "content st (canonicalAtomicString st p) = content st p"
    and "getTypeTag st p = canonicalAtomicString st p OR 1"
proof -
  from assms obtain a where "a \<in> set (atomicStringMap st)" "getTypeTag st p = 1 OR a" "content st a = content st p"
    using atoms_okD(2) [OF assms(1,2)] by (auto simp: tag_ok_def isAtomicStringSource_def)
  moreover from this have "canonicalAtomicString st p = a"
    using atom_aligned [OF assms(1)] or_one_mask [of a] by (simp add: canonicalAtomicString_def)
  ultimately show "canonicalAtomicString st p \<in> set (atomicStringMap st)"
    "content st (canonicalAtomicString st p) = content st p"
    "getTypeTag st p = canonicalAtomicString st p OR 1"
    by (simp_all add: or.commute)
qed

subsection \<open>What the steps of interning change\<close>

lemma heap_setTag:
  "heap (setTag p t st) q =
     (case heap st q of Some (StringCell tag s b v) \<Rightarrow> Some (StringCell (if q = p then t else tag) s b v)
      | r \<Rightarrow> r)"
  by (auto simp: setTag_def split: option.splits heap_cell.splits)

lemma setTag_simps [simp]:
  "content (setTag p t st) = content st"
  "is_string (setTag p t st) q = is_string st q"
  "heap (setTag p t st) q = None \<longleftrightarrow> heap st q = None"
  "getTypeTag (setTag p t st) q = (if q = p \<and> is_string st p then t else getTypeTag st q)"
  "isSymbolPointer (setTag p t st) q = (if q = p \<and> is_string st p then t = 2 else isSymbolPointer st q)"
  "has8BitContent (setTag p t st) q = has8BitContent st q"
  by (auto simp: content_def is_string_def getTypeTag_def isSymbolPointer_def has8BitContent_def heap_setTag
      fun_eq_iff split: option.splits heap_cell.splits)

lemma setTag_fields [simp]:
  "atomicStringMap (setTag p t st) = atomicStringMap st"
  "emptyString (setTag p t st) = emptyString st"
  "asciiTable (setTag p t st) = asciiTable st"
  "m_atomicStringLookupCache (setTag p t st) = m_atomicStringLookupCache st"
  by (simp_all add: setTag_def split: option.splits heap_cell.splits)

lemma insertAtom_simps [simp]:
  "heap (insertAtom p st) = heap st" "content (insertAtom p st) = content st"
  "is_string (insertAtom p st) q = is_string st q" "getTypeTag (insertAtom p st) q = getTypeTag st q"
  "atomicStringMap (insertAtom p st) = p # atomicStringMap st"
  "emptyString (insertAtom p st) = emptyString st" "asciiTable (insertAtom p st) = asciiTable st"
  "m_atomicStringLookupCache (insertAtom p st) = m_atomicStringLookupCache st"
  by (auto simp: insertAtom_def content_def is_string_def getTypeTag_def fun_eq_iff)

lemma newString_simps [simp]:
  "content (newString p s b st) q = (if q = p then s else content st q)"
  "is_string (newString p s b st) q \<longleftrightarrow> q = p \<or> is_string st q"
  "getTypeTag (newString p s b st) q = (if q = p then 1 else getTypeTag st q)"
  "heap (newString p s b st) q = (if q = p then Some (StringCell 1 s b False) else heap st q)"
  "atomicStringMap (newString p s b st) = atomicStringMap st"
  "emptyString (newString p s b st) = emptyString st" "asciiTable (newString p s b st) = asciiTable st"
  "m_atomicStringLookupCache (newString p s b st) = m_atomicStringLookupCache st"
  by (auto simp: newString_def content_def is_string_def getTypeTag_def)

lemma cache_field_simps [simp]:
  "content (m_atomicStringLookupCache_update f st) = content st"
  "is_string (m_atomicStringLookupCache_update f st) q = is_string st q"
  "getTypeTag (m_atomicStringLookupCache_update f st) q = getTypeTag st q"
  "isAtomicStringSource (m_atomicStringLookupCache_update f st) q = isAtomicStringSource st q"
  "tag_ok (m_atomicStringLookupCache_update f st) q = tag_ok st q"
  by (auto simp: content_def is_string_def getTypeTag_def tag_ok_def isAtomicStringSource_def
      fun_eq_iff)

lemma atoms_ok_setTag [wf_intros]:
  assumes "atoms_ok st" "a \<in> set (atomicStringMap st)" "content st a = content st p"
  shows "atoms_ok (setTag p (1 OR a) st)"
  using assms unfolding atoms_ok_def tag_ok_def by auto

lemma atoms_ok_insertAtom [wf_intros]:
  assumes "atoms_ok st" "is_string st p" "\<forall>a \<in> set (atomicStringMap st). content st a \<noteq> content st p"
  shows "atoms_ok (insertAtom p st)"
proof -
  have "slru_inv 128 (\<lambda>k a. a \<in> set (atomicStringMap (insertAtom p st)) \<and> content (insertAtom p st) a = k)
      (m_atomicStringLookupCache st)"
    by (rule slru_inv_mono [of _ "\<lambda>k a. a \<in> set (atomicStringMap st) \<and> content st a = k"])
      (use assms in \<open>auto simp: atoms_ok_def\<close>)
  with assms show ?thesis unfolding atoms_ok_def tag_ok_def by auto
qed

lemma atoms_ok_newString [wf_intros]:
  assumes ok: "atoms_ok st" and fresh: "fresh_ok st p"
  shows "atoms_ok (newString p s b st)"
proof -
  have nf: "\<not> is_string st p" "p \<notin> set (atomicStringMap st)"
    using fresh atoms_okD(3) [OF ok, of p] by (auto simp: fresh_ok_def is_string_def)
  then have same: "content (newString p s b st) a = content st a" if "a \<in> set (atomicStringMap st)" for a
    using that by auto
  have "slru_inv 128 (\<lambda>k a. a \<in> set (atomicStringMap st) \<and> content (newString p s b st) a = k)
      (m_atomicStringLookupCache st)"
    by (rule slru_inv_mono [of _ "\<lambda>k a. a \<in> set (atomicStringMap st) \<and> content st a = k"])
      (use ok same in \<open>auto simp: atoms_ok_def\<close>)
  moreover have "tag_ok (newString p s b st) q" if "q = p \<or> is_string st q" for q
    using that atoms_okD(2) [OF ok, of q] nf unfolding tag_ok_def by auto
  moreover have "map (content (newString p s b st)) (atomicStringMap st) = map (content st) (atomicStringMap st)"
    by (rule map_cong) (use same in auto)
  then have "distinct (map (content (newString p s b st)) (atomicStringMap st))"
    using atoms_okD(4) [OF ok] by (simp only:)
  moreover have "emptyString st \<noteq> p" "c < 256 \<Longrightarrow> asciiTable st ! c \<noteq> p" for c
    using nf atoms_okD(5,7) [OF ok] by auto
  ultimately show ?thesis
    using ok fresh unfolding atoms_ok_def fresh_ok_def by auto
qed

subsection \<open>Interning is correct\<close>

text \<open>
  \<open>extends\<close>: no string or symbol disappears or changes its content, no atom leaves the table.
  \<open>interned\<close> is what every constructor of an atomic string for the text \<open>s\<close> promises.
\<close>

definition extends :: "atom_state \<Rightarrow> atom_state \<Rightarrow> bool" where
  "extends st st' \<longleftrightarrow>
     (\<forall>q. heap st q \<noteq> None \<longrightarrow> heap st' q \<noteq> None \<and> content st' q = content st q \<and> is_string st' q = is_string st q) \<and>
     set (atomicStringMap st) \<subseteq> set (atomicStringMap st')"

definition interned :: "atom_state \<Rightarrow> ustring \<Rightarrow> addr \<times> atom_state \<Rightarrow> bool" where
  "interned st s r \<longleftrightarrow>
     atoms_ok (snd r) \<and> fst r \<in> set (atomicStringMap (snd r)) \<and> content (snd r) (fst r) = s \<and>
     extends st (snd r)"

lemma extends_refl [simp]: "extends st st"
  by (simp add: extends_def)

lemma is_string_heap: "is_string st p \<Longrightarrow> heap st p \<noteq> None"
  by (auto simp: is_string_def)

lemma content_atom_is_string: "atoms_ok st \<Longrightarrow> a \<in> set (atomicStringMap st) \<Longrightarrow> heap st a \<noteq> None"
  by (simp add: atoms_okD(3) is_string_heap)

lemma interned_new:
  assumes ok: "atoms_ok st" and p: "is_string st p" and new: "findAtom st (content st p) = None"
  shows "interned st (content st p) (p, setTag p (1 OR p) (insertAtom p st))"
proof -
  have "atoms_ok (insertAtom p st)"
    using ok p findAtom_None [OF new] by (intro wf_intros) auto
  then have "atoms_ok (setTag p (1 OR p) (insertAtom p st))"
    by (rule atoms_ok_setTag) simp_all
  then show ?thesis using ok p by (auto simp: interned_def extends_def)
qed

lemma interned_alloc:
  assumes ok: "atoms_ok st" and fr: "fresh_ok st p" and new: "findAtom st s = None"
  shows "interned st s (p, setTag p (1 OR p) (insertAtom p (newString p s b st)))"
proof -
  have "p \<notin> set (atomicStringMap st)"
    using fr content_atom_is_string [OF ok, of p] by (auto simp: fresh_ok_def)
  then have "findAtom (newString p s b st) s = findAtom st s"
    unfolding findAtom_def by (auto intro!: find_cong)
  moreover have "atoms_ok (newString p s b st)" by (rule atoms_ok_newString [OF ok fr])
  ultimately have "interned (newString p s b st) s
      (p, setTag p (1 OR p) (insertAtom p (newString p s b st)))"
    using interned_new [of "newString p s b st" p] new by simp
  moreover have "extends st (newString p s b st)"
    using fr by (auto simp: extends_def fresh_ok_def)
  ultimately show ?thesis by (auto simp: interned_def extends_def)
qed

lemma interned_found:
  assumes "atoms_ok st" "findAtom st (content st p) = Some a"
  shows "interned st (content st p) (a, setTag p (1 OR a) st)"
  using assms findAtom_Some [OF assms(2)]
  by (auto simp: interned_def extends_def intro: atoms_ok_setTag)

lemma interned_source:
  assumes "atoms_ok st" "is_string st p" "isAtomicStringSource st p"
  shows "interned st (content st p) (canonicalAtomicString st p, st)"
  using canonicalAtomicString_atom [OF assms] assms(1) by (simp add: interned_def)

lemma interned_initInMap:
  assumes ok: "atoms_ok st" and p: "is_string st p" and fr: "fresh_ok st fresh"
  shows "interned st (content st p) (initInMap fresh p st)"
proof (cases "isAtomicStringSource st p")
  case False
  show ?thesis
  proof (cases "findAtom st (content st p)")
    case None
    then have "content st p \<noteq> []"
      using findAtom_None [OF None atoms_okD(5) [OF ok]] atoms_okD(6) [OF ok] by auto
    with None False ok p fr show ?thesis
      by (auto simp: initInMap_def copyString_def interned_new interned_alloc)
  qed (use False ok in \<open>simp add: initInMap_def interned_found\<close>)
qed (use ok p in \<open>simp add: initInMap_def interned_source\<close>)

lemma atoms_ok_cache:
  assumes "atoms_ok st"
    and "slru_inv 128 (\<lambda>k a. a \<in> set (atomicStringMap st) \<and> content st a = k) cache"
  shows "atoms_ok (st\<lparr>m_atomicStringLookupCache := cache\<rparr>)"
  using assms unfolding atoms_ok_def by auto

lemma interned_initInContext:
  assumes ok: "atoms_ok st" and p: "is_string st p" and fr: "fresh_ok st fresh"
  shows "interned st (content st p) (initInContext fresh p st)"
proof (cases "has8BitContent st p \<and> length (content st p) \<le> 16")
  case True
  let ?R = "\<lambda>k a. a \<in> set (atomicStringMap st) \<and> content st a = k"
  have inv: "slru_inv 128 ?R (m_atomicStringLookupCache st)" using ok by (simp add: atoms_ok_def)
  obtain r cache where look: "slru_lookup 128 (m_atomicStringLookupCache st) (content st p) = (r, cache)"
    by fastforce
  have inv': "slru_inv 128 ?R cache" using slru_lookup_inv [OF inv, of "content st p"] look by simp
  let ?st = "st\<lparr>m_atomicStringLookupCache := cache\<rparr>"
  have ok': "atoms_ok ?st" using ok inv' by (rule atoms_ok_cache)
  show ?thesis
  proof (cases r)
    case None
    have "interned ?st (content ?st p) (initInMap fresh p ?st)"
      using ok' p fr by (intro interned_initInMap) (auto simp: fresh_ok_def)
    moreover obtain a st' where m: "initInMap fresh p ?st = (a, st')" by fastforce
    ultimately have i: "interned ?st (content st p) (a, st')" by simp
    then have "slru_inv 128 (\<lambda>k a. a \<in> set (atomicStringMap st') \<and> content st' a = k)
        (insertProbation 128 (m_atomicStringLookupCache st') (content st p) a)"
      using True by (intro insertProbation_inv) (auto simp: interned_def atoms_ok_def)
    with i have "interned ?st (content st p)
        (a, st'\<lparr>m_atomicStringLookupCache := insertProbation 128 (m_atomicStringLookupCache st') (content st p) a\<rparr>)"
      by (auto simp: interned_def extends_def intro: atoms_ok_cache)
    with True look None m show ?thesis
      by (simp add: initInContext_def interned_def extends_def)
  next
    case (Some a)
    with look slru_lookup_sound [OF inv] have "?R (content st p) a" by blast
    with True look Some ok' show ?thesis
      by (simp add: initInContext_def interned_def extends_def)
  qed
next
  case False
  with assms show ?thesis
    unfolding initInContext_def by (simp only: if_False interned_initInMap)
qed

lemma interned_atomicString:
  assumes "atoms_ok st" "is_string st p" "fresh_ok st fresh"
  shows "interned st (content st p) (atomicString fresh p st)"
  using assms by (simp add: atomicString_def interned_source interned_initInContext)

section \<open>Names and keys\<close>

text \<open>The specification: a property key is a string by content or a symbol by identity.\<close>

datatype property_key = KString ustring | KSymbol addr

definition nkey :: "atom_state \<Rightarrow> pname \<Rightarrow> property_key" where
  "nkey st d = (if isSymbol st d then KSymbol d else KString (content st (plainString d)))"

definition name_ok :: "atom_state \<Rightarrow> pname \<Rightarrow> bool" where
  "name_ok st d \<longleftrightarrow>
     (if hasAtomicString d then d - 1 \<in> set (atomicStringMap st) else heap st d \<noteq> None)"

lemma string_tag_odd: "atoms_ok st \<Longrightarrow> is_string st p \<Longrightarrow> getTypeTag st p \<noteq> 2"
proof -
  assume "atoms_ok st" "is_string st p"
  then have "bit (getTypeTag st p) 0"
    using atoms_okD(2) [of st p] by (auto simp: tag_ok_def bit_or_iff)
  then show ?thesis by auto
qed

lemma isSymbolPointer_iff:
  "atoms_ok st \<Longrightarrow> isSymbolPointer st p \<longleftrightarrow> (\<exists>s. heap st p = Some (SymbolCell s))"
  using string_tag_odd [of st p]
  by (auto simp: isSymbolPointer_def getTypeTag_def is_string_def split: option.splits heap_cell.splits)

lemma name_ok_cases:
  assumes "atoms_ok st" "name_ok st d"
  obtains (atomic) a where "d = a OR 1" "a \<in> set (atomicStringMap st)" "\<not> bit a 0"
      "hasAtomicString d" "plainString d = a" "\<not> isSymbol st d"
  | (plain) "\<not> hasAtomicString d" "is_string st d" "plainString d = d" "\<not> isSymbol st d"
  | (symbol) "\<not> hasAtomicString d" "isSymbol st d" "\<not> is_string st d"
proof (cases "hasAtomicString d")
  case True
  with assms have a: "d - 1 \<in> set (atomicStringMap st)" by (simp add: name_ok_def)
  then have "\<not> bit (d - 1) 0" using atom_aligned [OF assms(1)] by blast
  then have "d = (d - 1) OR 1" by (simp add: or_one_add)
  with a True \<open>\<not> bit (d - 1) 0\<close> show ?thesis
    by (intro atomic [of "d - 1"]) (auto simp: plainString_def isSymbol_def)
next
  case False
  with assms(2) obtain c where "heap st d = Some c" by (auto simp: name_ok_def)
  with False show ?thesis
    using plain symbol isSymbolPointer_iff [OF assms(1), of d]
    by (cases c) (auto simp: plainString_def isSymbol_def is_string_def)
qed

lemma nameEq_key:
  assumes ok: "atoms_ok st" and a: "name_ok st a" and b: "name_ok st b"
  shows "nameEq st a b \<longleftrightarrow> nkey st a = nkey st b"
  using ok a
proof (cases rule: name_ok_cases)
  case (atomic p)
  note A = this
  from ok b show ?thesis
  proof (cases rule: name_ok_cases)
    case (atomic q)
    then have "a = b \<longleftrightarrow> p = q" using A by (simp add: or_one_inj)
    also have "\<dots> \<longleftrightarrow> content st p = content st q" using A atomic atom_unique [OF ok] by blast
    finally show ?thesis using A atomic by (simp add: nameEq_def nkey_def)
  qed (use A in \<open>auto simp: nameEq_def nkey_def isSymbol_def hasSymbol_def\<close>)
next
  case plain
  note A = this
  from ok b show ?thesis
    by (cases rule: name_ok_cases) (use A in \<open>auto simp: nameEq_def nkey_def isSymbol_def hasSymbol_def\<close>)
next
  case symbol
  note A = this
  from ok b show ?thesis
    by (cases rule: name_ok_cases) (use A in \<open>auto simp: nameEq_def nkey_def isSymbol_def hasSymbol_def\<close>)
qed

lemma nameEqAtomic_key:
  assumes ok: "atoms_ok st" and a: "name_ok st a" and b: "name_ok st b" "hasAtomicString b"
  shows "nameEqAtomic st a (asAtomicString b) \<longleftrightarrow> nkey st a = nkey st b"
proof -
  have "nameEqAtomic st a (asAtomicString b) = nameEq st a b"
    using ok a
  proof (cases rule: name_ok_cases)
    case (atomic p)
    from ok b(1) obtain q where "b = q OR 1" "\<not> bit q 0" using b(2) by (cases rule: name_ok_cases) auto
    with atomic b(2) show ?thesis
      by (auto simp: nameEqAtomic_def nameEq_def asAtomicString_def or_one_inj)
  qed (use b(2) in \<open>auto simp: nameEqAtomic_def nameEq_def asAtomicString_def plainString_def hasSymbol_def isSymbol_def\<close>)
  with nameEq_key [OF ok a b(1)] show ?thesis by simp
qed

lemma atomic_name_raw:
  assumes "atoms_ok st" "name_ok st a" "name_ok st b" "hasAtomicString a" "hasAtomicString b"
  shows "a = b \<longleftrightarrow> nkey st a = nkey st b"
  using nameEq_key [OF assms(1-3)] assms(4,5) by (simp add: nameEq_def)

lemma nkey_atomic [simp]: "\<not> bit a 0 \<Longrightarrow> nkey st (a OR 1) = KString (content st a)"
  by (simp add: nkey_def isSymbol_def plainString_def)

lemma name_ok_atomic: "atoms_ok st \<Longrightarrow> a \<in> set (atomicStringMap st) \<Longrightarrow> name_ok st (a OR 1)"
  using atom_aligned [of st a] by (simp add: name_ok_def)

lemma interned_name:
  assumes "interned st s (a, st')"
  shows "atoms_ok st' \<and> name_ok st' (a OR 1) \<and> nkey st' (a OR 1) = KString s \<and> extends st st'"
  using assms atom_aligned [of st' a] by (auto simp: interned_def name_ok_atomic)

lemma extends_name:
  assumes "atoms_ok st" "atoms_ok st'" "extends st st'" "name_ok st d"
  shows "name_ok st' d \<and> nkey st' d = nkey st d"
  using assms(1,4)
proof (cases rule: name_ok_cases)
  case (atomic a)
  then show ?thesis
    using assms content_atom_is_string [OF assms(1), of a]
    by (auto simp: extends_def nkey_def name_ok_def isSymbol_def)
next
  case plain
  then have "is_string st' d" "content st' d = content st d"
    using assms(3) is_string_heap [of st d] by (auto simp: extends_def)
  moreover from this have "\<not> isSymbolPointer st' d"
    using isSymbolPointer_iff [OF assms(2), of d] by (auto simp: is_string_def)
  ultimately show ?thesis using plain is_string_heap [of st' d]
    by (simp add: nkey_def name_ok_def isSymbol_def)
next
  case symbol
  then have "heap st' d \<noteq> None" "\<not> is_string st' d"
    using assms(3,4) by (auto simp: extends_def name_ok_def)
  then have "isSymbolPointer st' d"
    using isSymbolPointer_iff [OF assms(2), of d] by (auto simp: is_string_def) (metis heap_cell.exhaust)
  then show ?thesis using symbol \<open>heap st' d \<noteq> None\<close> by (simp add: nkey_def name_ok_def isSymbol_def)
qed

lemma toPropertyName_key:
  assumes ok: "atoms_ok st" and p: "heap st p \<noteq> None" and fr: "fresh_ok st fresh"
    and r: "toPropertyName fresh p st = (d, st')"
  shows "atoms_ok st' \<and> extends st st' \<and> name_ok st' d \<and>
    nkey st' d = (if isSymbolPointer st p then KSymbol p else KString (content st p))"
proof (cases "isSymbolPointer st p")
  case True
  have "\<not> hasAtomicString p" using atoms_okD(1) [OF ok p] by (simp add: hasAtomicString_bit)
  with True r ok p show ?thesis by (auto simp: toPropertyName_def nkey_def name_ok_def isSymbol_def)
next
  case False
  have str: "is_string st p"
    using False p isSymbolPointer_iff [OF ok, of p] by (auto simp: is_string_def) (metis heap_cell.exhaust)
  have plain: "name_ok st p \<and> nkey st p = KString (content st p)"
    using atoms_okD(1) [OF ok p] p False
    by (simp add: name_ok_def nkey_def isSymbol_def hasAtomicString_bit plainString_def)
  consider (tag) "getTypeTag st p > 1" "d = getTypeTag st p" "st' = st"
    | (empty) "content st p = []" "d = emptyString st OR 1" "st' = st"
    | (plain) "d = p" "st' = st"
    | (ascii) c where "content st p = [c]" "c < 256" "d = asciiTable st ! c OR 1" "st' = st"
    | (intern) a where "atomicString fresh p st = (a, st')" "d = a OR 1"
    using r False
    by (cases "content st p"; cases "atomicString fresh p st")
      (fastforce simp: toPropertyName_def Let_def split: if_splits)+
  then show ?thesis
  proof cases
    case tag
    then have "interned st (content st p) (canonicalAtomicString st p, st)" "d = canonicalAtomicString st p OR 1"
      using interned_source [OF ok str] canonicalAtomicString_atom(3) [OF ok str]
      by (auto simp: isAtomicStringSource_def)
    with tag(3) False show ?thesis using interned_name by auto
  next
    case empty
    with ok False show ?thesis
      using atoms_okD(5,6) [OF ok] atom_aligned [OF ok] by (auto simp: name_ok_atomic)
  next
    case plain
    with ok False \<open>name_ok st p \<and> _\<close> show ?thesis by simp
  next
    case ascii
    with ok False show ?thesis
      using atoms_okD(7) [OF ok] atom_aligned [OF ok] by (auto simp: name_ok_atomic)
  next
    case intern
    with interned_atomicString [OF ok str fr] False show ?thesis using interned_name by auto
  qed
qed

section \<open>An engine after start-up\<close>

text \<open>
  A state as \<open>StaticStrings\<close> leaves it, on which the properties below are applied: the empty string at
  8, the one-character strings at 16, 32, ..., 4096, all interned; an interned numeral of 17 digits at
  4112 and another string with the same text at 4128, a symbol at 4144, and no cached lookup.
\<close>

definition start_heap :: "addr \<Rightarrow> heap_cell option" where
  "start_heap p =
     (if p = 8 then Some (StringCell (STRING_TAG OR p) [] True False)
      else let n = unat p
           in if n mod 16 \<noteq> 0 \<or> n = 0 then None
              else if n \<le> 4096 then Some (StringCell (STRING_TAG OR p) [n div 16 - 1] True False)
              else if n = 4112 then Some (StringCell (STRING_TAG OR p) (us ''12345678901234567'') True False)
              else if n = 4128 then Some (StringCell STRING_TAG (us ''12345678901234567'') True False)
              else if n = 4144 then Some (SymbolCell [])
              else None)"

definition char_addr :: "nat \<Rightarrow> addr" where
  "char_addr c = of_nat (16 * Suc c)"

definition start_state :: atom_state where
  "start_state =
     \<lparr>heap = start_heap,
      atomicStringMap = 4112 # 8 # map char_addr [0..<256],
      emptyString = 8,
      asciiTable = map char_addr [0..<256],
      m_atomicStringLookupCache = slru_init atomicStringLookupCacheSets\<rparr>"

lemma unat_char_addr: "c < 256 \<Longrightarrow> unat (char_addr c) = 16 * Suc c"
  unfolding char_addr_def unat_of_nat by simp

lemma start_heap_char:
  assumes "c < 256"
  shows "start_heap (char_addr c) = Some (StringCell (1 OR char_addr c) [c] True False)"
proof -
  let ?p = "char_addr c"
  have u: "unat ?p = 16 * Suc c" using assms by (rule unat_char_addr)
  have "?p \<noteq> 8"
  proof
    assume "?p = 8"
    then have "unat ?p = unat (8 :: addr)" by (simp only:)
    with u show False by simp
  qed
  with u assms show ?thesis unfolding start_heap_def Let_def u by simp
qed

lemma start_heap_other:
  "start_heap 8 = Some (StringCell (1 OR 8) [] True False)"
  "start_heap 4112 = Some (StringCell (1 OR 4112) (us ''12345678901234567'') True False)"
  "start_heap 4128 = Some (StringCell 1 (us ''12345678901234567'') True False)"
  "start_heap 4144 = Some (SymbolCell [])"
  by (simp_all add: start_heap_def Let_def)

lemma start_heap_cases:
  assumes "start_heap p = Some c"
  obtains "p = 8" | n where "n < 256" "p = char_addr n" | "p = 4112" | "p = 4128" | "p = 4144"
proof -
  consider "p = 8" | "unat p mod 16 = 0" "unat p \<noteq> 0" "unat p \<le> 4096" | "unat p = 4112" | "unat p = 4128" | "unat p = 4144"
    using assms by (auto simp: start_heap_def Let_def split: if_splits)
  then show ?thesis
  proof cases
    case 2
    then obtain k where k: "unat p = 16 * k" by auto
    with 2 have "k \<noteq> 0" "k \<le> 256" by auto
    then obtain n where "k = Suc n" "n < 256" by (cases k) auto
    with k that(2) [of n] show ?thesis by (metis char_addr_def unatD)
  qed (use that in \<open>auto dest: unatD\<close>)
qed

lemma start_content [simp]:
  "content start_state 8 = []"
  "content start_state 4112 = us ''12345678901234567''" "content start_state 4128 = us ''12345678901234567''"
  "c < 256 \<Longrightarrow> content start_state (char_addr c) = [c]"
  using start_heap_char [of c] by (simp_all add: content_def start_state_def start_heap_other)

lemma start_is_string [simp]:
  "is_string start_state 8" "is_string start_state 4112" "is_string start_state 4128"
  "c < 256 \<Longrightarrow> is_string start_state (char_addr c)"
  using start_heap_char [of c] by (auto simp: is_string_def start_state_def start_heap_other)

lemma start_tag [simp]:
  "getTypeTag start_state 8 = 1 OR 8" "getTypeTag start_state 4112 = 1 OR 4112" "getTypeTag start_state 4128 = 1"
  "c < 256 \<Longrightarrow> getTypeTag start_state (char_addr c) = 1 OR char_addr c"
  using start_heap_char [of c] by (simp_all only: getTypeTag_def start_state_def start_heap_other atom_state.simps option.simps heap_cell.simps)

lemma start_state_fields [simp]:
  "heap start_state = start_heap" "emptyString start_state = 8"
  "set (atomicStringMap start_state) = {4112, 8} \<union> char_addr ` {..<256}"
  "atomicStringMap start_state = 4112 # 8 # map char_addr [0..<256]"
  "asciiTable start_state = map char_addr [0..<256]"
  "m_atomicStringLookupCache start_state = slru_init 128"
  by (auto simp: start_state_def)

lemma char_addr_aligned: "c < 256 \<Longrightarrow> char_addr c \<noteq> 0 \<and> \<not> bit (char_addr c) 0"
proof -
  assume "c < 256"
  then have u: "unat (char_addr c) = 16 * Suc c" by (rule unat_char_addr)
  have "bit (char_addr c) 0 = bit (unat (char_addr c)) 0" by (simp add: bit_simps)
  with u show ?thesis by (auto simp: bit_0)
qed

lemma start_atoms_ok: "atoms_ok start_state"
  unfolding atoms_ok_def
proof (intro conjI allI impI ballI)
  fix p
  show "p \<noteq> 0" "\<not> bit p 0" if "heap start_state p \<noteq> None"
    using that by (auto elim!: start_heap_cases simp: char_addr_aligned)
  show "tag_ok start_state p" if "is_string start_state p"
  proof -
    from that obtain tag t b v where cell: "start_heap p = Some (StringCell tag t b v)"
      by (auto simp: is_string_def)
    then show ?thesis
      by (rule start_heap_cases)
        (use cell in \<open>auto simp: tag_ok_def start_heap_other simp del: start_state_fields(4)\<close>)
  qed
next
  show "distinct (map (content start_state) (atomicStringMap start_state))"
    by (auto simp: distinct_map inj_on_def us_def)
next
  show "slru_inv 128 (\<lambda>k a. a \<in> set (atomicStringMap start_state) \<and> content start_state a = k)
     (m_atomicStringLookupCache start_state)"
    by (simp add: slru_inv_init)
qed auto

section \<open>Properties\<close>

text \<open>C27: Interning is canonical: on a well-formed state, constructing an \<open>AtomicString\<close> from two strings, one
  after the other and through whichever of the tag, the lookup cache and the table answers, gives the same
  pointer exactly when the strings have the same code units, and leaves a well-formed state.\<close>

theorem atomicString_canonical:
  assumes "atoms_ok st" and "is_string st p" and "is_string st q"
    and "fresh_ok st f1" and "atomicString f1 p st = (a, st1)"
    and "fresh_ok st1 f2" and "atomicString f2 q st1 = (b, st2)"
  shows "(a = b \<longleftrightarrow> content st p = content st q) \<and> atoms_ok st2"
proof -
  have i1: "interned st (content st p) (a, st1)"
    using interned_atomicString [OF assms(1,2,4)] assms(5) by simp
  then have "is_string st1 q" "content st1 q = content st q" "atoms_ok st1"
    using assms(3) is_string_heap [OF assms(3)] by (auto simp: interned_def extends_def)
  with assms(6,7) interned_atomicString [of st1 q f2] have i2: "interned st1 (content st q) (b, st2)"
    by simp
  have "a \<in> set (atomicStringMap st2)" "content st2 a = content st p"
    using i1 i2 content_atom_is_string [of st1 a] by (auto simp: interned_def extends_def)
  with i2 atom_unique [of st2 a b] show ?thesis by (auto simp: interned_def)
qed

theorem atomicString_canonical_witness:
  "(fst (atomicString 8192 4128 start_state) = fst (atomicString 8208 4112 (snd (atomicString 8192 4128 start_state)))) =
     (content start_state 4128 = content start_state 4112)"
proof -
  obtain a st1 where 1: "atomicString 8192 4128 start_state = (a, st1)" by fastforce
  obtain b st2 where 2: "atomicString 8208 4112 st1 = (b, st2)" by fastforce
  have "fresh_ok start_state 8192" by (simp add: fresh_ok_def start_heap_def Let_def)
  moreover have "findAtom start_state (us ''12345678901234567'') = Some 4112" by (simp add: findAtom_def)
  then have "st1 = setTag 4128 (1 OR 4112) start_state"
    using 1 by (simp add: atomicString_def initInContext_def initInMap_def isAtomicStringSource_def us_def)
  then have "fresh_ok st1 8208" by (simp add: fresh_ok_def start_heap_def Let_def)
  ultimately show ?thesis
    using atomicString_canonical [OF start_atoms_ok _ _ _ 1 _ 2] 1 2 by simp
qed

text \<open>\<open>ToPropertyKey\<close>: whichever branch the constructor takes (symbol, tagged string, empty string, long
  numeral kept as a plain string, one-character table, interning), the name it builds stands for the
  symbol or for the text it was given, in a well-formed state in which every older name keeps its key.\<close>

theorem toPropertyName_correct:
  assumes "atoms_ok st" and "heap st p \<noteq> None" and "fresh_ok st fresh"
    and "toPropertyName fresh p st = (d, st')"
  shows "nkey st' d = (if isSymbolPointer st p then KSymbol p else KString (content st p)) \<and>
    name_ok st' d \<and> atoms_ok st' \<and> (\<forall>n. name_ok st n \<longrightarrow> name_ok st' n \<and> nkey st' n = nkey st n)"
  using toPropertyName_key [OF assms] extends_name [OF assms(1)] by blast

theorem toPropertyName_correct_witness:
  "nkey start_state 4128 = KString (us ''12345678901234567'') \<and> toPropertyName 8192 4128 start_state = (4128, start_state)"
proof -
  have r: "toPropertyName 8192 4128 start_state = (4128, start_state)"
    by (simp add: toPropertyName_def isSymbolPointer_def us_def is_digit_def)
  moreover have "fresh_ok start_state 8192" by (simp add: fresh_ok_def start_heap_def Let_def)
  ultimately show ?thesis
    using toPropertyName_correct [OF start_atoms_ok _ _ r]
    by (simp add: isSymbolPointer_def start_heap_other)
qed

text \<open>The two comparison operators of property names, which compare pointers when both names are atomic and
  text otherwise, decide exactly whether the names stand for the same property key.\<close>

theorem nameEq_iff_same_key:
  assumes "atoms_ok st" and "name_ok st a" and "name_ok st b"
  shows "(nameEq st a b \<longleftrightarrow> nkey st a = nkey st b) \<and>
    (hasAtomicString b \<longrightarrow> (nameEqAtomic st a (asAtomicString b) \<longleftrightarrow> nkey st a = nkey st b))"
  using nameEq_key [OF assms] nameEqAtomic_key [OF assms] by blast

theorem nameEq_iff_same_key_witness: "nameEq start_state (4112 OR 1) 4128"
proof -
  have "name_ok start_state (4112 OR 1)" by (rule name_ok_atomic [OF start_atoms_ok]) simp
  moreover have "name_ok start_state 4128" "nkey start_state 4128 = KString (us ''12345678901234567'')"
    by (simp_all add: name_ok_def nkey_def isSymbol_def isSymbolPointer_def hasAtomicString_def plainString_def start_heap_other)
  ultimately show ?thesis
    using nameEq_iff_same_key [OF start_atoms_ok, of "4112 OR 1" 4128] nkey_atomic [of 4112 start_state]
    by (simp add: bit_0)
qed

text \<open>\<open>hashValue\<close> does not respect \<open>operator==\<close>: for a numeral of more than 16 characters that is interned,
  another string object with the same text becomes a plain name that is equal to the atomic name, and the
  two names are hashed by different functions, one of the pointer and one of the text. Hash maps keyed by
  names require equal keys to have equal hashes.\<close>

theorem hashValue_ignores_equality:
  assumes "atoms_ok st" and "a \<in> set (atomicStringMap st)" and "is_string st p" and "content st a = content st p"
    and "getTypeTag st p = STRING_TAG" and "length (content st p) > 16" and "is_digit (hd (content st p))"
  shows "toPropertyName fresh p st = (p, st) \<and> nameEq st (nameOfAtomicString a) p \<and>
    hashValue ptrHash strHash st (nameOfAtomicString a) = ptrHash a \<and>
    hashValue ptrHash strHash st p = strHash (content st a)"
proof -
  have al: "\<not> bit a 0" "\<not> hasAtomicString p"
    using atom_aligned [OF assms(1,2)] atoms_okD(1) [OF assms(1) is_string_heap [OF assms(3)]]
    by (simp_all add: hasAtomicString_bit)
  have sym: "\<not> isSymbolPointer st p" using assms(5) by (simp add: isSymbolPointer_def)
  obtain c cs where "content st p = c # cs" using assms(6) by (cases "content st p") auto
  then have "toPropertyName fresh p st = (p, st)"
    using assms(5-7) sym by (simp add: toPropertyName_def)
  with al sym assms(4) show ?thesis
    by (simp add: nameEq_def nameOfAtomicString_def hashValue_def asAtomicString_def hasSymbol_def plainString_def)
qed

theorem hashValue_ignores_equality_witness:
  "nameEq start_state (nameOfAtomicString 4112) 4128 \<and>
   hashValue (\<lambda>p. p) (\<lambda>s. of_nat (length s)) start_state (nameOfAtomicString 4112) = 4112 \<and>
   hashValue (\<lambda>p. p) (\<lambda>s. of_nat (length s)) start_state 4128 = 17"
  using hashValue_ignores_equality [OF start_atoms_ok, of 4112 4128 8192 "\<lambda>p. p" "\<lambda>s. of_nat (length s)"]
  by (simp add: us_def is_digit_def)

end
