(* ===== verification/OrderedDictionary.thy ===== *)
theory OrderedDictionary
  imports Prelude
begin

text \<open>
  The contract between objects and hidden classes: a hidden class is an insertion-ordered dictionary
  from property keys to descriptors, reached through a pointer that every changing operation replaces.
  The locale states what \<open>findProperty\<close>, \<open>addProperty\<close>, \<open>removeProperty\<close> and
  \<open>replacePropertyDescriptor\<close> promise; its lemmas are what a client may conclude, up to the refinement of
  whole sequences of definitions and deletions. \<open>ObjectStructure\<close> interprets it.
\<close>

section \<open>The specification\<close>

datatype ('n, 'd) dict_op = Define 'n 'd | Delete 'n

definition spec_put :: "('k \<times> 'd) list \<Rightarrow> 'k \<Rightarrow> 'd \<Rightarrow> ('k \<times> 'd) list" where
  "spec_put d k x =
     (case find_index (\<lambda>p. fst p = k) d of Some i \<Rightarrow> d[i := (k, x)] | None \<Rightarrow> d @ [(k, x)])"

definition spec_del :: "('k \<times> 'd) list \<Rightarrow> 'k \<Rightarrow> ('k \<times> 'd) list" where
  "spec_del d k = filter (\<lambda>p. fst p \<noteq> k) d"

fun spec_op :: "('n \<Rightarrow> 'k) \<Rightarrow> ('n, 'd) dict_op \<Rightarrow> ('k \<times> 'd) list \<Rightarrow> ('k \<times> 'd) list" where
  "spec_op keyOf (Define n x) d = spec_put d (keyOf n) x"
| "spec_op keyOf (Delete n) d = spec_del d (keyOf n)"

fun op_name :: "('n, 'd) dict_op \<Rightarrow> 'n" where
  "op_name (Define n x) = n"
| "op_name (Delete n) = n"

lemma spec_put_Cons:
  "spec_put (p # d) k x = (if fst p = k then (k, x) # d else p # spec_put d k x)"
  by (auto simp: spec_put_def split: option.splits)

lemma spec_put_lookup: "map_of (spec_put d k x) = (map_of d)(k \<mapsto> x)"
  by (induction d) (auto simp: spec_put_Cons spec_put_def [of "[]"] fun_eq_iff)

lemma spec_del_lookup: "map_of (spec_del d k) = (map_of d)(k := None)"
  unfolding spec_del_def by (induction d) (auto simp: fun_eq_iff)

lemma remove_at_filter:
  assumes "distinct (map fst d)" "find_index (\<lambda>p. fst p = k) d = Some i"
  shows "remove_at i d = spec_del d k"
  using assms
proof (induction d arbitrary: i)
  case (Cons p d)
  show ?case
  proof (cases "fst p = k")
    case True
    then have "k \<notin> fst ` set d" using Cons.prems(1) by auto
    then have "filter (\<lambda>q. fst q \<noteq> k) d = d" by (auto simp: filter_id_conv)
    with True Cons.prems(2) show ?thesis by (simp add: remove_at_def spec_del_def)
  next
    case False
    with Cons.prems(2) obtain j where "find_index (\<lambda>p. fst p = k) d = Some j" "i = Suc j" by auto
    with Cons False show ?thesis by (simp add: remove_at_def spec_del_def)
  qed
qed simp

lemma spec_del_absent: "find_index (\<lambda>p. fst p = k) d = None \<Longrightarrow> spec_del d k = d"
  by (auto simp: spec_del_def find_index_None filter_id_conv)

lemma update_put: "find_index (\<lambda>p. fst p = k) d = Some i \<Longrightarrow> d[i := (fst (d ! i), x)] = spec_put d k x"
  by (auto simp: spec_put_def dest: find_index_SomeD)

lemma find_index_fst: "find_index (\<lambda>p. fst p = k) d = find_index (\<lambda>x. x = k) (map fst d)"
  by (induction d) auto

section \<open>The interface\<close>

locale ordered_dictionary =
  fixes wf :: "'s \<Rightarrow> bool"
    and dictOf :: "'s \<Rightarrow> 'p \<Rightarrow> ('k \<times> 'd) list option"
    and keyOf :: "'n \<Rightarrow> 'k"
    and valid :: "'n \<Rightarrow> bool"
    and find :: "'s \<Rightarrow> 'p \<Rightarrow> 'n \<Rightarrow> (nat option \<times> 's) option"
    and add :: "'s \<Rightarrow> 'p \<Rightarrow> 'n \<Rightarrow> 'd \<Rightarrow> ('p \<times> 's) option"
    and remove :: "'s \<Rightarrow> 'p \<Rightarrow> nat \<Rightarrow> ('p \<times> 's) option"
    and replace :: "'s \<Rightarrow> 'p \<Rightarrow> nat \<Rightarrow> 'd \<Rightarrow> ('p \<times> 's) option"
  assumes dict_distinct: "wf s \<Longrightarrow> dictOf s p = Some d \<Longrightarrow> distinct (map fst d)"
    and find_law: "wf s \<Longrightarrow> dictOf s p = Some d \<Longrightarrow> valid n \<Longrightarrow>
      \<exists>s'. find s p n = Some (find_index (\<lambda>p. fst p = keyOf n) d, s') \<and> wf s' \<and> (\<forall>q. dictOf s' q = dictOf s q)"
    and add_law: "wf s \<Longrightarrow> dictOf s p = Some d \<Longrightarrow> valid n \<Longrightarrow> keyOf n \<notin> fst ` set d \<Longrightarrow>
      \<exists>q s'. add s p n x = Some (q, s') \<and> wf s' \<and> dictOf s' q = Some (d @ [(keyOf n, x)])"
    and remove_law: "wf s \<Longrightarrow> dictOf s p = Some d \<Longrightarrow> i < length d \<Longrightarrow>
      \<exists>q s'. remove s p i = Some (q, s') \<and> wf s' \<and> dictOf s' q = Some (remove_at i d)"
    and replace_law: "wf s \<Longrightarrow> dictOf s p = Some d \<Longrightarrow> i < length d \<Longrightarrow>
      \<exists>q s'. replace s p i x = Some (q, s') \<and> wf s' \<and> dictOf s' q = Some (d[i := (fst (d ! i), x)])"
begin

text \<open>A client's definition and deletion of a property: look the name up, then change the structure.\<close>

fun step :: "('n, 'd) dict_op \<Rightarrow> 'p \<times> 's \<Rightarrow> ('p \<times> 's) option" where
  "step (Define n x) (p, s) =
     (case find s p n of
        None \<Rightarrow> None
      | Some (None, s') \<Rightarrow> add s' p n x
      | Some (Some i, s') \<Rightarrow> replace s' p i x)"
| "step (Delete n) (p, s) =
     (case find s p n of
        None \<Rightarrow> None
      | Some (None, s') \<Rightarrow> Some (p, s')
      | Some (Some i, s') \<Rightarrow> remove s' p i)"

fun run :: "('n, 'd) dict_op list \<Rightarrow> 'p \<times> 's \<Rightarrow> ('p \<times> 's) option" where
  "run [] r = Some r"
| "run (op # ops) r = (case step op r of None \<Rightarrow> None | Some r' \<Rightarrow> run ops r')"

lemma step_refines:
  assumes wf: "wf s" and d: "dictOf s p = Some d" and n: "valid (op_name op)"
  shows "\<exists>q s'. step op (p, s) = Some (q, s') \<and> wf s' \<and> dictOf s' q = Some (spec_op keyOf op d)"
proof -
  obtain s' where f: "find s p (op_name op) = Some (find_index (\<lambda>p. fst p = keyOf (op_name op)) d, s')"
    and s': "wf s'" "dictOf s' p = Some d"
    using find_law [OF wf d n] d by auto
  show ?thesis
  proof (cases "find_index (\<lambda>p. fst p = keyOf (op_name op)) d")
    case None
    then have "keyOf (op_name op) \<notin> fst ` set d" by (auto simp: find_index_None)
    with None f s' n add_law [OF s'] show ?thesis
      by (cases op) (auto simp: spec_put_def spec_del_absent)
  next
    case (Some i)
    then have "i < length d" by (auto dest: find_index_SomeD)
    moreover have "d[i := (fst (d ! i), x)] = spec_put d (keyOf (op_name op)) x" for x
      using Some by (rule update_put)
    moreover have "remove_at i d = spec_del d (keyOf (op_name op))"
      using dict_distinct [OF wf d] Some by (rule remove_at_filter)
    ultimately show ?thesis
      using Some f replace_law [OF s', of i] remove_law [OF s', of i] by (cases op) auto
  qed
qed

lemma run_refines:
  assumes "wf s" "dictOf s p = Some d" "\<forall>op \<in> set ops. valid (op_name op)"
  shows "\<exists>q s'. run ops (p, s) = Some (q, s') \<and> wf s' \<and> dictOf s' q = Some (fold (spec_op keyOf) ops d)"
  using assms
proof (induction ops arbitrary: p s d)
  case (Cons op ops)
  then obtain q s' where "step op (p, s) = Some (q, s')" "wf s'" "dictOf s' q = Some (spec_op keyOf op d)"
    using step_refines [of s p d op] by auto
  with Cons.IH [of s' q] Cons.prems(3) show ?case by auto
qed auto

lemma define_then_find:
  assumes "wf s" "dictOf s p = Some d" "valid n" "valid m"
  shows "\<exists>q s' i s''. step (Define n x) (p, s) = Some (q, s') \<and> find s' q m = Some (i, s'') \<and>
    (keyOf m = keyOf n \<longrightarrow> (\<exists>j d'. i = Some j \<and> dictOf s' q = Some d' \<and> j < length d' \<and> d' ! j = (keyOf n, x))) \<and>
    (keyOf m \<noteq> keyOf n \<longrightarrow> i = find_index (\<lambda>p. fst p = keyOf m) d)"
proof -
  let ?d = "spec_put d (keyOf n) x"
  obtain q s' where 1: "step (Define n x) (p, s) = Some (q, s')" "wf s'" "dictOf s' q = Some ?d"
    using step_refines [of s p d "Define n x"] assms by auto
  obtain s'' where 2: "find s' q m = Some (find_index (\<lambda>p. fst p = keyOf m) ?d, s'')"
    using find_law [OF 1(2,3) assms(4)] by auto
  have same: "find_index (\<lambda>p. fst p = keyOf m) ?d = find_index (\<lambda>p. fst p = keyOf m) d" if "keyOf m \<noteq> keyOf n"
  proof (cases "find_index (\<lambda>p. fst p = keyOf n) d")
    case None
    with that show ?thesis by (simp add: spec_put_def find_index_append split: option.splits)
  next
    case (Some i)
    have "map fst (d[i := (keyOf n, x)]) = map fst d"
      using Some by (auto simp: map_update list_update_same_conv dest: find_index_SomeD)
    then show ?thesis using Some by (simp add: spec_put_def find_index_fst)
  qed
  have hit: "\<exists>j. find_index (\<lambda>p. fst p = keyOf n) ?d = Some j \<and> j < length ?d \<and> ?d ! j = (keyOf n, x)"
  proof -
    have "map_of ?d (keyOf n) = Some x"
      by (simp add: spec_put_lookup)
    then have mem: "(keyOf n, x) \<in> set ?d" by (rule map_of_SomeD)
    then obtain j where j: "find_index (\<lambda>p. fst p = keyOf n) ?d = Some j"
      using find_index_None [of "\<lambda>p. fst p = keyOf n" ?d] by (cases "find_index (\<lambda>p. fst p = keyOf n) ?d") auto
    note jd = find_index_SomeD [OF j]
    obtain l where l: "l < length ?d" "?d ! l = (keyOf n, x)" using mem by (auto simp: in_set_conv_nth)
    have "map fst ?d ! j = map fst ?d ! l" using jd l by simp
    then have "j = l"
      using dict_distinct [OF 1(2,3)] jd l(1) nth_eq_iff_index_eq [of "map fst ?d" j l] by simp
    with j jd l show ?thesis by auto
  qed
  show ?thesis
  proof (cases "keyOf m = keyOf n")
    case True
    with hit 2 obtain j where "find s' q m = Some (Some j, s'')" "j < length ?d" "?d ! j = (keyOf n, x)" by auto
    with 1 True show ?thesis by blast
  next
    case False
    with 1 2 same [OF False] show ?thesis by (intro exI conjI) auto
  qed
qed

end

end
