(* ===== verification/ObjectStructure.thy ===== *)
theory ObjectStructure
  imports PropertyName PropertyDescriptor OrderedDictionary
begin

text \<open>
  Hidden classes, \<open>src/runtime/ObjectStructure.h\<close> and \<open>ObjectStructure.cpp\<close>: the three layouts
  (\<open>WithoutTransition\<close>, \<open>WithTransition\<close>, \<open>WithMap\<close>), their \<open>findProperty\<close>, \<open>addProperty\<close>,
  \<open>removeProperty\<close>, \<open>replacePropertyDescriptor\<close> and the conversions between them. Structures are shared
  and compared by pointer, so they live in a store, a list indexed by the pointer. An operation returns
  \<open>None\<close> where the code would follow a null \<open>m_properties\<close>, the state in which an operation leaves a
  structure whose vector it has moved to the next one.
\<close>

section \<open>Data\<close>

text \<open>What the operations read besides the structures: strings, native property data, the two hashes.\<close>

record env =
  strings :: atom_state
  natives :: native_heap
  ptrHash :: "addr \<Rightarrow> u64"
  strHash :: "ustring \<Rightarrow> u64"

record ObjectStructureItem =
  m_propertyName :: pname
  m_descriptor :: u64

record ObjectStructureTransitionItem =
  t_propertyName :: pname
  t_descriptor :: u64
  t_structure :: nat

record ObjectStructureBase =
  m_doesTransitionTableUseMap :: bool
  m_hasIndexPropertyName :: bool
  m_hasSymbolPropertyName :: bool
  m_hasNonAtomicPropertyName :: bool
  m_hasEnumerableProperty :: bool
  m_isReferencedByInlineCache :: bool
  m_transitionTableVectorBufferSize :: "8 word"
  m_transitionTableVectorBufferCapacity :: "8 word"

text \<open>
  \<open>PropertyNameMap\<close> is a \<open>tsl::robin_map\<close>: the entries in insertion order. A lookup is sure to find an
  entry that is equal to the key and has its hash, which is all a hash table promises.
\<close>

record PropertyNameMapWithCache =
  entries :: "(pname \<times> nat) list"
  m_lastItemName :: pname
  m_lastItemIndex :: "nat option"

datatype ObjectStructure =
  WithoutTransition ObjectStructureBase "ObjectStructureItem list option" pname
| WithTransition ObjectStructureBase "ObjectStructureItem list" "ObjectStructureTransitionItem list"
| WithMap ObjectStructureBase "ObjectStructureItem list option" "PropertyNameMapWithCache option"

type_synonym store = "ObjectStructure list"

abbreviation (input) ACCESS_CACHE_BUILD_MIN_SIZE :: nat where "ACCESS_CACHE_BUILD_MIN_SIZE \<equiv> 512"
abbreviation (input) TRANSITION_MODE_MAX_SIZE :: nat where "TRANSITION_MODE_MAX_SIZE \<equiv> 36"
abbreviation (input) TRANSITION_MAP_MIN_SIZE :: nat where "TRANSITION_MAP_MIN_SIZE \<equiv> 32"

definition isTransitionModeAvailable :: "nat \<Rightarrow> bool" where
  "isTransitionModeAvailable propertyCount \<longleftrightarrow> propertyCount \<le> TRANSITION_MODE_MAX_SIZE"

definition newItem :: "pname \<Rightarrow> u64 \<Rightarrow> ObjectStructureItem" where
  "newItem name desc = \<lparr>m_propertyName = name, m_descriptor = desc\<rparr>"

definition mkBase :: "bool \<Rightarrow> bool \<Rightarrow> bool \<Rightarrow> bool \<Rightarrow> ObjectStructureBase" where
  "mkBase hasIndex hasSym hasNonAtomic hasEnumerable =
     \<lparr>m_doesTransitionTableUseMap = False, m_hasIndexPropertyName = hasIndex,
      m_hasSymbolPropertyName = hasSym, m_hasNonAtomicPropertyName = hasNonAtomic,
      m_hasEnumerableProperty = hasEnumerable, m_isReferencedByInlineCache = False,
      m_transitionTableVectorBufferSize = 0, m_transitionTableVectorBufferCapacity = 0\<rparr>"

text \<open>The 16-bit index is kept in the two 8-bit fields, low byte first.\<close>

definition setLastFoundPropertyIndex :: "16 word \<Rightarrow> ObjectStructureBase \<Rightarrow> ObjectStructureBase" where
  "setLastFoundPropertyIndex s b =
     b\<lparr>m_transitionTableVectorBufferSize := ucast s,
       m_transitionTableVectorBufferCapacity := ucast (drop_bit 8 s)\<rparr>"

definition lastFoundPropertyIndex :: "ObjectStructureBase \<Rightarrow> 16 word" where
  "lastFoundPropertyIndex b =
     ucast (m_transitionTableVectorBufferSize b) OR
     push_bit 8 (ucast (m_transitionTableVectorBufferCapacity b))"

abbreviation (input) UINT16_MAX :: "16 word" where "UINT16_MAX \<equiv> 65535"

section \<open>Constructors\<close>

definition newWithoutTransition ::
  "env \<Rightarrow> ObjectStructureItem list \<Rightarrow> bool \<Rightarrow> bool \<Rightarrow> bool \<Rightarrow> bool \<Rightarrow> ObjectStructure" where
  "newWithoutTransition e ps hasIndex hasSym hasNonAtomic hasEnumerable =
     (let b = mkBase hasIndex hasSym hasNonAtomic hasEnumerable
      in if length ps \<noteq> 0
         then WithoutTransition (setLastFoundPropertyIndex (of_nat (length ps - 1)) b) (Some ps)
                (m_propertyName (last ps))
         else WithoutTransition b (Some ps) (emptyPropertyName (strings e)))"

definition newWithTransition ::
  "ObjectStructureItem list \<Rightarrow> bool \<Rightarrow> bool \<Rightarrow> bool \<Rightarrow> bool \<Rightarrow> ObjectStructure" where
  "newWithTransition ps hasIndex hasSym hasNonAtomic hasEnumerable =
     WithTransition (mkBase hasIndex hasSym hasNonAtomic hasEnumerable) ps []"

definition newWithMap ::
  "ObjectStructureItem list \<Rightarrow> PropertyNameMapWithCache option \<Rightarrow> bool \<Rightarrow> bool \<Rightarrow> bool \<Rightarrow> ObjectStructure" where
  "newWithMap ps m hasIndex hasSym hasEnumerable =
     WithMap (mkBase hasIndex hasSym False hasEnumerable) (Some ps) m"

definition alloc :: "ObjectStructure \<Rightarrow> store \<Rightarrow> nat \<times> store" where
  "alloc s st = (length st, st @ [s])"

definition create :: "env \<Rightarrow> ObjectStructureItem list \<Rightarrow> bool \<Rightarrow> store \<Rightarrow> nat \<times> store" where
  "create e properties preferTransition st =
     (let hasSym = list_ex (\<lambda>it. isSymbol (strings e) (m_propertyName it)) properties;
          hasIndex = list_ex (\<lambda>it. nameIsIndexString (strings e) (m_propertyName it)) properties;
          hasNonAtomic = list_ex (\<lambda>it. \<not> hasAtomicString (m_propertyName it)) properties;
          hasEnumerable = (True \<or> list_ex (\<lambda>it. isEnumerable (natives e) (m_descriptor it)) properties)
      in alloc
        (if \<not> isTransitionModeAvailable (length properties)
         then newWithMap properties None hasIndex hasSym hasEnumerable
         else if preferTransition
         then newWithTransition properties hasIndex hasSym hasNonAtomic hasEnumerable
         else newWithoutTransition e properties hasIndex hasSym hasNonAtomic hasEnumerable) st)"

section \<open>\<open>PropertyNameMapWithCache\<close>\<close>

definition nameHash :: "env \<Rightarrow> pname \<Rightarrow> u64" where
  "nameHash e = hashValue (ptrHash e) (strHash e) (strings e)"

definition mapFind :: "env \<Rightarrow> (pname \<times> nat) list \<Rightarrow> pname \<Rightarrow> nat option" where
  "mapFind e m name =
     map_option snd (List.find (\<lambda>(k, i). nameHash e k = nameHash e name \<and> nameEq (strings e) k name) m)"

definition emptyNameMap :: "env \<Rightarrow> PropertyNameMapWithCache" where
  "emptyNameMap e = \<lparr>entries = [], m_lastItemName = emptyPropertyName (strings e), m_lastItemIndex = None\<rparr>"

definition nameMapInsert :: "env \<Rightarrow> PropertyNameMapWithCache \<Rightarrow> pname \<Rightarrow> nat \<Rightarrow> PropertyNameMapWithCache" where
  "nameMapInsert e m name idx =
     m\<lparr>m_lastItemName := name, m_lastItemIndex := Some idx,
       entries := (if mapFind e (entries m) name = None then entries m @ [(name, idx)] else entries m)\<rparr>"

definition nameMapFind :: "env \<Rightarrow> PropertyNameMapWithCache \<Rightarrow> pname \<Rightarrow> nat option \<times> PropertyNameMapWithCache" where
  "nameMapFind e m name =
     (if nameEq (strings e) name (m_lastItemName m) then (m_lastItemIndex m, m)
      else case mapFind e (entries m) name of
        None \<Rightarrow> (None, m\<lparr>m_lastItemName := name, m_lastItemIndex := None\<rparr>)
      | Some i \<Rightarrow> (Some i, m\<lparr>m_lastItemName := name, m_lastItemIndex := Some i\<rparr>))"

definition createPropertyNameMap :: "env \<Rightarrow> ObjectStructureItem list \<Rightarrow> PropertyNameMapWithCache" where
  "createPropertyNameMap e from =
     fold (\<lambda>i m. nameMapInsert e m (m_propertyName (from ! i)) i) [0..<length from] (emptyNameMap e)"

section \<open>\<open>findProperty\<close>\<close>

text \<open>The search both vector layouts run; \<open>None\<close> is \<open>SIZE_MAX\<close>.\<close>

definition searchItems :: "env \<Rightarrow> ObjectStructureBase \<Rightarrow> ObjectStructureItem list \<Rightarrow> pname \<Rightarrow> nat option" where
  "searchItems e b ps s =
     (if hasAtomicString s
      then if \<not> m_hasNonAtomicPropertyName b
           then find_index (\<lambda>it. m_propertyName it = s) ps
           else find_index (\<lambda>it. nameEqAtomic (strings e) (m_propertyName it) (asAtomicString s)) ps
      else if isSymbol (strings e) s
      then if m_hasSymbolPropertyName b
           then find_index (\<lambda>it. nameEq (strings e) (m_propertyName it) s) ps
           else None
      else find_index (\<lambda>it. nameEq (strings e) (m_propertyName it) s) ps)"

definition findWithoutTransition ::
  "env \<Rightarrow> ObjectStructureBase \<Rightarrow> ObjectStructureItem list \<Rightarrow> pname \<Rightarrow> pname \<Rightarrow> nat option \<times> ObjectStructure" where
  "findWithoutTransition e b ps lastName s =
     (if length ps \<noteq> 0 \<and> nameEq (strings e) lastName s
      then let lastIndex = lastFoundPropertyIndex b
           in if lastIndex = UINT16_MAX then (None, WithoutTransition b (Some ps) lastName)
              else (Some (unat lastIndex), WithoutTransition b (Some ps) lastName)
      else case searchItems e b ps s of
        Some i \<Rightarrow> (Some i, WithoutTransition (setLastFoundPropertyIndex (of_nat i) b) (Some ps) s)
      | None \<Rightarrow> (None, WithoutTransition (setLastFoundPropertyIndex UINT16_MAX b) (Some ps) s))"

definition findWithMap ::
  "env \<Rightarrow> ObjectStructureBase \<Rightarrow> ObjectStructureItem list \<Rightarrow> PropertyNameMapWithCache option \<Rightarrow> pname
    \<Rightarrow> nat option \<times> ObjectStructure" where
  "findWithMap e b ps m s =
     (let m0 = (case m of None \<Rightarrow> createPropertyNameMap e ps | Some m0 \<Rightarrow> m0);
          (idx, m1) = nameMapFind e m0 s
      in (idx, WithMap b (Some ps) (Some m1)))"

definition findProperty :: "env \<Rightarrow> store \<Rightarrow> nat \<Rightarrow> pname \<Rightarrow> (nat option \<times> store) option" where
  "findProperty e st p s =
     (case st ! p of
        WithoutTransition b (Some ps) lastName \<Rightarrow>
          (let (r, s') = findWithoutTransition e b ps lastName s in Some (r, st[p := s']))
      | WithTransition b ps table \<Rightarrow> Some (searchItems e b ps s, st)
      | WithMap b (Some ps) m \<Rightarrow>
          (let (r, s') = findWithMap e b ps m s in Some (r, st[p := s']))
      | _ \<Rightarrow> None)"

section \<open>\<open>properties\<close>, \<open>propertyCount\<close>, \<open>readProperty\<close> and the flags\<close>

definition properties :: "ObjectStructure \<Rightarrow> ObjectStructureItem list option" where
  "properties s = (case s of
     WithoutTransition b ps lastName \<Rightarrow> ps | WithTransition b ps table \<Rightarrow> Some ps | WithMap b ps m \<Rightarrow> ps)"

definition propertyCount :: "ObjectStructure \<Rightarrow> nat option" where
  "propertyCount s = map_option length (properties s)"

definition readProperty :: "ObjectStructure \<Rightarrow> nat \<Rightarrow> ObjectStructureItem option" where
  "readProperty s idx = (case properties s of None \<Rightarrow> None | Some ps \<Rightarrow> if idx < length ps then Some (ps ! idx) else None)"

definition base :: "ObjectStructure \<Rightarrow> ObjectStructureBase" where
  "base s = (case s of
     WithoutTransition b ps lastName \<Rightarrow> b | WithTransition b ps table \<Rightarrow> b | WithMap b ps m \<Rightarrow> b)"

definition inTransitionMode :: "ObjectStructure \<Rightarrow> bool" where
  "inTransitionMode s = (case s of WithTransition b ps table \<Rightarrow> True | _ \<Rightarrow> False)"

definition markReferencedByInlineCache :: "ObjectStructure \<Rightarrow> ObjectStructure" where
  "markReferencedByInlineCache s = (case s of
     WithoutTransition b ps lastName \<Rightarrow> WithoutTransition (b\<lparr>m_isReferencedByInlineCache := True\<rparr>) ps lastName
   | WithTransition b ps table \<Rightarrow> WithTransition (b\<lparr>m_isReferencedByInlineCache := True\<rparr>) ps table
   | WithMap b ps m \<Rightarrow> WithMap (b\<lparr>m_isReferencedByInlineCache := True\<rparr>) ps m)"

definition hasSamePropertiesTo :: "env \<Rightarrow> ObjectStructure \<Rightarrow> ObjectStructure \<Rightarrow> bool option" where
  "hasSamePropertiesTo e my src =
     (case (properties my, properties src) of
        (Some ps, Some qs) \<Rightarrow>
          Some (length ps = length qs \<and>
            list_all (\<lambda>j. nameEq (strings e) (m_propertyName (ps ! j)) (m_propertyName (qs ! j)) \<and>
                          m_descriptor (ps ! j) = m_descriptor (qs ! j)) [0..<length ps])
      | _ \<Rightarrow> None)"

definition structureHash :: "env \<Rightarrow> ObjectStructure \<Rightarrow> u64 option" where
  "structureHash e s = map_option
     (\<lambda>ps. fold (\<lambda>it r. r + nameHash e (m_propertyName it)) (take (min (length ps) 6) ps) (of_nat (length ps)))
     (properties s)"

section \<open>\<open>addProperty\<close>\<close>

text \<open>\<open>computeVectorAllocateSize\<close>; \<open>FAST_LOG2_UINT\<close> is the position of the highest bit set.\<close>

definition computeVectorAllocateSize :: "nat \<Rightarrow> nat" where
  "computeVectorAllocateSize newSize = (if newSize = 0 then 1 else 2 ^ (fastLog2 newSize + 1))"

definition transitionEq :: "env \<Rightarrow> ObjectStructureTransitionItem \<Rightarrow> pname \<Rightarrow> u64 \<Rightarrow> bool" where
  "transitionEq e it name desc \<longleftrightarrow> t_descriptor it = desc \<and> nameEq (strings e) (t_propertyName it) name"

definition transitionMapFind ::
  "env \<Rightarrow> ObjectStructureTransitionItem list \<Rightarrow> pname \<Rightarrow> u64 \<Rightarrow> ObjectStructureTransitionItem option" where
  "transitionMapFind e table name desc =
     List.find (\<lambda>it. nameHash e (t_propertyName it) + t_descriptor it = nameHash e name + desc
                     \<and> transitionEq e it name desc) table"

definition transitionMapInsert ::
  "env \<Rightarrow> ObjectStructureTransitionItem \<Rightarrow> ObjectStructureTransitionItem list \<Rightarrow> ObjectStructureTransitionItem list" where
  "transitionMapInsert e it table =
     (if transitionMapFind e table (t_propertyName it) (t_descriptor it) = None then table @ [it] else table)"

definition findTransition ::
  "env \<Rightarrow> ObjectStructureBase \<Rightarrow> ObjectStructureTransitionItem list \<Rightarrow> pname \<Rightarrow> u64 \<Rightarrow> nat option" where
  "findTransition e b table name desc =
     map_option t_structure
       (if m_doesTransitionTableUseMap b then transitionMapFind e table name desc
        else List.find (\<lambda>it. transitionEq e it name desc) (take (unat (m_transitionTableVectorBufferSize b)) table))"

text \<open>The table after a transition is recorded: the map, or the vector, or the vector turned into a map.\<close>

definition recordTransition ::
  "env \<Rightarrow> ObjectStructureTransitionItem \<Rightarrow> ObjectStructureBase \<Rightarrow> ObjectStructureTransitionItem list
    \<Rightarrow> ObjectStructureBase \<times> ObjectStructureTransitionItem list" where
  "recordTransition e it b table =
     (if m_doesTransitionTableUseMap b then (b, transitionMapInsert e it table)
      else let size = unat (m_transitionTableVectorBufferSize b)
           in if size + 1 > TRANSITION_MAP_MIN_SIZE
              then (b\<lparr>m_doesTransitionTableUseMap := True, m_transitionTableVectorBufferCapacity := 0,
                      m_transitionTableVectorBufferSize := 0\<rparr>,
                    transitionMapInsert e it (fold (transitionMapInsert e) (take size table) []))
              else let capacity = (if unat (m_transitionTableVectorBufferCapacity b) \<le> size + 1
                                   then of_nat (min (computeVectorAllocateSize (size + 1)) 255)
                                   else m_transitionTableVectorBufferCapacity b)
                   in (b\<lparr>m_transitionTableVectorBufferCapacity := capacity,
                         m_transitionTableVectorBufferSize := m_transitionTableVectorBufferSize b + 1\<rparr>,
                       take size table @ [it]))"

text \<open>The flags of the structure with one more property, computed alike in the three layouts.\<close>

definition addedIndexFlag :: "env \<Rightarrow> ObjectStructureBase \<Rightarrow> pname \<Rightarrow> bool" where
  "addedIndexFlag e b name = (if m_hasIndexPropertyName b then True else nameIsIndexString (strings e) name)"

definition addedSymbolFlag :: "env \<Rightarrow> ObjectStructureBase \<Rightarrow> pname \<Rightarrow> bool" where
  "addedSymbolFlag e b name = (if m_hasSymbolPropertyName b then True else isSymbol (strings e) name)"

definition addedNonAtomicFlag :: "ObjectStructureBase \<Rightarrow> pname \<Rightarrow> bool" where
  "addedNonAtomicFlag b name = (if m_hasNonAtomicPropertyName b then True else \<not> hasAtomicString name)"

definition addedEnumerableFlag :: "env \<Rightarrow> ObjectStructureBase \<Rightarrow> u64 \<Rightarrow> bool" where
  "addedEnumerableFlag e b desc = (if m_hasEnumerableProperty b then True else isEnumerable (natives e) desc)"

definition addWithoutTransition ::
  "env \<Rightarrow> store \<Rightarrow> nat \<Rightarrow> ObjectStructureBase \<Rightarrow> ObjectStructureItem list \<Rightarrow> pname \<Rightarrow> pname \<Rightarrow> u64 \<Rightarrow> nat \<times> store" where
  "addWithoutTransition e st p b ps lastName name desc =
     (let item = newItem name desc;
          nameIsIndex = addedIndexFlag e b name;
          nameIsSymbol = addedSymbolFlag e b name;
          hasNonAtomic = addedNonAtomicFlag b name;
          hasEnumerable = addedEnumerableFlag e b desc;
          st' = (if m_isReferencedByInlineCache b then st
                 else st[p := WithoutTransition b None lastName]);
          qs = ps @ [item]
      in alloc
        (if length qs > ACCESS_CACHE_BUILD_MIN_SIZE
         then newWithMap qs None nameIsIndex nameIsSymbol hasEnumerable
         else newWithoutTransition e qs nameIsIndex nameIsSymbol hasNonAtomic hasEnumerable) st')"

definition addWithTransition ::
  "env \<Rightarrow> store \<Rightarrow> nat \<Rightarrow> ObjectStructureBase \<Rightarrow> ObjectStructureItem list \<Rightarrow> ObjectStructureTransitionItem list
    \<Rightarrow> pname \<Rightarrow> u64 \<Rightarrow> nat \<times> store" where
  "addWithTransition e st p b ps table name desc =
     (case findTransition e b table name desc of
        Some next \<Rightarrow> (next, st)
      | None \<Rightarrow>
          (let item = newItem name desc;
               nameIsIndex = addedIndexFlag e b name;
               nameIsSymbol = addedSymbolFlag e b name;
               hasNonAtomic = addedNonAtomicFlag b name;
               hasEnumerable = addedEnumerableFlag e b desc
           in if length ps + 1 > TRANSITION_MODE_MAX_SIZE \<or> nameIsIndex
              then alloc (newWithoutTransition e (ps @ [item]) nameIsIndex nameIsSymbol hasNonAtomic hasEnumerable) st
              else (let (q, st') = alloc (newWithTransition (ps @ [item]) nameIsIndex nameIsSymbol hasNonAtomic hasEnumerable) st;
                        it = \<lparr>t_propertyName = name, t_descriptor = desc, t_structure = q\<rparr>;
                        (b', table') = recordTransition e it b table
                    in (q, st'[p := WithTransition b' ps table']))))"

definition addWithMap ::
  "env \<Rightarrow> store \<Rightarrow> nat \<Rightarrow> ObjectStructureBase \<Rightarrow> ObjectStructureItem list \<Rightarrow> PropertyNameMapWithCache option
    \<Rightarrow> pname \<Rightarrow> u64 \<Rightarrow> nat \<times> store" where
  "addWithMap e st p b ps m name desc =
     (let item = newItem name desc;
          nameIsIndex = addedIndexFlag e b name;
          nameIsSymbol = addedSymbolFlag e b name;
          hasEnumerable = addedEnumerableFlag e b desc;
          qs = ps @ [item]
      in if m_isReferencedByInlineCache b
         then alloc (newWithMap qs None nameIsIndex nameIsSymbol hasEnumerable) st
         else alloc (newWithMap qs (map_option (\<lambda>m. nameMapInsert e m name (length qs - 1)) m)
                       nameIsIndex nameIsSymbol hasEnumerable)
                    (st[p := WithMap b None None]))"

definition addProperty :: "env \<Rightarrow> store \<Rightarrow> nat \<Rightarrow> pname \<Rightarrow> u64 \<Rightarrow> (nat \<times> store) option" where
  "addProperty e st p name desc =
     (case st ! p of
        WithoutTransition b (Some ps) lastName \<Rightarrow> Some (addWithoutTransition e st p b ps lastName name desc)
      | WithTransition b ps table \<Rightarrow> Some (addWithTransition e st p b ps table name desc)
      | WithMap b (Some ps) m \<Rightarrow> Some (addWithMap e st p b ps m name desc)
      | _ \<Rightarrow> None)"

section \<open>\<open>removeProperty\<close>, \<open>replacePropertyDescriptor\<close>, \<open>convertToNonTransitionStructure\<close>\<close>

text \<open>The loop that copies all but one item recomputes the four flags over the items it copies.\<close>

definition removeWithoutTransition ::
  "env \<Rightarrow> store \<Rightarrow> nat \<Rightarrow> ObjectStructureBase \<Rightarrow> ObjectStructureItem list \<Rightarrow> pname \<Rightarrow> nat \<Rightarrow> nat \<times> store" where
  "removeWithoutTransition e st p b ps lastName pIndex =
     (let qs = remove_at pIndex ps;
          hasIndex = list_ex (\<lambda>it. nameIsIndexString (strings e) (m_propertyName it)) qs;
          hasSym = list_ex (\<lambda>it. isSymbol (strings e) (m_propertyName it)) qs;
          hasNonAtomic = list_ex (\<lambda>it. \<not> hasAtomicString (m_propertyName it)) qs;
          hasEnumerable = list_ex (\<lambda>it. isEnumerable (natives e) (m_descriptor it)) qs
      in alloc (newWithoutTransition e qs hasIndex hasSym hasNonAtomic hasEnumerable)
           (if m_isReferencedByInlineCache b then st else st[p := WithoutTransition b None lastName]))"

definition removeWithTransition ::
  "env \<Rightarrow> store \<Rightarrow> ObjectStructureItem list \<Rightarrow> nat \<Rightarrow> nat \<times> store" where
  "removeWithTransition e st ps pIndex =
     (let qs = remove_at pIndex ps;
          hasIndex = list_ex (\<lambda>it. nameIsIndexString (strings e) (m_propertyName it)) qs;
          hasSym = list_ex (\<lambda>it. isSymbol (strings e) (m_propertyName it)) qs;
          hasNonAtomic = list_ex (\<lambda>it. \<not> hasAtomicString (m_propertyName it)) qs;
          hasEnumerable = list_ex (\<lambda>it. isEnumerable (natives e) (m_descriptor it)) qs
      in alloc (newWithoutTransition e qs hasIndex hasSym hasNonAtomic hasEnumerable) st)"

definition removeWithMap ::
  "env \<Rightarrow> store \<Rightarrow> nat \<Rightarrow> ObjectStructureBase \<Rightarrow> ObjectStructureItem list \<Rightarrow> nat \<Rightarrow> nat \<times> store" where
  "removeWithMap e st p b ps pIndex =
     (let qs = remove_at pIndex ps;
          hasIndex = list_ex (\<lambda>it. nameIsIndexString (strings e) (m_propertyName it)) qs;
          hasSym = list_ex (\<lambda>it. isSymbol (strings e) (m_propertyName it)) qs;
          hasNonAtomic = list_ex (\<lambda>it. \<not> hasAtomicString (m_propertyName it)) qs;
          hasEnumerable = list_ex (\<lambda>it. isEnumerable (natives e) (m_descriptor it)) qs
      in alloc (if length qs > ACCESS_CACHE_BUILD_MIN_SIZE
                then newWithMap qs None hasIndex hasSym hasEnumerable
                else newWithoutTransition e qs hasIndex hasSym hasNonAtomic hasEnumerable)
           (if m_isReferencedByInlineCache b then st else st[p := WithMap b None None]))"

definition removeProperty :: "env \<Rightarrow> store \<Rightarrow> nat \<Rightarrow> nat \<Rightarrow> (nat \<times> store) option" where
  "removeProperty e st p pIndex =
     (case st ! p of
        WithoutTransition b (Some ps) lastName \<Rightarrow> Some (removeWithoutTransition e st p b ps lastName pIndex)
      | WithTransition b ps table \<Rightarrow> Some (removeWithTransition e st ps pIndex)
      | WithMap b (Some ps) m \<Rightarrow> Some (removeWithMap e st p b ps pIndex)
      | _ \<Rightarrow> None)"

definition setDescriptorAt :: "ObjectStructureItem list \<Rightarrow> nat \<Rightarrow> u64 \<Rightarrow> ObjectStructureItem list" where
  "setDescriptorAt ps idx newDesc = ps[idx := (ps ! idx)\<lparr>m_descriptor := newDesc\<rparr>]"

definition replaceWithoutTransition ::
  "env \<Rightarrow> store \<Rightarrow> nat \<Rightarrow> ObjectStructureBase \<Rightarrow> ObjectStructureItem list \<Rightarrow> pname \<Rightarrow> nat \<Rightarrow> u64 \<Rightarrow> nat \<times> store" where
  "replaceWithoutTransition e st p b ps lastName idx newDesc =
     alloc (newWithoutTransition e (setDescriptorAt ps idx newDesc) (m_hasIndexPropertyName b) (m_hasSymbolPropertyName b)
              (m_hasNonAtomicPropertyName b) (addedEnumerableFlag e b newDesc))
       (if m_isReferencedByInlineCache b then st else st[p := WithoutTransition b None lastName])"

definition replaceWithTransition ::
  "env \<Rightarrow> store \<Rightarrow> ObjectStructureBase \<Rightarrow> ObjectStructureItem list \<Rightarrow> nat \<Rightarrow> u64 \<Rightarrow> nat \<times> store" where
  "replaceWithTransition e st b ps idx newDesc =
     alloc (newWithoutTransition e (setDescriptorAt ps idx newDesc) (m_hasIndexPropertyName b) (m_hasSymbolPropertyName b)
              (m_hasNonAtomicPropertyName b) (addedEnumerableFlag e b newDesc)) st"

definition replaceWithMap ::
  "env \<Rightarrow> store \<Rightarrow> nat \<Rightarrow> ObjectStructureBase \<Rightarrow> ObjectStructureItem list \<Rightarrow> PropertyNameMapWithCache option
    \<Rightarrow> nat \<Rightarrow> u64 \<Rightarrow> nat \<times> store" where
  "replaceWithMap e st p b ps m idx newDesc =
     (let qs = setDescriptorAt ps idx newDesc;
          hasEnumerable = addedEnumerableFlag e b newDesc
      in if m_isReferencedByInlineCache b
         then alloc (newWithMap qs None (m_hasIndexPropertyName b) (m_hasSymbolPropertyName b) hasEnumerable) st
         else alloc (newWithMap qs m (m_hasIndexPropertyName b) (m_hasSymbolPropertyName b) hasEnumerable)
                (st[p := WithMap b None None]))"

definition replacePropertyDescriptor :: "env \<Rightarrow> store \<Rightarrow> nat \<Rightarrow> nat \<Rightarrow> u64 \<Rightarrow> (nat \<times> store) option" where
  "replacePropertyDescriptor e st p idx newDesc =
     (case st ! p of
        WithoutTransition b (Some ps) lastName \<Rightarrow> Some (replaceWithoutTransition e st p b ps lastName idx newDesc)
      | WithTransition b ps table \<Rightarrow> Some (replaceWithTransition e st b ps idx newDesc)
      | WithMap b (Some ps) m \<Rightarrow> Some (replaceWithMap e st p b ps m idx newDesc)
      | _ \<Rightarrow> None)"

definition convertToNonTransitionStructure :: "env \<Rightarrow> store \<Rightarrow> nat \<Rightarrow> nat \<times> store" where
  "convertToNonTransitionStructure e st p =
     (case st ! p of
        WithTransition b ps table \<Rightarrow>
          alloc (newWithoutTransition e ps (m_hasIndexPropertyName b) (m_hasSymbolPropertyName b)
                   (m_hasNonAtomicPropertyName b) (m_hasEnumerableProperty b)) st
      | _ \<Rightarrow> (p, st))"

section \<open>Well-formed structures\<close>

abbreviation item_key :: "env \<Rightarrow> ObjectStructureItem \<Rightarrow> property_key" where
  "item_key e it \<equiv> nkey (strings e) (m_propertyName it)"

definition items_ok :: "env \<Rightarrow> ObjectStructureItem list \<Rightarrow> bool" where
  "items_ok e ps \<longleftrightarrow>
     (\<forall>it \<in> set ps. name_ok (strings e) (m_propertyName it)) \<and> distinct (map (item_key e) ps)"

text \<open>The flags are upper bounds of what the items show.\<close>

definition flags_ok :: "env \<Rightarrow> ObjectStructureBase \<Rightarrow> ObjectStructureItem list \<Rightarrow> bool" where
  "flags_ok e b ps \<longleftrightarrow>
     (\<forall>it \<in> set ps. (isSymbol (strings e) (m_propertyName it) \<longrightarrow> m_hasSymbolPropertyName b) \<and>
        (nameIsIndexString (strings e) (m_propertyName it) \<longrightarrow> m_hasIndexPropertyName b) \<and>
        (isEnumerable (natives e) (m_descriptor it) \<longrightarrow> m_hasEnumerableProperty b))"

definition atomic_flag_ok :: "ObjectStructureBase \<Rightarrow> ObjectStructureItem list \<Rightarrow> bool" where
  "atomic_flag_ok b ps \<longleftrightarrow>
     (\<forall>it \<in> set ps. \<not> hasAtomicString (m_propertyName it) \<longrightarrow> m_hasNonAtomicPropertyName b)"

definition keyIndex :: "env \<Rightarrow> ObjectStructureItem list \<Rightarrow> pname \<Rightarrow> nat option" where
  "keyIndex e ps s = find_index (\<lambda>it. item_key e it = nkey (strings e) s) ps"

text \<open>The last lookup is remembered with its result.\<close>

definition cache_ok :: "env \<Rightarrow> ObjectStructureBase \<Rightarrow> ObjectStructureItem list \<Rightarrow> pname \<Rightarrow> bool" where
  "cache_ok e b ps lastName \<longleftrightarrow>
     name_ok (strings e) lastName \<and>
     (ps \<noteq> [] \<longrightarrow>
        keyIndex e ps lastName =
          (if lastFoundPropertyIndex b = UINT16_MAX then None else Some (unat (lastFoundPropertyIndex b))))"

definition map_ok :: "env \<Rightarrow> ObjectStructureItem list \<Rightarrow> PropertyNameMapWithCache \<Rightarrow> bool" where
  "map_ok e ps m \<longleftrightarrow>
     entries m = zip (map m_propertyName ps) [0..<length ps] \<and>
     name_ok (strings e) (m_lastItemName m) \<and> m_lastItemIndex m = keyIndex e ps (m_lastItemName m)"

definition table_ok :: "ObjectStructureBase \<Rightarrow> ObjectStructureTransitionItem list \<Rightarrow> bool" where
  "table_ok b table \<longleftrightarrow> m_doesTransitionTableUseMap b \<or>
     unat (m_transitionTableVectorBufferSize b) = length table \<and> length table \<le> TRANSITION_MAP_MIN_SIZE \<and>
     (table \<noteq> [] \<longrightarrow> length table < unat (m_transitionTableVectorBufferCapacity b))"

fun structure_ok :: "env \<Rightarrow> ObjectStructure \<Rightarrow> bool" where
  "structure_ok e (WithoutTransition b None lastName) = True"
| "structure_ok e (WithoutTransition b (Some ps) lastName) \<longleftrightarrow>
     items_ok e ps \<and> flags_ok e b ps \<and> atomic_flag_ok b ps \<and> length ps \<le> ACCESS_CACHE_BUILD_MIN_SIZE \<and>
     cache_ok e b ps lastName"
| "structure_ok e (WithTransition b ps table) \<longleftrightarrow>
     items_ok e ps \<and> flags_ok e b ps \<and> atomic_flag_ok b ps \<and> length ps \<le> TRANSITION_MODE_MAX_SIZE \<and> table_ok b table"
| "structure_ok e (WithMap b None m) = True"
| "structure_ok e (WithMap b (Some ps) m) \<longleftrightarrow>
     items_ok e ps \<and> flags_ok e b ps \<and> (\<forall>m' \<in> set_option m. map_ok e ps m')"

text \<open>A recorded transition leads to the structure with one more item.\<close>

definition link_ok :: "store \<Rightarrow> ObjectStructureItem list \<Rightarrow> ObjectStructureTransitionItem \<Rightarrow> bool" where
  "link_ok st ps it \<longleftrightarrow> t_structure it < length st \<and>
     (\<exists>b table. st ! t_structure it = WithTransition b (ps @ [newItem (t_propertyName it) (t_descriptor it)]) table)"

definition links_ok :: "store \<Rightarrow> bool" where
  "links_ok st \<longleftrightarrow>
     (\<forall>p b ps table. p < length st \<longrightarrow> st ! p = WithTransition b ps table \<longrightarrow> (\<forall>it \<in> set table. link_ok st ps it))"

definition store_ok :: "env \<Rightarrow> store \<Rightarrow> bool" where
  "store_ok e st \<longleftrightarrow> atoms_ok (strings e) \<and> (\<forall>s \<in> set st. structure_ok e s) \<and> links_ok st"

section \<open>Lemmas\<close>

lemmas addProperty_defs = addProperty_def addWithoutTransition_def addWithTransition_def addWithMap_def
lemmas removeProperty_defs = removeProperty_def removeWithoutTransition_def removeWithTransition_def removeWithMap_def
lemmas replacePropertyDescriptor_defs = replacePropertyDescriptor_def replaceWithoutTransition_def
  replaceWithTransition_def replaceWithMap_def setDescriptorAt_def

lemma properties_simps [simp]:
  "properties (WithoutTransition b qs l) = qs"
  "properties (WithTransition b ps table) = Some ps"
  "properties (WithMap b qs m) = qs"
  by (simp_all add: properties_def)

lemma base_simps [simp]:
  "base (WithoutTransition b qs l) = b" "base (WithTransition b ps table) = b" "base (WithMap b qs m) = b"
  by (simp_all add: base_def)

lemma ball_set_update: "\<forall>x \<in> set xs. P x \<Longrightarrow> P y \<Longrightarrow> \<forall>x \<in> set (xs[i := y]). P x"
  using set_update_subset_insert [of xs i y] by auto

subsection \<open>The cached index\<close>

lemma lastFound_set [simp]: "lastFoundPropertyIndex (setLastFoundPropertyIndex s b) = s"
proof (rule bit_eqI)
  fix n
  show "bit (lastFoundPropertyIndex (setLastFoundPropertyIndex s b)) n = bit s n"
    by (auto simp: lastFoundPropertyIndex_def setLastFoundPropertyIndex_def bit_simps dest: bit_imp_le_length)
qed

lemma setLast_flags [simp]:
  "m_hasIndexPropertyName (setLastFoundPropertyIndex s b) = m_hasIndexPropertyName b"
  "m_hasSymbolPropertyName (setLastFoundPropertyIndex s b) = m_hasSymbolPropertyName b"
  "m_hasNonAtomicPropertyName (setLastFoundPropertyIndex s b) = m_hasNonAtomicPropertyName b"
  "m_hasEnumerableProperty (setLastFoundPropertyIndex s b) = m_hasEnumerableProperty b"
  "m_isReferencedByInlineCache (setLastFoundPropertyIndex s b) = m_isReferencedByInlineCache b"
  "flags_ok e (setLastFoundPropertyIndex s b) ps = flags_ok e b ps"
  "atomic_flag_ok (setLastFoundPropertyIndex s b) ps = atomic_flag_ok b ps"
  by (auto simp: setLastFoundPropertyIndex_def flags_ok_def atomic_flag_ok_def)

lemma unat_index16: "i < 65536 \<Longrightarrow> unat (of_nat i :: 16 word) = i"
  by (simp add: unat_of_nat)

lemma index16_not_max: "i < 65535 \<Longrightarrow> (of_nat i :: 16 word) \<noteq> UINT16_MAX"
proof
  assume "i < 65535" "(of_nat i :: 16 word) = UINT16_MAX"
  then have "unat (of_nat i :: 16 word) = unat (UINT16_MAX :: 16 word)" by simp
  with unat_index16 [of i] \<open>i < 65535\<close> show False by simp
qed

subsection \<open>Searching\<close>

lemma keyIndex_None: "keyIndex e ps s = None \<longleftrightarrow> nkey (strings e) s \<notin> item_key e ` set ps"
  unfolding keyIndex_def find_index_None by (metis (no_types, lifting) image_iff)

lemma keyIndex_Some:
  "keyIndex e ps s = Some i \<Longrightarrow> i < length ps \<and> item_key e (ps ! i) = nkey (strings e) s"
  by (auto simp: keyIndex_def dest: find_index_SomeD)

lemma keyIndexI:
  assumes "items_ok e ps" "i < length ps" "item_key e (ps ! i) = nkey (strings e) s"
  shows "keyIndex e ps s = Some i"
  unfolding keyIndex_def
proof (rule find_index_SomeI)
  fix j
  assume "j < i"
  with assms(1,2) have "item_key e (ps ! j) \<noteq> item_key e (ps ! i)"
    by (auto simp: items_ok_def distinct_conv_nth)
  with assms(3) show "item_key e (ps ! j) \<noteq> nkey (strings e) s" by simp
qed (use assms in auto)

lemma keyIndex_cong: "nkey (strings e) s = nkey (strings e) t \<Longrightarrow> keyIndex e ps s = keyIndex e ps t"
  by (simp add: keyIndex_def)

lemma keyIndex_last:
  "items_ok e ps \<Longrightarrow> ps \<noteq> [] \<Longrightarrow> keyIndex e ps (m_propertyName (last ps)) = Some (length ps - 1)"
  by (rule keyIndexI) (auto simp: last_conv_nth)

lemma searchItems_correct:
  assumes ok: "atoms_ok (strings e)" and items: "items_ok e ps" and flags: "flags_ok e b ps" "atomic_flag_ok b ps"
    and s: "name_ok (strings e) s"
  shows "searchItems e b ps s = keyIndex e ps s"
proof -
  have eq: "nameEq (strings e) (m_propertyName it) s \<longleftrightarrow> item_key e it = nkey (strings e) s" if "it \<in> set ps" for it
    using nameEq_key [OF ok _ s] items that by (auto simp: items_ok_def)
  consider (raw) "hasAtomicString s" "\<not> m_hasNonAtomicPropertyName b"
    | (atomic) "hasAtomicString s" "m_hasNonAtomicPropertyName b"
    | (nosymbol) "\<not> hasAtomicString s" "isSymbol (strings e) s" "\<not> m_hasSymbolPropertyName b"
    | (other) "\<not> hasAtomicString s" "isSymbol (strings e) s \<longrightarrow> m_hasSymbolPropertyName b"
    by blast
  then show ?thesis
  proof cases
    case raw
    then have "m_propertyName it = s \<longleftrightarrow> item_key e it = nkey (strings e) s" if "it \<in> set ps" for it
      using atomic_name_raw [OF ok _ s] items flags that by (auto simp: items_ok_def atomic_flag_ok_def)
    with raw show ?thesis by (simp add: searchItems_def keyIndex_def cong: find_index_cong)
  next
    case atomic
    then have "nameEqAtomic (strings e) (m_propertyName it) (asAtomicString s) \<longleftrightarrow> item_key e it = nkey (strings e) s"
      if "it \<in> set ps" for it
      using nameEqAtomic_key [OF ok _ s] items that by (auto simp: items_ok_def)
    with atomic show ?thesis by (simp add: searchItems_def keyIndex_def cong: find_index_cong)
  next
    case nosymbol
    have "nkey (strings e) s \<notin> item_key e ` set ps"
    proof
      assume "nkey (strings e) s \<in> item_key e ` set ps"
      then obtain it where "it \<in> set ps" "item_key e it = KSymbol s"
        using nosymbol by (auto simp: nkey_def split: if_splits)
      then show False using flags(1) nosymbol(3) by (auto simp: flags_ok_def nkey_def split: if_splits)
    qed
    with nosymbol show ?thesis using keyIndex_None [of e ps s] by (simp add: searchItems_def)
  next
    case other
    with eq show ?thesis by (auto simp: searchItems_def keyIndex_def intro: find_index_cong)
  qed
qed

subsection \<open>The name map\<close>

definition hash_agree :: "env \<Rightarrow> ObjectStructureItem list \<Rightarrow> pname \<Rightarrow> bool" where
  "hash_agree e ps s \<longleftrightarrow>
     (\<forall>it \<in> set ps. item_key e it = nkey (strings e) s \<longrightarrow> nameHash e (m_propertyName it) = nameHash e s)"

lemma find_zip_index:
  "map_option snd (List.find (\<lambda>(k, i). P k) (zip xs [n..<n + length xs])) = map_option (\<lambda>i. i + n) (find_index P xs)"
proof (induction xs arbitrary: n)
  case (Cons x xs)
  have "[n..<n + length (x # xs)] = n # [Suc n..<Suc n + length xs]" by (simp add: upt_rec)
  with Cons.IH [of "Suc n"] show ?case
    by (simp add: option.map_comp comp_def)
qed simp

lemma mapFind_correct:
  assumes "atoms_ok (strings e)" "items_ok e ps" "name_ok (strings e) s" "hash_agree e ps s"
  shows "mapFind e (zip (map m_propertyName ps) [0..<length ps]) s = keyIndex e ps s"
proof -
  have "mapFind e (zip (map m_propertyName ps) [0..<length ps]) s =
      find_index (\<lambda>k. nameHash e k = nameHash e s \<and> nameEq (strings e) k s) (map m_propertyName ps)"
    using find_zip_index [of "\<lambda>k. nameHash e k = nameHash e s \<and> nameEq (strings e) k s" "map m_propertyName ps" 0]
    by (simp add: mapFind_def option.map_ident)
  also have "\<dots> = find_index (\<lambda>it. nameHash e (m_propertyName it) = nameHash e s \<and> nameEq (strings e) (m_propertyName it) s) ps"
    by (induction ps) auto
  also have "\<dots> = keyIndex e ps s"
    unfolding keyIndex_def
    using assms nameEq_key [OF assms(1) _ assms(3)]
    by (intro find_index_cong) (auto simp: items_ok_def hash_agree_def)
  finally show ?thesis .
qed

lemma mapFind_absent:
  assumes "atoms_ok (strings e)" "items_ok e ps" "name_ok (strings e) s" "nkey (strings e) s \<notin> item_key e ` set ps"
  shows "mapFind e (zip (map m_propertyName ps) [0..<length ps]) s = None"
proof -
  have "hash_agree e ps s" using assms(4) by (force simp: hash_agree_def)
  with mapFind_correct [OF assms(1-3)] assms(4) keyIndex_None [of e ps s] show ?thesis by simp
qed

lemma items_ok_append:
  "items_ok e (ps @ [it]) \<longleftrightarrow>
     items_ok e ps \<and> name_ok (strings e) (m_propertyName it) \<and> item_key e it \<notin> item_key e ` set ps"
  by (auto simp: items_ok_def)

lemma map_ok_insert:
  assumes "atoms_ok (strings e)" "items_ok e (ps @ [it])" "map_ok e ps m"
  shows "map_ok e (ps @ [it]) (nameMapInsert e m (m_propertyName it) (length ps))"
proof -
  have absent: "mapFind e (entries m) (m_propertyName it) = None"
    using mapFind_absent [of e ps "m_propertyName it"] assms by (simp add: items_ok_append map_ok_def)
  have "keyIndex e (ps @ [it]) (m_propertyName it) = Some (length ps)"
    using assms(2) by (intro keyIndexI) auto
  with absent assms show ?thesis
    by (simp add: map_ok_def nameMapInsert_def items_ok_append)
qed

lemma name_ok_empty: "atoms_ok st \<Longrightarrow> name_ok st (emptyPropertyName st)"
  by (simp add: emptyPropertyName_def name_ok_atomic atoms_okD(5))

lemma map_ok_create:
  assumes ok: "atoms_ok (strings e)" and items: "items_ok e ps"
  shows "map_ok e ps (createPropertyNameMap e ps)"
proof -
  let ?f = "\<lambda>i m. nameMapInsert e m (m_propertyName (ps ! i)) i"
  have "map_ok e (take n ps) (fold ?f [0..<n] (emptyNameMap e))" if "n \<le> length ps" for n
    using that
  proof (induction n)
    case 0
    then show ?case using ok by (simp add: map_ok_def emptyNameMap_def keyIndex_def name_ok_empty)
  next
    case (Suc n)
    have "take (Suc n) ps = take n ps @ [ps ! n]" using Suc.prems by (simp add: take_Suc_conv_app_nth)
    moreover have "items_ok e (take n ps @ [ps ! n])"
    proof -
      have "ps = (take n ps @ [ps ! n]) @ drop (Suc n) ps" using Suc.prems by (simp add: id_take_nth_drop)
      with items show ?thesis unfolding items_ok_def
        by (metis (no_types, lifting) UnCI distinct_append map_append set_append)
    qed
    ultimately show ?case
      using map_ok_insert [OF ok, of "take n ps" "ps ! n"] Suc by simp
  qed
  from this [of "length ps"] show ?thesis by (simp add: createPropertyNameMap_def)
qed

lemma nameMapFind_correct:
  assumes ok: "atoms_ok (strings e)" and items: "items_ok e ps" and s: "name_ok (strings e) s"
    and agree: "hash_agree e ps s" and m: "map_ok e ps m"
  shows "fst (nameMapFind e m s) = keyIndex e ps s \<and> map_ok e ps (snd (nameMapFind e m s))"
proof (cases "nameEq (strings e) s (m_lastItemName m)")
  case True
  then have "nkey (strings e) s = nkey (strings e) (m_lastItemName m)"
    using nameEq_key [OF ok s] m by (simp add: map_ok_def)
  then have "keyIndex e ps s = keyIndex e ps (m_lastItemName m)" by (rule keyIndex_cong)
  with True m show ?thesis by (simp add: nameMapFind_def map_ok_def)
next
  case False
  with m mapFind_correct [OF ok items s agree] show ?thesis
    by (auto simp: nameMapFind_def map_ok_def s split: option.splits)
qed

subsection \<open>New structures are well formed\<close>

lemma newWithoutTransition_ok [wf_intros]:
  assumes "atoms_ok (strings e)" "items_ok e ps" "length ps \<le> 512"
    "flags_ok e (mkBase i sy na en) ps" "atomic_flag_ok (mkBase i sy na en) ps"
  shows "structure_ok e (newWithoutTransition e ps i sy na en)"
proof (cases "ps = []")
  case True
  with assms show ?thesis by (simp add: newWithoutTransition_def cache_ok_def name_ok_empty Let_def)
next
  case False
  have "length ps - 1 < 65535" using assms(3) by simp
  then have "keyIndex e ps (m_propertyName (last ps)) =
      (if (of_nat (length ps - 1) :: 16 word) = UINT16_MAX then None else Some (unat (of_nat (length ps - 1) :: 16 word)))"
    using keyIndex_last [OF assms(2) False] index16_not_max [of "length ps - 1"] unat_index16 [of "length ps - 1"]
    by (simp only: if_False)
  moreover have "name_ok (strings e) (m_propertyName (last ps))"
    using assms(2) False by (simp add: items_ok_def)
  ultimately show ?thesis
    using False assms by (simp add: newWithoutTransition_def cache_ok_def Let_def)
qed

lemma newWithTransition_ok [wf_intros]:
  assumes "items_ok e ps" "length ps \<le> 36" "flags_ok e (mkBase i sy na en) ps" "atomic_flag_ok (mkBase i sy na en) ps"
  shows "structure_ok e (newWithTransition ps i sy na en)"
  using assms by (simp add: newWithTransition_def table_ok_def mkBase_def)

lemma newWithMap_ok [wf_intros]:
  assumes "items_ok e ps" "flags_ok e (mkBase i sy False en) ps" "\<And>m'. m = Some m' \<Longrightarrow> map_ok e ps m'"
  shows "structure_ok e (newWithMap ps m i sy en)"
  using assms by (cases m) (auto simp: newWithMap_def)

lemma properties_new [simp]:
  "properties (newWithoutTransition e ps i sy na en) = Some ps"
  "properties (newWithTransition ps i sy na en) = Some ps"
  "properties (newWithMap ps m i sy en) = Some ps"
  by (auto simp: newWithoutTransition_def newWithTransition_def newWithMap_def properties_def Let_def)

subsection \<open>Finding\<close>

definition agrees :: "env \<Rightarrow> ObjectStructure \<Rightarrow> pname \<Rightarrow> bool" where
  "agrees e s name \<longleftrightarrow>
     (case s of WithMap b (Some ps) m \<Rightarrow> hash_agree e ps name | _ \<Rightarrow> True)"

lemma findWithoutTransition_correct:
  assumes ok: "atoms_ok (strings e)" and st: "structure_ok e (WithoutTransition b (Some ps) lastName)"
    and s: "name_ok (strings e) s"
  shows "fst (findWithoutTransition e b ps lastName s) = keyIndex e ps s \<and>
    structure_ok e (snd (findWithoutTransition e b ps lastName s)) \<and>
    (\<exists>b' l'. snd (findWithoutTransition e b ps lastName s) = WithoutTransition b' (Some ps) l')"
proof (cases "length ps \<noteq> 0 \<and> nameEq (strings e) lastName s")
  case True
  then have "nkey (strings e) s = nkey (strings e) lastName"
    using nameEq_key [OF ok _ s] st by (auto simp: cache_ok_def)
  then have "keyIndex e ps s = keyIndex e ps lastName" by (rule keyIndex_cong)
  with True st show ?thesis by (auto simp: findWithoutTransition_def cache_ok_def Let_def)
next
  case False
  have search: "searchItems e b ps s = keyIndex e ps s"
    using searchItems_correct [OF ok] st s by simp
  show ?thesis
  proof (cases "keyIndex e ps s")
    case None
    with False search st s show ?thesis by (auto simp: findWithoutTransition_def cache_ok_def)
  next
    case (Some i)
    with st have "i < 65535" using keyIndex_Some [OF Some] by simp
    with Some False search st s show ?thesis
      using index16_not_max [of i] unat_index16 [of i]
      by (auto simp: findWithoutTransition_def cache_ok_def)
  qed
qed

lemma findWithMap_correct:
  assumes ok: "atoms_ok (strings e)" and st: "structure_ok e (WithMap b (Some ps) m)"
    and s: "name_ok (strings e) s" and agree: "hash_agree e ps s"
  shows "fst (findWithMap e b ps m s) = keyIndex e ps s \<and>
    structure_ok e (snd (findWithMap e b ps m s)) \<and>
    (\<exists>m'. snd (findWithMap e b ps m s) = WithMap b (Some ps) (Some m'))"
proof -
  let ?m0 = "case m of None \<Rightarrow> createPropertyNameMap e ps | Some m0 \<Rightarrow> m0"
  have "map_ok e ps ?m0" using st ok by (auto simp: map_ok_create split: option.splits)
  from nameMapFind_correct [OF ok _ s agree this] st show ?thesis
    by (auto simp: findWithMap_def case_prod_beta Let_def)
qed

lemma store_ok_nth: "store_ok e st \<Longrightarrow> p < length st \<Longrightarrow> structure_ok e (st ! p)"
  by (simp add: store_ok_def)

text \<open>
  Replacing a structure by one that is no transition structure, or by a transition structure with the
  same items, breaks no link; nor does a new structure with an empty table.
\<close>

lemma links_ok_update:
  assumes "links_ok st" "p < length st" "\<not> inTransitionMode (st ! p)" "\<not> inTransitionMode s"
  shows "links_ok (st[p := s])"
  unfolding links_ok_def
proof (intro allI impI ballI)
  fix q b ps table it
  assume q: "q < length (st[p := s])" "st[p := s] ! q = WithTransition b ps table" "it \<in> set table"
  then have "q \<noteq> p" using assms(2,4) by (auto simp: inTransitionMode_def)
  with q assms(1) have l: "link_ok st ps it" by (auto simp: links_ok_def)
  then have "t_structure it \<noteq> p" using assms(3) by (auto simp: link_ok_def inTransitionMode_def)
  with l show "link_ok (st[p := s]) ps it" by (auto simp: link_ok_def)
qed

lemma link_ok_append: "link_ok st ps it \<Longrightarrow> link_ok (st @ [s]) ps it"
  by (auto simp: link_ok_def nth_append)

lemma links_ok_append:
  assumes "links_ok st" "\<And>b ps table. s = WithTransition b ps table \<Longrightarrow> table = []"
  shows "links_ok (st @ [s])"
  unfolding links_ok_def
proof (intro allI impI ballI)
  fix q b ps table it
  assume "q < length (st @ [s])" "(st @ [s]) ! q = WithTransition b ps table" "it \<in> set table"
  then have "q < length st" "st ! q = WithTransition b ps table"
    using assms(2) by (auto simp: nth_append less_Suc_eq split: if_splits)
  with assms(1) \<open>it \<in> set table\<close> show "link_ok (st @ [s]) ps it"
    by (auto simp: links_ok_def intro: link_ok_append)
qed

lemma links_ok_update_table:
  assumes "links_ok st" "p < length st" "st ! p = WithTransition b ps table"
    and "\<forall>it \<in> set table'. link_ok st ps it"
  shows "links_ok (st[p := WithTransition b' ps table'])"
proof -
  have "link_ok (st[p := WithTransition b' ps table']) qs it" if "link_ok st qs it" for qs it
    using that assms(2,3) by (auto simp: link_ok_def nth_list_update)
  then show ?thesis
    using assms unfolding links_ok_def by (auto simp: nth_list_update split: if_splits)
qed

lemma store_ok_update:
  "store_ok e st \<Longrightarrow> p < length st \<Longrightarrow> \<not> inTransitionMode (st ! p) \<Longrightarrow> \<not> inTransitionMode s \<Longrightarrow>
     structure_ok e s \<Longrightarrow> store_ok e (st[p := s])"
  by (auto simp: store_ok_def intro: links_ok_update dest: set_update_subset_insert [THEN subsetD])

lemma store_ok_alloc:
  "store_ok e st \<Longrightarrow> structure_ok e s \<Longrightarrow> (\<And>b ps table. s = WithTransition b ps table \<Longrightarrow> table = []) \<Longrightarrow>
     store_ok e (st @ [s])"
  by (auto simp: store_ok_def intro: links_ok_append)

lemma findProperty_ok:
  assumes ok: "store_ok e st" and p: "p < length st" "properties (st ! p) = Some ps"
    and s: "name_ok (strings e) s" and agree: "agrees e (st ! p) s"
  obtains st' where "findProperty e st p s = Some (keyIndex e ps s, st')" "store_ok e st'"
    "length st' = length st" "\<forall>q. properties (st' ! q) = properties (st ! q)"
proof -
  have atoms: "atoms_ok (strings e)" and sp: "structure_ok e (st ! p)"
    using ok p by (auto simp: store_ok_def)
  show ?thesis
  proof (cases "st ! p")
    case (WithoutTransition b ps' l)
    with p have [simp]: "ps' = Some ps" by (simp add: properties_def)
    obtain r s' where f: "findWithoutTransition e b ps l s = (r, s')" by fastforce
    with findWithoutTransition_correct [OF atoms _ s, of b ps l] sp WithoutTransition
    obtain b' l' where c: "r = keyIndex e ps s" "structure_ok e s'" "s' = WithoutTransition b' (Some ps) l'"
      by auto
    show ?thesis
    proof (rule that [of "st[p := s']"])
      show "store_ok e (st[p := s'])"
        using ok p(1) WithoutTransition c by (intro store_ok_update) (auto simp: inTransitionMode_def)
    qed (use f c WithoutTransition p(1) in \<open>auto simp: findProperty_def nth_list_update properties_def\<close>)
  next
    case (WithTransition b ps' table)
    with p sp searchItems_correct [OF atoms _ _ _ s, of ps b] show ?thesis
      by (intro that [of st]) (auto simp: findProperty_def properties_def ok)
  next
    case (WithMap b ps' m)
    with p have [simp]: "ps' = Some ps" by (simp add: properties_def)
    obtain r s' where f: "findWithMap e b ps m s = (r, s')" by fastforce
    with findWithMap_correct [OF atoms _ s, of b ps m] sp WithMap agree
    obtain m' where c: "r = keyIndex e ps s" "structure_ok e s'" "s' = WithMap b (Some ps) (Some m')"
      by (auto simp: agrees_def)
    show ?thesis
    proof (rule that [of "st[p := s']"])
      show "store_ok e (st[p := s'])"
        using ok p(1) WithMap c by (intro store_ok_update) (auto simp: inTransitionMode_def)
    qed (use f c WithMap p(1) in \<open>auto simp: findProperty_def nth_list_update properties_def\<close>)
  qed
qed

subsection \<open>Transition tables\<close>

lemma computeVectorAllocateSize_bounds:
  "0 < n \<Longrightarrow> n < computeVectorAllocateSize n \<and> computeVectorAllocateSize n \<le> 2 * n"
  using fastLog2_bounds [of n] by (simp add: computeVectorAllocateSize_def)

lemma set_transitionMapInsert: "set (transitionMapInsert e it table) \<subseteq> insert it (set table)"
  by (auto simp: transitionMapInsert_def)

lemma set_fold_transitionMapInsert:
  "set (fold (transitionMapInsert e) xs table) \<subseteq> set xs \<union> set table"
proof (induction xs arbitrary: table)
  case (Cons x xs)
  from Cons.IH [of "transitionMapInsert e x table"] set_transitionMapInsert [of e x table]
  show ?case by auto
qed simp

lemma recordTransition_set:
  "recordTransition e it b table = (b', table') \<Longrightarrow> set table' \<subseteq> insert it (set table)"
  using set_transitionMapInsert [of e it]
    set_fold_transitionMapInsert [of e "take (unat (m_transitionTableVectorBufferSize b)) table" "[]"]
  by (auto simp: recordTransition_def Let_def dest: in_set_takeD subsetD split: if_splits)

lemma recordTransition_flags:
  assumes "recordTransition e it b table = (b', table')"
  shows "flags_ok e b' ps = flags_ok e b ps" "atomic_flag_ok b' ps = atomic_flag_ok b ps"
    "m_isReferencedByInlineCache b' = m_isReferencedByInlineCache b"
  using assms by (auto simp: recordTransition_def Let_def flags_ok_def atomic_flag_ok_def split: if_splits)

lemma recordTransition_table:
  assumes "table_ok b table" "recordTransition e it b table = (b', table')"
  shows "table_ok b' table'"
proof (cases "m_doesTransitionTableUseMap b")
  case True
  with assms(2) show ?thesis by (auto simp: recordTransition_def table_ok_def)
next
  case False
  let ?size = "unat (m_transitionTableVectorBufferSize b)"
  have size: "?size = length table" "length table \<le> 32"
    using assms(1) False by (auto simp: table_ok_def)
  show ?thesis
  proof (cases "?size + 1 > 32")
    case True
    with assms(2) False show ?thesis by (auto simp: recordTransition_def table_ok_def Let_def)
  next
    case small: False
    let ?new = "min (computeVectorAllocateSize (?size + 1)) 255"
    have "?size + 1 < ?new" "?new < 256"
      using computeVectorAllocateSize_bounds [of "?size + 1"] small by auto
    then have "?size + 1 < unat (of_nat ?new :: 8 word)"
      by (simp only: unat_of_nat) simp
    moreover have "unat (m_transitionTableVectorBufferSize b + 1) = ?size + 1"
      using small by (subst unat_add_lem [THEN iffD1]) auto
    ultimately show ?thesis
      using assms(2) False small size by (auto simp: recordTransition_def table_ok_def Let_def split: if_splits)
  qed
qed

lemma findTransition_Some:
  assumes "findTransition e b table name desc = Some q"
  obtains it where "it \<in> set table" "t_structure it = q" "t_descriptor it = desc"
    "nameEq (strings e) (t_propertyName it) name"
  using assms
  by (auto simp: findTransition_def transitionMapFind_def transitionEq_def find_Some_iff split: if_splits
      intro!: that elim: nth_mem)

subsection \<open>Adding, removing, replacing\<close>

text \<open>The abstract value of a structure: its keys with their descriptors, in order.\<close>

definition dict :: "env \<Rightarrow> ObjectStructureItem list \<Rightarrow> (property_key \<times> u64) list" where
  "dict e ps = map (\<lambda>it. (item_key e it, m_descriptor it)) ps"

text \<open>
  What an operation on \<open>p\<close> leaves of the other structures, and of \<open>p\<close> itself: its properties, unless
  they were moved to the result, which happens to no transition structure and to none an inline cache
  refers to.
\<close>

definition frame :: "store \<Rightarrow> store \<Rightarrow> nat \<Rightarrow> bool" where
  "frame st st' p \<longleftrightarrow>
     length st \<le> length st' \<and>
     (\<forall>q < length st. q \<noteq> p \<longrightarrow> properties (st' ! q) = properties (st ! q)) \<and>
     (properties (st' ! p) = properties (st ! p) \<or>
      properties (st' ! p) = None \<and> \<not> inTransitionMode (st ! p) \<and> \<not> m_isReferencedByInlineCache (base (st ! p)))"

definition op_ok :: "env \<Rightarrow> store \<Rightarrow> nat \<Rightarrow> (property_key \<times> u64) list \<Rightarrow> nat \<times> store \<Rightarrow> bool" where
  "op_ok e st p d r \<longleftrightarrow>
     store_ok e (snd r) \<and> fst r < length (snd r) \<and>
     (\<exists>qs. properties (snd r ! fst r) = Some qs \<and> dict e qs = d) \<and> frame st (snd r) p"

lemma op_ok_alloc:
  assumes "store_ok e st'" "structure_ok e s" "\<And>b ps table. s = WithTransition b ps table \<Longrightarrow> table = []"
    "properties s = Some qs" "dict e qs = d" "p < length st" "length st' = length st" "frame st st' p"
  shows "op_ok e st p d (alloc s st')"
  using assms store_ok_alloc [OF assms(1-3)]
  by (auto simp: op_ok_def alloc_def frame_def nth_append)

lemma frame_refl: "frame st st p"
  by (simp add: frame_def)

lemma frame_moved:
  assumes "p < length st" "\<not> inTransitionMode (st ! p)" "\<not> m_isReferencedByInlineCache (base (st ! p))"
    "properties s = None"
  shows "frame st (st[p := s]) p"
  using assms by (auto simp: frame_def)

lemma flags_ok_add:
  assumes "flags_ok e b ps"
  shows "flags_ok e (mkBase (addedIndexFlag e b name) (addedSymbolFlag e b name) na (addedEnumerableFlag e b desc))
    (ps @ [newItem name desc])"
  using assms
  by (auto simp: flags_ok_def mkBase_def newItem_def addedIndexFlag_def addedSymbolFlag_def addedEnumerableFlag_def)

lemma atomic_flag_ok_add:
  assumes "atomic_flag_ok b ps"
  shows "atomic_flag_ok (mkBase i sy (addedNonAtomicFlag b name) en) (ps @ [newItem name desc])"
  using assms by (auto simp: atomic_flag_ok_def mkBase_def newItem_def addedNonAtomicFlag_def)

lemma items_ok_add:
  "items_ok e ps \<Longrightarrow> name_ok (strings e) name \<Longrightarrow> nkey (strings e) name \<notin> item_key e ` set ps \<Longrightarrow>
     items_ok e (ps @ [newItem name desc])"
  by (simp add: items_ok_append newItem_def)

lemma dict_add [simp]: "dict e (ps @ [newItem name desc]) = dict e ps @ [(nkey (strings e) name, desc)]"
  by (simp add: dict_def newItem_def)

lemma not_transition [simp]:
  "newWithoutTransition e ps i sy na en \<noteq> WithTransition b qs table"
  "newWithMap ps m i sy en \<noteq> WithTransition b qs table"
  by (auto simp: newWithoutTransition_def newWithMap_def Let_def)

lemma newWithTransition_table: "newWithTransition ps i sy na en = WithTransition b qs table \<Longrightarrow> table = []"
  by (simp add: newWithTransition_def)

lemma add_without:
  assumes ok: "store_ok e st" and p: "p < length st" "st ! p = WithoutTransition b (Some ps) l"
    and name: "name_ok (strings e) name" "nkey (strings e) name \<notin> item_key e ` set ps"
  shows "\<exists>r. addProperty e st p name desc = Some r \<and> op_ok e st p (dict e ps @ [(nkey (strings e) name, desc)]) r"
proof -
  have sp: "structure_ok e (WithoutTransition b (Some ps) l)" and atoms: "atoms_ok (strings e)"
    using store_ok_nth [OF ok p(1)] p(2) ok by (auto simp: store_ok_def)
  have items: "items_ok e (ps @ [newItem name desc])" using sp name by (simp add: items_ok_add)
  let ?st = "if m_isReferencedByInlineCache b then st else st[p := WithoutTransition b None l]"
  have st: "store_ok e ?st" "length ?st = length st"
    using ok p store_ok_update [OF ok p(1), of "WithoutTransition b None l"] by (auto simp: inTransitionMode_def)
  have fr: "frame st ?st p"
    using p frame_refl [of st p] frame_moved [OF p(1), of "WithoutTransition b None l"]
    by (simp add: inTransitionMode_def base_def properties_def)
  let ?new = "if length (ps @ [newItem name desc]) > 512
    then newWithMap (ps @ [newItem name desc]) None (addedIndexFlag e b name) (addedSymbolFlag e b name) (addedEnumerableFlag e b desc)
    else newWithoutTransition e (ps @ [newItem name desc]) (addedIndexFlag e b name) (addedSymbolFlag e b name)
      (addedNonAtomicFlag b name) (addedEnumerableFlag e b desc)"
  have "addProperty e st p name desc = Some (alloc ?new ?st)"
    using p(2) by (simp add: addProperty_defs base_def Let_def)
  moreover have "structure_ok e ?new"
    using sp by (auto intro!: newWithoutTransition_ok newWithMap_ok atoms items flags_ok_add atomic_flag_ok_add)
  then have "op_ok e st p (dict e ps @ [(nkey (strings e) name, desc)]) (alloc ?new ?st)"
    by (intro op_ok_alloc [OF st(1) _ _ _ _ p(1) st(2) fr, where qs = "ps @ [newItem name desc]"])
      (auto split: if_splits)
  ultimately show ?thesis by blast
qed

lemma add_map:
  assumes ok: "store_ok e st" and p: "p < length st" "st ! p = WithMap b (Some ps) m"
    and name: "name_ok (strings e) name" "nkey (strings e) name \<notin> item_key e ` set ps"
  shows "\<exists>r. addProperty e st p name desc = Some r \<and> op_ok e st p (dict e ps @ [(nkey (strings e) name, desc)]) r"
proof -
  have sp: "structure_ok e (WithMap b (Some ps) m)" and atoms: "atoms_ok (strings e)"
    using store_ok_nth [OF ok p(1)] p(2) ok by (auto simp: store_ok_def)
  have items: "items_ok e (ps @ [newItem name desc])" using sp name by (simp add: items_ok_add)
  have st: "store_ok e (st[p := WithMap b None None])" "length (st[p := WithMap b None None]) = length st"
    using ok p store_ok_update [OF ok p(1), of "WithMap b None None"] by (auto simp: inTransitionMode_def)
  have fr: "frame st (st[p := WithMap b None None]) p" if "\<not> m_isReferencedByInlineCache b"
    using p that frame_moved [OF p(1), of "WithMap b None None"]
    by (simp add: inTransitionMode_def base_def properties_def)
  have map: "map_ok e (ps @ [newItem name desc]) (nameMapInsert e m' name (length ps))" if "m = Some m'" for m'
    using map_ok_insert [OF atoms items] sp that by (simp add: newItem_def)
  show ?thesis
  proof (cases "m_isReferencedByInlineCache b")
    case True
    let ?new = "newWithMap (ps @ [newItem name desc]) None (addedIndexFlag e b name) (addedSymbolFlag e b name) (addedEnumerableFlag e b desc)"
    have "addProperty e st p name desc = Some (alloc ?new st)"
      using p(2) True by (simp add: addProperty_defs base_def Let_def)
    moreover have "structure_ok e ?new" using sp by (auto intro!: newWithMap_ok items flags_ok_add)
    then have "op_ok e st p (dict e ps @ [(nkey (strings e) name, desc)]) (alloc ?new st)"
      by (intro op_ok_alloc [OF ok _ _ _ _ p(1) refl frame_refl]) auto
    ultimately show ?thesis by blast
  next
    case False
    let ?new = "newWithMap (ps @ [newItem name desc]) (map_option (\<lambda>m. nameMapInsert e m name (length ps)) m)
      (addedIndexFlag e b name) (addedSymbolFlag e b name) (addedEnumerableFlag e b desc)"
    have "addProperty e st p name desc = Some (alloc ?new (st[p := WithMap b None None]))"
      using p(2) False by (simp add: addProperty_defs base_def Let_def)
    moreover have "structure_ok e ?new" using sp map by (auto intro!: newWithMap_ok items flags_ok_add)
    then have "op_ok e st p (dict e ps @ [(nkey (strings e) name, desc)]) (alloc ?new (st[p := WithMap b None None]))"
      by (intro op_ok_alloc [OF st(1) _ _ _ _ p(1) st(2) fr [OF False]]) auto
    ultimately show ?thesis by blast
  qed
qed

lemma add_transition:
  assumes ok: "store_ok e st" and p: "p < length st" "st ! p = WithTransition b ps table"
    and name: "name_ok (strings e) name" "nkey (strings e) name \<notin> item_key e ` set ps"
  shows "\<exists>r. addProperty e st p name desc = Some r \<and> op_ok e st p (dict e ps @ [(nkey (strings e) name, desc)]) r"
proof -
  have sp: "structure_ok e (WithTransition b ps table)" and atoms: "atoms_ok (strings e)"
    using store_ok_nth [OF ok p(1)] p(2) ok by (auto simp: store_ok_def)
  have links: "\<forall>it \<in> set table. link_ok st ps it" using ok p by (auto simp: store_ok_def links_ok_def)
  let ?qs = "ps @ [newItem name desc]"
  have items: "items_ok e ?qs" using sp name by (simp add: items_ok_add)
  consider (known) q where "findTransition e b table name desc = Some q"
    | (leave) "findTransition e b table name desc = None" "length ps + 1 > 36 \<or> addedIndexFlag e b name"
    | (grow) "findTransition e b table name desc = None" "length ps + 1 \<le> 36" "\<not> addedIndexFlag e b name"
    by fastforce
  then show ?thesis
  proof cases
    case known
    then obtain it where it: "it \<in> set table" "t_structure it = q" "t_descriptor it = desc"
      "nameEq (strings e) (t_propertyName it) name" by (rule findTransition_Some)
    with links obtain b' t' where q: "q < length st"
      "st ! q = WithTransition b' (ps @ [newItem (t_propertyName it) desc]) t'"
      by (auto simp: link_ok_def)
    with store_ok_nth [OF ok, of q] have "name_ok (strings e) (t_propertyName it)"
      by (auto simp: items_ok_append newItem_def)
    with it(4) name(1) have "nkey (strings e) (t_propertyName it) = nkey (strings e) name"
      by (simp add: nameEq_key [OF atoms])
    with q ok have "op_ok e st p (dict e ps @ [(nkey (strings e) name, desc)]) (q, st)"
      by (simp add: op_ok_def properties_def frame_refl)
    with known p(2) show ?thesis by (simp add: addProperty_defs base_def Let_def)
  next
    case leave
    let ?new = "newWithoutTransition e ?qs (addedIndexFlag e b name) (addedSymbolFlag e b name)
      (addedNonAtomicFlag b name) (addedEnumerableFlag e b desc)"
    have "addProperty e st p name desc = Some (alloc ?new st)"
      using p(2) leave by (auto simp: addProperty_defs base_def Let_def)
    moreover have "structure_ok e ?new"
      using sp by (auto intro!: newWithoutTransition_ok atoms items flags_ok_add atomic_flag_ok_add)
    then have "op_ok e st p (dict e ps @ [(nkey (strings e) name, desc)]) (alloc ?new st)"
      by (intro op_ok_alloc [OF ok _ _ _ _ p(1) refl frame_refl]) auto
    ultimately show ?thesis by blast
  next
    case grow
    let ?new = "newWithTransition ?qs (addedIndexFlag e b name) (addedSymbolFlag e b name)
      (addedNonAtomicFlag b name) (addedEnumerableFlag e b desc)"
    let ?it = "\<lparr>t_propertyName = name, t_descriptor = desc, t_structure = length st\<rparr>"
    obtain b' table' where r: "recordTransition e ?it b table = (b', table')" by fastforce
    let ?st = "(st @ [?new])[p := WithTransition b' ps table']"
    have eq: "addProperty e st p name desc = Some (length st, ?st)"
      using p(2) grow r by (auto simp: addProperty_defs base_def Let_def alloc_def)
    have new: "structure_ok e ?new"
      using sp grow(2) by (auto intro!: newWithTransition_ok items flags_ok_add atomic_flag_ok_add)
    have st1: "store_ok e (st @ [?new])"
      using ok new by (rule store_ok_alloc) (rule newWithTransition_table)
    have "link_ok (st @ [?new]) ps ?it" by (simp add: link_ok_def newWithTransition_def)
    then have "\<forall>it \<in> set table'. link_ok (st @ [?new]) ps it"
      using recordTransition_set [OF r] links link_ok_append by blast
    then have "links_ok ?st"
      using st1 p by (intro links_ok_update_table) (auto simp: store_ok_def nth_append)
    moreover have "structure_ok e (WithTransition b' ps table')"
      using sp recordTransition_flags [OF r] recordTransition_table [OF _ r] by simp
    ultimately have "store_ok e ?st"
      using st1 ball_set_update [of "st @ [?new]" "structure_ok e" "WithTransition b' ps table'" p]
      unfolding store_ok_def by blast
    then have "op_ok e st p (dict e ps @ [(nkey (strings e) name, desc)]) (length st, ?st)"
      using p by (auto simp: op_ok_def frame_def nth_append properties_def nth_list_update newWithTransition_def)
    with eq show ?thesis by blast
  qed
qed

lemma addProperty_ok:
  assumes "store_ok e st" "p < length st" "properties (st ! p) = Some ps"
    and "name_ok (strings e) name" "nkey (strings e) name \<notin> item_key e ` set ps"
  shows "\<exists>r. addProperty e st p name desc = Some r \<and> op_ok e st p (dict e ps @ [(nkey (strings e) name, desc)]) r"
  using assms add_without [OF assms(1,2)] add_map [OF assms(1,2)] add_transition [OF assms(1,2)]
  by (cases "st ! p") auto

lemma flags_ok_recomputed:
  "flags_ok e (mkBase (list_ex (\<lambda>it. nameIsIndexString (strings e) (m_propertyName it)) qs)
     (list_ex (\<lambda>it. isSymbol (strings e) (m_propertyName it)) qs) na
     (list_ex (\<lambda>it. isEnumerable (natives e) (m_descriptor it)) qs)) qs"
  "atomic_flag_ok (mkBase i sy (list_ex (\<lambda>it. \<not> hasAtomicString (m_propertyName it)) qs) en) qs"
  by (auto simp: flags_ok_def atomic_flag_ok_def mkBase_def list_ex_iff)

lemma items_ok_remove: "items_ok e ps \<Longrightarrow> items_ok e (remove_at i ps)"
  using set_remove_at_subset [of i ps]
  by (auto simp: items_ok_def map_remove_at distinct_remove_at)

lemma dict_remove: "dict e (remove_at i ps) = remove_at i (dict e ps)"
  by (simp add: dict_def map_remove_at)

text \<open>The receiver after its vector was moved, in the two layouts that move.\<close>

lemma store_ok_moved:
  assumes ok: "store_ok e st" and p: "p < length st"
    and s: "\<not> inTransitionMode (st ! p)" "\<not> inTransitionMode s" "structure_ok e s" "properties s = None"
    and st': "st' = (if m_isReferencedByInlineCache (base (st ! p)) then st else st[p := s])"
  shows "store_ok e st'" "length st' = length st" "frame st st' p"
  using ok p s store_ok_update [OF ok p s(1,2,3)] frame_moved [OF p s(1) _ s(4)] frame_refl [of st p]
  by (auto simp: st')

lemma removeProperty_ok:
  assumes ok: "store_ok e st" and p: "p < length st" "properties (st ! p) = Some ps" and i: "i < length ps"
  shows "\<exists>r. removeProperty e st p i = Some r \<and> op_ok e st p (remove_at i (dict e ps)) r"
proof -
  have atoms: "atoms_ok (strings e)" and sp: "structure_ok e (st ! p)" using ok p by (auto simp: store_ok_def)
  let ?qs = "remove_at i ps"
  let ?without = "newWithoutTransition e ?qs (list_ex (\<lambda>it. nameIsIndexString (strings e) (m_propertyName it)) ?qs)
    (list_ex (\<lambda>it. isSymbol (strings e) (m_propertyName it)) ?qs)
    (list_ex (\<lambda>it. \<not> hasAtomicString (m_propertyName it)) ?qs)
    (list_ex (\<lambda>it. isEnumerable (natives e) (m_descriptor it)) ?qs)"
  let ?map = "newWithMap ?qs None (list_ex (\<lambda>it. nameIsIndexString (strings e) (m_propertyName it)) ?qs)
    (list_ex (\<lambda>it. isSymbol (strings e) (m_propertyName it)) ?qs)
    (list_ex (\<lambda>it. isEnumerable (natives e) (m_descriptor it)) ?qs)"
  have items: "items_ok e ?qs"
    using sp p by (cases "st ! p") (auto intro: items_ok_remove)
  have wo: "structure_ok e ?without" if "length ?qs \<le> 512"
    using that atoms items flags_ok_recomputed by (intro newWithoutTransition_ok)
  have wm: "structure_ok e ?map"
    using items flags_ok_recomputed by (intro newWithMap_ok) auto
  show ?thesis
  proof (cases "st ! p")
    case (WithoutTransition b ps' l)
    let ?st = "if m_isReferencedByInlineCache (base (st ! p)) then st else st[p := WithoutTransition b None l]"
    have st: "store_ok e ?st" "length ?st = length st" "frame st ?st p"
      by (rule store_ok_moved [OF ok p(1), of "WithoutTransition b None l"];
        use WithoutTransition in \<open>simp add: inTransitionMode_def\<close>)+
    have "removeProperty e st p i = Some (alloc ?without ?st)"
      using p(2) WithoutTransition by (simp add: removeProperty_defs Let_def base_def)
    moreover have "op_ok e st p (remove_at i (dict e ps)) (alloc ?without ?st)"
      using wo sp WithoutTransition p(2) i
      by (intro op_ok_alloc [OF st(1) _ _ _ dict_remove p(1) st(2,3)]) auto
    ultimately show ?thesis by blast
  next
    case (WithTransition b ps' table)
    have "removeProperty e st p i = Some (alloc ?without st)"
      using p(2) WithTransition by (simp add: removeProperty_defs Let_def base_def)
    moreover have "op_ok e st p (remove_at i (dict e ps)) (alloc ?without st)"
      using wo sp WithTransition p(2) i
      by (intro op_ok_alloc [OF ok _ _ _ dict_remove p(1) refl frame_refl]) auto
    ultimately show ?thesis by blast
  next
    case (WithMap b ps' m)
    let ?st = "if m_isReferencedByInlineCache (base (st ! p)) then st else st[p := WithMap b None None]"
    let ?new = "if length ?qs > 512 then ?map else ?without"
    have st: "store_ok e ?st" "length ?st = length st" "frame st ?st p"
      by (rule store_ok_moved [OF ok p(1), of "WithMap b None None"];
        use WithMap in \<open>simp add: inTransitionMode_def\<close>)+
    have "removeProperty e st p i = Some (alloc ?new ?st)"
      using p(2) WithMap by (simp add: removeProperty_defs Let_def base_def)
    moreover have "op_ok e st p (remove_at i (dict e ps)) (alloc ?new ?st)"
      using wo wm by (intro op_ok_alloc [OF st(1) _ _ _ dict_remove p(1) st(2,3)]) (auto split: if_splits)
    ultimately show ?thesis by blast
  qed
qed

lemma keyIndex_map: "keyIndex e ps s = find_index (\<lambda>k. k = nkey (strings e) s) (map (item_key e) ps)"
  unfolding keyIndex_def by (induction ps) auto

lemma replaced_items:
  fixes d :: u64
  assumes "i < length ps"
  defines "qs \<equiv> ps[i := (ps ! i)\<lparr>m_descriptor := d\<rparr>]"
  shows "map m_propertyName qs = map m_propertyName ps" "map (item_key e) qs = map (item_key e) ps"
    "keyIndex e qs s = keyIndex e ps s" "items_ok e qs = items_ok e ps" "length qs = length ps"
    "dict e qs = (dict e ps)[i := (fst (dict e ps ! i), d)]"
proof -
  show names: "map m_propertyName qs = map m_propertyName ps"
    using assms(1) by (simp add: qs_def map_update list_update_same_conv)
  then have n: "\<forall>it \<in> set qs. \<exists>it' \<in> set ps. m_propertyName it = m_propertyName it'"
    "\<forall>it \<in> set ps. \<exists>it' \<in> set qs. m_propertyName it = m_propertyName it'"
    by (metis image_iff image_set)+
  show keys: "map (item_key e) qs = map (item_key e) ps"
    using assms(1) by (simp add: qs_def map_update list_update_same_conv)
  then show "keyIndex e qs s = keyIndex e ps s" by (simp only: keyIndex_map)
  show "items_ok e qs = items_ok e ps" using keys n by (metis items_ok_def)
  show "length qs = length ps" by (simp add: qs_def)
  show "dict e qs = (dict e ps)[i := (fst (dict e ps ! i), d)]"
    using assms(1) by (simp add: qs_def dict_def map_update)
qed

lemma flags_ok_replace:
  assumes "flags_ok e b ps" "i < length ps"
  shows "flags_ok e (mkBase (m_hasIndexPropertyName b) (m_hasSymbolPropertyName b) na (addedEnumerableFlag e b d))
    (ps[i := (ps ! i)\<lparr>m_descriptor := d\<rparr>])"
  using assms
  by (auto simp: flags_ok_def mkBase_def addedEnumerableFlag_def dest!: set_update_subset_insert [THEN subsetD])

lemma atomic_flag_ok_replace:
  assumes "atomic_flag_ok b ps" "i < length ps"
  shows "atomic_flag_ok (mkBase x y (m_hasNonAtomicPropertyName b) z) (ps[i := (ps ! i)\<lparr>m_descriptor := d\<rparr>])"
  using assms
  by (auto simp: atomic_flag_ok_def mkBase_def dest!: set_update_subset_insert [THEN subsetD])

lemma replacePropertyDescriptor_ok:
  assumes ok: "store_ok e st" and p: "p < length st" "properties (st ! p) = Some ps" and i: "i < length ps"
  shows "\<exists>r. replacePropertyDescriptor e st p i d = Some r \<and>
    op_ok e st p ((dict e ps)[i := (fst (dict e ps ! i), d)]) r"
proof -
  have atoms: "atoms_ok (strings e)" and sp: "structure_ok e (st ! p)" using ok p by (auto simp: store_ok_def)
  let ?b = "base (st ! p)"
  let ?qs = "ps[i := (ps ! i)\<lparr>m_descriptor := d\<rparr>]"
  let ?without = "newWithoutTransition e ?qs (m_hasIndexPropertyName ?b) (m_hasSymbolPropertyName ?b)
    (m_hasNonAtomicPropertyName ?b) (addedEnumerableFlag e ?b d)"
  let ?map = "\<lambda>m. newWithMap ?qs m (m_hasIndexPropertyName ?b) (m_hasSymbolPropertyName ?b) (addedEnumerableFlag e ?b d)"
  note rep = replaced_items [OF i, where d = d]
  have items: "items_ok e ?qs" and flags: "flags_ok e ?b ps"
    using sp p by (cases "st ! p"; auto simp: rep base_def)+
  have wo: "structure_ok e ?without" if "length ps \<le> 512" "atomic_flag_ok ?b ps"
    using that atoms items flags i
    by (intro newWithoutTransition_ok flags_ok_replace atomic_flag_ok_replace) auto
  show ?thesis
  proof (cases "st ! p")
    case (WithoutTransition b ps' l)
    let ?st = "if m_isReferencedByInlineCache (base (st ! p)) then st else st[p := WithoutTransition b None l]"
    have st: "store_ok e ?st" "length ?st = length st" "frame st ?st p"
      by (rule store_ok_moved [OF ok p(1), of "WithoutTransition b None l"];
        use WithoutTransition in \<open>simp add: inTransitionMode_def\<close>)+
    have "replacePropertyDescriptor e st p i d = Some (alloc ?without ?st)"
      using p(2) WithoutTransition by (simp add: replacePropertyDescriptor_defs Let_def base_def)
    moreover have "op_ok e st p ((dict e ps)[i := (fst (dict e ps ! i), d)]) (alloc ?without ?st)"
      using wo sp WithoutTransition p(2)
      by (intro op_ok_alloc [OF st(1) _ _ _ rep(6) p(1) st(2,3)]) (auto simp: base_def)
    ultimately show ?thesis by blast
  next
    case (WithTransition b ps' table)
    have "replacePropertyDescriptor e st p i d = Some (alloc ?without st)"
      using p(2) WithTransition by (simp add: replacePropertyDescriptor_defs Let_def base_def)
    moreover have "op_ok e st p ((dict e ps)[i := (fst (dict e ps ! i), d)]) (alloc ?without st)"
      using wo sp WithTransition p(2)
      by (intro op_ok_alloc [OF ok _ _ _ rep(6) p(1) refl frame_refl]) (auto simp: base_def)
    ultimately show ?thesis by blast
  next
    case (WithMap b ps' m)
    let ?st = "if m_isReferencedByInlineCache (base (st ! p)) then st else st[p := WithMap b None None]"
    let ?m = "if m_isReferencedByInlineCache (base (st ! p)) then None else m"
    have st: "store_ok e ?st" "length ?st = length st" "frame st ?st p"
      by (rule store_ok_moved [OF ok p(1), of "WithMap b None None"];
        use WithMap in \<open>simp add: inTransitionMode_def\<close>)+
    have "map_ok e ?qs m'" if "?m = Some m'" for m'
    proof -
      from that sp WithMap p(2) have "map_ok e ps m'" by (auto split: if_splits)
      then show ?thesis unfolding map_ok_def rep(1,3,5) .
    qed
    then have wm: "structure_ok e (?map ?m)"
      using items flags i by (intro newWithMap_ok flags_ok_replace)
    have "replacePropertyDescriptor e st p i d = Some (alloc (?map ?m) ?st)"
      using p(2) WithMap by (simp add: replacePropertyDescriptor_defs Let_def base_def)
    moreover have "op_ok e st p ((dict e ps)[i := (fst (dict e ps ! i), d)]) (alloc (?map ?m) ?st)"
      using wm by (intro op_ok_alloc [OF st(1) _ _ _ rep(6) p(1) st(2,3)]) auto
    ultimately show ?thesis by blast
  qed
qed

lemma convertToNonTransitionStructure_ok:
  assumes ok: "store_ok e st" and p: "p < length st" "properties (st ! p) = Some ps"
  shows "op_ok e st p (dict e ps) (convertToNonTransitionStructure e st p)"
    and "\<not> inTransitionMode (snd (convertToNonTransitionStructure e st p) ! fst (convertToNonTransitionStructure e st p))"
proof -
  have atoms: "atoms_ok (strings e)" and sp: "structure_ok e (st ! p)" using ok p by (auto simp: store_ok_def)
  show "op_ok e st p (dict e ps) (convertToNonTransitionStructure e st p)"
  proof (cases "st ! p")
    case (WithTransition b ps' table)
    have "structure_ok e (newWithoutTransition e ps (m_hasIndexPropertyName b) (m_hasSymbolPropertyName b)
        (m_hasNonAtomicPropertyName b) (m_hasEnumerableProperty b))"
      using sp p WithTransition atoms
      by (intro newWithoutTransition_ok) (auto simp: flags_ok_def atomic_flag_ok_def mkBase_def)
    then show ?thesis
      using WithTransition p
      by (auto simp: convertToNonTransitionStructure_def intro!: op_ok_alloc [OF ok _ _ _ refl p(1) refl frame_refl])
  qed (use ok p frame_refl in \<open>auto simp: convertToNonTransitionStructure_def op_ok_def\<close>)
  show "\<not> inTransitionMode (snd (convertToNonTransitionStructure e st p) ! fst (convertToNonTransitionStructure e st p))"
    by (cases "st ! p")
      (auto simp: convertToNonTransitionStructure_def inTransitionMode_def alloc_def nth_append split: ObjectStructure.splits)
qed

lemma create_ok:
  assumes ok: "store_ok e st" and ps: "items_ok e ps"
  shows "store_ok e (snd (create e ps t st)) \<and> fst (create e ps t st) < length (snd (create e ps t st)) \<and>
    properties (snd (create e ps t st) ! fst (create e ps t st)) = Some ps"
proof -
  have atoms: "atoms_ok (strings e)" using ok by (simp add: store_ok_def)
  obtain s where s: "create e ps t st = alloc s st" "properties s = Some ps" "structure_ok e s"
    "\<And>b qs table. s = WithTransition b qs table \<Longrightarrow> table = []"
  proof (rule that)
    let ?i = "list_ex (\<lambda>it. nameIsIndexString (strings e) (m_propertyName it)) ps"
    let ?sy = "list_ex (\<lambda>it. isSymbol (strings e) (m_propertyName it)) ps"
    let ?na = "list_ex (\<lambda>it. \<not> hasAtomicString (m_propertyName it)) ps"
    let ?s = "if \<not> length ps \<le> 36 then newWithMap ps None ?i ?sy True
      else if t then newWithTransition ps ?i ?sy ?na True else newWithoutTransition e ps ?i ?sy ?na True"
    have flags: "flags_ok e (mkBase ?i ?sy na True) ps" "atomic_flag_ok (mkBase i sy ?na en) ps" for na i sy en
      by (auto simp: flags_ok_def atomic_flag_ok_def mkBase_def list_ex_iff)
    show "create e ps t st = alloc ?s st" by (simp add: create_def isTransitionModeAvailable_def Let_def)
    show "properties ?s = Some ps" by simp
    show "structure_ok e ?s"
      using flags atoms ps by (auto intro!: newWithMap_ok newWithTransition_ok newWithoutTransition_ok)
    show "\<And>b qs table. ?s = WithTransition b qs table \<Longrightarrow> table = []"
      by (auto split: if_splits dest: newWithTransition_table)
  qed
  then show ?thesis using store_ok_alloc [OF ok s(3,4)] by (simp add: alloc_def)
qed

subsection \<open>The names a store holds\<close>

definition store_names :: "store \<Rightarrow> pname set" where
  "store_names st = (\<Union>s \<in> set st. \<Union>ps \<in> set_option (properties s). m_propertyName ` set ps)"

lemma store_names_append [simp]:
  "store_names (st @ [s]) = store_names st \<union> (\<Union>ps \<in> set_option (properties s). m_propertyName ` set ps)"
  by (auto simp: store_names_def)

lemma store_names_update:
  "store_names (st[p := s]) \<subseteq> store_names st \<union> (\<Union>ps \<in> set_option (properties s). m_propertyName ` set ps)"
  using set_update_subset_insert [of st p s] by (auto simp: store_names_def)

lemma store_names_nth:
  "p < length st \<Longrightarrow> properties (st ! p) = Some ps \<Longrightarrow> it \<in> set ps \<Longrightarrow> m_propertyName it \<in> store_names st"
  by (fastforce simp: store_names_def)

lemma store_names_updateD:
  assumes "x \<in> store_names (st[p := s])"
  shows "x \<in> store_names st \<or> (\<exists>ps. properties s = Some ps \<and> x \<in> m_propertyName ` set ps)"
  using assms set_update_subset_insert [of st p s] by (fastforce simp: store_names_def)

lemma store_names_same:
  assumes "length st' = length st" "\<forall>q. properties (st' ! q) = properties (st ! q)"
  shows "store_names st' = store_names st"
proof -
  have "map properties st' = map properties st" using assms by (intro nth_equalityI) auto
  moreover have "store_names xs = (\<Union>q \<in> set (map properties xs). \<Union>ps \<in> set_option q. m_propertyName ` set ps)" for xs
    by (simp add: store_names_def)
  ultimately show ?thesis by metis
qed

lemma addProperty_names:
  assumes "p < length st" "addProperty e st p name desc = Some (q, st')"
  shows "store_names st' \<subseteq> insert name (store_names st)"
proof
  fix x
  assume x: "x \<in> store_names st'"
  note names = store_names_nth [OF assms(1)]
  show "x \<in> insert name (store_names st)"
  proof (cases "st ! p")
    case (WithoutTransition b ps l)
    with assms obtain qs where "ps = Some qs" by (cases ps) (auto simp: addProperty_defs Let_def)
    with WithoutTransition assms names [of qs] x show ?thesis
      by (auto simp: addProperty_defs alloc_def newItem_def Let_def dest!: store_names_updateD split: if_splits)
  next
    case (WithTransition b ps table)
    with assms names [of ps] x show ?thesis
      by (auto simp: addProperty_defs alloc_def newItem_def Let_def dest!: store_names_updateD
          split: if_splits option.splits prod.splits)
  next
    case (WithMap b ps m)
    with assms obtain qs where "ps = Some qs" by (cases ps) (auto simp: addProperty_defs Let_def)
    with WithMap assms names [of qs] x show ?thesis
      by (auto simp: addProperty_defs alloc_def newItem_def Let_def dest!: store_names_updateD split: if_splits)
  qed
qed

lemma removeProperty_names:
  assumes "p < length st" "removeProperty e st p i = Some (q, st')"
  shows "store_names st' \<subseteq> store_names st"
proof
  fix x
  assume x: "x \<in> store_names st'"
  obtain ps where ps: "properties (st ! p) = Some ps"
    using assms(2) by (auto simp: removeProperty_def split: ObjectStructure.splits option.splits)
  have "m_propertyName it \<in> store_names st" if "it \<in> set (remove_at i ps)" for it
    using store_names_nth [OF assms(1) ps] set_remove_at_subset [of i ps] that by blast
  then show "x \<in> store_names st"
    using assms(2) ps x
    by (cases "st ! p") (auto simp: removeProperty_defs alloc_def Let_def dest!: store_names_updateD split: if_splits)
qed

lemma replacePropertyDescriptor_names:
  assumes "p < length st" "replacePropertyDescriptor e st p i d = Some (q, st')" "properties (st ! p) = Some ps" "i < length ps"
  shows "store_names st' \<subseteq> store_names st"
proof
  fix x
  assume x: "x \<in> store_names st'"
  have "m_propertyName ` set (ps[i := (ps ! i)\<lparr>m_descriptor := d\<rparr>]) = m_propertyName ` set ps"
    using replaced_items(1) [OF assms(4), of d] by (metis image_set)
  then have "m_propertyName it \<in> store_names st" if "it \<in> set (ps[i := (ps ! i)\<lparr>m_descriptor := d\<rparr>])" for it
    using store_names_nth [OF assms(1,3)] that by (metis (no_types, lifting) image_iff)
  then show "x \<in> store_names st"
    using assms(2,3) x
    by (cases "st ! p")
      (auto simp: replacePropertyDescriptor_defs alloc_def Let_def dest!: store_names_updateD split: if_splits)
qed

section \<open>A hidden class is an ordered dictionary\<close>

text \<open>
  \<open>N\<close> is the set of names in use. Within it, names with the same key must have the same hash, which
  \<open>hashValue\<close> does not ensure by itself.
\<close>

definition hash_coherent :: "env \<Rightarrow> pname set \<Rightarrow> bool" where
  "hash_coherent e N \<longleftrightarrow>
     (\<forall>a \<in> N. \<forall>b \<in> N. nkey (strings e) a = nkey (strings e) b \<longrightarrow> nameHash e a = nameHash e b)"

definition store_inv :: "env \<Rightarrow> pname set \<Rightarrow> store \<Rightarrow> bool" where
  "store_inv e N st \<longleftrightarrow> store_ok e st \<and> store_names st \<subseteq> N \<and> hash_coherent e N"

definition dictOf :: "env \<Rightarrow> store \<Rightarrow> nat \<Rightarrow> (property_key \<times> u64) list option" where
  "dictOf e st p = (if p < length st then map_option (dict e) (properties (st ! p)) else None)"

lemma dictOf_Some: "dictOf e st p = Some d \<longleftrightarrow> p < length st \<and> (\<exists>ps. properties (st ! p) = Some ps \<and> d = dict e ps)"
  by (auto simp: dictOf_def)

lemma items_ok_nth: "store_ok e st \<Longrightarrow> p < length st \<Longrightarrow> properties (st ! p) = Some ps \<Longrightarrow> items_ok e ps"
  using store_ok_nth [of e st p] by (cases "st ! p") auto

lemma dict_keys: "map fst (dict e ps) = map (item_key e) ps" "fst ` set (dict e ps) = item_key e ` set ps"
  by (simp_all add: dict_def image_image)

lemma find_index_dict: "find_index (\<lambda>p. fst p = nkey (strings e) s) (dict e ps) = keyIndex e ps s"
  by (simp add: find_index_fst dict_keys keyIndex_map)

lemma agrees_coherent:
  assumes "store_inv e N st" "p < length st" "s \<in> N"
  shows "agrees e (st ! p) s"
proof (cases "st ! p")
  case (WithMap b qs m)
  show ?thesis
  proof (cases qs)
    case (Some ps)
    with WithMap have "m_propertyName it \<in> N" if "it \<in> set ps" for it
      using store_names_nth [OF assms(2), of ps it] that assms(1) by (auto simp: store_inv_def)
    moreover have "hash_coherent e N" using assms(1) by (simp add: store_inv_def)
    ultimately have "hash_agree e ps s"
      using assms(3) unfolding hash_agree_def hash_coherent_def by blast
    with WithMap Some show ?thesis by (simp add: agrees_def)
  qed (simp add: agrees_def WithMap)
qed (simp_all add: agrees_def)

interpretation os: ordered_dictionary "store_inv e N" "dictOf e" "nkey (strings e)"
  "\<lambda>n. n \<in> N \<and> name_ok (strings e) n" "findProperty e" "addProperty e" "removeProperty e" "replacePropertyDescriptor e"
  for e N
proof
  fix st p d
  assume "store_inv e N st" "dictOf e st p = Some d"
  then show "distinct (map fst d)"
    using items_ok_nth by (auto simp: dictOf_Some dict_keys items_ok_def store_inv_def)
next
  fix st p d n
  assume inv: "store_inv e N st" and d: "dictOf e st p = Some d" and n: "n \<in> N \<and> name_ok (strings e) n"
  then obtain ps where ps: "p < length st" "properties (st ! p) = Some ps" "d = dict e ps" by (auto simp: dictOf_Some)
  have ok: "store_ok e st" using inv by (simp add: store_inv_def)
  from findProperty_ok [OF ok ps(1,2) conjunct2 [OF n] agrees_coherent [OF inv ps(1) conjunct1 [OF n]]]
  obtain st' where "findProperty e st p n = Some (keyIndex e ps n, st')" "store_ok e st'"
    "length st' = length st" "\<forall>q. properties (st' ! q) = properties (st ! q)" .
  then show "\<exists>st'. findProperty e st p n = Some (find_index (\<lambda>p. fst p = nkey (strings e) n) d, st') \<and>
      store_inv e N st' \<and> (\<forall>q. dictOf e st' q = dictOf e st q)"
    using inv ps store_names_same [of st' st] by (auto simp: find_index_dict store_inv_def dictOf_def)
next
  fix st p d n x
  assume inv: "store_inv e N st" and d: "dictOf e st p = Some d" and n: "n \<in> N \<and> name_ok (strings e) n"
    and new: "nkey (strings e) n \<notin> fst ` set d"
  then obtain ps where ps: "p < length st" "properties (st ! p) = Some ps" "d = dict e ps" by (auto simp: dictOf_Some)
  have ok: "store_ok e st" using inv by (simp add: store_inv_def)
  obtain q st' where a: "addProperty e st p n x = Some (q, st')" "op_ok e st p (d @ [(nkey (strings e) n, x)]) (q, st')"
    using addProperty_ok [OF ok ps(1,2) conjunct2 [OF n], of x] new ps(3) by (auto simp: dict_keys)
  then show "\<exists>q st'. addProperty e st p n x = Some (q, st') \<and> store_inv e N st' \<and>
      dictOf e st' q = Some (d @ [(nkey (strings e) n, x)])"
    using addProperty_names [OF ps(1) a(1)] n inv by (auto simp: op_ok_def dictOf_Some store_inv_def)
next
  fix st p d i
  assume inv: "store_inv e N st" and d: "dictOf e st p = Some d" and i: "i < length d"
  then obtain ps where ps: "p < length st" "properties (st ! p) = Some ps" "d = dict e ps" by (auto simp: dictOf_Some)
  have ok: "store_ok e st" using inv by (simp add: store_inv_def)
  have i': "i < length ps" using i ps(3) by (simp add: dict_def)
  obtain q st' where r: "removeProperty e st p i = Some (q, st')" "op_ok e st p (remove_at i d) (q, st')"
    using removeProperty_ok [OF ok ps(1,2) i'] ps(3) by auto
  then show "\<exists>q st'. removeProperty e st p i = Some (q, st') \<and> store_inv e N st' \<and> dictOf e st' q = Some (remove_at i d)"
    using removeProperty_names [OF ps(1) r(1)] inv by (auto simp: op_ok_def dictOf_Some store_inv_def)
next
  fix st p d i x
  assume inv: "store_inv e N st" and d: "dictOf e st p = Some d" and i: "i < length d"
  then obtain ps where ps: "p < length st" "properties (st ! p) = Some ps" "d = dict e ps" by (auto simp: dictOf_Some)
  have ok: "store_ok e st" using inv by (simp add: store_inv_def)
  have i': "i < length ps" using i ps(3) by (simp add: dict_def)
  obtain q st' where r: "replacePropertyDescriptor e st p i x = Some (q, st')"
    "op_ok e st p (d[i := (fst (d ! i), x)]) (q, st')"
    using replacePropertyDescriptor_ok [OF ok ps(1,2) i', of x] ps(3) by auto
  then show "\<exists>q st'. replacePropertyDescriptor e st p i x = Some (q, st') \<and> store_inv e N st' \<and>
      dictOf e st' q = Some (d[i := (fst (d ! i), x)])"
    using replacePropertyDescriptor_names [OF ps(1) r(1) ps(2) i'] inv by (auto simp: op_ok_def dictOf_Some store_inv_def)
qed

section \<open>Sharing\<close>

lemma nameEq_refl: "nameEq st a a"
  by (simp add: nameEq_def)

lemma find_append_new: "List.find P xs = None \<Longrightarrow> P x \<Longrightarrow> List.find P (xs @ [x]) = Some x"
  by (induction xs) (auto split: if_splits)

lemma find_None_subset: "List.find P xs = None \<Longrightarrow> set ys \<subseteq> set xs \<Longrightarrow> List.find P ys = None"
  by (auto simp: find_None_iff)

lemma transitionMapFind_insert:
  assumes "transitionMapFind e table (t_propertyName it) (t_descriptor it) = None"
  shows "transitionMapFind e (transitionMapInsert e it table) (t_propertyName it) (t_descriptor it) = Some it"
  using assms unfolding transitionMapFind_def transitionMapInsert_def
  by (simp add: find_append_new transitionEq_def nameEq_refl)

lemma findTransition_recorded:
  assumes tab: "table_ok b table" and new: "findTransition e b table (t_propertyName it) (t_descriptor it) = None"
    and r: "recordTransition e it b table = (b', table')"
  shows "findTransition e b' table' (t_propertyName it) (t_descriptor it) = Some (t_structure it)"
proof (cases "m_doesTransitionTableUseMap b")
  case True
  with new r show ?thesis
    by (auto simp: findTransition_def recordTransition_def transitionMapFind_insert)
next
  case False
  let ?size = "unat (m_transitionTableVectorBufferSize b)"
  have size: "?size = length table" "length table \<le> 32"
    using tab False by (auto simp: table_ok_def)
  have none: "List.find (\<lambda>x. transitionEq e x (t_propertyName it) (t_descriptor it)) table = None"
    using new False size(1) by (simp add: findTransition_def)
  show ?thesis
  proof (cases "?size + 1 > 32")
    case True
    have "set (fold (transitionMapInsert e) table []) \<subseteq> set table"
      using set_fold_transitionMapInsert [of e table "[]"] by simp
    then have "transitionMapFind e (fold (transitionMapInsert e) table []) (t_propertyName it) (t_descriptor it) = None"
      using none by (auto simp: transitionMapFind_def find_None_iff)
    from transitionMapFind_insert [OF this] True False r size(1) show ?thesis
      by (auto simp: findTransition_def recordTransition_def Let_def)
  next
    case small: False
    then have "unat (m_transitionTableVectorBufferSize b + 1) = ?size + 1"
      by (subst unat_add_lem [THEN iffD1]) auto
    with small False r size none show ?thesis
      by (auto simp: findTransition_def recordTransition_def Let_def find_append_new transitionEq_def nameEq_refl)
  qed
qed

lemma addProperty_shared:
  assumes ok: "store_ok e st" and p: "p < length st" "st ! p = WithTransition b ps table"
    and small: "length ps + 1 \<le> 36" "\<not> addedIndexFlag e b name"
    and r: "addProperty e st p name desc = Some (q, st')"
  shows "addProperty e st' p name desc = Some (q, st')"
proof (cases "findTransition e b table name desc")
  case None
  let ?it = "\<lparr>t_propertyName = name, t_descriptor = desc, t_structure = length st\<rparr>"
  let ?new = "newWithTransition (ps @ [newItem name desc]) (addedIndexFlag e b name) (addedSymbolFlag e b name)
      (addedNonAtomicFlag b name) (addedEnumerableFlag e b desc)"
  obtain b' table' where rec: "recordTransition e ?it b table = (b', table')" by fastforce
  have q: "q = length st" "st' = (st @ [?new])[p := WithTransition b' ps table']"
    using r None p small rec by (auto simp: addProperty_defs alloc_def Let_def)
  have "table_ok b table" using store_ok_nth [OF ok p(1)] p(2) by simp
  from findTransition_recorded [OF this _ rec] None
  have "findTransition e b' table' name desc = Some q" by (simp add: q)
  then show ?thesis using p(1) q(2) by (simp add: addProperty_defs Let_def)
next
  case (Some q')
  with r p(2) show ?thesis by (auto simp: addProperty_defs Let_def)
qed

section \<open>A store to apply the properties to\<close>

definition demo_env :: env where
  "demo_env = \<lparr>strings = start_state, natives = (\<lambda>_. None), ptrHash = (\<lambda>p. p), strHash = (\<lambda>s. of_nat (length s))\<rparr>"

definition demo_name :: "nat \<Rightarrow> pname" where
  "demo_name c = nameOfAtomicString (char_addr c)"

definition demo_store :: store where
  "demo_store = snd (create demo_env [newItem (demo_name 97) (createDataDescriptor AllPresent)] True [])"

lemma demo_name_ok:
  "c < 256 \<Longrightarrow> name_ok (strings demo_env) (demo_name c) \<and> nkey (strings demo_env) (demo_name c) = KString [c]"
  using name_ok_atomic [OF start_atoms_ok, of "char_addr c"] char_addr_aligned [of c]
  by (auto simp: demo_env_def demo_name_def nameOfAtomicString_def)

lemma demo_store_ok:
  "store_ok demo_env demo_store" "length demo_store = 1"
  "properties (demo_store ! 0) = Some [newItem (demo_name 97) (createDataDescriptor AllPresent)]"
  "inTransitionMode (demo_store ! 0)"
proof -
  have e: "store_ok demo_env []" by (simp add: store_ok_def demo_env_def start_atoms_ok links_ok_def)
  have "items_ok demo_env [newItem (demo_name 97) (createDataDescriptor AllPresent)]"
    using demo_name_ok [of 97] by (simp add: items_ok_def newItem_def)
  from create_ok [OF e this, of True]
  show "store_ok demo_env demo_store" "length demo_store = 1"
    "properties (demo_store ! 0) = Some [newItem (demo_name 97) (createDataDescriptor AllPresent)]"
    by (simp_all add: demo_store_def create_def alloc_def Let_def isTransitionModeAvailable_def)
  show "inTransitionMode (demo_store ! 0)"
    by (simp add: demo_store_def create_def alloc_def Let_def isTransitionModeAvailable_def
        newWithTransition_def inTransitionMode_def)
qed

lemma demo_store_inv:
  "store_inv demo_env {demo_name 97, demo_name 98} demo_store"
  "dictOf demo_env demo_store 0 = Some [(KString [97], createDataDescriptor AllPresent)]"
proof -
  have k: "nkey (strings demo_env) (demo_name 97) = KString [97]" "nkey (strings demo_env) (demo_name 98) = KString [98]"
    using demo_name_ok [of 97] demo_name_ok [of 98] by auto
  have "demo_store = [demo_store ! 0]" using demo_store_ok(2) by (intro nth_equalityI) auto
  then have "store_names demo_store = (\<Union>ps \<in> set_option (properties (demo_store ! 0)). m_propertyName ` set ps)"
    using store_names_append [of "[]" "demo_store ! 0"] by (simp add: store_names_def [of "[]"])
  then have "store_names demo_store \<subseteq> {demo_name 97, demo_name 98}" using demo_store_ok(3) by (simp add: newItem_def)
  then show "store_inv demo_env {demo_name 97, demo_name 98} demo_store"
    using demo_store_ok(1) k by (auto simp: store_inv_def hash_coherent_def)
  show "dictOf demo_env demo_store 0 = Some [(KString [97], createDataDescriptor AllPresent)]"
    using demo_store_ok k by (simp add: dictOf_def dict_def newItem_def)
qed

lemma demo_agrees: "agrees demo_env (demo_store ! 0) n"
  using demo_store_ok(4) by (auto simp: agrees_def inTransitionMode_def split: ObjectStructure.splits)

section \<open>Properties\<close>

text \<open>\<open>findProperty\<close> of all three layouts, with their last-lookup caches, lazily built name map, atomic-pointer
  fast path and symbol flag, returns the position of the property whose key is the key of the name, or
  \<open>SIZE_MAX\<close> when there is none; it keeps the store well formed and changes no structure's properties. (A
  \<open>WithMap\<close> structure needs the hash of the name to agree with the hash of an equal stored name.)\<close>

theorem findProperty_correct:
  assumes "store_ok e st" and "p < length st" and "properties (st ! p) = Some ps"
    and "name_ok (strings e) s" and "agrees e (st ! p) s"
  shows "\<exists>st'. findProperty e st p s = Some (keyIndex e ps s, st') \<and> store_ok e st' \<and>
    length st' = length st \<and> (\<forall>q. properties (st' ! q) = properties (st ! q))"
  using findProperty_ok [OF assms] by metis

theorem findProperty_correct_witness:
  "\<exists>st'. findProperty demo_env demo_store 0 (demo_name 97) = Some (Some 0, st') \<and> store_ok demo_env st'"
proof -
  let ?ps = "[newItem (demo_name 97) (createDataDescriptor AllPresent)]"
  have "keyIndex demo_env ?ps (demo_name 97) = Some 0" by (simp add: keyIndex_def newItem_def)
  then show ?thesis
    using findProperty_correct [OF demo_store_ok(1) _ demo_store_ok(3), of "demo_name 97"]
      demo_name_ok [of 97] demo_store_ok(2) demo_agrees by auto
qed

text \<open>\<open>addProperty\<close> of a key the structure does not have returns, in all three layouts and on every path between
  them (known transition, new transition, leaving transition mode at 37 properties or at an index name,
  turning into a map above 512), a structure with the old properties in order followed by the new one. The
  store stays well formed, flags and caches included, and no other structure changes; the receiver keeps its
  properties unless they moved to the result, which never happens to a transition structure or to one that
  an inline cache refers to.\<close>

theorem addProperty_correct:
  assumes "store_ok e st" and "p < length st" and "properties (st ! p) = Some ps"
    and "name_ok (strings e) name" and "nkey (strings e) name \<notin> (\<lambda>it. nkey (strings e) (m_propertyName it)) ` set ps"
  shows "\<exists>q st'. addProperty e st p name desc = Some (q, st') \<and> store_ok e st' \<and>
    dictOf e st' q = Some (dict e ps @ [(nkey (strings e) name, desc)]) \<and> frame st st' p"
  using addProperty_ok [OF assms, of desc] by (force simp: op_ok_def dictOf_Some)

theorem addProperty_correct_witness:
  "\<exists>q st'. addProperty demo_env demo_store 0 (demo_name 98) 15 = Some (q, st') \<and> store_ok demo_env st' \<and>
     dictOf demo_env st' q = Some [(KString [97], createDataDescriptor AllPresent), (KString [98], 15)]"
  using addProperty_correct [OF demo_store_ok(1) _ demo_store_ok(3), of "demo_name 98" 15]
    demo_name_ok [of 97] demo_name_ok [of 98] demo_store_ok(2)
  by (auto simp: dict_def newItem_def)

text \<open>\<open>removeProperty\<close> returns a structure with the property at that position taken out and the others in their
  order, with the flags recomputed, under the same guarantees for the rest of the store.\<close>

theorem removeProperty_correct:
  assumes "store_ok e st" and "p < length st" and "properties (st ! p) = Some ps" and "i < length ps"
  shows "\<exists>q st'. removeProperty e st p i = Some (q, st') \<and> store_ok e st' \<and>
    dictOf e st' q = Some (remove_at i (dict e ps)) \<and> frame st st' p"
  using removeProperty_ok [OF assms] by (force simp: op_ok_def dictOf_Some)

theorem removeProperty_correct_witness:
  "\<exists>q st'. removeProperty demo_env demo_store 0 0 = Some (q, st') \<and> dictOf demo_env st' q = Some []"
  using removeProperty_correct [OF demo_store_ok(1) _ demo_store_ok(3), of 0] demo_store_ok(2)
  by (auto simp: dict_def remove_at_def)

text \<open>\<open>replacePropertyDescriptor\<close> returns a structure in which only the descriptor at that position is new, under
  the same guarantees; a \<open>WithMap\<close> structure may hand its name map on, which stays correct.\<close>

theorem replacePropertyDescriptor_correct:
  assumes "store_ok e st" and "p < length st" and "properties (st ! p) = Some ps" and "i < length ps"
  shows "\<exists>q st'. replacePropertyDescriptor e st p i d = Some (q, st') \<and> store_ok e st' \<and>
    dictOf e st' q = Some ((dict e ps)[i := (fst (dict e ps ! i), d)]) \<and> frame st st' p"
  using replacePropertyDescriptor_ok [OF assms, of d] by (force simp: op_ok_def dictOf_Some)

theorem replacePropertyDescriptor_correct_witness:
  "\<exists>q st'. replacePropertyDescriptor demo_env demo_store 0 0 1 = Some (q, st') \<and>
     dictOf demo_env st' q = Some [(KString [97], 1)]"
  using replacePropertyDescriptor_correct [OF demo_store_ok(1) _ demo_store_ok(3), of 0 1] demo_store_ok(2) demo_name_ok [of 97]
  by (auto simp: dict_def newItem_def)

text \<open>Objects built alike share their hidden class: adding the same name with the same descriptor a second time to a
  transition structure that stays in transition mode returns the very structure the first addition returned
  and allocates nothing, while the table is a vector, when it becomes a map and when it is a map.\<close>

theorem addProperty_shares_transition:
  assumes "store_ok e st" and "p < length st" and "st ! p = WithTransition b ps table"
    and "length ps + 1 \<le> TRANSITION_MODE_MAX_SIZE" and "\<not> addedIndexFlag e b name"
    and "addProperty e st p name desc = Some (q, st')"
  shows "addProperty e st' p name desc = Some (q, st')"
  by (rule addProperty_shared [OF assms])

theorem addProperty_shares_transition_witness:
  "\<exists>q st'. addProperty demo_env demo_store 0 (demo_name 98) 15 = Some (q, st') \<and>
     addProperty demo_env st' 0 (demo_name 98) 15 = Some (q, st')"
proof -
  obtain q st' where r: "addProperty demo_env demo_store 0 (demo_name 98) 15 = Some (q, st')"
    using addProperty_ok [OF demo_store_ok(1) _ demo_store_ok(3), of "demo_name 98" 15]
      demo_name_ok [of 97] demo_name_ok [of 98] demo_store_ok(2) by (auto simp: newItem_def)
  obtain b table where s: "demo_store ! 0 = WithTransition b [newItem (demo_name 97) (createDataDescriptor AllPresent)] table"
    "\<not> m_hasIndexPropertyName b"
    using demo_name_ok [of 97]
    by (auto simp: demo_store_def create_def alloc_def Let_def isTransitionModeAvailable_def newWithTransition_def mkBase_def
        nameIsIndexString_def isIndexString_def charAt0_def newItem_def nkey_def split: if_splits)
  have "\<not> nameIsIndexString (strings demo_env) (demo_name 98)"
    using demo_name_ok [of 98] by (auto simp: nameIsIndexString_def isIndexString_def charAt0_def nkey_def split: if_splits)
  then have "\<not> addedIndexFlag demo_env b (demo_name 98)" using s(2) by (simp add: addedIndexFlag_def)
  with addProperty_shares_transition [OF demo_store_ok(1) _ s(1) _ _ r] r demo_store_ok(2) show ?thesis by auto
qed

text \<open>C26: Refinement: every sequence of property definitions and deletions, each done as a client does it (find the name,
  then add or replace, or remove), run on the hidden classes from a well-formed store, ends without a null
  access in a structure that holds what the same sequence gives on an insertion-ordered dictionary of keys.\<close>

theorem structure_refines_dictionary:
  assumes "store_inv e N st" and "dictOf e st p = Some d"
    and "\<forall>op \<in> set ops. op_name op \<in> N \<and> name_ok (strings e) (op_name op)"
  shows "\<exists>q st'. ordered_dictionary.run (findProperty e) (addProperty e) (removeProperty e)
      (replacePropertyDescriptor e) ops (p, st) = Some (q, st') \<and>
    store_inv e N st' \<and> dictOf e st' q = Some (fold (spec_op (nkey (strings e))) ops d)"
  using assms by (rule os.run_refines)

theorem structure_refines_dictionary_witness:
  "\<exists>q st'. ordered_dictionary.run (findProperty demo_env) (addProperty demo_env) (removeProperty demo_env)
      (replacePropertyDescriptor demo_env) [Define (demo_name 98) 1, Delete (demo_name 97)] (0, demo_store) = Some (q, st') \<and>
    dictOf demo_env st' q = Some [(KString [98], 1)]"
  using structure_refines_dictionary [OF demo_store_inv, of "[Define (demo_name 98) 1, Delete (demo_name 97)]"]
    demo_name_ok [of 97] demo_name_ok [of 98]
  by (fastforce simp: spec_put_def spec_del_def)

text \<open>Recording a transition keeps the table in its buffer: the 8-bit size counts the recorded items, is at most 32 and
  stays below the 8-bit capacity, so the write at the end of the vector is in bounds and neither field wraps.\<close>

theorem recordTransition_in_bounds:
  assumes "table_ok b table" and "recordTransition e it b table = (b', table')" and "\<not> m_doesTransitionTableUseMap b'"
  shows "unat (m_transitionTableVectorBufferSize b') = length table' \<and> length table' \<le> TRANSITION_MAP_MIN_SIZE \<and>
    unat (m_transitionTableVectorBufferSize b) < unat (m_transitionTableVectorBufferCapacity b') \<and> it \<in> set table'"
proof -
  have "table_ok b' table'" using assms(1,2) by (rule recordTransition_table)
  moreover have "table' = take (unat (m_transitionTableVectorBufferSize b)) table @ [it]" "\<not> m_doesTransitionTableUseMap b"
    using assms(2,3) by (auto simp: recordTransition_def Let_def split: if_splits)
  moreover from this have "unat (m_transitionTableVectorBufferSize b) = length table"
    using assms(1) by (simp add: table_ok_def)
  ultimately show ?thesis using assms(3) by (auto simp: table_ok_def)
qed

theorem recordTransition_in_bounds_witness:
  "unat (m_transitionTableVectorBufferSize (fst (recordTransition demo_env
     \<lparr>t_propertyName = 3, t_descriptor = 1, t_structure = 0\<rparr> (mkBase False False False False) []))) = 1"
proof -
  let ?it = "\<lparr>t_propertyName = 3, t_descriptor = 1, t_structure = 0\<rparr>"
  obtain b' table' where r: "recordTransition demo_env ?it (mkBase False False False False) [] = (b', table')" by fastforce
  then have "\<not> m_doesTransitionTableUseMap b'" "table' = [?it]"
    by (auto simp: recordTransition_def mkBase_def Let_def)
  with recordTransition_in_bounds [OF _ r] r show ?thesis by (simp add: table_ok_def mkBase_def)
qed

end
