(* ===== verification/KeyedCollection.thy ===== *)
theory KeyedCollection
  imports Strings
begin

text \<open>
  Values as collection keys and the hash index of \<open>src/runtime/KeyedCollectionHashIndex.h\<close>:
  SameValueZero (\<open>Value.cpp\<close>, \<open>ValueInlines.h\<close>), \<open>keyedCollectionHash\<close>, the open-addressing table with
  its \<open>create\<close>, \<open>needsRebuild\<close> and \<open>insert\<close>, and the three operations \<open>MapObject\<close> and \<open>SetObject\<close> share
  word for word, \<open>findKeyIndex\<close>, \<open>buildOrRebuildHashIndex\<close> and \<open>addToHashIndex\<close>, on the list of keys in
  storage order. A loop that may not end returns an option, \<open>None\<close> for not returning; the lemmas show that
  on a well-formed collection the loops end and agree with a linear scan.
\<close>

section \<open>Values\<close>

text \<open>
  A \<open>double\<close> is its IEEE bit pattern; a string, BigInt, symbol or object carries its address, and the
  first two the content the comparisons read.
\<close>

datatype Value =
  EmptyValue
| Undefined
| Null
| Boolean bool
| Int32 int
| Double u64
| StringValue addr ustring
| BigIntValue addr int
| PointerValue addr

definition isnan :: "u64 \<Rightarrow> bool" where
  "isnan d \<longleftrightarrow> take_bit 63 d > 0x7FF0000000000000"

definition iszero :: "u64 \<Rightarrow> bool" where
  "iszero d \<longleftrightarrow> take_bit 63 d = 0"

definition doubleEq :: "u64 \<Rightarrow> u64 \<Rightarrow> bool" where
  "doubleEq a b \<longleftrightarrow> \<not> isnan a \<and> \<not> isnan b \<and> (a = b \<or> iszero a \<and> iszero b)"

text \<open>\<open>(double)i32\<close>: sign, biased exponent and mantissa of an integer of at most 32 bits.\<close>

definition int32ToDouble :: "int \<Rightarrow> u64" where
  "int32ToDouble i =
     (if i = 0 then 0
      else let n = nat \<bar>i\<bar>; k = fastLog2 n
           in of_nat ((if i < 0 then 2 ^ 63 else 0) + (1023 + k) * 2 ^ 52 + (n - 2 ^ k) * 2 ^ (52 - k)))"

fun isNumber :: "Value \<Rightarrow> bool" where
  "isNumber (Int32 i) = True"
| "isNumber (Double d) = True"
| "isNumber _ = False"

fun asNumber :: "Value \<Rightarrow> u64" where
  "asNumber (Int32 i) = int32ToDouble i"
| "asNumber (Double d) = d"
| "asNumber _ = 0"

fun isPointerValue :: "Value \<Rightarrow> bool" where
  "isPointerValue (StringValue p s) = True"
| "isPointerValue (BigIntValue p n) = True"
| "isPointerValue (PointerValue p) = True"
| "isPointerValue _ = False"

text \<open>\<open>u.asInt64 == val.u.asInt64\<close>\<close>

fun sameBits :: "Value \<Rightarrow> Value \<Rightarrow> bool" where
  "sameBits (StringValue p s) (StringValue q t) = (p = q)"
| "sameBits (BigIntValue p m) (BigIntValue q n) = (p = q)"
| "sameBits a b = (a = b)"

fun sameValueZero :: "Value \<Rightarrow> Value \<Rightarrow> bool" where
  "sameValueZero (Int32 i) (Int32 j) = (i = j)"
| "sameValueZero a b =
     (if \<not> isPointerValue b
      then if isNumber a \<and> isNumber b
           then if isnan (asNumber a) \<or> isnan (asNumber b) then isnan (asNumber a) \<and> isnan (asNumber b)
                else doubleEq (asNumber a) (asNumber b)
           else sameBits a b
      else if sameBits a b then True
      else case (a, b) of
        (StringValue p s, StringValue q t) \<Rightarrow> stringEquals s t
      | (BigIntValue p m, BigIntValue q n) \<Rightarrow> m = n
      | _ \<Rightarrow> False)"

text \<open>
  \<open>EncodedValue::payload\<close> of two keys: numbers that are no 31-bit integer are boxed when encoded, so the
  payload of the searched key is a new box.
\<close>

fun isBoxed :: "Value \<Rightarrow> bool" where
  "isBoxed (Int32 i) = (\<not> (- (2 ^ 30) \<le> i \<and> i < 2 ^ 30))"
| "isBoxed (Double d) = True"
| "isBoxed _ = False"

definition samePayload :: "Value \<Rightarrow> Value \<Rightarrow> bool" where
  "samePayload a b \<longleftrightarrow> \<not> isBoxed a \<and> sameBits a b"

section \<open>Hash\<close>

definition keyedCollectionHashMix :: "u64 \<Rightarrow> u64" where
  "keyedCollectionHashMix u =
     (let u1 = u XOR drop_bit 33 u; u2 = u1 * 0xff51afd7ed558ccd in u2 XOR drop_bit 33 u2)"

definition keyedCollectionPointerHash :: "addr \<Rightarrow> u64" where
  "keyedCollectionPointerHash p = keyedCollectionHashMix p"

fun keyedCollectionHash :: "Value \<Rightarrow> u64" where
  "keyedCollectionHash (Int32 i) = (if i = 0 then 0 else keyedCollectionHashMix (int32ToDouble i))"
| "keyedCollectionHash (Double d) =
     (if iszero d then 0
      else if isnan d then 0x7ff8000000000000 AND 0xffffffff
      else keyedCollectionHashMix d)"
| "keyedCollectionHash (StringValue p s) = stringHashValue s XOR (of_nat (length s) * 0x9e3779b9)"
| "keyedCollectionHash (BigIntValue p n) = 0x62696e74"
| "keyedCollectionHash (PointerValue p) = keyedCollectionPointerHash p"
| "keyedCollectionHash Undefined = 0x75646566"
| "keyedCollectionHash Null = 0x6e756c6c"
| "keyedCollectionHash (Boolean b) = (if b then 0x74727565 else 0x66616c73)"
| "keyedCollectionHash EmptyValue = 0x66616c73"

section \<open>The index\<close>

record KeyedCollectionHashIndex =
  capacity :: nat
  occupied :: nat
  buckets :: "nat list"

abbreviation (input) buildThreshold :: nat where "buildThreshold \<equiv> 16"

partial_function (option) growCapacity :: "nat \<Rightarrow> nat \<Rightarrow> nat option" where
  "growCapacity liveCount cap =
     (if cap * 5 \<le> liveCount * 6 then growCapacity liveCount ((cap * 2) mod 2 ^ 32) else Some cap)"

definition indexCreate :: "nat \<Rightarrow> KeyedCollectionHashIndex option" where
  "indexCreate liveCount =
     map_option (\<lambda>cap. \<lparr>capacity = cap, occupied = 0, buckets = replicate cap 0\<rparr>) (growCapacity liveCount 16)"

text \<open>Both products are \<open>uint32_t\<close>.\<close>

definition needsRebuild :: "KeyedCollectionHashIndex \<Rightarrow> bool" where
  "needsRebuild ix \<longleftrightarrow> (occupied ix * 6) mod 2 ^ 32 \<ge> (capacity ix * 5) mod 2 ^ 32"

partial_function (option) freeBucket :: "nat list \<Rightarrow> nat \<Rightarrow> nat \<Rightarrow> nat option" where
  "freeBucket bs msk i = (if bs ! i \<noteq> 0 then freeBucket bs msk ((i + 1) AND msk) else Some i)"

definition indexInsert :: "u64 \<Rightarrow> nat \<Rightarrow> KeyedCollectionHashIndex \<Rightarrow> KeyedCollectionHashIndex option" where
  "indexInsert hash storageIndex ix =
     (let msk = capacity ix - 1
      in map_option
           (\<lambda>i. ix\<lparr>buckets := (buckets ix)[i := (storageIndex + 1) mod 2 ^ 32],
                   occupied := (occupied ix + 1) mod 2 ^ 32\<rparr>)
           (freeBucket (buckets ix) msk (unat hash AND msk)))"

section \<open>The operations on the keys of a storage\<close>

text \<open>The test of a stored key, in the scan and in the probe alike.\<close>

definition keyMatches :: "Value \<Rightarrow> Value \<Rightarrow> bool" where
  "keyMatches key existing \<longleftrightarrow>
     samePayload existing key \<or> existing \<noteq> EmptyValue \<and> sameValueZero existing key"

definition liveCount :: "Value list \<Rightarrow> nat" where
  "liveCount ks = length (filter (\<lambda>k. k \<noteq> EmptyValue) ks)"

fun insertAll :: "nat \<Rightarrow> Value list \<Rightarrow> KeyedCollectionHashIndex \<Rightarrow> KeyedCollectionHashIndex option" where
  "insertAll i [] ix = Some ix"
| "insertAll i (k # ks) ix =
     (if k \<noteq> EmptyValue
      then (case indexInsert (keyedCollectionHash k) i ix of None \<Rightarrow> None | Some ix' \<Rightarrow> insertAll (i + 1) ks ix')
      else insertAll (i + 1) ks ix)"

definition buildOrRebuildHashIndex :: "Value list \<Rightarrow> KeyedCollectionHashIndex option" where
  "buildOrRebuildHashIndex ks =
     (case indexCreate (liveCount ks) of None \<Rightarrow> None | Some ix \<Rightarrow> insertAll 0 ks ix)"

text \<open>The probe loop; \<open>hit\<close> tests the entry at a storage position against the key searched.\<close>

partial_function (option) probe :: "(nat \<Rightarrow> bool) \<Rightarrow> nat list \<Rightarrow> nat \<Rightarrow> nat \<Rightarrow> nat option option" where
  "probe hit bs msk i =
     (let b = bs ! i
      in if b = 0 then Some None
         else if hit (b - 1) then Some (Some (b - 1))
         else probe hit bs msk ((i + 1) AND msk))"

text \<open>
  The result is the position or \<open>None\<close> for \<open>SIZE_MAX\<close>, the index after the call, and \<open>*outHash\<close>, which
  keeps its initial 0 when the scan finds the key.
\<close>

definition findKeyIndex ::
  "Value list \<Rightarrow> KeyedCollectionHashIndex option \<Rightarrow> Value
    \<Rightarrow> (nat option \<times> KeyedCollectionHashIndex option \<times> u64) option" where
  "findKeyIndex ks m_hashIndex key =
     (let threshold = (if \<not> isPointerValue key then 128 else buildThreshold);
          lookup = (\<lambda>ix. let msk = capacity ix - 1; hash = keyedCollectionHash key
                         in map_option (\<lambda>r. (r, Some ix, hash))
                              (probe (\<lambda>s. keyMatches key (ks ! s)) (buckets ix) msk (unat hash AND msk)))
      in case m_hashIndex of
        None \<Rightarrow>
          if length ks \<ge> threshold
          then (case buildOrRebuildHashIndex ks of None \<Rightarrow> None | Some ix \<Rightarrow> lookup ix)
          else (case find_index (keyMatches key) ks of
                  Some i \<Rightarrow> Some (Some i, None, 0)
                | None \<Rightarrow> Some (None, None, keyedCollectionHash key))
      | Some ix \<Rightarrow> lookup ix)"

definition addToHashIndex ::
  "Value list \<Rightarrow> KeyedCollectionHashIndex option \<Rightarrow> nat \<Rightarrow> u64 \<Rightarrow> KeyedCollectionHashIndex option option" where
  "addToHashIndex ks m_hashIndex storageIndex hash =
     (case m_hashIndex of
        None \<Rightarrow> Some None
      | Some ix \<Rightarrow>
          if needsRebuild ix then map_option Some (buildOrRebuildHashIndex ks)
          else let hash' = (if hash = 0 then keyedCollectionHash (ks ! storageIndex) else hash)
               in map_option Some (indexInsert hash' storageIndex ix))"

definition canonicalizeKeyedCollectionKey :: "Value \<Rightarrow> Value" where
  "canonicalizeKeyedCollectionKey key =
     (if isNumber key \<and> iszero (asNumber key) \<and> bit (asNumber key) 63 then Int32 0 else key)"

section \<open>SameValueZero\<close>

lemma sameBits_refl [simp]: "sameBits a a"
  by (cases a) auto

text \<open>
  SameValueZero is equality of canonical keys: a number by its bits with the zeros and the NaNs
  collapsed, a string and a BigInt by value, anything else by identity.
\<close>

datatype canonical =
  CNaN | CNumber u64 | CString ustring | CBigInt int | CPointer addr | CUndefined | CNull | CBoolean bool | CEmpty

definition canonical_number :: "u64 \<Rightarrow> canonical" where
  "canonical_number d = (if isnan d then CNaN else if iszero d then CNumber 0 else CNumber d)"

fun canonical_key :: "Value \<Rightarrow> canonical" where
  "canonical_key (Int32 i) = canonical_number (int32ToDouble i)"
| "canonical_key (Double d) = canonical_number d"
| "canonical_key (StringValue p s) = CString s"
| "canonical_key (BigIntValue p n) = CBigInt n"
| "canonical_key (PointerValue p) = CPointer p"
| "canonical_key Undefined = CUndefined"
| "canonical_key Null = CNull"
| "canonical_key (Boolean b) = CBoolean b"
| "canonical_key EmptyValue = CEmpty"

text \<open>
  The values a program can hold: an \<open>int32_t\<close> is in range, and the string or BigInt at an address has
  one content, given by the two functions \<open>sm\<close> and \<open>bm\<close>. A key is such a value and not empty.
\<close>

fun value_ok :: "(addr \<Rightarrow> ustring) \<Rightarrow> (addr \<Rightarrow> int) \<Rightarrow> Value \<Rightarrow> bool" where
  "value_ok sm bm (Int32 i) = (- (2 ^ 31) \<le> i \<and> i < 2 ^ 31)"
| "value_ok sm bm (StringValue p s) = (s = sm p)"
| "value_ok sm bm (BigIntValue p n) = (n = bm p)"
| "value_ok sm bm _ = True"

definition key_ok :: "(addr \<Rightarrow> ustring) \<Rightarrow> (addr \<Rightarrow> int) \<Rightarrow> Value \<Rightarrow> bool" where
  "key_ok sm bm v \<longleftrightarrow> value_ok sm bm v \<and> v \<noteq> EmptyValue"

lemma int32ToDouble_bits:
  assumes "- (2 ^ 31) \<le> i" "i < 2 ^ 31" "i \<noteq> 0"
  shows "unat (int32ToDouble i) = (if i < 0 then 2 ^ 63 else 0) +
      ((1023 + fastLog2 (nat \<bar>i\<bar>)) * 2 ^ 52 + (nat \<bar>i\<bar> - 2 ^ fastLog2 (nat \<bar>i\<bar>)) * 2 ^ (52 - fastLog2 (nat \<bar>i\<bar>)))"
    and "(nat \<bar>i\<bar> - 2 ^ fastLog2 (nat \<bar>i\<bar>)) * 2 ^ (52 - fastLog2 (nat \<bar>i\<bar>)) < 2 ^ 52"
    and "fastLog2 (nat \<bar>i\<bar>) < 32"
proof -
  let ?n = "nat \<bar>i\<bar>"
  let ?k = "fastLog2 ?n"
  have n: "0 < ?n" "?n \<le> 2 ^ 31" using assms by auto
  have k: "2 ^ ?k \<le> ?n" "?n < 2 ^ (?k + 1)" using fastLog2_bounds [of ?n] n by auto
  have "(2 :: nat) ^ ?k < 2 ^ 32" using k(1) n(2) by (rule le_less_trans [OF order_trans]) simp
  then show k32: "?k < 32" by (simp only: power_strict_increasing_iff)
  have "?n - 2 ^ ?k < 2 ^ ?k" using k by (simp only: power_add power_one_right) linarith
  then have "(?n - 2 ^ ?k) * 2 ^ (52 - ?k) < 2 ^ ?k * 2 ^ (52 - ?k)" by simp
  also have "(2 :: nat) ^ ?k * 2 ^ (52 - ?k) = 2 ^ 52" using k32 by (simp flip: power_add)
  finally show m: "(?n - 2 ^ ?k) * 2 ^ (52 - ?k) < 2 ^ 52" .
  have "(1023 + ?k) * 2 ^ 52 \<le> 1054 * 2 ^ 52" using k32 by (intro mult_right_mono) auto
  with m have "(if i < 0 then 2 ^ 63 else 0) + ((1023 + ?k) * 2 ^ 52 + (?n - 2 ^ ?k) * 2 ^ (52 - ?k)) < (2 :: nat) ^ 64"
    by auto
  with assms(3) show "unat (int32ToDouble i) = (if i < 0 then 2 ^ 63 else 0) +
      ((1023 + ?k) * 2 ^ 52 + (?n - 2 ^ ?k) * 2 ^ (52 - ?k))"
    unfolding int32ToDouble_def Let_def by (simp add: unat_of_nat add.assoc del: of_nat_add of_nat_mult)
qed

lemma int32ToDouble_payload:
  assumes "- (2 ^ 31) \<le> i" "i < 2 ^ 31" "i \<noteq> 0"
  obtains e m where "unat (int32ToDouble i) = (if i < 0 then 2 ^ 63 else 0) + (e * 2 ^ 52 + m)"
    "1023 \<le> e" "e < 1055" "m < 2 ^ 52" "nat \<bar>i\<bar> * 2 ^ 52 = 2 ^ (e - 1023) * (2 ^ 52 + m)"
proof
  let ?n = "nat \<bar>i\<bar>"
  let ?k = "fastLog2 ?n"
  let ?m = "(?n - 2 ^ ?k) * 2 ^ (52 - ?k)"
  note b = int32ToDouble_bits [OF assms]
  show "unat (int32ToDouble i) = (if i < 0 then 2 ^ 63 else 0) + ((1023 + ?k) * 2 ^ 52 + ?m)" by (rule b(1))
  show "1023 \<le> 1023 + ?k" "1023 + ?k < 1055" "?m < 2 ^ 52" using b(2,3) by auto
  have k: "2 ^ ?k \<le> ?n" using fastLog2_bounds [of ?n] assms by auto
  have two: "2 ^ 52 = 2 ^ ?k * (2 :: nat) ^ (52 - ?k)" using b(3) by (simp flip: power_add)
  have "2 ^ ?k * (2 ^ 52 + ?m) = 2 ^ ?k * 2 ^ 52 + (?n - 2 ^ ?k) * (2 ^ ?k * 2 ^ (52 - ?k))"
    by (simp only: distrib_left ac_simps)
  also have "\<dots> = (2 ^ ?k + (?n - 2 ^ ?k)) * 2 ^ 52" by (simp only: two [symmetric] distrib_right)
  also have "\<dots> = ?n * 2 ^ 52" using k by simp
  finally show "?n * 2 ^ 52 = 2 ^ (1023 + ?k - 1023) * (2 ^ 52 + ?m)" by simp
qed

lemma unat_take_bit63: "unat (take_bit 63 (d :: u64)) = unat d mod 2 ^ 63"
  unfolding unsigned_take_bit_eq by (simp add: take_bit_eq_mod)

lemma int32ToDouble_finite:
  assumes "- (2 ^ 31) \<le> i" "i < 2 ^ 31" "i \<noteq> 0"
  shows "\<not> iszero (int32ToDouble i)" "\<not> isnan (int32ToDouble i)"
proof -
  obtain e m where em: "unat (int32ToDouble i) = (if i < 0 then 2 ^ 63 else 0) + (e * 2 ^ 52 + m)"
    "1023 \<le> e" "e < 1055" "m < 2 ^ 52" using int32ToDouble_payload [OF assms] by metis
  have "e * 2 ^ 52 \<le> 1054 * 2 ^ 52" using em(3) by (intro mult_right_mono) auto
  then have lt: "e * 2 ^ 52 + m < 1055 * 2 ^ 52" using em(4) by auto
  have "unat (take_bit 63 (int32ToDouble i)) = e * 2 ^ 52 + m"
    unfolding unat_take_bit63 em(1) using lt by auto
  moreover have "1023 * 2 ^ 52 \<le> e * 2 ^ 52" using em(2) by (intro mult_right_mono) auto
  ultimately have u: "0 < unat (take_bit 63 (int32ToDouble i))"
    "unat (take_bit 63 (int32ToDouble i)) \<le> unat (0x7FF0000000000000 :: u64)"
    using lt by auto
  then show "\<not> iszero (int32ToDouble i)" by (auto simp: iszero_def)
  show "\<not> isnan (int32ToDouble i)" using u(2) unfolding isnan_def word_less_nat_alt by linarith
qed

lemma int32ToDouble_inj:
  assumes "- (2 ^ 31) \<le> i" "i < 2 ^ 31" "- (2 ^ 31) \<le> j" "j < 2 ^ 31" "int32ToDouble i = int32ToDouble j"
  shows "i = j"
proof (cases "i = 0 \<or> j = 0")
  case True
  then show ?thesis
    using assms int32ToDouble_finite(1) [of i] int32ToDouble_finite(1) [of j]
    by (auto simp: int32ToDouble_def [of 0] iszero_def intro: ccontr)
next
  case False
  obtain e m where i: "unat (int32ToDouble i) = (if i < 0 then 2 ^ 63 else 0) + (e * 2 ^ 52 + m)"
    "e < 1055" "m < 2 ^ 52" "nat \<bar>i\<bar> * 2 ^ 52 = 2 ^ (e - 1023) * (2 ^ 52 + m)"
    using int32ToDouble_payload [of i] assms False by metis
  obtain f n where j: "unat (int32ToDouble j) = (if j < 0 then 2 ^ 63 else 0) + (f * 2 ^ 52 + n)"
    "f < 1055" "n < 2 ^ 52" "nat \<bar>j\<bar> * 2 ^ 52 = 2 ^ (f - 1023) * (2 ^ 52 + n)"
    using int32ToDouble_payload [of j] assms False by metis
  have "e * 2 ^ 52 \<le> 1054 * 2 ^ 52" "f * 2 ^ 52 \<le> 1054 * 2 ^ 52" using i(2) j(2) by (auto intro!: mult_right_mono)
  then have lt: "e * 2 ^ 52 + m < 2 ^ 63" "f * 2 ^ 52 + n < 2 ^ 63" using i(3) j(3) by auto
  have eq: "(if i < 0 then 2 ^ 63 else 0) + (e * 2 ^ 52 + m) = (if j < 0 then 2 ^ 63 else 0) + (f * 2 ^ 52 + n)"
    using i(1) j(1) assms(5) by simp
  have sign: "i < 0 \<longleftrightarrow> j < 0" using eq lt by (auto split: if_splits)
  with eq have em: "e * 2 ^ 52 + m = f * 2 ^ 52 + n" by auto
  have "e = f" using arg_cong [OF em, of "\<lambda>x. x div 2 ^ 52"] i(3) j(3) by simp
  with em have "m = n" by simp
  with i(4) j(4) \<open>e = f\<close> have "nat \<bar>i\<bar> * 2 ^ 52 = nat \<bar>j\<bar> * 2 ^ 52" by simp
  then have "nat \<bar>i\<bar> = nat \<bar>j\<bar>" by simp
  with sign show ?thesis by linarith
qed

lemma int32ToDouble_0 [simp]: "int32ToDouble 0 = 0" "iszero 0" "\<not> isnan 0"
  by (simp_all add: int32ToDouble_def iszero_def isnan_def)

lemma canonical_number_eq:
  "canonical_number a = canonical_number b \<longleftrightarrow>
     (if isnan a \<or> isnan b then isnan a \<and> isnan b else doubleEq a b)"
  by (auto simp: canonical_number_def doubleEq_def)

lemma canonical_number_other [simp]:
  "canonical_number d \<noteq> CString s" "canonical_number d \<noteq> CBigInt n" "canonical_number d \<noteq> CPointer p"
  "canonical_number d \<noteq> CUndefined" "canonical_number d \<noteq> CNull" "canonical_number d \<noteq> CBoolean b" "canonical_number d \<noteq> CEmpty"
  by (auto simp: canonical_number_def)

lemma int32_canonical:
  assumes "value_ok sm bm (Int32 i)" "value_ok sm bm (Int32 j)"
  shows "canonical_number (int32ToDouble i) = canonical_number (int32ToDouble j) \<longleftrightarrow> i = j"
proof -
  have "\<not> isnan (int32ToDouble i)" "\<not> isnan (int32ToDouble j)"
    "iszero (int32ToDouble i) \<longleftrightarrow> i = 0" "iszero (int32ToDouble j) \<longleftrightarrow> j = 0"
    using assms int32ToDouble_finite [of i] int32ToDouble_finite [of j] by (cases "i = 0"; cases "j = 0"; auto)+
  then show ?thesis
    using assms int32ToDouble_inj [of i j] by (auto simp: canonical_number_eq doubleEq_def)
qed

lemma sameValueZero_canonical:
  assumes "value_ok sm bm a" "value_ok sm bm b"
  shows "sameValueZero a b \<longleftrightarrow> canonical_key a = canonical_key b"
proof (cases "\<exists>i j. a = Int32 i \<and> b = Int32 j")
  case True
  with assms int32_canonical show ?thesis by fastforce
next
  case False
  then show ?thesis
    using assms by (cases a; cases b) (auto simp: canonical_number_eq canonical_number_other [symmetric])
qed

lemma hash_canonical:
  assumes "key_ok sm bm a" "key_ok sm bm b" "canonical_key a = canonical_key b"
  shows "keyedCollectionHash a = keyedCollectionHash b"
proof -
  let ?h = "\<lambda>c. case c of CNaN \<Rightarrow> 0x7ff8000000000000 AND 0xffffffff
    | CNumber d \<Rightarrow> if iszero d then 0 else keyedCollectionHashMix d | _ \<Rightarrow> (0 :: u64)"
  have num: "keyedCollectionHash v = ?h (canonical_key v)" if "isNumber v" "value_ok sm bm v" for v
  proof (cases v)
    case (Int32 i)
    with that int32ToDouble_finite [of i] show ?thesis
      by (cases "i = 0") (auto simp: canonical_number_def)
  next
    case (Double d)
    have "iszero d \<Longrightarrow> \<not> isnan d" by (simp add: iszero_def isnan_def)
    with Double show ?thesis by (auto simp: canonical_number_def)
  qed (use that in auto)
  show ?thesis
  proof (cases "isNumber a")
    case True
    then have "isNumber b" using assms(3) by (cases a; cases b) (auto simp: canonical_number_other [symmetric])
    with True num assms show ?thesis by (simp add: key_ok_def)
  next
    case False
    then show ?thesis
      using assms by (cases a; cases b) (auto simp: key_ok_def canonical_number_other [symmetric])
  qed
qed

lemma keyMatches_canonical:
  assumes "key_ok sm bm key" "value_ok sm bm ex"
  shows "keyMatches key ex \<longleftrightarrow> ex \<noteq> EmptyValue \<and> canonical_key ex = canonical_key key"
proof -
  have "ex \<noteq> EmptyValue \<and> canonical_key ex = canonical_key key" if "samePayload ex key"
    using that assms by (cases ex; cases key) (auto simp: samePayload_def key_ok_def)
  then show ?thesis
    using assms sameValueZero_canonical [of sm bm ex key] by (auto simp: keyMatches_def key_ok_def)
qed

section \<open>Probing\<close>

lemma mod_step: "(Suc i mod n + e) mod n = (i + Suc e) mod (n :: nat)"
  by (simp add: mod_simps)

lemma freeBucket_stop:
  assumes "i < 2 ^ k" "\<forall>e < d. bs ! ((i + e) mod 2 ^ k) \<noteq> 0" "bs ! ((i + d) mod 2 ^ k) = 0"
  shows "freeBucket bs (2 ^ k - 1) i = Some ((i + d) mod 2 ^ k)"
  using assms
proof (induction d arbitrary: i)
  case 0
  then show ?case by (subst freeBucket.simps) simp
next
  case (Suc d)
  have "bs ! i \<noteq> 0" using Suc.prems(1,2) by force
  moreover have "freeBucket bs (2 ^ k - 1) (Suc i mod 2 ^ k) = Some ((Suc i mod 2 ^ k + d) mod 2 ^ k)"
  proof (rule Suc.IH)
    show "\<forall>e < d. bs ! ((Suc i mod 2 ^ k + e) mod 2 ^ k) \<noteq> 0"
      using Suc.prems(2) by (simp only: mod_step) auto
    show "bs ! ((Suc i mod 2 ^ k + d) mod 2 ^ k) = 0"
      using Suc.prems(3) by (simp only: mod_step)
  qed simp
  ultimately show ?case
    by (subst freeBucket.simps) (simp add: and_mask_mods mod_step del: mod_mod_trivial)
qed

lemma probe_stop:
  assumes "i < 2 ^ k"
    and "\<forall>e < d. bs ! ((i + e) mod 2 ^ k) \<noteq> 0 \<and> \<not> hit (bs ! ((i + e) mod 2 ^ k) - 1)"
    and "bs ! ((i + d) mod 2 ^ k) = b" "b = 0 \<or> hit (b - 1)"
  shows "probe hit bs (2 ^ k - 1) i = Some (if b = 0 then None else Some (b - 1))"
  using assms
proof (induction d arbitrary: i)
  case 0
  then show ?case by (subst probe.simps) (auto simp: Let_def)
next
  case (Suc d)
  have "bs ! i \<noteq> 0 \<and> \<not> hit (bs ! i - 1)" using Suc.prems(1,2) by force
  moreover have "probe hit bs (2 ^ k - 1) (Suc i mod 2 ^ k) = Some (if b = 0 then None else Some (b - 1))"
  proof (rule Suc.IH)
    show "\<forall>e < d. bs ! ((Suc i mod 2 ^ k + e) mod 2 ^ k) \<noteq> 0 \<and>
        \<not> hit (bs ! ((Suc i mod 2 ^ k + e) mod 2 ^ k) - 1)"
      using Suc.prems(2) by (simp only: mod_step) auto
    show "bs ! ((Suc i mod 2 ^ k + d) mod 2 ^ k) = b"
      using Suc.prems(3) by (simp only: mod_step)
  qed (use Suc.prems(4) in auto)
  ultimately show ?case
    by (subst probe.simps) (simp add: and_mask_mods Let_def)
qed

section \<open>Well-formed indices\<close>

text \<open>
  \<open>reaches bs k h s\<close>: probing from the hash \<open>h\<close> meets the bucket of storage position \<open>s\<close> before any empty
  bucket. \<open>C\<close> is the set of storage positions the index covers.
\<close>

definition reaches :: "nat list \<Rightarrow> nat \<Rightarrow> nat \<Rightarrow> nat \<Rightarrow> bool" where
  "reaches bs k h s \<longleftrightarrow>
     (\<exists>d. bs ! ((h + d) mod 2 ^ k) = Suc s \<and> (\<forall>e < d. bs ! ((h + e) mod 2 ^ k) \<noteq> 0))"

definition used :: "nat list \<Rightarrow> nat" where
  "used bs = length (filter (\<lambda>b. b \<noteq> 0) bs)"

definition index_ok :: "Value list \<Rightarrow> nat set \<Rightarrow> KeyedCollectionHashIndex \<Rightarrow> bool" where
  "index_ok ks C ix \<longleftrightarrow>
     (\<exists>k. 4 \<le> k \<and> k \<le> 29 \<and> capacity ix = 2 ^ k \<and> length (buckets ix) = 2 ^ k \<and>
        occupied ix = used (buckets ix) \<and> occupied ix < capacity ix \<and>
        (\<forall>b \<in> set (buckets ix). b \<noteq> 0 \<longrightarrow> b - 1 < length ks) \<and>
        (\<forall>s \<in> C. reaches (buckets ix) k (unat (keyedCollectionHash (ks ! s)) mod 2 ^ k) s))"

lemma used_le: "used bs \<le> length bs"
  by (simp add: used_def)

lemma used_less_zero: "used bs < length bs \<Longrightarrow> \<exists>i < length bs. bs ! i = 0"
proof (rule ccontr)
  assume "used bs < length bs" "\<not> (\<exists>i < length bs. bs ! i = 0)"
  then have "filter (\<lambda>b. b \<noteq> 0) bs = bs" by (auto simp: filter_id_conv in_set_conv_nth)
  with \<open>used bs < length bs\<close> show False by (simp add: used_def)
qed

lemma used_update: "i < length bs \<Longrightarrow> bs ! i = 0 \<Longrightarrow> b \<noteq> 0 \<Longrightarrow> used (bs[i := b]) = Suc (used bs)"
proof (induction bs arbitrary: i)
  case (Cons x bs)
  then show ?case by (cases i) (auto simp: used_def)
qed simp

lemma first_empty:
  assumes "used bs < 2 ^ k" "length bs = 2 ^ k" "h < 2 ^ k"
  obtains d where "d < 2 ^ k" "bs ! ((h + d) mod 2 ^ k) = 0" "\<forall>e < d. bs ! ((h + e) mod 2 ^ k) \<noteq> 0"
proof -
  obtain i where "i < 2 ^ k" "bs ! i = 0" using used_less_zero [of bs] assms by auto
  with first_cyclic [of i "2 ^ k" h "\<lambda>j. bs ! j \<noteq> 0"] assms(3) that show ?thesis by blast
qed

lemma reaches_update:
  assumes "reaches bs k h s" "bs ! j = 0" "b \<noteq> 0" "length bs = 2 ^ k"
  shows "reaches (bs[j := b]) k h s"
proof -
  obtain d where d: "bs ! ((h + d) mod 2 ^ k) = Suc s" "\<forall>e < d. bs ! ((h + e) mod 2 ^ k) \<noteq> 0"
    using assms(1) by (auto simp: reaches_def)
  then have "(h + d) mod 2 ^ k \<noteq> j" using assms(2) by auto
  with d assms(3,4) show ?thesis by (auto simp: reaches_def nth_update_if intro!: exI [of _ d])
qed

lemma indexInsert_ok:
  assumes ix: "index_ok ks C ix" and room: "Suc (occupied ix) < capacity ix"
    and s: "s < length ks" "length ks \<le> 2 ^ 28" and h: "hash = keyedCollectionHash (ks ! s)"
  obtains ix' where "indexInsert hash s ix = Some ix'" "index_ok ks (insert s C) ix'"
    "occupied ix' = Suc (occupied ix)" "capacity ix' = capacity ix"
proof -
  obtain k where k: "4 \<le> k" "k \<le> 29" "capacity ix = 2 ^ k" "length (buckets ix) = 2 ^ k"
    "occupied ix = used (buckets ix)" "\<forall>b \<in> set (buckets ix). b \<noteq> 0 \<longrightarrow> b - 1 < length ks"
    "\<forall>s \<in> C. reaches (buckets ix) k (unat (keyedCollectionHash (ks ! s)) mod 2 ^ k) s"
    using ix by (auto simp: index_ok_def)
  let ?h = "unat hash mod 2 ^ k"
  obtain d where d: "d < 2 ^ k" "buckets ix ! ((?h + d) mod 2 ^ k) = 0" "\<forall>e < d. buckets ix ! ((?h + e) mod 2 ^ k) \<noteq> 0"
    using first_empty [of "buckets ix" k ?h] room k by auto
  let ?j = "(?h + d) mod 2 ^ k"
  have j: "?j < length (buckets ix)" using k by simp
  have free: "freeBucket (buckets ix) (capacity ix - 1) (unat hash AND (capacity ix - 1)) = Some ?j"
    using freeBucket_stop [of ?h k d "buckets ix"] d k by (simp add: and_mask_mods)
  have pw: "(2 :: nat) ^ k \<le> 2 ^ 29" using k(2) by (intro power_increasing) auto
  have su: "(s + 1) mod 2 ^ 32 = Suc s" "(occupied ix + 1) mod 2 ^ 32 = Suc (occupied ix)"
    using s room pw k(3) by auto
  let ?bs = "(buckets ix)[?j := Suc s]"
  have reach: "reaches ?bs k ?h s"
    unfolding reaches_def using d(3) j k(4) by (intro exI [of _ d]) (auto simp: nth_update_if)
  have old: "reaches ?bs k (unat (keyedCollectionHash (ks ! t)) mod 2 ^ k) t" if "t \<in> C" for t
    using reaches_update [of "buckets ix" k _ t ?j "Suc s"] that k d(2) by auto
  have bnd: "\<forall>b \<in> set ?bs. b \<noteq> 0 \<longrightarrow> b - 1 < length ks"
    using k(6) s set_update_subset_insert [of "buckets ix" ?j "Suc s"] by auto
  have "used ?bs = Suc (occupied ix)" using used_update [OF j d(2), of "Suc s"] k(5) by simp
  then have "index_ok ks (insert s C) (ix\<lparr>buckets := ?bs, occupied := Suc (occupied ix)\<rparr>)"
    unfolding index_ok_def using k room reach old bnd h by (intro exI [of _ k]) auto
  with that free su show ?thesis by (simp add: indexInsert_def Let_def)
qed

lemma index_ok_cong:
  assumes "index_ok ks C ix" "length ks \<le> length ks'" "\<And>s. s \<in> C' \<Longrightarrow> s \<in> C \<and> ks' ! s = ks ! s"
  shows "index_ok ks' C' ix"
proof -
  obtain k where "4 \<le> k" "k \<le> 29" "capacity ix = 2 ^ k" "length (buckets ix) = 2 ^ k"
    "occupied ix = used (buckets ix)" "occupied ix < capacity ix"
    and b: "\<forall>b \<in> set (buckets ix). b \<noteq> 0 \<longrightarrow> b - 1 < length ks"
    and r: "\<forall>s \<in> C. reaches (buckets ix) k (unat (keyedCollectionHash (ks ! s)) mod 2 ^ k) s"
    using assms(1) by (auto simp: index_ok_def)
  moreover have "\<forall>b \<in> set (buckets ix). b \<noteq> 0 \<longrightarrow> b - 1 < length ks'" using b assms(2) by fastforce
  moreover have "\<forall>s \<in> C'. reaches (buckets ix) k (unat (keyedCollectionHash (ks' ! s)) mod 2 ^ k) s"
    using r assms(3) by simp
  ultimately show ?thesis unfolding index_ok_def by blast
qed

lemma growCapacity_ok:
  assumes "live \<le> 2 ^ 28" "4 \<le> k" "k \<le> 29"
  shows "\<exists>k'. 4 \<le> k' \<and> k' \<le> 29 \<and> growCapacity live (2 ^ k) = Some (2 ^ k') \<and> live * 6 < 2 ^ k' * 5"
  using assms
proof (induction "29 - k" arbitrary: k)
  case 0
  then have k: "k = 29" by simp
  have "\<not> 2 ^ k * 5 \<le> live * 6" using 0(2) k by simp
  then have "growCapacity live (2 ^ k) = Some (2 ^ k)" by (subst growCapacity.simps) simp
  then show ?case using 0(2) k by (intro exI [of _ 29]) simp
next
  case (Suc n)
  show ?case
  proof (cases "2 ^ k * 5 \<le> live * 6")
    case True
    have "k < 29" using Suc(2) by simp
    then have "(2 :: nat) ^ Suc k \<le> 2 ^ 29" by (intro power_increasing) auto
    then have "(2 ^ k * 2) mod 2 ^ 32 = (2 :: nat) ^ Suc k" by simp
    with True have "growCapacity live (2 ^ k) = growCapacity live (2 ^ Suc k)"
      by (subst growCapacity.simps) simp
    moreover have "\<exists>k'. 4 \<le> k' \<and> k' \<le> 29 \<and> growCapacity live (2 ^ Suc k) = Some (2 ^ k') \<and> live * 6 < 2 ^ k' * 5"
      using Suc \<open>k < 29\<close> by (intro Suc(1)) auto
    ultimately show ?thesis by simp
  next
    case False
    then have "growCapacity live (2 ^ k) = Some (2 ^ k)" by (subst growCapacity.simps) simp
    with False Suc(4,5) show ?thesis by (intro exI [of _ k]) auto
  qed
qed

definition live :: "Value list \<Rightarrow> nat set" where
  "live ks = {s. s < length ks \<and> ks ! s \<noteq> EmptyValue}"

lemma insertAll_ok:
  assumes "index_ok ks (live ks \<inter> {..<i}) ix" "drop i ks = rest" "i \<le> length ks" "length ks \<le> 2 ^ 28"
    "occupied ix + liveCount rest < capacity ix"
  shows "\<exists>ix'. insertAll i rest ix = Some ix' \<and> index_ok ks (live ks) ix'"
  using assms
proof (induction rest arbitrary: i ix)
  case Nil
  then have "live ks \<inter> {..<i} = live ks" by (auto simp: live_def)
  with Nil show ?case by simp
next
  case (Cons k rest)
  have i: "i < length ks" "ks ! i = k" "drop (Suc i) ks = rest"
    using Cons.prems(2) by (metis drop_eq_Nil list.distinct(1) not_le, metis nth_via_drop, metis drop_Suc list.sel(3) tl_drop)
  show ?case
  proof (cases "k = EmptyValue")
    case True
    then have "live ks \<inter> {..<Suc i} = live ks \<inter> {..<i}" using i by (auto simp: live_def less_Suc_eq)
    with True Cons.IH [of "Suc i" ix] Cons.prems i show ?thesis by (simp add: liveCount_def)
  next
    case False
    then have lv: "live ks \<inter> {..<Suc i} = insert i (live ks \<inter> {..<i})" using i by (auto simp: live_def less_Suc_eq)
    have "Suc (occupied ix) < capacity ix" using Cons.prems(5) False by (simp add: liveCount_def)
    then obtain ix' where ix': "indexInsert (keyedCollectionHash k) i ix = Some ix'"
      "index_ok ks (insert i (live ks \<inter> {..<i})) ix'" "occupied ix' = Suc (occupied ix)" "capacity ix' = capacity ix"
      using indexInsert_ok [OF Cons.prems(1) _ i(1) Cons.prems(4)] i(2) by metis
    have "\<exists>ix''. insertAll (Suc i) rest ix' = Some ix'' \<and> index_ok ks (live ks) ix''"
      using Cons.prems(4,5) False i ix' lv by (intro Cons.IH) (auto simp: liveCount_def)
    with ix'(1) False show ?thesis by simp
  qed
qed

lemma liveCount_le: "liveCount ks \<le> length ks"
  by (simp add: liveCount_def)

lemma buildOrRebuildHashIndex_ok:
  assumes "length ks \<le> 2 ^ 28"
  shows "\<exists>ix. buildOrRebuildHashIndex ks = Some ix \<and> index_ok ks (live ks) ix"
proof -
  obtain k where k: "4 \<le> k" "k \<le> 29" "growCapacity (liveCount ks) 16 = Some (2 ^ k)" "liveCount ks * 6 < 2 ^ k * 5"
    using growCapacity_ok [of "liveCount ks" 4] assms liveCount_le [of ks] by auto
  let ?ix = "\<lparr>capacity = 2 ^ k, occupied = 0, buckets = replicate (2 ^ k) 0\<rparr>"
  have "index_ok ks (live ks \<inter> {..<0}) ?ix"
    unfolding index_ok_def using k by (intro exI [of _ k]) (auto simp: used_def)
  from insertAll_ok [OF this, of ks] k assms show ?thesis
    by (simp add: buildOrRebuildHashIndex_def indexCreate_def)
qed

section \<open>A collection and its index\<close>

definition keyPosition :: "Value list \<Rightarrow> Value \<Rightarrow> nat option" where
  "keyPosition ks key = find_index (\<lambda>x. x \<noteq> EmptyValue \<and> canonical_key x = canonical_key key) ks"

definition keys_ok :: "(addr \<Rightarrow> ustring) \<Rightarrow> (addr \<Rightarrow> int) \<Rightarrow> Value list \<Rightarrow> bool" where
  "keys_ok sm bm ks \<longleftrightarrow>
     (\<forall>v \<in> set ks. value_ok sm bm v) \<and> length ks \<le> 2 ^ 28 \<and>
     distinct (map canonical_key (filter (\<lambda>k. k \<noteq> EmptyValue) ks))"

definition collection_ok ::
  "(addr \<Rightarrow> ustring) \<Rightarrow> (addr \<Rightarrow> int) \<Rightarrow> Value list \<Rightarrow> KeyedCollectionHashIndex option \<Rightarrow> bool" where
  "collection_ok sm bm ks m_hashIndex \<longleftrightarrow>
     keys_ok sm bm ks \<and> (\<forall>ix. m_hashIndex = Some ix \<longrightarrow> index_ok ks (live ks) ix)"

lemma distinct_filter_nth:
  assumes "distinct (map f (filter P xs))" "i < length xs" "j < length xs" "P (xs ! i)" "P (xs ! j)" "f (xs ! i) = f (xs ! j)"
  shows "i = j"
  using assms
proof (induction xs arbitrary: i j)
  case (Cons x xs)
  have other: "f (xs ! n) \<noteq> f x" if "n < length xs" "P (xs ! n)" "P x" for n
  proof -
    have "f (xs ! n) \<in> f ` set (filter P xs)" using that by simp
    with Cons.prems(1) that(3) show ?thesis by auto
  qed
  have tl: "distinct (map f (filter P xs))" using Cons.prems(1) by (simp split: if_splits)
  show ?case
  proof (cases i)
    case 0
    with Cons.prems other [of "j - 1"] show ?thesis by (cases j) auto
  next
    case (Suc m)
    show ?thesis
    proof (cases j)
      case 0
      with Suc Cons.prems other [of m] show ?thesis by simp
    next
      case (Suc n)
      with \<open>i = Suc m\<close> Cons.prems Cons.IH [OF tl, of m n] show ?thesis by simp
    qed
  qed
qed simp

lemma keyPosition_unique:
  assumes "keys_ok sm bm ks" "s \<in> live ks" "canonical_key (ks ! s) = canonical_key key"
  shows "keyPosition ks key = Some s"
  unfolding keyPosition_def
proof (rule find_index_SomeI)
  fix j
  assume "j < s"
  show "\<not> (ks ! j \<noteq> EmptyValue \<and> canonical_key (ks ! j) = canonical_key key)"
    using distinct_filter_nth [of canonical_key "\<lambda>k. k \<noteq> EmptyValue" ks j s] assms \<open>j < s\<close>
    by (auto simp: keys_ok_def live_def)
qed (use assms in \<open>auto simp: live_def\<close>)

lemma probe_correct:
  assumes ks: "keys_ok sm bm ks" and ix: "index_ok ks (live ks) ix" and key: "key_ok sm bm key"
    and hit: "\<And>s. s < length ks \<Longrightarrow> hit s \<longleftrightarrow> s \<in> live ks \<and> canonical_key (ks ! s) = canonical_key key"
  shows "probe hit (buckets ix) (capacity ix - 1) (unat (keyedCollectionHash key) AND (capacity ix - 1)) =
    Some (keyPosition ks key)"
proof -
  obtain k where k: "capacity ix = 2 ^ k" "length (buckets ix) = 2 ^ k"
    "occupied ix = used (buckets ix)" "occupied ix < capacity ix"
    "\<forall>b \<in> set (buckets ix). b \<noteq> 0 \<longrightarrow> b - 1 < length ks"
    "\<forall>s \<in> live ks. reaches (buckets ix) k (unat (keyedCollectionHash (ks ! s)) mod 2 ^ k) s"
    using ix by (auto simp: index_ok_def)
  let ?h = "unat (keyedCollectionHash key) mod 2 ^ k"
  let ?b = "\<lambda>e. buckets ix ! ((?h + e) mod 2 ^ k)"
  have matches: "hit (?b e - 1) \<longleftrightarrow>
      ?b e - 1 \<in> live ks \<and> canonical_key (ks ! (?b e - 1)) = canonical_key key" if "?b e \<noteq> 0" for e
  proof -
    have "?b e - 1 < length ks" using k(2,5) that by simp
    then show ?thesis by (rule hit)
  qed
  obtain D where D: "D < 2 ^ k" "?b D = 0" "\<forall>e < D. ?b e \<noteq> 0"
    by (rule first_empty [of "buckets ix" k ?h]) (use k in auto)
  let ?stop = "\<lambda>d. ?b d = 0 \<or> hit (?b d - 1)"
  define d where "d = (LEAST d. ?stop d)"
  have stop: "?stop d" unfolding d_def by (rule LeastI [of ?stop D]) (use D in simp)
  have before: "\<not> ?stop e" if "e < d" for e using that not_less_Least [of e ?stop] by (simp add: d_def)
  have dD: "d \<le> D" unfolding d_def by (rule Least_le) (use D in simp)
  have "probe hit (buckets ix) (2 ^ k - 1) ?h = Some (if ?b d = 0 then None else Some (?b d - 1))"
    using probe_stop [of ?h k d "buckets ix" hit "?b d"] stop before by auto
  moreover have "(if ?b d = 0 then None else Some (?b d - 1)) = keyPosition ks key"
  proof (cases "keyPosition ks key")
    case None
    have "?b d = 0"
    proof (rule ccontr)
      assume nz: "?b d \<noteq> 0"
      then show False
        using stop matches [OF nz] keyPosition_unique [OF ks, of "?b d - 1" key] None by auto
    qed
    with None show ?thesis by simp
  next
    case (Some s)
    then have s: "s \<in> live ks" "canonical_key (ks ! s) = canonical_key key"
      by (auto simp: keyPosition_def live_def dest: find_index_SomeD)
    have "key_ok sm bm (ks ! s)" using s(1) ks by (auto simp: key_ok_def keys_ok_def live_def)
    then have "keyedCollectionHash (ks ! s) = keyedCollectionHash key" using hash_canonical key s(2) by blast
    then obtain c where c: "?b c = Suc s" "\<forall>e < c. ?b e \<noteq> 0" using k(6) s(1) by (auto simp: reaches_def)
    have "?stop c" using matches [of c] c s by simp
    then have "d \<le> c" unfolding d_def by (rule Least_le)
    then have nz: "?b d \<noteq> 0" using c by (cases "d = c") auto
    then have "?b d - 1 \<in> live ks" "canonical_key (ks ! (?b d - 1)) = canonical_key key"
      using stop matches [OF nz] by auto
    with keyPosition_unique [OF ks] Some nz show ?thesis by simp
  qed
  ultimately show ?thesis using k(1) by (simp add: and_mask_mods)
qed

lemma keyMatches_hit:
  assumes "keys_ok sm bm ks" "key_ok sm bm key" "s < length ks"
  shows "keyMatches key (ks ! s) \<longleftrightarrow> s \<in> live ks \<and> canonical_key (ks ! s) = canonical_key key"
  using keyMatches_canonical [OF assms(2), of "ks ! s"] assms by (auto simp: keys_ok_def live_def)

lemma find_scan_correct:
  assumes "keys_ok sm bm ks" "key_ok sm bm key"
  shows "find_index (keyMatches key) ks = keyPosition ks key"
  unfolding keyPosition_def
  using assms keyMatches_canonical [OF assms(2)] by (intro find_index_cong) (auto simp: keys_ok_def)

lemma findKeyIndex_ok:
  assumes ok: "collection_ok sm bm ks ixo" and key: "key_ok sm bm key"
  obtains ixo' hash where "findKeyIndex ks ixo key = Some (keyPosition ks key, ixo', hash)"
    "collection_ok sm bm ks ixo'"
    "keyPosition ks key = None \<Longrightarrow> hash = keyedCollectionHash key"
proof (cases ixo)
  case None
  have ks: "keys_ok sm bm ks" using ok by (simp add: collection_ok_def)
  let ?t = "if \<not> isPointerValue key then 128 else 16"
  show ?thesis
  proof (cases "length ks \<ge> ?t")
    case True
    obtain ix where b: "buildOrRebuildHashIndex ks = Some ix" "index_ok ks (live ks) ix"
      using buildOrRebuildHashIndex_ok [of ks] ks by (auto simp: keys_ok_def)
    show ?thesis
      using b True None ks probe_correct [OF ks b(2) key keyMatches_hit [OF ks key]]
      by (intro that [of "Some ix" "keyedCollectionHash key"])
        (simp_all add: findKeyIndex_def Let_def collection_ok_def)
  next
    case False
    show ?thesis
    proof (cases "keyPosition ks key")
      case None
      with False \<open>ixo = None\<close> find_scan_correct [OF ks key] ks show ?thesis
        by (intro that [of None "keyedCollectionHash key"])
          (simp_all add: findKeyIndex_def Let_def collection_ok_def)
    next
      case (Some i)
      with False \<open>ixo = None\<close> find_scan_correct [OF ks key] ks show ?thesis
        by (intro that [of None 0]) (simp_all add: findKeyIndex_def Let_def collection_ok_def)
    qed
  qed
next
  case (Some ix)
  with ok have ks: "keys_ok sm bm ks" and ix: "index_ok ks (live ks) ix" by (auto simp: collection_ok_def)
  from probe_correct [OF ks ix key keyMatches_hit [OF ks key]] Some ks ix show ?thesis
    by (intro that [of "Some ix" "keyedCollectionHash key"])
      (simp_all add: findKeyIndex_def Let_def collection_ok_def)
qed

lemma live_append: "k \<noteq> EmptyValue \<Longrightarrow> live (ks @ [k]) = insert (length ks) (live ks)"
  by (auto simp: live_def nth_append less_Suc_eq)

lemma needsRebuild_exact:
  assumes "index_ok ks C ix"
  shows "needsRebuild ix \<longleftrightarrow> occupied ix * 6 \<ge> capacity ix * 5"
proof -
  obtain k where k: "k \<le> 29" "capacity ix = 2 ^ k" "occupied ix < capacity ix"
    using assms by (auto simp: index_ok_def)
  have "(2 :: nat) ^ k \<le> 2 ^ 29" using k(1) by (intro power_increasing) auto
  with k have "capacity ix * 5 < 2 ^ 32" "occupied ix * 6 < 2 ^ 32" by auto
  then show ?thesis by (simp add: needsRebuild_def)
qed

lemma addToHashIndex_ok:
  assumes ok: "collection_ok sm bm ks ixo" and new: "keys_ok sm bm (ks @ [k])" "k \<noteq> EmptyValue"
    and hash: "hash = keyedCollectionHash k"
  obtains ixo' where "addToHashIndex (ks @ [k]) ixo (length ks) hash = Some ixo'"
    "collection_ok sm bm (ks @ [k]) ixo'"
proof (cases ixo)
  case None
  with new that [of None] show ?thesis by (simp add: addToHashIndex_def collection_ok_def)
next
  case (Some ix)
  with ok have ix: "index_ok ks (live ks) ix" by (simp add: collection_ok_def)
  show ?thesis
  proof (cases "needsRebuild ix")
    case True
    obtain ix' where "buildOrRebuildHashIndex (ks @ [k]) = Some ix'" "index_ok (ks @ [k]) (live (ks @ [k])) ix'"
      using buildOrRebuildHashIndex_ok [of "ks @ [k]"] new by (auto simp: keys_ok_def)
    with True Some new that [of "Some ix'"] show ?thesis by (simp add: addToHashIndex_def collection_ok_def)
  next
    case False
    then have "occupied ix * 6 < capacity ix * 5" using needsRebuild_exact [OF ix] by simp
    moreover have "16 \<le> capacity ix"
    proof -
      obtain j where "4 \<le> j" "capacity ix = 2 ^ j" using ix by (auto simp: index_ok_def)
      then show ?thesis using power_increasing [of 4 j "2 :: nat"] by simp
    qed
    ultimately have room: "Suc (occupied ix) < capacity ix" by linarith
    have ix1: "index_ok (ks @ [k]) (live ks) ix"
      using ix by (rule index_ok_cong) (auto simp: live_def nth_append)
    have "length ks < length (ks @ [k])" "length (ks @ [k]) \<le> 2 ^ 28" "hash = keyedCollectionHash ((ks @ [k]) ! length ks)"
      using new hash by (auto simp: keys_ok_def)
    then obtain ix' where "indexInsert hash (length ks) ix = Some ix'" "index_ok (ks @ [k]) (insert (length ks) (live ks)) ix'"
      using indexInsert_ok [OF ix1 room] by metis
    moreover have "(if hash = 0 then keyedCollectionHash ((ks @ [k]) ! length ks) else hash) = hash" using hash by simp
    ultimately show ?thesis
      using False Some new by (intro that [of "Some ix'"]) (simp_all add: addToHashIndex_def collection_ok_def live_append Let_def)
  qed
qed

lemma collection_ok_delete:
  assumes "collection_ok sm bm ks ixo"
  shows "collection_ok sm bm (ks[i := EmptyValue]) ixo"
proof -
  have ks: "keys_ok sm bm ks" using assms by (simp add: collection_ok_def)
  have flt: "filter (\<lambda>k. k \<noteq> EmptyValue) (ks[i := EmptyValue]) =
      filter (\<lambda>k. k \<noteq> EmptyValue) (take i ks) @ filter (\<lambda>k. k \<noteq> EmptyValue) (drop (Suc i) ks)" if "i < length ks"
    using that by (simp add: upd_conv_take_nth_drop)
  have "distinct (map canonical_key (filter (\<lambda>k. k \<noteq> EmptyValue) (ks[i := EmptyValue])))"
  proof (cases "i < length ks")
    case True
    have "distinct (map canonical_key (filter (\<lambda>k. k \<noteq> EmptyValue) (take i ks @ ks ! i # drop (Suc i) ks)))"
      using ks True by (simp add: keys_ok_def flip: id_take_nth_drop)
    then show ?thesis using flt [OF True] by (auto split: if_splits)
  qed (use ks in \<open>simp add: keys_ok_def list_update_beyond\<close>)
  moreover have "\<forall>v \<in> set (ks[i := EmptyValue]). value_ok sm bm v"
    using ks set_update_subset_insert [of ks i EmptyValue] by (auto simp: keys_ok_def)
  moreover have "index_ok (ks[i := EmptyValue]) (live (ks[i := EmptyValue])) ix" if "index_ok ks (live ks) ix" for ix
    using that by (rule index_ok_cong) (auto simp: live_def nth_list_update nth_update_if split: if_splits)
  ultimately show ?thesis using assms by (simp add: collection_ok_def keys_ok_def)
qed

section \<open>Properties\<close>

text \<open>\<open>keyedCollectionHash\<close> is consistent with SameValueZero: keys the collections hold to be equal have one
  hash, whatever their representation (an \<open>int32\<close> and the equal \<open>double\<close>, the two zeros, any two NaNs, two
  strings with one content).\<close>

theorem keyedCollectionHash_consistent:
  assumes "key_ok sm bm a" "key_ok sm bm b" "sameValueZero a b"
  shows "keyedCollectionHash a = keyedCollectionHash b"
  using hash_canonical [OF assms(1,2)] sameValueZero_canonical [of sm bm a b] assms by (simp add: key_ok_def)

theorem keyedCollectionHash_consistent_witness:
  "keyedCollectionHash (Int32 5) = keyedCollectionHash (Double 0x4014000000000000)"
proof (rule keyedCollectionHash_consistent [of "\<lambda>_. []" "\<lambda>_. 0"])
  have "fastLog2 5 = 2"
    by (subst fastLog2.simps, simp, subst fastLog2.simps, simp, subst fastLog2.simps, simp)
  then have "int32ToDouble 5 = 0x4014000000000000" by (simp add: int32ToDouble_def)
  then show "sameValueZero (Int32 5) (Double 0x4014000000000000)"
    by (simp add: doubleEq_def isnan_def)
qed (simp_all add: key_ok_def)

text \<open>\<open>findKeyIndex\<close> returns on every well-formed collection, building the index on the way when the storage
  has reached the threshold, and finds the position of the live key that is SameValueZero to the one
  searched, \<open>SIZE_MAX\<close> when there is none: probing the index and scanning the storage agree. The index stays
  well formed.\<close>

theorem findKeyIndex_scans:
  assumes "collection_ok sm bm ks m_hashIndex" "key_ok sm bm key"
  shows "\<exists>ixo hash. findKeyIndex ks m_hashIndex key =
      Some (find_index (\<lambda>k. k \<noteq> EmptyValue \<and> sameValueZero k key) ks, ixo, hash) \<and> collection_ok sm bm ks ixo"
proof -
  have "find_index (\<lambda>k. k \<noteq> EmptyValue \<and> sameValueZero k key) ks = keyPosition ks key"
    unfolding keyPosition_def using assms sameValueZero_canonical [of sm bm _ key]
    by (intro find_index_cong) (auto simp: collection_ok_def keys_ok_def key_ok_def)
  with findKeyIndex_ok [OF assms] show ?thesis by metis
qed

theorem findKeyIndex_scans_witness:
  "\<exists>ixo hash. findKeyIndex [Null, EmptyValue, Undefined] None Undefined = Some (Some (Suc (Suc 0)), ixo, hash)"
  using findKeyIndex_scans [of "\<lambda>_. []" "\<lambda>_. 0" "[Null, EmptyValue, Undefined]" None Undefined]
  by (auto simp: collection_ok_def keys_ok_def key_ok_def)

text \<open>adding the key just pushed to the storage to the index returns and keeps the index well formed: the
  table is a power of two of at most \<open>2^29\<close> buckets with an empty one, and every live key is met by
  probing from its hash, whether the bucket was inserted or the index was rebuilt without its stale buckets.\<close>

theorem addToHashIndex_preserves:
  assumes "collection_ok sm bm ks m_hashIndex" "keys_ok sm bm (ks @ [k])" "k \<noteq> EmptyValue"
    and "hash = keyedCollectionHash k"
  shows "\<exists>ixo. addToHashIndex (ks @ [k]) m_hashIndex (length ks) hash = Some ixo \<and> collection_ok sm bm (ks @ [k]) ixo"
  using addToHashIndex_ok [OF assms] by metis

theorem addToHashIndex_preserves_witness:
  "\<exists>ixo. addToHashIndex ([Null] @ [Undefined]) None (length [Null]) (keyedCollectionHash Undefined) = Some ixo \<and>
    collection_ok (\<lambda>_. []) (\<lambda>_. 0) [Null, Undefined] ixo"
  using addToHashIndex_preserves [of "\<lambda>_. []" "\<lambda>_. 0" "[Null]" None Undefined]
  by (simp add: collection_ok_def keys_ok_def)

end
