(* ===== verification/MapSet.thy ===== *)
theory MapSet
  imports KeyedCollection OrderedDictionary
begin

text \<open>
  \<open>Map\<close> and \<open>Set\<close>, \<open>src/runtime/MapObject.cpp\<close> and \<open>SetObject.cpp\<close>: the storage vectors with their
  tombstones, every operation, and the iterators. Both keep the contract of the locale \<open>keyed_set\<close>, from
  which follows that any sequence of operations answers as an insertion-ordered set of keys would.
\<close>

section \<open>\<open>MapObject\<close>\<close>

record MapObject =
  m_storage :: "(Value \<times> Value) list"
  m_hashIndex :: "KeyedCollectionHashIndex option"

definition map_new :: MapObject where
  "map_new = \<lparr>m_storage = [], m_hashIndex = None\<rparr>"

definition map_clear :: "MapObject \<Rightarrow> MapObject" where
  "map_clear m = m\<lparr>m_storage := map (\<lambda>_. (EmptyValue, EmptyValue)) (m_storage m), m_hashIndex := None\<rparr>"

definition map_findKeyIndex :: "MapObject \<Rightarrow> Value \<Rightarrow> (nat option \<times> MapObject \<times> u64) option" where
  "map_findKeyIndex m key =
     (case findKeyIndex (map fst (m_storage m)) (m_hashIndex m) key of
        None \<Rightarrow> None
      | Some (r, ix, hash) \<Rightarrow> Some (r, m\<lparr>m_hashIndex := ix\<rparr>, hash))"

definition map_addToHashIndex :: "MapObject \<Rightarrow> nat \<Rightarrow> u64 \<Rightarrow> MapObject option" where
  "map_addToHashIndex m storageIndex hash =
     map_option (\<lambda>ix. m\<lparr>m_hashIndex := ix\<rparr>)
       (addToHashIndex (map fst (m_storage m)) (m_hashIndex m) storageIndex hash)"

definition map_size :: "MapObject \<Rightarrow> nat" where
  "map_size m = length (filter (\<lambda>e. fst e \<noteq> EmptyValue) (m_storage m))"

definition map_deleteOperation :: "MapObject \<Rightarrow> Value \<Rightarrow> (bool \<times> MapObject) option" where
  "map_deleteOperation m key =
     (case map_findKeyIndex m key of
        None \<Rightarrow> None
      | Some (None, m', _) \<Rightarrow> Some (False, m')
      | Some (Some i, m', _) \<Rightarrow> Some (True, m'\<lparr>m_storage := (m_storage m')[i := (EmptyValue, EmptyValue)]\<rparr>))"

definition map_get :: "MapObject \<Rightarrow> Value \<Rightarrow> (Value \<times> MapObject) option" where
  "map_get m key =
     (case map_findKeyIndex m key of
        None \<Rightarrow> None
      | Some (None, m', _) \<Rightarrow> Some (Undefined, m')
      | Some (Some i, m', _) \<Rightarrow> Some (snd (m_storage m' ! i), m'))"

definition map_has :: "MapObject \<Rightarrow> Value \<Rightarrow> (bool \<times> MapObject) option" where
  "map_has m key = map_option (\<lambda>(r, m', _). (r \<noteq> None, m')) (map_findKeyIndex m key)"

definition map_pushBack :: "MapObject \<Rightarrow> Value \<Rightarrow> Value \<Rightarrow> u64 \<Rightarrow> MapObject option" where
  "map_pushBack m key value hash =
     (let m' = m\<lparr>m_storage := m_storage m @ [(key, value)]\<rparr>
      in map_addToHashIndex m' (length (m_storage m') - 1) hash)"

definition map_set :: "MapObject \<Rightarrow> Value \<Rightarrow> Value \<Rightarrow> MapObject option" where
  "map_set m key value =
     (case map_findKeyIndex m key of
        None \<Rightarrow> None
      | Some (Some i, m', _) \<Rightarrow> Some (m'\<lparr>m_storage := (m_storage m')[i := (fst (m_storage m' ! i), value)]\<rparr>)
      | Some (None, m', hash) \<Rightarrow> map_pushBack m' (canonicalizeKeyedCollectionKey key) value hash)"

definition map_getOrInsert :: "MapObject \<Rightarrow> Value \<Rightarrow> Value \<Rightarrow> (Value \<times> MapObject) option" where
  "map_getOrInsert m key0 value =
     (let key = canonicalizeKeyedCollectionKey key0
      in case map_findKeyIndex m key of
        None \<Rightarrow> None
      | Some (Some i, m', _) \<Rightarrow> Some (snd (m_storage m' ! i), m')
      | Some (None, m', hash) \<Rightarrow> map_option (\<lambda>m''. (value, m'')) (map_pushBack m' key value hash))"

text \<open>
  The callback is an argument: it gets the key and the map, which it may change, and returns (\<open>Inr\<close>) or
  throws (\<open>Inl\<close>) a value, with the map as it leaves it; it is absent when the argument is not callable.
\<close>

datatype collection_error = NotCallable | Thrown Value

definition map_getOrInsertComputed ::
  "MapObject \<Rightarrow> Value \<Rightarrow> (Value \<Rightarrow> MapObject \<Rightarrow> (Value + Value) \<times> MapObject) option
    \<Rightarrow> ((collection_error + Value) \<times> MapObject) option" where
  "map_getOrInsertComputed m key0 callback =
     (case callback of
        None \<Rightarrow> Some (Inl NotCallable, m)
      | Some call \<Rightarrow>
          (let key = canonicalizeKeyedCollectionKey key0
           in case map_findKeyIndex m key of
             None \<Rightarrow> None
           | Some (Some i, m', _) \<Rightarrow> Some (Inr (snd (m_storage m' ! i)), m')
           | Some (None, m', _) \<Rightarrow>
               (case call key m' of
                  (Inl exc, m2) \<Rightarrow> Some (Inl (Thrown exc), m2)
                | (Inr value, m2) \<Rightarrow>
                    (case map_findKeyIndex m2 key of
                       None \<Rightarrow> None
                     | Some (Some i, m3, _) \<Rightarrow>
                         Some (Inr value, m3\<lparr>m_storage := (m_storage m3)[i := (fst (m_storage m3 ! i), value)]\<rparr>)
                     | Some (None, m3, newHash) \<Rightarrow>
                         map_option (\<lambda>m4. (Inr value, m4)) (map_pushBack m3 key value newHash)))))"

section \<open>\<open>SetObject\<close>\<close>

record SetObject =
  s_storage :: "Value list"
  s_hashIndex :: "KeyedCollectionHashIndex option"

definition set_new :: SetObject where
  "set_new = \<lparr>s_storage = [], s_hashIndex = None\<rparr>"

definition set_clear :: "SetObject \<Rightarrow> SetObject" where
  "set_clear s = s\<lparr>s_storage := map (\<lambda>_. EmptyValue) (s_storage s), s_hashIndex := None\<rparr>"

definition set_findKeyIndex :: "SetObject \<Rightarrow> Value \<Rightarrow> (nat option \<times> SetObject \<times> u64) option" where
  "set_findKeyIndex s key =
     (case findKeyIndex (s_storage s) (s_hashIndex s) key of
        None \<Rightarrow> None
      | Some (r, ix, hash) \<Rightarrow> Some (r, s\<lparr>s_hashIndex := ix\<rparr>, hash))"

definition set_addToHashIndex :: "SetObject \<Rightarrow> nat \<Rightarrow> u64 \<Rightarrow> SetObject option" where
  "set_addToHashIndex s storageIndex hash =
     map_option (\<lambda>ix. s\<lparr>s_hashIndex := ix\<rparr>) (addToHashIndex (s_storage s) (s_hashIndex s) storageIndex hash)"

definition set_deleteOperation :: "SetObject \<Rightarrow> Value \<Rightarrow> (bool \<times> SetObject) option" where
  "set_deleteOperation s key =
     (case set_findKeyIndex s key of
        None \<Rightarrow> None
      | Some (None, s', _) \<Rightarrow> Some (False, s')
      | Some (Some i, s', _) \<Rightarrow> Some (True, s'\<lparr>s_storage := (s_storage s')[i := EmptyValue]\<rparr>))"

definition set_add :: "SetObject \<Rightarrow> Value \<Rightarrow> SetObject option" where
  "set_add s key =
     (case set_findKeyIndex s key of
        None \<Rightarrow> None
      | Some (Some i, s', _) \<Rightarrow> Some s'
      | Some (None, s', hash) \<Rightarrow>
          (let s'' = s'\<lparr>s_storage := s_storage s' @ [canonicalizeKeyedCollectionKey key]\<rparr>
           in set_addToHashIndex s'' (length (s_storage s'') - 1) hash))"

definition set_has :: "SetObject \<Rightarrow> Value \<Rightarrow> (bool \<times> SetObject) option" where
  "set_has s key = map_option (\<lambda>(r, s', _). (r \<noteq> None, s')) (set_findKeyIndex s key)"

definition set_size :: "SetObject \<Rightarrow> nat" where
  "set_size s = length (filter (\<lambda>k. k \<noteq> EmptyValue) (s_storage s))"

definition createDenseArrayCopy :: "SetObject \<Rightarrow> Value list" where
  "createDenseArrayCopy src = filter (\<lambda>k. k \<noteq> EmptyValue) (s_storage src)"

section \<open>Iterators\<close>

datatype IteratorType = TypeKey | TypeValue | TypeKeyValue

text \<open>What an iterator yields: one value, or the array of a key and a value.\<close>

datatype item = SingleItem Value | PairItem Value Value

record MapIteratorObject =
  m_map :: bool
  m_iteratorIndex :: nat
  m_type :: IteratorType

definition mapItem :: "IteratorType \<Rightarrow> Value \<times> Value \<Rightarrow> item" where
  "mapItem itemKind e =
     (case itemKind of TypeKey \<Rightarrow> SingleItem (fst e) | TypeValue \<Rightarrow> SingleItem (snd e) | TypeKeyValue \<Rightarrow> PairItem (fst e) (snd e))"

text \<open>\<open>keys\<close>, \<open>values\<close> and \<open>entries\<close>: a fresh iterator of the kind.\<close>

definition map_iterator :: "IteratorType \<Rightarrow> MapIteratorObject" where
  "map_iterator kind = \<lparr>m_map = True, m_iteratorIndex = 0, m_type = kind\<rparr>"

definition map_keys :: MapIteratorObject where "map_keys = map_iterator TypeKey"
definition map_values :: MapIteratorObject where "map_values = map_iterator TypeValue"
definition map_entries :: MapIteratorObject where "map_entries = map_iterator TypeKeyValue"

function mapAdvanceLoop :: "(Value \<times> Value) list \<Rightarrow> nat \<Rightarrow> ((Value \<times> Value) option) \<times> nat" where
  "mapAdvanceLoop storage index =
     (if index < length storage
      then if fst (storage ! index) = EmptyValue then mapAdvanceLoop storage (index + 1)
           else (Some (storage ! index), index + 1)
      else (None, index))"
  by pat_completeness auto
termination mapAdvanceLoop
  by (relation "measure (\<lambda>(storage, index). length storage - index)") auto

text \<open>\<open>m_map\<close> stands for the pointer being set; \<open>None\<close> is the pair \<open>(undefined, true)\<close>.\<close>

definition mapAdvance :: "(Value \<times> Value) list \<Rightarrow> MapIteratorObject \<Rightarrow> item option \<times> MapIteratorObject" where
  "mapAdvance storage it =
     (if \<not> m_map it then (None, it)
      else case mapAdvanceLoop storage (m_iteratorIndex it) of
        (Some e, index) \<Rightarrow> (Some (mapItem (m_type it) e), it\<lparr>m_iteratorIndex := index\<rparr>)
      | (None, index) \<Rightarrow> (None, it\<lparr>m_iteratorIndex := index, m_map := False\<rparr>))"

record SetIteratorObject =
  m_set :: bool
  s_iteratorIndex :: nat
  s_type :: IteratorType

text \<open>\<open>keys\<close> makes an iterator of the kind \<open>TypeValue\<close>, as \<open>values\<close> does.\<close>

definition set_iterator :: "IteratorType \<Rightarrow> SetIteratorObject" where
  "set_iterator kind = \<lparr>m_set = True, s_iteratorIndex = 0, s_type = kind\<rparr>"

definition set_keys :: SetIteratorObject where "set_keys = set_iterator TypeValue"
definition set_values :: SetIteratorObject where "set_values = set_iterator TypeValue"
definition set_entries :: SetIteratorObject where "set_entries = set_iterator TypeKeyValue"

definition setItem :: "IteratorType \<Rightarrow> Value \<Rightarrow> item" where
  "setItem itemKind e = (case itemKind of TypeKeyValue \<Rightarrow> PairItem e e | _ \<Rightarrow> SingleItem e)"

function setAdvanceLoop :: "Value list \<Rightarrow> nat \<Rightarrow> (Value option) \<times> nat" where
  "setAdvanceLoop storage index =
     (if index < length storage
      then if storage ! index = EmptyValue then setAdvanceLoop storage (index + 1)
           else (Some (storage ! index), index + 1)
      else (None, index))"
  by pat_completeness auto
termination setAdvanceLoop
  by (relation "measure (\<lambda>(storage, index). length storage - index)") auto

definition setAdvance :: "Value list \<Rightarrow> SetIteratorObject \<Rightarrow> item option \<times> SetIteratorObject" where
  "setAdvance storage it =
     (if \<not> m_set it then (None, it)
      else case setAdvanceLoop storage (s_iteratorIndex it) of
        (Some e, index) \<Rightarrow> (Some (setItem (s_type it) e), it\<lparr>s_iteratorIndex := index\<rparr>)
      | (None, index) \<Rightarrow> (None, it\<lparr>s_iteratorIndex := index, m_set := False\<rparr>))"

declare mapAdvanceLoop.simps [simp del] setAdvanceLoop.simps [simp del]

section \<open>The contract of a keyed collection\<close>

datatype set_op = OpHas Value | OpAdd Value | OpDelete Value | OpClear

fun set_op_key_ok :: "(Value \<Rightarrow> bool) \<Rightarrow> set_op \<Rightarrow> bool" where
  "set_op_key_ok ok (OpHas k) = ok k"
| "set_op_key_ok ok (OpAdd k) = ok k"
| "set_op_key_ok ok (OpDelete k) = ok k"
| "set_op_key_ok ok OpClear = True"

text \<open>The specification: an insertion-ordered list of distinct keys, and the answer of each operation.\<close>

fun spec_set_op :: "set_op \<Rightarrow> canonical list \<Rightarrow> bool \<times> canonical list" where
  "spec_set_op (OpHas k) xs = (canonical_key k \<in> set xs, xs)"
| "spec_set_op (OpAdd k) xs = (True, if canonical_key k \<in> set xs then xs else xs @ [canonical_key k])"
| "spec_set_op (OpDelete k) xs = (canonical_key k \<in> set xs, filter (\<lambda>c. c \<noteq> canonical_key k) xs)"
| "spec_set_op OpClear xs = (True, [])"

fun spec_set_run :: "set_op list \<Rightarrow> canonical list \<Rightarrow> bool list \<times> canonical list" where
  "spec_set_run [] xs = ([], xs)"
| "spec_set_run (op # ops) xs =
     (let (r, xs') = spec_set_op op xs; (rs, xs'') = spec_set_run ops xs' in (r # rs, xs''))"

locale keyed_set =
  fixes inv :: "'s \<Rightarrow> bool"
    and slots :: "'s \<Rightarrow> nat"
    and elems :: "'s \<Rightarrow> canonical list"
    and ok :: "Value \<Rightarrow> bool"
    and limit :: nat
    and has :: "'s \<Rightarrow> Value \<Rightarrow> (bool \<times> 's) option"
    and add :: "'s \<Rightarrow> Value \<Rightarrow> 's option"
    and del :: "'s \<Rightarrow> Value \<Rightarrow> (bool \<times> 's) option"
    and clear :: "'s \<Rightarrow> 's"
  assumes has_law: "inv s \<Longrightarrow> ok k \<Longrightarrow>
      \<exists>s'. has s k = Some (canonical_key k \<in> set (elems s), s') \<and> inv s' \<and> elems s' = elems s \<and> slots s' = slots s"
    and add_law: "inv s \<Longrightarrow> ok k \<Longrightarrow> slots s < limit \<Longrightarrow>
      \<exists>s'. add s k = Some s' \<and> inv s' \<and> slots s' \<le> Suc (slots s) \<and>
        elems s' = (if canonical_key k \<in> set (elems s) then elems s else elems s @ [canonical_key k])"
    and del_law: "inv s \<Longrightarrow> ok k \<Longrightarrow>
      \<exists>s'. del s k = Some (canonical_key k \<in> set (elems s), s') \<and> inv s' \<and> slots s' = slots s \<and>
        elems s' = filter (\<lambda>c. c \<noteq> canonical_key k) (elems s)"
    and clear_law: "inv s \<Longrightarrow> inv (clear s) \<and> elems (clear s) = [] \<and> slots (clear s) = slots s"
begin

fun step :: "set_op \<Rightarrow> 's \<Rightarrow> (bool \<times> 's) option" where
  "step (OpHas k) s = has s k"
| "step (OpAdd k) s = map_option (\<lambda>s'. (True, s')) (add s k)"
| "step (OpDelete k) s = del s k"
| "step OpClear s = Some (True, clear s)"

fun run :: "set_op list \<Rightarrow> 's \<Rightarrow> (bool list \<times> 's) option" where
  "run [] s = Some ([], s)"
| "run (op # ops) s =
     (case step op s of
        None \<Rightarrow> None
      | Some (r, s') \<Rightarrow> (case run ops s' of None \<Rightarrow> None | Some (rs, s'') \<Rightarrow> Some (r # rs, s'')))"

lemma step_refines:
  assumes "inv s" "set_op_key_ok ok op" "slots s < limit"
  shows "\<exists>s'. step op s = Some (fst (spec_set_op op (elems s)), s') \<and> inv s' \<and> slots s' \<le> Suc (slots s) \<and>
    elems s' = snd (spec_set_op op (elems s))"
  using assms
proof (cases op)
  case (OpHas k)
  with assms has_law [of s k] show ?thesis by auto
next
  case (OpAdd k)
  with assms add_law [of s k] show ?thesis by auto
next
  case (OpDelete k)
  with assms del_law [of s k] show ?thesis by auto
next
  case OpClear
  with assms clear_law [of s] show ?thesis by auto
qed

lemma run_refines:
  assumes "inv s" "\<forall>op \<in> set ops. set_op_key_ok ok op" "slots s + length ops \<le> limit"
  shows "\<exists>s'. run ops s = Some (fst (spec_set_run ops (elems s)), s') \<and> inv s' \<and>
    elems s' = snd (spec_set_run ops (elems s))"
  using assms
proof (induction ops arbitrary: s)
  case (Cons op ops)
  obtain s' where s': "step op s = Some (fst (spec_set_op op (elems s)), s')" "inv s'" "slots s' \<le> Suc (slots s)"
    "elems s' = snd (spec_set_op op (elems s))"
    using step_refines [of s op] Cons.prems by auto
  obtain s'' where "run ops s' = Some (fst (spec_set_run ops (elems s')), s'')" "inv s''"
    "elems s'' = snd (spec_set_run ops (elems s'))"
    using Cons.IH [of s'] Cons.prems s' by auto
  with s' show ?case by (auto simp: case_prod_beta Let_def)
qed simp

end

section \<open>Keys and entries\<close>

definition elems_of :: "Value list \<Rightarrow> canonical list" where
  "elems_of ks = map canonical_key (filter (\<lambda>k. k \<noteq> EmptyValue) ks)"

lemma keyPosition_None: "keyPosition ks key = None \<longleftrightarrow> canonical_key key \<notin> set (elems_of ks)"
  by (induction ks) (auto simp: keyPosition_def elems_of_def)

lemma elems_of_append: "k \<noteq> EmptyValue \<Longrightarrow> elems_of (ks @ [k]) = elems_of ks @ [canonical_key k]"
  by (simp add: elems_of_def)

lemma elems_of_delete:
  assumes "distinct (elems_of ks)" "keyPosition ks key = Some i"
  shows "elems_of (ks[i := EmptyValue]) = filter (\<lambda>c. c \<noteq> canonical_key key) (elems_of ks)"
  using assms
proof (induction ks arbitrary: i)
  case (Cons k ks)
  show ?case
  proof (cases "k \<noteq> EmptyValue \<and> canonical_key k = canonical_key key")
    case True
    with Cons.prems have i: "i = 0" and "canonical_key key \<notin> set (elems_of ks)"
      by (auto simp: keyPosition_def elems_of_def)
    then have "filter (\<lambda>c. c \<noteq> canonical_key key) (elems_of ks) = elems_of ks" by (auto simp: filter_id_conv)
    with i True show ?thesis by (simp add: elems_of_def)
  next
    case False
    with Cons.prems(2) obtain j where j: "keyPosition ks key = Some j" "i = Suc j"
      by (auto simp: keyPosition_def split: if_splits)
    have "distinct (elems_of ks)" using Cons.prems(1) by (auto simp: elems_of_def split: if_splits)
    from Cons.IH [OF this j(1)] j False show ?thesis by (auto simp: elems_of_def)
  qed
qed (simp add: keyPosition_def)

lemma keys_ok_append:
  assumes "keys_ok sm bm ks" "key_ok sm bm k" "canonical_key k \<notin> set (elems_of ks)" "length ks < 2 ^ 28"
  shows "keys_ok sm bm (ks @ [k])"
  using assms by (auto simp: keys_ok_def key_ok_def elems_of_def)

lemma keys_ok_distinct: "keys_ok sm bm ks \<Longrightarrow> distinct (elems_of ks)"
  by (simp add: keys_ok_def elems_of_def)

lemma canonicalize_ok:
  assumes "key_ok sm bm key"
  shows "key_ok sm bm (canonicalizeKeyedCollectionKey key)"
    and "canonical_key (canonicalizeKeyedCollectionKey key) = canonical_key key"
proof -
  have "iszero d \<Longrightarrow> \<not> isnan d" for d by (simp add: iszero_def isnan_def)
  then show "key_ok sm bm (canonicalizeKeyedCollectionKey key)"
    "canonical_key (canonicalizeKeyedCollectionKey key) = canonical_key key"
    using assms by (cases key; auto simp: canonicalizeKeyedCollectionKey_def key_ok_def canonical_number_def)+
qed

lemma canonicalize_hash:
  assumes "key_ok sm bm key"
  shows "keyedCollectionHash (canonicalizeKeyedCollectionKey key) = keyedCollectionHash key"
  using hash_canonical [OF canonicalize_ok(1) [OF assms] assms canonicalize_ok(2) [OF assms]] .

lemma collection_ok_clear: "collection_ok sm bm ks ixo \<Longrightarrow> collection_ok sm bm (map (\<lambda>_. EmptyValue) ks) None"
proof -
  have "filter (\<lambda>k. k \<noteq> EmptyValue) (map (\<lambda>_. EmptyValue) ks) = []" by (simp add: filter_empty_conv)
  then show "collection_ok sm bm ks ixo \<Longrightarrow> collection_ok sm bm (map (\<lambda>_. EmptyValue) ks) None"
    by (simp add: collection_ok_def keys_ok_def)
qed

lemma elems_of_clear [simp]: "elems_of (map (\<lambda>_. EmptyValue) ks) = []"
  by (simp add: elems_of_def)

section \<open>\<open>SetObject\<close> keeps the contract\<close>

definition set_inv :: "(addr \<Rightarrow> ustring) \<Rightarrow> (addr \<Rightarrow> int) \<Rightarrow> SetObject \<Rightarrow> bool" where
  "set_inv sm bm s \<longleftrightarrow> collection_ok sm bm (s_storage s) (s_hashIndex s)"

lemma set_findKeyIndex_ok:
  assumes "set_inv sm bm s" "key_ok sm bm key"
  obtains s' hash where "set_findKeyIndex s key = Some (keyPosition (s_storage s) key, s', hash)"
    "set_inv sm bm s'" "s_storage s' = s_storage s"
    "keyPosition (s_storage s) key = None \<Longrightarrow> hash = keyedCollectionHash key"
proof -
  obtain ixo hash where "findKeyIndex (s_storage s) (s_hashIndex s) key = Some (keyPosition (s_storage s) key, ixo, hash)"
    "collection_ok sm bm (s_storage s) ixo" "keyPosition (s_storage s) key = None \<Longrightarrow> hash = keyedCollectionHash key"
    using findKeyIndex_ok [OF assms(1) [unfolded set_inv_def] assms(2)] by metis
  then show ?thesis
    by (intro that [of "s\<lparr>s_hashIndex := ixo\<rparr>" hash]) (auto simp: set_findKeyIndex_def set_inv_def)
qed

lemma set_add_ok:
  assumes inv: "set_inv sm bm s" and key: "key_ok sm bm key" and room: "length (s_storage s) < 2 ^ 28"
  shows "\<exists>s'. set_add s key = Some s' \<and> set_inv sm bm s' \<and> length (s_storage s') \<le> Suc (length (s_storage s)) \<and>
    elems_of (s_storage s') = (if canonical_key key \<in> set (elems_of (s_storage s)) then elems_of (s_storage s)
      else elems_of (s_storage s) @ [canonical_key key])"
proof -
  obtain s' hash where f: "set_findKeyIndex s key = Some (keyPosition (s_storage s) key, s', hash)"
    "set_inv sm bm s'" "s_storage s' = s_storage s" "keyPosition (s_storage s) key = None \<Longrightarrow> hash = keyedCollectionHash key"
    using set_findKeyIndex_ok [OF inv key] by metis
  show ?thesis
  proof (cases "keyPosition (s_storage s) key")
    case None
    let ?k = "canonicalizeKeyedCollectionKey key"
    have absent: "canonical_key key \<notin> set (elems_of (s_storage s))" using None keyPosition_None by blast
    note k = canonicalize_ok [OF key]
    have ks: "keys_ok sm bm (s_storage s' @ [?k])"
      using inv f(3) k absent room by (intro keys_ok_append) (auto simp: set_inv_def collection_ok_def)
    have "?k \<noteq> EmptyValue" using k(1) by (simp add: key_ok_def)
    moreover have "hash = keyedCollectionHash ?k" using f(4) [OF None] canonicalize_hash [OF key] by simp
    ultimately obtain ixo' where "addToHashIndex (s_storage s' @ [?k]) (s_hashIndex s') (length (s_storage s')) hash = Some ixo'"
      "collection_ok sm bm (s_storage s' @ [?k]) ixo'"
      using addToHashIndex_ok [OF f(2) [unfolded set_inv_def] ks] by metis
    then show ?thesis
      using f(1,3) None absent k \<open>?k \<noteq> EmptyValue\<close>
      by (auto simp: set_add_def set_addToHashIndex_def set_inv_def elems_of_append Let_def)
  next
    case (Some i)
    then have "canonical_key key \<in> set (elems_of (s_storage s))" using keyPosition_None [of "s_storage s" key] by auto
    with f Some show ?thesis by (simp add: set_add_def)
  qed
qed

lemma set_delete_ok:
  assumes inv: "set_inv sm bm s" and key: "key_ok sm bm key"
  shows "\<exists>s'. set_deleteOperation s key = Some (canonical_key key \<in> set (elems_of (s_storage s)), s') \<and> set_inv sm bm s' \<and>
    length (s_storage s') = length (s_storage s) \<and>
    elems_of (s_storage s') = filter (\<lambda>c. c \<noteq> canonical_key key) (elems_of (s_storage s))"
proof -
  obtain s' hash where f: "set_findKeyIndex s key = Some (keyPosition (s_storage s) key, s', hash)"
    "set_inv sm bm s'" "s_storage s' = s_storage s"
    using set_findKeyIndex_ok [OF inv key] by metis
  show ?thesis
  proof (cases "keyPosition (s_storage s) key")
    case None
    then have "canonical_key key \<notin> set (elems_of (s_storage s))" using keyPosition_None by blast
    moreover from this have "filter (\<lambda>c. c \<noteq> canonical_key key) (elems_of (s_storage s)) = elems_of (s_storage s)"
      by (auto simp: filter_id_conv)
    ultimately show ?thesis using f None by (simp add: set_deleteOperation_def)
  next
    case (Some i)
    have "canonical_key key \<in> set (elems_of (s_storage s))" using Some keyPosition_None [of "s_storage s" key] by auto
    moreover have "distinct (elems_of (s_storage s))" using inv by (auto simp: set_inv_def collection_ok_def intro: keys_ok_distinct)
    ultimately show ?thesis
      using f Some elems_of_delete [of "s_storage s" key i] collection_ok_delete [of sm bm "s_storage s'" "s_hashIndex s'" i]
      by (simp add: set_deleteOperation_def set_inv_def)
  qed
qed

interpretation js_set: keyed_set "set_inv sm bm" "\<lambda>s. length (s_storage s)" "\<lambda>s. elems_of (s_storage s)"
  "key_ok sm bm" "2 ^ 28" set_has set_add set_deleteOperation set_clear for sm bm
proof
  fix s k
  assume inv: "set_inv sm bm s" and k: "key_ok sm bm k"
  obtain s' hash where f: "set_findKeyIndex s k = Some (keyPosition (s_storage s) k, s', hash)"
    "set_inv sm bm s'" "s_storage s' = s_storage s" using set_findKeyIndex_ok [OF inv k] by metis
  moreover have "keyPosition (s_storage s) k \<noteq> None \<longleftrightarrow> canonical_key k \<in> set (elems_of (s_storage s))"
    by (simp add: keyPosition_None)
  ultimately show "\<exists>s'. set_has s k = Some (canonical_key k \<in> set (elems_of (s_storage s)), s') \<and> set_inv sm bm s' \<and>
      elems_of (s_storage s') = elems_of (s_storage s) \<and> length (s_storage s') = length (s_storage s)"
    by (simp add: set_has_def)
next
  fix s k
  assume "set_inv sm bm s" "key_ok sm bm k" "length (s_storage s) < 2 ^ 28"
  then show "\<exists>s'. set_add s k = Some s' \<and> set_inv sm bm s' \<and> length (s_storage s') \<le> Suc (length (s_storage s)) \<and>
    elems_of (s_storage s') = (if canonical_key k \<in> set (elems_of (s_storage s)) then elems_of (s_storage s)
      else elems_of (s_storage s) @ [canonical_key k])" by (rule set_add_ok)
next
  fix s k
  assume "set_inv sm bm s" "key_ok sm bm k"
  then show "\<exists>s'. set_deleteOperation s k = Some (canonical_key k \<in> set (elems_of (s_storage s)), s') \<and> set_inv sm bm s' \<and>
    length (s_storage s') = length (s_storage s) \<and>
    elems_of (s_storage s') = filter (\<lambda>c. c \<noteq> canonical_key k) (elems_of (s_storage s))" by (rule set_delete_ok)
next
  fix s
  assume "set_inv sm bm s"
  then show "set_inv sm bm (set_clear s) \<and> elems_of (s_storage (set_clear s)) = [] \<and>
      length (s_storage (set_clear s)) = length (s_storage s)"
    using collection_ok_clear [of sm bm "s_storage s" "s_hashIndex s"] by (simp add: set_inv_def set_clear_def)
qed

section \<open>\<open>MapObject\<close> keeps the contract\<close>

definition map_inv :: "(addr \<Rightarrow> ustring) \<Rightarrow> (addr \<Rightarrow> int) \<Rightarrow> MapObject \<Rightarrow> bool" where
  "map_inv sm bm m \<longleftrightarrow> collection_ok sm bm (map fst (m_storage m)) (m_hashIndex m)"

text \<open>The abstract value of a map: the live entries in insertion order, keys canonical.\<close>

definition entries_of :: "(Value \<times> Value) list \<Rightarrow> (canonical \<times> Value) list" where
  "entries_of st = map (\<lambda>e. (canonical_key (fst e), snd e)) (filter (\<lambda>e. fst e \<noteq> EmptyValue) st)"

lemma map_fst_entries: "map fst (entries_of st) = elems_of (map fst st)"
  by (simp add: entries_of_def elems_of_def filter_map comp_def)

lemma find_index_entries:
  assumes "keyPosition (map fst st) key = Some i"
  shows "i < length st" "fst (st ! i) \<noteq> EmptyValue" "canonical_key (fst (st ! i)) = canonical_key key"
    "map_of (entries_of st) (canonical_key key) = Some (snd (st ! i))"
proof -
  show i: "i < length st" "fst (st ! i) \<noteq> EmptyValue" "canonical_key (fst (st ! i)) = canonical_key key"
    using find_index_SomeD [OF assms [unfolded keyPosition_def]] by auto
  show "map_of (entries_of st) (canonical_key key) = Some (snd (st ! i))"
    using assms
  proof (induction st arbitrary: i)
    case (Cons e st)
    then show ?case
      by (auto simp: keyPosition_def entries_of_def split: if_splits)
  qed (simp add: keyPosition_def)
qed

lemma entries_of_update:
  assumes "keyPosition (map fst st) key = Some i"
  shows "entries_of (st[i := (fst (st ! i), v)]) = spec_put (entries_of st) (canonical_key key) v"
  using assms
proof (induction st arbitrary: i)
  case (Cons e st)
  then show ?case
    by (auto simp: keyPosition_def entries_of_def spec_put_Cons split: if_splits)
qed (simp add: keyPosition_def)

lemma entries_of_append:
  assumes "keyPosition (map fst st) key = None" "canonical_key k = canonical_key key" "k \<noteq> EmptyValue"
  shows "entries_of (st @ [(k, v)]) = spec_put (entries_of st) (canonical_key key) v"
proof -
  have "find_index (\<lambda>p. fst p = canonical_key key) (entries_of st) = None"
    using assms(1) by (simp add: find_index_fst find_index_None map_fst_entries keyPosition_None del: set_map)
      blast
  then show ?thesis using assms(2,3) by (simp add: spec_put_def entries_of_def)
qed

lemma entries_of_delete:
  assumes "distinct (elems_of (map fst st))" "keyPosition (map fst st) key = Some i"
  shows "entries_of (st[i := (EmptyValue, EmptyValue)]) = spec_del (entries_of st) (canonical_key key)"
  using assms
proof (induction st arbitrary: i)
  case (Cons e st)
  show ?case
  proof (cases "fst e \<noteq> EmptyValue \<and> canonical_key (fst e) = canonical_key key")
    case True
    with Cons.prems have i: "i = 0" and "canonical_key key \<notin> set (map fst (entries_of st))"
      by (auto simp: keyPosition_def elems_of_def map_fst_entries)
    then have "spec_del (entries_of st) (canonical_key key) = entries_of st"
      by (intro spec_del_absent) (auto simp: find_index_fst find_index_None simp del: set_map)
    with i True show ?thesis by (simp add: entries_of_def spec_del_def)
  next
    case False
    with Cons.prems(2) obtain j where j: "keyPosition (map fst st) key = Some j" "i = Suc j"
      by (auto simp: keyPosition_def split: if_splits)
    have "distinct (elems_of (map fst st))" using Cons.prems(1) by (auto simp: elems_of_def split: if_splits)
    from Cons.IH [OF this j(1)] j False show ?thesis by (auto simp: entries_of_def spec_del_def)
  qed
qed (simp add: keyPosition_def)

lemma map_findKeyIndex_ok:
  assumes "map_inv sm bm m" "key_ok sm bm key"
  obtains m' hash where "map_findKeyIndex m key = Some (keyPosition (map fst (m_storage m)) key, m', hash)"
    "map_inv sm bm m'" "m_storage m' = m_storage m"
    "keyPosition (map fst (m_storage m)) key = None \<Longrightarrow> hash = keyedCollectionHash key"
proof -
  obtain ixo hash where "findKeyIndex (map fst (m_storage m)) (m_hashIndex m) key = Some (keyPosition (map fst (m_storage m)) key, ixo, hash)"
    "collection_ok sm bm (map fst (m_storage m)) ixo"
    "keyPosition (map fst (m_storage m)) key = None \<Longrightarrow> hash = keyedCollectionHash key"
    using findKeyIndex_ok [OF assms(1) [unfolded map_inv_def] assms(2)] by metis
  then show ?thesis
    by (intro that [of "m\<lparr>m_hashIndex := ixo\<rparr>" hash]) (auto simp: map_findKeyIndex_def map_inv_def)
qed

lemma map_pushBack_ok:
  assumes inv: "map_inv sm bm m" and k: "key_ok sm bm k" and new: "keyPosition (map fst (m_storage m)) k = None"
    and room: "length (m_storage m) < 2 ^ 28" and hash: "hash = keyedCollectionHash k"
  shows "\<exists>m'. map_pushBack m k v hash = Some m' \<and> map_inv sm bm m' \<and> m_storage m' = m_storage m @ [(k, v)]"
proof -
  have "canonical_key k \<notin> set (elems_of (map fst (m_storage m)))" using new keyPosition_None by blast
  then have ks: "keys_ok sm bm (map fst (m_storage m) @ [k])"
    using inv k room by (intro keys_ok_append) (auto simp: map_inv_def collection_ok_def)
  have "k \<noteq> EmptyValue" using k by (simp add: key_ok_def)
  then obtain ixo' where "addToHashIndex (map fst (m_storage m) @ [k]) (m_hashIndex m) (length (map fst (m_storage m))) hash = Some ixo'"
    "collection_ok sm bm (map fst (m_storage m) @ [k]) ixo'"
    using addToHashIndex_ok [OF inv [unfolded map_inv_def] ks _ hash] by metis
  then show ?thesis by (simp add: map_pushBack_def map_addToHashIndex_def map_inv_def Let_def)
qed

lemma map_update_inv:
  "map_inv sm bm m \<Longrightarrow> i < length (m_storage m) \<Longrightarrow>
     map_inv sm bm (m\<lparr>m_storage := (m_storage m)[i := (fst (m_storage m ! i), v)]\<rparr>)"
  by (simp add: map_inv_def map_update list_update_same_conv [THEN iffD2])

lemma map_set_ok:
  assumes inv: "map_inv sm bm m" and key: "key_ok sm bm key" and room: "length (m_storage m) < 2 ^ 28"
  shows "\<exists>m'. map_set m key v = Some m' \<and> map_inv sm bm m' \<and> length (m_storage m') \<le> Suc (length (m_storage m)) \<and>
    entries_of (m_storage m') = spec_put (entries_of (m_storage m)) (canonical_key key) v"
proof -
  obtain m' hash where f: "map_findKeyIndex m key = Some (keyPosition (map fst (m_storage m)) key, m', hash)"
    "map_inv sm bm m'" "m_storage m' = m_storage m"
    "keyPosition (map fst (m_storage m)) key = None \<Longrightarrow> hash = keyedCollectionHash key"
    using map_findKeyIndex_ok [OF inv key] by metis
  show ?thesis
  proof (cases "keyPosition (map fst (m_storage m)) key")
    case None
    let ?k = "canonicalizeKeyedCollectionKey key"
    note k = canonicalize_ok [OF key]
    have "keyPosition (map fst (m_storage m')) ?k = None" using None f(3) k(2) by (simp add: keyPosition_def)
    then obtain m'' where "map_pushBack m' ?k v hash = Some m''" "map_inv sm bm m''" "m_storage m'' = m_storage m @ [(?k, v)]"
      using map_pushBack_ok [OF f(2) k(1)] room f canonicalize_hash [OF key] None by (metis (no_types, lifting))
    then show ?thesis
      using f(1,3) None k entries_of_append [OF None, of ?k v] by (simp add: map_set_def key_ok_def)
  next
    case (Some i)
    with f find_index_entries(1) [OF Some] entries_of_update [OF Some, of v] map_update_inv [OF f(2), of i v] show ?thesis
      by (simp add: map_set_def)
  qed
qed

lemma map_delete_ok:
  assumes inv: "map_inv sm bm m" and key: "key_ok sm bm key"
  shows "\<exists>m'. map_deleteOperation m key = Some (canonical_key key \<in> set (elems_of (map fst (m_storage m))), m') \<and>
    map_inv sm bm m' \<and> length (m_storage m') = length (m_storage m) \<and>
    entries_of (m_storage m') = spec_del (entries_of (m_storage m)) (canonical_key key)"
proof -
  obtain m' hash where f: "map_findKeyIndex m key = Some (keyPosition (map fst (m_storage m)) key, m', hash)"
    "map_inv sm bm m'" "m_storage m' = m_storage m"
    using map_findKeyIndex_ok [OF inv key] by metis
  show ?thesis
  proof (cases "keyPosition (map fst (m_storage m)) key")
    case None
    then have "canonical_key key \<notin> set (elems_of (map fst (m_storage m)))" using keyPosition_None by blast
    moreover from this have "spec_del (entries_of (m_storage m)) (canonical_key key) = entries_of (m_storage m)"
      by (intro spec_del_absent) (auto simp: find_index_fst find_index_None map_fst_entries)
    ultimately show ?thesis using f None by (simp add: map_deleteOperation_def)
  next
    case (Some i)
    have "canonical_key key \<in> set (elems_of (map fst (m_storage m)))"
      using Some keyPosition_None [of "map fst (m_storage m)" key] by auto
    moreover have "distinct (elems_of (map fst (m_storage m)))"
      using inv by (auto simp: map_inv_def collection_ok_def intro: keys_ok_distinct)
    ultimately show ?thesis
      using f Some entries_of_delete [of "m_storage m" key i]
        collection_ok_delete [of sm bm "map fst (m_storage m')" "m_hashIndex m'" i]
      by (simp add: map_deleteOperation_def map_inv_def map_update)
  qed
qed

lemma map_get_ok:
  assumes inv: "map_inv sm bm m" and key: "key_ok sm bm key"
  shows "\<exists>m'. map_get m key = Some (case map_of (entries_of (m_storage m)) (canonical_key key) of None \<Rightarrow> Undefined | Some v \<Rightarrow> v, m') \<and>
    map_inv sm bm m' \<and> m_storage m' = m_storage m"
proof -
  obtain m' hash where f: "map_findKeyIndex m key = Some (keyPosition (map fst (m_storage m)) key, m', hash)"
    "map_inv sm bm m'" "m_storage m' = m_storage m"
    using map_findKeyIndex_ok [OF inv key] by metis
  show ?thesis
  proof (cases "keyPosition (map fst (m_storage m)) key")
    case None
    then have "canonical_key key \<notin> set (map fst (entries_of (m_storage m)))"
      using keyPosition_None [of "map fst (m_storage m)" key] by (simp add: map_fst_entries)
    then have "map_of (entries_of (m_storage m)) (canonical_key key) = None" by (simp add: map_of_eq_None_iff)
    with f None show ?thesis by (simp add: map_get_def)
  next
    case (Some i)
    with f find_index_entries(4) [OF Some] show ?thesis by (simp add: map_get_def)
  qed
qed

lemma map_elems: "elems_of (map fst st) = map fst (entries_of st)"
  by (simp add: map_fst_entries)

lemma map_has_ok:
  assumes "map_inv sm bm m" "key_ok sm bm k"
  shows "\<exists>m'. map_has m k = Some (canonical_key k \<in> set (elems_of (map fst (m_storage m))), m') \<and> map_inv sm bm m' \<and>
    m_storage m' = m_storage m"
proof -
  obtain m' hash where "map_findKeyIndex m k = Some (keyPosition (map fst (m_storage m)) k, m', hash)"
    "map_inv sm bm m'" "m_storage m' = m_storage m" using map_findKeyIndex_ok [OF assms] by metis
  moreover have "keyPosition (map fst (m_storage m)) k \<noteq> None \<longleftrightarrow>
      canonical_key k \<in> set (elems_of (map fst (m_storage m)))"
    by (simp add: keyPosition_None)
  ultimately show ?thesis by (simp add: map_has_def)
qed

lemma map_clear_ok:
  assumes "map_inv sm bm m"
  shows "map_inv sm bm (map_clear m)" "entries_of (m_storage (map_clear m)) = []"
    "length (m_storage (map_clear m)) = length (m_storage m)"
  using assms collection_ok_clear [of sm bm "map fst (m_storage m)" "m_hashIndex m"]
  by (auto simp: map_inv_def map_clear_def entries_of_def comp_def)

lemma spec_put_keys: "map fst (spec_put d k v) = (if k \<in> set (map fst d) then map fst d else map fst d @ [k])"
  by (induction d) (auto simp: spec_put_Cons spec_put_def [of "[]"])

lemma spec_del_keys: "map fst (spec_del d k) = filter (\<lambda>c. c \<noteq> k) (map fst d)"
  by (simp add: spec_del_def filter_map comp_def)

interpretation js_map: keyed_set "map_inv sm bm" "\<lambda>m. length (m_storage m)" "\<lambda>m. elems_of (map fst (m_storage m))"
  "key_ok sm bm" "2 ^ 28" map_has "\<lambda>m k. map_set m k v" map_deleteOperation map_clear for sm bm v
proof
  fix s k
  assume "map_inv sm bm s" "key_ok sm bm k"
  from map_has_ok [OF this] show "\<exists>s'. map_has s k = Some (canonical_key k \<in> set (elems_of (map fst (m_storage s))), s') \<and>
      map_inv sm bm s' \<and> elems_of (map fst (m_storage s')) = elems_of (map fst (m_storage s)) \<and>
      length (m_storage s') = length (m_storage s)" by auto
next
  fix s k
  assume "map_inv sm bm s" "key_ok sm bm k" "length (m_storage s) < 2 ^ 28"
  from map_set_ok [OF this, of v] show "\<exists>s'. map_set s k v = Some s' \<and> map_inv sm bm s' \<and>
      length (m_storage s') \<le> Suc (length (m_storage s)) \<and>
      elems_of (map fst (m_storage s')) = (if canonical_key k \<in> set (elems_of (map fst (m_storage s)))
        then elems_of (map fst (m_storage s)) else elems_of (map fst (m_storage s)) @ [canonical_key k])"
    unfolding map_elems by (auto simp: spec_put_keys simp del: set_map)
next
  fix s k
  assume "map_inv sm bm s" "key_ok sm bm k"
  from map_delete_ok [OF this] show "\<exists>s'. map_deleteOperation s k =
      Some (canonical_key k \<in> set (elems_of (map fst (m_storage s))), s') \<and> map_inv sm bm s' \<and>
      length (m_storage s') = length (m_storage s) \<and>
      elems_of (map fst (m_storage s')) = filter (\<lambda>c. c \<noteq> canonical_key k) (elems_of (map fst (m_storage s)))"
    unfolding map_elems by (auto simp: spec_del_keys simp del: set_map)
next
  fix s
  assume "map_inv sm bm s"
  from map_clear_ok [OF this] show "map_inv sm bm (map_clear s) \<and> elems_of (map fst (m_storage (map_clear s))) = [] \<and>
      length (m_storage (map_clear s)) = length (m_storage s)"
    by (simp add: map_elems)
qed

section \<open>Sequences of operations on a map\<close>

datatype map_op =
  MapGet Value | MapHas Value | MapSize | MapSet Value Value | MapDelete Value | MapClear | MapGetOrInsert Value Value

datatype map_answer = Answer Value | Flag bool | Count nat | Done

fun map_step :: "map_op \<Rightarrow> MapObject \<Rightarrow> (map_answer \<times> MapObject) option" where
  "map_step (MapGet k) m = map_option (apfst Answer) (map_get m k)"
| "map_step (MapHas k) m = map_option (apfst Flag) (map_has m k)"
| "map_step MapSize m = Some (Count (map_size m), m)"
| "map_step (MapSet k v) m = map_option (Pair Done) (map_set m k v)"
| "map_step (MapDelete k) m = map_option (apfst Flag) (map_deleteOperation m k)"
| "map_step MapClear m = Some (Done, map_clear m)"
| "map_step (MapGetOrInsert k v) m = map_option (apfst Answer) (map_getOrInsert m k v)"

fun map_run :: "map_op list \<Rightarrow> MapObject \<Rightarrow> (map_answer list \<times> MapObject) option" where
  "map_run [] m = Some ([], m)"
| "map_run (op # ops) m =
     (case map_step op m of
        None \<Rightarrow> None
      | Some (r, m') \<Rightarrow> (case map_run ops m' of None \<Rightarrow> None | Some (rs, m'') \<Rightarrow> Some (r # rs, m'')))"

text \<open>The specification: an insertion-ordered dictionary from canonical keys to values.\<close>

fun spec_map_op :: "map_op \<Rightarrow> (canonical \<times> Value) list \<Rightarrow> map_answer \<times> (canonical \<times> Value) list" where
  "spec_map_op (MapGet k) d = (Answer (case map_of d (canonical_key k) of None \<Rightarrow> Undefined | Some v \<Rightarrow> v), d)"
| "spec_map_op (MapHas k) d = (Flag (canonical_key k \<in> set (map fst d)), d)"
| "spec_map_op MapSize d = (Count (length d), d)"
| "spec_map_op (MapSet k v) d = (Done, spec_put d (canonical_key k) v)"
| "spec_map_op (MapDelete k) d = (Flag (canonical_key k \<in> set (map fst d)), spec_del d (canonical_key k))"
| "spec_map_op MapClear d = (Done, [])"
| "spec_map_op (MapGetOrInsert k v) d =
     (case map_of d (canonical_key k) of Some w \<Rightarrow> (Answer w, d) | None \<Rightarrow> (Answer v, d @ [(canonical_key k, v)]))"

fun spec_map_run :: "map_op list \<Rightarrow> (canonical \<times> Value) list \<Rightarrow> map_answer list \<times> (canonical \<times> Value) list" where
  "spec_map_run [] d = ([], d)"
| "spec_map_run (op # ops) d =
     (let (r, d') = spec_map_op op d; (rs, d'') = spec_map_run ops d' in (r # rs, d''))"

fun map_op_ok :: "(Value \<Rightarrow> bool) \<Rightarrow> map_op \<Rightarrow> bool" where
  "map_op_ok ok (MapGet k) = ok k"
| "map_op_ok ok (MapHas k) = ok k"
| "map_op_ok ok (MapSet k v) = ok k"
| "map_op_ok ok (MapDelete k) = ok k"
| "map_op_ok ok (MapGetOrInsert k v) = ok k"
| "map_op_ok ok MapSize = True"
| "map_op_ok ok MapClear = True"

lemma entries_lookup_None:
  "map_of (entries_of st) (canonical_key k) = None \<longleftrightarrow> keyPosition (map fst st) k = None"
  by (simp add: map_of_eq_None_iff keyPosition_None map_elems)

lemma keyPosition_canonicalize:
  assumes "key_ok sm bm k"
  shows "keyPosition ks (canonicalizeKeyedCollectionKey k) = keyPosition ks k"
  by (simp add: keyPosition_def canonicalize_ok(2) [OF assms])

lemma map_insert_new:
  assumes "map_inv sm bm m" "key_ok sm bm k" "keyPosition (map fst (m_storage m)) k = None" "length (m_storage m) < 2 ^ 28"
  shows "\<exists>m'. map_pushBack m k v (keyedCollectionHash k) = Some m' \<and> map_inv sm bm m' \<and>
    length (m_storage m') = Suc (length (m_storage m)) \<and>
    entries_of (m_storage m') = entries_of (m_storage m) @ [(canonical_key k, v)]"
  using map_pushBack_ok [OF assms refl, of v] assms(2) by (auto simp: entries_of_def key_ok_def)

lemma map_getOrInsert_ok:
  assumes inv: "map_inv sm bm m" and key: "key_ok sm bm k" and room: "length (m_storage m) < 2 ^ 28"
  shows "\<exists>m'. map_step (MapGetOrInsert k v) m = Some (fst (spec_map_op (MapGetOrInsert k v) (entries_of (m_storage m))), m') \<and>
    map_inv sm bm m' \<and> length (m_storage m') \<le> Suc (length (m_storage m)) \<and>
    entries_of (m_storage m') = snd (spec_map_op (MapGetOrInsert k v) (entries_of (m_storage m)))"
proof -
  let ?k = "canonicalizeKeyedCollectionKey k"
  note k = canonicalize_ok [OF key]
  obtain m' hash where f: "map_findKeyIndex m ?k = Some (keyPosition (map fst (m_storage m)) k, m', hash)"
    "map_inv sm bm m'" "m_storage m' = m_storage m"
    "keyPosition (map fst (m_storage m)) k = None \<Longrightarrow> hash = keyedCollectionHash ?k"
    using map_findKeyIndex_ok [OF inv k(1)] keyPosition_canonicalize [OF key] by metis
  show ?thesis
  proof (cases "keyPosition (map fst (m_storage m)) k")
    case None
    have n: "keyPosition (map fst (m_storage m')) ?k = None" "length (m_storage m') < 2 ^ 28"
      using None f(3) keyPosition_canonicalize [OF key] room by auto
    from map_insert_new [OF f(2) k(1) n, of v] obtain m'' where "map_pushBack m' ?k v hash = Some m''" "map_inv sm bm m''"
      "length (m_storage m'') = Suc (length (m_storage m))"
      "entries_of (m_storage m'') = entries_of (m_storage m) @ [(canonical_key k, v)]"
      using f(3) f(4) [OF None] k(2) by auto
    with f None entries_lookup_None [of "m_storage m" k] show ?thesis by (simp add: map_getOrInsert_def Let_def)
  next
    case (Some i)
    with f find_index_entries(4) [OF Some] show ?thesis by (simp add: map_getOrInsert_def Let_def)
  qed
qed

lemma map_step_refines:
  assumes inv: "map_inv sm bm m" and op: "map_op_ok (key_ok sm bm) op" and room: "length (m_storage m) < 2 ^ 28"
  shows "\<exists>m'. map_step op m = Some (fst (spec_map_op op (entries_of (m_storage m))), m') \<and> map_inv sm bm m' \<and>
    length (m_storage m') \<le> Suc (length (m_storage m)) \<and>
    entries_of (m_storage m') = snd (spec_map_op op (entries_of (m_storage m)))"
proof (cases op)
  case (MapGet k)
  with op map_get_ok [OF inv, of k] show ?thesis by auto
next
  case (MapHas k)
  with op map_has_ok [OF inv, of k] show ?thesis by (auto simp: map_elems simp del: set_map)
next
  case MapSize
  with inv show ?thesis by (simp add: map_size_def entries_of_def)
next
  case (MapSet k v)
  with op map_set_ok [OF inv _ room, of k v] show ?thesis by auto
next
  case (MapDelete k)
  with op map_delete_ok [OF inv, of k] show ?thesis by (auto simp: map_elems simp del: set_map)
next
  case MapClear
  with map_clear_ok [OF inv] show ?thesis by simp
next
  case (MapGetOrInsert k v)
  with op have "key_ok sm bm k" by simp
  from map_getOrInsert_ok [OF inv this room, of v] show ?thesis unfolding MapGetOrInsert .
qed

lemma map_run_refines:
  assumes "map_inv sm bm m" "\<forall>op \<in> set ops. map_op_ok (key_ok sm bm) op" "length (m_storage m) + length ops \<le> 2 ^ 28"
  shows "\<exists>m'. map_run ops m = Some (fst (spec_map_run ops (entries_of (m_storage m))), m') \<and> map_inv sm bm m' \<and>
    entries_of (m_storage m') = snd (spec_map_run ops (entries_of (m_storage m)))"
  using assms
proof (induction ops arbitrary: m)
  case (Cons op ops)
  obtain m' where m': "map_step op m = Some (fst (spec_map_op op (entries_of (m_storage m))), m')" "map_inv sm bm m'"
    "length (m_storage m') \<le> Suc (length (m_storage m))" "entries_of (m_storage m') = snd (spec_map_op op (entries_of (m_storage m)))"
    using map_step_refines [of sm bm m op] Cons.prems by auto
  obtain m'' where "map_run ops m' = Some (fst (spec_map_run ops (entries_of (m_storage m'))), m'')" "map_inv sm bm m''"
    "entries_of (m_storage m'') = snd (spec_map_run ops (entries_of (m_storage m')))"
    using Cons.IH [of m'] Cons.prems m'(2,3) by auto
  with m'(1,4) show ?case by (auto simp: case_prod_beta Let_def)
qed simp

section \<open>The callback form\<close>

lemma spec_put_new: "map_of d k = None \<Longrightarrow> spec_put d k v = d @ [(k, v)]"
  by (auto simp: spec_put_def find_index_fst map_of_eq_None_iff find_index_None split: option.splits
      dest!: find_index_SomeD)

lemma map_put_found:
  assumes "map_inv sm bm m" "key_ok sm bm k" "length (m_storage m) < 2 ^ 28"
  obtains m3 r hash m4 where "map_findKeyIndex m (canonicalizeKeyedCollectionKey k) = Some (r, m3, hash)"
    "(case r of Some i \<Rightarrow> Some (m3\<lparr>m_storage := (m_storage m3)[i := (fst (m_storage m3 ! i), v)]\<rparr>)
      | None \<Rightarrow> map_pushBack m3 (canonicalizeKeyedCollectionKey k) v hash) = Some m4"
    "map_inv sm bm m4" "entries_of (m_storage m4) = spec_put (entries_of (m_storage m)) (canonical_key k) v"
proof -
  let ?k = "canonicalizeKeyedCollectionKey k"
  note k = canonicalize_ok [OF assms(2)]
  obtain m3 hash where f: "map_findKeyIndex m ?k = Some (keyPosition (map fst (m_storage m)) k, m3, hash)"
    "map_inv sm bm m3" "m_storage m3 = m_storage m"
    "keyPosition (map fst (m_storage m)) k = None \<Longrightarrow> hash = keyedCollectionHash ?k"
    using map_findKeyIndex_ok [OF assms(1) k(1)] keyPosition_canonicalize [OF assms(2)] by metis
  show ?thesis
  proof (cases "keyPosition (map fst (m_storage m)) k")
    case None
    have n: "keyPosition (map fst (m_storage m3)) ?k = None" "length (m_storage m3) < 2 ^ 28"
      using None f(3) keyPosition_canonicalize [OF assms(2)] assms(3) by auto
    from map_insert_new [OF f(2) k(1) n, of v] obtain m4 where "map_pushBack m3 ?k v hash = Some m4" "map_inv sm bm m4"
      "entries_of (m_storage m4) = entries_of (m_storage m) @ [(canonical_key k, v)]"
      using f(3) f(4) [OF None] k(2) by auto
    with f(1) None entries_lookup_None [of "m_storage m" k] that [of None m3 hash m4] show ?thesis
      by (simp add: spec_put_new)
  next
    case (Some i)
    have "i < length (m_storage m3)" using find_index_entries(1) [OF Some] f(3) by simp
    with f Some entries_of_update [OF Some, of v] map_update_inv [OF f(2), of i v]
      that [of "Some i" m3 hash "m3\<lparr>m_storage := (m_storage m3)[i := (fst (m_storage m3 ! i), v)]\<rparr>"] show ?thesis by simp
  qed
qed

text \<open>\<open>MapObject::getOrInsertComputed\<close> returns: a present key gives its value and calls nothing; an absent
  one calls the callback on the canonical key, an exception of which propagates with the map as the
  callback left it, and otherwise the value returned is bound to the key in that map, even when
  the callback inserted or deleted entries.\<close>

theorem map_getOrInsertComputed_correct:
  assumes "map_inv sm bm m" "key_ok sm bm key"
    and callback: "\<And>k m1 r m2. map_inv sm bm m1 \<Longrightarrow> call k m1 = (r, m2) \<Longrightarrow> map_inv sm bm m2 \<and> length (m_storage m2) < 2 ^ 28"
  shows "\<exists>r m'. map_getOrInsertComputed m key (Some call) = Some (r, m') \<and> map_inv sm bm m' \<and>
    (case map_of (entries_of (m_storage m)) (canonical_key key) of
       Some w \<Rightarrow> r = Inr w \<and> m_storage m' = m_storage m
     | None \<Rightarrow> (\<exists>m1. m_storage m1 = m_storage m \<and>
         (case call (canonicalizeKeyedCollectionKey key) m1 of
            (Inl exc, m2) \<Rightarrow> r = Inl (Thrown exc) \<and> m' = m2
          | (Inr value, m2) \<Rightarrow> r = Inr value \<and>
              entries_of (m_storage m') = spec_put (entries_of (m_storage m2)) (canonical_key key) value)))"
proof -
  let ?k = "canonicalizeKeyedCollectionKey key"
  note k = canonicalize_ok [OF assms(2)]
  obtain m1 hash where f: "map_findKeyIndex m ?k = Some (keyPosition (map fst (m_storage m)) key, m1, hash)"
    "map_inv sm bm m1" "m_storage m1 = m_storage m"
    using map_findKeyIndex_ok [OF assms(1) k(1)] keyPosition_canonicalize [OF assms(2)] by metis
  show ?thesis
  proof (cases "keyPosition (map fst (m_storage m)) key")
    case (Some i)
    with f find_index_entries(4) [OF Some] show ?thesis by (simp add: map_getOrInsertComputed_def Let_def)
  next
    case None
    then have absent: "map_of (entries_of (m_storage m)) (canonical_key key) = None" by (simp add: entries_lookup_None)
    obtain r m2 where c: "call ?k m1 = (r, m2)" by fastforce
    have m2: "map_inv sm bm m2" "length (m_storage m2) < 2 ^ 28" using callback [OF f(2) c] by auto
    show ?thesis
    proof (cases r)
      case (Inl exc)
      with c f None absent m2 show ?thesis by (auto simp: map_getOrInsertComputed_def Let_def intro!: exI [of _ m1])
    next
      case (Inr v)
      obtain m3 pos hash2 m4 where
        "map_findKeyIndex m2 ?k = Some (pos, m3, hash2)"
        "(case pos of Some i \<Rightarrow> Some (m3\<lparr>m_storage := (m_storage m3)[i := (fst (m_storage m3 ! i), v)]\<rparr>)
          | None \<Rightarrow> map_pushBack m3 ?k v hash2) = Some m4"
        "map_inv sm bm m4" "entries_of (m_storage m4) = spec_put (entries_of (m_storage m2)) (canonical_key key) v"
        by (rule map_put_found [OF m2(1) assms(2) m2(2), of v])
      with c f None absent Inr show ?thesis
        by (auto simp: map_getOrInsertComputed_def Let_def intro!: exI [of _ m1] split: option.splits)
    qed
  qed
qed

lemma map_inv_new [simp]: "map_inv sm bm map_new"
  by (simp add: map_inv_def map_new_def collection_ok_def keys_ok_def)

lemma map_new_entries [simp]: "entries_of [] = []" "m_storage map_new = []"
  by (simp_all add: map_new_def entries_of_def)

theorem map_getOrInsertComputed_correct_witness:
  "\<exists>r m'. map_getOrInsertComputed map_new (PointerValue 8) (Some (\<lambda>k m1. (Inr (Int32 7), map_new))) = Some (r, m') \<and>
    r = Inr (Int32 7) \<and> entries_of (m_storage m') = [(CPointer 8, Int32 7)]"
  using map_getOrInsertComputed_correct [of "\<lambda>_. []" "\<lambda>_. 0" map_new "PointerValue 8" "\<lambda>k m1. (Inr (Int32 7), map_new)"]
  by (auto simp: key_ok_def spec_put_def)

section \<open>Refinement of operation sequences\<close>

text \<open>C32: any sequence of operations on a fresh \<open>Map\<close> of at most \<open>2^28\<close> operations returns, and answers and ends as
  an insertion-ordered dictionary with SameValueZero keys does.\<close>

theorem map_refines_dictionary:
  assumes "\<forall>op \<in> set ops. map_op_ok (key_ok sm bm) op" "length ops \<le> 2 ^ 28"
  shows "\<exists>m'. map_run ops map_new = Some (fst (spec_map_run ops []), m') \<and>
    entries_of (m_storage m') = snd (spec_map_run ops [])"
  using map_run_refines [of sm bm map_new ops] assms by auto

theorem map_refines_dictionary_witness:
  "\<exists>m'. map_run [MapSet (Double 0x8000000000000000) (Int32 1), MapSet (PointerValue 8) Null, MapGet (Int32 0),
      MapDelete (PointerValue 8), MapGetOrInsert (Boolean True) (Int32 2), MapSize] map_new =
      Some ([Done, Done, Answer (Int32 1), Flag True, Answer (Int32 2), Count (Suc (Suc 0))], m') \<and>
    entries_of (m_storage m') = [(CNumber 0, Int32 1), (CBoolean True, Int32 2)]"
  using map_refines_dictionary [of "[MapSet (Double 0x8000000000000000) (Int32 1), MapSet (PointerValue 8) Null, MapGet (Int32 0),
      MapDelete (PointerValue 8), MapGetOrInsert (Boolean True) (Int32 2), MapSize]" "\<lambda>_. []" "\<lambda>_. 0"]
  by (simp add: key_ok_def canonical_number_def iszero_def isnan_def spec_put_def spec_del_def
      del: map_run.simps)

text \<open>any sequence of \<open>has\<close>, \<open>add\<close>, \<open>delete\<close> and \<open>clear\<close> on a fresh \<open>Set\<close> of at most \<open>2^28\<close> operations returns, and
  answers and ends as an insertion-ordered set of SameValueZero keys does.\<close>

theorem set_refines_ordered_set:
  assumes "\<forall>op \<in> set ops. set_op_key_ok (key_ok sm bm) op" "length ops \<le> 2 ^ 28"
  shows "\<exists>s'. js_set.run ops set_new = Some (fst (spec_set_run ops []), s') \<and>
    elems_of (s_storage s') = snd (spec_set_run ops []) \<and>
    map canonical_key (createDenseArrayCopy s') = snd (spec_set_run ops []) \<and>
    set_size s' = length (snd (spec_set_run ops []))"
proof -
  have "set_inv sm bm set_new" "elems_of (s_storage set_new) = []" "s_storage set_new = []"
    by (simp_all add: set_inv_def set_new_def collection_ok_def keys_ok_def elems_of_def)
  with js_set.run_refines [of sm bm set_new ops] assms obtain s' where
    "js_set.run ops set_new = Some (fst (spec_set_run ops []), s')" and e: "elems_of (s_storage s') = snd (spec_set_run ops [])"
    by auto
  with e [symmetric] show ?thesis by (simp add: createDenseArrayCopy_def set_size_def elems_of_def)
qed

theorem set_refines_ordered_set_witness:
  "\<exists>s'. js_set.run [OpAdd (PointerValue 8), OpAdd Null, OpAdd (PointerValue 8), OpDelete (PointerValue 8), OpHas Null] set_new =
      Some ([True, True, True, True, True], s') \<and> set_size s' = 1"
  using set_refines_ordered_set [of "[OpAdd (PointerValue 8), OpAdd Null, OpAdd (PointerValue 8), OpDelete (PointerValue 8), OpHas Null]"
      "\<lambda>_. []" "\<lambda>_. 0"]
  by (auto simp: key_ok_def simp del: js_set.run.simps)

section \<open>Iteration\<close>

text \<open>The results of \<open>n\<close> calls of \<open>advance\<close>, the storage unchanged between them.\<close>

fun mapDrain :: "(Value \<times> Value) list \<Rightarrow> nat \<Rightarrow> MapIteratorObject \<Rightarrow> item option list" where
  "mapDrain st 0 it = []"
| "mapDrain st (Suc n) it = (let (r, it') = mapAdvance st it in r # mapDrain st n it')"

fun setDrain :: "Value list \<Rightarrow> nat \<Rightarrow> SetIteratorObject \<Rightarrow> item option list" where
  "setDrain st 0 it = []"
| "setDrain st (Suc n) it = (let (r, it') = setAdvance st it in r # setDrain st n it')"

definition live_from :: "nat \<Rightarrow> (Value \<times> Value) list \<Rightarrow> (Value \<times> Value) list" where
  "live_from i st = filter (\<lambda>e. fst e \<noteq> EmptyValue) (drop i st)"

lemma live_from_step:
  "i < length st \<Longrightarrow> live_from i st =
     (if fst (st ! i) = EmptyValue then live_from (Suc i) st else st ! i # live_from (Suc i) st)"
  by (simp add: live_from_def flip: Cons_nth_drop_Suc)

lemma mapAdvanceLoop_live:
  "case live_from i st of
     [] \<Rightarrow> mapAdvanceLoop st i = (None, max i (length st))
   | e # es \<Rightarrow> \<exists>j. mapAdvanceLoop st i = (Some e, j) \<and> live_from j st = es"
proof (induction st i rule: mapAdvanceLoop.induct)
  case (1 st i)
  consider "\<not> i < length st" | "i < length st" "fst (st ! i) = EmptyValue" | "i < length st" "fst (st ! i) \<noteq> EmptyValue"
    by blast
  then show ?case
  proof cases
    case 1
    then show ?thesis by (subst mapAdvanceLoop.simps) (simp add: live_from_def)
  next
    case 2
    then have "mapAdvanceLoop st i = mapAdvanceLoop st (Suc i)" "live_from i st = live_from (Suc i) st"
      "max (Suc i) (length st) = max i (length st)"
      by (subst mapAdvanceLoop.simps, auto simp: live_from_step)
    with 1 [OF 2] show ?thesis by (cases "live_from (Suc i) st") auto
  next
    case 3
    then have "mapAdvanceLoop st i = (Some (st ! i), Suc i)" by (subst mapAdvanceLoop.simps) simp
    with 3 show ?thesis by (simp add: live_from_step)
  qed
qed

lemma setAdvanceLoop_map:
  "setAdvanceLoop st i = apfst (map_option fst) (mapAdvanceLoop (map (\<lambda>k. (k, k)) st) i)"
proof (induction st i rule: setAdvanceLoop.induct)
  case (1 st i)
  consider "\<not> i < length st" | "i < length st" "st ! i = EmptyValue" | "i < length st" "st ! i \<noteq> EmptyValue"
    by blast
  then show ?case
    using 1 by cases (simp_all add: setAdvanceLoop.simps [of st i] mapAdvanceLoop.simps [of "map (\<lambda>k. (k, k)) st" i])
qed

lemma mapAdvance_live:
  assumes "m_map it"
  shows "live_from (m_iteratorIndex it) st = [] \<Longrightarrow>
      mapAdvance st it = (None, it\<lparr>m_iteratorIndex := max (m_iteratorIndex it) (length st), m_map := False\<rparr>)"
    and "live_from (m_iteratorIndex it) st = e # es \<Longrightarrow>
      \<exists>j. mapAdvance st it = (Some (mapItem (m_type it) e), it\<lparr>m_iteratorIndex := j\<rparr>) \<and> live_from j st = es"
  using mapAdvanceLoop_live [of st "m_iteratorIndex it"] assms by (auto simp: mapAdvance_def)

lemma mapDrain_exhausted: "\<not> m_map it \<Longrightarrow> mapDrain st n it = replicate n None"
  by (induction n) (auto simp: mapAdvance_def)

lemma mapDrain_live:
  assumes "m_map it" "live_from (m_iteratorIndex it) st = es"
  shows "mapDrain st (length es + n) it = map (\<lambda>e. Some (mapItem (m_type it) e)) es @ replicate n None"
  using assms
proof (induction es arbitrary: it)
  case Nil
  with mapAdvance_live(1) [OF Nil] show ?case by (cases n) (auto simp: mapDrain_exhausted)
next
  case (Cons e es)
  obtain j where j: "mapAdvance st it = (Some (mapItem (m_type it) e), it\<lparr>m_iteratorIndex := j\<rparr>)"
    "live_from j st = es" using mapAdvance_live(2) [OF Cons.prems] by auto
  from Cons.IH [of "it\<lparr>m_iteratorIndex := j\<rparr>"] Cons.prems(1) j show ?case by simp
qed

definition mapIteratorOf :: "SetIteratorObject \<Rightarrow> MapIteratorObject" where
  "mapIteratorOf it = \<lparr>m_map = m_set it, m_iteratorIndex = s_iteratorIndex it, m_type = s_type it\<rparr>"

lemma setDrain_map: "setDrain st n it = mapDrain (map (\<lambda>k. (k, k)) st) n (mapIteratorOf it)"
proof (induction n arbitrary: it)
  case (Suc n)
  obtain r j where l: "mapAdvanceLoop (map (\<lambda>k. (k, k)) st) (s_iteratorIndex it) = (r, j)" by fastforce
  have "r = None \<or> (\<exists>k. r = Some (k, k))"
    using mapAdvanceLoop_live [of "map (\<lambda>k. (k, k)) st" "s_iteratorIndex it"] l
    by (auto simp: live_from_def filter_map drop_map split: list.splits)
  then have "fst (setAdvance st it) = fst (mapAdvance (map (\<lambda>k. (k, k)) st) (mapIteratorOf it)) \<and>
      mapIteratorOf (snd (setAdvance st it)) = snd (mapAdvance (map (\<lambda>k. (k, k)) st) (mapIteratorOf it))"
    using l by (auto simp: setAdvance_def mapAdvance_def mapIteratorOf_def setAdvanceLoop_map setItem_def mapItem_def
        split: IteratorType.splits)
  with Suc show ?case by (auto simp: case_prod_beta Let_def)
qed simp

text \<open>an iterator of a \<open>Map\<close> or a \<open>Set\<close> that nothing changes yields exactly the live entries, each once, in
  insertion order and in the form of its kind, skipping deleted ones, and is done from then on.\<close>

theorem iterators_yield_live_entries:
  "mapDrain (m_storage m) (length (entries_of (m_storage m)) + n) (map_iterator kind) =
     map (\<lambda>e. Some (mapItem kind e)) (filter (\<lambda>e. fst e \<noteq> EmptyValue) (m_storage m)) @ replicate n None \<and>
   setDrain (s_storage s) (set_size s + n) (set_iterator kind) =
     map (\<lambda>k. Some (setItem kind k)) (createDenseArrayCopy s) @ replicate n None"
proof
  show "mapDrain (m_storage m) (length (entries_of (m_storage m)) + n) (map_iterator kind) =
      map (\<lambda>e. Some (mapItem kind e)) (filter (\<lambda>e. fst e \<noteq> EmptyValue) (m_storage m)) @ replicate n None"
    using mapDrain_live [of "map_iterator kind" "m_storage m" _ n] by (simp add: map_iterator_def entries_of_def live_from_def)
  let ?st = "map (\<lambda>k. (k, k)) (s_storage s)"
  have "filter (\<lambda>e. fst e \<noteq> EmptyValue) ?st = map (\<lambda>k. (k, k)) (createDenseArrayCopy s)"
    by (simp add: filter_map comp_def createDenseArrayCopy_def)
  then have "mapDrain ?st (set_size s + n) (mapIteratorOf (set_iterator kind)) =
      map (\<lambda>e. Some (mapItem kind e)) (map (\<lambda>k. (k, k)) (createDenseArrayCopy s)) @ replicate n None"
    using mapDrain_live [of "mapIteratorOf (set_iterator kind)" ?st "map (\<lambda>k. (k, k)) (createDenseArrayCopy s)" n]
    by (simp add: set_iterator_def mapIteratorOf_def set_size_def createDenseArrayCopy_def live_from_def)
  moreover have "mapItem kind (k, k) = setItem kind k" for k
    by (simp add: mapItem_def setItem_def split: IteratorType.splits)
  ultimately show "setDrain (s_storage s) (set_size s + n) (set_iterator kind) =
      map (\<lambda>k. Some (setItem kind k)) (createDenseArrayCopy s) @ replicate n None"
    by (simp add: setDrain_map comp_def)
qed

end
