(* ===== verification/WeakCollections.thy ===== *)
theory WeakCollections
  imports KeyedCollection
begin

text \<open>
  \<open>WeakMap\<close> and \<open>WeakSet\<close>, \<open>src/runtime/WeakMapObject.cpp\<close> and \<open>WeakSetObject.cpp\<close>: the storage of items whose
  key the collector clears, the hash index over it, every operation, and a step for a garbage
  collection between operations. The collector is not part of the repository; what the code relies on
  is that a disappearing link registered for an object is set to null when that object is reclaimed, and that an
  unregistered one is left alone. The registered links are kept in the items, and a collection is
  given by the set of objects it reclaims. Both collections keep the contract of the locale \<open>weak_collection\<close>.
\<close>

section \<open>Operations on the keys of a storage\<close>

text \<open>\<open>keyOf\<close> reads the key of an item, \<open>None\<close> for a null pointer.\<close>

definition unwrap :: "addr option \<Rightarrow> addr" where
  "unwrap k = (case k of Some p \<Rightarrow> p | None \<Rightarrow> 0)"

fun weakInsertAll :: "nat \<Rightarrow> addr option list \<Rightarrow> KeyedCollectionHashIndex \<Rightarrow> KeyedCollectionHashIndex option" where
  "weakInsertAll i [] ix = Some ix"
| "weakInsertAll i (k # ks) ix =
     (case indexInsert (keyedCollectionPointerHash (unwrap k)) i ix of
        None \<Rightarrow> None | Some ix' \<Rightarrow> weakInsertAll (i + 1) ks ix')"

definition weakBuildOrRebuildHashIndex ::
  "('i \<Rightarrow> addr option) \<Rightarrow> 'i list \<Rightarrow> ('i list \<times> KeyedCollectionHashIndex) option" where
  "weakBuildOrRebuildHashIndex keyOf storage =
     (let st = filter (\<lambda>item. keyOf item \<noteq> None) storage
      in case indexCreate (length st) of
           None \<Rightarrow> None
         | Some ix \<Rightarrow> map_option (Pair st) (weakInsertAll 0 (map keyOf st) ix))"

text \<open>The storage comes back too: building the index compacts it.\<close>

definition weakFindKeyIndex ::
  "('i \<Rightarrow> addr option) \<Rightarrow> 'i list \<Rightarrow> KeyedCollectionHashIndex option \<Rightarrow> addr
    \<Rightarrow> (nat option \<times> 'i list \<times> KeyedCollectionHashIndex option) option" where
  "weakFindKeyIndex keyOf storage m_hashIndex key =
     (let lookup = (\<lambda>st ix.
            let msk = capacity ix - 1
            in map_option (\<lambda>r. (r, st, Some ix))
                 (probe (\<lambda>s. keyOf (st ! s) = Some key) (buckets ix) msk
                    (unat (keyedCollectionPointerHash key) AND msk)))
      in case m_hashIndex of
        None \<Rightarrow>
          if length storage \<ge> buildThreshold
          then (case weakBuildOrRebuildHashIndex keyOf storage of None \<Rightarrow> None | Some (st, ix) \<Rightarrow> lookup st ix)
          else Some (find_index (\<lambda>item. keyOf item = Some key) storage, storage, None)
      | Some ix \<Rightarrow> lookup storage ix)"

definition weakAddToHashIndex ::
  "('i \<Rightarrow> addr option) \<Rightarrow> 'i list \<Rightarrow> KeyedCollectionHashIndex option \<Rightarrow> nat
    \<Rightarrow> ('i list \<times> KeyedCollectionHashIndex option) option" where
  "weakAddToHashIndex keyOf storage m_hashIndex storageIndex =
     (case m_hashIndex of
        None \<Rightarrow> Some (storage, None)
      | Some ix \<Rightarrow>
          if needsRebuild ix
          then map_option (apsnd Some) (weakBuildOrRebuildHashIndex keyOf storage)
          else map_option (\<lambda>ix'. (storage, Some ix'))
                 (indexInsert (keyedCollectionPointerHash (unwrap (keyOf (storage ! storageIndex)))) storageIndex ix))"

section \<open>\<open>WeakMapObject\<close>\<close>

text \<open>\<open>keyLink\<close> and \<open>dataLink\<close> are the objects the disappearing links of the two slots are registered for.\<close>

record WeakMapObjectDataItem =
  wm_key :: "addr option"
  wm_data :: Value
  wm_keyLink :: "addr option"
  wm_dataLink :: "addr option"

record WeakMapObject =
  wm_storage :: "WeakMapObjectDataItem list"
  wm_hashIndex :: "KeyedCollectionHashIndex option"

definition wm_new :: WeakMapObject where
  "wm_new = \<lparr>wm_storage = [], wm_hashIndex = None\<rparr>"

definition wm_findKeyIndex :: "WeakMapObject \<Rightarrow> addr \<Rightarrow> (nat option \<times> WeakMapObject) option" where
  "wm_findKeyIndex m key =
     map_option (\<lambda>(r, st, ix). (r, \<lparr>wm_storage = st, wm_hashIndex = ix\<rparr>))
       (weakFindKeyIndex wm_key (wm_storage m) (wm_hashIndex m) key)"

definition wm_addToHashIndex :: "WeakMapObject \<Rightarrow> nat \<Rightarrow> WeakMapObject option" where
  "wm_addToHashIndex m storageIndex =
     map_option (\<lambda>(st, ix). \<lparr>wm_storage = st, wm_hashIndex = ix\<rparr>)
       (weakAddToHashIndex wm_key (wm_storage m) (wm_hashIndex m) storageIndex)"

definition wm_deleteOperation :: "WeakMapObject \<Rightarrow> addr \<Rightarrow> (bool \<times> WeakMapObject) option" where
  "wm_deleteOperation m key =
     (case wm_findKeyIndex m key of
        None \<Rightarrow> None
      | Some (None, m') \<Rightarrow> Some (False, m')
      | Some (Some i, m') \<Rightarrow>
          (let m'' = m'\<lparr>wm_storage := (wm_storage m')[i := (wm_storage m' ! i)\<lparr>wm_keyLink := None, wm_dataLink := None\<rparr>]\<rparr>
           in Some (True,
                if wm_hashIndex m'' \<noteq> None
                then m''\<lparr>wm_storage := (wm_storage m'')[i := (wm_storage m'' ! i)\<lparr>wm_key := None, wm_data := EmptyValue\<rparr>]\<rparr>
                else m''\<lparr>wm_storage := remove_at i (wm_storage m'')\<rparr>)))"

definition wm_get :: "WeakMapObject \<Rightarrow> addr \<Rightarrow> (Value \<times> WeakMapObject) option" where
  "wm_get m key =
     map_option (\<lambda>(r, m'). (case r of None \<Rightarrow> Undefined | Some i \<Rightarrow> wm_data (wm_storage m' ! i), m')) (wm_findKeyIndex m key)"

definition wm_has :: "WeakMapObject \<Rightarrow> addr \<Rightarrow> (bool \<times> WeakMapObject) option" where
  "wm_has m key = map_option (apfst (\<lambda>r. r \<noteq> None)) (wm_findKeyIndex m key)"

text \<open>
  \<open>insertNew\<close>: a null item is reused when there is no index. The links of a pushed item are registered
  after \<open>addToHashIndex\<close>, whose rebuild may move the item; they are registered through the pointer to it,
  which the new item, last with its key, stands for.
\<close>

definition linkedItem :: "addr \<Rightarrow> Value \<Rightarrow> WeakMapObjectDataItem" where
  "linkedItem key v = \<lparr>wm_key = Some key, wm_data = v, wm_keyLink = Some key, wm_dataLink = Some key\<rparr>"

definition registerLast :: "addr \<Rightarrow> WeakMapObjectDataItem list \<Rightarrow> WeakMapObjectDataItem list" where
  "registerLast key st =
     (if st = [] then [] else st[length st - 1 := (last st)\<lparr>wm_keyLink := Some key, wm_dataLink := Some key\<rparr>])"

definition wm_insertNew :: "WeakMapObject \<Rightarrow> addr \<Rightarrow> Value \<Rightarrow> WeakMapObject option" where
  "wm_insertNew m key v =
     (case (if wm_hashIndex m = None then find_index (\<lambda>item. wm_key item = None) (wm_storage m) else None) of
        Some i \<Rightarrow> Some (m\<lparr>wm_storage := (wm_storage m)[i := linkedItem key v]\<rparr>)
      | None \<Rightarrow>
          (let newData = \<lparr>wm_key = Some key, wm_data = v, wm_keyLink = None, wm_dataLink = None\<rparr>;
               m' = m\<lparr>wm_storage := wm_storage m @ [newData]\<rparr>
           in map_option (\<lambda>m''. m''\<lparr>wm_storage := registerLast key (wm_storage m'')\<rparr>)
                (wm_addToHashIndex m' (length (wm_storage m') - 1))))"

definition wm_setData :: "WeakMapObject \<Rightarrow> nat \<Rightarrow> Value \<Rightarrow> WeakMapObject" where
  "wm_setData m i v = m\<lparr>wm_storage := (wm_storage m)[i := (wm_storage m ! i)\<lparr>wm_data := v\<rparr>]\<rparr>"

definition wm_set :: "WeakMapObject \<Rightarrow> addr \<Rightarrow> Value \<Rightarrow> WeakMapObject option" where
  "wm_set m key v =
     (case wm_findKeyIndex m key of
        None \<Rightarrow> None
      | Some (Some i, m') \<Rightarrow> Some (wm_setData m' i v)
      | Some (None, m') \<Rightarrow> wm_insertNew m' key v)"

definition wm_getOrInsert :: "WeakMapObject \<Rightarrow> addr \<Rightarrow> Value \<Rightarrow> (Value \<times> WeakMapObject) option" where
  "wm_getOrInsert m key v =
     (case wm_findKeyIndex m key of
        None \<Rightarrow> None
      | Some (Some i, m') \<Rightarrow> Some (wm_data (wm_storage m' ! i), m')
      | Some (None, m') \<Rightarrow> map_option (Pair v) (wm_insertNew m' key v))"

text \<open>The callback is an argument, absent when it is not callable; it may change the map, return or throw.\<close>

datatype weak_error = WeakNotCallable | WeakThrown Value

definition wm_getOrInsertComputed ::
  "WeakMapObject \<Rightarrow> addr \<Rightarrow> (addr \<Rightarrow> WeakMapObject \<Rightarrow> (Value + Value) \<times> WeakMapObject) option
    \<Rightarrow> ((weak_error + Value) \<times> WeakMapObject) option" where
  "wm_getOrInsertComputed m key callback =
     (case callback of
        None \<Rightarrow> Some (Inl WeakNotCallable, m)
      | Some call \<Rightarrow>
          (case wm_findKeyIndex m key of
             None \<Rightarrow> None
           | Some (Some i, m') \<Rightarrow> Some (Inr (wm_data (wm_storage m' ! i)), m')
           | Some (None, m') \<Rightarrow>
               (case call key m' of
                  (Inl exc, m2) \<Rightarrow> Some (Inl (WeakThrown exc), m2)
                | (Inr v, m2) \<Rightarrow>
                    (case wm_findKeyIndex m2 key of
                       None \<Rightarrow> None
                     | Some (Some i, m3) \<Rightarrow> Some (Inr v, wm_setData m3 i v)
                     | Some (None, m3) \<Rightarrow> map_option (Pair (Inr v)) (wm_insertNew m3 key v)))))"

text \<open>A garbage collection that reclaims the objects \<open>dead\<close>: it clears the slots registered for them.\<close>

definition wm_clearItem :: "addr list \<Rightarrow> WeakMapObjectDataItem \<Rightarrow> WeakMapObjectDataItem" where
  "wm_clearItem dead item =
     (let isDead = (\<lambda>link. case link of None \<Rightarrow> False | Some p \<Rightarrow> p \<in> set dead);
          item1 = (if isDead (wm_keyLink item) then item\<lparr>wm_key := None, wm_keyLink := None\<rparr> else item)
      in if isDead (wm_dataLink item1) then item1\<lparr>wm_data := EmptyValue, wm_dataLink := None\<rparr> else item1)"

definition wm_collect :: "WeakMapObject \<Rightarrow> addr list \<Rightarrow> WeakMapObject" where
  "wm_collect m dead = m\<lparr>wm_storage := map (wm_clearItem dead) (wm_storage m)\<rparr>"

section \<open>\<open>WeakSetObject\<close>\<close>

record WeakSetObjectDataItem =
  ws_key :: "addr option"
  ws_keyLink :: "addr option"

record WeakSetObject =
  ws_storage :: "WeakSetObjectDataItem list"
  ws_hashIndex :: "KeyedCollectionHashIndex option"

definition ws_new :: WeakSetObject where
  "ws_new = \<lparr>ws_storage = [], ws_hashIndex = None\<rparr>"

definition ws_findKeyIndex :: "WeakSetObject \<Rightarrow> addr \<Rightarrow> (nat option \<times> WeakSetObject) option" where
  "ws_findKeyIndex s key =
     map_option (\<lambda>(r, st, ix). (r, \<lparr>ws_storage = st, ws_hashIndex = ix\<rparr>))
       (weakFindKeyIndex ws_key (ws_storage s) (ws_hashIndex s) key)"

definition ws_addToHashIndex :: "WeakSetObject \<Rightarrow> nat \<Rightarrow> WeakSetObject option" where
  "ws_addToHashIndex s storageIndex =
     map_option (\<lambda>(st, ix). \<lparr>ws_storage = st, ws_hashIndex = ix\<rparr>)
       (weakAddToHashIndex ws_key (ws_storage s) (ws_hashIndex s) storageIndex)"

definition ws_deleteOperation :: "WeakSetObject \<Rightarrow> addr \<Rightarrow> (bool \<times> WeakSetObject) option" where
  "ws_deleteOperation s key =
     (case ws_findKeyIndex s key of
        None \<Rightarrow> None
      | Some (None, s') \<Rightarrow> Some (False, s')
      | Some (Some i, s') \<Rightarrow>
          (let s'' = s'\<lparr>ws_storage := (ws_storage s')[i := (ws_storage s' ! i)\<lparr>ws_keyLink := None\<rparr>]\<rparr>
           in Some (True,
                if ws_hashIndex s'' \<noteq> None
                then s''\<lparr>ws_storage := (ws_storage s'')[i := (ws_storage s'' ! i)\<lparr>ws_key := None\<rparr>]\<rparr>
                else s''\<lparr>ws_storage := remove_at i (ws_storage s'')\<rparr>)))"

definition registerLastKey :: "addr \<Rightarrow> WeakSetObjectDataItem list \<Rightarrow> WeakSetObjectDataItem list" where
  "registerLastKey key st = (if st = [] then [] else st[length st - 1 := (last st)\<lparr>ws_keyLink := Some key\<rparr>])"

definition ws_add :: "WeakSetObject \<Rightarrow> addr \<Rightarrow> WeakSetObject option" where
  "ws_add s key =
     (case ws_findKeyIndex s key of
        None \<Rightarrow> None
      | Some (Some i, s') \<Rightarrow> Some s'
      | Some (None, s') \<Rightarrow>
          (case (if ws_hashIndex s' = None then find_index (\<lambda>item. ws_key item = None) (ws_storage s') else None) of
             Some i \<Rightarrow> Some (s'\<lparr>ws_storage := (ws_storage s')[i := \<lparr>ws_key = Some key, ws_keyLink = Some key\<rparr>]\<rparr>)
           | None \<Rightarrow>
               (let s'' = s'\<lparr>ws_storage := ws_storage s' @ [\<lparr>ws_key = Some key, ws_keyLink = None\<rparr>]\<rparr>
                in map_option (\<lambda>t. t\<lparr>ws_storage := registerLastKey key (ws_storage t)\<rparr>)
                     (ws_addToHashIndex s'' (length (ws_storage s'') - 1)))))"

definition ws_has :: "WeakSetObject \<Rightarrow> addr \<Rightarrow> (bool \<times> WeakSetObject) option" where
  "ws_has s key = map_option (apfst (\<lambda>r. r \<noteq> None)) (ws_findKeyIndex s key)"

definition ws_clearItem :: "addr list \<Rightarrow> WeakSetObjectDataItem \<Rightarrow> WeakSetObjectDataItem" where
  "ws_clearItem dead item =
     (case ws_keyLink item of
        None \<Rightarrow> item
      | Some p \<Rightarrow> if p \<in> set dead then item\<lparr>ws_key := None, ws_keyLink := None\<rparr> else item)"

definition ws_collect :: "WeakSetObject \<Rightarrow> addr list \<Rightarrow> WeakSetObject" where
  "ws_collect s dead = s\<lparr>ws_storage := map (ws_clearItem dead) (ws_storage s)\<rparr>"

section \<open>The contract of a weak collection\<close>

datatype 'v weak_op = WeakHas addr | WeakPut addr 'v | WeakDelete addr | WeakCollect "addr list"

text \<open>The specification: a finite map from which a collection takes the reclaimed keys.\<close>

fun spec_weak_op :: "'v weak_op \<Rightarrow> (addr \<Rightarrow> 'v option) \<Rightarrow> bool \<times> (addr \<Rightarrow> 'v option)" where
  "spec_weak_op (WeakHas k) m = (m k \<noteq> None, m)"
| "spec_weak_op (WeakPut k v) m = (True, m(k \<mapsto> v))"
| "spec_weak_op (WeakDelete k) m = (m k \<noteq> None, m(k := None))"
| "spec_weak_op (WeakCollect dead) m = (True, \<lambda>k. if k \<in> set dead then None else m k)"

fun spec_weak_run :: "'v weak_op list \<Rightarrow> (addr \<Rightarrow> 'v option) \<Rightarrow> bool list \<times> (addr \<Rightarrow> 'v option)" where
  "spec_weak_run [] m = ([], m)"
| "spec_weak_run (op # ops) m =
     (let (r, m') = spec_weak_op op m; (rs, m'') = spec_weak_run ops m' in (r # rs, m''))"

locale weak_collection =
  fixes inv :: "'s \<Rightarrow> bool"
    and slots :: "'s \<Rightarrow> nat"
    and abs :: "'s \<Rightarrow> addr \<Rightarrow> 'v option"
    and limit :: nat
    and has :: "'s \<Rightarrow> addr \<Rightarrow> (bool \<times> 's) option"
    and put :: "'s \<Rightarrow> addr \<Rightarrow> 'v \<Rightarrow> 's option"
    and del :: "'s \<Rightarrow> addr \<Rightarrow> (bool \<times> 's) option"
    and collect :: "'s \<Rightarrow> addr list \<Rightarrow> 's"
  assumes has_law: "inv s \<Longrightarrow> \<exists>s'. has s k = Some (abs s k \<noteq> None, s') \<and> inv s' \<and> abs s' = abs s \<and> slots s' \<le> slots s"
    and put_law: "inv s \<Longrightarrow> slots s < limit \<Longrightarrow>
      \<exists>s'. put s k v = Some s' \<and> inv s' \<and> abs s' = (abs s)(k \<mapsto> v) \<and> slots s' \<le> Suc (slots s)"
    and del_law: "inv s \<Longrightarrow>
      \<exists>s'. del s k = Some (abs s k \<noteq> None, s') \<and> inv s' \<and> abs s' = (abs s)(k := None) \<and> slots s' \<le> slots s"
    and collect_law: "inv s \<Longrightarrow> inv (collect s dead) \<and> slots (collect s dead) \<le> slots s \<and>
      abs (collect s dead) = (\<lambda>k. if k \<in> set dead then None else abs s k)"
begin

fun step :: "'v weak_op \<Rightarrow> 's \<Rightarrow> (bool \<times> 's) option" where
  "step (WeakHas k) s = has s k"
| "step (WeakPut k v) s = map_option (Pair True) (put s k v)"
| "step (WeakDelete k) s = del s k"
| "step (WeakCollect dead) s = Some (True, collect s dead)"

fun run :: "'v weak_op list \<Rightarrow> 's \<Rightarrow> (bool list \<times> 's) option" where
  "run [] s = Some ([], s)"
| "run (op # ops) s =
     (case step op s of
        None \<Rightarrow> None
      | Some (r, s') \<Rightarrow> (case run ops s' of None \<Rightarrow> None | Some (rs, s'') \<Rightarrow> Some (r # rs, s'')))"

lemma step_refines:
  assumes "inv s" "slots s < limit"
  shows "\<exists>s'. step op s = Some (fst (spec_weak_op op (abs s)), s') \<and> inv s' \<and> slots s' \<le> Suc (slots s) \<and>
    abs s' = snd (spec_weak_op op (abs s))"
proof (cases op)
  case (WeakHas k)
  with has_law [OF assms(1), of k] show ?thesis by auto
next
  case (WeakPut k v)
  with put_law [OF assms, of k v] show ?thesis by auto
next
  case (WeakDelete k)
  with del_law [OF assms(1), of k] show ?thesis by auto
next
  case (WeakCollect dead)
  with collect_law [OF assms(1), of dead] show ?thesis by simp
qed

lemma run_refines:
  assumes "inv s" "slots s + length ops \<le> limit"
  shows "\<exists>s'. run ops s = Some (fst (spec_weak_run ops (abs s)), s') \<and> inv s' \<and> abs s' = snd (spec_weak_run ops (abs s))"
  using assms
proof (induction ops arbitrary: s)
  case (Cons op ops)
  obtain s' where s': "step op s = Some (fst (spec_weak_op op (abs s)), s')" "inv s'" "slots s' \<le> Suc (slots s)"
    "abs s' = snd (spec_weak_op op (abs s))" using step_refines [of s op] Cons.prems by auto
  obtain s'' where "run ops s' = Some (fst (spec_weak_run ops (abs s')), s'')" "inv s''" "abs s'' = snd (spec_weak_run ops (abs s'))"
    using Cons.IH [of s'] Cons.prems s' by auto
  with s' show ?case by (auto simp: case_prod_beta Let_def)
qed simp

end

section \<open>Weak keys as collection keys\<close>

text \<open>A weak key is the pointer value it is compared as; a null key is a tombstone.\<close>

definition emb :: "addr option \<Rightarrow> Value" where
  "emb k = (case k of Some p \<Rightarrow> PointerValue p | None \<Rightarrow> EmptyValue)"

lemma emb_simps [simp]: "emb (Some p) = PointerValue p" "emb None = EmptyValue" "emb k = EmptyValue \<longleftrightarrow> k = None"
  by (auto simp: emb_def split: option.splits)

definition weak_ok :: "addr option list \<Rightarrow> KeyedCollectionHashIndex option \<Rightarrow> bool" where
  "weak_ok ks ixo \<longleftrightarrow> collection_ok (\<lambda>_. []) (\<lambda>_. 0) (map emb ks) ixo"

lemma pointer_key_ok [simp]: "key_ok sm bm (PointerValue p)"
  by (simp add: key_ok_def)

lemma emb_value_ok [simp]: "value_ok sm bm (emb k)"
  by (cases k) auto

lemma keys_ok_emb:
  "keys_ok sm bm (map emb ks) \<longleftrightarrow> length ks \<le> 2 ^ 28 \<and> distinct (filter (\<lambda>k. k \<noteq> None) ks)"
proof -
  have "inj_on (canonical_key \<circ> emb) (set (filter (\<lambda>k. k \<noteq> None) ks))"
    by (rule inj_onI) auto
  then show ?thesis by (simp add: keys_ok_def filter_map comp_def distinct_map)
qed

lemma keyPosition_emb: "keyPosition (map emb ks) (PointerValue p) = find_index (\<lambda>k. k = Some p) ks"
  unfolding keyPosition_def
proof (induction ks)
  case (Cons k ks)
  then show ?case by (cases k) auto
qed simp

lemma live_emb_hit:
  "s < length ks \<Longrightarrow> ks ! s = Some p \<longleftrightarrow> s \<in> live (map emb ks) \<and> canonical_key (map emb ks ! s) = canonical_key (PointerValue p)"
  by (cases "ks ! s") (auto simp: live_def)

lemma weakInsertAll_emb: "None \<notin> set ks \<Longrightarrow> weakInsertAll i ks ix = insertAll i (map emb ks) ix"
proof (induction ks arbitrary: i ix)
  case (Cons k ks)
  then show ?case by (cases k) (auto simp: unwrap_def split: option.splits)
qed simp

lemma weakBuild_ok:
  assumes "length st \<le> 2 ^ 28" "distinct (filter (\<lambda>k. k \<noteq> None) (map keyOf st))"
  obtains ix where "weakBuildOrRebuildHashIndex keyOf st = Some (filter (\<lambda>item. keyOf item \<noteq> None) st, ix)"
    "weak_ok (map keyOf (filter (\<lambda>item. keyOf item \<noteq> None) st)) (Some ix)"
proof -
  let ?st = "filter (\<lambda>item. keyOf item \<noteq> None) st"
  let ?ks = "map keyOf ?st"
  have len: "length ?st \<le> 2 ^ 28" using assms(1) by (meson le_trans length_filter_le)
  have none: "None \<notin> set ?ks" by auto
  then have "filter (\<lambda>k. k \<noteq> EmptyValue) (map emb ?ks) = map emb ?ks" by (simp add: filter_id_conv)
  then have "liveCount (map emb ?ks) = length ?st" by (simp add: liveCount_def)
  with buildOrRebuildHashIndex_ok [of "map emb ?ks"] len weakInsertAll_emb [OF none, of 0] obtain ix where
    "weakBuildOrRebuildHashIndex keyOf st = Some (?st, ix)" "index_ok (map emb ?ks) (live (map emb ?ks)) ix"
    by (auto simp: weakBuildOrRebuildHashIndex_def buildOrRebuildHashIndex_def Let_def split: option.splits)
  moreover have "distinct (filter (\<lambda>k. k \<noteq> None) ?ks)" using assms(2) by (simp add: filter_map comp_def)
  ultimately show ?thesis using that len keys_ok_emb [of _ _ ?ks] by (simp add: weak_ok_def collection_ok_def)
qed

lemma weak_ok_keys: "weak_ok ks ixo \<Longrightarrow> length ks \<le> 2 ^ 28 \<and> distinct (filter (\<lambda>k. k \<noteq> None) ks)"
  using keys_ok_emb by (auto simp: weak_ok_def collection_ok_def)

lemma weakProbe_ok:
  assumes "weak_ok (map keyOf st) (Some ix)"
  shows "probe (\<lambda>s. keyOf (st ! s) = Some key) (buckets ix) (capacity ix - 1)
      (unat (keyedCollectionPointerHash key) AND (capacity ix - 1)) = Some (find_index (\<lambda>item. keyOf item = Some key) st)"
proof -
  let ?ks = "map keyOf st"
  have ok: "keys_ok (\<lambda>_. []) (\<lambda>_. 0) (map emb ?ks)" "index_ok (map emb ?ks) (live (map emb ?ks)) ix"
    using assms by (auto simp: weak_ok_def collection_ok_def)
  have "find_index (\<lambda>k. k = Some key) ?ks = find_index (\<lambda>item. keyOf item = Some key) st"
    by (induction st) auto
  moreover have "probe (\<lambda>s. keyOf (st ! s) = Some key) (buckets ix) (capacity ix - 1)
      (unat (keyedCollectionHash (PointerValue key)) AND (capacity ix - 1)) = Some (keyPosition (map emb ?ks) (PointerValue key))"
  proof (rule probe_correct [OF ok pointer_key_ok])
    fix s
    assume "s < length (map emb ?ks)"
    with live_emb_hit [of s ?ks key] show "keyOf (st ! s) = Some key \<longleftrightarrow>
        s \<in> live (map emb ?ks) \<and> canonical_key (map emb ?ks ! s) = canonical_key (PointerValue key)" by simp
  qed
  ultimately show ?thesis using keyPosition_emb [of ?ks key] by simp
qed

lemma weakFindKeyIndex_ok:
  assumes "weak_ok (map keyOf st) ixo"
  obtains st' ixo' where
    "weakFindKeyIndex keyOf st ixo key = Some (find_index (\<lambda>item. keyOf item = Some key) st', st', ixo')"
    "weak_ok (map keyOf st') ixo'" "st' = st \<or> st' = filter (\<lambda>item. keyOf item \<noteq> None) st"
proof (cases ixo)
  case None
  show ?thesis
  proof (cases "length st \<ge> 16")
    case True
    obtain ix where b: "weakBuildOrRebuildHashIndex keyOf st = Some (filter (\<lambda>item. keyOf item \<noteq> None) st, ix)"
      "weak_ok (map keyOf (filter (\<lambda>item. keyOf item \<noteq> None) st)) (Some ix)"
      by (rule weakBuild_ok [of st keyOf]) (use weak_ok_keys [OF assms] in auto)
    with True None weakProbe_ok [OF b(2), of key] that [OF _ b(2)] show ?thesis
      by (simp add: weakFindKeyIndex_def Let_def)
  next
    case False
    with None assms that show ?thesis by (simp add: weakFindKeyIndex_def Let_def)
  qed
next
  case (Some ix)
  with weakProbe_ok [of keyOf st ix key] assms that show ?thesis by (simp add: weakFindKeyIndex_def Let_def)
qed

lemma weakAddToHashIndex_ok:
  assumes ok: "weak_ok (map keyOf st) ixo" and new: "keyOf item = Some key" "Some key \<notin> set (map keyOf st)"
    and room: "length st < 2 ^ 28"
  obtains st' ixo' where "weakAddToHashIndex keyOf (st @ [item]) ixo (length st) = Some (st' @ [item], ixo')"
    "weak_ok (map keyOf (st' @ [item])) ixo'" "st' = st \<or> st' = filter (\<lambda>item. keyOf item \<noteq> None) st"
proof -
  let ?ks = "map emb (map keyOf st)"
  have d: "distinct (filter (\<lambda>k. k \<noteq> None) (map keyOf (st @ [item])))"
    using weak_ok_keys [OF ok] new by auto
  have keys: "keys_ok (\<lambda>_. []) (\<lambda>_. 0) (?ks @ [PointerValue key])"
    using keys_ok_emb [of _ _ "map keyOf (st @ [item])"] d room new(1) by simp
  obtain ixo1 where a: "addToHashIndex (?ks @ [PointerValue key]) ixo (length ?ks) (keyedCollectionHash (PointerValue key)) = Some ixo1"
    "collection_ok (\<lambda>_. []) (\<lambda>_. 0) (?ks @ [PointerValue key]) ixo1"
    by (rule addToHashIndex_ok [OF ok [unfolded weak_ok_def] keys _ refl]) auto
  show ?thesis
  proof (cases "\<exists>ix. ixo = Some ix \<and> needsRebuild ix")
    case True
    obtain ix where "weakBuildOrRebuildHashIndex keyOf (st @ [item]) = Some (filter (\<lambda>item. keyOf item \<noteq> None) (st @ [item]), ix)"
      "weak_ok (map keyOf (filter (\<lambda>item. keyOf item \<noteq> None) (st @ [item]))) (Some ix)"
      by (rule weakBuild_ok [of "st @ [item]" keyOf]) (use d room in auto)
    with True new(1) that [of "filter (\<lambda>item. keyOf item \<noteq> None) st" "Some ix"] show ?thesis
      by (auto simp: weakAddToHashIndex_def)
  next
    case False
    have "weakAddToHashIndex keyOf (st @ [item]) ixo (length st) = Some (st @ [item], ixo1)"
    proof (cases ixo)
      case None
      with a(1) show ?thesis by (simp add: weakAddToHashIndex_def addToHashIndex_def)
    next
      case (Some ix)
      with False a(1) new(1) show ?thesis
        by (auto simp: weakAddToHashIndex_def addToHashIndex_def Let_def unwrap_def nth_append split: if_splits)
    qed
    with a(2) new(1) that [of st ixo1] show ?thesis by (simp add: weak_ok_def)
  qed
qed

lemma weak_ok_clear: "weak_ok ks ixo \<Longrightarrow> weak_ok (ks[i := None]) ixo"
  using collection_ok_delete [of _ _ "map emb ks" ixo i] by (simp add: weak_ok_def map_update)

lemma weak_ok_remove:
  assumes "weak_ok ks None"
  shows "weak_ok (remove_at i ks) None"
proof (cases "i < length ks")
  case True
  have "filter (\<lambda>k. k \<noteq> None) (remove_at i ks) = filter (\<lambda>k. k \<noteq> None) (ks[i := None])"
    using True by (simp add: remove_at_def upd_conv_take_nth_drop)
  with weak_ok_keys [OF weak_ok_clear [OF assms, of i]] weak_ok_keys [OF assms] True keys_ok_emb [of _ _ "remove_at i ks"]
  show ?thesis by (auto simp: weak_ok_def collection_ok_def)
qed (use assms in \<open>simp add: remove_at_def\<close>)

lemma weak_ok_reuse:
  assumes "weak_ok ks None" "ks ! i = None" "i < length ks" "Some key \<notin> set ks"
  shows "weak_ok (ks[i := Some key]) None"
proof -
  have "filter (\<lambda>k. k \<noteq> None) ks = filter (\<lambda>k. k \<noteq> None) (take i ks) @ filter (\<lambda>k. k \<noteq> None) (drop (Suc i) ks)"
    using assms(2,3) by (subst id_take_nth_drop [of i ks]) auto
  then have "distinct (filter (\<lambda>k. k \<noteq> None) (ks[i := Some key]))"
    using weak_ok_keys [OF assms(1)] assms(3,4) by (auto simp: upd_conv_take_nth_drop dest: in_set_takeD in_set_dropD)
  with weak_ok_keys [OF assms(1)] keys_ok_emb [of _ _ "ks[i := Some key]"] show ?thesis
    by (simp add: weak_ok_def collection_ok_def)
qed

section \<open>Lookup in a storage\<close>

text \<open>The item with a key; the storage has one at most.\<close>

definition itemOf :: "('i \<Rightarrow> addr option) \<Rightarrow> 'i list \<Rightarrow> addr \<Rightarrow> 'i option" where
  "itemOf keyOf st k = find (\<lambda>item. keyOf item = Some k) st"

lemma itemOf_filter: "itemOf keyOf (filter (\<lambda>item. keyOf item \<noteq> None) st) k = itemOf keyOf st k"
  by (induction st) (auto simp: itemOf_def)

lemma itemOf_index:
  "itemOf keyOf st k = map_option (\<lambda>i. st ! i) (find_index (\<lambda>item. keyOf item = Some k) st)"
  by (induction st) (auto simp: itemOf_def option.map_comp comp_def)

lemma itemOf_None: "itemOf keyOf st k = None \<longleftrightarrow> Some k \<notin> set (map keyOf st)"
  by (induction st) (auto simp: itemOf_def)

lemma distinct_key_head:
  assumes "distinct (filter (\<lambda>k. k \<noteq> None) (map keyOf (y # st)))" "keyOf y = Some k"
  shows "Some k \<notin> set (map keyOf st)"
proof
  assume "Some k \<in> set (map keyOf st)"
  then have "Some k \<in> set (filter (\<lambda>k. k \<noteq> None) (map keyOf st))" by simp
  with assms show False by simp
qed

lemma itemOf_append: "itemOf keyOf (st @ [item]) k =
    (case itemOf keyOf st k of Some x \<Rightarrow> Some x | None \<Rightarrow> if keyOf item = Some k then Some item else None)"
  by (induction st) (auto simp: itemOf_def)

lemma distinct_key_nth:
  assumes "distinct (filter (\<lambda>k. k \<noteq> None) (map keyOf st))" "i < length st" "j < length st"
    "keyOf (st ! i) = Some k" "keyOf (st ! j) = Some k"
  shows "i = j"
  using distinct_filter_nth [of "\<lambda>k. k" "\<lambda>k. k \<noteq> None" "map keyOf st" i j] assms by simp

lemma itemOf_nth:
  assumes "distinct (filter (\<lambda>k. k \<noteq> None) (map keyOf st))" "i < length st" "keyOf (st ! i) = Some k"
  shows "itemOf keyOf st k = Some (st ! i)"
proof -
  obtain j where j: "find_index (\<lambda>item. keyOf item = Some k) st = Some j"
    using assms(2,3) by (cases "find_index (\<lambda>item. keyOf item = Some k) st") (auto simp: find_index_None)
  then have "j = i" using find_index_SomeD [OF j] distinct_key_nth [OF assms(1) _ assms(2) _ assms(3), of j] by simp
  with j show ?thesis by (simp add: itemOf_index)
qed

text \<open>A change at one position concerns the old and the new key of that position only.\<close>

lemma itemOf_update:
  assumes "distinct (filter (\<lambda>k. k \<noteq> None) (map keyOf st))" "i < length st" "keyOf x = None \<or> keyOf x = keyOf (st ! i) \<or>
    keyOf (st ! i) = None \<and> keyOf x \<notin> set (map keyOf st)"
  shows "itemOf keyOf (st[i := x]) k =
    (if keyOf x = Some k then Some x else if keyOf (st ! i) = Some k then None else itemOf keyOf st k)"
  using assms
proof (induction st arbitrary: i)
  case (Cons y st)
  have d: "distinct (filter (\<lambda>k. k \<noteq> None) (map keyOf st))" using Cons.prems(1) by (auto split: if_splits)
  show ?case
  proof (cases i)
    case 0
    have "itemOf keyOf st k = None" if "keyOf y = Some k"
      unfolding itemOf_None using distinct_key_head [OF Cons.prems(1) that] .
    with 0 show ?thesis by (auto simp: itemOf_def)
  next
    case (Suc n)
    have y: "keyOf y \<noteq> Some k" if "keyOf (st ! n) = Some k"
    proof -
      have "Some k \<in> set (map keyOf st)" using that Cons.prems(2) Suc by (metis length_Cons length_map Suc_less_eq nth_map nth_mem)
      with distinct_key_head [OF Cons.prems(1)] show ?thesis by blast
    qed
    have "keyOf y \<noteq> keyOf x" if "keyOf x = Some k"
      using Cons.prems(3) that y Suc by auto
    then show ?thesis using Cons.IH [OF d, of n] Cons.prems(2,3) Suc y by (auto simp: itemOf_def)
  qed
qed simp

lemma itemOf_remove:
  assumes "distinct (filter (\<lambda>k. k \<noteq> None) (map keyOf st))" "i < length st" "keyOf (st ! i) = Some k0"
  shows "itemOf keyOf (remove_at i st) k = (if k = k0 then None else itemOf keyOf st k)"
  using assms
proof (induction st arbitrary: i)
  case (Cons y st)
  have d: "distinct (filter (\<lambda>k. k \<noteq> None) (map keyOf st))" using Cons.prems(1) by (auto split: if_splits)
  show ?case
  proof (cases i)
    case 0
    then have "itemOf keyOf st k0 = None" unfolding itemOf_None using distinct_key_head [OF Cons.prems(1)] Cons.prems(3) by simp
    with 0 Cons.prems show ?thesis by (auto simp: itemOf_def remove_at_def)
  next
    case (Suc n)
    have "Some k0 \<in> set (map keyOf st)" using Cons.prems(2,3) Suc by (metis length_Cons length_map Suc_less_eq nth_Cons_Suc nth_map nth_mem)
    then have "keyOf y \<noteq> Some k0" using distinct_key_head [OF Cons.prems(1)] by blast
    then show ?thesis using Cons.IH [OF d, of n] Cons.prems(2,3) Suc by (auto simp: itemOf_def remove_at_def)
  qed
qed simp

section \<open>\<open>WeakMapObject\<close> keeps the contract\<close>

definition wm_linked :: "WeakMapObjectDataItem \<Rightarrow> bool" where
  "wm_linked item \<longleftrightarrow> wm_keyLink item = wm_key item \<and> wm_dataLink item = wm_key item"

definition wm_inv :: "WeakMapObject \<Rightarrow> bool" where
  "wm_inv m \<longleftrightarrow> weak_ok (map wm_key (wm_storage m)) (wm_hashIndex m) \<and> (\<forall>item \<in> set (wm_storage m). wm_linked item)"

definition wm_abs :: "WeakMapObject \<Rightarrow> addr \<Rightarrow> Value option" where
  "wm_abs m k = map_option wm_data (itemOf wm_key (wm_storage m) k)"

lemma wm_inv_distinct: "wm_inv m \<Longrightarrow> distinct (filter (\<lambda>k. k \<noteq> None) (map wm_key (wm_storage m)))"
  using weak_ok_keys by (auto simp: wm_inv_def)

lemma wm_find_ok:
  assumes "wm_inv m"
  obtains m' where "wm_findKeyIndex m key = Some (find_index (\<lambda>item. wm_key item = Some key) (wm_storage m'), m')"
    "wm_inv m'" "wm_abs m' = wm_abs m" "length (wm_storage m') \<le> length (wm_storage m)"
proof -
  obtain st' ixo' where f:
    "weakFindKeyIndex wm_key (wm_storage m) (wm_hashIndex m) key = Some (find_index (\<lambda>item. wm_key item = Some key) st', st', ixo')"
    "weak_ok (map wm_key st') ixo'" "st' = wm_storage m \<or> st' = filter (\<lambda>item. wm_key item \<noteq> None) (wm_storage m)"
    using weakFindKeyIndex_ok [of wm_key "wm_storage m" "wm_hashIndex m" key] assms by (auto simp: wm_inv_def)
  let ?m = "\<lparr>wm_storage = st', wm_hashIndex = ixo'\<rparr>"
  have "wm_inv ?m" using f(2,3) assms by (auto simp: wm_inv_def)
  moreover have "itemOf wm_key st' = itemOf wm_key (wm_storage m)" using f(3) itemOf_filter [of wm_key "wm_storage m"] by auto
  then have "wm_abs ?m = wm_abs m" by (simp add: wm_abs_def fun_eq_iff)
  moreover have "length st' \<le> length (wm_storage m)" using f(3) by auto
  ultimately show ?thesis using that [of ?m] f(1) by (simp add: wm_findKeyIndex_def)
qed

lemma wm_abs_index:
  "wm_abs m k = map_option (\<lambda>i. wm_data (wm_storage m ! i)) (find_index (\<lambda>item. wm_key item = Some k) (wm_storage m))"
  by (simp add: wm_abs_def itemOf_index option.map_comp comp_def)

lemma wm_update_inv:
  assumes "wm_inv m" "weak_ok ((map wm_key (wm_storage m))[i := wm_key x]) (wm_hashIndex m)" "wm_linked x"
  shows "wm_inv (m\<lparr>wm_storage := (wm_storage m)[i := x]\<rparr>)"
  using assms set_update_subset_insert [of "wm_storage m" i x] by (auto simp: wm_inv_def map_update)

lemma wm_setData_ok:
  assumes "wm_inv m" "find_index (\<lambda>item. wm_key item = Some k) (wm_storage m) = Some i"
  shows "wm_inv (wm_setData m i v)" "wm_abs (wm_setData m i v) = (wm_abs m)(k \<mapsto> v)"
proof -
  have i: "i < length (wm_storage m)" "wm_key (wm_storage m ! i) = Some k" using find_index_SomeD [OF assms(2)] by auto
  have "(map wm_key (wm_storage m))[i := Some k] = map wm_key (wm_storage m)"
    using i by (metis length_map list_update_id nth_map)
  then show "wm_inv (wm_setData m i v)"
    unfolding wm_setData_def using assms(1) i by (intro wm_update_inv) (auto simp: wm_inv_def wm_linked_def)
  show "wm_abs (wm_setData m i v) = (wm_abs m)(k \<mapsto> v)"
    using itemOf_update [OF wm_inv_distinct [OF assms(1)] i(1), of "(wm_storage m ! i)\<lparr>wm_data := v\<rparr>"] i
    by (auto simp: wm_abs_def wm_setData_def fun_eq_iff)
qed

lemma registerLast_append:
  "registerLast key (st @ [x]) = st @ [x\<lparr>wm_keyLink := Some key, wm_dataLink := Some key\<rparr>]"
  by (simp add: registerLast_def)

lemma wm_insertNew_ok:
  assumes inv: "wm_inv m" and new: "find_index (\<lambda>item. wm_key item = Some key) (wm_storage m) = None"
    and room: "length (wm_storage m) < 2 ^ 28"
  shows "\<exists>m'. wm_insertNew m key v = Some m' \<and> wm_inv m' \<and> wm_abs m' = (wm_abs m)(key \<mapsto> v) \<and>
    length (wm_storage m') \<le> Suc (length (wm_storage m))"
proof -
  have abs: "itemOf wm_key (wm_storage m) key = None" using new by (simp add: itemOf_index)
  then have fresh: "Some key \<notin> set (map wm_key (wm_storage m))" unfolding itemOf_None .
  show ?thesis
  proof (cases "if wm_hashIndex m = None then find_index (\<lambda>item. wm_key item = None) (wm_storage m) else None")
    case (Some i)
    then have ix: "wm_hashIndex m = None" and i: "i < length (wm_storage m)" "wm_key (wm_storage m ! i) = None"
      by (auto split: if_splits dest: find_index_SomeD)
    have "weak_ok ((map wm_key (wm_storage m))[i := Some key]) None"
      using inv ix i fresh by (intro weak_ok_reuse) (auto simp: wm_inv_def)
    then have "wm_inv (m\<lparr>wm_storage := (wm_storage m)[i := linkedItem key v]\<rparr>)"
      using inv ix by (intro wm_update_inv) (auto simp: linkedItem_def wm_linked_def)
    moreover have "wm_abs (m\<lparr>wm_storage := (wm_storage m)[i := linkedItem key v]\<rparr>) = (wm_abs m)(key \<mapsto> v)"
      using itemOf_update [OF wm_inv_distinct [OF inv] i(1), of "linkedItem key v"] i fresh
      by (auto simp: wm_abs_def linkedItem_def fun_eq_iff)
    ultimately show ?thesis using Some by (simp add: wm_insertNew_def)
  next
    case None
    let ?new = "\<lparr>wm_key = Some key, wm_data = v, wm_keyLink = None, wm_dataLink = None\<rparr>"
    obtain st' ixo' where a:
      "weakAddToHashIndex wm_key (wm_storage m @ [?new]) (wm_hashIndex m) (length (wm_storage m)) = Some (st' @ [?new], ixo')"
      "weak_ok (map wm_key (st' @ [?new])) ixo'"
      "st' = wm_storage m \<or> st' = filter (\<lambda>item. wm_key item \<noteq> None) (wm_storage m)"
      by (rule weakAddToHashIndex_ok [of wm_key "wm_storage m" "wm_hashIndex m" ?new key])
        (use inv fresh room in \<open>auto simp: wm_inv_def\<close>)
    let ?m = "\<lparr>wm_storage = st' @ [linkedItem key v], wm_hashIndex = ixo'\<rparr>"
    have "wm_insertNew m key v = Some ?m"
      using None a(1) by (simp add: wm_insertNew_def wm_addToHashIndex_def registerLast_append linkedItem_def Let_def)
    moreover have "wm_inv ?m" using a(2,3) inv by (auto simp: wm_inv_def wm_linked_def linkedItem_def)
    moreover have "itemOf wm_key st' = itemOf wm_key (wm_storage m)" using a(3) itemOf_filter [of wm_key "wm_storage m"] by auto
    then have "wm_abs ?m = (wm_abs m)(key \<mapsto> v)"
      using abs by (auto simp: wm_abs_def itemOf_append linkedItem_def fun_eq_iff split: option.splits)
    moreover have "length st' \<le> length (wm_storage m)" using a(3) by auto
    ultimately show ?thesis by simp
  qed
qed

lemma wm_put_law:
  assumes "wm_inv m" "length (wm_storage m) < 2 ^ 28"
  shows "\<exists>m'. wm_set m key v = Some m' \<and> wm_inv m' \<and> wm_abs m' = (wm_abs m)(key \<mapsto> v) \<and>
    length (wm_storage m') \<le> Suc (length (wm_storage m))"
proof -
  obtain m' where f: "wm_findKeyIndex m key = Some (find_index (\<lambda>item. wm_key item = Some key) (wm_storage m'), m')"
    "wm_inv m'" "wm_abs m' = wm_abs m" "length (wm_storage m') \<le> length (wm_storage m)" using wm_find_ok [OF assms(1)] by metis
  show ?thesis
  proof (cases "find_index (\<lambda>item. wm_key item = Some key) (wm_storage m')")
    case None
    with f wm_insertNew_ok [OF f(2) None, of v] assms(2) show ?thesis by (auto simp: wm_set_def)
  next
    case (Some i)
    with f wm_setData_ok [OF f(2) Some, of v] show ?thesis by (simp add: wm_set_def wm_setData_def)
  qed
qed

lemma wm_del_law:
  assumes "wm_inv m"
  shows "\<exists>m'. wm_deleteOperation m key = Some (wm_abs m key \<noteq> None, m') \<and> wm_inv m' \<and>
    wm_abs m' = (wm_abs m)(key := None) \<and> length (wm_storage m') \<le> length (wm_storage m)"
proof -
  obtain m1 where f: "wm_findKeyIndex m key = Some (find_index (\<lambda>item. wm_key item = Some key) (wm_storage m1), m1)"
    "wm_inv m1" "wm_abs m1 = wm_abs m" "length (wm_storage m1) \<le> length (wm_storage m)" using wm_find_ok [OF assms] by metis
  show ?thesis
  proof (cases "find_index (\<lambda>item. wm_key item = Some key) (wm_storage m1)")
    case None
    then have "wm_abs m key = None" using f(3) wm_abs_index [of m1 key] by simp
    with None f show ?thesis by (auto simp: wm_deleteOperation_def fun_eq_iff)
  next
    case (Some i)
    let ?st = "wm_storage m1"
    have i: "i < length ?st" "wm_key (?st ! i) = Some key" using find_index_SomeD [OF Some] by auto
    have d: "distinct (filter (\<lambda>k. k \<noteq> None) (map wm_key ?st))" by (rule wm_inv_distinct [OF f(2)])
    have found: "wm_abs m key \<noteq> None" using f(3) Some wm_abs_index [of m1 key] by simp
    show ?thesis
    proof (cases "wm_hashIndex m1")
      case None
      have "wm_inv (m1\<lparr>wm_storage := remove_at i ?st\<rparr>)"
        using f(2) None weak_ok_remove [of "map wm_key ?st" i] set_remove_at_subset [of i ?st]
        by (auto simp: wm_inv_def map_remove_at)
      moreover have "wm_abs (m1\<lparr>wm_storage := remove_at i ?st\<rparr>) = (wm_abs m)(key := None)"
        using itemOf_remove [OF d i] f(3) by (auto simp: wm_abs_def fun_eq_iff)
      moreover have "remove_at i (?st[i := x]) = remove_at i ?st" for x by (simp add: remove_at_def)
      ultimately show ?thesis using Some None f found i(1) by (simp add: wm_deleteOperation_def Let_def)
    next
      case ix: (Some ix)
      let ?x = "(?st ! i)\<lparr>wm_keyLink := None, wm_dataLink := None, wm_key := None, wm_data := EmptyValue\<rparr>"
      have "wm_inv (m1\<lparr>wm_storage := ?st[i := ?x]\<rparr>)"
        using f(2) weak_ok_clear by (intro wm_update_inv) (auto simp: wm_inv_def wm_linked_def)
      moreover have "wm_abs (m1\<lparr>wm_storage := ?st[i := ?x]\<rparr>) = (wm_abs m)(key := None)"
        using itemOf_update [OF d i(1), of ?x] i(2) f(3) by (auto simp: wm_abs_def fun_eq_iff)
      ultimately show ?thesis using Some ix f found i(1) by (simp add: wm_deleteOperation_def Let_def)
    qed
  qed
qed

lemma wm_has_law:
  assumes "wm_inv m"
  shows "\<exists>m'. wm_has m k = Some (wm_abs m k \<noteq> None, m') \<and> wm_inv m' \<and> wm_abs m' = wm_abs m \<and>
    length (wm_storage m') \<le> length (wm_storage m)"
proof -
  obtain m' where f: "wm_findKeyIndex m k = Some (find_index (\<lambda>item. wm_key item = Some k) (wm_storage m'), m')"
    "wm_inv m'" "wm_abs m' = wm_abs m" "length (wm_storage m') \<le> length (wm_storage m)" using wm_find_ok [OF assms] by metis
  then have "wm_abs m k = None \<longleftrightarrow> find_index (\<lambda>item. wm_key item = Some k) (wm_storage m') = None"
    using wm_abs_index [of m' k] by simp
  with f show ?thesis by (simp add: wm_has_def)
qed

lemma weak_ok_collect:
  assumes "weak_ok ks ixo" "\<And>k. f k = k \<or> f k = None"
  shows "weak_ok (map f ks) ixo"
proof -
  have "weak_ok (map f (take n ks) @ drop n ks) ixo" if "n \<le> length ks" for n
    using that
  proof (induction n)
    case (Suc n)
    let ?xs = "map f (take n ks) @ drop n ks"
    have ks: "drop n ks = ks ! n # drop (Suc n) ks" using Suc.prems by (simp add: Cons_nth_drop_Suc)
    have x: "map f (take (Suc n) ks) @ drop (Suc n) ks = ?xs[n := f (ks ! n)]"
      using Suc.prems ks by (simp add: take_Suc_conv_app_nth list_update_append)
    have "?xs ! n = ks ! n" using Suc.prems ks by (simp add: nth_append)
    then have "?xs[n := f (ks ! n)] = ?xs \<or> ?xs[n := f (ks ! n)] = ?xs[n := None]"
      using assms(2) [of "ks ! n"] by (metis list_update_id)
    with Suc weak_ok_clear [of ?xs ixo n] show ?case unfolding x by auto
  qed (use assms in simp)
  from this [of "length ks"] show ?thesis by simp
qed

lemma wm_collect_law:
  assumes "wm_inv m"
  shows "wm_inv (wm_collect m dead)" "length (wm_storage (wm_collect m dead)) = length (wm_storage m)"
    "wm_abs (wm_collect m dead) = (\<lambda>k. if k \<in> set dead then None else wm_abs m k)"
proof -
  let ?f = "\<lambda>k. case k of None \<Rightarrow> None | Some p \<Rightarrow> if p \<in> set dead then None else Some p"
  have item: "wm_key (wm_clearItem dead x) = ?f (wm_key x)" "wm_linked (wm_clearItem dead x)"
    "?f (wm_key x) \<noteq> None \<Longrightarrow> wm_clearItem dead x = x" if "wm_linked x" for x
    using that by (cases "wm_key x"; auto simp: wm_clearItem_def wm_linked_def Let_def)+
  have linked: "\<forall>x \<in> set (wm_storage m). wm_linked x" using assms by (simp add: wm_inv_def)
  have keys: "map wm_key (map (wm_clearItem dead) (wm_storage m)) = map ?f (map wm_key (wm_storage m))"
    using item(1) linked by simp
  have "weak_ok (map ?f (map wm_key (wm_storage m))) (wm_hashIndex m)"
    using assms by (intro weak_ok_collect) (auto simp: wm_inv_def split: option.splits)
  then have "weak_ok (map wm_key (map (wm_clearItem dead) (wm_storage m))) (wm_hashIndex m)" unfolding keys .
  then show "wm_inv (wm_collect m dead)"
    using item(2) linked by (simp add: wm_inv_def wm_collect_def)
  show "length (wm_storage (wm_collect m dead)) = length (wm_storage m)" by (simp add: wm_collect_def)
  have "itemOf wm_key (map (wm_clearItem dead) st) k = (if k \<in> set dead then None else itemOf wm_key st k)"
    if "\<forall>x \<in> set st. wm_linked x" for st k
    using that
  proof (induction st)
    case (Cons x st)
    then have x: "wm_linked x" by simp
    show ?case
      using Cons item(1) [OF x] item(3) [OF x] by (cases "wm_key x") (auto simp: itemOf_def)
  qed (simp add: itemOf_def)
  with linked show "wm_abs (wm_collect m dead) = (\<lambda>k. if k \<in> set dead then None else wm_abs m k)"
    by (simp add: wm_abs_def wm_collect_def fun_eq_iff)
qed

interpretation js_weakmap: weak_collection wm_inv "\<lambda>m. length (wm_storage m)" wm_abs "2 ^ 28"
  wm_has wm_set wm_deleteOperation wm_collect
  by unfold_locales (use wm_has_law wm_put_law wm_del_law wm_collect_law in auto)

section \<open>\<open>WeakSetObject\<close> keeps the contract\<close>

text \<open>A weak set is a weak map to unit.\<close>

definition ws_inv :: "WeakSetObject \<Rightarrow> bool" where
  "ws_inv s \<longleftrightarrow> weak_ok (map ws_key (ws_storage s)) (ws_hashIndex s) \<and>
     (\<forall>item \<in> set (ws_storage s). ws_keyLink item = ws_key item)"

definition ws_abs :: "WeakSetObject \<Rightarrow> addr \<Rightarrow> unit option" where
  "ws_abs s k = map_option (\<lambda>_. ()) (itemOf ws_key (ws_storage s) k)"

lemma ws_find_ok:
  assumes "ws_inv s"
  obtains s' where "ws_findKeyIndex s key = Some (find_index (\<lambda>item. ws_key item = Some key) (ws_storage s'), s')"
    "ws_inv s'" "ws_abs s' = ws_abs s" "length (ws_storage s') \<le> length (ws_storage s)"
proof -
  obtain st' ixo' where f:
    "weakFindKeyIndex ws_key (ws_storage s) (ws_hashIndex s) key = Some (find_index (\<lambda>item. ws_key item = Some key) st', st', ixo')"
    "weak_ok (map ws_key st') ixo'" "st' = ws_storage s \<or> st' = filter (\<lambda>item. ws_key item \<noteq> None) (ws_storage s)"
    using weakFindKeyIndex_ok [of ws_key "ws_storage s" "ws_hashIndex s" key] assms by (auto simp: ws_inv_def)
  let ?s = "\<lparr>ws_storage = st', ws_hashIndex = ixo'\<rparr>"
  have "ws_inv ?s" using f(2,3) assms by (auto simp: ws_inv_def)
  moreover have "itemOf ws_key st' = itemOf ws_key (ws_storage s)" using f(3) itemOf_filter [of ws_key "ws_storage s"] by auto
  then have "ws_abs ?s = ws_abs s" by (simp add: ws_abs_def fun_eq_iff)
  moreover have "length st' \<le> length (ws_storage s)" using f(3) by auto
  ultimately show ?thesis using that [of ?s] f(1) by (simp add: ws_findKeyIndex_def)
qed

lemma ws_abs_index: "ws_abs s k = None \<longleftrightarrow> find_index (\<lambda>item. ws_key item = Some k) (ws_storage s) = None"
  by (simp add: ws_abs_def itemOf_index)

lemma ws_inv_distinct: "ws_inv s \<Longrightarrow> distinct (filter (\<lambda>k. k \<noteq> None) (map ws_key (ws_storage s)))"
  using weak_ok_keys by (auto simp: ws_inv_def)

lemma ws_update_inv:
  assumes "ws_inv s" "weak_ok ((map ws_key (ws_storage s))[i := ws_key x]) (ws_hashIndex s)" "ws_keyLink x = ws_key x"
  shows "ws_inv (s\<lparr>ws_storage := (ws_storage s)[i := x]\<rparr>)"
  using assms set_update_subset_insert [of "ws_storage s" i x] by (auto simp: ws_inv_def map_update)

lemma ws_add_ok:
  assumes "ws_inv s" "length (ws_storage s) < 2 ^ 28"
  shows "\<exists>s'. ws_add s key = Some s' \<and> ws_inv s' \<and> ws_abs s' = (ws_abs s)(key \<mapsto> ()) \<and>
    length (ws_storage s') \<le> Suc (length (ws_storage s))"
proof -
  obtain t where f: "ws_findKeyIndex s key = Some (find_index (\<lambda>item. ws_key item = Some key) (ws_storage t), t)"
    "ws_inv t" "ws_abs t = ws_abs s" "length (ws_storage t) \<le> length (ws_storage s)" using ws_find_ok [OF assms(1)] by metis
  show ?thesis
  proof (cases "find_index (\<lambda>item. ws_key item = Some key) (ws_storage t)")
    case (Some i)
    then have "ws_abs t key = Some ()" using ws_abs_index [of t key] by (cases "ws_abs t key") auto
    with Some f show ?thesis by (auto simp: ws_add_def fun_eq_iff)
  next
    case new: None
    have abs: "itemOf ws_key (ws_storage t) key = None" using new by (simp add: itemOf_index)
    then have fresh: "Some key \<notin> set (map ws_key (ws_storage t))" unfolding itemOf_None .
    show ?thesis
    proof (cases "if ws_hashIndex t = None then find_index (\<lambda>item. ws_key item = None) (ws_storage t) else None")
      case (Some i)
      let ?x = "\<lparr>ws_key = Some key, ws_keyLink = Some key\<rparr>"
      have ix: "ws_hashIndex t = None" and i: "i < length (ws_storage t)" "ws_key (ws_storage t ! i) = None"
        using Some by (auto split: if_splits dest: find_index_SomeD)
      have "weak_ok ((map ws_key (ws_storage t))[i := Some key]) None"
        using f(2) ix i fresh by (intro weak_ok_reuse) (auto simp: ws_inv_def)
      then have "ws_inv (t\<lparr>ws_storage := (ws_storage t)[i := ?x]\<rparr>)" using f(2) ix by (intro ws_update_inv) auto
      moreover have "ws_abs (t\<lparr>ws_storage := (ws_storage t)[i := ?x]\<rparr>) = (ws_abs s)(key \<mapsto> ())"
        using itemOf_update [OF ws_inv_distinct [OF f(2)] i(1), of ?x] i fresh f(3) [symmetric]
        by (auto simp: ws_abs_def fun_eq_iff)
      ultimately show ?thesis using Some new f by (simp add: ws_add_def)
    next
      case None
      let ?new = "\<lparr>ws_key = Some key, ws_keyLink = None\<rparr>"
      obtain st' ixo' where a:
        "weakAddToHashIndex ws_key (ws_storage t @ [?new]) (ws_hashIndex t) (length (ws_storage t)) = Some (st' @ [?new], ixo')"
        "weak_ok (map ws_key (st' @ [?new])) ixo'"
        "st' = ws_storage t \<or> st' = filter (\<lambda>item. ws_key item \<noteq> None) (ws_storage t)"
        by (rule weakAddToHashIndex_ok [of ws_key "ws_storage t" "ws_hashIndex t" ?new key])
          (use f fresh assms(2) in \<open>auto simp: ws_inv_def\<close>)
      let ?s = "\<lparr>ws_storage = st' @ [\<lparr>ws_key = Some key, ws_keyLink = Some key\<rparr>], ws_hashIndex = ixo'\<rparr>"
      have "ws_add s key = Some ?s"
        using None new f(1) a(1) by (simp add: ws_add_def ws_addToHashIndex_def registerLastKey_def Let_def)
      moreover have "ws_inv ?s" using a(2,3) f(2) by (auto simp: ws_inv_def)
      moreover have "itemOf ws_key st' = itemOf ws_key (ws_storage t)" using a(3) itemOf_filter [of ws_key "ws_storage t"] by auto
      then have "ws_abs ?s = (ws_abs s)(key \<mapsto> ())"
        using abs f(3) [symmetric] by (auto simp: ws_abs_def itemOf_append fun_eq_iff split: option.splits)
      moreover have "length st' \<le> length (ws_storage t)" using a(3) by auto
      ultimately show ?thesis using f(4) by simp
    qed
  qed
qed

lemma ws_del_law:
  assumes "ws_inv s"
  shows "\<exists>s'. ws_deleteOperation s key = Some (ws_abs s key \<noteq> None, s') \<and> ws_inv s' \<and>
    ws_abs s' = (ws_abs s)(key := None) \<and> length (ws_storage s') \<le> length (ws_storage s)"
proof -
  obtain t where f: "ws_findKeyIndex s key = Some (find_index (\<lambda>item. ws_key item = Some key) (ws_storage t), t)"
    "ws_inv t" "ws_abs t = ws_abs s" "length (ws_storage t) \<le> length (ws_storage s)" using ws_find_ok [OF assms] by metis
  show ?thesis
  proof (cases "find_index (\<lambda>item. ws_key item = Some key) (ws_storage t)")
    case None
    then have "ws_abs s key = None" using f(3) ws_abs_index [of t key] by simp
    with None f show ?thesis by (auto simp: ws_deleteOperation_def fun_eq_iff)
  next
    case (Some i)
    let ?st = "ws_storage t"
    have i: "i < length ?st" "ws_key (?st ! i) = Some key" using find_index_SomeD [OF Some] by auto
    have d: "distinct (filter (\<lambda>k. k \<noteq> None) (map ws_key ?st))" by (rule ws_inv_distinct [OF f(2)])
    have found: "ws_abs s key \<noteq> None" using f(3) Some ws_abs_index [of t key] by simp
    show ?thesis
    proof (cases "ws_hashIndex t")
      case None
      have "ws_inv (t\<lparr>ws_storage := remove_at i ?st\<rparr>)"
        using f(2) None weak_ok_remove [of "map ws_key ?st" i] set_remove_at_subset [of i ?st]
        by (auto simp: ws_inv_def map_remove_at)
      moreover have "ws_abs (t\<lparr>ws_storage := remove_at i ?st\<rparr>) = (ws_abs s)(key := None)"
        using itemOf_remove [OF d i] f(3) [symmetric] by (auto simp: ws_abs_def fun_eq_iff)
      moreover have "remove_at i (?st[i := x]) = remove_at i ?st" for x by (simp add: remove_at_def)
      ultimately show ?thesis using Some None f found i(1) by (simp add: ws_deleteOperation_def Let_def)
    next
      case ix: (Some ix)
      let ?x = "(?st ! i)\<lparr>ws_keyLink := None, ws_key := None\<rparr>"
      have "ws_inv (t\<lparr>ws_storage := ?st[i := ?x]\<rparr>)"
        using f(2) weak_ok_clear by (intro ws_update_inv) (auto simp: ws_inv_def)
      moreover have "ws_abs (t\<lparr>ws_storage := ?st[i := ?x]\<rparr>) = (ws_abs s)(key := None)"
        using itemOf_update [OF d i(1), of ?x] i(2) f(3) [symmetric] by (auto simp: ws_abs_def fun_eq_iff)
      ultimately show ?thesis using Some ix f found i(1) by (simp add: ws_deleteOperation_def Let_def)
    qed
  qed
qed

lemma ws_has_law:
  assumes "ws_inv s"
  shows "\<exists>s'. ws_has s k = Some (ws_abs s k \<noteq> None, s') \<and> ws_inv s' \<and> ws_abs s' = ws_abs s \<and>
    length (ws_storage s') \<le> length (ws_storage s)"
proof -
  obtain t where f: "ws_findKeyIndex s k = Some (find_index (\<lambda>item. ws_key item = Some k) (ws_storage t), t)"
    "ws_inv t" "ws_abs t = ws_abs s" "length (ws_storage t) \<le> length (ws_storage s)" using ws_find_ok [OF assms] by metis
  with ws_abs_index [of t k] show ?thesis by (simp add: ws_has_def)
qed

lemma ws_collect_law:
  assumes "ws_inv s"
  shows "ws_inv (ws_collect s dead)" "length (ws_storage (ws_collect s dead)) = length (ws_storage s)"
    "ws_abs (ws_collect s dead) = (\<lambda>k. if k \<in> set dead then None else ws_abs s k)"
proof -
  let ?f = "\<lambda>k. case k of None \<Rightarrow> None | Some p \<Rightarrow> if p \<in> set dead then None else Some p"
  have item: "ws_key (ws_clearItem dead x) = ?f (ws_key x)" "ws_keyLink (ws_clearItem dead x) = ws_key (ws_clearItem dead x)"
    "?f (ws_key x) \<noteq> None \<Longrightarrow> ws_clearItem dead x = x" if "ws_keyLink x = ws_key x" for x
    using that by (cases "ws_key x"; auto simp: ws_clearItem_def)+
  have linked: "\<forall>x \<in> set (ws_storage s). ws_keyLink x = ws_key x" using assms by (simp add: ws_inv_def)
  have keys: "map ws_key (map (ws_clearItem dead) (ws_storage s)) = map ?f (map ws_key (ws_storage s))"
    using item(1) linked by simp
  have "weak_ok (map ?f (map ws_key (ws_storage s))) (ws_hashIndex s)"
    using assms by (intro weak_ok_collect) (auto simp: ws_inv_def split: option.splits)
  then have "weak_ok (map ws_key (map (ws_clearItem dead) (ws_storage s))) (ws_hashIndex s)" unfolding keys .
  then show "ws_inv (ws_collect s dead)" using item(2) linked by (simp add: ws_inv_def ws_collect_def)
  show "length (ws_storage (ws_collect s dead)) = length (ws_storage s)" by (simp add: ws_collect_def)
  have "itemOf ws_key (map (ws_clearItem dead) st) k = (if k \<in> set dead then None else itemOf ws_key st k)"
    if "\<forall>x \<in> set st. ws_keyLink x = ws_key x" for st k
    using that
  proof (induction st)
    case (Cons x st)
    then have x: "ws_keyLink x = ws_key x" by simp
    show ?case
      using Cons item(1) [OF x] item(3) [OF x] by (cases "ws_key x") (auto simp: itemOf_def)
  qed (simp add: itemOf_def)
  with linked show "ws_abs (ws_collect s dead) = (\<lambda>k. if k \<in> set dead then None else ws_abs s k)"
    by (simp add: ws_abs_def ws_collect_def fun_eq_iff)
qed

interpretation js_weakset: weak_collection ws_inv "\<lambda>s. length (ws_storage s)" ws_abs "2 ^ 28"
  ws_has "\<lambda>s k _. ws_add s k" ws_deleteOperation ws_collect
  by unfold_locales (use ws_has_law ws_add_ok ws_del_law ws_collect_law in auto)

section \<open>Properties\<close>

lemma wm_new_ok: "wm_inv wm_new" "wm_abs wm_new = (\<lambda>_. None)" "wm_storage wm_new = []"
  by (auto simp: wm_inv_def wm_new_def wm_abs_def itemOf_def weak_ok_def collection_ok_def keys_ok_def)

lemma ws_new_ok: "ws_inv ws_new" "ws_abs ws_new = (\<lambda>_. None)" "ws_storage ws_new = []"
  by (auto simp: ws_inv_def ws_new_def ws_abs_def itemOf_def weak_ok_def collection_ok_def keys_ok_def)

text \<open>C33: any interleaving of at most \<open>2^28\<close> operations and garbage collections on a fresh \<open>WeakMap\<close> returns and
  behaves as a finite map from which every collection takes exactly the reclaimed keys: no entry of a live key is
  lost, none of a reclaimed key is found again, even when its address is reused for a new key.\<close>

theorem weakmap_refines_map:
  assumes "length ops \<le> 2 ^ 28"
  shows "\<exists>m'. js_weakmap.run ops wm_new = Some (fst (spec_weak_run ops (\<lambda>_. None)), m') \<and>
    wm_abs m' = snd (spec_weak_run ops (\<lambda>_. None)) \<and>
    (\<forall>k. \<exists>m''. wm_get m' k = Some (case snd (spec_weak_run ops (\<lambda>_. None)) k of None \<Rightarrow> Undefined | Some v \<Rightarrow> v, m''))"
proof -
  obtain m' where m': "js_weakmap.run ops wm_new = Some (fst (spec_weak_run ops (\<lambda>_. None)), m')" "wm_inv m'"
    "wm_abs m' = snd (spec_weak_run ops (\<lambda>_. None))"
    using js_weakmap.run_refines [OF wm_new_ok(1), of ops] assms wm_new_ok by auto
  have "\<exists>m''. wm_get m' k = Some (case wm_abs m' k of None \<Rightarrow> Undefined | Some v \<Rightarrow> v, m'')" for k
  proof -
    obtain m1 where "wm_findKeyIndex m' k = Some (find_index (\<lambda>item. wm_key item = Some k) (wm_storage m1), m1)"
      "wm_abs m1 = wm_abs m'" using wm_find_ok [OF m'(2)] by metis
    with wm_abs_index [of m1 k] show ?thesis by (auto simp: wm_get_def split: option.splits)
  qed
  with m' show ?thesis by auto
qed

theorem weakmap_refines_map_witness:
  "\<exists>m'. js_weakmap.run [WeakPut 16 Null, WeakPut 32 Undefined, WeakCollect [16], WeakHas 16, WeakPut 16 (Int32 1), WeakDelete 32, WeakHas 16] wm_new =
    Some ([True, True, True, False, True, True, True], m')"
  using weakmap_refines_map [of "[WeakPut 16 Null, WeakPut 32 Undefined, WeakCollect [16], WeakHas 16, WeakPut 16 (Int32 1), WeakDelete 32, WeakHas 16]"]
  by (auto simp del: js_weakmap.run.simps)

text \<open>any interleaving of at most \<open>2^28\<close> operations and garbage collections on a fresh \<open>WeakSet\<close> returns and
  behaves as a set from which every collection takes exactly the reclaimed members.\<close>

theorem weakset_refines_set:
  assumes "length ops \<le> 2 ^ 28"
  shows "\<exists>s'. js_weakset.run ops ws_new = Some (fst (spec_weak_run ops (\<lambda>_. None)), s') \<and>
    ws_abs s' = snd (spec_weak_run ops (\<lambda>_. None))"
  using js_weakset.run_refines [OF ws_new_ok(1), of ops] assms ws_new_ok by auto

theorem weakset_refines_set_witness:
  "\<exists>s'. js_weakset.run [WeakPut 16 (), WeakPut 32 (), WeakCollect [16], WeakHas 16, WeakHas 32] ws_new =
    Some ([True, True, True, False, True], s')"
  using weakset_refines_set [of "[WeakPut 16 (), WeakPut 32 (), WeakCollect [16], WeakHas 16, WeakHas 32]"]
  by (auto simp del: js_weakset.run.simps)

end
