(* ===== verification/Calendar.thy ===== *)
theory Calendar
  imports Prelude "HOL-Library.Signed_Division"
begin

text \<open>
  The proleptic Gregorian calendar and the rounding of instants, \<open>src/util/ISO8601.cpp\<close> and \<open>ISO8601.h\<close>. \<open>int\<close> and
  \<open>Int128\<close> values are integers with \<open>/\<close> and \<open>%\<close> as the truncating \<open>sdiv\<close> and \<open>smod\<close>; every value the properties speak about is
  far inside the width of its type. \<open>daysFrom1970ToYear\<close> computes on doubles that hold integers below
  \<open>2^53\<close>, and the floor of a quotient of two such numbers is the floor of the exact quotient, so it is
  integer floor division. The lemmas show that the day number counts days one by one, that it orders dates,
  and that the two rounding functions are the mathematical ones in all nine modes.
\<close>

section \<open>Dates\<close>

definition isLeapYear :: "int \<Rightarrow> bool" where
  "isLeapYear year =
     (if year smod 4 \<noteq> 0 then False
      else if year smod 400 = 0 then True
      else if year smod 100 = 0 then False
      else True)"

definition daysInMonths :: "nat list list" where
  "daysInMonths = [[31, 28, 31, 30, 31, 30, 31, 31, 30, 31, 30, 31], [31, 29, 31, 30, 31, 30, 31, 31, 30, 31, 30, 31]]"

definition daysInMonth :: "int \<Rightarrow> nat \<Rightarrow> nat" where
  "daysInMonth year month = daysInMonths ! (if isLeapYear year then 1 else 0) ! (month - 1)"

definition daysInMonthLeap :: "nat \<Rightarrow> nat" where
  "daysInMonthLeap month = daysInMonths ! 1 ! (month - 1)"

definition daysFrom1970ToYear :: "int \<Rightarrow> int" where
  "daysFrom1970ToYear year =
     (let leapDaysBefore1971By4Rule = 1970 sdiv 4;
          excludedLeapDaysBefore1971By100Rule = 1970 sdiv 100;
          leapDaysBefore1971By400Rule = 1970 sdiv 400;
          yearMinusOne = year - 1;
          yearsToAddBy4Rule = yearMinusOne div 4 - leapDaysBefore1971By4Rule;
          yearsToExcludeBy100Rule = yearMinusOne div 100 - excludedLeapDaysBefore1971By100Rule;
          yearsToAddBy400Rule = yearMinusOne div 400 - leapDaysBefore1971By400Rule
      in 365 * (year - 1970) + yearsToAddBy4Rule - yearsToExcludeBy100Rule + yearsToAddBy400Rule)"

definition firstDayOfMonth :: "int list list" where
  "firstDayOfMonth =
     [[0, 31, 59, 90, 120, 151, 181, 212, 243, 273, 304, 334],
      [0, 31, 60, 91, 121, 152, 182, 213, 244, 274, 305, 335]]"

definition dayInYear :: "int \<Rightarrow> int \<Rightarrow> int \<Rightarrow> int" where
  "dayInYear year month day = firstDayOfMonth ! (if isLeapYear year then 1 else 0) ! nat month + day - 1"

text \<open>The year is an \<open>int32_t\<close> in the code; the model has no bound on it, as adding the months to a year of at most six digits does not wrap. The assertion on the sign
  of the first day of the year holds by \<open>daysFrom1970ToYear_sign\<close>.\<close>

definition dateToDaysFrom1970 :: "int \<Rightarrow> int \<Rightarrow> int \<Rightarrow> int" where
  "dateToDaysFrom1970 year0 month0 day =
     (let year1 = year0 + month0 sdiv 12;
          month1 = month0 smod 12;
          (year, month) = (if month1 < 0 then (year1 - 1, month1 + 12) else (year1, month1))
      in daysFrom1970ToYear year + dayInYear year month day)"

text \<open>The bit fields of \<open>PlainDate\<close> are signed, 21, 5 and 6 bits wide.\<close>

record PlainDate =
  d_year :: int
  d_month :: nat
  d_day :: nat

definition signedField :: "nat \<Rightarrow> int \<Rightarrow> int" where
  "signedField w x = (x + 2 ^ (w - 1)) mod 2 ^ w - 2 ^ (w - 1)"

definition mkPlainDate :: "int \<Rightarrow> nat \<Rightarrow> nat \<Rightarrow> PlainDate" where
  "mkPlainDate year month day =
     \<lparr>d_year = signedField 21 year,
      d_month = nat (signedField 5 (int month) mod 2 ^ 8),
      d_day = nat (signedField 6 (int day) mod 2 ^ 8)\<rparr>"

definition compareDate :: "PlainDate \<Rightarrow> PlainDate \<Rightarrow> int" where
  "compareDate a b =
     (if d_year a > d_year b then 1
      else if d_year a < d_year b then -1
      else if d_month a > d_month b then 1
      else if d_month a < d_month b then -1
      else if d_day a > d_day b then 1
      else if d_day a < d_day b then -1
      else 0)"

text \<open>The bit fields of \<open>PlainTime\<close>: three bytes and three fields of 10 bits.\<close>

record PlainTime =
  t_hour :: nat
  t_minute :: nat
  t_second :: nat
  t_millisecond :: nat
  t_microsecond :: nat
  t_nanosecond :: nat

definition mkPlainTime :: "nat \<Rightarrow> nat \<Rightarrow> nat \<Rightarrow> nat \<Rightarrow> nat \<Rightarrow> nat \<Rightarrow> PlainTime" where
  "mkPlainTime hour minute second millisecond microsecond nanosecond =
     \<lparr>t_hour = hour mod 2 ^ 8, t_minute = minute mod 2 ^ 8, t_second = second mod 2 ^ 8,
      t_millisecond = millisecond mod 2 ^ 10, t_microsecond = microsecond mod 2 ^ 10, t_nanosecond = nanosecond mod 2 ^ 10\<rparr>"

definition compareTime :: "PlainTime \<Rightarrow> PlainTime \<Rightarrow> int" where
  "compareTime a b =
     (if t_hour a > t_hour b then 1 else if t_hour a < t_hour b then -1
      else if t_minute a > t_minute b then 1 else if t_minute a < t_minute b then -1
      else if t_second a > t_second b then 1 else if t_second a < t_second b then -1
      else if t_millisecond a > t_millisecond b then 1 else if t_millisecond a < t_millisecond b then -1
      else if t_microsecond a > t_microsecond b then 1 else if t_microsecond a < t_microsecond b then -1
      else if t_nanosecond a > t_nanosecond b then 1 else if t_nanosecond a < t_nanosecond b then -1
      else 0)"

section \<open>Instants\<close>

definition nsPerMicrosecond :: int where "nsPerMicrosecond = 1000"
definition nsPerMillisecond :: int where "nsPerMillisecond = 1000000"
definition nsPerSecond :: int where "nsPerSecond = 1000000000"
definition nsPerMinute :: int where "nsPerMinute = nsPerSecond * 60"
definition nsPerHour :: int where "nsPerHour = nsPerMinute * 60"
definition nsPerDay :: int where "nsPerDay = nsPerHour * 24"
definition dayRangeSeconds :: int where "dayRangeSeconds = 8640000000000"
definition minValue :: int where "minValue = - dayRangeSeconds * nsPerSecond"
definition maxValue :: int where "maxValue = dayRangeSeconds * nsPerSecond"

text \<open>The assertions on the ranges of the parts, which \<open>date_ok\<close> and \<open>time_ok\<close> imply, are left out. The sum is an \<open>Int128\<close>, which it does not leave for such parts.\<close>

definition fromISOPartsAndOffset :: "PlainDate \<Rightarrow> PlainTime \<Rightarrow> int \<Rightarrow> int" where
  "fromISOPartsAndOffset date time offset =
     (let dateDays = dateToDaysFrom1970 (d_year date) (int (d_month date) - 1) (int (d_day date));
          utcNanoseconds = dateDays * nsPerDay + int (t_hour time) * nsPerHour + int (t_minute time) * nsPerMinute +
            int (t_second time) * nsPerSecond + int (t_millisecond time) * nsPerMillisecond +
            int (t_microsecond time) * nsPerMicrosecond + int (t_nanosecond time)
      in utcNanoseconds - offset)"

definition midnight :: PlainTime where
  "midnight = mkPlainTime 0 0 0 0 0 0"

definition fromPlainDate :: "PlainDate \<Rightarrow> int" where
  "fromPlainDate src = fromISOPartsAndOffset src midnight 0"

definition fromPlainDateTime :: "PlainDate \<Rightarrow> PlainTime \<Rightarrow> int" where
  "fromPlainDateTime plainDate plainTime = fromISOPartsAndOffset plainDate plainTime 0"

definition isoDateTimeWithinLimitsNs :: "int \<Rightarrow> bool" where
  "isoDateTimeWithinLimitsNs nanoseconds =
     (if nanoseconds \<le> minValue - nsPerDay then False
      else if nanoseconds \<ge> maxValue + nsPerDay then False
      else True)"

definition isDateTimeWithinLimits :: "PlainDate \<Rightarrow> PlainTime \<Rightarrow> bool" where
  "isDateTimeWithinLimits date time = isoDateTimeWithinLimitsNs (fromISOPartsAndOffset date time 0)"

definition isoDateWithinLimits :: "PlainDate \<Rightarrow> bool" where
  "isoDateWithinLimits date = isDateTimeWithinLimits date (mkPlainTime 12 0 0 0 0 0)"

definition isValidEpochNanoseconds :: "int \<Rightarrow> bool" where
  "isValidEpochNanoseconds s = (if s < minValue \<or> s > maxValue then False else True)"

definition isYearWithinLimits :: "int \<Rightarrow> bool" where
  "isYearWithinLimits year \<longleftrightarrow> year \<ge> -271821 \<and> year \<le> 275760"

definition epochMilliseconds :: "int \<Rightarrow> int" where
  "epochMilliseconds ns = ns sdiv nsPerMillisecond"

definition floorEpochMilliseconds :: "int \<Rightarrow> int" where
  "floorEpochMilliseconds ns =
     (let d = ns sdiv nsPerMillisecond; r = ns smod nsPerMillisecond
      in if r \<noteq> 0 \<and> ns < 0 then d - 1 else d)"

section \<open>Rounding\<close>

datatype DateTimeUnit = Year | Month | Week | Day | Hour | Minute | Second | Millisecond | Microsecond | Nanosecond

datatype RoundingMode = Ceil | Floor | Expand | Trunc | HalfCeil | HalfFloor | HalfExpand | HalfTrunc | HalfEven

datatype UnsignedRoundingMode = UInfinity | UZero | UHalfInfinity | UHalfZero | UHalfEven

definition lengthInNanoseconds :: "DateTimeUnit \<Rightarrow> int" where
  "lengthInNanoseconds unit =
     (case unit of
        Nanosecond \<Rightarrow> 1
      | Microsecond \<Rightarrow> 1000
      | Millisecond \<Rightarrow> 1000 * 1000
      | Second \<Rightarrow> 1000 * 1000 * 1000
      | Minute \<Rightarrow> 1000 * 1000 * 1000 * 60
      | Hour \<Rightarrow> 1000 * 1000 * 1000 * 60 * 60
      | _ \<Rightarrow> 1000 * 1000 * 1000 * 60 * 60 * 24)"

definition resolveNanosecondsValueByUnit :: "DateTimeUnit \<Rightarrow> int" where
  "resolveNanosecondsValueByUnit unit =
     (let msPerDay = 24 * 60 * 60 * 1000
      in case unit of
        Hour \<Rightarrow> 24
      | Minute \<Rightarrow> 60 * 24
      | Second \<Rightarrow> 60 * 60 * 24
      | Millisecond \<Rightarrow> msPerDay
      | Microsecond \<Rightarrow> msPerDay * 1000
      | Nanosecond \<Rightarrow> nsPerDay
      | _ \<Rightarrow> 0)"

definition getUnsignedRoundingMode :: "RoundingMode \<Rightarrow> bool \<Rightarrow> UnsignedRoundingMode" where
  "getUnsignedRoundingMode roundingMode isNegative =
     (case roundingMode of
        Ceil \<Rightarrow> if isNegative then UZero else UInfinity
      | Floor \<Rightarrow> if isNegative then UInfinity else UZero
      | Expand \<Rightarrow> UInfinity
      | Trunc \<Rightarrow> UZero
      | HalfCeil \<Rightarrow> if isNegative then UHalfZero else UHalfInfinity
      | HalfFloor \<Rightarrow> if isNegative then UHalfInfinity else UHalfZero
      | HalfExpand \<Rightarrow> UHalfInfinity
      | HalfTrunc \<Rightarrow> UHalfZero
      | HalfEven \<Rightarrow> UHalfEven)"

definition roundNumberToIncrement :: "int \<Rightarrow> int \<Rightarrow> RoundingMode \<Rightarrow> int" where
  "roundNumberToIncrement x increment roundingMode =
     (let quotient = x sdiv increment;
          remainder = x smod increment;
          isNegative = x < 0;
          r1 = \<bar>quotient\<bar>;
          r2 = r1 + 1;
          even = r1 smod 2;
          unsignedRoundingMode = getUnsignedRoundingMode roundingMode isNegative;
          rounded =
            (if \<bar>x\<bar> = r1 * increment then r1
             else if unsignedRoundingMode = UZero then r1
             else if unsignedRoundingMode = UInfinity then r2
             else if \<bar>remainder * 2\<bar> < increment then r1
             else if \<bar>remainder * 2\<bar> > increment then r2
             else if unsignedRoundingMode = UHalfZero then r1
             else if unsignedRoundingMode = UHalfInfinity then r2
             else if even = 0 then r1 else r2)
      in (if isNegative then - rounded else rounded) * increment)"

definition roundNumberToIncrementAsIfPositive :: "int \<Rightarrow> int \<Rightarrow> RoundingMode \<Rightarrow> int" where
  "roundNumberToIncrementAsIfPositive x increment roundingMode =
     (let quotient = x sdiv increment;
          unsignedRoundingMode = getUnsignedRoundingMode roundingMode False;
          (r1, r2) = (if x < 0 then (quotient - 1, quotient) else (quotient, quotient + 1));
          doubleRemainder = (x - r1 * increment) * 2;
          even = r1 smod 2
      in if quotient * increment = x then x
         else if unsignedRoundingMode = UZero then r1 * increment
         else if unsignedRoundingMode = UInfinity then r2 * increment
         else if doubleRemainder < increment then r1 * increment
         else if doubleRemainder > increment then r2 * increment
         else if unsignedRoundingMode = UHalfZero then r1 * increment
         else if unsignedRoundingMode = UHalfInfinity then r2 * increment
         else if even = 0 then r1 * increment else r2 * increment)"

definition roundTemporalInstant :: "int \<Rightarrow> int \<Rightarrow> DateTimeUnit \<Rightarrow> RoundingMode \<Rightarrow> int" where
  "roundTemporalInstant ns increment unit roundingMode =
     (let unitLength = lengthInNanoseconds unit;
          incrementNs = increment * unitLength
      in roundNumberToIncrementAsIfPositive ns incrementNs roundingMode)"

definition exactTimeRound :: "int \<Rightarrow> int \<Rightarrow> DateTimeUnit \<Rightarrow> RoundingMode \<Rightarrow> int" where
  "exactTimeRound epochNanoseconds increment unit roundingMode =
     roundTemporalInstant epochNanoseconds increment unit roundingMode"

section \<open>Day numbers\<close>

lemma smod_eq_0_iff: "k smod l = 0 \<longleftrightarrow> l dvd (k :: int)"
  by (auto simp: signed_modulo_int_def sgn_if mod_eq_0_iff_dvd)

lemma div_pred:
  fixes y n :: int
  assumes "0 < n"
  shows "(y - 1) div n = (if n dvd y then y div n - 1 else y div n)"
proof (cases "n dvd y")
  case True
  then have "y - 1 = n * (y div n - 1) + (n - 1)" by (simp add: right_diff_distrib)
  then have "(y - 1) div n = y div n - 1" using assms by (intro int_div_pos_eq [of _ _ _ "n - 1"]) auto
  with True show ?thesis by simp
next
  case False
  then have "y mod n \<noteq> 0" by (simp add: dvd_eq_mod_eq_0)
  moreover have "y - 1 = n * (y div n) + (y mod n - 1)" by simp
  moreover have "0 \<le> y mod n" "y mod n < n" using assms by auto
  ultimately have "(y - 1) div n = y div n" by (intro int_div_pos_eq [of _ _ _ "y mod n - 1"]) auto
  with False show ?thesis by simp
qed

lemma isLeapYear_iff: "isLeapYear y \<longleftrightarrow> 4 dvd y \<and> (400 dvd y \<or> \<not> 100 dvd y)"
  by (auto simp: isLeapYear_def smod_eq_0_iff)

lemma daysFrom1970ToYear_Suc:
  "daysFrom1970ToYear (y + 1) = daysFrom1970ToYear y + (if isLeapYear y then 366 else 365)"
proof -
  define e where "e n = (if n dvd y then 1 else 0 :: int)" for n
  have step: "(y - 1) div n = y div n - e n" if "0 < n" for n using div_pred [OF that, of y] by (simp add: e_def)
  have days: "(if isLeapYear y then 366 else 365) = 365 + e 4 - e 100 + e 400"
  proof -
    have "400 dvd y \<Longrightarrow> 100 dvd y" "100 dvd y \<Longrightarrow> 4 dvd y" by (auto elim!: dvd_trans [rotated])
    then show ?thesis unfolding isLeapYear_iff e_def by (cases "4 dvd y"; cases "100 dvd y"; cases "400 dvd y") simp_all
  qed
  show ?thesis
    unfolding days daysFrom1970ToYear_def Let_def
    using step [of 4] step [of 100] step [of 400] by simp
qed

lemma daysFrom1970ToYear_mono: "y \<le> z \<Longrightarrow> daysFrom1970ToYear y + 365 * (z - y) \<le> daysFrom1970ToYear z"
proof (induction "nat (z - y)" arbitrary: z)
  case (Suc n)
  then have "daysFrom1970ToYear y + 365 * (z - 1 - y) \<le> daysFrom1970ToYear (z - 1)" by (intro Suc.hyps(1)) auto
  with daysFrom1970ToYear_Suc [of "z - 1"] show ?case by (simp split: if_splits)
qed simp

text \<open>The assertion of \<open>dateToDaysFrom1970\<close> on the sign of the first day of the year never fails.\<close>

lemma daysFrom1970ToYear_sign: "1970 \<le> y \<and> 0 \<le> daysFrom1970ToYear y \<or> y < 1970 \<and> daysFrom1970ToYear y < 0"
proof -
  have "daysFrom1970ToYear 1970 = 0" by (simp add: daysFrom1970ToYear_def signed_divide_int_def)
  then show ?thesis using daysFrom1970ToYear_mono [of y 1970] daysFrom1970ToYear_mono [of 1970 y] by (cases "1970 \<le> y") auto
qed

definition valid_date :: "int \<Rightarrow> nat \<Rightarrow> nat \<Rightarrow> bool" where
  "valid_date y m d \<longleftrightarrow> 1 \<le> m \<and> m \<le> 12 \<and> 1 \<le> d \<and> d \<le> daysInMonth y m"

lemma dateToDays_month:
  assumes "1 \<le> m" "m \<le> 12"
  shows "dateToDaysFrom1970 y (int m - 1) d =
    daysFrom1970ToYear y + firstDayOfMonth ! (if isLeapYear y then 1 else 0) ! (m - 1) + d - 1"
proof -
  have "(int m - 1) sdiv 12 = 0" "(int m - 1) smod 12 = int m - 1"
    using assms by (auto simp: signed_divide_int_def signed_modulo_int_def sgn_if div_pos_pos_trivial mod_pos_pos_trivial)
  then show ?thesis using assms by (simp add: dateToDaysFrom1970_def dayInYear_def Let_def nat_diff_distrib')
qed

text \<open>The two tables agree: a month begins where the one before it ends.\<close>

lemma tables_agree:
  "list_all (\<lambda>l. list_all (\<lambda>m. firstDayOfMonth ! l ! Suc m = firstDayOfMonth ! l ! m + int (daysInMonths ! l ! m)) [0..<11]) [0, 1]"
  "list_all (\<lambda>l. list_all (\<lambda>m. 0 \<le> firstDayOfMonth ! l ! m \<and> firstDayOfMonth ! l ! m + int (daysInMonths ! l ! m) \<le> 365 + int l \<and>
     1 \<le> daysInMonths ! l ! m \<and> daysInMonths ! l ! m \<le> 31) [0..<12]) [0, 1]"
  by (simp_all add: firstDayOfMonth_def daysInMonths_def upt_rec)

lemma month_tables:
  assumes "1 \<le> m" "m < 12" "l \<le> 1"
  shows "firstDayOfMonth ! l ! m = firstDayOfMonth ! l ! (m - 1) + int (daysInMonths ! l ! (m - 1))"
proof -
  have "l = 0 \<or> l = 1" using assms(3) by linarith
  then have "list_all (\<lambda>m. firstDayOfMonth ! l ! Suc m = firstDayOfMonth ! l ! m + int (daysInMonths ! l ! m)) [0..<11]"
    using tables_agree(1) by auto
  then have "\<forall>m < 11. firstDayOfMonth ! l ! Suc m = firstDayOfMonth ! l ! m + int (daysInMonths ! l ! m)"
    by (simp add: list_all_iff)
  from this [rule_format, of "m - 1"] assms show ?thesis by simp
qed

lemma month_range:
  assumes "1 \<le> m" "m \<le> 12" "l \<le> 1"
  shows "0 \<le> firstDayOfMonth ! l ! (m - 1)" "firstDayOfMonth ! l ! (m - 1) + int (daysInMonths ! l ! (m - 1)) \<le> 365 + int l"
    "1 \<le> daysInMonths ! l ! (m - 1)" "daysInMonths ! l ! (m - 1) \<le> 31"
proof -
  have "l = 0 \<or> l = 1" using assms(3) by linarith
  then have "list_all (\<lambda>m. 0 \<le> firstDayOfMonth ! l ! m \<and> firstDayOfMonth ! l ! m + int (daysInMonths ! l ! m) \<le> 365 + int l \<and>
     1 \<le> daysInMonths ! l ! m \<and> daysInMonths ! l ! m \<le> 31) [0..<12]" using tables_agree(2) by auto
  moreover have "m - 1 \<in> set [0..<12]" using assms by auto
  ultimately show "0 \<le> firstDayOfMonth ! l ! (m - 1)" "firstDayOfMonth ! l ! (m - 1) + int (daysInMonths ! l ! (m - 1)) \<le> 365 + int l"
    "1 \<le> daysInMonths ! l ! (m - 1)" "daysInMonths ! l ! (m - 1) \<le> 31" unfolding list_all_iff by blast+
qed

lemma year_tables:
  assumes "l \<le> 1"
  shows "firstDayOfMonth ! l ! 0 = 0" "firstDayOfMonth ! l ! 11 + int (daysInMonths ! l ! 11) = 365 + int l"
proof -
  have "l = 0 \<or> l = 1" using assms by linarith
  then show "firstDayOfMonth ! l ! 0 = 0" "firstDayOfMonth ! l ! 11 + int (daysInMonths ! l ! 11) = 365 + int l"
    by (auto simp: firstDayOfMonth_def daysInMonths_def)
qed

definition nextDay :: "int \<Rightarrow> nat \<Rightarrow> nat \<Rightarrow> int \<times> nat \<times> nat" where
  "nextDay y m d =
     (if d < daysInMonth y m then (y, m, d + 1)
      else if m < 12 then (y, m + 1, 1)
      else (y + 1, 1, 1))"

lemma dateToDays_next:
  assumes "valid_date y m d" "nextDay y m d = (y', m', d')"
  shows "dateToDaysFrom1970 y' (int m' - 1) (int d') = dateToDaysFrom1970 y (int m - 1) (int d) + 1"
proof -
  let ?l = "if isLeapYear y then 1 else 0 :: nat"
  have m: "1 \<le> m" "m \<le> 12" "d \<le> daysInMonth y m" using assms(1) by (auto simp: valid_date_def)
  consider "d < daysInMonth y m" | "d = daysInMonth y m" "m < 12" | "d = daysInMonth y m" "m = 12" using m by linarith
  then show ?thesis
  proof cases
    case 1
    with assms(2) m show ?thesis by (auto simp: nextDay_def dateToDays_month)
  next
    case 2
    with assms(2) have "y' = y" "m' = Suc m" "d' = 1" by (auto simp: nextDay_def)
    with 2 m month_tables [OF m(1) 2(2), of ?l] dateToDays_month [of m y] dateToDays_month [of "Suc m" y 1] show ?thesis
      by (simp add: daysInMonth_def split: if_splits)
  next
    case 3
    with assms(2) have "y' = y + 1" "m' = 1" "d' = 1" by (auto simp: nextDay_def)
    with 3 year_tables [of 0] year_tables [of 1] dateToDays_month [of 12 y] dateToDays_month [of 1 "y + 1" 1] show ?thesis
      by (auto simp: daysInMonth_def daysFrom1970ToYear_Suc)
  qed
qed

lemma nextDay_valid:
  assumes "valid_date y m d" "nextDay y m d = (y', m', d')"
  shows "valid_date y' m' d'"
proof -
  have pos: "1 \<le> daysInMonth y m" if "1 \<le> m" "m \<le> 12" for y m
    unfolding daysInMonth_def using that by (intro month_range(3)) auto
  show ?thesis
    using assms pos [of "m + 1" y] pos [of 1 "y + 1"] by (auto simp: valid_date_def nextDay_def split: if_splits)
qed

section \<open>Order of dates\<close>

lemma firstDayOfMonth_step:
  assumes "l \<le> 1" "m < n" "n < 12"
  shows "firstDayOfMonth ! l ! m + int (daysInMonths ! l ! m) \<le> firstDayOfMonth ! l ! n"
  using assms
proof (induction n)
  case (Suc n)
  have "firstDayOfMonth ! l ! Suc n = firstDayOfMonth ! l ! n + int (daysInMonths ! l ! n)"
    using month_tables [of "Suc n" l] Suc.prems by simp
  moreover have "m = n \<or> m < n" using Suc.prems by linarith
  ultimately show ?case using Suc by auto
qed simp

lemma day_in_year_range:
  assumes "valid_date y m d"
  shows "0 \<le> firstDayOfMonth ! (if isLeapYear y then 1 else 0) ! (m - 1) + int d - 1"
    "firstDayOfMonth ! (if isLeapYear y then 1 else 0) ! (m - 1) + int d - 1 < (if isLeapYear y then 366 else 365)"
proof -
  let ?l = "if isLeapYear y then 1 else 0 :: nat"
  have m: "1 \<le> m" "m \<le> 12" "1 \<le> d" "d \<le> daysInMonths ! ?l ! (m - 1)" using assms by (auto simp: valid_date_def daysInMonth_def)
  show "0 \<le> firstDayOfMonth ! ?l ! (m - 1) + int d - 1"
    "firstDayOfMonth ! ?l ! (m - 1) + int d - 1 < (if isLeapYear y then 366 else 365)"
    using m(3,4) month_range(1,2) [OF m(1,2), of ?l] by (auto split: if_splits)
qed

lemma dateToDays_less:
  assumes "valid_date y m d" "valid_date y' m' d'" "y < y' \<or> y = y' \<and> (m < m' \<or> m = m' \<and> d < d')"
  shows "dateToDaysFrom1970 y (int m - 1) (int d) < dateToDaysFrom1970 y' (int m' - 1) (int d')"
proof -
  have m: "1 \<le> m" "m \<le> 12" "1 \<le> m'" "m' \<le> 12" using assms by (auto simp: valid_date_def)
  consider "y < y'" | "y = y'" "m < m'" | "y = y'" "m = m'" "d < d'" using assms(3) by auto
  then show ?thesis
  proof cases
    case 1
    have "daysFrom1970ToYear (y + 1) \<le> daysFrom1970ToYear y'" using daysFrom1970ToYear_mono [of "y + 1" y'] 1 by simp
    with day_in_year_range [OF assms(1)] day_in_year_range [OF assms(2)] m daysFrom1970ToYear_Suc [of y] show ?thesis
      by (simp add: dateToDays_month split: if_splits)
  next
    case 2
    have "d \<le> daysInMonths ! (if isLeapYear y then 1 else 0) ! (m - 1)" "1 \<le> d'"
      using assms by (auto simp: valid_date_def daysInMonth_def)
    moreover have "m - 1 < m' - 1" "m' - 1 < 12" using m 2 by auto
    ultimately show ?thesis
      using firstDayOfMonth_step [of "if isLeapYear y then 1 else 0" "m - 1" "m' - 1"] m 2
      by (simp add: dateToDays_month split: if_splits)
  next
    case 3
    with m show ?thesis by (simp add: dateToDays_month)
  qed
qed

definition date_ok :: "PlainDate \<Rightarrow> bool" where
  "date_ok a \<longleftrightarrow> valid_date (d_year a) (d_month a) (d_day a)"

definition dayNumber :: "PlainDate \<Rightarrow> int" where
  "dayNumber a = dateToDaysFrom1970 (d_year a) (int (d_month a) - 1) (int (d_day a))"

definition time_ok :: "PlainTime \<Rightarrow> bool" where
  "time_ok t \<longleftrightarrow> t_hour t < 24 \<and> t_minute t < 60 \<and> t_second t < 60 \<and> t_millisecond t < 1000 \<and>
     t_microsecond t < 1000 \<and> t_nanosecond t < 1000"

lemma compareDate_dayNumber:
  assumes "date_ok a" "date_ok b"
  shows "compareDate a b = sgn (dayNumber a - dayNumber b)"
proof -
  let ?lt = "\<lambda>a b. d_year a < d_year b \<or> d_year a = d_year b \<and> (d_month a < d_month b \<or> d_month a = d_month b \<and> d_day a < d_day b)"
  have less: "dayNumber a < dayNumber b" if "?lt a b" "date_ok a" "date_ok b" for a b
    unfolding dayNumber_def using that by (intro dateToDays_less) (auto simp: date_ok_def)
  consider "?lt a b" | "?lt b a" | "d_year a = d_year b \<and> d_month a = d_month b \<and> d_day a = d_day b" by force
  then show ?thesis
  proof cases
    case 1
    with less [of a b] assms have "sgn (dayNumber a - dayNumber b) = - 1" by (simp add: sgn_if)
    with 1 show ?thesis by (auto simp: compareDate_def)
  next
    case 2
    with less [of b a] assms have "sgn (dayNumber a - dayNumber b) = 1" by (simp add: sgn_if)
    with 2 show ?thesis by (auto simp: compareDate_def)
  next
    case 3
    then show ?thesis by (simp add: compareDate_def dayNumber_def)
  qed
qed

lemma dayNumber_year:
  assumes "date_ok a"
  shows "daysFrom1970ToYear (d_year a) \<le> dayNumber a" "dayNumber a < daysFrom1970ToYear (d_year a + 1)"
  using day_in_year_range [OF assms [unfolded date_ok_def]] assms
  by (auto simp: dayNumber_def dateToDays_month date_ok_def valid_date_def daysFrom1970ToYear_Suc split: if_splits)

section \<open>Properties of dates\<close>

text \<open>C34: \<open>dateToDaysFrom1970\<close> is the day count of the proleptic Gregorian calendar: it is 0 at 1970-01-01 and
  grows by one from every valid date to the next one, over month ends, year ends and leap days, for negative years too.\<close>

theorem dateToDaysFrom1970_counts_days:
  assumes "valid_date y m d" "nextDay y m d = (y', m', d')"
  shows "dateToDaysFrom1970 1970 0 1 = 0 \<and> valid_date y' m' d' \<and>
    dateToDaysFrom1970 y' (int m' - 1) (int d') = dateToDaysFrom1970 y (int m - 1) (int d) + 1"
proof -
  have "dateToDaysFrom1970 1970 (int 1 - 1) 1 = 0"
    using year_tables [of 0] year_tables [of 1] dateToDays_month [of 1 1970 1]
    by (simp add: daysFrom1970ToYear_def signed_divide_int_def)
  with dateToDays_next [OF assms] nextDay_valid [OF assms] show ?thesis by simp
qed

theorem dateToDaysFrom1970_counts_days_witness:
  "valid_date 2024 2 29 \<and> dateToDaysFrom1970 2024 2 1 = dateToDaysFrom1970 2024 1 29 + 1"
proof -
  have v: "valid_date 2024 2 29" "nextDay 2024 2 29 = (2024, 3, 1)"
    by (simp_all add: valid_date_def nextDay_def daysInMonth_def daysInMonths_def isLeapYear_iff)
  from dateToDaysFrom1970_counts_days [OF v] v(1) show ?thesis by simp
qed

text \<open>\<open>PlainDate::compare\<close> orders valid dates as their day numbers are ordered, and is 0 only for equal dates.\<close>

theorem compareDate_is_day_order:
  assumes "date_ok a" "date_ok b"
  shows "compareDate a b = sgn (dayNumber a - dayNumber b) \<and> (compareDate a b = 0 \<longleftrightarrow> a = b)"
proof
  show "compareDate a b = sgn (dayNumber a - dayNumber b)" by (rule compareDate_dayNumber [OF assms])
  show "compareDate a b = 0 \<longleftrightarrow> a = b"
    by (cases a; cases b) (auto simp: compareDate_def split: if_splits)
qed

theorem compareDate_is_day_order_witness:
  "compareDate \<lparr>d_year = 1999, d_month = 12, d_day = 31\<rparr> \<lparr>d_year = 2000, d_month = 1, d_day = 1\<rparr> =
    sgn (dayNumber \<lparr>d_year = 1999, d_month = 12, d_day = 31\<rparr> - dayNumber \<lparr>d_year = 2000, d_month = 1, d_day = 1\<rparr>)"
  using compareDate_is_day_order [of "\<lparr>d_year = 1999, d_month = 12, d_day = 31\<rparr>" "\<lparr>d_year = 2000, d_month = 1, d_day = 1\<rparr>"]
  by (simp add: date_ok_def valid_date_def daysInMonth_def daysInMonths_def)

lemma nanoseconds_of_day:
  assumes "time_ok t"
  shows "0 \<le> int (t_hour t) * nsPerHour + int (t_minute t) * nsPerMinute + int (t_second t) * nsPerSecond +
      int (t_millisecond t) * nsPerMillisecond + int (t_microsecond t) * nsPerMicrosecond + int (t_nanosecond t)"
    "int (t_hour t) * nsPerHour + int (t_minute t) * nsPerMinute + int (t_second t) * nsPerSecond +
      int (t_millisecond t) * nsPerMillisecond + int (t_microsecond t) * nsPerMicrosecond + int (t_nanosecond t) < nsPerDay"
  using assms unfolding time_ok_def nsPerDay_def nsPerHour_def nsPerMinute_def nsPerSecond_def nsPerMillisecond_def nsPerMicrosecond_def
  by linarith+

text \<open>A date and time within the limits has a day number between \<open>-10^8 - 1\<close> and \<open>10^8\<close> and a year within
  \<open>minYear\<close> and \<open>maxYear\<close>, so that the 21-bit field of \<open>PlainDate\<close> holds it.\<close>

theorem withinLimits_year_fits:
  assumes "date_ok a" "time_ok t" "isDateTimeWithinLimits a t"
  shows "- 100000001 \<le> dayNumber a \<and> dayNumber a \<le> 100000000 \<and> isYearWithinLimits (d_year a) \<and>
    signedField 21 (d_year a) = d_year a"
proof -
  let ?ns = "int (t_hour t) * nsPerHour + int (t_minute t) * nsPerMinute + int (t_second t) * nsPerSecond +
    int (t_millisecond t) * nsPerMillisecond + int (t_microsecond t) * nsPerMicrosecond + int (t_nanosecond t)"
  have "minValue - nsPerDay < dayNumber a * nsPerDay + ?ns" "dayNumber a * nsPerDay + ?ns < maxValue + nsPerDay"
    using assms(3) by (auto simp: isDateTimeWithinLimits_def isoDateTimeWithinLimitsNs_def fromISOPartsAndOffset_def
        dayNumber_def Let_def split: if_splits)
  with nanoseconds_of_day [OF assms(2)] have days: "- 100000001 \<le> dayNumber a" "dayNumber a \<le> 100000000"
    by (simp_all add: minValue_def maxValue_def dayRangeSeconds_def nsPerDay_def nsPerHour_def nsPerMinute_def nsPerSecond_def)
  have "d_year a \<le> 275760"
  proof (rule ccontr)
    assume "\<not> ?thesis"
    then have "daysFrom1970ToYear 275761 \<le> daysFrom1970ToYear (d_year a)" using daysFrom1970ToYear_mono [of 275761 "d_year a"] by simp
    with dayNumber_year(1) [OF assms(1)] days(2) show False by (simp add: daysFrom1970ToYear_def signed_divide_int_def)
  qed
  moreover have "- 271821 \<le> d_year a"
  proof (rule ccontr)
    assume "\<not> ?thesis"
    then have "daysFrom1970ToYear (d_year a + 1) \<le> daysFrom1970ToYear (- 271821)"
      using daysFrom1970ToYear_mono [of "d_year a + 1" "- 271821"] by simp
    with dayNumber_year(2) [OF assms(1)] days(1) show False by (simp add: daysFrom1970ToYear_def signed_divide_int_def)
  qed
  ultimately show ?thesis using days by (simp add: isYearWithinLimits_def signedField_def)
qed

theorem withinLimits_year_fits_witness:
  "isYearWithinLimits (d_year \<lparr>d_year = 1970, d_month = 1, d_day = 1\<rparr>)"
proof -
  have "dateToDaysFrom1970 1970 (int 1 - 1) 1 = 0"
    using year_tables [of 0] year_tables [of 1] dateToDays_month [of 1 1970 1]
    by (simp add: daysFrom1970ToYear_def signed_divide_int_def)
  then have "isDateTimeWithinLimits \<lparr>d_year = 1970, d_month = 1, d_day = 1\<rparr> midnight"
    by (simp add: isDateTimeWithinLimits_def isoDateTimeWithinLimitsNs_def fromISOPartsAndOffset_def Let_def midnight_def
        mkPlainTime_def minValue_def maxValue_def nsPerDay_def nsPerHour_def nsPerMinute_def nsPerSecond_def dayRangeSeconds_def)
  moreover have "date_ok \<lparr>d_year = 1970, d_month = 1, d_day = 1\<rparr>" "time_ok midnight"
    by (simp_all add: date_ok_def valid_date_def daysInMonth_def daysInMonths_def time_ok_def midnight_def mkPlainTime_def)
  ultimately show ?thesis using withinLimits_year_fits by blast
qed

section \<open>Properties of rounding\<close>

text \<open>
  The mathematical rounding of \<open>x\<close> to a multiple of a positive \<open>inc\<close>: between the multiples below and above \<open>x\<close>
  the mode chooses, the half modes the nearer one and then by the tie. \<open>neg\<close> is the sign that the modes away from and
  towards zero look at.
\<close>

definition round_spec :: "bool \<Rightarrow> RoundingMode \<Rightarrow> int \<Rightarrow> int \<Rightarrow> int" where
  "round_spec neg mode x inc =
     (let lower = x div inc * inc; upper = lower + inc; up = (\<lambda>b. if b then upper else lower);
          half = (\<lambda>tie. if 2 * (x mod inc) < inc then lower else if 2 * (x mod inc) > inc then upper else up tie)
      in if x mod inc = 0 then x
         else case mode of
           Ceil \<Rightarrow> upper
         | Floor \<Rightarrow> lower
         | Expand \<Rightarrow> up (\<not> neg)
         | Trunc \<Rightarrow> up neg
         | HalfCeil \<Rightarrow> half True
         | HalfFloor \<Rightarrow> half False
         | HalfExpand \<Rightarrow> half (\<not> neg)
         | HalfTrunc \<Rightarrow> half neg
         | HalfEven \<Rightarrow> half (odd (x div inc)))"

lemma round_spec_exact: "x mod inc = 0 \<Longrightarrow> round_spec neg mode x inc = x"
  by (simp add: round_spec_def Let_def)

lemma sdiv_smod_neg:
  fixes x inc :: int
  assumes "0 < inc" "x < 0"
  shows "x sdiv inc = - (- x div inc)" "x smod inc = - (- x mod inc)"
  using assms by (simp_all add: signed_divide_int_def signed_modulo_int_def sgn_if)

lemma div_mod_neg:
  fixes x inc :: int
  assumes "0 < inc" "x mod inc \<noteq> 0"
  shows "x div inc = - (- x div inc) - 1" "x mod inc = inc - (- x mod inc)" "- x mod inc \<noteq> 0"
  using assms zdiv_zminus1_eq_if [of inc "- x"] zmod_zminus1_eq_if [of "- x" inc] zmod_zminus1_eq_if [of x inc]
  by (auto split: if_splits)

lemma roundNumberToIncrement_pos:
  assumes inc: "0 < inc" and x: "0 \<le> x"
  shows "roundNumberToIncrement x inc mode = round_spec False mode x inc"
proof (cases "x mod inc = 0")
  case True
  then have "x div inc * inc = x" using div_mult_mod_eq [of x inc] by simp
  with True assms show ?thesis
    by (simp add: roundNumberToIncrement_def round_spec_exact signed_divide_int_def sgn_if Let_def pos_imp_zdiv_nonneg_iff)
next
  case False
  have q: "x sdiv inc = x div inc" "x smod inc = x mod inc" "0 \<le> x div inc"
    using assms by (auto simp: signed_divide_int_def signed_modulo_int_def sgn_if pos_imp_zdiv_nonneg_iff)
  have ne: "x \<noteq> x div inc * inc" using False by (metis mod_mult_self2_is_0)
  have r: "0 \<le> x mod inc" using inc by simp
  have ev: "(x div inc) smod 2 = 0 \<longleftrightarrow> even (x div inc)" by (simp add: smod_eq_0_iff)
  show ?thesis
    using False ne r ev q x unfolding roundNumberToIncrement_def round_spec_def Let_def q
    by (cases mode) (simp_all add: getUnsignedRoundingMode_def distrib_right distrib_left right_diff_distrib mult.commute)
qed

lemma roundNumberToIncrement_neg:
  assumes inc: "0 < inc" and x: "x < 0"
  shows "roundNumberToIncrement x inc mode = round_spec True mode x inc"
proof (cases "x mod inc = 0")
  case True
  then have "- x mod inc = 0" by (simp add: zmod_zminus1_eq_if)
  then have "- x div inc * inc = - x" using div_mult_mod_eq [of "- x" inc] by simp
  moreover have "0 \<le> - x div inc" using assms by (simp add: pos_imp_zdiv_nonneg_iff)
  ultimately show ?thesis
    using True assms by (simp add: roundNumberToIncrement_def round_spec_exact sdiv_smod_neg Let_def)
next
  case False
  let ?q = "- x div inc" and ?r = "- x mod inc"
  note n = div_mod_neg [OF inc False]
  have q: "\<bar>x sdiv inc\<bar> = ?q" "x smod inc = - ?r" "0 \<le> ?q"
    using assms sdiv_smod_neg [OF inc x] by (auto simp: pos_imp_zdiv_nonneg_iff)
  have ne: "- x \<noteq> ?q * inc" using n(3) by (metis mod_mult_self2_is_0)
  have r: "0 \<le> ?r" using inc by simp
  have ev: "?q smod 2 = 0 \<longleftrightarrow> even ?q" by (simp add: smod_eq_0_iff)
  have od: "odd (x div inc) \<longleftrightarrow> even ?q" unfolding n(1) by simp
  have lower: "x div inc * inc = - (?q * inc) - inc" unfolding n(1) by (simp add: algebra_simps)
  show ?thesis
    using False ne r ev q x unfolding roundNumberToIncrement_def round_spec_def Let_def q od lower n(2)
    by (cases mode) (simp_all add: getUnsignedRoundingMode_def distrib_right distrib_left right_diff_distrib mult.commute)
qed

text \<open>\<open>roundNumberToIncrement\<close> on \<open>Int128\<close> rounds to a multiple of the increment as the specification of each of
  the nine modes says, for both signs of the number.\<close>

theorem roundNumberToIncrement_correct:
  assumes "0 < increment"
  shows "roundNumberToIncrement x increment mode = round_spec (x < 0) mode x increment"
  using roundNumberToIncrement_pos [OF assms, of x mode] roundNumberToIncrement_neg [OF assms, of x mode]
  by (cases "x < 0") auto

theorem roundNumberToIncrement_correct_witness:
  "roundNumberToIncrement (- 25) 10 HalfEven = - 20"
  using roundNumberToIncrement_correct [of 10 "- 25" HalfEven] by (simp add: round_spec_def)

text \<open>\<open>roundNumberToIncrementAsIfPositive\<close>, with which instants are rounded, takes the nearest multiples below and
  above, for negative numbers too, and chooses between them as for a positive number.\<close>

theorem roundNumberToIncrementAsIfPositive_correct:
  assumes "0 < increment"
  shows "roundNumberToIncrementAsIfPositive x increment mode = round_spec False mode x increment"
proof (cases "x mod increment = 0")
  case True
  then have "x div increment * increment = x" using div_mult_mod_eq [of x increment] by simp
  moreover have "x sdiv increment = x div increment"
    using assms True sdiv_smod_neg [OF assms, of x] zdiv_zminus1_eq_if [of increment "- x"]
    by (cases "x < 0") (auto simp: signed_divide_int_def sgn_if zmod_zminus1_eq_if split: if_splits)
  ultimately show ?thesis using True by (simp add: roundNumberToIncrementAsIfPositive_def round_spec_exact Let_def case_prod_beta)
next
  case False
  let ?q = "x div increment"
  have r1: "(if x < 0 then (x sdiv increment - 1, x sdiv increment) else (x sdiv increment, x sdiv increment + 1)) = (?q, ?q + 1)"
  proof (cases "x < 0")
    case True
    with div_mod_neg(1) [OF assms False] sdiv_smod_neg(1) [OF assms True] show ?thesis by simp
  qed (use assms in \<open>auto simp: signed_divide_int_def sgn_if\<close>)
  have ne: "x sdiv increment * increment \<noteq> x" using False by (metis mod_mult_self2_is_0)
  have dr: "(x - ?q * increment) * 2 = 2 * (x mod increment)" by (simp add: minus_div_mult_eq_mod)
  have ev: "?q smod 2 = 0 \<longleftrightarrow> even ?q" by (simp add: smod_eq_0_iff)
  show ?thesis
    using False ne unfolding roundNumberToIncrementAsIfPositive_def round_spec_def Let_def r1 prod.case dr ev
    by (cases mode) (simp_all add: getUnsignedRoundingMode_def distrib_right)
qed

theorem roundNumberToIncrementAsIfPositive_correct_witness:
  "roundNumberToIncrementAsIfPositive (- 25) 10 Trunc = - 30"
  using roundNumberToIncrementAsIfPositive_correct [of 10 "- 25" Trunc] by (simp add: round_spec_def)

lemma floorEpochMilliseconds_floor: "floorEpochMilliseconds ns = ns div 1000000"
proof (cases "ns < 0")
  case True
  note n = sdiv_smod_neg [of 1000000, OF _ True]
  show ?thesis
    using n True zdiv_zminus1_eq_if [of "1000000" "- ns"] by (auto simp: floorEpochMilliseconds_def nsPerMillisecond_def Let_def)
qed (auto simp: floorEpochMilliseconds_def nsPerMillisecond_def signed_divide_int_def sgn_if Let_def)

end
