(* ===== verification/Unicode.thy ===== *)
theory Unicode
  imports Prelude
begin

text \<open>
  Conversions between UTF-8, UTF-16 and code points, \<open>src/runtime/String.cpp\<close> and \<open>String.h\<close>. Bytes, code units and
  code points are naturals; a byte is below 256, a code unit below \<open>2^16\<close>, and a cast to a narrower type is
  a remainder. Reads are bounds-checked: a result \<open>None\<close> is a read past the end of the input.
\<close>

section \<open>UTF-8 to UTF-16\<close>

definition byteAt :: "nat list \<Rightarrow> nat \<Rightarrow> nat option" where
  "byteAt src k = (if k < length src then Some (src ! k) else None)"

definition offsetsFromUTF8 :: "nat list" where
  "offsetsFromUTF8 = [0x00000000, 0x00003080, 0x000E2080, 0x03C82080, 0xFA082080, 0x82082080]"

text \<open>The switch with its fall-through cases: \<open>n\<close> bytes in base 64, less the offset, on 32 bits.\<close>

fun accumulate :: "nat \<Rightarrow> nat list \<Rightarrow> nat" where
  "accumulate ch [] = ch"
| "accumulate ch (b # bs) = accumulate ((ch * 64 + b) mod 2 ^ 32) bs"

definition decodeBytes :: "nat list \<Rightarrow> nat \<Rightarrow> nat" where
  "decodeBytes src n = (accumulate 0 (take n src) + 2 ^ 32 - offsetsFromUTF8 ! (n - 1)) mod 2 ^ 32"

text \<open>The code point, \<open>None\<close> when \<open>valid\<close> is false, and the bytes the source pointer has advanced.\<close>

definition readUTF8Sequence :: "nat list \<Rightarrow> nat \<Rightarrow> (nat option \<times> nat) option" where
  "readUTF8Sequence src remainingLength =
     (case byteAt src 0 of None \<Rightarrow> None | Some sch \<Rightarrow>
        if sch AND 0x80 = 0 then Some (Some (decodeBytes src 1), 1)
        else if remainingLength < 2 then Some (None, 1)
        else (case byteAt src 1 of None \<Rightarrow> None | Some ch2 \<Rightarrow>
          if sch AND 0xE0 = 0xC0 \<and> ch2 AND 0xC0 = 0x80 then Some (Some (decodeBytes src 2), 2)
          else if remainingLength < 3 then Some (None, 1)
          else (case byteAt src 2 of None \<Rightarrow> None | Some ch3 \<Rightarrow>
            if sch AND 0xF0 = 0xE0 \<and> ch2 AND 0xC0 = 0x80 \<and> ch3 AND 0xC0 = 0x80 then Some (Some (decodeBytes src 3), 3)
            else if remainingLength < 4 then Some (None, 1)
            else (case byteAt src 3 of None \<Rightarrow> None | Some ch4 \<Rightarrow>
              if sch AND 0xF8 = 0xF0 \<and> ch2 AND 0xC0 = 0x80 \<and> ch3 AND 0xC0 = 0x80 \<and> ch4 AND 0xC0 = 0x80
              then Some (Some (decodeBytes src 4), 4)
              else Some (None, 1)))))"

text \<open>
  A surrogate or a value beyond the last code point moves the source pointer back to the second byte of the
  sequence. The head byte is always consumed.
\<close>

fun utf8StringToUTF16StringNonGC :: "nat list \<Rightarrow> nat list option" where
  "utf8StringToUTF16StringNonGC [] = Some []"
| "utf8StringToUTF16StringNonGC (c # rest) =
     (if c < 0x80 then map_option (Cons c) (utf8StringToUTF16StringNonGC rest)
      else case readUTF8Sequence (c # rest) (length (c # rest)) of
        None \<Rightarrow> None
      | Some (None, n) \<Rightarrow> map_option (Cons 0xFFFD) (utf8StringToUTF16StringNonGC (drop (n - 1) rest))
      | Some (Some ch, n) \<Rightarrow>
          if ch \<le> 0xffff
          then if ch AND 0xfffff800 = 0xd800
               then map_option (Cons 0xFFFD) (utf8StringToUTF16StringNonGC rest)
               else map_option (Cons (ch mod 2 ^ 16)) (utf8StringToUTF16StringNonGC (drop (n - 1) rest))
          else if ch - 0x10000 \<le> 0xfffff
          then map_option (\<lambda>t. ((drop_bit 10 ch + 0xd7c0) mod 2 ^ 16) # ((ch AND 0x3ff) OR 0xdc00) mod 2 ^ 16 # t)
                 (utf8StringToUTF16StringNonGC (drop (n - 1) rest))
          else map_option (Cons 0xFFFD) (utf8StringToUTF16StringNonGC rest))"

section \<open>Code points\<close>

definition toChar :: "nat \<Rightarrow> nat" where
  "toChar x = x mod 2 ^ 8"

definition utf32ToUtf8 :: "nat \<Rightarrow> nat list" where
  "utf32ToUtf8 uc0 =
     (let uc = (if uc0 \<le> 0x7fffffff then uc0 else 0xFFFD)
      in if uc \<le> 0x7f then [toChar uc]
         else if uc \<le> 0x7ff then [toChar (0xc0 + uc div 2 ^ 6), toChar (0x80 + uc mod 2 ^ 6)]
         else if uc \<le> 0xffff then
           [toChar (0xe0 + uc div 2 ^ 12), toChar (0x80 + uc div 2 ^ 6 mod 2 ^ 6), toChar (0x80 + uc mod 2 ^ 6)]
         else if uc \<le> 0x1fffff then
           [toChar (0xf0 + uc div 2 ^ 18), toChar (0x80 + uc div 2 ^ 12 mod 2 ^ 12),
            toChar (0x80 + uc div 2 ^ 6 mod 2 ^ 6), toChar (0x80 + uc mod 2 ^ 6)]
         else if uc \<le> 0x3ffffff then
           [toChar (0xf8 + uc div 2 ^ 24), toChar (0x80 + uc div 2 ^ 18 mod 2 ^ 18), toChar (0x80 + uc div 2 ^ 12 mod 2 ^ 12),
            toChar (0x80 + uc div 2 ^ 6 mod 2 ^ 6), toChar (0x80 + uc mod 2 ^ 6)]
         else
           [toChar (0xfc + uc div 2 ^ 30), toChar (0x80 + uc div 2 ^ 24 mod 2 ^ 24), toChar (0x80 + uc div 2 ^ 18 mod 2 ^ 18),
            toChar (0x80 + uc div 2 ^ 12 mod 2 ^ 12), toChar (0x80 + uc div 2 ^ 6 mod 2 ^ 6), toChar (0x80 + uc mod 2 ^ 6)])"

definition utf32ToUtf16 :: "nat \<Rightarrow> nat list" where
  "utf32ToUtf16 i =
     (if i \<le> 0xffff then if i \<ge> 0xd800 \<and> i \<le> 0xdfff then [0xFFFD] else [i AND 0xffff]
      else if i \<le> 0x10ffff
      then let j = i - 0x10000 in [(0xd800 OR drop_bit 10 j) mod 2 ^ 16, (0xdc00 OR (j AND 0x3ff)) mod 2 ^ 16]
      else [0xFFFD])"

text \<open>
  The subtraction is unsigned, on 32 bits; the first code unit goes through a double, and \<open>None\<close> is the conversion of a
  double that does not fit into 16 bits, which is undefined.
\<close>

definition utf16EncodeCodePoint :: "nat \<Rightarrow> (nat \<times> nat) option" where
  "utf16EncodeCodePoint cp =
     (if cp < 0xFFFF then Some (cp, 0)
      else let d = (cp + 2 ^ 32 - 65536) mod 2 ^ 32; cu1 = d div 1024 + 0xD800
           in if cu1 < 2 ^ 16 then Some (cu1, (d mod 1024 + 0xDC00) mod 2 ^ 16) else None)"

section \<open>UTF-16 to UTF-8\<close>

definition U16_IS_LEAD :: "nat \<Rightarrow> bool" where "U16_IS_LEAD c \<longleftrightarrow> c AND 0xfffffc00 = 0xd800"
definition U16_IS_TRAIL :: "nat \<Rightarrow> bool" where "U16_IS_TRAIL c \<longleftrightarrow> c AND 0xfffffc00 = 0xdc00"

definition U16_GET_SUPPLEMENTARY :: "nat \<Rightarrow> nat \<Rightarrow> nat" where
  "U16_GET_SUPPLEMENTARY lead trail =
     nat (push_bit 10 (int lead) + int trail - (push_bit 10 0xd800 + 0xdc00 - 0x10000))"

fun toUTF8String :: "bool \<Rightarrow> nat list \<Rightarrow> nat list" where
  "toUTF8String replaceInvalidUtf8 [] = []"
| "toUTF8String replaceInvalidUtf8 [ch] =
     (if ch < 0x80 then [ch]
      else utf32ToUtf8 (if U16_IS_LEAD ch \<and> replaceInvalidUtf8 then 0xFFFD
                        else if replaceInvalidUtf8 \<and> U16_IS_TRAIL ch then 0xFFFD else ch))"
| "toUTF8String replaceInvalidUtf8 (ch # c2 # rest) =
     (if ch < 0x80 then ch # toUTF8String replaceInvalidUtf8 (c2 # rest)
      else if U16_IS_LEAD ch
      then if U16_IS_TRAIL c2 then utf32ToUtf8 (U16_GET_SUPPLEMENTARY ch c2) @ toUTF8String replaceInvalidUtf8 rest
           else utf32ToUtf8 (if replaceInvalidUtf8 then 0xFFFD else ch) @ toUTF8String replaceInvalidUtf8 (c2 # rest)
      else utf32ToUtf8 (if replaceInvalidUtf8 \<and> U16_IS_TRAIL ch then 0xFFFD else ch) @
        toUTF8String replaceInvalidUtf8 (c2 # rest))"

section \<open>Well-formed UTF-16\<close>

text \<open>The result and the code units the pointer advances.\<close>

fun isWellFormed :: "nat list \<Rightarrow> bool \<times> nat" where
  "isWellFormed [] = (True, 1)"
| "isWellFormed (c # rest) =
     (if c \<ge> 0xd800 \<and> c \<le> 0xdbff
      then (case rest of
              c2 # _ \<Rightarrow> if c2 \<ge> 0xdc00 \<and> c2 \<le> 0xdfff then (True, 2) else (False, 1)
            | [] \<Rightarrow> (False, 1))
      else if c \<ge> 0xdc00 \<and> c \<le> 0xdfff then (False, 1)
      else (True, 1))"

fun stringIsWellFormed :: "nat list \<Rightarrow> bool" where
  "stringIsWellFormed [] = True"
| "stringIsWellFormed (c # rest) =
     (let (ok, n) = isWellFormed (c # rest) in if \<not> ok then False else stringIsWellFormed (drop (n - 1) rest))"

fun toWellFormedLoop :: "nat list \<Rightarrow> nat list" where
  "toWellFormedLoop [] = []"
| "toWellFormedLoop (c # rest) =
     (let (ok, n) = isWellFormed (c # rest)
      in (if ok then take n (c # rest) else [0xFFFD]) @ toWellFormedLoop (drop (n - 1) rest))"

definition toWellFormed :: "nat list \<Rightarrow> nat list" where
  "toWellFormed str = (if stringIsWellFormed str then str else toWellFormedLoop str)"

definition charToHexCode :: "nat \<Rightarrow> bool \<Rightarrow> nat \<times> nat" where
  "charToHexCode dec useCapitals =
     (let hex = (\<lambda>dig0. let dig = (if dig0 \<le> 9 then dig0 + 48 else dig0)
                        in if 10 \<le> dig \<and> dig \<le> 15 then dig + (if useCapitals then 65 else 97) - 10 else dig)
      in (hex (drop_bit 4 (dec AND 0xF0)), hex (dec AND 0x0F)))"

section \<open>Bit fields as arithmetic\<close>

lemma and_field: "b AND push_bit n (mask m) = (b div 2 ^ n mod 2 ^ m) * (2 ^ n :: nat)"
proof -
  have "b AND push_bit n (mask m) = push_bit n (take_bit m (drop_bit n b))"
    by (rule bit_eqI) (auto simp: bit_simps)
  then show ?thesis by (simp add: push_bit_eq_mult take_bit_eq_mod drop_bit_eq_div)
qed

lemma or_field:
  assumes "x < 2 ^ n"
  shows "x OR push_bit n y = x + (push_bit n y :: nat)"
proof -
  have "x AND push_bit n y = 0"
  proof (rule bit_eqI)
    fix k
    show "bit (x AND push_bit n y) k \<longleftrightarrow> bit (0 :: nat) k"
      using assms bit_take_bit_iff [of n x k] by (auto simp: bit_simps take_bit_nat_eq_self)
  qed
  then show ?thesis by (simp add: disjunctive_add_eq_or)
qed

lemmas masks =
  and_field [of _ 7 1, unfolded mask_eq_exp_minus_1, simplified]
  and_field [of _ 5 3, unfolded mask_eq_exp_minus_1, simplified]
  and_field [of _ 6 2, unfolded mask_eq_exp_minus_1, simplified]
  and_field [of _ 4 4, unfolded mask_eq_exp_minus_1, simplified]
  and_field [of _ 3 5, unfolded mask_eq_exp_minus_1, simplified]
  and_field [of _ 10 22, unfolded mask_eq_exp_minus_1, simplified]
  and_field [of _ 11 21, unfolded mask_eq_exp_minus_1, simplified]
  and_field [of _ 0 10, unfolded mask_eq_exp_minus_1, simplified]
  and_field [of _ 0 16, unfolded mask_eq_exp_minus_1, simplified]

lemma lead_byte_masks:
  fixes b :: nat
  assumes "b < 256"
  shows "b AND 0x80 = 0 \<longleftrightarrow> b < 128" "b AND 0xE0 = 0xC0 \<longleftrightarrow> 192 \<le> b \<and> b < 224"
    "b AND 0xF0 = 0xE0 \<longleftrightarrow> 224 \<le> b \<and> b < 240" "b AND 0xF8 = 0xF0 \<longleftrightarrow> 240 \<le> b \<and> b < 248"
    "b AND 0xC0 = 0x80 \<longleftrightarrow> 128 \<le> b \<and> b < 192"
proof -
  have "b div 128 < 2" "b div 32 < 8" "b div 16 < 16" "b div 8 < 32" "b div 64 < 4" using assms by auto
  then show "b AND 0x80 = 0 \<longleftrightarrow> b < 128" "b AND 0xE0 = 0xC0 \<longleftrightarrow> 192 \<le> b \<and> b < 224"
    "b AND 0xF0 = 0xE0 \<longleftrightarrow> 224 \<le> b \<and> b < 240" "b AND 0xF8 = 0xF0 \<longleftrightarrow> 240 \<le> b \<and> b < 248"
    "b AND 0xC0 = 0x80 \<longleftrightarrow> 128 \<le> b \<and> b < 192"
    unfolding masks by auto
qed

lemma surrogate_masks:
  assumes "c < 2 ^ 32"
  shows "U16_IS_LEAD c \<longleftrightarrow> 0xd800 \<le> c \<and> c \<le> 0xdbff" "U16_IS_TRAIL c \<longleftrightarrow> 0xdc00 \<le> c \<and> c \<le> 0xdfff"
    "c AND 0xfffff800 = 0xd800 \<longleftrightarrow> 0xd800 \<le> c \<and> c \<le> 0xdfff"
proof -
  have "c div 1024 < 4194304" "c div 2048 < 2097152" using assms by auto
  then show "U16_IS_LEAD c \<longleftrightarrow> 0xd800 \<le> c \<and> c \<le> 0xdbff" "U16_IS_TRAIL c \<longleftrightarrow> 0xdc00 \<le> c \<and> c \<le> 0xdfff"
    "c AND 0xfffff800 = 0xd800 \<longleftrightarrow> 0xd800 \<le> c \<and> c \<le> 0xdfff"
    unfolding U16_IS_LEAD_def U16_IS_TRAIL_def masks by auto
qed

section \<open>Round trip of a code point\<close>

lemma accumulate_small:
  assumes "ch * 64 + b < 2 ^ 32"
  shows "accumulate ch (b # bs) = accumulate (ch * 64 + b) bs"
  using assms by simp

lemma read_2:
  assumes "q < 32" "r < 64" "2 \<le> n"
  shows "readUTF8Sequence ([192 + q, 128 + r] @ rest) n = Some (Some (q * 64 + r), 2)"
proof -
  have "accumulate 0 [192 + q, 128 + r] = q * 64 + r + 0x3080" using assms by (simp add: accumulate_small del: accumulate.simps(2))
  then have "decodeBytes ([192 + q, 128 + r] @ rest) 2 = q * 64 + r"
    using assms by (simp add: decodeBytes_def offsetsFromUTF8_def)
  then show ?thesis using assms by (simp add: readUTF8Sequence_def byteAt_def lead_byte_masks)
qed

lemma read_3:
  assumes "a < 16" "q < 64" "r < 64" "3 \<le> n"
  shows "readUTF8Sequence ([224 + a, 128 + q, 128 + r] @ rest) n = Some (Some (a * 4096 + q * 64 + r), 3)"
proof -
  have "accumulate 0 [224 + a, 128 + q, 128 + r] = a * 4096 + q * 64 + r + 0xE2080"
    using assms by (simp add: accumulate_small del: accumulate.simps(2))
  then have "decodeBytes ([224 + a, 128 + q, 128 + r] @ rest) 3 = a * 4096 + q * 64 + r"
    using assms by (simp add: decodeBytes_def offsetsFromUTF8_def)
  then show ?thesis using assms by (simp add: readUTF8Sequence_def byteAt_def lead_byte_masks)
qed

lemma read_4:
  assumes "a < 8" "p < 64" "q < 64" "r < 64" "4 \<le> n"
  shows "readUTF8Sequence ([240 + a, 128 + p, 128 + q, 128 + r] @ rest) n = Some (Some (a * 262144 + p * 4096 + q * 64 + r), 4)"
proof -
  have "accumulate 0 [240 + a, 128 + p, 128 + q, 128 + r] = a * 262144 + p * 4096 + q * 64 + r + 0x3C82080"
    using assms by (simp add: accumulate_small del: accumulate.simps(2))
  then have "decodeBytes ([240 + a, 128 + p, 128 + q, 128 + r] @ rest) 4 = a * 262144 + p * 4096 + q * 64 + r"
    using assms by (simp add: decodeBytes_def offsetsFromUTF8_def)
  then show ?thesis using assms by (simp add: readUTF8Sequence_def byteAt_def lead_byte_masks)
qed

lemma digits64:
  fixes uc :: nat
  shows "uc div 64 * 64 + uc mod 64 = uc" "uc div 4096 * 4096 + uc div 64 mod 64 * 64 + uc mod 64 = uc"
    "uc div 262144 * 262144 + uc div 4096 mod 64 * 4096 + uc div 64 mod 64 * 64 + uc mod 64 = uc"
proof -
  have e: "uc div 64 * 64 + uc mod 64 = uc" "uc div 64 div 64 * 64 + uc div 64 mod 64 = uc div 64"
    "uc div 64 div 64 div 64 * 64 + uc div 64 div 64 mod 64 = uc div 64 div 64" by simp_all
  have d: "uc div 4096 = uc div 64 div 64" "uc div 262144 = uc div 64 div 64 div 64" by (simp_all flip: div_mult2_eq)
  show "uc div 64 * 64 + uc mod 64 = uc" by simp
  show "uc div 4096 * 4096 + uc div 64 mod 64 * 64 + uc mod 64 = uc" unfolding d using e(1,2) by linarith
  show "uc div 262144 * 262144 + uc div 4096 mod 64 * 4096 + uc div 64 mod 64 * 64 + uc mod 64 = uc"
    unfolding d using e by linarith
qed

text \<open>
  The four-byte form keeps all bits from the thirteenth up in the second byte, where the continuation byte has room for six:
  it is right when the remaining bits are dropped by the cast.
\<close>

definition encodable :: "nat \<Rightarrow> bool" where
  "encodable uc \<longleftrightarrow> uc < 0x40000 \<or> 0x100000 \<le> uc \<and> uc \<le> 0x10FFFF"

lemma second_byte:
  assumes "encodable uc" "0x10000 \<le> uc"
  shows "toChar (128 + uc div 2 ^ 12 mod 2 ^ 12) = 128 + uc div 4096 mod 64"
proof -
  have "uc div 4096 < 64 \<or> 256 \<le> uc div 4096 \<and> uc div 4096 < 272" using assms by (auto simp: encodable_def)
  then show ?thesis
  proof
    assume "256 \<le> uc div 4096 \<and> uc div 4096 < 272"
    moreover from this obtain k where "uc div 4096 = 256 + k" using le_iff_add by blast
    moreover have "(256 + k) mod 64 = k mod 64" using mod_mult_self1 [of k 4 64] by (simp add: add.commute)
    moreover have "(384 + k) mod 256 = (128 + k) mod 256" using mod_add_self2 [of "128 + k" 256] by simp
    ultimately show ?thesis by (simp add: toChar_def)
  qed (simp add: toChar_def)
qed

lemma read_encoded:
  assumes "encodable uc" "0x80 \<le> uc"
  shows "readUTF8Sequence (utf32ToUtf8 uc @ rest) (length (utf32ToUtf8 uc @ rest)) = Some (Some uc, length (utf32ToUtf8 uc))"
    and "\<exists>b bs. utf32ToUtf8 uc = b # bs \<and> 0x80 \<le> b"
proof -
  have enc: "readUTF8Sequence (utf32ToUtf8 uc @ rest) (length (utf32ToUtf8 uc @ rest)) = Some (Some uc, length (utf32ToUtf8 uc)) \<and>
      (\<exists>b bs. utf32ToUtf8 uc = b # bs \<and> 0x80 \<le> b)"
  proof -
    consider "uc \<le> 0x7ff" | "0x800 \<le> uc" "uc \<le> 0xffff" | "0x10000 \<le> uc" using assms(2) by linarith
    then show ?thesis
    proof cases
      case 1
      have q: "uc div 64 < 32" using 1 by auto
      have "utf32ToUtf8 uc = [192 + uc div 64, 128 + uc mod 64]" using assms(2) 1 q by (simp add: utf32ToUtf8_def toChar_def)
      with read_2 [OF q, of "uc mod 64" "length (utf32ToUtf8 uc @ rest)" rest] digits64(1) [of uc] show ?thesis by simp
    next
      case 2
      have q: "uc div 4096 < 16" using 2 by auto
      have "utf32ToUtf8 uc = [224 + uc div 4096, 128 + uc div 64 mod 64, 128 + uc mod 64]"
        using 2 q by (simp add: utf32ToUtf8_def toChar_def)
      with read_3 [OF q, of "uc div 64 mod 64" "uc mod 64" "length (utf32ToUtf8 uc @ rest)" rest] digits64(2) [of uc]
      show ?thesis by simp
    next
      case 3
      have q: "uc div 262144 < 8" "uc \<le> 0x1fffff" using assms(1) by (auto simp: encodable_def)
      have "utf32ToUtf8 uc = [240 + uc div 262144, 128 + uc div 4096 mod 64, 128 + uc div 64 mod 64, 128 + uc mod 64]"
        using 3 q second_byte [OF assms(1) 3] by (simp add: utf32ToUtf8_def toChar_def)
      with read_4 [OF q(1), of "uc div 4096 mod 64" "uc div 64 mod 64" "uc mod 64" "length (utf32ToUtf8 uc @ rest)" rest]
        digits64(3) [of uc]
      show ?thesis by simp
    qed
  qed
  then show "readUTF8Sequence (utf32ToUtf8 uc @ rest) (length (utf32ToUtf8 uc @ rest)) = Some (Some uc, length (utf32ToUtf8 uc))"
    and "\<exists>b bs. utf32ToUtf8 uc = b # bs \<and> 0x80 \<le> b" by auto
qed

declare stringIsWellFormed.simps(2) [simp del] toWellFormedLoop.simps(2) [simp del]

section \<open>Surrogate pairs\<close>

text \<open>The code units of a code point, and the code points of a well-formed string, as the encoding form defines them.\<close>

definition codeUnits :: "nat \<Rightarrow> nat list" where
  "codeUnits uc = (if uc \<le> 0xffff then [uc] else [uc div 1024 + 0xd7c0, uc mod 1024 + 0xdc00])"

fun codePoints :: "nat list \<Rightarrow> nat list" where
  "codePoints [] = []"
| "codePoints [c] = [c]"
| "codePoints (c # d # s) =
     (if 0xd800 \<le> c \<and> c \<le> 0xdbff \<and> 0xdc00 \<le> d \<and> d \<le> 0xdfff
      then (0x10000 + (c - 0xd800) * 1024 + (d - 0xdc00)) # codePoints s else c # codePoints (d # s))"

definition isScalar :: "nat \<Rightarrow> bool" where
  "isScalar uc \<longleftrightarrow> uc \<le> 0x10FFFF \<and> \<not> (0xd800 \<le> uc \<and> uc \<le> 0xdfff)"

lemma wf_unit:
  assumes "c < 0xd800 \<or> 0xdfff < c"
  shows "stringIsWellFormed (c # s) \<longleftrightarrow> stringIsWellFormed s"
  using assms by (auto simp: stringIsWellFormed.simps(2))

lemma wf_pair:
  assumes "0xd800 \<le> c" "c \<le> 0xdbff" "0xdc00 \<le> d" "d \<le> 0xdfff"
  shows "stringIsWellFormed (c # d # s) \<longleftrightarrow> stringIsWellFormed s"
  using assms by (auto simp: stringIsWellFormed.simps(2))

lemma wf_induct [consumes 1, case_names Nil Unit Pair]:
  assumes "stringIsWellFormed s" and nil: "P []"
    and unit: "\<And>c s. \<lbrakk>c < 0xd800 \<or> 0xdfff < c; stringIsWellFormed s; P s\<rbrakk> \<Longrightarrow> P (c # s)"
    and pair: "\<And>c d s. \<lbrakk>0xd800 \<le> c; c \<le> 0xdbff; 0xdc00 \<le> d; d \<le> 0xdfff; stringIsWellFormed s; P s\<rbrakk> \<Longrightarrow> P (c # d # s)"
  shows "P s"
  using assms(1)
proof (induction s rule: length_induct)
  case (1 s)
  show ?case
  proof (cases s)
    case Nil then show ?thesis using nil by simp
  next
    case (Cons c t)
    show ?thesis
    proof (cases "c < 0xd800 \<or> 0xdfff < c")
      case True
      with 1 Cons have "stringIsWellFormed t" "P t" using wf_unit by auto
      with True unit Cons show ?thesis by blast
    next
      case False
      with 1 Cons obtain d r where t: "t = d # r" and b: "0xd800 \<le> c" "c \<le> 0xdbff" "0xdc00 \<le> d" "d \<le> 0xdfff"
        by (auto simp: stringIsWellFormed.simps(2) split: list.splits if_splits)
      with 1 Cons have "stringIsWellFormed r" "P r" using wf_pair by auto
      with b pair Cons t show ?thesis by blast
    qed
  qed
qed

lemma codeUnits_wf:
  assumes "isScalar uc"
  shows "stringIsWellFormed (codeUnits uc @ s) \<longleftrightarrow> stringIsWellFormed s"
proof (cases "uc \<le> 0xffff")
  case False
  then have "64 \<le> uc div 1024" "uc div 1024 < 1088" using assms by (auto simp: isScalar_def)
  moreover have "uc mod 1024 < 1024" by simp
  ultimately show ?thesis using False by (simp add: codeUnits_def wf_pair)
qed (use assms in \<open>auto simp: codeUnits_def isScalar_def wf_unit\<close>)

lemma trail_or: "(ch AND 0x3ff) OR 0xdc00 = ch mod 1024 + 0xdc00" for ch :: nat
  using or_field [of "ch mod 1024" 10 55] by (simp add: masks push_bit_eq_mult)

lemma utf32ToUtf16_codeUnits:
  assumes "isScalar uc"
  shows "utf32ToUtf16 uc = codeUnits uc"
proof (cases "uc \<le> 0xffff")
  case True
  with assms show ?thesis by (auto simp: utf32ToUtf16_def codeUnits_def isScalar_def masks)
next
  case False
  then obtain j where j: "uc = 0x10000 + j" using le_iff_add [of "0x10000" uc] by auto
  then have "j < 0x100000" using assms by (simp add: isScalar_def)
  then have "j div 1024 < 1024" by auto
  moreover have "uc div 1024 = 64 + j div 1024" "uc mod 1024 = j mod 1024" 
    using div_mult_self1 [of 1024 j 64] mod_mult_self1 [of j 64 1024] unfolding j by (simp_all add: add.commute)
  ultimately show ?thesis
    using False assms j trail_or [of j] or_field [of "j div 1024" 11 27]
    by (simp add: Let_def utf32ToUtf16_def codeUnits_def isScalar_def drop_bit_eq_div push_bit_eq_mult or.commute)
qed

section \<open>Decoding\<close>

lemma lead_trail:
  fixes ch :: nat
  assumes "0x10000 \<le> ch" "ch \<le> 0x10ffff"
  shows "(drop_bit 10 ch + 0xd7c0) mod 2 ^ 16 = ch div 1024 + 0xd7c0"
    and "((ch AND 0x3ff) OR 0xdc00) mod 2 ^ 16 = ch mod 1024 + 0xdc00"
proof -
  have "ch div 1024 < 1088" using assms by auto
  then show "(drop_bit 10 ch + 0xd7c0) mod 2 ^ 16 = ch div 1024 + 0xd7c0" by (simp add: drop_bit_eq_div)
  have "ch mod 1024 < 1024" by simp
  then show "((ch AND 0x3ff) OR 0xdc00) mod 2 ^ 16 = ch mod 1024 + 0xdc00" by (simp add: trail_or)
qed

text \<open>One iteration of the loop: either the sequence stands for a scalar value, or a replacement character is emitted.\<close>

lemma decode_scalar:
  assumes "readUTF8Sequence (c # rest) (length (c # rest)) = Some (Some ch, n)" "0x80 \<le> c" "isScalar ch"
  shows "utf8StringToUTF16StringNonGC (c # rest) =
    map_option (append (codeUnits ch)) (utf8StringToUTF16StringNonGC (drop (n - 1) rest))"
proof (cases "ch \<le> 0xffff")
  case True
  with assms surrogate_masks(3) [of ch] show ?thesis
    by (auto simp: codeUnits_def isScalar_def intro!: arg_cong [where f = "\<lambda>f. map_option f _"])
next
  case False
  with assms lead_trail [of ch] show ?thesis
    by (auto simp: codeUnits_def isScalar_def intro!: arg_cong [where f = "\<lambda>f. map_option f _"])
qed

lemma decode_replaces:
  assumes "readUTF8Sequence (c # rest) (length (c # rest)) = Some (r, n)" "0x80 \<le> c" "\<forall>ch. r = Some ch \<longrightarrow> \<not> isScalar ch"
  shows "\<exists>m. utf8StringToUTF16StringNonGC (c # rest) = map_option (Cons 0xFFFD) (utf8StringToUTF16StringNonGC (drop m rest))"
proof (cases r)
  case (Some ch)
  then have "\<not> isScalar ch" using assms(3) by simp
  then have "utf8StringToUTF16StringNonGC (c # rest) = map_option (Cons 0xFFFD) (utf8StringToUTF16StringNonGC rest)"
    using assms Some surrogate_masks(3) [of ch] by (auto simp: isScalar_def)
  then show ?thesis by (metis drop0)
qed (use assms in auto)

lemma decode_encoded:
  assumes "encodable uc" "isScalar uc"
  shows "utf8StringToUTF16StringNonGC (utf32ToUtf8 uc @ rest) = map_option (append (codeUnits uc)) (utf8StringToUTF16StringNonGC rest)"
proof (cases "uc < 0x80")
  case True
  then show ?thesis by (auto simp: utf32ToUtf8_def toChar_def codeUnits_def intro!: arg_cong [where f = "\<lambda>f. map_option f _"])
next
  case False
  then obtain b bs where b: "utf32ToUtf8 uc = b # bs" "0x80 \<le> b" using read_encoded(2) [OF assms(1)] by fastforce
  with read_encoded(1) [OF assms(1), of rest] False have
    "readUTF8Sequence (b # bs @ rest) (length (b # bs @ rest)) = Some (Some uc, Suc (length bs))" by simp
  from decode_scalar [OF this b(2) assms(2)] b(1) show ?thesis by simp
qed

text \<open>The bounds checks of \<open>readUTF8Sequence\<close> are enough: a read within the remaining length never leaves the buffer.\<close>

lemma readUTF8Sequence_total:
  "\<exists>r n. readUTF8Sequence (c # rest) (length (c # rest)) = Some (r, n)"
  by (auto simp: readUTF8Sequence_def byteAt_def)

lemma decode_step:
  assumes "0x80 \<le> c"
  obtains ch n where "isScalar ch" "utf8StringToUTF16StringNonGC (c # rest) =
      map_option (append (codeUnits ch)) (utf8StringToUTF16StringNonGC (drop n rest))"
proof -
  obtain r n where r: "readUTF8Sequence (c # rest) (length (c # rest)) = Some (r, n)"
    using readUTF8Sequence_total by blast
  show thesis
  proof (cases "\<exists>ch. r = Some ch \<and> isScalar ch")
    case True
    with that decode_scalar assms r show thesis by blast
  next
    case False
    then obtain m where "utf8StringToUTF16StringNonGC (c # rest) =
        map_option (Cons 0xFFFD) (utf8StringToUTF16StringNonGC (drop m rest))"
      using decode_replaces [OF r assms] by blast
    moreover have "append (codeUnits 0xFFFD) = Cons 0xFFFD" by (auto simp: codeUnits_def)
    ultimately show thesis using that [of "0xFFFD" m] by (simp add: isScalar_def)
  qed
qed

lemma decode_wf: "\<exists>s. utf8StringToUTF16StringNonGC bs = Some s \<and> stringIsWellFormed s"
proof (induction bs rule: length_induct)
  case (1 bs)
  show ?case
  proof (cases bs)
    case (Cons c rest)
    have IH: "\<exists>s. utf8StringToUTF16StringNonGC (drop n rest) = Some s \<and> stringIsWellFormed s" for n
      using 1 Cons by simp
    show ?thesis
    proof (cases "c < 0x80")
      case True
      with Cons IH [of 0] show ?thesis using wf_unit by fastforce
    next
      case False
      then obtain ch n where "isScalar ch" "utf8StringToUTF16StringNonGC (c # rest) =
          map_option (append (codeUnits ch)) (utf8StringToUTF16StringNonGC (drop n rest))"
        using decode_step [of c rest] by (metis not_less)
      with IH [of n] codeUnits_wf Cons show ?thesis by auto
    qed
  qed simp
qed

text \<open>C39: the decoder is total and safe: for every sequence of bytes it returns without reading past the end of the
  buffer, and what it returns is well-formed UTF-16, whatever the bytes are.\<close>

theorem utf8_decoder_safe: "\<exists>s. utf8StringToUTF16StringNonGC bs = Some s \<and> stringIsWellFormed s"
  by (rule decode_wf)

section \<open>Round trips\<close>

lemma supplementary:
  assumes "0xd800 \<le> c" "c \<le> 0xdbff" "0xdc00 \<le> d" "d \<le> 0xdfff"
  defines "uc \<equiv> 0x10000 + (c - 0xd800) * 1024 + (d - 0xdc00)"
  shows "U16_GET_SUPPLEMENTARY c d = uc" "codeUnits uc = [c, d]" "isScalar uc" "0x10000 \<le> uc"
proof -
  obtain h where h: "c = 0xd800 + h" "h < 1024" using assms(1,2) le_iff_add [of "0xd800" c] by auto
  obtain l where l: "d = 0xdc00 + l" "l < 1024" using assms(3,4) le_iff_add [of "0xdc00" d] by auto
  have uc: "uc = l + (64 + h) * 1024" by (simp add: uc_def h l)
  have "uc div 1024 = 64 + h" "uc mod 1024 = l" unfolding uc using l(2) by (simp_all del: distrib_right_numeral add_mult_distrib)
  then show "codeUnits uc = [c, d]" using h l by (simp add: codeUnits_def uc)
  show "U16_GET_SUPPLEMENTARY c d = uc" using h l by (simp add: U16_GET_SUPPLEMENTARY_def push_bit_eq_mult uc)
  show "isScalar uc" "0x10000 \<le> uc" using h l by (simp_all add: isScalar_def uc)
qed

lemma encode_unit:
  assumes "c < 0xd800 \<or> 0xdfff < c" "c < 2 ^ 16"
  shows "toUTF8String False (c # s) = utf32ToUtf8 c @ toUTF8String False s"
  using assms surrogate_masks [of c] by (cases s) (auto simp: utf32ToUtf8_def toChar_def)

lemma codePoints_unit:
  assumes "c < 0xd800 \<or> 0xdfff < c"
  shows "codePoints (c # s) = c # codePoints s"
  using assms by (cases s) auto

text \<open>C40: encoding a well-formed string as UTF-8 and decoding it again gives the string, if its code points are in the planes 0 to 3 or 16;
  those of the planes 4 to 15 are encoded wrongly (\<open>utf32ToUtf8_planes\<close>).\<close>

theorem utf8_roundtrip:
  assumes "stringIsWellFormed s" "\<forall>c \<in> set s. c < 2 ^ 16" "\<forall>cp \<in> set (codePoints s). encodable cp"
  shows "utf8StringToUTF16StringNonGC (toUTF8String False s) = Some s"
  using assms
proof (induction s rule: wf_induct)
  case (Unit c s)
  then have "isScalar c" "codeUnits c = [c]" by (auto simp: isScalar_def codeUnits_def)
  with Unit show ?case by (simp add: encode_unit codePoints_unit decode_encoded)
next
  case (Pair c d s)
  note s = supplementary [OF Pair.hyps(1-4)]
  have "toUTF8String False (c # d # s) = utf32ToUtf8 (U16_GET_SUPPLEMENTARY c d) @ toUTF8String False s"
    using Pair.hyps surrogate_masks [of c] surrogate_masks [of d] by simp
  with s Pair show ?case by (simp add: decode_encoded)
qed simp

theorem utf8_roundtrip_witness:
  "utf8StringToUTF16StringNonGC (toUTF8String False [0x41, 0xE9, 0x20AC, 0xD83D, 0xDE00]) = Some [0x41, 0xE9, 0x20AC, 0xD83D, 0xDE00]"
  by (rule utf8_roundtrip) (simp_all add: encodable_def wf_unit wf_pair)

lemma not_encodable_second_byte:
  assumes "0x40000 \<le> uc" "uc < 0x100000"
  shows "toChar (128 + uc div 2 ^ 12 mod 2 ^ 12) < 128 \<or> 192 \<le> toChar (128 + uc div 2 ^ 12 mod 2 ^ 12)"
proof -
  have "64 \<le> uc div 4096" "uc div 4096 < 256" using assms by auto
  moreover from this have "(128 + uc div 4096) mod 256 = (if uc div 4096 < 128 then 128 + uc div 4096 else uc div 4096 - 128)"
    using le_mod_geq [of 256 "128 + uc div 4096"] by auto
  ultimately show ?thesis unfolding toChar_def by (auto simp: less_diff_conv2)
qed

lemma decode_not_encodable:
  assumes "0x40000 \<le> uc" "uc < 0x100000"
  shows "\<exists>t. utf8StringToUTF16StringNonGC (utf32ToUtf8 uc) = map_option (Cons 0xFFFD) t"
proof -
  define b where "b = toChar (128 + uc div 2 ^ 12 mod 2 ^ 12)"
  have q: "uc div 262144 < 8" "uc div 262144 \<noteq> 0" using assms by auto
  have "b < 256" by (simp add: b_def toChar_def)
  moreover have "b < 128 \<or> 192 \<le> b" using not_encodable_second_byte [OF assms] by (simp add: b_def)
  moreover have u: "utf32ToUtf8 uc = [240 + uc div 262144, b, 128 + uc div 64 mod 64, 128 + uc mod 64]"
    using assms q by (simp add: utf32ToUtf8_def b_def) (simp add: toChar_def)
  ultimately have r: "readUTF8Sequence (utf32ToUtf8 uc) (length (utf32ToUtf8 uc)) = Some (None, 1)"
    using q by (auto simp: readUTF8Sequence_def byteAt_def lead_byte_masks)
  with decode_replaces [of "240 + uc div 262144" "[b, 128 + uc div 64 mod 64, 128 + uc mod 64]" None 1] u
  show ?thesis by auto
qed

text \<open>a supplementary code point survives encoding and decoding exactly when it is below U+40000 or in the last plane: the
  second byte of the four-byte form is reduced modulo \<open>2^12\<close> instead of \<open>2^6\<close>, so planes 4 to 15 are encoded as invalid UTF-8.\<close>

theorem utf32ToUtf8_planes:
  assumes "0x10000 \<le> cp" "cp \<le> 0x10FFFF"
  shows "utf8StringToUTF16StringNonGC (utf32ToUtf8 cp) = Some (utf32ToUtf16 cp) \<longleftrightarrow> cp < 0x40000 \<or> 0x100000 \<le> cp"
proof -
  have sc: "isScalar cp" using assms by (simp add: isScalar_def)
  show ?thesis
  proof (cases "cp < 0x40000 \<or> 0x100000 \<le> cp")
    case True
    then have "encodable cp" using assms by (auto simp: encodable_def)
    with decode_encoded [of cp "[]"] sc True show ?thesis by (simp add: utf32ToUtf16_codeUnits)
  next
    case False
    then have "cp div 1024 < 1088" using assms by auto
    then have "hd (codeUnits cp) \<noteq> 0xFFFD" using assms by (simp add: codeUnits_def)
    moreover obtain t where "utf8StringToUTF16StringNonGC (utf32ToUtf8 cp) = map_option (Cons 0xFFFD) t"
      using decode_not_encodable [of cp] False by auto
    ultimately show ?thesis using False sc by (auto simp: utf32ToUtf16_codeUnits dest!: sym [of "_ # _"])
  qed
qed

theorem utf32ToUtf8_planes_witness:
  "utf8StringToUTF16StringNonGC (utf32ToUtf8 0x40000) \<noteq> Some (utf32ToUtf16 0x40000)"
  using utf32ToUtf8_planes [of "0x40000"] by simp

text \<open>Splitting a code point into code units agrees with the encoder of the library on every scalar value but U+FFFF, where the
  comparison is strict and the code computes a surrogate pair from a negative difference that wraps around.\<close>

theorem utf16EncodeCodePoint_correct:
  assumes "isScalar cp"
  shows "map_option (\<lambda>(cu1, cu2). if cu2 = 0 then [cu1] else [cu1, cu2]) (utf16EncodeCodePoint cp) = Some (utf32ToUtf16 cp)
    \<longleftrightarrow> cp \<noteq> 0xFFFF"
proof -
  consider "cp < 0xFFFF" | "cp = 0xFFFF" | "0x10000 \<le> cp" by linarith
  then show ?thesis
  proof cases
    case 3
    then obtain j where j: "cp = 0x10000 + j" using le_iff_add by blast
    then have "j < 0x100000" using assms by (simp add: isScalar_def)
    then have "j div 1024 < 1024" by auto
    moreover have "cp div 1024 = 64 + j div 1024" "cp mod 1024 = j mod 1024"
      using div_mult_self1 [of 1024 j 64] mod_mult_self1 [of j 64 1024] unfolding j by (simp_all add: add.commute)
    moreover have "(cp + 2 ^ 32 - 65536) mod 2 ^ 32 = j" using j \<open>j < _\<close> by simp
    moreover have "j mod 1024 < 1024" by simp
    ultimately show ?thesis using 3 utf32ToUtf16_codeUnits [OF assms]
      by (simp add: utf16EncodeCodePoint_def codeUnits_def Let_def)
  qed (use assms utf32ToUtf16_codeUnits [OF assms] in \<open>auto simp: utf16EncodeCodePoint_def codeUnits_def Let_def\<close>)
qed

theorem utf16EncodeCodePoint_correct_witness:
  "utf16EncodeCodePoint 0x1F600 = Some (0xD83D, 0xDE00) \<and>
   map_option (\<lambda>(cu1, cu2). if cu2 = 0 then [cu1] else [cu1, cu2]) (utf16EncodeCodePoint 0xFFFF) \<noteq> Some (utf32ToUtf16 0xFFFF)"
  using utf16EncodeCodePoint_correct [of "0xFFFF"] by (simp add: isScalar_def) (simp add: utf16EncodeCodePoint_def)

lemma loop_step:
  shows "c < 0xd800 \<or> 0xdfff < c \<Longrightarrow> toWellFormedLoop (c # s) = c # toWellFormedLoop s"
    and "\<lbrakk>0xd800 \<le> c; c \<le> 0xdbff; 0xdc00 \<le> d; d \<le> 0xdfff\<rbrakk> \<Longrightarrow> toWellFormedLoop (c # d # s) = c # d # toWellFormedLoop s"
    and "\<not> fst (isWellFormed (c # s)) \<Longrightarrow> toWellFormedLoop (c # s) = 0xFFFD # toWellFormedLoop s"
  by (auto simp: toWellFormedLoop.simps(2) split: list.splits if_splits)

lemma unit_cases:
  obtains (Unit) "c < 0xd800 \<or> 0xdfff < c" | (Bad) "\<not> fst (isWellFormed (c # s))"
  | (Pair) d r where "s = d # r" "0xd800 \<le> c" "c \<le> 0xdbff" "0xdc00 \<le> d" "d \<le> 0xdfff"
  by (cases s) (fastforce split: if_splits)+

lemma toWellFormedLoop_wf: "stringIsWellFormed (toWellFormedLoop s) \<and> length (toWellFormedLoop s) = length s"
proof (induction s rule: length_induct)
  case (1 s)
  show ?case
  proof (cases s)
    case (Cons c t)
    show ?thesis
    proof (cases rule: unit_cases [where c = c and s = t])
      case Unit
      with 1 Cons wf_unit [OF Unit] loop_step(1) [OF Unit] show ?thesis by (metis length_Cons lessI)
    next
      case Bad
      with 1 Cons wf_unit [of "0xFFFD"] loop_step(3) [OF Bad] show ?thesis by auto
    next
      case (Pair d r)
      with 1 Cons wf_pair [OF Pair(2-5)] loop_step(2) [OF Pair(2-5)] show ?thesis by auto
    qed
  qed simp
qed

text \<open>\<open>toWellFormed\<close> returns a well-formed string of the same length, and a well-formed string unchanged.\<close>

theorem toWellFormed_correct:
  "stringIsWellFormed (toWellFormed s) \<and> length (toWellFormed s) = length s \<and> (toWellFormed s = s \<longleftrightarrow> stringIsWellFormed s)"
  using toWellFormedLoop_wf [of s] unfolding toWellFormed_def by metis

end
