(* ===== verification/ParserMonad.thy ===== *)
theory ParserMonad
  imports Unicode
begin

text \<open>
  The cursor \<open>ParserString\<close> of \<open>src/runtime/String.h\<close> as a parser monad. A parser takes the source string and the position, and
  gives \<open>None\<close> when it reads a code unit outside of the buffer, and otherwise the position it leaves with either a value or the
  \<open>NullOption\<close> of the C++ code. A weakest precondition for it gives memory safety and a property of the values together.
\<close>

type_synonym 'a parser = "ustring \<Rightarrow> nat \<Rightarrow> ('a option \<times> nat) option"

section \<open>Combinators\<close>

definition ret :: "'a \<Rightarrow> 'a parser" where
  "ret x = (\<lambda>s i. Some (Some x, i))"

definition reject :: "'a parser" where
  "reject = (\<lambda>s i. Some (None, i))"

definition outOfBounds :: "'a parser" where
  "outOfBounds = (\<lambda>s i. None)"

definition bindP :: "'a parser \<Rightarrow> ('a \<Rightarrow> 'b parser) \<Rightarrow> 'b parser" where
  "bindP p f = (\<lambda>s i. case p s i of None \<Rightarrow> None | Some (None, j) \<Rightarrow> Some (None, j) | Some (Some x, j) \<Rightarrow> f x s j)"

definition thenP :: "'a parser \<Rightarrow> 'b parser \<Rightarrow> 'b parser" where
  "thenP p q = bindP p (\<lambda>_. q)"

text \<open>\<open>auto x = p(buffer);\<close> without a test of \<open>x\<close>: the failure is a value, and the cursor stays where it was left.\<close>

definition attempt :: "'a parser \<Rightarrow> 'a option parser" where
  "attempt p = (\<lambda>s i. case p s i of None \<Rightarrow> None | Some (r, j) \<Rightarrow> Some (Some r, j))"

section \<open>The operations of the cursor\<close>

text \<open>\<open>size_t\<close> has 64 bits: the remaining length wraps around when the position is beyond the end.\<close>

definition lengthRemaining :: "nat parser" where
  "lengthRemaining = (\<lambda>s i. Some (Some (if i \<le> length s then length s - i else length s + 2 ^ 64 - i), i))"

definition advanceBy :: "nat \<Rightarrow> unit parser" where
  "advanceBy n = (\<lambda>s i. Some (Some (), i + n))"

definition advance :: "unit parser" where
  "advance = advanceBy 1"

definition atEnd :: "bool parser" where
  "atEnd = (\<lambda>s i. Some (Some (length s \<le> i), i))"

definition peekAt :: "nat \<Rightarrow> nat parser" where
  "peekAt k = (\<lambda>s i. if i + k < length s then Some (Some (s ! (i + k)), i) else None)"

definition position :: "nat parser" where
  "position = (\<lambda>s i. Some (Some i, i))"

text \<open>
  The substring is taken from the UTF-8 form of the source, at the position counted in UTF-16 code units; \<open>substr\<close> throws
  when the position is beyond its end.
\<close>

definition firstN :: "nat \<Rightarrow> nat list parser" where
  "firstN n = (\<lambda>s i. let u = toUTF8String False s in if i \<le> length u then Some (Some (take n (drop i u)), i) else None)"

definition consume :: "nat \<Rightarrow> nat list parser" where
  "consume n = bindP (firstN n) (\<lambda>r. thenP (advanceBy n) (ret r))"

definition sourceSubstring :: "nat \<Rightarrow> nat \<Rightarrow> ustring parser" where
  "sourceSubstring start stop = (\<lambda>s i. if stop \<le> length s then Some (Some (take (stop - start) (drop start s)), i) else None)"

text \<open>A function that makes a cursor for a string, and gives what the parser gives.\<close>

definition runP :: "'a parser \<Rightarrow> ustring \<Rightarrow> 'a option option" where
  "runP p s = map_option fst (p s 0)"

section \<open>Weakest preconditions\<close>

definition wp :: "'a parser \<Rightarrow> ('a \<Rightarrow> nat \<Rightarrow> bool) \<Rightarrow> ustring \<Rightarrow> nat \<Rightarrow> bool" where
  "wp p Q s i \<longleftrightarrow> (case p s i of None \<Rightarrow> False | Some (None, j) \<Rightarrow> j \<le> length s | Some (Some x, j) \<Rightarrow> Q x j)"

named_theorems wp_simps \<open>weakest preconditions of the combinators\<close>

lemma wp_ret [wp_simps]: "wp (ret x) Q s i \<longleftrightarrow> Q x i"
  by (simp add: wp_def ret_def)

lemma wp_reject [wp_simps]: "wp reject Q s i \<longleftrightarrow> i \<le> length s"
  by (simp add: wp_def reject_def)

lemma wp_outOfBounds [wp_simps]: "wp outOfBounds Q s i \<longleftrightarrow> False"
  by (simp add: wp_def outOfBounds_def)

lemma wp_bindP [wp_simps]: "wp (bindP p f) Q s i \<longleftrightarrow> wp p (\<lambda>x j. wp (f x) Q s j) s i"
  by (auto simp: wp_def bindP_def split: option.splits)

lemma wp_thenP [wp_simps]: "wp (thenP p q) Q s i \<longleftrightarrow> wp p (\<lambda>x j. wp q Q s j) s i"
  by (simp add: thenP_def wp_bindP)

lemma wp_attempt: "wp (attempt p) Q s i \<longleftrightarrow> (\<exists>r j. p s i = Some (r, j) \<and> Q r j)"
  by (auto simp: wp_def attempt_def split: option.splits)

lemma wp_lengthRemaining [wp_simps]:
  "i \<le> length s \<Longrightarrow> wp lengthRemaining Q s i \<longleftrightarrow> Q (length s - i) i"
  by (simp add: wp_def lengthRemaining_def)

lemma wp_advanceBy [wp_simps]: "wp (advanceBy n) Q s i \<longleftrightarrow> Q () (i + n)"
  by (simp add: wp_def advanceBy_def)

lemma wp_advance [wp_simps]: "wp advance Q s i \<longleftrightarrow> Q () (i + 1)"
  by (simp add: advance_def wp_advanceBy)

lemma wp_atEnd [wp_simps]: "wp atEnd Q s i \<longleftrightarrow> Q (length s \<le> i) i"
  by (simp add: wp_def atEnd_def)

lemma wp_peekAt [wp_simps]: "wp (peekAt k) Q s i \<longleftrightarrow> i + k < length s \<and> Q (s ! (i + k)) i"
  by (simp add: wp_def peekAt_def)

lemma wp_position [wp_simps]: "wp position Q s i \<longleftrightarrow> Q i i"
  by (simp add: wp_def position_def)

lemma wp_firstN: "wp (firstN n) Q s i \<longleftrightarrow> i \<le> length (toUTF8String False s) \<and> Q (take n (drop i (toUTF8String False s))) i"
  by (simp add: wp_def firstN_def Let_def)

lemma wp_sourceSubstring [wp_simps]:
  "wp (sourceSubstring a b) Q s i \<longleftrightarrow> b \<le> length s \<and> Q (take (b - a) (drop a s)) i"
  by (simp add: wp_def sourceSubstring_def)

lemma wp_if [wp_simps]: "wp (if b then p else q) Q s i \<longleftrightarrow> (if b then wp p Q s i else wp q Q s i)"
  by simp

lemma wp_Let [wp_simps]: "wp (Let x f) Q s i \<longleftrightarrow> wp (f x) Q s i"
  by (simp add: Let_def)

text \<open>The same as introduction rules: with the specifications of the parsers that are called, they give the conditions to show.\<close>

named_theorems wp_intros \<open>introduction rules for weakest preconditions\<close>

lemma wp_ifI [wp_intros]: "\<lbrakk>b \<Longrightarrow> wp p Q s i; \<not> b \<Longrightarrow> wp q Q s i\<rbrakk> \<Longrightarrow> wp (if b then p else q) Q s i"
  by simp

lemma wp_splitI [wp_intros]: "(\<And>a b. x = (a, b) \<Longrightarrow> wp (f a b) Q s i) \<Longrightarrow> wp (case x of (a, b) \<Rightarrow> f a b) Q s i"
  by (simp split: prod.split)

lemma wp_optionI [wp_intros]:
  "\<lbrakk>x = None \<Longrightarrow> wp p Q s i; \<And>y. x = Some y \<Longrightarrow> wp (f y) Q s i\<rbrakk> \<Longrightarrow> wp (case x of None \<Rightarrow> p | Some y \<Rightarrow> f y) Q s i"
  by (simp split: option.split)

lemma wp_peekI [wp_intros]: "\<lbrakk>i + k < length s; Q (s ! (i + k)) i\<rbrakk> \<Longrightarrow> wp (peekAt k) Q s i"
  by (simp add: wp_peekAt)

lemma wp_remainingI [wp_intros]: "\<lbrakk>i \<le> length s; Q (length s - i) i\<rbrakk> \<Longrightarrow> wp lengthRemaining Q s i"
  by (simp add: wp_lengthRemaining)

lemma wp_substringI [wp_intros]: "\<lbrakk>b \<le> length s; Q (take (b - a) (drop a s)) i\<rbrakk> \<Longrightarrow> wp (sourceSubstring a b) Q s i"
  by (simp add: wp_sourceSubstring)

lemmas [wp_intros] = iffD2 [OF wp_ret] iffD2 [OF wp_reject] iffD2 [OF wp_bindP] iffD2 [OF wp_thenP] iffD2 [OF wp_advance]
  iffD2 [OF wp_advanceBy] iffD2 [OF wp_atEnd] iffD2 [OF wp_position] iffD2 [OF wp_Let]

lemma wp_mono:
  assumes "wp p Q s i" "\<And>x j. Q x j \<Longrightarrow> R x j"
  shows "wp p R s i"
  using assms by (auto simp: wp_def split: option.splits)

lemma wp_conj: "wp p (\<lambda>x j. Q x j \<and> R x j) s i \<longleftrightarrow> wp p Q s i \<and> wp p R s i"
  by (auto simp: wp_def split: option.splits)

lemma wp_attemptI:
  assumes "wp p Q s i" "\<And>x j. Q x j \<Longrightarrow> R (Some x) j" "\<And>j. j \<le> length s \<Longrightarrow> R None j"
  shows "wp (attempt p) R s i"
proof -
  obtain r j where "p s i = Some (r, j)" using assms(1) by (auto simp: wp_def split: option.splits)
  with assms show ?thesis by (cases r) (auto simp: wp_def attempt_def)
qed

lemma wpE:
  assumes "wp p Q s i"
  obtains (Reject) j where "p s i = Some (None, j)" "j \<le> length s" | (Return) x j where "p s i = Some (Some x, j)" "Q x j"
proof -
  obtain r j where "p s i = Some (r, j)" using assms by (auto simp: wp_def split: option.splits)
  with assms that show thesis by (cases r) (auto simp: wp_def)
qed

lemma wpD: "\<lbrakk>wp p Q s i; p s i = Some (Some x, j)\<rbrakk> \<Longrightarrow> Q x j"
  by (simp add: wp_def)

lemma wp_runP:
  assumes "wp p Q s 0"
  shows "\<exists>r. runP p s = Some r \<and> (\<forall>x. r = Some x \<longrightarrow> (\<exists>j. Q x j))"
  using assms by (auto simp: wp_def runP_def split: option.splits)

section \<open>Parsers never go back\<close>

definition forward :: "'a parser \<Rightarrow> bool" where
  "forward p \<longleftrightarrow> (\<forall>s i r j. p s i = Some (r, j) \<longrightarrow> i \<le> j)"

named_theorems forward_rules \<open>parsers that never go back\<close>

lemma forward_primitives [forward_rules]:
  "forward (ret x)" "forward reject" "forward outOfBounds" "forward lengthRemaining" "forward (advanceBy n)" "forward advance"
  "forward atEnd" "forward (peekAt k)" "forward position" "forward (firstN n)" "forward (sourceSubstring a b)"
  by (auto simp: forward_def ret_def reject_def outOfBounds_def lengthRemaining_def advanceBy_def advance_def atEnd_def peekAt_def
      position_def firstN_def sourceSubstring_def Let_def split: if_splits)

lemma forward_bindP [forward_rules]: "\<lbrakk>forward p; \<And>x. forward (f x)\<rbrakk> \<Longrightarrow> forward (bindP p f)"
  unfolding forward_def bindP_def by (fastforce split: option.splits prod.splits intro: order_trans)

lemma forward_thenP [forward_rules]: "\<lbrakk>forward p; forward q\<rbrakk> \<Longrightarrow> forward (thenP p q)"
  by (simp add: thenP_def forward_bindP)

lemma forward_if [forward_rules]: "\<lbrakk>b \<Longrightarrow> forward p; \<not> b \<Longrightarrow> forward q\<rbrakk> \<Longrightarrow> forward (if b then p else q)"
  by simp

lemma forward_Let [forward_rules]: "forward (f x) \<Longrightarrow> forward (Let x f)"
  by (simp add: Let_def)

lemma forward_split [forward_rules]: "(\<And>a b. forward (f a b)) \<Longrightarrow> forward (case p of (a, b) \<Rightarrow> f a b)"
  by (simp split: prod.split)

lemma forwardD: "\<lbrakk>forward p; p s i = Some (r, j)\<rbrakk> \<Longrightarrow> i \<le> j"
  by (simp add: forward_def)

text \<open>A code unit has at least one byte in UTF-8, so a position within the string is one within its UTF-8 form.\<close>

lemma utf32ToUtf8_length: "1 \<le> length (utf32ToUtf8 uc)" "0xffff < uc \<Longrightarrow> 2 \<le> length (utf32ToUtf8 uc)"
  by (simp_all add: utf32ToUtf8_def Let_def)

lemma U16_pair_length:
  assumes "U16_IS_LEAD c" "U16_IS_TRAIL d" "c < 2 ^ 16" "d < 2 ^ 16"
  shows "2 \<le> length (utf32ToUtf8 (U16_GET_SUPPLEMENTARY c d))"
  using supplementary [of c d] surrogate_masks [of c] surrogate_masks [of d] assms
  by (intro utf32ToUtf8_length) auto

lemma toUTF8String_length:
  assumes "\<forall>c \<in> set s. c < 2 ^ 16"
  shows "length s \<le> length (toUTF8String b s)"
  using assms
proof (induction b s rule: toUTF8String.induct)
  case (3 r ch c2 rest)
  then show ?case
    using U16_pair_length [of ch c2] utf32ToUtf8_length(1) [of ch] utf32ToUtf8_length(1) [of "0xFFFD"] by force
qed (use utf32ToUtf8_length(1) in auto)

end
