(* ===== verification/ISO8601Parser.thy ===== *)
theory ISO8601Parser
  imports Calendar ParserMonad
begin

text \<open>
  The parser of ISO 8601 and RFC 9557 strings, \<open>src/util/ISO8601.cpp\<close>: times, UTC offsets, dates, time zone and calendar
  annotations, and the strings of the Temporal objects built from them. Every read of the buffer is in the model: the theories after
  this one show where the parsers stay inside of it, that the fields they give are in range, and that the strings the engine
  prints are read back.
\<close>

section \<open>Characters\<close>

text \<open>
  The classification functions take a \<open>char\<close>: a code unit is cut to its low byte on the way. The model is for the "C" locale, in
  which only ASCII letters and digits are in a class. A byte from 128 is a negative \<open>char\<close> where \<open>char\<close> is signed, for which \<open>isdigit\<close> and the
  others are not defined by C; the model answers as the C library does there, that it is in no class.
\<close>

definition isASCIIDigit :: "nat \<Rightarrow> bool" where
  "isASCIIDigit c \<longleftrightarrow> (let b = c mod 256 in 48 \<le> b \<and> b \<le> 57)"

definition isASCIILower :: "nat \<Rightarrow> bool" where
  "isASCIILower c \<longleftrightarrow> (let b = c mod 256 in 97 \<le> b \<and> b \<le> 122)"

definition isASCIIUpper :: "nat \<Rightarrow> bool" where
  "isASCIIUpper c \<longleftrightarrow> (let b = c mod 256 in 65 \<le> b \<and> b \<le> 90)"

definition isASCIIAlpha :: "nat \<Rightarrow> bool" where
  "isASCIIAlpha c \<longleftrightarrow> isASCIILower c \<or> isASCIIUpper c"

text \<open>\<open>toupper\<close> takes an \<open>int\<close> and leaves what is not a lower case letter.\<close>

definition toUpper :: "nat \<Rightarrow> nat" where
  "toUpper c = (if 97 \<le> c \<and> c \<le> 122 then c - 32 else c)"

text \<open>The bytes of a \<open>std::string\<close> are signed characters.\<close>

definition signedChar :: "nat \<Rightarrow> int" where
  "signedChar b = (if b < 128 then int b else int b - 256)"

definition parseDecimalInt32 :: "nat list \<Rightarrow> int" where
  "parseDecimalInt32 characters = foldl (\<lambda>result b. result * 10 + signedChar b - 48) 0 characters"

section \<open>Annotations\<close>

primrec canBeAnnotationLoop :: "nat \<Rightarrow> nat \<Rightarrow> bool parser" where
  "canBeAnnotationLoop 0 index = ret False"
| "canBeAnnotationLoop (Suc n) index =
     bindP (peekAt index) (\<lambda>c.
       if c = unit_of CHR ''='' then ret True
       else if isASCIILower c \<or> isASCIIDigit c \<or> c = unit_of CHR ''-'' \<or> c = unit_of CHR ''_''
       then canBeAnnotationLoop n (Suc index) else ret False)"

definition canBeRFC9557Annotation :: "bool parser" where
  "canBeRFC9557Annotation =
     bindP lengthRemaining (\<lambda>length.
       if length < 5 then ret False
       else bindP (peekAt 0) (\<lambda>c.
         if c \<noteq> unit_of CHR ''['' then ret False
         else bindP (peekAt 1) (\<lambda>c1.
           let index = (if c1 = unit_of CHR ''!'' then 2 else 1) in
           bindP (peekAt index) (\<lambda>c2.
             if \<not> isASCIILower c2 \<and> c2 \<noteq> unit_of CHR ''_'' then ret False
             else canBeAnnotationLoop (length - Suc index) (Suc index)))))"

datatype RFC9557Flag = NoFlag | Critical
datatype RFC9557Key = CalendarKey | OtherKey

record RFC9557Annotation =
  m_flag :: RFC9557Flag
  m_key :: RFC9557Key
  m_value :: "nat list"

text \<open>\<open>while (buffer[keyLength] != '=') keyLength++\<close>: it stops at the first read outside of the buffer at the latest.\<close>

function keyLengthLoop :: "nat \<Rightarrow> ustring \<Rightarrow> nat \<Rightarrow> (nat option \<times> nat) option" where
  "keyLengthLoop keyLength s i =
     (if i + keyLength < length s
      then if s ! (i + keyLength) \<noteq> unit_of CHR ''='' then keyLengthLoop (Suc keyLength) s i else Some (Some keyLength, i)
      else None)"
  by pat_completeness auto
termination by (relation "measure (\<lambda>(k, s, i). length s - (i + k))") auto

text \<open>The length of a name up to the closing bracket, every character of which is allowed.\<close>

primrec nameLengthLoop :: "(nat \<Rightarrow> bool) \<Rightarrow> nat \<Rightarrow> nat \<Rightarrow> nat parser" where
  "nameLengthLoop allowed 0 index = ret index"
| "nameLengthLoop allowed (Suc n) index =
     bindP (peekAt index) (\<lambda>character.
       if character = unit_of CHR '']'' then ret index
       else if \<not> allowed character then reject
       else nameLengthLoop allowed n (Suc index))"

text \<open>The components of a name: the start of the last one, and whether its first character is still to come.\<close>

primrec nameComponentLoop ::
  "(nat \<Rightarrow> bool) \<Rightarrow> (nat \<Rightarrow> bool) \<Rightarrow> nat \<Rightarrow> (nat \<Rightarrow> nat \<Rightarrow> bool parser) \<Rightarrow> nat \<Rightarrow> nat \<Rightarrow> nat \<Rightarrow> bool \<Rightarrow> (nat \<times> bool) parser"
where
  "nameComponentLoop leading inner separator isValidComponent 0 index start isLeading = ret (start, isLeading)"
| "nameComponentLoop leading inner separator isValidComponent (Suc n) index start isLeading =
     bindP (peekAt index) (\<lambda>character.
       if isLeading
       then if \<not> leading character then reject
            else nameComponentLoop leading inner separator isValidComponent n (Suc index) index False
       else if character = separator
       then bindP (isValidComponent start index) (\<lambda>valid.
              if \<not> valid then reject
              else nameComponentLoop leading inner separator isValidComponent n (Suc index) start True)
       else if \<not> inner character then reject
       else nameComponentLoop leading inner separator isValidComponent n (Suc index) start False)"

definition isAlphaOrDigit :: "nat \<Rightarrow> bool" where
  "isAlphaOrDigit c \<longleftrightarrow> isASCIIAlpha c \<or> isASCIIDigit c"

definition isValidCalendarComponent :: "nat \<Rightarrow> nat \<Rightarrow> bool parser" where
  "isValidCalendarComponent start stop =
     (let componentLength = stop - start
      in if componentLength < 3 then ret False else if componentLength > 8 then ret False else ret True)"

text \<open>The closing bracket after the name.\<close>

definition parseAnnotationValue :: "RFC9557Flag \<Rightarrow> nat list \<Rightarrow> nat \<Rightarrow> RFC9557Annotation parser" where
  "parseAnnotationValue flag key nameLength =
     (if key \<noteq> us ''u-ca''
      then thenP (advanceBy nameLength) (bindP atEnd (\<lambda>e.
             if e then reject
             else bindP (peekAt 0) (\<lambda>c.
               if c \<noteq> unit_of CHR '']'' then reject
               else thenP advance (ret \<lparr>m_flag = flag, m_key = OtherKey, m_value = []\<rparr>))))
      else bindP (nameComponentLoop isAlphaOrDigit isAlphaOrDigit (unit_of CHR ''-'') isValidCalendarComponent nameLength 0 0 True)
        (\<lambda>(start, isLeading).
          if isLeading then reject
          else bindP (isValidCalendarComponent start nameLength) (\<lambda>valid.
            if \<not> valid then reject
            else bindP (consume nameLength) (\<lambda>result.
              bindP atEnd (\<lambda>e.
                if e then reject
                else bindP (peekAt 0) (\<lambda>c.
                  if c \<noteq> unit_of CHR '']'' then reject
                  else thenP advance (ret \<lparr>m_flag = flag, m_key = CalendarKey, m_value = result\<rparr>)))))))"

text \<open>From the key on.\<close>

definition parseAnnotationKey :: "RFC9557Flag \<Rightarrow> RFC9557Annotation parser" where
  "parseAnnotationKey flag =
     bindP (keyLengthLoop 0) (\<lambda>keyLength.
       if keyLength = 0 then reject
       else bindP (firstN keyLength) (\<lambda>key.
         thenP (advanceBy keyLength)
         (bindP atEnd (\<lambda>e.
           if e then reject
           else thenP advance
             (bindP lengthRemaining (\<lambda>n.
               bindP (nameLengthLoop (\<lambda>c. isAlphaOrDigit c \<or> c = unit_of CHR ''-'') n 0) (\<lambda>nameLength.
                 if nameLength = 0 then reject
                 else parseAnnotationValue flag key nameLength)))))))"

definition parseOneRFC9557Annotation :: "RFC9557Annotation parser" where
  "parseOneRFC9557Annotation =
     bindP canBeRFC9557Annotation (\<lambda>ok.
       if \<not> ok then reject
       else bindP (peekAt 1) (\<lambda>c1.
         let flag = (if c1 = unit_of CHR ''!'' then Critical else NoFlag) in
         thenP (advanceBy (if flag = Critical then 2 else 1)) (parseAnnotationKey flag)))"

declare keyLengthLoop.simps [simp del]

section \<open>Calendar annotations\<close>

lemma forward_canBeAnnotationLoop [forward_rules]: "forward (canBeAnnotationLoop n index)"
  by (induction n arbitrary: index) (auto intro!: forward_rules)

lemma forward_canBeRFC9557Annotation [forward_rules]: "forward canBeRFC9557Annotation"
  unfolding canBeRFC9557Annotation_def by (intro forward_rules)

lemma forward_keyLengthLoop [forward_rules]: "forward (keyLengthLoop n)"
proof -
  have "keyLengthLoop n s i = Some (r, j) \<Longrightarrow> j = i" for s i r j
    by (induction n s i rule: keyLengthLoop.induct) (subst (asm) (2) keyLengthLoop.simps, auto split: if_splits)
  then show ?thesis by (auto simp: forward_def)
qed

lemma forward_nameLengthLoop [forward_rules]: "forward (nameLengthLoop allowed n index)"
  by (induction n arbitrary: index) (auto intro!: forward_rules)

lemma forward_nameComponentLoop [forward_rules]:
  "(\<And>a b. forward (v a b)) \<Longrightarrow> forward (nameComponentLoop leading inner separator v n index start isLeading)"
  by (induction n arbitrary: index start isLeading) (auto intro!: forward_rules)

lemma forward_isValidCalendarComponent [forward_rules]: "forward (isValidCalendarComponent a b)"
  unfolding isValidCalendarComponent_def by (intro forward_rules)

lemma forward_parseAnnotationKey [forward_rules]: "forward (parseAnnotationKey flag)"
  unfolding parseAnnotationKey_def parseAnnotationValue_def consume_def by (intro forward_rules)

lemma parseOne_progress:
  assumes "parseOneRFC9557Annotation s i = Some (r, k)" "r \<noteq> None"
  shows "i < k" "i < length s"
proof -
  obtain c x flag where "forward canBeRFC9557Annotation" and c: "canBeRFC9557Annotation s i = Some (c, x)" and "x + 1 < length s"
    "parseAnnotationKey flag s (x + (if flag = Critical then 2 else 1)) = Some (r, k)"
    using assms forward_canBeRFC9557Annotation
    by (force simp: parseOneRFC9557Annotation_def bindP_def thenP_def reject_def peekAt_def advanceBy_def Let_def
        split: option.splits if_splits)
  moreover from this have "i \<le> x" "x + (if flag = Critical then 2 else 1) \<le> k"
    using forwardD forward_parseAnnotationKey by blast+
  ultimately show "i < k" "i < length s" by (auto split: if_splits)
qed

text \<open>The loop over the annotations; each one that is read moves the cursor.\<close>

function parseCalendarLoop :: "nat list list \<Rightarrow> bool \<Rightarrow> ustring \<Rightarrow> nat \<Rightarrow> (nat list list option \<times> nat) option" where
  "parseCalendarLoop result calendarWasCritical s i =
     (case canBeRFC9557Annotation s i of
        None \<Rightarrow> None
      | Some (None, j) \<Rightarrow> Some (None, j)
      | Some (Some b, j) \<Rightarrow>
          if \<not> b then Some (Some result, j)
          else (case parseOneRFC9557Annotation s i of
                  None \<Rightarrow> None
                | Some (None, k) \<Rightarrow> Some (None, k)
                | Some (Some annotation, k) \<Rightarrow>
                    let result' = (if m_key annotation = CalendarKey then result @ [m_value annotation] else result)
                    in if m_flag annotation = Critical \<and> (m_key annotation \<noteq> CalendarKey \<or> length result' \<noteq> 1) then Some (None, k)
                       else let critical = calendarWasCritical \<or> m_flag annotation = Critical
                            in if critical \<and> length result' > 1 then Some (None, k)
                               else parseCalendarLoop result' critical s k))"
  by pat_completeness auto
termination
proof (relation "measure (\<lambda>(result, critical, s, i). length s - i)", goal_cases)
  case (2 result critical s i)
  then show ?case using parseOne_progress by (force simp: diff_less_mono2)
qed simp

declare parseCalendarLoop.simps [simp del]

definition parseCalendar :: "nat list list parser" where
  "parseCalendar =
     bindP canBeRFC9557Annotation (\<lambda>ok. if \<not> ok then reject else parseCalendarLoop [] False)"

section \<open>Times\<close>

datatype Second60Mode = Accept | Reject
datatype SubMinutePrecision = AllowAll | DenyAll | Allow00

record DateTimeParseOption =
  parseSubMinutePrecisionForTimeZone :: SubMinutePrecision
  allowTimeZoneTimeWithoutTime :: bool

definition defaultOption :: DateTimeParseOption where
  "defaultOption = \<lparr>parseSubMinutePrecisionForTimeZone = AllowAll, allowTimeZoneTimeWithoutTime = False\<rparr>"

definition between :: "char \<Rightarrow> char \<Rightarrow> nat \<Rightarrow> bool" where
  "between a b c \<longleftrightarrow> unit_of a \<le> c \<and> c \<le> unit_of b"

text \<open>\<open>(second - '0') + 10 * (first - '0')\<close>, both characters tested to be at least \<open>'0'\<close>.\<close>

definition twoDigits :: "nat \<Rightarrow> nat \<Rightarrow> nat" where
  "twoDigits c1 c2 = (c2 - unit_of CHR ''0'') + 10 * (c1 - unit_of CHR ''0'')"

text \<open>The number of digits of the fraction, at most \<open>maxCount\<close>.\<close>

primrec fractionDigits :: "nat \<Rightarrow> nat \<Rightarrow> nat parser" where
  "fractionDigits 0 digits = ret digits"
| "fractionDigits (Suc n) digits =
     bindP (peekAt digits) (\<lambda>c. if \<not> isASCIIDigit c then ret digits else fractionDigits n (Suc digits))"

text \<open>\<open>padded[i] = buffer[i]\<close>: a code unit is cut to a \<open>char\<close>.\<close>

primrec copyDigits :: "nat \<Rightarrow> nat \<Rightarrow> nat list \<Rightarrow> nat list parser" where
  "copyDigits 0 i padded = ret padded"
| "copyDigits (Suc n) i padded = bindP (peekAt i) (\<lambda>c. copyDigits n (Suc i) (padded[i := c mod 256]))"

definition parseTimeFraction :: "nat \<Rightarrow> nat \<Rightarrow> nat \<Rightarrow> PlainTime parser" where
  "parseTimeFraction hour minute second =
     bindP atEnd (\<lambda>e.
       if e then ret (mkPlainTime hour minute second 0 0 0)
       else bindP (peekAt 0) (\<lambda>c.
         if c \<noteq> unit_of CHR ''.'' \<and> c \<noteq> unit_of CHR '','' then ret (mkPlainTime hour minute second 0 0 0)
         else thenP advance
           (bindP lengthRemaining (\<lambda>n.
             bindP (fractionDigits (min n 9) 0) (\<lambda>digits.
               if digits = 0 then reject
               else bindP (copyDigits digits 0 (us ''000000000'')) (\<lambda>padded.
                 thenP (advanceBy digits)
                 (ret (mkPlainTime hour minute second
                        (nat (parseDecimalInt32 (take 3 padded))) (nat (parseDecimalInt32 (take 3 (drop 3 padded))))
                        (nat (parseDecimalInt32 (take 3 (drop 6 padded)))))))))))) "

definition parseTimeSecond :: "Second60Mode \<Rightarrow> SubMinutePrecision \<Rightarrow> nat \<Rightarrow> nat \<Rightarrow> PlainTime parser" where
  "parseTimeSecond second60Mode parseSubMinutePrecision hour minute =
     (if parseSubMinutePrecision = DenyAll then reject
      else if parseSubMinutePrecision = Allow00
      then bindP lengthRemaining (\<lambda>n.
             if 2 \<le> n
             then bindP (peekAt 0) (\<lambda>c0.
               if c0 = unit_of CHR ''0''
               then bindP (peekAt 1) (\<lambda>c1.
                 if c1 = unit_of CHR ''0'' then thenP (advanceBy 2) (ret (mkPlainTime hour minute 0 0 0 0)) else reject)
               else reject)
             else reject)
      else bindP lengthRemaining (\<lambda>n.
        if n < 2 then reject
        else bindP (peekAt 0) (\<lambda>c1.
          if between CHR ''0'' CHR ''5'' c1
          then thenP advance (bindP (peekAt 0) (\<lambda>c2.
                 if \<not> isASCIIDigit c2 then reject
                 else thenP advance (parseTimeFraction hour minute (twoDigits c1 c2))))
          else if second60Mode = Accept \<and> c1 = unit_of CHR ''6''
          then thenP advance (bindP (peekAt 0) (\<lambda>c2.
                 if c2 \<noteq> unit_of CHR ''0'' then reject
                 else thenP advance (parseTimeFraction hour minute 59)))
          else reject)))"

definition parseTimeMinute :: "Second60Mode \<Rightarrow> SubMinutePrecision \<Rightarrow> nat \<Rightarrow> bool \<Rightarrow> PlainTime parser" where
  "parseTimeMinute second60Mode parseSubMinutePrecision hour splitByColon =
     bindP lengthRemaining (\<lambda>n.
       if n < 2 then reject
       else bindP (peekAt 0) (\<lambda>c1.
         if \<not> between CHR ''0'' CHR ''5'' c1 then reject
         else thenP advance (bindP (peekAt 0) (\<lambda>c2.
           if \<not> isASCIIDigit c2 then reject
           else let minute = twoDigits c1 c2 in
             thenP advance (bindP atEnd (\<lambda>e.
               if e then ret (mkPlainTime hour minute 0 0 0 0)
               else bindP (peekAt 0) (\<lambda>c.
                 if splitByColon
                 then if c = unit_of CHR '':'' then thenP advance (parseTimeSecond second60Mode parseSubMinutePrecision hour minute)
                      else ret (mkPlainTime hour minute 0 0 0 0)
                 else if \<not> between CHR ''0'' (if second60Mode = Accept then CHR ''6'' else CHR ''5'') c
                 then ret (mkPlainTime hour minute 0 0 0 0)
                 else parseTimeSecond second60Mode parseSubMinutePrecision hour minute)))))))"

definition parseTimeSpec :: "Second60Mode \<Rightarrow> SubMinutePrecision \<Rightarrow> PlainTime parser" where
  "parseTimeSpec second60Mode parseSubMinutePrecision =
     bindP lengthRemaining (\<lambda>n.
       if n < 2 then reject
       else bindP (peekAt 0) (\<lambda>c1.
         if \<not> between CHR ''0'' CHR ''2'' c1 then reject
         else thenP advance (bindP (peekAt 0) (\<lambda>c2.
           if \<not> isASCIIDigit c2 then reject
           else let hour = twoDigits c1 c2 in
             if 24 \<le> hour then reject
             else thenP advance (bindP atEnd (\<lambda>e.
               if e then ret (mkPlainTime hour 0 0 0 0 0)
               else bindP (peekAt 0) (\<lambda>c.
                 if c = unit_of CHR '':'' then thenP advance (parseTimeMinute second60Mode parseSubMinutePrecision hour True)
                 else if \<not> between CHR ''0'' CHR ''5'' c then ret (mkPlainTime hour 0 0 0 0 0)
                 else parseTimeMinute second60Mode parseSubMinutePrecision hour False)))))))"

section \<open>Time zones\<close>

datatype NameOrOffset = Empty | Name ustring | Offset int

record TimeZoneRecord =
  m_z :: bool
  m_offset :: "int option"
  m_offsetString :: "ustring option"
  m_nameOrOffset :: NameOrOffset

definition canBeTimeZone :: "nat \<Rightarrow> bool parser" where
  "canBeTimeZone character =
     (if character \<in> {unit_of CHR ''z'', unit_of CHR ''Z'', unit_of CHR ''+'', unit_of CHR ''-''} then ret True
      else if character = unit_of CHR ''['' then bindP canBeRFC9557Annotation (\<lambda>b. ret (\<not> b))
      else ret False)"

definition timeInNanoseconds :: "PlainTime \<Rightarrow> int" where
  "timeInNanoseconds t = nsPerHour * int (t_hour t) + nsPerMinute * int (t_minute t) + nsPerSecond * int (t_second t) +
     nsPerMillisecond * int (t_millisecond t) + nsPerMicrosecond * int (t_microsecond t) + int (t_nanosecond t)"

definition parseUTCOffset :: "DateTimeParseOption \<Rightarrow> int parser" where
  "parseUTCOffset option =
     bindP lengthRemaining (\<lambda>n.
       if n < 3 then reject
       else bindP (peekAt 0) (\<lambda>c.
         if c = unit_of CHR ''+'' \<or> c = unit_of CHR ''-''
         then let factor = (if c = unit_of CHR ''+'' then 1 else -1) in
           thenP advance
             (bindP (parseTimeSpec Reject (parseSubMinutePrecisionForTimeZone option)) (\<lambda>plainTime.
               ret (timeInNanoseconds plainTime * factor)))
         else reject))"

text \<open>The functions on a string: the result counts only when the cursor is at the end.\<close>

definition wholeString :: "'a parser \<Rightarrow> 'a parser" where
  "wholeString p =
     bindP (attempt p) (\<lambda>result. bindP atEnd (\<lambda>e.
       if \<not> e then reject else (case result of None \<Rightarrow> reject | Some x \<Rightarrow> ret x)))"

definition parseUTCOffsetString :: "DateTimeParseOption \<Rightarrow> int parser" where
  "parseUTCOffsetString option =
     wholeString (parseUTCOffset option)"

definition isTimeZoneLeadingChar :: "nat \<Rightarrow> bool" where
  "isTimeZoneLeadingChar c \<longleftrightarrow> isASCIIAlpha c \<or> isASCIIDigit c \<or> c = unit_of CHR ''.'' \<or> c = unit_of CHR ''_''"

definition isTimeZoneChar :: "nat \<Rightarrow> bool" where
  "isTimeZoneChar c \<longleftrightarrow> isTimeZoneLeadingChar c \<or> c = unit_of CHR ''-'' \<or> c = unit_of CHR ''+''"

definition isValidTimeZoneComponent :: "nat \<Rightarrow> nat \<Rightarrow> bool parser" where
  "isValidTimeZoneComponent start stop =
     (let componentLength = stop - start in
      if componentLength = 0 then ret False
      else if componentLength > 14 then ret False
      else if componentLength = 1 then bindP (peekAt start) (\<lambda>c. ret (c \<noteq> unit_of CHR ''.''))
      else if componentLength = 2
      then bindP (peekAt start) (\<lambda>c.
             if c = unit_of CHR ''.'' then bindP (peekAt (start + 1)) (\<lambda>d. ret (d \<noteq> unit_of CHR ''.'')) else ret True)
      else ret True)"

text \<open>The IANA name, the default case of the switch: its components and the closing bracket, and its length before them.\<close>

definition parseTimeZoneComponents :: "nat \<Rightarrow> NameOrOffset parser" where
  "parseTimeZoneComponents nameLength =
     bindP (nameComponentLoop isTimeZoneLeadingChar isTimeZoneChar (unit_of CHR ''/'') isValidTimeZoneComponent nameLength 0 0 True)
       (\<lambda>(start, isLeading).
         if isLeading then reject
         else bindP (isValidTimeZoneComponent start nameLength) (\<lambda>valid.
           if \<not> valid then reject
           else bindP (consume nameLength) (\<lambda>result.
             bindP atEnd (\<lambda>e.
               if e then reject
               else bindP (peekAt 0) (\<lambda>c.
                 if c \<noteq> unit_of CHR '']'' then reject else thenP advance (ret (Name result)))))))"

definition parseTimeZoneIANAName :: "NameOrOffset parser" where
  "parseTimeZoneIANAName =
     bindP lengthRemaining (\<lambda>n.
       bindP (nameLengthLoop (\<lambda>c. isTimeZoneChar c \<or> c = unit_of CHR ''/'') n 0) (\<lambda>nameLength.
         if nameLength = 0 then reject else parseTimeZoneComponents nameLength))"

text \<open>The code units at the cursor are those of a literal; the reads stop at the first difference.\<close>

primrec matches :: "nat list \<Rightarrow> nat \<Rightarrow> bool parser" where
  "matches [] k = ret True"
| "matches (x # xs) k = bindP (peekAt k) (\<lambda>c. if c = x then matches xs (Suc k) else ret False)"

text \<open>\<open>Etc/GMT+20]\<close>; any other form falls through to the IANA name.\<close>

definition parseEtcGMT :: "NameOrOffset parser" where
  "parseEtcGMT =
     bindP lengthRemaining (\<lambda>n.
       if n < 11 then parseTimeZoneIANAName
       else bindP (matches (us ''Etc/GMT'') 0) (\<lambda>m.
         if \<not> m then parseTimeZoneIANAName
         else bindP (peekAt 7) (\<lambda>sign.
           if \<not> (sign = unit_of CHR ''+'' \<or> sign = unit_of CHR ''-'') then parseTimeZoneIANAName
           else bindP (peekAt 8) (\<lambda>c1.
             if \<not> between CHR ''0'' CHR ''2'' c1 then parseTimeZoneIANAName
             else bindP (peekAt 9) (\<lambda>c2.
               if \<not> isASCIIDigit c2 then parseTimeZoneIANAName
               else if 24 \<le> twoDigits c1 c2 then parseTimeZoneIANAName
               else bindP (peekAt 10) (\<lambda>c.
                 if c \<noteq> unit_of CHR '']'' then parseTimeZoneIANAName
                 else bindP (consume 11) (\<lambda>str. ret (Name (butlast str)))))))))"

definition parseTimeZoneAnnotation :: "NameOrOffset parser" where
  "parseTimeZoneAnnotation =
     bindP lengthRemaining (\<lambda>n.
       if n < 3 then reject
       else bindP (peekAt 0) (\<lambda>c.
         if c \<noteq> unit_of CHR ''['' then reject
         else thenP advance (bindP (peekAt 0) (\<lambda>c1.
           thenP (if c1 = unit_of CHR ''!'' then advance else ret ()) (bindP (peekAt 0) (\<lambda>c2.
             if c2 = unit_of CHR ''+'' \<or> c2 = unit_of CHR ''-''
             then bindP (parseUTCOffset (defaultOption\<lparr>parseSubMinutePrecisionForTimeZone := DenyAll\<rparr>)) (\<lambda>offset.
                    bindP atEnd (\<lambda>e.
                      if e then reject
                      else bindP (peekAt 0) (\<lambda>c3.
                        if c3 \<noteq> unit_of CHR '']'' then reject else thenP advance (ret (Offset offset)))))
             else if c2 = unit_of CHR ''E'' then parseEtcGMT
             else parseTimeZoneIANAName))))))"

text \<open>\<open>!buffer.atEnd() && *buffer == '[' && canBeTimeZone(buffer, *buffer)\<close>\<close>

definition annotationFollows :: "bool parser" where
  "annotationFollows =
     bindP atEnd (\<lambda>e.
       if e then ret False
       else bindP (peekAt 0) (\<lambda>c. if c = unit_of CHR ''['' then canBeTimeZone c else ret False))"

definition parseTimeZone :: "DateTimeParseOption \<Rightarrow> TimeZoneRecord parser" where
  "parseTimeZone option =
     bindP atEnd (\<lambda>e.
       if e then reject
       else bindP (peekAt 0) (\<lambda>c.
         if c = unit_of CHR ''z'' \<or> c = unit_of CHR ''Z''
         then thenP advance (bindP annotationFollows (\<lambda>b.
                if b then bindP parseTimeZoneAnnotation (\<lambda>timeZone.
                       ret \<lparr>m_z = True, m_offset = None, m_offsetString = None, m_nameOrOffset = timeZone\<rparr>)
                else ret \<lparr>m_z = True, m_offset = None, m_offsetString = None, m_nameOrOffset = Empty\<rparr>))
         else if c = unit_of CHR ''+'' \<or> c = unit_of CHR ''-''
         then bindP position (\<lambda>start.
                bindP (parseUTCOffset option) (\<lambda>offset.
                  bindP position (\<lambda>stop.
                    bindP annotationFollows (\<lambda>b.
                      bindP (if b then parseTimeZoneAnnotation else ret Empty) (\<lambda>timeZone.
                        bindP (sourceSubstring start stop) (\<lambda>str.
                          ret \<lparr>m_z = False, m_offset = Some offset, m_offsetString = Some str, m_nameOrOffset = timeZone\<rparr>))))))
         else if c = unit_of CHR ''[''
         then bindP parseTimeZoneAnnotation (\<lambda>timeZone.
                ret \<lparr>m_z = False, m_offset = None, m_offsetString = None, m_nameOrOffset = timeZone\<rparr>)
         else reject))"

section \<open>Dates\<close>

text \<open>\<open>for (index = 0; index < n; ++index) if (!isASCIIDigit(buffer[index])) return NullOption\<close>\<close>

primrec requireDigits :: "nat \<Rightarrow> nat \<Rightarrow> unit parser" where
  "requireDigits 0 index = ret ()"
| "requireDigits (Suc n) index = bindP (peekAt index) (\<lambda>c. if \<not> isASCIIDigit c then reject else requireDigits n (Suc index))"

text \<open>The year, and whether the fields are separated by hyphens.\<close>

definition parseDateYear :: "(int \<times> bool) parser" where
  "parseDateYear =
     bindP (peekAt 0) (\<lambda>c.
       let sixDigitsYear = (c = unit_of CHR ''+'' \<or> c = unit_of CHR ''-'');
           yearFactor = (if c = unit_of CHR ''-'' then -1 else 1);
           n = (if sixDigitsYear then 6 else 4)
       in if \<not> sixDigitsYear \<and> \<not> isASCIIDigit c then reject
          else thenP (if sixDigitsYear then advance else ret ())
            (bindP lengthRemaining (\<lambda>remaining.
              if remaining < n then reject
              else thenP (requireDigits n 0)
                (bindP (firstN n) (\<lambda>digits.
                  let year = parseDecimalInt32 digits * yearFactor
                  in if year = 0 \<and> yearFactor < 0 then reject
                     else thenP (advanceBy n)
                       (bindP atEnd (\<lambda>e.
                         if e then reject
                         else bindP (peekAt 0) (\<lambda>c.
                           if c = unit_of CHR ''-'' then thenP advance (ret (year, True)) else ret (year, False)))))))))"

text \<open>The \<open>--10-01\<close> form.\<close>

definition skipHyphens :: "unit parser" where
  "skipHyphens =
     bindP (peekAt 0) (\<lambda>c.
       if c = unit_of CHR ''-''
       then bindP lengthRemaining (\<lambda>n.
              if n > 2 then bindP (peekAt 1) (\<lambda>d. if d = unit_of CHR ''-'' then advanceBy 2 else ret ())
              else ret ())
       else ret ())"

definition parseDateMonth :: "bool \<Rightarrow> bool \<Rightarrow> bool \<Rightarrow> nat parser" where
  "parseDateMonth parseYear parseDay splitByHyphen =
     bindP atEnd (\<lambda>e.
       if e then reject
       else thenP (if \<not> parseYear \<and> parseDay then skipHyphens else ret ())
         (bindP (peekAt 0) (\<lambda>c1.
           if c1 = unit_of CHR ''0'' \<or> c1 = unit_of CHR ''1''
           then thenP advance (bindP atEnd (\<lambda>e1.
                  if e1 then reject
                  else bindP (peekAt 0) (\<lambda>c2.
                    if \<not> isASCIIDigit c2 then reject
                    else let month = twoDigits c1 c2 in
                      if month = 0 \<or> month > 12 then reject
                      else thenP advance
                        (bindP (if parseYear then ret splitByHyphen
                                else bindP (peekAt 0) (\<lambda>c. ret (if c = unit_of CHR ''-'' then True else splitByHyphen)))
                          (\<lambda>splitByHyphen.
                            if parseDay \<and> splitByHyphen
                            then bindP atEnd (\<lambda>e2.
                                   if e2 then reject
                                   else bindP (peekAt 0) (\<lambda>c.
                                     if c = unit_of CHR ''-'' then thenP advance (ret month) else reject))
                            else ret month)))))
           else reject)))"

definition parseDateDay :: "int \<Rightarrow> nat \<Rightarrow> nat parser" where
  "parseDateDay year month =
     bindP atEnd (\<lambda>e.
       if e then reject
       else bindP (peekAt 0) (\<lambda>c1.
         if between CHR ''0'' CHR ''3'' c1
         then thenP advance (bindP atEnd (\<lambda>e1.
                if e1 then reject
                else bindP (peekAt 0) (\<lambda>c2.
                  if \<not> isASCIIDigit c2 then reject
                  else let day = twoDigits c1 c2 in
                    if day = 0 then reject
                    else if month = 0 then outOfBounds
                    else if day > daysInMonth year month then reject
                    else thenP advance (ret day))))
         else reject))"

definition parseDate :: "bool \<Rightarrow> bool \<Rightarrow> bool \<Rightarrow> PlainDate parser" where
  "parseDate parseYear parseMonth parseDay =
     bindP atEnd (\<lambda>e.
       if e then reject
       else bindP (if parseYear then parseDateYear else ret (0, False)) (\<lambda>(year, splitByHyphen).
         bindP (if parseMonth then parseDateMonth parseYear parseDay splitByHyphen else ret 0) (\<lambda>month.
           bindP (if parseDay then parseDateDay year month else ret 1) (\<lambda>day.
             ret (mkPlainDate year month day)))))"

section \<open>Strings of the Temporal objects\<close>

text \<open>\<open>parseTime\<close> on a cursor.\<close>

definition parseTimeAndZone :: "DateTimeParseOption \<Rightarrow> (PlainTime \<times> TimeZoneRecord option) parser" where
  "parseTimeAndZone option =
     bindP (parseTimeSpec Accept AllowAll) (\<lambda>plainTime.
       bindP atEnd (\<lambda>e.
         if e then ret (plainTime, None)
         else bindP (peekAt 0) (\<lambda>c.
           bindP (canBeTimeZone c) (\<lambda>b.
             if b then bindP (parseTimeZone option) (\<lambda>timeZone. ret (plainTime, Some timeZone))
             else ret (plainTime, None)))))"

text \<open>The time zone and the calendar that may follow.\<close>

definition optionalTimeZone :: "DateTimeParseOption \<Rightarrow> TimeZoneRecord option parser" where
  "optionalTimeZone option =
     bindP atEnd (\<lambda>e.
       if e then ret None
       else bindP (peekAt 0) (\<lambda>c.
         bindP (canBeTimeZone c) (\<lambda>b.
           if b then bindP (parseTimeZone option) (\<lambda>tz. ret (Some tz)) else ret None)))"

definition optionalCalendar :: "nat list option parser" where
  "optionalCalendar =
     bindP atEnd (\<lambda>e.
       if e then ret None
       else bindP canBeRFC9557Annotation (\<lambda>b.
         if b then bindP parseCalendar (\<lambda>calendars.
                ret (if length calendars > 0 then Some (calendars ! 0) else None))
         else ret None))"

definition isParsed :: "'a parser \<Rightarrow> bool parser" where
  "isParsed p = (\<lambda>s i. case p s 0 of None \<Rightarrow> None | Some (r, _) \<Rightarrow> Some (Some (r \<noteq> None), i))"

text \<open>\<open>parseTime\<close> on a string: what could also be a date is rejected when there is no \<open>T\<close>.\<close>

definition parseTime :: "(PlainTime \<times> TimeZoneRecord option \<times> nat list option) parser" where
  "parseTime =
     bindP atEnd (\<lambda>e.
       bindP (if e then ret False else bindP (peekAt 0) (\<lambda>c. ret (toUpper c = unit_of CHR ''T''))) (\<lambda>seenT.
         thenP (if seenT then advance else ret ())
         (bindP (attempt (parseTimeAndZone defaultOption)) (\<lambda>result.
           bindP (if seenT then ret False
                  else bindP (isParsed (parseDate True True True)) (\<lambda>b1.
                    if b1 then ret True
                    else bindP (isParsed (parseDate False True True)) (\<lambda>b2.
                      if b2 then ret True else isParsed (parseDate True True False)))) (\<lambda>ambiguous.
             if ambiguous then reject
             else bindP optionalCalendar (\<lambda>calendar.
               bindP atEnd (\<lambda>e.
                 if e then (case result of None \<Rightarrow> reject | Some (time, zone) \<Rightarrow> ret (time, zone, calendar))
                 else reject)))))))"

definition parseDateTime :: "DateTimeParseOption \<Rightarrow> (PlainDate \<times> PlainTime option \<times> TimeZoneRecord option) parser" where
  "parseDateTime option =
     bindP (parseDate True True True) (\<lambda>plainDate.
       bindP atEnd (\<lambda>e.
         if e then ret (plainDate, None, None)
         else bindP (peekAt 0) (\<lambda>c.
           if c = unit_of CHR '' '' \<or> c = unit_of CHR ''T'' \<or> c = unit_of CHR ''t''
           then thenP advance (bindP (parseTimeAndZone option) (\<lambda>(plainTime, timeZone).
                  ret (plainDate, Some plainTime, timeZone)))
           else bindP (canBeTimeZone c) (\<lambda>b.
             if b
             then if allowTimeZoneTimeWithoutTime option
                  then bindP (parseTimeZone option) (\<lambda>timeZone. ret (plainDate, None, Some timeZone))
                  else reject
             else ret (plainDate, None, None)))))"

definition parseDateTimeString :: "(PlainDate \<times> PlainTime option \<times> TimeZoneRecord option) parser" where
  "parseDateTimeString = wholeString (parseDateTime defaultOption)"

definition parseCalendarDateTime ::
  "DateTimeParseOption \<Rightarrow> (PlainDate \<times> PlainTime option \<times> TimeZoneRecord option \<times> nat list option) parser" where
  "parseCalendarDateTime option =
     bindP (parseDateTime option) (\<lambda>(plainDate, plainTime, timeZone).
       bindP optionalCalendar (\<lambda>calendar. ret (plainDate, plainTime, timeZone, calendar)))"

definition parseCalendarDateTimeString ::
  "DateTimeParseOption \<Rightarrow> (PlainDate \<times> PlainTime option \<times> TimeZoneRecord option \<times> nat list option) parser" where
  "parseCalendarDateTimeString option = wholeString (parseCalendarDateTime option)"

definition parseCalendarYearMonth :: "DateTimeParseOption \<Rightarrow> (PlainDate \<times> TimeZoneRecord option \<times> nat list option) parser" where
  "parseCalendarYearMonth option =
     bindP (parseDate True True False) (\<lambda>date.
       bindP (optionalTimeZone option) (\<lambda>tz.
         bindP optionalCalendar (\<lambda>calendar. ret (date, tz, calendar))))"

definition parseCalendarMonthDay :: "DateTimeParseOption \<Rightarrow> (PlainDate \<times> TimeZoneRecord option \<times> nat list option) parser" where
  "parseCalendarMonthDay option =
     bindP (parseDate False True True) (\<lambda>date.
       bindP (optionalTimeZone option) (\<lambda>tz.
         bindP optionalCalendar (\<lambda>calendar. ret (date, tz, calendar))))"

definition parseCalendarYearMonthString :: "DateTimeParseOption \<Rightarrow> (PlainDate \<times> TimeZoneRecord option \<times> nat list option) parser" where
  "parseCalendarYearMonthString option = wholeString (parseCalendarYearMonth option)"

definition parseCalendarMonthDayString :: "DateTimeParseOption \<Rightarrow> (PlainDate \<times> TimeZoneRecord option \<times> nat list option) parser" where
  "parseCalendarMonthDayString option = wholeString (parseCalendarMonthDay option)"

text \<open>The calendar is decoded from UTF-8 again; \<open>None\<close> of the decoder is the out-of-bounds read.\<close>

definition parseCalendarString :: "ustring parser" where
  "parseCalendarString =
     bindP optionalCalendar (\<lambda>calendar.
       case calendar of
         None \<Rightarrow> reject
       | Some bytes \<Rightarrow> (case utf8StringToUTF16StringNonGC bytes of None \<Rightarrow> outOfBounds | Some str \<Rightarrow> ret str))"

definition parseISODateTimeWithInstantFormat :: "int parser" where
  "parseISODateTimeWithInstantFormat =
     bindP (parseCalendarDateTime defaultOption) (\<lambda>(plainDate, plainTimeOptional, timeZoneOptional, calendarOptional).
       case timeZoneOptional of
         None \<Rightarrow> reject
       | Some tz \<Rightarrow>
           if \<not> m_z tz \<and> m_offset tz = None then reject
           else bindP atEnd (\<lambda>e.
             if \<not> e then reject
             else let plainTime = (case plainTimeOptional of None \<Rightarrow> midnight | Some t \<Rightarrow> t);
                      offset = (if m_z tz then 0 else the (m_offset tz))
                  in ret (fromISOPartsAndOffset plainDate plainTime offset)))"

end
