(* ===== verification/ISO8601Safety.thy ===== *)
theory ISO8601Safety
  imports ISO8601Parser
begin

text \<open>
  What the ISO 8601 parsers promise: no read outside of the buffer, a cursor that never leaves it, and fields and offsets in
  range. The specification of each parser is a weakest precondition, used by the parsers that call it.
\<close>

section \<open>Annotations stay in the buffer\<close>

abbreviation utf16 :: "ustring \<Rightarrow> bool" where
  "utf16 s \<equiv> \<forall>c \<in> set s. c < 2 ^ 16"

lemma wp_canBeAnnotationLoop:
  assumes "i + index + n = length s"
  shows "wp (canBeAnnotationLoop n index) (\<lambda>b j. j = i \<and> (b \<longrightarrow> (\<exists>k < n. s ! (i + index + k) = unit_of CHR ''=''))) s i"
  using assms
proof (induction n arbitrary: index)
  case (Suc n)
  have "wp (canBeAnnotationLoop n (Suc index)) (\<lambda>b j. j = i \<and> (b \<longrightarrow> (\<exists>k < Suc n. s ! (i + index + k) = unit_of CHR ''=''))) s i"
    by (rule wp_mono [OF Suc.IH]) (use Suc.prems in force)+
  with Suc.prems show ?case by (auto simp: wp_simps)
qed (simp add: wp_simps)

definition annotationAt :: "ustring \<Rightarrow> nat \<Rightarrow> bool" where
  "annotationAt s i \<longleftrightarrow> i + 5 \<le> length s \<and> s ! i = unit_of CHR ''['' \<and>
     (\<exists>k > (if s ! (i + 1) = unit_of CHR ''!'' then 2 else 1). i + k < length s \<and> s ! (i + k) = unit_of CHR ''='')"

lemma wp_canBeRFC9557Annotation:
  assumes "i \<le> length s"
  shows "wp canBeRFC9557Annotation (\<lambda>b j. j = i \<and> (b \<longrightarrow> annotationAt s i)) s i"
proof (cases "i + 5 \<le> length s \<and> s ! i = unit_of CHR ''[''")
  case True
  let ?x = "if s ! (i + 1) = unit_of CHR ''!'' then 2 else 1 :: nat"
  have "wp (canBeAnnotationLoop (length s - i - Suc ?x) (Suc ?x)) (\<lambda>b j. j = i \<and> (b \<longrightarrow> annotationAt s i)) s i"
  proof (rule wp_mono [OF wp_canBeAnnotationLoop])
    show "i + Suc ?x + (length s - i - Suc ?x) = length s" using True by auto
    fix b j
    assume "j = i \<and> (b \<longrightarrow> (\<exists>k < length s - i - Suc ?x. s ! (i + Suc ?x + k) = unit_of CHR ''=''))"
    moreover have "annotationAt s i" if "k < length s - i - Suc ?x" "s ! (i + Suc ?x + k) = unit_of CHR ''=''" for k
      unfolding annotationAt_def using True that by (intro conjI exI [of _ "Suc ?x + k"]) (auto simp: add.assoc)
    ultimately show "j = i \<and> (b \<longrightarrow> annotationAt s i)" by blast
  qed
  with True show ?thesis unfolding canBeRFC9557Annotation_def by (auto simp: wp_simps)
next
  case False
  with assms show ?thesis unfolding canBeRFC9557Annotation_def by (auto simp: wp_simps)
qed

lemma wp_keyLengthLoop:
  assumes "i + k < length s" "s ! (i + k) = unit_of CHR ''=''" "n \<le> k"
  shows "wp (keyLengthLoop n) (\<lambda>m j. j = i \<and> i + m < length s) s i"
  using assms
proof (induction n s i rule: keyLengthLoop.induct)
  case (1 n s i)
  then show ?case
    by (cases "n = k") (auto simp: wp_def keyLengthLoop.simps [of k s i] keyLengthLoop.simps [of n s i])
qed

lemma wp_nameLengthLoop:
  assumes "i + index + n \<le> length s"
  shows "wp (nameLengthLoop allowed n index) (\<lambda>m j. j = i \<and> i + m \<le> length s) s i"
  using assms by (induction n arbitrary: index) (auto simp: wp_simps)

lemma wp_nameComponentLoop:
  assumes "i + index + n \<le> length s" "start \<le> index"
    and valid: "\<And>a b. \<lbrakk>a < b; i + b \<le> length s\<rbrakk> \<Longrightarrow> wp (isValidComponent a b) (\<lambda>_ j. j = i) s i"
    and "\<not> isLeading \<Longrightarrow> start < index"
  shows "wp (nameComponentLoop leading inner separator isValidComponent n index start isLeading)
    (\<lambda>(a, l) j. j = i \<and> (\<not> l \<longrightarrow> a < index + n)) s i"
  using assms(1,2,4)
proof (induction n arbitrary: index start isLeading)
  case (Suc n)
  have IH: "wp (nameComponentLoop leading inner separator isValidComponent n (Suc index) start' l')
      (\<lambda>(a, l) j. j = i \<and> (\<not> l \<longrightarrow> a < index + Suc n)) s i" if "start' \<le> index" for start' l'
    using Suc.IH [of "Suc index" start' l'] Suc.prems that by auto
  show ?case
  proof (cases isLeading)
    case False
    have "wp (isValidComponent start index) (\<lambda>v j. wp (if \<not> v then reject
        else nameComponentLoop leading inner separator isValidComponent n (Suc index) start True)
        (\<lambda>(a, l) j. j = i \<and> (\<not> l \<longrightarrow> a < index + Suc n)) s j) s i"
      by (rule wp_mono [OF valid]) (use Suc.prems False IH in \<open>auto simp: wp_simps\<close>)
    then show ?thesis using Suc.prems False IH by (auto simp: wp_simps)
  qed (use Suc.prems IH in \<open>auto simp: wp_simps\<close>)
qed (auto simp: wp_simps)

lemma wp_isValidCalendarComponent: "wp (isValidCalendarComponent a b) (\<lambda>_ j. j = i) s i"
  by (simp add: isValidCalendarComponent_def wp_simps)

lemma wp_consume:
  assumes "utf16 s" "i \<le> length s"
  shows "wp (consume n) Q s i \<longleftrightarrow> Q (take n (drop i (toUTF8String False s))) (i + n)"
  using toUTF8String_length [OF assms(1), of False] assms(2) by (simp add: consume_def wp_simps wp_firstN)

lemma wp_parseAnnotationValue:
  assumes "utf16 s" "i + nameLength \<le> length s"
  shows "wp (parseAnnotationValue flag key nameLength) (\<lambda>_ j. i < j \<and> j \<le> length s) s i"
  unfolding parseAnnotationValue_def
  by (intro wp_intros wp_mono [OF wp_nameComponentLoop [OF _ _ wp_isValidCalendarComponent]] wp_mono [OF wp_isValidCalendarComponent]
      iffD2 [OF wp_consume]) (use assms in auto)

lemma wp_parseAnnotationKey:
  assumes "utf16 s" "i + k < length s" "s ! (i + k) = unit_of CHR ''=''"
  shows "wp (parseAnnotationKey flag) (\<lambda>_ j. i < j \<and> j \<le> length s) s i"
proof -
  have "length s \<le> length (toUTF8String False s)" using assms(1) by (rule toUTF8String_length)
  then show ?thesis
    unfolding parseAnnotationKey_def
    by (intro wp_intros wp_mono [OF wp_keyLengthLoop [OF assms(2,3)]] iffD2 [OF wp_firstN] conjI wp_mono [OF wp_nameLengthLoop]
        wp_mono [OF wp_parseAnnotationValue]) (use assms in auto)
qed

lemma wp_parseOneRFC9557Annotation:
  assumes "utf16 s" "i \<le> length s"
  shows "wp parseOneRFC9557Annotation (\<lambda>_ j. i < j \<and> j \<le> length s) s i"
proof -
  let ?x = "if s ! (i + 1) = unit_of CHR ''!'' then 2 else 1 :: nat"
  have key: "wp (parseAnnotationKey flag) (\<lambda>_ j. i < j \<and> j \<le> length s) s (i + ?x)" if ann: "annotationAt s i" for flag
  proof -
    obtain k where k: "?x < k" "i + k < length s" "s ! (i + k) = unit_of CHR ''=''"
      using ann by (auto simp: annotationAt_def)
    show ?thesis
      by (rule wp_mono [OF wp_parseAnnotationKey [OF assms(1), of "i + ?x" "k - ?x"]]) (use k in auto)
  qed
  show ?thesis
    unfolding parseOneRFC9557Annotation_def
    by (intro wp_intros wp_mono [OF wp_canBeRFC9557Annotation]) (use assms key in \<open>auto simp: annotationAt_def split: if_splits\<close>)
qed

lemma wp_parseCalendarLoop:
  assumes "utf16 s" "i \<le> length s"
  shows "wp (parseCalendarLoop result critical) (\<lambda>_ j. i \<le> j \<and> j \<le> length s) s i"
  using assms(2)
proof (induction "length s - i" arbitrary: result critical i rule: less_induct)
  case less
  note def = parseCalendarLoop.simps [of result critical s i]
  from wp_canBeRFC9557Annotation [OF less.prems] show ?case
  proof (cases rule: wpE)
    case (Return b j)
    from wp_parseOneRFC9557Annotation [OF assms(1) less.prems] show ?thesis
    proof (cases rule: wpE)
      case (Return a k)
      have "wp (parseCalendarLoop r c) (\<lambda>_ j. i \<le> j \<and> j \<le> length s) s k" for r c
        by (rule wp_mono [OF less.hyps]) (use Return less.prems in auto)
      with Return \<open>canBeRFC9557Annotation s i = _\<close> \<open>j = i \<and> _\<close> show ?thesis by (simp add: wp_def def Let_def)
    qed (use Return less.prems in \<open>simp add: wp_def def\<close>)
  qed (simp add: wp_def def)
qed

lemma wp_parseCalendar:
  assumes "utf16 s" "i \<le> length s"
  shows "wp parseCalendar (\<lambda>_ j. i \<le> j \<and> j \<le> length s) s i"
  unfolding parseCalendar_def wp_bindP
  by (rule wp_mono [OF wp_canBeRFC9557Annotation [OF assms(2)]])
    (use assms wp_parseCalendarLoop in \<open>auto simp: wp_simps\<close>)

section \<open>Times are in range\<close>

definition digitBytes :: "nat list \<Rightarrow> bool" where
  "digitBytes xs \<longleftrightarrow> (\<forall>x \<in> set xs. 48 \<le> x \<and> x \<le> 57)"

lemma parseDecimalInt32_bounds:
  assumes "digitBytes xs"
  shows "0 \<le> parseDecimalInt32 xs \<and> parseDecimalInt32 xs < 10 ^ length xs"
proof -
  have "0 \<le> foldl (\<lambda>r b. r * 10 + signedChar b - 48) a xs \<and> foldl (\<lambda>r b. r * 10 + signedChar b - 48) a xs < (a + 1) * 10 ^ length xs"
    if "0 \<le> a" for a
    using that assms
  proof (induction xs arbitrary: a)
    case (Cons x xs)
    let ?a = "a * 10 + signedChar x - 48"
    have a: "0 \<le> ?a" "?a + 1 \<le> (a + 1) * 10" using Cons.prems by (auto simp: digitBytes_def signedChar_def)
    let ?f = "foldl (\<lambda>r b. r * 10 + signedChar b - 48) ?a xs"
    have f: "0 \<le> ?f" "?f < (?a + 1) * 10 ^ length xs" using Cons.IH [OF a(1)] Cons.prems by (auto simp: digitBytes_def)
    have "(?a + 1) * 10 ^ length xs \<le> (a + 1) * 10 * 10 ^ length xs" using a(2) by (intro mult_right_mono) auto
    also have "\<dots> = (a + 1) * 10 ^ length (x # xs)" by simp
    finally have "?f < (a + 1) * 10 ^ length (x # xs)" using f(2) by (rule less_le_trans [rotated])
    with f(1) show ?case unfolding foldl_Cons by (intro conjI)
  qed simp
  from this [of 0] show ?thesis by (simp add: parseDecimalInt32_def)
qed

lemma twoDigits_mod:
  assumes "isASCIIDigit c2" "between CHR ''0'' CHR ''5'' c1"
  shows "twoDigits c1 c2 mod 256 < 60"
proof -
  obtain k d where c2: "c2 = d + 256 * k" "48 \<le> d" "d \<le> 57"
    using assms(1) by (metis isASCIIDigit_def mod_mult_div_eq)
  then have "twoDigits c1 c2 = (d - 48 + 10 * (c1 - 48)) + 256 * k" by (simp add: twoDigits_def)
  moreover have "d - 48 + 10 * (c1 - 48) < 60" using c2 assms(2) unfolding between_def by simp arith
  ultimately show ?thesis by simp
qed

lemma wp_fractionDigits:
  assumes "i + digits + n \<le> length s" "\<forall>k < digits. isASCIIDigit (s ! (i + k))"
  shows "wp (fractionDigits n digits)
    (\<lambda>m j. j = i \<and> m \<le> digits + n \<and> i + m \<le> length s \<and> (\<forall>k < m. isASCIIDigit (s ! (i + k)))) s i"
  using assms
proof (induction n arbitrary: digits)
  case (Suc n)
  have "wp (fractionDigits n (Suc digits))
      (\<lambda>m j. j = i \<and> m \<le> digits + Suc n \<and> i + m \<le> length s \<and> (\<forall>k < m. isASCIIDigit (s ! (i + k)))) s i"
    if "isASCIIDigit (s ! (i + digits))"
    by (rule wp_mono [OF Suc.IH]) (use Suc.prems that in \<open>auto simp: less_Suc_eq\<close>)
  with Suc.prems show ?case by (auto simp: wp_simps)
qed (simp add: wp_simps)

lemma in_set_updateD: "x \<in> set (xs[k := v]) \<Longrightarrow> x \<noteq> v \<Longrightarrow> x \<in> set xs"
  using set_update_subset_insert [of xs k v] by auto

lemma wp_copyDigits:
  assumes "i + k + n \<le> length s" "\<forall>m < k + n. isASCIIDigit (s ! (i + m))" "digitBytes padded" "k + n \<le> length padded"
  shows "wp (copyDigits n k padded) (\<lambda>p j. j = i \<and> length p = length padded \<and> digitBytes p) s i"
  using assms
proof (induction n arbitrary: k padded)
  case (Suc n)
  have "isASCIIDigit (s ! (i + k))" using Suc.prems(2) by simp
  then have "digitBytes (padded[k := s ! (i + k) mod 256])"
    using Suc.prems(3) unfolding digitBytes_def isASCIIDigit_def Let_def by (metis in_set_updateD)
  with Suc.prems Suc.IH [of "Suc k" "padded[k := s ! (i + k) mod 256]"] show ?case by (simp add: wp_simps)
qed (simp add: wp_simps)

lemma wp_parseTimeFraction:
  assumes "i \<le> length s" "time_ok (mkPlainTime hour minute second 0 0 0)"
  shows "wp (parseTimeFraction hour minute second) (\<lambda>t j. i \<le> j \<and> j \<le> length s \<and> time_ok t) s i"
proof -
  have ok: "time_ok (mkPlainTime hour minute second (nat (parseDecimalInt32 (take 3 p)))
      (nat (parseDecimalInt32 (take 3 (drop 3 p)))) (nat (parseDecimalInt32 (take 3 (drop 6 p)))))"
    if "length p = 9" "digitBytes p" for p
  proof -
    have d: "digitBytes (take 3 p)" "digitBytes (take 3 (drop 3 p))" "digitBytes (take 3 (drop 6 p))"
      using that(2) by (auto simp: digitBytes_def dest!: in_set_takeD in_set_dropD)
    show ?thesis
      using assms(2) that(1) parseDecimalInt32_bounds [OF d(1)] parseDecimalInt32_bounds [OF d(2)] parseDecimalInt32_bounds [OF d(3)]
      by (simp add: time_ok_def mkPlainTime_def nat_less_iff)
  qed
  have "digitBytes (us ''000000000'')" "length (us ''000000000'') = 9" by (simp_all add: us_def digitBytes_def)
  then show ?thesis
    unfolding parseTimeFraction_def
    by (intro wp_intros wp_mono [OF wp_fractionDigits] wp_mono [OF wp_copyDigits]) (use assms ok in auto)
qed

lemma time_ok_fields:
  "time_ok (mkPlainTime hour minute second 0 0 0) \<longleftrightarrow> hour mod 256 < 24 \<and> minute mod 256 < 60 \<and> second mod 256 < 60"
  by (simp add: time_ok_def mkPlainTime_def)

lemma wp_parseTimeSecond:
  assumes "i \<le> length s" "time_ok (mkPlainTime hour minute 0 0 0 0)"
  shows "wp (parseTimeSecond second60Mode precision hour minute) (\<lambda>t j. i \<le> j \<and> j \<le> length s \<and> time_ok t) s i"
  unfolding parseTimeSecond_def
  by (intro wp_intros wp_mono [OF wp_parseTimeFraction]) (use assms twoDigits_mod in \<open>auto simp: time_ok_fields\<close>)

lemma wp_parseTimeMinute:
  assumes "i \<le> length s" "hour < 24"
  shows "wp (parseTimeMinute second60Mode precision hour split) (\<lambda>t j. i \<le> j \<and> j \<le> length s \<and> time_ok t) s i"
  unfolding parseTimeMinute_def
  by (intro wp_intros wp_mono [OF wp_parseTimeSecond]) (use assms twoDigits_mod in \<open>auto simp: time_ok_fields\<close>)

lemma wp_parseTimeSpec:
  assumes "i \<le> length s"
  shows "wp (parseTimeSpec second60Mode precision) (\<lambda>t j. i < j \<and> j \<le> length s \<and> time_ok t) s i"
  unfolding parseTimeSpec_def
  by (intro wp_intros wp_mono [OF wp_parseTimeMinute]) (use assms in \<open>auto simp: time_ok_fields\<close>)

section \<open>Time zones\<close>

lemma timeInNanoseconds_bounds:
  assumes "time_ok t"
  shows "0 \<le> timeInNanoseconds t \<and> timeInNanoseconds t \<le> 86399999999999"
  using assms by (simp add: time_ok_def timeInNanoseconds_def nsPerHour_def nsPerMinute_def nsPerSecond_def nsPerMillisecond_def
      nsPerMicrosecond_def)

lemma wp_parseUTCOffset:
  assumes "i \<le> length s"
  shows "wp (parseUTCOffset option) (\<lambda>x j. i < j \<and> j \<le> length s \<and> \<bar>x\<bar> \<le> 86399999999999) s i"
  unfolding parseUTCOffset_def
  by (intro wp_intros wp_mono [OF wp_parseTimeSpec]) (use assms timeInNanoseconds_bounds in \<open>auto simp: abs_mult\<close>)

lemma wp_canBeTimeZone:
  assumes "i \<le> length s"
  shows "wp (canBeTimeZone c) (\<lambda>b j. j = i) s i"
  unfolding canBeTimeZone_def by (intro wp_intros wp_mono [OF wp_canBeRFC9557Annotation]) (use assms in auto)

lemma wp_annotationFollows:
  assumes "i \<le> length s"
  shows "wp annotationFollows (\<lambda>b j. j = i) s i"
  unfolding annotationFollows_def by (intro wp_intros wp_mono [OF wp_canBeTimeZone]) (use assms in auto)

lemma wp_isValidTimeZoneComponent:
  assumes "a < b" "i + b \<le> length s"
  shows "wp (isValidTimeZoneComponent a b) (\<lambda>_ j. j = i) s i"
  unfolding isValidTimeZoneComponent_def by (intro wp_intros) (use assms in auto)

lemma wp_parseTimeZoneComponents:
  assumes "utf16 s" "i + n \<le> length s"
  shows "wp (parseTimeZoneComponents n) (\<lambda>x j. i < j \<and> j \<le> length s) s i"
  unfolding parseTimeZoneComponents_def
  by (intro wp_intros wp_mono [OF wp_nameComponentLoop [OF _ _ wp_isValidTimeZoneComponent]] wp_mono [OF wp_isValidTimeZoneComponent]
      iffD2 [OF wp_consume]) (use assms in auto)

lemma wp_parseTimeZoneIANAName:
  assumes "utf16 s" "i \<le> length s"
  shows "wp parseTimeZoneIANAName (\<lambda>x j. i < j \<and> j \<le> length s) s i"
  unfolding parseTimeZoneIANAName_def
  by (intro wp_intros wp_mono [OF wp_nameLengthLoop] wp_mono [OF wp_parseTimeZoneComponents]) (use assms in auto)

lemma wp_matches:
  assumes "i + k + length xs \<le> length s"
  shows "wp (matches xs k) (\<lambda>_ j. j = i) s i"
  using assms by (induction xs arbitrary: k) (auto simp: wp_simps)

lemma wp_parseEtcGMT:
  assumes "utf16 s" "i \<le> length s"
  shows "wp parseEtcGMT (\<lambda>x j. i < j \<and> j \<le> length s) s i"
  unfolding parseEtcGMT_def
  by (intro wp_intros wp_mono [OF wp_matches] wp_mono [OF wp_parseTimeZoneIANAName] iffD2 [OF wp_consume])
    (use assms in \<open>auto simp: us_def\<close>)

lemma wp_parseTimeZoneAnnotation:
  assumes "utf16 s" "i \<le> length s"
  shows "wp parseTimeZoneAnnotation (\<lambda>x j. i < j \<and> j \<le> length s) s i"
  unfolding parseTimeZoneAnnotation_def
  by (intro wp_intros wp_mono [OF wp_parseUTCOffset] wp_mono [OF wp_parseEtcGMT] wp_mono [OF wp_parseTimeZoneIANAName])
    (use assms in \<open>auto split: if_splits\<close>)

definition zone_ok :: "TimeZoneRecord \<Rightarrow> bool" where
  "zone_ok tz \<longleftrightarrow> (\<forall>x. m_offset tz = Some x \<longrightarrow> \<bar>x\<bar> \<le> 86399999999999) \<and> (m_z tz \<longrightarrow> m_offset tz = None)"

lemmas zone_intros = wp_mono [OF wp_annotationFollows] wp_mono [OF wp_parseTimeZoneAnnotation] wp_mono [OF wp_parseUTCOffset]
  wp_mono [OF wp_canBeTimeZone] wp_mono [OF wp_parseTimeSpec] wp_mono [OF wp_canBeRFC9557Annotation] wp_mono [OF wp_parseCalendar]

lemma wp_parseTimeZone:
  assumes "utf16 s" "i \<le> length s"
  shows "wp (parseTimeZone option) (\<lambda>tz j. i < j \<and> j \<le> length s \<and> zone_ok tz) s i"
  unfolding parseTimeZone_def by (intro wp_intros zone_intros) (use assms in \<open>simp_all add: zone_ok_def\<close>)

lemma wp_parseTimeAndZone:
  assumes "utf16 s" "i \<le> length s"
  shows "wp (parseTimeAndZone option) (\<lambda>(t, tz) j. i < j \<and> j \<le> length s \<and> time_ok t \<and> (\<forall>z. tz = Some z \<longrightarrow> zone_ok z)) s i"
  unfolding parseTimeAndZone_def
  by (intro wp_intros zone_intros wp_mono [OF wp_parseTimeZone]) (use assms in auto)

lemma wp_optionalTimeZone:
  assumes "utf16 s" "i \<le> length s"
  shows "wp (optionalTimeZone option) (\<lambda>tz j. i \<le> j \<and> j \<le> length s \<and> (\<forall>z. tz = Some z \<longrightarrow> zone_ok z)) s i"
  unfolding optionalTimeZone_def
  by (intro wp_intros zone_intros wp_mono [OF wp_parseTimeZone]) (use assms in auto)

lemma wp_optionalCalendar:
  assumes "utf16 s" "i \<le> length s"
  shows "wp optionalCalendar (\<lambda>_ j. i \<le> j \<and> j \<le> length s) s i"
  unfolding optionalCalendar_def by (intro wp_intros zone_intros) (use assms in auto)

section \<open>Dates\<close>

text \<open>
  In a string whose code units are bytes, the digits of a field are ASCII digits, and the UTF-8 form that \<open>firstN\<close> reads has the
  same digits at the same position, as long as everything before is ASCII.
\<close>

abbreviation latin1 :: "ustring \<Rightarrow> bool" where
  "latin1 s \<equiv> \<forall>c \<in> set s. c < 256"

lemma toUTF8String_ascii:
  assumes "\<forall>m < k. s ! m < 128" "k \<le> length s"
  shows "take k (toUTF8String b s) = take k s"
  using assms
proof (induction k arbitrary: s)
  case (Suc k)
  then obtain c r where s: "s = c # r" by (cases s) auto
  then have "c < 128" "\<forall>m < k. r ! m < 128" using Suc.prems(1) by fastforce+
  then have "toUTF8String b s = c # toUTF8String b r" by (cases r) (simp_all add: s)
  with Suc.IH [of r] Suc.prems s \<open>\<forall>m < k. _\<close> show ?case by simp
qed simp

lemma wp_requireDigits:
  assumes "i + index + n \<le> length s" "\<forall>m < index. isASCIIDigit (s ! (i + m))"
  shows "wp (requireDigits n index) (\<lambda>_ j. j = i \<and> (\<forall>m < index + n. isASCIIDigit (s ! (i + m)))) s i"
  using assms
proof (induction n arbitrary: index)
  case (Suc n)
  have "wp (requireDigits n (Suc index)) (\<lambda>_ j. j = i \<and> (\<forall>m < index + Suc n. isASCIIDigit (s ! (i + m)))) s i"
    if "isASCIIDigit (s ! (i + index))"
    by (rule wp_mono [OF Suc.IH]) (use Suc.prems that in \<open>auto simp: less_Suc_eq\<close>)
  with Suc.prems show ?case by (simp add: wp_simps)
qed (simp add: wp_simps)

lemma first_digits:
  assumes "latin1 s" "\<forall>m < i. s ! m < 128" "\<forall>m < n. isASCIIDigit (s ! (i + m))" "i + n \<le> length s"
  shows "take n (drop i (toUTF8String False s)) = take n (drop i s)" "digitBytes (take n (drop i s))"
proof -
  have d: "48 \<le> s ! (i + m) \<and> s ! (i + m) \<le> 57" if "m < n" for m
  proof -
    have "s ! (i + m) < 256" using assms(1,4) that by simp
    moreover have "isASCIIDigit (s ! (i + m))" using assms(3) that by blast
    ultimately show ?thesis by (simp add: isASCIIDigit_def Let_def)
  qed
  have "s ! m < 128" if "m < i + n" for m
  proof (cases "m < i")
    case False
    then have "m - i < n" using that by simp
    with d [of "m - i"] False show ?thesis by simp
  qed (use assms in simp)
  then have "take (i + n) (toUTF8String False s) = take (i + n) s" using toUTF8String_ascii assms(4) by blast
  then show "take n (drop i (toUTF8String False s)) = take n (drop i s)" by (metis take_drop add.commute)
  show "digitBytes (take n (drop i s))" using d assms(4) by (auto simp: digitBytes_def in_set_conv_nth)
qed

lemma wp_parseDateYear:
  assumes "utf16 s" "i < length s"
  shows "wp parseDateYear (\<lambda>(y, _) j. i < j \<and> j \<le> length s \<and> (latin1 s \<and> (\<forall>m < i. s ! m < 128) \<longrightarrow> \<bar>y\<bar> \<le> 999999)) s i"
proof -
  have year: "\<bar>parseDecimalInt32 (take n (drop k (toUTF8String False s)))\<bar> \<le> 999999"
    if "latin1 s" "\<forall>m < i. s ! m < 128" "\<forall>m < n. isASCIIDigit (s ! (k + m))" "k + n \<le> length s" "n \<le> 6"
      "k = i \<or> k = Suc i \<and> s ! i < 128" for n k
  proof -
    have "\<forall>m < k. s ! m < 128" using that(2,6) by (auto simp: less_Suc_eq)
    from first_digits [OF that(1) this that(3,4)] parseDecimalInt32_bounds [of "take n (drop k s)"]
    have "0 \<le> parseDecimalInt32 (take n (drop k s))" "parseDecimalInt32 (take n (drop k s)) < 10 ^ length (take n (drop k s))"
      "take n (drop k (toUTF8String False s)) = take n (drop k s)" by auto
    moreover have "(10 :: int) ^ length (take n (drop k s)) \<le> 10 ^ 6" using that(5) by (intro power_increasing) auto
    ultimately show ?thesis by simp
  qed
  have pos: "k \<le> length (toUTF8String False s)" if "k \<le> length s" for k
    using toUTF8String_length [OF assms(1), of False] that by simp
  show ?thesis
    unfolding parseDateYear_def
    by (intro wp_intros wp_mono [OF wp_requireDigits] iffD2 [OF wp_firstN] conjI pos)
      (use assms year in \<open>simp_all add: abs_mult split: if_splits\<close>)
qed

lemma wp_parseDateMonth:
  assumes "i \<le> length s"
  shows "wp (parseDateMonth True parseDay hyphen) (\<lambda>m j. i < j \<and> j \<le> length s \<and> 1 \<le> m \<and> m \<le> 12) s i"
  unfolding parseDateMonth_def by (intro wp_intros) (use assms in auto)

lemma wp_parseDateDay:
  assumes "i \<le> length s" "1 \<le> month" "month \<le> 12"
  shows "wp (parseDateDay year month) (\<lambda>d j. i < j \<and> j \<le> length s \<and> valid_date year month d) s i"
  unfolding parseDateDay_def by (intro wp_intros) (use assms in \<open>auto simp: valid_date_def\<close>)

lemma daysInMonth_bounds:
  assumes "1 \<le> m" "m \<le> 12"
  shows "1 \<le> daysInMonth y m \<and> daysInMonth y m \<le> 31"
proof -
  have "m - 1 < 12" using assms by simp
  then have "m - 1 \<in> set [0..<12]" by simp
  moreover have "\<forall>k \<in> set [0..<12]. \<forall>l \<in> {0, 1}. 1 \<le> daysInMonths ! l ! k \<and> daysInMonths ! l ! k \<le> 31"
    by (simp add: daysInMonths_def upt_rec)
  ultimately show ?thesis by (simp add: daysInMonth_def)
qed

lemma mkPlainDate_fields:
  assumes "\<bar>y\<bar> \<le> 999999" "valid_date y m d"
  shows "mkPlainDate y m d = \<lparr>d_year = y, d_month = m, d_day = d\<rparr>"
proof -
  have "1 \<le> m" "m \<le> 12" "d \<le> 31" using assms(2) daysInMonth_bounds [of m y] by (auto simp: valid_date_def)
  then show ?thesis using assms(1) by (simp add: mkPlainDate_def signedField_def)
qed

lemma wp_parseDate:
  assumes "utf16 s" "i \<le> length s"
  shows "wp (parseDate True True parseDay)
    (\<lambda>d j. i < j \<and> j \<le> length s \<and> (latin1 s \<and> (\<forall>m < i. s ! m < 128) \<longrightarrow> date_ok d \<and> \<bar>d_year d\<bar> \<le> 999999)) s i"
proof -
  have fin: "date_ok (mkPlainDate y m d) \<and> \<bar>d_year (mkPlainDate y m d)\<bar> \<le> 999999" if "\<bar>y\<bar> \<le> 999999" "valid_date y m d" for y m d
    using that by (simp add: mkPlainDate_fields date_ok_def)
  have one: "valid_date y m 1" if "1 \<le> m" "m \<le> 12" for y m
    using that daysInMonth_bounds by (simp add: valid_date_def)
  show ?thesis
    unfolding parseDate_def
    by (intro wp_intros wp_mono [OF wp_parseDateYear] wp_mono [OF wp_parseDateMonth] wp_mono [OF wp_parseDateDay])
      (use assms fin one in auto)
qed

lemma wp_parseDateTime:
  assumes "utf16 s"
  shows "wp (parseDateTime option) (\<lambda>(d, t, z) j. j \<le> length s \<and> (latin1 s \<longrightarrow> date_ok d \<and> \<bar>d_year d\<bar> \<le> 999999) \<and>
    (\<forall>x. t = Some x \<longrightarrow> time_ok x) \<and> (\<forall>x. z = Some x \<longrightarrow> zone_ok x)) s 0"
  unfolding parseDateTime_def
  by (intro wp_intros zone_intros wp_mono [OF wp_parseDate] wp_mono [OF wp_parseTimeAndZone] wp_mono [OF wp_parseTimeZone])
    (use assms in auto)

lemma wp_parseCalendarDateTime:
  assumes "utf16 s"
  shows "wp (parseCalendarDateTime option) (\<lambda>(d, t, z, c) j. j \<le> length s \<and> (latin1 s \<longrightarrow> date_ok d \<and> \<bar>d_year d\<bar> \<le> 999999) \<and>
    (\<forall>x. t = Some x \<longrightarrow> time_ok x) \<and> (\<forall>x. z = Some x \<longrightarrow> zone_ok x)) s 0"
  unfolding parseCalendarDateTime_def
  by (intro wp_intros wp_mono [OF wp_parseDateTime] wp_mono [OF wp_optionalCalendar]) (use assms in auto)

lemma wp_parseCalendarYearMonth:
  assumes "utf16 s"
  shows "wp (parseCalendarYearMonth option) (\<lambda>(d, z, c) j. j \<le> length s \<and> (latin1 s \<longrightarrow> date_ok d) \<and> (\<forall>x. z = Some x \<longrightarrow> zone_ok x)) s 0"
  unfolding parseCalendarYearMonth_def
  by (intro wp_intros wp_mono [OF wp_parseDate] wp_mono [OF wp_optionalTimeZone] wp_mono [OF wp_optionalCalendar]) (use assms in auto)

lemma wp_wholeString:
  assumes "wp p Q s i" "\<And>x j. Q x j \<Longrightarrow> j \<le> length s"
  shows "wp (wholeString p) Q s i"
  unfolding wholeString_def wp_bindP
  by (rule wp_attemptI [OF assms(1)]) (use assms(2) in \<open>auto simp: wp_simps split: option.splits\<close>)

lemma wp_parseISODateTime:
  assumes "utf16 s"
  shows "wp parseISODateTimeWithInstantFormat (\<lambda>x j. j \<le> length s \<and> (latin1 s \<longrightarrow>
    (\<exists>d t off. x = fromISOPartsAndOffset d t off \<and> date_ok d \<and> time_ok t \<and> \<bar>off\<bar> \<le> 86399999999999))) s 0"
proof -
  have "\<exists>d' t' off'. fromISOPartsAndOffset d t off = fromISOPartsAndOffset d' t' off' \<and> date_ok d' \<and> time_ok t' \<and> \<bar>off'\<bar> \<le> 86399999999999"
    if "date_ok d" "time_ok t" "\<bar>off\<bar> \<le> 86399999999999" for d t off
    using that by blast
  moreover have "time_ok midnight" by (simp add: time_ok_def midnight_def mkPlainTime_def)
  ultimately show ?thesis
    unfolding parseISODateTimeWithInstantFormat_def
    by (intro wp_intros wp_mono [OF wp_parseCalendarDateTime [OF assms]])
      (auto simp: zone_ok_def split: option.splits)
qed

lemma wp_parseCalendarString:
  assumes "utf16 s"
  shows "wp parseCalendarString (\<lambda>_ j. j \<le> length s) s 0"
proof -
  have dec: "utf8StringToUTF16StringNonGC bytes = None \<longleftrightarrow> False" for bytes using decode_wf [of bytes] by auto
  show ?thesis
    unfolding parseCalendarString_def by (intro wp_intros wp_mono [OF wp_optionalCalendar]) (use assms in \<open>auto simp: dec\<close>)
qed

section \<open>Properties\<close>

text \<open>C35: memory safety of six of the ISO 8601 parsers: on every string, \<open>parseUTCOffset\<close>, \<open>parseDateTime\<close>, \<open>parseCalendarDateTime\<close>, \<open>parseCalendarYearMonth\<close>,
  \<open>parseCalendarString\<close> and \<open>parseISODateTimeWithInstantFormat\<close> read only inside of the buffer, so each gives a result or its \<open>NullOption\<close>. The two others,
  \<open>parseTime\<close> and \<open>parseCalendarMonthDay\<close>, read past the end, as is shown below.\<close>

theorem iso8601_parsers_safe:
  assumes "utf16 s"
  shows "runP (parseUTCOffsetString option) s \<noteq> None \<and> runP parseDateTimeString s \<noteq> None \<and>
    runP (parseCalendarDateTimeString option) s \<noteq> None \<and> runP (parseCalendarYearMonthString option) s \<noteq> None \<and>
    runP parseCalendarString s \<noteq> None \<and> runP parseISODateTimeWithInstantFormat s \<noteq> None"
proof -
  have safe: "runP p s \<noteq> None" if "wp p Q s 0" for p :: "'b parser" and Q
    using wp_runP [OF that] by auto
  have off: "wp (parseUTCOffset option) (\<lambda>_ j. j \<le> length s) s 0"
    by (rule wp_mono [OF wp_parseUTCOffset]) auto
  show ?thesis
    unfolding parseUTCOffsetString_def parseDateTimeString_def parseCalendarDateTimeString_def parseCalendarYearMonthString_def
    by (intro conjI safe [OF wp_wholeString [OF off]] safe [OF wp_wholeString [OF wp_parseDateTime [OF assms]]]
        safe [OF wp_wholeString [OF wp_parseCalendarDateTime [OF assms]]]
        safe [OF wp_wholeString [OF wp_parseCalendarYearMonth [OF assms]]] safe [OF wp_parseCalendarString [OF assms]]
        safe [OF wp_parseISODateTime [OF assms]]) auto
qed

theorem iso8601_parsers_safe_witness:
  "runP parseCalendarString (us ''[u-ca=iso8601]'') \<noteq> None \<and> runP (parseUTCOffsetString defaultOption) (us ''[u-ca=iso8601]'') \<noteq> None"
  using iso8601_parsers_safe [of "us ''[u-ca=iso8601]''" defaultOption] by (simp add: us_def)

text \<open>whatever the string is, a parsed UTC offset is at most \<open>23:59:59.999999999\<close> in absolute value, as the comment in the
  parser says; it fits into an \<open>int64_t\<close>.\<close>

theorem utc_offset_bounded:
  assumes "runP (parseUTCOffsetString option) s = Some (Some x)"
  shows "\<bar>x\<bar> \<le> 86399999999999"
proof -
  have "wp (wholeString (parseUTCOffset option)) (\<lambda>x j. 0 < j \<and> j \<le> length s \<and> \<bar>x\<bar> \<le> 86399999999999) s 0"
    by (rule wp_wholeString [OF wp_parseUTCOffset]) auto
  from wp_runP [OF this] assms show ?thesis by (auto simp: parseUTCOffsetString_def)
qed

theorem utc_offset_bounded_witness:
  "\<exists>x. runP (parseUTCOffsetString defaultOption) (us ''-23:59:59.5'') = Some (Some x) \<and> \<bar>x\<bar> \<le> 86399999999999"
proof -
  have "runP (parseUTCOffsetString defaultOption) (us ''-23:59:59.5'') = Some (Some (-86399500000000))" by code_simp
  with utc_offset_bounded show ?thesis by blast
qed

text \<open>C37: a string of single-byte characters that is accepted as a date with a time gives a date of the calendar with at most six
  digits of the year, a time of the day, and an offset in range.\<close>

theorem parsed_fields_in_range:
  assumes "latin1 s" "runP (parseCalendarDateTimeString option) s = Some (Some (d, t, z, c))"
  shows "date_ok d \<and> \<bar>d_year d\<bar> \<le> 999999 \<and> (\<forall>x. t = Some x \<longrightarrow> time_ok x) \<and>
    (\<forall>tz x. z = Some tz \<and> m_offset tz = Some x \<longrightarrow> \<bar>x\<bar> \<le> 86399999999999)"
proof -
  have u: "utf16 s" using assms(1) by fastforce
  have "wp (parseCalendarDateTimeString option) (\<lambda>(d, t, z, c) j. j \<le> length s \<and> (latin1 s \<longrightarrow> date_ok d \<and> \<bar>d_year d\<bar> \<le> 999999) \<and>
      (\<forall>x. t = Some x \<longrightarrow> time_ok x) \<and> (\<forall>x. z = Some x \<longrightarrow> zone_ok x)) s 0"
    unfolding parseCalendarDateTimeString_def by (rule wp_wholeString [OF wp_parseCalendarDateTime [OF u]]) auto
  from wp_runP [OF this] assms show ?thesis by (auto simp: zone_ok_def)
qed

theorem parsed_fields_in_range_witness:
  "\<exists>d t z c. runP (parseCalendarDateTimeString defaultOption) (us ''2024-02-29T12:30+09:00'') = Some (Some (d, Some t, Some z, c)) \<and>
     date_ok d \<and> time_ok t"
proof -
  have "runP (parseCalendarDateTimeString defaultOption) (us ''2024-02-29T12:30+09:00'') = Some (Some (mkPlainDate 2024 2 29,
      Some (mkPlainTime 12 30 0 0 0 0),
      Some \<lparr>m_z = False, m_offset = Some 32400000000000, m_offsetString = Some (us ''+09:00''), m_nameOrOffset = Empty\<rparr>, None))"
    by code_simp
  moreover have "latin1 (us ''2024-02-29T12:30+09:00'')" by (simp add: us_def)
  ultimately show ?thesis using parsed_fields_in_range by blast
qed

text \<open>C38: the month-day form of a date reads the code unit after the month without a test for the end, so on a string that is just
  a month, both \<open>parseCalendarMonthDay\<close> and \<open>parseTime\<close> (which tries the month-day form on every string without a leading
  \<open>T\<close>) read one code unit past the end of the buffer.\<close>

theorem month_only_reads_past_end:
  assumes "1 \<le> m" "m \<le> 12"
  defines "s \<equiv> [48 + m div 10, 48 + m mod 10]"
  shows "runP (parseCalendarMonthDayString option) s = None \<and> runP parseTime s = None"
proof -
  have "m div 10 \<le> 1" using assms(2) by auto
  then have d: "m div 10 = 0 \<or> m div 10 = 1" by linarith
  have r: "m mod 10 \<le> 9" by simp
  have e: "m mod 10 + 10 * (m div 10) = m" by simp
  have dig: "isASCIIDigit (48 + m mod 10)" using r by (simp add: isASCIIDigit_def)
  have md: "parseDate False True True s 0 = None"
    using d r e dig assms(1,2)
    by (auto simp: parseDate_def parseDateMonth_def skipHyphens_def bindP_def thenP_def atEnd_def peekAt_def ret_def advance_def
        advanceBy_def twoDigits_def s_def Let_def)
  have "parseDate True True True s 0 = Some (None, 0)"
    using d dig r by (auto simp: parseDate_def parseDateYear_def bindP_def thenP_def atEnd_def peekAt_def ret_def reject_def
        lengthRemaining_def s_def Let_def isASCIIDigit_def)
  moreover obtain x j where "parseTimeAndZone defaultOption s 0 = Some (x, j)"
    using wp_parseTimeAndZone [of s 0 defaultOption] d r by (force simp: s_def wp_def split: option.splits)
  ultimately have "runP parseTime s = None"
    using md d by (auto simp: runP_def parseTime_def bindP_def thenP_def atEnd_def peekAt_def ret_def attempt_def isParsed_def
        toUpper_def s_def)
  moreover have "runP (parseCalendarMonthDayString option) s = None"
    using md by (simp add: runP_def parseCalendarMonthDayString_def wholeString_def parseCalendarMonthDay_def bindP_def attempt_def)
  ultimately show ?thesis by simp
qed

theorem month_only_reads_past_end_witness: "runP parseTime (us ''10'') = None"
  using month_only_reads_past_end [of 10] by (simp add: us_def)

text \<open>
  A code unit is cut to a byte before it is tested to be a digit, so \<open>U+0133\<close> passes for \<open>3\<close>: the minute field of eight
  bits cuts it again, and the time \<open>12:03\<close> is accepted in that spelling.
\<close>

lemma truncated_digit_accepted:
  "runP parseTime (us ''T12:0'' @ [0x133]) = runP parseTime (us ''T12:03'') \<and>
   runP parseTime (us ''T12:03'') = Some (Some (mkPlainTime 12 3 0 0 0 0, None, None))"
  by (rule conjI; code_simp)

end
