(* ===== verification/ISO8601Print.thy ===== *)
theory ISO8601Print
  imports ISO8601Safety
begin

text \<open>
  How the Temporal objects print dates and times, \<open>src/runtime/TemporalPlainDateObject.cpp\<close>,
  \<open>TemporalPlainTimeObject.cpp\<close>, \<open>TemporalObject.cpp\<close>, and that the parser reads them back.
\<close>

section \<open>Decimal numbers\<close>

text \<open>\<open>std::to_string\<close> of a number that is not negative.\<close>

fun to_string :: "nat \<Rightarrow> nat list" where
  "to_string n = (if n < 10 then [48 + n] else to_string (n div 10) @ [48 + n mod 10])"

declare to_string.simps [simp del]

definition pad :: "nat \<Rightarrow> nat \<Rightarrow> nat list \<Rightarrow> nat list" where
  "pad ch minLength str = (if minLength > length str then replicate (minLength - length str) ch @ str else str)"

abbreviation pad0 :: "nat \<Rightarrow> nat \<Rightarrow> nat list" where
  "pad0 n x \<equiv> pad (unit_of CHR ''0'') n (to_string x)"

section \<open>Dates\<close>

datatype ShowCalendar = ShowAuto | ShowAlways | ShowNever | ShowCritical

definition formatCalendarAnnotation :: "nat list \<Rightarrow> ShowCalendar \<Rightarrow> nat list" where
  "formatCalendarAnnotation calendar showCalendar =
     (if showCalendar = ShowNever then []
      else if showCalendar = ShowAuto \<and> calendar = us ''iso8601'' then []
      else us ''['' @ (if showCalendar = ShowCritical then us ''!'' else []) @ us ''u-ca='' @ calendar @ us '']'')"

definition temporalDateToString :: "PlainDate \<Rightarrow> nat list \<Rightarrow> ShowCalendar \<Rightarrow> nat list" where
  "temporalDateToString plainDate calendar showCalendar =
     (let year = d_year plainDate
      in (if year > 9999 \<or> year < 0 then (if year < 0 then us ''-'' else us ''+'') @ pad0 6 (nat \<bar>year\<bar>) else pad0 4 (nat \<bar>year\<bar>)) @
         us ''-'' @ pad0 2 (d_month plainDate) @ us ''-'' @ pad0 2 (d_day plainDate) @
         formatCalendarAnnotation calendar showCalendar)"

section \<open>Times\<close>

datatype Precision = PrecisionMinute | PrecisionAuto | PrecisionDigits nat

text \<open>The loop that drops the zeros at the end.\<close>

fun dropTrailingZeros :: "nat list \<Rightarrow> nat list" where
  "dropTrailingZeros xs = (if xs = [] then [] else if last xs \<noteq> unit_of CHR ''0'' then xs else dropTrailingZeros (butlast xs))"

declare dropTrailingZeros.simps [simp del]

definition hourMinute :: "PlainTime \<Rightarrow> nat list" where
  "hourMinute t = pad0 2 (t_hour t) @ us '':'' @ pad0 2 (t_minute t)"

definition hourMinuteSecond :: "PlainTime \<Rightarrow> nat list" where
  "hourMinuteSecond t = hourMinute t @ us '':'' @ pad0 2 (t_second t)"

text \<open>The number of digits is a natural of at most 9: the negative values of the code have names of their own, and for more digits the code pads with NUL characters.\<close>

definition temporalTimeToString :: "PlainTime \<Rightarrow> Precision \<Rightarrow> nat list" where
  "temporalTimeToString plainTime precision =
     (let fractionNanoseconds = t_millisecond plainTime * 1000000 + t_microsecond plainTime * 1000 + t_nanosecond plainTime;
          fraction = to_string fractionNanoseconds
      in case precision of
           PrecisionMinute \<Rightarrow> hourMinute plainTime
         | PrecisionAuto \<Rightarrow>
             if fractionNanoseconds = 0 then hourMinuteSecond plainTime
             else hourMinuteSecond plainTime @ us ''.'' @ pad (unit_of CHR ''0'') (9 - length fraction) [] @ dropTrailingZeros fraction
         | PrecisionDigits p \<Rightarrow>
             if p = 0 then hourMinuteSecond plainTime
             else let paddingLength = min (9 - length fraction) p
                  in hourMinuteSecond plainTime @ us ''.'' @ pad (unit_of CHR ''0'') paddingLength [] @
                     take (p - paddingLength) fraction)"

section \<open>Digits of a fixed width\<close>

primrec fixedDigits :: "nat \<Rightarrow> nat \<Rightarrow> nat list" where
  "fixedDigits 0 n = []"
| "fixedDigits (Suc w) n = fixedDigits w (n div 10) @ [48 + n mod 10]"

lemma length_fixedDigits [simp]: "length (fixedDigits w n) = w"
  by (induction w arbitrary: n) auto

lemma fixedDigits_0: "fixedDigits w 0 = replicate w 48"
  by (induction w) (auto simp: replicate_append_same)

lemma digitBytes_fixedDigits: "digitBytes (fixedDigits w n)"
  by (induction w arbitrary: n) (auto simp: digitBytes_def)

lemma parseDecimalInt32_snoc: "parseDecimalInt32 (xs @ [b]) = parseDecimalInt32 xs * 10 + signedChar b - 48"
  by (simp add: parseDecimalInt32_def)

lemma parse_fixedDigits: "parseDecimalInt32 (fixedDigits w n) = int (n mod 10 ^ w)"
proof (induction w arbitrary: n)
  case (Suc w)
  have "n mod 10 ^ Suc w = 10 * (n div 10 mod 10 ^ w) + n mod 10" by (simp add: mod_mult2_eq)
  then show ?case by (simp add: Suc parseDecimalInt32_snoc signedChar_def)
qed (simp add: parseDecimalInt32_def)

lemma to_string_fixedDigits:
  assumes "n < 10 ^ w" "0 < w"
  shows "length (to_string n) \<le> w" "replicate (w - length (to_string n)) 48 @ to_string n = fixedDigits w n"
proof -
  have "length (to_string n) \<le> w \<and> replicate (w - length (to_string n)) 48 @ to_string n = fixedDigits w n"
    using assms
  proof (induction w arbitrary: n)
    case (Suc w)
    show ?case
    proof (cases "n < 10")
      case True
      then show ?thesis by (simp add: to_string.simps [of n] fixedDigits_0)
    next
      case False
      then have "0 < w" "n div 10 < 10 ^ w" using Suc.prems by (auto intro: Nat.gr0I simp: less_mult_imp_div_less)
      then show ?thesis using Suc.IH [of "n div 10"] False by (simp add: to_string.simps [of n])
    qed
  qed simp
  then show "length (to_string n) \<le> w" "replicate (w - length (to_string n)) 48 @ to_string n = fixedDigits w n" by auto
qed

lemma pad0_fixedDigits:
  assumes "n < 10 ^ w" "0 < w"
  shows "pad 48 w (to_string n) = fixedDigits w n"
  using to_string_fixedDigits [OF assms] by (auto simp: pad_def split: if_splits)

section \<open>What the parsers give on printed fields\<close>

lemmas run_simps = bindP_def thenP_def ret_def reject_def atEnd_def peekAt_def advance_def advanceBy_def lengthRemaining_def Let_def

definition twoChars :: "nat \<Rightarrow> nat list" where
  "twoChars n = [48 + n div 10, 48 + n mod 10]"

lemma pad0_2: "n < 100 \<Longrightarrow> pad 48 2 (to_string n) = twoChars n"
  using pad0_fixedDigits [of n 2] by (simp add: twoChars_def numeral_2_eq_2 less_mult_imp_div_less)

lemma isASCIIDigit_48 [simp]: "isASCIIDigit (48 + n mod 10)" "n < 100 \<Longrightarrow> isASCIIDigit (48 + n div 10)"
proof -
  have "n mod 10 < 10" by simp
  then show "isASCIIDigit (48 + n mod 10)" by (simp add: isASCIIDigit_def)
  assume "n < 100"
  then have "n div 10 < 10" by auto
  then show "isASCIIDigit (48 + n div 10)" by (simp add: isASCIIDigit_def)
qed

lemma twoDigits_48 [simp]: "twoDigits (48 + n div 10) (48 + n mod 10) = n"
  by (simp add: twoDigits_def)

lemma between_48:
  "n < 30 \<Longrightarrow> between CHR ''0'' CHR ''2'' (48 + n div 10)" "n < 60 \<Longrightarrow> between CHR ''0'' CHR ''5'' (48 + n div 10)"
  "n < 40 \<Longrightarrow> between CHR ''0'' CHR ''3'' (48 + n div 10)"
proof -
  assume "n < 30" then have "n div 10 \<le> 2" by auto
  then show "between CHR ''0'' CHR ''2'' (48 + n div 10)" by (simp add: between_def)
next
  assume "n < 60" then have "n div 10 \<le> 5" by auto
  then show "between CHR ''0'' CHR ''5'' (48 + n div 10)" by (simp add: between_def)
next
  assume "n < 40" then have "n div 10 \<le> 3" by auto
  then show "between CHR ''0'' CHR ''3'' (48 + n div 10)" by (simp add: between_def)
qed

definition hmsChars :: "nat \<Rightarrow> nat \<Rightarrow> nat \<Rightarrow> nat list" where
  "hmsChars h m x = twoChars h @ 58 # twoChars m @ 58 # twoChars x"

lemma parseTimeSpec_hms:
  assumes "h < 24" "m < 60" "x < 60"
  shows "parseTimeSpec mode AllowAll (pre @ hmsChars h m x @ rest) (length pre) =
    parseTimeFraction h m x (pre @ hmsChars h m x @ rest) (length pre + 8)"
proof -
  have pos: "length pre + 8 = Suc (Suc (Suc (Suc (Suc (Suc (Suc (Suc (length pre))))))))" by simp
  show ?thesis
    unfolding pos using assms between_48
    by (simp add: parseTimeSpec_def parseTimeMinute_def parseTimeSecond_def run_simps hmsChars_def twoChars_def nth_append)
qed

lemma parseTimeFraction_none:
  assumes "post = [] \<or> hd post \<noteq> 46 \<and> hd post \<noteq> 44"
  shows "parseTimeFraction h m x (pre @ post) (length pre) = Some (Some (mkPlainTime h m x 0 0 0), length pre)"
  using assms by (cases post) (auto simp: parseTimeFraction_def run_simps nth_append)

lemma fractionDigits_exact:
  assumes "digitBytes xs" "k \<le> length xs" "length xs \<le> k + n"
    "k + n = length xs \<or> post \<noteq> [] \<and> \<not> isASCIIDigit (hd post)"
  shows "fractionDigits n k (pre @ xs @ post) (length pre) = Some (Some (length xs), length pre)"
  using assms
proof (induction n arbitrary: k)
  case (Suc n)
  show ?case
  proof (cases "k < length xs")
    case True
    then have "48 \<le> xs ! k \<and> xs ! k \<le> 57" using Suc.prems(1) by (simp add: digitBytes_def)
    then have "isASCIIDigit (xs ! k)" by (simp add: isASCIIDigit_def Let_def)
    with True Suc.IH [of "Suc k"] Suc.prems show ?thesis by (simp add: run_simps nth_append)
  next
    case False
    then have "k = length xs" "post \<noteq> []" "\<not> isASCIIDigit (post ! 0)" using Suc.prems by (auto simp: hd_conv_nth)
    then show ?thesis by (simp add: run_simps nth_append)
  qed
qed (simp add: run_simps)

lemma copyDigits_exact:
  assumes "digitBytes xs" "k + n = length xs" "length xs \<le> length padded" "take k padded = take k xs"
  shows "copyDigits n k padded (pre @ xs @ post) (length pre) = Some (Some (xs @ drop (length xs) padded), length pre)"
  using assms
proof (induction n arbitrary: k padded)
  case 0
  then show ?case by (simp add: run_simps) (metis append_take_drop_id take_all order_refl)
next
  case (Suc n)
  then have k: "k < length xs" by simp
  then have "xs ! k \<in> set xs" by simp
  then have x: "xs ! k mod 256 = xs ! k" using Suc.prems(1) by (fastforce simp: digitBytes_def)
  have "take (Suc k) (padded[k := xs ! k]) = take (Suc k) xs"
    using Suc.prems k by (simp add: take_Suc_conv_app_nth take_update_swap list_update_append min_def)
  with Suc.IH [of "Suc k" "padded[k := xs ! k]"] Suc.prems k x show ?case by (simp add: run_simps nth_append)
qed

lemma fraction_fields:
  assumes "ms < 1000" "mic < 1000" "ns < 1000" "f = ms * 1000000 + mic * 1000 + ns"
  shows "parseDecimalInt32 (take 3 (fixedDigits 9 f)) = int ms" "parseDecimalInt32 (take 3 (drop 3 (fixedDigits 9 f))) = int mic"
    "parseDecimalInt32 (take 3 (drop 6 (fixedDigits 9 f))) = int ns"
proof -
  have app: "fixedDigits (a + b) n = fixedDigits a (n div 10 ^ b) @ fixedDigits b n" for a b n
    by (induction b arbitrary: n) (simp_all add: div_mult2_eq)
  have "fixedDigits 9 f = fixedDigits 3 (f div 1000000) @ fixedDigits 3 (f div 1000) @ fixedDigits 3 f"
    using app [of 6 3 f] app [of 3 3 "f div 1000"] by (simp flip: div_mult2_eq)
  moreover have "f = ns + 1000 * (mic + 1000 * ms)" using assms(4) by simp
  then have "f div 1000 = mic + 1000 * ms" "f mod 1000 = ns"
    using assms(3) by (simp_all only: div_mult_self2 mod_mult_self2) auto
  moreover from this have "f div 1000000 = ms" "f div 1000 mod 1000 = mic"
    using assms(2) div_mult2_eq [of f 1000 1000] by simp_all
  ultimately show "parseDecimalInt32 (take 3 (fixedDigits 9 f)) = int ms" "parseDecimalInt32 (take 3 (drop 3 (fixedDigits 9 f))) = int mic"
    "parseDecimalInt32 (take 3 (drop 6 (fixedDigits 9 f))) = int ns"
    using assms(1-3) by (simp_all add: parse_fixedDigits)
qed

lemma parseTimeFraction_digits:
  assumes "digitBytes xs" "0 < length xs" "length xs \<le> 9" "post = [] \<or> \<not> isASCIIDigit (hd post)"
    "xs @ replicate (9 - length xs) 48 = fixedDigits 9 (ms * 1000000 + mic * 1000 + ns)" "ms < 1000" "mic < 1000" "ns < 1000"
  shows "parseTimeFraction h m x (pre @ 46 # xs @ post) (length pre) =
    Some (Some (mkPlainTime h m x ms mic ns), length pre + 1 + length xs)"
proof -
  let ?n = "min (length xs + length post) 9"
  have "fractionDigits ?n 0 ((pre @ [46]) @ xs @ post) (length (pre @ [46])) = Some (Some (length xs), length (pre @ [46]))"
    by (rule fractionDigits_exact) (use assms in auto)
  moreover have "copyDigits (length xs) 0 (us ''000000000'') ((pre @ [46]) @ xs @ post) (length (pre @ [46])) =
      Some (Some (xs @ drop (length xs) (us ''000000000'')), length (pre @ [46]))"
    by (rule copyDigits_exact) (use assms in \<open>auto simp: us_def\<close>)
  moreover have "us ''000000000'' = replicate 9 48" by (simp add: us_def eval_nat_numeral)
  ultimately show ?thesis
    using assms fraction_fields [OF assms(6-8) refl] by (simp add: parseTimeFraction_def run_simps nth_append)
qed

lemma dropTrailingZeros_spec:
  "\<exists>k. xs = dropTrailingZeros xs @ replicate k 48"
proof (induction xs rule: dropTrailingZeros.induct)
  case (1 xs)
  show ?case
  proof (cases "xs = [] \<or> last xs \<noteq> 48")
    case False
    with 1 obtain k where "butlast xs = dropTrailingZeros (butlast xs) @ replicate k 48" by auto
    moreover have "dropTrailingZeros xs = dropTrailingZeros (butlast xs)"
      using False by (subst dropTrailingZeros.simps) simp
    moreover have "xs = butlast xs @ [48]" using False by (metis append_butlast_last_id)
    ultimately have "xs = dropTrailingZeros xs @ replicate (Suc k) 48"
      by (metis append.assoc replicate_append_same replicate_Suc)
    then show ?thesis by blast
  qed (auto simp: dropTrailingZeros.simps [of xs])
qed

text \<open>The digits that are printed after the point.\<close>

lemma fraction_printed:
  assumes "f < 10 ^ 9" "0 < f"
  defines "xs \<equiv> pad (unit_of CHR ''0'') (9 - length (to_string f)) [] @ dropTrailingZeros (to_string f)"
  shows "digitBytes xs" "0 < length xs" "length xs \<le> 9" "xs @ replicate (9 - length xs) 48 = fixedDigits 9 f"
proof -
  obtain k where k: "to_string f = dropTrailingZeros (to_string f) @ replicate k 48" using dropTrailingZeros_spec by blast
  have xs: "xs @ replicate k 48 = fixedDigits 9 f"
    using to_string_fixedDigits [of f 9] assms(1) k unfolding xs_def pad_def by (auto simp flip: k)
  then have len: "length xs + k = 9" by (metis length_append length_fixedDigits length_replicate)
  then have kk: "k = 9 - length xs" by simp
  show "xs @ replicate (9 - length xs) 48 = fixedDigits 9 f" "length xs \<le> 9" using xs kk len by simp_all
  show "digitBytes xs" using digitBytes_fixedDigits [of 9 f] unfolding xs [symmetric] by (auto simp: digitBytes_def)
  show "0 < length xs"
  proof (rule ccontr)
    assume "\<not> 0 < length xs"
    then have "fixedDigits 9 f = fixedDigits 9 0" using xs len by (simp add: fixedDigits_0)
    then have "parseDecimalInt32 (fixedDigits 9 f) = parseDecimalInt32 (fixedDigits 9 0)" by simp
    with assms(1,2) show False by (simp add: parse_fixedDigits)
  qed
qed

lemma hms_printed: "time_ok t \<Longrightarrow> hourMinuteSecond t = hmsChars (t_hour t) (t_minute t) (t_second t)"
  by (simp add: hourMinuteSecond_def hourMinute_def hmsChars_def pad0_2 time_ok_def us_def)

lemma mkPlainTime_fields:
  "time_ok t \<Longrightarrow> mkPlainTime (t_hour t) (t_minute t) (t_second t) (t_millisecond t) (t_microsecond t) (t_nanosecond t) = t"
  by (simp add: time_ok_def mkPlainTime_def)

lemma parse_time_printed:
  assumes "time_ok t" "post = [] \<or> \<not> isASCIIDigit (hd post) \<and> hd post \<noteq> 46 \<and> hd post \<noteq> 44"
  shows "parseTimeSpec Accept AllowAll (pre @ temporalTimeToString t PrecisionAuto @ post) (length pre) =
    Some (Some t, length pre + length (temporalTimeToString t PrecisionAuto))"
proof -
  let ?h = "hmsChars (t_hour t) (t_minute t) (t_second t)"
  let ?f = "t_millisecond t * 1000000 + t_microsecond t * 1000 + t_nanosecond t"
  have t: "t_hour t < 24" "t_minute t < 60" "t_second t < 60" "t_millisecond t < 1000" "t_microsecond t < 1000" "t_nanosecond t < 1000"
    using assms(1) by (auto simp: time_ok_def)
  have len: "length ?h = 8" by (simp add: hmsChars_def twoChars_def)
  show ?thesis
  proof (cases "?f = 0")
    case True
    then have "temporalTimeToString t PrecisionAuto = ?h" using assms(1) by (simp add: temporalTimeToString_def hms_printed)
    moreover have "mkPlainTime (t_hour t) (t_minute t) (t_second t) 0 0 0 = t"
      using True mkPlainTime_fields [OF assms(1)] by simp
    moreover have "post = [] \<or> hd post \<noteq> 46 \<and> hd post \<noteq> 44" using assms(2) by blast
    ultimately show ?thesis
      using parseTimeSpec_hms [OF t(1-3)] parseTimeFraction_none [of post _ _ _ "pre @ ?h"] len by simp
  next
    case False
    define xs where "xs = pad (unit_of CHR ''0'') (9 - length (to_string ?f)) [] @ dropTrailingZeros (to_string ?f)"
    have "temporalTimeToString t PrecisionAuto = ?h @ 46 # xs"
      using False assms(1) by (simp add: temporalTimeToString_def hms_printed xs_def us_def Let_def)
    moreover have "?f < 10 ^ 9" using t by simp
    then have x: "digitBytes xs" "0 < length xs" "length xs \<le> 9" "xs @ replicate (9 - length xs) 48 = fixedDigits 9 ?f"
      using fraction_printed [of ?f] False unfolding xs_def by auto
    moreover have "post = [] \<or> \<not> isASCIIDigit (hd post)" using assms(2) by blast
    ultimately show ?thesis
      using parseTimeSpec_hms [OF t(1-3)] parseTimeFraction_digits [OF x(1-3) _ x(4) t(4-6), of post _ _ _ "pre @ ?h"] len
        mkPlainTime_fields [OF assms(1)] by simp
  qed
qed

lemma requireDigits_exact:
  assumes "digitBytes xs" "k + n = length xs"
  shows "requireDigits n k (pre @ xs @ post) (length pre) = Some (Some (), length pre)"
  using assms
proof (induction n arbitrary: k)
  case (Suc n)
  then have "48 \<le> xs ! k \<and> xs ! k \<le> 57" by (simp add: digitBytes_def)
  then have "isASCIIDigit (xs ! k)" by (simp add: isASCIIDigit_def Let_def)
  with Suc show ?case by (simp add: run_simps nth_append)
qed (simp add: run_simps)

definition yearChars :: "int \<Rightarrow> nat list" where
  "yearChars y = (if y > 9999 \<or> y < 0 then (if y < 0 then 45 else 43) # fixedDigits 6 (nat \<bar>y\<bar>) else fixedDigits 4 (nat \<bar>y\<bar>))"

lemma fixedDigits_hd:
  assumes "0 < w"
  shows "48 \<le> fixedDigits w n ! 0 \<and> fixedDigits w n ! 0 \<le> 57"
proof -
  have "fixedDigits w n ! 0 \<in> set (fixedDigits w n)" using assms by (intro nth_mem) simp
  then show ?thesis using digitBytes_fixedDigits [of w n] unfolding digitBytes_def by blast
qed

lemma firstN_ascii:
  assumes "\<forall>c \<in> set (pre @ xs). c < 128"
  shows "firstN (length xs) (pre @ xs @ post) (length pre) = Some (Some xs, length pre)"
proof -
  have "\<forall>m < length (pre @ xs). (pre @ xs @ post) ! m < 128"
    using assms by (metis append_assoc nth_append nth_mem)
  then have u: "take (length (pre @ xs)) (toUTF8String False (pre @ xs @ post)) = pre @ xs"
    using toUTF8String_ascii [of "length (pre @ xs)" "pre @ xs @ post" False] by simp
  have "length pre \<le> length (toUTF8String False (pre @ xs @ post))"
    using arg_cong [OF u, of length] by (auto simp: min_def split: if_splits)
  moreover have "take (length xs) (drop (length pre) (toUTF8String False (pre @ xs @ post))) = xs"
    using arg_cong [OF u, of "drop (length pre)"] by (simp add: drop_take)
  ultimately show ?thesis by (simp add: firstN_def Let_def)
qed

lemma digitBytes_ascii: "digitBytes xs \<Longrightarrow> \<forall>c \<in> set xs. c < 128"
  by (fastforce simp: digitBytes_def)

lemma parseDateYear_digits:
  assumes "digitBytes xs" "pre = [] \<and> length xs = 4 \<or> (pre = [43] \<or> pre = [45]) \<and> length xs = 6"
    "pre = [45] \<Longrightarrow> parseDecimalInt32 xs \<noteq> 0"
  shows "parseDateYear (pre @ xs @ 45 # rest) 0 =
    Some (Some (if pre = [45] then - parseDecimalInt32 xs else parseDecimalInt32 xs, True), length pre + length xs + 1)"
proof -
  have "requireDigits (length xs) 0 (pre @ xs @ 45 # rest) (length pre) = Some (Some (), length pre)"
    using requireDigits_exact [OF assms(1)] by simp
  moreover have "firstN (length xs) (pre @ xs @ 45 # rest) (length pre) = Some (Some xs, length pre)"
    using firstN_ascii [of pre xs "45 # rest"] digitBytes_ascii [OF assms(1)] assms(2) by auto
  moreover have "48 \<le> xs ! 0 \<and> xs ! 0 \<le> 57" using assms(1,2) by (auto simp: digitBytes_def dest!: nth_mem [of 0 xs])
  moreover from this have "isASCIIDigit (xs ! 0)" by (simp add: isASCIIDigit_def Let_def)
  ultimately show ?thesis
    using assms(2,3) unfolding parseDateYear_def by (elim disjE conjE) (simp_all add: run_simps nth_append)
qed

lemma parseDateYear_printed:
  assumes "\<bar>y\<bar> \<le> 999999"
  shows "parseDateYear (yearChars y @ 45 # rest) 0 = Some (Some (y, True), length (yearChars y) + 1)"
proof -
  have v: "parseDecimalInt32 (fixedDigits 6 (nat \<bar>y\<bar>)) = \<bar>y\<bar>" "0 \<le> y \<Longrightarrow> y \<le> 9999 \<Longrightarrow> parseDecimalInt32 (fixedDigits 4 (nat \<bar>y\<bar>)) = \<bar>y\<bar>"
    using assms by (simp_all add: parse_fixedDigits nat_less_iff)
  consider "y > 9999" | "y < 0" | "0 \<le> y" "y \<le> 9999" by linarith
  then show ?thesis
  proof cases
    case 1
    then show ?thesis
      using parseDateYear_digits [OF digitBytes_fixedDigits [of 6 "nat \<bar>y\<bar>"], of "[43]" rest] v by (simp add: yearChars_def)
  next
    case 2
    then show ?thesis
      using parseDateYear_digits [OF digitBytes_fixedDigits [of 6 "nat \<bar>y\<bar>"], of "[45]" rest] v by (simp add: yearChars_def)
  next
    case 3
    then show ?thesis
      using parseDateYear_digits [OF digitBytes_fixedDigits [of 4 "nat \<bar>y\<bar>"], of "[]" rest] v by (simp add: yearChars_def)
  qed
qed

lemma parseDateMonth_printed:
  assumes "1 \<le> m" "m \<le> 12"
  shows "parseDateMonth True True True (pre @ twoChars m @ 45 # rest) (length pre) = Some (Some m, length pre + 3)"
proof -
  have "m div 10 \<le> 1" using assms(2) by auto
  then have "m div 10 = 0 \<or> m div 10 = 1" by linarith
  moreover have "isASCIIDigit (48 + m mod 10)" "twoDigits (48 + m div 10) (48 + m mod 10) = m" by (rule isASCIIDigit_48 twoDigits_48)+
  ultimately show ?thesis
    using assms by (auto simp: parseDateMonth_def run_simps nth_append twoChars_def)
qed

lemma parseDateDay_printed:
  assumes "valid_date y m d"
  shows "parseDateDay y m (pre @ twoChars d @ rest) (length pre) = Some (Some d, length pre + 2)"
proof -
  have d: "1 \<le> d" "d \<le> daysInMonth y m" "0 < m" using assms by (auto simp: valid_date_def)
  moreover have "daysInMonth y m \<le> 31" using assms daysInMonth_bounds by (auto simp: valid_date_def)
  ultimately have "between CHR ''0'' CHR ''3'' (48 + d div 10)" "\<not> daysInMonth y m < d" using between_48(3) by auto
  with d show ?thesis by (simp add: parseDateDay_def run_simps nth_append twoChars_def)
qed

lemma date_printed:
  assumes "date_ok d" "\<bar>d_year d\<bar> \<le> 999999"
  shows "temporalDateToString d calendar ShowNever = yearChars (d_year d) @ 45 # twoChars (d_month d) @ 45 # twoChars (d_day d)"
proof -
  have "d_month d < 100" "d_day d < 100"
    using assms(1) daysInMonth_bounds [of "d_month d" "d_year d"] by (auto simp: date_ok_def valid_date_def)
  moreover have "nat \<bar>d_year d\<bar> < 10 ^ 6" "\<not> (d_year d > 9999 \<or> d_year d < 0) \<Longrightarrow> nat \<bar>d_year d\<bar> < 10 ^ 4"
    using assms(2) by (simp_all add: nat_less_iff)
  ultimately show ?thesis
    by (simp add: temporalDateToString_def Let_def us_def yearChars_def pad0_2 pad0_fixedDigits [of _ 6] pad0_fixedDigits [of _ 4]
        formatCalendarAnnotation_def)
qed

lemma parse_date_printed:
  assumes "date_ok d" "\<bar>d_year d\<bar> \<le> 999999"
  shows "parseDate True True True (temporalDateToString d calendar ShowNever @ rest) 0 =
    Some (Some d, length (temporalDateToString d calendar ShowNever))"
proof -
  let ?y = "yearChars (d_year d)"
  have v: "valid_date (d_year d) (d_month d) (d_day d)" using assms(1) by (simp add: date_ok_def)
  then have m: "1 \<le> d_month d" "d_month d \<le> 12" by (auto simp: valid_date_def)
  have "parseDateMonth True True True ((?y @ [45]) @ twoChars (d_month d) @ 45 # twoChars (d_day d) @ rest) (length (?y @ [45])) =
      Some (Some (d_month d), length (?y @ [45]) + 3)"
    by (rule parseDateMonth_printed [OF m])
  moreover have "parseDateDay (d_year d) (d_month d) ((?y @ 45 # twoChars (d_month d) @ [45]) @ twoChars (d_day d) @ rest)
      (length (?y @ 45 # twoChars (d_month d) @ [45])) = Some (Some (d_day d), length (?y @ 45 # twoChars (d_month d) @ [45]) + 2)"
    by (rule parseDateDay_printed [OF v])
  moreover have pos: "4 + length ?y = Suc (Suc (Suc (Suc (length ?y))))" by simp
  ultimately show ?thesis
    using parseDateYear_printed [OF assms(2)] mkPlainDate_fields [OF assms(2) v]
    unfolding date_printed [OF assms] by (simp add: parseDate_def run_simps twoChars_def pos)
qed

section \<open>Round trips\<close>

lemma replicate_numeral_unfold: "replicate (numeral k) x = x # replicate (pred_numeral k) x"
  by (simp add: numeral_eq_Suc)

lemmas print_simps = replicate_numeral_unfold temporalDateToString_def temporalTimeToString_def formatCalendarAnnotation_def hourMinuteSecond_def hourMinute_def
  pad_def to_string.simps dropTrailingZeros.simps us_def Let_def

text \<open>a date and a time printed the way the Temporal objects print them, with a \<open>T\<close> in between and no calendar, are read back
  by the parser: the same date, the same time with all its nanoseconds, and no time zone.\<close>

theorem datetime_roundtrip:
  assumes "date_ok d" "\<bar>d_year d\<bar> \<le> 999999" "time_ok t"
  shows "runP parseDateTimeString (temporalDateToString d calendar ShowNever @ us ''T'' @ temporalTimeToString t PrecisionAuto) =
    Some (Some (d, Some t, None))"
proof -
  let ?d = "temporalDateToString d calendar ShowNever" and ?t = "temporalTimeToString t PrecisionAuto"
  have "parseTimeSpec Accept AllowAll ((?d @ us ''T'') @ ?t @ []) (length (?d @ us ''T'')) = Some (Some t, length (?d @ us ''T'') + length ?t)"
    by (rule parse_time_printed [OF assms(3)]) simp
  with parse_date_printed [OF assms(1,2), of calendar] show ?thesis
    by (simp add: runP_def parseDateTimeString_def wholeString_def parseDateTime_def parseTimeAndZone_def attempt_def run_simps us_def
        nth_append)
qed

theorem datetime_roundtrip_witness:
  "runP parseDateTimeString (us ''-000044-03-15T12:30:05.00102'') =
     Some (Some (mkPlainDate (-44) 3 15, Some (mkPlainTime 12 30 5 1 20 0), None))"
proof -
  have "temporalDateToString (mkPlainDate (-44) 3 15) [] ShowNever @ us ''T'' @
      temporalTimeToString (mkPlainTime 12 30 5 1 20 0) PrecisionAuto = us ''-000044-03-15T12:30:05.00102''"
    by (simp add: print_simps mkPlainDate_def mkPlainTime_def signedField_def)
  with datetime_roundtrip [of "mkPlainDate (-44) 3 15" "mkPlainTime 12 30 5 1 20 0" "[]"] show ?thesis
    by (simp add: date_ok_def time_ok_def valid_date_def mkPlainDate_def signedField_def mkPlainTime_def daysInMonth_def daysInMonths_def
        isLeapYear_def)
qed

text \<open>C36: with a \<open>Z\<close> after it, a date with at most six digits of the year and a time, printed without calendar and with as many digits as needed, are read as an instant: the nanoseconds between the epoch and that
  date and time of the proleptic Gregorian calendar.\<close>

theorem instant_roundtrip:
  assumes "date_ok d" "\<bar>d_year d\<bar> \<le> 999999" "time_ok t"
  shows "runP parseISODateTimeWithInstantFormat
      (temporalDateToString d calendar ShowNever @ us ''T'' @ temporalTimeToString t PrecisionAuto @ us ''Z'') =
    Some (Some (dayNumber d * nsPerDay + timeInNanoseconds t))"
proof -
  let ?d = "temporalDateToString d calendar ShowNever" and ?t = "temporalTimeToString t PrecisionAuto"
  have "parseTimeSpec Accept AllowAll ((?d @ us ''T'') @ ?t @ us ''Z'') (length (?d @ us ''T'')) = Some (Some t, length (?d @ us ''T'') + length ?t)"
    by (rule parse_time_printed [OF assms(3)]) (simp add: us_def isASCIIDigit_def)
  with parse_date_printed [OF assms(1,2), of calendar]
  have "runP parseISODateTimeWithInstantFormat (?d @ us ''T'' @ ?t @ us ''Z'') = Some (Some (fromISOPartsAndOffset d t 0))"
    by (simp add: runP_def parseISODateTimeWithInstantFormat_def parseCalendarDateTime_def parseDateTime_def parseTimeAndZone_def
        canBeTimeZone_def parseTimeZone_def annotationFollows_def optionalCalendar_def run_simps us_def nth_append)
  then show ?thesis by (simp add: fromISOPartsAndOffset_def timeInNanoseconds_def dayNumber_def Let_def algebra_simps)
qed

theorem instant_roundtrip_witness:
  "runP parseISODateTimeWithInstantFormat (us ''1970-01-02T00:00:01Z'') = Some (Some 86401000000000)"
proof -
  have "temporalDateToString (mkPlainDate 1970 1 2) [] ShowNever @ us ''T'' @
      temporalTimeToString (mkPlainTime 0 0 1 0 0 0) PrecisionAuto @ us ''Z'' = us ''1970-01-02T00:00:01Z''"
    by (simp add: print_simps mkPlainDate_def mkPlainTime_def signedField_def)
  moreover have "dayNumber (mkPlainDate 1970 1 2) * nsPerDay + timeInNanoseconds (mkPlainTime 0 0 1 0 0 0) = 86401000000000"
    by code_simp
  ultimately show ?thesis
    using instant_roundtrip [of "mkPlainDate 1970 1 2" "mkPlainTime 0 0 1 0 0 0" "[]"]
    by (simp add: date_ok_def time_ok_def valid_date_def mkPlainDate_def signedField_def mkPlainTime_def daysInMonth_def daysInMonths_def
        isLeapYear_def)
qed

end
