(* ===== verification/Promises.thy ===== *)
theory Promises
  imports Prelude "HOL-Library.Sublist"
begin

text \<open>
  Promises and the job queue, \<open>src/runtime/PromiseObject.cpp\<close>, \<open>PromiseObject.h\<close>, \<open>Job.cpp\<close>, \<open>JobQueue.cpp\<close> and the
  constructor in \<open>src/builtins/BuiltinPromise.cpp\<close>. The store holds the promises, the records that the resolving functions share,
  and the queue of jobs. JavaScript code (handlers, getters of \<open>then\<close>, executors) is a parameter; what it can do to the store is
  the relation \<open>steps\<close>, the calls of the operations of this theory in any order and number.
\<close>

section \<open>The store\<close>

datatype JSValue = Undefined | Prim nat | Obj nat | PromiseV nat | ResolveFn nat | RejectFn nat | TypeErrorV string

datatype PromiseState = Pending | FulFilled | Rejected

text \<open>\<open>None\<close> is the null pointer.\<close>

record Capability =
  c_promise :: "JSValue option"
  c_resolveFunction :: "JSValue option"
  c_rejectFunction :: "JSValue option"

text \<open>The handlers that are the addresses 1 and 2 in the code.\<close>

datatype Handler = Identity | Thrower | Callable JSValue

record PromiseReaction =
  m_capability :: Capability
  m_handler :: Handler

record PromiseObject =
  m_state :: PromiseState
  m_promiseResult :: JSValue
  m_fulfillReactions :: "PromiseReaction list"
  m_rejectReactions :: "PromiseReaction list"

datatype Job = PromiseReactionJob PromiseReaction JSValue | PromiseResolveThenableJob nat JSValue JSValue

datatype PromiseRejectEvent = PromiseRejectWithNoHandler | PromiseHandlerAddedAfterReject

text \<open>
  A pair of resolving functions is a position in \<open>w_resolvers\<close>: its promise and the \<open>alreadyResolved\<close> object that both functions
  share. The calls of the embedder's callback for rejections are recorded.
\<close>

record World =
  w_promises :: "PromiseObject list"
  w_resolvers :: "(nat \<times> bool) list"
  w_jobs :: "Job list"
  w_rejectCallbackRegistered :: bool
  w_rejectEvents :: "(nat \<times> JSValue \<times> PromiseRejectEvent) list"

definition emptyWorld :: "bool \<Rightarrow> World" where
  "emptyWorld callback =
     \<lparr>w_promises = [], w_resolvers = [], w_jobs = [], w_rejectCallbackRegistered = callback, w_rejectEvents = []\<rparr>"

text \<open>Code outside of this theory: a getter of \<open>then\<close>, a call of any other function, and which objects are callable; \<open>Inl\<close> is a thrown value.\<close>

record JS =
  getThen :: "JSValue \<Rightarrow> World \<Rightarrow> (JSValue + JSValue) \<times> World"
  callJS :: "JSValue \<Rightarrow> JSValue \<Rightarrow> JSValue list \<Rightarrow> World \<Rightarrow> (JSValue + JSValue) \<times> World"
  callableObj :: "nat \<Rightarrow> bool"

fun isObject :: "JSValue \<Rightarrow> bool" where
  "isObject Undefined = False"
| "isObject (Prim n) = False"
| "isObject v = True"

fun isCallable :: "JS \<Rightarrow> JSValue \<Rightarrow> bool" where
  "isCallable js (Obj n) = callableObj js n"
| "isCallable js (ResolveFn r) = True"
| "isCallable js (RejectFn r) = True"
| "isCallable js v = False"

section \<open>Operations\<close>

definition enqueueJob :: "Job \<Rightarrow> World \<Rightarrow> World" where
  "enqueueJob job w = w\<lparr>w_jobs := w_jobs w @ [job]\<rparr>"

definition hasNextJob :: "World \<Rightarrow> bool" where
  "hasNextJob w \<longleftrightarrow> w_jobs w \<noteq> []"

definition nextJob :: "World \<Rightarrow> (Job \<times> World) option" where
  "nextJob w = (case w_jobs w of [] \<Rightarrow> None | job # rest \<Rightarrow> Some (job, w\<lparr>w_jobs := rest\<rparr>))"

definition newPromise :: "World \<Rightarrow> nat \<times> World" where
  "newPromise w =
     (length (w_promises w),
      w\<lparr>w_promises := w_promises w @
          [\<lparr>m_state = Pending, m_promiseResult = Undefined, m_fulfillReactions = [], m_rejectReactions = []\<rparr>]\<rparr>)"

definition createResolvingFunctions :: "nat \<Rightarrow> World \<Rightarrow> Capability \<times> World" where
  "createResolvingFunctions p w =
     (let r = length (w_resolvers w)
      in (\<lparr>c_promise = Some (PromiseV p), c_resolveFunction = Some (ResolveFn r), c_rejectFunction = Some (RejectFn r)\<rparr>,
          w\<lparr>w_resolvers := w_resolvers w @ [(p, False)]\<rparr>))"

text \<open>The path for the intrinsic constructor; for another constructor the capability comes from JavaScript code.\<close>

definition newPromiseCapability :: "World \<Rightarrow> Capability \<times> World" where
  "newPromiseCapability w = (let (p, w') = newPromise w in createResolvingFunctions p w')"

definition triggerPromiseReactions :: "PromiseReaction list \<Rightarrow> JSValue \<Rightarrow> World \<Rightarrow> World" where
  "triggerPromiseReactions reactions v w = fold (\<lambda>r. enqueueJob (PromiseReactionJob r v)) reactions w"

definition setPromise :: "nat \<Rightarrow> (PromiseObject \<Rightarrow> PromiseObject) \<Rightarrow> World \<Rightarrow> World" where
  "setPromise p f w = w\<lparr>w_promises := (w_promises w)[p := f (w_promises w ! p)]\<rparr>"

definition clearReactions :: "PromiseObject \<Rightarrow> PromiseObject" where
  "clearReactions obj = obj\<lparr>m_fulfillReactions := [], m_rejectReactions := []\<rparr>"

definition fulfillPromise :: "nat \<Rightarrow> JSValue \<Rightarrow> World \<Rightarrow> World" where
  "fulfillPromise p v w =
     (let w1 = setPromise p (\<lambda>obj. obj\<lparr>m_state := FulFilled, m_promiseResult := v\<rparr>) w;
          w2 = triggerPromiseReactions (m_fulfillReactions (w_promises w1 ! p)) v w1
      in setPromise p clearReactions w2)"

definition triggerPromiseRejectCallback :: "nat \<Rightarrow> JSValue \<Rightarrow> PromiseRejectEvent \<Rightarrow> World \<Rightarrow> World" where
  "triggerPromiseRejectCallback p v event w = w\<lparr>w_rejectEvents := w_rejectEvents w @ [(p, v, event)]\<rparr>"

definition rejectPromise :: "nat \<Rightarrow> JSValue \<Rightarrow> World \<Rightarrow> World" where
  "rejectPromise p reason w =
     (let w1 = setPromise p (\<lambda>obj. obj\<lparr>m_state := Rejected, m_promiseResult := reason\<rparr>) w;
          w2 = (if length (m_rejectReactions (w_promises w1 ! p)) > 0
                then triggerPromiseReactions (m_rejectReactions (w_promises w1 ! p)) reason w1
                else if w_rejectCallbackRegistered w1
                then triggerPromiseRejectCallback p reason PromiseRejectWithNoHandler w1
                else w1)
      in setPromise p clearReactions w2)"

definition nullCapability :: Capability where
  "nullCapability = \<lparr>c_promise = None, c_resolveFunction = None, c_rejectFunction = None\<rparr>"

definition appendReaction :: "nat \<Rightarrow> Handler \<Rightarrow> Handler \<Rightarrow> Capability \<Rightarrow> World \<Rightarrow> World" where
  "appendReaction p onFulfilled onRejected capability =
     setPromise p (\<lambda>obj. obj\<lparr>m_fulfillReactions := m_fulfillReactions obj @ [\<lparr>m_capability = capability, m_handler = onFulfilled\<rparr>],
                         m_rejectReactions := m_rejectReactions obj @ [\<lparr>m_capability = capability, m_handler = onRejected\<rparr>]\<rparr>)"

definition promiseThen ::
  "JS \<Rightarrow> nat \<Rightarrow> JSValue \<Rightarrow> JSValue \<Rightarrow> Capability option \<Rightarrow> World \<Rightarrow> JSValue option \<times> World" where
  "promiseThen js p onFulfilledValue onRejectedValue resultCapability w =
     (let onFulfilled = (if isCallable js onFulfilledValue then Callable onFulfilledValue else Identity);
          onRejected = (if isCallable js onRejectedValue then Callable onRejectedValue else Thrower);
          capability = (case resultCapability of Some c \<Rightarrow> c | None \<Rightarrow> nullCapability);
          obj = w_promises w ! p;
          w' = (case m_state obj of
                  Pending \<Rightarrow> appendReaction p onFulfilled onRejected capability w
                | FulFilled \<Rightarrow>
                    enqueueJob (PromiseReactionJob \<lparr>m_capability = capability, m_handler = onFulfilled\<rparr> (m_promiseResult obj)) w
                | Rejected \<Rightarrow>
                    (let w1 = enqueueJob (PromiseReactionJob \<lparr>m_capability = capability, m_handler = onRejected\<rparr> (m_promiseResult obj)) w
                     in if w_rejectCallbackRegistered w1
                        then triggerPromiseRejectCallback p (m_promiseResult obj) PromiseHandlerAddedAfterReject w1 else w1))
      in (case resultCapability of Some c \<Rightarrow> c_promise c | None \<Rightarrow> None, w'))"

text \<open>\<open>alreadyResolved->defineOwnProperty(value, true)\<close>\<close>

definition markResolved :: "nat \<Rightarrow> World \<Rightarrow> World" where
  "markResolved r w = w\<lparr>w_resolvers := (w_resolvers w)[r := (fst (w_resolvers w ! r), True)]\<rparr>"

text \<open>What follows the read of \<open>then\<close>.\<close>

definition resolveWithThen :: "JS \<Rightarrow> nat \<Rightarrow> JSValue \<Rightarrow> JSValue + JSValue \<Rightarrow> World \<Rightarrow> World" where
  "resolveWithThen js p resolution outcome w =
     (case outcome of
        Inl reason \<Rightarrow> rejectPromise p reason w
      | Inr t \<Rightarrow> if isCallable js t then enqueueJob (PromiseResolveThenableJob p resolution t) w
                 else fulfillPromise p resolution w)"

definition promiseResolveFunctions :: "JS \<Rightarrow> nat \<Rightarrow> JSValue \<Rightarrow> World \<Rightarrow> World" where
  "promiseResolveFunctions js r resolutionValue w =
     (let (p, alreadyResolved) = w_resolvers w ! r
      in if alreadyResolved then w
         else let w1 = markResolved r w
              in if resolutionValue = PromiseV p then rejectPromise p (TypeErrorV ''Self resolution error'') w1
                 else if \<not> isObject resolutionValue then fulfillPromise p resolutionValue w1
                 else let (outcome, w2) = getThen js resolutionValue w1
                      in resolveWithThen js p resolutionValue outcome w2)"

definition promiseRejectFunctions :: "nat \<Rightarrow> JSValue \<Rightarrow> World \<Rightarrow> World" where
  "promiseRejectFunctions r reason w =
     (let (p, alreadyResolved) = w_resolvers w ! r
      in if alreadyResolved then w else rejectPromise p reason (markResolved r w))"

text \<open>\<open>argv[0]\<close> of a native function is \<open>undefined\<close> when the argument is missing.\<close>

definition arg0 :: "JSValue list \<Rightarrow> JSValue" where
  "arg0 args = (case args of [] \<Rightarrow> Undefined | v # _ \<Rightarrow> v)"

text \<open>A function value that is not in the store does not exist; a call of it is left without effect.\<close>

definition callFunction :: "JS \<Rightarrow> JSValue \<Rightarrow> JSValue \<Rightarrow> JSValue list \<Rightarrow> World \<Rightarrow> (JSValue + JSValue) \<times> World" where
  "callFunction js f this args w =
     (case f of
        ResolveFn r \<Rightarrow> (Inr Undefined, if r < length (w_resolvers w) then promiseResolveFunctions js r (arg0 args) w else w)
      | RejectFn r \<Rightarrow> (Inr Undefined, if r < length (w_resolvers w) then promiseRejectFunctions r (arg0 args) w else w)
      | _ \<Rightarrow> callJS js f this args w)"

text \<open>A call through a pointer; \<open>None\<close> is a call of the null pointer.\<close>

definition callPointer :: "JS \<Rightarrow> JSValue option \<Rightarrow> JSValue list \<Rightarrow> World \<Rightarrow> ((JSValue + JSValue) \<times> World) option" where
  "callPointer js f args w = map_option (\<lambda>f. callFunction js f Undefined args w) f"

section \<open>Jobs\<close>

definition rejectReaction :: "JS \<Rightarrow> Capability \<Rightarrow> JSValue \<Rightarrow> World \<Rightarrow> (JSValue + JSValue) \<times> World" where
  "rejectReaction js capability reason w =
     (case c_rejectFunction capability of
        Some f \<Rightarrow> callFunction js f Undefined [reason] w
      | None \<Rightarrow> (Inl reason, w))"

definition runReactionJob :: "JS \<Rightarrow> PromiseReaction \<Rightarrow> JSValue \<Rightarrow> World \<Rightarrow> ((JSValue + JSValue) \<times> World) option" where
  "runReactionJob js reaction argument w =
     (let capability = m_capability reaction
      in case m_handler reaction of
           Identity \<Rightarrow> callPointer js (c_resolveFunction capability) [argument] w
         | Thrower \<Rightarrow> callPointer js (c_rejectFunction capability) [argument] w
         | Callable f \<Rightarrow>
             (case callFunction js f Undefined [argument] w of
                (Inl reason, w1) \<Rightarrow> Some (rejectReaction js capability reason w1)
              | (Inr res, w1) \<Rightarrow>
                  if c_promise capability = None then Some (Inr res, w1)
                  else (case callPointer js (c_resolveFunction capability) [res] w1 of
                          None \<Rightarrow> None
                        | Some (Inl reason, w2) \<Rightarrow> Some (rejectReaction js capability reason w2)
                        | Some (Inr _, w2) \<Rightarrow> Some (Inr res, w2))))"

definition runThenableJob :: "JS \<Rightarrow> nat \<Rightarrow> JSValue \<Rightarrow> JSValue \<Rightarrow> World \<Rightarrow> (JSValue + JSValue) \<times> World" where
  "runThenableJob js p thenable t w =
     (let (capability, w1) = createResolvingFunctions p w
      in case callFunction js t thenable [the (c_resolveFunction capability), the (c_rejectFunction capability)] w1 of
           (Inl reason, w2) \<Rightarrow> callFunction js (the (c_rejectFunction capability)) Undefined [reason] w2
         | (Inr result, w2) \<Rightarrow> (Inr result, w2))"

definition runJob :: "JS \<Rightarrow> Job \<Rightarrow> World \<Rightarrow> ((JSValue + JSValue) \<times> World) option" where
  "runJob js job w =
     (case job of
        PromiseReactionJob reaction argument \<Rightarrow> runReactionJob js reaction argument w
      | PromiseResolveThenableJob p thenable t \<Rightarrow> Some (runThenableJob js p thenable t w))"

text \<open>\<open>None\<close> when there is no job, or when the job calls a null pointer.\<close>

definition executePendingJob :: "JS \<Rightarrow> World \<Rightarrow> World option" where
  "executePendingJob js w =
     (case nextJob w of None \<Rightarrow> None | Some (job, w1) \<Rightarrow> map_option snd (runJob js job w1))"

primrec executePendingJobs :: "JS \<Rightarrow> nat \<Rightarrow> World \<Rightarrow> World option" where
  "executePendingJobs js 0 w = Some w"
| "executePendingJobs js (Suc n) w = Option.bind (executePendingJob js w) (executePendingJobs js n)"

text \<open>\<open>new Promise(executor)\<close>, \<open>promise.then(f)\<close> and \<open>promise.catch(f)\<close> with the intrinsic constructor.\<close>

definition promiseConstructor :: "JS \<Rightarrow> bool \<Rightarrow> JSValue \<Rightarrow> World \<Rightarrow> (JSValue + JSValue) \<times> World" where
  "promiseConstructor js hasNewTarget executor w =
     (if \<not> hasNewTarget then (Inl (TypeErrorV ''Promise constructor should be called with new Promise()''), w)
      else if \<not> isCallable js executor then (Inl (TypeErrorV ''Promise executor is not a function object''), w)
      else let (p, w1) = newPromise w; (capability, w2) = createResolvingFunctions p w1
           in case callFunction js executor Undefined [the (c_resolveFunction capability), the (c_rejectFunction capability)] w2 of
                (Inr _, w3) \<Rightarrow> (Inr (PromiseV p), w3)
              | (Inl reason, w3) \<Rightarrow>
                  (Inr (PromiseV p), snd (callFunction js (the (c_rejectFunction capability)) Undefined [reason] w3)))"

definition thenOperation :: "JS \<Rightarrow> nat \<Rightarrow> JSValue \<Rightarrow> World \<Rightarrow> JSValue option \<times> World" where
  "thenOperation js p handler w =
     (let (capability, w1) = newPromiseCapability w in promiseThen js p handler Undefined (Some capability) w1)"

definition catchOperation :: "JS \<Rightarrow> nat \<Rightarrow> JSValue \<Rightarrow> World \<Rightarrow> JSValue option \<times> World" where
  "catchOperation js p handler w =
     (let (capability, w1) = newPromiseCapability w in promiseThen js p Undefined handler (Some capability) w1)"

section \<open>What JavaScript code can do\<close>

text \<open>
  A capability that is given to \<open>then\<close> has both functions; \<open>then\<close> without a capability is used by the engine with two handlers.
\<close>

definition capability_ok :: "Capability \<Rightarrow> bool" where
  "capability_ok c \<longleftrightarrow> c_resolveFunction c \<noteq> None \<and> c_rejectFunction c \<noteq> None"

definition then_ok :: "JS \<Rightarrow> JSValue \<Rightarrow> JSValue \<Rightarrow> Capability option \<Rightarrow> bool" where
  "then_ok js f g cap \<longleftrightarrow> (case cap of Some c \<Rightarrow> capability_ok c | None \<Rightarrow> isCallable js f \<and> isCallable js g)"

text \<open>
  One call of an operation, and any sequence of calls. A resolving function that is given an object reads its \<open>then\<close>, and the
  getter can be JavaScript code again; what it gives is up to it.
\<close>

inductive step :: "JS \<Rightarrow> World \<Rightarrow> World \<Rightarrow> bool" and steps :: "JS \<Rightarrow> World \<Rightarrow> World \<Rightarrow> bool" for js :: JS where
  step_new: "step js w (snd (newPromiseCapability w))"
| step_then: "\<lbrakk>p < length (w_promises w); then_ok js f g cap\<rbrakk> \<Longrightarrow> step js w (snd (promiseThen js p f g cap w))"
| step_reject: "r < length (w_resolvers w) \<Longrightarrow> step js w (promiseRejectFunctions r v w)"
| step_resolve_value: "\<lbrakk>r < length (w_resolvers w);
    snd (w_resolvers w ! r) \<or> \<not> isObject v \<or> v = PromiseV (fst (w_resolvers w ! r))\<rbrakk>
    \<Longrightarrow> step js w (promiseResolveFunctions js r v w)"
| step_resolve_object: "\<lbrakk>r < length (w_resolvers w); \<not> snd (w_resolvers w ! r); steps js (markResolved r w) w2\<rbrakk>
    \<Longrightarrow> step js w (resolveWithThen js (fst (w_resolvers w ! r)) v outcome w2)"
| steps_refl: "steps js w w"
| steps_step: "\<lbrakk>steps js w w1; step js w1 w2\<rbrakk> \<Longrightarrow> steps js w w2"

lemma step_steps: "step js w w' \<Longrightarrow> steps js w w'"
  by (rule steps_step [OF steps_refl])

lemma steps_trans: "steps js w1 w2 \<Longrightarrow> steps js w w1 \<Longrightarrow> steps js w w2"
  by (induction w1 w2 rule: step_steps.inducts(2) [where ?P1.0 = "\<lambda>_ _. True"]) (auto intro: steps_step)

text \<open>The code outside of this theory changes the store only through the operations.\<close>

definition js_ok :: "JS \<Rightarrow> bool" where
  "js_ok js \<longleftrightarrow> (\<forall>v w. steps js w (snd (getThen js v w))) \<and> (\<forall>f this args w. steps js w (snd (callJS js f this args w)))"

section \<open>The invariant\<close>

definition reaction_ok :: "PromiseReaction \<Rightarrow> bool" where
  "reaction_ok r \<longleftrightarrow> capability_ok (m_capability r) \<or> m_capability r = nullCapability \<and> (\<exists>f. m_handler r = Callable f)"

fun jobTarget :: "Job \<Rightarrow> nat option" where
  "jobTarget (PromiseResolveThenableJob p thenable t) = Some p"
| "jobTarget (PromiseReactionJob r v) = None"

fun job_ok :: "nat \<Rightarrow> Job \<Rightarrow> bool" where
  "job_ok n (PromiseResolveThenableJob p thenable t) = (p < n)"
| "job_ok n (PromiseReactionJob r v) = reaction_ok r"

text \<open>
  Who can still settle a promise: the resolving functions that have not been called, the jobs that will make new ones, and the
  resolving functions that are just being run (\<open>F\<close>). There is at most one, and none when the promise is settled.
\<close>

definition live :: "(nat \<Rightarrow> nat) \<Rightarrow> World \<Rightarrow> nat \<Rightarrow> nat" where
  "live F w p = count_list (w_resolvers w) (p, False) + count_list (map jobTarget (w_jobs w)) (Some p) + F p"

definition object_ok :: "nat \<Rightarrow> PromiseObject \<Rightarrow> bool" where
  "object_ok n obj \<longleftrightarrow> n \<le> 1 \<and> (m_state obj \<noteq> Pending \<longrightarrow> n = 0) \<and>
     map m_capability (m_fulfillReactions obj) = map m_capability (m_rejectReactions obj) \<and>
     (\<forall>r \<in> set (m_fulfillReactions obj) \<union> set (m_rejectReactions obj). reaction_ok r)"

definition world_inv :: "(nat \<Rightarrow> nat) \<Rightarrow> World \<Rightarrow> bool" where
  "world_inv F w \<longleftrightarrow> (\<forall>p < length (w_promises w). object_ok (live F w p) (w_promises w ! p)) \<and>
     (\<forall>x \<in> set (w_resolvers w). fst x < length (w_promises w)) \<and> (\<forall>j \<in> set (w_jobs w). job_ok (length (w_promises w)) j) \<and>
     (\<forall>p. 0 < F p \<longrightarrow> p < length (w_promises w))"

text \<open>What a sequence of calls keeps: settled promises, the jobs of the queue at its front, and resolving functions once called.\<close>

definition evolves :: "World \<Rightarrow> World \<Rightarrow> bool" where
  "evolves w w' \<longleftrightarrow> length (w_promises w) \<le> length (w_promises w') \<and>
     (\<forall>p < length (w_promises w). m_state (w_promises w ! p) \<noteq> Pending \<longrightarrow> w_promises w' ! p = w_promises w ! p) \<and>
     prefix (w_jobs w) (w_jobs w') \<and> length (w_resolvers w) \<le> length (w_resolvers w') \<and>
     (\<forall>r < length (w_resolvers w). fst (w_resolvers w' ! r) = fst (w_resolvers w ! r) \<and>
        (snd (w_resolvers w ! r) \<longrightarrow> snd (w_resolvers w' ! r)))"

lemma evolves_refl: "evolves w w"
  by (simp add: evolves_def)

lemma evolves_trans: "\<lbrakk>evolves w w1; evolves w1 w2\<rbrakk> \<Longrightarrow> evolves w w2"
  unfolding evolves_def by (auto intro: prefix_order.trans)

section \<open>Effects of the operations\<close>

lemma triggerPromiseReactions_eq:
  "triggerPromiseReactions rs v w = w\<lparr>w_jobs := w_jobs w @ map (\<lambda>r. PromiseReactionJob r v) rs\<rparr>"
  unfolding triggerPromiseReactions_def by (induction rs arbitrary: w) (simp_all add: enqueueJob_def)

lemma settled_object [simp]:
  "obj\<lparr>m_state := s, m_promiseResult := v, m_fulfillReactions := [], m_rejectReactions := []\<rparr> =
    \<lparr>m_state = s, m_promiseResult = v, m_fulfillReactions = [], m_rejectReactions = []\<rparr>" for obj :: PromiseObject
  by (cases obj) simp

lemma fulfillPromise_effect [simp]:
  assumes "p < length (w_promises w)"
  shows "w_promises (fulfillPromise p v w) = (w_promises w)[p := \<lparr>m_state = FulFilled, m_promiseResult = v, m_fulfillReactions = [], m_rejectReactions = []\<rparr>]"
    "w_resolvers (fulfillPromise p v w) = w_resolvers w"
    "w_jobs (fulfillPromise p v w) = w_jobs w @ map (\<lambda>r. PromiseReactionJob r v) (m_fulfillReactions (w_promises w ! p))"
  using assms by (simp_all add: fulfillPromise_def triggerPromiseReactions_eq setPromise_def clearReactions_def Let_def)

lemma rejectPromise_effect [simp]:
  assumes "p < length (w_promises w)"
  shows "w_promises (rejectPromise p v w) = (w_promises w)[p := \<lparr>m_state = Rejected, m_promiseResult = v, m_fulfillReactions = [], m_rejectReactions = []\<rparr>]"
    "w_resolvers (rejectPromise p v w) = w_resolvers w"
    "w_jobs (rejectPromise p v w) = w_jobs w @ map (\<lambda>r. PromiseReactionJob r v) (m_rejectReactions (w_promises w ! p))"
  using assms by (simp_all add: rejectPromise_def triggerPromiseReactions_eq triggerPromiseRejectCallback_def setPromise_def
      clearReactions_def Let_def)

lemma jobTargets_reactions: "count_list (map jobTarget (js @ map (\<lambda>r. PromiseReactionJob r v) rs)) (Some p) = count_list (map jobTarget js) (Some p)"
  by (induction rs) (auto simp: count_list_0_iff)

lemma inv_object: "\<lbrakk>world_inv F w; p < length (w_promises w)\<rbrakk> \<Longrightarrow> object_ok (live F w p) (w_promises w ! p)"
  by (simp add: world_inv_def)

text \<open>Settling a promise uses up the one resolving function that is running.\<close>

lemma settle:
  assumes i: "world_inv (F(p := Suc (F p))) w" and obj: "m_state obj \<noteq> Pending" "m_fulfillReactions obj = []" "m_rejectReactions obj = []"
    and w': "w_promises w' = (w_promises w)[p := obj]" "w_resolvers w' = w_resolvers w"
      "w_jobs w' = w_jobs w @ map (\<lambda>r. PromiseReactionJob r v) rs"
    and rs: "set rs \<subseteq> set (m_fulfillReactions (w_promises w ! p)) \<union> set (m_rejectReactions (w_promises w ! p))"
  shows "world_inv F w' \<and> evolves w w'"
proof
  have p: "p < length (w_promises w)" using i by (auto simp: world_inv_def split: if_splits)
  have live: "live F w' q = live F w q" for q using w' by (simp add: live_def jobTargets_reactions del: map_append)
  have "live (F(p := Suc (F p))) w p = Suc (live F w p)" by (simp add: live_def)
  then have zero: "live F w p = 0" and pend: "m_state (w_promises w ! p) = Pending"
    using inv_object [OF i p] by (auto simp: object_ok_def)
  have rok: "\<forall>r \<in> set rs. reaction_ok r" using inv_object [OF i p] rs by (auto simp: object_ok_def)
  have "object_ok (live F w' q) (w_promises w' ! q)" if "q < length (w_promises w')" for q
  proof (cases "q = p")
    case True
    then show ?thesis using p obj zero w' live by (simp add: object_ok_def)
  next
    case False
    then have "live (F(p := Suc (F p))) w q = live F w q" by (simp add: live_def)
    then show ?thesis using inv_object [OF i, of q] that False w' live by simp
  qed
  moreover have "\<forall>q. 0 < F q \<longrightarrow> q < length (w_promises w)" using i p by (auto simp: world_inv_def)
  ultimately show "world_inv F w'" using i w' rok by (auto simp: world_inv_def)
  show "evolves w w'" using p pend w' by (auto simp: evolves_def nth_list_update)
qed

lemma settle_fulfill: "world_inv (F(p := Suc (F p))) w \<Longrightarrow> world_inv F (fulfillPromise p v w) \<and> evolves w (fulfillPromise p v w)"
  and settle_reject: "world_inv (F(p := Suc (F p))) w \<Longrightarrow> world_inv F (rejectPromise p v w) \<and> evolves w (rejectPromise p v w)"
proof -
  assume i: "world_inv (F(p := Suc (F p))) w"
  then have p: "p < length (w_promises w)" by (auto simp: world_inv_def split: if_splits)
  show "world_inv F (fulfillPromise p v w) \<and> evolves w (fulfillPromise p v w)"
    by (rule settle [OF i _ _ _ fulfillPromise_effect [OF p]]) auto
  show "world_inv F (rejectPromise p v w) \<and> evolves w (rejectPromise p v w)"
    by (rule settle [OF i _ _ _ rejectPromise_effect [OF p]]) auto
qed

lemma enqueue_thenable:
  assumes i: "world_inv (F(p := Suc (F p))) w"
  shows "world_inv F (enqueueJob (PromiseResolveThenableJob p v t) w) \<and> evolves w (enqueueJob (PromiseResolveThenableJob p v t) w)"
proof
  let ?w = "enqueueJob (PromiseResolveThenableJob p v t) w"
  have p: "p < length (w_promises w)" using i by (auto simp: world_inv_def split: if_splits)
  have "live F ?w q = live (F(p := Suc (F p))) w q" for q by (simp add: live_def enqueueJob_def)
  moreover have "\<forall>q. 0 < F q \<longrightarrow> q < length (w_promises w)" using i p by (auto simp: world_inv_def)
  ultimately show "world_inv F ?w" using i p by (auto simp: world_inv_def enqueueJob_def)
  show "evolves w ?w" by (simp add: evolves_def enqueueJob_def)
qed

lemma enqueue_reaction:
  assumes "world_inv F w" "reaction_ok r"
  shows "world_inv F (enqueueJob (PromiseReactionJob r v) w) \<and> evolves w (enqueueJob (PromiseReactionJob r v) w)"
proof -
  have "live F (enqueueJob (PromiseReactionJob r v) w) q = live F w q" for q by (simp add: live_def enqueueJob_def)
  then show ?thesis using assms by (auto simp: world_inv_def enqueueJob_def evolves_def)
qed

lemma events_irrelevant:
  "world_inv F (triggerPromiseRejectCallback p v e w) = world_inv F w" "evolves w0 (triggerPromiseRejectCallback p v e w) = evolves w0 w"
  by (simp_all add: triggerPromiseRejectCallback_def world_inv_def live_def evolves_def)

lemma resolveWithThen_ok:
  assumes "world_inv (F(p := Suc (F p))) w"
  shows "world_inv F (resolveWithThen js p v outcome w) \<and> evolves w (resolveWithThen js p v outcome w)"
  using assms settle_fulfill settle_reject enqueue_thenable by (auto simp: resolveWithThen_def split: sum.splits)

lemma count_list_update:
  assumes "r < length xs" "xs ! r = (p, False)"
  shows "count_list (xs[r := (p, True)]) (q, False) + (if q = p then 1 else 0) = count_list xs (q, False)"
proof -
  obtain a b where "xs = a @ (p, False) # b" "length a = r"
    using assms id_take_nth_drop [of r xs] by (metis length_take min.absorb2 less_imp_le)
  then show ?thesis by (auto simp: list_update_append)
qed

text \<open>Calling a resolving function for the first time.\<close>

lemma markResolved_ok:
  assumes i: "world_inv F w" and r: "r < length (w_resolvers w)" "w_resolvers w ! r = (p, False)"
  shows "world_inv (F(p := Suc (F p))) (markResolved r w) \<and> evolves w (markResolved r w)"
proof
  let ?w = "markResolved r w"
  have "(p, False) \<in> set (w_resolvers w)" using r nth_mem by force
  then have p: "p < length (w_promises w)" using i by (auto simp: world_inv_def)
  have w: "w_resolvers ?w = (w_resolvers w)[r := (p, True)]" "w_promises ?w = w_promises w" "w_jobs ?w = w_jobs w"
    using r by (simp_all add: markResolved_def)
  have "live (F(p := Suc (F p))) ?w q = live F w q" for q
    using count_list_update [OF r, of q] w by (simp add: live_def split: if_splits)
  moreover have "\<forall>x \<in> set ((w_resolvers w)[r := (p, True)]). fst x < length (w_promises w)"
    using i p by (auto simp: world_inv_def dest!: set_update_subset_insert [THEN subsetD])
  ultimately show "world_inv (F(p := Suc (F p))) ?w" using i p w by (auto simp: world_inv_def)
  show "evolves w ?w" using r w by (auto simp: evolves_def nth_list_update)
qed

lemma promiseThen_ok:
  assumes i: "world_inv F w" and p: "p < length (w_promises w)" and c: "then_ok js f g cap"
  shows "world_inv F (snd (promiseThen js p f g cap w)) \<and> evolves w (snd (promiseThen js p f g cap w))"
proof -
  define onF where "onF = (if isCallable js f then Callable f else Identity)"
  define onR where "onR = (if isCallable js g then Callable g else Thrower)"
  define c where "c = (case cap of Some c \<Rightarrow> c | None \<Rightarrow> nullCapability)"
  have ok: "reaction_ok \<lparr>m_capability = c, m_handler = onF\<rparr>" "reaction_ok \<lparr>m_capability = c, m_handler = onR\<rparr>"
    using \<open>then_ok js f g cap\<close> by (auto simp: then_ok_def reaction_ok_def c_def onF_def onR_def split: option.splits)
  show ?thesis
  proof (cases "m_state (w_promises w ! p)")
    case Pending
    let ?w = "appendReaction p onF onR c w"
    have live: "live F ?w q = live F w q" for q by (simp add: live_def appendReaction_def setPromise_def)
    have "object_ok (live F w q) (w_promises ?w ! q)" if "q < length (w_promises w)" for q
      using inv_object [OF i that] ok p by (auto simp: appendReaction_def setPromise_def nth_list_update object_ok_def)
    then have "world_inv F ?w" using i live by (auto simp: world_inv_def appendReaction_def setPromise_def)
    moreover have "evolves w ?w" using Pending p by (auto simp: evolves_def appendReaction_def setPromise_def nth_list_update)
    ultimately show ?thesis using Pending by (simp add: promiseThen_def onF_def onR_def c_def Let_def)
  next
    case FulFilled
    with enqueue_reaction [OF i ok(1)] show ?thesis by (simp add: promiseThen_def onF_def onR_def c_def Let_def)
  next
    case Rejected
    with enqueue_reaction [OF i ok(2)] show ?thesis
      by (simp add: promiseThen_def onF_def onR_def c_def Let_def events_irrelevant)
  qed
qed

lemma newPromise_ok:
  assumes i: "world_inv F w"
  shows "world_inv F (snd (newPromise w)) \<and> evolves w (snd (newPromise w))"
    "fst (newPromise w) < length (w_promises (snd (newPromise w)))" "live F (snd (newPromise w)) (fst (newPromise w)) = 0"
    "m_state (w_promises (snd (newPromise w)) ! fst (newPromise w)) = Pending"
proof -
  let ?n = "length (w_promises w)" and ?w = "snd (newPromise w)"
  have live: "live F ?w q = live F w q" for q by (simp add: live_def newPromise_def)
  have "(?n, False) \<notin> set (w_resolvers w)" "Some ?n \<notin> set (map jobTarget (w_jobs w))" "F ?n = 0"
    using i by (auto simp: world_inv_def elim!: jobTarget.elims [OF sym])
  then have "live F w ?n = 0" by (simp add: live_def count_list_0_iff)
  then show "live F ?w (fst (newPromise w)) = 0" using live by (simp add: newPromise_def)
  with live i have "\<forall>q < length (w_promises ?w). object_ok (live F ?w q) (w_promises ?w ! q)"
    by (auto simp: newPromise_def nth_append less_Suc_eq object_ok_def world_inv_def)
  moreover have "job_ok (Suc ?n) j" if "job_ok ?n j" for j using that by (cases j) auto
  ultimately have "world_inv F ?w" using i by (auto simp: world_inv_def newPromise_def less_SucI)
  moreover have "evolves w ?w" by (auto simp: evolves_def newPromise_def nth_append)
  ultimately show "world_inv F ?w \<and> evolves w ?w" by simp
qed (simp_all add: newPromise_def nth_append)

lemma createResolvingFunctions_ok:
  assumes i: "world_inv (F(p := Suc (F p))) w \<or> world_inv F w \<and> live F w p = 0 \<and> p < length (w_promises w) \<and> m_state (w_promises w ! p) = Pending"
  shows "world_inv F (snd (createResolvingFunctions p w)) \<and> evolves w (snd (createResolvingFunctions p w))"
proof -
  let ?w = "snd (createResolvingFunctions p w)"
  have w: "w_promises ?w = w_promises w" "w_jobs ?w = w_jobs w" "w_resolvers ?w = w_resolvers w @ [(p, False)]"
    by (simp_all add: createResolvingFunctions_def Let_def)
  have l: "live F ?w q = live F w q + (if q = p then 1 else 0)" for q using w by (simp add: live_def)
  have p: "p < length (w_promises w)" using i by (auto simp: world_inv_def split: if_splits)
  have f: "\<forall>q. 0 < F q \<longrightarrow> q < length (w_promises w)" using i p by (auto simp: world_inv_def split: if_splits)
  have "object_ok (live F ?w q) (w_promises w ! q)" if "q < length (w_promises w)" for q
    using i
  proof
    assume j: "world_inv (F(p := Suc (F p))) w"
    have "live (F(p := Suc (F p))) w q = live F ?w q" using l by (simp add: live_def)
    with inv_object [OF j that] show ?thesis by simp
  next
    assume j: "world_inv F w \<and> live F w p = 0 \<and> p < length (w_promises w) \<and> m_state (w_promises w ! p) = Pending"
    with inv_object [of F w q] that l show ?thesis by (auto simp: object_ok_def)
  qed
  moreover have "(\<forall>x \<in> set (w_resolvers w). fst x < length (w_promises w)) \<and> (\<forall>j \<in> set (w_jobs w). job_ok (length (w_promises w)) j)"
    using i by (auto simp: world_inv_def)
  ultimately have "world_inv F ?w" using w p f by (auto simp: world_inv_def)
  moreover have "evolves w ?w" using w by (auto simp: evolves_def nth_append)
  ultimately show ?thesis by simp
qed

lemma newPromiseCapability_ok:
  assumes "world_inv F w"
  shows "world_inv F (snd (newPromiseCapability w)) \<and> evolves w (snd (newPromiseCapability w))"
proof -
  let ?p = "fst (newPromise w)" and ?w = "snd (newPromise w)"
  have "newPromiseCapability w = createResolvingFunctions ?p ?w" by (simp add: newPromiseCapability_def split: prod.split)
  moreover have "world_inv F (snd (createResolvingFunctions ?p ?w)) \<and> evolves ?w (snd (createResolvingFunctions ?p ?w))"
    by (rule createResolvingFunctions_ok) (use newPromise_ok [OF assms] in auto)
  ultimately show ?thesis using newPromise_ok(1) [OF assms] evolves_trans by metis
qed

lemma resolver_first_call:
  assumes "world_inv F w" "r < length (w_resolvers w)" "\<not> snd (w_resolvers w ! r)"
  shows "world_inv (F(fst (w_resolvers w ! r) := Suc (F (fst (w_resolvers w ! r))))) (markResolved r w)" "evolves w (markResolved r w)"
  using markResolved_ok [OF assms(1,2), of "fst (w_resolvers w ! r)"] assms(3) by (metis prod.collapse)+

lemma promiseRejectFunctions_ok:
  assumes "world_inv F w" "r < length (w_resolvers w)"
  shows "world_inv F (promiseRejectFunctions r v w) \<and> evolves w (promiseRejectFunctions r v w)"
proof (cases "w_resolvers w ! r")
  case (Pair p b)
  show ?thesis
  proof (cases b)
    case False
    have "w_resolvers w ! r = (p, False)" using Pair False by simp
    note m = markResolved_ok [OF assms this]
    have "promiseRejectFunctions r v w = rejectPromise p v (markResolved r w)" by (simp add: promiseRejectFunctions_def Pair False)
    with settle_reject [of F p "markResolved r w" v] m evolves_trans show ?thesis by metis
  qed (use assms Pair in \<open>simp add: promiseRejectFunctions_def evolves_refl\<close>)
qed

lemma promiseResolveFunctions_value_ok:
  assumes "world_inv F w" "r < length (w_resolvers w)" "snd (w_resolvers w ! r) \<or> \<not> isObject v \<or> v = PromiseV (fst (w_resolvers w ! r))"
  shows "world_inv F (promiseResolveFunctions js r v w) \<and> evolves w (promiseResolveFunctions js r v w)"
proof (cases "w_resolvers w ! r")
  case (Pair p b)
  show ?thesis
  proof (cases b)
    case False
    have "w_resolvers w ! r = (p, False)" using Pair False by simp
    note m = markResolved_ok [OF assms(1,2) this]
    have d: "\<not> isObject v \<or> v = PromiseV p" using assms(3) Pair False by simp
    have e: "promiseResolveFunctions js r v w =
        (if v = PromiseV p then rejectPromise p (TypeErrorV ''Self resolution error'') (markResolved r w) else fulfillPromise p v (markResolved r w))"
      using d False by (cases "v = PromiseV p") (simp_all add: promiseResolveFunctions_def Pair Let_def)
    have "world_inv F (promiseResolveFunctions js r v w) \<and> evolves (markResolved r w) (promiseResolveFunctions js r v w)"
      unfolding e using settle_reject [OF conjunct1 [OF m]] settle_fulfill [OF conjunct1 [OF m]] by (simp only: split: if_split) blast
    then show ?thesis using evolves_trans [OF conjunct2 [OF m]] by (intro conjI; elim conjE)
  qed (use assms Pair in \<open>simp add: promiseResolveFunctions_def evolves_refl\<close>)
qed

text \<open>Whatever JavaScript code does, the invariant stays, and so do settled promises and waiting jobs.\<close>

lemma steps_ok:
  shows "step js w w' \<Longrightarrow> world_inv F w \<Longrightarrow> world_inv F w' \<and> evolves w w'"
    and "steps js w w' \<Longrightarrow> world_inv F w \<Longrightarrow> world_inv F w' \<and> evolves w w'"
proof (induction arbitrary: F and F rule: step_steps.inducts)
  case (step_resolve_object r w w2 v outcome)
  note m = resolver_first_call [OF step_resolve_object.prems step_resolve_object.hyps(1,2)]
  from step_resolve_object.IH m(1) have "world_inv (F(fst (w_resolvers w ! r) := Suc (F (fst (w_resolvers w ! r))))) w2 \<and> evolves (markResolved r w) w2"
    by blast
  with resolveWithThen_ok m(2) evolves_trans show ?case by metis
next
  case (steps_step w w1 w2)
  then show ?case by (blast intro: evolves_trans)
qed (simp_all add: newPromiseCapability_ok promiseThen_ok promiseRejectFunctions_ok promiseResolveFunctions_value_ok evolves_refl)

section \<open>Running jobs\<close>

lemma promiseResolveFunctions_steps:
  assumes "js_ok js" "r < length (w_resolvers w)"
  shows "steps js w (promiseResolveFunctions js r v w)"
proof (cases "snd (w_resolvers w ! r) \<or> \<not> isObject v \<or> v = PromiseV (fst (w_resolvers w ! r))")
  case True
  with assms show ?thesis by (intro step_steps step_resolve_value)
next
  case False
  have "steps js (markResolved r w) (snd (getThen js v (markResolved r w)))" using assms(1) by (simp add: js_ok_def)
  then have "step js w (resolveWithThen js (fst (w_resolvers w ! r)) v (fst (getThen js v (markResolved r w))) (snd (getThen js v (markResolved r w))))"
    using False assms(2) by (intro step_resolve_object) auto
  with False show ?thesis by (auto simp: promiseResolveFunctions_def Let_def intro!: step_steps split: prod.split)
qed

lemma callFunction_steps:
  assumes "js_ok js"
  shows "steps js w (snd (callFunction js f this args w))"
  using assms promiseResolveFunctions_steps [OF assms] step_steps [OF step_reject]
  by (auto simp: callFunction_def js_ok_def steps_refl split: JSValue.split)

lemma rejectReaction_steps: "js_ok js \<Longrightarrow> steps js w (snd (rejectReaction js c v w))"
  using callFunction_steps by (auto simp: rejectReaction_def steps_refl split: option.split)

lemma runReactionJob_steps:
  assumes "js_ok js" "reaction_ok r"
  shows "\<exists>res w'. runReactionJob js r v w = Some (res, w') \<and> steps js w w'"
proof -
  have call: "\<exists>res w'. callPointer js (Some f) args w = Some (res, w') \<and> steps js w w'" for f args w
    using callFunction_steps [OF assms(1)] by (simp add: callPointer_def) (metis prod.collapse)
  have fns: "(\<exists>f. c_resolveFunction (m_capability r) = Some f) \<and> (\<exists>f. c_rejectFunction (m_capability r) = Some f) \<or>
      c_promise (m_capability r) = None \<and> (\<exists>f. m_handler r = Callable f)"
    using assms(2) by (auto simp: reaction_ok_def capability_ok_def nullCapability_def)
  show ?thesis
  proof (cases "m_handler r")
    case (Callable f)
    obtain res w1 where c: "callFunction js f Undefined [v] w = (res, w1)" by fastforce
    with callFunction_steps [OF assms(1), of w f Undefined "[v]"] have s: "steps js w w1" by simp
    have rej: "\<exists>res w'. Some (rejectReaction js (m_capability r) reason w2) = Some (res, w') \<and> steps js w w'" if "steps js w w2" for reason w2
      using rejectReaction_steps [OF assms(1)] steps_trans [OF _ that] by (metis prod.collapse)
    show ?thesis
    proof (cases res)
      case (Inl reason)
      with rej [OF s] show ?thesis by (simp add: runReactionJob_def Callable c)
    next
      case (Inr x)
      show ?thesis
      proof (cases "c_promise (m_capability r) = None")
        case True
        with s show ?thesis by (simp add: runReactionJob_def Callable c Inr)
      next
        case False
        with fns obtain g where "c_resolveFunction (m_capability r) = Some g" by auto
        moreover obtain res2 w2 where c2: "callPointer js (Some g) [x] w1 = Some (res2, w2)" "steps js w1 w2" using call by blast
        moreover have "steps js w w2" using c2(2) s by (rule steps_trans)
        ultimately show ?thesis using rej False s by (cases res2) (auto simp: runReactionJob_def Callable c Inr Let_def)
      qed
    qed
  qed (use fns call in \<open>force simp: runReactionJob_def\<close>)+
qed

lemma runThenableJob_steps:
  assumes "js_ok js"
  shows "steps js (snd (createResolvingFunctions p w)) (snd (runThenableJob js p v t w))"
proof -
  obtain c w1 where c: "createResolvingFunctions p w = (c, w1)" by fastforce
  obtain res w2 where f: "callFunction js t v [the (c_resolveFunction c), the (c_rejectFunction c)] w1 = (res, w2)" by fastforce
  then have s: "steps js w1 w2" by (metis callFunction_steps [OF assms] snd_conv)
  show ?thesis
  proof (cases res)
    case (Inl reason)
    have "steps js w1 (snd (callFunction js (the (c_rejectFunction c)) Undefined [reason] w2))"
      by (rule steps_trans [OF callFunction_steps [OF assms] s])
    then show ?thesis by (simp add: runThenableJob_def c f Inl)
  qed (simp add: runThenableJob_def c f s)
qed

lemma pop_reaction:
  assumes "world_inv F w" "w_jobs w = PromiseReactionJob r v # rest"
  shows "world_inv F (w\<lparr>w_jobs := rest\<rparr>)" "reaction_ok r"
proof -
  have "live F (w\<lparr>w_jobs := rest\<rparr>) p = live F w p" for p using assms(2) by (simp add: live_def)
  then show "world_inv F (w\<lparr>w_jobs := rest\<rparr>)" "reaction_ok r" using assms by (auto simp: world_inv_def)
qed

lemma pop_thenable:
  assumes "world_inv F w" "w_jobs w = PromiseResolveThenableJob p v t # rest"
  shows "world_inv (F(p := Suc (F p))) (w\<lparr>w_jobs := rest\<rparr>)"
proof -
  have "live (F(p := Suc (F p))) (w\<lparr>w_jobs := rest\<rparr>) q = live F w q" for q using assms(2) by (simp add: live_def)
  moreover have "p < length (w_promises w)" using assms by (auto simp: world_inv_def)
  ultimately show ?thesis using assms by (auto simp: world_inv_def)
qed

text \<open>A job always runs to its end, and what it does is a sequence of operations.\<close>

lemma executePendingJob_ok:
  assumes "js_ok js" "world_inv F w" "w_jobs w = job # rest"
  shows "\<exists>w'. executePendingJob js w = Some w' \<and> world_inv F w' \<and> evolves (w\<lparr>w_jobs := rest\<rparr>) w'"
proof (cases job)
  case (PromiseReactionJob r v)
  note pop = pop_reaction [OF assms(2) assms(3) [unfolded PromiseReactionJob]]
  from runReactionJob_steps [OF assms(1) pop(2)] obtain res w' where
    r: "runReactionJob js r v (w\<lparr>w_jobs := rest\<rparr>) = Some (res, w')" "steps js (w\<lparr>w_jobs := rest\<rparr>) w'" by blast
  with steps_ok(2) [OF r(2) pop(1)] show ?thesis
    by (simp add: executePendingJob_def nextJob_def runJob_def assms(3) PromiseReactionJob)
next
  case (PromiseResolveThenableJob p v t)
  let ?w = "w\<lparr>w_jobs := rest\<rparr>" and ?c = "createResolvingFunctions p (w\<lparr>w_jobs := rest\<rparr>)"
  have c: "world_inv F (snd ?c)" "evolves ?w (snd ?c)"
    using createResolvingFunctions_ok [of F p ?w] pop_thenable [OF assms(2) assms(3) [unfolded PromiseResolveThenableJob]] by auto
  have "steps js (snd ?c) (snd (runThenableJob js p v t ?w))"
    by (rule runThenableJob_steps [OF assms(1)])
  with steps_ok(2) [OF this c(1)] evolves_trans [OF c(2)] show ?thesis
    by (auto simp: executePendingJob_def nextJob_def runJob_def assms(3) PromiseResolveThenableJob)
qed

text \<open>The host: it runs JavaScript code, and it runs the jobs one after another.\<close>

inductive host :: "JS \<Rightarrow> World \<Rightarrow> World \<Rightarrow> bool" for js :: JS where
  host_refl: "host js w w"
| host_script: "\<lbrakk>host js w w1; steps js w1 w2\<rbrakk> \<Longrightarrow> host js w w2"
| host_job: "\<lbrakk>host js w w1; executePendingJob js w1 = Some w2\<rbrakk> \<Longrightarrow> host js w w2"

text \<open>What the host keeps: all of \<open>evolves\<close> but the queue.\<close>

definition keeps :: "World \<Rightarrow> World \<Rightarrow> bool" where
  "keeps w w' \<longleftrightarrow> evolves (w\<lparr>w_jobs := []\<rparr>) w'"

lemma keeps_trans: "\<lbrakk>keeps w w1; keeps w1 w2\<rbrakk> \<Longrightarrow> keeps w w2"
  unfolding keeps_def evolves_def by simp

lemma evolves_keeps: "evolves (w\<lparr>w_jobs := x\<rparr>) w' \<Longrightarrow> keeps w w'" "evolves w w' \<Longrightarrow> keeps w w'"
  by (auto simp: keeps_def evolves_def)

lemma host_ok:
  assumes "host js w w'" "js_ok js" "world_inv (\<lambda>_. 0) w"
  shows "world_inv (\<lambda>_. 0) w' \<and> keeps w w'"
  using assms
proof (induction rule: host.induct)
  case (host_refl w)
  then show ?case using evolves_keeps(2) [OF evolves_refl] by simp
next
  case (host_script w w1 w2)
  then show ?case using steps_ok(2) evolves_keeps(2) keeps_trans by metis
next
  case (host_job w w1 w2)
  then obtain job rest where j: "w_jobs w1 = job # rest"
    by (auto simp: executePendingJob_def nextJob_def split: list.splits)
  from executePendingJob_ok [OF host_job.prems(1) _ j] host_job show ?case
    using evolves_keeps(1) keeps_trans by (metis option.sel)
qed

lemma emptyWorld_inv: "world_inv (\<lambda>_. 0) (emptyWorld b)"
  by (simp add: world_inv_def emptyWorld_def)

definition reachable :: "JS \<Rightarrow> World \<Rightarrow> bool" where
  "reachable js w \<longleftrightarrow> (\<exists>b. host js (emptyWorld b) w)"

lemma reachable_inv: "\<lbrakk>js_ok js; reachable js w\<rbrakk> \<Longrightarrow> world_inv (\<lambda>_. 0) w"
  using host_ok emptyWorld_inv by (auto simp: reachable_def)

lemma executePendingJobs_ok:
  assumes "js_ok js" "world_inv F w" "prefix (pre @ post) (w_jobs w)"
  shows "\<exists>w' rest. executePendingJobs js (length pre) w = Some w' \<and> world_inv F w' \<and> keeps w w' \<and> w_jobs w' = post @ rest"
  using assms(2,3)
proof (induction pre arbitrary: w)
  case Nil
  then show ?case using evolves_keeps(2) [OF evolves_refl] by (auto simp: prefix_def)
next
  case (Cons j pre)
  then obtain rest where j: "w_jobs w = j # rest" "prefix (pre @ post) rest" by (auto simp: prefix_def)
  from executePendingJob_ok [OF assms(1) Cons.prems(1) j(1)] obtain w1 where
    w1: "executePendingJob js w = Some w1" "world_inv F w1" "evolves (w\<lparr>w_jobs := rest\<rparr>) w1" by blast
  then have "prefix (pre @ post) (w_jobs w1)" using j(2) prefix_order.trans by (force simp: evolves_def)
  from Cons.IH [OF w1(2) this] w1 evolves_keeps(1) [OF w1(3)] keeps_trans show ?case by fastforce
qed


section \<open>Theorems\<close>

lemma host_trans: "host js w1 w2 \<Longrightarrow> host js w w1 \<Longrightarrow> host js w w2"
  by (induction rule: host.induct) (auto intro: host.intros)

lemma host_steps: "steps js w w' \<Longrightarrow> host js w w'"
  by (rule host_script [OF host_refl])

lemma reachable_host: "\<lbrakk>reachable js w; host js w w'\<rbrakk> \<Longrightarrow> reachable js w'"
  unfolding reachable_def by (blast intro: host_trans)

lemma reachable_keeps: "\<lbrakk>js_ok js; reachable js w; host js w w'\<rbrakk> \<Longrightarrow> keeps w w'"
  using host_ok reachable_inv by blast

text \<open>Calling one function of a pair marks the pair as used.\<close>

lemma called_marks:
  assumes js: "js_ok js" and w: "reachable js w" and r: "r < length (w_resolvers w)" and f: "f = ResolveFn r \<or> f = RejectFn r"
  shows "r < length (w_resolvers (snd (callFunction js f this args w)))" "snd (w_resolvers (snd (callFunction js f this args w)) ! r)"
proof -
  let ?w = "snd (callFunction js f this args w)" and ?p = "fst (w_resolvers w ! r)"
  have inv: "world_inv (\<lambda>_. 0) w" by (rule reachable_inv [OF js w])
  have ext: "evolves w ?w" using steps_ok(2) [OF callFunction_steps [OF js] inv] by simp
  then show "r < length (w_resolvers ?w)" using r by (simp add: evolves_def)
  show "snd (w_resolvers ?w ! r)"
  proof (cases "snd (w_resolvers w ! r)")
    case True
    then show ?thesis using ext r by (simp add: evolves_def)
  next
    case False
    note m = resolver_first_call [OF inv r False]
    have p: "?p < length (w_promises w)" using inv r by (simp add: world_inv_def)
    have mark: "snd (w_resolvers (markResolved r w) ! r)" using r by (simp add: markResolved_def)
    have keep: "snd (w_resolvers w' ! r)" if "evolves (markResolved r w) w'" for w'
      using that mark r by (simp add: evolves_def markResolved_def)
    let ?g = "getThen js (arg0 args) (markResolved r w)"
    have g: "evolves (markResolved r w) (snd ?g)" "world_inv ((\<lambda>_. 0)(?p := Suc 0)) (snd ?g)"
      using steps_ok(2) [OF _ m(1), of js "snd ?g"] js by (auto simp: js_ok_def)
    have "evolves (markResolved r w) (promiseResolveFunctions js r (arg0 args) w)"
      using False settle_reject [OF m(1)] settle_fulfill [OF m(1)] evolves_trans [OF g(1)] resolveWithThen_ok [of "\<lambda>_. 0" ?p] g(2)
      by (auto simp: promiseResolveFunctions_def Let_def split: prod.split)
    moreover have "evolves (markResolved r w) (promiseRejectFunctions r (arg0 args) w)"
      using False settle_reject [OF m(1)] by (auto simp: promiseRejectFunctions_def Let_def split: prod.split)
    ultimately show ?thesis using f r keep by (auto simp: callFunction_def)
  qed
qed

text \<open>JavaScript code for the examples: \<open>then\<close> is not callable, a call makes a new promise.\<close>

definition exampleJS :: JS where
  "exampleJS = \<lparr>getThen = (\<lambda>v w. (Inr Undefined, w)), callJS = (\<lambda>f this args w. (Inr Undefined, snd (newPromiseCapability w))),
     callableObj = (\<lambda>n. n = 0)\<rparr>"

definition exampleWorld :: World where
  "exampleWorld = snd (newPromiseCapability (emptyWorld True))"

lemma exampleJS_ok: "js_ok exampleJS"
  by (simp add: js_ok_def exampleJS_def steps_refl step_steps [OF step_new])

lemma exampleWorld_reachable: "reachable exampleJS exampleWorld"
  unfolding reachable_def exampleWorld_def by (intro exI [of _ True] host_steps step_steps step_new)

lemma exampleWorld_simps:
  "length (w_resolvers exampleWorld) = 1" "length (w_promises exampleWorld) = 1" "w_resolvers exampleWorld ! 0 = (0, False)"
  "m_state (w_promises exampleWorld ! 0) = Pending" "w_jobs exampleWorld = []"
  by (simp_all add: exampleWorld_def newPromiseCapability_def newPromise_def createResolvingFunctions_def emptyWorld_def Let_def)

lemmas example_facts = exampleJS_ok exampleWorld_reachable exampleWorld_simps

text \<open>The example promise after it is resolved with 5.\<close>

definition exampleResolved :: World where
  "exampleResolved = snd (callFunction exampleJS (ResolveFn 0) Undefined [Prim 5] exampleWorld)"

lemma exampleResolved_facts:
  "reachable exampleJS exampleResolved" "length (w_promises exampleResolved) = 1"
  "m_state (w_promises exampleResolved ! 0) = FulFilled" "m_promiseResult (w_promises exampleResolved ! 0) = Prim 5"
proof -
  show "reachable exampleJS exampleResolved" unfolding exampleResolved_def
    by (rule reachable_host [OF exampleWorld_reachable host_steps]) (rule callFunction_steps [OF exampleJS_ok])
qed (simp_all add: exampleResolved_def callFunction_def promiseResolveFunctions_def arg0_def exampleWorld_simps Let_def markResolved_def)

text \<open>C28: Once a promise is fulfilled or rejected, nothing changes it: whatever scripts, handlers and jobs run after that, its state
  and its result stay. The premise on JavaScript code is that it changes promises only by calling the operations.\<close>

theorem settled_promise_never_changes:
  assumes "js_ok js" and "reachable js w" and "p < length (w_promises w)" and "m_state (w_promises w ! p) \<noteq> Pending" and "host js w w'"
  shows "w_promises w' ! p = w_promises w ! p"
  using reachable_keeps [OF assms(1,2,5)] assms(3,4) by (simp add: keeps_def evolves_def)

theorem settled_promise_never_changes_witness:
  "m_promiseResult (w_promises (snd (callFunction exampleJS (RejectFn 0) Undefined [Prim 6] exampleResolved)) ! 0) = Prim 5"
  using settled_promise_never_changes [OF exampleJS_ok exampleResolved_facts(1), of 0
      "snd (callFunction exampleJS (RejectFn 0) Undefined [Prim 6] exampleResolved)"]
  by (simp add: exampleResolved_facts host_steps callFunction_steps [OF exampleJS_ok])

text \<open>C29: A pair of resolving functions works once: after either function of the pair was called, with any arguments, both
  functions do nothing in every later state.\<close>

theorem resolving_pair_works_once:
  assumes js: "js_ok js" and w: "reachable js w" and r: "r < length (w_resolvers w)" and f: "f = ResolveFn r \<or> f = RejectFn r"
    and h: "host js (snd (callFunction js f this args w)) w'"
  shows "promiseResolveFunctions js r v w' = w' \<and> promiseRejectFunctions r v w' = w'"
proof -
  let ?w = "snd (callFunction js f this args w)"
  have "reachable js ?w" by (rule reachable_host [OF w host_steps [OF callFunction_steps [OF js]]])
  from reachable_keeps [OF js this h] have "snd (w_resolvers w' ! r)"
    using called_marks [OF js w r f] by (simp add: keeps_def evolves_def)
  then show ?thesis by (auto simp: promiseResolveFunctions_def promiseRejectFunctions_def split: prod.split)
qed

theorem resolving_pair_works_once_witness:
  "promiseResolveFunctions exampleJS 0 (Prim 6) exampleResolved = exampleResolved \<and>
   promiseRejectFunctions 0 (Prim 6) exampleResolved = exampleResolved"
  using resolving_pair_works_once [OF exampleJS_ok exampleWorld_reachable, of 0 "ResolveFn 0" Undefined "[Prim 5]" exampleResolved "Prim 6"]
  by (simp add: example_facts exampleResolved_def host_refl)

text \<open>C30: In every reachable state a promise has at most one way left to be settled: one pair of resolving functions that was not
  called, or one waiting thenable job that will make such a pair; a settled promise has none and its reaction lists are paired.\<close>

theorem at_most_one_settler:
  assumes "js_ok js" and "reachable js w" and "p < length (w_promises w)"
  shows "count_list (w_resolvers w) (p, False) + count_list (map jobTarget (w_jobs w)) (Some p) \<le>
      (if m_state (w_promises w ! p) = Pending then 1 else 0) \<and>
    length (m_fulfillReactions (w_promises w ! p)) = length (m_rejectReactions (w_promises w ! p))"
proof -
  have ok: "object_ok (live (\<lambda>_. 0) w p) (w_promises w ! p)" by (rule inv_object [OF reachable_inv [OF assms(1,2)] assms(3)])
  then have "length (m_fulfillReactions (w_promises w ! p)) = length (m_rejectReactions (w_promises w ! p))"
    by (auto simp: object_ok_def dest: map_eq_imp_length_eq)
  with ok show ?thesis by (auto simp: object_ok_def live_def)
qed

theorem at_most_one_settler_witness: "count_list (w_resolvers exampleWorld) (0, False) \<le> 1"
  using at_most_one_settler [OF exampleJS_ok exampleWorld_reachable, of 0] by (simp add: exampleWorld_simps)

text \<open>No job fails: in every reachable state with a waiting job, running the job ends, without a call of a null handler or a null
  capability function, and it leaves the jobs that wait behind it in their order.\<close>

theorem pending_job_always_runs:
  assumes "js_ok js" and "reachable js w" and "hasNextJob w"
  shows "\<exists>w'. executePendingJob js w = Some w' \<and> prefix (tl (w_jobs w)) (w_jobs w')"
proof -
  obtain job rest where j: "w_jobs w = job # rest" using assms(3) by (cases "w_jobs w") (auto simp: hasNextJob_def)
  from executePendingJob_ok [OF assms(1) reachable_inv [OF assms(1,2)] j] show ?thesis by (auto simp: evolves_def j)
qed

theorem pending_job_always_runs_witness:
  "\<exists>w'. executePendingJob exampleJS (snd (thenOperation exampleJS 0 (Obj 0) exampleResolved)) = Some w'"
proof -
  let ?w = "snd (thenOperation exampleJS 0 (Obj 0) exampleResolved)"
  let ?c = "newPromiseCapability exampleResolved"
  have e: "?w = snd (promiseThen exampleJS 0 (Obj 0) Undefined (Some (fst ?c)) (snd ?c))"
    by (simp add: thenOperation_def split: prod.split)
  have c: "capability_ok (fst ?c)" "w_promises (snd ?c) ! 0 = w_promises exampleResolved ! 0" "length (w_promises (snd ?c)) = 2"
    using exampleResolved_facts(2)
    by (simp_all add: newPromiseCapability_def newPromise_def createResolvingFunctions_def Let_def capability_ok_def nth_append)
  have "step exampleJS (snd ?c) ?w" unfolding e by (rule step_then) (use c in \<open>simp_all add: then_ok_def\<close>)
  then have "reachable exampleJS ?w"
    using reachable_host [OF exampleResolved_facts(1) host_steps [OF steps_step [OF step_steps [OF step_new]]]] by blast
  moreover have "hasNextJob ?w"
    unfolding e using c(2) exampleResolved_facts(3) by (simp add: promiseThen_def hasNextJob_def enqueueJob_def Let_def)
  ultimately show ?thesis using pending_job_always_runs [OF exampleJS_ok] by blast
qed

text \<open>The reactions of a promise that waits only grow at their end.\<close>

definition grows :: "World \<Rightarrow> World \<Rightarrow> bool" where
  "grows w w' \<longleftrightarrow> length (w_promises w) \<le> length (w_promises w') \<and>
     (\<forall>p < length (w_promises w). m_state (w_promises w' ! p) = Pending \<longrightarrow> m_state (w_promises w ! p) = Pending \<and>
        prefix (m_fulfillReactions (w_promises w ! p)) (m_fulfillReactions (w_promises w' ! p)) \<and>
        prefix (m_rejectReactions (w_promises w ! p)) (m_rejectReactions (w_promises w' ! p)))"

lemma grows_trans: "\<lbrakk>grows w w1; grows w1 w2\<rbrakk> \<Longrightarrow> grows w w2"
  unfolding grows_def by (meson less_le_trans order.trans prefix_order.trans)

lemma nth_updated: "i < length xs \<Longrightarrow> xs[p := y] ! i = (if p = i then y else xs ! i)"
  by simp

lemma grows_same: "w_promises w' = w_promises w \<Longrightarrow> grows w w'"
  by (simp add: grows_def)

lemma grows_setPromise:
  assumes "m_state (f (w_promises w ! p)) = Pending \<Longrightarrow> m_state (w_promises w ! p) = Pending \<and>
    prefix (m_fulfillReactions (w_promises w ! p)) (m_fulfillReactions (f (w_promises w ! p))) \<and>
    prefix (m_rejectReactions (w_promises w ! p)) (m_rejectReactions (f (w_promises w ! p)))"
  shows "grows w (setPromise p f w)"
  using assms by (auto simp: grows_def setPromise_def nth_updated split: if_splits)

lemma grows_settled:
  assumes "w_promises w' = (w_promises w)[p := obj]" "m_state obj \<noteq> Pending"
  shows "grows w w'"
  using assms by (auto simp: grows_def nth_updated split: if_splits)

lemma settle_promises:
  "\<exists>obj. w_promises (fulfillPromise p v w) = (w_promises w)[p := obj] \<and> m_state obj \<noteq> Pending"
  "\<exists>obj. w_promises (rejectPromise p v w) = (w_promises w)[p := obj] \<and> m_state obj \<noteq> Pending"
proof -
  let ?o = "\<lambda>s. \<lparr>m_state = s, m_promiseResult = v, m_fulfillReactions = [], m_rejectReactions = []\<rparr>"
  have out: "w_promises (fulfillPromise p v w) = w_promises w" "w_promises (rejectPromise p v w) = w_promises w" if "\<not> p < length (w_promises w)"
    using that by (simp_all add: fulfillPromise_def rejectPromise_def triggerPromiseReactions_eq triggerPromiseRejectCallback_def setPromise_def Let_def list_update_beyond)
  show "\<exists>obj. w_promises (fulfillPromise p v w) = (w_promises w)[p := obj] \<and> m_state obj \<noteq> Pending"
    by (cases "p < length (w_promises w)") (rule exI [of _ "?o FulFilled"], simp add: out list_update_beyond)+
  show "\<exists>obj. w_promises (rejectPromise p v w) = (w_promises w)[p := obj] \<and> m_state obj \<noteq> Pending"
    by (cases "p < length (w_promises w)") (rule exI [of _ "?o Rejected"], simp add: out list_update_beyond)+
qed

lemma grows_settle: "grows w (fulfillPromise p v w)" "grows w (rejectPromise p v w)"
  using settle_promises grows_settled by blast+

lemma grows_operations:
  "grows w (snd (newPromiseCapability w))" "grows w (snd (createResolvingFunctions p w))" "grows w (snd (promiseThen js p f g cap w))"
  "grows w (promiseRejectFunctions r v w)" "grows w (resolveWithThen js p v outcome w)" "grows w (markResolved r w)"
proof -
  show "grows w (snd (newPromiseCapability w))"
    by (auto simp: grows_def newPromiseCapability_def newPromise_def createResolvingFunctions_def Let_def nth_append)
  show "grows w (snd (createResolvingFunctions p w))" by (rule grows_same) (simp add: createResolvingFunctions_def Let_def)
  have "grows w (appendReaction p a b c w)" for a b c unfolding appendReaction_def by (rule grows_setPromise) simp
  then show "grows w (snd (promiseThen js p f g cap w))"
    by (auto simp: promiseThen_def enqueueJob_def triggerPromiseRejectCallback_def Let_def intro: grows_same split: PromiseState.split)
  show m: "grows w (markResolved r w)" for w by (rule grows_same) (simp add: markResolved_def)
  show "grows w (promiseRejectFunctions r v w)"
    using grows_trans [OF m grows_settle(2)] by (auto simp: promiseRejectFunctions_def intro: grows_same split: prod.split)
  show "grows w (resolveWithThen js p v outcome w)"
    using grows_settle by (auto simp: resolveWithThen_def enqueueJob_def intro: grows_same split: sum.split)
qed

lemma grows_resolve_value:
  assumes "snd (w_resolvers w ! r) \<or> \<not> isObject v \<or> v = PromiseV (fst (w_resolvers w ! r))"
  shows "grows w (promiseResolveFunctions js r v w)"
proof -
  obtain p b where r: "w_resolvers w ! r = (p, b)" by fastforce
  have "grows w (fulfillPromise p v (markResolved r w))" "grows w (rejectPromise p x (markResolved r w))" for x
    by (rule grows_trans [OF grows_operations(6)], rule grows_settle)+
  then show ?thesis using assms r by (auto simp: promiseResolveFunctions_def Let_def grows_same)
qed

lemma steps_grow: "step js w w' \<Longrightarrow> grows w w'" "steps js w w' \<Longrightarrow> grows w w'"
proof (induction rule: step_steps.inducts)
  case (step_new w)
  show ?case by (rule grows_operations)
next
  case (step_then p w f g cap)
  show ?case by (rule grows_operations)
next
  case (step_reject r w v)
  show ?case by (rule grows_operations)
next
  case (step_resolve_value r w v)
  then show ?case by (intro grows_resolve_value)
next
  case (step_resolve_object r w w2 v outcome)
  then show ?case by (intro grows_trans [OF grows_trans [OF grows_operations(6)] grows_operations(5)])
next
  case (steps_refl w)
  show ?case by (rule grows_same) simp
next
  case (steps_step w w1 w2)
  from steps_step.IH(2,4) show ?case by (rule grows_trans)
qed

lemma executePendingJob_grows:
  assumes "js_ok js" "world_inv F w" "executePendingJob js w = Some w'"
  shows "grows w w'"
proof -
  obtain job rest where j: "w_jobs w = job # rest" using assms(3) by (auto simp: executePendingJob_def nextJob_def split: list.splits)
  let ?w = "w\<lparr>w_jobs := rest\<rparr>"
  have s: "grows w ?w" by (rule grows_same) simp
  show ?thesis
  proof (cases job)
    case (PromiseReactionJob r v)
    from runReactionJob_steps [OF assms(1) pop_reaction(2) [OF assms(2) j [unfolded PromiseReactionJob]], of v ?w] obtain res w1 where
      "runReactionJob js r v ?w = Some (res, w1)" "steps js ?w w1" by blast
    then show ?thesis using assms(3) grows_trans [OF s steps_grow(2)] by (auto simp: executePendingJob_def nextJob_def runJob_def j PromiseReactionJob)
  next
    case (PromiseResolveThenableJob p v t)
    have "grows ?w (snd (runThenableJob js p v t ?w))" by (rule grows_trans [OF grows_operations(2) steps_grow(2) [OF runThenableJob_steps [OF assms(1)]]])
    then show ?thesis using assms(3) grows_trans [OF s] by (auto simp: executePendingJob_def nextJob_def runJob_def j PromiseResolveThenableJob)
  qed
qed

lemma host_grows:
  assumes "host js w w'" "js_ok js" "world_inv (\<lambda>_. 0) w"
  shows "grows w w'"
  using assms
proof (induction rule: host.induct)
  case (host_job w w1 w2)
  then show ?case using host_ok executePendingJob_grows grows_trans by metis
next
  case (host_script w w1 w2)
  then show ?case using grows_trans steps_grow(2) by metis
qed (simp add: grows_same)

text \<open>
  The history of a promise: calls of \<open>then\<close>, in their order, with anything else that the host does between them. The reactions that a call
  stands for are those of \<open>PerformPromiseThen\<close> in ECMA-262.
\<close>

type_synonym then_call = "JSValue \<times> JSValue \<times> Capability option"

inductive thenHistory :: "JS \<Rightarrow> nat \<Rightarrow> World \<Rightarrow> then_call list \<Rightarrow> World \<Rightarrow> bool" for js :: JS and p :: nat and w0 :: World where
  history_start: "thenHistory js p w0 [] w0"
| history_other: "\<lbrakk>thenHistory js p w0 calls w; host js w w'\<rbrakk> \<Longrightarrow> thenHistory js p w0 calls w'"
| history_call: "\<lbrakk>thenHistory js p w0 calls w; p < length (w_promises w); m_state (w_promises w ! p) = Pending; then_ok js f g cap\<rbrakk>
    \<Longrightarrow> thenHistory js p w0 (calls @ [(f, g, cap)]) (snd (promiseThen js p f g cap w))"

definition reactionOf :: "JS \<Rightarrow> bool \<Rightarrow> then_call \<Rightarrow> PromiseReaction" where
  "reactionOf js fulfilled call = (case call of (f, g, cap) \<Rightarrow>
     \<lparr>m_capability = (case cap of Some c \<Rightarrow> c | None \<Rightarrow> nullCapability),
      m_handler = (if fulfilled then if isCallable js f then Callable f else Identity else if isCallable js g then Callable g else Thrower)\<rparr>)"

lemma history_host: "thenHistory js p w0 calls w \<Longrightarrow> host js w0 w"
proof (induction rule: thenHistory.induct)
  case (history_call calls w f g cap)
  then show ?case using host_trans [OF host_steps [OF step_steps [OF step_then]]] by blast
qed (auto intro: host_refl host_trans)

lemma then_appends:
  assumes "p < length (w_promises w)" "m_state (w_promises w ! p) = Pending"
  shows "m_fulfillReactions (w_promises (snd (promiseThen js p f g cap w)) ! p) = m_fulfillReactions (w_promises w ! p) @ [reactionOf js True (f, g, cap)]"
    "m_rejectReactions (w_promises (snd (promiseThen js p f g cap w)) ! p) = m_rejectReactions (w_promises w ! p) @ [reactionOf js False (f, g, cap)]"
  using assms by (simp_all add: promiseThen_def appendReaction_def setPromise_def reactionOf_def Let_def)

lemma subseq_prefix: "subseq xs ys \<Longrightarrow> prefix ys zs \<Longrightarrow> subseq xs zs"
  by (auto simp: prefix_def intro: subseq_rev_drop_many)

lemma history_reactions:
  assumes "thenHistory js p w0 calls w" "js_ok js" "reachable js w0" "p < length (w_promises w0)" "m_state (w_promises w ! p) = Pending"
  shows "subseq (map (reactionOf js True) calls) (m_fulfillReactions (w_promises w ! p)) \<and> subseq (map (reactionOf js False) calls) (m_rejectReactions (w_promises w ! p))"
  using assms
proof (induction rule: thenHistory.induct)
  case history_start
  then show ?case by simp
next
  case (history_other calls w w')
  have r: "world_inv (\<lambda>_. 0) w" using history_other.prems history_host [OF history_other.hyps(1)] reachable_inv reachable_host by blast
  have "p < length (w_promises w)" using host_grows [OF history_host [OF history_other.hyps(1)]] history_other.prems reachable_inv by (auto simp: grows_def)
  then have "m_state (w_promises w ! p) = Pending" "prefix (m_fulfillReactions (w_promises w ! p)) (m_fulfillReactions (w_promises w' ! p))"
    "prefix (m_rejectReactions (w_promises w ! p)) (m_rejectReactions (w_promises w' ! p))"
    using host_grows [OF history_other.hyps(2) history_other.prems(1) r] history_other.prems(4) by (auto simp: grows_def)
  then show ?case using history_other.IH history_other.prems subseq_prefix by blast
next
  case (history_call calls w f g cap)
  then show ?case using then_appends [OF history_call.hyps(2,3)] by (simp add: list_emb_append_mono)
qed

lemma settled_jobs:
  assumes js: "js_ok js" and inv: "world_inv (\<lambda>_. 0) w'" and p: "p < length (w_promises w')" and jobs: "w_jobs w' = old @ new" and s: "m_state (w_promises w' ! p) \<noteq> Pending"
  shows "\<exists>w2 rest. executePendingJobs js (length old) w' = Some w2 \<and> w_jobs w2 = new @ rest \<and> w_promises w2 ! p = w_promises w' ! p"
proof -
  from executePendingJobs_ok [OF js inv, of old new] jobs obtain w2 rest where
    "executePendingJobs js (length old) w' = Some w2" "keeps w' w2" "w_jobs w2 = new @ rest" by auto
  then show ?thesis using p s by (auto simp: keeps_def evolves_def)
qed

text \<open>C31: Let scripts call \<open>then\<close> on a promise any number of times, with anything between the calls, jobs included, and let the promise then be
  resolved with a value that is not an object, or rejected. It is settled with the value. Once the jobs that were waiting before have run, the jobs of all reactions
  that the promise had are at the front of the queue, each with the value, and among them one for each of the calls of \<open>then\<close>, in the order of the calls: with the handler for
  fulfilment if it was resolved, and with that for rejection if it was rejected.\<close>

theorem reactions_run_in_order:
  assumes js: "js_ok js" and w0: "reachable js w0" "p < length (w_promises w0)" and calls: "thenHistory js p w0 calls w"
    and r: "r < length (w_resolvers w)" "w_resolvers w ! r = (p, False)" and v: "\<not> isObject v"
  shows "(\<exists>w' reactions rest. executePendingJobs js (length (w_jobs w)) (promiseResolveFunctions js r v w) = Some w' \<and>
      w_jobs w' = map (\<lambda>reaction. PromiseReactionJob reaction v) reactions @ rest \<and> reactions = m_fulfillReactions (w_promises w ! p) \<and>
      subseq (map (reactionOf js True) calls) reactions \<and> m_state (w_promises w' ! p) = FulFilled \<and> m_promiseResult (w_promises w' ! p) = v) \<and>
    (\<exists>w' reactions rest. executePendingJobs js (length (w_jobs w)) (promiseRejectFunctions r reason w) = Some w' \<and>
      w_jobs w' = map (\<lambda>reaction. PromiseReactionJob reaction reason) reactions @ rest \<and> reactions = m_rejectReactions (w_promises w ! p) \<and>
      subseq (map (reactionOf js False) calls) reactions \<and> m_state (w_promises w' ! p) = Rejected \<and> m_promiseResult (w_promises w' ! p) = reason)"
proof -
  have w: "reachable js w" by (rule reachable_host [OF w0(1) history_host [OF calls]])
  have inv: "world_inv (\<lambda>_. 0) w" by (rule reachable_inv [OF js w])
  have p: "p < length (w_promises w)" using inv r nth_mem [OF r(1)] by (force simp: world_inv_def)
  have "count_list (w_resolvers w) (p, False) \<noteq> 0" using r nth_mem [OF r(1)] by (metis count_list_0_iff)
  then have "0 < live (\<lambda>_. 0) w p" by (simp add: live_def)
  then have "m_state (w_promises w ! p) = Pending" using inv_object [OF inv p] by (auto simp: object_ok_def)
  from history_reactions [OF calls js w0 this]
  have sub: "subseq (map (reactionOf js True) calls) (m_fulfillReactions (w_promises w ! p))" "subseq (map (reactionOf js False) calls) (m_rejectReactions (w_promises w ! p))"
    by simp_all
  have m: "p < length (w_promises (markResolved r w))" "w_promises (markResolved r w) = w_promises w" "w_jobs (markResolved r w) = w_jobs w"
    using p by (simp_all add: markResolved_def)
  have "v \<noteq> PromiseV p" using v by auto
  then have e: "promiseResolveFunctions js r v w = fulfillPromise p v (markResolved r w)" "promiseRejectFunctions r reason w = rejectPromise p reason (markResolved r w)"
    using r v by (simp_all add: promiseResolveFunctions_def promiseRejectFunctions_def Let_def)
  have i: "world_inv (\<lambda>_. 0) (promiseResolveFunctions js r v w)" "world_inv (\<lambda>_. 0) (promiseRejectFunctions r reason w)"
    using promiseResolveFunctions_value_ok [OF inv r(1)] promiseRejectFunctions_ok [OF inv r(1)] v by blast+
  note f = fulfillPromise_effect [OF m(1), of v, folded e(1), unfolded m(2,3)] and g = rejectPromise_effect [OF m(1), of reason, folded e(2), unfolded m(2,3)]
  have "\<exists>w' rest. executePendingJobs js (length (w_jobs w)) (promiseResolveFunctions js r v w) = Some w' \<and>
      w_jobs w' = map (\<lambda>x. PromiseReactionJob x v) (m_fulfillReactions (w_promises w ! p)) @ rest \<and> w_promises w' ! p = w_promises (promiseResolveFunctions js r v w) ! p"
    by (rule settled_jobs [OF js i(1) _ f(3)]) (use p f(1) in simp_all)
  moreover have "\<exists>w' rest. executePendingJobs js (length (w_jobs w)) (promiseRejectFunctions r reason w) = Some w' \<and>
      w_jobs w' = map (\<lambda>x. PromiseReactionJob x reason) (m_rejectReactions (w_promises w ! p)) @ rest \<and> w_promises w' ! p = w_promises (promiseRejectFunctions r reason w) ! p"
    by (rule settled_jobs [OF js i(2) _ g(3)]) (use p g(1) in simp_all)
  ultimately show ?thesis using sub p f(1) g(1) by auto
qed

text \<open>Two promises. The second is resolved while a reaction waits for it, so that a job waits; \<open>then\<close> is called twice on the first, with a new promise made between the
  calls; then the first is resolved.\<close>

definition exampleCapability :: Capability where
  "exampleCapability = \<lparr>c_promise = Some (PromiseV 1), c_resolveFunction = Some (ResolveFn 1), c_rejectFunction = Some (RejectFn 1)\<rparr>"

definition exampleWaiting :: World where
  "exampleWaiting = promiseResolveFunctions exampleJS 1 (Prim 7)
     (snd (promiseThen exampleJS 1 (Obj 0) Undefined (Some exampleCapability) (snd (newPromiseCapability exampleWorld))))"

definition exampleCalls :: "then_call list" where
  "exampleCalls = [(Obj 0, Undefined, Some exampleCapability), (Undefined, Obj 0, Some exampleCapability)]"

definition exampleHistory :: World where
  "exampleHistory = snd (promiseThen exampleJS 0 Undefined (Obj 0) (Some exampleCapability)
     (snd (newPromiseCapability (snd (promiseThen exampleJS 0 (Obj 0) Undefined (Some exampleCapability) exampleWaiting)))))"

lemmas example_operations = newPromiseCapability_def newPromise_def createResolvingFunctions_def emptyWorld_def promiseThen_def appendReaction_def setPromise_def
  promiseResolveFunctions_def markResolved_def fulfillPromise_def triggerPromiseReactions_def clearReactions_def enqueueJob_def Let_def

lemma exampleWaiting_facts:
  "length (w_promises exampleWaiting) = 2" "w_resolvers exampleWaiting = [(0, False), (1, True)]" "m_state (w_promises exampleWaiting ! 0) = Pending"
  "length (w_jobs exampleWaiting) = 1"
  by (simp_all add: exampleWaiting_def exampleWorld_def example_operations)

lemma exampleWaiting_reachable: "reachable exampleJS exampleWaiting"
proof -
  let ?w1 = "snd (newPromiseCapability exampleWorld)" and ?w2 = "snd (promiseThen exampleJS 1 (Obj 0) Undefined (Some exampleCapability) (snd (newPromiseCapability exampleWorld)))"
  have "1 < length (w_promises ?w1)" "then_ok exampleJS (Obj 0) Undefined (Some exampleCapability)" "1 < length (w_resolvers ?w2)"
    by (simp_all add: then_ok_def capability_ok_def exampleCapability_def exampleWorld_def example_operations)
  then have "steps exampleJS exampleWorld ?w2" "step exampleJS ?w2 exampleWaiting" unfolding exampleWaiting_def
    by (auto intro!: steps_step [OF step_steps [OF step_new] step_then] step_resolve_value)
  then show ?thesis using reachable_host [OF exampleWorld_reachable host_steps [OF steps_step]] by blast
qed

lemma exampleHistory_calls: "thenHistory exampleJS 0 exampleWaiting exampleCalls exampleHistory"
proof -
  let ?w1 = "snd (promiseThen exampleJS 0 (Obj 0) Undefined (Some exampleCapability) exampleWaiting)"
  have ok: "then_ok exampleJS f g (Some exampleCapability)" for f g by (simp add: then_ok_def capability_ok_def exampleCapability_def)
  have "thenHistory exampleJS 0 exampleWaiting ([] @ [(Obj 0, Undefined, Some exampleCapability)]) ?w1"
    by (rule history_call [OF history_start]) (use exampleWaiting_facts ok in simp_all)
  then have h: "thenHistory exampleJS 0 exampleWaiting ([] @ [(Obj 0, Undefined, Some exampleCapability)]) (snd (newPromiseCapability ?w1))"
    by (rule history_other) (intro host_steps step_steps step_new)
  have "m_state (w_promises (snd (newPromiseCapability ?w1)) ! 0) = Pending" "0 < length (w_promises (snd (newPromiseCapability ?w1)))"
    by (simp_all add: exampleWaiting_def exampleWorld_def example_operations)
  from history_call [OF h this(2,1) ok, of Undefined "Obj 0"] show ?thesis by (simp add: exampleCalls_def exampleHistory_def)
qed

theorem reactions_run_in_order_witness:
  "\<exists>w' rest. executePendingJobs exampleJS 1 (promiseResolveFunctions exampleJS 0 (Prim 5) exampleHistory) = Some w' \<and>
    w_jobs w' = [PromiseReactionJob \<lparr>m_capability = exampleCapability, m_handler = Callable (Obj 0)\<rparr> (Prim 5),
      PromiseReactionJob \<lparr>m_capability = exampleCapability, m_handler = Identity\<rparr> (Prim 5)] @ rest"
proof -
  have "0 < length (w_resolvers exampleHistory)" "w_resolvers exampleHistory ! 0 = (0, False)" "length (w_jobs exampleHistory) = 1"
    "m_fulfillReactions (w_promises exampleHistory ! 0) = map (reactionOf exampleJS True) exampleCalls" "0 < length (w_promises exampleWaiting)"
    by (simp_all add: exampleHistory_def exampleWaiting_def exampleWorld_def exampleCalls_def reactionOf_def exampleJS_def example_operations)
  then show ?thesis using conjunct1 [OF reactions_run_in_order [OF exampleJS_ok exampleWaiting_reachable _ exampleHistory_calls, of 0 "Prim 5"]]
    by (auto simp: exampleCalls_def reactionOf_def exampleJS_def)
qed

text \<open>A promise made by \<open>new Promise(executor)\<close> and the calls of \<open>then\<close> and \<open>catch\<close> are operations that a script can do.\<close>

lemma thenOperation_steps:
  assumes "p < length (w_promises w)"
  shows "steps js w (snd (thenOperation js p f w))" "steps js w (snd (catchOperation js p f w))"
proof -
  obtain c w1 where c: "newPromiseCapability w = (c, w1)" by fastforce
  then have w1: "step js w w1" by (metis step_new snd_conv)
  have "capability_ok c" "p < length (w_promises w1)"
    using c assms by (auto simp: newPromiseCapability_def newPromise_def createResolvingFunctions_def Let_def capability_ok_def)
  then show "steps js w (snd (thenOperation js p f w))" "steps js w (snd (catchOperation js p f w))"
    using steps_step [OF step_steps [OF w1] step_then] by (simp_all add: thenOperation_def catchOperation_def c then_ok_def)
qed

lemma promiseConstructor_steps:
  assumes "js_ok js"
  shows "steps js w (snd (promiseConstructor js b f w))"
proof -
  obtain c w2 where c: "newPromiseCapability w = (c, w2)" by fastforce
  let ?g = "the (c_rejectFunction c)"
  obtain res w3 where f: "callFunction js f Undefined [the (c_resolveFunction c), ?g] w2 = (res, w3)" by fastforce
  have "steps js w2 w3" using callFunction_steps [OF assms] f by (metis snd_conv)
  moreover have "steps js w w2" using c by (metis step_new step_steps snd_conv)
  ultimately have s: "steps js w w3" by (rule steps_trans)
  with steps_trans [OF callFunction_steps [OF assms] s] show ?thesis
    using c f by (cases res) (auto simp: promiseConstructor_def newPromiseCapability_def steps_refl split: prod.splits)
qed

end
