(* ===== verification/ObjectDescriptor.thy ===== *)
theory ObjectDescriptor
  imports PropertyDescriptor KeyedCollection
begin

text \<open>
  Property descriptors as the internal methods of objects take them, \<open>ObjectPropertyDescriptor\<close> of \<open>src/runtime/Object.h\<close> and
  \<open>Object.cpp\<close>, with SameValue (\<open>Value.cpp\<close>) and \<open>isCompatiblePropertyDescriptor\<close>. The specification is
  \<open>ValidateAndApplyPropertyDescriptor\<close> of ECMA-262, on records of optional fields.
\<close>

section \<open>SameValue\<close>

definition signbit :: "u64 \<Rightarrow> bool" where
  "signbit d \<longleftrightarrow> bit d 63"

text \<open>\<open>equalsToByTheSameValueAlgorithm\<close>\<close>

definition sameValue :: "Value \<Rightarrow> Value \<Rightarrow> bool" where
  "sameValue a b =
     (if \<not> isPointerValue b
      then if isNumber a \<and> isNumber b
           then if isnan (asNumber a) \<or> isnan (asNumber b) then isnan (asNumber a) \<and> isnan (asNumber b)
                else doubleEq (asNumber a) (asNumber b) \<and> signbit (asNumber a) = signbit (asNumber b)
           else sameBits a b
      else if sameBits a b then True
      else if \<not> isPointerValue a then False
      else case (a, b) of
        (StringValue p s, StringValue q t) \<Rightarrow> stringEquals s t
      | (BigIntValue p m, BigIntValue q n) \<Rightarrow> m = n
      | _ \<Rightarrow> False)"

section \<open>Descriptors\<close>

text \<open>\<open>EmptyValue\<close> stands for a missing function.\<close>

record JSGetterSetter =
  js_getter :: Value
  js_setter :: Value

definition hasGetter :: "JSGetterSetter \<Rightarrow> bool" where
  "hasGetter gs \<longleftrightarrow> js_getter gs \<noteq> EmptyValue"

definition hasSetter :: "JSGetterSetter \<Rightarrow> bool" where
  "hasSetter gs \<longleftrightarrow> js_setter gs \<noteq> EmptyValue"

text \<open>The enumerators that \<open>ObjectStructurePropertyDescriptor\<close> has too have the same values there.\<close>

type_synonym flags = "32 word"

abbreviation (input) NonWritablePresent :: flags where "NonWritablePresent \<equiv> 16"
abbreviation (input) NonEnumerablePresent :: flags where "NonEnumerablePresent \<equiv> 32"
abbreviation (input) NonConfigurablePresent :: flags where "NonConfigurablePresent \<equiv> 64"
abbreviation (input) ValuePresent :: flags where "ValuePresent \<equiv> 128"

text \<open>The union is the two fields; which one counts is \<open>m_isDataProperty\<close>.\<close>

record ObjectPropertyDescriptor =
  m_isDataProperty :: bool
  m_property :: flags
  d_value :: Value
  m_getterSetter :: JSGetterSetter

definition noGetterSetter :: JSGetterSetter where
  "noGetterSetter = \<lparr>js_getter = EmptyValue, js_setter = EmptyValue\<rparr>"

definition mkData :: "Value \<Rightarrow> flags \<Rightarrow> ObjectPropertyDescriptor" where
  "mkData v attribute =
     \<lparr>m_isDataProperty = True, m_property = attribute OR ValuePresent, d_value = v, m_getterSetter = noGetterSetter\<rparr>"

definition mkAccessor :: "JSGetterSetter \<Rightarrow> flags \<Rightarrow> ObjectPropertyDescriptor" where
  "mkAccessor gs attribute =
     \<lparr>m_isDataProperty = False, m_property = attribute, d_value = EmptyValue, m_getterSetter = gs\<rparr>"

definition isValuePresent :: "ObjectPropertyDescriptor \<Rightarrow> bool" where
  "isValuePresent d \<longleftrightarrow> m_property d AND 128 \<noteq> 0"

definition isWritablePresent :: "ObjectPropertyDescriptor \<Rightarrow> bool" where
  "isWritablePresent d \<longleftrightarrow> (m_property d AND 2) OR (m_property d AND 16) \<noteq> 0"

definition isEnumerablePresent :: "ObjectPropertyDescriptor \<Rightarrow> bool" where
  "isEnumerablePresent d \<longleftrightarrow> (m_property d AND 4) OR (m_property d AND 32) \<noteq> 0"

definition isConfigurablePresent :: "ObjectPropertyDescriptor \<Rightarrow> bool" where
  "isConfigurablePresent d \<longleftrightarrow> (m_property d AND 8) OR (m_property d AND 64) \<noteq> 0"

definition descWritable :: "ObjectPropertyDescriptor \<Rightarrow> bool" where
  "descWritable d \<longleftrightarrow> m_property d AND 2 \<noteq> 0"

definition descEnumerable :: "ObjectPropertyDescriptor \<Rightarrow> bool" where
  "descEnumerable d \<longleftrightarrow> m_property d AND 4 \<noteq> 0"

definition descConfigurable :: "ObjectPropertyDescriptor \<Rightarrow> bool" where
  "descConfigurable d \<longleftrightarrow> m_property d AND 8 \<noteq> 0"

definition isDataDescriptor :: "ObjectPropertyDescriptor \<Rightarrow> bool" where
  "isDataDescriptor d \<longleftrightarrow> isValuePresent d \<or> isWritablePresent d"

definition isAccessorDescriptor :: "ObjectPropertyDescriptor \<Rightarrow> bool" where
  "isAccessorDescriptor d \<longleftrightarrow> \<not> m_isDataProperty d"

definition isGenericDescriptor :: "ObjectPropertyDescriptor \<Rightarrow> bool" where
  "isGenericDescriptor d \<longleftrightarrow> \<not> isDataDescriptor d \<and> \<not> isAccessorDescriptor d"

text \<open>Setting one of two opposite bits and clearing the other.\<close>

definition setFlag :: "bool \<Rightarrow> flags \<Rightarrow> flags \<Rightarrow> flags \<Rightarrow> flags" where
  "setFlag b yes no p = (if b then (p OR yes) AND NOT no else (p OR no) AND NOT yes)"

definition setEnumerable :: "bool \<Rightarrow> ObjectPropertyDescriptor \<Rightarrow> ObjectPropertyDescriptor" where
  "setEnumerable b d = d\<lparr>m_property := setFlag b 4 32 (m_property d)\<rparr>"

definition setConfigurable :: "bool \<Rightarrow> ObjectPropertyDescriptor \<Rightarrow> ObjectPropertyDescriptor" where
  "setConfigurable b d = d\<lparr>m_property := setFlag b 8 64 (m_property d)\<rparr>"

definition setWritable :: "bool \<Rightarrow> ObjectPropertyDescriptor \<Rightarrow> ObjectPropertyDescriptor" where
  "setWritable b d = d\<lparr>m_property := setFlag b 2 16 (m_property d)\<rparr>"

definition setValue :: "Value \<Rightarrow> ObjectPropertyDescriptor \<Rightarrow> ObjectPropertyDescriptor" where
  "setValue v d = d\<lparr>m_property := m_property d OR 128, d_value := v\<rparr>"

definition checkProperty :: "ObjectPropertyDescriptor \<Rightarrow> bool" where
  "checkProperty d \<longleftrightarrow>
     \<not> (m_property d AND 2 \<noteq> 0 \<and> m_property d AND 16 \<noteq> 0) \<and>
     \<not> (m_property d AND 4 \<noteq> 0 \<and> m_property d AND 32 \<noteq> 0) \<and>
     \<not> (m_property d AND 8 \<noteq> 0 \<and> m_property d AND 64 \<noteq> 0) \<and>
     \<not> (\<not> m_isDataProperty d \<and> (m_property d AND 2) OR (m_property d AND 16) OR (m_property d AND 128) \<noteq> 0)"

definition toObjectStructurePropertyDescriptor :: "ObjectPropertyDescriptor \<Rightarrow> u64" where
  "toObjectStructurePropertyDescriptor d =
     (if m_isDataProperty d
      then let f = (if descWritable d then 2 else 0);
               f = (if descConfigurable d then f OR 8 else f);
               f = (if descEnumerable d then f OR 4 else f)
           in createDataDescriptor f
      else let f = 0;
               f = (if descConfigurable d then f OR 8 else f);
               f = (if descEnumerable d then f OR 4 else f);
               f = (if hasGetter (m_getterSetter d) then f OR 16 else f);
               f = (if hasSetter (m_getterSetter d) then f OR 32 else f)
           in createAccessorDescriptor f)"

definition completePropertyDescriptor :: "ObjectPropertyDescriptor \<Rightarrow> ObjectPropertyDescriptor" where
  "completePropertyDescriptor desc =
     (let d1 = (if isGenericDescriptor desc \<or> isDataDescriptor desc
                then let d = (if \<not> isValuePresent desc then setValue Undefined desc else desc)
                     in if \<not> isWritablePresent d then setWritable False d else d
                else let gs = m_getterSetter desc;
                         g = (if \<not> hasGetter gs then gs\<lparr>js_getter := Undefined\<rparr> else gs);
                         s = (if \<not> hasSetter g then g\<lparr>js_setter := Undefined\<rparr> else g)
                     in desc\<lparr>m_getterSetter := s\<rparr>);
          d2 = (if \<not> isEnumerablePresent d1 then setEnumerable False d1 else d1)
      in if \<not> isConfigurablePresent d2 then setConfigurable False d2 else d2)"

section \<open>What an object answers for a property\<close>

text \<open>
  The object of a native property is a position in the heap of objects, and its internal data the slot; an accessor property
  points to its pair of functions.
\<close>

datatype ObjectGetResult =
  NoResult
| DataResult Value bool bool bool
| NativeResult ObjectPropertyNativeGetterSetterData nat Value bool bool bool
| AccessorResult JSGetterSetter bool bool

fun resultHasValue :: "ObjectGetResult \<Rightarrow> bool" where
  "resultHasValue NoResult = False"
| "resultHasValue _ = True"

fun resultIsData :: "ObjectGetResult \<Rightarrow> bool" where
  "resultIsData (AccessorResult gs en c) = False"
| "resultIsData _ = True"

fun resultWritable :: "ObjectGetResult \<Rightarrow> bool" where
  "resultWritable (DataResult v w en c) = w"
| "resultWritable (NativeResult n obj v w en c) = w"
| "resultWritable _ = False"

fun resultEnumerable :: "ObjectGetResult \<Rightarrow> bool" where
  "resultEnumerable (DataResult v w en c) = en"
| "resultEnumerable (NativeResult n obj v w en c) = en"
| "resultEnumerable (AccessorResult gs en c) = en"
| "resultEnumerable NoResult = False"

fun resultConfigurable :: "ObjectGetResult \<Rightarrow> bool" where
  "resultConfigurable (DataResult v w en c) = c"
| "resultConfigurable (NativeResult n obj v w en c) = c"
| "resultConfigurable (AccessorResult gs en c) = c"
| "resultConfigurable NoResult = False"

text \<open>
  \<open>isCompatiblePropertyDescriptor\<close>; \<open>valueOf\<close> gives the value of a result, which for a native property is a call of its getter.
\<close>

definition getterOrUndefined :: "JSGetterSetter \<Rightarrow> Value" where
  "getterOrUndefined gs = (if hasGetter gs then js_getter gs else Undefined)"

definition setterOrUndefined :: "JSGetterSetter \<Rightarrow> Value" where
  "setterOrUndefined gs = (if hasSetter gs then js_setter gs else Undefined)"

fun resultGetterSetter :: "ObjectGetResult \<Rightarrow> JSGetterSetter" where
  "resultGetterSetter (AccessorResult gs en c) = gs"
| "resultGetterSetter _ = noGetterSetter"

definition isCompatiblePropertyDescriptor ::
  "(ObjectGetResult \<Rightarrow> Value) \<Rightarrow> bool \<Rightarrow> ObjectPropertyDescriptor \<Rightarrow> ObjectGetResult \<Rightarrow> bool" where
  "isCompatiblePropertyDescriptor valueOf extensible desc current =
     (if \<not> resultHasValue current then extensible
      else if \<not> resultConfigurable current \<and> descConfigurable desc then False
      else if \<not> resultConfigurable current \<and> isEnumerablePresent desc \<and> descEnumerable desc \<noteq> resultEnumerable current then False
      else if isGenericDescriptor desc then True
      else if resultIsData current \<noteq> isDataDescriptor desc then resultConfigurable current
      else if resultIsData current \<and> isDataDescriptor desc
      then if \<not> resultConfigurable current
           then if \<not> resultWritable current \<and> descWritable desc then False
                else \<not> (\<not> resultWritable current \<and> isValuePresent desc \<and> \<not> sameValue (d_value desc) (valueOf current))
           else True
      else if \<not> resultIsData current \<and> isAccessorDescriptor desc
      then if \<not> resultConfigurable current
           then let gs = resultGetterSetter current
                in if hasSetter (m_getterSetter desc) \<and> \<not> sameBits (js_setter (m_getterSetter desc)) (setterOrUndefined gs) then False
                   else \<not> (hasGetter (m_getterSetter desc) \<and> \<not> sameBits (js_getter (m_getterSetter desc)) (getterOrUndefined gs))
           else True
      else True)"

section \<open>The specification\<close>

text \<open>A property, and a descriptor with optional fields, as in ECMA-262.\<close>

datatype Prop = DataProp Value bool bool bool | AccessorProp Value Value bool bool

record propDesc =
  pd_value :: "Value option"
  pd_writable :: "bool option"
  pd_get :: "Value option"
  pd_set :: "Value option"
  pd_enumerable :: "bool option"
  pd_configurable :: "bool option"

definition or_else :: "'a option \<Rightarrow> 'a \<Rightarrow> 'a" where
  "or_else x d = (case x of Some y \<Rightarrow> y | None \<Rightarrow> d)"

lemma or_else_simps [simp]: "or_else (Some x) d = x" "or_else None d = d"
  by (simp_all add: or_else_def)

definition IsAccessorDesc :: "propDesc \<Rightarrow> bool" where
  "IsAccessorDesc d \<longleftrightarrow> pd_get d \<noteq> None \<or> pd_set d \<noteq> None"

definition IsDataDesc :: "propDesc \<Rightarrow> bool" where
  "IsDataDesc d \<longleftrightarrow> pd_value d \<noteq> None \<or> pd_writable d \<noteq> None"

definition differs :: "('a \<Rightarrow> 'a \<Rightarrow> bool) \<Rightarrow> 'a option \<Rightarrow> 'a \<Rightarrow> bool" where
  "differs same x y = (case x of None \<Rightarrow> False | Some z \<Rightarrow> \<not> same z y)"

fun rejected :: "propDesc \<Rightarrow> Prop \<Rightarrow> bool" where
  "rejected d (DataProp v w en c) \<longleftrightarrow> \<not> c \<and>
     (pd_configurable d = Some True \<or> differs (=) (pd_enumerable d) en \<or> IsAccessorDesc d \<or>
      \<not> w \<and> (pd_writable d = Some True \<or> differs sameValue (pd_value d) v))"
| "rejected d (AccessorProp g s en c) \<longleftrightarrow> \<not> c \<and>
     (pd_configurable d = Some True \<or> differs (=) (pd_enumerable d) en \<or> IsDataDesc d \<or>
      differs sameValue (pd_get d) g \<or> differs sameValue (pd_set d) s)"

fun applied :: "propDesc \<Rightarrow> Prop \<Rightarrow> Prop" where
  "applied d (DataProp v w en c) =
     (if IsAccessorDesc d
      then AccessorProp (or_else (pd_get d) Undefined) (or_else (pd_set d) Undefined) (or_else (pd_enumerable d) en) (or_else (pd_configurable d) c)
      else DataProp (or_else (pd_value d) v) (or_else (pd_writable d) w) (or_else (pd_enumerable d) en) (or_else (pd_configurable d) c))"
| "applied d (AccessorProp g s en c) =
     (if IsDataDesc d
      then DataProp (or_else (pd_value d) Undefined) (or_else (pd_writable d) False) (or_else (pd_enumerable d) en) (or_else (pd_configurable d) c)
      else AccessorProp (or_else (pd_get d) g) (or_else (pd_set d) s) (or_else (pd_enumerable d) en) (or_else (pd_configurable d) c))"

definition created :: "propDesc \<Rightarrow> Prop" where
  "created d =
     (if IsAccessorDesc d
      then AccessorProp (or_else (pd_get d) Undefined) (or_else (pd_set d) Undefined) (or_else (pd_enumerable d) False) (or_else (pd_configurable d) False)
      else DataProp (or_else (pd_value d) Undefined) (or_else (pd_writable d) False) (or_else (pd_enumerable d) False) (or_else (pd_configurable d) False))"

text \<open>\<open>ValidateAndApplyPropertyDescriptor\<close>: \<open>None\<close> for a rejection, else the property after it.\<close>

definition validateAndApply :: "bool \<Rightarrow> propDesc \<Rightarrow> Prop option \<Rightarrow> Prop option" where
  "validateAndApply extensible d current =
     (case current of
        None \<Rightarrow> if extensible then Some (created d) else None
      | Some p \<Rightarrow> if rejected d p then None else Some (applied d p))"

section \<open>Descriptors of the code as descriptors of the specification\<close>

definition descOf :: "ObjectPropertyDescriptor \<Rightarrow> propDesc" where
  "descOf d =
     \<lparr>pd_value = (if isValuePresent d then Some (d_value d) else None),
      pd_writable = (if isWritablePresent d then Some (descWritable d) else None),
      pd_get = (if isAccessorDescriptor d \<and> hasGetter (m_getterSetter d) then Some (js_getter (m_getterSetter d)) else None),
      pd_set = (if isAccessorDescriptor d \<and> hasSetter (m_getterSetter d) then Some (js_setter (m_getterSetter d)) else None),
      pd_enumerable = (if isEnumerablePresent d then Some (descEnumerable d) else None),
      pd_configurable = (if isConfigurablePresent d then Some (descConfigurable d) else None)\<rparr>"

text \<open>What every descriptor built by the code satisfies: the debug check, and an accessor descriptor has a function.\<close>

fun isFunctionOrUndefined :: "Value \<Rightarrow> bool" where
  "isFunctionOrUndefined Undefined = True"
| "isFunctionOrUndefined (PointerValue p) = True"
| "isFunctionOrUndefined _ = False"

definition gs_ok :: "JSGetterSetter \<Rightarrow> bool" where
  "gs_ok gs \<longleftrightarrow> (js_getter gs = EmptyValue \<or> isFunctionOrUndefined (js_getter gs)) \<and>
     (js_setter gs = EmptyValue \<or> isFunctionOrUndefined (js_setter gs)) \<and> (hasGetter gs \<or> hasSetter gs)"

definition desc_ok :: "ObjectPropertyDescriptor \<Rightarrow> bool" where
  "desc_ok d \<longleftrightarrow> checkProperty d \<and>
     (isAccessorDescriptor d \<longrightarrow> gs_ok (m_getterSetter d))"

section \<open>Readers and setters\<close>

lemmas flag32_bits =
  and_two_power_eq_0 [of "_ :: flags" 1, simplified] and_two_power_eq_0 [of "_ :: flags" 2, simplified]
  and_two_power_eq_0 [of "_ :: flags" 3, simplified] and_two_power_eq_0 [of "_ :: flags" 4, simplified]
  and_two_power_eq_0 [of "_ :: flags" 5, simplified] and_two_power_eq_0 [of "_ :: flags" 6, simplified]
  and_two_power_eq_0 [of "_ :: flags" 7, simplified]

lemmas desc_readers = isValuePresent_def isWritablePresent_def isEnumerablePresent_def isConfigurablePresent_def
  descWritable_def descEnumerable_def descConfigurable_def

lemmas desc_setters = setEnumerable_def setConfigurable_def setWritable_def setValue_def setFlag_def


lemma desc_bits:
  "isValuePresent d \<longleftrightarrow> bit (m_property d) 7"
  "isWritablePresent d \<longleftrightarrow> bit (m_property d) 1 \<or> bit (m_property d) 4"
  "isEnumerablePresent d \<longleftrightarrow> bit (m_property d) 2 \<or> bit (m_property d) 5"
  "isConfigurablePresent d \<longleftrightarrow> bit (m_property d) 3 \<or> bit (m_property d) 6"
  "descWritable d \<longleftrightarrow> bit (m_property d) 1" "descEnumerable d \<longleftrightarrow> bit (m_property d) 2"
  "descConfigurable d \<longleftrightarrow> bit (m_property d) 3"
  by (simp_all add: desc_readers or_eq_0_iff flag32_bits)

lemma checkProperty_bits:
  "checkProperty d \<longleftrightarrow> \<not> (bit (m_property d) 1 \<and> bit (m_property d) 4) \<and> \<not> (bit (m_property d) 2 \<and> bit (m_property d) 5) \<and>
     \<not> (bit (m_property d) 3 \<and> bit (m_property d) 6) \<and>
     (m_isDataProperty d \<or> \<not> bit (m_property d) 1 \<and> \<not> bit (m_property d) 4 \<and> \<not> bit (m_property d) 7)"
  by (auto simp: checkProperty_def or_eq_0_iff flag32_bits)

lemma bit_flag32: "k < 32 \<Longrightarrow> bit ((2 :: flags) ^ k) n \<longleftrightarrow> n = k"
  by (auto simp: bit_simps)

lemmas bit_flag32_lits = bit_flag32 [of 1, simplified] bit_flag32 [of 2, simplified] bit_flag32 [of 3, simplified]
  bit_flag32 [of 4, simplified] bit_flag32 [of 5, simplified] bit_flag32 [of 6, simplified] bit_flag32 [of 7, simplified]

lemma bit_setFlag:
  "n < 32 \<Longrightarrow> bit (setFlag b yes no p) n \<longleftrightarrow>
     (if b then (bit p n \<or> bit yes n) \<and> \<not> bit no n else (bit p n \<or> bit no n) \<and> \<not> bit yes n)"
  by (simp add: setFlag_def bit_and_iff bit_or_iff bit_not_iff)

lemma setter_simps [simp]:
  "m_isDataProperty (setEnumerable b d) = m_isDataProperty d" "m_isDataProperty (setConfigurable b d) = m_isDataProperty d"
  "m_isDataProperty (setWritable b d) = m_isDataProperty d" "m_isDataProperty (setValue v d) = m_isDataProperty d"
  "d_value (setEnumerable b d) = d_value d" "d_value (setConfigurable b d) = d_value d"
  "d_value (setWritable b d) = d_value d" "d_value (setValue v d) = v"
  "m_getterSetter (setEnumerable b d) = m_getterSetter d" "m_getterSetter (setConfigurable b d) = m_getterSetter d"
  "m_getterSetter (setWritable b d) = m_getterSetter d" "m_getterSetter (setValue v d) = m_getterSetter d"
  by (simp_all add: setEnumerable_def setConfigurable_def setWritable_def setValue_def)

lemmas setter_bits = setEnumerable_def setConfigurable_def setWritable_def setValue_def bit_setFlag bit_or_iff

lemma setEnumerable_readers [simp]:
  "descEnumerable (setEnumerable b d) = b" "isEnumerablePresent (setEnumerable b d)"
  "descWritable (setEnumerable b d) = descWritable d" "isWritablePresent (setEnumerable b d) = isWritablePresent d"
  "descConfigurable (setEnumerable b d) = descConfigurable d" "isConfigurablePresent (setEnumerable b d) = isConfigurablePresent d"
  "isValuePresent (setEnumerable b d) = isValuePresent d"
  by (auto simp: desc_bits setter_bits bit_flag32_lits)

lemma setConfigurable_readers [simp]:
  "descConfigurable (setConfigurable b d) = b" "isConfigurablePresent (setConfigurable b d)"
  "descWritable (setConfigurable b d) = descWritable d" "isWritablePresent (setConfigurable b d) = isWritablePresent d"
  "descEnumerable (setConfigurable b d) = descEnumerable d" "isEnumerablePresent (setConfigurable b d) = isEnumerablePresent d"
  "isValuePresent (setConfigurable b d) = isValuePresent d"
  by (auto simp: desc_bits setter_bits bit_flag32_lits)

lemma setWritable_readers [simp]:
  "descWritable (setWritable b d) = b" "isWritablePresent (setWritable b d)"
  "descConfigurable (setWritable b d) = descConfigurable d" "isConfigurablePresent (setWritable b d) = isConfigurablePresent d"
  "descEnumerable (setWritable b d) = descEnumerable d" "isEnumerablePresent (setWritable b d) = isEnumerablePresent d"
  "isValuePresent (setWritable b d) = isValuePresent d"
  by (auto simp: desc_bits setter_bits bit_flag32_lits)

lemma setValue_readers [simp]:
  "isValuePresent (setValue v d)"
  "descWritable (setValue v d) = descWritable d" "isWritablePresent (setValue v d) = isWritablePresent d"
  "descConfigurable (setValue v d) = descConfigurable d" "isConfigurablePresent (setValue v d) = isConfigurablePresent d"
  "descEnumerable (setValue v d) = descEnumerable d" "isEnumerablePresent (setValue v d) = isEnumerablePresent d"
  by (auto simp: desc_bits setter_bits bit_flag32_lits)

lemma mkData_readers [simp]:
  "m_isDataProperty (mkData v f)" "d_value (mkData v f) = v" "isValuePresent (mkData v f)"
  "descWritable (mkData v f) = bit f 1" "isWritablePresent (mkData v f) = (bit f 1 \<or> bit f 4)"
  "descEnumerable (mkData v f) = bit f 2" "isEnumerablePresent (mkData v f) = (bit f 2 \<or> bit f 5)"
  "descConfigurable (mkData v f) = bit f 3" "isConfigurablePresent (mkData v f) = (bit f 3 \<or> bit f 6)"
  by (auto simp: mkData_def desc_bits bit_or_iff bit_flag32_lits)

lemma mkAccessor_readers [simp]:
  "\<not> m_isDataProperty (mkAccessor gs f)" "m_getterSetter (mkAccessor gs f) = gs" "isValuePresent (mkAccessor gs f) = bit f 7"
  "descWritable (mkAccessor gs f) = bit f 1" "isWritablePresent (mkAccessor gs f) = (bit f 1 \<or> bit f 4)"
  "descEnumerable (mkAccessor gs f) = bit f 2" "isEnumerablePresent (mkAccessor gs f) = (bit f 2 \<or> bit f 5)"
  "descConfigurable (mkAccessor gs f) = bit f 3" "isConfigurablePresent (mkAccessor gs f) = (bit f 3 \<or> bit f 6)"
  by (auto simp: mkAccessor_def desc_bits)

text \<open>The word that a hidden class stores for a descriptor.\<close>

lemma toStructure_data:
  assumes "m_isDataProperty d"
  obtains f where "toObjectStructurePropertyDescriptor d = createDataDescriptor f" "bit f (Suc 0) = descWritable d"
    "bit f 2 = descEnumerable d" "bit f 3 = descConfigurable d"
proof -
  let ?f = "(if descWritable d then 2 else 0) OR (if descConfigurable d then 8 else 0) OR (if descEnumerable d then 4 else 0) :: u64"
  have "toObjectStructurePropertyDescriptor d = createDataDescriptor ?f"
    using assms by (simp add: toObjectStructurePropertyDescriptor_def Let_def ac_simps)
  then show ?thesis by (rule that) (simp_all add: bit_or_iff flag_simps)
qed

lemma toStructure_accessor:
  assumes "\<not> m_isDataProperty d"
  obtains f where "toObjectStructurePropertyDescriptor d = createAccessorDescriptor f"
    "bit f 2 = descEnumerable d" "bit f 3 = descConfigurable d"
proof -
  let ?f = "(if descConfigurable d then 8 else 0) OR (if descEnumerable d then 4 else 0) OR
    (if hasGetter (m_getterSetter d) then 16 else 0) OR (if hasSetter (m_getterSetter d) then 32 else 0) :: u64"
  have "toObjectStructurePropertyDescriptor d = createAccessorDescriptor ?f"
    using assms by (simp add: toObjectStructurePropertyDescriptor_def Let_def ac_simps)
  then show ?thesis by (rule that) (simp_all add: bit_or_iff flag_simps)
qed

lemma toStructure_readers [simp]:
  "PropertyDescriptor.isDataProperty (toObjectStructurePropertyDescriptor d) = m_isDataProperty d"
  "\<not> isNativeAccessorProperty (toObjectStructurePropertyDescriptor d)"
  "isPlainDataProperty (toObjectStructurePropertyDescriptor d) = m_isDataProperty d"
  "isEnumerable nh (toObjectStructurePropertyDescriptor d) = descEnumerable d"
  "isConfigurable nh (toObjectStructurePropertyDescriptor d) = descConfigurable d"
  "m_isDataProperty d \<Longrightarrow> isWritable nh (toObjectStructurePropertyDescriptor d) = descWritable d"
  "toObjectStructurePropertyDescriptor d AND 1 \<noteq> 0"
proof -
  let ?t = "toObjectStructurePropertyDescriptor d"
  have *: "PropertyDescriptor.isDataProperty ?t = m_isDataProperty d \<and> \<not> isNativeAccessorProperty ?t \<and>
    isPlainDataProperty ?t = m_isDataProperty d \<and> isEnumerable nh ?t = descEnumerable d \<and> isConfigurable nh ?t = descConfigurable d \<and>
    (m_isDataProperty d \<longrightarrow> isWritable nh ?t = descWritable d) \<and> ?t AND 1 \<noteq> 0"
  proof (cases "m_isDataProperty d")
    case True
    then obtain f where "?t = createDataDescriptor f" "bit f (Suc 0) = descWritable d" "bit f 2 = descEnumerable d" "bit f 3 = descConfigurable d"
      by (rule toStructure_data)
    then show ?thesis using True readers_of_data mkDescriptorData_inline by (simp add: createDataDescriptor_def)
  next
    case False
    then obtain f where "?t = createAccessorDescriptor f" "bit f 2 = descEnumerable d" "bit f 3 = descConfigurable d"
      by (rule toStructure_accessor)
    then show ?thesis using False readers_of_accessor mkDescriptorData_inline by (simp add: createAccessorDescriptor_eq)
  qed
  show "PropertyDescriptor.isDataProperty ?t = m_isDataProperty d" "\<not> isNativeAccessorProperty ?t"
    "isPlainDataProperty ?t = m_isDataProperty d" "isEnumerable nh ?t = descEnumerable d" "isConfigurable nh ?t = descConfigurable d"
    "?t AND 1 \<noteq> 0" using * by simp_all
  show "m_isDataProperty d \<Longrightarrow> isWritable nh ?t = descWritable d" using * by simp
qed


section \<open>The test for compatible descriptors\<close>

lemma present_if_set:
  "descWritable d \<Longrightarrow> isWritablePresent d" "descEnumerable d \<Longrightarrow> isEnumerablePresent d" "descConfigurable d \<Longrightarrow> isConfigurablePresent d"
  by (simp_all add: desc_bits)

lemma descOf_simps [simp]:
  "pd_value (descOf d) = (if isValuePresent d then Some (d_value d) else None)"
  "pd_writable (descOf d) = (if isWritablePresent d then Some (descWritable d) else None)"
  "pd_get (descOf d) = (if isAccessorDescriptor d \<and> hasGetter (m_getterSetter d) then Some (js_getter (m_getterSetter d)) else None)"
  "pd_set (descOf d) = (if isAccessorDescriptor d \<and> hasSetter (m_getterSetter d) then Some (js_setter (m_getterSetter d)) else None)"
  "pd_enumerable (descOf d) = (if isEnumerablePresent d then Some (descEnumerable d) else None)"
  "pd_configurable (descOf d) = (if isConfigurablePresent d then Some (descConfigurable d) else None)"
  by (simp_all add: descOf_def)

lemma IsDataDesc_descOf [simp]: "IsDataDesc (descOf d) = isDataDescriptor d"
  by (simp add: IsDataDesc_def isDataDescriptor_def)

lemma IsAccessorDesc_descOf: "desc_ok d \<Longrightarrow> IsAccessorDesc (descOf d) = isAccessorDescriptor d"
  by (auto simp: IsAccessorDesc_def desc_ok_def gs_ok_def)

lemma desc_kinds:
  assumes "desc_ok d"
  shows "isAccessorDescriptor d \<Longrightarrow> \<not> isDataDescriptor d" "isDataDescriptor d \<Longrightarrow> m_isDataProperty d"
  using assms by (auto simp: desc_ok_def checkProperty_bits isDataDescriptor_def isAccessorDescriptor_def desc_bits)

lemma sameBits_function: "isFunctionOrUndefined a \<Longrightarrow> isFunctionOrUndefined b \<Longrightarrow> sameBits a b \<longleftrightarrow> sameValue a b"
  by (cases a; cases b) (auto simp: sameValue_def)

lemma orUndefined_function [simp]:
  "gs_ok gs \<Longrightarrow> isFunctionOrUndefined (getterOrUndefined gs)" "gs_ok gs \<Longrightarrow> isFunctionOrUndefined (setterOrUndefined gs)"
  by (auto simp: gs_ok_def getterOrUndefined_def setterOrUndefined_def hasGetter_def hasSetter_def)

lemma gs_functions:
  "gs_ok gs \<Longrightarrow> hasGetter gs \<Longrightarrow> isFunctionOrUndefined (js_getter gs)" "gs_ok gs \<Longrightarrow> hasSetter gs \<Longrightarrow> isFunctionOrUndefined (js_setter gs)"
  by (auto simp: gs_ok_def hasGetter_def hasSetter_def)

fun resultProp :: "(ObjectGetResult \<Rightarrow> Value) \<Rightarrow> ObjectGetResult \<Rightarrow> Prop option" where
  "resultProp valueOf NoResult = None"
| "resultProp valueOf (AccessorResult gs en c) = Some (AccessorProp (getterOrUndefined gs) (setterOrUndefined gs) en c)"
| "resultProp valueOf r = Some (DataProp (valueOf r) (resultWritable r) (resultEnumerable r) (resultConfigurable r))"

fun result_ok :: "ObjectGetResult \<Rightarrow> bool" where
  "result_ok (AccessorResult gs en c) = gs_ok gs"
| "result_ok _ = True"

lemma compatible_data:
  assumes "desc_ok d" "resultIsData r" "resultHasValue r"
  shows "isCompatiblePropertyDescriptor valueOf ext d r \<longleftrightarrow>
    \<not> rejected (descOf d) (DataProp (valueOf r) (resultWritable r) (resultEnumerable r) (resultConfigurable r))"
proof -
  have "isGenericDescriptor d \<longleftrightarrow> \<not> isDataDescriptor d \<and> \<not> isAccessorDescriptor d" by (simp add: isGenericDescriptor_def)
  moreover have "isWritablePresent d \<or> isValuePresent d \<longleftrightarrow> isDataDescriptor d" by (auto simp: isDataDescriptor_def)
  ultimately show ?thesis
    using assms IsAccessorDesc_descOf [OF assms(1)] desc_kinds [OF assms(1)] present_if_set [of d]
    by (auto simp: isCompatiblePropertyDescriptor_def differs_def)
qed

lemma compatible_accessor:
  assumes "desc_ok d" "gs_ok gs"
  shows "isCompatiblePropertyDescriptor valueOf ext d (AccessorResult gs en c) \<longleftrightarrow>
    \<not> rejected (descOf d) (AccessorProp (getterOrUndefined gs) (setterOrUndefined gs) en c)"
proof (cases "isAccessorDescriptor d")
  case True
  then have "gs_ok (m_getterSetter d)" using assms(1) by (simp add: desc_ok_def)
  then have "hasGetter (m_getterSetter d) \<Longrightarrow> sameBits (js_getter (m_getterSetter d)) (getterOrUndefined gs) = sameValue (js_getter (m_getterSetter d)) (getterOrUndefined gs)"
    "hasSetter (m_getterSetter d) \<Longrightarrow> sameBits (js_setter (m_getterSetter d)) (setterOrUndefined gs) = sameValue (js_setter (m_getterSetter d)) (setterOrUndefined gs)"
    using assms(2) gs_functions by (auto intro!: sameBits_function)
  then show ?thesis
    using True desc_kinds [OF assms(1)] present_if_set [of d]
    by (auto simp: isCompatiblePropertyDescriptor_def differs_def isGenericDescriptor_def Let_def)
next
  case False
  then show ?thesis
    using desc_kinds [OF assms(1)] present_if_set [of d]
    by (auto simp: isCompatiblePropertyDescriptor_def differs_def isGenericDescriptor_def Let_def)
qed

lemma compatible_iff:
  assumes "desc_ok d" and "result_ok current"
  shows "isCompatiblePropertyDescriptor valueOf extensible d current \<longleftrightarrow>
    validateAndApply extensible (descOf d) (resultProp valueOf current) \<noteq> None"
proof (cases current)
  case NoResult
  then show ?thesis by (simp add: isCompatiblePropertyDescriptor_def validateAndApply_def)
next
  case (AccessorResult gs en c)
  with assms compatible_accessor [of d gs] show ?thesis by (simp add: validateAndApply_def del: rejected.simps)
qed (use compatible_data [OF assms(1)] in \<open>simp_all add: validateAndApply_def del: rejected.simps\<close>)

text \<open>\<open>isCompatiblePropertyDescriptor\<close>, with which proxies check the answers of their handlers, accepts a descriptor exactly when
  \<open>ValidateAndApplyPropertyDescriptor\<close> of ECMA-262 does, for data, native and accessor properties and for absent ones.\<close>

theorem isCompatiblePropertyDescriptor_correct:
  assumes "desc_ok d" and "result_ok current"
  shows "isCompatiblePropertyDescriptor valueOf extensible d current \<longleftrightarrow>
    validateAndApply extensible (descOf d) (resultProp valueOf current) \<noteq> None"
  using assms by (rule compatible_iff)

theorem isCompatiblePropertyDescriptor_correct_witness:
  "isCompatiblePropertyDescriptor (\<lambda>_. Boolean False) True (mkData (Boolean True) 0) (NativeResult (nativeData True True False 0 0 False) 0 Undefined True True False) \<and>
   \<not> isCompatiblePropertyDescriptor (\<lambda>_. Boolean False) True (mkData (Boolean True) 0) (NativeResult (nativeData True True False 0 0 False) 0 Undefined False True False)"
proof -
  have d: "desc_ok (mkData (Boolean True) 0)" by (simp add: desc_ok_def checkProperty_bits mkData_def bit_flag32_lits isAccessorDescriptor_def)
  have "\<not> isAccessorDescriptor (mkData v f)" for v f by (simp add: isAccessorDescriptor_def)
  moreover have "\<not> sameValue (Boolean True) (Boolean False)" by (simp add: sameValue_def)
  ultimately show ?thesis
    using isCompatiblePropertyDescriptor_correct [OF d, of "NativeResult (nativeData True True False 0 0 False) 0 Undefined True True False" "\<lambda>_. Boolean False" True]
      isCompatiblePropertyDescriptor_correct [OF d, of "NativeResult (nativeData True True False 0 0 False) 0 Undefined False True False" "\<lambda>_. Boolean False" True]
    by (simp add: validateAndApply_def differs_def IsAccessorDesc_def)
qed

end
