(* ===== verification/OrdinaryObject.thy ===== *)
theory OrdinaryObject
  imports ObjectDescriptor ObjectStructure
begin

text \<open>
  The internal methods of ordinary objects, \<open>src/runtime/Object.cpp\<close> and \<open>Object.h\<close>: \<open>getOwnProperty\<close>, \<open>defineOwnProperty\<close>,
  \<open>deleteOwnProperty\<close>, \<open>hasProperty\<close>, \<open>get\<close>, \<open>set\<close>, \<open>setPrototype\<close> and \<open>preventExtensions\<close>. An object is a hidden class, a vector
  of slots in the order of the properties of the class, a prototype and a flag. Objects live in a heap beside the hidden classes
  they share. An operation gives \<open>None\<close> where the code would follow a null pointer, read outside of a vector or run forever.
\<close>

section \<open>Objects\<close>

datatype PropertySlot = PlainSlot Value | AccessorSlot JSGetterSetter

record ObjectData =
  o_structure :: nat
  o_values :: "PropertySlot list"
  o_prototype :: "nat option"
  o_isExtensible :: bool

record Heap =
  h_env :: env
  h_structures :: store
  h_objects :: "ObjectData list"

text \<open>
  The native getters and setters, by the address of the function: they get the object, the receiver and the internal data; a setter
  gives its result and the new internal data. \<open>newNative\<close> is the address of the next allocation. \<open>callable\<close> is \<open>isCallable\<close> of the
  object at an address.
\<close>

record NativeCode =
  nativeGet :: "addr \<Rightarrow> nat \<Rightarrow> nat option \<Rightarrow> Value \<Rightarrow> Value"
  nativeSet :: "addr \<Rightarrow> nat \<Rightarrow> nat option \<Rightarrow> Value \<Rightarrow> Value \<Rightarrow> bool \<times> Value"
  newNative :: addr
  callable :: "addr \<Rightarrow> bool"

text \<open>\<open>ObjectPropertyName\<close>: a small integer or a name. The integer comes with the name it is converted to.\<close>

datatype ObjectPropertyName = UIntType pname | NameType pname

fun toObjectStructurePropertyName :: "ObjectPropertyName \<Rightarrow> pname" where
  "toObjectStructurePropertyName (UIntType n) = n"
| "toObjectStructurePropertyName (NameType n) = n"

fun isUIntType :: "ObjectPropertyName \<Rightarrow> bool" where
  "isUIntType (UIntType n) = True"
| "isUIntType (NameType n) = False"

definition setObject :: "nat \<Rightarrow> (ObjectData \<Rightarrow> ObjectData) \<Rightarrow> Heap \<Rightarrow> Heap" where
  "setObject ob f h = h\<lparr>h_objects := (h_objects h)[ob := f (h_objects h ! ob)]\<rparr>"

definition objectStructure :: "Heap \<Rightarrow> nat \<Rightarrow> nat" where
  "objectStructure h ob = o_structure (h_objects h ! ob)"

section \<open>Reading\<close>

text \<open>A data property in an accessor's slot, or the other way round, would be a pointer of the wrong type: \<open>None\<close>.\<close>

definition resultAt :: "env \<Rightarrow> nat \<Rightarrow> u64 \<Rightarrow> PropertySlot \<Rightarrow> ObjectGetResult option" where
  "resultAt e ob desc slot =
     (let attrs = presentAttributes (natives e) desc;
          w = (attrs AND 2 \<noteq> 0); en = (attrs AND 4 \<noteq> 0); c = (attrs AND 8 \<noteq> 0)
      in case slot of
           PlainSlot v \<Rightarrow>
             if \<not> isDataProperty desc then None
             else if \<not> isNativeAccessorProperty desc then Some (DataResult v w en c)
             else map_option (\<lambda>d. NativeResult d ob v w en c) (natives e desc)
         | AccessorSlot gs \<Rightarrow> if isDataProperty desc then None else Some (AccessorResult gs en c))"

definition getOwnProperty :: "Heap \<Rightarrow> nat \<Rightarrow> ObjectPropertyName \<Rightarrow> (ObjectGetResult \<times> Heap) option" where
  "getOwnProperty h ob P =
     (let p = objectStructure h ob
      in if isUIntType P \<and> \<not> m_hasIndexPropertyName (base (h_structures h ! p)) then Some (NoResult, h)
         else case findProperty (h_env h) (h_structures h) p (toObjectStructurePropertyName P) of
           None \<Rightarrow> None
         | Some (None, st) \<Rightarrow> Some (NoResult, h\<lparr>h_structures := st\<rparr>)
         | Some (Some i, st) \<Rightarrow>
             (case readProperty (st ! p) i of
                None \<Rightarrow> None
              | Some item \<Rightarrow>
                  if i < length (o_values (h_objects h ! ob))
                  then map_option (\<lambda>r. (r, h\<lparr>h_structures := st\<rparr>))
                         (resultAt (h_env h) ob (m_descriptor item) (o_values (h_objects h ! ob) ! i))
                  else None))"

text \<open>The value of a data property; for a native one its getter is called.\<close>

fun dataValue :: "NativeCode \<Rightarrow> nat option \<Rightarrow> ObjectGetResult \<Rightarrow> Value" where
  "dataValue nc receiver (DataResult v w en c) = v"
| "dataValue nc receiver (NativeResult d ob v w en c) = nativeGet nc (m_getter d) ob receiver v"
| "dataValue nc receiver _ = Undefined"

text \<open>\<open>ObjectGetResult::value\<close>: a value, or the call of a getter.\<close>

datatype GetOutcome = ReturnValue Value | CallGetter Value

fun isCallableValue :: "NativeCode \<Rightarrow> Value \<Rightarrow> bool" where
  "isCallableValue nc (PointerValue p) = callable nc p"
| "isCallableValue nc _ = False"

fun resultValue :: "NativeCode \<Rightarrow> nat option \<Rightarrow> ObjectGetResult \<Rightarrow> GetOutcome" where
  "resultValue nc receiver (AccessorResult gs en c) =
     (if hasGetter gs \<and> isCallableValue nc (js_getter gs) then CallGetter (js_getter gs) else ReturnValue Undefined)"
| "resultValue nc receiver r = ReturnValue (dataValue nc receiver r)"

definition getPrototypeObject :: "Heap \<Rightarrow> nat \<Rightarrow> nat option" where
  "getPrototypeObject h ob = o_prototype (h_objects h ! ob)"

partial_function (option) objectGet :: "ObjectPropertyName \<Rightarrow> Heap \<Rightarrow> nat \<Rightarrow> (ObjectGetResult \<times> Heap) option" where
  "objectGet P h iter =
     (case getOwnProperty h iter P of
        None \<Rightarrow> None
      | Some (desc, h1) \<Rightarrow>
          if resultHasValue desc then Some (desc, h1)
          else case getPrototypeObject h1 iter of
            None \<Rightarrow> Some (NoResult, h1)
          | Some parent \<Rightarrow> objectGet P h1 parent)"

partial_function (option) hasProperty :: "ObjectPropertyName \<Rightarrow> Heap \<Rightarrow> nat \<Rightarrow> (ObjectGetResult \<times> Heap) option" where
  "hasProperty P h ob =
     (case getOwnProperty h ob P of
        None \<Rightarrow> None
      | Some (hasOwn, h1) \<Rightarrow>
          if resultHasValue hasOwn then Some (hasOwn, h1)
          else case getPrototypeObject h1 ob of
            Some parent \<Rightarrow> hasProperty P h1 parent
          | None \<Rightarrow> Some (NoResult, h1))"

section \<open>Defining\<close>

definition newSlot :: "ObjectPropertyDescriptor \<Rightarrow> PropertySlot" where
  "newSlot desc =
     (if m_isDataProperty desc then PlainSlot (if isValuePresent desc then d_value desc else Undefined)
      else AccessorSlot (m_getterSetter desc))"

definition appendProperty :: "Heap \<Rightarrow> nat \<Rightarrow> pname \<Rightarrow> ObjectPropertyDescriptor \<Rightarrow> Heap option" where
  "appendProperty h ob name desc =
     (case addProperty (h_env h) (h_structures h) (objectStructure h ob) name (toObjectStructurePropertyDescriptor desc) of
        None \<Rightarrow> None
      | Some (q, st) \<Rightarrow>
          Some (setObject ob (\<lambda>obj. obj\<lparr>o_structure := q, o_values := o_values obj @ [newSlot desc]\<rparr>) (h\<lparr>h_structures := st\<rparr>)))"

definition fromObjectStructurePropertyDescriptor :: "native_heap \<Rightarrow> u64 \<Rightarrow> PropertySlot \<Rightarrow> ObjectPropertyDescriptor option" where
  "fromObjectStructurePropertyDescriptor nh desc slot =
     (case slot of
        PlainSlot v \<Rightarrow>
          if isDataProperty desc
          then Some (setConfigurable (isConfigurable nh desc) (setEnumerable (isEnumerable nh desc) (setWritable (isWritable nh desc) (mkData v 0))))
          else None
      | AccessorSlot gs \<Rightarrow>
          if isDataProperty desc then None
          else Some (setConfigurable (isConfigurable nh desc) (setEnumerable (isEnumerable nh desc) (mkAccessor gs 0))))"

text \<open>\<open>getOwnDataPropertyUtilForObject\<close> on the slot of a data property.\<close>

definition ownDataValue :: "NativeCode \<Rightarrow> env \<Rightarrow> nat \<Rightarrow> u64 \<Rightarrow> PropertySlot \<Rightarrow> Value" where
  "ownDataValue nc e ob desc slot =
     (case slot of
        PlainSlot v \<Rightarrow>
          if isPlainDataProperty desc then v
          else (case natives e desc of Some d \<Rightarrow> nativeGet nc (m_getter d) ob (Some ob) v | None \<Rightarrow> Undefined)
      | AccessorSlot gs \<Rightarrow> Undefined)"

text \<open>The checks of a property that exists: \<open>None\<close> rejects; else whether the kind changes, and the descriptor to start from.\<close>

definition checkRedefinition ::
  "NativeCode \<Rightarrow> env \<Rightarrow> nat \<Rightarrow> u64 \<Rightarrow> PropertySlot \<Rightarrow> ObjectPropertyDescriptor \<Rightarrow> ObjectPropertyDescriptor
    \<Rightarrow> (bool \<times> ObjectPropertyDescriptor) option" where
  "checkRedefinition nc e ob current slot newDesc desc =
     (let nh = natives e
      in if isGenericDescriptor desc then Some (False, newDesc)
         else if isDataProperty current \<noteq> isDataDescriptor desc
         then if \<not> isConfigurable nh current then None
              else let f = (if isConfigurable nh current then 8 else 64) OR (if isEnumerable nh current then 4 else 32)
                   in Some (True, if isDataProperty current then mkAccessor (m_getterSetter desc) f
                                  else mkData (if isValuePresent desc then d_value desc else Undefined) f)
         else if isDataProperty current \<and> isDataDescriptor desc
         then if \<not> isConfigurable nh current
              then if \<not> isWritable nh current \<and> descWritable desc then None
                   else if \<not> isWritable nh current \<and> isValuePresent desc \<and>
                           \<not> sameValue (d_value desc) (ownDataValue nc e ob current slot)
                   then None else Some (False, newDesc)
              else Some (False, newDesc)
         else if \<not> isConfigurable nh current
         then (case slot of
                 PlainSlot v \<Rightarrow> Some (False, newDesc)
               | AccessorSlot currgs \<Rightarrow>
                   if hasSetter (m_getterSetter desc) \<and> \<not> sameBits (js_setter (m_getterSetter desc)) (setterOrUndefined currgs) then None
                   else if hasGetter (m_getterSetter desc) \<and> \<not> sameBits (js_getter (m_getterSetter desc)) (getterOrUndefined currgs) then None
                   else Some (False, newDesc))
         else Some (False, newDesc))"

text \<open>For each field that is present in \<open>desc\<close>, set the attribute.\<close>

definition applyDescriptor :: "ObjectPropertyDescriptor \<Rightarrow> ObjectPropertyDescriptor \<Rightarrow> ObjectPropertyDescriptor" where
  "applyDescriptor desc newDesc =
     (let d1 = (if isDataDescriptor newDesc
                then let d = (if isValuePresent desc then setValue (d_value desc) newDesc
                              else if \<not> isValuePresent newDesc then setValue Undefined newDesc else newDesc)
                     in if isWritablePresent desc then setWritable (descWritable desc) d else d
                else if isAccessorDescriptor desc
                then let gs = m_getterSetter newDesc;
                         g = (if hasGetter (m_getterSetter desc) then gs\<lparr>js_getter := js_getter (m_getterSetter desc)\<rparr> else gs);
                         s = (if hasSetter (m_getterSetter desc) then g\<lparr>js_setter := js_setter (m_getterSetter desc)\<rparr> else g)
                     in newDesc\<lparr>m_getterSetter := s\<rparr>
                else newDesc);
          d2 = (if isConfigurablePresent desc then setConfigurable (descConfigurable desc) d1 else d1)
      in if isEnumerablePresent desc then setEnumerable (descEnumerable desc) d2 else d2)"

definition attributesDiffer :: "native_heap \<Rightarrow> u64 \<Rightarrow> ObjectPropertyDescriptor \<Rightarrow> bool" where
  "attributesDiffer nh current newDesc \<longleftrightarrow>
     isDataDescriptor newDesc \<and> isWritablePresent newDesc \<and> descWritable newDesc \<noteq> isWritable nh current \<or>
     isEnumerablePresent newDesc \<and> descEnumerable newDesc \<noteq> isEnumerable nh current \<or>
     isConfigurablePresent newDesc \<and> descConfigurable newDesc \<noteq> isConfigurable nh current"

text \<open>\<open>setOwnDataPropertyUtilForObjectInner\<close>\<close>

definition setOwnDataInner :: "NativeCode \<Rightarrow> Heap \<Rightarrow> nat \<Rightarrow> nat \<Rightarrow> u64 \<Rightarrow> Value \<Rightarrow> nat option \<Rightarrow> (bool \<times> Heap) option" where
  "setOwnDataInner nc h ob i desc newValue receiver =
     (if isPlainDataProperty desc
      then Some (True, setObject ob (\<lambda>obj. obj\<lparr>o_values := (o_values obj)[i := PlainSlot newValue]\<rparr>) h)
      else case (natives (h_env h) desc, o_values (h_objects h ! ob) ! i) of
        (Some d, PlainSlot v) \<Rightarrow>
          (let (ret, v') = nativeSet nc (m_setter d) ob receiver v newValue
           in Some (ret, setObject ob (\<lambda>obj. obj\<lparr>o_values := (o_values obj)[i := PlainSlot v']\<rparr>) h))
      | _ \<Rightarrow> None)"

definition setAccessorSlot :: "Heap \<Rightarrow> nat \<Rightarrow> nat \<Rightarrow> JSGetterSetter \<Rightarrow> Heap" where
  "setAccessorSlot h ob i gs = setObject ob (\<lambda>obj. obj\<lparr>o_values := (o_values obj)[i := AccessorSlot gs]\<rparr>) h"

text \<open>The word of the replaced property, and the environment with the copied native data when it is one.\<close>

definition replacementWord :: "NativeCode \<Rightarrow> env \<Rightarrow> u64 \<Rightarrow> ObjectPropertyDescriptor \<Rightarrow> (u64 \<times> env) option" where
  "replacementWord nc e old newDesc =
     (if isDataDescriptor newDesc \<and> isNativeAccessorProperty old
      then map_option
             (\<lambda>d. (createDataButHasNativeGetterSetterDescriptor (newNative nc),
                   e\<lparr>natives := (natives e)(newNative nc \<mapsto>
                        nativeData (descWritable newDesc) (descEnumerable newDesc) (descConfigurable newDesc) (m_getter d) (m_setter d) False)\<rparr>))
             (natives e old)
      else Some (toObjectStructurePropertyDescriptor newDesc, e))"

definition storeRedefinition ::
  "NativeCode \<Rightarrow> Heap \<Rightarrow> nat \<Rightarrow> nat \<Rightarrow> u64 \<Rightarrow> bool \<Rightarrow> ObjectPropertyDescriptor \<Rightarrow> ObjectPropertyDescriptor \<Rightarrow> (bool \<times> Heap) option" where
  "storeRedefinition nc h ob i current shouldDelete desc newDesc =
     (if \<not> shouldDelete
      then if isDataDescriptor newDesc
           then if isValuePresent desc then setOwnDataInner nc h ob i current (d_value newDesc) (Some ob) else Some (True, h)
           else Some (True, setAccessorSlot h ob i (m_getterSetter newDesc))
      else case replacementWord nc (h_env h) current newDesc of
        None \<Rightarrow> None
      | Some (word, e) \<Rightarrow>
          (case replacePropertyDescriptor e (h_structures h) (objectStructure h ob) i word of
             None \<Rightarrow> None
           | Some (q, st) \<Rightarrow>
               (let h1 = setObject ob (\<lambda>obj. obj\<lparr>o_structure := q\<rparr>) (h\<lparr>h_env := e, h_structures := st\<rparr>)
                in if isDataDescriptor newDesc
                   then (case readProperty (st ! q) i of
                           None \<Rightarrow> None
                         | Some item \<Rightarrow> setOwnDataInner nc h1 ob i (m_descriptor item) (d_value newDesc) (Some ob))
                   else Some (True, setAccessorSlot h1 ob i (m_getterSetter newDesc)))))"

definition redefineProperty ::
  "NativeCode \<Rightarrow> Heap \<Rightarrow> nat \<Rightarrow> pname \<Rightarrow> nat \<Rightarrow> u64 \<Rightarrow> ObjectPropertyDescriptor \<Rightarrow> (bool \<times> Heap) option" where
  "redefineProperty nc h ob name i current desc =
     (let nh = natives (h_env h)
      in if \<not> isConfigurable nh current \<and> descConfigurable desc then Some (False, h)
         else if \<not> isConfigurable nh current \<and> isEnumerablePresent desc \<and> descEnumerable desc \<noteq> isEnumerable nh current
         then Some (False, h)
         else let slot = o_values (h_objects h ! ob) ! i;
                  v = (if isNativeAccessorProperty current
                       then map_option (\<lambda>(r, h'). (PlainSlot (dataValue nc (Some ob) r), h')) (objectGet (NameType name) h ob)
                       else Some (slot, h))
              in case v of
                   None \<Rightarrow> None
                 | Some (vslot, h1) \<Rightarrow>
                     (case fromObjectStructurePropertyDescriptor nh current vslot of
                        None \<Rightarrow> None
                      | Some newDesc0 \<Rightarrow>
                          (case checkRedefinition nc (h_env h1) ob current slot newDesc0 desc of
                             None \<Rightarrow> Some (False, h1)
                           | Some (converted, newDesc1) \<Rightarrow>
                               (let newDesc = applyDescriptor desc newDesc1
                                in storeRedefinition nc h1 ob i current (converted \<or> attributesDiffer nh current newDesc) desc newDesc))))"

definition defineOwnProperty :: "NativeCode \<Rightarrow> Heap \<Rightarrow> nat \<Rightarrow> ObjectPropertyName \<Rightarrow> ObjectPropertyDescriptor \<Rightarrow> (bool \<times> Heap) option" where
  "defineOwnProperty nc h ob P desc =
     (let name = toObjectStructurePropertyName P; p = objectStructure h ob
      in case findProperty (h_env h) (h_structures h) p name of
           None \<Rightarrow> None
         | Some (None, st) \<Rightarrow>
             (let h1 = h\<lparr>h_structures := st\<rparr>
              in if \<not> o_isExtensible (h_objects h ! ob) then Some (False, h1)
                 else map_option (\<lambda>h2. (True, h2)) (appendProperty h1 ob name desc))
         | Some (Some i, st) \<Rightarrow>
             (case readProperty (st ! p) i of
                None \<Rightarrow> None
              | Some item \<Rightarrow>
                  if i < length (o_values (h_objects h ! ob))
                  then redefineProperty nc (h\<lparr>h_structures := st\<rparr>) ob name i (m_descriptor item) desc
                  else None))"

section \<open>Deleting, setting, and the rest\<close>

definition deleteAt :: "Heap \<Rightarrow> nat \<Rightarrow> nat \<Rightarrow> Heap option" where
  "deleteAt h ob i =
     map_option (\<lambda>(q, st). setObject ob (\<lambda>obj. obj\<lparr>o_structure := q, o_values := remove_at i (o_values obj)\<rparr>) (h\<lparr>h_structures := st\<rparr>))
       (removeProperty (h_env h) (h_structures h) (objectStructure h ob) i)"

definition deleteOwnProperty :: "Heap \<Rightarrow> nat \<Rightarrow> ObjectPropertyName \<Rightarrow> (bool \<times> Heap) option" where
  "deleteOwnProperty h ob P =
     (case getOwnProperty h ob P of
        None \<Rightarrow> None
      | Some (result, h1) \<Rightarrow>
          if resultHasValue result \<and> resultConfigurable result
          then (case findProperty (h_env h1) (h_structures h1) (objectStructure h1 ob) (toObjectStructurePropertyName P) of
                  Some (Some i, st) \<Rightarrow> map_option (\<lambda>h2. (True, h2)) (deleteAt (h1\<lparr>h_structures := st\<rparr>) ob i)
                | _ \<Rightarrow> None)
          else if resultHasValue result \<and> \<not> resultConfigurable result then Some (False, h1)
          else Some (True, h1))"

text \<open>\<open>set\<close> ends by returning, or by calling a setter and returning true.\<close>

datatype SetOutcome = SetReturns bool | SetCalls Value

abbreviation (input) DescAllPresent :: flags where "DescAllPresent \<equiv> 142"

text \<open>The receiver is another object, or has no such property.\<close>

definition setOnReceiver :: "NativeCode \<Rightarrow> Heap \<Rightarrow> nat \<Rightarrow> ObjectPropertyName \<Rightarrow> Value \<Rightarrow> (bool \<times> Heap) option" where
  "setOnReceiver nc h receiverObj P v =
     (case getOwnProperty h receiverObj P of
        None \<Rightarrow> None
      | Some (existingDesc, h1) \<Rightarrow>
          if resultHasValue existingDesc
          then if \<not> resultIsData existingDesc then Some (False, h1)
               else if \<not> resultWritable existingDesc then Some (False, h1)
               else defineOwnProperty nc h1 receiverObj P (mkData v 0)
          else defineOwnProperty nc h1 receiverObj P (mkData v DescAllPresent))"

fun actsLikeJSGetterSetter :: "ObjectGetResult \<Rightarrow> bool" where
  "actsLikeJSGetterSetter (NativeResult d ob v w en c) = m_actsLikeJSGetterSetter d"
| "actsLikeJSGetterSetter _ = False"

definition setNative :: "NativeCode \<Rightarrow> Heap \<Rightarrow> nat \<Rightarrow> ObjectPropertyName \<Rightarrow> Value \<Rightarrow> nat \<Rightarrow> (bool \<times> Heap) option" where
  "setNative nc h ob P v receiverObj =
     (let p = objectStructure h ob
      in case findProperty (h_env h) (h_structures h) p (toObjectStructurePropertyName P) of
           Some (Some i, st) \<Rightarrow>
             (case readProperty (st ! p) i of
                Some item \<Rightarrow> setOwnDataInner nc (h\<lparr>h_structures := st\<rparr>) ob i (m_descriptor item) v (Some receiverObj)
              | None \<Rightarrow> None)
         | _ \<Rightarrow> None)"

text \<open>After the lookup: \<open>ob\<close> is the object where the property was found, or the end of the chain; the receiver may be no object.\<close>

definition setOnDescriptor ::
  "NativeCode \<Rightarrow> Heap \<Rightarrow> nat \<Rightarrow> ObjectPropertyName \<Rightarrow> Value \<Rightarrow> nat option \<Rightarrow> bool \<Rightarrow> ObjectGetResult \<Rightarrow> (SetOutcome \<times> Heap) option" where
  "setOnDescriptor nc h ob P v receiver hasValue ownDesc =
     (if resultIsData ownDesc
      then if \<not> resultWritable ownDesc then Some (SetReturns False, h)
           else case receiver of
             None \<Rightarrow> Some (SetReturns False, h)
           | Some receiverObj \<Rightarrow>
               map_option (\<lambda>(b, h'). (SetReturns b, h'))
                 (if actsLikeJSGetterSetter ownDesc then setNative nc h ob P v receiverObj
                  else if hasValue \<and> ob = receiverObj then defineOwnProperty nc h receiverObj P (mkData v 0)
                  else setOnReceiver nc h receiverObj P v)
      else let setter = setterOrUndefined (resultGetterSetter ownDesc)
           in if setter = Undefined then Some (SetReturns False, h) else Some (SetCalls setter, h))"

partial_function (option) objectSet ::
  "NativeCode \<Rightarrow> ObjectPropertyName \<Rightarrow> Value \<Rightarrow> nat option \<Rightarrow> Heap \<Rightarrow> nat \<Rightarrow> (SetOutcome \<times> Heap) option" where
  "objectSet nc P v receiver h ob =
     (case getOwnProperty h ob P of
        None \<Rightarrow> None
      | Some (ownDesc, h1) \<Rightarrow>
          if resultHasValue ownDesc then setOnDescriptor nc h1 ob P v receiver True ownDesc
          else case getPrototypeObject h1 ob of
            Some parent \<Rightarrow> objectSet nc P v receiver h1 parent
          | None \<Rightarrow> setOnDescriptor nc h1 ob P v receiver False (DataResult Undefined True True True))"

definition preventExtensions :: "Heap \<Rightarrow> nat \<Rightarrow> bool \<times> Heap" where
  "preventExtensions h ob =
     (let (q, st) = convertToNonTransitionStructure (h_env h) (h_structures h) (objectStructure h ob)
      in (True, setObject ob (\<lambda>obj. obj\<lparr>o_structure := q, o_isExtensible := False\<rparr>) (h\<lparr>h_structures := st\<rparr>)))"

text \<open>The loop of \<open>setPrototype\<close>: whether the walk up from \<open>p\<close> ends without meeting \<open>this\<close>.\<close>

partial_function (option) prototypeLoop :: "Heap \<Rightarrow> nat \<Rightarrow> nat option \<Rightarrow> bool option" where
  "prototypeLoop h this p =
     (case p of
        None \<Rightarrow> Some True
      | Some q \<Rightarrow> if q = this then Some False else prototypeLoop h this (getPrototypeObject h q))"

definition setPrototype :: "Heap \<Rightarrow> nat \<Rightarrow> nat option \<Rightarrow> (bool \<times> Heap) option" where
  "setPrototype h ob proto =
     (if proto = getPrototypeObject h ob then Some (True, h)
      else if \<not> o_isExtensible (h_objects h ! ob) then Some (False, h)
      else case prototypeLoop h ob proto of
        None \<Rightarrow> None
      | Some False \<Rightarrow> Some (False, h)
      | Some True \<Rightarrow> Some (True, setObject ob (\<lambda>obj. obj\<lparr>o_prototype := proto\<rparr>) h))"

definition defineNativeDataAccessorProperty :: "Heap \<Rightarrow> nat \<Rightarrow> ObjectPropertyName \<Rightarrow> addr \<Rightarrow> Value \<Rightarrow> (bool \<times> Heap) option" where
  "defineNativeDataAccessorProperty h ob P native internalData =
     (case getOwnProperty h ob P of
        None \<Rightarrow> None
      | Some (r, h1) \<Rightarrow>
          if resultHasValue r then Some (False, h1)
          else if \<not> o_isExtensible (h_objects h1 ! ob) then Some (False, h1)
          else map_option
                 (\<lambda>(q, st). (True, setObject ob (\<lambda>obj. obj\<lparr>o_structure := q, o_values := o_values obj @ [PlainSlot internalData]\<rparr>) (h1\<lparr>h_structures := st\<rparr>)))
                 (addProperty (h_env h1) (h_structures h1) (objectStructure h1 ob) (toObjectStructurePropertyName P)
                    (createDataButHasNativeGetterSetterDescriptor native)))"

end
