(* ===== verification/ObjectHeap.thy ===== *)
theory ObjectHeap
  imports OrdinaryObject
begin

text \<open>
  The well-formed heap: every object has a hidden class whose words fit its slots, a hidden class that is not in transition mode
  belongs to one object, and the chains of prototypes end. Here are the steps of the hidden classes with what they leave of the
  others, the update of one object, the lookup of its own properties, and the redefinition of one property as a function of the
  property alone.
\<close>

section \<open>The redefinition of one property\<close>

fun propOf :: "native_heap \<Rightarrow> u64 \<Rightarrow> PropertySlot \<Rightarrow> Prop" where
  "propOf nh d (PlainSlot v) = DataProp v (isWritable nh d) (isEnumerable nh d) (isConfigurable nh d)"
| "propOf nh d (AccessorSlot gs) = AccessorProp (getterOrUndefined gs) (setterOrUndefined gs) (isEnumerable nh d) (isConfigurable nh d)"

definition descProp :: "ObjectPropertyDescriptor \<Rightarrow> Prop" where
  "descProp d =
     (if m_isDataProperty d then DataProp (d_value d) (descWritable d) (descEnumerable d) (descConfigurable d)
      else AccessorProp (getterOrUndefined (m_getterSetter d)) (setterOrUndefined (m_getterSetter d)) (descEnumerable d) (descConfigurable d))"

text \<open>A slot fits the word of its property; native properties are left out.\<close>

fun slot_ok :: "u64 \<Rightarrow> PropertySlot \<Rightarrow> bool" where
  "slot_ok d (PlainSlot v) \<longleftrightarrow> d AND 1 \<noteq> 0 \<and> isDataProperty d"
| "slot_ok d (AccessorSlot gs) \<longleftrightarrow> d AND 1 \<noteq> 0 \<and> \<not> isDataProperty d \<and> gs_ok gs"

text \<open>What the steps of a redefinition build up: a descriptor that is a data descriptor or an accessor descriptor.\<close>

definition full_desc :: "ObjectPropertyDescriptor \<Rightarrow> bool" where
  "full_desc d \<longleftrightarrow> isDataDescriptor d = m_isDataProperty d \<and> (m_isDataProperty d \<longrightarrow> isValuePresent d) \<and>
     isEnumerablePresent d \<and> isConfigurablePresent d \<and> (\<not> m_isDataProperty d \<longrightarrow> gs_ok (m_getterSetter d))"

lemma inline_not_native: "d AND 1 \<noteq> 0 \<Longrightarrow> \<not> isNativeAccessorProperty d" "d AND 1 \<noteq> 0 \<Longrightarrow> isPlainDataProperty d = isDataProperty d"
proof -
  assume "d AND 1 \<noteq> 0"
  then have m: "descriptorMode d = d AND 64" by (simp add: descriptorMode_def)
  have "d AND 64 = 0 \<or> d AND 64 = 64"
  proof (cases "bit d 6")
    case True
    have "d AND 64 = 64" by (rule bit_eqI) (use True in \<open>auto simp: bit_and_iff flag_simps\<close>)
    then show ?thesis by simp
  qed (simp add: flag_simps)
  with m show "\<not> isNativeAccessorProperty d" "isPlainDataProperty d = isDataProperty d"
    by (auto simp: isNativeAccessorProperty_def isPlainDataProperty_def isDataProperty_def)
qed

lemma fromStructure_ok:
  assumes "slot_ok d slot"
  obtains nd where "fromObjectStructurePropertyDescriptor nh d slot = Some nd" "full_desc nd" "descProp nd = propOf nh d slot"
    "m_isDataProperty nd = isDataProperty d" "m_isDataProperty nd \<Longrightarrow> isWritablePresent nd"
proof (cases slot)
  case (PlainSlot v)
  with assms that show ?thesis
    by (auto simp: fromObjectStructurePropertyDescriptor_def full_desc_def descProp_def isDataDescriptor_def)
next
  case (AccessorSlot gs)
  with assms that show ?thesis
    by (auto simp: fromObjectStructurePropertyDescriptor_def full_desc_def descProp_def isDataDescriptor_def)
qed

lemma applyDescriptor_data:
  assumes nd: "full_desc nd" "m_isDataProperty nd" and d: "desc_ok d" "\<not> isAccessorDescriptor d"
  shows "full_desc (applyDescriptor d nd)" "m_isDataProperty (applyDescriptor d nd)"
    "descProp (applyDescriptor d nd) = DataProp (or_else (pd_value (descOf d)) (d_value nd)) (or_else (pd_writable (descOf d)) (descWritable nd))
       (or_else (pd_enumerable (descOf d)) (descEnumerable nd)) (or_else (pd_configurable (descOf d)) (descConfigurable nd))"
  using assms by (auto simp: applyDescriptor_def full_desc_def descProp_def isDataDescriptor_def isAccessorDescriptor_def Let_def)

lemma getterSetter_update_readers [simp]:
  "descWritable (d\<lparr>m_getterSetter := gs\<rparr>) = descWritable d" "isWritablePresent (d\<lparr>m_getterSetter := gs\<rparr>) = isWritablePresent d"
  "descEnumerable (d\<lparr>m_getterSetter := gs\<rparr>) = descEnumerable d" "isEnumerablePresent (d\<lparr>m_getterSetter := gs\<rparr>) = isEnumerablePresent d"
  "descConfigurable (d\<lparr>m_getterSetter := gs\<rparr>) = descConfigurable d" "isConfigurablePresent (d\<lparr>m_getterSetter := gs\<rparr>) = isConfigurablePresent d"
  "isValuePresent (d\<lparr>m_getterSetter := gs\<rparr>) = isValuePresent d"
  by (simp_all add: desc_readers)

lemma applyDescriptor_accessor:
  assumes nd: "full_desc nd" "\<not> m_isDataProperty nd" and d: "desc_ok d" "\<not> isDataDescriptor d"
  shows "full_desc (applyDescriptor d nd)" "\<not> m_isDataProperty (applyDescriptor d nd)"
    "descProp (applyDescriptor d nd) = AccessorProp (or_else (pd_get (descOf d)) (getterOrUndefined (m_getterSetter nd)))
       (or_else (pd_set (descOf d)) (setterOrUndefined (m_getterSetter nd)))
       (or_else (pd_enumerable (descOf d)) (descEnumerable nd)) (or_else (pd_configurable (descOf d)) (descConfigurable nd))"
  using assms
  by (auto simp: applyDescriptor_def full_desc_def descProp_def isDataDescriptor_def isAccessorDescriptor_def Let_def desc_ok_def gs_ok_def
      getterOrUndefined_def setterOrUndefined_def hasGetter_def hasSetter_def)


text \<open>The flags for a property whose kind changes.\<close>

lemma kind_flags [simp]:
  fixes a b :: bool
  defines "f \<equiv> (if a then 8 else 64) OR (if b then 4 else 32) :: flags"
  shows "bit f 2 = b" "bit f 3 = a" "bit f 5 = (\<not> b)" "bit f 6 = (\<not> a)" "\<not> bit f (Suc 0)" "\<not> bit f 4" "\<not> bit f 7"
  unfolding f_def by (auto simp: bit_or_iff bit_flag32_lits)

lemma converted_accessor:
  assumes "desc_ok desc" "isAccessorDescriptor desc"
  shows "full_desc (mkAccessor (m_getterSetter desc) ((if c then 8 else 64) OR (if en then 4 else 32)))"
  using assms by (simp add: full_desc_def isDataDescriptor_def desc_ok_def)

lemma converted_data: "full_desc (mkData v ((if c then 8 else 64) OR (if en then 4 else 32)))"
  by (simp add: full_desc_def isDataDescriptor_def)

lemma ownDataValue_inline: "slot_ok d (PlainSlot v) \<Longrightarrow> ownDataValue nc e ob d (PlainSlot v) = v"
  by (simp add: ownDataValue_def inline_not_native)

text \<open>The result of the checks on a data property.\<close>

lemma redefine_data:
  assumes slot: "slot_ok d (PlainSlot v)" and desc: "desc_ok desc"
    and nd: "full_desc nd" "descProp nd = propOf (natives e) d (PlainSlot v)" "m_isDataProperty nd"
    and c: "isConfigurable (natives e) d \<or> \<not> descConfigurable desc \<and> (isEnumerablePresent desc \<longrightarrow> descEnumerable desc = isEnumerable (natives e) d)"
  shows "case checkRedefinition nc e ob d (PlainSlot v) nd desc of
      None \<Rightarrow> rejected (descOf desc) (propOf (natives e) d (PlainSlot v))
    | Some (conv, nd1) \<Rightarrow> \<not> rejected (descOf desc) (propOf (natives e) d (PlainSlot v)) \<and> full_desc (applyDescriptor desc nd1) \<and>
        descProp (applyDescriptor desc nd1) = applied (descOf desc) (propOf (natives e) d (PlainSlot v)) \<and>
        (\<not> conv \<longrightarrow> m_isDataProperty (applyDescriptor desc nd1))"
proof -
  have k: "isDataProperty d" using slot by simp
  have acc: "IsAccessorDesc (descOf desc) = isAccessorDescriptor desc" using desc by (rule IsAccessorDesc_descOf)
  have v: "d_value nd = v" "descWritable nd = isWritable (natives e) d" "descEnumerable nd = isEnumerable (natives e) d"
    "descConfigurable nd = isConfigurable (natives e) d" using nd(2,3) by (simp_all add: descProp_def)
  show ?thesis
  proof (cases "isAccessorDescriptor desc")
    case True
    then have t: "\<not> isDataDescriptor desc" "\<not> isGenericDescriptor desc" using desc_kinds [OF desc] by (auto simp: isGenericDescriptor_def)
    let ?nd = "mkAccessor (m_getterSetter desc) ((if isConfigurable (natives e) d then 8 else 64) OR (if isEnumerable (natives e) d then 4 else 32))"
    note a = applyDescriptor_accessor [OF converted_accessor [OF desc True] _ desc t(1), of "isConfigurable (natives e) d" "isEnumerable (natives e) d"]
    have r: "checkRedefinition nc e ob d (PlainSlot v) nd desc = (if isConfigurable (natives e) d then Some (True, ?nd) else None)"
      using t k by (simp add: checkRedefinition_def Let_def)
    have gs: "or_else (pd_get (descOf desc)) (getterOrUndefined (m_getterSetter desc)) = or_else (pd_get (descOf desc)) Undefined"
      "or_else (pd_set (descOf desc)) (setterOrUndefined (m_getterSetter desc)) = or_else (pd_set (descOf desc)) Undefined"
      using True by (simp_all add: getterOrUndefined_def setterOrUndefined_def)
    show ?thesis using a gs True
      by (cases "isConfigurable (natives e) d"; cases "isEnumerable (natives e) d") (simp_all add: r acc del: descOf_simps)
  next
    case False
    note a = applyDescriptor_data [OF nd(1,3) desc False]
    have p: "isWritablePresent desc \<or> isValuePresent desc \<longleftrightarrow> isDataDescriptor desc" by (auto simp: isDataDescriptor_def)
    show ?thesis using False k acc a v p c present_if_set [of desc] ownDataValue_inline [OF slot]
      by (auto simp: checkRedefinition_def Let_def isGenericDescriptor_def differs_def split: if_splits)
  qed
qed

lemma redefine_accessor:
  assumes slot: "slot_ok d (AccessorSlot gs)" and desc: "desc_ok desc"
    and nd: "full_desc nd" "descProp nd = propOf (natives e) d (AccessorSlot gs)" "\<not> m_isDataProperty nd"
    and c: "isConfigurable (natives e) d \<or> \<not> descConfigurable desc \<and> (isEnumerablePresent desc \<longrightarrow> descEnumerable desc = isEnumerable (natives e) d)"
  shows "case checkRedefinition nc e ob d (AccessorSlot gs) nd desc of
      None \<Rightarrow> rejected (descOf desc) (propOf (natives e) d (AccessorSlot gs))
    | Some (conv, nd1) \<Rightarrow> \<not> rejected (descOf desc) (propOf (natives e) d (AccessorSlot gs)) \<and> full_desc (applyDescriptor desc nd1) \<and>
        descProp (applyDescriptor desc nd1) = applied (descOf desc) (propOf (natives e) d (AccessorSlot gs)) \<and>
        (\<not> conv \<longrightarrow> \<not> m_isDataProperty (applyDescriptor desc nd1))"
proof -
  have k: "\<not> isDataProperty d" "gs_ok gs" using slot by simp_all
  have v: "getterOrUndefined (m_getterSetter nd) = getterOrUndefined gs" "setterOrUndefined (m_getterSetter nd) = setterOrUndefined gs"
    "descEnumerable nd = isEnumerable (natives e) d" "descConfigurable nd = isConfigurable (natives e) d"
    using nd(2,3) by (simp_all add: descProp_def)
  show ?thesis
  proof (cases "isDataDescriptor desc")
    case True
    then have t: "\<not> isAccessorDescriptor desc" "\<not> isGenericDescriptor desc" using desc_kinds [OF desc] by (auto simp: isGenericDescriptor_def)
    note a = applyDescriptor_data [OF converted_data mkData_readers(1) desc t(1), of "if isValuePresent desc then d_value desc else Undefined"
        "isConfigurable (natives e) d" "isEnumerable (natives e) d"]
    have r: "checkRedefinition nc e ob d (AccessorSlot gs) nd desc =
        (if isConfigurable (natives e) d then Some (True, mkData (if isValuePresent desc then d_value desc else Undefined)
            ((if isConfigurable (natives e) d then 8 else 64) OR (if isEnumerable (natives e) d then 4 else 32))) else None)"
      using t k True by (simp add: checkRedefinition_def Let_def)
    have v: "or_else (pd_value (descOf desc)) (if isValuePresent desc then d_value desc else Undefined) = or_else (pd_value (descOf desc)) Undefined"
      by simp
    show ?thesis using a v True
      by (cases "isConfigurable (natives e) d"; cases "isEnumerable (natives e) d") (simp_all add: r del: descOf_simps)
  next
    case False
    note a = applyDescriptor_accessor [OF nd(1,3) desc False]
    have s: "isAccessorDescriptor desc \<Longrightarrow> hasGetter (m_getterSetter desc) \<Longrightarrow>
        sameBits (js_getter (m_getterSetter desc)) (getterOrUndefined gs) = sameValue (js_getter (m_getterSetter desc)) (getterOrUndefined gs)"
      "isAccessorDescriptor desc \<Longrightarrow> hasSetter (m_getterSetter desc) \<Longrightarrow>
        sameBits (js_setter (m_getterSetter desc)) (setterOrUndefined gs) = sameValue (js_setter (m_getterSetter desc)) (setterOrUndefined gs)"
      using k desc gs_functions by (auto simp: desc_ok_def intro!: sameBits_function)
    show ?thesis using False k a v s c present_if_set [of desc]
      by (auto simp: checkRedefinition_def Let_def isGenericDescriptor_def differs_def split: if_splits)
  qed
qed

section \<open>Steps of hidden classes, with what they leave of the others\<close>

definition structure_step :: "env \<Rightarrow> pname set \<Rightarrow> store \<Rightarrow> nat \<Rightarrow> (property_key \<times> u64) list \<Rightarrow> nat \<Rightarrow> store \<Rightarrow> bool" where
  "structure_step e N st p d q st' \<longleftrightarrow> store_inv e N st' \<and> dictOf e st' q = Some d \<and> length st \<le> length st' \<and>
     (\<forall>r < length st. r \<noteq> p \<or> inTransitionMode (st ! p) \<longrightarrow> dictOf e st' r = dictOf e st r) \<and>
     (\<forall>r < length st. inTransitionMode (st' ! r) = inTransitionMode (st ! r)) \<and>
     (length st \<le> q \<or> inTransitionMode (st' ! q) \<or> q = p \<and> st' = st)"

lemma structure_stepI:
  assumes "op_ok e st p d (q, st')" "store_inv e N st'" "p < length st"
    "\<forall>r < length st. inTransitionMode (st' ! r) = inTransitionMode (st ! r)"
    "length st \<le> q \<or> inTransitionMode (st' ! q) \<or> q = p \<and> st' = st"
  shows "structure_step e N st p d q st'"
  unfolding structure_step_def
proof (intro conjI)
  have f: "frame st st' p" "q < length st'" "\<exists>qs. properties (st' ! q) = Some qs \<and> dict e qs = d" using assms(1) by (simp_all add: op_ok_def)
  then show "dictOf e st' q = Some d" "length st \<le> length st'" by (auto simp: dictOf_Some frame_def)
  show "\<forall>r < length st. r \<noteq> p \<or> inTransitionMode (st ! p) \<longrightarrow> dictOf e st' r = dictOf e st r"
    using f(1) by (auto simp: frame_def dictOf_def)
qed (use assms in auto)

lemma mode_simps [simp]:
  "\<not> inTransitionMode (WithoutTransition b ps l)" "inTransitionMode (WithTransition b qs t)" "\<not> inTransitionMode (WithMap b ps m)"
  by (simp_all add: inTransitionMode_def)

lemma new_modes [simp]:
  "\<not> inTransitionMode (newWithoutTransition e ps i s n en)" "\<not> inTransitionMode (newWithMap ps m i s en)"
  "inTransitionMode (newWithTransition ps i s n en)"
  by (simp_all add: newWithoutTransition_def newWithMap_def newWithTransition_def Let_def)

lemma addProperty_modes:
  assumes ok: "store_ok e st" "p < length st" and r: "addProperty e st p name desc = Some (q, st')"
  shows "(\<forall>r < length st. inTransitionMode (st' ! r) = inTransitionMode (st ! r)) \<and> (length st \<le> q \<or> inTransitionMode (st' ! q))"
proof (cases "st ! p")
  case (WithTransition b ps table)
  show ?thesis
  proof (cases "findTransition e b table name desc")
    case (Some n)
    then obtain it where "it \<in> set table" "t_structure it = n" by (auto elim: findTransition_Some)
    then have "inTransitionMode (st ! n)"
      using ok WithTransition by (fastforce simp: store_ok_def links_ok_def link_ok_def)
    with Some WithTransition r show ?thesis by (auto simp: addProperty_defs Let_def)
  next
    case None
    with WithTransition r ok show ?thesis
      by (auto simp: addProperty_defs alloc_def Let_def nth_append nth_list_update split: if_splits prod.splits)
  qed
next
  case (WithoutTransition b ps l)
  with r ok show ?thesis
    by (cases ps) (auto simp: addProperty_defs alloc_def Let_def nth_append nth_list_update split: if_splits)
next
  case (WithMap b ps m)
  with r ok show ?thesis
    by (cases ps) (auto simp: addProperty_defs alloc_def Let_def nth_append nth_list_update split: if_splits)
qed

lemma removeProperty_modes:
  assumes "p < length st" "removeProperty e st p i = Some (q, st')"
  shows "(\<forall>r < length st. inTransitionMode (st' ! r) = inTransitionMode (st ! r)) \<and> length st \<le> q"
  using assms
  by (auto simp: removeProperty_defs alloc_def Let_def nth_append nth_list_update split: ObjectStructure.splits option.splits if_splits)

lemma replaceProperty_modes:
  assumes "p < length st" "replacePropertyDescriptor e st p i d = Some (q, st')"
  shows "(\<forall>r < length st. inTransitionMode (st' ! r) = inTransitionMode (st ! r)) \<and> length st \<le> q"
  using assms
  by (auto simp: replacePropertyDescriptor_defs alloc_def Let_def nth_append nth_list_update split: ObjectStructure.splits option.splits if_splits)

lemma findProperty_modes:
  assumes "findProperty e st p s = Some (r, st')" "p < length st"
  shows "inTransitionMode (st' ! q) = inTransitionMode (st ! q)"
proof (cases "st ! p")
  case (WithoutTransition b ps l)
  with assms show ?thesis
    by (cases ps; cases "q = p")
      (auto simp: findProperty_def findWithoutTransition_def Let_def nth_list_update split: if_splits option.splits prod.splits)
next
  case (WithMap b ps m)
  with assms show ?thesis
    by (cases ps; cases "q = p")
      (auto simp: findProperty_def findWithMap_def Let_def nth_list_update split: if_splits option.splits prod.splits)
qed (use assms in \<open>auto simp: findProperty_def\<close>)

lemma find_step:
  assumes inv: "store_inv e N st" and d: "dictOf e st p = Some d" and n: "n \<in> N" "name_ok (strings e) n"
  obtains st' where "findProperty e st p n = Some (find_index (\<lambda>x. fst x = nkey (strings e) n) d, st')" "store_inv e N st'"
    "\<forall>q. dictOf e st' q = dictOf e st q" "\<forall>q. inTransitionMode (st' ! q) = inTransitionMode (st ! q)"
proof -
  from os.find_law [OF inv d, of n] n obtain st' where
    f: "findProperty e st p n = Some (find_index (\<lambda>x. fst x = nkey (strings e) n) d, st')" "store_inv e N st'"
    "\<forall>q. dictOf e st' q = dictOf e st q" by auto
  with findProperty_modes [OF f(1)] d show ?thesis by (intro that) (auto simp: dictOf_Some)
qed

lemma add_step:
  assumes inv: "store_inv e N st" and d: "dictOf e st p = Some d" and n: "n \<in> N" "name_ok (strings e) n"
    and new: "find_index (\<lambda>x. fst x = nkey (strings e) n) d = None"
  obtains q st' where "addProperty e st p n x = Some (q, st')" "structure_step e N st p (d @ [(nkey (strings e) n, x)]) q st'"
proof -
  from d obtain ps where ps: "p < length st" "properties (st ! p) = Some ps" "d = dict e ps" by (auto simp: dictOf_Some)
  have ok: "store_ok e st" using inv by (simp add: store_inv_def)
  have "nkey (strings e) n \<notin> item_key e ` set ps" using new ps(3) by (auto simp: find_index_None dict_def)
  from addProperty_ok [OF ok ps(1,2) n(2) this, of x] obtain q st' where
    a: "addProperty e st p n x = Some (q, st')" "op_ok e st p (d @ [(nkey (strings e) n, x)]) (q, st')" using ps(3) by auto
  have "store_inv e N st'" using addProperty_names [OF ps(1) a(1)] n inv a(2) by (auto simp: op_ok_def store_inv_def)
  from structure_stepI [OF a(2) this ps(1)] addProperty_modes [OF ok ps(1) a(1)] that a(1) show ?thesis by blast
qed

lemma remove_step:
  assumes inv: "store_inv e N st" and d: "dictOf e st p = Some d" and i: "i < length d"
  obtains q st' where "removeProperty e st p i = Some (q, st')" "structure_step e N st p (remove_at i d) q st'"
proof -
  from d obtain ps where ps: "p < length st" "properties (st ! p) = Some ps" "d = dict e ps" by (auto simp: dictOf_Some)
  have ok: "store_ok e st" using inv by (simp add: store_inv_def)
  from removeProperty_ok [OF ok ps(1,2), of i] i ps(3) obtain q st' where
    r: "removeProperty e st p i = Some (q, st')" "op_ok e st p (remove_at i d) (q, st')" by (auto simp: dict_def)
  have "store_inv e N st'" using removeProperty_names [OF ps(1) r(1)] inv r(2) by (auto simp: op_ok_def store_inv_def)
  from structure_stepI [OF r(2) this ps(1)] removeProperty_modes [OF ps(1) r(1)] that r(1) show ?thesis by blast
qed

lemma replace_step:
  assumes inv: "store_inv e N st" and d: "dictOf e st p = Some d" and i: "i < length d"
  obtains q st' where "replacePropertyDescriptor e st p i x = Some (q, st')" "structure_step e N st p (d[i := (fst (d ! i), x)]) q st'"
proof -
  from d obtain ps where ps: "p < length st" "properties (st ! p) = Some ps" "d = dict e ps" by (auto simp: dictOf_Some)
  have ok: "store_ok e st" using inv by (simp add: store_inv_def)
  have i': "i < length ps" using i ps(3) by (simp add: dict_def)
  from replacePropertyDescriptor_ok [OF ok ps(1,2) i', of x] ps(3) obtain q st' where
    r: "replacePropertyDescriptor e st p i x = Some (q, st')" "op_ok e st p (d[i := (fst (d ! i), x)]) (q, st')" by auto
  have "store_inv e N st'"
    using replacePropertyDescriptor_names [OF ps(1) r(1) ps(2) i'] inv r(2) by (auto simp: op_ok_def store_inv_def)
  from structure_stepI [OF r(2) this ps(1)] replaceProperty_modes [OF ps(1) r(1)] that r(1) show ?thesis by blast
qed

lemma convert_step:
  assumes inv: "store_inv e N st" and d: "dictOf e st p = Some d"
  obtains q st' where "convertToNonTransitionStructure e st p = (q, st')" "structure_step e N st p d q st'"
proof -
  from d obtain ps where ps: "p < length st" "properties (st ! p) = Some ps" "d = dict e ps" by (auto simp: dictOf_Some)
  have ok: "store_ok e st" using inv by (simp add: store_inv_def)
  obtain q st' where c: "convertToNonTransitionStructure e st p = (q, st')" by fastforce
  have o: "op_ok e st p d (q, st')" using convertToNonTransitionStructure_ok(1) [OF ok ps(1,2)] c ps(3) by simp
  have m: "(\<forall>r < length st. st' ! r = st ! r) \<and> (length st \<le> q \<or> q = p \<and> st' = st)"
    using c by (auto simp: convertToNonTransitionStructure_def alloc_def nth_append split: ObjectStructure.splits)
  have "store_names st' \<subseteq> store_names st"
    using c ps(2) store_names_nth [OF ps(1,2)] by (auto simp: convertToNonTransitionStructure_def alloc_def newWithoutTransition_def Let_def
        split: ObjectStructure.splits if_splits)
  then have "store_inv e N st'" using inv o by (auto simp: op_ok_def store_inv_def)
  from structure_stepI [OF o this ps(1)] m that c show ?thesis by auto
qed

section \<open>The heap of objects\<close>

definition slotProps :: "native_heap \<Rightarrow> (property_key \<times> u64) list \<Rightarrow> PropertySlot list \<Rightarrow> (property_key \<times> Prop) list" where
  "slotProps nh d vs = map (\<lambda>((k, w), s). (k, propOf nh w s)) (zip d vs)"

definition slots_ok :: "(property_key \<times> u64) list \<Rightarrow> PropertySlot list \<Rightarrow> bool" where
  "slots_ok d vs \<longleftrightarrow> list_all2 (\<lambda>(k, w) s. slot_ok w s) d vs"

text \<open>The properties of an object, in order.\<close>

definition propsOf :: "Heap \<Rightarrow> nat \<Rightarrow> (property_key \<times> Prop) list" where
  "propsOf h ob =
     (case dictOf (h_env h) (h_structures h) (objectStructure h ob) of
        None \<Rightarrow> [] | Some d \<Rightarrow> slotProps (natives (h_env h)) d (o_values (h_objects h ! ob)))"

definition parents :: "Heap \<Rightarrow> (nat \<times> nat) set" where
  "parents h = {(q, ob). ob < length (h_objects h) \<and> getPrototypeObject h ob = Some q}"

text \<open>
  A hidden class that is not in transition mode belongs to one object, for its vector moves when a property is added. Chains of
  prototypes end.
\<close>

definition heap_ok :: "pname set \<Rightarrow> Heap \<Rightarrow> bool" where
  "heap_ok N h \<longleftrightarrow> store_inv (h_env h) N (h_structures h) \<and>
     (\<forall>ob < length (h_objects h). \<exists>d. dictOf (h_env h) (h_structures h) (objectStructure h ob) = Some d \<and> slots_ok d (o_values (h_objects h ! ob))) \<and>
     (\<forall>a < length (h_objects h). \<forall>b < length (h_objects h). a \<noteq> b \<longrightarrow> objectStructure h a = objectStructure h b \<longrightarrow>
        inTransitionMode (h_structures h ! objectStructure h a)) \<and>
     (\<forall>(q, ob) \<in> parents h. q < length (h_objects h)) \<and> acyclic (parents h)"

lemma slotProps_simps [simp]:
  "length (slotProps nh d vs) = min (length d) (length vs)"
  "length d = length vs \<Longrightarrow> map fst (slotProps nh d vs) = map fst d"
  by (auto simp: slotProps_def split_beta intro!: nth_equalityI)

lemma slotProps_append: "length d = length vs \<Longrightarrow> slotProps nh (d @ [(k, w)]) (vs @ [s]) = slotProps nh d vs @ [(k, propOf nh w s)]"
  by (simp add: slotProps_def)

lemma slotProps_nth: "i < length d \<Longrightarrow> i < length vs \<Longrightarrow> slotProps nh d vs ! i = (fst (d ! i), propOf nh (snd (d ! i)) (vs ! i))"
  by (simp add: slotProps_def split_beta)

lemma slotProps_update:
  "length d = length vs \<Longrightarrow> slotProps nh (d[i := (k, w)]) (vs[i := s]) = (slotProps nh d vs)[i := (k, propOf nh w s)]"
  by (cases "i < length vs") (auto intro!: nth_equalityI simp: slotProps_nth nth_list_update)

lemma slotProps_remove:
  assumes "length d = length vs"
  shows "slotProps nh (remove_at i d) (remove_at i vs) = remove_at i (slotProps nh d vs)"
proof -
  have "zip (take i d @ drop (Suc i) d) (take i vs @ drop (Suc i) vs) = take i (zip d vs) @ drop (Suc i) (zip d vs)"
    using assms by (simp add: zip_append take_zip drop_zip)
  then show ?thesis by (simp add: slotProps_def remove_at_def take_map drop_map)
qed

lemma slots_ok_length: "slots_ok d vs \<Longrightarrow> length d = length vs"
  by (auto simp: slots_ok_def dest: list_all2_lengthD)

lemma slots_ok_nth: "slots_ok d vs \<Longrightarrow> i < length d \<Longrightarrow> slot_ok (snd (d ! i)) (vs ! i)"
  by (auto simp: slots_ok_def split_beta dest: list_all2_nthD)

lemma slots_ok_append: "slots_ok d vs \<Longrightarrow> slot_ok w s \<Longrightarrow> slots_ok (d @ [(k, w)]) (vs @ [s])"
  by (auto simp: slots_ok_def intro!: list_all2_appendI)

lemma slots_ok_update: "slots_ok d vs \<Longrightarrow> slot_ok w s \<Longrightarrow> slots_ok (d[i := (k, w)]) (vs[i := s])"
  by (auto simp: slots_ok_def intro!: list_all2_update_cong)

lemma slots_ok_remove: "slots_ok d vs \<Longrightarrow> slots_ok (remove_at i d) (remove_at i vs)"
  unfolding slots_ok_def remove_at_def by (auto intro!: list_all2_appendI list_all2_takeI list_all2_dropI)

lemma heap_object:
  assumes "heap_ok N h" "ob < length (h_objects h)"
  obtains d where "dictOf (h_env h) (h_structures h) (objectStructure h ob) = Some d" "slots_ok d (o_values (h_objects h ! ob))"
    "propsOf h ob = slotProps (natives (h_env h)) d (o_values (h_objects h ! ob))" "distinct (map fst d)"
proof -
  from assms obtain d where d: "dictOf (h_env h) (h_structures h) (objectStructure h ob) = Some d" "slots_ok d (o_values (h_objects h ! ob))"
    by (auto simp: heap_ok_def)
  moreover have "distinct (map fst d)" using os.dict_distinct d(1) assms(1) by (auto simp: heap_ok_def)
  ultimately show ?thesis by (intro that) (auto simp: propsOf_def)
qed

lemma stay_step: "store_inv e N st \<Longrightarrow> dictOf e st p = Some d \<Longrightarrow> structure_step e N st p d p st"
  by (auto simp: structure_step_def)

text \<open>One object gets another hidden class and other slots.\<close>

lemma heap_update:
  assumes h: "heap_ok N h" and ob: "ob < length (h_objects h)"
    and step: "structure_step (h_env h) N (h_structures h) (objectStructure h ob) d q st"
    and obj: "o_structure obj = q" "slots_ok d (o_values obj)" "o_prototype obj = getPrototypeObject h ob"
    and h': "h' = h\<lparr>h_structures := st, h_objects := (h_objects h)[ob := obj]\<rparr>"
  shows "heap_ok N h'" "propsOf h' ob = slotProps (natives (h_env h)) d (o_values obj)"
    "\<And>b. b < length (h_objects h) \<Longrightarrow> b \<noteq> ob \<Longrightarrow> propsOf h' b = propsOf h b"
proof -
  let ?e = "h_env h" and ?st = "h_structures h" and ?n = "length (h_objects h)"
  have s: "store_inv ?e N st" "dictOf ?e st q = Some d" "length ?st \<le> length st"
    "\<forall>r < length ?st. r \<noteq> objectStructure h ob \<or> inTransitionMode (?st ! objectStructure h ob) \<longrightarrow> dictOf ?e st r = dictOf ?e ?st r"
    "\<forall>r < length ?st. inTransitionMode (st ! r) = inTransitionMode (?st ! r)"
    "length ?st \<le> q \<or> inTransitionMode (st ! q) \<or> q = objectStructure h ob \<and> st = ?st"
    using step by (auto simp: structure_step_def)
  have own: "a \<noteq> b \<Longrightarrow> a < ?n \<Longrightarrow> b < ?n \<Longrightarrow> objectStructure h a = objectStructure h b \<Longrightarrow> inTransitionMode (?st ! objectStructure h a)" for a b
    using h by (auto simp: heap_ok_def)
  have str: "objectStructure h b < length ?st" if "b < ?n" for b
    using h that by (fastforce simp: heap_ok_def dictOf_Some)
  have new: "objectStructure h' b = (if b = ob then q else objectStructure h b)" "h_objects h' ! b = (if b = ob then obj else h_objects h ! b)"
    if "b < ?n" for b using that ob obj(1) by (auto simp: h' objectStructure_def)
  have dict: "dictOf ?e st (objectStructure h b) = dictOf ?e ?st (objectStructure h b)" if "b < ?n" "b \<noteq> ob" for b
    using s(4) str [OF that(1)] own [OF that(2,1) ob] by metis
  have eh: "h_env h' = ?e" "h_structures h' = st" by (simp_all add: h')
  show "propsOf h' ob = slotProps (natives ?e) d (o_values obj)"
    using s(2) new [OF ob] eh by (simp add: propsOf_def)
  show other: "propsOf h' b = propsOf h b" if "b < ?n" "b \<noteq> ob" for b
    using dict [OF that] new [OF that(1)] that eh by (simp add: propsOf_def split: option.split)
  have par: "parents h' = parents h"
    using obj(3) ob by (auto simp: parents_def getPrototypeObject_def h' nth_list_update split: if_splits)
  have "\<exists>d. dictOf ?e st (objectStructure h' b) = Some d \<and> slots_ok d (o_values (h_objects h' ! b))" if "b < ?n" for b
    using h that dict [OF that] new [OF that] s(2) obj(2) by (auto simp: heap_ok_def)
  moreover have "inTransitionMode (st ! objectStructure h' a)"
    if ab: "a < ?n" "b < ?n" "a \<noteq> b" "objectStructure h' a = objectStructure h' b" for a b
  proof -
    have q: "inTransitionMode (st ! q)" if "q = objectStructure h c" "c < ?n" "c \<noteq> ob" for c
      using s(6) str [OF that(2)] that own [OF that(3,2) ob] by auto
    show ?thesis
      using ab new [OF ab(1)] new [OF ab(2)] q [of a] q [of b] own [OF ab(3,1,2)] s(5) str [OF ab(1)] by (auto split: if_splits)
  qed
  ultimately show "heap_ok N h'"
    using h s(1) par unfolding heap_ok_def by (simp add: h')
qed


section \<open>Looking up\<close>

text \<open>The names a heap may be asked for: known, well formed, and an integer has the name of an index.\<close>

definition valid_name :: "pname set \<Rightarrow> env \<Rightarrow> ObjectPropertyName \<Rightarrow> bool" where
  "valid_name N e P \<longleftrightarrow> toObjectStructurePropertyName P \<in> N \<and> name_ok (strings e) (toObjectStructurePropertyName P) \<and>
     (isUIntType P \<longrightarrow> nameIsIndexString (strings e) (toObjectStructurePropertyName P))"

abbreviation keyOf :: "Heap \<Rightarrow> ObjectPropertyName \<Rightarrow> property_key" where
  "keyOf h P \<equiv> nkey (strings (h_env h)) (toObjectStructurePropertyName P)"

text \<open>A lookup changes nothing but the caches of the hidden classes.\<close>

definition same_objects :: "pname set \<Rightarrow> Heap \<Rightarrow> Heap \<Rightarrow> bool" where
  "same_objects N h h' \<longleftrightarrow> heap_ok N h' \<and> h_env h' = h_env h \<and> h_objects h' = h_objects h \<and>
     (\<forall>p. dictOf (h_env h) (h_structures h') p = dictOf (h_env h) (h_structures h) p)"

lemma same_props: "same_objects N h h' \<Longrightarrow> propsOf h' b = propsOf h b"
  by (simp add: same_objects_def propsOf_def objectStructure_def split: option.split)

lemma same_objects_refl: "heap_ok N h \<Longrightarrow> same_objects N h h"
  by (simp add: same_objects_def)

lemma same_objects_trans: "same_objects N h h1 \<Longrightarrow> same_objects N h1 h2 \<Longrightarrow> same_objects N h h2"
  by (simp add: same_objects_def)

lemma same_prototypes: "same_objects N h h' \<Longrightarrow> getPrototypeObject h' b = getPrototypeObject h b"
  by (simp add: same_objects_def getPrototypeObject_def)

lemma find_index_props:
  assumes "length d = length vs"
  shows "find_index (\<lambda>x. fst x = k) (slotProps nh d vs) = find_index (\<lambda>x. fst x = k) d"
  using slotProps_simps(2) [OF assms, of nh] by (simp add: find_index_fst)

lemma heap_find:
  assumes h: "heap_ok N h" and ob: "ob < length (h_objects h)" and P: "valid_name N (h_env h) P"
  obtains st where "findProperty (h_env h) (h_structures h) (objectStructure h ob) (toObjectStructurePropertyName P) =
      Some (find_index (\<lambda>x. fst x = keyOf h P) (propsOf h ob), st)" "same_objects N h (h\<lparr>h_structures := st\<rparr>)"
proof -
  from h ob obtain d where d: "dictOf (h_env h) (h_structures h) (objectStructure h ob) = Some d" "slots_ok d (o_values (h_objects h ! ob))"
    "propsOf h ob = slotProps (natives (h_env h)) d (o_values (h_objects h ! ob))" by (rule heap_object)
  have inv: "store_inv (h_env h) N (h_structures h)" using h by (simp add: heap_ok_def)
  from P have n: "toObjectStructurePropertyName P \<in> N" "name_ok (strings (h_env h)) (toObjectStructurePropertyName P)" by (simp_all add: valid_name_def)
  from find_step [OF inv d(1) n] obtain st where f:
    "findProperty (h_env h) (h_structures h) (objectStructure h ob) (toObjectStructurePropertyName P) = Some (find_index (\<lambda>x. fst x = keyOf h P) d, st)"
    "store_inv (h_env h) N st" "\<forall>q. dictOf (h_env h) st q = dictOf (h_env h) (h_structures h) q"
    "\<forall>q. inTransitionMode (st ! q) = inTransitionMode (h_structures h ! q)" .
  have "heap_ok N (h\<lparr>h_structures := st\<rparr>)"
    using h f by (simp add: heap_ok_def objectStructure_def parents_def getPrototypeObject_def)
  with f d slots_ok_length [OF d(2)] show ?thesis by (intro that [of st]) (simp_all add: find_index_props same_objects_def)
qed

lemma readProperty_dict:
  assumes "dictOf e st p = Some d" "i < length d"
  obtains item where "readProperty (st ! p) i = Some item" "m_descriptor item = snd (d ! i)"
  using assms by (auto simp: dictOf_Some readProperty_def dict_def intro!: that)

lemma resultAt_ok:
  assumes "slot_ok w slot"
  obtains r where "resultAt e ob w slot = Some r" "resultProp (dataValue nc rc) r = Some (propOf (natives e) w slot)" "result_ok r"
    "resultHasValue r" "\<not> actsLikeJSGetterSetter r"
proof -
  have f: "presentAttributes (natives e) w AND 2 \<noteq> 0 \<longleftrightarrow> isWritable (natives e) w" "presentAttributes (natives e) w AND 4 \<noteq> 0 \<longleftrightarrow> isEnumerable (natives e) w"
    "presentAttributes (natives e) w AND 8 \<noteq> 0 \<longleftrightarrow> isConfigurable (natives e) w"
    using assms by (cases slot; simp add: presentAttributes_def reader_defs presentAttribute_def and.commute)+
  show ?thesis using assms inline_not_native [of w]
    by (cases slot) (auto simp: resultAt_def f Let_def intro!: that)
qed

text \<open>The fast path for integers: the flag of the hidden class says that no property has the name of an index.\<close>

lemma no_index_property:
  assumes h: "heap_ok N h" and ob: "ob < length (h_objects h)" and P: "valid_name N (h_env h) P" "isUIntType P"
    and flag: "\<not> m_hasIndexPropertyName (base (h_structures h ! objectStructure h ob))"
  shows "find_index (\<lambda>x. fst x = keyOf h P) (propsOf h ob) = None"
proof -
  from h ob obtain d where d: "dictOf (h_env h) (h_structures h) (objectStructure h ob) = Some d" "slots_ok d (o_values (h_objects h ! ob))"
    "propsOf h ob = slotProps (natives (h_env h)) d (o_values (h_objects h ! ob))" by (rule heap_object)
  from d(1) obtain ps where ps: "objectStructure h ob < length (h_structures h)" "properties (h_structures h ! objectStructure h ob) = Some ps"
    "d = dict (h_env h) ps" by (auto simp: dictOf_Some)
  have ok: "store_ok (h_env h) (h_structures h)" using h by (simp add: heap_ok_def store_inv_def)
  then have s: "structure_ok (h_env h) (h_structures h ! objectStructure h ob)" "atoms_ok (strings (h_env h))" using ps(1) by (auto simp: store_ok_def)
  have "flags_ok (h_env h) (base (h_structures h ! objectStructure h ob)) ps" "items_ok (h_env h) ps"
    using s(1) ps(2) by (cases "h_structures h ! objectStructure h ob"; auto)+
  then have noidx: "\<not> nameIsIndexString (strings (h_env h)) (m_propertyName it)" "name_ok (strings (h_env h)) (m_propertyName it)" if "it \<in> set ps" for it
    using that flag by (auto simp: flags_ok_def items_ok_def)
  have "item_key (h_env h) it \<noteq> keyOf h P" if "it \<in> set ps" for it
  proof
    assume eq: "item_key (h_env h) it = keyOf h P"
    have "nameIsIndexString (strings (h_env h)) a \<longleftrightarrow> (\<exists>c. nkey (strings (h_env h)) a = KString c \<and> isIndexString c)"
      if "name_ok (strings (h_env h)) a" for a
      using s(2) that by (cases rule: name_ok_cases) (auto simp: nameIsIndexString_def nkey_def isPlainString_def hasSymbol_def isSymbol_def)
    with eq noidx [OF that] P show False by (auto simp: valid_name_def)
  qed
  then have "find_index (\<lambda>x. fst x = keyOf h P) d = None" using ps(3) by (auto simp: find_index_None dict_def)
  then show ?thesis using d(3) slots_ok_length [OF d(2)] by (simp add: find_index_props)
qed

lemma map_of_find_index:
  assumes "distinct (map fst d)"
  shows "map_of d k = (case find_index (\<lambda>x. fst x = k) d of None \<Rightarrow> None | Some i \<Rightarrow> Some (snd (d ! i)))"
  using assms by (induction d) (auto split: option.splits)

lemma props_distinct: "heap_ok N h \<Longrightarrow> ob < length (h_objects h) \<Longrightarrow> distinct (map fst (propsOf h ob))"
  by (erule (1) heap_object) (simp add: slots_ok_length)

lemma getOwnProperty_ok:
  assumes h: "heap_ok N h" and ob: "ob < length (h_objects h)" and P: "valid_name N (h_env h) P"
  obtains r h' where "getOwnProperty h ob P = Some (r, h')" "resultProp (dataValue nc rc) r = map_of (propsOf h ob) (keyOf h P)"
    "result_ok r" "same_objects N h h'" "\<not> actsLikeJSGetterSetter r"
proof (cases "isUIntType P \<and> \<not> m_hasIndexPropertyName (base (h_structures h ! objectStructure h ob))")
  case True
  with no_index_property [OF h ob P] have "map_of (propsOf h ob) (keyOf h P) = None"
    using map_of_find_index [OF props_distinct [OF h ob]] by simp
  with True that [of NoResult h] same_objects_refl [OF h] show ?thesis by (simp add: getOwnProperty_def Let_def)
next
  case False
  note m = map_of_find_index [OF props_distinct [OF h ob], of "keyOf h P"]
  from h ob P obtain st where f: "findProperty (h_env h) (h_structures h) (objectStructure h ob) (toObjectStructurePropertyName P) =
      Some (find_index (\<lambda>x. fst x = keyOf h P) (propsOf h ob), st)" "same_objects N h (h\<lparr>h_structures := st\<rparr>)" by (rule heap_find)
  show ?thesis
  proof (cases "find_index (\<lambda>x. fst x = keyOf h P) (propsOf h ob)")
    case None
    have "getOwnProperty h ob P = Some (NoResult, h\<lparr>h_structures := st\<rparr>)" by (simp add: getOwnProperty_def Let_def if_not_P [OF False] f(1) None)
    then show ?thesis by (rule that) (use m None f(2) in simp_all)
  next
    case (Some i)
    from h ob obtain d where d: "dictOf (h_env h) (h_structures h) (objectStructure h ob) = Some d" "slots_ok d (o_values (h_objects h ! ob))"
      "propsOf h ob = slotProps (natives (h_env h)) d (o_values (h_objects h ! ob))" by (rule heap_object)
    note len = slots_ok_length [OF d(2)]
    have i: "i < length d" using Some d(3) len by (auto dest: find_index_SomeD)
    have "dictOf (h_env h) st (objectStructure h ob) = Some d" using f(2) d(1) by (simp add: same_objects_def)
    then obtain item where item: "readProperty (st ! objectStructure h ob) i = Some item" "m_descriptor item = snd (d ! i)"
      using i by (rule readProperty_dict)
    obtain r where r: "resultAt (h_env h) ob (snd (d ! i)) (o_values (h_objects h ! ob) ! i) = Some r"
      "resultProp (dataValue nc rc) r = Some (propOf (natives (h_env h)) (snd (d ! i)) (o_values (h_objects h ! ob) ! i))" "result_ok r"
      "\<not> actsLikeJSGetterSetter r"
      by (rule resultAt_ok [OF slots_ok_nth [OF d(2) i]])
    have "getOwnProperty h ob P = Some (r, h\<lparr>h_structures := st\<rparr>)"
      using item r(1) i len by (simp add: getOwnProperty_def Let_def if_not_P [OF False] f(1) Some)
    then show ?thesis
      by (rule that) (use m Some r d(3) i len f(2) in \<open>simp_all add: slotProps_nth\<close>)
  qed
qed

end
