(* ===== verification/ObjectMethods.thy ===== *)
theory ObjectMethods
  imports ObjectHeap
begin

text \<open>
  The internal methods of ordinary objects against ECMA-262: \<open>defineOwnProperty\<close> against \<open>ValidateAndApplyPropertyDescriptor\<close>,
  \<open>deleteOwnProperty\<close> against \<open>[[Delete]]\<close>, and the walks up the chain of prototypes, \<open>get\<close>, \<open>hasProperty\<close> and \<open>set\<close>, which share one
  locale.
\<close>

section \<open>Defining properties\<close>

definition changes_only :: "pname set \<Rightarrow> nat \<Rightarrow> Heap \<Rightarrow> Heap \<Rightarrow> bool" where
  "changes_only N ob h h' \<longleftrightarrow> heap_ok N h' \<and> h_env h' = h_env h \<and> length (h_objects h') = length (h_objects h) \<and>
     (\<forall>b. getPrototypeObject h' b = getPrototypeObject h b \<and> o_isExtensible (h_objects h' ! b) = o_isExtensible (h_objects h ! b)) \<and>
     (\<forall>b < length (h_objects h). b \<noteq> ob \<longrightarrow> propsOf h' b = propsOf h b)"

lemma same_changes: "same_objects N h h' \<Longrightarrow> changes_only N ob h h'"
  using same_props [of N h h'] same_prototypes [of N h h'] by (simp add: changes_only_def same_objects_def)

lemma changes_trans: "changes_only N ob h h1 \<Longrightarrow> changes_only N ob h1 h2 \<Longrightarrow> changes_only N ob h h2"
  by (simp add: changes_only_def)

lemma setObject_simps [simp]:
  "h_env (setObject ob f h) = h_env h" "h_structures (setObject ob f h) = h_structures h"
  "length (h_objects (setObject ob f h)) = length (h_objects h)"
  "ob < length (h_objects h) \<Longrightarrow> setObject ob f (setObject ob g h) = setObject ob (\<lambda>x. f (g x)) h"
  by (simp_all add: setObject_def)

lemma object_update:
  assumes h: "heap_ok N h" and ob: "ob < length (h_objects h)"
    and step: "structure_step (h_env h) N (h_structures h) (objectStructure h ob) d q st" and vs: "slots_ok d vs"
    and h': "h' = setObject ob (\<lambda>obj. obj\<lparr>o_structure := q, o_values := vs\<rparr>) (h\<lparr>h_structures := st\<rparr>)"
  shows "changes_only N ob h h'" "propsOf h' ob = slotProps (natives (h_env h)) d vs"
proof -
  let ?obj = "(h_objects h ! ob)\<lparr>o_structure := q, o_values := vs\<rparr>"
  have e: "h' = h\<lparr>h_structures := st, h_objects := (h_objects h)[ob := ?obj]\<rparr>" by (simp add: h' setObject_def)
  note u = heap_update [OF h ob step _ _ _ e]
  show "propsOf h' ob = slotProps (natives (h_env h)) d vs" using u(2) vs by (simp add: getPrototypeObject_def)
  have "getPrototypeObject h' b = getPrototypeObject h b \<and> o_isExtensible (h_objects h' ! b) = o_isExtensible (h_objects h ! b)" for b
    by (cases "b = ob") (use ob in \<open>auto simp: e getPrototypeObject_def\<close>)
  then show "changes_only N ob h h'" using u(1,3) vs by (simp add: changes_only_def e getPrototypeObject_def)
qed

lemma slot_update:
  assumes h: "heap_ok N h" and ob: "ob < length (h_objects h)"
    and d: "dictOf (h_env h) (h_structures h) (objectStructure h ob) = Some d" "slots_ok d (o_values (h_objects h ! ob))"
    and i: "i < length d" and s: "slot_ok (snd (d ! i)) s"
    and h': "h' = setObject ob (\<lambda>obj. obj\<lparr>o_values := (o_values obj)[i := s]\<rparr>) h"
  shows "changes_only N ob h h'" "propsOf h' ob = (propsOf h ob)[i := (fst (d ! i), propOf (natives (h_env h)) (snd (d ! i)) s)]"
proof -
  let ?vs = "(o_values (h_objects h ! ob))[i := s]"
  have inv: "store_inv (h_env h) N (h_structures h)" using h by (simp add: heap_ok_def)
  have vs: "slots_ok d ?vs" using slots_ok_update [OF d(2) s, of i "fst (d ! i)"] by simp
  have e: "h' = setObject ob (\<lambda>obj. obj\<lparr>o_structure := objectStructure h ob, o_values := ?vs\<rparr>) (h\<lparr>h_structures := h_structures h\<rparr>)"
    by (simp add: h' setObject_def objectStructure_def)
  note u = object_update [OF h ob stay_step [OF inv d(1)] vs e]
  show "changes_only N ob h h'" by (rule u(1))
  have "propsOf h ob = slotProps (natives (h_env h)) d (o_values (h_objects h ! ob))" by (simp add: propsOf_def d)
  then show "propsOf h' ob = (propsOf h ob)[i := (fst (d ! i), propOf (natives (h_env h)) (snd (d ! i)) s)]"
    using u(2) slotProps_update [OF slots_ok_length [OF d(2)], of "natives (h_env h)" i "fst (d ! i)" "snd (d ! i)" s] by simp
qed

definition descSlot :: "ObjectPropertyDescriptor \<Rightarrow> PropertySlot" where
  "descSlot nd = (if m_isDataProperty nd then PlainSlot (d_value nd) else AccessorSlot (m_getterSetter nd))"

lemma descSlot_ok: "full_desc nd \<Longrightarrow> slot_ok (toObjectStructurePropertyDescriptor nd) (descSlot nd)"
  by (simp add: descSlot_def full_desc_def)

lemma descSlot_prop: "propOf nh (toObjectStructurePropertyDescriptor nd) (descSlot nd) = descProp nd"
  by (simp add: descSlot_def descProp_def)

text \<open>Without a change of attributes the slot alone is written.\<close>

lemma unchanged_attributes:
  assumes w: "w AND 1 \<noteq> 0" and nd: "full_desc nd" "m_isDataProperty nd \<Longrightarrow> isWritablePresent nd" "\<not> attributesDiffer nh w nd" "m_isDataProperty nd = isDataProperty w"
  shows "slot_ok w (descSlot nd)" "propOf nh w (descSlot nd) = descProp nd"
proof -
  show "slot_ok w (descSlot nd)" using assms by (simp add: descSlot_def full_desc_def)
  show "propOf nh w (descSlot nd) = descProp nd" using nd by (auto simp: attributesDiffer_def descSlot_def descProp_def full_desc_def)
qed

lemma storeRedefinition_ok:
  assumes h: "heap_ok N h" and ob: "ob < length (h_objects h)"
    and d: "dictOf (h_env h) (h_structures h) (objectStructure h ob) = Some d" "slots_ok d (o_values (h_objects h ! ob))"
    and i: "i < length d" and w: "w = snd (d ! i)"
    and nd: "full_desc nd" "\<not> conv \<Longrightarrow> m_isDataProperty nd = isDataProperty w" "\<not> conv \<Longrightarrow> m_isDataProperty nd \<Longrightarrow> isWritablePresent nd"
    and keep: "\<not> conv \<Longrightarrow> m_isDataProperty nd \<Longrightarrow> \<not> isValuePresent desc \<Longrightarrow> o_values (h_objects h ! ob) ! i = PlainSlot (d_value nd)"
  obtains h' where "storeRedefinition nc h ob i w (conv \<or> attributesDiffer (natives (h_env h)) w nd) desc nd = Some (True, h')"
    "changes_only N ob h h'" "propsOf h' ob = (propsOf h ob)[i := (fst (d ! i), descProp nd)]"
proof (cases "conv \<or> attributesDiffer (natives (h_env h)) w nd")
  case False
  have s: "slot_ok w (o_values (h_objects h ! ob) ! i)" using slots_ok_nth [OF d(2) i] w by simp
  then have w1: "w AND 1 \<noteq> 0" by (cases "o_values (h_objects h ! ob) ! i") auto
  from False nd have u: "slot_ok w (descSlot nd)" "propOf (natives (h_env h)) w (descSlot nd) = descProp nd"
    using unchanged_attributes [OF w1, of nd "natives (h_env h)"] by auto
  let ?h = "setObject ob (\<lambda>obj. obj\<lparr>o_values := (o_values obj)[i := descSlot nd]\<rparr>) h"
  have up: "changes_only N ob h ?h" "propsOf ?h ob = (propsOf h ob)[i := (fst (d ! i), descProp nd)]"
    using slot_update [OF h ob d i, of "descSlot nd"] u w by auto
  have dd: "isDataDescriptor nd = m_isDataProperty nd" using nd(1) by (simp add: full_desc_def)
  show ?thesis
  proof (cases "m_isDataProperty nd \<and> \<not> isValuePresent desc")
    case True
    then have eq: "o_values (h_objects h ! ob) ! i = descSlot nd" using keep False by (simp add: descSlot_def)
    have "?h = h" using ob eq [symmetric] by (simp add: setObject_def)
    moreover have "storeRedefinition nc h ob i w (conv \<or> attributesDiffer (natives (h_env h)) w nd) desc nd = Some (True, h)"
      using False True dd by (simp add: storeRedefinition_def)
    ultimately show ?thesis using that up by auto
  next
    case t: False
    have "isPlainDataProperty w" if "m_isDataProperty nd" using inline_not_native(2) [OF w1] nd(2) False that by simp
    then have "storeRedefinition nc h ob i w (conv \<or> attributesDiffer (natives (h_env h)) w nd) desc nd = Some (True, ?h)"
      using False t dd by (auto simp: storeRedefinition_def setOwnDataInner_def setAccessorSlot_def descSlot_def)
    then show ?thesis using that up by blast
  qed
next
  case True
  let ?w = "toObjectStructurePropertyDescriptor nd" and ?e = "h_env h" and ?d = "d[i := (fst (d ! i), toObjectStructurePropertyDescriptor nd)]"
  have "w AND 1 \<noteq> 0" using slots_ok_nth [OF d(2) i] w by (cases "o_values (h_objects h ! ob) ! i") auto
  then have r: "replacementWord nc ?e w nd = Some (?w, ?e)" by (simp add: replacementWord_def inline_not_native)
  have inv: "store_inv ?e N (h_structures h)" using h by (simp add: heap_ok_def)
  from replace_step [OF inv d(1) i, of ?w] obtain q st where
    q: "replacePropertyDescriptor ?e (h_structures h) (objectStructure h ob) i ?w = Some (q, st)"
    "structure_step ?e N (h_structures h) (objectStructure h ob) ?d q st" .
  let ?vs = "(o_values (h_objects h ! ob))[i := descSlot nd]"
  let ?h = "setObject ob (\<lambda>obj. obj\<lparr>o_structure := q, o_values := ?vs\<rparr>) (h\<lparr>h_structures := st\<rparr>)"
  have vs: "slots_ok ?d ?vs" using slots_ok_update [OF d(2) descSlot_ok [OF nd(1)]] .
  note up = object_update [OF h ob q(2) vs, of ?h]
  have "propsOf ?h ob = (propsOf h ob)[i := (fst (d ! i), descProp nd)]"
    using up(2) slotProps_update [OF slots_ok_length [OF d(2)], of "natives ?e" i "fst (d ! i)" ?w "descSlot nd"] d by (simp add: propsOf_def descSlot_prop)
  moreover have "storeRedefinition nc h ob i w (conv \<or> attributesDiffer (natives ?e) w nd) desc nd = Some (True, ?h)"
  proof -
    have "dictOf ?e st q = Some ?d" using q(2) by (simp add: structure_step_def)
    then obtain item where item: "readProperty (st ! q) i = Some item" "m_descriptor item = ?w"
      using i readProperty_dict [of ?e st q ?d i] by auto
    have dd: "isDataDescriptor nd = m_isDataProperty nd" using nd(1) by (simp add: full_desc_def)
    show ?thesis
      using True ob by (cases "m_isDataProperty nd")
        (simp_all add: storeRedefinition_def r q(1) item dd setOwnDataInner_def setAccessorSlot_def descSlot_def Let_def setObject_def)
  qed
  ultimately show ?thesis using that up(1) by blast
qed

lemma applyDescriptor_writable: "isWritablePresent nd \<Longrightarrow> isWritablePresent (applyDescriptor desc nd)"
  by (simp add: applyDescriptor_def Let_def)

lemma checkRedefinition_same: "checkRedefinition nc e ob w slot nd desc = Some (False, nd1) \<Longrightarrow> nd1 = nd"
  by (auto simp: checkRedefinition_def Let_def split: if_splits PropertySlot.splits)

lemma first_rejections:
  assumes "desc_ok desc"
  shows "\<not> isConfigurable nh w \<Longrightarrow> descConfigurable desc \<Longrightarrow> rejected (descOf desc) (propOf nh w slot)"
    "\<not> isConfigurable nh w \<Longrightarrow> isEnumerablePresent desc \<Longrightarrow> descEnumerable desc \<noteq> isEnumerable nh w \<Longrightarrow> rejected (descOf desc) (propOf nh w slot)"
  using present_if_set [of desc] by (cases slot; auto simp: differs_def)+

lemma redefine_step:
  assumes slot: "slot_ok w slot" and desc: "desc_ok desc" and from_structure: "fromObjectStructurePropertyDescriptor (natives e) w slot = Some nd"
    and c: "isConfigurable (natives e) w \<or> \<not> descConfigurable desc \<and> (isEnumerablePresent desc \<longrightarrow> descEnumerable desc = isEnumerable (natives e) w)"
  shows "case checkRedefinition nc e ob w slot nd desc of
      None \<Rightarrow> rejected (descOf desc) (propOf (natives e) w slot)
    | Some (conv, nd1) \<Rightarrow> \<not> rejected (descOf desc) (propOf (natives e) w slot) \<and> full_desc (applyDescriptor desc nd1) \<and>
        descProp (applyDescriptor desc nd1) = applied (descOf desc) (propOf (natives e) w slot) \<and>
        (\<not> conv \<longrightarrow> m_isDataProperty (applyDescriptor desc nd1) = isDataProperty w \<and>
          (m_isDataProperty (applyDescriptor desc nd1) \<longrightarrow> isWritablePresent (applyDescriptor desc nd1)))"
proof -
  obtain nd' where n: "fromObjectStructurePropertyDescriptor (natives e) w slot = Some nd'" "full_desc nd'" "descProp nd' = propOf (natives e) w slot"
    "m_isDataProperty nd' = isDataProperty w" "m_isDataProperty nd' \<Longrightarrow> isWritablePresent nd'"
    using fromStructure_ok [OF slot, of "natives e"] by metis
  then have nd: "nd = nd'" using from_structure by simp
  have wr: "isWritablePresent (applyDescriptor desc nd1)"
    if "checkRedefinition nc e ob w slot nd desc = Some (False, nd1)" "isDataProperty w" for nd1
    using checkRedefinition_same [OF that(1)] n nd that(2) by (auto intro: applyDescriptor_writable)
  show ?thesis
  proof (cases slot)
    case (PlainSlot v)
    have k: "isDataProperty w" using slot PlainSlot by simp
    then have md: "m_isDataProperty nd'" using n(4) by simp
    note r = redefine_data [where nc = nc and ob = ob, OF slot [unfolded PlainSlot] desc n(2) n(3) [unfolded PlainSlot] md c]
    show ?thesis
    proof (cases "checkRedefinition nc e ob w slot nd desc")
      case None
      with r PlainSlot nd show ?thesis by simp
    next
      case (Some x)
      with r PlainSlot nd k wr show ?thesis by (cases x) (auto simp del: propOf.simps rejected.simps applied.simps)
    qed
  next
    case (AccessorSlot gs)
    have k: "\<not> isDataProperty w" using slot AccessorSlot by simp
    then have md: "\<not> m_isDataProperty nd'" using n(4) by simp
    note r = redefine_accessor [where nc = nc and ob = ob, OF slot [unfolded AccessorSlot] desc n(2) n(3) [unfolded AccessorSlot] md c]
    show ?thesis
    proof (cases "checkRedefinition nc e ob w slot nd desc")
      case None
      with r AccessorSlot nd show ?thesis by simp
    next
      case (Some x)
      with r AccessorSlot nd k show ?thesis by (cases x) (auto simp del: propOf.simps rejected.simps applied.simps)
    qed
  qed
qed

lemma redefineProperty_ok:
  assumes h: "heap_ok N h" and ob: "ob < length (h_objects h)"
    and d: "dictOf (h_env h) (h_structures h) (objectStructure h ob) = Some d" "slots_ok d (o_values (h_objects h ! ob))"
    and i: "i < length d" and desc: "desc_ok desc"
  defines "w \<equiv> snd (d ! i)"
  defines "p \<equiv> propOf (natives (h_env h)) w (o_values (h_objects h ! ob) ! i)"
  obtains b h' where "redefineProperty nc h ob name i w desc = Some (b, h')" "changes_only N ob h h'" "b \<longleftrightarrow> \<not> rejected (descOf desc) p"
    "propsOf h' ob = (if b then (propsOf h ob)[i := (fst (d ! i), applied (descOf desc) p)] else propsOf h ob)"
proof -
  let ?e = "h_env h" and ?slot = "o_values (h_objects h ! ob) ! i"
  have slot: "slot_ok w ?slot" using slots_ok_nth [OF d(2) i] by (simp add: w_def)
  then have native: "\<not> isNativeAccessorProperty w" using inline_not_native(1) by (cases ?slot) auto
  have same: "changes_only N ob h h" using same_changes [OF same_objects_refl [OF h]] .
  show ?thesis
  proof (cases "isConfigurable (natives ?e) w \<or> \<not> descConfigurable desc \<and> (isEnumerablePresent desc \<longrightarrow> descEnumerable desc = isEnumerable (natives ?e) w)")
    case False
    then have "rejected (descOf desc) p" using first_rejections [OF desc] unfolding p_def by blast
    moreover have "redefineProperty nc h ob name i w desc = Some (False, h)" using False by (auto simp: redefineProperty_def Let_def)
    ultimately show ?thesis using that [of False h] same by simp
  next
    case True
    obtain nd where nd: "fromObjectStructurePropertyDescriptor (natives ?e) w ?slot = Some nd" using slot by (rule fromStructure_ok)
    have r: "redefineProperty nc h ob name i w desc = (case checkRedefinition nc ?e ob w ?slot nd desc of
        None \<Rightarrow> Some (False, h)
      | Some (conv, nd1) \<Rightarrow> storeRedefinition nc h ob i w (conv \<or> attributesDiffer (natives ?e) w (applyDescriptor desc nd1)) desc (applyDescriptor desc nd1))"
      using True native nd by (auto simp: redefineProperty_def Let_def split: option.split)
    note st = redefine_step [OF slot desc nd True, of nc ob, folded p_def]
    show ?thesis
    proof (cases "checkRedefinition nc ?e ob w ?slot nd desc")
      case None
      with r st that [of False h] same show ?thesis by simp
    next
      case (Some x)
      obtain conv nd1 where x: "x = (conv, nd1)" by fastforce
      let ?nd = "applyDescriptor desc nd1"
      have s: "\<not> rejected (descOf desc) p" "full_desc ?nd" "descProp ?nd = applied (descOf desc) p"
        "\<not> conv \<Longrightarrow> m_isDataProperty ?nd = isDataProperty w" "\<not> conv \<Longrightarrow> m_isDataProperty ?nd \<Longrightarrow> isWritablePresent ?nd"
        using st Some x by auto
      have keep: "?slot = PlainSlot (d_value ?nd)" if "\<not> conv" "m_isDataProperty ?nd" "\<not> isValuePresent desc"
      proof -
        have "isDataProperty w" using s(4) that by simp
        then obtain v where v: "?slot = PlainSlot v" using slot by (cases ?slot) auto
        with s(3) that show ?thesis by (auto simp: p_def descProp_def split: if_splits)
      qed
      obtain h' where h': "storeRedefinition nc h ob i w (conv \<or> attributesDiffer (natives ?e) w ?nd) desc ?nd = Some (True, h')"
        "changes_only N ob h h'" "propsOf h' ob = (propsOf h ob)[i := (fst (d ! i), descProp ?nd)]"
        using storeRedefinition_ok [OF h ob d i w_def [THEN meta_eq_to_obj_eq] s(2,4,5) keep] by metis
      then show ?thesis using that [of True h'] r Some x s by simp
    qed
  qed
qed

text \<open>\<open>[[DefineOwnProperty]]\<close> of the specification on the list of properties.\<close>

definition specDefine :: "bool \<Rightarrow> propDesc \<Rightarrow> property_key \<Rightarrow> (property_key \<times> Prop) list \<Rightarrow> bool \<times> (property_key \<times> Prop) list" where
  "specDefine extensible desc k props =
     (case validateAndApply extensible desc (map_of props k) of None \<Rightarrow> (False, props) | Some p \<Rightarrow> (True, spec_put props k p))"

lemma newSlot_created:
  assumes "desc_ok desc"
  shows "propOf nh (toObjectStructurePropertyDescriptor desc) (newSlot desc) = created (descOf desc)"
    "slot_ok (toObjectStructurePropertyDescriptor desc) (newSlot desc)"
proof -
  have p: "or_else (if isEnumerablePresent desc then Some (descEnumerable desc) else None) False = descEnumerable desc"
    "or_else (if isConfigurablePresent desc then Some (descConfigurable desc) else None) False = descConfigurable desc"
    "or_else (if isWritablePresent desc then Some (descWritable desc) else None) False = descWritable desc"
    using present_if_set [of desc] by auto
  show "propOf nh (toObjectStructurePropertyDescriptor desc) (newSlot desc) = created (descOf desc)"
    using IsAccessorDesc_descOf [OF assms] p
    by (auto simp: newSlot_def created_def isAccessorDescriptor_def getterOrUndefined_def setterOrUndefined_def)
  show "slot_ok (toObjectStructurePropertyDescriptor desc) (newSlot desc)"
    using assms by (auto simp: newSlot_def desc_ok_def isAccessorDescriptor_def)
qed

lemma defineOwnProperty_ok:
  assumes h: "heap_ok N h" and ob: "ob < length (h_objects h)" and P: "valid_name N (h_env h) P" and desc: "desc_ok desc"
  obtains b h' where "defineOwnProperty nc h ob P desc = Some (b, h')" "changes_only N ob h h'"
    "(b, propsOf h' ob) = specDefine (o_isExtensible (h_objects h ! ob)) (descOf desc) (keyOf h P) (propsOf h ob)"
proof -
  let ?n = "toObjectStructurePropertyName P" and ?e = "h_env h" and ?ext = "o_isExtensible (h_objects h ! ob)"
  note m = map_of_find_index [OF props_distinct [OF h ob], of "keyOf h P"]
  from h ob P obtain st where f: "findProperty ?e (h_structures h) (objectStructure h ob) ?n =
      Some (find_index (\<lambda>x. fst x = keyOf h P) (propsOf h ob), st)" "same_objects N h (h\<lparr>h_structures := st\<rparr>)" by (rule heap_find)
  let ?h = "h\<lparr>h_structures := st\<rparr>"
  have hh: "heap_ok N ?h" using f(2) by (simp add: same_objects_def)
  have pr: "propsOf ?h b = propsOf h b" for b using f(2) by (rule same_props)
  obtain d where d: "dictOf ?e st (objectStructure h ob) = Some d" "slots_ok d (o_values (h_objects h ! ob))"
    "propsOf h ob = slotProps (natives ?e) d (o_values (h_objects h ! ob))"
    using heap_object [OF hh, of ob] ob pr by (auto simp: objectStructure_def)
  note len = slots_ok_length [OF d(2)]
  show ?thesis
  proof (cases "find_index (\<lambda>x. fst x = keyOf h P) (propsOf h ob)")
    case None
    then have no: "map_of (propsOf h ob) (keyOf h P) = None" using m by simp
    show ?thesis
    proof (cases ?ext)
      case False
      have "defineOwnProperty nc h ob P desc = Some (False, ?h)" using f(1) None False by (simp add: defineOwnProperty_def Let_def)
      then show ?thesis
        by (rule that) (use same_changes [OF f(2)] pr no False in \<open>simp_all add: specDefine_def validateAndApply_def\<close>)
    next
      case True
      let ?w = "toObjectStructurePropertyDescriptor desc"
      have inv: "store_inv ?e N st" using hh by (simp add: heap_ok_def)
      have n: "?n \<in> N" "name_ok (strings ?e) ?n" using P by (simp_all add: valid_name_def)
      have new: "find_index (\<lambda>x. fst x = keyOf h P) d = None" using None d(3) len by (simp add: find_index_props)
      obtain q st' where a: "addProperty ?e st (objectStructure h ob) ?n ?w = Some (q, st')"
        "structure_step ?e N st (objectStructure h ob) (d @ [(keyOf h P, ?w)]) q st'" using inv d(1) n new by (rule add_step)
      let ?vs = "o_values (h_objects h ! ob) @ [newSlot desc]"
      let ?h' = "setObject ob (\<lambda>obj. obj\<lparr>o_structure := q, o_values := ?vs\<rparr>) (?h\<lparr>h_structures := st'\<rparr>)"
      have vs: "slots_ok (d @ [(keyOf h P, ?w)]) ?vs" by (rule slots_ok_append [OF d(2) newSlot_created(2) [OF desc]])
      have up: "changes_only N ob ?h ?h'" "propsOf ?h' ob = slotProps (natives ?e) (d @ [(keyOf h P, ?w)]) ?vs"
        using object_update [OF hh _ _ vs, of ob q st' ?h'] ob a(2) by (simp_all add: objectStructure_def)
      have props: "propsOf ?h' ob = spec_put (propsOf h ob) (keyOf h P) (created (descOf desc))"
        using up(2) slotProps_append [OF len] d(3) None newSlot_created(1) [OF desc] by (simp add: spec_put_def)
      have app: "appendProperty ?h ob ?n desc = Some ?h'" using a(1) by (simp add: appendProperty_def objectStructure_def setObject_def)
      have "defineOwnProperty nc h ob P desc = Some (True, ?h')" using f(1) None True app by (simp add: defineOwnProperty_def Let_def)
      then show ?thesis
        by (rule that) (use changes_trans [OF same_changes [OF f(2)] up(1)] props no True in \<open>simp_all add: specDefine_def validateAndApply_def\<close>)
    qed
  next
    case (Some i)
    then have i: "i < length d" "fst (d ! i) = keyOf h P" using d(3) len by (auto simp: find_index_props dest!: find_index_SomeD)
    let ?p = "propOf (natives ?e) (snd (d ! i)) (o_values (h_objects h ! ob) ! i)"
    have mp: "map_of (propsOf h ob) (keyOf h P) = Some ?p" using m Some d(3) i len by (simp add: slotProps_nth)
    obtain item where item: "readProperty (st ! objectStructure h ob) i = Some item" "m_descriptor item = snd (d ! i)"
      using d(1) i(1) by (rule readProperty_dict)
    have "dictOf (h_env ?h) (h_structures ?h) (objectStructure ?h ob) = Some d" "slots_ok d (o_values (h_objects ?h ! ob))" "ob < length (h_objects ?h)"
      using d ob by (simp_all add: objectStructure_def)
    note ok = redefineProperty_ok [OF hh this(3,1,2) i(1) desc]
    let ?q = "propOf (natives (h_env ?h)) (snd (d ! i)) (o_values (h_objects ?h ! ob) ! i)"
    obtain b h' where
      r: "redefineProperty nc ?h ob ?n i (snd (d ! i)) desc = Some (b, h')" "changes_only N ob ?h h'" "b \<longleftrightarrow> \<not> rejected (descOf desc) ?q"
        "propsOf h' ob = (if b then (propsOf ?h ob)[i := (fst (d ! i), applied (descOf desc) ?q)] else propsOf ?h ob)"
      by (rule ok)
    have "defineOwnProperty nc h ob P desc = Some (b, h')" using f(1) Some item i len r(1) by (simp add: defineOwnProperty_def Let_def)
    then show ?thesis
    proof (rule that)
      show "changes_only N ob h h'" by (rule changes_trans [OF same_changes [OF f(2)] r(2)])
      show "(b, propsOf h' ob) = specDefine ?ext (descOf desc) (keyOf h P) (propsOf h ob)"
        using r(3,4) mp pr i(2) Some by (auto simp: specDefine_def validateAndApply_def spec_put_def)
    qed
  qed
qed

section \<open>Deleting properties\<close>

fun propConfigurable :: "Prop \<Rightarrow> bool" where
  "propConfigurable (DataProp v w en c) = c"
| "propConfigurable (AccessorProp g s en c) = c"

fun propWritable :: "Prop \<Rightarrow> bool" where
  "propWritable (DataProp v w en c) = w"
| "propWritable (AccessorProp g s en c) = False"

definition specDelete :: "property_key \<Rightarrow> (property_key \<times> Prop) list \<Rightarrow> bool \<times> (property_key \<times> Prop) list" where
  "specDelete k props =
     (case map_of props k of None \<Rightarrow> (True, props) | Some p \<Rightarrow> if propConfigurable p then (True, spec_del props k) else (False, props))"

lemma result_readers:
  assumes "resultProp f r = x"
  shows "resultHasValue r \<longleftrightarrow> x \<noteq> None" "x = Some p \<Longrightarrow> resultConfigurable r = propConfigurable p"
    "x = Some p \<Longrightarrow> resultWritable r = propWritable p" "x = Some p \<Longrightarrow> resultIsData r \<longleftrightarrow> (\<exists>v w en c. p = DataProp v w en c)"
  using assms by (cases r; auto)+

lemma deleteOwnProperty_ok:
  assumes h: "heap_ok N h" and ob: "ob < length (h_objects h)" and P: "valid_name N (h_env h) P"
  obtains b h' where "deleteOwnProperty h ob P = Some (b, h')" "changes_only N ob h h'" "(b, propsOf h' ob) = specDelete (keyOf h P) (propsOf h ob)"
proof -
  fix nc :: NativeCode
  obtain r h1 where g: "getOwnProperty h ob P = Some (r, h1)" "resultProp (dataValue nc None) r = map_of (propsOf h ob) (keyOf h P)"
    "same_objects N h h1" using h ob P by (rule getOwnProperty_ok)
  note rr = result_readers [OF g(2)]
  have pr: "propsOf h1 ob = propsOf h ob" "h_env h1 = h_env h" "h_objects h1 = h_objects h" "heap_ok N h1"
    using g(3) same_props by (auto simp: same_objects_def)
  show ?thesis
  proof (cases "map_of (propsOf h ob) (keyOf h P)")
    case None
    have "deleteOwnProperty h ob P = Some (True, h1)" using g(1) rr(1) None by (simp add: deleteOwnProperty_def)
    then show ?thesis by (rule that) (use same_changes [OF g(3)] None pr in \<open>simp_all add: specDelete_def\<close>)
  next
    case (Some p)
    show ?thesis
    proof (cases "propConfigurable p")
      case False
      have "deleteOwnProperty h ob P = Some (False, h1)" using g(1) rr(1) rr(2) [OF Some] Some False by (simp add: deleteOwnProperty_def)
      then show ?thesis by (rule that) (use same_changes [OF g(3)] Some False pr in \<open>simp_all add: specDelete_def\<close>)
    next
      case True
      have ob1: "ob < length (h_objects h1)" "valid_name N (h_env h1) P" using ob P pr by simp_all
      obtain st where f: "findProperty (h_env h1) (h_structures h1) (objectStructure h1 ob) (toObjectStructurePropertyName P) =
          Some (find_index (\<lambda>x. fst x = keyOf h1 P) (propsOf h1 ob), st)" "same_objects N h1 (h1\<lparr>h_structures := st\<rparr>)"
        using pr(4) ob1 by (rule heap_find)
      obtain i where i: "find_index (\<lambda>x. fst x = keyOf h P) (propsOf h ob) = Some i"
        using Some map_of_find_index [OF props_distinct [OF h ob], of "keyOf h P"] by (auto split: option.splits)
      let ?h = "h1\<lparr>h_structures := st\<rparr>"
      have hh: "heap_ok N ?h" using f(2) by (simp add: same_objects_def)
      obtain d where d: "dictOf (h_env ?h) (h_structures ?h) (objectStructure ?h ob) = Some d" "slots_ok d (o_values (h_objects ?h ! ob))"
        "propsOf ?h ob = slotProps (natives (h_env ?h)) d (o_values (h_objects ?h ! ob))" "distinct (map fst d)"
        by (rule heap_object [OF hh, of ob]) (use ob1 in auto)
      have p1: "propsOf ?h ob = propsOf h ob" using same_props [OF f(2)] pr by simp
      have id: "i < length d" using i d(3) p1 slots_ok_length [OF d(2)] by (auto dest!: find_index_SomeD)
      have inv: "store_inv (h_env ?h) N (h_structures ?h)" using hh by (simp add: heap_ok_def)
      from remove_step [OF inv d(1) id] obtain q st' where
        r: "removeProperty (h_env ?h) (h_structures ?h) (objectStructure ?h ob) i = Some (q, st')"
        "structure_step (h_env ?h) N (h_structures ?h) (objectStructure ?h ob) (remove_at i d) q st'" .
      let ?vs = "remove_at i (o_values (h_objects ?h ! ob))"
      let ?h' = "setObject ob (\<lambda>obj. obj\<lparr>o_structure := q, o_values := ?vs\<rparr>) (?h\<lparr>h_structures := st'\<rparr>)"
      have up: "changes_only N ob ?h ?h'" "propsOf ?h' ob = slotProps (natives (h_env ?h)) (remove_at i d) ?vs"
        using object_update [OF hh _ r(2) slots_ok_remove [OF d(2)], of ?h'] ob1 by simp_all
      have "propsOf ?h' ob = spec_del (propsOf h ob) (keyOf h P)"
        using up(2) slotProps_remove [OF slots_ok_length [OF d(2)], of "natives (h_env ?h)" i] d(3) p1
          remove_at_filter [OF props_distinct [OF h ob] i] by simp
      moreover have "deleteAt ?h ob i = Some ?h'" using r(1) by (simp add: deleteAt_def setObject_def)
      then have "deleteOwnProperty h ob P = Some (True, ?h')"
        using g(1) rr(1) rr(2) [OF Some] Some True f(1) i pr by (simp add: deleteOwnProperty_def)
      ultimately show ?thesis
        using that changes_trans [OF same_changes [OF g(3)] changes_trans [OF same_changes [OF f(2)] up(1)]] Some True
        by (simp add: specDelete_def)
    qed
  qed
qed

section \<open>Chains of prototypes\<close>

text \<open>The first object up the chain that has the property, with the property.\<close>

inductive chain_lookup :: "Heap \<Rightarrow> property_key \<Rightarrow> nat \<Rightarrow> (nat \<times> Prop) option \<Rightarrow> bool" for h :: Heap and k :: property_key where
  here: "map_of (propsOf h ob) k = Some p \<Longrightarrow> chain_lookup h k ob (Some (ob, p))"
| nowhere: "\<lbrakk>map_of (propsOf h ob) k = None; getPrototypeObject h ob = None\<rbrakk> \<Longrightarrow> chain_lookup h k ob None"
| up: "\<lbrakk>map_of (propsOf h ob) k = None; getPrototypeObject h ob = Some q; chain_lookup h k q r\<rbrakk> \<Longrightarrow> chain_lookup h k ob r"

inductive_simps chain_lookup_simps: "chain_lookup h k ob r"

lemma chain_wf: "heap_ok N h \<Longrightarrow> wf (parents h)"
proof (rule finite_acyclic_wf)
  assume h: "heap_ok N h"
  then have "parents h \<subseteq> {..<length (h_objects h)} \<times> {..<length (h_objects h)}"
    by (auto simp: heap_ok_def) (auto simp: parents_def)
  then show "finite (parents h)" by (rule finite_subset) simp
  show "acyclic (parents h)" using h by (simp add: heap_ok_def)
qed

text \<open>
  What \<open>get\<close>, \<open>hasProperty\<close> and \<open>set\<close> share: a walk up the chain until an object has the property.
\<close>

locale prototype_walk =
  fixes P :: ObjectPropertyName and walk :: "Heap \<Rightarrow> nat \<Rightarrow> 'r option"
    and found :: "Heap \<Rightarrow> nat \<Rightarrow> ObjectGetResult \<Rightarrow> 'r option" and missing :: "Heap \<Rightarrow> nat \<Rightarrow> 'r option"
  assumes walk_eq: "walk h ob = (case getOwnProperty h ob P of
       None \<Rightarrow> None
     | Some (r, h1) \<Rightarrow> if resultHasValue r then found h1 ob r
         else case getPrototypeObject h1 ob of None \<Rightarrow> missing h1 ob | Some parent \<Rightarrow> walk h1 parent)"
begin

lemma walk_ends:
  assumes h0: "heap_ok N h0" and P: "valid_name N (h_env h0) P"
  shows "same_objects N h0 h \<Longrightarrow> ob < length (h_objects h0) \<Longrightarrow>
    \<exists>h1 ob1. same_objects N h0 h1 \<and> ob1 < length (h_objects h0) \<and>
      ((\<exists>r p. chain_lookup h0 (keyOf h0 P) ob (Some (ob1, p)) \<and> resultProp (dataValue nc rc) r = Some p \<and> result_ok r \<and>
          \<not> actsLikeJSGetterSetter r \<and> map_of (propsOf h0 ob1) (keyOf h0 P) = Some p \<and> walk h ob = found h1 ob1 r) \<or>
       chain_lookup h0 (keyOf h0 P) ob None \<and> walk h ob = missing h1 ob1)"
proof (induction ob arbitrary: h rule: wf_induct_rule [OF chain_wf [OF h0]])
  case (1 ob)
  let ?k = "keyOf h0 P"
  have hh: "heap_ok N h" "ob < length (h_objects h)" "valid_name N (h_env h) P" "propsOf h ob = propsOf h0 ob" "keyOf h P = ?k"
    using 1(2,3) P same_props by (auto simp: same_objects_def)
  obtain r h1 where g: "getOwnProperty h ob P = Some (r, h1)" "resultProp (dataValue nc rc) r = map_of (propsOf h ob) (keyOf h P)"
    "result_ok r" "same_objects N h h1" "\<not> actsLikeJSGetterSetter r" using hh(1-3) by (rule getOwnProperty_ok)
  have s: "same_objects N h0 h1" using 1(2) g(4) by (rule same_objects_trans)
  show ?case
  proof (cases "map_of (propsOf h0 ob) ?k")
    case (Some p)
    have "walk h ob = found h1 ob r" using result_readers(1) [OF g(2)] hh Some by (subst walk_eq) (simp add: g(1))
    then show ?thesis
      using s 1(3) g here [OF Some] hh Some by (intro exI [of _ h1] exI [of _ ob] conjI disjI1 exI [of _ r] exI [of _ p]) auto
  next
    case None
    have w: "walk h ob = (case getPrototypeObject h0 ob of None \<Rightarrow> missing h1 ob | Some q \<Rightarrow> walk h1 q)"
      using result_readers(1) [OF g(2)] hh None same_prototypes [OF s] by (subst walk_eq) (simp add: g(1))
    show ?thesis
    proof (cases "getPrototypeObject h0 ob")
      case no: None
      then show ?thesis using s 1(3) w nowhere [OF None no] by (intro exI [of _ h1] exI [of _ ob]) simp
    next
      case (Some q)
      then have q: "(q, ob) \<in> parents h0" "q < length (h_objects h0)" using 1(3) h0 by (auto simp: parents_def heap_ok_def)
      from 1(1) [OF q(1) s q(2)] w Some up [OF None Some] show ?thesis by (simp, metis)
    qed
  qed
qed

end

interpretation get_walk: prototype_walk P "objectGet P" "\<lambda>h ob r. Some (r, h)" "\<lambda>h ob. Some (NoResult, h)" for P
  by unfold_locales (subst objectGet.simps, simp split: option.split)

interpretation has_walk: prototype_walk P "hasProperty P" "\<lambda>h ob r. Some (r, h)" "\<lambda>h ob. Some (NoResult, h)" for P
  by unfold_locales (subst hasProperty.simps, simp split: option.split)

interpretation set_walk: prototype_walk P "objectSet nc P v receiver" "\<lambda>h ob. setOnDescriptor nc h ob P v receiver True"
  "\<lambda>h ob. setOnDescriptor nc h ob P v receiver False (DataResult Undefined True True True)" for nc P v receiver
  by unfold_locales (subst objectSet.simps, simp split: option.split)

section \<open>Getting and setting\<close>

lemma objectGet_ok:
  assumes "heap_ok N h" "ob < length (h_objects h)" "valid_name N (h_env h) P"
  obtains r h' lk where "objectGet P h ob = Some (r, h')" "same_objects N h h'" "chain_lookup h (keyOf h P) ob lk"
    "resultProp (dataValue nc rc) r = map_option snd lk"
proof -
  from get_walk.walk_ends [OF assms(1,3) same_objects_refl [OF assms(1)] assms(2), where nc = nc and rc = rc]
  obtain h1 ob1 where w: "same_objects N h h1"
    "(\<exists>r p. chain_lookup h (keyOf h P) ob (Some (ob1, p)) \<and> resultProp (dataValue nc rc) r = Some p \<and> objectGet P h ob = Some (r, h1)) \<or>
     chain_lookup h (keyOf h P) ob None \<and> objectGet P h ob = Some (NoResult, h1)" by blast
  from w(2) show ?thesis
  proof (elim disjE exE conjE)
    fix r p
    assume r: "chain_lookup h (keyOf h P) ob (Some (ob1, p))" "resultProp (dataValue nc rc) r = Some p" "objectGet P h ob = Some (r, h1)"
    show ?thesis using r(3) w(1) r(1) by (rule that) (simp add: r(2))
  next
    assume r: "chain_lookup h (keyOf h P) ob None" "objectGet P h ob = Some (NoResult, h1)"
    show ?thesis using r(2) w(1) r(1) by (rule that) simp
  qed
qed

lemma hasProperty_ok:
  assumes "heap_ok N h" "ob < length (h_objects h)" "valid_name N (h_env h) P"
  obtains r h' lk where "hasProperty P h ob = Some (r, h')" "same_objects N h h'" "chain_lookup h (keyOf h P) ob lk"
    "resultHasValue r \<longleftrightarrow> lk \<noteq> None"
proof -
  fix nc :: NativeCode
  from has_walk.walk_ends [OF assms(1,3) same_objects_refl [OF assms(1)] assms(2), where nc = nc and rc = None]
  obtain h1 ob1 where w: "same_objects N h h1"
    "(\<exists>r p. chain_lookup h (keyOf h P) ob (Some (ob1, p)) \<and> resultProp (dataValue nc None) r = Some p \<and> hasProperty P h ob = Some (r, h1)) \<or>
     chain_lookup h (keyOf h P) ob None \<and> hasProperty P h ob = Some (NoResult, h1)" by blast
  from w(2) show ?thesis
  proof (elim disjE exE conjE)
    fix r p
    assume r: "chain_lookup h (keyOf h P) ob (Some (ob1, p))" "resultProp (dataValue nc None) r = Some p" "hasProperty P h ob = Some (r, h1)"
    show ?thesis using r(3) w(1) r(1) by (rule that) (use result_readers(1) [OF r(2)] in simp)
  next
    assume r: "chain_lookup h (keyOf h P) ob None" "hasProperty P h ob = Some (NoResult, h1)"
    show ?thesis using r(2) w(1) r(1) by (rule that) simp
  qed
qed

definition specSetOn :: "bool \<Rightarrow> Value \<Rightarrow> property_key \<Rightarrow> (property_key \<times> Prop) list \<Rightarrow> bool \<times> (property_key \<times> Prop) list" where
  "specSetOn ext v k props =
     (case map_of props k of
        Some (AccessorProp g s en c) \<Rightarrow> (False, props)
      | Some (DataProp x w en c) \<Rightarrow> if w then specDefine ext (descOf (mkData v 0)) k props else (False, props)
      | None \<Rightarrow> specDefine ext (descOf (mkData v DescAllPresent)) k props)"

lemma desc_ok_mkData: "desc_ok (mkData v 0)" "desc_ok (mkData v DescAllPresent)"
  by (simp_all add: desc_ok_def checkProperty_bits mkData_def bit_flag32_lits isAccessorDescriptor_def)

lemma mkData_not_accessor [simp]: "\<not> isAccessorDescriptor (mkData v f)" "\<not> IsAccessorDesc (descOf (mkData v f))"
  by (simp_all add: isAccessorDescriptor_def IsAccessorDesc_def)

lemma setOnReceiver_ok:
  assumes h: "heap_ok N h" and rc: "rc < length (h_objects h)" and P: "valid_name N (h_env h) P"
  obtains b h' where "setOnReceiver nc h rc P v = Some (b, h')" "changes_only N rc h h'"
    "(b, propsOf h' rc) = specSetOn (o_isExtensible (h_objects h ! rc)) v (keyOf h P) (propsOf h rc)"
proof -
  obtain r h1 where g: "getOwnProperty h rc P = Some (r, h1)" "resultProp (dataValue nc None) r = map_of (propsOf h rc) (keyOf h P)"
    "same_objects N h h1" using h rc P by (rule getOwnProperty_ok)
  note rr = result_readers [OF g(2)]
  have pr: "propsOf h1 rc = propsOf h rc" "h_env h1 = h_env h" "h_objects h1 = h_objects h" "heap_ok N h1"
    using g(3) same_props by (auto simp: same_objects_def)
  have rc1: "rc < length (h_objects h1)" "valid_name N (h_env h1) P" using rc P pr by simp_all
  have def: "\<exists>b h'. defineOwnProperty nc h1 rc P desc = Some (b, h') \<and> changes_only N rc h h' \<and>
      (b, propsOf h' rc) = specDefine (o_isExtensible (h_objects h ! rc)) (descOf desc) (keyOf h P) (propsOf h rc)" if dok: "desc_ok desc" for desc
  proof -
    obtain b h' where "defineOwnProperty nc h1 rc P desc = Some (b, h')" "changes_only N rc h1 h'"
      "(b, propsOf h' rc) = specDefine (o_isExtensible (h_objects h1 ! rc)) (descOf desc) (keyOf h1 P) (propsOf h1 rc)"
      using pr(4) rc1 dok by (rule defineOwnProperty_ok)
    then show ?thesis using changes_trans [OF same_changes [OF g(3)]] pr by auto
  qed
  have no: "(False, propsOf h1 rc) = specSetOn (o_isExtensible (h_objects h ! rc)) v (keyOf h P) (propsOf h rc)"
    if "specSetOn (o_isExtensible (h_objects h ! rc)) v (keyOf h P) (propsOf h rc) = (False, propsOf h rc)" using that pr by simp
  show ?thesis
  proof (cases "map_of (propsOf h rc) (keyOf h P)")
    case None
    with rr(1) have "setOnReceiver nc h rc P v = defineOwnProperty nc h1 rc P (mkData v DescAllPresent)" by (simp add: setOnReceiver_def g(1))
    with def [OF desc_ok_mkData(2)] None that show ?thesis by (fastforce simp: specSetOn_def)
  next
    case (Some p)
    show ?thesis
    proof (cases p)
      case (AccessorProp s t en c)
      have "setOnReceiver nc h rc P v = Some (False, h1)" using rr(1) rr(4) [OF Some] AccessorProp Some by (simp add: setOnReceiver_def g(1))
      then show ?thesis by (rule that [OF _ same_changes [OF g(3)] no]) (simp add: specSetOn_def Some AccessorProp)
    next
      case (DataProp x w en c)
      show ?thesis
      proof (cases w)
        case False
        have "setOnReceiver nc h rc P v = Some (False, h1)"
          using rr(1) rr(4) [OF Some] rr(3) [OF Some] DataProp Some False by (simp add: setOnReceiver_def g(1))
        then show ?thesis by (rule that [OF _ same_changes [OF g(3)] no]) (simp add: specSetOn_def Some DataProp False)
      next
        case True
        have "setOnReceiver nc h rc P v = defineOwnProperty nc h1 rc P (mkData v 0)"
          using rr(1) rr(4) [OF Some] rr(3) [OF Some] DataProp Some True by (auto simp: setOnReceiver_def g(1))
        with def [OF desc_ok_mkData(1)] Some DataProp True that show ?thesis by (fastforce simp: specSetOn_def)
      qed
    qed
  qed
qed

text \<open>\<open>[[Set]]\<close> once the property is found, or missing.\<close>

definition set_spec :: "pname set \<Rightarrow> Heap \<Rightarrow> property_key \<Rightarrow> Value \<Rightarrow> nat option \<Rightarrow> Prop \<Rightarrow> SetOutcome \<Rightarrow> Heap \<Rightarrow> bool" where
  "set_spec N h k v receiver p outcome h' \<longleftrightarrow>
     (case (p, receiver) of
        (DataProp x True en c, Some rc) \<Rightarrow>
          \<exists>b. outcome = SetReturns b \<and> changes_only N rc h h' \<and>
            (b, propsOf h' rc) = specSetOn (o_isExtensible (h_objects h ! rc)) v k (propsOf h rc)
      | (AccessorProp g s en c, _) \<Rightarrow> same_objects N h h' \<and> outcome = (if s = Undefined then SetReturns False else SetCalls s)
      | _ \<Rightarrow> same_objects N h h' \<and> outcome = SetReturns False)"

lemma setOnDescriptor_ok:
  assumes h: "heap_ok N h" and P: "valid_name N (h_env h) P" and rc: "\<forall>rc \<in> set_option receiver. rc < length (h_objects h)"
    and r: "resultProp (dataValue nc None) r = Some p" "\<not> actsLikeJSGetterSetter r"
    and own: "hasValue \<Longrightarrow> map_of (propsOf h ob) (keyOf h P) = Some p"
  shows "\<exists>outcome h'. setOnDescriptor nc h ob P v receiver hasValue r = Some (outcome, h') \<and> set_spec N h (keyOf h P) v receiver p outcome h'"
proof (cases p)
  case (AccessorProp g s en c)
  then obtain gs where gs: "r = AccessorResult gs en c" "s = setterOrUndefined gs" using r(1) by (cases r) auto
  then show ?thesis using same_objects_refl [OF h] AccessorProp by (simp add: setOnDescriptor_def set_spec_def Let_def)
next
  case (DataProp x w en c)
  have d: "resultIsData r" "resultWritable r = w" using result_readers(3,4) [OF r(1)] DataProp by auto
  show ?thesis
  proof (cases "w \<and> receiver \<noteq> None")
    case False
    then show ?thesis using same_objects_refl [OF h] DataProp d
      by (cases w; cases receiver) (simp_all add: setOnDescriptor_def set_spec_def)
  next
    case True
    then obtain q where q: "receiver = Some q" "w" "q < length (h_objects h)" using rc by auto
    let ?goal = "\<lambda>b h'. changes_only N q h h' \<and> (b, propsOf h' q) = specSetOn (o_isExtensible (h_objects h ! q)) v (keyOf h P) (propsOf h q)"
    have "\<exists>b h'. (if hasValue \<and> ob = q then defineOwnProperty nc h q P (mkData v 0) else setOnReceiver nc h q P v) = Some (b, h') \<and> ?goal b h'"
    proof (cases "hasValue \<and> ob = q")
      case True
      then have m: "map_of (propsOf h q) (keyOf h P) = Some (DataProp x True en c)" using own DataProp q by simp
      obtain b h' where "defineOwnProperty nc h q P (mkData v 0) = Some (b, h')" "changes_only N q h h'"
        "(b, propsOf h' q) = specDefine (o_isExtensible (h_objects h ! q)) (descOf (mkData v 0)) (keyOf h P) (propsOf h q)"
        using h q(3) P desc_ok_mkData(1) by (rule defineOwnProperty_ok)
      then show ?thesis using True m by (simp add: specSetOn_def)
    next
      case f: False
      obtain b h' where "setOnReceiver nc h q P v = Some (b, h')" "changes_only N q h h'"
        "(b, propsOf h' q) = specSetOn (o_isExtensible (h_objects h ! q)) v (keyOf h P) (propsOf h q)" using h q(3) P by (rule setOnReceiver_ok)
      then show ?thesis unfolding if_not_P [OF f] by blast
    qed
    then obtain b h' where b: "(if hasValue \<and> ob = q then defineOwnProperty nc h q P (mkData v 0) else setOnReceiver nc h q P v) = Some (b, h')" "?goal b h'"
      by blast
    have "setOnDescriptor nc h ob P v receiver hasValue r = Some (SetReturns b, h')" using b(1) d r(2) q by (simp add: setOnDescriptor_def)
    with b(2) DataProp q show ?thesis by (simp add: set_spec_def)
  qed
qed

lemma set_spec_same:
  assumes s: "same_objects N h h1" and p: "set_spec N h1 k v receiver p outcome h'"
  shows "set_spec N h k v receiver p outcome h'"
proof -
  have o: "h_objects h1 = h_objects h" using s by (simp add: same_objects_def)
  note t = same_objects_trans [OF s] changes_trans [OF same_changes [OF s]] same_props [OF s]
  show ?thesis
  proof (cases p)
    case (DataProp x w en c)
    with p o t show ?thesis by (cases w; cases receiver) (auto simp: set_spec_def)
  next
    case (AccessorProp g s en c)
    with p o t show ?thesis by (cases receiver) (auto simp: set_spec_def)
  qed
qed

lemma objectSet_ok:
  assumes h: "heap_ok N h" and ob: "ob < length (h_objects h)" and P: "valid_name N (h_env h) P"
    and rc: "\<forall>rc \<in> set_option receiver. rc < length (h_objects h)"
  shows "\<exists>lk outcome h'. chain_lookup h (keyOf h P) ob lk \<and> objectSet nc P v receiver h ob = Some (outcome, h') \<and>
    set_spec N h (keyOf h P) v receiver (case lk of Some (_, p) \<Rightarrow> p | None \<Rightarrow> DataProp Undefined True True True) outcome h'"
proof -
  from set_walk.walk_ends [OF h P same_objects_refl [OF h] ob, where nc = nc and rc = None]
  obtain h1 ob1 where w: "same_objects N h h1" "ob1 < length (h_objects h)"
    "(\<exists>r p. chain_lookup h (keyOf h P) ob (Some (ob1, p)) \<and> resultProp (dataValue nc None) r = Some p \<and> \<not> actsLikeJSGetterSetter r \<and>
        map_of (propsOf h ob1) (keyOf h P) = Some p \<and> objectSet nc P v receiver h ob = setOnDescriptor nc h1 ob1 P v receiver True r) \<or>
     chain_lookup h (keyOf h P) ob None \<and>
       objectSet nc P v receiver h ob = setOnDescriptor nc h1 ob1 P v receiver False (DataResult Undefined True True True)" by blast
  have h1: "heap_ok N h1" "valid_name N (h_env h1) P" "\<forall>rc \<in> set_option receiver. rc < length (h_objects h1)" "keyOf h1 P = keyOf h P"
    "propsOf h1 ob1 = propsOf h ob1" using w(1) P rc same_props [OF w(1)] by (auto simp: same_objects_def)
  from w(3) show ?thesis
  proof (elim disjE exE conjE)
    fix r p
    assume a: "chain_lookup h (keyOf h P) ob (Some (ob1, p))" "resultProp (dataValue nc None) r = Some p" "\<not> actsLikeJSGetterSetter r"
      "map_of (propsOf h ob1) (keyOf h P) = Some p" "objectSet nc P v receiver h ob = setOnDescriptor nc h1 ob1 P v receiver True r"
    from setOnDescriptor_ok [OF h1(1-3) a(2,3), of True ob1 v] a(4) h1(4,5) obtain outcome h' where
      "setOnDescriptor nc h1 ob1 P v receiver True r = Some (outcome, h')" "set_spec N h1 (keyOf h P) v receiver p outcome h'" by auto
    with a(1,5) set_spec_same [OF w(1)] show ?thesis by (intro exI [of _ "Some (ob1, p)"]) auto
  next
    assume a: "chain_lookup h (keyOf h P) ob None"
      "objectSet nc P v receiver h ob = setOnDescriptor nc h1 ob1 P v receiver False (DataResult Undefined True True True)"
    from setOnDescriptor_ok [OF h1(1-3), of nc "DataResult Undefined True True True" "DataProp Undefined True True True" False ob1 v] h1(4)
    obtain outcome h' where "setOnDescriptor nc h1 ob1 P v receiver False (DataResult Undefined True True True) = Some (outcome, h')"
      "set_spec N h1 (keyOf h P) v receiver (DataProp Undefined True True True) outcome h'" by auto
    with a set_spec_same [OF w(1)] show ?thesis by (intro exI [of _ None]) auto
  qed
qed

end
