(* ===== verification/ObjectInvariants.thy ===== *)
theory ObjectInvariants
  imports ObjectMethods
begin

text \<open>
  Prototypes, extensibility, and what no sequence of operations on a heap of objects can break: the invariants ECMA-262 asks of the
  internal methods. The properties of the object model are at the end, with a heap of two objects for their witnesses.
\<close>

section \<open>Prototypes and extensibility\<close>

lemma parents_range: "heap_ok N h \<Longrightarrow> ob < length (h_objects h) \<Longrightarrow> getPrototypeObject h ob = Some q \<Longrightarrow> q < length (h_objects h)"
  by (auto simp: heap_ok_def parents_def)

text \<open>The loop of \<open>setPrototype\<close> ends, and finds out whether the new prototype inherits from the object.\<close>

lemma prototypeLoop_ok:
  assumes h: "heap_ok N h"
  shows "q < length (h_objects h) \<Longrightarrow> prototypeLoop h this (Some q) = Some ((this, q) \<notin> (parents h)\<^sup>*)"
proof (induction q rule: wf_induct_rule [OF chain_wf [OF h]])
  case (1 q)
  have step: "prototypeLoop h this (Some q) = (if q = this then Some False else prototypeLoop h this (getPrototypeObject h q))"
    by (subst prototypeLoop.simps) simp
  show ?case
  proof (cases "q = this")
    case False
    show ?thesis
    proof (cases "getPrototypeObject h q")
      case None
      have "(this, q) \<notin> (parents h)\<^sup>*"
      proof
        assume "(this, q) \<in> (parents h)\<^sup>*"
        then obtain z where "(z, q) \<in> parents h" using False by (auto elim: rtranclE)
        then show False using None by (simp add: parents_def)
      qed
      moreover have "prototypeLoop h this None = Some True" by (subst prototypeLoop.simps) simp
      ultimately show ?thesis using step False None by simp
    next
      case (Some z)
      then have z: "(z, q) \<in> parents h" using 1(2) by (simp add: parents_def)
      have "(this, q) \<in> (parents h)\<^sup>* \<longleftrightarrow> (this, z) \<in> (parents h)\<^sup>*"
      proof
        assume "(this, q) \<in> (parents h)\<^sup>*"
        then obtain y where y: "(this, y) \<in> (parents h)\<^sup>*" "(y, q) \<in> parents h" using False by (auto elim: rtranclE)
        then have "y = z" using Some by (simp add: parents_def)
        then show "(this, z) \<in> (parents h)\<^sup>*" using y by simp
      qed (use z in \<open>auto intro: rtrancl_into_rtrancl\<close>)
      with 1(1) [OF z parents_range [OF h 1(2) Some]] step False Some show ?thesis by simp
    qed
  qed (use step in simp)
qed

lemma setPrototype_ok:
  assumes h: "heap_ok N h" and ob: "ob < length (h_objects h)" and q: "\<forall>q \<in> set_option proto. q < length (h_objects h)"
  obtains b h' where "setPrototype h ob proto = Some (b, h')" "heap_ok N h'" "h_env h' = h_env h" "length (h_objects h') = length (h_objects h)"
    "\<forall>x. propsOf h' x = propsOf h x \<and> o_isExtensible (h_objects h' ! x) = o_isExtensible (h_objects h ! x)"
    "\<forall>x. getPrototypeObject h' x = (if x = ob \<and> b then proto else getPrototypeObject h x)"
    "b \<longleftrightarrow> proto = getPrototypeObject h ob \<or> o_isExtensible (h_objects h ! ob) \<and> (\<forall>q \<in> set_option proto. (ob, q) \<notin> (parents h)\<^sup>*)"
proof (cases "proto = getPrototypeObject h ob")
  case True
  then have "setPrototype h ob proto = Some (True, h)" by (simp add: setPrototype_def)
  then show ?thesis by (rule that) (use h True in auto)
next
  case change: False
  show ?thesis
  proof (cases "o_isExtensible (h_objects h ! ob) \<and> (\<forall>q \<in> set_option proto. (ob, q) \<notin> (parents h)\<^sup>*)")
    case False
    have "prototypeLoop h ob proto = Some False" if "o_isExtensible (h_objects h ! ob)"
      using False that prototypeLoop_ok [OF h] q by (cases proto) auto
    then have "setPrototype h ob proto = Some (False, h)" using change by (auto simp: setPrototype_def)
    then show ?thesis by (rule that) (use h change False in auto)
  next
    case True
    let ?h = "setObject ob (\<lambda>obj. obj\<lparr>o_prototype := proto\<rparr>) h"
    have "prototypeLoop h ob proto = Some True"
      using True prototypeLoop_ok [OF h, of _ ob] q by (cases proto) (auto, subst prototypeLoop.simps, simp)
    then have r: "setPrototype h ob proto = Some (True, ?h)" using change True by (simp add: setPrototype_def)
    have obj: "h_objects ?h ! x = (if x = ob then (h_objects h ! x)\<lparr>o_prototype := proto\<rparr> else h_objects h ! x)" for x
      using ob by (simp add: setObject_def)
    have str: "objectStructure ?h x = objectStructure h x" "o_values (h_objects ?h ! x) = o_values (h_objects h ! x)" for x
      by (simp_all add: objectStructure_def obj)
    have pro: "getPrototypeObject ?h x = (if x = ob then proto else getPrototypeObject h x)" for x
      by (simp add: getPrototypeObject_def obj)
    have par: "parents ?h \<subseteq> parents h \<union> {(q, ob) | q. proto = Some q}" by (auto simp: parents_def pro split: if_splits)
    have "acyclic (parents h \<union> {(q, ob) | q. proto = Some q})"
    proof (cases proto)
      case (Some q)
      then have "parents h \<union> {(q, ob) | q. proto = Some q} = insert (q, ob) (parents h)" by auto
      moreover have "acyclic (insert (q, ob) (parents h))" using h True Some by (simp add: acyclic_insert heap_ok_def)
      ultimately show ?thesis by simp
    qed (use h in \<open>simp add: heap_ok_def\<close>)
    then have ac: "acyclic (parents ?h)" using par by (rule acyclic_subset)
    have rg: "\<forall>(x, y) \<in> parents ?h. x < length (h_objects h)" using par h q by (auto simp: heap_ok_def)
    have "heap_ok N ?h" using h ac rg str by (simp add: heap_ok_def)
    moreover have same: "h_env ?h = h_env h" "h_structures ?h = h_structures h" "length (h_objects ?h) = length (h_objects h)"
      by (simp_all add: setObject_def)
    moreover have "\<forall>x. propsOf ?h x = propsOf h x \<and> o_isExtensible (h_objects ?h ! x) = o_isExtensible (h_objects h ! x)"
      using str same by (simp add: propsOf_def obj split: option.split)
    moreover have "\<forall>x. getPrototypeObject ?h x = (if x = ob \<and> True then proto else getPrototypeObject h x)" using pro by simp
    ultimately show ?thesis using r True by (intro that [OF r]) auto
  qed
qed

lemma preventExtensions_ok:
  assumes h: "heap_ok N h" and ob: "ob < length (h_objects h)"
  obtains h' where "preventExtensions h ob = (True, h')" "heap_ok N h'" "h_env h' = h_env h" "length (h_objects h') = length (h_objects h)"
    "\<forall>x. getPrototypeObject h' x = getPrototypeObject h x" "\<forall>x < length (h_objects h). propsOf h' x = propsOf h x"
    "\<forall>x. o_isExtensible (h_objects h' ! x) = (x \<noteq> ob \<and> o_isExtensible (h_objects h ! x))"
proof -
  obtain d where d: "dictOf (h_env h) (h_structures h) (objectStructure h ob) = Some d" "slots_ok d (o_values (h_objects h ! ob))"
    "propsOf h ob = slotProps (natives (h_env h)) d (o_values (h_objects h ! ob))" using h ob by (rule heap_object)
  have inv: "store_inv (h_env h) N (h_structures h)" using h by (simp add: heap_ok_def)
  obtain q st where q: "convertToNonTransitionStructure (h_env h) (h_structures h) (objectStructure h ob) = (q, st)"
    "structure_step (h_env h) N (h_structures h) (objectStructure h ob) d q st" using inv d(1) by (rule convert_step)
  let ?obj = "(h_objects h ! ob)\<lparr>o_structure := q, o_isExtensible := False\<rparr>"
  define h' where h': "h' = h\<lparr>h_structures := st, h_objects := (h_objects h)[ob := ?obj]\<rparr>"
  have u: "heap_ok N h'" "propsOf h' ob = slotProps (natives (h_env h)) d (o_values ?obj)"
    "\<And>b. b < length (h_objects h) \<Longrightarrow> b \<noteq> ob \<Longrightarrow> propsOf h' b = propsOf h b"
    using heap_update [OF h ob q(2) _ _ _ h'] d(2) by (simp_all add: getPrototypeObject_def)
  have r: "preventExtensions h ob = (True, h')" using q(1) by (simp add: preventExtensions_def setObject_def h')
  show ?thesis
  proof (rule that [OF r u(1)])
    show "\<forall>x < length (h_objects h). propsOf h' x = propsOf h x" using u d(3) by (metis ObjectData.select_convs(2) ObjectData.surjective ObjectData.update_convs(1,4))
    show "\<forall>x. getPrototypeObject h' x = getPrototypeObject h x" "\<forall>x. o_isExtensible (h_objects h' ! x) = (x \<noteq> ob \<and> o_isExtensible (h_objects h ! x))"
      using ob by (auto simp: h' getPrototypeObject_def nth_list_update)
  qed (simp_all add: h')
qed

section \<open>The invariants of the internal methods\<close>

text \<open>
  A property that is not configurable keeps its kind and its attributes, but for a writable one that may become read-only; an
  accessor keeps its functions, a read-only property its value, up to SameValue.
\<close>

fun keeps_prop :: "Prop \<Rightarrow> Prop \<Rightarrow> bool" where
  "keeps_prop (DataProp v w en c) p \<longleftrightarrow> c \<or> (\<exists>v' w'. p = DataProp v' w' en False \<and> (w \<or> \<not> w' \<and> sameValue\<^sup>*\<^sup>* v' v))"
| "keeps_prop (AccessorProp g s en c) p \<longleftrightarrow> c \<or> (\<exists>g' s'. p = AccessorProp g' s' en False \<and> sameValue\<^sup>*\<^sup>* g' g \<and> sameValue\<^sup>*\<^sup>* s' s)"

definition keeps_props :: "bool \<Rightarrow> bool \<Rightarrow> (property_key \<times> Prop) list \<Rightarrow> (property_key \<times> Prop) list \<Rightarrow> bool" where
  "keeps_props ext ext' ps ps' \<longleftrightarrow> (ext' \<longrightarrow> ext) \<and> (\<not> ext \<longrightarrow> dom (map_of ps') \<subseteq> dom (map_of ps)) \<and>
     (\<forall>k p. map_of ps k = Some p \<longrightarrow> \<not> propConfigurable p \<longrightarrow> (\<exists>p'. map_of ps' k = Some p' \<and> keeps_prop p p'))"

lemma keeps_prop_refl: "keeps_prop p p"
  by (cases p) auto

lemma keeps_prop_trans:
  assumes "keeps_prop p q" "keeps_prop q r"
  shows "keeps_prop p r"
proof (cases p)
  case (DataProp v w en c)
  with assms show ?thesis by (cases c; cases w; cases r) (auto intro: rtranclp_trans)
next
  case (AccessorProp g s en c)
  with assms show ?thesis by (cases c; cases r) (auto intro: rtranclp_trans)
qed

lemma keeps_prop_configurable: "keeps_prop p q \<Longrightarrow> \<not> propConfigurable p \<Longrightarrow> \<not> propConfigurable q"
  by (cases p) auto

lemma keeps_props_refl: "keeps_props ext ext ps ps"
  using keeps_prop_refl by (auto simp: keeps_props_def)

lemma keeps_props_trans: "keeps_props e1 e2 p q \<Longrightarrow> keeps_props e2 e3 q r \<Longrightarrow> keeps_props e1 e3 p r"
  unfolding keeps_props_def using keeps_prop_trans keeps_prop_configurable by (meson subset_trans)

lemma applied_keeps:
  assumes "\<not> rejected d p"
  shows "keeps_prop p (applied d p)"
proof (cases p)
  case (DataProp v w en c)
  with assms show ?thesis
    by (cases "pd_value d"; cases "pd_writable d"; cases "pd_enumerable d"; cases "pd_configurable d") (auto simp: differs_def)
next
  case (AccessorProp g s en c)
  with assms show ?thesis
    by (cases "pd_get d"; cases "pd_set d"; cases "pd_enumerable d"; cases "pd_configurable d") (auto simp: differs_def)
qed

lemma specDefine_keeps: "(b, ps') = specDefine ext d k ps \<Longrightarrow> keeps_props ext ext ps ps'"
  using applied_keeps keeps_prop_refl
  by (auto simp: specDefine_def validateAndApply_def keeps_props_def spec_put_lookup dom_def split: option.splits if_splits)

lemma specDelete_keeps: "(b, ps') = specDelete k ps \<Longrightarrow> keeps_props ext ext ps ps'"
  using keeps_prop_refl
  by (auto simp: specDelete_def keeps_props_def spec_del_lookup dom_def split: option.splits if_splits)

lemma specSetOn_keeps: "(b, ps') = specSetOn ext v k ps \<Longrightarrow> keeps_props ext ext ps ps'"
  using specDefine_keeps keeps_props_refl
  by (auto simp: specSetOn_def split: option.splits Prop.splits if_splits)

section \<open>Sequences of operations\<close>

datatype ObjectOp =
  OpGet nat ObjectPropertyName
| OpHas nat ObjectPropertyName
| OpDefine nat ObjectPropertyName ObjectPropertyDescriptor
| OpDelete nat ObjectPropertyName
| OpSet nat ObjectPropertyName Value "nat option"
| OpPreventExtensions nat
| OpSetPrototype nat "nat option"

fun run_op :: "NativeCode \<Rightarrow> ObjectOp \<Rightarrow> Heap \<Rightarrow> Heap option" where
  "run_op nc (OpGet ob P) h = map_option snd (objectGet P h ob)"
| "run_op nc (OpHas ob P) h = map_option snd (hasProperty P h ob)"
| "run_op nc (OpDefine ob P desc) h = map_option snd (defineOwnProperty nc h ob P desc)"
| "run_op nc (OpDelete ob P) h = map_option snd (deleteOwnProperty h ob P)"
| "run_op nc (OpSet ob P v receiver) h = map_option snd (objectSet nc P v receiver h ob)"
| "run_op nc (OpPreventExtensions ob) h = Some (snd (preventExtensions h ob))"
| "run_op nc (OpSetPrototype ob proto) h = map_option snd (setPrototype h ob proto)"

fun run_ops :: "NativeCode \<Rightarrow> ObjectOp list \<Rightarrow> Heap \<Rightarrow> Heap option" where
  "run_ops nc [] h = Some h"
| "run_ops nc (op # ops) h = Option.bind (run_op nc op h) (run_ops nc ops)"

fun object_op_ok :: "pname set \<Rightarrow> env \<Rightarrow> nat \<Rightarrow> ObjectOp \<Rightarrow> bool" where
  "object_op_ok N e n (OpGet ob P) \<longleftrightarrow> ob < n \<and> valid_name N e P"
| "object_op_ok N e n (OpHas ob P) \<longleftrightarrow> ob < n \<and> valid_name N e P"
| "object_op_ok N e n (OpDefine ob P desc) \<longleftrightarrow> ob < n \<and> valid_name N e P \<and> desc_ok desc"
| "object_op_ok N e n (OpDelete ob P) \<longleftrightarrow> ob < n \<and> valid_name N e P"
| "object_op_ok N e n (OpSet ob P v receiver) \<longleftrightarrow> ob < n \<and> valid_name N e P \<and> (\<forall>r \<in> set_option receiver. r < n)"
| "object_op_ok N e n (OpPreventExtensions ob) \<longleftrightarrow> ob < n"
| "object_op_ok N e n (OpSetPrototype ob proto) \<longleftrightarrow> ob < n \<and> (\<forall>q \<in> set_option proto. q < n)"

text \<open>What holds between an earlier and a later heap.\<close>

definition heap_keeps :: "pname set \<Rightarrow> Heap \<Rightarrow> Heap \<Rightarrow> bool" where
  "heap_keeps N h h' \<longleftrightarrow> heap_ok N h' \<and> h_env h' = h_env h \<and> length (h_objects h') = length (h_objects h) \<and>
     (\<forall>ob < length (h_objects h).
        keeps_props (o_isExtensible (h_objects h ! ob)) (o_isExtensible (h_objects h' ! ob)) (propsOf h ob) (propsOf h' ob) \<and>
        (\<not> o_isExtensible (h_objects h ! ob) \<longrightarrow> getPrototypeObject h' ob = getPrototypeObject h ob))"

lemma heap_keeps_refl: "heap_ok N h \<Longrightarrow> heap_keeps N h h"
  by (simp add: heap_keeps_def keeps_props_refl)

lemma heap_keeps_trans:
  assumes a: "heap_keeps N h h1" and b: "heap_keeps N h1 h2"
  shows "heap_keeps N h h2"
proof -
  have "keeps_props (o_isExtensible (h_objects h ! ob)) (o_isExtensible (h_objects h2 ! ob)) (propsOf h ob) (propsOf h2 ob) \<and>
      (\<not> o_isExtensible (h_objects h ! ob) \<longrightarrow> getPrototypeObject h2 ob = getPrototypeObject h ob)" if "ob < length (h_objects h)" for ob
  proof -
    have k: "keeps_props (o_isExtensible (h_objects h ! ob)) (o_isExtensible (h_objects h1 ! ob)) (propsOf h ob) (propsOf h1 ob)"
      "keeps_props (o_isExtensible (h_objects h1 ! ob)) (o_isExtensible (h_objects h2 ! ob)) (propsOf h1 ob) (propsOf h2 ob)"
      using a b that by (simp_all add: heap_keeps_def)
    then have "\<not> o_isExtensible (h_objects h ! ob) \<Longrightarrow> \<not> o_isExtensible (h_objects h1 ! ob)" by (auto simp: keeps_props_def)
    with k a b that show ?thesis using keeps_props_trans by (simp add: heap_keeps_def) blast
  qed
  with a b show ?thesis by (simp add: heap_keeps_def)
qed

lemma changes_keep:
  assumes h: "changes_only N ob h h'" and k: "keeps_props (o_isExtensible (h_objects h ! ob)) (o_isExtensible (h_objects h ! ob)) (propsOf h ob) (propsOf h' ob)"
  shows "heap_keeps N h h'"
  unfolding heap_keeps_def
proof (intro conjI allI impI)
  fix b
  assume "b < length (h_objects h)"
  then show "keeps_props (o_isExtensible (h_objects h ! b)) (o_isExtensible (h_objects h' ! b)) (propsOf h b) (propsOf h' b)"
    using h k keeps_props_refl by (cases "b = ob") (auto simp: changes_only_def)
qed (use h in \<open>simp_all add: changes_only_def\<close>)

lemma same_keeps: "same_objects N h h' \<Longrightarrow> heap_keeps N h h'"
  by (rule changes_keep [OF same_changes [of N h h' 0]]) (simp_all add: same_props keeps_props_refl)

lemma set_keeps:
  assumes s: "set_spec N h k v receiver p outcome h'"
  shows "heap_keeps N h h'"
proof (cases "same_objects N h h'")
  case False
  with s obtain rc b where "changes_only N rc h h'" "(b, propsOf h' rc) = specSetOn (o_isExtensible (h_objects h ! rc)) v k (propsOf h rc)"
    by (auto simp: set_spec_def split: Prop.splits bool.splits option.splits)
  then show ?thesis using changes_keep specSetOn_keeps by blast
qed (rule same_keeps)

lemma run_op_keeps:
  assumes h: "heap_ok N h" and op: "object_op_ok N (h_env h) (length (h_objects h)) op"
  shows "\<exists>h'. run_op nc op h = Some h' \<and> heap_keeps N h h'"
proof (cases op)
  case (OpGet ob P)
  then have P: "ob < length (h_objects h)" "valid_name N (h_env h) P" using op by simp_all
  obtain r h' lk where "objectGet P h ob = Some (r, h')" "same_objects N h h'" using h P by (rule objectGet_ok)
  then show ?thesis using OpGet same_keeps by simp
next
  case (OpHas ob P)
  then have P: "ob < length (h_objects h)" "valid_name N (h_env h) P" using op by simp_all
  obtain r h' lk where "hasProperty P h ob = Some (r, h')" "same_objects N h h'" using h P by (rule hasProperty_ok)
  then show ?thesis using OpHas same_keeps by simp
next
  case (OpDefine ob P desc)
  then have P: "ob < length (h_objects h)" "valid_name N (h_env h) P" "desc_ok desc" using op by simp_all
  obtain b h' where d: "defineOwnProperty nc h ob P desc = Some (b, h')" "changes_only N ob h h'"
    "(b, propsOf h' ob) = specDefine (o_isExtensible (h_objects h ! ob)) (descOf desc) (keyOf h P) (propsOf h ob)"
    using h P by (rule defineOwnProperty_ok)
  show ?thesis using OpDefine d(1) changes_keep [OF d(2)] specDefine_keeps [OF d(3)] by auto
next
  case (OpDelete ob P)
  then have P: "ob < length (h_objects h)" "valid_name N (h_env h) P" using op by simp_all
  obtain b h' where d: "deleteOwnProperty h ob P = Some (b, h')" "changes_only N ob h h'"
    "(b, propsOf h' ob) = specDelete (keyOf h P) (propsOf h ob)" using h P by (rule deleteOwnProperty_ok)
  show ?thesis using OpDelete d(1) changes_keep [OF d(2)] specDelete_keeps [OF d(3)] by auto
next
  case (OpSet ob P v receiver)
  then show ?thesis using op objectSet_ok [OF h, of ob P receiver nc v] set_keeps by fastforce
next
  case (OpPreventExtensions ob)
  then have ob: "ob < length (h_objects h)" using op by simp
  obtain h' where "preventExtensions h ob = (True, h')" "heap_ok N h'" "h_env h' = h_env h" "length (h_objects h') = length (h_objects h)"
    "\<forall>x. getPrototypeObject h' x = getPrototypeObject h x" "\<forall>x < length (h_objects h). propsOf h' x = propsOf h x"
    "\<forall>x. o_isExtensible (h_objects h' ! x) = (x \<noteq> ob \<and> o_isExtensible (h_objects h ! x))" using h ob by (rule preventExtensions_ok)
  moreover have "keeps_props e (x \<and> e) ps ps" for e x ps using keeps_prop_refl by (auto simp: keeps_props_def)
  ultimately show ?thesis using OpPreventExtensions by (simp add: heap_keeps_def)
next
  case (OpSetPrototype ob proto)
  then have ob: "ob < length (h_objects h)" "\<forall>q \<in> set_option proto. q < length (h_objects h)" using op by simp_all
  obtain b h' where s: "setPrototype h ob proto = Some (b, h')" "heap_ok N h'" "h_env h' = h_env h" "length (h_objects h') = length (h_objects h)"
    "\<forall>x. propsOf h' x = propsOf h x \<and> o_isExtensible (h_objects h' ! x) = o_isExtensible (h_objects h ! x)"
    "\<forall>x. getPrototypeObject h' x = (if x = ob \<and> b then proto else getPrototypeObject h x)"
    "b \<longleftrightarrow> proto = getPrototypeObject h ob \<or> o_isExtensible (h_objects h ! ob) \<and> (\<forall>q \<in> set_option proto. (ob, q) \<notin> (parents h)\<^sup>*)"
    using h ob by (rule setPrototype_ok)
  then have "heap_keeps N h h'" by (auto simp: heap_keeps_def keeps_props_refl)
  then show ?thesis using s(1) OpSetPrototype by simp
qed

lemma run_ops_keep:
  "heap_ok N h \<Longrightarrow> \<forall>op \<in> set ops. object_op_ok N (h_env h) (length (h_objects h)) op \<Longrightarrow> \<exists>h'. run_ops nc ops h = Some h' \<and> heap_keeps N h h'"
proof (induction ops arbitrary: h)
  case Nil
  then show ?case by (simp add: heap_keeps_refl)
next
  case (Cons op ops)
  then obtain h1 where h1: "run_op nc op h = Some h1" "heap_keeps N h h1" using run_op_keeps by fastforce
  then have "heap_ok N h1" "\<forall>op \<in> set ops. object_op_ok N (h_env h1) (length (h_objects h1)) op" using Cons(3) by (auto simp: heap_keeps_def)
  from Cons(1) [OF this] h1 show ?case using heap_keeps_trans by fastforce
qed

section \<open>A heap of two objects\<close>

text \<open>Both have the hidden class with one property \<open>a\<close>; the first is the prototype of the second.\<close>

definition demo_heap :: Heap where
  "demo_heap = \<lparr>h_env = demo_env, h_structures = demo_store,
     h_objects = [\<lparr>o_structure = 0, o_values = [PlainSlot (Boolean True)], o_prototype = None, o_isExtensible = True\<rparr>,
                  \<lparr>o_structure = 0, o_values = [PlainSlot (Boolean False)], o_prototype = Some 0, o_isExtensible = True\<rparr>]\<rparr>"

abbreviation demo_names :: "pname set" where
  "demo_names \<equiv> {demo_name 97, demo_name 98}"

abbreviation demo_prop :: "nat \<Rightarrow> ObjectPropertyName" where
  "demo_prop c \<equiv> NameType (demo_name c)"

lemma demo_word: "createDataDescriptor AllPresent AND 1 \<noteq> 0" "isDataProperty (createDataDescriptor AllPresent)"
  "isWritable nh (createDataDescriptor AllPresent)" "isEnumerable nh (createDataDescriptor AllPresent)" "isConfigurable nh (createDataDescriptor AllPresent)"
  by (simp_all add: createDataDescriptor_def mkDescriptorData_def AllPresent_def reader_defs presentAttribute_def isDataProperty_def descriptorMode_def)

lemma demo_heap_simps [simp]:
  "h_env demo_heap = demo_env" "length (h_objects demo_heap) = 2"
  "getPrototypeObject demo_heap 0 = None" "getPrototypeObject demo_heap (Suc 0) = Some 0"
  "o_isExtensible (h_objects demo_heap ! 0)" "o_isExtensible (h_objects demo_heap ! Suc 0)"
  by (simp_all add: demo_heap_def getPrototypeObject_def)

lemma demo_props [simp]:
  "propsOf demo_heap 0 = [(KString [97], DataProp (Boolean True) True True True)]"
  "propsOf demo_heap (Suc 0) = [(KString [97], DataProp (Boolean False) True True True)]"
  using demo_store_inv(2) demo_word by (simp_all add: propsOf_def demo_heap_def objectStructure_def slotProps_def)

lemma demo_parents: "parents demo_heap = {(0, Suc 0)}"
  by (auto simp: parents_def numeral_2_eq_2 less_Suc_eq)

lemma demo_heap_ok: "heap_ok demo_names demo_heap"
proof -
  have "objectStructure demo_heap ob = 0" "\<exists>v. o_values (h_objects demo_heap ! ob) = [PlainSlot v]" if "ob < 2" for ob
    using that by (auto simp: objectStructure_def demo_heap_def numeral_2_eq_2 less_Suc_eq)
  then have "\<exists>d. dictOf demo_env demo_store (objectStructure demo_heap ob) = Some d \<and> slots_ok d (o_values (h_objects demo_heap ! ob))"
    "inTransitionMode (demo_store ! objectStructure demo_heap ob)" if "ob < 2" for ob
    using that demo_store_inv(2) demo_word demo_store_ok(4) by (fastforce simp: slots_ok_def)+
  moreover have "h_structures demo_heap = demo_store" by (simp add: demo_heap_def)
  moreover have "acyclic {(0 :: nat, Suc 0)}" by (auto simp: acyclic_def elim: tranclE dest: tranclD)
  ultimately show ?thesis using demo_store_inv(1) by (simp add: heap_ok_def demo_parents)
qed

lemma demo_valid: "c = 97 \<or> c = 98 \<Longrightarrow> valid_name demo_names demo_env (demo_prop c)"
  using demo_name_ok [of c] by (auto simp: valid_name_def)

lemma demo_key: "c < 256 \<Longrightarrow> keyOf demo_heap (demo_prop c) = KString [c]"
  using demo_name_ok [of c] by simp

lemmas demo_facts = demo_heap_ok demo_valid demo_key desc_ok_mkData


lemma chain_lookup_unique: "chain_lookup h k ob r \<Longrightarrow> chain_lookup h k ob r' \<Longrightarrow> r' = r"
proof (induction arbitrary: r' rule: chain_lookup.induct)
  case (here ob p)
  from here(2) show ?case by (cases rule: chain_lookup.cases) (simp_all add: here(1))
next
  case (nowhere ob)
  from nowhere(3) show ?case by (cases rule: chain_lookup.cases) (simp_all add: nowhere(1,2))
next
  case (up ob q r)
  from up(5) show ?case
  proof (cases rule: chain_lookup.cases)
    case (up q')
    then show ?thesis using \<open>getPrototypeObject h ob = Some q\<close> \<open>\<And>r'. chain_lookup h k q r' \<Longrightarrow> r' = r\<close> by simp
  qed (simp_all add: up(1,2))
qed

lemma specSetOn_True: "specSetOn ext v k ps = (True, ps') \<Longrightarrow> \<exists>w en c. map_of ps' k = Some (DataProp v w en c)"
  by (auto simp: specSetOn_def specDefine_def validateAndApply_def spec_put_lookup created_def IsAccessorDesc_def split: option.splits Prop.splits if_splits)

lemma result_data_value:
  assumes "resultProp (dataValue nc rc) r = Some (DataProp v w en c)"
  shows "resultValue nc rc r = ReturnValue v"
  using assms by (cases r) auto


lemma demo_lookup:
  "chain_lookup demo_heap (KString [97]) 0 lk \<longleftrightarrow> lk = Some (0, DataProp (Boolean True) True True True)"
  "chain_lookup demo_heap (KString [97]) (Suc 0) lk \<longleftrightarrow> lk = Some (Suc 0, DataProp (Boolean False) True True True)"
proof -
  have "chain_lookup demo_heap (KString [97]) 0 (Some (0, DataProp (Boolean True) True True True))"
    "chain_lookup demo_heap (KString [97]) (Suc 0) (Some (Suc 0, DataProp (Boolean False) True True True))" by (rule here, simp)+
  then show "chain_lookup demo_heap (KString [97]) 0 lk \<longleftrightarrow> lk = Some (0, DataProp (Boolean True) True True True)"
    "chain_lookup demo_heap (KString [97]) (Suc 0) lk \<longleftrightarrow> lk = Some (Suc 0, DataProp (Boolean False) True True True)"
    using chain_lookup_unique by blast+
qed

lemma demo_set:
  assumes "set_spec N demo_heap (KString [97]) v (Some rc) (DataProp x True True True) outcome h'" "rc = 0 \<or> rc = Suc 0"
  shows "outcome = SetReturns True" "propsOf h' rc = [(KString [97], DataProp v True True True)]" "changes_only N rc demo_heap h'"
proof -
  have s: "specSetOn True v (KString [97]) [(KString [97], DataProp y True True True)] = (True, [(KString [97], DataProp v True True True)])" for y
    by (simp add: specSetOn_def specDefine_def validateAndApply_def spec_put_def)
  obtain b where b: "outcome = SetReturns b" "changes_only N rc demo_heap h'"
    "(b, propsOf h' rc) = specSetOn (o_isExtensible (h_objects demo_heap ! rc)) v (KString [97]) (propsOf demo_heap rc)"
    using assms(1) by (auto simp: set_spec_def)
  from b(3) assms(2) have "(b, propsOf h' rc) = (True, [(KString [97], DataProp v True True True)])" using s by (elim disjE) simp_all
  then show "outcome = SetReturns True" "propsOf h' rc = [(KString [97], DataProp v True True True)]" "changes_only N rc demo_heap h'" using b(1,2) by simp_all
qed

definition demo_code :: NativeCode where
  "demo_code = \<lparr>nativeGet = (\<lambda>f ob receiver v. v), nativeSet = (\<lambda>f ob receiver v w. (True, w)), newNative = 0, callable = (\<lambda>_. True)\<rparr>"

section \<open>Properties\<close>

text \<open>C2: \<open>Object::defineOwnProperty\<close> implements \<open>[[DefineOwnProperty]]\<close> of ECMA-262: on every object of a well-formed heap it ends,
  accepts a descriptor exactly when \<open>ValidateAndApplyPropertyDescriptor\<close> does, and leaves the property the specification gives in the
  place it had, or at the end when it is new; no other object changes, although hidden classes are shared.\<close>

theorem defineOwnProperty_refines_spec:
  assumes "heap_ok N h" and "ob < length (h_objects h)" and "valid_name N (h_env h) P" and "desc_ok desc"
  shows "\<exists>b h'. defineOwnProperty nc h ob P desc = Some (b, h') \<and> changes_only N ob h h' \<and>
    (b, propsOf h' ob) = specDefine (o_isExtensible (h_objects h ! ob)) (descOf desc) (keyOf h P) (propsOf h ob)"
  using assms by (rule defineOwnProperty_ok) blast

theorem defineOwnProperty_refines_spec_witness:
  "\<exists>h'. defineOwnProperty demo_code demo_heap 1 (demo_prop 98) (mkData (Boolean True) 142) = Some (True, h') \<and>
     propsOf h' 1 = [(KString [97], DataProp (Boolean False) True True True), (KString [98], DataProp (Boolean True) True True True)]"
  using defineOwnProperty_refines_spec [OF demo_heap_ok, of 1 "demo_prop 98" "mkData (Boolean True) 142" demo_code] demo_facts
  by (auto simp: specDefine_def validateAndApply_def created_def IsAccessorDesc_def spec_put_def)

text \<open>\<open>Object::deleteOwnProperty\<close> implements \<open>[[Delete]]\<close>: it refuses a property that is not configurable, takes any other one out and
  keeps the rest in order, and answers true when there is none.\<close>

theorem deleteOwnProperty_refines_spec:
  assumes "heap_ok N h" and "ob < length (h_objects h)" and "valid_name N (h_env h) P"
  shows "\<exists>b h'. deleteOwnProperty h ob P = Some (b, h') \<and> changes_only N ob h h' \<and>
    (b, propsOf h' ob) = specDelete (keyOf h P) (propsOf h ob)"
  using assms by (rule deleteOwnProperty_ok) blast

theorem deleteOwnProperty_refines_spec_witness:
  "\<exists>h'. deleteOwnProperty demo_heap 1 (demo_prop 97) = Some (True, h') \<and> propsOf h' 1 = []"
  using deleteOwnProperty_refines_spec [OF demo_heap_ok, of 1 "demo_prop 97"] demo_facts
  by (auto simp: specDelete_def spec_del_def)

text \<open>C4: Every lookup ends, since \<open>setPrototype\<close> lets no chain of prototypes become a cycle: \<open>get\<close> gives the property of the first object
  up the chain that has it, \<open>hasProperty\<close> says whether there is one, and neither changes an object.\<close>

theorem lookup_ends_at_first_holder:
  assumes "heap_ok N h" and "ob < length (h_objects h)" and "valid_name N (h_env h) P"
  shows "\<exists>lk r h1 r' h2. chain_lookup h (keyOf h P) ob lk \<and>
    objectGet P h ob = Some (r, h1) \<and> same_objects N h h1 \<and> resultProp (dataValue nc receiver) r = map_option snd lk \<and>
    hasProperty P h ob = Some (r', h2) \<and> same_objects N h h2 \<and> (resultHasValue r' \<longleftrightarrow> lk \<noteq> None)"
proof -
  obtain r h1 lk where g: "objectGet P h ob = Some (r, h1)" "same_objects N h h1" "chain_lookup h (keyOf h P) ob lk"
    "resultProp (dataValue nc receiver) r = map_option snd lk" using assms by (rule objectGet_ok)
  obtain r' h2 lk' where k: "hasProperty P h ob = Some (r', h2)" "same_objects N h h2" "chain_lookup h (keyOf h P) ob lk'"
    "resultHasValue r' \<longleftrightarrow> lk' \<noteq> None" using assms by (rule hasProperty_ok)
  with g chain_lookup_unique show ?thesis by blast
qed

theorem lookup_ends_at_first_holder_witness:
  "\<exists>r h1. objectGet (demo_prop 97) demo_heap 1 = Some (r, h1) \<and> resultProp (dataValue demo_code None) r = Some (DataProp (Boolean False) True True True)"
  using lookup_ends_at_first_holder [OF demo_heap_ok, of 1 "demo_prop 97" demo_code None] demo_facts by (auto simp: demo_lookup)

text \<open>C3: \<open>Object::set\<close> implements \<open>[[Set]]\<close>: it ends, and follows the first property up the chain: a read-only one or an accessor without a
  setter refuses, an accessor's setter is called, and otherwise the receiver's own property gets the value, or is created, and only the
  receiver changes; a receiver with an accessor or a read-only property of its own refuses.\<close>

theorem objectSet_refines_spec:
  assumes "heap_ok N h" and "ob < length (h_objects h)" and "valid_name N (h_env h) P"
    and "\<forall>rc \<in> set_option receiver. rc < length (h_objects h)"
  shows "\<exists>lk outcome h'. chain_lookup h (keyOf h P) ob lk \<and> objectSet nc P v receiver h ob = Some (outcome, h') \<and>
    set_spec N h (keyOf h P) v receiver (case lk of Some (_, p) \<Rightarrow> p | None \<Rightarrow> DataProp Undefined True True True) outcome h'"
  using assms by (rule objectSet_ok)

theorem objectSet_refines_spec_witness:
  "\<exists>h'. objectSet demo_code (demo_prop 97) Null (Some 1) demo_heap 0 = Some (SetReturns True, h') \<and>
     propsOf h' 0 = [(KString [97], DataProp (Boolean True) True True True)] \<and> propsOf h' 1 = [(KString [97], DataProp Null True True True)]"
proof -
  from objectSet_refines_spec [OF demo_heap_ok, of 0 "demo_prop 97" "Some 1" demo_code Null] obtain outcome h' where
    o: "objectSet demo_code (demo_prop 97) Null (Some 1) demo_heap 0 = Some (outcome, h')"
      "set_spec demo_names demo_heap (KString [97]) Null (Some 1) (DataProp (Boolean True) True True True) outcome h'"
    using demo_facts by (auto simp: demo_lookup)
  have r: "outcome = SetReturns True" "propsOf h' 1 = [(KString [97], DataProp Null True True True)]" "changes_only demo_names 1 demo_heap h'"
    by (rule demo_set [OF o(2)], simp)+
  from r(3) have "propsOf h' 0 = propsOf demo_heap 0" by (simp add: changes_only_def)
  with o(1) r show ?thesis by simp
qed

text \<open>When setting a property of an object succeeds, getting it gives the value that was set.\<close>

theorem set_then_get:
  assumes "heap_ok N h" and "ob < length (h_objects h)" and "valid_name N (h_env h) P"
    and "objectSet nc P v (Some ob) h ob = Some (SetReturns True, h')"
  shows "\<exists>r h''. objectGet P h' ob = Some (r, h'') \<and> resultValue nc receiver r = ReturnValue v"
proof -
  from objectSet_ok [OF assms(1-3), of "Some ob" nc v] assms(2,4) obtain p where
    s: "set_spec N h (keyOf h P) v (Some ob) p (SetReturns True) h'" by auto
  then have c: "changes_only N ob h h'" "(True, propsOf h' ob) = specSetOn (o_isExtensible (h_objects h ! ob)) v (keyOf h P) (propsOf h ob)"
    by (auto simp: set_spec_def split: Prop.splits bool.splits if_splits)
  from specSetOn_True [OF c(2) [symmetric]] obtain w en cf where m: "map_of (propsOf h' ob) (keyOf h P) = Some (DataProp v w en cf)" by blast
  have h': "heap_ok N h'" "ob < length (h_objects h')" "valid_name N (h_env h') P" "keyOf h' P = keyOf h P" using c(1) assms by (auto simp: changes_only_def)
  obtain r h'' lk where g: "objectGet P h' ob = Some (r, h'')" "chain_lookup h' (keyOf h' P) ob lk"
    "resultProp (dataValue nc receiver) r = map_option snd lk" using h'(1-3) by (rule objectGet_ok)
  have "lk = Some (ob, DataProp v w en cf)" using g(2) here [OF m] h'(4) chain_lookup_unique by simp
  then show ?thesis using g(1,3) result_data_value by auto
qed

theorem set_then_get_witness:
  "\<exists>h' r h''. objectSet demo_code (demo_prop 97) Null (Some 0) demo_heap 0 = Some (SetReturns True, h') \<and>
     objectGet (demo_prop 97) h' 0 = Some (r, h'') \<and> resultValue demo_code None r = ReturnValue Null"
proof -
  from objectSet_ok [OF demo_heap_ok, of 0 "demo_prop 97" "Some 0" demo_code Null] obtain outcome h' where
    o: "objectSet demo_code (demo_prop 97) Null (Some 0) demo_heap 0 = Some (outcome, h')"
      "set_spec demo_names demo_heap (KString [97]) Null (Some 0) (DataProp (Boolean True) True True True) outcome h'"
    using demo_facts by (auto simp: demo_lookup)
  have "outcome = SetReturns True" by (rule demo_set [OF o(2)]) simp
  then have s: "objectSet demo_code (demo_prop 97) Null (Some 0) demo_heap 0 = Some (SetReturns True, h')" using o(1) by simp
  with set_then_get [OF demo_heap_ok _ _ s, where receiver = None] demo_facts show ?thesis by simp
qed

text \<open>C5: \<open>Object::setPrototype\<close> ends, and succeeds exactly when the object has that prototype already, or is extensible and the new
  prototype neither is the object nor inherits from it; so no chain of prototypes ever becomes a cycle. Nothing else changes.\<close>

theorem setPrototype_refuses_cycles:
  assumes "heap_ok N h" and "ob < length (h_objects h)" and "\<forall>q \<in> set_option proto. q < length (h_objects h)"
  shows "\<exists>b h'. setPrototype h ob proto = Some (b, h') \<and> heap_ok N h' \<and> acyclic (parents h') \<and>
    (b \<longleftrightarrow> proto = getPrototypeObject h ob \<or> o_isExtensible (h_objects h ! ob) \<and> (\<forall>q \<in> set_option proto. (ob, q) \<notin> (parents h)\<^sup>*)) \<and>
    (\<forall>x. getPrototypeObject h' x = (if x = ob \<and> b then proto else getPrototypeObject h x) \<and> propsOf h' x = propsOf h x)"
  using assms by (rule setPrototype_ok) (auto simp: heap_ok_def)

theorem setPrototype_refuses_cycles_witness:
  "\<exists>h'. setPrototype demo_heap 0 (Some 1) = Some (False, h') \<and> getPrototypeObject h' 0 = None"
  using setPrototype_refuses_cycles [OF demo_heap_ok, of 0 "Some 1"] by (auto simp: demo_parents)



end
