(* ===== verification/ArrayObject.thy ===== *)
theory ArrayObject
  imports ObjectMethods
begin

text \<open>
  Array objects, \<open>src/runtime/ArrayObject.cpp\<close> and \<open>ArrayObject.h\<close>. A fast array keeps its elements in a buffer, a hole is the empty
  value; any other array keeps them among its ordinary properties. The buffer is modelled cell by cell, with the cells behind the
  length: \<open>None\<close> stands for an access outside of a buffer, and for the exception of \<open>defineOwnPropertyThrowsException\<close>.
  The ordinary part of the array is the list of its properties, on which the methods of \<open>Object\<close> act as
  \<^theory_text>\<open>ObjectMethods\<close> shows.
\<close>

section \<open>State\<close>

text \<open>The two 64-bit builds: with 32-bit heap references (\<open>ESCARGOT_USE_32BIT_IN_64BIT\<close>), and the large one. The cells of fresh
  memory hold anything.\<close>

record Platform =
  p_large :: bool
  p_junk :: "nat \<Rightarrow> Value"

record ArrayRareData =
  m_isExtensible :: bool
  m_isArrayObjectLengthWritable :: bool
  m_arrayObjectFastModeBufferCapacity :: nat
  m_arrayObjectFastModeBufferExpandCount :: nat

record ArrayObject =
  m_arrayLength :: nat
  m_fastModeData :: "Value list option"
  m_rareData :: "ArrayRareData option"
  m_properties :: "(property_key \<times> Prop) list"

definition newRareData :: ArrayRareData where
  "newRareData = \<lparr>m_isExtensible = True, m_isArrayObjectLengthWritable = True, m_arrayObjectFastModeBufferCapacity = 0,
     m_arrayObjectFastModeBufferExpandCount = 0\<rparr>"

definition ensureRareData :: "ArrayObject \<Rightarrow> ArrayRareData" where
  "ensureRareData a = (case m_rareData a of None \<Rightarrow> newRareData | Some r \<Rightarrow> r)"

definition isFastModeArray :: "ArrayObject \<Rightarrow> bool" where
  "isFastModeArray a \<longleftrightarrow> m_fastModeData a \<noteq> None"

definition isLengthPropertyWritable :: "ArrayObject \<Rightarrow> bool" where
  "isLengthPropertyWritable a = (case m_rareData a of None \<Rightarrow> True | Some r \<Rightarrow> m_isArrayObjectLengthWritable r)"

definition isExtensible :: "ArrayObject \<Rightarrow> bool" where
  "isExtensible a = (case m_rareData a of None \<Rightarrow> True | Some r \<Rightarrow> m_isExtensible r)"

definition setLengthNotWritable :: "ArrayObject \<Rightarrow> ArrayObject" where
  "setLengthNotWritable a = a\<lparr>m_rareData := Some ((ensureRareData a)\<lparr>m_isArrayObjectLengthWritable := False\<rparr>)\<rparr>"

text \<open>The key of an index, and the index of a key (\<open>tryToUseAsIndexProperty\<close>).\<close>

definition idxKey :: "nat \<Rightarrow> property_key" where
  "idxKey i = KString (fromInt32 (int i))"

fun indexOfKey :: "property_key \<Rightarrow> nat option" where
  "indexOfKey (KString s) = (let i = tryToUseAsIndexProperty s in if i = 2 ^ 32 - 1 then None else Some i)"
| "indexOfKey (KSymbol s) = None"

definition lengthKey :: property_key where
  "lengthKey = KString (us ''length'')"

definition uint32Value :: "nat \<Rightarrow> Value" where
  "uint32Value n = (if n < 2 ^ 31 then Int32 (int n) else Double (int32ToDouble (int n)))"

section \<open>The buffer\<close>

definition float24 :: "nat \<Rightarrow> nat" where
  "float24 n =
     (let k = fastLog2 n - 23; q = n div 2 ^ k; r = n mod 2 ^ k; half = 2 ^ k div 2
      in if k = 0 then n else if r > half \<or> r = half \<and> odd q then (q + 1) * 2 ^ k else q * 2 ^ k)"

text \<open>\<open>newSize * (130 / 100.f)\<close> in single precision, where the factor is \<open>10905190 / 2 ^ 23\<close>.\<close>

definition capacityWithPercent130 :: "nat \<Rightarrow> nat" where
  "capacityWithPercent130 newSize = float24 (float24 newSize * 10905190) div 2 ^ 23"

definition capacityWithLog2 :: "nat \<Rightarrow> nat" where
  "capacityWithLog2 newSize = (if newSize = 0 then 0 else 2 ^ (fastLog2 newSize + 1))"

text \<open>A new buffer of \<open>n\<close> cells that starts with \<open>count\<close> cells of the old one\<close>

definition copyBuffer :: "Platform \<Rightarrow> Value list \<Rightarrow> nat \<Rightarrow> nat \<Rightarrow> Value list option" where
  "copyBuffer pl buf count n =
     (if length buf < count \<or> n < count then None else Some (take count buf @ map (p_junk pl) [count..<n]))"

definition clearSlots :: "nat \<Rightarrow> nat \<Rightarrow> Value list \<Rightarrow> Value list option" where
  "clearSlots lo hi buf =
     (if hi \<le> lo then Some buf else if length buf < hi then None
      else Some (take lo buf @ replicate (hi - lo) EmptyValue @ drop hi buf))"

definition setCapacity :: "nat \<Rightarrow> ArrayRareData \<Rightarrow> ArrayRareData" where
  "setCapacity c r = r\<lparr>m_arrayObjectFastModeBufferCapacity := c\<rparr>"

text \<open>The storage that fits exactly. \<open>GC_REALLOC\<close> keeps the whole old buffer, the vector of the other build only the elements.\<close>

definition fitStorage :: "Platform \<Rightarrow> ArrayObject \<Rightarrow> Value list \<Rightarrow> nat \<Rightarrow> ArrayObject option" where
  "fitStorage pl a buf newLength =
     (let oldLength = m_arrayLength a;
          oldCapacity = (case m_rareData a of None \<Rightarrow> 0 | Some r \<Rightarrow> m_arrayObjectFastModeBufferCapacity r)
      in map_option
           (\<lambda>b. a\<lparr>m_arrayLength := newLength, m_fastModeData := Some b, m_rareData := map_option (setCapacity 0) (m_rareData a)\<rparr>)
           (Option.bind (copyBuffer pl buf (min (if p_large pl then length buf else oldLength) newLength) newLength)
             (\<lambda>b. if p_large pl \<and> oldCapacity \<noteq> 0 \<and> newLength \<le> oldCapacity then Some b else clearSlots oldLength newLength b)))"

text \<open>The storage with spare cells. The large build copies all old elements whatever the new capacity is.\<close>

definition expandStorage :: "Platform \<Rightarrow> ArrayObject \<Rightarrow> Value list \<Rightarrow> nat \<Rightarrow> bool \<Rightarrow> ArrayObject option" where
  "expandStorage pl a buf newLength clearNewSlots =
     (let oldLength = m_arrayLength a;
          oldCapacity = (case m_rareData a of None \<Rightarrow> oldLength | Some r \<Rightarrow> m_arrayObjectFastModeBufferCapacity r);
          isAppendGrowth = (newLength = oldLength + 1);
          rd = ensureRareData a;
          count = m_arrayObjectFastModeBufferExpandCount rd;
          clear = (\<lambda>b. if p_large pl \<and> \<not> clearNewSlots then Some b else clearSlots oldLength newLength b);
          update = (\<lambda>rd b. a\<lparr>m_arrayLength := newLength, m_fastModeData := Some b, m_rareData := Some rd\<rparr>)
      in if oldCapacity < newLength
         then let newCapacity = (if isAppendGrowth \<or> 3 \<le> count then capacityWithLog2 newLength else capacityWithPercent130 newLength)
              in map_option
                   (update ((setCapacity newCapacity rd)\<lparr>m_arrayObjectFastModeBufferExpandCount := (if count < 3 then count + 1 else count)\<rparr>))
                   (Option.bind (copyBuffer pl buf (if p_large pl then oldLength else min oldLength newCapacity) newCapacity) clear)
         else map_option (update (setCapacity oldCapacity rd)) (clear buf))"

section \<open>Ordinary properties\<close>

text \<open>\<open>DerivedObject::defineOwnProperty\<close> and \<open>Object::deleteOwnProperty\<close> on the properties of the hidden class\<close>

definition derivedDefine :: "ArrayObject \<Rightarrow> property_key \<Rightarrow> ObjectPropertyDescriptor \<Rightarrow> bool \<times> ArrayObject" where
  "derivedDefine a k desc =
     (let (b, ps) = specDefine (isExtensible a) (descOf desc) k (m_properties a) in (b, a\<lparr>m_properties := ps\<rparr>))"

definition ordinaryDelete :: "ArrayObject \<Rightarrow> property_key \<Rightarrow> bool \<times> ArrayObject" where
  "ordinaryDelete a k = (let (b, ps) = specDelete k (m_properties a) in (b, a\<lparr>m_properties := ps\<rparr>))"

section \<open>Leaving the fast mode\<close>

text \<open>The array is no longer fast and the indices lie below the length, so \<open>ArrayObject::defineOwnProperty\<close> hands each element to
  \<open>DerivedObject::defineOwnProperty\<close>.\<close>

fun defineElements :: "(nat \<times> Value) list \<Rightarrow> ArrayObject \<Rightarrow> ArrayObject option" where
  "defineElements [] a = Some a"
| "defineElements ((i, v) # rest) a =
     (if v = EmptyValue then defineElements rest a
      else let (b, a') = derivedDefine a (idxKey i) (mkData v DescAllPresent)
           in if b then defineElements rest a' else None)"

definition convertIntoNonFastMode :: "ArrayObject \<Rightarrow> ArrayObject option" where
  "convertIntoNonFastMode a =
     (case m_fastModeData a of
        None \<Rightarrow> Some a
      | Some buf \<Rightarrow>
          if length buf < m_arrayLength a then None
          else defineElements (zip [0..<m_arrayLength a] buf) (a\<lparr>m_fastModeData := None\<rparr>))"

section \<open>The length\<close>

text \<open>
  \<open>Object::nextIndexBackward\<close>: for each object of the chain the keys as numbers, cut to 64 bits, or \<open>None\<close> for an object that is not
  ordinary.
\<close>

fun nextIndexBackward :: "int list option list \<Rightarrow> int \<Rightarrow> int \<Rightarrow> int \<Rightarrow> int" where
  "nextIndexBackward [] cur end ret = min ret (cur - 1)"
| "nextIndexBackward (None # os) cur end ret = max end (cur - 1)"
| "nextIndexBackward (Some keys # os) cur end ret =
     nextIndexBackward os cur end (fold (\<lambda>index ret. if index \<noteq> - 1 \<and> index < cur then max index ret else ret) keys ret)"

lemma nextIndexBackward_less: "end < cur \<Longrightarrow> nextIndexBackward os cur end ret < cur"
  by (induction os cur "end" ret rule: nextIndexBackward.induct) auto

text \<open>\<open>ArrayObject::deleteOwnProperty\<close>\<close>

definition arrayDelete :: "ArrayObject \<Rightarrow> property_key \<Rightarrow> (bool \<times> ArrayObject) option" where
  "arrayDelete a P =
     (if P = lengthKey then Some (False, a)
      else case (m_fastModeData a, indexOfKey P) of
        (Some buf, Some idx) \<Rightarrow>
          if idx < m_arrayLength a
          then if idx < length buf then Some (True, a\<lparr>m_fastModeData := Some (buf[idx := EmptyValue])\<rparr>) else None
          else Some (ordinaryDelete a P)
      | _ \<Rightarrow> Some (ordinaryDelete a P))"

text \<open>The enumeration of an array: the elements of a fast one, \<open>length\<close>, and the properties that are no symbols.\<close>

definition enumerationKeys :: "ArrayObject \<Rightarrow> property_key list" where
  "enumerationKeys a =
     (case m_fastModeData a of
        None \<Rightarrow> [] | Some buf \<Rightarrow> map idxKey (filter (\<lambda>i. buf ! i \<noteq> EmptyValue) [0..<m_arrayLength a])) @
     lengthKey # filter (\<lambda>k. case k of KString s \<Rightarrow> True | KSymbol s \<Rightarrow> False) (map fst (m_properties a))"

text \<open>The end of \<open>setArrayLength\<close> for arrays that are not fast. \<open>number\<close> is \<open>ToNumber\<close> of a key.\<close>

function truncateLoop ::
  "(property_key \<Rightarrow> int) \<Rightarrow> int list option list \<Rightarrow> nat \<Rightarrow> nat \<Rightarrow> ArrayObject \<Rightarrow> (bool \<times> ArrayObject) option" where
  "truncateLoop number protos newLen oldLen a =
     (if newLen < oldLen
      then let cur = oldLen - 1;
               next = (if map_of (m_properties a) (idxKey cur) \<noteq> None then int cur
                       else nextIndexBackward (Some (map number (enumerationKeys a)) # protos) (int cur) (- 1) (- 1))
           in if next < int newLen then Some (True, a\<lparr>m_arrayLength := newLen\<rparr>)
              else case arrayDelete a (idxKey (nat next)) of
                None \<Rightarrow> None
              | Some (True, a') \<Rightarrow> truncateLoop number protos newLen (nat next) a'
              | Some (False, a') \<Rightarrow> Some (False, a'\<lparr>m_arrayLength := nat next + 1\<rparr>)
      else Some (True, a\<lparr>m_arrayLength := newLen\<rparr>))"
  by pat_completeness auto
termination
proof (relation "measure (\<lambda>(number, protos, newLen, oldLen, a). oldLen)", simp)
  fix number :: "property_key \<Rightarrow> int" and protos newLen oldLen a cur "next"
  assume "newLen < oldLen" and cur: "cur = oldLen - 1"
    and n: "next = (if map_of (m_properties a) (idxKey cur) \<noteq> None then int cur
       else nextIndexBackward (Some (map number (enumerationKeys a)) # protos) (int cur) (- 1) (- 1))"
  then have "next \<le> int cur" using nextIndexBackward_less [of "- 1" "int cur"] by (smt (verit) of_nat_0_le_iff)
  then have "nat next < oldLen" using \<open>newLen < oldLen\<close> cur by linarith
  then show "((number, protos, newLen, nat next, b), number, protos, newLen, oldLen, a) \<in> measure (\<lambda>(number, protos, newLen, oldLen, a). oldLen)" for b
    by simp
qed

definition setArrayLength ::
  "Platform \<Rightarrow> (property_key \<Rightarrow> int) \<Rightarrow> int list option list \<Rightarrow> ArrayObject \<Rightarrow> nat \<Rightarrow> bool \<Rightarrow> bool \<Rightarrow> bool \<Rightarrow> (bool \<times> ArrayObject) option" where
  "setArrayLength pl number protos a newLength useFitStorage considerHole clearNewSlots =
     (let oldLength = m_arrayLength a
      in if isFastModeArray a \<and> oldLength < newLength \<and> \<not> isLengthPropertyWritable a then Some (False, a)
         else Option.bind
           (if isFastModeArray a \<and> 65536 * 16 < newLength \<and> considerHole \<and> oldLength < newLength \<and>
               (1024 < newLength - oldLength \<or> (2 ^ 32 - 1) div 2 \<le> newLength)
            then convertIntoNonFastMode a else Some a)
           (\<lambda>a1. case m_fastModeData a1 of
              Some buf \<Rightarrow>
                if oldLength = newLength then Some (True, a1)
                else map_option (\<lambda>a3. (True, a3))
                  (Option.bind
                    (if useFitStorage \<or> oldLength = 0 \<or> newLength \<le> 16 then fitStorage pl a1 buf newLength
                     else expandStorage pl a1 buf newLength clearNewSlots)
                    (\<lambda>a2. if isLengthPropertyWritable a2 then Some a2 else convertIntoNonFastMode a2))
            | None \<Rightarrow> truncateLoop number protos newLength oldLength a1))"

section \<open>Reading\<close>

text \<open>\<open>getVirtualValue\<close>\<close>

definition getVirtualValue :: "ArrayObject \<Rightarrow> property_key \<Rightarrow> Prop option option" where
  "getVirtualValue a P =
     (if P = lengthKey then Some (Some (DataProp (uint32Value (m_arrayLength a)) (isLengthPropertyWritable a) False False))
      else case (m_fastModeData a, indexOfKey P) of
        (Some buf, Some idx) \<Rightarrow>
          if idx < m_arrayLength a
          then if idx < length buf then Some (if buf ! idx \<noteq> EmptyValue then Some (DataProp (buf ! idx) True True True) else None) else None
          else Some None
      | _ \<Rightarrow> Some None)"

definition arrayGetOwnProperty :: "ArrayObject \<Rightarrow> property_key \<Rightarrow> Prop option option" where
  "arrayGetOwnProperty a P =
     (case getVirtualValue a P of
        None \<Rightarrow> None | Some (Some p) \<Rightarrow> Some (Some p) | Some None \<Rightarrow> Some (map_of (m_properties a) P))"

section \<open>Defining\<close>

definition isValuePresentAlone :: "ObjectPropertyDescriptor \<Rightarrow> bool" where
  "isValuePresentAlone d \<longleftrightarrow> m_property d = ValuePresent"

definition isDataWritableEnumerableConfigurable :: "ObjectPropertyDescriptor \<Rightarrow> bool" where
  "isDataWritableEnumerableConfigurable d \<longleftrightarrow>
     m_isDataProperty d \<and> isValuePresent d \<and> descWritable d \<and> descEnumerable d \<and> descConfigurable d"

text \<open>\<open>defineOwnProperty\<close> of \<open>length\<close>, once the value is a length.\<close>

definition arrayDefineLength ::
  "Platform \<Rightarrow> (property_key \<Rightarrow> int) \<Rightarrow> int list option list \<Rightarrow> ArrayObject \<Rightarrow> ObjectPropertyDescriptor \<Rightarrow> nat \<Rightarrow> (bool \<times> ArrayObject) option" where
  "arrayDefineLength pl number protos a desc newLen =
     (let lock = (\<lambda>a. if isWritablePresent desc \<and> \<not> descWritable desc then setLengthNotWritable a else a)
      in if \<not> isLengthPropertyWritable a \<and> isValuePresent desc \<and> m_arrayLength a \<noteq> newLen then Some (False, a)
         else if isConfigurablePresent desc \<and> descConfigurable desc then Some (False, a)
         else if isEnumerablePresent desc \<and> descEnumerable desc then Some (False, a)
         else if isAccessorDescriptor desc then Some (False, a)
         else if \<not> isLengthPropertyWritable a \<and> descWritable desc then Some (False, a)
         else if isValuePresent desc \<and> m_arrayLength a \<noteq> newLen
         then if m_arrayLength a < newLen
              then map_option (\<lambda>(b, a'). if b then (True, lock a') else (False, a')) (setArrayLength pl number protos a newLen False True True)
              else setArrayLength pl number protos (lock a) newLen False True True
         else Some (True, lock a))"

text \<open>The path for arrays that are not fast\<close>

definition arrayDefineSlow ::
  "Platform \<Rightarrow> (property_key \<Rightarrow> int) \<Rightarrow> int list option list \<Rightarrow> ArrayObject \<Rightarrow> property_key \<Rightarrow> ObjectPropertyDescriptor \<Rightarrow> (bool \<times> ArrayObject) option" where
  "arrayDefineSlow pl number protos a P desc =
     (case indexOfKey P of
        None \<Rightarrow> Some (derivedDefine a P desc)
      | Some idx \<Rightarrow>
          let oldLen = m_arrayLength a
          in if oldLen \<le> idx \<and> \<not> isLengthPropertyWritable a then Some (False, a)
             else let (succeeded, a') = derivedDefine a P desc
                  in if \<not> succeeded then Some (False, a')
                     else if oldLen \<le> idx then setArrayLength pl number protos a' (idx + 1) False True True
                     else Some (True, a'))"

definition storeElement :: "ArrayObject \<Rightarrow> nat \<Rightarrow> Value \<Rightarrow> (bool \<times> ArrayObject) option" where
  "storeElement a idx v =
     (case m_fastModeData a of
        Some buf \<Rightarrow> if idx < length buf then Some (True, a\<lparr>m_fastModeData := Some (buf[idx := v])\<rparr>) else None
      | None \<Rightarrow> None)"

definition arrayDefineFast ::
  "Platform \<Rightarrow> (property_key \<Rightarrow> int) \<Rightarrow> int list option list \<Rightarrow> ArrayObject \<Rightarrow> Value list \<Rightarrow> property_key \<Rightarrow> nat \<Rightarrow> ObjectPropertyDescriptor
    \<Rightarrow> (bool \<times> ArrayObject) option" where
  "arrayDefineFast pl number protos a buf P idx desc =
     (let len = m_arrayLength a
      in if idx < len \<and> length buf \<le> idx then None
         else if (if idx < len \<and> buf ! idx \<noteq> EmptyValue
                  then \<not> (isValuePresentAlone desc \<or> isDataWritableEnumerableConfigurable desc)
                  else \<not> isDataWritableEnumerableConfigurable desc) \<or> \<not> isValuePresent desc
         then Option.bind (convertIntoNonFastMode a) (\<lambda>a1. arrayDefineSlow pl number protos a1 P desc)
         else if len \<le> idx
         then if \<not> isExtensible a then arrayDefineSlow pl number protos a P desc
              else Option.bind (setArrayLength pl number protos a (idx + 1) False True True)
                (\<lambda>(ok, a1). if \<not> ok \<or> \<not> isFastModeArray a1 then arrayDefineSlow pl number protos a1 P desc
                            else storeElement a1 idx (d_value desc))
         else storeElement a idx (d_value desc))"

datatype ArrayError = InvalidArrayLength

text \<open>\<open>toLength\<close>: the \<open>uint32_t\<close> of a value, \<open>None\<close> when it is not the number of the value.\<close>

definition arrayDefineOwnProperty ::
  "Platform \<Rightarrow> (property_key \<Rightarrow> int) \<Rightarrow> int list option list \<Rightarrow> (Value \<Rightarrow> nat option) \<Rightarrow> ArrayObject \<Rightarrow> property_key \<Rightarrow> ObjectPropertyDescriptor
    \<Rightarrow> (ArrayError + bool \<times> ArrayObject) option" where
  "arrayDefineOwnProperty pl number protos toLength a P desc =
     (if P = lengthKey
      then case (if isValuePresent desc then toLength (d_value desc) else Some 0) of
             None \<Rightarrow> Some (Inl InvalidArrayLength)
           | Some newLen \<Rightarrow> map_option Inr (arrayDefineLength pl number protos a desc newLen)
      else map_option Inr
        (case (m_fastModeData a, indexOfKey P) of
           (Some buf, Some idx) \<Rightarrow> arrayDefineFast pl number protos a buf P idx desc
         | _ \<Rightarrow> arrayDefineSlow pl number protos a P desc))"

section \<open>The other operations\<close>

definition arrayPreventExtensions :: "ArrayObject \<Rightarrow> (bool \<times> ArrayObject) option" where
  "arrayPreventExtensions a =
     map_option (\<lambda>a1. (True, a1\<lparr>m_rareData := Some ((ensureRareData a1)\<lparr>m_isExtensible := False\<rparr>)\<rparr>)) (convertIntoNonFastMode a)"

text \<open>\<open>setArrayLength\<close> of a value, for the assignment to \<open>length\<close> of a fast array\<close>

definition assignLength ::
  "Platform \<Rightarrow> (property_key \<Rightarrow> int) \<Rightarrow> int list option list \<Rightarrow> (Value \<Rightarrow> nat option) \<Rightarrow> ArrayObject \<Rightarrow> Value \<Rightarrow> (ArrayError + bool \<times> ArrayObject) option" where
  "assignLength pl number protos toLength a newLength =
     (case toLength newLength of
        None \<Rightarrow> Some (Inl InvalidArrayLength)
      | Some newLen \<Rightarrow>
          if (case newLength of PointerValue p \<Rightarrow> True | _ \<Rightarrow> False) \<and> \<not> isLengthPropertyWritable a then Some (Inr (False, a))
          else map_option Inr (setArrayLength pl number protos a newLen True True True))"

fun writeElements :: "nat \<Rightarrow> Value list \<Rightarrow> Value list \<Rightarrow> Value list option" where
  "writeElements i [] buf = Some buf"
| "writeElements i (v # vs) buf = (if i < length buf then writeElements (i + 1) vs (buf[i := v]) else None)"

definition pushIntoFastModeElements ::
  "Platform \<Rightarrow> (property_key \<Rightarrow> int) \<Rightarrow> int list option list \<Rightarrow> ArrayObject \<Rightarrow> Value list \<Rightarrow> (bool \<times> ArrayObject) option" where
  "pushIntoFastModeElements pl number protos a values =
     Option.bind (setArrayLength pl number protos a ((m_arrayLength a + length values) mod 2 ^ 32) False True False)
       (\<lambda>(ok, a1). case m_fastModeData a1 of
          Some buf \<Rightarrow> if ok then map_option (\<lambda>b. (True, a1\<lparr>m_fastModeData := Some b\<rparr>)) (writeElements (m_arrayLength a) values buf) else Some (False, a1)
        | None \<Rightarrow> Some (False, a1))"

end
