(* ===== verification/ArrayStorage.thy ===== *)
theory ArrayStorage
  imports ArrayObject
begin

text \<open>
  The contract of an array, \<open>arr_ok\<close>, and the proofs about its storage: capacities never lie below what they are asked for, leaving
  the fast mode changes no property, and changing the length truncates as ECMA-262 says, for whichever of the paths of \<open>setArrayLength\<close> is
  taken. \<open>storage_safe\<close> says which calls of the large build are left out.
\<close>

section \<open>Keys and capacities\<close>

lemma indexOfKey_iff: "indexOfKey k = Some i \<longleftrightarrow> i < 2 ^ 32 - 1 \<and> k = idxKey i"
proof (cases k)
  case (KString s)
  let ?n = "convertToIndexNumber s (2 ^ 32 - 1)"
  have le: "?n \<le> 2 ^ 32 - 1" by (auto simp: convertToIndexNumber_def intro!: convertToIndexLoop_le split: list.split)
  then have t: "tryToUseAsIndexProperty s = ?n" by (simp add: tryToUseAsIndexProperty_def tryToUseAsIndex32_def)
  have "?n = i \<longleftrightarrow> s = fromInt32 (int i)" if "i < 2 ^ 32 - 1" using index_number_iff [OF that, of s] by simp
  with KString le t show ?thesis by (auto simp: idxKey_def Let_def)
qed (simp add: idxKey_def)

lemma indexOfKey_idxKey [simp]: "i < 2 ^ 32 - 1 \<Longrightarrow> indexOfKey (idxKey i) = Some i"
  by (simp add: indexOfKey_iff)

lemma idxKey_inj: "i < 2 ^ 32 - 1 \<Longrightarrow> j < 2 ^ 32 - 1 \<Longrightarrow> idxKey i = idxKey j \<longleftrightarrow> i = j"
  using indexOfKey_idxKey by (metis option.inject)

lemma indexOfKey_length [simp]: "indexOfKey lengthKey = None"
  by (simp add: lengthKey_def tryToUseAsIndexProperty_def tryToUseAsIndex32_def convertToIndexNumber_def us_def)

lemma idxKey_length [simp]: "i < 2 ^ 32 - 1 \<Longrightarrow> idxKey i \<noteq> lengthKey"
  using indexOfKey_idxKey indexOfKey_length by (metis option.distinct(1))

lemma float24_ge: "(2 ^ 24 - 1) * n \<le> 2 ^ 24 * float24 n"
proof (cases "fastLog2 n - 23 = 0")
  case False
  let ?k = "fastLog2 n - 23" and ?q = "n div 2 ^ (fastLog2 n - 23)" and ?r = "n mod 2 ^ (fastLog2 n - 23)"
  have n: "0 < n" using False by (rule contrapos_np) (simp add: fastLog2.simps [of 0])
  have "2 ^ (?k + 23) \<le> n" using fastLog2_bounds [OF n] False by simp
  then have big: "2 ^ 24 * 2 ^ (?k - 1) \<le> n" using False by (cases ?k) (simp_all add: power_add)
  obtain h where h: "(2 :: nat) ^ ?k = 2 * h" "h = 2 ^ (?k - 1)" using False by (cases ?k) auto
  have dm: "n = ?q * 2 ^ ?k + ?r" by (rule div_mult_mod_eq [symmetric])
  have "?r < 2 ^ ?k" by simp
  have "float24 n + h \<ge> n"
  proof (cases "h < ?r \<or> ?r = h \<and> odd ?q")
    case True
    then have "float24 n = (?q + 1) * 2 ^ ?k" using False h by (auto simp: float24_def Let_def)
    then have "float24 n = ?q * 2 ^ ?k + 2 ^ ?k" by (simp only: add_mult_distrib mult_1)
    then show ?thesis using dm \<open>?r < 2 ^ ?k\<close> by linarith
  next
    case f: False
    then have "float24 n = ?q * 2 ^ ?k" using False h by (auto simp: float24_def Let_def)
    then show ?thesis using dm f by linarith
  qed
  then have "2 ^ 24 * n \<le> 2 ^ 24 * float24 n + n" using big h by (simp add: algebra_simps)
  then show ?thesis by simp
qed (simp add: float24_def)

lemma percent130_ge: "n \<le> capacityWithPercent130 n"
proof -
  let ?x = "float24 n" and ?y = "float24 (float24 n * 10905190)"
  have "(2 ^ 24 - 1) * n \<le> 2 ^ 24 * ?x" "(2 ^ 24 - 1) * (?x * 10905190) \<le> 2 ^ 24 * ?y" by (rule float24_ge)+
  then have "n * 2 ^ 23 \<le> ?y" by simp
  then show ?thesis by (simp add: capacityWithPercent130_def less_eq_div_iff_mult_less_eq)
qed

lemma log2_capacity_ge: "n \<le> capacityWithLog2 n"
  using fastLog2_bounds [of n] by (cases "n = 0") (auto simp: capacityWithLog2_def)

section \<open>The contract of an array\<close>

definition arrProps :: "ArrayObject \<Rightarrow> property_key \<Rightarrow> Prop option" where
  "arrProps a k =
     (case (m_fastModeData a, indexOfKey k) of
        (Some buf, Some i) \<Rightarrow> if i < m_arrayLength a \<and> buf ! i \<noteq> EmptyValue then Some (DataProp (buf ! i) True True True) else None
      | _ \<Rightarrow> map_of (m_properties a) k)"

text \<open>
  A fast array is extensible, has no element among its ordinary properties, and its buffer holds at least its length and the
  recorded capacity; a capacity is recorded for more than 16 elements only. Every element lies below the length.
\<close>

definition arr_ok :: "ArrayObject \<Rightarrow> bool" where
  "arr_ok a \<longleftrightarrow> m_arrayLength a < 2 ^ 32 \<and> map_of (m_properties a) lengthKey = None \<and>
     (\<forall>i < 2 ^ 32 - 1. map_of (m_properties a) (idxKey i) \<noteq> None \<longrightarrow> \<not> isFastModeArray a \<and> i < m_arrayLength a) \<and>
     (\<forall>buf. m_fastModeData a = Some buf \<longrightarrow> m_arrayLength a \<le> length buf \<and> isExtensible a \<and>
        (\<forall>r. m_rareData a = Some r \<longrightarrow> m_arrayObjectFastModeBufferCapacity r \<le> length buf \<and>
           (m_arrayObjectFastModeBufferCapacity r = 0 \<or> 16 < m_arrayLength a)))"

lemma created_element: "created (descOf (mkData v DescAllPresent)) = DataProp v True True True"
  by (simp add: created_def)

section \<open>Leaving the fast mode changes no property\<close>

abbreviation element :: "Value \<Rightarrow> Prop" where
  "element v \<equiv> DataProp v True True True"

definition elementProps :: "(nat \<times> Value) list \<Rightarrow> (property_key \<times> Prop) list" where
  "elementProps ivs = map (\<lambda>(i, v). (idxKey i, element v)) (filter (\<lambda>(i, v). v \<noteq> EmptyValue) ivs)"

lemma derivedDefine_new:
  "isExtensible a \<Longrightarrow> map_of (m_properties a) k = None \<Longrightarrow>
    derivedDefine a k desc = (True, a\<lparr>m_properties := spec_put (m_properties a) k (created (descOf desc))\<rparr>)"
  by (simp add: derivedDefine_def specDefine_def validateAndApply_def)

lemma isExtensible_update [simp]: "isExtensible (a\<lparr>m_properties := ps\<rparr>) = isExtensible a" "isExtensible (a\<lparr>m_fastModeData := f\<rparr>) = isExtensible a"
    "isExtensible (a\<lparr>m_arrayLength := n\<rparr>) = isExtensible a"
  and isLengthPropertyWritable_update [simp]: "isLengthPropertyWritable (a\<lparr>m_properties := ps\<rparr>) = isLengthPropertyWritable a"
    "isLengthPropertyWritable (a\<lparr>m_fastModeData := f\<rparr>) = isLengthPropertyWritable a"
    "isLengthPropertyWritable (a\<lparr>m_arrayLength := n\<rparr>) = isLengthPropertyWritable a"
  by (simp_all add: isExtensible_def isLengthPropertyWritable_def)

lemma defineElements_ok:
  assumes "isExtensible a" "distinct (map fst ivs)" "\<forall>(i, v) \<in> set ivs. i < 2 ^ 32 - 1 \<and> map_of (m_properties a) (idxKey i) = None"
  shows "\<exists>ps. defineElements ivs a = Some (a\<lparr>m_properties := ps\<rparr>) \<and> map_of ps = map_of (m_properties a) ++ map_of (elementProps ivs)"
  using assms
proof (induction ivs arbitrary: a)
  case Nil
  then show ?case by (intro exI [of _ "m_properties a"]) (simp add: elementProps_def)
next
  case (Cons iv ivs)
  obtain i v where iv: "iv = (i, v)" by (cases iv)
  show ?case
  proof (cases "v = EmptyValue")
    case True
    then show ?thesis using Cons iv by (simp add: elementProps_def)
  next
    case False
    let ?a = "a\<lparr>m_properties := spec_put (m_properties a) (idxKey i) (element v)\<rparr>"
    have d: "derivedDefine a (idxKey i) (mkData v DescAllPresent) = (True, ?a)"
      using derivedDefine_new [OF Cons(2)] Cons(4) iv by (simp add: created_element del: descOf_def)
    have ne: "idxKey j \<noteq> idxKey i" if "(j, w) \<in> set ivs" for j w
    proof -
      have "j \<noteq> i" using Cons(3) that iv by force
      then show ?thesis using idxKey_inj [of j i] Cons(4) that iv by auto
    qed
    have "\<forall>(j, w) \<in> set ivs. j < 2 ^ 32 - 1 \<and> map_of (m_properties ?a) (idxKey j) = None"
      using Cons(4) ne by (auto simp: spec_put_lookup)
    with Cons(1) [of ?a] Cons(2,3) iv obtain ps where ps: "defineElements ivs ?a = Some (?a\<lparr>m_properties := ps\<rparr>)"
      "map_of ps = map_of (m_properties ?a) ++ map_of (elementProps ivs)" by auto
    have "idxKey i \<notin> dom (map_of (elementProps ivs))"
      by (auto simp: elementProps_def dom_map_of_conv_image_fst dest: ne)
    then have "map_of ps = map_of (m_properties a) ++ map_of (elementProps (iv # ivs))"
      using ps(2) iv False by (simp add: elementProps_def spec_put_lookup map_add_upd_left)
    then show ?thesis using ps(1) d iv False by (intro exI [of _ ps]) simp
  qed
qed

lemma elementProps_lookup:
  assumes "n \<le> length buf" "n < 2 ^ 32"
  shows "map_of (elementProps (zip [0..<n] buf)) k =
    (case indexOfKey k of Some i \<Rightarrow> if i < n \<and> buf ! i \<noteq> EmptyValue then Some (element (buf ! i)) else None | None \<Rightarrow> None)"
proof -
  let ?l = "elementProps (zip [0..<n] buf)"
  have mem: "(k, p) \<in> set ?l \<longleftrightarrow> (\<exists>i < n. k = idxKey i \<and> buf ! i \<noteq> EmptyValue \<and> p = element (buf ! i))" for k p
    using assms by (force simp: elementProps_def in_set_zip image_iff split_beta)
  have "distinct (map fst ?l)"
  proof -
    have "map fst ?l = map idxKey (map fst (filter (\<lambda>(i, v). v \<noteq> EmptyValue) (zip [0..<n] buf)))" by (simp add: elementProps_def split_beta)
    moreover have "inj_on idxKey (set (map fst (filter (\<lambda>(i, v). v \<noteq> EmptyValue) (zip [0..<n] buf))))"
      using assms by (auto intro!: inj_onI simp: idxKey_inj dest!: set_zip_leftD)
    moreover have "distinct (map fst (filter P (zip [0..<n] buf)))" for P
      using assms by (intro distinct_map_filter) (simp add: map_fst_zip_take)
    ultimately show ?thesis by (simp add: distinct_map comp_inj_on)
  qed
  then have lk: "map_of ?l k = Some p \<longleftrightarrow> (k, p) \<in> set ?l" for p by simp
  show ?thesis
  proof (cases "indexOfKey k")
    case (Some i)
    then have k: "i < 2 ^ 32 - 1" "k = idxKey i" by (simp_all add: indexOfKey_iff)
    have "(k, p) \<in> set ?l \<longleftrightarrow> i < n \<and> buf ! i \<noteq> EmptyValue \<and> p = element (buf ! i)" for p
      using k assms idxKey_inj mem by auto
    then show ?thesis using lk Some by (cases "map_of ?l k") (auto split: if_splits)
  next
    case None
    then have "(k, p) \<notin> set ?l" for p using mem assms by auto
    then show ?thesis using lk None by (cases "map_of ?l k") auto
  qed
qed

lemma convert_ok:
  assumes a: "arr_ok a"
  obtains a' where "convertIntoNonFastMode a = Some a'" "arr_ok a'" "m_fastModeData a' = None" "arrProps a' = arrProps a"
    "m_arrayLength a' = m_arrayLength a" "m_rareData a' = m_rareData a"
proof (cases "m_fastModeData a")
  case None
  then show ?thesis using a that [of a] by (simp add: convertIntoNonFastMode_def)
next
  case (Some buf)
  let ?n = "m_arrayLength a" and ?a = "a\<lparr>m_fastModeData := None\<rparr>"
  have n: "?n \<le> length buf" "?n < 2 ^ 32" "isExtensible a" "map_of (m_properties a) (idxKey i) = None" if "i < 2 ^ 32 - 1" for i
    using a Some that by (auto simp: arr_ok_def isFastModeArray_def)
  from n [of 0] have n0: "?n \<le> length buf" "?n < 2 ^ 32" "isExtensible ?a" by simp_all
  have "\<forall>(i, v) \<in> set (zip [0..<?n] buf). i < 2 ^ 32 - 1 \<and> map_of (m_properties ?a) (idxKey i) = None"
    using n n0(2) by (auto dest!: set_zip_leftD)
  moreover have "distinct (map fst (zip [0..<?n] buf))" using n0(1) by (simp add: map_fst_zip_take)
  ultimately obtain ps where
    ps: "defineElements (zip [0..<?n] buf) ?a = Some (?a\<lparr>m_properties := ps\<rparr>)" "map_of ps = map_of (m_properties a) ++ map_of (elementProps (zip [0..<?n] buf))"
    using defineElements_ok [OF n0(3), of "zip [0..<?n] buf"] by auto
  have lk: "map_of ps k = (case indexOfKey k of Some i \<Rightarrow> if i < ?n \<and> buf ! i \<noteq> EmptyValue then Some (element (buf ! i)) else None
      | None \<Rightarrow> map_of (m_properties a) k)" for k
    using n(4) n0 elementProps_lookup [OF n0(1,2), of k] by (auto simp: ps(2) map_add_def indexOfKey_iff split: option.splits)
  show ?thesis
  proof (rule that)
    show "convertIntoNonFastMode a = Some (?a\<lparr>m_properties := ps\<rparr>)" using ps(1) Some n0(1) by (simp add: convertIntoNonFastMode_def)
    show "arr_ok (?a\<lparr>m_properties := ps\<rparr>)" using a by (auto simp: arr_ok_def lk isFastModeArray_def)
    show "arrProps (?a\<lparr>m_properties := ps\<rparr>) = arrProps a" using lk Some by (auto simp: arrProps_def split: option.splits)
  qed simp_all
qed

section \<open>The storage of a fast array\<close>

text \<open>What a change of the storage must do: keep the elements, and leave holes behind the old length.\<close>

definition storage_step :: "ArrayObject \<Rightarrow> Value list \<Rightarrow> nat \<Rightarrow> ArrayObject \<Rightarrow> bool" where
  "storage_step a buf newLength a' \<longleftrightarrow>
     (\<exists>buf'. m_fastModeData a' = Some buf' \<and> newLength \<le> length buf' \<and>
        (\<forall>r. m_rareData a' = Some r \<longrightarrow> m_arrayObjectFastModeBufferCapacity r \<le> length buf' \<and>
           (m_arrayObjectFastModeBufferCapacity r = 0 \<or> 16 < newLength)) \<and>
        (\<forall>i < newLength. buf' ! i = (if i < m_arrayLength a then buf ! i else EmptyValue))) \<and>
     m_arrayLength a' = newLength \<and> m_properties a' = m_properties a \<and>
     isExtensible a' = isExtensible a \<and> isLengthPropertyWritable a' = isLengthPropertyWritable a"

lemma clearSlots_ok:
  assumes "hi \<le> length buf"
  obtains b where "clearSlots lo hi buf = Some b" "length b = length buf" "\<forall>i < hi. b ! i = (if i < lo then buf ! i else EmptyValue)"
proof (cases "hi \<le> lo")
  case False
  let ?b = "take lo buf @ replicate (hi - lo) EmptyValue @ drop hi buf"
  have "\<forall>i < hi. ?b ! i = (if i < lo then buf ! i else EmptyValue)" using False assms by (auto simp: nth_append)
  moreover have "length ?b = length buf" "clearSlots lo hi buf = Some ?b" using False assms by (simp_all add: clearSlots_def)
  ultimately show ?thesis using that by blast
qed (simp add: clearSlots_def that)

lemma copyBuffer_ok:
  assumes "count \<le> length buf" "count \<le> n"
  obtains b where "copyBuffer pl buf count n = Some b" "length b = n" "\<forall>i < count. b ! i = buf ! i"
  using assms that [of "take count buf @ map (p_junk pl) [count..<n]"] by (simp add: copyBuffer_def nth_append)

lemma setCapacity_simps [simp]:
  "m_isExtensible (setCapacity c r) = m_isExtensible r" "m_isArrayObjectLengthWritable (setCapacity c r) = m_isArrayObjectLengthWritable r"
  "m_arrayObjectFastModeBufferCapacity (setCapacity c r) = c"
  by (simp_all add: setCapacity_def)

text \<open>
  The storage that fits is right unless the large build reuses cells between the length and the capacity; the storage with spare
  cells is right unless the large build cannot fit the old elements into the new buffer, or the caller asks for no clearing.
\<close>

lemma fitStorage_ok:
  assumes buf: "m_arrayLength a \<le> length buf"
    and safe: "p_large pl \<Longrightarrow> newLength \<le> m_arrayLength a \<or> (\<forall>r. m_rareData a = Some r \<longrightarrow> m_arrayObjectFastModeBufferCapacity r < newLength)"
  obtains a' where "fitStorage pl a buf newLength = Some a'" "storage_step a buf newLength a'"
proof -
  let ?old = "m_arrayLength a" and ?cap = "case m_rareData a of None \<Rightarrow> 0 | Some r \<Rightarrow> m_arrayObjectFastModeBufferCapacity r"
  let ?c = "min (if p_large pl then length buf else ?old) newLength"
  obtain b where b: "copyBuffer pl buf ?c newLength = Some b" "length b = newLength" "\<forall>i < ?c. b ! i = buf ! i"
    by (rule copyBuffer_ok [of ?c buf newLength pl]) (use buf in auto)
  have low: "b ! i = buf ! i" if "i < ?old" "i < newLength" for i using b(3) that buf by auto
  obtain b' where b': "clearSlots ?old newLength b = Some b'" "length b' = length b" "\<forall>i < newLength. b' ! i = (if i < ?old then b ! i else EmptyValue)"
    by (rule clearSlots_ok [of newLength b]) (use b(2) in auto)
  have res: "fitStorage pl a buf newLength = Some (a\<lparr>m_arrayLength := newLength, m_fastModeData := Some c, m_rareData := map_option (setCapacity 0) (m_rareData a)\<rparr>)
      \<Longrightarrow> length c = newLength \<Longrightarrow> \<forall>i < newLength. c ! i = (if i < ?old then buf ! i else EmptyValue) \<Longrightarrow> ?thesis" for c
    using that by (auto simp: storage_step_def isExtensible_def isLengthPropertyWritable_def split: option.splits)
  show ?thesis
  proof (cases "p_large pl \<and> ?cap \<noteq> 0 \<and> newLength \<le> ?cap")
    case True
    then have "newLength \<le> ?old" using safe by (auto split: option.splits)
    then show ?thesis using res [of b] b low True by (simp add: fitStorage_def)
  next
    case False
    then show ?thesis using res [of b'] b b' low by (auto simp: fitStorage_def Let_def)
  qed
qed

lemma expandStorage_ok:
  assumes new16: "16 < newLength" and buf: "m_arrayLength a \<le> length buf" "\<forall>r. m_rareData a = Some r \<longrightarrow> m_arrayObjectFastModeBufferCapacity r \<le> length buf"
    and safe: "p_large pl \<Longrightarrow> clear \<and> (m_arrayLength a \<le> newLength \<or> (\<forall>r. m_rareData a = Some r \<longrightarrow> newLength \<le> m_arrayObjectFastModeBufferCapacity r))"
  obtains a' where "expandStorage pl a buf newLength clear = Some a'" "storage_step a buf newLength a'"
proof -
  let ?old = "m_arrayLength a" and ?cap = "case m_rareData a of None \<Rightarrow> m_arrayLength a | Some r \<Rightarrow> m_arrayObjectFastModeBufferCapacity r"
  let ?rd = "ensureRareData a"
  have cl: "(if p_large pl \<and> \<not> clear then Some b else clearSlots ?old newLength b) = clearSlots ?old newLength b" for b using safe by auto
  have res: "expandStorage pl a buf newLength clear = Some (a\<lparr>m_arrayLength := newLength, m_fastModeData := Some c, m_rareData := Some r\<rparr>)
      \<Longrightarrow> newLength \<le> length c \<Longrightarrow> m_arrayObjectFastModeBufferCapacity r \<le> length c \<Longrightarrow>
      m_isExtensible r = m_isExtensible ?rd \<Longrightarrow> m_isArrayObjectLengthWritable r = m_isArrayObjectLengthWritable ?rd \<Longrightarrow>
      \<forall>i < newLength. c ! i = (if i < ?old then buf ! i else EmptyValue) \<Longrightarrow> ?thesis" for c r
    using that new16 by (auto simp: storage_step_def isExtensible_def isLengthPropertyWritable_def ensureRareData_def newRareData_def split: option.splits)
  show ?thesis
  proof (cases "?cap < newLength")
    case True
    define new where "new = (if newLength = ?old + 1 \<or> 3 \<le> m_arrayObjectFastModeBufferExpandCount ?rd then capacityWithLog2 newLength else capacityWithPercent130 newLength)"
    have new: "newLength \<le> new" using log2_capacity_ge percent130_ge by (simp add: new_def)
    let ?c = "if p_large pl then ?old else min ?old new"
    have "?c \<le> new"
    proof (cases "p_large pl")
      case large: True
      then have "?old \<le> newLength" using safe True by (auto split: option.splits)
      then show ?thesis using new large by simp
    qed simp
    then obtain b where b: "copyBuffer pl buf ?c new = Some b" "length b = new" "\<forall>i < ?c. b ! i = buf ! i"
      by (rule copyBuffer_ok [of ?c buf new pl, rotated]) (use buf(1) in auto)
    obtain b' where b': "clearSlots ?old newLength b = Some b'" "length b' = length b" "\<forall>i < newLength. b' ! i = (if i < ?old then b ! i else EmptyValue)"
      by (rule clearSlots_ok [of newLength b]) (use b(2) new in auto)
    have "b' ! i = (if i < ?old then buf ! i else EmptyValue)" if "i < newLength" for i using b'(3) b(3) that new by auto
    moreover define r where "r = (setCapacity new ?rd)\<lparr>m_arrayObjectFastModeBufferExpandCount :=
      (if m_arrayObjectFastModeBufferExpandCount ?rd < 3 then m_arrayObjectFastModeBufferExpandCount ?rd + 1 else m_arrayObjectFastModeBufferExpandCount ?rd)\<rparr>"
    moreover have "expandStorage pl a buf newLength clear =
        map_option (\<lambda>b. a\<lparr>m_arrayLength := newLength, m_fastModeData := Some b, m_rareData := Some r\<rparr>)
          (Option.bind (copyBuffer pl buf ?c new) (\<lambda>b. clearSlots ?old newLength b))"
      using True unfolding expandStorage_def Let_def cl r_def new_def by simp
    ultimately show ?thesis
      using b b' new by (intro res [where c = b' and r = r]) simp_all
  next
    case False
    then have "newLength \<le> length buf" using buf by (auto split: option.splits)
    then obtain b where b: "clearSlots ?old newLength buf = Some b" "length b = length buf" "\<forall>i < newLength. b ! i = (if i < ?old then buf ! i else EmptyValue)"
      by (rule clearSlots_ok)
    have "?cap \<le> length buf" using buf by (auto split: option.splits)
    then show ?thesis
      using b False \<open>newLength \<le> length buf\<close> by (intro res [where c = b and r = "setCapacity ?cap ?rd"]) (auto simp: expandStorage_def Let_def cl)
  qed
qed

section \<open>Truncation\<close>

text \<open>The loop of \<open>ArraySetLength\<close>: elements are deleted from the end until one is not configurable.\<close>

fun specTruncate :: "nat \<Rightarrow> nat \<Rightarrow> (property_key \<Rightarrow> Prop option) \<Rightarrow> bool \<times> nat \<times> (property_key \<Rightarrow> Prop option)" where
  "specTruncate newLen 0 props = (True, newLen, props)"
| "specTruncate newLen (Suc n) props =
     (if n < newLen then (True, newLen, props)
      else case props (idxKey n) of
        Some p \<Rightarrow> if propConfigurable p then specTruncate newLen n (props(idxKey n := None)) else (False, Suc n, props)
      | None \<Rightarrow> specTruncate newLen n props)"

lemma specTruncate_done: "m \<le> newLen \<Longrightarrow> specTruncate newLen m props = (True, newLen, props)"
  by (cases m) auto

lemma specTruncate_skip:
  "n \<le> m \<Longrightarrow> newLen \<le> n \<Longrightarrow> \<forall>j. n \<le> j \<and> j < m \<longrightarrow> props (idxKey j) = None \<Longrightarrow> specTruncate newLen m props = specTruncate newLen n props"
proof (induction m)
  case (Suc m)
  show ?case
  proof (cases "n \<le> m")
    case True
    then show ?thesis using Suc by auto
  next
    case False
    then show ?thesis using Suc.prems(1) by (cases "n = Suc m") auto
  qed
qed simp

lemma fold_max:
  "ret \<le> fold (\<lambda>index ret. if index \<noteq> - 1 \<and> index < cur then max index ret else ret) keys ret \<and>
   (\<forall>k \<in> set keys. 0 \<le> k \<and> k < cur \<longrightarrow> k \<le> fold (\<lambda>index ret. if index \<noteq> - 1 \<and> index < cur then max index ret else ret) keys (ret :: int))"
proof (induction keys arbitrary: ret)
  case (Cons x xs)
  let ?r = "if x \<noteq> - 1 \<and> x < cur then max x ret else ret"
  have "ret \<le> ?r" "0 \<le> x \<and> x < cur \<longrightarrow> x \<le> ?r" by auto
  with Cons [of ?r] show ?case by fastforce
qed simp

lemma nextIndex_ge:
  assumes "k \<le> ret" "k < cur" "0 \<le> cur"
  shows "k \<le> nextIndexBackward os cur (- 1) ret"
  using assms
proof (induction os cur "- 1 :: int" ret rule: nextIndexBackward.induct)
  case (3 keys os cur ret)
  then show ?case using fold_max [of ret cur keys] by auto
qed auto

lemma nextIndex_finds:
  assumes "k \<in> set keys" "0 \<le> k" "k < cur"
  shows "k \<le> nextIndexBackward (Some keys # os) cur (- 1) (- 1)"
  using nextIndex_ge [of k _ cur os] fold_max [of "- 1" cur keys] assms by auto

text \<open>\<open>number\<close> reads the numeral of an index.\<close>

definition number_ok :: "(property_key \<Rightarrow> int) \<Rightarrow> bool" where
  "number_ok number \<longleftrightarrow> (\<forall>i < 2 ^ 32 - 1. number (idxKey i) = int i)"

declare truncateLoop.simps [simp del]

lemma arrayDelete_slow: "m_fastModeData a = None \<Longrightarrow> i < 2 ^ 32 - 1 \<Longrightarrow> arrayDelete a (idxKey i) = Some (ordinaryDelete a (idxKey i))"
  by (simp add: arrayDelete_def)

lemma truncateLoop_ok:
  assumes "number_ok number" "m_fastModeData a = None" "oldLen < 2 ^ 32"
  shows "\<exists>b n ps. truncateLoop number protos newLen oldLen a = Some (b, a\<lparr>m_arrayLength := n, m_properties := ps\<rparr>) \<and>
    (b, n, map_of ps) = (if newLen < oldLen then specTruncate newLen oldLen (map_of (m_properties a)) else (True, newLen, map_of (m_properties a)))"
  using assms
proof (induction oldLen arbitrary: a rule: less_induct)
  case (less oldLen)
  let ?props = "map_of (m_properties a)"
  show ?case
  proof (cases "newLen < oldLen")
    case False
    then show ?thesis by (intro exI [of _ True] exI [of _ newLen] exI [of _ "m_properties a"]) (subst truncateLoop.simps, simp)
  next
    case True
    let ?cur = "oldLen - 1"
    define nx where "nx = (if ?props (idxKey ?cur) \<noteq> None then int ?cur
      else nextIndexBackward (Some (map number (enumerationKeys a)) # protos) (int ?cur) (- 1) (- 1))"
    have nx: "- 1 \<le> nx" "nx \<le> int ?cur" using nextIndex_ge [of "- 1" "- 1" "int ?cur"] less_imp_le [OF nextIndexBackward_less [of "- 1" "int ?cur"]]
      by (auto simp: nx_def simp del: nextIndexBackward.simps)
    have gap: "?props (idxKey j) = None" if "nx < int j" "j < oldLen" for j
    proof (rule ccontr)
      assume j: "?props (idxKey j) \<noteq> None"
      then have "j \<noteq> ?cur" using that by (auto simp: nx_def)
      then have jc: "int j < int ?cur" using that by linarith
      then obtain p where "(idxKey j, p) \<in> set (m_properties a)" using j by (auto dest: map_of_SomeD)
      then have "idxKey j \<in> set (enumerationKeys a)" by (force simp: enumerationKeys_def idxKey_def)
      moreover have "number (idxKey j) = int j" using less.prems(1,3) that by (auto simp: number_ok_def)
      ultimately have "int j \<in> set (map number (enumerationKeys a))" by force
      from nextIndex_finds [OF this _ jc] have "int j \<le> nx" using j jc by (auto simp: nx_def split: if_splits)
      then show False using that by simp
    qed
    have unfold: "truncateLoop number protos newLen oldLen a = (if nx < int newLen then Some (True, a\<lparr>m_arrayLength := newLen\<rparr>)
        else case arrayDelete a (idxKey (nat nx)) of None \<Rightarrow> None | Some (True, a') \<Rightarrow> truncateLoop number protos newLen (nat nx) a'
          | Some (False, a') \<Rightarrow> Some (False, a'\<lparr>m_arrayLength := nat nx + 1\<rparr>))"
      by (subst truncateLoop.simps) (simp only: True Let_def nx_def if_True)
    show ?thesis
    proof (cases "nx < int newLen")
      case low: True
      have "specTruncate newLen oldLen ?props = specTruncate newLen newLen ?props" using gap low True by (intro specTruncate_skip) auto
      then show ?thesis using unfold low True
        by (intro exI [of _ True] exI [of _ newLen] exI [of _ "m_properties a"]) (simp add: specTruncate_done)
    next
      case False
      define i where "i = nat nx"
      have i: "nx = int i" "newLen \<le> i" "i < oldLen" "i < 2 ^ 32 - 1" using False nx True less.prems(3) by (auto simp: i_def)
      have skip: "specTruncate newLen oldLen ?props = specTruncate newLen (Suc i) ?props" using gap i True by (intro specTruncate_skip) auto
      have loop: "truncateLoop number protos newLen oldLen a = (case ordinaryDelete a (idxKey i) of (True, a') \<Rightarrow> truncateLoop number protos newLen i a'
          | (False, a') \<Rightarrow> Some (False, a'\<lparr>m_arrayLength := i + 1\<rparr>))"
        using unfold False i arrayDelete_slow [OF less.prems(2) i(4)] by (simp split: prod.split bool.split)
      obtain b ps where del: "specDelete (idxKey i) (m_properties a) = (b, ps)" by fastforce
      show ?thesis
      proof (cases b)
        case bT: True
        let ?a = "a\<lparr>m_properties := ps\<rparr>"
        have ps: "map_of ps = ?props(idxKey i := None)" "specTruncate newLen (Suc i) ?props = specTruncate newLen i (?props(idxKey i := None))"
          using del bT i by (auto simp: specDelete_def spec_del_lookup fun_upd_idem split: option.splits if_splits)
        have i32: "i < 2 ^ 32" and fa: "m_fastModeData ?a = None" using i less.prems(2,3) by auto
        obtain b' n qs where r: "truncateLoop number protos newLen i ?a = Some (b', ?a\<lparr>m_arrayLength := n, m_properties := qs\<rparr>)"
          "(b', n, map_of qs) = (if newLen < i then specTruncate newLen i (map_of (m_properties ?a)) else (True, newLen, map_of (m_properties ?a)))"
          using less.IH [OF i(3) less.prems(1) fa i32] by blast
        have "(b', n, map_of qs) = specTruncate newLen i (map_of ps)" using r(2) specTruncate_done [of i newLen] by (cases "newLen < i") auto
        then show ?thesis using loop del bT True skip ps r(1) by (intro exI [of _ b'] exI [of _ n] exI [of _ qs]) (simp add: ordinaryDelete_def)
      next
        case bF: False
        then obtain p where "?props (idxKey i) = Some p" "\<not> propConfigurable p" "ps = m_properties a"
          using del by (auto simp: specDelete_def split: option.splits if_splits)
        then have "specTruncate newLen oldLen ?props = (False, i + 1, map_of ps)" using skip i by simp
        then show ?thesis using loop del bF True by (intro exI [of _ False] exI [of _ "i + 1"] exI [of _ ps]) (simp add: ordinaryDelete_def)
      qed
    qed
  qed
qed

section \<open>The length of an array\<close>

text \<open>
  When a change of the length is safe in the large build: cells below the recorded capacity that are taken again were never used,
  a smaller buffer is not taken for a shorter array, and new cells are cleared.
\<close>

definition storage_safe :: "Platform \<Rightarrow> ArrayObject \<Rightarrow> nat \<Rightarrow> bool \<Rightarrow> bool \<Rightarrow> bool" where
  "storage_safe pl a newLength useFitStorage clearNewSlots \<longleftrightarrow> (p_large pl \<longrightarrow>
     (if useFitStorage \<or> m_arrayLength a = 0 \<or> newLength \<le> 16
      then newLength \<le> m_arrayLength a \<or> (\<forall>r. m_rareData a = Some r \<longrightarrow> m_arrayObjectFastModeBufferCapacity r < newLength)
      else clearNewSlots \<and> (m_arrayLength a \<le> newLength \<or> (\<forall>r. m_rareData a = Some r \<longrightarrow> newLength \<le> m_arrayObjectFastModeBufferCapacity r))))"

lemma specTruncate_configurable:
  assumes "\<forall>i p. i < old \<longrightarrow> props (idxKey i) = Some p \<longrightarrow> propConfigurable p" "new \<le> old" "old < 2 ^ 32"
  shows "specTruncate new old props = (True, new, \<lambda>k. case indexOfKey k of Some i \<Rightarrow> if new \<le> i \<and> i < old then None else props k | None \<Rightarrow> props k)"
  using assms
proof (induction old arbitrary: props)
  case (Suc n)
  show ?case
  proof (cases "n < new")
    case True
    then have "(\<lambda>k. case indexOfKey k of Some i \<Rightarrow> if new \<le> i \<and> i < Suc n then None else props k | None \<Rightarrow> props k) = props"
      by (auto simp: fun_eq_iff split: option.splits)
    then show ?thesis using True by simp
  next
    case False
    let ?cut = "\<lambda>m f k. case indexOfKey k of Some i \<Rightarrow> if new \<le> i \<and> i < m then None else f k | None \<Rightarrow> f k"
    have n: "n < 2 ^ 32 - 1" using Suc.prems(3) by simp
    have "?cut n (props(idxKey n := None)) k = ?cut (Suc n) props k" for k
    proof (cases "indexOfKey k")
      case (Some i)
      then have "k = idxKey n \<longleftrightarrow> i = n" using n idxKey_inj by (auto simp: indexOfKey_iff)
      then show ?thesis using Some False by auto
    qed (use n in auto)
    then have upd: "?cut n (props(idxKey n := None)) = ?cut (Suc n) props" by (rule ext)
    have "specTruncate new (Suc n) props = specTruncate new n (props(idxKey n := None))"
      using Suc.prems(1) False by (cases "props (idxKey n)") (auto simp: fun_upd_idem)
    also have "\<dots> = (True, new, ?cut n (props(idxKey n := None)))"
      using Suc.prems False by (intro Suc.IH) (auto split: if_splits intro: less_SucI)
    finally show ?thesis using upd by simp
  qed
qed (auto simp: fun_eq_iff split: option.splits)

lemma storage_step_props:
  assumes a: "arr_ok a" "m_fastModeData a = Some buf" and st: "storage_step a buf n a'" and n: "n < 2 ^ 32"
  shows "arr_ok a'" "(True, n, arrProps a') = (if n < m_arrayLength a then specTruncate n (m_arrayLength a) (arrProps a) else (True, n, arrProps a))"
proof -
  from st obtain buf' where s: "m_fastModeData a' = Some buf'" "n \<le> length buf'" "\<forall>r. m_rareData a' = Some r \<longrightarrow> m_arrayObjectFastModeBufferCapacity r \<le> length buf' \<and> (m_arrayObjectFastModeBufferCapacity r = 0 \<or> 16 < n)"
    "\<forall>i < n. buf' ! i = (if i < m_arrayLength a then buf ! i else EmptyValue)" "m_arrayLength a' = n" "m_properties a' = m_properties a"
    "isExtensible a' = isExtensible a" by (auto simp: storage_step_def)
  show "arr_ok a'" using a s n by (auto simp: arr_ok_def isFastModeArray_def)
  have pr: "arrProps a' k = (case indexOfKey k of Some i \<Rightarrow> if n \<le> i \<and> i < m_arrayLength a then None else arrProps a k | None \<Rightarrow> arrProps a k)" for k
    using s a(2) by (auto simp: arrProps_def split: option.split if_splits)
  show "(True, n, arrProps a') = (if n < m_arrayLength a then specTruncate n (m_arrayLength a) (arrProps a) else (True, n, arrProps a))"
  proof (cases "n < m_arrayLength a")
    case True
    have "\<forall>i p. i < m_arrayLength a \<longrightarrow> arrProps a (idxKey i) = Some p \<longrightarrow> propConfigurable p"
      using a by (auto simp: arrProps_def arr_ok_def split: if_splits)
    with specTruncate_configurable [of "m_arrayLength a" "arrProps a" n] True a(1) pr show ?thesis by (auto simp: arr_ok_def fun_eq_iff)
  next
    case False
    then show ?thesis using pr by (auto simp: fun_eq_iff split: option.splits)
  qed
qed

lemma arrProps_slow: "m_fastModeData a = None \<Longrightarrow> arrProps a = map_of (m_properties a)"
  by (auto simp: arrProps_def split: option.split)

lemma specTruncate_shape:
  assumes "specTruncate new old props = (b, n, qs)" "new \<le> old" "old < 2 ^ 32" "\<forall>i < 2 ^ 32 - 1. props (idxKey i) \<noteq> None \<longrightarrow> i < old"
  shows "n \<le> old" "qs lengthKey = props lengthKey" "\<forall>i < 2 ^ 32 - 1. qs (idxKey i) \<noteq> None \<longrightarrow> i < n"
proof -
  have "n \<le> old \<and> qs lengthKey = props lengthKey \<and> (\<forall>i < 2 ^ 32 - 1. qs (idxKey i) \<noteq> None \<longrightarrow> i < n)"
    using assms
  proof (induction old arbitrary: props)
    case (Suc m)
    show ?case
    proof (cases "m < new")
      case True
      then show ?thesis using Suc.prems by auto
    next
      case False
      have m: "m < 2 ^ 32 - 1" using Suc.prems(3) by simp
      have other: "\<forall>i < 2 ^ 32 - 1. props' (idxKey i) \<noteq> None \<longrightarrow> i < m" if "\<forall>i < 2 ^ 32 - 1. props' (idxKey i) \<noteq> None \<longrightarrow> i < Suc m" "props' (idxKey m) = None" for props' :: "property_key \<Rightarrow> Prop option"
        using that by (metis less_SucE)
      show ?thesis
      proof (cases "props (idxKey m)")
        case None
        then show ?thesis using Suc.IH [of props] Suc.prems False other [of props] by simp
      next
        case (Some p)
        let ?q = "props(idxKey m := None)"
        have "\<forall>i < 2 ^ 32 - 1. ?q (idxKey i) \<noteq> None \<longrightarrow> i < m" using Suc.prems(4) by (intro other) auto
        moreover have "?q lengthKey = props lengthKey" using idxKey_length [OF m] by (simp add: eq_commute)
        ultimately show ?thesis using Suc.IH [of ?q] Suc.prems False Some m by (auto simp del: fun_upd_apply split: if_splits)
      qed
    qed
  qed auto
  then show "n \<le> old" "qs lengthKey = props lengthKey" "\<forall>i < 2 ^ 32 - 1. qs (idxKey i) \<noteq> None \<longrightarrow> i < n" by simp_all
qed

definition length_step :: "ArrayObject \<Rightarrow> nat \<Rightarrow> bool \<Rightarrow> ArrayObject \<Rightarrow> bool" where
  "length_step a new b a' \<longleftrightarrow> arr_ok a' \<and> isExtensible a' = isExtensible a \<and> isLengthPropertyWritable a' = isLengthPropertyWritable a \<and>
     (b, m_arrayLength a', arrProps a') = (if new < m_arrayLength a then specTruncate new (m_arrayLength a) (arrProps a) else (True, new, arrProps a))"

lemma slow_length:
  assumes "arr_ok a" "m_fastModeData a = None" "number_ok number" "new < 2 ^ 32"
  shows "\<exists>b a'. truncateLoop number protos new (m_arrayLength a) a = Some (b, a') \<and> length_step a new b a' \<and> m_fastModeData a' = None"
proof -
  let ?old = "m_arrayLength a"
  have a: "?old < 2 ^ 32" "\<forall>i < 2 ^ 32 - 1. map_of (m_properties a) (idxKey i) \<noteq> None \<longrightarrow> i < ?old" "map_of (m_properties a) lengthKey = None"
    using assms(1) by (auto simp: arr_ok_def)
  obtain b n ps where t: "truncateLoop number protos new ?old a = Some (b, a\<lparr>m_arrayLength := n, m_properties := ps\<rparr>)"
    "(b, n, map_of ps) = (if new < ?old then specTruncate new ?old (map_of (m_properties a)) else (True, new, map_of (m_properties a)))"
    using truncateLoop_ok [OF assms(3,2) a(1), of protos new] by blast
  let ?a = "a\<lparr>m_arrayLength := n, m_properties := ps\<rparr>"
  have "n < 2 ^ 32 \<and> map_of ps lengthKey = None \<and> (\<forall>i < 2 ^ 32 - 1. map_of ps (idxKey i) \<noteq> None \<longrightarrow> i < n)"
  proof (cases "new < ?old")
    case True
    then have "specTruncate new ?old (map_of (m_properties a)) = (b, n, map_of ps)" using t(2) by simp
    from specTruncate_shape [OF this _ a(1,2)] True a show ?thesis by auto
  next
    case False
    then show ?thesis using t(2) a assms(4) by (auto intro: less_le_trans)
  qed
  then have "arr_ok ?a" using assms(2) by (auto simp: arr_ok_def isFastModeArray_def)
  then have "length_step a new b ?a" using t(2) assms(2) by (simp add: length_step_def arrProps_slow)
  with t(1) assms(2) show ?thesis by auto
qed

lemma convert_length_step:
  assumes "length_step a new b a1"
  obtains a2 where "convertIntoNonFastMode a1 = Some a2" "length_step a new b a2" "m_fastModeData a2 = None"
proof -
  have "arr_ok a1" using assms by (simp add: length_step_def)
  then obtain a2 where a2: "convertIntoNonFastMode a1 = Some a2" "arr_ok a2" "m_fastModeData a2 = None" "arrProps a2 = arrProps a1"
    "m_arrayLength a2 = m_arrayLength a1" "m_rareData a2 = m_rareData a1" by (rule convert_ok)
  then have "length_step a new b a2" using assms by (simp add: length_step_def isExtensible_def isLengthPropertyWritable_def)
  with a2 show ?thesis using that by blast
qed

text \<open>\<open>setArrayLength\<close>: a fast array whose length is not writable does not grow; otherwise the length changes as \<open>ArraySetLength\<close> says.\<close>

lemma setArrayLength_ok:
  assumes a: "arr_ok a" and num: "number_ok number" and new: "new < 2 ^ 32" and safe: "storage_safe pl a new fit clear"
  shows "\<exists>b a'. setArrayLength pl number protos a new fit hole clear = Some (b, a') \<and>
    (if isFastModeArray a \<and> m_arrayLength a < new \<and> \<not> isLengthPropertyWritable a then b = False \<and> a' = a else length_step a new b a')"
proof -
  let ?old = "m_arrayLength a"
  let ?gap = "isFastModeArray a \<and> 65536 * 16 < new \<and> hole \<and> ?old < new \<and> (1024 < new - ?old \<or> (2 ^ 32 - 1) div 2 \<le> new)"
  let ?go = "\<lambda>a1. case m_fastModeData a1 of
      Some buf \<Rightarrow> if ?old = new then Some (True, a1)
        else map_option (\<lambda>a3. (True, a3)) (Option.bind (if fit \<or> ?old = 0 \<or> new \<le> 16 then fitStorage pl a1 buf new else expandStorage pl a1 buf new clear)
          (\<lambda>a2. if isLengthPropertyWritable a2 then Some a2 else convertIntoNonFastMode a2))
    | None \<Rightarrow> truncateLoop number protos new ?old a1"
  show ?thesis
  proof (cases "isFastModeArray a \<and> ?old < new \<and> \<not> isLengthPropertyWritable a")
    case True
    then show ?thesis by (intro exI [of _ False] exI [of _ a]) (simp add: setArrayLength_def)
  next
    case False
    have eq: "setArrayLength pl number protos a new fit hole clear = Option.bind (if ?gap then convertIntoNonFastMode a else Some a) ?go"
      unfolding setArrayLength_def Let_def using False by (simp only: if_False)
    have slow: "\<exists>b a'. ?go a1 = Some (b, a') \<and> length_step a1 new b a'" if "arr_ok a1" "m_fastModeData a1 = None" "m_arrayLength a1 = ?old" for a1
      using slow_length [OF that(1,2) num new, of protos] that by auto
    have "\<exists>b a'. setArrayLength pl number protos a new fit hole clear = Some (b, a') \<and> length_step a new b a'"
    proof (cases ?gap)
      case True
      obtain a1 where a1: "convertIntoNonFastMode a = Some a1" "arr_ok a1" "m_fastModeData a1 = None" "arrProps a1 = arrProps a"
        "m_arrayLength a1 = ?old" "m_rareData a1 = m_rareData a" using a by (rule convert_ok)
      from slow [OF a1(2,3,5)] a1 eq True show ?thesis
        by (simp add: length_step_def isExtensible_def isLengthPropertyWritable_def)
    next
      case no_gap: False
      show ?thesis
      proof (cases "m_fastModeData a")
        case None
        with slow [OF a None] eq no_gap show ?thesis by auto
      next
        case (Some buf)
        have buf: "?old \<le> length buf" "\<forall>r. m_rareData a = Some r \<longrightarrow> m_arrayObjectFastModeBufferCapacity r \<le> length buf"
          using a Some by (auto simp: arr_ok_def)
        show ?thesis
        proof (cases "?old = new")
          case True
          then show ?thesis using eq no_gap Some a by (intro exI [of _ True] exI [of _ a]) (simp add: length_step_def)
        next
          case ne: False
          let ?store = "if fit \<or> ?old = 0 \<or> new \<le> 16 then fitStorage pl a buf new else expandStorage pl a buf new clear"
          obtain a2 where a2: "?store = Some a2" "storage_step a buf new a2"
          proof (cases "fit \<or> ?old = 0 \<or> new \<le> 16")
            case True
            then have "p_large pl \<Longrightarrow> new \<le> ?old \<or> (\<forall>r. m_rareData a = Some r \<longrightarrow> m_arrayObjectFastModeBufferCapacity r < new)"
              using safe by (auto simp: storage_safe_def)
            with buf(1) show ?thesis using that True by (elim fitStorage_ok [of a buf pl new]) auto
          next
            case False
            then have "p_large pl \<Longrightarrow> clear \<and> (?old \<le> new \<or> (\<forall>r. m_rareData a = Some r \<longrightarrow> new \<le> m_arrayObjectFastModeBufferCapacity r))"
              using safe by (auto simp: storage_safe_def)
            with buf show ?thesis using that False by (elim expandStorage_ok [of new a buf pl clear, rotated]) auto
          qed
          have ls: "length_step a new True a2"
            using storage_step_props [OF a Some a2(2) new] a2(2) by (simp add: length_step_def storage_step_def)
          obtain a3 where a3: "convertIntoNonFastMode a2 = Some a3" "length_step a new True a3" using ls by (rule convert_length_step)
          show ?thesis using eq no_gap Some ne a2(1) a3 ls by (cases "isLengthPropertyWritable a2") auto
        qed
      qed
    qed
    then show ?thesis unfolding if_not_P [OF False] .
  qed
qed

end
