(* ===== verification/ArrayRefinement.thy ===== *)
theory ArrayRefinement
  imports ArrayStorage
begin

text \<open>
  Array objects implement the array exotic objects of ECMA-262: the specification as functions on a length, its attribute and a
  map of properties, the refinement of each operation and of sequences of operations, and three defects of the code.
\<close>

section \<open>The specification of array objects\<close>

record AbsArray =
  ab_length :: nat
  ab_writable :: bool
  ab_extensible :: bool
  ab_props :: "property_key \<Rightarrow> Prop option"

definition absArray :: "ArrayObject \<Rightarrow> AbsArray" where
  "absArray a = \<lparr>ab_length = m_arrayLength a, ab_writable = isLengthPropertyWritable a, ab_extensible = isExtensible a, ab_props = arrProps a\<rparr>"

text \<open>\<open>ArraySetLength\<close> of ECMA-262; \<open>length\<close> is a data property that is neither enumerable nor configurable.\<close>

definition lengthRejected :: "AbsArray \<Rightarrow> propDesc \<Rightarrow> nat \<Rightarrow> bool" where
  "lengthRejected A d newLen \<longleftrightarrow> pd_configurable d = Some True \<or> pd_enumerable d = Some True \<or> IsAccessorDesc d \<or>
     \<not> ab_writable A \<and> (pd_writable d = Some True \<or> pd_value d \<noteq> None \<and> newLen \<noteq> ab_length A)"

definition specArraySetLength :: "AbsArray \<Rightarrow> propDesc \<Rightarrow> nat \<Rightarrow> bool \<times> AbsArray" where
  "specArraySetLength A d newLen =
     (if lengthRejected A d newLen then (False, A)
      else let A' = A\<lparr>ab_writable := (ab_writable A \<and> pd_writable d \<noteq> Some False)\<rparr>
           in if pd_value d = None then (True, A')
              else if ab_length A \<le> newLen then (True, A'\<lparr>ab_length := newLen\<rparr>)
              else let (b, n, props) = specTruncate newLen (ab_length A) (ab_props A) in (b, A'\<lparr>ab_length := n, ab_props := props\<rparr>))"

text \<open>\<open>[[DefineOwnProperty]]\<close> of array exotic objects for the other keys\<close>

definition specArrayDefine :: "AbsArray \<Rightarrow> property_key \<Rightarrow> propDesc \<Rightarrow> bool \<times> AbsArray" where
  "specArrayDefine A k d =
     (let grows = (case indexOfKey k of Some i \<Rightarrow> ab_length A \<le> i | None \<Rightarrow> False)
      in if grows \<and> \<not> ab_writable A then (False, A)
         else case validateAndApply (ab_extensible A) d (ab_props A k) of
           None \<Rightarrow> (False, A)
         | Some p \<Rightarrow>
             (True, A\<lparr>ab_props := (ab_props A)(k \<mapsto> p), ab_length := (case indexOfKey k of Some i \<Rightarrow> max (ab_length A) (i + 1) | None \<Rightarrow> ab_length A)\<rparr>))"

lemma arr_props_bound: "arr_ok a \<Longrightarrow> indexOfKey k = Some i \<Longrightarrow> m_arrayLength a \<le> i \<Longrightarrow> arrProps a k = None"
  unfolding arrProps_def arr_ok_def indexOfKey_iff by (auto split: option.splits)

lemma derivedDefine_ok:
  assumes a: "arr_ok a" "m_fastModeData a = None" and k: "k \<noteq> lengthKey" and b: "derivedDefine a k desc = (b, a')"
  shows "(b, arrProps a') = (case validateAndApply (isExtensible a) (descOf desc) (arrProps a k) of
      None \<Rightarrow> (False, arrProps a) | Some p \<Rightarrow> (True, (arrProps a)(k \<mapsto> p)))"
    "m_arrayLength a' = m_arrayLength a" "m_rareData a' = m_rareData a" "m_fastModeData a' = None"
    "\<not> b \<or> indexOfKey k = None \<or> (\<exists>i < m_arrayLength a. indexOfKey k = Some i) \<Longrightarrow> arr_ok a'"
proof -
  from b obtain ps where ps: "a' = a\<lparr>m_properties := ps\<rparr>" "specDefine (isExtensible a) (descOf desc) k (m_properties a) = (b, ps)"
    by (auto simp: derivedDefine_def split: prod.splits)
  have pr: "arrProps a = map_of (m_properties a)" "arrProps a' = map_of ps" using a(2) ps(1) by (simp_all add: arrProps_slow)
  show st: "(b, arrProps a') = (case validateAndApply (isExtensible a) (descOf desc) (arrProps a k) of
      None \<Rightarrow> (False, arrProps a) | Some p \<Rightarrow> (True, (arrProps a)(k \<mapsto> p)))"
    using ps(2) unfolding pr by (auto simp: specDefine_def spec_put_lookup split: option.splits)
  show "m_arrayLength a' = m_arrayLength a" "m_rareData a' = m_rareData a" "m_fastModeData a' = None" using ps(1) a(2) by simp_all
  assume c: "\<not> b \<or> indexOfKey k = None \<or> (\<exists>i < m_arrayLength a. indexOfKey k = Some i)"
  have dom: "map_of ps k' \<noteq> None \<Longrightarrow> map_of (m_properties a) k' \<noteq> None \<or> b \<and> k' = k" for k'
    using st unfolding pr by (auto split: option.splits if_splits)
  have "map_of ps lengthKey = None" using dom [of lengthKey] a(1) k by (cases "map_of ps lengthKey") (auto simp: arr_ok_def)
  moreover have "i < m_arrayLength a" if "i < 2 ^ 32 - 1" "map_of ps (idxKey i) \<noteq> None" for i
    using dom [OF that(2)] c a(1) that(1) by (auto simp: arr_ok_def)
  ultimately show "arr_ok a'" using a ps(1) by (auto simp: arr_ok_def isFastModeArray_def)
qed

lemma arrProps_rare [simp]: "arrProps (a\<lparr>m_rareData := r\<rparr>) = arrProps a"
  by (rule ext) (simp add: arrProps_def split: option.split)

lemma setLengthNotWritable_simps [simp]:
  "m_arrayLength (setLengthNotWritable a) = m_arrayLength a" "arrProps (setLengthNotWritable a) = arrProps a"
  "isExtensible (setLengthNotWritable a) = isExtensible a" "\<not> isLengthPropertyWritable (setLengthNotWritable a)"
  "isFastModeArray (setLengthNotWritable a) = isFastModeArray a"
  by (simp_all add: setLengthNotWritable_def isExtensible_def isLengthPropertyWritable_def isFastModeArray_def ensureRareData_def newRareData_def split: option.split)

lemma setLengthNotWritable_ok: "arr_ok a \<Longrightarrow> arr_ok (setLengthNotWritable a)"
  by (auto simp: arr_ok_def setLengthNotWritable_def isFastModeArray_def isExtensible_def ensureRareData_def newRareData_def split: option.splits)

text \<open>The array that is not fast gets its element first and its new length after.\<close>

lemma arrayDefineSlow_ok:
  assumes a: "arr_ok a" "m_fastModeData a = None" and num: "number_ok number" and k: "k \<noteq> lengthKey"
  shows "\<exists>b a'. arrayDefineSlow pl number protos a k desc = Some (b, a') \<and> arr_ok a' \<and> (b, absArray a') = specArrayDefine (absArray a) k (descOf desc)"
proof -
  obtain b a' where d: "derivedDefine a k desc = (b, a')" by fastforce
  note dd = derivedDefine_ok [OF a k d]
  have same: "isExtensible a' = isExtensible a" "isLengthPropertyWritable a' = isLengthPropertyWritable a"
    using dd(3) by (simp_all add: isExtensible_def isLengthPropertyWritable_def)
  let ?v = "validateAndApply (isExtensible a) (descOf desc) (arrProps a k)"
  have b: "b \<longleftrightarrow> ?v \<noteq> None" "\<not> b \<Longrightarrow> arrProps a' = arrProps a" "\<And>p. ?v = Some p \<Longrightarrow> arrProps a' = (arrProps a)(k \<mapsto> p)"
    using dd(1) by (auto split: option.splits)
  show ?thesis
  proof (cases "indexOfKey k")
    case None
    then show ?thesis using d dd b same by (cases ?v) (auto simp: arrayDefineSlow_def specArrayDefine_def absArray_def)
  next
    case (Some i)
    show ?thesis
    proof (cases "m_arrayLength a \<le> i")
      case False
      then show ?thesis using Some d dd b same by (cases ?v) (auto simp: arrayDefineSlow_def specArrayDefine_def absArray_def)
    next
      case grow: True
      show ?thesis
      proof (cases "isLengthPropertyWritable a \<and> b")
        case False
        then show ?thesis using Some grow d dd b same a(1) by (cases ?v) (auto simp: arrayDefineSlow_def specArrayDefine_def absArray_def)
      next
        case True
        have i: "i < 2 ^ 32 - 1" "k = idxKey i" using Some by (simp_all add: indexOfKey_iff)
        let ?t = "a'\<lparr>m_arrayLength := i + 1\<rparr>"
        have loop: "setArrayLength pl number protos a' (i + 1) False True True = Some (True, ?t)"
          using dd(2,4) grow by (simp add: setArrayLength_def isFastModeArray_def truncateLoop.simps)
        have pt: "arrProps ?t = arrProps a'" using dd(4) by (simp add: arrProps_slow)
        obtain p where p: "?v = Some p" using True b(1) by blast
        have "arrProps a' k' \<noteq> None \<Longrightarrow> k' = k \<or> arrProps a k' \<noteq> None" for k' using b(3) [OF p] by (auto split: if_splits)
        moreover have "map_of (m_properties a') = arrProps a'" "map_of (m_properties a) = arrProps a" using dd(4) a(2) by (simp_all add: arrProps_slow)
        ultimately have new: "map_of (m_properties a') k' \<noteq> None \<Longrightarrow> k' = k \<or> map_of (m_properties a) k' \<noteq> None" for k' by simp
        have "map_of (m_properties a') lengthKey = None"
          using new [of lengthKey] a(1) k by (cases "map_of (m_properties a') lengthKey") (auto simp: arr_ok_def)
        moreover have "j < i + 1" if "j < 2 ^ 32 - 1" "map_of (m_properties a') (idxKey j) \<noteq> None" for j
        proof (cases "idxKey j = k")
          case True
          then show ?thesis using i that(1) idxKey_inj by simp
        next
          case False
          then have "j < m_arrayLength a" using new [OF that(2)] a(1) that(1) by (auto simp: arr_ok_def)
          then show ?thesis using grow by simp
        qed
        ultimately have "arr_ok ?t" using dd(4) i by (simp add: arr_ok_def isFastModeArray_def)
        then show ?thesis using Some grow True d loop p b(3) [OF p] same pt by (auto simp: arrayDefineSlow_def specArrayDefine_def absArray_def max_def)
      qed
    qed
  qed
qed

section \<open>Defining an element of a fast array\<close>

lemma value_alone:
  assumes "isValuePresentAlone d" "desc_ok d"
  shows "\<not> rejected (descOf d) (element w)" "applied (descOf d) (element w) = element (d_value d)"
proof -
  have "m_isDataProperty d" using assms by (auto simp: isValuePresentAlone_def desc_ok_def checkProperty_def)
  then have "pd_value (descOf d) = Some (d_value d)" "pd_writable (descOf d) = None" "pd_enumerable (descOf d) = None" "pd_configurable (descOf d) = None"
    "\<not> IsAccessorDesc (descOf d)" "\<not> IsDataDesc (descOf d) \<or> True"
    using assms(1) by (simp_all add: isValuePresentAlone_def isValuePresent_def isWritablePresent_def isEnumerablePresent_def isConfigurablePresent_def
        IsAccessorDesc_def isAccessorDescriptor_def)
  then show "\<not> rejected (descOf d) (element w)" "applied (descOf d) (element w) = element (d_value d)" by (simp_all add: or_else_def)
qed

lemma all_present:
  assumes "isDataWritableEnumerableConfigurable d"
  shows "\<not> rejected (descOf d) (element w)" "applied (descOf d) (element w) = element (d_value d)" "created (descOf d) = element (d_value d)"
proof -
  have "pd_value (descOf d) = Some (d_value d)" "pd_writable (descOf d) = Some True" "pd_enumerable (descOf d) = Some True" "pd_configurable (descOf d) = Some True"
    "\<not> IsAccessorDesc (descOf d)"
    using assms present_if_set [of d] by (simp_all add: isDataWritableEnumerableConfigurable_def IsAccessorDesc_def isAccessorDescriptor_def)
  then show "\<not> rejected (descOf d) (element w)" "applied (descOf d) (element w) = element (d_value d)" "created (descOf d) = element (d_value d)"
    by (simp_all add: created_def or_else_def)
qed

lemma storeElement_ok:
  assumes a: "arr_ok a" "m_fastModeData a = Some buf" and i: "i < m_arrayLength a" and v: "v \<noteq> EmptyValue"
  obtains a' where "storeElement a i v = Some (True, a')" "arr_ok a'" "absArray a' = (absArray a)\<lparr>ab_props := (arrProps a)(idxKey i \<mapsto> element v)\<rparr>"
proof -
  let ?a = "a\<lparr>m_fastModeData := Some (buf[i := v])\<rparr>"
  have b: "i < length buf" "i < 2 ^ 32 - 1" "m_arrayLength a \<le> length buf" using a i by (auto simp: arr_ok_def)
  have "arrProps ?a k = ((arrProps a)(idxKey i \<mapsto> element v)) k" for k
  proof (cases "indexOfKey k")
    case (Some j)
    then have "k = idxKey i \<longleftrightarrow> j = i" using b idxKey_inj by (auto simp: indexOfKey_iff)
    then show ?thesis using Some a(2) b i v by (auto simp: arrProps_def)
  qed (use a(2) b in \<open>auto simp: arrProps_def\<close>)
  then have "arrProps ?a = (arrProps a)(idxKey i \<mapsto> element v)" by (rule ext)
  then show ?thesis using that [of ?a] a b by (auto simp: storeElement_def arr_ok_def isFastModeArray_def absArray_def)
qed

lemma grow_safe: "arr_ok a \<Longrightarrow> isFastModeArray a \<Longrightarrow> m_arrayLength a < new \<Longrightarrow> storage_safe pl a new False True"
  by (fastforce simp: storage_safe_def arr_ok_def isFastModeArray_def)

lemma arrayDefineFast_ok:
  assumes a: "arr_ok a" "m_fastModeData a = Some buf" and num: "number_ok number" and k: "indexOfKey k = Some i"
    and d: "desc_ok desc" "isValuePresent desc \<Longrightarrow> d_value desc \<noteq> EmptyValue"
  shows "\<exists>b a'. arrayDefineFast pl number protos a buf k i desc = Some (b, a') \<and> arr_ok a' \<and> (b, absArray a') = specArrayDefine (absArray a) k (descOf desc)"
proof -
  let ?len = "m_arrayLength a"
  have i: "i < 2 ^ 32 - 1" "k = idxKey i" using k by (simp_all add: indexOfKey_iff)
  have kl: "k \<noteq> lengthKey" using i by simp
  have ab: "?len \<le> length buf" "isExtensible a" using a by (auto simp: arr_ok_def)
  have cur: "arrProps a k = (if i < ?len \<and> buf ! i \<noteq> EmptyValue then Some (element (buf ! i)) else None)" using a(2) k by (simp add: arrProps_def)
  have inb: "\<not> (i < ?len \<and> length buf \<le> i)" using ab(1) by auto
  let ?leave = "(if i < ?len \<and> buf ! i \<noteq> EmptyValue then \<not> (isValuePresentAlone desc \<or> isDataWritableEnumerableConfigurable desc)
      else \<not> isDataWritableEnumerableConfigurable desc) \<or> \<not> isValuePresent desc"
  show ?thesis
  proof (cases ?leave)
    case True
    obtain a1 where a1: "convertIntoNonFastMode a = Some a1" "arr_ok a1" "m_fastModeData a1 = None" "arrProps a1 = arrProps a"
      "m_arrayLength a1 = ?len" "m_rareData a1 = m_rareData a" using a(1) by (rule convert_ok)
    have "absArray a1 = absArray a" using a1 by (simp add: absArray_def isExtensible_def isLengthPropertyWritable_def)
    moreover have "arrayDefineFast pl number protos a buf k i desc = arrayDefineSlow pl number protos a1 k desc"
      unfolding arrayDefineFast_def Let_def if_not_P [OF inb] if_P [OF True] by (simp add: a1(1))
    ultimately show ?thesis using arrayDefineSlow_ok [OF a1(2,3) num kl, of pl protos desc] by simp
  next
    case stay: False
    then have v: "d_value desc \<noteq> EmptyValue" using d(2) by blast
    show ?thesis
    proof (cases "i < ?len")
      case True
      obtain a' where s: "storeElement a i (d_value desc) = Some (True, a')" "arr_ok a'"
        "absArray a' = (absArray a)\<lparr>ab_props := (arrProps a)(idxKey i \<mapsto> element (d_value desc))\<rparr>" using a True v by (rule storeElement_ok)
      have "validateAndApply (isExtensible a) (descOf desc) (arrProps a k) = Some (element (d_value desc))"
        using stay cur ab value_alone [OF _ d(1)] all_present by (auto simp: validateAndApply_def simp del: rejected.simps applied.simps split: if_splits)
      then have "specArrayDefine (absArray a) k (descOf desc) = (True, absArray a')"
        using s(3) k True i(2) by (simp add: specArrayDefine_def absArray_def max_def)
      moreover have "arrayDefineFast pl number protos a buf k i desc = Some (True, a')"
        unfolding arrayDefineFast_def Let_def if_not_P [OF inb] if_not_P [OF stay] using True s(1) by simp
      ultimately show ?thesis using s(2) by auto
    next
      case grow: False
      have fast: "isFastModeArray a" using a(2) by (simp add: isFastModeArray_def)
      have eq: "arrayDefineFast pl number protos a buf k i desc = Option.bind (setArrayLength pl number protos a (i + 1) False True True)
          (\<lambda>(ok, a1). if \<not> ok \<or> \<not> isFastModeArray a1 then arrayDefineSlow pl number protos a1 k desc else storeElement a1 i (d_value desc))"
        unfolding arrayDefineFast_def Let_def if_not_P [OF inb] if_not_P [OF stay] using grow ab(2) by simp
      have va: "validateAndApply (isExtensible a) (descOf desc) (arrProps a k) = Some (element (d_value desc))"
        using stay cur ab grow all_present by (auto simp: validateAndApply_def)
      from setArrayLength_ok [OF a(1) num _ grow_safe [OF a(1) fast, of "i + 1" pl], of protos True] i grow obtain ok a1 where
        s: "setArrayLength pl number protos a (i + 1) False True True = Some (ok, a1)"
          "if isFastModeArray a \<and> ?len < i + 1 \<and> \<not> isLengthPropertyWritable a then ok = False \<and> a1 = a else length_step a (i + 1) ok a1" by auto
      show ?thesis
      proof (cases "isLengthPropertyWritable a")
        case False
        then have "ok = False" "a1 = a" using s(2) fast grow by auto
        then have "arrayDefineFast pl number protos a buf k i desc = Some (False, a)" using eq s(1) k grow False by (simp add: arrayDefineSlow_def Let_def)
        then show ?thesis using a(1) k grow False by (intro exI [of _ False] exI [of _ a]) (simp add: specArrayDefine_def absArray_def)
      next
        case True
        then have ls: "ok" "arr_ok a1" "isExtensible a1" "isLengthPropertyWritable a1" "m_arrayLength a1 = i + 1" "arrProps a1 = arrProps a"
          using s(2) grow ab(2) by (auto simp: length_step_def)
        have spec: "specArrayDefine (absArray a) k (descOf desc) = (True, (absArray a1)\<lparr>ab_props := (arrProps a)(k \<mapsto> element (d_value desc))\<rparr>)"
          using k grow True va ls ab(2) by (simp add: specArrayDefine_def absArray_def max_def)
        show ?thesis
        proof (cases "m_fastModeData a1")
          case None
          have "specArrayDefine (absArray a1) k (descOf desc) = specArrayDefine (absArray a) k (descOf desc)"
            unfolding spec using k va ls ab(2) by (simp add: specArrayDefine_def absArray_def)
          with arrayDefineSlow_ok [OF ls(2) None num kl, of pl protos desc] eq s(1) None show ?thesis by (simp add: isFastModeArray_def)
        next
          case (Some buf1)
          have il: "i < m_arrayLength a1" using ls(5) by simp
          obtain a' where "storeElement a1 i (d_value desc) = Some (True, a')" "arr_ok a'"
            "absArray a' = (absArray a1)\<lparr>ab_props := (arrProps a1)(idxKey i \<mapsto> element (d_value desc))\<rparr>"
            using ls(2) Some il v by (rule storeElement_ok)
          then show ?thesis using eq s(1) Some ls(1,6) spec i(2) by (intro exI [of _ True] exI [of _ a']) (simp add: isFastModeArray_def)
        qed
      qed
    qed
  qed
qed

section \<open>Defining the length\<close>

lemma lock_abs:
  "absArray (if c then setLengthNotWritable a else a) = (absArray a)\<lparr>ab_writable := (isLengthPropertyWritable a \<and> \<not> c)\<rparr>"
  by (simp add: absArray_def)

lemma length_step_abs:
  assumes "length_step a new b a'"
  shows "arr_ok a'" "(b, absArray a') = (if new < m_arrayLength a
      then let (b, n, props) = specTruncate new (m_arrayLength a) (arrProps a) in (b, (absArray a)\<lparr>ab_length := n, ab_props := props\<rparr>)
      else (True, (absArray a)\<lparr>ab_length := new\<rparr>))"
  using assms by (auto simp: length_step_def absArray_def split: if_splits prod.splits)

lemma arrayDefineLength_ok:
  assumes a: "arr_ok a" and num: "number_ok number" and d: "desc_ok desc" and new: "new < 2 ^ 32" and small: "\<not> p_large pl"
  shows "\<exists>b a'. arrayDefineLength pl number protos a desc new = Some (b, a') \<and> arr_ok a' \<and> (b, absArray a') = specArraySetLength (absArray a) (descOf desc) new"
proof -
  let ?no = "isWritablePresent desc \<and> \<not> descWritable desc"
  let ?lock = "\<lambda>a. if ?no then setLengthNotWritable a else a"
  have dw: "pd_writable (descOf desc) = (if isWritablePresent desc then Some (descWritable desc) else None)" by simp
  have rej: "lengthRejected (absArray a) (descOf desc) new \<longleftrightarrow> isConfigurablePresent desc \<and> descConfigurable desc \<or> isEnumerablePresent desc \<and> descEnumerable desc \<or>
      isAccessorDescriptor desc \<or> \<not> isLengthPropertyWritable a \<and> (descWritable desc \<or> isValuePresent desc \<and> m_arrayLength a \<noteq> new)"
    using IsAccessorDesc_descOf [OF d] present_if_set [of desc] by (auto simp: lengthRejected_def absArray_def)
  show ?thesis
  proof (cases "lengthRejected (absArray a) (descOf desc) new")
    case True
    then have "arrayDefineLength pl number protos a desc new = Some (False, a)"
      using rej unfolding arrayDefineLength_def Let_def by (auto split: if_splits)
    then show ?thesis using True a by (intro exI [of _ False] exI [of _ a]) (simp add: specArraySetLength_def)
  next
    case ok: False
    note nrej = ok [unfolded rej]
    show ?thesis
    proof (cases "isValuePresent desc \<and> m_arrayLength a \<noteq> new")
      case False
      then have "arrayDefineLength pl number protos a desc new = Some (True, ?lock a)" using nrej unfolding arrayDefineLength_def Let_def by auto
      moreover have "specArraySetLength (absArray a) (descOf desc) new = (True, absArray (?lock a))"
        using ok False by (auto simp: specArraySetLength_def lock_abs absArray_def dw Let_def)
      ultimately show ?thesis using a setLengthNotWritable_ok by auto
    next
      case change: True
      then have wr: "isLengthPropertyWritable a" and vp: "isValuePresent desc" and ne: "m_arrayLength a \<noteq> new" using nrej by auto
      have safe: "storage_safe pl x n f c" for x n f c using small by (simp add: storage_safe_def)
      have def: "arrayDefineLength pl number protos a desc new = (if m_arrayLength a < new
          then map_option (\<lambda>(b, a'). if b then (True, ?lock a') else (False, a')) (setArrayLength pl number protos a new False True True)
          else setArrayLength pl number protos (?lock a) new False True True)"
        using nrej change unfolding arrayDefineLength_def Let_def by auto
      show ?thesis
      proof (cases "m_arrayLength a < new")
        case True
        have nog: "\<not> (isFastModeArray a \<and> m_arrayLength a < new \<and> \<not> isLengthPropertyWritable a)" using wr by simp
        from setArrayLength_ok [OF a num new safe, of protos False True True] obtain b a' where
          s: "setArrayLength pl number protos a new False True True = Some (b, a')" "length_step a new b a'"
          unfolding if_not_P [OF nog] by blast
        note ls = length_step_abs [OF s(2)]
        from ls(2) True have b: "b" "absArray a' = (absArray a)\<lparr>ab_length := new\<rparr>" by auto
        have "isLengthPropertyWritable a'" using b(2) wr by (simp add: absArray_def)
        then have "(True, absArray (?lock a')) = specArraySetLength (absArray a) (descOf desc) new"
          using ok True vp b(2) wr unfolding lock_abs by (simp add: specArraySetLength_def absArray_def dw Let_def)
        moreover have "arrayDefineLength pl number protos a desc new = Some (True, ?lock a')" using def True s(1) b(1) by simp
        moreover have "arr_ok (?lock a')" using ls(1) setLengthNotWritable_ok by simp
        ultimately show ?thesis by blast
      next
        case False
        let ?a = "?lock a"
        have ak: "arr_ok ?a" "m_arrayLength ?a = m_arrayLength a" "arrProps ?a = arrProps a" using a setLengthNotWritable_ok by auto
        have lt: "new < m_arrayLength a" using False ne by simp
        have nog: "\<not> (isFastModeArray ?a \<and> m_arrayLength ?a < new \<and> \<not> isLengthPropertyWritable ?a)" using lt ak(2) by simp
        from setArrayLength_ok [OF ak(1) num new safe, of protos False True True] obtain b a' where
          s: "setArrayLength pl number protos ?a new False True True = Some (b, a')" "length_step ?a new b a'"
          unfolding if_not_P [OF nog] by blast
        note ls = length_step_abs [OF s(2)]
        obtain t n props where tr: "specTruncate new (m_arrayLength a) (arrProps a) = (t, n, props)" by (cases "specTruncate new (m_arrayLength a) (arrProps a)")
        have "(b, absArray a') = (t, (absArray ?a)\<lparr>ab_length := n, ab_props := props\<rparr>)" using ls(2) lt tr unfolding ak(2,3) by simp
        also have "\<dots> = specArraySetLength (absArray a) (descOf desc) new"
          using ok lt tr vp wr unfolding lock_abs by (simp add: specArraySetLength_def absArray_def dw)
        finally have "(b, absArray a') = specArraySetLength (absArray a) (descOf desc) new" .
        moreover have "arrayDefineLength pl number protos a desc new = Some (b, a')" using def False s(1) by simp
        ultimately show ?thesis using ls(1) by blast
      qed
    qed
  qed
qed

section \<open>Reading, deleting, and sequences of operations\<close>

lemma arrayGetOwnProperty_ok:
  assumes "arr_ok a"
  shows "arrayGetOwnProperty a k =
    Some (if k = lengthKey then Some (DataProp (uint32Value (m_arrayLength a)) (isLengthPropertyWritable a) False False) else arrProps a k)"
proof (cases "indexOfKey k")
  case None
  then show ?thesis using assms by (auto simp: arrayGetOwnProperty_def getVirtualValue_def arrProps_def split: option.split)
next
  case (Some i)
  then have "k = idxKey i" "i < 2 ^ 32 - 1" by (simp_all add: indexOfKey_iff)
  moreover from this have "isFastModeArray a \<Longrightarrow> map_of (m_properties a) k = None"
    using assms by (cases "map_of (m_properties a) k") (auto simp: arr_ok_def)
  ultimately show ?thesis using assms Some
    by (auto simp: arrayGetOwnProperty_def getVirtualValue_def arrProps_def arr_ok_def isFastModeArray_def split: option.split)
qed

definition specArrayDelete :: "AbsArray \<Rightarrow> property_key \<Rightarrow> bool \<times> AbsArray" where
  "specArrayDelete A k =
     (if k = lengthKey then (False, A)
      else case ab_props A k of
        None \<Rightarrow> (True, A)
      | Some p \<Rightarrow> if propConfigurable p then (True, A\<lparr>ab_props := (ab_props A)(k := None)\<rparr>) else (False, A))"

lemma ordinaryDelete_ok:
  assumes a: "arr_ok a" and k: "k \<noteq> lengthKey" "arrProps a k = map_of (m_properties a) k" "isFastModeArray a \<Longrightarrow> indexOfKey k = None \<or> arrProps a k = None"
    and d: "ordinaryDelete a k = (b, a')"
  shows "arr_ok a'" "(b, absArray a') = specArrayDelete (absArray a) k"
proof -
  obtain ps where ps: "specDelete k (m_properties a) = (b, ps)" "a' = a\<lparr>m_properties := ps\<rparr>"
    using d by (auto simp: ordinaryDelete_def split: prod.splits)
  let ?m = "map_of (m_properties a)"
  have m: "(b, map_of ps) = (case ?m k of None \<Rightarrow> (True, ?m) | Some p \<Rightarrow> if propConfigurable p then (True, ?m(k := None)) else (False, ?m))"
    using ps(1) by (auto simp: specDelete_def spec_del_lookup split: option.splits if_splits)
  have le: "map_of ps k' \<noteq> None \<Longrightarrow> ?m k' \<noteq> None" for k' using m by (auto split: option.splits if_splits)
  have "map_of ps lengthKey = None" using le [of lengthKey] a by (cases "map_of ps lengthKey") (auto simp: arr_ok_def)
  moreover have "\<not> isFastModeArray a \<and> i < m_arrayLength a" if "i < 2 ^ 32 - 1" "map_of ps (idxKey i) \<noteq> None" for i
    using le [OF that(2)] that(1) a by (auto simp: arr_ok_def)
  ultimately show "arr_ok a'" using a unfolding ps(2) arr_ok_def isFastModeArray_def by simp
  have at: "map_of ps k' = (if b \<and> k' = k then None else ?m k')" for k'
    using m by (cases "?m k") (auto split: if_splits)
  have fast: "arrProps x k' = (if m_fastModeData a = None \<or> indexOfKey k' = None then map_of (m_properties x) k' else arrProps a k')"
    if "m_fastModeData x = m_fastModeData a" "m_arrayLength x = m_arrayLength a" for x k'
    using that by (cases "m_fastModeData a"; cases "indexOfKey k'") (simp_all add: arrProps_def)
  have gone: "\<not> (m_fastModeData a = None \<or> indexOfKey k = None) \<Longrightarrow> arrProps a k = None" using k(3) by (auto simp: isFastModeArray_def)
  have "arrProps a' k' = (if b \<and> k' = k then None else arrProps a k')" for k'
    using fast [of a' k'] fast [of a k'] at [of k'] gone unfolding ps(2) by (cases "m_fastModeData a = None \<or> indexOfKey k' = None") auto
  then have pr: "arrProps a' = (if b then (arrProps a)(k := None) else arrProps a)" by (auto simp: fun_eq_iff)
  have same: "absArray a' = (absArray a)\<lparr>ab_props := arrProps a'\<rparr>" using ps(2) by (simp add: absArray_def isLengthPropertyWritable_def isExtensible_def)
  show "(b, absArray a') = specArrayDelete (absArray a) k"
  proof (cases "?m k")
    case None
    then have "b" "(arrProps a)(k := None) = arrProps a" using m k(2) by (simp_all add: fun_upd_idem)
    then show ?thesis using same pr None k(1,2) by (simp add: specArrayDelete_def absArray_def)
  next
    case (Some p)
    then show ?thesis using same pr m k(1,2) by (cases "propConfigurable p") (simp_all add: specArrayDelete_def absArray_def)
  qed
qed

lemma arrayDelete_ok:
  assumes a: "arr_ok a"
  shows "\<exists>b a'. arrayDelete a k = Some (b, a') \<and> arr_ok a' \<and> (b, absArray a') = specArrayDelete (absArray a) k"
proof -
  obtain b a' where d: "ordinaryDelete a k = (b, a')" by fastforce
  show ?thesis
  proof (cases "k = lengthKey \<or> m_fastModeData a = None \<or> indexOfKey k = None")
    case True
    then have eq: "arrProps a k = map_of (m_properties a) k" "isFastModeArray a \<Longrightarrow> k \<noteq> lengthKey \<Longrightarrow> indexOfKey k = None"
      by (auto simp: arrProps_def isFastModeArray_def split: option.split)
    show ?thesis
    proof (cases "k = lengthKey")
      case True
      then show ?thesis using a by (intro exI [of _ False] exI [of _ a]) (simp add: arrayDelete_def specArrayDelete_def)
    next
      case False
      then have "isFastModeArray a \<Longrightarrow> indexOfKey k = None \<or> arrProps a k = None" using eq(2) by blast
      note del = ordinaryDelete_ok [OF a False eq(1) this d]
      have "arrayDelete a k = Some (b, a')" using True False d by (auto simp: arrayDelete_def split: option.split)
      then show ?thesis using del by blast
    qed
  next
    case False
    then obtain buf i where f: "m_fastModeData a = Some buf" "indexOfKey k = Some i" "k \<noteq> lengthKey" by auto
    have i: "k = idxKey i" "i < 2 ^ 32 - 1" using f(2) by (simp_all add: indexOfKey_iff)
    show ?thesis
    proof (cases "i < m_arrayLength a")
      case True
      let ?a = "a\<lparr>m_fastModeData := Some (buf[i := EmptyValue])\<rparr>"
      have buf: "m_arrayLength a \<le> length buf" using a f by (simp add: arr_ok_def)
      have "arrProps ?a k' = ((arrProps a)(k := None)) k'" for k'
      proof (cases "indexOfKey k'")
        case (Some j)
        then have "k' = k \<longleftrightarrow> j = i" using i idxKey_inj by (auto simp: indexOfKey_iff)
        then show ?thesis using Some f(1) True buf by (auto simp: arrProps_def)
      qed (use f in \<open>auto simp: arrProps_def\<close>)
      then have pr: "arrProps ?a = (arrProps a)(k := None)" by (rule ext)
      have "arr_ok ?a" using a f(1) by (auto simp: arr_ok_def isFastModeArray_def)
      moreover have "(True, absArray ?a) = specArrayDelete (absArray a) k"
        using f pr by (auto simp: specArrayDelete_def absArray_def arrProps_def fun_upd_idem split: option.split)
      ultimately show ?thesis using f True buf by (intro exI [of _ True] exI [of _ ?a]) (simp add: arrayDelete_def)
    next
      case False
      then have "arrProps a k = None" "map_of (m_properties a) k = None"
        using f a i by (auto simp: arrProps_def arr_ok_def isFastModeArray_def)
      then have "arrProps a k = map_of (m_properties a) k" "isFastModeArray a \<Longrightarrow> indexOfKey k = None \<or> arrProps a k = None" by simp_all
      note del = ordinaryDelete_ok [OF a f(3) this d]
      have "arrayDelete a k = Some (b, a')" using f False d by (simp add: arrayDelete_def)
      then show ?thesis using del by blast
    qed
  qed
qed

lemma arrayPreventExtensions_ok:
  assumes a: "arr_ok a"
  shows "\<exists>a'. arrayPreventExtensions a = Some (True, a') \<and> arr_ok a' \<and> absArray a' = (absArray a)\<lparr>ab_extensible := False\<rparr>"
proof -
  obtain a1 where a1: "convertIntoNonFastMode a = Some a1" "arr_ok a1" "m_fastModeData a1 = None" "arrProps a1 = arrProps a"
    "m_arrayLength a1 = m_arrayLength a" "m_rareData a1 = m_rareData a" using a by (rule convert_ok)
  let ?a = "a1\<lparr>m_rareData := Some ((ensureRareData a1)\<lparr>m_isExtensible := False\<rparr>)\<rparr>"
  have "arr_ok ?a" using a1(2,3) by (simp add: arr_ok_def isFastModeArray_def)
  moreover have "absArray ?a = (absArray a)\<lparr>ab_extensible := False\<rparr>"
    using a1 by (simp add: absArray_def isExtensible_def isLengthPropertyWritable_def ensureRareData_def newRareData_def split: option.split)
  ultimately show ?thesis using a1(1) by (simp add: arrayPreventExtensions_def)
qed

datatype ArrayOp = ArrayDefine property_key ObjectPropertyDescriptor | ArrayDelete property_key | ArrayPreventExtensions

fun run_array_op ::
  "Platform \<Rightarrow> (property_key \<Rightarrow> int) \<Rightarrow> int list option list \<Rightarrow> (Value \<Rightarrow> nat option) \<Rightarrow> ArrayOp \<Rightarrow> ArrayObject \<Rightarrow> ((ArrayError + bool) \<times> ArrayObject) option" where
  "run_array_op pl number protos toLength (ArrayDefine k desc) a =
     (case arrayDefineOwnProperty pl number protos toLength a k desc of
        None \<Rightarrow> None | Some (Inl e) \<Rightarrow> Some (Inl e, a) | Some (Inr (b, a')) \<Rightarrow> Some (Inr b, a'))"
| "run_array_op pl number protos toLength (ArrayDelete k) a = map_option (\<lambda>(b, a'). (Inr b, a')) (arrayDelete a k)"
| "run_array_op pl number protos toLength ArrayPreventExtensions a = map_option (\<lambda>(b, a'). (Inr b, a')) (arrayPreventExtensions a)"

fun spec_array_op :: "(Value \<Rightarrow> nat option) \<Rightarrow> ArrayOp \<Rightarrow> AbsArray \<Rightarrow> (ArrayError + bool) \<times> AbsArray" where
  "spec_array_op toLength (ArrayDefine k desc) A =
     (if k = lengthKey
      then case (if isValuePresent desc then toLength (d_value desc) else Some 0) of
             None \<Rightarrow> (Inl InvalidArrayLength, A)
           | Some n \<Rightarrow> apfst Inr (specArraySetLength A (descOf desc) n)
      else apfst Inr (specArrayDefine A k (descOf desc)))"
| "spec_array_op toLength (ArrayDelete k) A = apfst Inr (specArrayDelete A k)"
| "spec_array_op toLength ArrayPreventExtensions A = (Inr True, A\<lparr>ab_extensible := False\<rparr>)"

fun array_op_ok :: "ArrayOp \<Rightarrow> bool" where
  "array_op_ok (ArrayDefine k desc) \<longleftrightarrow> desc_ok desc \<and> (isValuePresent desc \<longrightarrow> d_value desc \<noteq> EmptyValue)"
| "array_op_ok _ \<longleftrightarrow> True"

lemma arrayDefineOwnProperty_element:
  assumes a: "arr_ok a" and num: "number_ok number" and d: "desc_ok desc" "isValuePresent desc \<Longrightarrow> d_value desc \<noteq> EmptyValue" and k: "k \<noteq> lengthKey"
  shows "\<exists>b a'. arrayDefineOwnProperty pl number protos toLength a k desc = Some (Inr (b, a')) \<and> arr_ok a' \<and>
    (b, absArray a') = specArrayDefine (absArray a) k (descOf desc)"
proof (cases "m_fastModeData a")
  case None
  then show ?thesis using arrayDefineSlow_ok [OF a None num k, of pl protos desc] k by (auto simp: arrayDefineOwnProperty_def)
next
  case (Some buf)
  show ?thesis
  proof (cases "indexOfKey k")
    case (Some i)
    then show ?thesis using arrayDefineFast_ok [OF a \<open>m_fastModeData a = Some buf\<close> num Some d, of pl protos] k \<open>m_fastModeData a = Some buf\<close>
      by (auto simp: arrayDefineOwnProperty_def)
  next
    case None
    let ?s = "a\<lparr>m_fastModeData := None\<rparr>"
    obtain b ps where ps: "specDefine (isExtensible a) (descOf desc) k (m_properties a) = (b, ps)" by fastforce
    let ?m = "map_of (m_properties a)" and ?a = "a\<lparr>m_properties := ps\<rparr>"
    have m: "(b, map_of ps) = (case validateAndApply (isExtensible a) (descOf desc) (?m k) of None \<Rightarrow> (False, ?m) | Some p \<Rightarrow> (True, ?m(k \<mapsto> p)))"
      using ps by (auto simp: specDefine_def spec_put_lookup split: option.splits)
    have other: "map_of ps k' = ?m k'" if "k' \<noteq> k" for k' using m that by (auto split: option.splits)
    have ne: "k \<noteq> idxKey i" if "i < 2 ^ 32 - 1" for i using None that by auto
    have ix: "map_of ps (idxKey i) = ?m (idxKey i)" if "i < 2 ^ 32 - 1" for i using other ne [OF that, symmetric] .
    have "map_of ps lengthKey = None" using other [OF k [symmetric]] a by (simp add: arr_ok_def)
    then have "arr_ok ?a" using a ix by (simp add: arr_ok_def isFastModeArray_def isExtensible_def)
    moreover have "arrProps ?a k' = (if k' = k then map_of ps k else arrProps a k')" for k' using other [of k'] None by (auto simp: arrProps_def split: option.split)
    then have "arrProps ?a = (arrProps a)(k := map_of ps k)" by (auto simp: fun_eq_iff)
    then have "(b, absArray ?a) = specArrayDefine (absArray a) k (descOf desc)"
      using m None by (auto simp: specArrayDefine_def absArray_def arrProps_def fun_upd_idem split: option.splits)
    moreover have "arrayDefineOwnProperty pl number protos toLength a k desc = Some (Inr (b, ?a))"
      using k None Some ps by (simp add: arrayDefineOwnProperty_def arrayDefineSlow_def derivedDefine_def)
    ultimately show ?thesis by blast
  qed
qed

lemma run_array_op_ok:
  assumes a: "arr_ok a" and num: "number_ok number" and len: "\<forall>v n. toLength v = Some n \<longrightarrow> n < 2 ^ 32" and small: "\<not> p_large pl" and op: "array_op_ok op"
  shows "\<exists>r a'. run_array_op pl number protos toLength op a = Some (r, a') \<and> arr_ok a' \<and> (r, absArray a') = spec_array_op toLength op (absArray a)"
proof (cases op)
  case (ArrayDefine k desc)
  then have d: "desc_ok desc" "isValuePresent desc \<Longrightarrow> d_value desc \<noteq> EmptyValue" using op by simp_all
  show ?thesis
  proof (cases "k = lengthKey")
    case False
    from arrayDefineOwnProperty_element [OF a num d False, of pl protos toLength] obtain b a' where
      "arrayDefineOwnProperty pl number protos toLength a k desc = Some (Inr (b, a'))" "arr_ok a'" "(b, absArray a') = specArrayDefine (absArray a) k (descOf desc)" by blast
    then show ?thesis using ArrayDefine False by (intro exI [of _ "Inr b"] exI [of _ a']) (simp flip: \<open>(b, absArray a') = specArrayDefine (absArray a) k (descOf desc)\<close>)
  next
    case True
    let ?n = "if isValuePresent desc then toLength (d_value desc) else Some 0"
    show ?thesis
    proof (cases ?n)
      case None
      then show ?thesis using ArrayDefine True a by (simp add: arrayDefineOwnProperty_def)
    next
      case (Some n)
      then have "n < 2 ^ 32" using len by (auto split: if_splits)
      from arrayDefineLength_ok [OF a num d(1) this small, of protos] obtain b a' where
        r: "arrayDefineLength pl number protos a desc n = Some (b, a')" "arr_ok a'" "(b, absArray a') = specArraySetLength (absArray a) (descOf desc) n" by blast
      then show ?thesis using ArrayDefine True Some by (intro exI [of _ "Inr b"] exI [of _ a']) (simp add: arrayDefineOwnProperty_def flip: r(3))
    qed
  qed
next
  case (ArrayDelete k)
  from arrayDelete_ok [OF a, of k] obtain b a' where r: "arrayDelete a k = Some (b, a')" "arr_ok a'" "(b, absArray a') = specArrayDelete (absArray a) k" by blast
  then show ?thesis using ArrayDelete by (intro exI [of _ "Inr b"] exI [of _ a']) (simp flip: r(3))
next
  case ArrayPreventExtensions
  then show ?thesis using arrayPreventExtensions_ok [OF a] by auto
qed

fun run_array_ops where
  "run_array_ops pl number protos toLength [] a = Some ([], a)"
| "run_array_ops pl number protos toLength (op # ops) a =
     Option.bind (run_array_op pl number protos toLength op a)
       (\<lambda>(r, a1). map_option (\<lambda>(rs, a2). (r # rs, a2)) (run_array_ops pl number protos toLength ops a1))"

fun spec_array_ops :: "(Value \<Rightarrow> nat option) \<Rightarrow> ArrayOp list \<Rightarrow> AbsArray \<Rightarrow> (ArrayError + bool) list \<times> AbsArray" where
  "spec_array_ops toLength [] A = ([], A)"
| "spec_array_ops toLength (op # ops) A =
     (let (r, A1) = spec_array_op toLength op A; (rs, A2) = spec_array_ops toLength ops A1 in (r # rs, A2))"

lemma run_array_ops_ok:
  assumes "arr_ok a" and num: "number_ok number" and len: "\<forall>v n. toLength v = Some n \<longrightarrow> n < 2 ^ 32" and small: "\<not> p_large pl" and "\<forall>op \<in> set ops. array_op_ok op"
  shows "\<exists>rs a'. run_array_ops pl number protos toLength ops a = Some (rs, a') \<and> arr_ok a' \<and> (rs, absArray a') = spec_array_ops toLength ops (absArray a)"
  using assms(1,5)
proof (induction ops arbitrary: a)
  case Nil
  then show ?case by simp
next
  case (Cons op ops)
  then obtain r a1 where o: "run_array_op pl number protos toLength op a = Some (r, a1)" "arr_ok a1" "(r, absArray a1) = spec_array_op toLength op (absArray a)"
    using run_array_op_ok [OF _ num len small, of a op protos] by auto
  with Cons obtain rs a2 where "run_array_ops pl number protos toLength ops a1 = Some (rs, a2)" "arr_ok a2" "(rs, absArray a2) = spec_array_ops toLength ops (absArray a1)"
    by fastforce
  with o show ?case by (intro exI [of _ "r # rs"] exI [of _ a2]) (auto simp flip: o(3) split: prod.splits)
qed

section \<open>Pushing\<close>

text \<open>The appended values become elements, and the length grows by their number.\<close>

definition specPush :: "AbsArray \<Rightarrow> Value list \<Rightarrow> AbsArray" where
  "specPush A values = A\<lparr>ab_length := ab_length A + length values,
     ab_props := (\<lambda>k. case indexOfKey k of
        Some i \<Rightarrow> if ab_length A \<le> i \<and> i < ab_length A + length values then Some (element (values ! (i - ab_length A))) else ab_props A k
      | None \<Rightarrow> ab_props A k)\<rparr>"

lemma writeElements_ok:
  assumes "i + length vs \<le> length buf"
  shows "\<exists>b. writeElements i vs buf = Some b \<and> length b = length buf \<and>
    (\<forall>j < length buf. b ! j = (if i \<le> j \<and> j < i + length vs then vs ! (j - i) else buf ! j))"
  using assms
proof (induction vs arbitrary: i buf)
  case (Cons v vs)
  then have i: "i < length buf" by simp
  from Cons.IH [of "i + 1" "buf[i := v]"] Cons.prems obtain b where
    b: "writeElements (i + 1) vs (buf[i := v]) = Some b" "length b = length buf"
      "\<forall>j < length buf. b ! j = (if i + 1 \<le> j \<and> j < i + 1 + length vs then vs ! (j - (i + 1)) else buf[i := v] ! j)" by auto
  have "b ! j = (if i \<le> j \<and> j < i + length (v # vs) then (v # vs) ! (j - i) else buf ! j)" if "j < length buf" for j
    using b(3) that by (auto simp: nth_Cons')
  then show ?case using b i by auto
qed auto

lemma push_ok:
  assumes a: "arr_ok a" "m_fastModeData a = Some buf" and num: "number_ok number" and small: "\<not> p_large pl"
    and new: "m_arrayLength a + length vs < 2 ^ 32" and vs: "EmptyValue \<notin> set vs"
  shows "\<exists>ok a'. pushIntoFastModeElements pl number protos a vs = Some (ok, a') \<and> arr_ok a' \<and>
    (if ok then absArray a' = specPush (absArray a) vs
     else arrProps a' = arrProps a \<and> (if isLengthPropertyWritable a then \<not> isFastModeArray a' \<and> m_arrayLength a' = m_arrayLength a + length vs else a' = a))"
proof -
  let ?old = "m_arrayLength a" and ?new = "m_arrayLength a + length vs"
  have m: "?new mod 4294967296 = ?new" using new by simp
  have fast: "isFastModeArray a" using a(2) by (simp add: isFastModeArray_def)
  have safe: "storage_safe pl a ?new False False" using small by (simp add: storage_safe_def)
  from setArrayLength_ok [OF a(1) num new safe, of protos True] obtain ok a1 where
    s: "setArrayLength pl number protos a ?new False True False = Some (ok, a1)"
      "if isFastModeArray a \<and> ?old < ?new \<and> \<not> isLengthPropertyWritable a then ok = False \<and> a1 = a else length_step a ?new ok a1" by blast
  show ?thesis
  proof (cases "?old < ?new \<and> \<not> isLengthPropertyWritable a")
    case True
    then have "ok = False" "a1 = a" using s(2) fast by simp_all
    then show ?thesis using a s(1) True by (intro exI [of _ False] exI [of _ a]) (simp add: pushIntoFastModeElements_def m)
  next
    case False
    then have ls: "ok" "arr_ok a1" "isExtensible a1 = isExtensible a" "isLengthPropertyWritable a1 = isLengthPropertyWritable a"
      "m_arrayLength a1 = ?new" "arrProps a1 = arrProps a" using s(2) by (auto simp: length_step_def)
    show ?thesis
    proof (cases "m_fastModeData a1")
      case None
      have w: "isLengthPropertyWritable a"
      proof (rule ccontr)
        assume n: "\<not> isLengthPropertyWritable a"
        then have "length vs = 0" using False by simp
        then have "setArrayLength pl number protos a ?new False True False = Some (True, a)" using a(2) by (simp add: setArrayLength_def)
        then show False using s(1) None a(2) by simp
      qed
      then show ?thesis using None s(1) ls
        by (intro exI [of _ False] exI [of _ a1]) (simp add: pushIntoFastModeElements_def m isFastModeArray_def)
    next
      case (Some buf1)
      have len: "?new \<le> length buf1" using ls(2,5) Some by (auto simp: arr_ok_def)
      obtain b where b: "writeElements ?old vs buf1 = Some b" "length b = length buf1"
        "\<forall>j < length buf1. b ! j = (if ?old \<le> j \<and> j < ?new then vs ! (j - ?old) else buf1 ! j)"
        using writeElements_ok [OF len] by blast
      let ?a = "a1\<lparr>m_fastModeData := Some b\<rparr>"
      have ok: "arr_ok ?a" using ls(2) Some b(2) by (auto simp: arr_ok_def isFastModeArray_def)
      have "arrProps ?a k = ab_props (specPush (absArray a) vs) k" for k
      proof (cases "indexOfKey k")
        case None
        then have "arrProps ?a k = arrProps a1 k" using Some by (simp add: arrProps_def)
        then show ?thesis using None ls(6) by (simp add: specPush_def absArray_def)
      next
        case i: (Some i)
        have "arrProps a1 k = arrProps a k" using ls(6) by simp
        moreover have "vs ! (i - ?old) \<noteq> EmptyValue" if "?old \<le> i" "i < ?new" using vs that nth_mem [of "i - ?old" vs] by fastforce
        moreover have "arrProps ?a k = (if i < ?new \<and> b ! i \<noteq> EmptyValue then Some (element (b ! i)) else None)" using i ls(5) by (simp add: arrProps_def)
        moreover have "arrProps a1 k = (if i < ?new \<and> buf1 ! i \<noteq> EmptyValue then Some (element (buf1 ! i)) else None)" using i ls(5) Some by (simp add: arrProps_def)
        ultimately show ?thesis using i b(3) len by (auto simp: specPush_def absArray_def)
      qed
      then have "absArray ?a = specPush (absArray a) vs" using ls by (simp add: absArray_def specPush_def fun_eq_iff)
      then show ?thesis using ok s(1) ls(1) Some b(1) by (intro exI [of _ True] exI [of _ ?a]) (simp add: pushIntoFastModeElements_def m)
    qed
  qed
qed

section \<open>Properties\<close>

definition demo_number :: "property_key \<Rightarrow> int" where
  "demo_number k = (case indexOfKey k of Some i \<Rightarrow> int i | None \<Rightarrow> - 1)"

fun demo_toLength :: "Value \<Rightarrow> nat option" where
  "demo_toLength (Int32 i) = (if 0 \<le> i \<and> i < 2 ^ 31 then Some (nat i) else None)"
| "demo_toLength _ = None"

definition demo_platform :: "bool \<Rightarrow> Platform" where
  "demo_platform large = \<lparr>p_large = large, p_junk = (\<lambda>i. Undefined)\<rparr>"

definition demo_array :: "Value list \<Rightarrow> ArrayObject" where
  "demo_array vs = \<lparr>m_arrayLength = length vs, m_fastModeData = Some vs, m_rareData = None, m_properties = []\<rparr>"

lemma demo_number_ok: "number_ok demo_number"
  by (simp add: number_ok_def demo_number_def)

lemma demo_toLength_ok: "\<forall>v n. demo_toLength v = Some n \<longrightarrow> n < 2 ^ 32"
proof (intro allI impI)
  show "n < 2 ^ 32" if "demo_toLength v = Some n" for v n using that by (cases v) (auto split: if_splits)
qed

lemma demo_array_ok: "length vs < 2 ^ 32 \<Longrightarrow> arr_ok (demo_array vs)"
  by (simp add: arr_ok_def demo_array_def isExtensible_def isFastModeArray_def)

text \<open>C12: In the build with 32-bit heap references (not in the large build, where \<open>shrink_overruns_buffer\<close> shows an access outside of a buffer), every sequence of definitions, of \<open>length\<close> or of any other property, deletions and
  preventions of extension runs without access outside of a buffer, gives the answers of ECMA-262 for array exotic objects, exceptions included, and
  leaves the array with the properties, the length and the attributes that the specification says.\<close>

theorem array_refines_spec:
  assumes "arr_ok a" "number_ok number" "\<forall>v n. toLength v = Some n \<longrightarrow> n < 2 ^ 32" "\<not> p_large pl" "\<forall>op \<in> set ops. array_op_ok op"
  shows "\<exists>rs a'. run_array_ops pl number protos toLength ops a = Some (rs, a') \<and> arr_ok a' \<and> (rs, absArray a') = spec_array_ops toLength ops (absArray a)"
  using assms by (rule run_array_ops_ok)

theorem array_refines_spec_witness:
  "\<exists>rs a'. run_array_ops (demo_platform False) demo_number [] demo_toLength
      [ArrayDefine (idxKey 1) (mkData (Int32 7) DescAllPresent), ArrayDelete (idxKey 0), ArrayPreventExtensions] (demo_array [Boolean True]) = Some (rs, a') \<and> arr_ok a' \<and>
    (rs, absArray a') = spec_array_ops demo_toLength
      [ArrayDefine (idxKey 1) (mkData (Int32 7) DescAllPresent), ArrayDelete (idxKey 0), ArrayPreventExtensions] (absArray (demo_array [Boolean True]))"
  by (rule array_refines_spec [OF demo_array_ok demo_number_ok demo_toLength_ok]) (simp_all add: demo_platform_def desc_ok_mkData)

text \<open>In both builds, defining a property other than \<open>length\<close> of an array, in whichever mode it is, never accesses a cell outside of the
  buffer, keeps the invariants, and answers and acts as \<open>[[DefineOwnProperty]]\<close> of array exotic objects says.\<close>

theorem define_element_refines_spec:
  assumes "arr_ok a" "number_ok number" "desc_ok desc" "isValuePresent desc \<Longrightarrow> d_value desc \<noteq> EmptyValue" "k \<noteq> lengthKey"
  shows "\<exists>b a'. arrayDefineOwnProperty pl number protos toLength a k desc = Some (Inr (b, a')) \<and> arr_ok a' \<and>
    (b, absArray a') = specArrayDefine (absArray a) k (descOf desc)"
  using assms by (rule arrayDefineOwnProperty_element)

theorem define_element_refines_spec_witness:
  "\<exists>b a'. arrayDefineOwnProperty (demo_platform True) demo_number [] demo_toLength (demo_array [Boolean True]) (idxKey 3) (mkData (Int32 7) DescAllPresent) = Some (Inr (b, a')) \<and>
    arr_ok a' \<and> (b, absArray a') = specArrayDefine (absArray (demo_array [Boolean True])) (idxKey 3) (descOf (mkData (Int32 7) DescAllPresent))"
  by (rule define_element_refines_spec) (simp_all add: demo_array_ok demo_number_ok desc_ok_mkData)

text \<open>Leaving the fast mode is invisible: the elements become ordinary properties, and length, attributes and every property stay
  as they are.\<close>

theorem convertIntoNonFastMode_transparent:
  assumes "arr_ok a"
  shows "\<exists>a'. convertIntoNonFastMode a = Some a' \<and> arr_ok a' \<and> \<not> isFastModeArray a' \<and> absArray a' = absArray a"
  using convert_ok [OF assms] by (metis absArray_def isExtensible_def isFastModeArray_def isLengthPropertyWritable_def)

theorem convertIntoNonFastMode_transparent_witness:
  "\<exists>a'. convertIntoNonFastMode (demo_array [(Boolean True), EmptyValue]) = Some a' \<and> arr_ok a' \<and> \<not> isFastModeArray a' \<and> absArray a' = absArray (demo_array [(Boolean True), EmptyValue])"
  by (rule convertIntoNonFastMode_transparent) (simp add: demo_array_ok)

text \<open>Pushing values into a fast array appends them as elements, or answers false with every property as it was: because
  the length may not be written, and then nothing has changed, or because the array left the fast mode while its length grew.\<close>

theorem push_correct:
  assumes "arr_ok a" "m_fastModeData a = Some buf" "number_ok number" "\<not> p_large pl" "m_arrayLength a + length vs < 2 ^ 32" "EmptyValue \<notin> set vs"
  shows "\<exists>ok a'. pushIntoFastModeElements pl number protos a vs = Some (ok, a') \<and> arr_ok a' \<and>
    (if ok then absArray a' = specPush (absArray a) vs
     else arrProps a' = arrProps a \<and> (if isLengthPropertyWritable a then \<not> isFastModeArray a' \<and> m_arrayLength a' = m_arrayLength a + length vs else a' = a))"
  using assms by (rule push_ok)

theorem push_correct_witness:
  "\<exists>ok a'. pushIntoFastModeElements (demo_platform False) demo_number [] (demo_array [Boolean True]) [Int32 1, Int32 2] = Some (ok, a') \<and> arr_ok a' \<and>
    (if ok then absArray a' = specPush (absArray (demo_array [Boolean True])) [Int32 1, Int32 2]
     else arrProps a' = arrProps (demo_array [Boolean True]) \<and>
       (if isLengthPropertyWritable (demo_array [Boolean True])
        then \<not> isFastModeArray a' \<and> m_arrayLength a' = m_arrayLength (demo_array [Boolean True]) + length [Int32 1, Int32 2] else a' = demo_array [Boolean True]))"
  by (rule push_correct [where buf = "[Boolean True]"]) (simp_all add: demo_array_ok demo_number_ok demo_platform_def, simp_all add: demo_array_def)

section \<open>Defects\<close>

text \<open>In the large build, redefining \<open>length\<close> of a fast array without rare data to a smaller value and to read-only copies the old
  elements into a buffer that is too small for them: the new rare data records no capacity, so a smaller buffer is allocated, and all old elements are copied.\<close>

theorem shrink_overruns_buffer:
  assumes "p_large pl" "m_fastModeData a = Some buf" "m_rareData a = None" "16 < new" "capacityWithPercent130 new < m_arrayLength a"
    "isValuePresent desc" "isWritablePresent desc" "\<not> descWritable desc" "\<not> descConfigurable desc" "\<not> descEnumerable desc" "\<not> isAccessorDescriptor desc"
  shows "arrayDefineLength pl number protos a desc new = None"
proof -
  have lt: "new < m_arrayLength a" using percent130_ge [of new] assms(5) by simp
  let ?l = "setLengthNotWritable a"
  have l: "m_fastModeData ?l = Some buf" "m_rareData ?l = Some (newRareData\<lparr>m_isArrayObjectLengthWritable := False\<rparr>)"
    using assms(2,3) by (simp_all add: setLengthNotWritable_def ensureRareData_def)
  have "expandStorage pl ?l buf new True = None"
    using assms(1,4,5) lt l by (simp add: expandStorage_def ensureRareData_def newRareData_def copyBuffer_def)
  then have "setArrayLength pl number protos ?l new False True True = None"
    using l lt assms(4) by (simp add: setArrayLength_def)
  moreover have "isLengthPropertyWritable a" using assms(3) by (simp add: isLengthPropertyWritable_def)
  ultimately show ?thesis using assms(6-) lt by (simp add: arrayDefineLength_def)
qed

theorem shrink_overruns_buffer_witness:
  "arrayDefineLength (demo_platform True) demo_number [] (demo_array (replicate 100 (Boolean True))) (mkData (Int32 20) NonWritablePresent) 20 = None"
  by (rule shrink_overruns_buffer [where buf = "replicate 100 (Boolean True)"])
    (simp_all add: demo_platform_def demo_array_def capacityWithPercent130_def float24_def fastLog2.simps desc_readers mkData_def isAccessorDescriptor_def)

text \<open>In the large build, assigning a greater \<open>length\<close> within the recorded capacity turns the cells behind the old length into elements.
  These still hold what they held before the array was made shorter.\<close>

theorem grow_revives_cells:
  assumes "p_large pl" "arr_ok a" "m_fastModeData a = Some buf" "m_rareData a = Some r" "m_isArrayObjectLengthWritable r"
    "m_arrayLength a < new" "new \<le> m_arrayObjectFastModeBufferCapacity r" "new \<le> 65536 * 16" "toLength v = Some new"
  shows "\<exists>a'. assignLength pl number protos toLength a v = Some (Inr (True, a')) \<and> m_arrayLength a' = new \<and> m_fastModeData a' = Some (take new buf)"
proof -
  have len: "new \<le> length buf" using assms(2-4,7) by (auto simp: arr_ok_def)
  have w: "isLengthPropertyWritable a" using assms(4,5) by (simp add: isLengthPropertyWritable_def)
  have "fitStorage pl a buf new = Some (a\<lparr>m_arrayLength := new, m_fastModeData := Some (take new buf), m_rareData := Some (setCapacity 0 r)\<rparr>)"
    using assms(1,4,6,7) len by (simp add: fitStorage_def copyBuffer_def min_absorb2)
  then have "\<exists>a'. setArrayLength pl number protos a new True True True = Some (True, a') \<and> m_arrayLength a' = new \<and> m_fastModeData a' = Some (take new buf)"
    using w assms(3,4,5,6,8) by (simp add: setArrayLength_def isLengthPropertyWritable_def)
  then show ?thesis using assms(9) w by (auto simp: assignLength_def)
qed

definition demo_shrunk :: ArrayObject where
  "demo_shrunk = \<lparr>m_arrayLength = 17, m_fastModeData = Some (replicate 20 (Boolean True)), m_rareData = Some (setCapacity 20 newRareData), m_properties = []\<rparr>"

theorem grow_revives_cells_witness:
  "\<exists>a'. assignLength (demo_platform True) demo_number [] demo_toLength demo_shrunk (Int32 19) = Some (Inr (True, a')) \<and>
    m_arrayLength a' = 19 \<and> m_fastModeData a' = Some (take 19 (replicate 20 (Boolean True)))"
  by (rule grow_revives_cells [where r = "setCapacity 20 newRareData"])
    (simp_all add: demo_platform_def demo_shrunk_def arr_ok_def isFastModeArray_def isExtensible_def newRareData_def)

text \<open>Assigning a smaller number to \<open>length\<close> of a fast array whose \<open>length\<close> is read-only makes the array shorter and answers true.\<close>

theorem assignLength_ignores_readonly:
  assumes "arr_ok a" "isFastModeArray a" "\<not> isLengthPropertyWritable a" "number_ok number" "\<not> p_large pl"
    "toLength (Int32 i) = Some new" "new < m_arrayLength a"
  shows "\<exists>a'. assignLength pl number protos toLength a (Int32 i) = Some (Inr (True, a')) \<and> m_arrayLength a' = new"
proof -
  have "new < 2 ^ 32" using assms(1,7) by (simp add: arr_ok_def)
  moreover have "storage_safe pl a new True True" using assms(5) by (simp add: storage_safe_def)
  ultimately obtain b a' where s: "setArrayLength pl number protos a new True True True = Some (b, a')" "length_step a new b a'"
    using setArrayLength_ok [OF assms(1,4), of new pl True True protos True] assms(7) by auto
  obtain buf where buf: "m_fastModeData a = Some buf" using assms(2) by (auto simp: isFastModeArray_def)
  have "\<forall>j p. j < m_arrayLength a \<longrightarrow> arrProps a (idxKey j) = Some p \<longrightarrow> propConfigurable p"
    using buf assms(1) by (auto simp: arrProps_def arr_ok_def split: option.splits if_splits)
  from specTruncate_configurable [OF this] assms(1,7) have "fst (specTruncate new (m_arrayLength a) (arrProps a)) = True"
    "fst (snd (specTruncate new (m_arrayLength a) (arrProps a))) = new" by (simp_all add: arr_ok_def)
  moreover have "(b, m_arrayLength a', arrProps a') = specTruncate new (m_arrayLength a) (arrProps a)" using s(2) assms(7) by (simp add: length_step_def)
  ultimately have "b" "m_arrayLength a' = new" by (metis fst_conv, metis fst_conv snd_conv)
  then show ?thesis using s(1) assms(6) by (simp add: assignLength_def)
qed

theorem assignLength_ignores_readonly_witness:
  "\<exists>a'. assignLength (demo_platform False) demo_number [] demo_toLength (setLengthNotWritable (demo_array [(Boolean True), (Boolean True)])) (Int32 0) = Some (Inr (True, a')) \<and>
    m_arrayLength a' = 0"
  by (rule assignLength_ignores_readonly) (simp_all add: demo_array_ok setLengthNotWritable_ok demo_number_ok demo_platform_def, simp_all add: demo_array_def isFastModeArray_def)

end
