(* ===== verification/ProxyObject.thy ===== *)
theory ProxyObject
  imports ObjectInvariants
begin

text \<open>
  Proxy objects, \<open>src/runtime/ProxyObject.cpp\<close>. Each internal method looks up a trap on the handler, calls it, and checks its answer
  against the target. The virtual methods of an object are a record; the engine gives the methods of each object, and makes the values that
  traps get as arguments. A computation is a function of the state that gives a value or a thrown value and the next state; \<open>None\<close> stands for
  a null pointer or a failing assertion.
\<close>

section \<open>Computations\<close>

datatype Thrown = TypeError | RangeError | ThrownValue Value

type_synonym ('s, 'a) js = "'s \<Rightarrow> ((Thrown + 'a) \<times> 's) option"

definition retJ :: "'a \<Rightarrow> ('s, 'a) js" where
  "retJ x s = Some (Inr x, s)"

definition throwTypeError :: "('s, 'a) js" where
  "throwTypeError s = Some (Inl TypeError, s)"

definition bindJ :: "('s, 'a) js \<Rightarrow> ('a \<Rightarrow> ('s, 'b) js) \<Rightarrow> ('s, 'b) js" where
  "bindJ m f s = (case m s of None \<Rightarrow> None | Some (Inl e, s') \<Rightarrow> Some (Inl e, s') | Some (Inr x, s') \<Rightarrow> f x s')"

fun mapJ :: "('a \<Rightarrow> ('s, 'b) js) \<Rightarrow> 'a list \<Rightarrow> ('s, 'b list) js" where
  "mapJ f [] = retJ []"
| "mapJ f (x # xs) = bindJ (f x) (\<lambda>y. bindJ (mapJ f xs) (\<lambda>ys. retJ (y # ys)))"

section \<open>Objects as seen by a proxy\<close>

record 's ObjectMethods =
  vGetOwnProperty :: "ObjectPropertyName \<Rightarrow> ('s, ObjectGetResult) js"
  vDefineOwnProperty :: "ObjectPropertyName \<Rightarrow> ObjectPropertyDescriptor \<Rightarrow> ('s, bool) js"
  vDeleteOwnProperty :: "ObjectPropertyName \<Rightarrow> ('s, bool) js"
  vHasProperty :: "ObjectPropertyName \<Rightarrow> ('s, bool) js"
  vGet :: "ObjectPropertyName \<Rightarrow> Value \<Rightarrow> ('s, ObjectGetResult) js"
  vSet :: "ObjectPropertyName \<Rightarrow> Value \<Rightarrow> Value \<Rightarrow> ('s, bool) js"
  vIsExtensible :: "('s, bool) js"
  vPreventExtensions :: "('s, bool) js"
  vGetPrototype :: "('s, Value) js"
  vSetPrototype :: "Value \<Rightarrow> ('s, bool) js"
  vOwnPropertyKeys :: "('s, property_key list) js"
  vLength :: "('s, nat) js"
  vCall :: "Value \<Rightarrow> Value list \<Rightarrow> ('s, Value) js"
  vConstruct :: "Value list \<Rightarrow> addr \<Rightarrow> ('s, Value) js"

text \<open>
  The names of traps and of the fields of descriptors are static strings. \<open>e_keyName\<close> makes the name of a key; \<open>e_keyValue\<close> is the
  value of a name; \<open>e_indexName\<close> the name of an index.
\<close>

record 's Engine =
  e_methods :: "addr \<Rightarrow> 's ObjectMethods"
  e_isObject :: "addr \<Rightarrow> bool"
  e_isSymbol :: "addr \<Rightarrow> bool"
  e_isCallable :: "addr \<Rightarrow> bool"
  e_isConstructor :: "addr \<Rightarrow> bool"
  e_nativeValue :: "Value \<Rightarrow> ObjectGetResult \<Rightarrow> Value"
  e_staticName :: "string \<Rightarrow> ObjectPropertyName"
  e_keyName :: "property_key \<Rightarrow> ObjectPropertyName"
  e_keyValue :: "ObjectPropertyName \<Rightarrow> Value"
  e_indexName :: "nat \<Rightarrow> ObjectPropertyName"
  e_fromDescriptor :: "ObjectPropertyDescriptor \<Rightarrow> ('s, Value) js"
  e_newArray :: "Value list \<Rightarrow> ('s, Value) js"

fun isObjectValue :: "'s Engine \<Rightarrow> Value \<Rightarrow> bool" where
  "isObjectValue E (PointerValue p) = e_isObject E p"
| "isObjectValue E _ = False"

fun isCallableV :: "'s Engine \<Rightarrow> Value \<Rightarrow> bool" where
  "isCallableV E (PointerValue p) = e_isCallable E p"
| "isCallableV E _ = False"

text \<open>\<open>toBoolean\<close>; a pointer is an object or a symbol here.\<close>

fun toBoolean :: "Value \<Rightarrow> bool" where
  "toBoolean (Boolean b) = b"
| "toBoolean (Int32 i) = (i \<noteq> 0)"
| "toBoolean (Double d) = (\<not> isnan d \<and> \<not> iszero d)"
| "toBoolean (StringValue p s) = (s \<noteq> [])"
| "toBoolean (BigIntValue p i) = (i \<noteq> 0)"
| "toBoolean (PointerValue p) = True"
| "toBoolean _ = False"

definition callJ :: "'s Engine \<Rightarrow> Value \<Rightarrow> Value \<Rightarrow> Value list \<Rightarrow> ('s, Value) js" where
  "callJ E callee thisValue args =
     (case callee of PointerValue p \<Rightarrow> vCall (e_methods E p) thisValue args | _ \<Rightarrow> throwTypeError)"

text \<open>\<open>ObjectGetResult::value\<close>: reading an accessor calls its getter.\<close>

fun valueJ :: "'s Engine \<Rightarrow> Value \<Rightarrow> ObjectGetResult \<Rightarrow> ('s, Value) js" where
  "valueJ E receiver NoResult = retJ Undefined"
| "valueJ E receiver (DataResult v w en c) = retJ v"
| "valueJ E receiver (AccessorResult gs en c) =
     (if hasGetter gs \<and> isCallableV E (js_getter gs) then callJ E (js_getter gs) receiver [] else retJ Undefined)"
| "valueJ E receiver r = retJ (e_nativeValue E receiver r)"

definition pureValue :: "'s Engine \<Rightarrow> Value \<Rightarrow> ObjectGetResult \<Rightarrow> Value" where
  "pureValue E receiver r = (case r of DataResult v w en c \<Rightarrow> v | NativeResult d ob v w en c \<Rightarrow> e_nativeValue E receiver r | _ \<Rightarrow> Undefined)"

definition getMethod :: "'s Engine \<Rightarrow> addr \<Rightarrow> ObjectPropertyName \<Rightarrow> ('s, Value) js" where
  "getMethod E obj name =
     bindJ (vGet (e_methods E obj) name (PointerValue obj)) (\<lambda>r.
     bindJ (valueJ E (PointerValue obj) r) (\<lambda>func.
       if func = Undefined \<or> func = Null then retJ Undefined
       else if \<not> isCallableV E func then throwTypeError
       else retJ func))"

section \<open>Proxies\<close>

record ProxyObject =
  m_isCallable :: bool
  m_isConstructible :: bool
  m_target :: "addr option"
  m_handler :: "addr option"

definition createProxy :: "'s Engine \<Rightarrow> Value \<Rightarrow> Value \<Rightarrow> Thrown + ProxyObject" where
  "createProxy E target handler =
     (case (target, handler) of
        (PointerValue t, PointerValue h) \<Rightarrow>
          if \<not> e_isObject E t \<or> \<not> e_isObject E h then Inl TypeError
          else Inr \<lparr>m_isCallable = e_isCallable E t, m_isConstructible = (e_isCallable E t \<and> e_isConstructor E t),
                    m_target = Some t, m_handler = Some h\<rparr>
      | _ \<Rightarrow> Inl TypeError)"

definition revokeProxy :: "ProxyObject \<Rightarrow> ProxyObject" where
  "revokeProxy px = px\<lparr>m_target := None, m_handler := None\<rparr>"

text \<open>The beginning that all methods share: the handler, the target, and the trap.\<close>

definition withTrap ::
  "'s Engine \<Rightarrow> ProxyObject \<Rightarrow> string \<Rightarrow> (addr \<Rightarrow> ('s, 'a) js) \<Rightarrow> (addr \<Rightarrow> Value \<Rightarrow> Value \<Rightarrow> ('s, 'a) js) \<Rightarrow> ('s, 'a) js" where
  "withTrap E px name direct trapped =
     (case m_handler px of
        None \<Rightarrow> throwTypeError
      | Some handler \<Rightarrow>
          (case m_target px of
             None \<Rightarrow> (\<lambda>s. None)
           | Some target \<Rightarrow>
               bindJ (getMethod E handler (e_staticName E name)) (\<lambda>trap.
                 if trap = Undefined then direct target else trapped target (PointerValue handler) trap)))"

definition definitionAllowed :: "(ObjectGetResult \<Rightarrow> Value) \<Rightarrow> bool \<Rightarrow> ObjectPropertyDescriptor \<Rightarrow> ObjectGetResult \<Rightarrow> bool" where
  "definitionAllowed valueOf extensibleTarget desc targetDesc =
     (let settingConfigFalse = (isConfigurablePresent desc \<and> \<not> descConfigurable desc)
      in if \<not> resultHasValue targetDesc
         then if \<not> extensibleTarget \<or> settingConfigFalse then False else True
         else if \<not> isCompatiblePropertyDescriptor valueOf extensibleTarget desc targetDesc \<or>
                 settingConfigFalse \<and> resultConfigurable targetDesc
         then False
         else if resultIsData targetDesc \<and> \<not> resultConfigurable targetDesc \<and> resultWritable targetDesc \<and>
                 isWritablePresent desc \<and> \<not> descWritable desc
         then False
         else True)"

definition proxyDefineOwnProperty ::
  "'s Engine \<Rightarrow> ProxyObject \<Rightarrow> ObjectPropertyName \<Rightarrow> ObjectPropertyDescriptor \<Rightarrow> ('s, bool) js" where
  "proxyDefineOwnProperty E px P desc =
     withTrap E px ''defineProperty'' (\<lambda>t. vDefineOwnProperty (e_methods E t) P desc)
       (\<lambda>t handler trap.
         bindJ (e_fromDescriptor E desc) (\<lambda>descObj.
         bindJ (callJ E trap handler [PointerValue t, e_keyValue E P, descObj]) (\<lambda>result.
         if \<not> toBoolean result then retJ False
         else bindJ (vGetOwnProperty (e_methods E t) P) (\<lambda>targetDesc.
         bindJ (vIsExtensible (e_methods E t)) (\<lambda>extensibleTarget.
           if definitionAllowed (pureValue E (PointerValue t)) extensibleTarget desc targetDesc then retJ True else throwTypeError)))))"

definition proxyDeleteOwnProperty :: "'s Engine \<Rightarrow> ProxyObject \<Rightarrow> ObjectPropertyName \<Rightarrow> ('s, bool) js" where
  "proxyDeleteOwnProperty E px P =
     withTrap E px ''deleteProperty'' (\<lambda>t. vDeleteOwnProperty (e_methods E t) P)
       (\<lambda>t handler trap.
         bindJ (callJ E trap handler [PointerValue t, e_keyValue E P]) (\<lambda>result.
         if \<not> toBoolean result then retJ False
         else bindJ (vGetOwnProperty (e_methods E t) P) (\<lambda>targetDesc.
         bindJ (valueJ E (PointerValue t) targetDesc) (\<lambda>v.
           if v = Undefined then retJ True
           else if \<not> resultConfigurable targetDesc then throwTypeError
           else bindJ (vIsExtensible (e_methods E t)) (\<lambda>extensible. if \<not> extensible then throwTypeError else retJ True)))))"

text \<open>The descriptor that an object stands for: a field counts when \<open>get\<close> gives a result.\<close>

definition fieldJ :: "'s Engine \<Rightarrow> addr \<Rightarrow> string \<Rightarrow> ('s, Value option) js" where
  "fieldJ E obj name =
     bindJ (vGet (e_methods E obj) (e_staticName E name) (PointerValue obj)) (\<lambda>desc.
       if resultHasValue desc then bindJ (valueJ E (PointerValue obj) desc) (\<lambda>v. retJ (Some v)) else retJ None)"

definition accessorField :: "'s Engine \<Rightarrow> Value option \<Rightarrow> bool" where
  "accessorField E f = (case f of None \<Rightarrow> True | Some v \<Rightarrow> isCallableV E v \<or> v = Undefined)"

definition orD :: "('v \<Rightarrow> ObjectPropertyDescriptor \<Rightarrow> ObjectPropertyDescriptor) \<Rightarrow> 'v option \<Rightarrow> ObjectPropertyDescriptor \<Rightarrow> ObjectPropertyDescriptor" where
  "orD f x d = (case x of None \<Rightarrow> d | Some v \<Rightarrow> f v d)"

definition toPropertyDescriptor :: "'s Engine \<Rightarrow> addr \<Rightarrow> ('s, ObjectPropertyDescriptor) js" where
  "toPropertyDescriptor E obj =
     bindJ (fieldJ E obj ''enumerable'') (\<lambda>en.
     bindJ (fieldJ E obj ''configurable'') (\<lambda>c.
     bindJ (fieldJ E obj ''value'') (\<lambda>v.
     bindJ (fieldJ E obj ''writable'') (\<lambda>w.
     bindJ (fieldJ E obj ''get'') (\<lambda>g.
     if \<not> accessorField E g then throwTypeError
     else bindJ (fieldJ E obj ''set'') (\<lambda>st.
     if \<not> accessorField E st then throwTypeError
     else let isData = (g = None \<and> st = None)
          in if \<not> isData \<and> (w \<noteq> None \<or> v \<noteq> None) then throwTypeError
             else retJ
               (orD (\<lambda>x. setWritable (toBoolean x)) w
               (orD setValue v
               (orD (\<lambda>x. setConfigurable (toBoolean x)) c
               (orD (\<lambda>x. setEnumerable (toBoolean x)) en
                 \<lparr>m_isDataProperty = isData, m_property = 0, d_value = EmptyValue,
                  m_getterSetter = \<lparr>js_getter = (case g of None \<Rightarrow> EmptyValue | Some x \<Rightarrow> x),
                                    js_setter = (case st of None \<Rightarrow> EmptyValue | Some x \<Rightarrow> x)\<rparr>\<rparr>))))))))))"

definition descriptorAllowed :: "(ObjectGetResult \<Rightarrow> Value) \<Rightarrow> bool \<Rightarrow> ObjectPropertyDescriptor \<Rightarrow> ObjectGetResult \<Rightarrow> bool" where
  "descriptorAllowed valueOf extensible resultDesc targetDesc =
     (if \<not> isCompatiblePropertyDescriptor valueOf extensible resultDesc targetDesc then False
      else if \<not> descConfigurable resultDesc
      then if \<not> resultHasValue targetDesc \<or> resultConfigurable targetDesc then False
           else \<not> (isWritablePresent resultDesc \<and> \<not> descWritable resultDesc \<and> resultWritable targetDesc)
      else True)"

definition descResult :: "ObjectPropertyDescriptor \<Rightarrow> ObjectGetResult" where
  "descResult d =
     (if isDataDescriptor d then DataResult (d_value d) (descWritable d) (descEnumerable d) (descConfigurable d)
      else AccessorResult (m_getterSetter d) (descEnumerable d) (descConfigurable d))"

definition proxyGetOwnProperty :: "'s Engine \<Rightarrow> ProxyObject \<Rightarrow> ObjectPropertyName \<Rightarrow> ('s, ObjectGetResult) js" where
  "proxyGetOwnProperty E px P =
     withTrap E px ''getOwnPropertyDescriptor'' (\<lambda>t. vGetOwnProperty (e_methods E t) P)
       (\<lambda>t handler trap.
         bindJ (callJ E trap handler [PointerValue t, e_keyValue E P]) (\<lambda>trapResultObj.
         if \<not> isObjectValue E trapResultObj \<and> trapResultObj \<noteq> Undefined then throwTypeError
         else bindJ (vGetOwnProperty (e_methods E t) P) (\<lambda>targetDesc.
         case trapResultObj of
           PointerValue obj \<Rightarrow>
             bindJ (toPropertyDescriptor E obj) (\<lambda>d.
             let resultDesc = completePropertyDescriptor d
             in bindJ (vIsExtensible (e_methods E t)) (\<lambda>extensible.
                if \<not> descriptorAllowed (pureValue E (PointerValue t)) extensible resultDesc targetDesc then throwTypeError
                else retJ (descResult resultDesc)))
         | _ \<Rightarrow>
             bindJ (valueJ E (PointerValue t) targetDesc) (\<lambda>v.
               if v = Undefined then retJ NoResult
               else if \<not> resultConfigurable targetDesc then throwTypeError
               else bindJ (vIsExtensible (e_methods E t)) (\<lambda>extensible. if \<not> extensible then throwTypeError else retJ NoResult)))))"

definition proxyPreventExtensions :: "'s Engine \<Rightarrow> ProxyObject \<Rightarrow> ('s, bool) js" where
  "proxyPreventExtensions E px =
     withTrap E px ''preventExtensions'' (\<lambda>t. vPreventExtensions (e_methods E t))
       (\<lambda>t handler trap.
         bindJ (callJ E trap handler [PointerValue t]) (\<lambda>result.
         if toBoolean result
         then bindJ (vIsExtensible (e_methods E t)) (\<lambda>extensible. if extensible then throwTypeError else retJ True)
         else retJ False))"

definition proxyHasProperty :: "'s Engine \<Rightarrow> ProxyObject \<Rightarrow> ObjectPropertyName \<Rightarrow> ('s, bool) js" where
  "proxyHasProperty E px P =
     withTrap E px ''has'' (\<lambda>t. vHasProperty (e_methods E t) P)
       (\<lambda>t handler trap.
         bindJ (callJ E trap handler [PointerValue t, e_keyValue E P]) (\<lambda>result.
         if toBoolean result then retJ True
         else bindJ (vGetOwnProperty (e_methods E t) P) (\<lambda>targetDesc.
           if \<not> resultHasValue targetDesc then retJ False
           else if \<not> resultConfigurable targetDesc then throwTypeError
           else bindJ (vIsExtensible (e_methods E t)) (\<lambda>extensible. if \<not> extensible then throwTypeError else retJ False))))"

section \<open>The keys\<close>

fun keyOfValue :: "'s Engine \<Rightarrow> Value \<Rightarrow> property_key option" where
  "keyOfValue E (StringValue p s) = Some (KString s)"
| "keyOfValue E (PointerValue p) = (if e_isSymbol E p then Some (KSymbol p) else None)"
| "keyOfValue E _ = None"

text \<open>\<open>createListFromArrayLike\<close> for strings and symbols\<close>

fun arrayLikeElements :: "'s Engine \<Rightarrow> addr \<Rightarrow> nat \<Rightarrow> nat \<Rightarrow> ('s, property_key list) js" where
  "arrayLikeElements E obj index 0 = retJ []"
| "arrayLikeElements E obj index (Suc n) =
     bindJ (vGet (e_methods E obj) (e_indexName E index) (PointerValue obj)) (\<lambda>r.
     bindJ (valueJ E (PointerValue obj) r) (\<lambda>next.
       case keyOfValue E next of
         None \<Rightarrow> throwTypeError
       | Some k \<Rightarrow> bindJ (arrayLikeElements E obj (index + 1) n) (\<lambda>ks. retJ (k # ks))))"

definition createListFromArrayLike :: "'s Engine \<Rightarrow> Value \<Rightarrow> ('s, property_key list) js" where
  "createListFromArrayLike E obj =
     (case obj of
        PointerValue p \<Rightarrow>
          if e_isObject E p then bindJ (vLength (e_methods E p)) (\<lambda>len. arrayLikeElements E p 0 len) else throwTypeError
      | _ \<Rightarrow> throwTypeError)"

fun hasDuplicate :: "'a list \<Rightarrow> bool" where
  "hasDuplicate [] = False"
| "hasDuplicate (x # xs) = ((\<exists>y \<in> set xs. x = y) \<or> hasDuplicate xs)"

text \<open>The inner loops: every occurrence of a key is erased, and there has to be one.\<close>

fun removeKeys :: "'a list \<Rightarrow> 'a list \<Rightarrow> 'a list option" where
  "removeKeys [] unchecked = Some unchecked"
| "removeKeys (key # keys) unchecked =
     (if key \<in> set unchecked then removeKeys keys (filter (\<lambda>k. k \<noteq> key) unchecked) else None)"

definition checkKeys :: "bool \<Rightarrow> 'a list \<Rightarrow> 'a list \<Rightarrow> 'a list \<Rightarrow> bool" where
  "checkKeys extensibleTarget nonconfigurable configurable trapResult =
     (if extensibleTarget \<and> nonconfigurable = [] then True
      else case removeKeys nonconfigurable trapResult of
        None \<Rightarrow> False
      | Some unchecked \<Rightarrow>
          if extensibleTarget then True
          else case removeKeys configurable unchecked of
            None \<Rightarrow> False
          | Some rest \<Rightarrow> rest = [])"

definition proxyOwnPropertyKeys :: "'s Engine \<Rightarrow> ProxyObject \<Rightarrow> ('s, property_key list) js" where
  "proxyOwnPropertyKeys E px =
     withTrap E px ''ownKeys'' (\<lambda>t. vOwnPropertyKeys (e_methods E t))
       (\<lambda>t handler trap.
         bindJ (callJ E trap handler [PointerValue t]) (\<lambda>trapResultArray.
         bindJ (createListFromArrayLike E trapResultArray) (\<lambda>trapResult.
         if hasDuplicate trapResult then throwTypeError
         else bindJ (vIsExtensible (e_methods E t)) (\<lambda>extensibleTarget.
         bindJ (vOwnPropertyKeys (e_methods E t)) (\<lambda>targetKeys.
         bindJ (mapJ (\<lambda>key. bindJ (vGetOwnProperty (e_methods E t) (e_keyName E key)) (\<lambda>desc. retJ (key, resultHasValue desc \<and> \<not> resultConfigurable desc)))
                 targetKeys) (\<lambda>marked.
           if checkKeys extensibleTarget (map fst (filter snd marked)) (map fst (filter (\<lambda>m. \<not> snd m) marked)) trapResult
           then retJ trapResult else throwTypeError))))))"

section \<open>Extensibility, prototypes, values and calls\<close>

definition proxyIsExtensible :: "'s Engine \<Rightarrow> ProxyObject \<Rightarrow> ('s, bool) js" where
  "proxyIsExtensible E px =
     withTrap E px ''isExtensible'' (\<lambda>t. vIsExtensible (e_methods E t))
       (\<lambda>t handler trap.
         bindJ (callJ E trap handler [PointerValue t]) (\<lambda>result.
         bindJ (vIsExtensible (e_methods E t)) (\<lambda>targetResult.
           if targetResult \<noteq> toBoolean result then throwTypeError else retJ (toBoolean result))))"

definition proxySetPrototype :: "'s Engine \<Rightarrow> ProxyObject \<Rightarrow> Value \<Rightarrow> ('s, bool) js" where
  "proxySetPrototype E px v =
     withTrap E px ''setPrototypeOf'' (\<lambda>t. vSetPrototype (e_methods E t) v)
       (\<lambda>t handler trap.
         bindJ (callJ E trap handler [PointerValue t, v]) (\<lambda>result.
         if \<not> toBoolean result then retJ False
         else bindJ (vIsExtensible (e_methods E t)) (\<lambda>extensibleTarget.
           if extensibleTarget then retJ True
           else bindJ (vGetPrototype (e_methods E t)) (\<lambda>targetProto.
             if \<not> sameBits v targetProto then throwTypeError else retJ True))))"

definition proxyGetPrototype :: "'s Engine \<Rightarrow> ProxyObject \<Rightarrow> ('s, Value) js" where
  "proxyGetPrototype E px =
     withTrap E px ''getPrototypeOf'' (\<lambda>t. vGetPrototype (e_methods E t))
       (\<lambda>t handler trap.
         bindJ (callJ E trap handler [PointerValue t]) (\<lambda>handlerProto.
         if \<not> isObjectValue E handlerProto \<and> handlerProto \<noteq> Null then throwTypeError
         else bindJ (vIsExtensible (e_methods E t)) (\<lambda>extensibleTarget.
           if extensibleTarget then retJ handlerProto
           else bindJ (vGetPrototype (e_methods E t)) (\<lambda>targetProto.
             if \<not> sameBits handlerProto targetProto then throwTypeError else retJ handlerProto))))"

text \<open>\<open>get\<close> hands the proxy itself to the trap, not the receiver.\<close>

definition proxyGet :: "'s Engine \<Rightarrow> addr \<Rightarrow> ProxyObject \<Rightarrow> ObjectPropertyName \<Rightarrow> Value \<Rightarrow> ('s, ObjectGetResult) js" where
  "proxyGet E self px P receiver =
     withTrap E px ''get'' (\<lambda>t. vGet (e_methods E t) P receiver)
       (\<lambda>t handler trap.
         bindJ (callJ E trap handler [PointerValue t, e_keyValue E P, PointerValue self]) (\<lambda>trapResult.
         bindJ (vGetOwnProperty (e_methods E t) P) (\<lambda>targetDesc.
           if resultHasValue targetDesc \<and> resultIsData targetDesc \<and> \<not> resultConfigurable targetDesc \<and> \<not> resultWritable targetDesc \<and>
              \<not> sameBits trapResult (pureValue E (PointerValue t) targetDesc)
           then throwTypeError
           else if resultHasValue targetDesc \<and> \<not> resultIsData targetDesc \<and> \<not> resultConfigurable targetDesc \<and>
                   getterOrUndefined (resultGetterSetter targetDesc) = Undefined \<and> trapResult \<noteq> Undefined
           then throwTypeError
           else retJ (DataResult trapResult True True True))))"

definition proxySet :: "'s Engine \<Rightarrow> ProxyObject \<Rightarrow> ObjectPropertyName \<Rightarrow> Value \<Rightarrow> Value \<Rightarrow> ('s, bool) js" where
  "proxySet E px P v receiver =
     withTrap E px ''set'' (\<lambda>t. vSet (e_methods E t) P v receiver)
       (\<lambda>t handler trap.
         bindJ (callJ E trap handler [PointerValue t, e_keyValue E P, v, receiver]) (\<lambda>result.
         if \<not> toBoolean result then retJ False
         else bindJ (vGetOwnProperty (e_methods E t) P) (\<lambda>targetDesc.
           if resultHasValue targetDesc \<and> resultIsData targetDesc \<and> \<not> resultConfigurable targetDesc \<and> \<not> resultWritable targetDesc \<and>
              \<not> sameBits v (pureValue E (PointerValue t) targetDesc)
           then throwTypeError
           else if resultHasValue targetDesc \<and> \<not> resultIsData targetDesc \<and> \<not> resultConfigurable targetDesc \<and>
                   setterOrUndefined (resultGetterSetter targetDesc) = Undefined
           then throwTypeError
           else retJ True)))"

definition proxyCall :: "'s Engine \<Rightarrow> ProxyObject \<Rightarrow> Value \<Rightarrow> Value list \<Rightarrow> ('s, Value) js" where
  "proxyCall E px receiver args =
     (if \<not> m_isCallable px then throwTypeError
      else withTrap E px ''apply'' (\<lambda>t. callJ E (PointerValue t) receiver args)
        (\<lambda>t handler trap. bindJ (e_newArray E args) (\<lambda>argArray. callJ E trap handler [PointerValue t, receiver, argArray])))"

definition proxyConstruct :: "'s Engine \<Rightarrow> ProxyObject \<Rightarrow> Value list \<Rightarrow> addr \<Rightarrow> ('s, Value) js" where
  "proxyConstruct E px args newTarget =
     withTrap E px ''construct'' (\<lambda>t. vConstruct (e_methods E t) args newTarget)
       (\<lambda>t handler trap.
         bindJ (e_newArray E args) (\<lambda>argArray.
         bindJ (callJ E trap handler [PointerValue t, argArray, PointerValue newTarget]) (\<lambda>newObj.
           if \<not> isObjectValue E newObj then throwTypeError else retJ newObj)))"

end
