(* ===== verification/ProxyContract.thy ===== *)
theory ProxyContract
  imports ProxyObject
begin

text \<open>
  What proxies guarantee. A target is described by a locale, \<open>proxied\<close>; its lemmas say, for each method of a proxy that returns, that it went to the
  target or that its answer agrees with what the target has at that time.
\<close>

section \<open>Running computations\<close>

lemma bindJ_Inr:
  assumes "bindJ m f s = Some (Inr y, s')"
  obtains x s1 where "m s = Some (Inr x, s1)" "f x s1 = Some (Inr y, s')"
  using assms by (auto simp: bindJ_def split: option.splits sum.splits)

lemma retJ_iff [simp]: "retJ x s = Some (r, s') \<longleftrightarrow> r = Inr x \<and> s' = s"
  by (auto simp: retJ_def)

lemma throwTypeError_Inr [simp]: "throwTypeError s \<noteq> Some (Inr x, s')"
  by (simp add: throwTypeError_def)

lemma bindJ_any:
  assumes "bindJ m f s = Some (r, s')"
  shows "(\<exists>e. m s = Some (Inl e, s') \<and> r = Inl e) \<or> (\<exists>x s1. m s = Some (Inr x, s1) \<and> f x s1 = Some (r, s'))"
  using assms by (auto simp: bindJ_def split: option.splits sum.splits)

text \<open>Computations that never fail and keep an invariant, whether they return or throw.\<close>

definition keepsJ :: "('s \<Rightarrow> bool) \<Rightarrow> ('s, 'a) js \<Rightarrow> bool" where
  "keepsJ I m \<longleftrightarrow> (\<forall>s. I s \<longrightarrow> (\<exists>r s'. m s = Some (r, s') \<and> I s'))"

lemma keepsJ_basic [simp, intro]: "keepsJ I (retJ x)" "keepsJ I throwTypeError"
  by (auto simp: keepsJ_def throwTypeError_def)

lemma keepsJ_D: "keepsJ I m \<Longrightarrow> I s \<Longrightarrow> m s = Some (r, s') \<Longrightarrow> I s'"
  by (auto simp: keepsJ_def)

lemma keepsJ_bind [intro!]:
  assumes "keepsJ I m" "\<And>x. keepsJ I (f x)"
  shows "keepsJ I (bindJ m f)"
  unfolding keepsJ_def
proof (intro allI impI)
  fix s
  assume "I s"
  then obtain r s1 where m: "m s = Some (r, s1)" "I s1" using assms(1) by (auto simp: keepsJ_def)
  show "\<exists>r s'. bindJ m f s = Some (r, s') \<and> I s'"
  proof (cases r)
    case (Inr x)
    then show ?thesis using assms(2) [of x] m by (auto simp: bindJ_def keepsJ_def)
  qed (use m in \<open>simp add: bindJ_def\<close>)
qed

lemma keepsJ_if [intro!]: "(c \<Longrightarrow> keepsJ I m) \<Longrightarrow> (\<not> c \<Longrightarrow> keepsJ I n) \<Longrightarrow> keepsJ I (if c then m else n)"
  by simp

lemma keepsJ_run:
  assumes "keepsJ I m" "I s" "\<And>x s'. m s = Some (Inr x, s') \<Longrightarrow> Q x s'"
  shows "\<exists>r s'. m s = Some (r, s') \<and> I s' \<and> (case r of Inl e \<Rightarrow> True | Inr x \<Rightarrow> Q x s')"
proof -
  obtain r s' where "m s = Some (r, s')" "I s'" using assms(1,2) by (auto simp: keepsJ_def)
  then show ?thesis using assms(3) by (cases r) auto
qed

text \<open>A property that a handler may not report, read or write otherwise: read-only and not configurable, or without getter or setter.\<close>

fun get_allowed :: "Prop option \<Rightarrow> Value \<Rightarrow> bool" where
  "get_allowed (Some (DataProp w False en False)) v = sameBits v w"
| "get_allowed (Some (AccessorProp Undefined st en False)) v = (v = Undefined)"
| "get_allowed _ v = True"

fun set_allowed :: "Prop option \<Rightarrow> Value \<Rightarrow> bool" where
  "set_allowed (Some (DataProp w False en False)) v = sameBits v w"
| "set_allowed (Some (AccessorProp g Undefined en False)) v = False"
| "set_allowed _ v = True"

lemma prop_reads:
  assumes "resultProp f g = x"
  shows "resultHasValue g \<longleftrightarrow> x \<noteq> None" "x = Some p \<Longrightarrow> resultConfigurable g = propConfigurable p"
    "x = Some (DataProp v w en c) \<Longrightarrow> resultIsData g \<and> resultWritable g = w \<and> f g = v"
    "x = Some (AccessorProp a b en c) \<Longrightarrow> \<not> resultIsData g \<and> getterOrUndefined (resultGetterSetter g) = a \<and> setterOrUndefined (resultGetterSetter g) = b"
  using assms by (cases g; auto)+

lemma definitionAllowed_iff:
  assumes "desc_ok desc" "result_ok d"
  shows "definitionAllowed f e desc d \<longleftrightarrow> validateAndApply e (descOf desc) (resultProp f d) \<noteq> None \<and>
    (pd_configurable (descOf desc) = Some False \<longrightarrow> (\<exists>p. resultProp f d = Some p \<and> \<not> propConfigurable p)) \<and>
    (pd_writable (descOf desc) = Some False \<longrightarrow> (\<forall>v en. resultProp f d \<noteq> Some (DataProp v True en False)))"
proof (cases "resultProp f d")
  case None
  then show ?thesis using prop_reads(1) [OF None] by (simp add: definitionAllowed_def validateAndApply_def)
next
  case (Some p)
  have "definitionAllowed f e desc d \<longleftrightarrow> validateAndApply e (descOf desc) (Some p) \<noteq> None \<and> \<not> (isConfigurablePresent desc \<and> \<not> descConfigurable desc \<and> propConfigurable p) \<and>
      \<not> (resultIsData d \<and> \<not> propConfigurable p \<and> resultWritable d \<and> isWritablePresent desc \<and> \<not> descWritable desc)"
    using prop_reads(1,2) [OF Some] compatible_iff [OF assms, of f e] Some by (simp add: definitionAllowed_def del: not_None_eq)
  then show ?thesis using Some prop_reads [OF Some] by (cases p) auto
qed

text \<open>
  The two ways a method of a proxy goes: the handler has no trap, or the trap is called with the arguments that \<open>args\<close> makes and answers.
\<close>

definition untrapped :: "'s Engine \<Rightarrow> ProxyObject \<Rightarrow> string \<Rightarrow> 's \<Rightarrow> 's \<Rightarrow> bool" where
  "untrapped E px name s s1 \<longleftrightarrow>
     (\<exists>handler. m_handler px = Some handler \<and> getMethod E handler (e_staticName E name) s = Some (Inr Undefined, s1))"

definition trapAnswers :: "'s Engine \<Rightarrow> ProxyObject \<Rightarrow> string \<Rightarrow> ('s, Value list) js \<Rightarrow> 's \<Rightarrow> Value \<Rightarrow> 's \<Rightarrow> bool" where
  "trapAnswers E px name args s r s1 \<longleftrightarrow>
     (\<exists>handler trap xs s2 s3. m_handler px = Some handler \<and> getMethod E handler (e_staticName E name) s = Some (Inr trap, s2) \<and> trap \<noteq> Undefined \<and>
        args s2 = Some (Inr xs, s3) \<and> callJ E trap (PointerValue handler) xs s3 = Some (Inr r, s1))"

lemma trapAnswersI:
  assumes "m_handler px = Some handler" "getMethod E handler (e_staticName E name) s = Some (Inr trap, s2)" "trap \<noteq> Undefined"
    "callJ E trap (PointerValue handler) xs s2 = Some (Inr r, s1)"
  shows "trapAnswers E px name (retJ xs) s r s1"
  using assms by (auto simp: trapAnswers_def)

text \<open>
  When a property of the target \<open>t\<close> may be said to be absent: it is, or it is configurable and the target extensible, or its value reads as
  undefined, which the code takes for an absent property. Reading an accessor runs its getter in \<open>s\<close> and ends in \<open>s'\<close>.
\<close>

definition hidden_allowed :: "'s Engine \<Rightarrow> addr \<Rightarrow> Prop option \<Rightarrow> bool \<Rightarrow> 's \<Rightarrow> 's \<Rightarrow> bool" where
  "hidden_allowed E t x e s s' \<longleftrightarrow>
     (case x of
        None \<Rightarrow> s' = s
      | Some (DataProp v w en c) \<Rightarrow> s' = s \<and> (v = Undefined \<or> c \<and> e)
      | Some (AccessorProp g st en c) \<Rightarrow>
          if isCallableV E g then \<exists>v. callJ E g (PointerValue t) [] s = Some (Inr v, s') \<and> (v = Undefined \<or> c \<and> e) else s' = s)"

lemma hidden_allowedI:
  assumes "resultProp (pureValue E (PointerValue t)) d = x" "valueJ E (PointerValue t) d s = Some (Inr v, s')"
    "v = Undefined \<or> resultConfigurable d \<and> e"
  shows "hidden_allowed E t x e s s'"
  using assms by (cases d) (auto simp: hidden_allowed_def pureValue_def getterOrUndefined_def split: if_splits)

text \<open>The descriptor of an object is well formed, also after it is completed.\<close>

lemma checkProperty_setters:
  "checkProperty d \<Longrightarrow> checkProperty (setEnumerable b d)" "checkProperty d \<Longrightarrow> checkProperty (setConfigurable b d)"
  "checkProperty d \<Longrightarrow> m_isDataProperty d \<Longrightarrow> checkProperty (setWritable b d)" "checkProperty d \<Longrightarrow> m_isDataProperty d \<Longrightarrow> checkProperty (setValue v d)"
  by (auto simp: checkProperty_bits setter_bits bit_flag32_lits)

lemma complete_ok:
  assumes "desc_ok d"
  shows "desc_ok (completePropertyDescriptor d)" "isDataDescriptor (completePropertyDescriptor d) \<Longrightarrow> isWritablePresent (completePropertyDescriptor d)"
proof -
  let ?c = "completePropertyDescriptor d"
  have "\<not> isAccessorDescriptor d \<Longrightarrow> isDataDescriptor d \<or> isGenericDescriptor d" by (auto simp: isGenericDescriptor_def)
  have p: "isWritablePresent ?c" if "m_isDataProperty d"
    using that by (auto simp: completePropertyDescriptor_def Let_def isGenericDescriptor_def isAccessorDescriptor_def)
  have acc: "\<not> m_isDataProperty d \<Longrightarrow> \<not> isDataDescriptor d \<and> \<not> isGenericDescriptor d"
    using assms desc_kinds [OF assms] by (auto simp: isGenericDescriptor_def isAccessorDescriptor_def)
  have m: "m_isDataProperty ?c = m_isDataProperty d" by (simp add: completePropertyDescriptor_def Let_def)
  have "checkProperty ?c"
  proof (cases "m_isDataProperty d")
    case True
    then show ?thesis using assms by (simp add: completePropertyDescriptor_def Let_def desc_ok_def checkProperty_setters isGenericDescriptor_def isAccessorDescriptor_def)
  next
    case False
    have "checkProperty (d\<lparr>m_getterSetter := gs\<rparr>) = checkProperty d" for gs by (simp add: checkProperty_def)
    then show ?thesis using assms False acc by (simp add: completePropertyDescriptor_def Let_def desc_ok_def checkProperty_setters)
  qed
  moreover have "gs_ok (m_getterSetter ?c) \<and> hasGetter (m_getterSetter ?c)" if "\<not> m_isDataProperty d"
    using assms that acc by (auto simp: completePropertyDescriptor_def Let_def desc_ok_def isAccessorDescriptor_def gs_ok_def hasGetter_def hasSetter_def)
  ultimately show "desc_ok ?c" using m by (simp add: desc_ok_def isAccessorDescriptor_def)
  then show "isDataDescriptor ?c \<Longrightarrow> isWritablePresent ?c" using p m desc_kinds [of ?c] by (auto simp: isAccessorDescriptor_def)
qed

lemma toPropertyDescriptor_ok:
  assumes "toPropertyDescriptor E obj s = Some (Inr d, s')"
  shows "desc_ok d"
proof -
  from assms obtain en c v w g st where d: "d = orD (\<lambda>x. setWritable (toBoolean x)) w (orD setValue v (orD (\<lambda>x. setConfigurable (toBoolean x)) c
      (orD (\<lambda>x. setEnumerable (toBoolean x)) en \<lparr>m_isDataProperty = (g = None \<and> st = None), m_property = 0, d_value = EmptyValue,
        m_getterSetter = \<lparr>js_getter = (case g of None \<Rightarrow> EmptyValue | Some x \<Rightarrow> x), js_setter = (case st of None \<Rightarrow> EmptyValue | Some x \<Rightarrow> x)\<rparr>\<rparr>)))"
      "accessorField E g" "accessorField E st" "(g = None \<and> st = None) \<or> w = None \<and> v = None"
    unfolding toPropertyDescriptor_def Let_def by (elim bindJ_Inr) (auto split: if_splits elim!: bindJ_Inr)
  have z: "checkProperty \<lparr>m_isDataProperty = b, m_property = 0, d_value = x, m_getterSetter = gs\<rparr>" for b x gs by (simp add: checkProperty_def)
  have fn: "isFunctionOrUndefined x" "x \<noteq> EmptyValue" if "isCallableV E x \<or> x = Undefined" for x using that by (cases x; simp)+
  show ?thesis
  proof (cases "g = None \<and> st = None")
    case True
    then show ?thesis using d(1) z by (simp add: desc_ok_def isAccessorDescriptor_def orD_def checkProperty_setters split: option.split)
  next
    case False
    then have n: "w = None" "v = None" using d(4) by auto
    let ?gs = "\<lparr>js_getter = (case g of None \<Rightarrow> EmptyValue | Some x \<Rightarrow> x), js_setter = (case st of None \<Rightarrow> EmptyValue | Some x \<Rightarrow> x)\<rparr>"
    have "gs_ok ?gs" "hasGetter ?gs \<or> hasSetter ?gs"
      using d(2,3) False fn by (auto simp: gs_ok_def hasGetter_def hasSetter_def accessorField_def split: option.splits)
    moreover have "m_getterSetter d = ?gs" "checkProperty d" unfolding d(1) n using z by (auto simp: orD_def checkProperty_setters split: option.split)
    ultimately show ?thesis by (simp add: desc_ok_def)
  qed
qed

definition report_allowed :: "ObjectGetResult \<Rightarrow> Prop option \<Rightarrow> bool \<Rightarrow> bool" where
  "report_allowed g x e \<longleftrightarrow> (\<exists>d. g = descResult d \<and> desc_ok d \<and> validateAndApply e (descOf d) x \<noteq> None) \<and>
     (\<not> resultConfigurable g \<longrightarrow> (\<exists>p. x = Some p \<and> \<not> propConfigurable p) \<and> (resultIsData g \<and> \<not> resultWritable g \<longrightarrow> (\<forall>v en. x \<noteq> Some (DataProp v True en False))))"

lemma report_allowedI:
  assumes e: "desc_ok e" and a: "descriptorAllowed f ex (completePropertyDescriptor e) d" and d: "result_ok d"
  shows "report_allowed (descResult (completePropertyDescriptor e)) (resultProp f d) ex"
proof -
  let ?c = "completePropertyDescriptor e" and ?x = "resultProp f d"
  note ok = complete_ok(1) [OF e]
  have "isCompatiblePropertyDescriptor f ex ?c d" using a by (auto simp: descriptorAllowed_def split: if_splits)
  then have v: "validateAndApply ex (descOf ?c) ?x \<noteq> None" using compatible_iff [OF ok d] by simp
  have rc: "resultConfigurable (descResult ?c) = descConfigurable ?c" by (simp add: descResult_def)
  have rd: "resultIsData (descResult ?c) = isDataDescriptor ?c" "isDataDescriptor ?c \<Longrightarrow> resultWritable (descResult ?c) = descWritable ?c" by (simp_all add: descResult_def)
  note wp = complete_ok(2) [OF e]
  have "\<not> descConfigurable ?c \<Longrightarrow> resultHasValue d \<and> \<not> resultConfigurable d \<and> \<not> (isWritablePresent ?c \<and> \<not> descWritable ?c \<and> resultWritable d)"
    using a by (auto simp: descriptorAllowed_def split: if_splits)
  then show ?thesis unfolding report_allowed_def using ok v rc rd wp prop_reads [OF refl [of ?x]] by (cases ?x) auto
qed

section \<open>The contract of a target\<close>

text \<open>
  What a proxy relies on: the target answers without throwing and without changing, whatever handlers and getters did before. The
  locale is about one property name; \<open>own\<close>, \<open>ext\<close> and \<open>proto\<close> say what a state has under that name on the target,
  and \<open>isPrototype\<close> which values may become its prototype.
\<close>

locale proxied =
  fixes E :: "'s Engine" and t :: addr and P :: ObjectPropertyName
    and inv :: "'s \<Rightarrow> bool" and own :: "'s \<Rightarrow> Prop option" and ext :: "'s \<Rightarrow> bool" and proto :: "'s \<Rightarrow> Value"
    and isPrototype :: "Value \<Rightarrow> bool"
  assumes own_ok: "inv s \<Longrightarrow> \<exists>g s'. vGetOwnProperty (e_methods E t) P s = Some (Inr g, s') \<and>
      resultProp (pureValue E (PointerValue t)) g = own s \<and> result_ok g \<and> inv s' \<and> own s' = own s \<and> ext s' = ext s \<and> proto s' = proto s"
    and ext_ok: "inv s \<Longrightarrow> vIsExtensible (e_methods E t) s = Some (Inr (ext s), s)"
    and proto_ok: "inv s \<Longrightarrow> vGetPrototype (e_methods E t) s = Some (Inr (proto s), s)"
    and get_keeps [intro!]: "keepsJ inv (vGet (e_methods E p) (e_staticName E n) rc)"
    and call_keeps: "keepsJ inv (vCall (e_methods E p) thisValue args)"
    and alloc_keeps [intro!]: "keepsJ inv (e_fromDescriptor E desc)"
    and direct_keeps: "desc_ok d \<Longrightarrow> keepsJ inv (vDefineOwnProperty (e_methods E t) P d)" "keepsJ inv (vDeleteOwnProperty (e_methods E t) P)"
      "keepsJ inv (vHasProperty (e_methods E t) P)" "keepsJ inv (vGet (e_methods E t) P rc)" "keepsJ inv (vSet (e_methods E t) P v rc)"
      "keepsJ inv (vPreventExtensions (e_methods E t))" "isPrototype v \<Longrightarrow> keepsJ inv (vSetPrototype (e_methods E t) v)"
begin

lemma callJ_keeps [intro!]: "keepsJ inv (callJ E f thisValue args)"
  using call_keeps by (auto simp: callJ_def split: Value.splits)

lemma valueJ_keeps [intro!]: "keepsJ inv (valueJ E rc g)"
  by (cases g) auto

lemma getMethod_keeps: "keepsJ inv (getMethod E p (e_staticName E n))"
  unfolding getMethod_def by blast

lemma toPropertyDescriptor_keeps: "keepsJ inv (toPropertyDescriptor E obj)"
  unfolding toPropertyDescriptor_def fieldJ_def Let_def by (intro keepsJ_bind keepsJ_if get_keeps valueJ_keeps keepsJ_basic)

lemmas callJ_inv = keepsJ_D [OF callJ_keeps] and valueJ_inv = keepsJ_D [OF valueJ_keeps] and getMethod_inv = keepsJ_D [OF getMethod_keeps]

lemma target_own:
  assumes "inv s" "vGetOwnProperty (e_methods E t) P s = Some (Inr g, s')"
  shows "resultProp (pureValue E (PointerValue t)) g = own s" "result_ok g" "inv s'" "own s' = own s" "ext s' = ext s" "proto s' = proto s"
  using own_ok [OF assms(1)] assms(2) by auto

lemma own_keeps [intro!]: "keepsJ inv (vGetOwnProperty (e_methods E t) P)"
  using own_ok by (fastforce simp: keepsJ_def)

lemma reads_keep [intro!]: "keepsJ inv (vIsExtensible (e_methods E t))" "keepsJ inv (vGetPrototype (e_methods E t))"
  using ext_ok proto_ok by (auto simp: keepsJ_def)

lemma withTrap_keeps:
  assumes "m_target px = Some t" "keepsJ inv (direct t)" "\<And>handler trap. keepsJ inv (trapped t (PointerValue handler) trap)"
  shows "keepsJ inv (withTrap E px name direct trapped)"
  using assms getMethod_keeps by (cases "m_handler px") (auto simp: withTrap_def)

lemmas keeping = keepsJ_bind keepsJ_if keepsJ_basic callJ_keeps valueJ_keeps own_keeps reads_keep alloc_keeps direct_keeps toPropertyDescriptor_keeps withTrap_keeps

lemma proxy_keeps:
  assumes t: "m_target px = Some t"
  shows "keepsJ inv (proxyGet E self px P rc)" "keepsJ inv (proxySet E px P v rc)" "keepsJ inv (proxyHasProperty E px P)"
    "keepsJ inv (proxyDeleteOwnProperty E px P)" "desc_ok d \<Longrightarrow> keepsJ inv (proxyDefineOwnProperty E px P d)" "keepsJ inv (proxyIsExtensible E px)"
    "keepsJ inv (proxyPreventExtensions E px)" "keepsJ inv (proxyGetPrototype E px)" "isPrototype v \<Longrightarrow> keepsJ inv (proxySetPrototype E px v)"
  unfolding proxyGet_def proxySet_def proxyHasProperty_def proxyDeleteOwnProperty_def proxyDefineOwnProperty_def proxyIsExtensible_def
    proxyPreventExtensions_def proxyGetPrototype_def proxySetPrototype_def
  by (intro keeping t; assumption?)+

lemma proxyGetOwn_keeps:
  assumes t: "m_target px = Some t"
  shows "keepsJ inv (proxyGetOwnProperty E px P)"
proof -
  let ?u = "\<lambda>d. bindJ (valueJ E (PointerValue t) d) (\<lambda>v. if v = Undefined then retJ NoResult else if \<not> resultConfigurable d then throwTypeError
      else bindJ (vIsExtensible (e_methods E t)) (\<lambda>e. if \<not> e then throwTypeError else retJ NoResult))"
  let ?o = "\<lambda>obj d. bindJ (toPropertyDescriptor E obj) (\<lambda>c. bindJ (vIsExtensible (e_methods E t)) (\<lambda>e.
      if \<not> descriptorAllowed (pureValue E (PointerValue t)) e (completePropertyDescriptor c) d then throwTypeError else retJ (descResult (completePropertyDescriptor c))))"
  have "keepsJ inv (?u d)" "keepsJ inv (?o obj d)" for d obj by (intro keeping)+
  then have "keepsJ inv (case r of PointerValue obj \<Rightarrow> ?o obj d | _ \<Rightarrow> ?u d)" for r d by (cases r) simp_all
  then show ?thesis unfolding proxyGetOwnProperty_def Let_def by (intro keeping t)
qed

text \<open>A method that returns has either gone to the target or called the trap.\<close>

lemma withTrap_cases:
  assumes s: "inv s" and t: "m_target px = Some t" and r: "withTrap E px name direct trapped s = Some (Inr r, s')"
  obtains (direct) s1 where "inv s1" "direct t s1 = Some (Inr r, s')" "untrapped E px name s s1"
  | (trapped) handler trap s1 where "inv s1" "trapped t (PointerValue handler) trap s1 = Some (Inr r, s')" "m_handler px = Some handler"
      "getMethod E handler (e_staticName E name) s = Some (Inr trap, s1)" "trap \<noteq> Undefined"
proof -
  obtain h where h: "m_handler px = Some h" using r by (cases "m_handler px") (auto simp: withTrap_def)
  with r t have "bindJ (getMethod E h (e_staticName E name)) (\<lambda>trap. if trap = Undefined then direct t else trapped t (PointerValue h) trap) s = Some (Inr r, s')"
    by (simp add: withTrap_def)
  then obtain trap s1 where m: "getMethod E h (e_staticName E name) s = Some (Inr trap, s1)"
    "(if trap = Undefined then direct t else trapped t (PointerValue h) trap) s1 = Some (Inr r, s')" by (rule bindJ_Inr)
  then show ?thesis using that h getMethod_inv [OF s m(1)] by (cases "trap = Undefined") (auto simp: untrapped_def)
qed

lemma ext_read: "inv s \<Longrightarrow> bindJ (vIsExtensible (e_methods E t)) k s = k (ext s) s"
  using ext_ok by (simp add: bindJ_def)

lemma proto_read: "inv s \<Longrightarrow> bindJ (vGetPrototype (e_methods E t)) k s = k (proto s) s"
  using proto_ok by (simp add: bindJ_def)

lemma own_read:
  assumes "bindJ (vGetOwnProperty (e_methods E t) P) k s = Some (Inr r, s')" and "inv s"
  obtains d s1 where "k d s1 = Some (Inr r, s')" "inv s1" "resultProp (pureValue E (PointerValue t)) d = own s1" "result_ok d"
    "own s1 = own s" "vGetOwnProperty (e_methods E t) P s = Some (Inr d, s1)"
  using bindJ_Inr [OF assms(1)] target_own [OF assms(2)] by metis

lemma call_read:
  assumes "bindJ (callJ E f thisValue args) k s = Some (Inr r, s')" and "inv s"
  obtains v s1 where "k v s1 = Some (Inr r, s')" "inv s1" "callJ E f thisValue args s = Some (Inr v, s1)"
  using bindJ_Inr [OF assms(1)] callJ_inv [OF assms(2)] by metis

lemma call_bool:
  assumes "bindJ (callJ E f thisValue args) (\<lambda>r. if \<not> toBoolean r then retJ False else m) s = Some (Inr b, s')" and "inv s"
  obtains "b = False" "inv s'" | s1 where "inv s1" "m s1 = Some (Inr b, s')"
  by (rule call_read [OF assms]) (auto split: if_splits intro: that)

lemma call_bool_not:
  assumes "bindJ (callJ E f thisValue args) (\<lambda>r. if toBoolean r then m else retJ False) s = Some (Inr b, s')" and "inv s"
  obtains "b = False" "inv s'" | s1 where "inv s1" "m s1 = Some (Inr b, s')"
  by (rule call_read [OF assms]) (auto split: if_splits intro: that)

lemma call_bool_true:
  assumes "bindJ (callJ E f thisValue args) (\<lambda>r. if toBoolean r then retJ True else m) s = Some (Inr b, s')" and "inv s"
  obtains "b = True" "inv s'" | s1 where "inv s1" "m s1 = Some (Inr b, s')"
  by (rule call_read [OF assms]) (auto split: if_splits intro: that)

lemma alloc_read:
  assumes "bindJ (e_fromDescriptor E desc) k s = Some (Inr r, s')" and "inv s"
  obtains v s1 where "k v s1 = Some (Inr r, s')" "inv s1"
  using bindJ_Inr [OF assms(1)] keepsJ_D [OF alloc_keeps assms(2)] by metis

lemma get_final:
  assumes "resultProp f d = x" "resultHasValue d \<and> resultIsData d \<and> \<not> resultConfigurable d \<and> \<not> resultWritable d \<longrightarrow> sameBits v (f d)"
    "resultHasValue d \<and> \<not> resultIsData d \<and> \<not> resultConfigurable d \<and> getterOrUndefined (resultGetterSetter d) = Undefined \<longrightarrow> v = Undefined"
  shows "get_allowed x v"
  using prop_reads [OF assms(1)] assms(2,3) by (cases "(x, v)" rule: get_allowed.cases) auto

lemma set_final:
  assumes "resultProp f d = x" "resultHasValue d \<and> resultIsData d \<and> \<not> resultConfigurable d \<and> \<not> resultWritable d \<longrightarrow> sameBits v (f d)"
    "resultHasValue d \<and> \<not> resultIsData d \<and> \<not> resultConfigurable d \<longrightarrow> setterOrUndefined (resultGetterSetter d) \<noteq> Undefined"
  shows "set_allowed x v"
  using prop_reads [OF assms(1)] assms(2,3) by (cases "(x, v)" rule: set_allowed.cases) auto

lemma get_consistent:
  assumes "inv s" "m_target px = Some t" "proxyGet E self px P rc s = Some (Inr g, s')"
  shows "(\<exists>s1. inv s1 \<and> vGet (e_methods E t) P rc s1 = Some (Inr g, s')) \<or> (\<exists>v. g = DataResult v True True True \<and> inv s' \<and> get_allowed (own s') v)"
  using assms(1,2) assms(3) [unfolded proxyGet_def]
proof (cases rule: withTrap_cases)
  case (trapped handler trap s1)
  then show ?thesis by (elim call_read own_read) (auto split: if_splits intro: get_final)
qed blast

lemma set_consistent:
  assumes "inv s" "m_target px = Some t" "proxySet E px P v rc s = Some (Inr b, s')"
  shows "(\<exists>s1. inv s1 \<and> vSet (e_methods E t) P v rc s1 = Some (Inr b, s')) \<or> inv s' \<and> (b \<longrightarrow> set_allowed (own s') v)"
  using assms(1,2) assms(3) [unfolded proxySet_def]
proof (cases rule: withTrap_cases)
  case (trapped handler trap s1)
  then show ?thesis by (elim call_bool own_read) (auto split: if_splits intro: set_final)
qed blast

lemma has_consistent:
  assumes "inv s" "m_target px = Some t" "proxyHasProperty E px P s = Some (Inr b, s')"
  shows "(\<exists>s1. inv s1 \<and> vHasProperty (e_methods E t) P s1 = Some (Inr b, s')) \<or>
    inv s' \<and> (b \<or> own s' = None \<or> (\<exists>p. own s' = Some p \<and> propConfigurable p) \<and> ext s')"
  using assms(1,2) assms(3) [unfolded proxyHasProperty_def]
proof (cases rule: withTrap_cases)
  case (trapped handler trap s1)
  then show ?thesis by (elim call_bool_true own_read) (auto split: if_splits simp: ext_read dest: prop_reads(1,2))
qed blast

lemma isExtensible_consistent:
  assumes "inv s" "m_target px = Some t" "proxyIsExtensible E px s = Some (Inr b, s')"
  shows "inv s' \<and> b = ext s'"
  using assms(1,2) assms(3) [unfolded proxyIsExtensible_def]
proof (cases rule: withTrap_cases)
  case (direct s1)
  then show ?thesis using ext_ok [OF direct(1)] by auto
next
  case (trapped handler trap s1)
  then show ?thesis by (elim call_read) (auto simp: ext_read split: if_splits)
qed

lemma preventExtensions_consistent:
  assumes "inv s" "m_target px = Some t" "proxyPreventExtensions E px s = Some (Inr b, s')"
  shows "(\<exists>s1. inv s1 \<and> vPreventExtensions (e_methods E t) s1 = Some (Inr b, s')) \<or> inv s' \<and> (b \<longrightarrow> \<not> ext s')"
  using assms(1,2) assms(3) [unfolded proxyPreventExtensions_def]
proof (cases rule: withTrap_cases)
  case (trapped handler trap s1)
  then show ?thesis by (elim call_read) (auto simp: ext_read split: if_splits)
qed blast

lemma getPrototype_consistent:
  assumes "inv s" "m_target px = Some t" "proxyGetPrototype E px s = Some (Inr v, s')"
  shows "inv s' \<and> (v = proto s' \<or> (isObjectValue E v \<or> v = Null) \<and> (ext s' \<or> sameBits v (proto s')))"
  using assms(1,2) assms(3) [unfolded proxyGetPrototype_def]
proof (cases rule: withTrap_cases)
  case (direct s1)
  then show ?thesis using proto_ok [OF direct(1)] by auto
next
  case (trapped handler trap s1)
  then show ?thesis by (elim call_read) (auto simp: ext_read proto_read split: if_splits)
qed

lemma setPrototype_consistent:
  assumes "inv s" "m_target px = Some t" "proxySetPrototype E px v s = Some (Inr b, s')"
  shows "(\<exists>s1. inv s1 \<and> vSetPrototype (e_methods E t) v s1 = Some (Inr b, s')) \<or> inv s' \<and> (b \<longrightarrow> ext s' \<or> sameBits v (proto s'))"
  using assms(1,2) assms(3) [unfolded proxySetPrototype_def]
proof (cases rule: withTrap_cases)
  case (trapped handler trap s1)
  then show ?thesis by (elim call_read) (auto simp: ext_read proto_read split: if_splits)
qed blast

text \<open>A definition is accepted when it is one that the target could have accepted.\<close>

lemma define_consistent:
  assumes "inv s" "m_target px = Some t" "proxyDefineOwnProperty E px P desc s = Some (Inr b, s')" "desc_ok desc"
  shows "(\<exists>s1. inv s1 \<and> untrapped E px ''defineProperty'' s s1 \<and> vDefineOwnProperty (e_methods E t) P desc s1 = Some (Inr b, s')) \<or>
    (\<exists>r s1. trapAnswers E px ''defineProperty'' (bindJ (e_fromDescriptor E desc) (\<lambda>obj. retJ [PointerValue t, e_keyValue E P, obj])) s r s1 \<and> b = toBoolean r) \<and>
    (b \<longrightarrow> validateAndApply (ext s') (descOf desc) (own s') \<noteq> None \<and>
      (pd_configurable (descOf desc) = Some False \<longrightarrow> (\<exists>p. own s' = Some p \<and> \<not> propConfigurable p)) \<and>
      (pd_writable (descOf desc) = Some False \<longrightarrow> (\<forall>v en. own s' \<noteq> Some (DataProp v True en False))))"
  using assms(1,2) assms(3) [unfolded proxyDefineOwnProperty_def]
proof (cases rule: withTrap_cases)
  case (trapped handler trap s1)
  let ?k = "\<lambda>r. if \<not> toBoolean r then retJ False
         else bindJ (vGetOwnProperty (e_methods E t) P) (\<lambda>targetDesc.
         bindJ (vIsExtensible (e_methods E t)) (\<lambda>extensibleTarget.
           if definitionAllowed (pureValue E (PointerValue t)) extensibleTarget desc targetDesc then retJ True else throwTypeError))"
  from trapped(2) obtain obj s2 where o: "e_fromDescriptor E desc s1 = Some (Inr obj, s2)"
    "bindJ (callJ E trap (PointerValue handler) [PointerValue t, e_keyValue E P, obj]) ?k s2 = Some (Inr b, s')" by (rule bindJ_Inr)
  from o(2) keepsJ_D [OF alloc_keeps trapped(1) o(1)] obtain r s3 where r: "?k r s3 = Some (Inr b, s')" "inv s3"
    "callJ E trap (PointerValue handler) [PointerValue t, e_keyValue E P, obj] s2 = Some (Inr r, s3)" by (rule call_read)
  have "trapAnswers E px ''defineProperty'' (bindJ (e_fromDescriptor E desc) (\<lambda>obj. retJ [PointerValue t, e_keyValue E P, obj])) s r s3"
    using trapped o(1) r(3) by (auto simp: trapAnswers_def bindJ_def)
  moreover have "b = toBoolean r" using r(1) by (auto split: if_splits elim!: bindJ_Inr)
  moreover have "validateAndApply (ext s') (descOf desc) (own s') \<noteq> None \<and>
      (pd_configurable (descOf desc) = Some False \<longrightarrow> (\<exists>p. own s' = Some p \<and> \<not> propConfigurable p)) \<and>
      (pd_writable (descOf desc) = Some False \<longrightarrow> (\<forall>v en. own s' \<noteq> Some (DataProp v True en False)))" if b
  proof -
    have "bindJ (vGetOwnProperty (e_methods E t) P) (\<lambda>targetDesc. bindJ (vIsExtensible (e_methods E t)) (\<lambda>extensibleTarget.
        if definitionAllowed (pureValue E (PointerValue t)) extensibleTarget desc targetDesc then retJ True else throwTypeError)) s3 = Some (Inr b, s')"
      using r(1) that by (auto split: if_splits)
    then show ?thesis using r(2) by (elim own_read) (auto simp: ext_read definitionAllowed_iff [OF assms(4)] split: if_splits)
  qed
  ultimately show ?thesis by blast
qed blast

lemma undefined_reads:
  assumes "bindJ (valueJ E rc g) (\<lambda>v. if v = Undefined then retJ y else if \<not> resultConfigurable g then throwTypeError
      else bindJ (vIsExtensible (e_methods E t)) (\<lambda>e. if \<not> e then throwTypeError else retJ y)) s = Some (Inr r, s')" and "inv s"
  obtains v where "r = y" "inv s'" "valueJ E rc g s = Some (Inr v, s')" "v = Undefined \<or> resultConfigurable g \<and> ext s'"
proof -
  from assms(1) obtain v s1 where v: "valueJ E rc g s = Some (Inr v, s1)" and k: "(if v = Undefined then retJ y else if \<not> resultConfigurable g then throwTypeError
      else bindJ (vIsExtensible (e_methods E t)) (\<lambda>e. if \<not> e then throwTypeError else retJ y)) s1 = Some (Inr r, s')" by (rule bindJ_Inr)
  then have s1: "inv s1" using valueJ_inv [OF assms(2)] by blast
  have "s' = s1" "r = y" "v = Undefined \<or> resultConfigurable g \<and> ext s1" using k by (auto simp: ext_read [OF s1] split: if_splits)
  then show ?thesis using that v s1 by blast
qed

lemma hidden_run:
  assumes "bindJ (vGetOwnProperty (e_methods E t) P) (\<lambda>targetDesc. bindJ (valueJ E (PointerValue t) targetDesc) (\<lambda>v.
      if v = Undefined then retJ y else if \<not> resultConfigurable targetDesc then throwTypeError
      else bindJ (vIsExtensible (e_methods E t)) (\<lambda>extensible. if \<not> extensible then throwTypeError else retJ y))) s = Some (Inr r, s')" and "inv s"
  shows "r = y \<and> (\<exists>d s1. vGetOwnProperty (e_methods E t) P s = Some (Inr d, s1) \<and> hidden_allowed E t (own s) (ext s') s1 s')"
proof (rule own_read [OF assms], elim undefined_reads)
  fix d s1 v
  assume "resultProp (pureValue E (PointerValue t)) d = own s1" "own s1 = own s" "valueJ E (PointerValue t) d s1 = Some (Inr v, s')"
    "v = Undefined \<or> resultConfigurable d \<and> ext s'"
  then have "hidden_allowed E t (own s) (ext s') s1 s'" using hidden_allowedI by metis
  moreover assume "vGetOwnProperty (e_methods E t) P s = Some (Inr d, s1)" "r = y"
  ultimately show ?thesis by blast
qed

text \<open>A property is deleted only if the trap says so and the target, asked right after the trap, may lose it.\<close>

lemma delete_consistent:
  assumes "inv s" "m_target px = Some t" "proxyDeleteOwnProperty E px P s = Some (Inr b, s')"
  shows "(\<exists>s1. inv s1 \<and> untrapped E px ''deleteProperty'' s s1 \<and> vDeleteOwnProperty (e_methods E t) P s1 = Some (Inr b, s')) \<or>
    (\<exists>r s1. inv s1 \<and> trapAnswers E px ''deleteProperty'' (retJ [PointerValue t, e_keyValue E P]) s r s1 \<and> b = toBoolean r \<and>
      (b \<longrightarrow> (\<exists>d s2. vGetOwnProperty (e_methods E t) P s1 = Some (Inr d, s2) \<and> hidden_allowed E t (own s1) (ext s') s2 s')))"
  using assms(1,2) assms(3) [unfolded proxyDeleteOwnProperty_def]
proof (cases rule: withTrap_cases)
  case (trapped handler trap s1)
  from trapped(2,1) obtain r s2 where r: "(if \<not> toBoolean r then retJ False
         else bindJ (vGetOwnProperty (e_methods E t) P) (\<lambda>targetDesc.
         bindJ (valueJ E (PointerValue t) targetDesc) (\<lambda>v.
           if v = Undefined then retJ True
           else if \<not> resultConfigurable targetDesc then throwTypeError
           else bindJ (vIsExtensible (e_methods E t)) (\<lambda>extensible. if \<not> extensible then throwTypeError else retJ True)))) s2 = Some (Inr b, s')"
    "inv s2" "callJ E trap (PointerValue handler) [PointerValue t, e_keyValue E P] s1 = Some (Inr r, s2)" by (rule call_read)
  have "b = toBoolean r \<and> (b \<longrightarrow> (\<exists>d s3. vGetOwnProperty (e_methods E t) P s2 = Some (Inr d, s3) \<and> hidden_allowed E t (own s2) (ext s') s3 s'))"
  proof (cases "toBoolean r")
    case True
    then have "\<not> \<not> toBoolean r" by simp
    from hidden_run [OF r(1) [unfolded if_not_P [OF this]] r(2)] show ?thesis using True by blast
  qed (use r(1) in simp)
  then show ?thesis using r(2) trapAnswersI [OF trapped(3-5) r(3)] by blast
qed blast

text \<open>A reported property is the completed descriptor that the trap's object stands for; it is one that the target, asked right after the trap,
  could have, and a property that is not configurable is one the target has.\<close>

lemma getOwn_consistent:
  assumes "inv s" "m_target px = Some t" "proxyGetOwnProperty E px P s = Some (Inr g, s')"
  shows "(\<exists>s1. inv s1 \<and> untrapped E px ''getOwnPropertyDescriptor'' s s1 \<and> vGetOwnProperty (e_methods E t) P s1 = Some (Inr g, s')) \<or>
    (\<exists>r s1 d s2. inv s1 \<and> trapAnswers E px ''getOwnPropertyDescriptor'' (retJ [PointerValue t, e_keyValue E P]) s r s1 \<and>
      vGetOwnProperty (e_methods E t) P s1 = Some (Inr d, s2) \<and>
      (r = Undefined \<and> g = NoResult \<and> hidden_allowed E t (own s1) (ext s') s2 s' \<or>
       (\<exists>obj e. r = PointerValue obj \<and> e_isObject E obj \<and> toPropertyDescriptor E obj s2 = Some (Inr e, s') \<and>
          g = descResult (completePropertyDescriptor e) \<and> report_allowed g (own s1) (ext s'))))"
  using assms(1,2) assms(3) [unfolded proxyGetOwnProperty_def]
proof (cases rule: withTrap_cases)
  case (trapped handler trap s1)
  let ?hide = "\<lambda>targetDesc. bindJ (valueJ E (PointerValue t) targetDesc) (\<lambda>v. if v = Undefined then retJ NoResult
      else if \<not> resultConfigurable targetDesc then throwTypeError
      else bindJ (vIsExtensible (e_methods E t)) (\<lambda>extensible. if \<not> extensible then throwTypeError else retJ NoResult))"
  let ?show = "\<lambda>obj targetDesc. bindJ (toPropertyDescriptor E obj) (\<lambda>d. bindJ (vIsExtensible (e_methods E t)) (\<lambda>extensible.
      if \<not> descriptorAllowed (pureValue E (PointerValue t)) extensible (completePropertyDescriptor d) targetDesc then throwTypeError
      else retJ (descResult (completePropertyDescriptor d))))"
  obtain r s2 where k: "(if \<not> isObjectValue E r \<and> r \<noteq> Undefined then throwTypeError
      else bindJ (vGetOwnProperty (e_methods E t) P) (\<lambda>targetDesc. case r of PointerValue obj \<Rightarrow> ?show obj targetDesc | _ \<Rightarrow> ?hide targetDesc)) s2 = Some (Inr g, s')"
    and s2: "inv s2" and c: "callJ E trap (PointerValue handler) [PointerValue t, e_keyValue E P] s1 = Some (Inr r, s2)"
    by (rule call_read [OF trapped(2,1) [unfolded Let_def]])
  note a = trapAnswersI [OF trapped(3-5) c]
  have r: "isObjectValue E r \<or> r = Undefined" using k by (auto split: if_splits)
  show ?thesis
  proof (cases "r = Undefined")
    case True
    then have "bindJ (vGetOwnProperty (e_methods E t) P) ?hide s2 = Some (Inr g, s')" using k by simp
    from hidden_run [OF this s2] show ?thesis using True a s2 by blast
  next
    case False
    then obtain obj where obj: "r = PointerValue obj" "e_isObject E obj" using r by (cases r) auto
    have "bindJ (vGetOwnProperty (e_methods E t) P) (?show obj) s2 = Some (Inr g, s')" using k obj by simp
    then show ?thesis using s2
    proof (rule own_read)
      fix d s3
      assume k3: "?show obj d s3 = Some (Inr g, s')"
        and d: "inv s3" "resultProp (pureValue E (PointerValue t)) d = own s3" "result_ok d" "own s3 = own s2" "vGetOwnProperty (e_methods E t) P s2 = Some (Inr d, s3)"
      from k3 obtain e s4 where e: "toPropertyDescriptor E obj s3 = Some (Inr e, s4)"
        and k4: "bindJ (vIsExtensible (e_methods E t)) (\<lambda>extensible.
            if \<not> descriptorAllowed (pureValue E (PointerValue t)) extensible (completePropertyDescriptor e) d then throwTypeError
            else retJ (descResult (completePropertyDescriptor e))) s4 = Some (Inr g, s')" by (rule bindJ_Inr)
      have s4: "inv s4" using keepsJ_D [OF toPropertyDescriptor_keeps d(1) e] .
      then have g: "descriptorAllowed (pureValue E (PointerValue t)) (ext s4) (completePropertyDescriptor e) d" "g = descResult (completePropertyDescriptor e)" "s' = s4"
        using k4 by (auto simp: ext_read split: if_splits)
      have "report_allowed g (own s2) (ext s4)" using report_allowedI [OF toPropertyDescriptor_ok [OF e] g(1) d(3)] d(2,4) g(2) by simp
      then show ?thesis using d(5) e s2 g obj a by blast
    qed
  qed
qed blast

end

end
