(* ===== verification/MergeSort.thy ===== *)
theory MergeSort
  imports ProxyContract "HOL-Library.Sorting_Algorithms"
begin

text \<open>
  The merge sort of \<open>src/util/Util.h\<close>, which \<open>Array.prototype.sort\<close> and the sorts of typed arrays call with comparators that may run
  scripts. Arrays are lists with checked accesses: \<open>None\<close> stands for an access outside of an array. A comparator is a computation; it
  throws, or reports failure (\<open>None\<close>), or answers.
\<close>

section \<open>The algorithm\<close>

type_synonym ('s, 'a) comparatorJ = "'a \<Rightarrow> 'a \<Rightarrow> ('s, bool option) js"

definition copyElement :: "'a list \<Rightarrow> nat \<Rightarrow> 'a list \<Rightarrow> nat \<Rightarrow> 'a list option" where
  "copyElement src i dst j = (if i < length src \<and> j < length dst then Some (dst[j := src ! i]) else None)"

text \<open>The loop of \<open>detail::merge\<close>\<close>

function mergeLoop :: "('s, 'a) comparatorJ \<Rightarrow> 'a list \<Rightarrow> nat \<Rightarrow> nat \<Rightarrow> nat \<Rightarrow> nat \<Rightarrow> nat \<Rightarrow> 'a list \<Rightarrow> ('s, 'a list option) js" where
  "mergeLoop c src leftEnd rightEnd left right dstIndex dst s =
     (if dstIndex < rightEnd
      then let takeRight = (\<lambda>s. case copyElement src right dst dstIndex of
                 None \<Rightarrow> None | Some dst' \<Rightarrow> mergeLoop c src leftEnd rightEnd left (right + 1) (dstIndex + 1) dst' s);
               takeLeft = (\<lambda>s. case copyElement src left dst dstIndex of
                 None \<Rightarrow> None | Some dst' \<Rightarrow> mergeLoop c src leftEnd rightEnd (left + 1) right (dstIndex + 1) dst' s)
           in if right < rightEnd
              then if leftEnd \<le> left then takeRight s
                   else if length src \<le> right \<or> length src \<le> left then None
                   else case c (src ! right) (src ! left) s of
                       None \<Rightarrow> None
                     | Some (Inl e, s') \<Rightarrow> Some (Inl e, s')
                     | Some (Inr None, s') \<Rightarrow> Some (Inr None, s')
                     | Some (Inr (Some lessOrEqual), s') \<Rightarrow> if lessOrEqual then takeRight s' else takeLeft s'
              else takeLeft s
      else Some (Inr (Some dst), s))"
  by pat_completeness auto

termination by (relation "measure (\<lambda>(c, src, leftEnd, rightEnd, left, right, dstIndex, dst, s). rightEnd - dstIndex)") auto

declare mergeLoop.simps [simp del]

definition merge :: "('s, 'a) comparatorJ \<Rightarrow> 'a list \<Rightarrow> 'a list \<Rightarrow> nat \<Rightarrow> nat \<Rightarrow> nat \<Rightarrow> ('s, 'a list option) js" where
  "merge c dst src srcIndex srcEnd width =
     (let left = srcIndex; leftEnd = min (left + width) srcEnd; right = leftEnd; rightEnd = min (right + width) srcEnd
      in mergeLoop c src leftEnd rightEnd left right left dst)"

text \<open>The two loops of \<open>mergeSort\<close>; \<open>srcIsArray\<close> says which of the two buffers is the array.\<close>

partial_function (option) passLoop :: "('s, 'a) comparatorJ \<Rightarrow> nat \<Rightarrow> nat \<Rightarrow> 'a list \<Rightarrow> nat \<Rightarrow> 'a list \<Rightarrow> ('s, 'a list option) js" where
  "passLoop c nelems width src srcIndex dst s =
     (if srcIndex < nelems
      then case merge c dst src srcIndex nelems width s of
          None \<Rightarrow> None
        | Some (Inl e, s') \<Rightarrow> Some (Inl e, s')
        | Some (Inr None, s') \<Rightarrow> Some (Inr None, s')
        | Some (Inr (Some dst'), s') \<Rightarrow> passLoop c nelems width src (srcIndex + 2 * width) dst' s'
      else Some (Inr (Some dst), s))"

partial_function (option) widthLoop :: "('s, 'a) comparatorJ \<Rightarrow> nat \<Rightarrow> nat \<Rightarrow> bool \<Rightarrow> 'a list \<Rightarrow> 'a list \<Rightarrow> ('s, (bool \<times> 'a list \<times> 'a list) option) js" where
  "widthLoop c nelems width srcIsArray src dst s =
     (if width < nelems
      then case passLoop c nelems width src 0 dst s of
          None \<Rightarrow> None
        | Some (Inl e, s') \<Rightarrow> Some (Inl e, s')
        | Some (Inr None, s') \<Rightarrow> Some (Inr None, s')
        | Some (Inr (Some dst'), s') \<Rightarrow> widthLoop c nelems (width * 2) (\<not> srcIsArray) dst' src s'
      else Some (Inr (Some (srcIsArray, src, dst)), s))"

fun copyElements :: "'a list \<Rightarrow> nat \<Rightarrow> nat \<Rightarrow> 'a list \<Rightarrow> 'a list option" where
  "copyElements src i 0 array = Some array"
| "copyElements src i (Suc n) array = Option.bind (copyElement src i array i) (copyElements src (i + 1) n)"

definition mergeSort :: "('s, 'a) comparatorJ \<Rightarrow> 'a list \<Rightarrow> nat \<Rightarrow> 'a list \<Rightarrow> ('s, 'a list option) js" where
  "mergeSort c array nelems scratch s =
     (case widthLoop c nelems 1 True array scratch s of
        None \<Rightarrow> None
      | Some (Inl e, s') \<Rightarrow> Some (Inl e, s')
      | Some (Inr None, s') \<Rightarrow> Some (Inr None, s')
      | Some (Inr (Some (srcIsArray, src, dst)), s') \<Rightarrow>
          if srcIsArray then Some (Inr (Some src), s')
          else map_option (\<lambda>array'. (Inr (Some array'), s')) (copyElements src 0 nelems dst))"

section \<open>Merging lists\<close>

text \<open>What merging gives when the comparator may answer \<open>C\<close>: the next element is the right one if it is less than the left one.\<close>

inductive merges :: "('a \<Rightarrow> 'a \<Rightarrow> bool \<Rightarrow> bool) \<Rightarrow> 'a list \<Rightarrow> 'a list \<Rightarrow> 'a list \<Rightarrow> bool" for C where
  left_ends: "merges C [] ys ys"
| right_ends: "merges C xs [] xs"
| right: "C y x True \<Longrightarrow> merges C (x # xs) ys zs \<Longrightarrow> merges C (x # xs) (y # ys) (y # zs)"
| left: "C y x False \<Longrightarrow> merges C xs (y # ys) zs \<Longrightarrow> merges C (x # xs) (y # ys) (x # zs)"

lemma merges_mset: "merges C xs ys zs \<Longrightarrow> mset zs = mset xs + mset ys"
  by (induction rule: merges.induct) auto

lemma merges_length: "merges C xs ys zs \<Longrightarrow> length zs = length xs + length ys"
  by (induction rule: merges.induct) auto

lemma merges_left_Nil [simp]: "merges C [] ys zs \<longleftrightarrow> zs = ys"
  by (auto intro: merges.intros elim: merges.cases)

lemma merges_right_Nil [simp]: "merges C xs [] zs \<longleftrightarrow> zs = xs"
  by (auto intro: merges.intros elim: merges.cases)

text \<open>One pass over a list, in pieces of twice the width\<close>

inductive passes :: "('a \<Rightarrow> 'a \<Rightarrow> bool \<Rightarrow> bool) \<Rightarrow> nat \<Rightarrow> 'a list \<Rightarrow> 'a list \<Rightarrow> bool" for C w where
  finished: "passes C w [] []"
| piece: "xs \<noteq> [] \<Longrightarrow> merges C (take w xs) (take w (drop w xs)) zs \<Longrightarrow> passes C w (drop (2 * w) xs) rest \<Longrightarrow> passes C w xs (zs @ rest)"

lemma take_twice: "take w xs @ take w (drop w xs) @ drop (2 * w) xs = xs"
  using append_take_drop_id [of w "drop w xs"] by (simp add: mult_2 add.commute)

lemma passes_mset: "passes C w xs ys \<Longrightarrow> mset ys = mset xs"
proof (induction rule: passes.induct)
  case (piece xs zs rest)
  have "mset xs = mset (take w xs) + mset (take w (drop w xs)) + mset (drop (2 * w) xs)"
    by (subst take_twice [of w xs, symmetric]) (simp only: mset_append add.assoc)
  then show ?case using piece merges_mset by fastforce
qed simp

lemma passes_length: "passes C w xs ys \<Longrightarrow> length ys = length xs"
  using passes_mset mset_eq_length by blast

section \<open>The loops\<close>

text \<open>The outcomes of a computation that ends in \<open>I\<close>: a result in \<open>Q\<close>, or a failure or a thrown value in \<open>X\<close>\<close>

definition endsIn :: "('s \<Rightarrow> bool) \<Rightarrow> (Thrown option \<Rightarrow> bool) \<Rightarrow> ('a \<Rightarrow> bool) \<Rightarrow> ((Thrown + 'a option) \<times> 's) option \<Rightarrow> bool" where
  "endsIn I X Q r \<longleftrightarrow> (\<exists>x s'. r = Some (x, s') \<and> I s' \<and> (case x of Inl e \<Rightarrow> X (Some e) | Inr None \<Rightarrow> X None | Inr (Some v) \<Rightarrow> Q v))"

lemma endsIn_simps [simp]:
  "endsIn I X Q (Some (Inl e, s)) \<longleftrightarrow> I s \<and> X (Some e)" "endsIn I X Q (Some (Inr None, s)) \<longleftrightarrow> I s \<and> X None"
  "endsIn I X Q (Some (Inr (Some v), s)) \<longleftrightarrow> I s \<and> Q v"
  by (auto simp: endsIn_def)

text \<open>A comparator that ends on the elements \<open>A\<close>, keeps \<open>I\<close>, and answers within \<open>C\<close>\<close>

definition compares :: "('s \<Rightarrow> bool) \<Rightarrow> (Thrown option \<Rightarrow> bool) \<Rightarrow> 'a set \<Rightarrow> ('a \<Rightarrow> 'a \<Rightarrow> bool \<Rightarrow> bool) \<Rightarrow> ('s, 'a) comparatorJ \<Rightarrow> bool" where
  "compares I X A C c \<longleftrightarrow> (\<forall>a \<in> A. \<forall>b \<in> A. \<forall>s. I s \<longrightarrow> endsIn I X (C a b) (c a b s))"

lemma endsIn_cases:
  assumes "endsIn I X Q m"
  obtains e s where "m = Some (Inl e, s)" "I s" "X (Some e)" | s where "m = Some (Inr None, s)" "I s" "X None" | v s where "m = Some (Inr (Some v), s)" "I s" "Q v"
proof -
  from assms obtain x s where x: "m = Some (x, s)" "I s" "case x of Inl e \<Rightarrow> X (Some e) | Inr None \<Rightarrow> X None | Inr (Some v) \<Rightarrow> Q v" unfolding endsIn_def by blast
  show ?thesis
  proof (cases x)
    case (Inr y)
    then show ?thesis using that x by (cases y) auto
  qed (use that x in auto)
qed

lemma endsIn_mono: "endsIn I X Q r \<Longrightarrow> (\<And>v. Q v \<Longrightarrow> R v) \<Longrightarrow> endsIn I X R r"
  by (elim endsIn_cases) simp_all

lemma endsIn_bind:
  assumes "endsIn I X Q m" "\<And>v s. I s \<Longrightarrow> Q v \<Longrightarrow> endsIn I X R (k v s)"
  shows "endsIn I X R (case m of None \<Rightarrow> None | Some (Inl e, s) \<Rightarrow> Some (Inl e, s) | Some (Inr None, s) \<Rightarrow> Some (Inr None, s) | Some (Inr (Some v), s) \<Rightarrow> k v s)"
  using assms(1) by (rule endsIn_cases) (simp_all add: assms(2))

lemma compares_ends: "compares I X A C c \<Longrightarrow> a \<in> A \<Longrightarrow> b \<in> A \<Longrightarrow> I s \<Longrightarrow> endsIn I X (C a b) (c a b s)"
  by (simp add: compares_def)

definition segment :: "nat \<Rightarrow> nat \<Rightarrow> 'a list \<Rightarrow> 'a list" where
  "segment i j xs = take (j - i) (drop i xs)"

lemma segment_empty [simp]: "j \<le> i \<Longrightarrow> segment i j xs = []"
  by (simp add: segment_def)

lemma segment_Cons: "i < j \<Longrightarrow> j \<le> length xs \<Longrightarrow> segment i j xs = xs ! i # segment (Suc i) j xs"
  by (simp add: segment_def Suc_diff_Suc [symmetric] Cons_nth_drop_Suc [symmetric] del: drop_Suc)

text \<open>Copying one element and going on\<close>

lemma copy_then:
  assumes "i < length src" "j < rightEnd" "rightEnd \<le> length dst"
    and "endsIn I X (\<lambda>d. \<exists>zs. M zs \<and> d = take (j + 1) (dst[j := src ! i]) @ zs @ drop rightEnd (dst[j := src ! i])) (k (dst[j := src ! i]))"
    and "\<And>zs. M zs \<Longrightarrow> M' (src ! i # zs)"
  shows "endsIn I X (\<lambda>d. \<exists>zs. M' zs \<and> d = take j dst @ zs @ drop rightEnd dst) (case copyElement src i dst j of None \<Rightarrow> None | Some dst' \<Rightarrow> k dst')"
proof -
  have c: "copyElement src i dst j = Some (dst[j := src ! i])" using assms by (simp add: copyElement_def)
  have put: "take (j + 1) (dst[j := src ! i]) @ zs @ drop rightEnd (dst[j := src ! i]) = take j dst @ (src ! i # zs) @ drop rightEnd dst" for zs
    using assms(2,3) by (simp add: take_Suc_conv_app_nth)
  show ?thesis unfolding c option.case using assms(4) put assms(5) by (elim endsIn_mono) blast
qed

lemma mergeLoop_ends:
  assumes "compares I X (set src) C c" "I s" "left \<le> leftEnd" "leftEnd \<le> right" "right \<le> rightEnd" "rightEnd \<le> length src" "length dst = length src"
    and "dstIndex + leftEnd = left + right"
  shows "endsIn I X (\<lambda>d. \<exists>zs. merges C (segment left leftEnd src) (segment right rightEnd src) zs \<and> d = take dstIndex dst @ zs @ drop rightEnd dst)
    (mergeLoop c src leftEnd rightEnd left right dstIndex dst s)"
  using assms
proof (induction c src leftEnd rightEnd left right dstIndex dst s rule: mergeLoop.induct)
  case (1 c src leftEnd rightEnd left right dstIndex dst s)
  note p = "1.prems"
  let ?goal = "\<lambda>d. \<exists>zs. merges C (segment left leftEnd src) (segment right rightEnd src) zs \<and> d = take dstIndex dst @ zs @ drop rightEnd dst"
  let ?R = "\<lambda>s. case copyElement src right dst dstIndex of None \<Rightarrow> None | Some dst' \<Rightarrow> mergeLoop c src leftEnd rightEnd left (right + 1) (dstIndex + 1) dst' s"
  let ?L = "\<lambda>s. case copyElement src left dst dstIndex of None \<Rightarrow> None | Some dst' \<Rightarrow> mergeLoop c src leftEnd rightEnd (left + 1) right (dstIndex + 1) dst' s"
  show ?case
  proof (cases "dstIndex < rightEnd")
    case False
    then have e: "left = leftEnd" "right = rightEnd" "dstIndex = rightEnd" using p by linarith+
    have "mergeLoop c src leftEnd rightEnd left right dstIndex dst s = Some (Inr (Some dst), s)" using False by (subst mergeLoop.simps) simp
    then show ?thesis using p(2) unfolding e by simp
  next
    case True
    have R: "endsIn I X ?goal (?R s')" if "right < rightEnd" "left < leftEnd \<Longrightarrow> C (src ! right) (src ! left) True"
      and "\<And>dst'. copyElement src right dst dstIndex = Some dst' \<Longrightarrow> length dst' = length src \<Longrightarrow>
        endsIn I X (\<lambda>d. \<exists>zs. merges C (segment left leftEnd src) (segment (right + 1) rightEnd src) zs \<and> d = take (dstIndex + 1) dst' @ zs @ drop rightEnd dst')
          (mergeLoop c src leftEnd rightEnd left (right + 1) (dstIndex + 1) dst' s')" for s'
    proof (rule copy_then [where M = "merges C (segment left leftEnd src) (segment (right + 1) rightEnd src)"])
      show "endsIn I X (\<lambda>d. \<exists>zs. merges C (segment left leftEnd src) (segment (right + 1) rightEnd src) zs \<and>
            d = take (dstIndex + 1) (dst[dstIndex := src ! right]) @ zs @ drop rightEnd (dst[dstIndex := src ! right]))
          (mergeLoop c src leftEnd rightEnd left (right + 1) (dstIndex + 1) (dst[dstIndex := src ! right]) s')"
        by (rule that(3)) (use True p that(1) in \<open>simp_all add: copyElement_def\<close>)
      show "merges C (segment left leftEnd src) (segment right rightEnd src) (src ! right # zs)" if "merges C (segment left leftEnd src) (segment (right + 1) rightEnd src) zs" for zs
        using that \<open>right < rightEnd\<close> \<open>left < leftEnd \<Longrightarrow> C (src ! right) (src ! left) True\<close> p merges.right
        by (cases "left < leftEnd") (simp_all add: segment_Cons)
    qed (use True p that(1) in simp_all)
    have L: "endsIn I X ?goal (?L s')" if "left < leftEnd" "right < rightEnd \<Longrightarrow> C (src ! right) (src ! left) False"
      and "\<And>dst'. copyElement src left dst dstIndex = Some dst' \<Longrightarrow> length dst' = length src \<Longrightarrow>
        endsIn I X (\<lambda>d. \<exists>zs. merges C (segment (left + 1) leftEnd src) (segment right rightEnd src) zs \<and> d = take (dstIndex + 1) dst' @ zs @ drop rightEnd dst')
          (mergeLoop c src leftEnd rightEnd (left + 1) right (dstIndex + 1) dst' s')" for s'
    proof (rule copy_then [where M = "merges C (segment (left + 1) leftEnd src) (segment right rightEnd src)"])
      show "endsIn I X (\<lambda>d. \<exists>zs. merges C (segment (left + 1) leftEnd src) (segment right rightEnd src) zs \<and>
            d = take (dstIndex + 1) (dst[dstIndex := src ! left]) @ zs @ drop rightEnd (dst[dstIndex := src ! left]))
          (mergeLoop c src leftEnd rightEnd (left + 1) right (dstIndex + 1) (dst[dstIndex := src ! left]) s')"
        by (rule that(3)) (use True p that(1) in \<open>simp_all add: copyElement_def\<close>)
      show "merges C (segment left leftEnd src) (segment right rightEnd src) (src ! left # zs)" if "merges C (segment (left + 1) leftEnd src) (segment right rightEnd src) zs" for zs
        using that \<open>left < leftEnd\<close> \<open>right < rightEnd \<Longrightarrow> C (src ! right) (src ! left) False\<close> p merges.left
        by (cases "right < rightEnd") (simp_all add: segment_Cons)
    qed (use True p that(1) in simp_all)
    consider "right < rightEnd" "leftEnd \<le> left" | "right < rightEnd" "left < leftEnd" | "rightEnd \<le> right" by linarith
    then show ?thesis
    proof cases
      case 1
      have "mergeLoop c src leftEnd rightEnd left right dstIndex dst s = ?R s" using True 1 by (subst mergeLoop.simps) simp
      moreover have "endsIn I X ?goal (?R s)" by (rule R) (use 1 True p "1.IH"(1) in simp_all)
      ultimately show ?thesis by simp
    next
      case 2
      have b: "right < length src" "left < length src" using 2 p by simp_all
      have e: "mergeLoop c src leftEnd rightEnd left right dstIndex dst s = (case c (src ! right) (src ! left) s of None \<Rightarrow> None
          | Some (Inl e, s') \<Rightarrow> Some (Inl e, s') | Some (Inr None, s') \<Rightarrow> Some (Inr None, s') | Some (Inr (Some v), s') \<Rightarrow> if v then ?R s' else ?L s')"
        using True 2 b by (subst mergeLoop.simps) simp
      have "endsIn I X (C (src ! right) (src ! left)) (c (src ! right) (src ! left) s)" using compares_ends [OF p(1)] b p(2) by simp
      then show ?thesis unfolding e
      proof (rule endsIn_cases)
        fix v s'
        assume v: "c (src ! right) (src ! left) s = Some (Inr (Some v), s')" "I s'" "C (src ! right) (src ! left) v"
        have "endsIn I X ?goal (?R s')" if v by (rule R) (use that v 2 True p b "1.IH"(1) in simp_all)
        moreover have "endsIn I X ?goal (?L s')" if "\<not> v" by (rule L) (use that v 2 True p b "1.IH"(2) in simp_all)
        ultimately show "endsIn I X ?goal (case c (src ! right) (src ! left) s of None \<Rightarrow> None
          | Some (Inl e, s') \<Rightarrow> Some (Inl e, s') | Some (Inr None, s') \<Rightarrow> Some (Inr None, s') | Some (Inr (Some v), s') \<Rightarrow> if v then ?R s' else ?L s')"
          using v(1) by simp
      qed simp_all
    next
      case 3
      have "mergeLoop c src leftEnd rightEnd left right dstIndex dst s = ?L s" using True 3 by (subst mergeLoop.simps) simp
      moreover have "endsIn I X ?goal (?L s)" by (rule L) (use 3 True p "1.IH"(2) in simp_all)
      ultimately show ?thesis by simp
    qed
  qed
qed

lemma merge_ends:
  assumes c: "compares I X (set src) C c" and s: "I s" and n: "srcIndex < length src" "length dst = length src"
  shows "endsIn I X (\<lambda>d. \<exists>zs. merges C (take w (drop srcIndex src)) (take w (drop (srcIndex + w) src)) zs \<and> d = take srcIndex dst @ zs @ drop (srcIndex + 2 * w) dst)
    (merge c dst src srcIndex (length src) w s)"
proof -
  let ?l = "min (srcIndex + w) (length src)"
  let ?r = "min (?l + w) (length src)"
  have seg: "segment srcIndex ?l src = take w (drop srcIndex src)" "segment ?l ?r src = take w (drop (srcIndex + w) src)"
    using n by (cases "srcIndex + w \<le> length src"; auto simp: segment_def min_def)+
  have d: "drop ?r dst = drop (srcIndex + 2 * w) dst" using n by (cases "srcIndex + 2 * w \<le> length src") (auto simp: min_def mult_2 add.assoc)
  have "endsIn I X (\<lambda>d. \<exists>zs. merges C (segment srcIndex ?l src) (segment ?l ?r src) zs \<and> d = take srcIndex dst @ zs @ drop ?r dst)
      (mergeLoop c src ?l ?r srcIndex ?l srcIndex dst s)" by (rule mergeLoop_ends [OF c s]) (use n in auto)
  then show ?thesis unfolding seg d by (simp add: merge_def Let_def)
qed

lemma passLoop_ends:
  assumes "compares I X (set src) C c" "0 < w"
  shows "I s \<Longrightarrow> length dst = length src \<Longrightarrow>
    endsIn I X (\<lambda>d. \<exists>ys. passes C w (drop i src) ys \<and> d = take i dst @ ys) (passLoop c (length src) w src i dst s)"
proof (induction "length src - i" arbitrary: i dst s rule: less_induct)
  case less
  show ?case
  proof (cases "i < length src")
    case False
    then have "passLoop c (length src) w src i dst s = Some (Inr (Some dst), s)" by (subst passLoop.simps) simp
    then show ?thesis using less.prems False by (auto intro: passes.intros)
  next
    case True
    let ?M = "\<lambda>d. \<exists>zs. merges C (take w (drop i src)) (take w (drop (i + w) src)) zs \<and> d = take i dst @ zs @ drop (i + 2 * w) dst"
    have e: "passLoop c (length src) w src i dst s = (case merge c dst src i (length src) w s of None \<Rightarrow> None | Some (Inl e, s') \<Rightarrow> Some (Inl e, s')
        | Some (Inr None, s') \<Rightarrow> Some (Inr None, s') | Some (Inr (Some d), s') \<Rightarrow> passLoop c (length src) w src (i + 2 * w) d s')"
      using True by (subst passLoop.simps) simp
    have m: "endsIn I X ?M (merge c dst src i (length src) w s)" using assms(1) less.prems(1) True less.prems(2) by (rule merge_ends)
    show ?thesis unfolding e
    proof (rule endsIn_bind [OF m])
      fix d s'
      assume s': "I s'" and "?M d"
      then obtain zs where zs: "merges C (take w (drop i src)) (take w (drop (i + w) src)) zs" "d = take i dst @ zs @ drop (i + 2 * w) dst" by blast
      have len: "length zs = min w (length src - i) + min w (length src - (i + w))" using merges_length [OF zs(1)] by (simp add: min.commute)
      have ld: "length d = length src" using zs(2) len True less.prems(2) by auto
      have td: "take (i + 2 * w) d = take i dst @ zs" using zs(2) len True less.prems(2) by (auto simp: min_def)
      have "endsIn I X (\<lambda>x. \<exists>ys. passes C w (drop (i + 2 * w) src) ys \<and> x = take (i + 2 * w) d @ ys) (passLoop c (length src) w src (i + 2 * w) d s')"
        by (rule less.hyps) (use True assms(2) s' ld in auto)
      then show "endsIn I X (\<lambda>d. \<exists>ys. passes C w (drop i src) ys \<and> d = take i dst @ ys) (passLoop c (length src) w src (i + 2 * w) d s')"
      proof (rule endsIn_mono)
        fix x
        assume "\<exists>ys. passes C w (drop (i + 2 * w) src) ys \<and> x = take (i + 2 * w) d @ ys"
        then obtain ys where ys: "passes C w (drop (i + 2 * w) src) ys" "x = take i dst @ zs @ ys" using td by auto
        have "passes C w (drop i src) (zs @ ys)" by (rule passes.piece) (use True zs(1) ys(1) in \<open>simp_all add: add.commute\<close>)
        then show "\<exists>ys. passes C w (drop i src) ys \<and> x = take i dst @ ys" using ys(2) by blast
      qed
    qed
  qed
qed

text \<open>All passes, from a width on\<close>

inductive sortsTo :: "('a \<Rightarrow> 'a \<Rightarrow> bool \<Rightarrow> bool) \<Rightarrow> nat \<Rightarrow> 'a list \<Rightarrow> 'a list \<Rightarrow> bool" for C where
  wide: "length xs \<le> w \<Longrightarrow> sortsTo C w xs xs"
| pass: "w < length xs \<Longrightarrow> passes C w xs ys \<Longrightarrow> sortsTo C (w * 2) ys zs \<Longrightarrow> sortsTo C w xs zs"

lemma sortsTo_mset: "sortsTo C w xs ys \<Longrightarrow> mset ys = mset xs"
  by (induction rule: sortsTo.induct) (auto dest: passes_mset)

lemma compares_set: "compares I X A C c \<Longrightarrow> B \<subseteq> A \<Longrightarrow> compares I X B C c"
  by (auto simp: compares_def subset_iff)

lemma widthLoop_ends:
  assumes "compares I X A C c"
  shows "0 < w \<Longrightarrow> I s \<Longrightarrow> length src = n \<Longrightarrow> length dst = n \<Longrightarrow> set src \<subseteq> A \<Longrightarrow>
    endsIn I X (\<lambda>(b', src', dst'). sortsTo C w src src' \<and> length dst' = n) (widthLoop c n w b src dst s)"
proof (induction "n - w" arbitrary: w b src dst s rule: less_induct)
  case less
  show ?case
  proof (cases "w < n")
    case False
    then have "widthLoop c n w b src dst s = Some (Inr (Some (b, src, dst)), s)" by (subst widthLoop.simps) simp
    then show ?thesis using less.prems False by (auto intro: sortsTo.intros)
  next
    case True
    have e: "widthLoop c n w b src dst s = (case passLoop c n w src 0 dst s of None \<Rightarrow> None | Some (Inl e, s') \<Rightarrow> Some (Inl e, s')
        | Some (Inr None, s') \<Rightarrow> Some (Inr None, s') | Some (Inr (Some d), s') \<Rightarrow> widthLoop c n (w * 2) (\<not> b) d src s')"
      using True by (subst widthLoop.simps) simp
    have "endsIn I X (\<lambda>d. \<exists>ys. passes C w (drop 0 src) ys \<and> d = take 0 dst @ ys) (passLoop c (length src) w src 0 dst s)"
      using compares_set [OF assms less.prems(5)] less.prems by (intro passLoop_ends) auto
    then have p: "endsIn I X (passes C w src) (passLoop c n w src 0 dst s)" using less.prems(3) by simp
    show ?thesis unfolding e
    proof (rule endsIn_bind [OF p])
      fix d s'
      assume s': "I s'" and d: "passes C w src d"
      have "length d = n" "set d \<subseteq> A" using passes_length [OF d] passes_mset [OF d] less.prems mset_eq_setD by (simp, metis)
      then have "endsIn I X (\<lambda>(b', src', dst'). sortsTo C (w * 2) d src' \<and> length dst' = n) (widthLoop c n (w * 2) (\<not> b) d src s')"
        using True less.prems s' by (intro less.hyps) auto
      then show "endsIn I X (\<lambda>(b', src', dst'). sortsTo C w src src' \<and> length dst' = n) (widthLoop c n (w * 2) (\<not> b) d src s')"
        by (rule endsIn_mono) (use True d less.prems in \<open>auto intro: sortsTo.pass\<close>)
    qed
  qed
qed

lemma copyElements_all:
  "i + n = length src \<Longrightarrow> length array = length src \<Longrightarrow> copyElements src i n array = Some (take i array @ drop i src)"
proof (induction n arbitrary: i array)
  case (Suc n)
  have "copyElements src i (Suc n) array = copyElements src (i + 1) n (array[i := src ! i])" using Suc.prems by (simp add: copyElement_def)
  also have "\<dots> = Some (take (i + 1) (array[i := src ! i]) @ drop (i + 1) src)" using Suc by simp
  also have "take (i + 1) (array[i := src ! i]) @ drop (i + 1) src = take i array @ drop i src"
    using Suc.prems by (simp add: take_Suc_conv_app_nth Cons_nth_drop_Suc)
  finally show ?case .
qed simp

lemma mergeSort_ends:
  assumes "compares I X (set array) C c" "I s" "length array = n" "length scratch = n"
  shows "endsIn I X (sortsTo C 1 array) (mergeSort c array n scratch s)"
proof -
  have w: "endsIn I X (\<lambda>(b', src', dst'). sortsTo C 1 array src' \<and> length dst' = n) (widthLoop c n 1 True array scratch s)"
    using assms by (intro widthLoop_ends) auto
  then show ?thesis
  proof (rule endsIn_cases)
    fix v s'
    assume v: "widthLoop c n 1 True array scratch s = Some (Inr (Some v), s')" "I s'" "case v of (b', src', dst') \<Rightarrow> sortsTo C 1 array src' \<and> length dst' = n"
    obtain b src dst where q: "v = (b, src, dst)" by (cases v) auto
    then have l: "length src = n" using v(3) sortsTo_mset mset_eq_length assms(3) by fastforce
    have "copyElements src 0 n dst = Some src" using copyElements_all [of 0 n src dst] l v(3) q by simp
    then show ?thesis using v q by (simp add: mergeSort_def)
  qed (simp_all add: mergeSort_def)
qed

section \<open>Sorting\<close>

text \<open>With a comparator that answers whether its first argument is less, merging sorted lists gives a sorted list and keeps the order of
  equivalent elements.\<close>

definition answersLess :: "'a comparator \<Rightarrow> 'a \<Rightarrow> 'a \<Rightarrow> bool \<Rightarrow> bool" where
  "answersLess cmp a b v \<longleftrightarrow> v = (compare cmp a b = Less)"

lemma merges_set: "merges C xs ys zs \<Longrightarrow> set zs = set xs \<union> set ys"
  by (metis merges_mset set_mset_mset set_mset_union)

lemma not_less_greater: "compare cmp a b \<noteq> Less \<longleftrightarrow> compare cmp b a \<noteq> Greater"
  by (simp add: compare.greater_iff_sym_less)

lemma merges_sorted:
  "merges (answersLess cmp) xs ys zs \<Longrightarrow> sorted cmp xs \<Longrightarrow> sorted cmp ys \<Longrightarrow> sorted cmp zs"
proof (induction rule: merges.induct)
  case (right y x xs ys zs)
  have "compare cmp y z \<noteq> Greater" if "z \<in> set zs" for z
  proof -
    have "compare cmp y x \<noteq> Greater" using right.hyps(1) by (simp add: answersLess_def)
    moreover have "z = x \<or> z \<in> set xs \<or> z \<in> set ys" using merges_set [OF right.hyps(2)] that by auto
    ultimately show ?thesis using right.prems sorted_Cons_imp_not_less compare.trans_not_greater by metis
  qed
  then show ?case using right.IH right.prems(1) sorted_Cons_imp_sorted [OF right.prems(2)] by (intro sorted_ConsI) simp_all
next
  case (left y x xs ys zs)
  have "compare cmp x z \<noteq> Greater" if "z \<in> set zs" for z
  proof -
    have "compare cmp x y \<noteq> Greater" using left.hyps(1) not_less_greater [of cmp y x] by (simp add: answersLess_def)
    moreover have "z = y \<or> z \<in> set xs \<or> z \<in> set ys" using merges_set [OF left.hyps(2)] that by auto
    ultimately show ?thesis using left.prems sorted_Cons_imp_not_less compare.trans_not_greater by metis
  qed
  then show ?case using left.IH left.prems(2) sorted_Cons_imp_sorted [OF left.prems(1)] by (intro sorted_ConsI) simp_all
qed simp_all

lemma merges_stable:
  "merges (answersLess cmp) xs ys zs \<Longrightarrow> sorted cmp xs \<Longrightarrow> stable_segment cmp k zs = stable_segment cmp k xs @ stable_segment cmp k ys"
proof (induction rule: merges.induct)
  case (right y x xs ys zs)
  have "stable_segment cmp k (x # xs) = []" if k: "compare cmp k y = Equiv"
  proof -
    have "compare cmp k z \<noteq> Equiv" if z: "z = x \<or> z \<in> set xs" for z
    proof
      assume "compare cmp k z = Equiv"
      then have "compare cmp z y = Equiv" using k compare.sym compare.trans_equiv by metis
      moreover have "compare cmp x z \<noteq> Greater" using z right.prems sorted_Cons_imp_not_less by (metis compare.refl comp.distinct(5))
      ultimately have "compare cmp x y \<noteq> Greater" by (metis compare.trans_not_greater comp.distinct(5))
      then show False using right.hyps(1) not_less_greater [of cmp y x] by (simp add: answersLess_def)
    qed
    then show ?thesis by (auto simp: filter_empty_conv)
  qed
  then show ?case using right by auto
next
  case (left y x xs ys zs)
  then show ?case using left.IH [OF sorted_Cons_imp_sorted [OF left.prems]] by simp
qed simp_all

text \<open>The pieces of a list are sorted.\<close>

definition piecesSorted :: "'a comparator \<Rightarrow> nat \<Rightarrow> 'a list \<Rightarrow> bool" where
  "piecesSorted cmp w xs \<longleftrightarrow> (\<forall>i. sorted cmp (take w (drop (i * w) xs)))"

lemma piecesSorted_drop: "piecesSorted cmp w xs \<Longrightarrow> sorted cmp (take w xs) \<and> piecesSorted cmp w (drop w xs)"
  unfolding piecesSorted_def by (metis drop_drop drop_0 mult_0 mult_Suc add.commute)

lemma piecesSorted_append: "length xs = w \<Longrightarrow> sorted cmp xs \<Longrightarrow> piecesSorted cmp w ys \<Longrightarrow> piecesSorted cmp w (xs @ ys)"
  unfolding piecesSorted_def
proof
  fix i
  assume "length xs = w" "sorted cmp xs" "\<forall>i. sorted cmp (take w (drop (i * w) ys))"
  then show "sorted cmp (take w (drop (i * w) (xs @ ys)))" by (cases i) auto
qed

lemma passes_sorted:
  "passes (answersLess cmp) w xs ys \<Longrightarrow> piecesSorted cmp w xs \<Longrightarrow> piecesSorted cmp (w * 2) ys \<and> (\<forall>k. stable_segment cmp k ys = stable_segment cmp k xs)"
proof (induction rule: passes.induct)
  case finished
  then show ?case by (simp add: piecesSorted_def)
next
  case (piece xs zs rest)
  note p1 = piecesSorted_drop [OF piece.prems]
  note p2 = piecesSorted_drop [OF p1 [THEN conjunct2]]
  have dd: "drop w (drop w xs) = drop (2 * w) xs" by (simp add: mult_2)
  have zs: "sorted cmp zs" using merges_sorted [OF piece.hyps(2)] p1 p2 by blast
  have ih: "piecesSorted cmp (w * 2) rest" "\<And>k. stable_segment cmp k rest = stable_segment cmp k (drop (2 * w) xs)" using piece.IH p2 dd by auto
  have len: "length zs = min w (length xs) + min w (length xs - w)" using merges_length [OF piece.hyps(2)] by (simp add: min.commute)
  have "piecesSorted cmp (w * 2) (zs @ rest)"
  proof (cases "length xs \<le> 2 * w")
    case True
    then have "rest = []" using piece.hyps(3) by (auto elim: passes.cases)
    moreover have "take (w * 2) (drop (i * (w * 2)) zs) = (if i = 0 then zs else [])" for i
    proof (cases i)
      case (Suc j)
      have "length zs \<le> w * 2" using len by simp
      then show ?thesis using Suc by simp
    qed (use len in simp)
    ultimately show ?thesis using zs by (auto simp: piecesSorted_def)
  next
    case False
    then show ?thesis using len zs ih(1) by (intro piecesSorted_append) auto
  qed
  moreover have "stable_segment cmp k (zs @ rest) = stable_segment cmp k xs" for k
  proof -
    have "stable_segment cmp k (zs @ rest) = stable_segment cmp k (take w xs @ take w (drop w xs) @ drop (2 * w) xs)"
      using merges_stable [OF piece.hyps(2)] p1 ih(2) by simp
    then show ?thesis unfolding take_twice .
  qed
  ultimately show ?case by blast
qed

lemma sortsTo_sort: "sortsTo (answersLess cmp) w xs ys \<Longrightarrow> piecesSorted cmp w xs \<Longrightarrow> sorted cmp ys \<and> (\<forall>k. stable_segment cmp k ys = stable_segment cmp k xs)"
proof (induction rule: sortsTo.induct)
  case (wide xs w)
  then show ?case unfolding piecesSorted_def by (metis drop_0 mult_0 take_all)
next
  case (pass w xs ys zs)
  note p = passes_sorted [OF pass.hyps(2) pass.prems]
  show ?case using pass.IH [OF p [THEN conjunct1]] p by simp
qed

lemma sortsTo_is_sort:
  assumes "sortsTo (answersLess cmp) 1 xs ys"
  shows "ys = sort cmp xs"
proof -
  have "length (take 1 (drop i xs)) \<le> 1" for i by simp
  then have "sorted cmp (take 1 (drop i xs))" for i by (metis (no_types, opaque_lifting) le_Suc_eq length_0_conv length_Suc_conv le_zero_eq One_nat_def sorted_Nil sorted_single)
  then have "piecesSorted cmp 1 xs" by (simp add: piecesSorted_def)
  from sortsTo_sort [OF assms this] sortsTo_mset [OF assms] have "sort cmp xs = ys" by (intro sort_eqI) auto
  then show ?thesis ..
qed

lemma mergeSort_less:
  assumes "\<And>a b s. a \<in> set xs \<Longrightarrow> b \<in> set xs \<Longrightarrow> c a b s = Some (Inr (Some (compare cmp a b = Less)), s)" "length xs = n" "length scratch = n"
  shows "mergeSort c xs n scratch s = Some (Inr (Some (sort cmp xs)), s)"
proof -
  have "compares (\<lambda>s'. s' = s) (\<lambda>e. False) (set xs) (answersLess cmp) c"
    using assms(1) by (simp add: compares_def answersLess_def)
  from mergeSort_ends [OF this refl assms(2,3)] show ?thesis by (rule endsIn_cases) (auto simp del: One_nat_def dest: sortsTo_is_sort)
qed

section \<open>Properties\<close>

text \<open>C13: With a comparator that answers whether its first argument is less in some order and has no effect, the merge sort is the stable sort of that order: the result
  is sorted, and equivalent elements keep their order.\<close>

theorem mergeSort_sorts:
  assumes "\<forall>a \<in> set xs. \<forall>b \<in> set xs. \<forall>s. c a b s = Some (Inr (Some (compare cmp a b = Less)), s)" "length scratch = length xs"
  shows "mergeSort c xs (length xs) scratch s = Some (Inr (Some (sort cmp xs)), s)"
  using assms by (intro mergeSort_less) auto

definition demo_order :: "(nat \<times> nat) comparator" where
  "demo_order = key fst default"

lemma demo_order_sort: "sort demo_order [(3, 0), (1, 1), (3, 2), (2, 3), (1, 4)] = [(1, 1), (1, 4), (2, 3), (3, 0), (3, 2)]"
  by code_simp

theorem mergeSort_sorts_witness:
  "mergeSort (\<lambda>a b s. Some (Inr (Some (compare demo_order a b = Less)), s)) [(3, 0), (1, 1), (3, 2), (2, 3), (1, 4)] (length [(3, 0), (1, 1), (3, 2), (2, 3), (1, 4 :: nat)]) (replicate 5 (0, 0)) () =
    Some (Inr (Some [(1, 1), (1, 4), (2, 3), (3, 0), (3, 2)]), ())"
  using mergeSort_sorts [of "[(3, 0), (1, 1), (3, 2), (2, 3), (1, 4)]" "\<lambda>a b s. Some (Inr (Some (compare demo_order a b = Less)), s)" demo_order "replicate 5 (0, 0)" "()"]
  unfolding demo_order_sort by simp

text \<open>C14: Whatever a comparator answers, consistent or not, the merge sort ends, accesses no element outside of its arrays, and the array it leaves
  holds the same elements; if the comparator throws or fails, the sort does.\<close>

theorem mergeSort_permutes:
  assumes "\<forall>a \<in> set xs. \<forall>b \<in> set xs. \<forall>s. \<exists>r s'. c a b s = Some (r, s')" "length scratch = length xs"
  shows "\<exists>r s'. mergeSort c xs (length xs) scratch s = Some (r, s') \<and> (case r of Inr (Some ys) \<Rightarrow> mset ys = mset xs | _ \<Rightarrow> True)"
proof -
  have "compares (\<lambda>s. True) (\<lambda>e. True) (set xs) (\<lambda>a b v. True) c"
  proof -
    have "endsIn (\<lambda>s. True) (\<lambda>e. True) (\<lambda>v. True) (Some (r, s'))" for r s' by (auto simp: endsIn_def split: sum.splits option.splits)
    then show ?thesis using assms(1) by (metis compares_def)
  qed
  from mergeSort_ends [OF this TrueI refl assms(2), where s = s] show ?thesis by (rule endsIn_cases) (auto dest: sortsTo_mset)
qed

theorem mergeSort_permutes_witness:
  "\<exists>r s'. mergeSort (\<lambda>a b k. Some (Inr (Some (even k)), k + 1)) [5, 3, 4, 1] (length [5, 3, 4, 1 :: nat]) [0, 0, 0, 0] (0 :: nat) = Some (r, s') \<and>
    (case r of Inr (Some ys) \<Rightarrow> mset ys = mset [5, 3, 4, 1 :: nat] | _ \<Rightarrow> True)"
  using mergeSort_permutes [of "[5, 3, 4, 1 :: nat]" "\<lambda>a b k. Some (Inr (Some (even k)), k + 1)" "[0, 0, 0, 0]" "0 :: nat"] by simp

end
