(* ===== verification/ArraySort.thy ===== *)
theory ArraySort
  imports MergeSort ArrayRefinement "HOL-Library.Product_Lexorder" "HOL-Library.List_Lexorder"
begin

text \<open>
  Sorting arrays: \<open>ArrayObject::sort\<close>, the comparator of \<open>Array.prototype.sort\<close> (\<open>builtinArraySort\<close> of \<open>src/builtins/BuiltinArray.cpp\<close>) and the order of
  strings. The state is the array and whatever else scripts can change; the comparator may change the array while it is sorted.
\<close>

section \<open>The comparator\<close>

definition lessThanZero :: "u64 \<Rightarrow> bool" where
  "lessThanZero d \<longleftrightarrow> \<not> isnan d \<and> \<not> iszero d \<and> bit d 63"

text \<open>\<open>toStringJ\<close> and \<open>compareNumber\<close> (the call of the comparator and \<open>toNumber\<close> of its result) may run scripts.\<close>

definition sortComparator ::
  "bool \<Rightarrow> (Value \<Rightarrow> ('s, ustring) js) \<Rightarrow> (Value \<Rightarrow> Value \<Rightarrow> ('s, u64) js) \<Rightarrow> Value \<Rightarrow> Value \<Rightarrow> ('s, bool) js" where
  "sortComparator defaultSort toStringJ compareNumber a b =
     (if a = EmptyValue \<and> b = Undefined then retJ False
      else if a = Undefined \<and> b = EmptyValue then retJ True
      else if a = EmptyValue \<or> a = Undefined then retJ False
      else if b = EmptyValue \<or> b = Undefined then retJ True
      else if defaultSort
      then bindJ (toStringJ a) (\<lambda>vala. bindJ (toStringJ b) (\<lambda>valb. retJ (stringCompare vala valb < 0)))
      else bindJ (compareNumber a b) (\<lambda>ret. retJ (lessThanZero ret)))"

section \<open>Sorting a fast array\<close>

text \<open>What a caller of \<open>mergeSort\<close> passes: the comparator always reports success.\<close>

definition alwaysSucceeds :: "('a \<Rightarrow> 'a \<Rightarrow> ('s, bool) js) \<Rightarrow> ('s, 'a) comparatorJ" where
  "alwaysSucceeds compareFn a b = bindJ (compareFn a b) (\<lambda>v. retJ (Some v))"

text \<open>\<open>objectSort\<close> is \<open>Object::sort\<close>, \<open>setIndexed\<close> is \<open>setIndexedPropertyThrowsException\<close>; both serve arrays that are not fast, before
  the sort or after the comparator made the array slow, and are parameters here. Only the fast path is modelled.\<close>

definition arraySort ::
  "Platform \<Rightarrow> (property_key \<Rightarrow> int) \<Rightarrow> int list option list \<Rightarrow> (nat \<Rightarrow> (ArrayObject \<times> 'w, unit) js) \<Rightarrow> (nat \<Rightarrow> Value \<Rightarrow> (ArrayObject \<times> 'w, unit) js) \<Rightarrow>
    (Value \<Rightarrow> Value \<Rightarrow> (ArrayObject \<times> 'w, bool) js) \<Rightarrow> nat \<Rightarrow> (ArrayObject \<times> 'w, unit) js" where
  "arraySort pl number protos objectSort setIndexed compareFn n s =
     (if n = 0 then Some (Inr (), s)
      else case m_fastModeData (fst s) of
        None \<Rightarrow> objectSort n s
      | Some buf \<Rightarrow>
          if length buf < n then None
          else case mergeSort (alwaysSucceeds compareFn) (take n buf) n (map (p_junk pl) [0..<n]) s of
            None \<Rightarrow> None
          | Some (Inl e, s') \<Rightarrow> Some (Inl e, s')
          | Some (Inr None, s') \<Rightarrow> None
          | Some (Inr (Some tempBuffer), (a1, w1)) \<Rightarrow>
              (case (if m_arrayLength a1 \<noteq> n then map_option snd (setArrayLength pl number protos a1 n False True True) else Some a1) of
                 None \<Rightarrow> None
               | Some a2 \<Rightarrow>
                   (case m_fastModeData a2 of
                      Some buf2 \<Rightarrow> map_option (\<lambda>b. (Inr (), (a2\<lparr>m_fastModeData := Some b\<rparr>, w1))) (writeElements 0 tempBuffer buf2)
                    | None \<Rightarrow> bindJ (mapJ (\<lambda>(i, v). setIndexed i v) (enumerate 0 tempBuffer)) (\<lambda>r. retJ ()) (a2, w1))))"

section \<open>The order of strings\<close>

lemma stringCompare_less: "stringCompare a b < 0 \<longleftrightarrow> a < b"
proof (induction a arbitrary: b)
  case Nil
  show ?case by (cases b) (simp_all add: stringCompare_Nil)
next
  case (Cons x a)
  then show ?case by (cases b) (auto simp: stringCompare_Cons stringCompare_Nil)
qed

text \<open>The default order: values by their strings, then \<open>undefined\<close>, then holes\<close>

definition sortKey :: "(Value \<Rightarrow> ustring) \<Rightarrow> Value \<Rightarrow> nat \<times> ustring" where
  "sortKey str v = (if v = EmptyValue then (2, []) else if v = Undefined then (1, []) else (0, str v))"

definition defaultOrder :: "(Value \<Rightarrow> ustring) \<Rightarrow> Value comparator" where
  "defaultOrder str = key (sortKey str) default"

lemma sortComparator_default:
  assumes "\<And>v s. v = a \<or> v = b \<Longrightarrow> toStringJ v s = Some (Inr (str v), s)"
  shows "sortComparator True toStringJ compareNumber a b s = Some (Inr (compare (defaultOrder str) a b = Less), s)"
proof -
  have "compare (defaultOrder str) a b = Less \<longleftrightarrow> sortKey str a < sortKey str b"
    by (simp add: defaultOrder_def)
  then show ?thesis using assms
    by (auto simp: sortComparator_def retJ_def bindJ_def sortKey_def stringCompare_less)
qed

section \<open>Sorting\<close>

definition neverFails :: "Thrown option \<Rightarrow> bool" where
  "neverFails e \<longleftrightarrow> e \<noteq> None"

lemma alwaysSucceeds_compares:
  assumes "\<And>a b s. a \<in> A \<Longrightarrow> b \<in> A \<Longrightarrow> I s \<Longrightarrow> \<exists>r s'. compareFn a b s = Some (r, s') \<and> I s' \<and> (case r of Inl e \<Rightarrow> X (Some e) | Inr v \<Rightarrow> C a b v)"
  shows "compares I X A C (alwaysSucceeds compareFn)"
  unfolding compares_def
proof (intro ballI allI impI)
  fix a b s
  assume "a \<in> A" "b \<in> A" "I s"
  then obtain r s' where "compareFn a b s = Some (r, s')" "I s'" "case r of Inl e \<Rightarrow> X (Some e) | Inr v \<Rightarrow> C a b v" using assms by blast
  then show "endsIn I X (C a b) (alwaysSucceeds compareFn a b s)" by (cases r) (simp_all add: alwaysSucceeds_def bindJ_def retJ_def)
qed

lemma writeElements_all: "length vs \<le> length buf \<Longrightarrow> writeElements 0 vs buf = Some (vs @ drop (length vs) buf)"
proof -
  have "i + length vs \<le> length buf \<Longrightarrow> writeElements i vs buf = Some (take i buf @ vs @ drop (i + length vs) buf)" for i
  proof (induction vs arbitrary: i buf)
    case (Cons v vs)
    have "writeElements i (v # vs) buf = writeElements (i + 1) vs (buf[i := v])" using Cons.prems by simp
    also have "\<dots> = Some (take (i + 1) (buf[i := v]) @ vs @ drop (i + 1 + length vs) (buf[i := v]))" using Cons by simp
    also have "\<dots> = Some (take i buf @ (v # vs) @ drop (i + length (v # vs)) buf)" using Cons.prems by (simp add: take_Suc_conv_app_nth)
    finally show ?case .
  qed simp
  from this [of 0] show "length vs \<le> length buf \<Longrightarrow> writeElements 0 vs buf = Some (vs @ drop (length vs) buf)" by simp
qed

lemma arraySort_pure:
  assumes "\<And>a b s. a \<in> set (take n buf) \<Longrightarrow> b \<in> set (take n buf) \<Longrightarrow> compareFn a b s = Some (Inr (compare cmp a b = Less), s)" "arr_ok a" "m_fastModeData a = Some buf" "m_arrayLength a = n"
  shows "arraySort pl number protos objectSort setIndexed compareFn n (a, w) = Some (Inr (), (a\<lparr>m_fastModeData := Some (sort cmp (take n buf) @ drop n buf)\<rparr>, w))"
proof -
  have n: "n \<le> length buf" using assms(2-4) by (auto simp: arr_ok_def)
  have m: "mergeSort (alwaysSucceeds compareFn) (take n buf) n (map (p_junk pl) [0..<n]) (a, w) = Some (Inr (Some (sort cmp (take n buf))), (a, w))"
    using n assms(1) by (intro mergeSort_less) (simp_all add: alwaysSucceeds_def bindJ_def retJ_def)
  have "writeElements 0 (sort cmp (take n buf)) buf = Some (sort cmp (take n buf) @ drop n buf)"
    using writeElements_all [of "sort cmp (take n buf)" buf] n by simp
  then show ?thesis using m n assms(3,4) by (cases "n = 0") (simp_all add: arraySort_def)
qed

text \<open>Restoring the length after the comparisons\<close>

lemma restore_length:
  assumes a: "arr_ok a" and w: "isFastModeArray a \<Longrightarrow> isLengthPropertyWritable a" and num: "number_ok number" and n: "n < 2 ^ 32" and small: "\<not> p_large pl"
  obtains b a' where "setArrayLength pl number protos a n False True True = Some (b, a')" "arr_ok a'" "isFastModeArray a' \<longrightarrow> m_arrayLength a' = n"
proof (cases "m_fastModeData a")
  case None
  then have "setArrayLength pl number protos a n False True True = truncateLoop number protos n (m_arrayLength a) a"
    by (simp add: setArrayLength_def isFastModeArray_def)
  then show ?thesis using slow_length [OF a None num n, of protos] that by (auto simp: length_step_def isFastModeArray_def)
next
  case (Some buf)
  have "storage_safe pl a n False True" using small by (simp add: storage_safe_def)
  then obtain b a' where s: "setArrayLength pl number protos a n False True True = Some (b, a')" "length_step a n b a'"
    using setArrayLength_ok [OF a num n, of pl False True protos True] w by auto
  have "\<forall>j p. j < m_arrayLength a \<longrightarrow> arrProps a (idxKey j) = Some p \<longrightarrow> propConfigurable p"
    using Some a by (auto simp: arrProps_def arr_ok_def split: option.splits if_splits)
  from specTruncate_configurable [OF this] a have "n < m_arrayLength a \<Longrightarrow> fst (snd (specTruncate n (m_arrayLength a) (arrProps a))) = n" by (simp add: arr_ok_def)
  then have "m_arrayLength a' = n" using s(2) by (metis fst_conv snd_conv length_step_def)
  then show ?thesis using that s by (auto simp: length_step_def)
qed

lemma keepsJ_mapJ: "(\<And>x. keepsJ I (f x)) \<Longrightarrow> keepsJ I (mapJ f xs)"
  by (induction xs) auto

text \<open>What scripts may do during a sort without harm: the array keeps its invariant, and while it is fast its length is writable or still the old one.\<close>

lemma arraySort_safe:
  assumes ok: "\<And>s. I s \<Longrightarrow> arr_ok (fst s) \<and> (isFastModeArray (fst s) \<longrightarrow> isLengthPropertyWritable (fst s) \<or> m_arrayLength (fst s) = n)"
    and cmp: "\<And>x y s. I s \<Longrightarrow> \<exists>r s'. compareFn x y s = Some (r, s') \<and> I s'"
    and set: "\<And>i v s. arr_ok (fst s) \<Longrightarrow> \<exists>r s'. setIndexed i v s = Some (r, s') \<and> arr_ok (fst s')"
    and s: "I s" "m_fastModeData (fst s) = Some buf" "m_arrayLength (fst s) = n" and num: "number_ok number" and small: "\<not> p_large pl"
  shows "\<exists>r s'. arraySort pl number protos objectSort setIndexed compareFn n s = Some (r, s') \<and> arr_ok (fst s')"
proof (cases "n = 0")
  case True
  then show ?thesis using ok s by (simp add: arraySort_def)
next
  case False
  have n: "n \<le> length buf" "n < 2 ^ 32" using ok [OF s(1)] s(2,3) by (auto simp: arr_ok_def)
  have c: "compares I neverFails (set (take n buf)) (\<lambda>a b v. True) (alwaysSucceeds compareFn)"
  proof (rule alwaysSucceeds_compares)
    fix a b s
    assume "I s"
    then obtain r s' where "compareFn a b s = Some (r, s')" "I s'" using cmp by blast
    then show "\<exists>r s'. compareFn a b s = Some (r, s') \<and> I s' \<and> (case r of Inl e \<Rightarrow> neverFails (Some e) | Inr v \<Rightarrow> True)"
      by (cases r) (auto simp: neverFails_def)
  qed
  let ?ms = "mergeSort (alwaysSucceeds compareFn) (take n buf) n (map (p_junk pl) [0..<n]) s"
  have "endsIn I neverFails (sortsTo (\<lambda>a b v. True) 1 (take n buf)) ?ms" using n by (intro mergeSort_ends [OF c s(1)]) simp_all
  then show ?thesis
  proof (rule endsIn_cases)
    fix e s'
    assume "?ms = Some (Inl e, s')" "I s'"
    then show ?thesis using False n s ok by (simp add: arraySort_def)
  next
    fix s'
    assume "neverFails None"
    then show ?thesis by (simp add: neverFails_def)
  next
    fix temp s'
    assume m: "?ms = Some (Inr (Some temp), s')" "I s'" "sortsTo (\<lambda>a b v. True) 1 (take n buf) temp"
    obtain a1 w1 where s': "s' = (a1, w1)" by (cases s')
    have a1: "arr_ok a1" "isFastModeArray a1 \<longrightarrow> isLengthPropertyWritable a1 \<or> m_arrayLength a1 = n" using ok [OF m(2)] s' by simp_all
    have lt: "length temp = n" using mset_eq_length [OF sortsTo_mset [OF m(3)]] n by simp
    obtain a2 where a2: "(if m_arrayLength a1 \<noteq> n then map_option snd (setArrayLength pl number protos a1 n False True True) else Some a1) = Some a2"
      "arr_ok a2" "isFastModeArray a2 \<longrightarrow> m_arrayLength a2 = n"
    proof (cases "m_arrayLength a1 = n")
      case False
      then show ?thesis using restore_length [OF a1(1) _ num n(2) small, where protos = protos] a1(2) that by (metis option.map(2) snd_conv)
    qed (use a1 that in auto)
    show ?thesis
    proof (cases "m_fastModeData a2")
      case (Some buf2)
      then have b: "n \<le> length buf2" using a2 by (auto simp: arr_ok_def isFastModeArray_def)
      have "arr_ok (a2\<lparr>m_fastModeData := Some (temp @ drop n buf2)\<rparr>)" using a2(2) Some b lt by (auto simp: arr_ok_def isFastModeArray_def)
      then show ?thesis using False n s m(1) s' a2(1) Some writeElements_all [of temp buf2] lt b by (simp add: arraySort_def)
    next
      case None
      have k: "keepsJ (\<lambda>s. arr_ok (fst s)) (bindJ (mapJ (\<lambda>(i, v). setIndexed i v) (enumerate 0 temp)) (\<lambda>r. retJ ()))"
        using set by (intro keepsJ_bind keepsJ_mapJ) (auto simp: keepsJ_def)
      then obtain r t where "bindJ (mapJ (\<lambda>(i, v). setIndexed i v) (enumerate 0 temp)) (\<lambda>r. retJ ()) (a2, w1) = Some (r, t)" "arr_ok (fst t)"
        using a2(2) unfolding keepsJ_def by (metis fst_conv)
      then show ?thesis using False n s m(1) s' a2(1) None by (simp add: arraySort_def)
    qed
  qed
qed

section \<open>Properties\<close>

text \<open>C16: On a fast array whose elements have strings that do not depend on scripts, \<open>sort\<close> without a comparator puts the elements in the order of their strings,
  by code units, equal strings in their old order, then the \<open>undefined\<close> values, then the holes.\<close>

theorem default_sort_orders:
  assumes "arr_ok a" "m_fastModeData a = Some buf" "\<forall>v \<in> set (take (m_arrayLength a) buf). \<forall>s. toStringJ v s = Some (Inr (str v), s)"
  shows "arraySort pl number protos objectSort setIndexed (sortComparator True toStringJ compareNumber) (m_arrayLength a) (a, w) =
    Some (Inr (), (a\<lparr>m_fastModeData := Some (sort (defaultOrder str) (take (m_arrayLength a) buf) @ drop (m_arrayLength a) buf)\<rparr>, w))"
  using assms by (intro arraySort_pure [OF _ assms(1,2) refl] sortComparator_default) auto

definition demo_string :: "Value \<Rightarrow> ustring" where
  "demo_string v = (case v of Int32 i \<Rightarrow> fromInt32 i | _ \<Rightarrow> [])"

lemma demo_sorted: "sort (defaultOrder demo_string) [Undefined, Int32 9, EmptyValue, Int32 10] = [Int32 10, Int32 9, Undefined, EmptyValue]"
  by code_simp

theorem default_sort_orders_witness:
  "arraySort (demo_platform True) demo_number [] (\<lambda>n s. None) (\<lambda>i v s. None) (sortComparator True (\<lambda>v s. Some (Inr (demo_string v), s)) (\<lambda>a b s. None)) (Suc (Suc (Suc (Suc 0))))
      (demo_array [Undefined, Int32 9, EmptyValue, Int32 10], ()) =
    Some (Inr (), (demo_array [Int32 10, Int32 9, Undefined, EmptyValue], ()))"
  using default_sort_orders [of "demo_array [Undefined, Int32 9, EmptyValue, Int32 10]" "[Undefined, Int32 9, EmptyValue, Int32 10]"
      "\<lambda>v s. Some (Inr (demo_string v), s)" demo_string "demo_platform True" demo_number "[]" "\<lambda>n s. None" "\<lambda>i v s. None" "\<lambda>a b s. None" "()"]
    demo_array_ok [of "[Undefined, Int32 9, EmptyValue, Int32 10]"] by (simp add: demo_array_def demo_sorted del: sort_simps)

text \<open>C15: In the build with 32-bit heap references, sorting a fast array with a comparator that runs scripts ends without access outside of a buffer and leaves a well-formed array,
  whatever the comparator does to the array, as long as the array, while fast, has a \<open>length\<close> that is writable or still the old one, and if the writes to an array that
  became slow, \<open>setIndexed\<close>, keep it well formed. Without the condition on \<open>length\<close> the sort may write outside of the buffer, as is shown below.\<close>

theorem array_sort_safe:
  assumes "\<And>s. I s \<Longrightarrow> arr_ok (fst s) \<and> (isFastModeArray (fst s) \<longrightarrow> isLengthPropertyWritable (fst s) \<or> m_arrayLength (fst s) = n)"
    "\<And>x y s. I s \<Longrightarrow> \<exists>r s'. compareFn x y s = Some (r, s') \<and> I s'"
    "\<And>i v s. arr_ok (fst s) \<Longrightarrow> \<exists>r s'. setIndexed i v s = Some (r, s') \<and> arr_ok (fst s')"
    "I s" "m_fastModeData (fst s) = Some buf" "m_arrayLength (fst s) = n" "number_ok number" "\<not> p_large pl"
  shows "\<exists>r s'. arraySort pl number protos objectSort setIndexed compareFn n s = Some (r, s') \<and> arr_ok (fst s')"
  using assms by (rule arraySort_safe)

text \<open>A comparator that empties the array\<close>

definition demo_shrink :: "Value \<Rightarrow> Value \<Rightarrow> (ArrayObject \<times> unit, bool) js" where
  "demo_shrink x y = (\<lambda>(a, w). case assignLength (demo_platform False) demo_number [] demo_toLength a (Int32 1) of
     Some (Inr (b, a')) \<Rightarrow> Some (Inr False, (a', w)) | _ \<Rightarrow> None)"

text \<open>C17: If, when the comparisons end, the array is fast, shorter than before and its \<open>length\<close> is read-only, \<open>sort\<close> writes the elements outside of the buffer:
  \<open>setArrayLength\<close> refuses to restore the length, and its result is not looked at.\<close>

theorem sort_overruns_buffer:
  assumes "m_fastModeData (fst s) = Some buf" "n \<le> length buf"
    "mergeSort (alwaysSucceeds compareFn) (take n buf) n (map (p_junk pl) [0..<n]) s = Some (Inr (Some tempBuffer), (a1, w1))"
    "m_fastModeData a1 = Some buf1" "m_arrayLength a1 < n" "\<not> isLengthPropertyWritable a1" "length buf1 < length tempBuffer"
  shows "arraySort pl number protos objectSort setIndexed compareFn n s = None"
proof -
  have "setArrayLength pl number protos a1 n False True True = Some (False, a1)" using assms(4-6) by (simp add: setArrayLength_def isFastModeArray_def)
  moreover have "i + length vs > length b \<Longrightarrow> i \<le> length b \<Longrightarrow> writeElements i vs b = None" for i vs b
    by (induction i vs b rule: writeElements.induct) auto
  ultimately show ?thesis using assms by (simp add: arraySort_def)
qed

definition demo_lock :: "Value \<Rightarrow> Value \<Rightarrow> (ArrayObject \<times> unit, bool) js" where
  "demo_lock x y = bindJ (demo_shrink x y) (\<lambda>b. \<lambda>(a, w).
     map_option (\<lambda>(r, a'). (Inr b, (a', w))) (arrayDefineLength (demo_platform False) demo_number [] a (mkData (Int32 1) NonWritablePresent) 1))"

lemmas demo_defs = demo_lock_def demo_shrink_def bindJ_def assignLength_def setArrayLength_def isFastModeArray_def demo_array_def isLengthPropertyWritable_def
  fitStorage_def copyBuffer_def clearSlots_def demo_platform_def arrayDefineLength_def setLengthNotWritable_def mkData_def desc_readers isAccessorDescriptor_def

lemma demo_shrink_runs:
  "demo_shrink x y (demo_array [Int32 2, Int32 1], ()) = Some (Inr False, (demo_array [Int32 2], ()))"
  "demo_shrink x y (demo_array [Int32 2], ()) = Some (Inr False, (demo_array [Int32 2], ()))"
  by (simp_all add: demo_defs)

lemma demo_lock_runs: "demo_lock x y (demo_array [Int32 2, Int32 1], ()) = Some (Inr False, (setLengthNotWritable (demo_array [Int32 2]), ()))"
  by (simp add: demo_lock_def demo_shrink_runs bindJ_def) (simp add: demo_defs, rule exI, rule TrueI)

lemma demo_merge: "mergeSort (alwaysSucceeds demo_lock) [Int32 2, Int32 1] 2 [Undefined, Undefined] (demo_array [Int32 2, Int32 1], ()) =
  Some (Inr (Some [Int32 2, Int32 1]), (setLengthNotWritable (demo_array [Int32 2]), ()))"
  by (simp add: mergeSort_def widthLoop.simps passLoop.simps merge_def mergeLoop.simps Let_def copyElement_def alwaysSucceeds_def bindJ_def demo_lock_runs retJ_def
      numeral_2_eq_2)

theorem sort_overruns_buffer_witness:
  "arraySort (demo_platform False) demo_number [] (\<lambda>n s. None) (\<lambda>i v s. None) demo_lock 2 (demo_array [Int32 2, Int32 1], ()) = None"
proof (rule sort_overruns_buffer)
  show "mergeSort (alwaysSucceeds demo_lock) (take 2 [Int32 2, Int32 1]) 2 (map (p_junk (demo_platform False)) [0..<2]) (demo_array [Int32 2, Int32 1], ()) =
      Some (Inr (Some [Int32 2, Int32 1]), (setLengthNotWritable (demo_array [Int32 2]), ()))"
    using demo_merge by (simp add: demo_platform_def numeral_2_eq_2)
  show "m_fastModeData (setLengthNotWritable (demo_array [Int32 2])) = Some [Int32 2]" by (simp add: demo_array_def setLengthNotWritable_def)
qed (simp_all add: demo_array_def setLengthNotWritable_def isLengthPropertyWritable_def)

theorem array_sort_safe_witness:
  "\<exists>r s'. arraySort (demo_platform False) demo_number [] (\<lambda>n s. None) (\<lambda>i v. throwTypeError) demo_shrink 2 (demo_array [Int32 2, Int32 1], ()) = Some (r, s') \<and> arr_ok (fst s')"
proof (rule array_sort_safe [where I = "\<lambda>s. s = (demo_array [Int32 2, Int32 1], ()) \<or> s = (demo_array [Int32 2], ())" and buf = "[Int32 2, Int32 1]"])
  show "\<exists>r s'. demo_shrink x y s = Some (r, s') \<and> (s' = (demo_array [Int32 2, Int32 1], ()) \<or> s' = (demo_array [Int32 2], ()))"
    if "s = (demo_array [Int32 2, Int32 1], ()) \<or> s = (demo_array [Int32 2], ())" for x y s using that demo_shrink_runs by auto
  show "arr_ok (fst s) \<and> (isFastModeArray (fst s) \<longrightarrow> isLengthPropertyWritable (fst s) \<or> m_arrayLength (fst s) = 2)"
    if "s = (demo_array [Int32 2, Int32 1], ()) \<or> s = (demo_array [Int32 2], ())" for s
    using that demo_array_ok [of "[Int32 2, Int32 1]"] demo_array_ok [of "[Int32 2]"] by (auto simp: demo_array_def isLengthPropertyWritable_def)
qed (simp_all add: throwTypeError_def demo_number_ok, simp_all add: demo_array_def demo_platform_def)

end
