(* ===== verification/OwnPropertyKeys.thy ===== *)
theory OwnPropertyKeys
  imports ArrayObject ProxyObject
begin

text \<open>
  The own property keys of ordinary objects and the integrity levels, \<open>objectOwnPropertyKeys\<close>, \<open>setIntegrityLevel\<close> and \<open>testIntegrityLevel\<close>
  of \<open>src/runtime/Object.cpp\<close>. The integrity levels call the virtual methods of the object, which may be any.
\<close>

section \<open>Own property keys\<close>

text \<open>An index goes behind the equal and the smaller ones, as in a \<open>std::multiset\<close>.\<close>

fun insertIndex :: "nat \<Rightarrow> nat list \<Rightarrow> nat list" where
  "insertIndex i [] = [i]"
| "insertIndex i (x # xs) = (if i < x then i # x # xs else x # insertIndex i xs)"

definition classifyKey :: "property_key \<Rightarrow> nat list \<times> property_key list \<times> property_key list \<Rightarrow> nat list \<times> property_key list \<times> property_key list" where
  "classifyKey name acc =
     (case acc of (idxs, strs, syms) \<Rightarrow>
        case indexOfKey name of
          Some i \<Rightarrow> (insertIndex i idxs, strs, syms)
        | None \<Rightarrow>
            (case name of
               KSymbol s \<Rightarrow> (idxs, strs, syms @ [name])
             | KString s \<Rightarrow> (idxs, strs @ [name], syms)))"

definition objectOwnPropertyKeys :: "property_key list \<Rightarrow> property_key list" where
  "objectOwnPropertyKeys enumerated =
     (case fold classifyKey enumerated ([], [], []) of (idxs, strs, syms) \<Rightarrow> map idxKey idxs @ strs @ syms)"

definition ownPropertyKeys :: "Heap \<Rightarrow> nat \<Rightarrow> property_key list option" where
  "ownPropertyKeys h ob =
     map_option (\<lambda>ps. objectOwnPropertyKeys (map (item_key (h_env h)) ps)) (properties (h_structures h ! objectStructure h ob))"

section \<open>Integrity levels\<close>

definition convertToPropertyDescriptor :: "(ObjectGetResult \<Rightarrow> Value) \<Rightarrow> ObjectGetResult \<Rightarrow> ObjectPropertyDescriptor" where
  "convertToPropertyDescriptor valueOf r =
     (let desc = (if resultIsData r then setWritable (resultWritable r) (mkData (valueOf r) 0) else mkAccessor (resultGetterSetter r) 0)
      in setConfigurable (resultConfigurable r) (setEnumerable (resultEnumerable r) desc))"

definition defineOwnPropertyThrowsException :: "'s ObjectMethods \<Rightarrow> ObjectPropertyName \<Rightarrow> ObjectPropertyDescriptor \<Rightarrow> ('s, unit) js" where
  "defineOwnPropertyThrowsException M P desc = bindJ (vDefineOwnProperty M P desc) (\<lambda>b. if b then retJ () else throwTypeError)"

definition sealKey :: "'s Engine \<Rightarrow> addr \<Rightarrow> 's ObjectMethods \<Rightarrow> property_key \<Rightarrow> ('s, unit) js" where
  "sealKey E self M key =
     bindJ (vGetOwnProperty M (e_keyName E key)) (\<lambda>currentDesc.
       if resultConfigurable currentDesc
       then defineOwnPropertyThrowsException M (e_keyName E key)
              (setConfigurable False (convertToPropertyDescriptor (pureValue E (PointerValue self)) currentDesc))
       else retJ ())"

definition freezeKey :: "'s Engine \<Rightarrow> addr \<Rightarrow> 's ObjectMethods \<Rightarrow> property_key \<Rightarrow> ('s, unit) js" where
  "freezeKey E self M key =
     bindJ (vGetOwnProperty M (e_keyName E key)) (\<lambda>currentDesc.
       if resultHasValue currentDesc \<and> (resultConfigurable currentDesc \<or> resultIsData currentDesc \<and> resultWritable currentDesc)
       then let newDesc = setConfigurable False (convertToPropertyDescriptor (pureValue E (PointerValue self)) currentDesc)
            in defineOwnPropertyThrowsException M (e_keyName E key) (if resultIsData currentDesc then setWritable False newDesc else newDesc)
       else retJ ())"

definition setIntegrityLevel :: "'s Engine \<Rightarrow> addr \<Rightarrow> 's ObjectMethods \<Rightarrow> bool \<Rightarrow> ('s, bool) js" where
  "setIntegrityLevel E self M isSealed =
     bindJ (vPreventExtensions M) (\<lambda>status.
       if \<not> status then retJ False
       else bindJ (vOwnPropertyKeys M) (\<lambda>keys.
            bindJ (mapJ (if isSealed then sealKey E self M else freezeKey E self M) keys) (\<lambda>r. retJ True)))"

fun testKeys :: "'s Engine \<Rightarrow> 's ObjectMethods \<Rightarrow> bool \<Rightarrow> property_key list \<Rightarrow> ('s, bool) js" where
  "testKeys E M isSealed [] = retJ True"
| "testKeys E M isSealed (key # keys) =
     bindJ (vGetOwnProperty M (e_keyName E key)) (\<lambda>currentDesc.
       if resultHasValue currentDesc \<and> resultConfigurable currentDesc then retJ False
       else if resultHasValue currentDesc \<and> \<not> isSealed \<and> resultIsData currentDesc \<and> resultWritable currentDesc then retJ False
       else testKeys E M isSealed keys)"

definition testIntegrityLevel :: "'s Engine \<Rightarrow> 's ObjectMethods \<Rightarrow> bool \<Rightarrow> ('s, bool) js" where
  "testIntegrityLevel E M isSealed =
     bindJ (vIsExtensible M) (\<lambda>extensible.
       if extensible then retJ False else bindJ (vOwnPropertyKeys M) (\<lambda>keys. testKeys E M isSealed keys))"

end
