(* ===== verification/ObjectKeys.thy ===== *)
theory ObjectKeys
  imports OwnPropertyKeys ProxyContract ArrayStorage
begin

text \<open>
  What the own property keys of an object are, what the integrity levels do to it, and which keys a proxy may report. The laws of an
  object that these rely on are the locales \<open>keyed_object\<close>, \<open>integrity_object\<close> and \<open>key_proxied\<close>.
\<close>

section \<open>The order of the keys\<close>

lemma insertIndex_set [simp]: "set (insertIndex i xs) = insert i (set xs)"
  by (induction xs) auto

lemma insertIndex_sorted: "sorted xs \<Longrightarrow> i \<notin> set xs \<Longrightarrow> distinct xs \<Longrightarrow> sorted (insertIndex i xs) \<and> distinct (insertIndex i xs)"
  by (induction xs) auto

definition isIndexKey :: "property_key \<Rightarrow> bool" where
  "isIndexKey k \<longleftrightarrow> indexOfKey k \<noteq> None"

fun isSymbolKey :: "property_key \<Rightarrow> bool" where
  "isSymbolKey (KSymbol s) = True"
| "isSymbolKey (KString s) = False"

lemma classify_result:
  assumes "distinct keys"
  shows "\<exists>idxs. fold classifyKey keys ([], [], []) = (idxs, filter (\<lambda>k. \<not> isIndexKey k \<and> \<not> isSymbolKey k) keys, filter isSymbolKey keys) \<and>
    sorted idxs \<and> distinct idxs \<and> set idxs = {i. \<exists>k \<in> set keys. indexOfKey k = Some i}"
  using assms
proof (induction keys rule: rev_induct)
  case Nil
  then show ?case by simp
next
  case (snoc k keys)
  then obtain idxs where f: "fold classifyKey keys ([], [], []) = (idxs, filter (\<lambda>k. \<not> isIndexKey k \<and> \<not> isSymbolKey k) keys, filter isSymbolKey keys)"
    and i: "sorted idxs" "distinct idxs" "set idxs = {i. \<exists>k \<in> set keys. indexOfKey k = Some i}" by auto
  show ?case
  proof (cases "indexOfKey k")
    case (Some x)
    have "x \<notin> set idxs"
    proof
      assume "x \<in> set idxs"
      then obtain k' where "k' \<in> set keys" "indexOfKey k' = Some x" using i(3) by auto
      then have "k' = k" using Some by (simp add: indexOfKey_iff)
      then show False using snoc.prems \<open>k' \<in> set keys\<close> by simp
    qed
    moreover have "\<not> isSymbolKey k" using Some by (cases k) auto
    moreover have "classifyKey k (idxs, a, b) = (insertIndex x idxs, a, b)" for a b using Some by (simp add: classifyKey_def)
    ultimately show ?thesis using f i Some insertIndex_sorted [of idxs x] by (auto simp: isIndexKey_def)
  next
    case None
    then have "classifyKey k (idxs, a, b) = (if isSymbolKey k then (idxs, a, b @ [k]) else (idxs, a @ [k], b))" for a b
      by (cases k) (simp_all add: classifyKey_def)
    then show ?thesis using f i None by (auto simp: isIndexKey_def)
  qed
qed

lemma ownKeys_order:
  assumes "distinct keys"
  obtains idxs where "objectOwnPropertyKeys keys = map idxKey idxs @ filter (\<lambda>k. \<not> isIndexKey k \<and> \<not> isSymbolKey k) keys @ filter isSymbolKey keys"
    "sorted idxs" "distinct idxs" "idxKey ` set idxs = {k \<in> set keys. isIndexKey k}" "\<forall>i \<in> set idxs. i < 2 ^ 32 - 1"
proof -
  obtain idxs where f: "fold classifyKey keys ([], [], []) = (idxs, filter (\<lambda>k. \<not> isIndexKey k \<and> \<not> isSymbolKey k) keys, filter isSymbolKey keys)"
    and i: "sorted idxs" "distinct idxs" "set idxs = {i. \<exists>k \<in> set keys. indexOfKey k = Some i}" using classify_result [OF assms] by blast
  have "idxKey ` set idxs = {k \<in> set keys. isIndexKey k}" unfolding i(3) isIndexKey_def by (force simp: indexOfKey_iff)
  moreover have "\<forall>i \<in> set idxs. i < 2 ^ 32 - 1" using i(3) by (auto simp: indexOfKey_iff)
  ultimately show ?thesis using that f i by (simp add: objectOwnPropertyKeys_def)
qed

lemma ownKeys_set:
  assumes "distinct keys"
  shows "set (objectOwnPropertyKeys keys) = set keys" "distinct (objectOwnPropertyKeys keys)"
proof -
  obtain idxs where o: "objectOwnPropertyKeys keys = map idxKey idxs @ filter (\<lambda>k. \<not> isIndexKey k \<and> \<not> isSymbolKey k) keys @ filter isSymbolKey keys"
    "sorted idxs" "distinct idxs" "idxKey ` set idxs = {k \<in> set keys. isIndexKey k}" "\<forall>i \<in> set idxs. i < 2 ^ 32 - 1" using assms by (rule ownKeys_order)
  have s: "\<not> isIndexKey k" if "isSymbolKey k" for k using that by (cases k) (auto simp: isIndexKey_def)
  show "set (objectOwnPropertyKeys keys) = set keys" using o(1,4) s by auto
  have "inj_on idxKey (set idxs)" using o(5) idxKey_inj by (intro inj_onI) blast
  then show "distinct (objectOwnPropertyKeys keys)" using o s assms by (auto simp: distinct_map)
qed

section \<open>Objects with keys\<close>

text \<open>What the integrity levels and the keys of a proxy rely on: reading gives the property and changes nothing.\<close>

locale keyed_object =
  fixes E :: "'s Engine" and t :: addr and inv :: "'s \<Rightarrow> bool" and props :: "'s \<Rightarrow> property_key \<Rightarrow> Prop option" and ext :: "'s \<Rightarrow> bool"
  assumes key_own: "inv s \<Longrightarrow> k \<in> dom (props s) \<Longrightarrow> \<exists>g s'. vGetOwnProperty (e_methods E t) (e_keyName E k) s = Some (Inr g, s') \<and>
      resultProp (pureValue E (PointerValue t)) g = props s k \<and> result_ok g \<and> inv s' \<and> props s' = props s \<and> ext s' = ext s"
    and keys_of: "inv s \<Longrightarrow> \<exists>ks s'. vOwnPropertyKeys (e_methods E t) s = Some (Inr ks, s') \<and> distinct ks \<and> set ks = dom (props s) \<and>
      inv s' \<and> props s' = props s \<and> ext s' = ext s"
    and is_ext: "inv s \<Longrightarrow> vIsExtensible (e_methods E t) s = Some (Inr (ext s), s)"
begin

lemma own_key_run:
  assumes "inv s" "props s k = Some p"
  obtains g s1 where "bindJ (vGetOwnProperty (e_methods E t) (e_keyName E k)) f s = f g s1" "resultProp (pureValue E (PointerValue t)) g = Some p" "result_ok g"
    "inv s1" "props s1 = props s" "ext s1 = ext s"
proof -
  have "k \<in> dom (props s)" using assms(2) by blast
  from key_own [OF assms(1) this] obtain g s1 where "vGetOwnProperty (e_methods E t) (e_keyName E k) s = Some (Inr g, s1)"
    "resultProp (pureValue E (PointerValue t)) g = props s k" "result_ok g" "inv s1" "props s1 = props s" "ext s1 = ext s" by blast
  then show ?thesis using that assms(2) by (simp add: bindJ_def)
qed

lemma keys_run:
  assumes "inv s"
  obtains ks s1 where "bindJ (vOwnPropertyKeys (e_methods E t)) f s = f ks s1" "distinct ks" "set ks = dom (props s)" "inv s1" "props s1 = props s" "ext s1 = ext s"
proof -
  from keys_of [OF assms] obtain ks s1 where "vOwnPropertyKeys (e_methods E t) s = Some (Inr ks, s1)" "distinct ks" "set ks = dom (props s)"
    "inv s1" "props s1 = props s" "ext s1 = ext s" by blast
  then show ?thesis using that by (simp add: bindJ_def)
qed

end

fun solid :: "bool \<Rightarrow> Prop \<Rightarrow> bool" where
  "solid isSealed (DataProp v w en c) \<longleftrightarrow> \<not> c \<and> (isSealed \<or> \<not> w)"
| "solid isSealed (AccessorProp g st en c) \<longleftrightarrow> \<not> c"

fun solidify :: "bool \<Rightarrow> Prop \<Rightarrow> Prop" where
  "solidify isSealed (DataProp v w en c) = DataProp v (isSealed \<and> w) en False"
| "solidify isSealed (AccessorProp g st en c) = AccessorProp g st en False"

lemma solid_solidify [simp]: "solid l (solidify l p)" "solid l p \<Longrightarrow> solidify l p = p"
  by (cases p; auto)+

context keyed_object
begin

lemma testKeys_run:
  assumes "inv s" "set ks \<subseteq> dom (props s)"
  shows "\<exists>s'. testKeys E (e_methods E t) l ks s = Some (Inr (\<forall>k \<in> set ks. \<forall>p. props s k = Some p \<longrightarrow> solid l p), s') \<and> inv s' \<and> props s' = props s \<and> ext s' = ext s"
  using assms
proof (induction ks arbitrary: s)
  case Nil
  then show ?case by (intro exI [of _ s]) (simp add: retJ_def)
next
  case (Cons k ks)
  then obtain p where p: "props s k = Some p" by auto
  obtain g s1 where g: "testKeys E (e_methods E t) l (k # ks) s = (if resultHasValue g \<and> resultConfigurable g then retJ False
       else if resultHasValue g \<and> \<not> l \<and> resultIsData g \<and> resultWritable g then retJ False else testKeys E (e_methods E t) l ks) s1"
    "resultProp (pureValue E (PointerValue t)) g = Some p" "result_ok g" "inv s1" "props s1 = props s" "ext s1 = ext s"
    unfolding testKeys.simps by (rule own_key_run [OF Cons.prems(1) p])
  have solid: "(resultHasValue g \<and> resultConfigurable g) \<or> (resultHasValue g \<and> \<not> l \<and> resultIsData g \<and> resultWritable g) \<longleftrightarrow> \<not> solid l p"
    using prop_reads [OF g(2)] by (cases p) auto
  show ?case
  proof (cases "solid l p")
    case True
    then have c: "\<not> (resultHasValue g \<and> resultConfigurable g)" "\<not> (resultHasValue g \<and> \<not> l \<and> resultIsData g \<and> resultWritable g)" using solid by blast+
    have "testKeys E (e_methods E t) l (k # ks) s = testKeys E (e_methods E t) l ks s1" using g(1) unfolding if_not_P [OF c(1)] if_not_P [OF c(2)] .
    moreover obtain s' where "testKeys E (e_methods E t) l ks s1 = Some (Inr (\<forall>k \<in> set ks. \<forall>p. props s k = Some p \<longrightarrow> solid l p), s')"
      "inv s'" "props s' = props s" "ext s' = ext s" using Cons.IH [OF g(4)] Cons.prems(2) g(5,6) by auto
    ultimately show ?thesis using p True by simp
  next
    case False
    then have "testKeys E (e_methods E t) l (k # ks) s = Some (Inr False, s1)" using g(1) solid by (auto simp: retJ_def)
    moreover have "(\<forall>k \<in> set (k # ks). \<forall>p. props s k = Some p \<longrightarrow> solid l p) = False" using p False by auto
    ultimately show ?thesis unfolding \<open>(\<forall>k \<in> set (k # ks). \<forall>p. props s k = Some p \<longrightarrow> solid l p) = False\<close> using g(4-6) by blast
  qed
qed

lemma test_run:
  assumes "inv s"
  shows "\<exists>s'. testIntegrityLevel E (e_methods E t) l s = Some (Inr (\<not> ext s \<and> (\<forall>p \<in> ran (props s). solid l p)), s') \<and> inv s' \<and> props s' = props s \<and> ext s' = ext s"
proof -
  have e: "testIntegrityLevel E (e_methods E t) l s = (if ext s then retJ False else bindJ (vOwnPropertyKeys (e_methods E t)) (testKeys E (e_methods E t) l)) s"
    using is_ext [OF assms] by (simp add: testIntegrityLevel_def bindJ_def)
  show ?thesis
  proof (cases "ext s")
    case True
    then show ?thesis using e assms by (auto simp: retJ_def)
  next
    case False
    obtain ks s1 where k: "bindJ (vOwnPropertyKeys (e_methods E t)) (testKeys E (e_methods E t) l) s = testKeys E (e_methods E t) l ks s1" "distinct ks" "set ks = dom (props s)"
      "inv s1" "props s1 = props s" "ext s1 = ext s" using assms by (rule keys_run)
    have "(\<forall>k \<in> dom (props s). \<forall>p. props s k = Some p \<longrightarrow> solid l p) \<longleftrightarrow> (\<forall>p \<in> ran (props s). solid l p)" by (auto simp: ran_def)
    then show ?thesis using testKeys_run [OF k(4), of ks l] k e False by auto
  qed
qed

end

text \<open>Objects whose definitions follow ECMA-262, and that can always be made not extensible\<close>

locale integrity_object = keyed_object +
  assumes define_own: "inv s \<Longrightarrow> k \<in> dom (props s) \<Longrightarrow> desc_ok d \<Longrightarrow> \<exists>b s'. vDefineOwnProperty (e_methods E t) (e_keyName E k) d s = Some (Inr b, s') \<and>
      inv s' \<and> ext s' = ext s \<and> (b, props s') = (case validateAndApply (ext s) (descOf d) (props s k) of None \<Rightarrow> (False, props s) | Some p \<Rightarrow> (True, (props s)(k \<mapsto> p)))"
    and prevent: "inv s \<Longrightarrow> \<exists>s'. vPreventExtensions (e_methods E t) s = Some (Inr True, s') \<and> inv s' \<and> props s' = props s \<and> \<not> ext s'"

text \<open>The descriptor that \<open>setIntegrityLevel\<close> builds leaves everything but the two attributes.\<close>

definition solidDesc :: "(ObjectGetResult \<Rightarrow> Value) \<Rightarrow> bool \<Rightarrow> ObjectGetResult \<Rightarrow> ObjectPropertyDescriptor" where
  "solidDesc f l g = (let d = setConfigurable False (convertToPropertyDescriptor f g) in if \<not> l \<and> resultIsData g then setWritable False d else d)"

lemma solidDesc_ok:
  assumes p: "resultProp f g = Some p" and g: "result_ok g"
  shows "desc_ok (solidDesc f l g)" "\<not> solid l p \<Longrightarrow> validateAndApply False (descOf (solidDesc f l g)) (Some p) = Some (solidify l p)"
proof -
  let ?d = "solidDesc f l g"
  have ch: "checkProperty (mkData v 0)" "checkProperty (mkAccessor gs 0)" for v gs by (simp_all add: checkProperty_bits mkData_def mkAccessor_def bit_flag32_lits)
  have m: "m_isDataProperty ?d = resultIsData g" "\<not> resultIsData g \<Longrightarrow> m_getterSetter ?d = resultGetterSetter g"
    by (simp_all add: solidDesc_def convertToPropertyDescriptor_def Let_def)
  have "checkProperty ?d" using ch by (auto simp: solidDesc_def convertToPropertyDescriptor_def Let_def intro!: checkProperty_setters)
  then show ok: "desc_ok ?d" using m g by (cases g) (auto simp: desc_ok_def isAccessorDescriptor_def)
  have r: "isWritablePresent ?d = resultIsData g" "descWritable ?d = (resultIsData g \<and> l \<and> resultWritable g)" "isValuePresent ?d = resultIsData g" "resultIsData g \<Longrightarrow> d_value ?d = f g"
    "isEnumerablePresent ?d" "descEnumerable ?d = resultEnumerable g" "isConfigurablePresent ?d" "\<not> descConfigurable ?d"
    by (auto simp: solidDesc_def convertToPropertyDescriptor_def Let_def)
  assume ns: "\<not> solid l p"
  have pr: "IsAccessorDesc (descOf ?d) = (\<not> resultIsData g)" using IsAccessorDesc_descOf [OF ok] m(1) by (simp add: isAccessorDescriptor_def)
  show "validateAndApply False (descOf ?d) (Some p) = Some (solidify l p)"
  proof (cases p)
    case (DataProp v w en c)
    then have "resultIsData g" "f g = v" "resultWritable g = w" "resultEnumerable g = en" using p by (cases g; auto)+
    then show ?thesis using DataProp r pr ns by (auto simp: validateAndApply_def differs_def)
  next
    case (AccessorProp a b en c)
    then obtain gs where "g = AccessorResult gs en c" "a = getterOrUndefined gs" "b = setterOrUndefined gs" using p by (cases g) auto
    then show ?thesis using AccessorProp r pr ns m by (auto simp: validateAndApply_def getterOrUndefined_def setterOrUndefined_def IsDataDesc_def isAccessorDescriptor_def)
  qed
qed

context integrity_object
begin

lemma solid_key:
  assumes "inv s" "\<not> ext s" "props s k = Some p"
  shows "\<exists>s'. (if l then sealKey E t (e_methods E t) else freezeKey E t (e_methods E t)) k s = Some (Inr (), s') \<and> inv s' \<and> \<not> ext s' \<and> props s' = (props s)(k \<mapsto> solidify l p)"
proof -
  let ?f = "pureValue E (PointerValue t)"
  let ?k = "\<lambda>g. if (if l then resultConfigurable g else resultHasValue g \<and> (resultConfigurable g \<or> resultIsData g \<and> resultWritable g))
    then defineOwnPropertyThrowsException (e_methods E t) (e_keyName E k) (solidDesc ?f l g) else retJ ()"
  have eq: "(if l then sealKey E t (e_methods E t) else freezeKey E t (e_methods E t)) k = bindJ (vGetOwnProperty (e_methods E t) (e_keyName E k)) ?k"
    by (auto simp: sealKey_def freezeKey_def solidDesc_def Let_def intro!: arg_cong [of _ _ "bindJ _"])
  obtain g s1 where g: "bindJ (vGetOwnProperty (e_methods E t) (e_keyName E k)) ?k s = ?k g s1" "resultProp ?f g = Some p" "result_ok g"
    "inv s1" "props s1 = props s" "ext s1 = ext s" using assms(1,3) by (rule own_key_run)
  have c: "(if l then resultConfigurable g else resultHasValue g \<and> (resultConfigurable g \<or> resultIsData g \<and> resultWritable g)) \<longleftrightarrow> \<not> solid l p"
    using prop_reads [OF g(2)] by (cases p) auto
  show ?thesis
  proof (cases "solid l p")
    case True
    then have "?k g s1 = Some (Inr (), s1)" using c by (simp add: retJ_def)
    moreover have "(props s)(k \<mapsto> solidify l p) = props s" using True assms(3) by (simp add: fun_upd_idem)
    ultimately show ?thesis unfolding eq using g assms(2) by auto
  next
    case False
    have "k \<in> dom (props s1)" using assms(3) g(5) by auto
    from define_own [OF g(4) this solidDesc_ok(1) [OF g(2,3)], of l] obtain b s2 where
      d: "vDefineOwnProperty (e_methods E t) (e_keyName E k) (solidDesc ?f l g) s1 = Some (Inr b, s2)" "inv s2" "ext s2 = ext s1"
        "(b, props s2) = (case validateAndApply (ext s1) (descOf (solidDesc ?f l g)) (props s1 k) of None \<Rightarrow> (False, props s1) | Some p \<Rightarrow> (True, (props s1)(k \<mapsto> p)))" by blast
    then have "b" "props s2 = (props s)(k \<mapsto> solidify l p)" using solidDesc_ok(2) [OF g(2,3) False] g(5,6) assms(2,3) by simp_all
    moreover have "?k g s1 = Some (Inr (), s2)" if b unfolding c using False d(1) that by (simp add: defineOwnPropertyThrowsException_def bindJ_def retJ_def)
    ultimately show ?thesis unfolding eq using g d assms(2) by auto
  qed
qed

lemma solid_keys:
  assumes "inv s" "\<not> ext s" "set ks \<subseteq> dom (props s)" "distinct ks"
  shows "\<exists>r s'. mapJ (if l then sealKey E t (e_methods E t) else freezeKey E t (e_methods E t)) ks s = Some (Inr r, s') \<and> inv s' \<and> \<not> ext s' \<and>
    props s' = (\<lambda>k. if k \<in> set ks then map_option (solidify l) (props s k) else props s k)"
  using assms
proof (induction ks arbitrary: s)
  case Nil
  then show ?case by (simp add: retJ_def)
next
  case (Cons k ks)
  then obtain p where p: "props s k = Some p" by auto
  let ?m = "if l then sealKey E t (e_methods E t) else freezeKey E t (e_methods E t)"
  obtain s1 where s1: "?m k s = Some (Inr (), s1)" "inv s1" "\<not> ext s1" "props s1 = (props s)(k \<mapsto> solidify l p)"
    using solid_key [OF Cons.prems(1,2) p] by blast
  have "set ks \<subseteq> dom (props s1)" using Cons.prems(3) s1(4) by auto
  from Cons.IH [OF s1(2,3) this] Cons.prems(4) obtain r s2 where s2: "mapJ ?m ks s1 = Some (Inr r, s2)" "inv s2" "\<not> ext s2"
    "props s2 = (\<lambda>k. if k \<in> set ks then map_option (solidify l) (props s1 k) else props s1 k)" by auto
  have "mapJ ?m (k # ks) s = Some (Inr (() # r), s2)" using s1(1) s2(1) by (simp add: bindJ_def retJ_def)
  moreover have "props s2 = (\<lambda>x. if x \<in> set (k # ks) then map_option (solidify l) (props s x) else props s x)"
    unfolding s2(4) s1(4) using p Cons.prems(4) by (auto simp: fun_eq_iff)
  ultimately show ?case using s2(2,3) by blast
qed

lemma set_run:
  assumes "inv s"
  shows "\<exists>s'. setIntegrityLevel E t (e_methods E t) l s = Some (Inr True, s') \<and> inv s' \<and> \<not> ext s' \<and> props s' = map_option (solidify l) \<circ> props s"
proof -
  obtain s1 where s1: "vPreventExtensions (e_methods E t) s = Some (Inr True, s1)" "inv s1" "props s1 = props s" "\<not> ext s1" using prevent [OF assms] by blast
  let ?loop = "\<lambda>keys. bindJ (mapJ (if l then sealKey E t (e_methods E t) else freezeKey E t (e_methods E t)) keys) (\<lambda>r. retJ True)"
  obtain ks s2 where k: "bindJ (vOwnPropertyKeys (e_methods E t)) ?loop s1 = ?loop ks s2" "distinct ks" "set ks = dom (props s1)" "inv s2" "props s2 = props s1" "ext s2 = ext s1"
    using s1(2) by (rule keys_run)
  have sub: "set ks \<subseteq> dom (props s2)" "\<not> ext s2" using k s1(4) by auto
  obtain r s3 where s3: "mapJ (if l then sealKey E t (e_methods E t) else freezeKey E t (e_methods E t)) ks s2 = Some (Inr r, s3)" "inv s3" "\<not> ext s3"
    "props s3 = (\<lambda>k. if k \<in> set ks then map_option (solidify l) (props s2 k) else props s2 k)" using solid_keys [OF k(4) sub(2,1) k(2), of l] by blast
  have "props s3 = map_option (solidify l) \<circ> props s" unfolding s3(4) k(3,5) s1(3)
  proof
    show "(if x \<in> dom (props s) then map_option (solidify l) (props s x) else props s x) = (map_option (solidify l) \<circ> props s) x" for x
      by (cases "props s x") auto
  qed
  moreover have "setIntegrityLevel E t (e_methods E t) l s = Some (Inr True, s3)"
    using s1(1) k(1) s3(1) by (simp add: setIntegrityLevel_def bindJ_def retJ_def)
  ultimately show ?thesis using s3 by blast
qed

end

section \<open>The keys of a proxy\<close>

lemma hasDuplicate_iff [simp]: "hasDuplicate xs \<longleftrightarrow> \<not> distinct xs"
  by (induction xs) auto

lemma removeKeys_result:
  "distinct keys \<Longrightarrow> removeKeys keys xs = (if set keys \<subseteq> set xs then Some (filter (\<lambda>k. k \<notin> set keys) xs) else None)"
proof (induction keys arbitrary: xs)
  case (Cons k keys)
  have "set keys \<subseteq> set (filter (\<lambda>x. x \<noteq> k) xs) \<longleftrightarrow> set keys \<subseteq> set xs" using Cons.prems by auto
  then show ?case using Cons by (auto simp: conj_commute)
qed simp

lemma checkKeys_iff:
  assumes "distinct nonconf" "distinct conf" "set nonconf \<inter> set conf = {}"
  shows "checkKeys e nonconf conf ks \<longleftrightarrow> set nonconf \<subseteq> set ks \<and> (e \<or> set ks = set nonconf \<union> set conf)"
proof (cases "set nonconf \<subseteq> set ks")
  case True
  let ?u = "filter (\<lambda>k. k \<notin> set nonconf) ks"
  have "set conf \<subseteq> set ?u \<longleftrightarrow> set conf \<subseteq> set ks" using assms(3) by auto
  moreover have "filter (\<lambda>k. k \<notin> set conf) ?u = [] \<longleftrightarrow> set ks \<subseteq> set nonconf \<union> set conf" by (auto simp: filter_empty_conv)
  ultimately show ?thesis using True removeKeys_result [OF assms(1), of ks] removeKeys_result [OF assms(2), of ?u] by (auto simp: checkKeys_def)
next
  case False
  then have "nonconf \<noteq> []" by auto
  then show ?thesis using False removeKeys_result [OF assms(1), of ks] by (simp add: checkKeys_def)
qed

locale key_proxied = keyed_object +
  assumes get_static: "keepsJ inv (vGet (e_methods E p) (e_staticName E n) rc)"
    and get_index: "keepsJ inv (vGet (e_methods E p) (e_indexName E i) rc)"
    and get_length: "keepsJ inv (vLength (e_methods E p))"
    and run_call: "keepsJ inv (vCall (e_methods E p) thisValue args)"
    and own_any: "keepsJ inv (vGetOwnProperty (e_methods E t) (e_keyName E k))"
begin

lemma call_keeps: "keepsJ inv (callJ E f thisValue args)"
  using run_call by (auto simp: callJ_def split: Value.splits)

lemma value_keeps: "keepsJ inv (valueJ E rc g)"
  using call_keeps by (cases g) auto

lemma method_keeps: "keepsJ inv (getMethod E p (e_staticName E n))"
  unfolding getMethod_def by (intro keepsJ_bind keepsJ_if keepsJ_basic value_keeps get_static)

lemma elements_keep: "keepsJ inv (arrayLikeElements E obj i n)"
proof (induction n arbitrary: i)
  case (Suc n)
  have "keepsJ inv (case keyOfValue E v of None \<Rightarrow> throwTypeError | Some k \<Rightarrow> bindJ (arrayLikeElements E obj (i + 1) n) (\<lambda>ks. retJ (k # ks)))" for v
    using Suc by (cases "keyOfValue E v") auto
  then show ?case unfolding arrayLikeElements.simps by (intro keepsJ_bind value_keeps get_index)
qed simp

lemma list_keeps: "keepsJ inv (createListFromArrayLike E v)"
  using elements_keep get_length by (cases v) (auto simp: createListFromArrayLike_def)

lemma mapJ_keeps: "(\<And>x. keepsJ inv (f x)) \<Longrightarrow> keepsJ inv (mapJ f xs)"
  by (induction xs) auto

lemma proxyKeys_keeps:
  assumes "m_target px = Some t"
  shows "keepsJ inv (proxyOwnPropertyKeys E px)"
proof -
  have "keepsJ inv (vOwnPropertyKeys (e_methods E t))" "keepsJ inv (vIsExtensible (e_methods E t))" using keys_of is_ext by (fastforce simp: keepsJ_def)+
  then show ?thesis using assms unfolding proxyOwnPropertyKeys_def withTrap_def
    by (cases "m_handler px") (simp_all, intro keepsJ_bind keepsJ_if keepsJ_basic method_keeps call_keeps list_keeps mapJ_keeps own_any)
qed

lemma mark_keys:
  assumes "inv s" "set ks \<subseteq> dom (props s)"
  shows "\<exists>s'. mapJ (\<lambda>key. bindJ (vGetOwnProperty (e_methods E t) (e_keyName E key)) (\<lambda>desc. retJ (key, resultHasValue desc \<and> \<not> resultConfigurable desc))) ks s =
      Some (Inr (map (\<lambda>k. (k, \<exists>p. props s k = Some p \<and> \<not> propConfigurable p)) ks), s') \<and> inv s' \<and> props s' = props s \<and> ext s' = ext s"
  using assms
proof (induction ks arbitrary: s)
  case Nil
  then show ?case by (simp add: retJ_def)
next
  case (Cons k ks)
  then obtain p where p: "props s k = Some p" by auto
  let ?f = "\<lambda>key. bindJ (vGetOwnProperty (e_methods E t) (e_keyName E key)) (\<lambda>desc. retJ (key, resultHasValue desc \<and> \<not> resultConfigurable desc))"
  obtain g s1 where g: "?f k s = retJ (k, resultHasValue g \<and> \<not> resultConfigurable g) s1"
    "resultProp (pureValue E (PointerValue t)) g = Some p" "result_ok g" "inv s1" "props s1 = props s" "ext s1 = ext s" using Cons.prems(1) p by (rule own_key_run)
  have c: "resultHasValue g \<and> \<not> resultConfigurable g \<longleftrightarrow> \<not> propConfigurable p" using prop_reads(1,2) [OF g(2)] by simp
  obtain s2 where s2: "mapJ ?f ks s1 = Some (Inr (map (\<lambda>k. (k, \<exists>p. props s k = Some p \<and> \<not> propConfigurable p)) ks), s2)" "inv s2" "props s2 = props s" "ext s2 = ext s"
    using Cons.IH [OF g(4)] Cons.prems(2) g(5,6) by auto
  have "mapJ ?f (k # ks) s = Some (Inr ((k, \<not> propConfigurable p) # map (\<lambda>k. (k, \<exists>p. props s k = Some p \<and> \<not> propConfigurable p)) ks), s2)"
    using g(1) c s2(1) by (simp add: bindJ_def retJ_def)
  then show ?case using s2 p by simp
qed

end

text \<open>
  The keys that a trap gives are accepted exactly when they are distinct, have every key of the target that is not configurable, and are
  those of the target when it is not extensible.
\<close>

definition keys_allowed :: "(property_key \<Rightarrow> Prop option) \<Rightarrow> bool \<Rightarrow> property_key list \<Rightarrow> bool" where
  "keys_allowed ps e ks \<longleftrightarrow> distinct ks \<and> (\<forall>k p. ps k = Some p \<and> \<not> propConfigurable p \<longrightarrow> k \<in> set ks) \<and> (e \<or> set ks = dom ps)"

lemma checkKeys_allowed:
  assumes "distinct tk" "set tk = dom ps" "marked = map (\<lambda>k. (k, \<exists>p. ps k = Some p \<and> \<not> propConfigurable p)) tk" "distinct ks"
  shows "checkKeys e (map fst (filter snd marked)) (map fst (filter (\<lambda>m. \<not> snd m) marked)) ks \<longleftrightarrow> keys_allowed ps e ks"
proof -
  have mf: "map fst (filter snd marked) = filter (\<lambda>k. \<exists>p. ps k = Some p \<and> \<not> propConfigurable p) tk"
    "map fst (filter (\<lambda>m. \<not> snd m) marked) = filter (\<lambda>k. \<not> (\<exists>p. ps k = Some p \<and> \<not> propConfigurable p)) tk"
    unfolding assms(3) by (simp_all add: filter_map comp_def)
  have "set (filter (\<lambda>k. \<exists>p. ps k = Some p \<and> \<not> propConfigurable p) tk) \<union> set (filter (\<lambda>k. \<not> (\<exists>p. ps k = Some p \<and> \<not> propConfigurable p)) tk) = dom ps"
    unfolding assms(2) [symmetric] by auto
  moreover have "set (filter (\<lambda>k. \<exists>p. ps k = Some p \<and> \<not> propConfigurable p) tk) \<subseteq> set ks \<longleftrightarrow> (\<forall>k p. ps k = Some p \<and> \<not> propConfigurable p \<longrightarrow> k \<in> set ks)"
    using assms(2) by auto
  ultimately show ?thesis unfolding mf using assms(1,4) by (subst checkKeys_iff) (auto simp: keys_allowed_def)
qed

context key_proxied
begin

lemma keys_trapped:
  assumes s: "inv s" and t: "m_target px = Some t" and a: "trapAnswers E px ''ownKeys'' (retJ [PointerValue t]) s arr s1"
    and l: "createListFromArrayLike E arr s1 = Some (Inr ks, s2)"
  shows "\<exists>s'. proxyOwnPropertyKeys E px s = Some (if keys_allowed (props s2) (ext s2) ks then Inr ks else Inl TypeError, s') \<and>
    inv s' \<and> props s' = props s2 \<and> ext s' = ext s2"
proof -
  let ?mark = "mapJ (\<lambda>key. bindJ (vGetOwnProperty (e_methods E t) (e_keyName E key)) (\<lambda>desc. retJ (key, resultHasValue desc \<and> \<not> resultConfigurable desc)))"
  let ?check = "\<lambda>e marked. if checkKeys e (map fst (filter snd marked)) (map fst (filter (\<lambda>m. \<not> snd m) marked)) ks then retJ ks else throwTypeError"
  from a obtain h trap s0 where h: "m_handler px = Some h" "getMethod E h (e_staticName E ''ownKeys'') s = Some (Inr trap, s0)" "trap \<noteq> Undefined"
    "callJ E trap (PointerValue h) [PointerValue t] s0 = Some (Inr arr, s1)" by (auto simp: trapAnswers_def retJ_def)
  have i2: "inv s2" using keepsJ_D [OF list_keeps keepsJ_D [OF call_keeps keepsJ_D [OF method_keeps s h(2)] h(4)] l] .
  have run: "proxyOwnPropertyKeys E px s = (if hasDuplicate ks then throwTypeError
      else bindJ (vOwnPropertyKeys (e_methods E t)) (\<lambda>targetKeys. bindJ (?mark targetKeys) (?check (ext s2)))) s2"
    using h t l is_ext [OF i2] by (simp add: proxyOwnPropertyKeys_def withTrap_def bindJ_def [of "getMethod E h _"] bindJ_def [of "callJ E trap _ _"]
      bindJ_def [of "createListFromArrayLike E arr"] bindJ_def [of "vIsExtensible (e_methods E t)"])
  show ?thesis
  proof (cases "distinct ks")
    case False
    then show ?thesis using run i2 by (simp add: keys_allowed_def throwTypeError_def)
  next
    case True
    obtain tk s3 where k: "bindJ (vOwnPropertyKeys (e_methods E t)) (\<lambda>targetKeys. bindJ (?mark targetKeys) (?check (ext s2))) s2 = bindJ (?mark tk) (?check (ext s2)) s3"
      "distinct tk" "set tk = dom (props s2)" "inv s3" "props s3 = props s2" "ext s3 = ext s2" using i2 by (rule keys_run)
    define marked where "marked = map (\<lambda>k. (k, \<exists>p. props s3 k = Some p \<and> \<not> propConfigurable p)) tk"
    have "set tk \<subseteq> dom (props s3)" using k by simp
    from mark_keys [OF k(4) this] obtain s4 where s4: "?mark tk s3 = Some (Inr marked, s4)" "inv s4" "props s4 = props s3" "ext s4 = ext s3"
      unfolding marked_def by blast
    have "checkKeys (ext s2) (map fst (filter snd marked)) (map fst (filter (\<lambda>m. \<not> snd m) marked)) ks \<longleftrightarrow> keys_allowed (props s2) (ext s2) ks"
      using k(2,3) _ True by (rule checkKeys_allowed) (simp add: marked_def k(5))
    then have "proxyOwnPropertyKeys E px s = Some (if keys_allowed (props s2) (ext s2) ks then Inr ks else Inl TypeError, s4)"
      using run True k(1) s4(1) by (simp add: bindJ_def [of "?mark tk"] throwTypeError_def retJ_def)
    then show ?thesis using s4(2-4) k(5,6) by (intro exI [of _ s4]) simp
  qed
qed

text \<open>A proxy that returns keys returns those of its target when there is no trap, and otherwise those that the trap gives.\<close>

lemma keys_consistent:
  assumes s: "inv s" and t: "m_target px = Some t" and r: "proxyOwnPropertyKeys E px s = Some (Inr ks, s')"
  shows "(\<exists>s1. inv s1 \<and> untrapped E px ''ownKeys'' s s1 \<and> vOwnPropertyKeys (e_methods E t) s1 = Some (Inr ks, s')) \<or>
    (\<exists>arr s1 s2. trapAnswers E px ''ownKeys'' (retJ [PointerValue t]) s arr s1 \<and> createListFromArrayLike E arr s1 = Some (Inr ks, s2)) \<and>
    keys_allowed (props s') (ext s') ks"
proof -
  obtain h where h: "m_handler px = Some h" using r by (cases "m_handler px") (auto simp: proxyOwnPropertyKeys_def withTrap_def)
  from r [unfolded proxyOwnPropertyKeys_def withTrap_def h t option.case] obtain trap s1 where s1: "getMethod E h (e_staticName E ''ownKeys'') s = Some (Inr trap, s1)"
    and k1: "(if trap = Undefined then vOwnPropertyKeys (e_methods E t) else bindJ (callJ E trap (PointerValue h) [PointerValue t]) (\<lambda>arr.
      bindJ (createListFromArrayLike E arr) (\<lambda>trapResult. if hasDuplicate trapResult then throwTypeError
         else bindJ (vIsExtensible (e_methods E t)) (\<lambda>extensibleTarget. bindJ (vOwnPropertyKeys (e_methods E t)) (\<lambda>targetKeys.
         bindJ (mapJ (\<lambda>key. bindJ (vGetOwnProperty (e_methods E t) (e_keyName E key)) (\<lambda>desc. retJ (key, resultHasValue desc \<and> \<not> resultConfigurable desc)))
                 targetKeys) (\<lambda>marked.
           if checkKeys extensibleTarget (map fst (filter snd marked)) (map fst (filter (\<lambda>m. \<not> snd m) marked)) trapResult
           then retJ trapResult else throwTypeError)))))) s1 = Some (Inr ks, s')" by (rule bindJ_Inr)
  show ?thesis
  proof (cases "trap = Undefined")
    case True
    then show ?thesis using k1 keepsJ_D [OF method_keeps s s1] s1 h by (auto simp: untrapped_def)
  next
    case False
    from k1 [unfolded if_not_P [OF False]] obtain arr s2 ks' s3 where "callJ E trap (PointerValue h) [PointerValue t] s1 = Some (Inr arr, s2)"
      and l: "createListFromArrayLike E arr s2 = Some (Inr ks', s3)" by (elim bindJ_Inr)
    then have a: "trapAnswers E px ''ownKeys'' (retJ [PointerValue t]) s arr s2" by (intro trapAnswersI [OF h s1 False])
    from keys_trapped [OF s t a l] r have "ks' = ks" "keys_allowed (props s') (ext s') ks" by (auto split: if_splits)
    then show ?thesis using a l by blast
  qed
qed

end

end
