(* ===== verification/HeapEngine.thy ===== *)
theory HeapEngine
  imports ObjectKeys
begin

section \<open>Ordinary objects as targets\<close>

text \<open>
  The engine over the heap of ordinary objects. \<open>locate\<close> gives the object at an address; every other address is a symbol, or an object of which
  nothing is known, such as a handler, a function, another proxy or the proxy itself: each request to it runs a script, which may do any operations
  on existing objects and then throws or gives any answer.
\<close>

datatype Request =
  AskGetOwnProperty ObjectPropertyName
| AskDefineOwnProperty ObjectPropertyName ObjectPropertyDescriptor
| AskDeleteOwnProperty ObjectPropertyName
| AskHasProperty ObjectPropertyName
| AskGet ObjectPropertyName Value
| AskSet ObjectPropertyName Value Value
| AskIsExtensible
| AskPreventExtensions
| AskGetPrototype
| AskSetPrototype Value
| AskOwnPropertyKeys
| AskLength
| AskToLength Value
| AskCall Value "Value list"
| AskConstruct "Value list" addr
| AskDescriptor ObjectPropertyDescriptor
| AskArray "Value list"

record Answer =
  a_value :: Value
  a_bool :: bool
  a_result :: ObjectGetResult
  a_keys :: "property_key list"
  a_length :: nat

type_synonym script = "addr \<Rightarrow> Request \<Rightarrow> Heap \<Rightarrow> ObjectOp list \<times> (Thrown + Answer)"

definition runScript :: "pname set \<Rightarrow> NativeCode \<Rightarrow> ObjectOp list \<times> (Thrown + Answer) \<Rightarrow> (Heap, Answer) js" where
  "runScript N nc code h =
     map_option (\<lambda>h'. (snd code, h')) (run_ops nc (filter (object_op_ok N (h_env h) (length (h_objects h))) (fst code)) h)"

definition scriptJ :: "pname set \<Rightarrow> NativeCode \<Rightarrow> script \<Rightarrow> addr \<Rightarrow> (Answer \<Rightarrow> 'a) \<Rightarrow> Request \<Rightarrow> (Heap, 'a) js" where
  "scriptJ N nc script p part request = bindJ (\<lambda>h. runScript N nc (script p request h) h) (\<lambda>a. retJ (part a))"

definition liftH :: "('b \<Rightarrow> 'a) \<Rightarrow> ('b \<times> Heap) option \<Rightarrow> ((Thrown + 'a) \<times> Heap) option" where
  "liftH f r = map_option (\<lambda>(x, h). (Inr (f x), h)) r"

definition protoValue :: "(nat \<Rightarrow> addr) \<Rightarrow> nat option \<Rightarrow> Value" where
  "protoValue address q = (case q of None \<Rightarrow> Null | Some ob \<Rightarrow> PointerValue (address ob))"

definition receiverOf :: "(addr \<Rightarrow> nat option) \<Rightarrow> Value \<Rightarrow> nat option" where
  "receiverOf locate v = (case v of PointerValue p \<Rightarrow> locate p | _ \<Rightarrow> None)"

text \<open>The prototype that a value stands for: null or an object of the heap. The heap has no prototypes outside of it.\<close>

definition prototypeOf :: "(addr \<Rightarrow> nat option) \<Rightarrow> Value \<Rightarrow> nat option option" where
  "prototypeOf locate v = (case v of Null \<Rightarrow> Some None | PointerValue p \<Rightarrow> map_option Some (locate p) | _ \<Rightarrow> None)"

text \<open>The methods of an object whose every method is a script\<close>

definition scriptMethods :: "pname set \<Rightarrow> NativeCode \<Rightarrow> script \<Rightarrow> addr \<Rightarrow> Heap ObjectMethods" where
  "scriptMethods N nc script p =
     \<lparr>vGetOwnProperty = (\<lambda>P. scriptJ N nc script p a_result (AskGetOwnProperty P)),
      vDefineOwnProperty = (\<lambda>P desc. scriptJ N nc script p a_bool (AskDefineOwnProperty P desc)),
      vDeleteOwnProperty = (\<lambda>P. scriptJ N nc script p a_bool (AskDeleteOwnProperty P)),
      vHasProperty = (\<lambda>P. scriptJ N nc script p a_bool (AskHasProperty P)),
      vGet = (\<lambda>P rc. scriptJ N nc script p a_result (AskGet P rc)),
      vSet = (\<lambda>P v rc. scriptJ N nc script p a_bool (AskSet P v rc)),
      vIsExtensible = scriptJ N nc script p a_bool AskIsExtensible,
      vPreventExtensions = scriptJ N nc script p a_bool AskPreventExtensions,
      vGetPrototype = scriptJ N nc script p a_value AskGetPrototype,
      vSetPrototype = (\<lambda>v. scriptJ N nc script p a_bool (AskSetPrototype v)),
      vOwnPropertyKeys = scriptJ N nc script p a_keys AskOwnPropertyKeys,
      vLength = scriptJ N nc script p a_length AskLength,
      vCall = (\<lambda>thisValue args. scriptJ N nc script p a_value (AskCall thisValue args)),
      vConstruct = (\<lambda>args newTarget. scriptJ N nc script p a_value (AskConstruct args newTarget))\<rparr>"

text \<open>The engine whose objects have the given methods; an address that is not in the heap may be a symbol.\<close>

definition engineWith ::
  "pname set \<Rightarrow> NativeCode \<Rightarrow> (addr \<Rightarrow> nat option) \<Rightarrow> script \<Rightarrow> (addr \<Rightarrow> bool) \<Rightarrow> (string \<Rightarrow> ObjectPropertyName) \<Rightarrow>
    (property_key \<Rightarrow> ObjectPropertyName) \<Rightarrow> (ObjectPropertyName \<Rightarrow> Value) \<Rightarrow> (addr \<Rightarrow> Heap ObjectMethods) \<Rightarrow> Heap Engine" where
  "engineWith N nc locate script symbol names keyName keyValue methods =
     \<lparr>e_methods = methods, e_isObject = (\<lambda>p. locate p \<noteq> None \<or> \<not> symbol p), e_isSymbol = (\<lambda>p. locate p = None \<and> symbol p),
      e_isCallable = callable nc, e_isConstructor = callable nc,
      e_nativeValue = (\<lambda>rc. dataValue nc (receiverOf locate rc)), e_staticName = names, e_keyName = keyName,
      e_keyValue = keyValue, e_indexName = (\<lambda>i. keyName (idxKey i)),
      e_fromDescriptor = (\<lambda>desc. scriptJ N nc script 0 a_value (AskDescriptor desc)), e_newArray = (\<lambda>args. scriptJ N nc script 0 a_value (AskArray args))\<rparr>"

text \<open>\<open>Object::set\<close> once the property is found, on a receiver that is an object outside the heap\<close>

definition setOnReceiverJ :: "'s ObjectMethods \<Rightarrow> ObjectPropertyName \<Rightarrow> Value \<Rightarrow> ('s, bool) js" where
  "setOnReceiverJ M P v =
     bindJ (vGetOwnProperty M P) (\<lambda>existingDesc.
       if resultHasValue existingDesc
       then if \<not> resultIsData existingDesc then retJ False
            else if \<not> resultWritable existingDesc then retJ False
            else vDefineOwnProperty M P (mkData v 0)
       else vDefineOwnProperty M P (mkData v DescAllPresent))"

definition setOutside :: "Heap Engine \<Rightarrow> ObjectPropertyName \<Rightarrow> Value \<Rightarrow> addr \<Rightarrow> ObjectGetResult \<Rightarrow> (Heap, bool) js" where
  "setOutside E P v receiver found =
     (let ownDesc = (if resultHasValue found then found else DataResult Undefined True True True)
      in if resultIsData ownDesc
         then if \<not> resultWritable ownDesc then retJ False
              else if actsLikeJSGetterSetter ownDesc then (\<lambda>h. None)
              else setOnReceiverJ (e_methods E receiver) P v
         else let setter = setterOrUndefined (resultGetterSetter ownDesc)
              in if setter = Undefined then retJ False else bindJ (callJ E setter (PointerValue receiver) [v]) (\<lambda>r. retJ True))"

definition ordinarySet ::
  "NativeCode \<Rightarrow> (addr \<Rightarrow> nat option) \<Rightarrow> Heap Engine \<Rightarrow> nat \<Rightarrow> ObjectPropertyName \<Rightarrow> Value \<Rightarrow> Value \<Rightarrow> (Heap, bool) js" where
  "ordinarySet nc locate E ob P v rc =
     (if isObjectValue E rc \<and> receiverOf locate rc = None
      then case rc of
             PointerValue receiver \<Rightarrow> bindJ (\<lambda>h. liftH id (objectGet P h ob)) (setOutside E P v receiver)
           | _ \<Rightarrow> retJ False
      else bindJ (\<lambda>h. liftH id (objectSet nc P v (receiverOf locate rc) h ob)) (\<lambda>outcome.
             case outcome of
               SetReturns b \<Rightarrow> retJ b
             | SetCalls f \<Rightarrow> bindJ (callJ E f rc [v]) (\<lambda>r. retJ True)))"

text \<open>
  \<open>Object::length\<close>: the property is read as any other, and its value converted. The conversion is written out for the integers that it leaves
  as they are; that of any other value is an answer of the script, as it may call \<open>valueOf\<close>.
\<close>

definition ordinaryLength :: "pname set \<Rightarrow> NativeCode \<Rightarrow> script \<Rightarrow> Heap Engine \<Rightarrow> addr \<Rightarrow> nat \<Rightarrow> (Heap, nat) js" where
  "ordinaryLength N nc script E p ob =
     bindJ (\<lambda>h. liftH id (objectGet (e_staticName E ''length'') h ob)) (\<lambda>r.
     bindJ (valueJ E (PointerValue p) r) (\<lambda>v.
       case v of Int32 i \<Rightarrow> retJ (nat i) | _ \<Rightarrow> scriptJ N nc script p a_length (AskToLength v)))"

text \<open>The methods of an ordinary object. Calls and receivers outside the heap go through the engine \<open>E\<close> of scripts.\<close>

definition onObject :: "nat \<Rightarrow> (Heap, 'a) js \<Rightarrow> (Heap, 'a) js" where
  "onObject ob m h = (if ob < length (h_objects h) then m h else None)"

definition ordinaryMethods ::
  "pname set \<Rightarrow> NativeCode \<Rightarrow> (nat \<Rightarrow> addr) \<Rightarrow> (addr \<Rightarrow> nat option) \<Rightarrow> script \<Rightarrow> Heap Engine \<Rightarrow> addr \<Rightarrow> nat \<Rightarrow> Heap ObjectMethods" where
  "ordinaryMethods N nc address locate script E p ob = (scriptMethods N nc script p)\<lparr>
     vGetOwnProperty := (\<lambda>P. onObject ob (\<lambda>h. liftH id (getOwnProperty h ob P))),
     vDefineOwnProperty := (\<lambda>P desc. onObject ob (\<lambda>h. liftH id (defineOwnProperty nc h ob P desc))),
     vDeleteOwnProperty := (\<lambda>P. onObject ob (\<lambda>h. liftH id (deleteOwnProperty h ob P))),
     vHasProperty := (\<lambda>P. onObject ob (\<lambda>h. liftH resultHasValue (hasProperty P h ob))),
     vGet := (\<lambda>P rc. onObject ob (\<lambda>h. liftH id (objectGet P h ob))),
     vSet := (\<lambda>P v rc. onObject ob (ordinarySet nc locate E ob P v rc)),
     vIsExtensible := onObject ob (\<lambda>h. Some (Inr (o_isExtensible (h_objects h ! ob)), h)),
     vPreventExtensions := onObject ob (\<lambda>h. Some (Inr (fst (preventExtensions h ob)), snd (preventExtensions h ob))),
     vGetPrototype := onObject ob (\<lambda>h. Some (Inr (protoValue address (getPrototypeObject h ob)), h)),
     vSetPrototype := (\<lambda>v. onObject ob (\<lambda>h. case prototypeOf locate v of None \<Rightarrow> None | Some q \<Rightarrow> liftH id (setPrototype h ob q))),
     vOwnPropertyKeys := onObject ob (\<lambda>h. map_option (\<lambda>ks. (Inr ks, h)) (ownPropertyKeys h ob)),
     vLength := onObject ob (ordinaryLength N nc script E p ob)\<rparr>"

definition heapEngine ::
  "pname set \<Rightarrow> NativeCode \<Rightarrow> (nat \<Rightarrow> addr) \<Rightarrow> (addr \<Rightarrow> nat option) \<Rightarrow> script \<Rightarrow> (addr \<Rightarrow> bool) \<Rightarrow> (string \<Rightarrow> ObjectPropertyName) \<Rightarrow>
    (property_key \<Rightarrow> ObjectPropertyName) \<Rightarrow> (ObjectPropertyName \<Rightarrow> Value) \<Rightarrow> Heap Engine" where
  "heapEngine N nc address locate script symbol names keyName keyValue =
     (let scripts = engineWith N nc locate script symbol names keyName keyValue (scriptMethods N nc script)
      in engineWith N nc locate script symbol names keyName keyValue (\<lambda>p.
           case locate p of Some ob \<Rightarrow> ordinaryMethods N nc address locate script scripts p ob | None \<Rightarrow> scriptMethods N nc script p))"

text \<open>Every key of an object in the heap is that of a name in \<open>N\<close>, and \<open>keyName\<close> gives a name with the same key.\<close>

definition engine_ok ::
  "pname set \<Rightarrow> (addr \<Rightarrow> nat option) \<Rightarrow> (string \<Rightarrow> ObjectPropertyName) \<Rightarrow> (property_key \<Rightarrow> ObjectPropertyName) \<Rightarrow> addr \<Rightarrow> nat \<Rightarrow> Heap \<Rightarrow> bool" where
  "engine_ok N locate names keyName t ob h \<longleftrightarrow> heap_ok N h \<and> ob < length (h_objects h) \<and> locate t = Some ob \<and> (\<forall>x \<in> ran locate. x < length (h_objects h)) \<and>
     (\<forall>n. valid_name N (h_env h) (names n)) \<and> (\<forall>k. valid_name N (h_env h) (keyName k)) \<and>
     (\<forall>n \<in> N. keyOf h (keyName (nkey (strings (h_env h)) n)) = nkey (strings (h_env h)) n)"

text \<open>The heaps that follow one in which some names \<open>V\<close> are known.\<close>

definition engine_from ::
  "pname set \<Rightarrow> (addr \<Rightarrow> nat option) \<Rightarrow> (string \<Rightarrow> ObjectPropertyName) \<Rightarrow> (property_key \<Rightarrow> ObjectPropertyName) \<Rightarrow> addr \<Rightarrow> nat \<Rightarrow>
    ObjectPropertyName set \<Rightarrow> Heap \<Rightarrow> Heap \<Rightarrow> bool" where
  "engine_from N locate names keyName t ob V h0 h \<longleftrightarrow> engine_ok N locate names keyName t ob h \<and> (\<forall>P \<in> V. valid_name N (h_env h) P) \<and> heap_keeps N h0 h"

lemma engine_ok_keeps: "engine_ok N locate names keyName t ob h \<Longrightarrow> heap_keeps N h h' \<Longrightarrow> engine_ok N locate names keyName t ob h'"
  by (simp add: engine_ok_def heap_keeps_def)

lemma heap_keeps_env: "heap_keeps N h h' \<Longrightarrow> h_env h' = h_env h"
  by (simp add: heap_keeps_def)

lemma engine_from_keeps: "engine_from N locate names keyName t ob V h0 h \<Longrightarrow> heap_keeps N h h' \<Longrightarrow> engine_from N locate names keyName t ob V h0 h'"
  using engine_ok_keeps [of N locate names keyName t ob h h'] heap_keeps_trans [of N h0 h h'] heap_keeps_env [of N h h'] by (simp add: engine_from_def)

text \<open>Whatever a script does, it ends in a heap that keeps the invariants; nor does a method of an object break them.\<close>

definition heapKeeping :: "pname set \<Rightarrow> Heap \<Rightarrow> (Heap, 'a) js \<Rightarrow> bool" where
  "heapKeeping N h m \<longleftrightarrow> (\<exists>r h'. m h = Some (r, h') \<and> heap_keeps N h h')"

lemma keepsJ_heap: "(\<And>h. engine_from N locate names keyName t ob V h0 h \<Longrightarrow> heapKeeping N h m) \<Longrightarrow> keepsJ (engine_from N locate names keyName t ob V h0) m"
  using engine_from_keeps by (fastforce simp: keepsJ_def heapKeeping_def)

lemma heapKeeping_bind:
  assumes "heapKeeping N h m" "\<And>x h'. m h = Some (Inr x, h') \<Longrightarrow> heap_keeps N h h' \<Longrightarrow> heapKeeping N h' (f x)"
  shows "heapKeeping N h (bindJ m f)"
proof -
  obtain r h1 where r: "m h = Some (r, h1)" "heap_keeps N h h1" using assms(1) by (auto simp: heapKeeping_def)
  show ?thesis
  proof (cases r)
    case (Inr x)
    then show ?thesis using r assms(2) [of x h1] heap_keeps_trans [OF r(2)] by (auto simp: heapKeeping_def bindJ_def)
  qed (use r in \<open>simp add: heapKeeping_def bindJ_def\<close>)
qed

lemma heapKeeping_ret: "heap_ok N h \<Longrightarrow> heapKeeping N h (retJ x)" "heap_ok N h \<Longrightarrow> heapKeeping N h throwTypeError"
  by (simp_all add: heapKeeping_def retJ_def throwTypeError_def heap_keeps_refl)

lemma heap_keeps_ok: "heap_keeps N h h' \<Longrightarrow> heap_ok N h'"
  by (simp add: heap_keeps_def)

lemma scriptJ_heap:
  assumes "heap_ok N h"
  shows "heapKeeping N h (scriptJ N nc script p part request)"
proof -
  let ?ops = "filter (object_op_ok N (h_env h) (length (h_objects h))) (fst (script p request h))"
  have "\<exists>h'. run_ops nc ?ops h = Some h' \<and> heap_keeps N h h'" using assms by (intro run_ops_keep) auto
  then show ?thesis by (auto simp: scriptJ_def runScript_def heapKeeping_def bindJ_def retJ_def split: sum.splits)
qed

lemma heapKeeping_op:
  assumes "heap_ok N h" "object_op_ok N (h_env h) (length (h_objects h)) op" "run_op nc op h = map_option snd r" "m h = liftH f r"
  shows "heapKeeping N h m"
  using run_op_keeps [OF assms(1,2), of nc] assms(3,4) by (auto simp: heapKeeping_def liftH_def)

lemma receiver_bound: "\<forall>x \<in> ran locate. x < n \<Longrightarrow> \<forall>r \<in> set_option (receiverOf locate v). r < n"
  by (auto simp: receiverOf_def ran_def split: Value.splits)

lemma prototype_bound: "\<forall>x \<in> ran locate. x < n \<Longrightarrow> prototypeOf locate v = Some q \<Longrightarrow> \<forall>r \<in> set_option q. r < n"
  by (auto simp: prototypeOf_def ran_def split: Value.splits)

text \<open>The calls of functions, which are all scripts\<close>

lemma call_heap:
  assumes "heap_ok N h" "\<And>p. vCall (e_methods E p) = vCall (scriptMethods N nc script p)"
  shows "heapKeeping N h (callJ E f thisValue args)" "heapKeeping N h (valueJ E rc g)"
proof -
  show c: "heapKeeping N h (callJ E f thisValue args)" for f thisValue args
    using assms scriptJ_heap heapKeeping_ret by (auto simp: callJ_def scriptMethods_def split: Value.splits)
  show "heapKeeping N h (valueJ E rc g)" using c heapKeeping_ret [OF assms(1)] by (cases g) auto
qed

text \<open>The methods of an object\<close>

lemma onObject_heap: "ob < length (h_objects h) \<Longrightarrow> heapKeeping N h (onObject ob m) = heapKeeping N h m"
  by (simp add: heapKeeping_def onObject_def)

lemma objectGet_heap:
  assumes "heap_ok N h" "x < length (h_objects h)" "valid_name N (h_env h) P"
  shows "heapKeeping N h (\<lambda>h. liftH id (objectGet P h x))"
  by (rule heapKeeping_op [OF assms(1), of "OpGet x P"]) (use assms in auto)

lemma ordinary_heap:
  assumes h: "heap_ok N h" and x: "x < length (h_objects h)" and P: "valid_name N (h_env h) P"
  shows "heapKeeping N h (vGet (ordinaryMethods N nc address locate script E p x) P rc)"
    "heapKeeping N h (vHasProperty (ordinaryMethods N nc address locate script E p x) P)"
    "heapKeeping N h (vDeleteOwnProperty (ordinaryMethods N nc address locate script E p x) P)"
    "desc_ok d \<Longrightarrow> heapKeeping N h (vDefineOwnProperty (ordinaryMethods N nc address locate script E p x) P d)"
proof -
  show "heapKeeping N h (vGet (ordinaryMethods N nc address locate script E p x) P rc)"
    using objectGet_heap [OF h x P] x by (simp add: ordinaryMethods_def onObject_heap)
  show "heapKeeping N h (vHasProperty (ordinaryMethods N nc address locate script E p x) P)"
    by (rule heapKeeping_op [OF h, of "OpHas x P"]) (use x P in \<open>auto simp: ordinaryMethods_def onObject_def\<close>)
  show "heapKeeping N h (vDeleteOwnProperty (ordinaryMethods N nc address locate script E p x) P)"
    by (rule heapKeeping_op [OF h, of "OpDelete x P"]) (use x P in \<open>auto simp: ordinaryMethods_def onObject_def\<close>)
  show "heapKeeping N h (vDefineOwnProperty (ordinaryMethods N nc address locate script E p x) P d)" if "desc_ok d"
    by (rule heapKeeping_op [OF h, of "OpDefine x P d"]) (use x P that in \<open>auto simp: ordinaryMethods_def onObject_def\<close>)
qed

lemma objectGet_plain:
  assumes h: "heap_ok N h" "x < length (h_objects h)" "valid_name N (h_env h) P" and g: "objectGet P h x = Some (r, h')"
  shows "\<not> actsLikeJSGetterSetter r"
  using get_walk.walk_ends [OF h(1,3) same_objects_refl [OF h(1)] h(2)] g by auto

lemma outside_heap:
  assumes h: "heap_ok N h" and m: "e_methods E = scriptMethods N nc script" and r: "\<not> actsLikeJSGetterSetter r"
  shows "heapKeeping N h (setOutside E P v rc r)"
proof -
  have "heapKeeping N h (setOnReceiverJ (e_methods E rc) P v)" unfolding setOnReceiverJ_def m
    by (rule heapKeeping_bind) (auto simp: scriptMethods_def intro: scriptJ_heap heapKeeping_ret heap_keeps_ok h)
  moreover have "heapKeeping N h (bindJ (callJ E f thisValue args) (\<lambda>r. retJ True))" for f thisValue args
    using call_heap(1) [OF h] m by (intro heapKeeping_bind) (auto intro: heapKeeping_ret heap_keeps_ok)
  ultimately show ?thesis using r heapKeeping_ret(1) [OF h, of False] by (auto simp: setOutside_def Let_def)
qed

lemma ordinary_heap_set:
  assumes h: "heap_ok N h" and x: "x < length (h_objects h)" and P: "valid_name N (h_env h) P" and l: "\<forall>x \<in> ran locate. x < length (h_objects h)"
    and m: "e_methods E = scriptMethods N nc script"
  shows "heapKeeping N h (vSet (ordinaryMethods N nc address locate script E p x) P v rc)"
proof -
  have "heapKeeping N h (bindJ (\<lambda>h. liftH id (objectGet P h x)) (setOutside E P v receiver))" for receiver
    using objectGet_heap [OF h x P]
  proof (rule heapKeeping_bind)
    fix r h'
    assume "liftH id (objectGet P h x) = Some (Inr r, h')" "heap_keeps N h h'"
    then show "heapKeeping N h' (setOutside E P v receiver r)"
      using objectGet_plain [OF h x P] by (intro outside_heap [OF heap_keeps_ok m]) (auto simp: liftH_def)
  qed
  moreover have "heapKeeping N h (bindJ (\<lambda>h. liftH id (objectSet nc P v (receiverOf locate rc) h x)) (\<lambda>outcome.
      case outcome of SetReturns b \<Rightarrow> retJ b | SetCalls f \<Rightarrow> bindJ (callJ E f rc [v]) (\<lambda>r. retJ True)))"
  proof (rule heapKeeping_bind)
    show "heapKeeping N h (\<lambda>h. liftH id (objectSet nc P v (receiverOf locate rc) h x))"
      by (rule heapKeeping_op [OF h, of "OpSet x P v (receiverOf locate rc)"]) (use x P receiver_bound [OF l] in auto)
    have "heapKeeping N h' (bindJ (callJ E f rc [v]) (\<lambda>r. retJ True))" if "heap_keeps N h h'" for f h'
      using call_heap(1) [OF heap_keeps_ok [OF that]] m by (intro heapKeeping_bind) (auto intro: heapKeeping_ret heap_keeps_ok)
    then show "heapKeeping N h' (case outcome of SetReturns b \<Rightarrow> retJ b | SetCalls f \<Rightarrow> bindJ (callJ E f rc [v]) (\<lambda>r. retJ True))"
      if "heap_keeps N h h'" for outcome h' using that heapKeeping_ret(1) [OF heap_keeps_ok] by (cases outcome) auto
  qed
  ultimately have "heapKeeping N h (ordinarySet nc locate E x P v rc)" using heapKeeping_ret(1) [OF h, of False] by (simp add: ordinarySet_def split: Value.split)
  then show ?thesis using x by (simp add: ordinaryMethods_def onObject_heap)
qed

lemma ordinary_heap_proto:
  assumes h: "heap_ok N h" and x: "x < length (h_objects h)" and l: "\<forall>x \<in> ran locate. x < length (h_objects h)"
  shows "prototypeOf locate v \<noteq> None \<Longrightarrow> heapKeeping N h (vSetPrototype (ordinaryMethods N nc address locate script E p x) v)"
    "heapKeeping N h (vPreventExtensions (ordinaryMethods N nc address locate script E p x))"
proof -
  assume "prototypeOf locate v \<noteq> None"
  then obtain q where q: "prototypeOf locate v = Some q" by blast
  show "heapKeeping N h (vSetPrototype (ordinaryMethods N nc address locate script E p x) v)"
    by (rule heapKeeping_op [OF h, of "OpSetPrototype x q"]) (use x q prototype_bound [OF l q] in \<open>auto simp: ordinaryMethods_def onObject_def\<close>)
next
  show "heapKeeping N h (vPreventExtensions (ordinaryMethods N nc address locate script E p x))"
    using run_op_keeps [OF h, of "OpPreventExtensions x" nc] x by (simp add: heapKeeping_def ordinaryMethods_def onObject_def)
qed

lemma length_heap:
  assumes h: "heap_ok N h" and x: "x < length (h_objects h)" and P: "valid_name N (h_env h) (e_staticName E ''length'')"
    and m: "e_methods E = scriptMethods N nc script"
  shows "heapKeeping N h (ordinaryLength N nc script E p x)"
  unfolding ordinaryLength_def
proof (intro heapKeeping_bind objectGet_heap [OF h x P])
  show "heapKeeping N h1 (valueJ E (PointerValue p) r)" if "heap_keeps N h h1" for r h1
    using call_heap(2) [OF heap_keeps_ok [OF that]] m by simp
  show "heapKeeping N h2 (case v of Int32 i \<Rightarrow> retJ (nat i) | _ \<Rightarrow> scriptJ N nc script p a_length (AskToLength v))" if "heap_keeps N h1 h2" for v h1 h2
    by (simp add: scriptJ_heap [OF heap_keeps_ok [OF that]] heapKeeping_ret(1) [OF heap_keeps_ok [OF that]] split: Value.split)
qed

text \<open>The methods of any address\<close>

lemma engine_reads [simp]:
  "e_staticName (heapEngine N nc address locate script symbol names keyName keyValue) = names"
  "e_keyName (heapEngine N nc address locate script symbol names keyName keyValue) = keyName"
  "e_indexName (heapEngine N nc address locate script symbol names keyName keyValue) = (\<lambda>i. keyName (idxKey i))"
  "e_fromDescriptor (heapEngine N nc address locate script symbol names keyName keyValue) = (\<lambda>desc. scriptJ N nc script 0 a_value (AskDescriptor desc))"
  "e_nativeValue (heapEngine N nc address locate script symbol names keyName keyValue) = (\<lambda>rc. dataValue nc (receiverOf locate rc))"
  by (simp_all add: heapEngine_def engineWith_def Let_def)

lemma engine_heap:
  assumes h: "engine_ok N locate names keyName t ob h" and P: "valid_name N (h_env h) P"
  shows "heapKeeping N h (vGet (e_methods (heapEngine N nc address locate script symbol names keyName keyValue) p) P rc)"
    "heapKeeping N h (vCall (e_methods (heapEngine N nc address locate script symbol names keyName keyValue) p) thisValue args)"
    "heapKeeping N h (vLength (e_methods (heapEngine N nc address locate script symbol names keyName keyValue) p))"
proof -
  let ?S = "engineWith N nc locate script symbol names keyName keyValue (scriptMethods N nc script)"
  let ?M = "e_methods (heapEngine N nc address locate script symbol names keyName keyValue) p"
  have b: "heap_ok N h" using h by (simp add: engine_ok_def)
  have m: "e_methods ?S = scriptMethods N nc script" by (simp add: engineWith_def)
  have "heapKeeping N h (vGet ?M P rc) \<and> heapKeeping N h (vCall ?M thisValue args) \<and> heapKeeping N h (vLength ?M)"
  proof (cases "locate p")
    case None
    then show ?thesis by (simp add: heapEngine_def engineWith_def scriptMethods_def scriptJ_heap [OF b])
  next
    case (Some x)
    then have x: "x < length (h_objects h)" using h by (auto simp: engine_ok_def ranI)
    have M: "?M = ordinaryMethods N nc address locate script ?S p x" using Some by (simp add: heapEngine_def engineWith_def)
    have "valid_name N (h_env h) (e_staticName ?S ''length'')" using h by (simp add: engine_ok_def engineWith_def)
    from length_heap [OF b x this m] have "heapKeeping N h (vLength ?M)" unfolding M using x by (simp add: ordinaryMethods_def onObject_heap)
    moreover have "heapKeeping N h (vCall ?M thisValue args)" unfolding M using scriptJ_heap [OF b] by (simp add: ordinaryMethods_def scriptMethods_def)
    ultimately show ?thesis unfolding M using ordinary_heap(1) [OF b x P] by blast
  qed
  then show "heapKeeping N h (vGet ?M P rc)" "heapKeeping N h (vCall ?M thisValue args)" "heapKeeping N h (vLength ?M)" by blast+
qed

lemma target_methods:
  assumes "engine_ok N locate names keyName t ob h"
  shows "e_methods (heapEngine N nc address locate script symbol names keyName keyValue) t =
      ordinaryMethods N nc address locate script (engineWith N nc locate script symbol names keyName keyValue (scriptMethods N nc script)) t ob"
    "receiverOf locate (PointerValue t) = Some ob"
  using assms by (simp_all add: engine_ok_def heapEngine_def engineWith_def receiverOf_def)

text \<open>The target answers what the object has.\<close>

lemma target_getOwn:
  assumes h: "engine_ok N locate names keyName t ob h" and P: "valid_name N (h_env h) P"
  obtains g h' where "vGetOwnProperty (e_methods (heapEngine N nc address locate script symbol names keyName keyValue) t) P h = Some (Inr g, h')"
    "resultProp (pureValue (heapEngine N nc address locate script symbol names keyName keyValue) (PointerValue t)) g = map_of (propsOf h ob) (keyOf h P)"
    "result_ok g" "same_objects N h h'"
proof -
  have b: "ob < length (h_objects h)" "heap_ok N h" using h by (simp_all add: engine_ok_def)
  obtain r h' where g: "getOwnProperty h ob P = Some (r, h')" "resultProp (dataValue nc (Some ob)) r = map_of (propsOf h ob) (keyOf h P)"
    "result_ok r" "same_objects N h h'" using b(2,1) P by (rule getOwnProperty_ok)
  have "resultProp (pureValue (heapEngine N nc address locate script symbol names keyName keyValue) (PointerValue t)) r = resultProp (dataValue nc (Some ob)) r"
    using target_methods(2) [OF h] by (cases r) (simp_all add: pureValue_def)
  then show ?thesis using that g b target_methods(1) [OF h] by (simp add: ordinaryMethods_def onObject_def liftH_def)
qed

lemma same_engine:
  assumes "engine_from N locate names keyName t ob V h0 h" "same_objects N h h'"
  shows "engine_from N locate names keyName t ob V h0 h'" "h_env h' = h_env h" "propsOf h' ob = propsOf h ob" "h_objects h' = h_objects h"
  using assms engine_from_keeps [OF assms(1) same_keeps [OF assms(2)]] same_props [OF assms(2)] by (simp_all add: same_objects_def)

lemma engine_fromD:
  assumes "engine_from N locate names keyName t ob V h0 h"
  shows "engine_ok N locate names keyName t ob h" "heap_ok N h" "ob < length (h_objects h)" "locate t = Some ob" "\<forall>x \<in> ran locate. x < length (h_objects h)"
    "valid_name N (h_env h) (names n)" "valid_name N (h_env h) (keyName k)" "P \<in> V \<Longrightarrow> valid_name N (h_env h) P"
  using assms by (simp_all add: engine_from_def engine_ok_def)

interpretation hp: proxied "heapEngine N nc address locate script symbol names keyName keyValue" t P "engine_from N locate names keyName t ob {P} h0"
    "\<lambda>h. map_of (propsOf h ob) (keyOf h P)" "\<lambda>h. o_isExtensible (h_objects h ! ob)" "\<lambda>h. protoValue address (getPrototypeObject h ob)"
    "\<lambda>v. prototypeOf locate v \<noteq> None"
proof
  let ?E = "heapEngine N nc address locate script symbol names keyName keyValue" and ?I = "engine_from N locate names keyName t ob {P} h0"
  { fix h :: Heap
    assume h: "?I h"
    note f = engine_fromD [OF h]
    obtain g h' where g: "vGetOwnProperty (e_methods ?E t) P h = Some (Inr g, h')" "resultProp (pureValue ?E (PointerValue t)) g = map_of (propsOf h ob) (keyOf h P)"
      "result_ok g" "same_objects N h h'" using f(1) f(8) [OF insertI1] by (rule target_getOwn)
    then show "\<exists>g s'. vGetOwnProperty (e_methods ?E t) P h = Some (Inr g, s') \<and> resultProp (pureValue ?E (PointerValue t)) g = map_of (propsOf h ob) (keyOf h P) \<and>
        result_ok g \<and> ?I s' \<and> map_of (propsOf s' ob) (keyOf s' P) = map_of (propsOf h ob) (keyOf h P) \<and>
        o_isExtensible (h_objects s' ! ob) = o_isExtensible (h_objects h ! ob) \<and> protoValue address (getPrototypeObject s' ob) = protoValue address (getPrototypeObject h ob)"
      using same_engine [OF h g(4)] by (simp add: getPrototypeObject_def)
    show "vIsExtensible (e_methods ?E t) h = Some (Inr (o_isExtensible (h_objects h ! ob)), h)"
      "vGetPrototype (e_methods ?E t) h = Some (Inr (protoValue address (getPrototypeObject h ob)), h)"
      using f(3) target_methods(1) [OF f(1)] by (simp_all add: ordinaryMethods_def onObject_def) }
  show "keepsJ ?I (vGet (e_methods ?E p) (e_staticName ?E n) rc)" for p n rc
    using engine_heap(1) [OF engine_fromD(1,6)] by (intro keepsJ_heap) simp
  show "keepsJ ?I (vCall (e_methods ?E p) thisValue args)" for p thisValue args
    using engine_heap(2) [OF engine_fromD(1,6)] by (intro keepsJ_heap)
  show "keepsJ ?I (e_fromDescriptor ?E desc)" for desc
    using scriptJ_heap [OF engine_fromD(2)] by (intro keepsJ_heap) simp
  show "desc_ok d \<Longrightarrow> keepsJ ?I (vDefineOwnProperty (e_methods ?E t) P d)" "keepsJ ?I (vDeleteOwnProperty (e_methods ?E t) P)" "keepsJ ?I (vHasProperty (e_methods ?E t) P)"
    "keepsJ ?I (vGet (e_methods ?E t) P rc)" for d rc
    using ordinary_heap [OF engine_fromD(2,3) engine_fromD(8) [OF _ insertI1]] by (intro keepsJ_heap; simp only: target_methods(1) [OF engine_fromD(1)])+
  show "keepsJ ?I (vSet (e_methods ?E t) P v rc)" for v rc
    using ordinary_heap_set [OF engine_fromD(2,3) engine_fromD(8) [OF _ insertI1] engine_fromD(5)]
    by (intro keepsJ_heap) (simp add: target_methods(1) [OF engine_fromD(1)] engineWith_def)
  show "keepsJ ?I (vPreventExtensions (e_methods ?E t))" "prototypeOf locate v \<noteq> None \<Longrightarrow> keepsJ ?I (vSetPrototype (e_methods ?E t) v)" for v
    using ordinary_heap_proto [OF engine_fromD(2,3,5)] by (intro keepsJ_heap; simp only: target_methods(1) [OF engine_fromD(1)])+
qed

text \<open>The keys of an object are those of names in use, so that \<open>keyName\<close> finds them.\<close>

lemma object_items:
  assumes "heap_ok N h" "ob < length (h_objects h)"
  obtains ps where "properties (h_structures h ! objectStructure h ob) = Some ps" "map fst (propsOf h ob) = map (item_key (h_env h)) ps" "m_propertyName ` set ps \<subseteq> N"
proof -
  obtain d where d: "dictOf (h_env h) (h_structures h) (objectStructure h ob) = Some d" "slots_ok d (o_values (h_objects h ! ob))"
    "propsOf h ob = slotProps (natives (h_env h)) d (o_values (h_objects h ! ob))" "distinct (map fst d)" using assms by (rule heap_object)
  then obtain ps where ps: "objectStructure h ob < length (h_structures h)" "properties (h_structures h ! objectStructure h ob) = Some ps" "d = dict (h_env h) ps"
    by (auto simp: dictOf_Some)
  have "map fst (propsOf h ob) = map (item_key (h_env h)) ps" using d ps(3) by (simp add: slots_ok_length dict_keys)
  moreover have "m_propertyName ` set ps \<subseteq> store_names (h_structures h)"
    using ps by (auto simp: store_names_def intro!: bexI [of _ "h_structures h ! objectStructure h ob"])
  then have "m_propertyName ` set ps \<subseteq> N" using assms(1) by (auto simp: heap_ok_def store_inv_def)
  ultimately show ?thesis using that ps(2) by blast
qed

lemma object_keys:
  assumes h: "engine_ok N locate names keyName t ob h"
  obtains ks where "ownPropertyKeys h ob = Some ks" "distinct ks" "set ks = dom (map_of (propsOf h ob))"
    "\<forall>k \<in> set ks. keyOf h (keyName k) = k"
proof -
  have b: "ob < length (h_objects h)" "heap_ok N h" using h by (simp_all add: engine_ok_def)
  obtain ps where ps: "properties (h_structures h ! objectStructure h ob) = Some ps" and m: "map fst (propsOf h ob) = map (item_key (h_env h)) ps"
    and "m_propertyName ` set ps \<subseteq> N" using b(2,1) by (rule object_items)
  then have "\<forall>k \<in> set (map (item_key (h_env h)) ps). keyOf h (keyName k) = k" using h by (auto simp: engine_ok_def)
  moreover have "distinct (map (item_key (h_env h)) ps)" using props_distinct [OF b(2,1)] m by simp
  moreover have "ownPropertyKeys h ob = Some (objectOwnPropertyKeys (map (item_key (h_env h)) ps))" using ps by (simp add: ownPropertyKeys_def)
  moreover have "dom (map_of (propsOf h ob)) = set (map (item_key (h_env h)) ps)" unfolding dom_map_of_conv_image_fst m [symmetric] by simp
  ultimately show ?thesis by (intro that [of "objectOwnPropertyKeys (map (item_key (h_env h)) ps)"]) (simp_all only: ownKeys_set)
qed

lemma target_key:
  assumes h: "engine_ok N locate names keyName t ob h" and k: "k \<in> dom (map_of (propsOf h ob))"
  shows "valid_name N (h_env h) (keyName k)" "keyOf h (keyName k) = k"
proof -
  obtain ks where "ownPropertyKeys h ob = Some ks" "distinct ks" "set ks = dom (map_of (propsOf h ob))" "\<forall>k \<in> set ks. keyOf h (keyName k) = k"
    using h by (rule object_keys)
  then show "keyOf h (keyName k) = k" using k by simp
  show "valid_name N (h_env h) (keyName k)" using h by (simp add: engine_ok_def)
qed

interpretation ho: integrity_object "heapEngine N nc address locate script symbol names keyName keyValue" t "engine_from N locate names keyName t ob {} h0"
    "\<lambda>h. map_of (propsOf h ob)" "\<lambda>h. o_isExtensible (h_objects h ! ob)"
proof
  let ?E = "heapEngine N nc address locate script symbol names keyName keyValue"
  fix h :: Heap
  assume h0: "engine_from N locate names keyName t ob {} h0 h"
  note h = engine_fromD(1) [OF h0] and b = engine_fromD(2,3) [OF h0]
  note m = target_methods(1) [OF h, of nc address script symbol keyValue]
  { fix k
    assume k: "k \<in> dom (map_of (propsOf h ob))"
    note n = target_key [OF h k]
    obtain g h' where g: "vGetOwnProperty (e_methods ?E t) (keyName k) h = Some (Inr g, h')"
      "resultProp (pureValue ?E (PointerValue t)) g = map_of (propsOf h ob) (keyOf h (keyName k))" "result_ok g" "same_objects N h h'"
      using h n(1) by (rule target_getOwn)
    then show "\<exists>g s'. vGetOwnProperty (e_methods ?E t) (e_keyName ?E k) h = Some (Inr g, s') \<and>
        resultProp (pureValue ?E (PointerValue t)) g = map_of (propsOf h ob) k \<and> result_ok g \<and> engine_from N locate names keyName t ob {} h0 s' \<and>
        map_of (propsOf s' ob) = map_of (propsOf h ob) \<and> o_isExtensible (h_objects s' ! ob) = o_isExtensible (h_objects h ! ob)"
      using same_engine [OF h0 g(4)] n(2) by simp
    fix d
    assume d: "desc_ok d"
    obtain c h' where c: "defineOwnProperty nc h ob (keyName k) d = Some (c, h')" "changes_only N ob h h'"
      "(c, propsOf h' ob) = specDefine (o_isExtensible (h_objects h ! ob)) (descOf d) (keyOf h (keyName k)) (propsOf h ob)"
      using b n(1) d by (rule defineOwnProperty_ok)
    have "engine_from N locate names keyName t ob {} h0 h'" using engine_from_keeps [OF h0 changes_keep [OF c(2) specDefine_keeps [OF c(3)]]] .
    moreover have "o_isExtensible (h_objects h' ! ob) = o_isExtensible (h_objects h ! ob)" using c(2) b by (simp add: changes_only_def)
    moreover have "vDefineOwnProperty (e_methods ?E t) (e_keyName ?E k) d h = Some (Inr c, h')"
      using c(1) b m by (simp add: ordinaryMethods_def onObject_def liftH_def)
    moreover have "(c, map_of (propsOf h' ob)) = (case validateAndApply (o_isExtensible (h_objects h ! ob)) (descOf d) (map_of (propsOf h ob) k) of
        None \<Rightarrow> (False, map_of (propsOf h ob)) | Some p \<Rightarrow> (True, (map_of (propsOf h ob))(k \<mapsto> p)))"
      using c(3) n(2) by (auto simp: specDefine_def spec_put_lookup split: option.splits)
    ultimately show "\<exists>b s'. vDefineOwnProperty (e_methods ?E t) (e_keyName ?E k) d h = Some (Inr b, s') \<and> engine_from N locate names keyName t ob {} h0 s' \<and>
        o_isExtensible (h_objects s' ! ob) = o_isExtensible (h_objects h ! ob) \<and>
        (b, map_of (propsOf s' ob)) = (case validateAndApply (o_isExtensible (h_objects h ! ob)) (descOf d) (map_of (propsOf h ob) k) of
        None \<Rightarrow> (False, map_of (propsOf h ob)) | Some p \<Rightarrow> (True, (map_of (propsOf h ob))(k \<mapsto> p)))" by blast }
  obtain ks where "ownPropertyKeys h ob = Some ks" "distinct ks" "set ks = dom (map_of (propsOf h ob))" "\<forall>k \<in> set ks. keyOf h (keyName k) = k"
    using h by (rule object_keys)
  then show "\<exists>ks s'. vOwnPropertyKeys (e_methods ?E t) h = Some (Inr ks, s') \<and> distinct ks \<and> set ks = dom (map_of (propsOf h ob)) \<and>
      engine_from N locate names keyName t ob {} h0 s' \<and> map_of (propsOf s' ob) = map_of (propsOf h ob) \<and>
      o_isExtensible (h_objects s' ! ob) = o_isExtensible (h_objects h ! ob)" using b m h0 by (simp add: ordinaryMethods_def onObject_def)
  show "vIsExtensible (e_methods ?E t) h = Some (Inr (o_isExtensible (h_objects h ! ob)), h)" using b m by (simp add: ordinaryMethods_def onObject_def)
  obtain h' where p: "preventExtensions h ob = (True, h')" "heap_ok N h'" "h_env h' = h_env h" "length (h_objects h') = length (h_objects h)"
    "\<forall>x. getPrototypeObject h' x = getPrototypeObject h x" "\<forall>x < length (h_objects h). propsOf h' x = propsOf h x"
    "\<forall>x. o_isExtensible (h_objects h' ! x) = (x \<noteq> ob \<and> o_isExtensible (h_objects h ! x))" using b by (rule preventExtensions_ok)
  moreover have "engine_from N locate names keyName t ob {} h0 h'" using run_op_keeps [of N h "OpPreventExtensions ob" nc] engine_from_keeps [OF h0] b p(1) by auto
  ultimately show "\<exists>s'. vPreventExtensions (e_methods ?E t) h = Some (Inr True, s') \<and> engine_from N locate names keyName t ob {} h0 s' \<and>
      map_of (propsOf s' ob) = map_of (propsOf h ob) \<and> \<not> o_isExtensible (h_objects s' ! ob)" using b m by (simp add: ordinaryMethods_def onObject_def)
qed

interpretation hk: key_proxied "heapEngine N nc address locate script symbol names keyName keyValue" t "engine_from N locate names keyName t ob {} h0"
    "\<lambda>h. map_of (propsOf h ob)" "\<lambda>h. o_isExtensible (h_objects h ! ob)"
proof
  let ?E = "heapEngine N nc address locate script symbol names keyName keyValue" and ?I = "engine_from N locate names keyName t ob {} h0"
  note e = engine_heap [OF engine_fromD(1,6)]
  show "keepsJ ?I (vGet (e_methods ?E p) (e_staticName ?E n) rc)" for p n rc using e(1) by (intro keepsJ_heap) simp
  show "keepsJ ?I (vGet (e_methods ?E p) (e_indexName ?E i) rc)" for p i rc
    using engine_heap(1) [OF engine_fromD(1,7)] by (intro keepsJ_heap) simp
  show "keepsJ ?I (vLength (e_methods ?E p))" "keepsJ ?I (vCall (e_methods ?E p) thisValue args)" for p thisValue args
    by (intro keepsJ_heap e; assumption)+
  show "keepsJ ?I (vGetOwnProperty (e_methods ?E t) (e_keyName ?E k))" for k
  proof (rule keepsJ_heap)
    fix h
    assume h: "?I h"
    obtain g h' where "vGetOwnProperty (e_methods ?E t) (keyName k) h = Some (Inr g, h')" "same_objects N h h'" using engine_fromD(1,7) [OF h] by (rule target_getOwn)
    then show "heapKeeping N h (vGetOwnProperty (e_methods ?E t) (e_keyName ?E k))" using same_keeps by (auto simp: heapKeeping_def)
  qed
qed

section \<open>Properties\<close>

text \<open>An engine on the heap of two objects. The object at address 1 is the target; every other address answers with the script.\<close>

definition demo_locate :: "addr \<Rightarrow> nat option" where
  "demo_locate p = (if p = 1 then Some 1 else None)"

definition demo_keyName :: "property_key \<Rightarrow> ObjectPropertyName" where
  "demo_keyName k = (if k = KString [97] then demo_prop 97 else demo_prop 98)"

definition demo_answer :: Answer where
  "demo_answer = \<lparr>a_value = PointerValue 5, a_bool = True, a_result = DataResult (PointerValue 2) True True True, a_keys = [], a_length = 1\<rparr>"

text \<open>The handler at 3 has the function at 2 for every trap. The function makes the target not extensible and answers with the array-like object at 5,
  whose one element is the string \<open>a\<close>.\<close>

definition demo_script :: script where
  "demo_script p request h =
     (if p = 2 then [OpPreventExtensions 1] else [],
      Inr (if p = 5 then demo_answer\<lparr>a_result := DataResult (StringValue 0 [97]) True True True\<rparr> else demo_answer))"

definition demo_engine :: "Heap Engine" where
  "demo_engine = heapEngine demo_names demo_code (\<lambda>ob. 1) demo_locate demo_script (\<lambda>p. False) (\<lambda>n. demo_prop 97) demo_keyName (\<lambda>P. Undefined)"

definition demo_proxy :: ProxyObject where
  "demo_proxy = \<lparr>m_isCallable = False, m_isConstructible = False, m_target = Some 1, m_handler = Some 3\<rparr>"

lemma demo_engine_ok: "engine_ok demo_names demo_locate (\<lambda>n. demo_prop 97) demo_keyName 1 1 demo_heap"
proof -
  have "\<forall>n \<in> demo_names. keyOf demo_heap (demo_keyName (nkey (strings (h_env demo_heap)) n)) = nkey (strings (h_env demo_heap)) n"
    using demo_key [of 97] demo_key [of 98] by (auto simp: demo_keyName_def)
  then show ?thesis using demo_heap_ok demo_valid by (auto simp: engine_ok_def demo_locate_def demo_keyName_def ran_def)
qed

lemma engine_from_refl: "engine_ok N locate names keyName t ob h \<Longrightarrow> \<forall>P \<in> V. valid_name N (h_env h) P \<Longrightarrow> engine_from N locate names keyName t ob V h h"
  by (simp add: engine_from_def engine_ok_def heap_keeps_refl)

lemma engine_from_heap: "engine_from N locate names keyName t ob V h h' \<Longrightarrow> heap_keeps N h h'"
  by (simp add: engine_from_def)

lemma integrity_run:
  assumes "engine_ok N locate names keyName t ob h"
  shows "\<exists>h'. setIntegrityLevel (heapEngine N nc address locate script symbol names keyName keyValue) t (e_methods (heapEngine N nc address locate script symbol names keyName keyValue) t) l h = Some (Inr True, h') \<and>
    engine_ok N locate names keyName t ob h' \<and> heap_keeps N h h' \<and> \<not> o_isExtensible (h_objects h' ! ob) \<and>
    map_of (propsOf h' ob) = map_option (solidify l) \<circ> map_of (propsOf h ob)"
proof -
  have "engine_from N locate names keyName t ob {} h h" using assms by (intro engine_from_refl) auto
  from ho.set_run [OF this, where l = l] show ?thesis by (auto simp: engine_from_def)
qed

text \<open>C7: \<open>setIntegrityLevel\<close> on an ordinary object succeeds: the object is not extensible any more, no property is configurable,
  frozen data properties are read-only, and nothing else of any property changes. \<open>testIntegrityLevel\<close> says of any object whether
  that is so.\<close>

theorem setIntegrityLevel_correct:
  assumes "E = heapEngine N nc address locate script symbol names keyName keyValue" and "engine_ok N locate names keyName t ob h"
  shows "(\<exists>h'. setIntegrityLevel E t (e_methods E t) isSealed h = Some (Inr True, h') \<and> heap_keeps N h h' \<and> \<not> o_isExtensible (h_objects h' ! ob) \<and>
      map_of (propsOf h' ob) = map_option (solidify isSealed) \<circ> map_of (propsOf h ob)) \<and>
    (\<exists>h'. testIntegrityLevel E (e_methods E t) isSealed h =
        Some (Inr (\<not> o_isExtensible (h_objects h ! ob) \<and> (\<forall>p \<in> ran (map_of (propsOf h ob)). solid isSealed p)), h') \<and>
      map_of (propsOf h' ob) = map_of (propsOf h ob))"
proof -
  have f: "engine_from N locate names keyName t ob {} h h" using assms(2) by (intro engine_from_refl) auto
  show ?thesis using integrity_run [OF assms(2)] ho.test_run [OF f] unfolding assms(1) by blast
qed

theorem setIntegrityLevel_correct_witness:
  "\<exists>h'. setIntegrityLevel demo_engine 1 (e_methods demo_engine 1) False demo_heap = Some (Inr True, h') \<and>
     map_of (propsOf h' 1) = [KString [97] \<mapsto> DataProp (Boolean False) False True False]"
  using setIntegrityLevel_correct [OF demo_engine_def demo_engine_ok, of False] by (auto simp: fun_eq_iff comp_def)



text \<open>C8: The own keys of an ordinary object are its indices in increasing order, then its other strings, then its symbols, each in the
  order in which they were added, and every key once.\<close>

theorem ownPropertyKeys_order:
  assumes "heap_ok N h" and "ob < length (h_objects h)"
  shows "\<exists>idxs. ownPropertyKeys h ob = Some (map idxKey idxs @ filter (\<lambda>k. \<not> isIndexKey k \<and> \<not> isSymbolKey k) (map fst (propsOf h ob)) @
      filter isSymbolKey (map fst (propsOf h ob))) \<and>
    sorted idxs \<and> distinct idxs \<and> idxKey ` set idxs = {k \<in> set (map fst (propsOf h ob)). isIndexKey k} \<and> (\<forall>i \<in> set idxs. i < 2 ^ 32 - 1)"
proof -
  obtain ps where "properties (h_structures h ! objectStructure h ob) = Some ps" "map fst (propsOf h ob) = map (item_key (h_env h)) ps"
    using assms by (rule object_items)
  moreover have "distinct (map fst (propsOf h ob))" using assms by (rule props_distinct)
  then obtain idxs where "objectOwnPropertyKeys (map fst (propsOf h ob)) =
      map idxKey idxs @ filter (\<lambda>k. \<not> isIndexKey k \<and> \<not> isSymbolKey k) (map fst (propsOf h ob)) @ filter isSymbolKey (map fst (propsOf h ob))"
    "sorted idxs" "distinct idxs" "idxKey ` set idxs = {k \<in> set (map fst (propsOf h ob)). isIndexKey k}" "\<forall>i \<in> set idxs. i < 2 ^ 32 - 1" by (rule ownKeys_order)
  ultimately show ?thesis by (intro exI [of _ idxs]) (simp add: ownPropertyKeys_def)
qed

theorem ownPropertyKeys_order_witness: "\<exists>ks. ownPropertyKeys demo_heap 1 = Some ks \<and> length ks = 1"
proof -
  have "\<not> isIndexKey (KString [97])"
    by (simp add: isIndexKey_def tryToUseAsIndexProperty_def tryToUseAsIndex32_def convertToIndexNumber_def)
  then have no: "{k \<in> set (map fst (propsOf demo_heap 1)). isIndexKey k} = {}" by auto
  from ownPropertyKeys_order [OF demo_heap_ok, of 1] obtain idxs where k: "ownPropertyKeys demo_heap 1 = Some (map idxKey idxs @
      filter (\<lambda>k. \<not> isIndexKey k \<and> \<not> isSymbolKey k) (map fst (propsOf demo_heap 1)) @ filter isSymbolKey (map fst (propsOf demo_heap 1)))"
    "idxKey ` set idxs = {k \<in> set (map fst (propsOf demo_heap 1)). isIndexKey k}" by auto
  have "idxs = []" using k(2) unfolding no by simp
  then show ?thesis using k(1) \<open>\<not> isIndexKey (KString [97])\<close> by simp
qed

lemma proxy_run:
  assumes "engine_ok N locate names keyName t ob h" "\<forall>P \<in> V. valid_name N (h_env h) P" "keepsJ (engine_from N locate names keyName t ob V h) m"
    and "\<And>x h'. m h = Some (Inr x, h') \<Longrightarrow> Q x h'"
  shows "\<exists>r h'. m h = Some (r, h') \<and> heap_keeps N h h' \<and> (case r of Inl e \<Rightarrow> True | Inr x \<Rightarrow> Q x h')"
proof -
  obtain r h' where "m h = Some (r, h')" "engine_from N locate names keyName t ob V h h'" "case r of Inl e \<Rightarrow> True | Inr x \<Rightarrow> Q x h'"
    using keepsJ_run [OF assms(3) engine_from_refl [OF assms(1,2)], of Q] assms(4) by meson
  then show ?thesis using engine_from_heap by (intro exI [of _ r] exI [of _ h']) simp
qed

text \<open>C9: Reading and writing a property through a proxy to an ordinary object ends, whatever handler and getters do, and no object of the heap
  breaks the invariants of objects. What a proxy answers is what the target answered, or agrees with the target: a read-only property that
  is not configurable reads as its value, and an accessor without a getter as undefined; a write does not succeed on them with another value,
  nor on one without a setter; and a property is not said to be absent when it is not configurable or the target is not extensible.\<close>

theorem proxy_access_consistent:
  assumes E: "E = heapEngine N nc address locate script symbol names keyName keyValue" and h: "engine_ok N locate names keyName t ob h"
    and P: "valid_name N (h_env h) P" and t: "m_target px = Some t"
  shows "(\<exists>r h'. proxyGet E self px P rc h = Some (r, h') \<and> heap_keeps N h h' \<and>
      (case r of Inl e \<Rightarrow> True | Inr g \<Rightarrow> (\<exists>h1. heap_keeps N h h1 \<and> vGet (e_methods E t) P rc h1 = Some (Inr g, h')) \<or>
        (\<exists>v. g = DataResult v True True True \<and> get_allowed (map_of (propsOf h' ob) (keyOf h' P)) v))) \<and>
    (\<exists>r h'. proxySet E px P v rc h = Some (r, h') \<and> heap_keeps N h h' \<and>
      (case r of Inl e \<Rightarrow> True | Inr b \<Rightarrow> (\<exists>h1. heap_keeps N h h1 \<and> vSet (e_methods E t) P v rc h1 = Some (Inr b, h')) \<or>
        \<not> b \<or> set_allowed (map_of (propsOf h' ob) (keyOf h' P)) v)) \<and>
    (\<exists>r h'. proxyHasProperty E px P h = Some (r, h') \<and> heap_keeps N h h' \<and>
      (case r of Inl e \<Rightarrow> True | Inr b \<Rightarrow> (\<exists>h1. heap_keeps N h h1 \<and> vHasProperty (e_methods E t) P h1 = Some (Inr b, h')) \<or>
        b \<or> map_of (propsOf h' ob) (keyOf h' P) = None \<or>
        (\<exists>p. map_of (propsOf h' ob) (keyOf h' P) = Some p \<and> propConfigurable p) \<and> o_isExtensible (h_objects h' ! ob)))"
proof (intro conjI)
  have V: "\<forall>Q \<in> {P}. valid_name N (h_env h) Q" using P by simp
  note f = engine_from_refl [OF h V]
  note run = proxy_run [OF h V]
  show "\<exists>r h'. proxyGet E self px P rc h = Some (r, h') \<and> heap_keeps N h h' \<and>
      (case r of Inl e \<Rightarrow> True | Inr g \<Rightarrow> (\<exists>h1. heap_keeps N h h1 \<and> vGet (e_methods E t) P rc h1 = Some (Inr g, h')) \<or>
        (\<exists>v. g = DataResult v True True True \<and> get_allowed (map_of (propsOf h' ob) (keyOf h' P)) v))"
    unfolding E by (rule run [OF hp.proxy_keeps(1) [OF t]]) (drule hp.get_consistent [OF f t], use engine_from_heap in blast)
  show "\<exists>r h'. proxySet E px P v rc h = Some (r, h') \<and> heap_keeps N h h' \<and>
      (case r of Inl e \<Rightarrow> True | Inr b \<Rightarrow> (\<exists>h1. heap_keeps N h h1 \<and> vSet (e_methods E t) P v rc h1 = Some (Inr b, h')) \<or>
        \<not> b \<or> set_allowed (map_of (propsOf h' ob) (keyOf h' P)) v)"
    unfolding E by (rule run [OF hp.proxy_keeps(2) [OF t]]) (use hp.set_consistent [OF f t] engine_from_heap in blast)
  show "\<exists>r h'. proxyHasProperty E px P h = Some (r, h') \<and> heap_keeps N h h' \<and>
      (case r of Inl e \<Rightarrow> True | Inr b \<Rightarrow> (\<exists>h1. heap_keeps N h h1 \<and> vHasProperty (e_methods E t) P h1 = Some (Inr b, h')) \<or>
        b \<or> map_of (propsOf h' ob) (keyOf h' P) = None \<or>
        (\<exists>p. map_of (propsOf h' ob) (keyOf h' P) = Some p \<and> propConfigurable p) \<and> o_isExtensible (h_objects h' ! ob))"
    unfolding E by (rule run [OF hp.proxy_keeps(3) [OF t]]) (use hp.has_consistent [OF f t] engine_from_heap in blast)
qed

theorem proxy_access_consistent_witness:
  "\<exists>r h'. proxyGet demo_engine 4 demo_proxy (demo_prop 97) Null demo_heap = Some (r, h') \<and> heap_keeps demo_names demo_heap h'"
proof -
  have P: "valid_name demo_names (h_env demo_heap) (demo_prop 97)" and t: "m_target demo_proxy = Some 1" using demo_valid by (simp_all add: demo_proxy_def)
  show ?thesis using conjunct1 [OF proxy_access_consistent [OF demo_engine_def demo_engine_ok P t, of 4 Null Null]] by blast
qed

text \<open>What the trap of the demonstration engine answers, and the heap it leaves\<close>

definition demo_sealed :: Heap where
  "demo_sealed = snd (preventExtensions demo_heap 1)"

lemma demo_sealed_target:
  "engine_ok demo_names demo_locate (\<lambda>n. demo_prop 97) demo_keyName 1 1 demo_sealed" "propsOf demo_sealed 1 = propsOf demo_heap 1" "keyOf demo_sealed P = keyOf demo_heap P"
  "\<not> o_isExtensible (h_objects demo_sealed ! 1)" "heap_keeps demo_names demo_heap demo_sealed"
proof -
  have l: "1 < length (h_objects demo_heap)" by simp
  obtain h' where p: "preventExtensions demo_heap 1 = (True, h')" "h_env h' = h_env demo_heap"
    "\<forall>x < length (h_objects demo_heap). propsOf h' x = propsOf demo_heap x"
    "\<forall>x. o_isExtensible (h_objects h' ! x) = (x \<noteq> 1 \<and> o_isExtensible (h_objects demo_heap ! x))" using demo_heap_ok l by (rule preventExtensions_ok)
  then have e: "demo_sealed = h'" by (simp add: demo_sealed_def)
  show k: "heap_keeps demo_names demo_heap demo_sealed"
    using run_op_keeps [OF demo_heap_ok, of "OpPreventExtensions 1" demo_code] l by (simp add: demo_sealed_def)
  show "engine_ok demo_names demo_locate (\<lambda>n. demo_prop 97) demo_keyName 1 1 demo_sealed" using engine_ok_keeps [OF demo_engine_ok k] .
  show "propsOf demo_sealed 1 = propsOf demo_heap 1" "keyOf demo_sealed P = keyOf demo_heap P" "\<not> o_isExtensible (h_objects demo_sealed ! 1)" using p l e by simp_all
qed

lemma demo_sealed_props:
  "map_of (propsOf demo_sealed 1) = [KString [97] \<mapsto> DataProp (Boolean False) True True True]" "keyOf demo_sealed (demo_prop 97) = KString [97]"
proof -
  show "map_of (propsOf demo_sealed 1) = [KString [97] \<mapsto> DataProp (Boolean False) True True True]" unfolding demo_sealed_target(2) by (simp add: fun_eq_iff)
  show "keyOf demo_sealed (demo_prop 97) = KString [97]" unfolding demo_sealed_target(3) using demo_key [of 97] by simp
qed

lemma demo_script_run:
  "p \<noteq> 2 \<Longrightarrow> scriptJ demo_names demo_code demo_script p part request h =
     Some (Inr (part (if p = 5 then demo_answer\<lparr>a_result := DataResult (StringValue 0 [97]) True True True\<rparr> else demo_answer)), h)"
  "scriptJ demo_names demo_code demo_script 2 part request demo_heap = Some (Inr (part demo_answer), demo_sealed)"
  by (simp_all add: scriptJ_def runScript_def demo_script_def bindJ_def retJ_def demo_sealed_def)

lemma demo_methods: "p \<noteq> 1 \<Longrightarrow> e_methods demo_engine p = scriptMethods demo_names demo_code demo_script p"
  by (simp add: demo_engine_def heapEngine_def engineWith_def demo_locate_def)

lemma demo_reads [simp]: "e_isCallable demo_engine p" "e_isObject demo_engine p" "\<not> e_isSymbol demo_engine p" "e_indexName demo_engine i = demo_keyName (idxKey i)"
  by (simp_all add: demo_engine_def heapEngine_def engineWith_def demo_code_def)

lemma demo_method: "getMethod demo_engine 3 name h = Some (Inr (PointerValue 2), h)"
  by (simp add: getMethod_def demo_methods bindJ_def scriptMethods_def demo_script_run demo_answer_def retJ_def)

lemma demo_call: "callJ demo_engine (PointerValue 2) thisValue args demo_heap = Some (Inr (PointerValue 5), demo_sealed)"
  by (simp add: callJ_def demo_methods scriptMethods_def demo_script_run demo_answer_def)

lemma demo_list: "createListFromArrayLike demo_engine (PointerValue 5) h = Some (Inr [KString [97]], h)"
  by (simp add: createListFromArrayLike_def demo_methods scriptMethods_def demo_script_run demo_answer_def bindJ_def retJ_def)

lemma demo_trap:
  "\<not> untrapped demo_engine demo_proxy name demo_heap h1"
  "trapAnswers demo_engine demo_proxy name (retJ xs) demo_heap r h1 \<longleftrightarrow> r = PointerValue 5 \<and> h1 = demo_sealed"
  by (auto simp: untrapped_def trapAnswers_def demo_proxy_def demo_method demo_call retJ_def)



text \<open>Asking for and changing extensibility and prototype through a proxy end and keep the invariants of every object. A proxy
  is extensible exactly when its target is, and is made not extensible only when the target is not; the prototype it
  reports or accepts is that of the target unless the target is extensible.\<close>

theorem proxy_extensibility_consistent:
  assumes E: "E = heapEngine N nc address locate script symbol names keyName keyValue" and h: "engine_ok N locate names keyName t ob h" and t: "m_target px = Some t"
    and v: "prototypeOf locate v \<noteq> None"
  shows "(\<exists>r h'. proxyIsExtensible E px h = Some (r, h') \<and> heap_keeps N h h' \<and>
      (case r of Inl e \<Rightarrow> True | Inr b \<Rightarrow> b = o_isExtensible (h_objects h' ! ob))) \<and>
    (\<exists>r h'. proxyPreventExtensions E px h = Some (r, h') \<and> heap_keeps N h h' \<and>
      (case r of Inl e \<Rightarrow> True | Inr b \<Rightarrow> (\<exists>h1. heap_keeps N h h1 \<and> vPreventExtensions (e_methods E t) h1 = Some (Inr b, h')) \<or>
        \<not> b \<or> \<not> o_isExtensible (h_objects h' ! ob))) \<and>
    (\<exists>r h'. proxyGetPrototype E px h = Some (r, h') \<and> heap_keeps N h h' \<and>
      (case r of Inl e \<Rightarrow> True | Inr v \<Rightarrow> v = protoValue address (getPrototypeObject h' ob) \<or>
        (isObjectValue E v \<or> v = Null) \<and> (o_isExtensible (h_objects h' ! ob) \<or> sameBits v (protoValue address (getPrototypeObject h' ob))))) \<and>
    (\<exists>r h'. proxySetPrototype E px v h = Some (r, h') \<and> heap_keeps N h h' \<and>
      (case r of Inl e \<Rightarrow> True | Inr b \<Rightarrow> (\<exists>h1. heap_keeps N h h1 \<and> vSetPrototype (e_methods E t) v h1 = Some (Inr b, h')) \<or>
        \<not> b \<or> o_isExtensible (h_objects h' ! ob) \<or> sameBits v (protoValue address (getPrototypeObject h' ob))))"
proof (intro conjI)
  have V: "\<forall>Q \<in> {names []}. valid_name N (h_env h) Q" using h by (simp add: engine_ok_def)
  note f = engine_from_refl [OF h V]
  note run = proxy_run [OF h V]
  show "\<exists>r h'. proxyIsExtensible E px h = Some (r, h') \<and> heap_keeps N h h' \<and> (case r of Inl e \<Rightarrow> True | Inr b \<Rightarrow> b = o_isExtensible (h_objects h' ! ob))"
    unfolding E by (rule run [OF hp.proxy_keeps(6) [OF t]]) (use hp.isExtensible_consistent [OF f t] in blast)
  show "\<exists>r h'. proxyPreventExtensions E px h = Some (r, h') \<and> heap_keeps N h h' \<and>
      (case r of Inl e \<Rightarrow> True | Inr b \<Rightarrow> (\<exists>h1. heap_keeps N h h1 \<and> vPreventExtensions (e_methods E t) h1 = Some (Inr b, h')) \<or>
        \<not> b \<or> \<not> o_isExtensible (h_objects h' ! ob))"
    unfolding E by (rule run [OF hp.proxy_keeps(7) [OF t]]) (use hp.preventExtensions_consistent [OF f t] engine_from_heap in blast)
  show "\<exists>r h'. proxyGetPrototype E px h = Some (r, h') \<and> heap_keeps N h h' \<and>
      (case r of Inl e \<Rightarrow> True | Inr v \<Rightarrow> v = protoValue address (getPrototypeObject h' ob) \<or>
        (isObjectValue E v \<or> v = Null) \<and> (o_isExtensible (h_objects h' ! ob) \<or> sameBits v (protoValue address (getPrototypeObject h' ob))))"
    unfolding E by (rule run [OF hp.proxy_keeps(8) [OF t]]) (use hp.getPrototype_consistent [OF f t] in blast)
  show "\<exists>r h'. proxySetPrototype E px v h = Some (r, h') \<and> heap_keeps N h h' \<and>
      (case r of Inl e \<Rightarrow> True | Inr b \<Rightarrow> (\<exists>h1. heap_keeps N h h1 \<and> vSetPrototype (e_methods E t) v h1 = Some (Inr b, h')) \<or>
        \<not> b \<or> o_isExtensible (h_objects h' ! ob) \<or> sameBits v (protoValue address (getPrototypeObject h' ob)))"
    unfolding E by (rule run [OF hp.proxy_keeps(9) [OF t v]]) (use hp.setPrototype_consistent [OF f t] engine_from_heap in blast)
qed

theorem proxy_extensibility_consistent_witness:
  "\<exists>r h'. proxyIsExtensible demo_engine demo_proxy demo_heap = Some (r, h') \<and> heap_keeps demo_names demo_heap h'"
proof -
  have "m_target demo_proxy = Some 1" "prototypeOf demo_locate Null \<noteq> None" by (simp_all add: demo_proxy_def prototypeOf_def)
  then show ?thesis using conjunct1 [OF proxy_extensibility_consistent [OF demo_engine_def demo_engine_ok]] by blast
qed

text \<open>C11: Asking a proxy to an ordinary object for its keys ends and keeps the invariants of every object. Without a trap the keys are those of the
  target. The list of keys that a trap gives is accepted exactly when the keys are distinct, have every key of the target that is not configurable, and are
  exactly those of the target if it is not extensible; otherwise a TypeError is thrown.\<close>

theorem proxy_keys_consistent:
  assumes E: "E = heapEngine N nc address locate script symbol names keyName keyValue" and h: "engine_ok N locate names keyName t ob h" and t: "m_target px = Some t"
  shows "(\<exists>r h'. proxyOwnPropertyKeys E px h = Some (r, h') \<and> heap_keeps N h h' \<and>
      (case r of Inl e \<Rightarrow> True | Inr ks \<Rightarrow>
        (\<exists>h1. heap_keeps N h h1 \<and> untrapped E px ''ownKeys'' h h1 \<and> vOwnPropertyKeys (e_methods E t) h1 = Some (Inr ks, h')) \<or>
        (\<exists>arr h1 h2. trapAnswers E px ''ownKeys'' (retJ [PointerValue t]) h arr h1 \<and> createListFromArrayLike E arr h1 = Some (Inr ks, h2)) \<and>
        distinct ks \<and> (\<forall>k p. map_of (propsOf h' ob) k = Some p \<and> \<not> propConfigurable p \<longrightarrow> k \<in> set ks) \<and>
        (o_isExtensible (h_objects h' ! ob) \<or> set ks = dom (map_of (propsOf h' ob))))) \<and>
    (\<forall>arr h1 ks h2. trapAnswers E px ''ownKeys'' (retJ [PointerValue t]) h arr h1 \<and> createListFromArrayLike E arr h1 = Some (Inr ks, h2) \<longrightarrow>
      (\<exists>h'. proxyOwnPropertyKeys E px h =
          Some (if distinct ks \<and> (\<forall>k p. map_of (propsOf h2 ob) k = Some p \<and> \<not> propConfigurable p \<longrightarrow> k \<in> set ks) \<and>
                  (o_isExtensible (h_objects h2 ! ob) \<or> set ks = dom (map_of (propsOf h2 ob))) then Inr ks else Inl TypeError, h')))"
proof (intro conjI allI impI)
  have V: "\<forall>Q \<in> {}. valid_name N (h_env h) Q" by simp
  note f = engine_from_refl [OF h V]
  show "\<exists>r h'. proxyOwnPropertyKeys E px h = Some (r, h') \<and> heap_keeps N h h' \<and>
      (case r of Inl e \<Rightarrow> True | Inr ks \<Rightarrow>
        (\<exists>h1. heap_keeps N h h1 \<and> untrapped E px ''ownKeys'' h h1 \<and> vOwnPropertyKeys (e_methods E t) h1 = Some (Inr ks, h')) \<or>
        (\<exists>arr h1 h2. trapAnswers E px ''ownKeys'' (retJ [PointerValue t]) h arr h1 \<and> createListFromArrayLike E arr h1 = Some (Inr ks, h2)) \<and>
        distinct ks \<and> (\<forall>k p. map_of (propsOf h' ob) k = Some p \<and> \<not> propConfigurable p \<longrightarrow> k \<in> set ks) \<and>
        (o_isExtensible (h_objects h' ! ob) \<or> set ks = dom (map_of (propsOf h' ob))))"
    unfolding E by (rule proxy_run [OF h V hk.proxyKeys_keeps [OF t]], drule hk.keys_consistent [OF f t], unfold keys_allowed_def,
      elim disj_forward ex_forward conj_forward; (assumption | erule engine_from_heap))
  fix arr h1 ks h2
  assume "trapAnswers E px ''ownKeys'' (retJ [PointerValue t]) h arr h1 \<and> createListFromArrayLike E arr h1 = Some (Inr ks, h2)"
  then show "\<exists>h'. proxyOwnPropertyKeys E px h =
          Some (if distinct ks \<and> (\<forall>k p. map_of (propsOf h2 ob) k = Some p \<and> \<not> propConfigurable p \<longrightarrow> k \<in> set ks) \<and>
                  (o_isExtensible (h_objects h2 ! ob) \<or> set ks = dom (map_of (propsOf h2 ob))) then Inr ks else Inl TypeError, h')"
    unfolding E using hk.keys_trapped [OF f t] unfolding keys_allowed_def by blast
qed

text \<open>The trap of the demonstration makes the target not extensible and gives the one key that it has.\<close>

theorem proxy_keys_consistent_witness:
  "\<exists>h'. proxyOwnPropertyKeys demo_engine demo_proxy demo_heap = Some (Inr [KString [97]], h')"
proof -
  have t: "m_target demo_proxy = Some 1" by (simp add: demo_proxy_def)
  have "trapAnswers demo_engine demo_proxy ''ownKeys'' (retJ [PointerValue 1]) demo_heap (PointerValue 5) demo_sealed \<and>
      createListFromArrayLike demo_engine (PointerValue 5) demo_sealed = Some (Inr [KString [97]], demo_sealed)" by (simp add: demo_trap demo_list)
  from conjunct2 [OF proxy_keys_consistent [OF demo_engine_def demo_engine_ok t], rule_format, OF this] show ?thesis
    unfolding demo_sealed_props by (simp split: if_splits)
qed

end
