(* ===== verification/FloatFormat.thy ===== *)
theory FloatFormat
  imports Prelude
begin

text \<open>
  Binary floating point numbers of IEEE 754, as C++ has them: a format has \<open>p\<close> bits of mantissa and \<open>w\<close> bits of exponent; \<open>double\<close> is the format 52, 11,
  \<open>float\<close> is 23, 8, and \<open>Float16\<close> of \<open>src/util/Float16.h\<close> is 10, 5. A number is its bits, as an integer; without the sign it is a magnitude, which stands
  for \<open>significandOf * 2 ^ scaleOf\<close>. The results of operations are rounded to the nearest number, ties to the even one; every operation that is not a number gives the
  quiet NaN with no other bits.
\<close>

section \<open>Formats\<close>

definition minScale :: "nat \<Rightarrow> nat \<Rightarrow> int" where
  "minScale p w = 2 - 2 ^ (w - 1) - int p"

definition infinityOf :: "nat \<Rightarrow> nat \<Rightarrow> int" where
  "infinityOf p w = (2 ^ w - 1) * 2 ^ p"

definition quietNaN :: "nat \<Rightarrow> nat \<Rightarrow> int" where
  "quietNaN p w = infinityOf p w + 2 ^ (p - 1)"

definition significandOf :: "nat \<Rightarrow> int \<Rightarrow> int" where
  "significandOf p n = (if n div 2 ^ p = 0 then n else 2 ^ p + n mod 2 ^ p)"

definition scaleOf :: "nat \<Rightarrow> nat \<Rightarrow> int \<Rightarrow> int" where
  "scaleOf p w n = (if n div 2 ^ p = 0 then minScale p w else n div 2 ^ p - 1 + minScale p w)"

section \<open>Rounding\<close>

fun bitLength :: "int \<Rightarrow> nat" where
  "bitLength n = (if n \<le> 0 then 0 else Suc (bitLength (n div 2)))"

declare bitLength.simps [simp del]

definition roundShift :: "int \<Rightarrow> nat \<Rightarrow> int" where
  "roundShift m k =
     (let q = m div 2 ^ k; r = m mod 2 ^ k
      in if 2 * r > 2 ^ k \<or> (2 * r = 2 ^ k \<and> odd q) then q + 1 else q)"

text \<open>The number of the format that is nearest to \<open>m * 2 ^ e\<close>\<close>

definition roundTo :: "nat \<Rightarrow> nat \<Rightarrow> int \<Rightarrow> int \<Rightarrow> int" where
  "roundTo p w m e =
     (if m = 0 then 0
      else let u = max (minScale p w) (e + int (bitLength m) - int p - 1);
               q = (if u \<le> e then m * 2 ^ nat (e - u) else roundShift m (nat (u - e)))
           in min (q + (u - minScale p w) * 2 ^ p) (infinityOf p w))"

section \<open>Operations\<close>

definition signOf :: "nat \<Rightarrow> nat \<Rightarrow> int \<Rightarrow> int" where
  "signOf p w x = (if x < 2 ^ (p + w) then 1 else - 1)"

definition magnitudeOf :: "nat \<Rightarrow> nat \<Rightarrow> int \<Rightarrow> int" where
  "magnitudeOf p w x = x mod 2 ^ (p + w)"

definition withSign :: "nat \<Rightarrow> nat \<Rightarrow> int \<Rightarrow> int \<Rightarrow> int" where
  "withSign p w s n = (if s < 0 then 2 ^ (p + w) + n else n)"

definition floatAdd :: "nat \<Rightarrow> nat \<Rightarrow> int \<Rightarrow> int \<Rightarrow> int" where
  "floatAdd p w x y =
     (let inf = infinityOf p w; a = magnitudeOf p w x; b = magnitudeOf p w y; s = signOf p w x; t = signOf p w y
      in if a > inf \<or> b > inf \<or> (a = inf \<and> b = inf \<and> s \<noteq> t) then quietNaN p w
         else if a = inf then x
         else if b = inf then y
         else let e = min (scaleOf p w a) (scaleOf p w b);
                  d = s * significandOf p a * 2 ^ nat (scaleOf p w a - e) + t * significandOf p b * 2 ^ nat (scaleOf p w b - e)
              in if d = 0 then withSign p w (if s = t then s else 1) 0 else withSign p w (sgn d) (roundTo p w \<bar>d\<bar> e))"

definition floatNegate :: "nat \<Rightarrow> nat \<Rightarrow> int \<Rightarrow> int" where
  "floatNegate p w x = withSign p w (- signOf p w x) (magnitudeOf p w x)"

definition floatSub :: "nat \<Rightarrow> nat \<Rightarrow> int \<Rightarrow> int \<Rightarrow> int" where
  "floatSub p w x y = floatAdd p w x (floatNegate p w y)"

definition floatMul :: "nat \<Rightarrow> nat \<Rightarrow> int \<Rightarrow> int \<Rightarrow> int" where
  "floatMul p w x y =
     (let inf = infinityOf p w; a = magnitudeOf p w x; b = magnitudeOf p w y; s = signOf p w x * signOf p w y
      in if a > inf \<or> b > inf \<or> (a = inf \<and> b = 0) \<or> (a = 0 \<and> b = inf) then quietNaN p w
         else if a = inf \<or> b = inf then withSign p w s inf
         else withSign p w s (roundTo p w (significandOf p a * significandOf p b) (scaleOf p w a + scaleOf p w b)))"

text \<open>A cast from the format \<open>p\<close>, \<open>w\<close> to the format \<open>p'\<close>, \<open>w'\<close>\<close>

definition floatCast :: "nat \<Rightarrow> nat \<Rightarrow> nat \<Rightarrow> nat \<Rightarrow> int \<Rightarrow> int" where
  "floatCast p w p' w' x =
     (let inf = infinityOf p w; a = magnitudeOf p w x; s = signOf p w x
      in if a > inf then withSign p' w' s (quietNaN p' w')
         else if a = inf then withSign p' w' s (infinityOf p' w')
         else withSign p' w' s (roundTo p' w' (significandOf p a) (scaleOf p w a)))"

section \<open>Length in bits\<close>

lemma bitLength_pos: "0 < n \<Longrightarrow> bitLength n = Suc (bitLength (n div 2))"
  by (subst bitLength.simps) simp

lemma bitLength_0 [simp]: "bitLength 0 = 0"
  by (subst bitLength.simps) simp

lemma bitLength_unique: "2 ^ k \<le> n \<Longrightarrow> n < 2 ^ Suc k \<Longrightarrow> bitLength n = Suc k"
proof (induction k arbitrary: n)
  case 0
  then have "n = 1" by simp
  then show ?case by (simp add: bitLength_pos)
next
  case (Suc k)
  have "(0 :: int) < 2 ^ Suc k" by simp
  then have "0 < n" using Suc.prems(1) by linarith
  moreover have "2 ^ k \<le> n div 2" "n div 2 < 2 ^ Suc k" using Suc.prems by (auto simp: zdiv_mono1)
  ultimately show ?case using Suc.IH by (simp add: bitLength_pos)
qed

lemma bitLength_bounds: "0 < n \<Longrightarrow> \<exists>k. bitLength n = Suc k \<and> 2 ^ k \<le> n \<and> n < 2 ^ Suc k"
proof (induction n rule: bitLength.induct)
  case (1 n)
  show ?case
  proof (cases "n div 2 = 0")
    case True
    then have "n = 1" using 1(2) by linarith
    then show ?thesis by (intro exI [of _ 0]) (simp add: bitLength_pos)
  next
    case False
    then have "0 < n div 2" using 1(2) by linarith
    then obtain k where "bitLength (n div 2) = Suc k" "2 ^ k \<le> n div 2" "n div 2 < 2 ^ Suc k" using 1(1,2) by auto
    moreover from this(2,3) have "2 ^ Suc k \<le> n" "n < 2 ^ Suc (Suc k)" by (simp_all only: power_Suc)
    ultimately show ?thesis using 1(2) by (intro exI [of _ "Suc k"]) (simp add: bitLength_pos)
  qed
qed

lemma bitLength_shift: "0 < n \<Longrightarrow> bitLength (n * 2 ^ j) = bitLength n + j"
proof -
  assume "0 < n"
  then obtain k where k: "bitLength n = Suc k" "2 ^ k \<le> n" "n < 2 ^ Suc k" using bitLength_bounds by blast
  have "2 ^ (k + j) \<le> n * 2 ^ j" "n * 2 ^ j < 2 ^ Suc (k + j)" using k(2,3) by (simp_all add: power_add)
  then show ?thesis using bitLength_unique [of "k + j"] k(1) by simp
qed

section \<open>Rounding of shifts\<close>

text \<open>The distance is at most a half, and a tie gives an even number.\<close>

lemma roundShift_nearest: "2 * \<bar>roundShift m k * 2 ^ k - m\<bar> \<le> 2 ^ k" "2 * \<bar>roundShift m k * 2 ^ k - m\<bar> = 2 ^ k \<Longrightarrow> k \<noteq> 0 \<Longrightarrow> even (roundShift m k)"
proof -
  define q r where "q = m div 2 ^ k" and "r = m mod 2 ^ k"
  have m: "m = q * 2 ^ k + r" "0 \<le> r" "r < 2 ^ k" unfolding q_def r_def by (simp_all only: div_mult_mod_eq) simp_all
  have rs: "roundShift m k = (if 2 * r > 2 ^ k \<or> (2 * r = 2 ^ k \<and> odd q) then q + 1 else q)" unfolding roundShift_def q_def r_def Let_def by (rule refl)
  have d: "roundShift m k * 2 ^ k - m = (if 2 * r > 2 ^ k \<or> (2 * r = 2 ^ k \<and> odd q) then 2 ^ k - r else - r)"
    by (subst (2) m(1)) (simp add: rs algebra_simps)
  show "2 * \<bar>roundShift m k * 2 ^ k - m\<bar> \<le> 2 ^ k" using m(2,3) unfolding d by auto
  show "even (roundShift m k)" if "2 * \<bar>roundShift m k * 2 ^ k - m\<bar> = 2 ^ k" "k \<noteq> 0"
  proof -
    from that(1) m(2,3) have "2 * r = 2 ^ k" unfolding d by (auto split: if_splits)
    then show ?thesis unfolding rs by auto
  qed
qed

lemma roundShift_0 [simp]: "roundShift m 0 = m"
  by (simp add: roundShift_def)

lemma roundShift_exact: "roundShift (m * 2 ^ k) k = m"
  by (simp add: roundShift_def)

lemma roundShift_shift: "roundShift (m * 2 ^ j) (k + j) = roundShift m k"
proof -
  have "(m * 2 ^ j) div 2 ^ (k + j) = m div 2 ^ k" "(m * 2 ^ j) mod 2 ^ (k + j) = (m mod 2 ^ k) * 2 ^ j" by (simp_all add: power_add mult_mod_left)
  moreover have "2 * ((m mod 2 ^ k) * 2 ^ j) > 2 ^ (k + j) \<longleftrightarrow> 2 * (m mod 2 ^ k) > 2 ^ k" "2 * ((m mod 2 ^ k) * 2 ^ j) = 2 ^ (k + j) \<longleftrightarrow> 2 * (m mod 2 ^ k) = 2 ^ k"
    by (simp_all add: power_add flip: mult.assoc)
  ultimately show ?thesis by (simp add: roundShift_def Let_def)
qed

lemma roundShift_add: "even c \<Longrightarrow> roundShift (m + c * 2 ^ k) k = roundShift m k + c"
  by (auto simp: roundShift_def Let_def)

text \<open>Rounding by adding slightly less than a half, and one more if the result would be odd\<close>

lemma roundShift_addend: "roundShift m (Suc k) = (m + (2 ^ k - 1) + m div 2 ^ Suc k mod 2) div 2 ^ Suc k"
proof -
  define q r where "q = m div 2 ^ Suc k" and "r = m mod 2 ^ Suc k"
  have m: "m = r + q * 2 ^ Suc k" "0 \<le> r" "r < 2 ^ Suc k" unfolding q_def r_def by (simp_all only: mod_div_mult_eq) simp_all
  let ?c = "(2 :: int) ^ k - 1 + q mod 2"
  have "m + (2 ^ k - 1) + q mod 2 = (r + ?c) + q * 2 ^ Suc k" unfolding m(1) by simp
  then have "(m + (2 ^ k - 1) + q mod 2) div 2 ^ Suc k = (r + ?c) div 2 ^ Suc k + q" by (simp only: div_mult_self1) simp
  moreover have "(r + ?c) div 2 ^ Suc k = (if 2 ^ Suc k \<le> r + ?c then 1 else 0)"
    using m(2,3) by (auto simp: div_pos_pos_trivial intro!: int_div_pos_eq [of _ _ 1 "r + ?c - 2 ^ Suc k"])
  moreover have "2 ^ Suc k \<le> r + ?c \<longleftrightarrow> 2 * r > 2 ^ Suc k \<or> (2 * r = 2 ^ Suc k \<and> odd q)"
    by (cases "even q") (auto simp: even_iff_mod_2_eq_zero odd_iff_mod_2_eq_one)
  ultimately show ?thesis unfolding roundShift_def Let_def q_def [symmetric] r_def [symmetric] by simp
qed

section \<open>Rounding to a format\<close>

text \<open>The result depends on the number only, not on how it is written.\<close>

lemma roundTo_shift:
  assumes "0 \<le> m"
  shows "roundTo p w (m * 2 ^ j) e = roundTo p w m (e + int j)"
proof (cases "m = 0")
  case False
  then have m: "0 < m" using assms by simp
  define u where "u = max (minScale p w) (e + int j + int (bitLength m) - int p - 1)"
  have u': "max (minScale p w) (e + int (bitLength (m * 2 ^ j)) - int p - 1) = u" by (simp add: bitLength_shift [OF m] u_def algebra_simps)
  have "(if u \<le> e then m * 2 ^ j * 2 ^ nat (e - u) else roundShift (m * 2 ^ j) (nat (u - e))) = (if u \<le> e + int j then m * 2 ^ nat (e + int j - u) else roundShift m (nat (u - (e + int j))))"
  proof -
    consider "u \<le> e" | "e < u" "u \<le> e + int j" | "e + int j < u" by linarith
    then show ?thesis
    proof cases
      case 1
      then have "nat (e + int j - u) = j + nat (e - u)" by simp
      then show ?thesis using 1 by (simp add: power_add)
    next
      case 2
      then have "j = nat (e + int j - u) + nat (u - e)" by simp
      then have "m * 2 ^ j = m * 2 ^ nat (e + int j - u) * 2 ^ nat (u - e)" by (metis mult.assoc power_add)
      then show ?thesis using 2 by (simp only: roundShift_exact) simp
    next
      case 3
      then have "nat (u - e) = nat (u - (e + int j)) + j" by simp
      then show ?thesis using 3 roundShift_shift by simp
    qed
  qed
  then show ?thesis using m unfolding roundTo_def u' Let_def by (simp add: u_def [symmetric])
qed (simp add: roundTo_def)

lemma significandOf_nonneg [simp]: "0 \<le> n \<Longrightarrow> 0 \<le> significandOf p n"
  by (simp add: significandOf_def)

text \<open>A number of the format is not changed.\<close>

lemma roundTo_exact:
  assumes "0 \<le> n" "n < infinityOf p w"
  shows "roundTo p w (significandOf p n) (scaleOf p w n) = n"
proof (cases "n div 2 ^ p = 0")
  case True
  then have n: "n < 2 ^ p" using assms(1) by (auto simp: zdiv_eq_0_iff)
  show ?thesis
  proof (cases "n = 0")
    case False
    then obtain k where k: "bitLength n = Suc k" "2 ^ k \<le> n" using assms(1) bitLength_bounds [of n] by auto
    have "k < p" using k(2) n by (meson less_le_trans not_le power_increasing_iff order.strict_trans1 one_less_numeral_iff semiring_norm(76) power_strict_increasing_iff)
    then show ?thesis using False True assms(2) k(1) by (simp add: roundTo_def significandOf_def scaleOf_def Let_def max_def min_def)
  qed (simp add: roundTo_def significandOf_def)
next
  case False
  let ?E = "n div 2 ^ p" and ?m = "2 ^ p + n mod 2 ^ p"
  have E: "1 \<le> ?E" using False assms(1) pos_imp_zdiv_nonneg_iff [of "2 ^ p" n] by simp
  have "?m < 2 ^ Suc p" by simp
  moreover have "2 ^ p \<le> ?m" by simp
  ultimately have bl: "bitLength ?m = Suc p" by (intro bitLength_unique)
  have "?m \<noteq> 0" using \<open>2 ^ p \<le> ?m\<close> by (smt (verit) zero_less_power)
  moreover have "?m + (?E - 1) * 2 ^ p = n" by (simp add: algebra_simps)
  ultimately show ?thesis using False E assms(2) bl by (simp add: roundTo_def significandOf_def scaleOf_def Let_def max_def min_def)
qed

text \<open>The rounding of a number with a known length\<close>

lemma roundTo_length:
  assumes "2 ^ k \<le> m" "m < 2 ^ Suc k" "u = max (minScale p w) (e + int k - int p)"
  shows "u \<le> e \<Longrightarrow> roundTo p w m e = min (m * 2 ^ nat (e - u) + (u - minScale p w) * 2 ^ p) (infinityOf p w)"
    "e \<le> u \<Longrightarrow> roundTo p w m e = min (roundShift m (nat (u - e)) + (u - minScale p w) * 2 ^ p) (infinityOf p w)"
proof -
  have "m \<noteq> 0" using assms(1) by (smt (verit) zero_less_power)
  moreover have "max (minScale p w) (e + int (bitLength m) - int p - 1) = u" using bitLength_unique [OF assms(1,2)] assms(3) by simp
  ultimately have r: "roundTo p w m e = min ((if u \<le> e then m * 2 ^ nat (e - u) else roundShift m (nat (u - e))) + (u - minScale p w) * 2 ^ p) (infinityOf p w)"
    unfolding roundTo_def Let_def by simp
  then show "u \<le> e \<Longrightarrow> roundTo p w m e = min (m * 2 ^ nat (e - u) + (u - minScale p w) * 2 ^ p) (infinityOf p w)" by simp
  show "e \<le> u \<Longrightarrow> roundTo p w m e = min (roundShift m (nat (u - e)) + (u - minScale p w) * 2 ^ p) (infinityOf p w)" using r by (cases "u = e") simp_all
qed

lemma code_fields:
  assumes "0 \<le> E" "2 ^ p \<le> m" "m < 2 ^ Suc p"
  shows "significandOf p (m + E * 2 ^ p) = m" "scaleOf p w (m + E * 2 ^ p) = E + minScale p w"
proof -
  have "m div 2 ^ p = 1" "m mod 2 ^ p = m - 2 ^ p"
    using assms(2,3) by (auto intro: int_div_pos_eq [of m "2 ^ p" 1 "m - 2 ^ p"] int_mod_pos_eq [of m "2 ^ p" 1 "m - 2 ^ p"])
  then have "(m + E * 2 ^ p) div 2 ^ p = 1 + E" "(m + E * 2 ^ p) mod 2 ^ p = m - 2 ^ p" by simp_all
  then show "significandOf p (m + E * 2 ^ p) = m" "scaleOf p w (m + E * 2 ^ p) = E + minScale p w" using assms(1) by (simp_all add: significandOf_def scaleOf_def)
qed

text \<open>A number that fits into the format is a number of the format.\<close>

lemma roundTo_represents:
  assumes m: "2 ^ k \<le> m" "m < 2 ^ Suc k" and k: "k \<le> p" "minScale p w \<le> e" and fits: "max (minScale p w) (e + int k - int p) - minScale p w + 2 < 2 ^ w"
  obtains j where "significandOf p (roundTo p w m e) = m * 2 ^ j" "scaleOf p w (roundTo p w m e) = e - int j" "0 \<le> roundTo p w m e" "roundTo p w m e < infinityOf p w"
proof -
  define u where "u = max (minScale p w) (e + int k - int p)"
  have u: "u \<le> e" "minScale p w \<le> u" using k by (auto simp: u_def)
  define j where "j = nat (e - u)"
  let ?q = "m * 2 ^ j" and ?E = "u - minScale p w"
  have kj: "k + j \<le> p" using u by (auto simp: j_def u_def)
  have "?q < 2 ^ Suc k * 2 ^ j" using m(2) by simp
  also have "\<dots> = 2 ^ Suc (k + j)" by (simp add: power_add)
  also have "\<dots> \<le> 2 ^ Suc p" using kj by (intro power_increasing) simp_all
  finally have q: "?q < 2 ^ Suc p" .
  have q0: "0 < ?q" using m(1) by (smt (verit) zero_less_power mult_pos_pos)
  have "?q + ?E * 2 ^ p < 2 * 2 ^ p + ?E * 2 ^ p" using q by simp
  also have "\<dots> = (?E + 2) * 2 ^ p" by (simp add: algebra_simps)
  also have "\<dots> \<le> infinityOf p w" unfolding infinityOf_def using fits by (intro mult_right_mono) (simp_all add: u_def)
  finally have lt: "?q + ?E * 2 ^ p < infinityOf p w" .
  then have r: "roundTo p w m e = ?q + ?E * 2 ^ p" using roundTo_length(1) [OF m u_def u(1)] by (simp add: j_def)
  have jj: "e - int j = u" using u by (simp add: j_def)
  have "significandOf p (?q + ?E * 2 ^ p) = ?q \<and> scaleOf p w (?q + ?E * 2 ^ p) = u"
  proof (cases "2 ^ p \<le> ?q")
    case True
    then show ?thesis using code_fields [of ?E p ?q] u q by simp
  next
    case False
    have "u = minScale p w"
    proof (rule ccontr)
      assume "u \<noteq> minScale p w"
      then have "u = e + int k - int p" by (auto simp: u_def max_def split: if_splits)
      then have "k + j = p" using u k by (simp add: j_def)
      moreover have "2 ^ k * 2 ^ j \<le> ?q" using m(1) by simp
      ultimately show False using False by (simp flip: power_add)
    qed
    moreover have "?q div 2 ^ p = 0" using False q0 by (simp add: div_pos_pos_trivial)
    ultimately show ?thesis by (simp add: significandOf_def scaleOf_def)
  qed
  then show ?thesis using that [of j] r jj lt q0 u by (simp add: order_less_imp_le)
qed

text \<open>So are the numbers of a smaller format.\<close>

lemma wider_format:
  assumes fits: "minScale p' w' + int p' \<le> minScale p w" "p \<le> p'" "2 ^ w + minScale p w - minScale p' w' + int p - int p' < 2 ^ w'" and n: "0 \<le> n" "n < infinityOf p w"
  obtains j where "significandOf p' (roundTo p' w' (significandOf p n) (scaleOf p w n)) = significandOf p n * 2 ^ j"
    "scaleOf p' w' (roundTo p' w' (significandOf p n) (scaleOf p w n)) = scaleOf p w n - int j"
    "0 \<le> roundTo p' w' (significandOf p n) (scaleOf p w n)" "roundTo p' w' (significandOf p n) (scaleOf p w n) < infinityOf p' w'"
proof (cases "n = 0")
  case True
  then have "significandOf p n = 0" "scaleOf p w n = minScale p w" by (simp_all add: significandOf_def scaleOf_def)
  moreover have "0 < (2 ^ w - 1 :: int) * 2 ^ p" using n unfolding infinityOf_def by linarith
  then have "(2 :: int) \<le> 2 ^ w" unfolding zero_less_mult_iff by (smt (verit) zero_less_power)
  then have "(2 :: int) \<le> 2 ^ w'" using fits by linarith
  then have "0 < infinityOf p' w'" by (simp add: infinityOf_def)
  ultimately show ?thesis using that [of "nat (minScale p w - minScale p' w')"] fits by (simp add: roundTo_def significandOf_def scaleOf_def)
next
  case False
  let ?s = "significandOf p n" and ?e = "scaleOf p w n" and ?E = "n div 2 ^ p"
  have E: "0 \<le> ?E" using n(1) by (simp add: pos_imp_zdiv_nonneg_iff)
  have "?E \<le> 2 ^ w - 2"
  proof (rule ccontr)
    assume "\<not> ?E \<le> 2 ^ w - 2"
    then have "(2 ^ w - 1) * 2 ^ p \<le> ?E * 2 ^ p" by (intro mult_right_mono) simp_all
    also have "\<dots> \<le> n" by (simp flip: minus_mod_eq_div_mult)
    finally show False using n(2) by (simp add: infinityOf_def)
  qed
  then have e: "minScale p w \<le> ?e" "?e \<le> 2 ^ w - 2 + minScale p w" using E by (auto simp: scaleOf_def)
  have s: "0 < ?s" "?s < 2 ^ Suc p"
  proof -
    show "0 < ?s" using False n(1) by (auto simp: significandOf_def add_pos_nonneg)
    show "?s < 2 ^ Suc p" using n(1) by (auto simp: significandOf_def zdiv_eq_0_iff intro: order.strict_trans)
  qed
  obtain k where k: "2 ^ k \<le> ?s" "?s < 2 ^ Suc k" using bitLength_bounds [OF s(1)] by blast
  have "(2 :: int) ^ k < 2 ^ Suc p" using k(1) s(2) by simp
  then have "k < Suc p" by (rule power_less_imp_less_exp [rotated]) simp
  then have "k \<le> p" by simp
  show ?thesis by (rule roundTo_represents [OF k, of p' w' ?e]) (use \<open>k \<le> p\<close> fits e in \<open>auto intro: that\<close>)
qed

section \<open>Casts\<close>

lemma infinityOf_bound: "infinityOf p w < 2 ^ (p + w)" "0 \<le> infinityOf p w"
  by (simp_all add: infinityOf_def power_add algebra_simps)

lemma quietNaN_bound: "p \<noteq> 0 \<Longrightarrow> infinityOf p w < quietNaN p w" "p \<noteq> 0 \<Longrightarrow> quietNaN p w < 2 ^ (p + w)"
proof -
  assume "p \<noteq> 0"
  then have "(2 :: int) ^ (p - 1) < 2 ^ p" by simp
  moreover have "infinityOf p w = 2 ^ (p + w) - 2 ^ p" by (simp add: infinityOf_def power_add algebra_simps)
  ultimately show "quietNaN p w < 2 ^ (p + w)" unfolding quietNaN_def by linarith
qed (simp add: quietNaN_def)

lemma signOf_cases: "signOf p w x = 1 \<or> signOf p w x = - 1"
  by (simp add: signOf_def)

lemma withSign_fields:
  assumes "0 \<le> n" "n < 2 ^ (p + w)" "s = 1 \<or> s = - 1"
  shows "signOf p w (withSign p w s n) = s" "magnitudeOf p w (withSign p w s n) = n"
  using assms by (auto simp: signOf_def magnitudeOf_def withSign_def mod_pos_pos_trivial)

lemma withSign_self:
  assumes "0 \<le> x" "x < 2 * 2 ^ (p + w)"
  shows "withSign p w (signOf p w x) (magnitudeOf p w x) = x"
proof (cases "x < 2 ^ (p + w)")
  case False
  then have "x mod 2 ^ (p + w) = x - 2 ^ (p + w)" using assms by (auto intro: int_mod_pos_eq [of x "2 ^ (p + w)" 1])
  then show ?thesis using False by (simp add: withSign_def signOf_def magnitudeOf_def)
qed (use assms in \<open>simp add: withSign_def signOf_def magnitudeOf_def mod_pos_pos_trivial\<close>)

lemma magnitudeOf_bounds: "0 \<le> magnitudeOf p w x" "magnitudeOf p w x < 2 ^ (p + w)"
  by (simp_all add: magnitudeOf_def)

lemma roundShift_bounds: "m div 2 ^ k \<le> roundShift m k" "roundShift m k \<le> m div 2 ^ k + 1"
  by (simp_all add: roundShift_def Let_def)

lemma roundTo_bounds: "0 \<le> m \<Longrightarrow> 0 \<le> roundTo p w m e" "roundTo p w m e \<le> infinityOf p w"
proof -
  show "roundTo p w m e \<le> infinityOf p w" using infinityOf_bound(2) [of p w] by (simp add: roundTo_def Let_def)
  assume "0 \<le> m"
  then have "0 \<le> roundShift m k" for k using roundShift_bounds(1) [of m k] pos_imp_zdiv_nonneg_iff [of "2 ^ k" m] by (meson order_trans zero_less_numeral zero_less_power)
  then show "0 \<le> roundTo p w m e" using \<open>0 \<le> m\<close> infinityOf_bound(2) [of p w] by (simp add: roundTo_def Let_def)
qed

lemma floatCast_bounds:
  assumes "p' \<noteq> 0"
  shows "0 \<le> floatCast p w p' w' x" "floatCast p w p' w' x < 2 * 2 ^ (p' + w')"
proof -
  let ?r = "roundTo p' w' (significandOf p (magnitudeOf p w x)) (scaleOf p w (magnitudeOf p w x))"
  have "0 \<le> ?r" by (intro roundTo_bounds(1) significandOf_nonneg magnitudeOf_bounds(1))
  moreover have "?r < 2 ^ (p' + w')" using infinityOf_bound(1) [of p' w'] roundTo_bounds(2) order.strict_trans1 by blast
  moreover have "0 \<le> quietNaN p' w'" "quietNaN p' w' < 2 ^ (p' + w')" using quietNaN_bound [OF assms, of w'] infinityOf_bound(2) [of p' w'] by linarith+
  ultimately show "0 \<le> floatCast p w p' w' x" "floatCast p w p' w' x < 2 * 2 ^ (p' + w')" using infinityOf_bound [of p' w'] by (auto simp: floatCast_def Let_def withSign_def)
qed

text \<open>A cast through a wider format\<close>

lemma floatCast_trans:
  assumes fits: "minScale p' w' + int p' \<le> minScale p w" "p \<le> p'" "2 ^ w + minScale p w - minScale p' w' + int p - int p' < 2 ^ w'" and p: "p' \<noteq> 0"
  shows "floatCast p' w' p'' w'' (floatCast p w p' w' x) = floatCast p w p'' w'' x"
proof -
  let ?a = "magnitudeOf p w x"
  note sg = signOf_cases [of p w x]
  consider (nan) "?a > infinityOf p w" | (inf) "?a = infinityOf p w" | (finite) "?a < infinityOf p w" by linarith
  then show ?thesis
  proof cases
    case nan
    have "0 \<le> quietNaN p' w'" using quietNaN_bound(1) [OF p, of w'] infinityOf_bound(2) [of p' w'] by linarith
    then show ?thesis using nan quietNaN_bound [OF p, of w'] sg by (simp add: floatCast_def [of p w] withSign_fields) (simp add: floatCast_def withSign_fields)
  next
    case inf
    then show ?thesis using infinityOf_bound [of p' w'] sg by (simp add: floatCast_def [of p w] withSign_fields) (simp add: floatCast_def withSign_fields)
  next
    case finite
    define c where "c = roundTo p' w' (significandOf p ?a) (scaleOf p w ?a)"
    obtain j where j: "significandOf p' c = significandOf p ?a * 2 ^ j" "scaleOf p' w' c = scaleOf p w ?a - int j" "0 \<le> c" "c < infinityOf p' w'"
      unfolding c_def by (rule wider_format [OF fits magnitudeOf_bounds(1) finite])
    then have b: "c < 2 ^ (p' + w')" using infinityOf_bound(1) [of p' w'] by linarith
    have "roundTo p'' w'' (significandOf p' c) (scaleOf p' w' c) = roundTo p'' w'' (significandOf p ?a) (scaleOf p w ?a)"
      unfolding j(1,2) using roundTo_shift [of "significandOf p ?a" p'' w'' j "scaleOf p w ?a - int j"] magnitudeOf_bounds(1) by simp
    moreover have "floatCast p w p' w' x = withSign p' w' (signOf p w x) c" using finite by (simp add: floatCast_def c_def Let_def)
    ultimately show ?thesis using finite j(4) withSign_fields [OF j(3) b sg] by (simp add: floatCast_def Let_def)
  qed
qed

lemma floatCast_self:
  assumes "0 \<le> x" "x < 2 * 2 ^ (p + w)" "magnitudeOf p w x \<le> infinityOf p w"
  shows "floatCast p w p w x = x"
  using assms(3) roundTo_exact [OF magnitudeOf_bounds(1), of p w x p w] withSign_self [OF assms(1,2)] by (auto simp: floatCast_def Let_def)

end
