(* ===== verification/NumberConversion.thy ===== *)
theory NumberConversion
  imports KeyedCollection
begin

text \<open>
  The conversion of doubles to 32-bit integers: \<open>Value::toInt32SlowCase\<close> of \<open>src/runtime/Value.cpp\<close>. A double is its
  bits; \<open>truncDouble\<close> is the integer that it stands for, rounded towards zero.
\<close>

unbundle bit_operations_syntax

section \<open>Doubles\<close>

definition biasedExponent :: "u64 \<Rightarrow> int" where
  "biasedExponent d = uint d div 2 ^ 52 mod 2 ^ 11"

definition mantissa :: "u64 \<Rightarrow> int" where
  "mantissa d = uint d mod 2 ^ 52"

definition significand :: "u64 \<Rightarrow> int" where
  "significand d = (if biasedExponent d = 0 then mantissa d else 2 ^ 52 + mantissa d)"

definition scale :: "u64 \<Rightarrow> int" where
  "scale d = (if biasedExponent d = 0 then - 1074 else biasedExponent d - 1075)"

text \<open>The number is \<open>significand * 2 ^ scale\<close>, with its sign; infinities and NaN count as 0.\<close>

definition truncMagnitude :: "u64 \<Rightarrow> int" where
  "truncMagnitude d =
     (if biasedExponent d = 2047 then 0 else if 0 \<le> scale d then significand d * 2 ^ nat (scale d) else significand d div 2 ^ nat (- scale d))"

definition truncDouble :: "u64 \<Rightarrow> int" where
  "truncDouble d = (if bit d 63 then - truncMagnitude d else truncMagnitude d)"

section \<open>Conversion to 32 bits\<close>

definition toInt32SlowCase :: "u64 \<Rightarrow> int" where
  "toInt32SlowCase bits =
     (let exp = uint (drop_bit 52 bits AND 0x7ff) - 0x3ff
      in if exp < 0 \<or> exp > 83 then 0
         else let result = (if exp > 52 then ucast (push_bit (nat (exp - 52)) bits) else ucast (signed_drop_bit (nat (52 - exp)) bits) :: 32 word);
                  missingOne = push_bit (nat exp) (1 :: 32 word);
                  result' = (if exp < 32 then (result AND (missingOne - 1)) + missingOne else result)
              in sint (if sint bits < 0 then - result' else result'))"

section \<open>The conversion is the truncation modulo \<open>2 ^ 32\<close>\<close>

lemma double_bits: "uint (d :: u64) = (if bit d 63 then 2 ^ 63 else 0) + biasedExponent d * 2 ^ 52 + mantissa d"
proof -
  have u: "0 \<le> uint d" "uint d < 2 ^ 64" using uint_lt2p [of d] by simp_all
  have b: "bit d 63 \<longleftrightarrow> 2 ^ 63 \<le> uint d"
  proof -
    have "bit d 63 \<longleftrightarrow> bit (uint d) 63" by (simp add: bit_uint_iff)
    then have "bit d 63 \<longleftrightarrow> odd (uint d div 2 ^ 63)" unfolding bit_iff_odd .
    moreover have "uint d div 2 ^ 63 = (if 2 ^ 63 \<le> uint d then 1 else 0)" using u by (auto simp: div_pos_pos_trivial div_eq_dividend_iff intro: int_div_pos_eq [of _ _ 1 "uint d - 2 ^ 63"])
    ultimately show ?thesis by auto
  qed
  have "biasedExponent d * 2 ^ 52 + mantissa d = uint d mod 2 ^ 63"
    unfolding biasedExponent_def mantissa_def using mod_mult2_eq' [of "uint d" "2 ^ 52" "2 ^ 11"] by (simp add: mult.commute)
  moreover have "uint d mod 2 ^ 63 = uint d - (if 2 ^ 63 \<le> uint d then 2 ^ 63 else 0)" using u by (auto simp: mod_pos_pos_trivial intro: int_mod_pos_eq [of _ _ 1])
  ultimately show ?thesis using b by simp
qed

lemma exponent_bits: "uint (drop_bit 52 (d :: u64) AND 0x7ff) = biasedExponent d"
proof -
  have "drop_bit 52 d AND 0x7ff = take_bit 11 (drop_bit 52 d)" by (simp add: take_bit_eq_mask mask_numeral)
  then have "uint (drop_bit 52 d AND 0x7ff) = take_bit 11 (drop_bit 52 (uint d))" by (simp only: unsigned_take_bit_eq unsigned_drop_bit_eq) (simp add: take_bit_drop_bit)
  then show ?thesis by (simp add: biasedExponent_def take_bit_eq_mod drop_bit_eq_div)
qed

lemma sint_bits: "sint (d :: u64) = uint d - (if bit d 63 then 2 ^ 64 else 0)"
proof -
  have "sint d = take_bit 64 (uint d) - 2 ^ 64 * of_bool (bit (uint d) 63)" by (simp add: sint_uint signed_take_bit_eq_take_bit_minus)
  moreover have "take_bit 64 (uint d) = uint d" using uint_lt2p [of d] by (simp add: take_bit_eq_mod mod_pos_pos_trivial)
  ultimately show ?thesis by (simp add: bit_uint_iff)
qed

lemma sign_bit: "sint (d :: u64) < 0 \<longleftrightarrow> bit d 63"
  using uint_lt2p [of d] by (auto simp: sint_bits)

lemma mantissa_bound: "0 \<le> mantissa d" "mantissa d < 2 ^ 52"
  by (simp_all add: mantissa_def)

lemma exponent_bound: "0 \<le> biasedExponent d" "biasedExponent d < 2 ^ 11"
  by (simp_all add: biasedExponent_def)

text \<open>Casts to 32 bits depend on the number modulo \<open>2 ^ 32\<close>.\<close>

lemma word32_eq: "(word_of_int a :: 32 word) = word_of_int b \<longleftrightarrow> (2 :: int) ^ 32 dvd a - b"
  by (simp add: word_of_int_eq_iff take_bit_eq_mod mod_eq_dvd_iff)

lemma cast_push: "(ucast (push_bit k (d :: u64)) :: 32 word) = word_of_int (uint d * 2 ^ k)"
proof -
  have "(uint d * 2 ^ k) mod 2 ^ 64 - uint d * 2 ^ k = 2 ^ 32 * (- (2 ^ 32 * (uint d * 2 ^ k div 2 ^ 64)))" by (simp flip: minus_mult_div_eq_mod)
  then have "(2 :: int) ^ 32 dvd (uint d * 2 ^ k) mod 2 ^ 64 - uint d * 2 ^ k" by (rule dvdI)
  then have "(word_of_int ((uint d * 2 ^ k) mod 2 ^ 64) :: 32 word) = word_of_int (uint d * 2 ^ k)" unfolding word32_eq .
  moreover have "uint (push_bit k d) = (uint d * 2 ^ k) mod 2 ^ 64" by (subst unsigned_push_bit_eq) (simp add: take_bit_eq_mod push_bit_eq_mult)
  ultimately have "(word_of_int (uint (push_bit k d)) :: 32 word) = word_of_int (uint d * 2 ^ k)" by (simp only:)
  then show ?thesis by simp
qed

lemma cast_sdrop: "(ucast (signed_drop_bit k (d :: u64)) :: 32 word) = word_of_int (sint d div 2 ^ k)"
proof -
  let ?w = "signed_drop_bit k d"
  have "sint ?w = sint d div 2 ^ k" by (simp add: sint_signed_drop_bit_eq drop_bit_eq_div)
  moreover have "(word_of_int (uint ?w) :: 32 word) = word_of_int (sint ?w)" unfolding word32_eq sint_bits [of ?w] by (simp add: dvd_def)
  ultimately show ?thesis by simp
qed

lemma truncMagnitude_normal:
  assumes "biasedExponent d \<noteq> 0" "biasedExponent d \<noteq> 2047"
  shows "52 < biasedExponent d - 1023 \<Longrightarrow> truncMagnitude d = (2 ^ 52 + mantissa d) * 2 ^ nat (biasedExponent d - 1023 - 52)"
    "biasedExponent d - 1023 \<le> 52 \<Longrightarrow> truncMagnitude d = (2 ^ 52 + mantissa d) div 2 ^ nat (52 - (biasedExponent d - 1023))"
  using assms by (auto simp: truncMagnitude_def scale_def significand_def algebra_simps)

text \<open>Large exponents: only the mantissa reaches the low bits.\<close>

lemma large_case:
  assumes "52 < e" "biasedExponent d = e + 1023"
  shows "(ucast (push_bit (nat (e - 52)) d) :: 32 word) = word_of_int ((2 ^ 52 + mantissa d) * 2 ^ nat (e - 52))"
proof -
  have "uint d * 2 ^ nat (e - 52) - (2 ^ 52 + mantissa d) * 2 ^ nat (e - 52) = 2 ^ 32 * (((if bit d 63 then 2 ^ 31 else 0) + (biasedExponent d - 1) * 2 ^ 20) * 2 ^ nat (e - 52))"
    unfolding double_bits [of d] by (simp add: algebra_simps)
  then have "(2 :: int) ^ 32 dvd uint d * 2 ^ nat (e - 52) - (2 ^ 52 + mantissa d) * 2 ^ nat (e - 52)" by (rule dvdI)
  then show ?thesis unfolding cast_push word32_eq .
qed

lemma small_shift:
  assumes "0 \<le> e" "e \<le> 52"
  shows "sint d div 2 ^ nat (52 - e) = ((if bit d 63 then - (2 ^ 11) else 0) + biasedExponent d) * 2 ^ nat e + mantissa d div 2 ^ nat (52 - e)"
    "(2 ^ 52 + mantissa d) div 2 ^ nat (52 - e) = 2 ^ nat e + mantissa d div 2 ^ nat (52 - e)" "mantissa d div 2 ^ nat (52 - e) < 2 ^ nat e" "0 \<le> mantissa d div 2 ^ nat (52 - e)"
proof -
  let ?k = "2 ^ nat (52 - e) :: int" and ?E = "2 ^ nat e :: int"
  have p: "(2 :: int) ^ 52 = ?E * ?k" using assms by (simp flip: power_add nat_add_distrib)
  have k: "0 < ?k" by simp
  have "sint d = ((if bit d 63 then - (2 ^ 11) else 0) + biasedExponent d) * 2 ^ 52 + mantissa d" unfolding sint_bits double_bits [of d] by (simp add: algebra_simps)
  also have "\<dots> = mantissa d + (((if bit d 63 then - (2 ^ 11) else 0) + biasedExponent d) * ?E) * ?k" unfolding p by (simp only: ac_simps)
  finally show "sint d div ?k = ((if bit d 63 then - (2 ^ 11) else 0) + biasedExponent d) * ?E + mantissa d div ?k" using k by (simp only: div_mult_self1)
  have "(2 ^ 52 + mantissa d) div ?k = (mantissa d + ?E * ?k) div ?k" unfolding p by (simp only: add.commute)
  then show "(2 ^ 52 + mantissa d) div ?k = ?E + mantissa d div ?k" using k by simp
  show "mantissa d div ?k < ?E"
  proof (rule ccontr)
    assume "\<not> mantissa d div ?k < ?E"
    then have "?E * ?k \<le> mantissa d div ?k * ?k" by (intro mult_right_mono) simp_all
    also have "\<dots> = mantissa d - mantissa d mod ?k" by (simp add: minus_mod_eq_div_mult)
    also have "\<dots> \<le> mantissa d" by simp
    finally show False using mantissa_bound(2) [of d] p by simp
  qed
  show "0 \<le> mantissa d div ?k" using mantissa_bound(1) [of d] k by (simp add: pos_imp_zdiv_nonneg_iff)
qed

lemma middle_case:
  assumes "32 \<le> e" "e \<le> 52"
  shows "(ucast (signed_drop_bit (nat (52 - e)) d) :: 32 word) = word_of_int ((2 ^ 52 + mantissa d) div 2 ^ nat (52 - e))"
proof -
  have "nat e = 32 + nat (e - 32)" using assms by simp
  then have e: "(2 :: int) ^ nat e = 2 ^ 32 * 2 ^ nat (e - 32)" by (simp only: power_add)
  have "sint d div 2 ^ nat (52 - e) - (2 ^ 52 + mantissa d) div 2 ^ nat (52 - e) = 2 ^ 32 * (((if bit d 63 then - (2 ^ 11) else 0) + biasedExponent d - 1) * 2 ^ nat (e - 32))"
    using small_shift(1,2) [of e d] assms unfolding e by (simp add: algebra_simps)
  then have "(2 :: int) ^ 32 dvd sint d div 2 ^ nat (52 - e) - (2 ^ 52 + mantissa d) div 2 ^ nat (52 - e)" by (rule dvdI)
  then show ?thesis unfolding cast_sdrop word32_eq .
qed

lemma small_case:
  assumes "0 \<le> e" "e < 32"
  shows "((ucast (signed_drop_bit (nat (52 - e)) d) :: 32 word) AND (push_bit (nat e) 1 - 1)) + push_bit (nat e) 1 = word_of_int ((2 ^ 52 + mantissa d) div 2 ^ nat (52 - e))"
proof -
  let ?m = "mantissa d div 2 ^ nat (52 - e)"
  note sh = small_shift [of e d]
  have "push_bit (nat e) (1 :: 32 word) - 1 = mask (nat e)" by (simp add: mask_eq_decr_exp push_bit_eq_mult)
  then have "((word_of_int (sint d div 2 ^ nat (52 - e)) :: 32 word) AND (push_bit (nat e) 1 - 1)) = take_bit (nat e) (word_of_int (sint d div 2 ^ nat (52 - e)))"
    by (simp add: take_bit_eq_mask)
  also have "\<dots> = word_of_int (take_bit (nat e) (sint d div 2 ^ nat (52 - e)))" 
    using assms by (intro bit_word_eqI) (auto simp: bit_take_bit_iff bit_word_of_int_iff)
  also have "take_bit (nat e) (sint d div 2 ^ nat (52 - e)) = ?m" using sh assms by (simp add: take_bit_eq_mod)
  finally have "((ucast (signed_drop_bit (nat (52 - e)) d) :: 32 word) AND (push_bit (nat e) 1 - 1)) = word_of_int ?m" unfolding cast_sdrop .
  then show ?thesis using sh(2) assms by (simp add: push_bit_eq_mult)
qed

lemma truncMagnitude_outside:
  assumes "biasedExponent d - 1023 < 0"
  shows "truncMagnitude d = 0"
proof -
  let ?k = "nat (- scale d)"
  have s: "scale d \<le> - 53" using assms by (auto simp: scale_def)
  have "significand d < 2 ^ 53" "0 \<le> significand d" using mantissa_bound [of d] by (simp_all add: significand_def)
  moreover have "(2 :: int) ^ 53 \<le> 2 ^ ?k" using s by (intro power_increasing) auto
  ultimately have "significand d div 2 ^ ?k = 0" by (intro div_pos_pos_trivial) auto
  then show ?thesis using s by (simp add: truncMagnitude_def)
qed

lemma truncMagnitude_huge:
  assumes "83 < biasedExponent d - 1023"
  shows "(word_of_int (truncMagnitude d) :: 32 word) = 0"
proof (cases "biasedExponent d = 2047")
  case False
  have "nat (biasedExponent d - 1023 - 52) = 32 + nat (biasedExponent d - 1023 - 84)" using assms by simp
  then have "(2 :: int) ^ nat (biasedExponent d - 1023 - 52) = 2 ^ 32 * 2 ^ nat (biasedExponent d - 1023 - 84)" by (simp only: power_add)
  then have "truncMagnitude d - 0 = 2 ^ 32 * ((2 ^ 52 + mantissa d) * 2 ^ nat (biasedExponent d - 1023 - 84))"
    using truncMagnitude_normal(1) [of d] assms False by simp
  then have "(2 :: int) ^ 32 dvd truncMagnitude d - 0" by (rule dvdI)
  then have "(word_of_int (truncMagnitude d) :: 32 word) = word_of_int 0" unfolding word32_eq .
  then show ?thesis by simp
qed (simp add: truncMagnitude_def)

lemma toInt32_truncates: "toInt32SlowCase d = sint (word_of_int (truncDouble d) :: 32 word)"
proof -
  define e where "e = biasedExponent d - 1023"
  define r where "r = (if e > 52 then ucast (push_bit (nat (e - 52)) d) else ucast (signed_drop_bit (nat (52 - e)) d) :: 32 word)"
  define r' where "r' = (if e < 32 then (r AND (push_bit (nat e) 1 - 1)) + push_bit (nat e) 1 else r)"
  have "toInt32SlowCase d = (if e < 0 \<or> e > 83 then 0 else sint (if bit d 63 then - r' else r'))"
    unfolding toInt32SlowCase_def Let_def exponent_bits sign_bit e_def r_def r'_def by (rule refl)
  moreover have "(word_of_int (truncDouble d) :: 32 word) = (if bit d 63 then - word_of_int (truncMagnitude d) else word_of_int (truncMagnitude d))" by (simp add: truncDouble_def)
  moreover have "truncMagnitude d = 0" if "e < 0" using that truncMagnitude_outside by (simp add: e_def)
  moreover have "(word_of_int (truncMagnitude d) :: 32 word) = 0" if "83 < e" using that truncMagnitude_huge by (simp add: e_def)
  moreover have "r' = word_of_int (truncMagnitude d)" if "0 \<le> e" "e \<le> 83"
  proof -
    have n: "biasedExponent d \<noteq> 0" "biasedExponent d \<noteq> 2047" "biasedExponent d = e + 1023" using that by (auto simp: e_def)
    note t = truncMagnitude_normal [OF n(1,2), folded e_def]
    consider (large) "52 < e" | (middle) "32 \<le> e" "e \<le> 52" | (small) "e < 32" by linarith
    then show ?thesis
    proof cases
      case large
      then have "\<not> e < 32" by simp
      then have "r' = ucast (push_bit (nat (e - 52)) d)" using large by (simp only: r'_def r_def if_True if_False)
      then show ?thesis unfolding large_case [OF large n(3)] t(1) [OF large] .
    next
      case middle
      then have "\<not> e < 32" "\<not> 52 < e" by simp_all
      then have "r' = ucast (signed_drop_bit (nat (52 - e)) d)" by (simp only: r'_def r_def if_False)
      then show ?thesis unfolding middle_case [OF middle] t(2) [OF middle(2)] .
    next
      case small
      then have "\<not> 52 < e" "e \<le> 52" by simp_all
      then have "r' = ((ucast (signed_drop_bit (nat (52 - e)) d) :: 32 word) AND (push_bit (nat e) 1 - 1)) + push_bit (nat e) 1" using small by (simp only: r'_def r_def if_True if_False)
      then show ?thesis unfolding small_case [OF that(1) small] t(2) [OF \<open>e \<le> 52\<close>] .
    qed
  qed
  ultimately show ?thesis by auto
qed

text \<open>C24: On every double, also on the infinities and NaN, the shifts and masks of \<open>toInt32SlowCase\<close> give the ToInt32 of ECMAScript: the number truncated
  towards zero, modulo \<open>2 ^ 32\<close>, read as a signed number of 32 bits.\<close>

theorem toInt32_correct: "toInt32SlowCase d = sint (word_of_int (truncDouble d) :: 32 word)"
  by (rule toInt32_truncates)

end
