(* ===== verification/Float16.thy ===== *)
theory Float16
  imports FloatFormat NumberConversion
begin

text \<open>
  Numbers of 16 bits: \<open>src/util/Float16.h\<close>. The conversions compute on bits and use a few operations on \<open>float\<close> and \<open>double\<close>, which are those of the theory
  \<open>FloatFormat\<close>. Both conversions are the casts between the formats: the one to 64 bits is exact, the one from 64 bits rounds to the nearest number, ties
  to even.
\<close>

unbundle bit_operations_syntax

section \<open>Conversions\<close>

definition convertFloat16ToFloat32 :: "16 word \<Rightarrow> 32 word" where
  "convertFloat16ToFloat32 h =
     (let w = push_bit 16 (ucast h :: 32 word);
          sign = w AND 0x80000000;
          two_w = w + w;
          exp_offset = push_bit 23 0xE0;
          exp_scale = (0x7800000 :: 32 word);
          normalized_value = (word_of_int (floatMul 23 8 (uint (drop_bit 4 two_w + exp_offset)) (uint exp_scale)) :: 32 word);
          magic_mask = push_bit 23 126;
          magic_bias = (0x3F000000 :: 32 word);
          denormalized_value = (word_of_int (floatSub 23 8 (uint (drop_bit 17 two_w OR magic_mask)) (uint magic_bias)) :: 32 word);
          denormalized_cutoff = push_bit 27 1
      in sign OR (if two_w < denormalized_cutoff then denormalized_value else normalized_value))"

definition convertFloat16ToFloat64 :: "16 word \<Rightarrow> u64" where
  "convertFloat16ToFloat64 h = word_of_int (floatCast 23 8 52 11 (uint (convertFloat16ToFloat32 h)))"

definition convertFloat64ToFloat16 :: "u64 \<Rightarrow> 16 word" where
  "convertFloat64ToFloat16 value =
     (let kFP64SignMask = push_bit 63 1;
          kFP64Infinity = push_bit 52 2047;
          kFP16InfinityAndNaNInfimum = push_bit 52 (1023 + 16);
          kFP16DenormalThreshold = push_bit 52 (1023 - 14);
          kFP64To16RoundingAddend = push_bit ((52 - 10) - 1) 1 - 1;
          kFP64To16RebiasExponentAndRound = push_bit 52 (15 - 1023) + kFP64To16RoundingAddend;
          kFP64To16DenormalMagic = (push_bit 52 (1023 - 14 + (52 - 10)) :: u64);
          sign = value AND kFP64SignMask;
          in' = value XOR sign;
          out = (if in' \<ge> kFP16InfinityAndNaNInfimum then (if in' > kFP64Infinity then 0x7e00 else 0x7c00)
                 else if in' < kFP16DenormalThreshold
                 then ucast ((word_of_int (floatAdd 52 11 (uint in') (uint kFP64To16DenormalMagic)) :: u64) - kFP64To16DenormalMagic)
                 else let mant_odd = drop_bit (52 - 10) in' AND 1
                      in ucast (drop_bit (52 - 10) (in' + kFP64To16RebiasExponentAndRound + mant_odd)))
      in out OR ucast (drop_bit 48 sign))"

section \<open>From 16 bits\<close>

lemmas format_constants = minScale_def infinityOf_def quietNaN_def

lemma half_magnitude:
  fixes h :: "16 word"
  defines "w \<equiv> push_bit 16 (ucast h :: 32 word)"
  shows "uint (w + w) = magnitudeOf 10 5 (uint h) * 2 ^ 17" "w AND 0x80000000 = (if signOf 10 5 (uint h) < 0 then 0x80000000 else 0)"
proof -
  have h: "0 \<le> uint h" "uint h < 2 ^ 16" using uint_lt2p [of h] by simp_all
  have "uint (ucast h :: 32 word) = uint h" by (rule uint_up_ucast) (simp add: is_up)
  then have w: "uint w = uint h * 2 ^ 16" unfolding w_def using h by (subst unsigned_push_bit_eq) (simp add: push_bit_eq_mult take_bit_eq_mod mod_pos_pos_trivial)
  have "uint (w + w) = (uint h * 2 ^ 17) mod 2 ^ 32" by (simp add: uint_word_ariths w mult.commute)
  also have "(uint h * 2 ^ 17) mod 2 ^ 32 = (uint h * 2 ^ 17) mod (2 ^ 15 * 2 ^ 17)" by simp
  also have "\<dots> = (uint h mod 2 ^ 15) * 2 ^ 17" by (simp only: mult_mod_left)
  finally show "uint (w + w) = magnitudeOf 10 5 (uint h) * 2 ^ 17" by (simp add: magnitudeOf_def)
  have "bit w 31 \<longleftrightarrow> bit h 15" unfolding w_def by (simp add: bit_push_bit_iff bit_ucast_iff)
  moreover have "bit h 15 \<longleftrightarrow> signOf 10 5 (uint h) < 0"
  proof -
    have "bit h 15 \<longleftrightarrow> bit (uint h) 15" by (simp add: bit_uint_iff)
    then have "bit h 15 \<longleftrightarrow> odd (uint h div 2 ^ 15)" unfolding bit_iff_odd .
    moreover have "uint h div 2 ^ 15 = (if uint h < 2 ^ 15 then 0 else 1)" using h by (auto simp: div_pos_pos_trivial intro: int_div_pos_eq [of _ _ 1 "uint h - 2 ^ 15"])
    ultimately show ?thesis by (simp add: signOf_def)
  qed
  moreover have "w AND 0x80000000 = (if bit w 31 then 0x80000000 else 0)"
  proof (rule bit_word_eqI)
    fix n assume "n < LENGTH(32)"
    have "(0x80000000 :: 32 word) = push_bit 31 1" by simp
    then have "bit (0x80000000 :: 32 word) n \<longleftrightarrow> n = 31" using \<open>n < LENGTH(32)\<close> by (simp only: bit_push_bit_iff) (auto simp: bit_1_iff)
    then show "bit (w AND 0x80000000) n = bit (if bit w 31 then 0x80000000 else 0 :: 32 word) n" by (auto simp: bit_and_iff)
  qed
  ultimately show "w AND 0x80000000 = (if signOf 10 5 (uint h) < 0 then 0x80000000 else 0)" by simp
qed

lemma or_sign:
  assumes "uint (x :: 32 word) < 2 ^ 31"
  shows "uint (0x80000000 OR x) = 2 ^ 31 + uint x"
proof -
  have "\<not> bit (uint x) 31" using assms by (simp add: bit_iff_odd div_pos_pos_trivial)
  then have "\<not> bit x 31" by (simp add: bit_uint_iff)
  moreover have "bit (0x80000000 :: 32 word) n \<longleftrightarrow> n = 31" for n
  proof -
    have "(0x80000000 :: 32 word) = push_bit 31 1" by simp
    then show ?thesis by (simp only: bit_push_bit_iff) (auto simp: bit_1_iff)
  qed
  ultimately have "0x80000000 OR x = 0x80000000 + x" by (intro disjunctive_add [symmetric]) auto
  then show ?thesis using assms by (simp add: uint_word_ariths mod_pos_pos_trivial)
qed

text \<open>Normal numbers, infinities and NaN: the exponent is moved by 224 and the product with \<open>2 ^ (- 112)\<close> moves it back by 112.\<close>

lemma normalized_product:
  assumes "2 ^ 10 \<le> n" "n < 2 ^ 15"
  shows "floatMul 23 8 (n * 2 ^ 13 + 224 * 2 ^ 23) (15 * 2 ^ 23) =
    (if n > infinityOf 10 5 then quietNaN 23 8 else if n = infinityOf 10 5 then infinityOf 23 8 else roundTo 23 8 (significandOf 10 n) (scaleOf 10 5 n))"
proof -
  let ?a = "n * 2 ^ 13 + 224 * 2 ^ 23 :: int" and ?b = "15 * 2 ^ 23 :: int"
  have n: "n mod 2 ^ 10 < 2 ^ 10" by simp
  have E: "1 \<le> n div 2 ^ 10" "n div 2 ^ 10 \<le> 31" using assms by auto
  have f: "magnitudeOf 23 8 ?a = ?a" "magnitudeOf 23 8 ?b = ?b" "signOf 23 8 ?a = 1" "signOf 23 8 ?b = 1" using assms by (simp_all add: magnitudeOf_def signOf_def mod_pos_pos_trivial)
  have a: "?a = (2 ^ 23 + n mod 2 ^ 10 * 2 ^ 13) + (n div 2 ^ 10 + 223) * 2 ^ 23"
  proof -
    have "(x + y * 2 ^ 10) * 2 ^ 13 + 224 * 2 ^ 23 = (2 ^ 23 + x * 2 ^ 13) + (y + 223) * 2 ^ 23" for x y :: int by simp
    from this [of "n mod 2 ^ 10" "n div 2 ^ 10"] show ?thesis by (simp only: mod_div_mult_eq)
  qed
  have sa: "significandOf 23 ?a = significandOf 10 n * 2 ^ 13" "scaleOf 23 8 ?a = n div 2 ^ 10 + 223 + minScale 23 8"
    unfolding a using code_fields [of "n div 2 ^ 10 + 223" 23 "2 ^ 23 + n mod 2 ^ 10 * 2 ^ 13"] E n by (simp_all add: significandOf_def [of 10])
  have sb: "significandOf 23 ?b = 2 ^ 23" "scaleOf 23 8 ?b = 14 + minScale 23 8" using code_fields [of 14 23 "2 ^ 23"] by simp_all
  have "significandOf 23 ?a * significandOf 23 ?b = significandOf 10 n * 2 ^ 36" unfolding sa sb by simp
  moreover have "scaleOf 23 8 ?a + scaleOf 23 8 ?b + int 36 = scaleOf 10 5 n" unfolding sa sb using E by (simp add: scaleOf_def [of 10] format_constants)
  moreover have "0 \<le> significandOf 10 n" using assms by simp
  ultimately have "roundTo 23 8 (significandOf 23 ?a * significandOf 23 ?b) (scaleOf 23 8 ?a + scaleOf 23 8 ?b) = roundTo 23 8 (significandOf 10 n) (scaleOf 10 5 n)"
    using roundTo_shift [of "significandOf 10 n" 23 8 36 "scaleOf 23 8 ?a + scaleOf 23 8 ?b"] by simp
  moreover have "?a > infinityOf 23 8 \<longleftrightarrow> n > infinityOf 10 5" "?a = infinityOf 23 8 \<longleftrightarrow> n = infinityOf 10 5" "?b < infinityOf 23 8" "?b \<noteq> 0" "?a \<noteq> 0" using assms by (auto simp: infinityOf_def)
  ultimately show ?thesis unfolding floatMul_def Let_def f by (simp add: withSign_def)
qed

text \<open>Small numbers: the mantissa is put behind the point of 0.5, and 0.5 is subtracted.\<close>

lemma denormalized_difference:
  assumes "0 \<le> n" "n < 2 ^ 10"
  shows "floatSub 23 8 (n + 126 * 2 ^ 23) (126 * 2 ^ 23) = roundTo 23 8 (significandOf 10 n) (scaleOf 10 5 n)"
proof -
  let ?a = "n + 126 * 2 ^ 23 :: int" and ?b = "126 * 2 ^ 23 :: int"
  have f: "magnitudeOf 23 8 ?a = ?a" "magnitudeOf 23 8 ?b = ?b" "signOf 23 8 ?a = 1" "signOf 23 8 ?b = 1" using assms by (simp_all add: magnitudeOf_def signOf_def mod_pos_pos_trivial)
  then have g: "magnitudeOf 23 8 (floatNegate 23 8 ?b) = ?b" "signOf 23 8 (floatNegate 23 8 ?b) = - 1"
    unfolding floatNegate_def f by (intro withSign_fields; simp)+
  have sa: "significandOf 23 ?a = 2 ^ 23 + n" "scaleOf 23 8 ?a = 125 + minScale 23 8" using code_fields [of 125 23 "2 ^ 23 + n"] assms by (simp_all add: add.commute)
  have sb: "significandOf 23 ?b = 2 ^ 23" "scaleOf 23 8 ?b = 125 + minScale 23 8" using code_fields [of 125 23 "2 ^ 23"] by simp_all
  have "significandOf 10 n = n" "scaleOf 10 5 n = 125 + minScale 23 8" using assms by (simp_all add: significandOf_def scaleOf_def div_pos_pos_trivial format_constants)
  moreover have "\<not> ?a > infinityOf 23 8" "\<not> ?b > infinityOf 23 8" "?a \<noteq> infinityOf 23 8" "?b \<noteq> infinityOf 23 8" using assms by (auto simp: infinityOf_def)
  ultimately show ?thesis unfolding floatSub_def floatAdd_def Let_def f g sa sb using assms(1) by (simp add: withSign_def roundTo_def [of _ _ 0])
qed

lemma convertFloat16ToFloat32_casts: "uint (convertFloat16ToFloat32 h) = floatCast 10 5 23 8 (uint h)"
proof -
  define n where "n = magnitudeOf 10 5 (uint h)"
  define two_w where "two_w = push_bit 16 (ucast h :: 32 word) + push_bit 16 (ucast h)"
  define v :: "32 word" where "v = (if two_w < push_bit 27 1 then word_of_int (floatSub 23 8 (uint (drop_bit 17 two_w OR push_bit 23 126)) (uint (0x3F000000 :: 32 word)))
    else word_of_int (floatMul 23 8 (uint (drop_bit 4 two_w + push_bit 23 0xE0)) (uint (0x7800000 :: 32 word))))"
  have t: "uint two_w = n * 2 ^ 17" unfolding two_w_def n_def by (rule half_magnitude(1))
  have n: "0 \<le> n" "n < 2 ^ 15" unfolding n_def magnitudeOf_def by simp_all
  have c: "convertFloat16ToFloat32 h = (if signOf 10 5 (uint h) < 0 then 0x80000000 else 0) OR v"
    unfolding convertFloat16ToFloat32_def Let_def half_magnitude(2) two_w_def [symmetric] v_def [symmetric] by (rule refl)
  define m where "m = (if n > infinityOf 10 5 then quietNaN 23 8 else if n = infinityOf 10 5 then infinityOf 23 8 else roundTo 23 8 (significandOf 10 n) (scaleOf 10 5 n))"
  have v: "v = word_of_int m"
  proof (cases "two_w < push_bit 27 1")
    case True
    have n10: "n < 2 ^ 10" using True t by (simp add: word_less_def)
    have d: "uint (drop_bit 17 two_w) = n" using n by (subst unsigned_drop_bit_eq) (simp add: t drop_bit_eq_div take_bit_eq_mod mod_pos_pos_trivial)
    have "drop_bit 17 two_w OR push_bit 23 126 = drop_bit 17 two_w + push_bit 23 126"
    proof (rule disjunctive_add [symmetric])
      fix i
      have "\<not> bit (uint (drop_bit 17 two_w)) i" if "23 \<le> i"
      proof -
        have "n < 2 ^ 23" using n10 by simp
        also have "(2 :: int) ^ 23 \<le> 2 ^ i" using that by (intro power_increasing) simp_all
        finally show ?thesis unfolding d using n(1) by (simp add: bit_iff_odd div_pos_pos_trivial)
      qed
      then have "bit (drop_bit 17 two_w) i \<Longrightarrow> i < 23" by (meson bit_uint_iff bit_imp_le_length linorder_not_less)
      moreover have "bit (push_bit 23 126 :: 32 word) i \<Longrightarrow> 23 \<le> i" by (simp only: bit_push_bit_iff)
      ultimately show "\<not> bit (drop_bit 17 two_w) i \<or> \<not> bit (push_bit 23 126 :: 32 word) i" by linarith
    qed
    then have "uint (drop_bit 17 two_w OR push_bit 23 126) = n + 126 * 2 ^ 23" using n10 n(1) by (simp add: uint_word_ariths d mod_pos_pos_trivial)
    moreover have "\<not> n > infinityOf 10 5" "n \<noteq> infinityOf 10 5" using n10 by (auto simp: infinityOf_def)
    ultimately show ?thesis using True denormalized_difference [OF n(1) n10] by (simp add: v_def m_def)
  next
    case False
    have n10: "2 ^ 10 \<le> n" using False t by (simp add: word_less_def)
    have "uint (drop_bit 4 two_w) = n * 2 ^ 13" using n by (subst unsigned_drop_bit_eq) (simp add: t drop_bit_eq_div take_bit_eq_mod mod_pos_pos_trivial)
    then have "uint (drop_bit 4 two_w + push_bit 23 0xE0) = n * 2 ^ 13 + 224 * 2 ^ 23" using n by (simp add: uint_word_ariths mod_pos_pos_trivial)
    then show ?thesis using False normalized_product [OF n10 n(2)] by (simp add: v_def m_def)
  qed
  have m: "0 \<le> m" "m < 2 ^ 31"
  proof -
    have "\<not> n > infinityOf 10 5 \<Longrightarrow> n \<noteq> infinityOf 10 5 \<Longrightarrow> 0 \<le> roundTo 23 8 (significandOf 10 n) (scaleOf 10 5 n) \<and> roundTo 23 8 (significandOf 10 n) (scaleOf 10 5 n) < infinityOf 23 8"
      by (rule wider_format [of 23 8 10 5 n]) (use n(1) in \<open>auto simp: minScale_def\<close>)
    then show "0 \<le> m" "m < 2 ^ 31" by (auto simp: m_def infinityOf_def quietNaN_def)
  qed
  then have u: "uint v = m" unfolding v by (simp add: unsigned_of_int take_bit_eq_mod mod_pos_pos_trivial)
  then have "uint (convertFloat16ToFloat32 h) = withSign 23 8 (signOf 10 5 (uint h)) m" unfolding c using or_sign [of v] m by (simp add: withSign_def)
  then show ?thesis unfolding floatCast_def Let_def m_def n_def by simp
qed

text \<open>The conversion is exact: the same sign and the same value, the infinity of its sign, or NaN.\<close>

lemma convertFloat16ToFloat64_casts: "uint (convertFloat16ToFloat64 h) = floatCast 10 5 52 11 (uint h)"
proof -
  have f: "floatCast 23 8 52 11 (floatCast 10 5 23 8 (uint h)) = floatCast 10 5 52 11 (uint h)" by (rule floatCast_trans) (simp_all add: minScale_def)
  show ?thesis unfolding convertFloat16ToFloat64_def convertFloat16ToFloat32_casts f using floatCast_bounds [of 52 10 5 11 "uint h"] by (simp add: unsigned_of_int take_bit_eq_mod mod_pos_pos_trivial)
qed

section \<open>To 16 bits\<close>

lemma double_magnitude:
  fixes d :: u64
  shows "uint (d XOR (d AND push_bit 63 1)) = magnitudeOf 52 11 (uint d)" "(ucast (drop_bit 48 (d AND push_bit 63 1)) :: 16 word) = (if signOf 52 11 (uint d) < 0 then 0x8000 else 0)"
proof -
  have m: "bit (push_bit 63 1 :: u64) n \<longleftrightarrow> n = 63" for n by (simp only: bit_push_bit_iff) (auto simp: bit_1_iff)
  have "d XOR (d AND push_bit 63 1) = take_bit 63 d" by (rule bit_word_eqI) (auto simp: bit_xor_iff bit_and_iff m bit_take_bit_iff simp del: push_bit_of_1)
  moreover have "uint (take_bit 63 d) = take_bit 63 (uint d)" by (rule unsigned_take_bit_eq)
  ultimately show "uint (d XOR (d AND push_bit 63 1)) = magnitudeOf 52 11 (uint d)" by (simp only: magnitudeOf_def take_bit_eq_mod) simp
  have "bit d 63 \<longleftrightarrow> signOf 52 11 (uint d) < 0"
    using uint_lt2p [of d] mantissa_bound [of d] exponent_bound [of d] double_bits [of d] by (auto simp: signOf_def)
  moreover have "(ucast (drop_bit 48 (d AND push_bit 63 1)) :: 16 word) = (if bit d 63 then 0x8000 else 0)"
  proof (rule bit_word_eqI)
    fix n assume n: "n < LENGTH(16)"
    have "(0x8000 :: 16 word) = push_bit 15 1" by simp
    then have "bit (0x8000 :: 16 word) n \<longleftrightarrow> n = 15" using n by (simp only: bit_push_bit_iff) (auto simp: bit_1_iff)
    then show "bit (ucast (drop_bit 48 (d AND push_bit 63 1)) :: 16 word) n = bit (if bit d 63 then 0x8000 else 0 :: 16 word) n"
      using n by (auto simp: bit_ucast_iff bit_drop_bit_eq bit_and_iff m simp del: push_bit_of_1)
  qed
  ultimately show "(ucast (drop_bit 48 (d AND push_bit 63 1)) :: 16 word) = (if signOf 52 11 (uint d) < 0 then 0x8000 else 0)" by simp
qed

lemma normal_double:
  assumes "2 ^ 52 \<le> n"
  obtains E m where "n = m + E * 2 ^ 52" "2 ^ 52 \<le> m" "m < 2 ^ 53" "0 \<le> E" "significandOf 52 n = m" "scaleOf 52 11 n = E - 1074"
proof -
  let ?m = "2 ^ 52 + n mod 2 ^ 52" and ?E = "n div 2 ^ 52 - 1"
  have "n = ?m + ?E * 2 ^ 52" by (simp add: algebra_simps)
  moreover have "?m < 2 ^ 53" "2 ^ 52 \<le> ?m" by simp_all
  moreover have "0 \<le> ?E" using zdiv_mono1 [OF assms, of "2 ^ 52"] by simp
  ultimately show ?thesis using that [of ?m ?E] code_fields [of ?E 52 ?m] by (simp add: minScale_def)
qed

text \<open>Large numbers become infinite.\<close>

lemma large_rounds:
  assumes "1039 * 2 ^ 52 \<le> n" "n < infinityOf 52 11"
  shows "roundTo 10 5 (significandOf 52 n) (scaleOf 52 11 n) = infinityOf 10 5"
proof -
  obtain E m where n: "n = m + E * 2 ^ 52" "2 ^ 52 \<le> m" "m < 2 ^ 53" "0 \<le> E" "significandOf 52 n = m" "scaleOf 52 11 n = E - 1074" by (rule normal_double [of n]) (use assms in simp_all)
  have E: "1038 \<le> E" using assms(1) n(1-3) by auto
  have "m div 2 ^ 42 \<ge> 2 ^ 52 div 2 ^ 42" using n(2) by (rule zdiv_mono1) simp
  then have "2 ^ 10 \<le> roundShift m 42" using roundShift_bounds(1) [of m 42] by simp
  moreover have "roundTo 10 5 m (E - 1074) = min (roundShift m (nat (E - 1032 - (E - 1074))) + (E - 1032 - minScale 10 5) * 2 ^ 10) (infinityOf 10 5)"
    using roundTo_length(2) [of 52 m "E - 1032" 10 5 "E - 1074"] n(2,3) E by (simp add: minScale_def)
  ultimately show ?thesis using E n(5,6) by (simp add: minScale_def infinityOf_def)
qed

text \<open>Numbers in the normal range of 16 bits: the exponent is moved and the mantissa rounded in one addition.\<close>

lemma normal_rounds:
  assumes "1009 * 2 ^ 52 \<le> n" "n < 1039 * 2 ^ 52"
  shows "roundTo 10 5 (significandOf 52 n) (scaleOf 52 11 n) = (n - 1008 * 2 ^ 52 + (2 ^ 41 - 1) + n div 2 ^ 42 mod 2) div 2 ^ 42"
    "roundTo 10 5 (significandOf 52 n) (scaleOf 52 11 n) \<le> infinityOf 10 5"
proof -
  obtain E m where n: "n = m + E * 2 ^ 52" "2 ^ 52 \<le> m" "m < 2 ^ 53" "0 \<le> E" "significandOf 52 n = m" "scaleOf 52 11 n = E - 1074" by (rule normal_double [of n]) (use assms in simp_all)
  have E: "1008 \<le> E" "E \<le> 1037" using assms n(1-3) by auto
  have "m div 2 ^ 42 < 2 ^ 11" using n(3) by auto
  then have "roundShift m 42 \<le> 2 ^ 11" using roundShift_bounds(2) [of m 42] by simp
  moreover have "roundTo 10 5 m (E - 1074) = min (roundShift m (nat (E - 1032 - (E - 1074))) + (E - 1032 - minScale 10 5) * 2 ^ 10) (infinityOf 10 5)"
    using roundTo_length(2) [of 52 m "E - 1032" 10 5 "E - 1074"] n(2,3) E by (simp add: minScale_def)
  ultimately have r: "roundTo 10 5 (significandOf 52 n) (scaleOf 52 11 n) = roundShift m 42 + (E - 1008) * 2 ^ 10" using E n(5,6) by (simp add: minScale_def infinityOf_def)
  have "n div 2 ^ 42 = m div 2 ^ 42 + E * 2 ^ 9 * 2" unfolding n(1) using div_mult_self1 [of "2 ^ 42" m "E * 2 ^ 10"] by simp
  then have o: "n div 2 ^ 42 mod 2 = m div 2 ^ 42 mod 2" by (simp only: mod_mult_self1)
  define t where "t = n div 2 ^ 42 mod 2"
  have t: "t = m div 2 ^ 42 mod 2" unfolding t_def by (rule o)
  have "n - 1008 * 2 ^ 52 + (2 ^ 41 - 1) + t = (m + (2 ^ 41 - 1) + t) + (E - 1008) * 2 ^ 10 * 2 ^ 42" unfolding n(1) by simp
  then have "(n - 1008 * 2 ^ 52 + (2 ^ 41 - 1) + t) div 2 ^ 42 = (m + (2 ^ 41 - 1) + t) div 2 ^ 42 + (E - 1008) * 2 ^ 10"
    by (simp only:) (subst div_mult_self1, simp_all)
  moreover have "roundShift m 42 = (m + (2 ^ 41 - 1) + t) div 2 ^ 42" unfolding t using roundShift_addend [of m 41] by simp
  ultimately show "roundTo 10 5 (significandOf 52 n) (scaleOf 52 11 n) = (n - 1008 * 2 ^ 52 + (2 ^ 41 - 1) + n div 2 ^ 42 mod 2) div 2 ^ 42" unfolding r t_def [symmetric] by simp
qed (rule roundTo_bounds)

text \<open>Small numbers: the addition of \<open>2 ^ 28\<close> rounds them to a multiple of \<open>2 ^ (- 24)\<close>.\<close>

lemma small_rounds:
  assumes "0 \<le> n" "n < 1009 * 2 ^ 52"
  shows "floatAdd 52 11 n (1051 * 2 ^ 52) = 1051 * 2 ^ 52 + roundTo 10 5 (significandOf 52 n) (scaleOf 52 11 n)"
proof -
  let ?b = "1051 * 2 ^ 52 :: int" and ?s = "significandOf 52 n" and ?e = "scaleOf 52 11 n"
  define j where "j = nat (- 24 - ?e)"
  have f: "magnitudeOf 52 11 n = n" "magnitudeOf 52 11 ?b = ?b" "signOf 52 11 n = 1" "signOf 52 11 ?b = 1" using assms by (simp_all add: magnitudeOf_def signOf_def mod_pos_pos_trivial)
  have E: "0 \<le> n div 2 ^ 52" "n div 2 ^ 52 < 1009" using assms by auto
  then have e: "- 1074 \<le> ?e" "?e \<le> - 67" by (auto simp: scaleOf_def minScale_def)
  then have j: "int j = - 24 - ?e" "43 \<le> j" by (simp_all add: j_def)
  have s: "0 \<le> ?s" "?s < 2 ^ 53" using assms by (auto simp: significandOf_def zdiv_eq_0_iff intro: order.strict_trans)
  have sb: "significandOf 52 ?b = 2 ^ 52" "scaleOf 52 11 ?b = - 24" using code_fields [of 1050 52 "2 ^ 52"] by (simp_all add: minScale_def)
  let ?d = "?s + 2 ^ 52 * 2 ^ j"
  have "(2 :: int) ^ 53 \<le> 2 ^ (52 + j)" using j(2) by (intro power_increasing) simp_all
  then have d: "2 ^ (52 + j) \<le> ?d" "?d < 2 ^ Suc (52 + j)" using s by (simp_all add: power_add)
  have q: "roundShift ?s j \<le> 2 ^ 10 + 1"
  proof -
    have "?s div 2 ^ j \<le> ?s div 2 ^ 43" using s(1) power_increasing [OF j(2), of "2 :: int"] by (intro zdiv_mono2) simp_all
    also have "\<dots> \<le> 2 ^ 10" using s(2) by auto
    finally show ?thesis using roundShift_bounds(2) [of ?s j] by simp
  qed
  have "roundTo 52 11 ?d ?e = min (roundShift ?d (nat (- 24 - ?e)) + (- 24 - minScale 52 11) * 2 ^ 52) (infinityOf 52 11)"
    using roundTo_length(2) [OF d, of "- 24" 52 11 ?e] j e by (simp add: minScale_def)
  moreover have "roundShift ?d j = roundShift ?s j + 2 ^ 52" by (rule roundShift_add) simp
  ultimately have big: "roundTo 52 11 ?d ?e = ?b + roundShift ?s j" using q by (simp add: j_def minScale_def infinityOf_def)
  have small: "roundTo 10 5 ?s ?e = roundShift ?s j"
  proof (cases "?s = 0")
    case False
    then obtain k where k: "2 ^ k \<le> ?s" "?s < 2 ^ Suc k" using s(1) bitLength_bounds [of ?s] by auto
    have "(2 :: int) ^ k < 2 ^ 53" using k(1) s(2) by simp
    then have "k < 53" by (rule power_less_imp_less_exp [rotated]) simp
    then show ?thesis using roundTo_length(2) [OF k, of "- 24" 10 5 ?e] e q by (simp add: minScale_def infinityOf_def j_def)
  qed (simp add: roundTo_def roundShift_def)
  have "?d \<noteq> 0" using d(1) by (smt (verit) zero_less_power)
  moreover have "0 < ?d" using d(1) by (smt (verit) zero_less_power)
  moreover have "n < infinityOf 52 11" "?b < infinityOf 52 11" using assms by (auto simp: infinityOf_def)
  ultimately show ?thesis unfolding floatAdd_def Let_def f sb using e big small by (simp add: withSign_def min_def j_def)
qed

lemma or_half_sign:
  assumes "uint (x :: 16 word) < 2 ^ 15"
  shows "uint (x OR 0x8000) = 2 ^ 15 + uint x"
proof -
  have "\<not> bit (uint x) 15" using assms by (simp add: bit_iff_odd div_pos_pos_trivial)
  then have "\<not> bit x 15" by (simp add: bit_uint_iff)
  moreover have "bit (0x8000 :: 16 word) n \<longleftrightarrow> n = 15" for n
  proof -
    have "(0x8000 :: 16 word) = push_bit 15 1" by simp
    then show ?thesis by (simp only: bit_push_bit_iff) (auto simp: bit_1_iff)
  qed
  ultimately have "x OR 0x8000 = x + 0x8000" by (intro disjunctive_add [symmetric]) auto
  then show ?thesis using assms by (simp add: uint_word_ariths mod_pos_pos_trivial)
qed

lemma ucast_half: "0 \<le> n \<Longrightarrow> n < 2 ^ 16 \<Longrightarrow> uint (x :: u64) = n \<Longrightarrow> uint (ucast x :: 16 word) = n"
  by (simp add: unsigned_ucast_eq take_bit_eq_mod mod_pos_pos_trivial)

lemma convertFloat64ToFloat16_casts: "uint (convertFloat64ToFloat16 d) = floatCast 52 11 10 5 (uint d)"
proof -
  define n where "n = magnitudeOf 52 11 (uint d)"
  define x where "x = d XOR (d AND push_bit 63 1)"
  define m where "m = (if n > infinityOf 52 11 then quietNaN 10 5 else if n = infinityOf 52 11 then infinityOf 10 5 else roundTo 10 5 (significandOf 52 n) (scaleOf 52 11 n))"
  define out :: "16 word" where "out = (if x \<ge> push_bit 52 (1023 + 16) then (if x > push_bit 52 2047 then 0x7e00 else 0x7c00)
    else if x < push_bit 52 (1023 - 14) then ucast ((word_of_int (floatAdd 52 11 (uint x) (uint (push_bit 52 (1023 - 14 + (52 - 10)) :: u64))) :: u64) - push_bit 52 (1023 - 14 + (52 - 10)))
    else ucast (drop_bit (52 - 10) (x + (push_bit 52 (15 - 1023) + (push_bit (52 - 10 - 1) 1 - 1)) + (drop_bit (52 - 10) x AND 1))))"
  have c: "convertFloat64ToFloat16 d = out OR (if signOf 52 11 (uint d) < 0 then 0x8000 else 0)"
    unfolding convertFloat64ToFloat16_def Let_def double_magnitude(2) out_def x_def by (rule refl)
  have x: "uint x = n" unfolding x_def n_def by (rule double_magnitude(1))
  have n: "0 \<le> n" "n < 2 ^ 63" unfolding n_def magnitudeOf_def by simp_all
  have r: "0 \<le> roundTo 10 5 (significandOf 52 n) (scaleOf 52 11 n)" "roundTo 10 5 (significandOf 52 n) (scaleOf 52 11 n) \<le> 31744"
    using roundTo_bounds(1) [OF significandOf_nonneg [OF n(1)]] roundTo_bounds(2) [of 10 5 "significandOf 52 n"] by (simp_all add: infinityOf_def)
  have out: "uint out = m"
  proof -
    consider (large) "1039 * 2 ^ 52 \<le> n" | (small) "n < 1009 * 2 ^ 52" | (normal) "1009 * 2 ^ 52 \<le> n" "n < 1039 * 2 ^ 52" by linarith
    then show ?thesis
    proof cases
      case large
      then have "out = (if n > infinityOf 52 11 then 0x7e00 else 0x7c00)" using x by (simp add: out_def word_le_def word_less_def infinityOf_def)
      then show ?thesis using large_rounds [OF large] by (auto simp: m_def infinityOf_def quietNaN_def)
    next
      case small
      have "out = ucast ((word_of_int (floatAdd 52 11 n (1051 * 2 ^ 52)) :: u64) - word_of_int (1051 * 2 ^ 52))" using small x by (simp add: out_def word_le_def word_less_def)
      also have "\<dots> = ucast (word_of_int (roundTo 10 5 (significandOf 52 n) (scaleOf 52 11 n)) :: u64)" unfolding small_rounds [OF n(1) small] by (simp flip: of_int_diff)
      finally show ?thesis using small r by (simp add: m_def infinityOf_def unsigned_ucast_eq unsigned_of_int take_bit_eq_mod mod_pos_pos_trivial)
    next
      case normal
      have "uint (drop_bit 42 x AND 1) = n div 2 ^ 42 mod 2"
      proof -
        have "drop_bit 42 x AND 1 = take_bit 1 (drop_bit 42 x)" by (simp add: take_bit_eq_mask)
        then have "uint (drop_bit 42 x AND 1) = take_bit 1 (uint (drop_bit 42 x))" by (simp only: unsigned_take_bit_eq)
        also have "uint (drop_bit 42 x) = drop_bit 42 n" using n by (subst unsigned_drop_bit_eq) (simp add: x take_bit_eq_mod mod_pos_pos_trivial)
        finally show ?thesis by (simp add: take_bit_eq_mod drop_bit_eq_div)
      qed
      then have o: "drop_bit 42 x AND 1 = word_of_int (n div 2 ^ 42 mod 2)" by (metis word_of_int_uint)
      define y where "y = n - 1008 * 2 ^ 52 + (2 ^ 41 - 1) + n div 2 ^ 42 mod 2"
      have y: "0 \<le> y" "y < 2 ^ 64" using normal by (auto simp: y_def)
      have "x = word_of_int n" using x by (metis word_of_int_uint)
      then have "x + (push_bit 52 (15 - 1023) + (push_bit 41 1 - 1)) + (drop_bit 42 x AND 1) = word_of_int (n + ((15 - 1023) * 2 ^ 52 + (2 ^ 41 - 1)) + n div 2 ^ 42 mod 2)"
        unfolding o push_bit_eq_mult by simp
      also have "n + ((15 - 1023) * 2 ^ 52 + (2 ^ 41 - 1)) + n div 2 ^ 42 mod 2 = y" by (simp add: y_def)
      finally have "out = ucast (drop_bit 42 (word_of_int y :: u64))" using normal x by (simp add: out_def word_le_def word_less_def)
      moreover have "uint (drop_bit 42 (word_of_int y :: u64)) = y div 2 ^ 42" using y by (subst unsigned_drop_bit_eq) (simp add: unsigned_of_int take_bit_eq_mod mod_pos_pos_trivial drop_bit_eq_div)
      then have u: "uint (drop_bit 42 (word_of_int y :: u64)) = roundTo 10 5 (significandOf 52 n) (scaleOf 52 11 n)" unfolding normal_rounds(1) [OF normal] y_def .
      ultimately have "uint out = roundTo 10 5 (significandOf 52 n) (scaleOf 52 11 n)" using ucast_half [OF r(1) _ u] r(2) by simp
      then show ?thesis using normal by (simp add: m_def infinityOf_def)
    qed
  qed
  then have "0 \<le> m" "m < 2 ^ 15" using r by (auto simp: m_def infinityOf_def quietNaN_def split: if_splits)
  then have "uint (convertFloat64ToFloat16 d) = withSign 10 5 (signOf 52 11 (uint d)) m" unfolding c using or_half_sign [of out] out by (simp add: withSign_def)
  then show ?thesis unfolding floatCast_def Let_def m_def n_def by simp
qed

section \<open>Properties\<close>

text \<open>C25: The conversion of a double to 16 bits is the correctly rounded one: on every double it gives the nearest number of 16 bits with the same sign, the even one of two
  that are equally near, infinity from the middle between the largest number and the next power of two on, and NaN for NaN.\<close>

theorem convertFloat64ToFloat16_rounds: "uint (convertFloat64ToFloat16 d) = floatCast 52 11 10 5 (uint d)"
  by (rule convertFloat64ToFloat16_casts)

text \<open>Every number of 16 bits that is not NaN survives the conversion to a double and back, bit for bit.\<close>

theorem float16_roundtrip:
  assumes "magnitudeOf 10 5 (uint h) \<le> infinityOf 10 5"
  shows "convertFloat64ToFloat16 (convertFloat16ToFloat64 h) = h"
proof -
  have "floatCast 52 11 10 5 (floatCast 10 5 52 11 (uint h)) = floatCast 10 5 10 5 (uint h)" by (rule floatCast_trans) (simp_all add: minScale_def)
  also have "\<dots> = uint h" using assms uint_lt2p [of h] by (intro floatCast_self) simp_all
  finally have "uint (convertFloat64ToFloat16 (convertFloat16ToFloat64 h)) = uint h" by (simp only: convertFloat64ToFloat16_casts convertFloat16ToFloat64_casts)
  then show ?thesis by (metis word_of_int_uint)
qed

text \<open>The smallest number that is not normal\<close>

theorem float16_roundtrip_witness: "convertFloat64ToFloat16 (convertFloat16ToFloat64 0x8001) = 0x8001"
  by (rule float16_roundtrip) (simp add: magnitudeOf_def infinityOf_def)

end
