(* ===== verification/ArrayBuffers.thy ===== *)
theory ArrayBuffers
  imports Prelude
begin

text \<open>
  Buffers of bytes and the views on them: \<open>src/runtime/BackingStore.h\<close> and \<open>BackingStore.cpp\<close>, \<open>ArrayBuffer.h\<close>, \<open>ArrayBufferObject.cpp\<close>. A view keeps
  its length and a raw address into the memory of its buffer; a backing store that is resized, reallocated or detached tells its observers, the
  array buffers, which tell theirs, the views. Objects are numbers; a slot that holds \<open>None\<close> is an object that was collected, or memory that was
  freed. An operation is \<open>None\<close> if it follows a pointer to such a slot or accesses memory outside of a block.
\<close>

section \<open>State\<close>

type_synonym byte = "8 word"

datatype TypedArrayType = TInt8 | TInt16 | TInt32 | TUint8 | TUint16 | TUint32 | TUint8Clamped | TFloat16 | TFloat32 | TFloat64 | TBigInt64 | TBigUint64

datatype ViewKind = TypedArrayView TypedArrayType | DataView

record BackingStore =
  bs_data :: nat
  bs_byteLength :: nat
  bs_maxByteLength :: nat
  bs_isAllocatedByPlatform :: bool
  bs_isResizable :: bool
  bs_observerItems :: "nat option list"

record ArrayBuffer =
  ab_isResizable :: bool
  ab_backingStore :: "nat option"
  ab_observerItems :: "nat option list"

record ArrayBufferView =
  v_kind :: ViewKind
  v_buffer :: "nat option"
  v_cachedRawBufferAddress :: "(nat \<times> nat) option"
  v_byteLength :: nat
  v_byteOffset :: nat
  v_arrayLength :: nat
  v_originalByteLength :: nat
  v_originalByteOffset :: nat
  v_auto :: bool
  v_wasResetByInvalidByteLength :: bool

record Memory =
  mm_blocks :: "byte list option list"
  mm_stores :: "BackingStore option list"
  mm_buffers :: "ArrayBuffer option list"
  mm_views :: "ArrayBufferView option list"

definition slot :: "'a option list \<Rightarrow> nat \<Rightarrow> 'a option" where
  "slot xs i = (if i < length xs then xs ! i else None)"

fun elementSize :: "TypedArrayType \<Rightarrow> nat" where
  "elementSize TInt8 = 1" | "elementSize TInt16 = 2" | "elementSize TInt32 = 4" | "elementSize TUint8 = 1" | "elementSize TUint16 = 2" | "elementSize TUint32 = 4"
| "elementSize TUint8Clamped = 1" | "elementSize TFloat16 = 2" | "elementSize TFloat32 = 4" | "elementSize TFloat64 = 8" | "elementSize TBigInt64 = 8"
| "elementSize TBigUint64 = 8"

fun viewElementSize :: "ViewKind \<Rightarrow> nat" where
  "viewElementSize (TypedArrayView t) = elementSize t"
| "viewElementSize DataView = 1"

definition newArrayBuffer :: ArrayBuffer where
  "newArrayBuffer = \<lparr>ab_isResizable = False, ab_backingStore = None, ab_observerItems = []\<rparr>"

definition newArrayBufferView :: "ViewKind \<Rightarrow> ArrayBufferView" where
  "newArrayBufferView kind = \<lparr>v_kind = kind, v_buffer = None, v_cachedRawBufferAddress = None, v_byteLength = 0, v_byteOffset = 0, v_arrayLength = 0,
     v_originalByteLength = 0, v_originalByteOffset = 0, v_auto = False, v_wasResetByInvalidByteLength = False\<rparr>"

section \<open>Memory\<close>

definition mallocData :: "byte list \<Rightarrow> Memory \<Rightarrow> nat \<times> Memory" where
  "mallocData bytes w = (length (mm_blocks w), w\<lparr>mm_blocks := mm_blocks w @ [Some bytes]\<rparr>)"

definition freeData :: "nat \<Rightarrow> Memory \<Rightarrow> Memory" where
  "freeData d w = w\<lparr>mm_blocks := (mm_blocks w)[d := None]\<rparr>"

definition readData :: "Memory \<Rightarrow> nat \<Rightarrow> nat \<Rightarrow> nat \<Rightarrow> byte list option" where
  "readData w d i n = (case slot (mm_blocks w) d of None \<Rightarrow> None | Some bytes \<Rightarrow> if i + n \<le> length bytes then Some (take n (drop i bytes)) else None)"

definition writeData :: "Memory \<Rightarrow> nat \<Rightarrow> nat \<Rightarrow> byte list \<Rightarrow> Memory option" where
  "writeData w d i new = (case slot (mm_blocks w) d of
     None \<Rightarrow> None
   | Some bytes \<Rightarrow> if i + length new \<le> length bytes
       then Some (w\<lparr>mm_blocks := (mm_blocks w)[d := Some (take i bytes @ new @ drop (i + length new) bytes)]\<rparr>) else None)"

section \<open>Observers\<close>

fun addObserver :: "nat \<Rightarrow> nat option list \<Rightarrow> nat option list" where
  "addObserver from [] = [Some from]"
| "addObserver from (None # items) = Some from # items"
| "addObserver from (Some x # items) = Some x # addObserver from items"

fun removeObserver :: "nat \<Rightarrow> nat option list \<Rightarrow> nat option list" where
  "removeObserver from [] = []"
| "removeObserver from (i # items) = (if i = Some from then None # items else i # removeObserver from items)"

fun notifyAll :: "(nat \<Rightarrow> Memory \<Rightarrow> Memory option) \<Rightarrow> nat option list \<Rightarrow> Memory \<Rightarrow> Memory option" where
  "notifyAll callback [] w = Some w"
| "notifyAll callback (None # items) w = notifyAll callback items w"
| "notifyAll callback (Some from # items) w = Option.bind (callback from w) (notifyAll callback items)"

text \<open>\<open>ArrayBuffer::byteLength\<close> and \<open>data\<close>\<close>

definition bufferStore :: "Memory \<Rightarrow> nat \<Rightarrow> BackingStore option" where
  "bufferStore w b = Option.bind (slot (mm_buffers w) b) (\<lambda>buf. Option.bind (ab_backingStore buf) (slot (mm_stores w)))"

definition bufferByteLength :: "Memory \<Rightarrow> nat \<Rightarrow> nat" where
  "bufferByteLength w b = (case bufferStore w b of None \<Rightarrow> 0 | Some s \<Rightarrow> bs_byteLength s)"

definition bufferData :: "Memory \<Rightarrow> nat \<Rightarrow> nat option" where
  "bufferData w b = map_option bs_data (bufferStore w b)"

definition isDetachedBuffer :: "Memory \<Rightarrow> nat \<Rightarrow> bool" where
  "isDetachedBuffer w b \<longleftrightarrow> bufferStore w b = None"

definition updateBufferCallback :: "Memory \<Rightarrow> nat option \<Rightarrow> ArrayBufferView \<Rightarrow> ArrayBufferView" where
  "updateBufferCallback w bufferStartAddress v =
     (let address = (if v_kind v = DataView \<and> (case v_buffer v of None \<Rightarrow> False | Some b \<Rightarrow> bufferByteLength w b < v_byteLength v) then None else bufferStartAddress)
      in v\<lparr>v_cachedRawBufferAddress := map_option (\<lambda>d. (d, v_byteOffset v)) address\<rparr>)"

definition observedView :: "bool \<Rightarrow> nat \<Rightarrow> ArrayBufferView \<Rightarrow> ArrayBufferView" where
  "observedView resizable newByteLength self =
     (let size = viewElementSize (v_kind self)
      in if (if v_auto self then newByteLength < v_originalByteOffset self else newByteLength < v_originalByteOffset self + v_originalByteLength self)
         then self\<lparr>v_arrayLength := 0, v_byteLength := 0, v_byteOffset := 0, v_wasResetByInvalidByteLength := True\<rparr>
         else if v_auto self
         then let byteLength = (if newByteLength > v_originalByteOffset self then (newByteLength - v_originalByteOffset self) div size * size else 0)
              in self\<lparr>v_byteOffset := v_originalByteOffset self, v_byteLength := byteLength, v_arrayLength := byteLength div size, v_wasResetByInvalidByteLength := False\<rparr>
         else if resizable
         then self\<lparr>v_byteOffset := v_originalByteOffset self, v_byteLength := v_originalByteLength self, v_arrayLength := v_originalByteLength self div size,
                v_wasResetByInvalidByteLength := False\<rparr>
         else self\<lparr>v_wasResetByInvalidByteLength := False\<rparr>)"

definition arrayBufferObserver :: "nat option \<Rightarrow> nat \<Rightarrow> nat \<Rightarrow> Memory \<Rightarrow> Memory option" where
  "arrayBufferObserver newAddress newByteLength i w =
     (case slot (mm_views w) i of
        None \<Rightarrow> None
      | Some self \<Rightarrow>
          (case Option.bind (v_buffer self) (slot (mm_buffers w)) of
             None \<Rightarrow> None
           | Some buf \<Rightarrow>
               let self' = observedView (ab_isResizable buf) newByteLength self;
                   address = (if v_wasResetByInvalidByteLength self' \<or> newByteLength = 0 then None else newAddress)
               in Some (w\<lparr>mm_views := (mm_views w)[i := Some (updateBufferCallback w address self')]\<rparr>)))"

definition bufferUpdated :: "nat option \<Rightarrow> nat \<Rightarrow> nat \<Rightarrow> Memory \<Rightarrow> Memory option" where
  "bufferUpdated newAddress newByteLength b w =
     (case slot (mm_buffers w) b of
        None \<Rightarrow> None
      | Some buf \<Rightarrow> notifyAll (arrayBufferObserver newAddress newByteLength) (ab_observerItems buf) w)"

definition storeUpdated :: "nat \<Rightarrow> Memory \<Rightarrow> Memory option" where
  "storeUpdated s w =
     (case slot (mm_stores w) s of
        None \<Rightarrow> None
      | Some st \<Rightarrow> notifyAll (bufferUpdated (Some (bs_data st)) (bs_byteLength st)) (bs_observerItems st) w)"

section \<open>Array buffers\<close>

definition changeStore :: "nat \<Rightarrow> (BackingStore \<Rightarrow> BackingStore) \<Rightarrow> Memory \<Rightarrow> Memory option" where
  "changeStore s f w = (case slot (mm_stores w) s of None \<Rightarrow> None | Some st \<Rightarrow> Some (w\<lparr>mm_stores := (mm_stores w)[s := Some (f st)]\<rparr>))"

definition changeBuffer :: "nat \<Rightarrow> (ArrayBuffer \<Rightarrow> ArrayBuffer) \<Rightarrow> Memory \<Rightarrow> Memory option" where
  "changeBuffer b f w = (case slot (mm_buffers w) b of None \<Rightarrow> None | Some buf \<Rightarrow> Some (w\<lparr>mm_buffers := (mm_buffers w)[b := Some (f buf)]\<rparr>))"

definition updateBackingStore :: "nat \<Rightarrow> nat option \<Rightarrow> Memory \<Rightarrow> Memory option" where
  "updateBackingStore b bs w =
     (case slot (mm_buffers w) b of
        None \<Rightarrow> None
      | Some buf \<Rightarrow>
          Option.bind
            (case ab_backingStore buf of None \<Rightarrow> Some w | Some s \<Rightarrow> changeStore s (\<lambda>st. st\<lparr>bs_observerItems := removeObserver b (bs_observerItems st)\<rparr>) w)
            (\<lambda>w1. Option.bind (changeBuffer b (\<lambda>buf. buf\<lparr>ab_backingStore := bs\<rparr>) w1)
            (\<lambda>w2. case bs of
                 None \<Rightarrow> bufferUpdated None 0 b w2
               | Some s \<Rightarrow>
                   Option.bind (changeStore s (\<lambda>st. st\<lparr>bs_observerItems := addObserver b (bs_observerItems st)\<rparr>) w2)
                   (\<lambda>w3. case slot (mm_stores w3) s of
                        None \<Rightarrow> None
                      | Some st \<Rightarrow> Option.bind (bufferUpdated (Some (bs_data st)) (bs_byteLength st) b w3)
                          (changeBuffer b (\<lambda>buf. buf\<lparr>ab_isResizable := bs_isResizable st\<rparr>))))))"

definition detachArrayBuffer :: "nat \<Rightarrow> Memory \<Rightarrow> Memory option" where
  "detachArrayBuffer b = updateBackingStore b None"

definition attachBuffer :: "nat \<Rightarrow> nat \<Rightarrow> Memory \<Rightarrow> Memory option" where
  "attachBuffer b s w = Option.bind (detachArrayBuffer b w) (updateBackingStore b (Some s))"

definition createStore :: "byte list \<Rightarrow> (nat \<Rightarrow> BackingStore) \<Rightarrow> Memory \<Rightarrow> nat \<times> Memory" where
  "createStore bytes mk w = (let (d, w') = mallocData bytes w in (length (mm_stores w'), w'\<lparr>mm_stores := mm_stores w' @ [Some (mk d)]\<rparr>))"

text \<open>The platform gives memory filled with zeros.\<close>

definition createDefaultNonSharedBackingStore :: "nat \<Rightarrow> Memory \<Rightarrow> nat \<times> Memory" where
  "createDefaultNonSharedBackingStore byteLength =
     createStore (replicate byteLength 0)
       (\<lambda>d. \<lparr>bs_data = d, bs_byteLength = byteLength, bs_maxByteLength = 0, bs_isAllocatedByPlatform = True, bs_isResizable = False, bs_observerItems = []\<rparr>)"

definition createDefaultResizableNonSharedBackingStore :: "nat \<Rightarrow> nat \<Rightarrow> Memory \<Rightarrow> nat \<times> Memory" where
  "createDefaultResizableNonSharedBackingStore byteLength maxByteLength =
     createStore (replicate maxByteLength 0)
       (\<lambda>d. \<lparr>bs_data = d, bs_byteLength = byteLength, bs_maxByteLength = maxByteLength, bs_isAllocatedByPlatform = True, bs_isResizable = True, bs_observerItems = []\<rparr>)"

text \<open>Memory of the embedder\<close>

definition createNonSharedBackingStore :: "byte list \<Rightarrow> Memory \<Rightarrow> nat \<times> Memory" where
  "createNonSharedBackingStore bytes =
     createStore bytes
       (\<lambda>d. \<lparr>bs_data = d, bs_byteLength = length bytes, bs_maxByteLength = 0, bs_isAllocatedByPlatform = False, bs_isResizable = False, bs_observerItems = []\<rparr>)"

definition allocateBuffer :: "nat \<Rightarrow> nat \<Rightarrow> Memory \<Rightarrow> Memory option" where
  "allocateBuffer b byteLength w =
     Option.bind (detachArrayBuffer b w) (\<lambda>w1. let (s, w2) = createDefaultNonSharedBackingStore byteLength w1 in updateBackingStore b (Some s) w2)"

definition allocateResizableBuffer :: "nat \<Rightarrow> nat \<Rightarrow> nat \<Rightarrow> Memory \<Rightarrow> Memory option" where
  "allocateResizableBuffer b byteLength maxByteLength w =
     Option.bind (detachArrayBuffer b w)
       (\<lambda>w1. let (s, w2) = createDefaultResizableNonSharedBackingStore byteLength maxByteLength w1 in updateBackingStore b (Some s) w2)"

section \<open>Backing stores\<close>

definition resize :: "nat \<Rightarrow> nat \<Rightarrow> Memory \<Rightarrow> Memory option" where
  "resize s newByteLength w =
     (case slot (mm_stores w) s of
        None \<Rightarrow> None
      | Some st \<Rightarrow>
          if \<not> (bs_isResizable st \<and> newByteLength \<le> bs_maxByteLength st) then None
          else Option.bind (if bs_byteLength st < newByteLength then writeData w (bs_data st) (bs_byteLength st) (replicate (newByteLength - bs_byteLength st) 0) else Some w)
            (\<lambda>w1. Option.bind (changeStore s (\<lambda>st. st\<lparr>bs_byteLength := newByteLength\<rparr>) w1) (storeUpdated s)))"

text \<open>\<open>onReallocArrayBufferObjectDataBuffer\<close> of the platform gives other memory with the old bytes, and zeros behind the old length.\<close>

definition reallocData :: "nat \<Rightarrow> nat \<Rightarrow> nat \<Rightarrow> Memory \<Rightarrow> (nat \<times> Memory) option" where
  "reallocData d oldSize newSize w =
     (case slot (mm_blocks w) d of
        None \<Rightarrow> None
      | Some bytes \<Rightarrow> Some (mallocData (take newSize (take oldSize bytes @ replicate newSize 0)) (freeData d w)))"

definition reallocate :: "nat \<Rightarrow> nat \<Rightarrow> Memory \<Rightarrow> Memory option" where
  "reallocate s newByteLength w =
     (case slot (mm_stores w) s of
        None \<Rightarrow> None
      | Some st \<Rightarrow>
          if bs_byteLength st = newByteLength then Some w
          else Option.bind
            (if bs_isAllocatedByPlatform st then reallocData (bs_data st) (bs_byteLength st) newByteLength w
             else Some (mallocData (replicate newByteLength 0) (freeData (bs_data st) w)))
            (\<lambda>(d, w1). Option.bind (changeStore s (\<lambda>st. st\<lparr>bs_data := d, bs_byteLength := newByteLength, bs_isAllocatedByPlatform := True\<rparr>) w1) (storeUpdated s)))"

section \<open>Views\<close>

definition setBuffer :: "nat \<Rightarrow> nat option \<Rightarrow> nat \<Rightarrow> nat \<Rightarrow> nat \<Rightarrow> bool \<Rightarrow> Memory \<Rightarrow> Memory option" where
  "setBuffer i bo byteOffset byteLength arrayLength isAuto w =
     (case slot (mm_views w) i of
        None \<Rightarrow> None
      | Some v \<Rightarrow>
          Option.bind
            (case v_buffer v of None \<Rightarrow> Some w | Some b \<Rightarrow> changeBuffer b (\<lambda>buf. buf\<lparr>ab_observerItems := removeObserver i (ab_observerItems buf)\<rparr>) w)
            (\<lambda>w1. let v1 = v\<lparr>v_buffer := bo, v_byteOffset := byteOffset, v_originalByteOffset := byteOffset, v_byteLength := byteLength,
                        v_originalByteLength := byteLength, v_arrayLength := arrayLength, v_auto := isAuto\<rparr>;
                      v2 = updateBufferCallback w1 (Option.bind bo (bufferData w1)) v1;
                      w2 = w1\<lparr>mm_views := (mm_views w1)[i := Some v2]\<rparr>
                  in case bo of
                       None \<Rightarrow> Some w2
                     | Some b \<Rightarrow> changeBuffer b (\<lambda>buf. buf\<lparr>ab_observerItems := addObserver i (ab_observerItems buf)\<rparr>) w2))"

section \<open>Garbage collection\<close>

text \<open>The collector frees objects that no live object refers to; the links of observers to them become null, and the memory of a backing store is freed.\<close>

definition clearLinks :: "nat list \<Rightarrow> nat option list \<Rightarrow> nat option list" where
  "clearLinks dead = map (\<lambda>i. case i of None \<Rightarrow> None | Some x \<Rightarrow> if x \<in> set dead then None else Some x)"

definition collectViews :: "nat list \<Rightarrow> Memory \<Rightarrow> Memory" where
  "collectViews dead w = w\<lparr>mm_views := map (\<lambda>i. if i \<in> set dead then None else mm_views w ! i) [0..<length (mm_views w)],
     mm_buffers := map (map_option (\<lambda>buf. buf\<lparr>ab_observerItems := clearLinks dead (ab_observerItems buf)\<rparr>)) (mm_buffers w)\<rparr>"

definition collectBuffers :: "nat list \<Rightarrow> Memory \<Rightarrow> Memory" where
  "collectBuffers dead w = w\<lparr>mm_buffers := map (\<lambda>i. if i \<in> set dead then None else mm_buffers w ! i) [0..<length (mm_buffers w)],
     mm_stores := map (map_option (\<lambda>st. st\<lparr>bs_observerItems := clearLinks dead (bs_observerItems st)\<rparr>)) (mm_stores w)\<rparr>"

definition collectStore :: "nat \<Rightarrow> Memory \<Rightarrow> Memory" where
  "collectStore s w = (case slot (mm_stores w) s of None \<Rightarrow> w | Some st \<Rightarrow> freeData (bs_data st) (w\<lparr>mm_stores := (mm_stores w)[s := None]\<rparr>))"

end
