(* ===== verification/BufferSafety.thy ===== *)
theory BufferSafety
  imports ArrayBuffers
begin

text \<open>
  Every view stays inside of the memory of its buffer, whatever is resized, reallocated, detached, attached or collected.
\<close>

section \<open>Slots and observers\<close>

lemma slot_list_update: "slot (xs[i := x]) j = (if i = j \<and> j < length xs then x else slot xs j)"
  by (simp add: slot_def)

lemma slot_append: "slot (xs @ [x]) j = (if j = length xs then x else slot xs j)"
  by (simp add: slot_def nth_append)

lemma slot_Some [dest]: "slot xs i = Some x \<Longrightarrow> i < length xs"
  by (simp add: slot_def split: if_splits)

lemma slot_map_upt: "slot (map f [0..<length xs]) i = (if i < length xs then f i else None)"
  by (simp add: slot_def)

lemma slot_map: "slot (map (map_option f) xs) i = map_option f (slot xs i)"
  by (simp add: slot_def)

definition observers :: "nat option list \<Rightarrow> nat set" where
  "observers items = {x. Some x \<in> set items}"

definition observers_ok :: "nat option list \<Rightarrow> bool" where
  "observers_ok items \<longleftrightarrow> distinct (filter (\<lambda>i. i \<noteq> None) items)"

lemma observers_simps [simp]: "observers [] = {}" "observers (None # items) = observers items" "observers (Some x # items) = insert x (observers items)"
  by (auto simp: observers_def)

lemma observers_ok_simps [simp]: "observers_ok []" "observers_ok (None # items) = observers_ok items" "observers_ok (Some x # items) \<longleftrightarrow> x \<notin> observers items \<and> observers_ok items"
  by (auto simp: observers_ok_def observers_def)

lemma addObserver_set [simp]: "observers (addObserver x items) = insert x (observers items)"
  by (induction x items rule: addObserver.induct) auto

lemma addObserver_ok: "observers_ok items \<Longrightarrow> x \<notin> observers items \<Longrightarrow> observers_ok (addObserver x items)"
  by (induction x items rule: addObserver.induct) auto

lemma removeObserver_set: "observers_ok items \<Longrightarrow> observers (removeObserver x items) = observers items - {x}"
proof (induction x items rule: removeObserver.induct)
  case (2 x i items)
  then show ?case by (cases i) auto
qed simp

lemma removeObserver_ok: "observers_ok items \<Longrightarrow> observers_ok (removeObserver x items)"
proof (induction x items rule: removeObserver.induct)
  case (2 x i items)
  then show ?case by (cases i) (auto simp: removeObserver_set)
qed simp

lemma clearLinks_set: "observers (clearLinks dead items) = observers items - set dead"
  by (induction items) (auto simp: clearLinks_def split: option.splits)

lemma clearLinks_ok: "observers_ok items \<Longrightarrow> observers_ok (clearLinks dead items)"
proof (induction items)
  case (Cons i items)
  then show ?case using clearLinks_set [of dead items] by (cases i) (auto simp: clearLinks_def)
qed (simp add: clearLinks_def)

section \<open>The invariant\<close>

text \<open>A view may keep its length and offset when its buffer changes; then they are not beyond the original ones.\<close>

definition view_shape :: "ArrayBufferView \<Rightarrow> bool" where
  "view_shape v \<longleftrightarrow> v_arrayLength v * viewElementSize (v_kind v) \<le> v_byteLength v \<and>
     (\<not> v_auto v \<longrightarrow> v_byteOffset v + v_byteLength v \<le> v_originalByteOffset v + v_originalByteLength v)"

definition viewMemory :: "Memory \<Rightarrow> ArrayBufferView \<Rightarrow> nat option \<times> nat" where
  "viewMemory w v = (case v_buffer v of None \<Rightarrow> (None, 0) | Some b \<Rightarrow> (bufferData w b, bufferByteLength w b))"

definition view_ok :: "Memory \<Rightarrow> ArrayBufferView \<Rightarrow> bool" where
  "view_ok w v \<longleftrightarrow> view_shape v \<and> v_byteOffset v + v_byteLength v \<le> snd (viewMemory w v) \<and>
     (case v_cachedRawBufferAddress v of
        None \<Rightarrow> v_kind v = DataView \<or> v_arrayLength v = 0
      | Some (d, offset) \<Rightarrow> fst (viewMemory w v) = Some d \<and> offset = v_byteOffset v)"

definition backingStore_ok :: "Memory \<Rightarrow> nat \<Rightarrow> BackingStore \<Rightarrow> bool" where
  "backingStore_ok w s st \<longleftrightarrow> observers_ok (bs_observerItems st) \<and>
     (\<exists>bytes. slot (mm_blocks w) (bs_data st) = Some bytes \<and> bs_byteLength st \<le> length bytes \<and> (bs_isResizable st \<longrightarrow> bs_maxByteLength st \<le> length bytes)) \<and>
     (\<forall>b. b \<in> observers (bs_observerItems st) \<longleftrightarrow> (\<exists>buf. slot (mm_buffers w) b = Some buf \<and> ab_backingStore buf = Some s)) \<and>
     (\<forall>s' st'. slot (mm_stores w) s' = Some st' \<and> bs_data st' = bs_data st \<longrightarrow> s' = s)"

definition buffer_ok :: "Memory \<Rightarrow> nat \<Rightarrow> ArrayBuffer \<Rightarrow> bool" where
  "buffer_ok w b buf \<longleftrightarrow> observers_ok (ab_observerItems buf) \<and>
     (\<forall>i. i \<in> observers (ab_observerItems buf) \<longleftrightarrow> (\<exists>v. slot (mm_views w) i = Some v \<and> v_buffer v = Some b)) \<and>
     (\<forall>s. ab_backingStore buf = Some s \<longrightarrow> slot (mm_stores w) s \<noteq> None)"

definition memoryLinks_ok :: "Memory \<Rightarrow> bool" where
  "memoryLinks_ok w \<longleftrightarrow> (\<forall>s st. slot (mm_stores w) s = Some st \<longrightarrow> backingStore_ok w s st) \<and> (\<forall>b buf. slot (mm_buffers w) b = Some buf \<longrightarrow> buffer_ok w b buf) \<and>
     (\<forall>i v. slot (mm_views w) i = Some v \<longrightarrow> (\<forall>b. v_buffer v = Some b \<longrightarrow> slot (mm_buffers w) b \<noteq> None))"

definition memory_ok :: "Memory \<Rightarrow> bool" where
  "memory_ok w \<longleftrightarrow> memoryLinks_ok w \<and> (\<forall>i v. slot (mm_views w) i = Some v \<longrightarrow> view_ok w v)"

lemma view_ok_memory: "viewMemory w' v = viewMemory w v \<Longrightarrow> view_ok w' v = view_ok w v"
  by (simp only: view_ok_def)

lemma memoryLinks_okD:
  assumes "memoryLinks_ok w"
  shows "slot (mm_stores w) s = Some st \<Longrightarrow> backingStore_ok w s st" "slot (mm_buffers w) b = Some buf \<Longrightarrow> buffer_ok w b buf"
    "slot (mm_views w) i = Some v \<Longrightarrow> v_buffer v = Some b \<Longrightarrow> \<exists>buf. slot (mm_buffers w) b = Some buf"
  using assms by (auto simp: memoryLinks_ok_def)

section \<open>Telling the views\<close>

text \<open>What a view becomes when it hears of an address and a length\<close>

definition refresh :: "Memory \<Rightarrow> nat option \<Rightarrow> nat \<Rightarrow> ArrayBufferView \<Rightarrow> ArrayBufferView" where
  "refresh w newAddress n v =
     (let v' = observedView (case Option.bind (v_buffer v) (slot (mm_buffers w)) of None \<Rightarrow> False | Some buf \<Rightarrow> ab_isResizable buf) n v
      in updateBufferCallback w (if v_wasResetByInvalidByteLength v' \<or> n = 0 then None else newAddress) v')"

lemma observedView_fields [simp]:
  "v_buffer (observedView r n v) = v_buffer v" "v_kind (observedView r n v) = v_kind v" "v_auto (observedView r n v) = v_auto v"
  "v_originalByteOffset (observedView r n v) = v_originalByteOffset v" "v_originalByteLength (observedView r n v) = v_originalByteLength v"
  by (simp_all add: observedView_def Let_def)

lemma updateBufferCallback_fields [simp]:
  "v_buffer (updateBufferCallback w a v) = v_buffer v" "v_kind (updateBufferCallback w a v) = v_kind v" "v_auto (updateBufferCallback w a v) = v_auto v"
  "v_byteLength (updateBufferCallback w a v) = v_byteLength v" "v_byteOffset (updateBufferCallback w a v) = v_byteOffset v" "v_arrayLength (updateBufferCallback w a v) = v_arrayLength v"
  "v_originalByteOffset (updateBufferCallback w a v) = v_originalByteOffset v" "v_originalByteLength (updateBufferCallback w a v) = v_originalByteLength v"
  "v_wasResetByInvalidByteLength (updateBufferCallback w a v) = v_wasResetByInvalidByteLength v"
  by (simp_all add: updateBufferCallback_def Let_def)

lemma refresh_buffer [simp]: "v_buffer (refresh w a n v) = v_buffer v"
  by (simp add: refresh_def Let_def)

lemma bufferStore_views [simp]: "bufferStore (w\<lparr>mm_views := vs\<rparr>) = bufferStore w" "bufferByteLength (w\<lparr>mm_views := vs\<rparr>) = bufferByteLength w" "bufferData (w\<lparr>mm_views := vs\<rparr>) = bufferData w"
  by (rule ext, simp add: bufferStore_def bufferByteLength_def bufferData_def)+

lemma updateBufferCallback_views [simp]: "updateBufferCallback (w\<lparr>mm_views := vs\<rparr>) = updateBufferCallback w"
  by (intro ext) (simp add: updateBufferCallback_def cong: option.case_cong)

lemma refresh_views [simp]: "refresh (w\<lparr>mm_views := vs\<rparr>) = refresh w"
  by (intro ext) (simp add: refresh_def)

lemma viewMemory_views [simp]: "viewMemory (w\<lparr>mm_views := vs\<rparr>) v = viewMemory w v" "view_ok (w\<lparr>mm_views := vs\<rparr>) v = view_ok w v"
  by (simp_all add: viewMemory_def view_ok_def cong: option.case_cong)

lemma arrayBufferObserver_refresh:
  "slot (mm_views w) i = Some v \<Longrightarrow> v_buffer v = Some b \<Longrightarrow> slot (mm_buffers w) b = Some buf \<Longrightarrow>
    arrayBufferObserver a n i w = Some (w\<lparr>mm_views := (mm_views w)[i := Some (refresh w a n v)]\<rparr>)"
  by (simp add: arrayBufferObserver_def refresh_def Let_def)

lemma notify_views:
  assumes "slot (mm_buffers w) b = Some buf" "observers_ok items" "\<forall>i \<in> observers items. \<exists>v. slot (mm_views w) i = Some v \<and> v_buffer v = Some b"
  shows "\<exists>vs. notifyAll (arrayBufferObserver a n) items w = Some (w\<lparr>mm_views := vs\<rparr>) \<and>
    (\<forall>i. slot vs i = (if i \<in> observers items then map_option (refresh w a n) (slot (mm_views w) i) else slot (mm_views w) i))"
  using assms
proof (induction items arbitrary: w)
  case Nil
  then show ?case by (auto intro: exI [of _ "mm_views w"])
next
  case (Cons item items)
  show ?case
  proof (cases item)
    case None
    then show ?thesis using Cons by auto
  next
    case (Some j)
    then obtain v where v: "slot (mm_views w) j = Some v" "v_buffer v = Some b" using Cons.prems(3) by auto
    let ?w = "w\<lparr>mm_views := (mm_views w)[j := Some (refresh w a n v)]\<rparr>"
    have j: "j \<notin> observers items" "observers_ok items" using Cons.prems(2) Some by auto
    have s: "slot (mm_views ?w) i = (if i = j then Some (refresh w a n v) else slot (mm_views w) i)" for i
      using v(1) by (auto simp: slot_list_update)
    have "\<forall>i \<in> observers items. \<exists>v. slot (mm_views ?w) i = Some v \<and> v_buffer v = Some b" 
    proof
      fix i
      assume i: "i \<in> observers items"
      then have "i \<noteq> j" using j(1) by auto
      then show "\<exists>v. slot (mm_views ?w) i = Some v \<and> v_buffer v = Some b" using Cons.prems(3) Some i s [of i] by auto
    qed
    from Cons.IH [OF _ j(2) this] Cons.prems(1) obtain vs where
      vs: "notifyAll (arrayBufferObserver a n) items ?w = Some (w\<lparr>mm_views := vs\<rparr>)"
        "\<forall>i. slot vs i = (if i \<in> observers items then map_option (refresh w a n) (slot (mm_views ?w) i) else slot (mm_views ?w) i)" by auto
    have "notifyAll (arrayBufferObserver a n) (item # items) w = Some (w\<lparr>mm_views := vs\<rparr>)"
      using Some vs(1) arrayBufferObserver_refresh [OF v Cons.prems(1)] by simp
    moreover have "slot vs i = (if i \<in> observers (item # items) then map_option (refresh w a n) (slot (mm_views w) i) else slot (mm_views w) i)" for i
      using vs(2) [rule_format, of i] s [of i] Some j(1) v(1) by auto
    ultimately show ?thesis by blast
  qed
qed

lemma bufferUpdated_views:
  assumes "slot (mm_buffers w) b = Some buf" "buffer_ok w b buf"
  shows "\<exists>vs. bufferUpdated a n b w = Some (w\<lparr>mm_views := vs\<rparr>) \<and>
    (\<forall>i. slot vs i = map_option (\<lambda>v. if v_buffer v = Some b then refresh w a n v else v) (slot (mm_views w) i))"
proof -
  have o: "i \<in> observers (ab_observerItems buf) \<longleftrightarrow> (\<exists>v. slot (mm_views w) i = Some v \<and> v_buffer v = Some b)" for i using assms(2) by (simp add: buffer_ok_def)
  obtain vs where vs: "notifyAll (arrayBufferObserver a n) (ab_observerItems buf) w = Some (w\<lparr>mm_views := vs\<rparr>)"
    "\<forall>i. slot vs i = (if i \<in> observers (ab_observerItems buf) then map_option (refresh w a n) (slot (mm_views w) i) else slot (mm_views w) i)"
    using notify_views [OF assms(1), of "ab_observerItems buf" a n] assms(2) by (auto simp: buffer_ok_def)
  have "slot vs i = map_option (\<lambda>v. if v_buffer v = Some b then refresh w a n v else v) (slot (mm_views w) i)" for i
    using vs(2) [rule_format, of i] o [of i] by (cases "slot (mm_views w) i") auto
  then show ?thesis using vs(1) assms(1) by (auto simp: bufferUpdated_def)
qed

text \<open>Changes of views that keep their buffers keep the links.\<close>

lemma links_ok_views:
  assumes "memoryLinks_ok w" "\<And>i. map_option v_buffer (slot vs i) = map_option v_buffer (slot (mm_views w) i)"
  shows "memoryLinks_ok (w\<lparr>mm_views := vs\<rparr>)"
proof -
  have e: "(\<exists>v. slot vs i = Some v \<and> v_buffer v = Some b) \<longleftrightarrow> (\<exists>v. slot (mm_views w) i = Some v \<and> v_buffer v = Some b)" for i b
    using assms(2) [of i] by (cases "slot vs i"; cases "slot (mm_views w) i") auto
  have "slot (mm_buffers w) b \<noteq> None" if v: "slot vs i = Some v" "v_buffer v = Some b" for i v b
  proof -
    from v e [of i b] obtain u where "slot (mm_views w) i = Some u" "v_buffer u = Some b" by blast
    from memoryLinks_okD(3) [OF assms(1) this] show ?thesis by auto
  qed
  moreover have "backingStore_ok (w\<lparr>mm_views := vs\<rparr>) = backingStore_ok w" by (intro ext) (simp add: backingStore_ok_def)
  moreover have "buffer_ok (w\<lparr>mm_views := vs\<rparr>) = buffer_ok w" by (intro ext) (simp add: buffer_ok_def e)
  ultimately show ?thesis using assms(1) unfolding memoryLinks_ok_def by simp
qed

lemma notify_buffers:
  assumes "memoryLinks_ok w" "observers_ok items" "\<forall>b \<in> observers items. slot (mm_buffers w) b \<noteq> None"
  shows "\<exists>vs. notifyAll (bufferUpdated a n) items w = Some (w\<lparr>mm_views := vs\<rparr>) \<and>
    (\<forall>i. slot vs i = map_option (\<lambda>v. if \<exists>b \<in> observers items. v_buffer v = Some b then refresh w a n v else v) (slot (mm_views w) i))"
  using assms
proof (induction items arbitrary: w)
  case Nil
  then show ?case by (auto intro: exI [of _ "mm_views w"] simp: option.map_ident)
next
  case (Cons item items)
  show ?case
  proof (cases item)
    case None
    then show ?thesis using Cons by auto
  next
    case (Some c)
    then obtain buf where buf: "slot (mm_buffers w) c = Some buf" using Cons.prems(3) by auto
    obtain us where us: "bufferUpdated a n c w = Some (w\<lparr>mm_views := us\<rparr>)"
      "\<forall>i. slot us i = map_option (\<lambda>v. if v_buffer v = Some c then refresh w a n v else v) (slot (mm_views w) i)"
      using bufferUpdated_views [OF buf memoryLinks_okD(2) [OF Cons.prems(1) buf]] by blast
    have l: "memoryLinks_ok (w\<lparr>mm_views := us\<rparr>)" using Cons.prems(1) 
    proof (rule links_ok_views)
      show "map_option v_buffer (slot us i) = map_option v_buffer (slot (mm_views w) i)" for i by (cases "slot (mm_views w) i") (simp_all add: us(2))
    qed
    from Cons.IH [OF l, unfolded refresh_views] Cons.prems Some obtain vs where
      vs: "notifyAll (bufferUpdated a n) items (w\<lparr>mm_views := us\<rparr>) = Some (w\<lparr>mm_views := vs\<rparr>)"
        "\<forall>i. slot vs i = map_option (\<lambda>v. if \<exists>b \<in> observers items. v_buffer v = Some b then refresh w a n v else v) (slot us i)" by auto
    have "c \<notin> observers items" using Cons.prems(2) Some by simp
    then have "slot vs i = map_option (\<lambda>v. if \<exists>b \<in> observers (item # items). v_buffer v = Some b then refresh w a n v else v) (slot (mm_views w) i)" for i
      using vs(2) us(2) Some by (cases "slot (mm_views w) i") auto
    then show ?thesis using us(1) vs(1) Some by auto
  qed
qed

section \<open>A view that was told is in order\<close>

lemma elementSize_pos [simp]: "0 < elementSize t"
  by (cases t) simp_all

lemma viewElementSize_pos [simp]: "0 < viewElementSize k" "viewElementSize k \<noteq> 0"
  by (cases k; simp)+

lemma observed_bounds:
  assumes "view_shape v"
  shows "view_shape (observedView r n v)" "v_byteOffset (observedView r n v) + v_byteLength (observedView r n v) \<le> n"
    "v_wasResetByInvalidByteLength (observedView r n v) \<Longrightarrow> v_arrayLength (observedView r n v) = 0"
proof -
  let ?k = "viewElementSize (v_kind v)" and ?o = "v_originalByteOffset v"
  have d: "?o + (n - ?o) div ?k * ?k \<le> n" if "?o < n" using div_times_less_eq_dividend [of "n - ?o" ?k] that by linarith
  consider (reset) "if v_auto v then n < ?o else n < ?o + v_originalByteLength v" | (auto) "v_auto v" "\<not> n < ?o"
    | (fixed) "\<not> v_auto v" "\<not> n < ?o + v_originalByteLength v" by (cases "v_auto v") auto
  then show "view_shape (observedView r n v)" "v_byteOffset (observedView r n v) + v_byteLength (observedView r n v) \<le> n"
    "v_wasResetByInvalidByteLength (observedView r n v) \<Longrightarrow> v_arrayLength (observedView r n v) = 0"
    by (cases; use assms d in \<open>auto simp: observedView_def Let_def view_shape_def\<close>)+
qed

lemma refresh_ok:
  assumes "view_shape v" "v_buffer v = Some b" "bufferData w b = a" "bufferByteLength w b = n"
  shows "view_ok w (refresh w a n v)"
proof -
  define v' where "v' = observedView (case Option.bind (v_buffer v) (slot (mm_buffers w)) of None \<Rightarrow> False | Some buf \<Rightarrow> ab_isResizable buf) n v"
  have b: "view_shape v'" "v_byteOffset v' + v_byteLength v' \<le> n" "v_wasResetByInvalidByteLength v' \<Longrightarrow> v_arrayLength v' = 0"
    using observed_bounds [OF assms(1)] by (simp_all add: v'_def)
  have z: "v_arrayLength v' = 0" if "n = 0" using b(1,2) that by (simp add: view_shape_def)
  have m: "viewMemory w (refresh w a n v) = (a, n)" using assms by (simp add: viewMemory_def)
  have r: "refresh w a n v = updateBufferCallback w (if v_wasResetByInvalidByteLength v' \<or> n = 0 then None else a) v'"
    by (simp add: refresh_def v'_def Let_def)
  have f: "v_kind v' = v_kind v" "v_auto v' = v_auto v" "v_originalByteOffset v' = v_originalByteOffset v" "v_originalByteLength v' = v_originalByteLength v"
    by (simp_all add: v'_def)
  have "view_shape (refresh w a n v)" using b(1) by (simp add: view_shape_def r f)
  moreover have "v_byteOffset (refresh w a n v) + v_byteLength (refresh w a n v) \<le> snd (viewMemory w (refresh w a n v))" using b(2) m by (simp add: r)
  moreover have "case v_cachedRawBufferAddress (refresh w a n v) of None \<Rightarrow> v_kind (refresh w a n v) = DataView \<or> v_arrayLength (refresh w a n v) = 0
      | Some (d, offset) \<Rightarrow> fst (viewMemory w (refresh w a n v)) = Some d \<and> offset = v_byteOffset (refresh w a n v)"
    unfolding m using b(3) z f(1) assms(3,4) unfolding r by (auto simp: updateBufferCallback_def Let_def bufferData_def bufferByteLength_def split: option.splits)
  ultimately show ?thesis by (simp add: view_ok_def)
qed

section \<open>Buffers and stores that are updated\<close>

lemma bufferUpdated_ok:
  assumes "memoryLinks_ok w" "slot (mm_buffers w) b = Some buf" "bufferData w b = a" "bufferByteLength w b = n"
    and "\<And>i v. slot (mm_views w) i = Some v \<Longrightarrow> view_shape v \<and> (v_buffer v \<noteq> Some b \<longrightarrow> view_ok w v)"
  obtains vs where "bufferUpdated a n b w = Some (w\<lparr>mm_views := vs\<rparr>)" "memory_ok (w\<lparr>mm_views := vs\<rparr>)"
    "\<And>i. slot vs i = map_option (\<lambda>v. if v_buffer v = Some b then refresh w a n v else v) (slot (mm_views w) i)"
proof -
  obtain vs where vs: "bufferUpdated a n b w = Some (w\<lparr>mm_views := vs\<rparr>)"
    "\<And>i. slot vs i = map_option (\<lambda>v. if v_buffer v = Some b then refresh w a n v else v) (slot (mm_views w) i)"
    using bufferUpdated_views [OF assms(2) memoryLinks_okD(2) [OF assms(1,2)]] by blast
  have "memoryLinks_ok (w\<lparr>mm_views := vs\<rparr>)"
  proof (rule links_ok_views [OF assms(1)])
    show "map_option v_buffer (slot vs i) = map_option v_buffer (slot (mm_views w) i)" for i by (cases "slot (mm_views w) i") (simp_all add: vs(2))
  qed
  moreover have "view_ok w v" if "slot vs i = Some v" for i v
    using that assms(5) refresh_ok [OF _ _ assms(3,4)] by (cases "slot (mm_views w) i") (auto simp: vs(2) split: if_splits)
  ultimately have "memory_ok (w\<lparr>mm_views := vs\<rparr>)" by (simp add: memory_ok_def)
  then show ?thesis using that vs by blast
qed

lemma storeUpdated_ok:
  assumes "memoryLinks_ok w" "slot (mm_stores w) s = Some st"
    and "\<And>i v. slot (mm_views w) i = Some v \<Longrightarrow> view_shape v \<and> (view_ok w v \<or> (\<exists>b buf. v_buffer v = Some b \<and> slot (mm_buffers w) b = Some buf \<and> ab_backingStore buf = Some s))"
  obtains vs where "storeUpdated s w = Some (w\<lparr>mm_views := vs\<rparr>)" "memory_ok (w\<lparr>mm_views := vs\<rparr>)"
    "\<And>i. slot vs i = map_option (\<lambda>v. if \<exists>b buf. v_buffer v = Some b \<and> slot (mm_buffers w) b = Some buf \<and> ab_backingStore buf = Some s
        then refresh w (Some (bs_data st)) (bs_byteLength st) v else v) (slot (mm_views w) i)"
proof -
  let ?a = "Some (bs_data st)" and ?n = "bs_byteLength st"
  have st: "observers_ok (bs_observerItems st)" "\<And>b. b \<in> observers (bs_observerItems st) \<longleftrightarrow> (\<exists>buf. slot (mm_buffers w) b = Some buf \<and> ab_backingStore buf = Some s)"
    using memoryLinks_okD(1) [OF assms(1,2)] by (auto simp: backingStore_ok_def)
  have "\<forall>b \<in> observers (bs_observerItems st). slot (mm_buffers w) b \<noteq> None" using st(2) by auto
  then obtain vs where vs: "notifyAll (bufferUpdated ?a ?n) (bs_observerItems st) w = Some (w\<lparr>mm_views := vs\<rparr>)"
    "\<And>i. slot vs i = map_option (\<lambda>v. if \<exists>b \<in> observers (bs_observerItems st). v_buffer v = Some b then refresh w ?a ?n v else v) (slot (mm_views w) i)"
    using notify_buffers [OF assms(1) st(1), of ?a ?n] by blast
  have e: "(\<exists>b \<in> observers (bs_observerItems st). v_buffer v = Some b) \<longleftrightarrow> (\<exists>b buf. v_buffer v = Some b \<and> slot (mm_buffers w) b = Some buf \<and> ab_backingStore buf = Some s)" for v
    using st(2) by auto
  have "memoryLinks_ok (w\<lparr>mm_views := vs\<rparr>)"
  proof (rule links_ok_views [OF assms(1)])
    show "map_option v_buffer (slot vs i) = map_option v_buffer (slot (mm_views w) i)" for i by (cases "slot (mm_views w) i") (simp_all add: vs(2))
  qed
  moreover have "view_ok w v" if v: "slot vs i = Some v" for i v
  proof -
    obtain u where u: "slot (mm_views w) i = Some u" using v vs(2) by (cases "slot (mm_views w) i") auto
    show ?thesis
    proof (cases "\<exists>b buf. v_buffer u = Some b \<and> slot (mm_buffers w) b = Some buf \<and> ab_backingStore buf = Some s")
      case True
      then obtain b where b: "v_buffer u = Some b" "bufferData w b = ?a" "bufferByteLength w b = ?n"
        using assms(2) by (auto simp: bufferData_def bufferByteLength_def bufferStore_def)
      have "v = refresh w ?a ?n u" using v u True by (simp add: vs(2) e)
      then show ?thesis using refresh_ok [OF _ b] assms(3) [OF u] by simp
    next
      case False
      then have "v = u" using v unfolding vs(2) e u by (simp only: if_not_P if_False option.map option.inject)
      then show ?thesis using assms(3) [OF u] False by blast
    qed
  qed
  ultimately have "memory_ok (w\<lparr>mm_views := vs\<rparr>)" by (simp add: memory_ok_def)
  then show ?thesis using that vs assms(2) by (simp add: storeUpdated_def e)
qed

section \<open>Attaching and detaching\<close>

lemma memory_shape: "memory_ok w \<Longrightarrow> slot (mm_views w) i = Some v \<Longrightarrow> view_shape v \<and> view_ok w v"
  by (auto simp: memory_ok_def view_ok_def)

text \<open>The stores after a buffer changed from one to another\<close>

definition relinks :: "nat \<Rightarrow> nat option \<Rightarrow> BackingStore option list \<Rightarrow> BackingStore option list \<Rightarrow> bool" where
  "relinks b bs old new \<longleftrightarrow> (\<forall>s. case slot old s of
     None \<Rightarrow> slot new s = None
   | Some st \<Rightarrow> \<exists>items. slot new s = Some (st\<lparr>bs_observerItems := items\<rparr>) \<and> observers_ok items \<and> observers items = observers (bs_observerItems st) - {b} \<union> (if bs = Some s then {b} else {}))"

definition rebound :: "nat \<Rightarrow> nat option \<Rightarrow> BackingStore option list \<Rightarrow> Memory \<Rightarrow> Memory" where
  "rebound b bs stores w = w\<lparr>mm_stores := stores, mm_buffers := (mm_buffers w)[b := map_option (\<lambda>buf. buf\<lparr>ab_backingStore := bs\<rparr>) (slot (mm_buffers w) b)]\<rparr>"

lemma rebound_slot:
  assumes "slot (mm_buffers w) b = Some buf"
  shows "slot (mm_buffers (rebound b bs stores w)) c = (if c = b then Some (buf\<lparr>ab_backingStore := bs\<rparr>) else slot (mm_buffers w) c)"
    "mm_stores (rebound b bs stores w) = stores" "mm_views (rebound b bs stores w) = mm_views w" "mm_blocks (rebound b bs stores w) = mm_blocks w"
  using assms by (auto simp: rebound_def slot_list_update)

lemma relinks_Some:
  assumes "relinks b bs old new" "slot new s = Some st'"
  obtains st where "slot old s = Some st" "st' = st\<lparr>bs_observerItems := bs_observerItems st'\<rparr>" "observers_ok (bs_observerItems st')"
    "observers (bs_observerItems st') = observers (bs_observerItems st) - {b} \<union> (if bs = Some s then {b} else {})"
  using assms by (auto simp: relinks_def dest!: spec [of _ s] split: option.splits)

lemma rebound_links:
  assumes "memoryLinks_ok w" "slot (mm_buffers w) b = Some buf" "relinks b bs (mm_stores w) stores" "\<And>s. bs = Some s \<Longrightarrow> slot (mm_stores w) s \<noteq> None"
  shows "memoryLinks_ok (rebound b bs stores w)"
proof -
  note sl = rebound_slot [OF assms(2)]
  have "backingStore_ok (rebound b bs stores w) s st'" if st': "slot stores s = Some st'" for s st'
  proof -
    from relinks_Some [OF assms(3) st'] obtain st where
      st: "slot (mm_stores w) s = Some st" "st' = st\<lparr>bs_observerItems := bs_observerItems st'\<rparr>" "observers_ok (bs_observerItems st')"
        "observers (bs_observerItems st') = observers (bs_observerItems st) - {b} \<union> (if bs = Some s then {b} else {})" .
    note ok = memoryLinks_okD(1) [OF assms(1) st(1), unfolded backingStore_ok_def]
    have f: "bs_data st' = bs_data st" "bs_byteLength st' = bs_byteLength st" "bs_isResizable st' = bs_isResizable st" "bs_maxByteLength st' = bs_maxByteLength st"
      by (subst st(2), simp)+
    have "s2 = s" if "slot stores s2 = Some st2" "bs_data st2 = bs_data st'" for s2 st2
    proof -
      from relinks_Some [OF assms(3) that(1)] obtain u where u: "slot (mm_stores w) s2 = Some u" "st2 = u\<lparr>bs_observerItems := bs_observerItems st2\<rparr>" .
      have "bs_data u = bs_data st" using arg_cong [OF u(2), of bs_data] that(2) f(1) by simp
      then show ?thesis using ok u(1) by blast
    qed
    moreover have "c \<in> observers (bs_observerItems st') \<longleftrightarrow> (\<exists>buf'. slot (mm_buffers (rebound b bs stores w)) c = Some buf' \<and> ab_backingStore buf' = Some s)" for c
    proof -
      have "c \<in> observers (bs_observerItems st) \<longleftrightarrow> (\<exists>buf. slot (mm_buffers w) c = Some buf \<and> ab_backingStore buf = Some s)" using ok by blast
      then show ?thesis unfolding sl(1) st(4) by (cases "c = b") auto
    qed
    ultimately show ?thesis using ok st(3) unfolding backingStore_ok_def sl(2-4) f by blast
  qed
  moreover have "buffer_ok (rebound b bs stores w) c buf'" if "slot (mm_buffers (rebound b bs stores w)) c = Some buf'" for c buf'
  proof -
    have some: "slot (mm_stores w) s \<noteq> None \<Longrightarrow> slot stores s \<noteq> None" for s using assms(3) by (auto simp: relinks_def dest!: spec [of _ s])
    show ?thesis
    proof (cases "c = b")
      case True
      then show ?thesis using that memoryLinks_okD(2) [OF assms(1,2)] assms(4) some unfolding buffer_ok_def sl by auto
    next
      case False
      then have "slot (mm_buffers w) c = Some buf'" using that sl(1) by simp
      then show ?thesis using memoryLinks_okD(2) [OF assms(1)] some unfolding buffer_ok_def sl by blast
    qed
  qed
  moreover have "slot (mm_buffers (rebound b bs stores w)) c \<noteq> None" if "slot (mm_views w) i = Some v" "v_buffer v = Some c" for i v c
    using memoryLinks_okD(3) [OF assms(1) that] unfolding sl(1) by auto
  ultimately show ?thesis unfolding memoryLinks_ok_def sl(2,3) by blast
qed

text \<open>What \<open>updateBackingStore\<close> does to the stores\<close>

lemma remove_relinks:
  assumes "memoryLinks_ok w" "slot (mm_buffers w) b = Some buf"
  shows "\<exists>stores. (case ab_backingStore buf of None \<Rightarrow> Some w | Some s \<Rightarrow> changeStore s (\<lambda>st. st\<lparr>bs_observerItems := removeObserver b (bs_observerItems st)\<rparr>) w) =
      Some (w\<lparr>mm_stores := stores\<rparr>) \<and> relinks b None (mm_stores w) stores"
proof -
  have ok: "slot (mm_stores w) t = Some st \<Longrightarrow> observers_ok (bs_observerItems st) \<and> (b \<in> observers (bs_observerItems st) \<longleftrightarrow> ab_backingStore buf = Some t)" for t st
    using memoryLinks_okD(1) [OF assms(1), of t st] assms(2) by (auto simp: backingStore_ok_def)
  show ?thesis
  proof (cases "ab_backingStore buf")
    case None
    have "relinks b None (mm_stores w) (mm_stores w)" unfolding relinks_def
    proof
      show "case slot (mm_stores w) t of None \<Rightarrow> slot (mm_stores w) t = None | Some st \<Rightarrow> \<exists>items. slot (mm_stores w) t = Some (st\<lparr>bs_observerItems := items\<rparr>) \<and>
          observers_ok items \<and> observers items = observers (bs_observerItems st) - {b} \<union> (if None = Some t then {b} else {})" for t
        using ok [of t] None by (auto split: option.splits intro!: exI [of _ "bs_observerItems (the (slot (mm_stores w) t))"])
    qed
    then show ?thesis using None by (auto intro!: exI [of _ "mm_stores w"])
  next
    case (Some s)
    then obtain st where st: "slot (mm_stores w) s = Some st" using memoryLinks_okD(2) [OF assms] by (auto simp: buffer_ok_def)
    let ?st = "st\<lparr>bs_observerItems := removeObserver b (bs_observerItems st)\<rparr>"
    have "relinks b None (mm_stores w) ((mm_stores w)[s := Some ?st])" unfolding relinks_def
    proof
      fix t
      have s: "s < length (mm_stores w)" using st by auto
      show "case slot (mm_stores w) t of None \<Rightarrow> slot ((mm_stores w)[s := Some ?st]) t = None | Some u \<Rightarrow> \<exists>items. slot ((mm_stores w)[s := Some ?st]) t = Some (u\<lparr>bs_observerItems := items\<rparr>) \<and>
          observers_ok items \<and> observers items = observers (bs_observerItems u) - {b} \<union> (if None = Some t then {b} else {})"
      proof (cases "t = s")
        case True
        then show ?thesis using st s ok [OF st] by (auto simp: slot_list_update removeObserver_ok removeObserver_set)
      next
        case False
        then show ?thesis using ok [of t] Some
          by (auto simp: slot_list_update split: option.splits intro!: exI [of _ "bs_observerItems (the (slot (mm_stores w) t))"])
      qed
    qed
    then show ?thesis using Some st by (auto simp: changeStore_def)
  qed
qed

lemma add_relinks:
  assumes "relinks b None old mid" "slot mid s = Some st"
  shows "relinks b (Some s) old (mid[s := Some (st\<lparr>bs_observerItems := addObserver b (bs_observerItems st)\<rparr>)])"
  unfolding relinks_def
proof
  fix t
  have s: "s < length mid" using assms(2) by auto
  show "case slot old t of None \<Rightarrow> slot (mid[s := Some (st\<lparr>bs_observerItems := addObserver b (bs_observerItems st)\<rparr>)]) t = None
    | Some u \<Rightarrow> \<exists>items. slot (mid[s := Some (st\<lparr>bs_observerItems := addObserver b (bs_observerItems st)\<rparr>)]) t = Some (u\<lparr>bs_observerItems := items\<rparr>) \<and> observers_ok items \<and>
        observers items = observers (bs_observerItems u) - {b} \<union> (if Some s = Some t then {b} else {})"
  proof (cases "t = s")
    case True
    from relinks_Some [OF assms] obtain u where u: "slot old s = Some u" "st = u\<lparr>bs_observerItems := bs_observerItems st\<rparr>" "observers_ok (bs_observerItems st)"
      "observers (bs_observerItems st) = observers (bs_observerItems u) - {b}" by auto
    have e: "st\<lparr>bs_observerItems := addObserver b (bs_observerItems st)\<rparr> = u\<lparr>bs_observerItems := addObserver b (bs_observerItems st)\<rparr>"
      using arg_cong [OF u(2), of "\<lambda>st'. st'\<lparr>bs_observerItems := addObserver b (bs_observerItems st)\<rparr>"] by simp
    have "slot (mid[s := Some (st\<lparr>bs_observerItems := addObserver b (bs_observerItems st)\<rparr>)]) t = Some (u\<lparr>bs_observerItems := addObserver b (bs_observerItems st)\<rparr>)"
      using True s e by (simp add: slot_list_update)
    moreover have "observers_ok (addObserver b (bs_observerItems st))" using u(3,4) by (intro addObserver_ok) simp_all
    ultimately show ?thesis using u(1,4) True by auto
  next
    case False
    then show ?thesis using assms(1) by (auto simp: relinks_def slot_list_update dest!: spec [of _ t] split: option.splits)
  qed
qed

text \<open>The whole operation\<close>

lemma view_ok_cong:
  "bufferData w' = bufferData w \<Longrightarrow> bufferByteLength w' = bufferByteLength w \<Longrightarrow> view_ok w' = view_ok w"
  by (intro ext) (simp add: view_ok_def viewMemory_def cong: option.case_cong)

lemma setResizable_ok:
  assumes "memory_ok w" "slot (mm_buffers w) b = Some buf"
  shows "memory_ok (w\<lparr>mm_buffers := (mm_buffers w)[b := Some (buf\<lparr>ab_isResizable := r\<rparr>)]\<rparr>)"
proof -
  let ?w = "w\<lparr>mm_buffers := (mm_buffers w)[b := Some (buf\<lparr>ab_isResizable := r\<rparr>)]\<rparr>"
  have b: "b < length (mm_buffers w)" using assms(2) by auto
  have s: "slot (mm_buffers ?w) c = (if c = b then Some (buf\<lparr>ab_isResizable := r\<rparr>) else slot (mm_buffers w) c)" for c using b by (auto simp: slot_list_update)
  have e: "(\<exists>buf'. slot (mm_buffers ?w) c = Some buf' \<and> ab_backingStore buf' = Some t) \<longleftrightarrow> (\<exists>buf'. slot (mm_buffers w) c = Some buf' \<and> ab_backingStore buf' = Some t)" for c t
    using assms(2) unfolding s by auto
  have "backingStore_ok ?w = backingStore_ok w" by (intro ext) (simp add: backingStore_ok_def e [simplified])
  moreover have "buffer_ok ?w c buf' = buffer_ok w c buf'" for c buf' by (simp add: buffer_ok_def)
  moreover have "buffer_ok w b (buf\<lparr>ab_isResizable := r\<rparr>)" using assms unfolding memory_ok_def memoryLinks_ok_def by (simp add: buffer_ok_def)
  ultimately have "memoryLinks_ok ?w" using assms(1) unfolding memory_ok_def memoryLinks_ok_def s by auto
  moreover have "bufferStore ?w c = bufferStore w c" for c using assms(2) unfolding bufferStore_def s by simp
  then have "view_ok ?w = view_ok w" by (intro view_ok_cong ext) (simp_all add: bufferData_def bufferByteLength_def)
  ultimately show ?thesis using assms(1) by (simp add: memory_ok_def)
qed

lemma relinks_fields:
  assumes "relinks b bs old new"
  shows "map_option bs_data (slot new s) = map_option bs_data (slot old s)" "map_option bs_byteLength (slot new s) = map_option bs_byteLength (slot old s)"
    "map_option bs_isResizable (slot new s) = map_option bs_isResizable (slot old s)" "map_option bs_maxByteLength (slot new s) = map_option bs_maxByteLength (slot old s)"
    "map_option bs_isAllocatedByPlatform (slot new s) = map_option bs_isAllocatedByPlatform (slot old s)"
  using assms [unfolded relinks_def, rule_format, of s] by (auto split: option.splits)

lemma bufferData_Some: "bufferData w b = Some d \<longleftrightarrow> (\<exists>st. bufferStore w b = Some st \<and> bs_data st = d)"
  by (auto simp: bufferData_def)

lemma rebound_memory:
  assumes "slot (mm_buffers w) b = Some buf" "relinks b bs (mm_stores w) stores"
  shows "c \<noteq> b \<Longrightarrow> bufferData (rebound b bs stores w) c = bufferData w c \<and> bufferByteLength (rebound b bs stores w) c = bufferByteLength w c"
    "bufferData (rebound b bs stores w) b = Option.bind bs (\<lambda>s. map_option bs_data (slot (mm_stores w) s))"
    "bufferByteLength (rebound b bs stores w) b = (case Option.bind bs (\<lambda>s. map_option bs_byteLength (slot (mm_stores w) s)) of None \<Rightarrow> 0 | Some n \<Rightarrow> n)"
proof -
  have bl: "bufferByteLength w' c = (case map_option bs_byteLength (bufferStore w' c) of None \<Rightarrow> 0 | Some n \<Rightarrow> n)" for w' c
    by (simp add: bufferByteLength_def split: option.splits)
  have m: "map_option f (bufferStore w' c) = Option.bind (slot (mm_buffers w') c) (\<lambda>buf. Option.bind (ab_backingStore buf) (\<lambda>s. map_option f (slot (mm_stores w') s)))" for f :: "BackingStore \<Rightarrow> 'x" and w' c
    by (cases "slot (mm_buffers w') c") (simp_all add: bufferStore_def map_option_bind comp_def)
  note f = relinks_fields [OF assms(2)] and sl = rebound_slot [OF assms(1)]
  show "c \<noteq> b \<Longrightarrow> bufferData (rebound b bs stores w) c = bufferData w c \<and> bufferByteLength (rebound b bs stores w) c = bufferByteLength w c"
    unfolding bl bufferData_def m sl f by simp
  show "bufferData (rebound b bs stores w) b = Option.bind bs (\<lambda>s. map_option bs_data (slot (mm_stores w) s))"
    "bufferByteLength (rebound b bs stores w) b = (case Option.bind bs (\<lambda>s. map_option bs_byteLength (slot (mm_stores w) s)) of None \<Rightarrow> 0 | Some n \<Rightarrow> n)"
    unfolding bl bufferData_def m sl f by simp_all
qed

lemma updateBackingStore_ok:
  assumes "memory_ok w" "slot (mm_buffers w) b = Some buf" "\<And>s. bs = Some s \<Longrightarrow> \<exists>st. slot (mm_stores w) s = Some st"
  obtains w' stores where "updateBackingStore b bs w = Some w'" "memory_ok w'" "mm_blocks w' = mm_blocks w" "mm_stores w' = stores" "relinks b bs (mm_stores w) stores"
    "\<And>c. slot (mm_buffers w') c = (if c = b then Some (buf\<lparr>ab_backingStore := bs, ab_isResizable := (case Option.bind bs (slot (mm_stores w)) of
        None \<Rightarrow> ab_isResizable buf | Some st \<Rightarrow> bs_isResizable st)\<rparr>) else slot (mm_buffers w) c)"
    "\<And>i. slot (mm_views w') i = map_option (\<lambda>v. if v_buffer v = Some b
        then refresh (rebound b bs stores w) (bufferData (rebound b bs stores w) b) (bufferByteLength (rebound b bs stores w) b) v else v) (slot (mm_views w) i)"
proof -
  have l: "memoryLinks_ok w" using assms(1) by (simp add: memory_ok_def)
  obtain mid where mid: "(case ab_backingStore buf of None \<Rightarrow> Some w | Some s \<Rightarrow> changeStore s (\<lambda>st. st\<lparr>bs_observerItems := removeObserver b (bs_observerItems st)\<rparr>) w) =
      Some (w\<lparr>mm_stores := mid\<rparr>)" "relinks b None (mm_stores w) mid" using remove_relinks [OF l assms(2)] by blast
  have w2: "changeBuffer b (\<lambda>buf. buf\<lparr>ab_backingStore := bs\<rparr>) (w\<lparr>mm_stores := mid\<rparr>) = Some (rebound b bs mid w)"
    using assms(2) by (simp add: changeBuffer_def rebound_def)
  have upd: "updateBackingStore b bs w = (case bs of None \<Rightarrow> bufferUpdated None 0 b (rebound b bs mid w)
      | Some s \<Rightarrow> Option.bind (changeStore s (\<lambda>st. st\<lparr>bs_observerItems := addObserver b (bs_observerItems st)\<rparr>) (rebound b bs mid w))
          (\<lambda>w3. case slot (mm_stores w3) s of None \<Rightarrow> None | Some st \<Rightarrow> Option.bind (bufferUpdated (Some (bs_data st)) (bs_byteLength st) b w3)
              (changeBuffer b (\<lambda>buf. buf\<lparr>ab_isResizable := bs_isResizable st\<rparr>))))"
    using assms(2) by (simp add: updateBackingStore_def mid(1) w2)
  have pend: "view_shape v \<and> (v_buffer v \<noteq> Some b \<longrightarrow> view_ok (rebound b bs stores w) v)"
    if "relinks b bs (mm_stores w) stores" "slot (mm_views (rebound b bs stores w)) i = Some v" for stores i v
  proof -
    have v: "view_shape v" "view_ok w v" using memory_shape [OF assms(1)] that(2) by (auto simp: rebound_def)
    have "viewMemory (rebound b bs stores w) v = viewMemory w v" if "v_buffer v \<noteq> Some b"
      using rebound_memory(1) [OF assms(2) \<open>relinks b bs (mm_stores w) stores\<close>] that by (auto simp: viewMemory_def split: option.splits)
    then show ?thesis using v view_ok_memory by blast
  qed
  show ?thesis
  proof (cases bs)
    case None
    have r: "relinks b bs (mm_stores w) mid" using mid(2) None by simp
    let ?W = "rebound b bs mid w"
    have L: "memoryLinks_ok ?W" by (rule rebound_links [OF l assms(2) r]) (simp add: None)
    have d: "bufferData ?W b = None" "bufferByteLength ?W b = 0" using rebound_memory(2,3) [OF assms(2) r] None by simp_all
    obtain vs where vs: "bufferUpdated None 0 b ?W = Some (?W\<lparr>mm_views := vs\<rparr>)" "memory_ok (?W\<lparr>mm_views := vs\<rparr>)"
      "\<And>i. slot vs i = map_option (\<lambda>v. if v_buffer v = Some b then refresh ?W None 0 v else v) (slot (mm_views ?W) i)"
      by (rule bufferUpdated_ok [OF L rebound_slot(1) [OF assms(2), of bs mid b, simplified if_True refl] d], erule pend [OF r], blast)
    show ?thesis
    proof (rule that [of "?W\<lparr>mm_views := vs\<rparr>" mid])
      show "slot (mm_views (?W\<lparr>mm_views := vs\<rparr>)) i = map_option (\<lambda>v. if v_buffer v = Some b then refresh ?W (bufferData ?W b) (bufferByteLength ?W b) v else v) (slot (mm_views w) i)" for i
        unfolding d using vs(3) rebound_slot(3) [OF assms(2)] by simp
    qed (use upd None vs(1,2) r rebound_slot [OF assms(2), of bs mid] in simp_all)
  next
    case (Some s)
    obtain st where st: "slot (mm_stores w) s = Some st" using assms(3) Some by blast
    then obtain items where items: "slot mid s = Some (st\<lparr>bs_observerItems := items\<rparr>)" using mid(2) by (auto simp: relinks_def dest!: spec [of _ s])
    define stores where "stores = mid[s := Some (st\<lparr>bs_observerItems := addObserver b items\<rparr>)]"
    have r: "relinks b bs (mm_stores w) stores" using add_relinks [OF mid(2) items] Some by (simp add: stores_def)
    let ?W = "rebound b bs stores w"
    have c: "changeStore s (\<lambda>st. st\<lparr>bs_observerItems := addObserver b (bs_observerItems st)\<rparr>) (rebound b bs mid w) = Some ?W"
      using items by (simp add: changeStore_def rebound_def stores_def)
    have ss: "slot stores s = Some (st\<lparr>bs_observerItems := addObserver b items\<rparr>)" using items by (auto simp: stores_def slot_list_update)
    have L: "memoryLinks_ok ?W" by (rule rebound_links [OF l assms(2) r]) (use st Some in auto)
    have d: "bufferData ?W b = Some (bs_data st)" "bufferByteLength ?W b = bs_byteLength st" using rebound_memory(2,3) [OF assms(2) r] Some st by simp_all
    obtain vs where vs: "bufferUpdated (Some (bs_data st)) (bs_byteLength st) b ?W = Some (?W\<lparr>mm_views := vs\<rparr>)" "memory_ok (?W\<lparr>mm_views := vs\<rparr>)"
      "\<And>i. slot vs i = map_option (\<lambda>v. if v_buffer v = Some b then refresh ?W (Some (bs_data st)) (bs_byteLength st) v else v) (slot (mm_views ?W) i)"
      by (rule bufferUpdated_ok [OF L rebound_slot(1) [OF assms(2), of bs stores b, simplified if_True refl] d], erule pend [OF r], blast)
    let ?V = "?W\<lparr>mm_views := vs\<rparr>" and ?buf = "buf\<lparr>ab_backingStore := bs, ab_isResizable := bs_isResizable st\<rparr>"
    have b: "slot (mm_buffers ?V) b = Some (buf\<lparr>ab_backingStore := bs\<rparr>)" using rebound_slot(1) [OF assms(2), of bs stores b] by simp
    have f: "changeBuffer b (\<lambda>buf. buf\<lparr>ab_isResizable := bs_isResizable st\<rparr>) ?V = Some (?V\<lparr>mm_buffers := (mm_buffers ?V)[b := Some ?buf]\<rparr>)"
      using b by (simp add: changeBuffer_def)
    show ?thesis
    proof (rule that [of "?V\<lparr>mm_buffers := (mm_buffers ?V)[b := Some ?buf]\<rparr>" stores])
      show "updateBackingStore b bs w = Some (?V\<lparr>mm_buffers := (mm_buffers ?V)[b := Some ?buf]\<rparr>)" unfolding upd using Some c ss vs(1) f rebound_slot(2) [OF assms(2)] by simp
      show "memory_ok (?V\<lparr>mm_buffers := (mm_buffers ?V)[b := Some ?buf]\<rparr>)" using setResizable_ok [OF vs(2) b] by simp
      show "slot (mm_buffers (?V\<lparr>mm_buffers := (mm_buffers ?V)[b := Some ?buf]\<rparr>)) c = (if c = b then Some (buf\<lparr>ab_backingStore := bs, ab_isResizable := (case Option.bind bs (slot (mm_stores w)) of
          None \<Rightarrow> ab_isResizable buf | Some st \<Rightarrow> bs_isResizable st)\<rparr>) else slot (mm_buffers w) c)" for c
        using b Some st rebound_slot(1) [OF assms(2), of bs stores c] by (auto simp: slot_list_update)
      show "slot (mm_views (?V\<lparr>mm_buffers := (mm_buffers ?V)[b := Some ?buf]\<rparr>)) i = map_option (\<lambda>v. if v_buffer v = Some b then refresh ?W (bufferData ?W b) (bufferByteLength ?W b) v else v) (slot (mm_views w) i)" for i
        unfolding d using vs(3) rebound_slot(3) [OF assms(2)] by simp
    qed (use r rebound_slot [OF assms(2), of bs stores] in simp_all)
  qed
qed

section \<open>Memory that changes\<close>

definition holds :: "byte list option list \<Rightarrow> BackingStore \<Rightarrow> bool" where
  "holds blocks st \<longleftrightarrow> (\<exists>bytes. slot blocks (bs_data st) = Some bytes \<and> bs_byteLength st \<le> length bytes \<and> (bs_isResizable st \<longrightarrow> bs_maxByteLength st \<le> length bytes))"

lemma backingStore_ok_holds: "backingStore_ok w s st \<longleftrightarrow> observers_ok (bs_observerItems st) \<and> holds (mm_blocks w) st \<and>
     (\<forall>b. b \<in> observers (bs_observerItems st) \<longleftrightarrow> (\<exists>buf. slot (mm_buffers w) b = Some buf \<and> ab_backingStore buf = Some s)) \<and>
     (\<forall>s' st'. slot (mm_stores w) s' = Some st' \<and> bs_data st' = bs_data st \<longrightarrow> s' = s)"
  by (simp add: backingStore_ok_def holds_def)

lemma memory_ok_blocks:
  assumes "memory_ok w" "\<And>s st. slot (mm_stores w) s = Some st \<Longrightarrow> holds B st"
  shows "memory_ok (w\<lparr>mm_blocks := B\<rparr>)"
proof -
  have "buffer_ok (w\<lparr>mm_blocks := B\<rparr>) = buffer_ok w" by (intro ext) (simp add: buffer_ok_def)
  moreover have "view_ok (w\<lparr>mm_blocks := B\<rparr>) = view_ok w" by (intro view_ok_cong ext) (simp_all add: bufferData_def bufferByteLength_def bufferStore_def)
  moreover have "backingStore_ok (w\<lparr>mm_blocks := B\<rparr>) s st" if "slot (mm_stores w) s = Some st" for s st
    using assms that unfolding memory_ok_def memoryLinks_ok_def backingStore_ok_holds by simp
  ultimately show ?thesis using assms(1) unfolding memory_ok_def memoryLinks_ok_def by simp
qed

text \<open>Writing into a block\<close>

lemma writeData_ok:
  assumes "memory_ok w" "writeData w d i new = Some w'"
  shows "memory_ok w'" "mm_stores w' = mm_stores w" "mm_buffers w' = mm_buffers w" "mm_views w' = mm_views w" "length (mm_blocks w') = length (mm_blocks w)"
    "map_option length (slot (mm_blocks w') e) = map_option length (slot (mm_blocks w) e)"
proof -
  obtain bytes where b: "slot (mm_blocks w) d = Some bytes" "i + length new \<le> length bytes"
    "w' = w\<lparr>mm_blocks := (mm_blocks w)[d := Some (take i bytes @ new @ drop (i + length new) bytes)]\<rparr>"
    using assms(2) by (auto simp: writeData_def split: option.splits if_splits)
  have len: "map_option length (slot (mm_blocks w') e) = map_option length (slot (mm_blocks w) e)" for e using b by (auto simp: slot_list_update)
  have "holds (mm_blocks w') st" if "slot (mm_stores w) s = Some st" for s st
  proof -
    have "holds (mm_blocks w) st" using memoryLinks_okD(1) [OF _ that] assms(1) by (simp add: memory_ok_def backingStore_ok_holds)
    then show ?thesis using len [of "bs_data st"] by (auto simp: holds_def)
  qed
  then have "memory_ok (w\<lparr>mm_blocks := mm_blocks w'\<rparr>)" using memory_ok_blocks [OF assms(1)] by blast
  then show "memory_ok w'" using b(3) by simp
  show "mm_stores w' = mm_stores w" "mm_buffers w' = mm_buffers w" "mm_views w' = mm_views w" "length (mm_blocks w') = length (mm_blocks w)" using b(3) by simp_all
  show "map_option length (slot (mm_blocks w') e) = map_option length (slot (mm_blocks w) e)" by (rule len)
qed

text \<open>A store that changes its memory or its length\<close>

lemma store_change_links:
  assumes "memoryLinks_ok w" "slot (mm_stores w) s = Some st" "bs_observerItems st' = bs_observerItems st"
    and "holds B st'" "\<And>t u. t \<noteq> s \<Longrightarrow> slot (mm_stores w) t = Some u \<Longrightarrow> holds B u \<and> bs_data u \<noteq> bs_data st'"
  shows "memoryLinks_ok (w\<lparr>mm_blocks := B, mm_stores := (mm_stores w)[s := Some st']\<rparr>)"
proof -
  let ?w = "w\<lparr>mm_blocks := B, mm_stores := (mm_stores w)[s := Some st']\<rparr>"
  have sl: "slot (mm_stores ?w) t = (if t = s then Some st' else slot (mm_stores w) t)" for t using assms(2) by (auto simp: slot_list_update)
  have "backingStore_ok ?w t u" if t: "slot (mm_stores ?w) t = Some u" for t u
  proof (cases "t = s")
    case True
    then have u: "u = st'" using t sl by simp
    have "t' = s" if "slot (mm_stores ?w) t' = Some u'" "bs_data u' = bs_data st'" for t' u' using that assms(5) [of t' u'] unfolding sl by (auto split: if_splits)
    then show ?thesis using memoryLinks_okD(1) [OF assms(1,2)] assms(3,4) True unfolding u backingStore_ok_holds by simp
  next
    case False
    then have u: "slot (mm_stores w) t = Some u" using t sl by simp
    note ok = memoryLinks_okD(1) [OF assms(1) u, unfolded backingStore_ok_holds]
    have "t' = t" if "slot (mm_stores ?w) t' = Some u'" "bs_data u' = bs_data u" for t' u'
      using that assms(5) [OF False u] ok unfolding sl by (auto split: if_splits)
    then show ?thesis using ok assms(5) [OF False u] unfolding backingStore_ok_holds by simp
  qed
  moreover have "buffer_ok ?w b buf" if "slot (mm_buffers w) b = Some buf" for b buf
    using memoryLinks_okD(2) [OF assms(1) that] unfolding buffer_ok_def sl by simp
  ultimately show ?thesis using assms(1) unfolding memoryLinks_ok_def by simp
qed

lemma store_change_ok:
  assumes "memory_ok w" "slot (mm_stores w) s = Some st" "bs_observerItems st' = bs_observerItems st"
    and "holds B st'" "\<And>t u. t \<noteq> s \<Longrightarrow> slot (mm_stores w) t = Some u \<Longrightarrow> holds B u \<and> bs_data u \<noteq> bs_data st'"
  obtains vs where "storeUpdated s (w\<lparr>mm_blocks := B, mm_stores := (mm_stores w)[s := Some st']\<rparr>) = Some (w\<lparr>mm_blocks := B, mm_stores := (mm_stores w)[s := Some st'], mm_views := vs\<rparr>)"
    "memory_ok (w\<lparr>mm_blocks := B, mm_stores := (mm_stores w)[s := Some st'], mm_views := vs\<rparr>)"
    "\<And>i. slot vs i = map_option (\<lambda>v. if \<exists>b buf. v_buffer v = Some b \<and> slot (mm_buffers w) b = Some buf \<and> ab_backingStore buf = Some s
        then refresh (w\<lparr>mm_blocks := B, mm_stores := (mm_stores w)[s := Some st']\<rparr>) (Some (bs_data st')) (bs_byteLength st') v else v) (slot (mm_views w) i)"
proof -
  let ?w = "w\<lparr>mm_blocks := B, mm_stores := (mm_stores w)[s := Some st']\<rparr>"
  have l: "memoryLinks_ok ?w" using assms by (intro store_change_links) (simp_all add: memory_ok_def)
  have s: "slot (mm_stores ?w) s = Some st'" using assms(2) by (auto simp: slot_list_update)
  have p: "view_shape v \<and> (view_ok ?w v \<or> (\<exists>b buf. v_buffer v = Some b \<and> slot (mm_buffers ?w) b = Some buf \<and> ab_backingStore buf = Some s))"
    if v: "slot (mm_views ?w) i = Some v" for i v
  proof (cases "\<exists>b buf. v_buffer v = Some b \<and> slot (mm_buffers ?w) b = Some buf \<and> ab_backingStore buf = Some s")
    case True
    then show ?thesis using memory_shape [OF assms(1), of i v] v by simp
  next
    case False
    have "viewMemory ?w v = viewMemory w v"
    proof (cases "v_buffer v")
      case (Some b)
      have "bufferStore ?w b = bufferStore w b"
      proof (cases "slot (mm_buffers w) b")
        case buf: (Some buf)
        then have "ab_backingStore buf \<noteq> Some s" using False Some by auto
        then show ?thesis using buf by (cases "ab_backingStore buf") (auto simp: bufferStore_def slot_list_update)
      qed (simp add: bufferStore_def)
      then show ?thesis using Some by (simp add: viewMemory_def bufferData_def bufferByteLength_def)
    qed (simp add: viewMemory_def)
    from view_ok_memory [OF this] have "view_ok ?w v" using memory_shape [OF assms(1), of i v] v by simp
    then show ?thesis using memory_shape [OF assms(1), of i v] v by simp
  qed
  show ?thesis
  proof (rule storeUpdated_ok [OF l s], erule p)
    fix vs
    assume vs: "storeUpdated s ?w = Some (?w\<lparr>mm_views := vs\<rparr>)" "memory_ok (?w\<lparr>mm_views := vs\<rparr>)"
      "\<And>i. slot vs i = map_option (\<lambda>v. if \<exists>b buf. v_buffer v = Some b \<and> slot (mm_buffers ?w) b = Some buf \<and> ab_backingStore buf = Some s
        then refresh ?w (Some (bs_data st')) (bs_byteLength st') v else v) (slot (mm_views ?w) i)"
    show thesis by (rule that [of vs]) (use vs in simp_all)
  qed
qed

lemma memory_holds: "memory_ok w \<Longrightarrow> slot (mm_stores w) s = Some st \<Longrightarrow> holds (mm_blocks w) st"
  using memoryLinks_okD(1) by (fastforce simp: memory_ok_def backingStore_ok_holds)

lemma memory_data: "memory_ok w \<Longrightarrow> slot (mm_stores w) s = Some st \<Longrightarrow> slot (mm_stores w) t = Some u \<Longrightarrow> t \<noteq> s \<Longrightarrow> bs_data u \<noteq> bs_data st"
  using memoryLinks_okD(1) [of w s st] by (auto simp: memory_ok_def backingStore_ok_holds)

lemma resize_SomeD:
  assumes "resize s n w = Some w'"
  obtains st where "slot (mm_stores w) s = Some st" "bs_isResizable st" "n \<le> bs_maxByteLength st"
  using assms by (auto simp: resize_def split: option.splits if_splits)

lemma resize_ok:
  assumes "memory_ok w" "slot (mm_stores w) s = Some st" "bs_isResizable st" "n \<le> bs_maxByteLength st"
  obtains B vs where "resize s n w = Some (w\<lparr>mm_blocks := B, mm_stores := (mm_stores w)[s := Some (st\<lparr>bs_byteLength := n\<rparr>)], mm_views := vs\<rparr>)"
    "memory_ok (w\<lparr>mm_blocks := B, mm_stores := (mm_stores w)[s := Some (st\<lparr>bs_byteLength := n\<rparr>)], mm_views := vs\<rparr>)"
    "\<And>i. slot vs i = map_option (\<lambda>v. if \<exists>b buf. v_buffer v = Some b \<and> slot (mm_buffers w) b = Some buf \<and> ab_backingStore buf = Some s
        then refresh (w\<lparr>mm_blocks := B, mm_stores := (mm_stores w)[s := Some (st\<lparr>bs_byteLength := n\<rparr>)]\<rparr>) (Some (bs_data st)) n v else v) (slot (mm_views w) i)"
proof -
  obtain bytes where bytes: "slot (mm_blocks w) (bs_data st) = Some bytes" "bs_byteLength st \<le> length bytes" "n \<le> length bytes"
    using memory_holds [OF assms(1,2)] assms(3,4) by (auto simp: holds_def)
  have "\<exists>w1. (if bs_byteLength st < n then writeData w (bs_data st) (bs_byteLength st) (replicate (n - bs_byteLength st) 0) else Some w) = Some w1 \<and> memory_ok w1 \<and>
      w1 = w\<lparr>mm_blocks := mm_blocks w1\<rparr>"
  proof (cases "bs_byteLength st < n")
    case True
    then obtain w1 where w1: "writeData w (bs_data st) (bs_byteLength st) (replicate (n - bs_byteLength st) 0) = Some w1" using bytes by (auto simp: writeData_def)
    then have "w1 = w\<lparr>mm_blocks := mm_blocks w1\<rparr>" by (auto simp: writeData_def split: option.splits if_splits)
    then show ?thesis using True w1 writeData_ok(1) [OF assms(1) w1] by auto
  qed (use assms(1) in auto)
  then obtain w1 where w1: "(if bs_byteLength st < n then writeData w (bs_data st) (bs_byteLength st) (replicate (n - bs_byteLength st) 0) else Some w) = Some w1" "memory_ok w1"
    "w1 = w\<lparr>mm_blocks := mm_blocks w1\<rparr>" by blast
  let ?B = "mm_blocks w1" and ?st = "st\<lparr>bs_byteLength := n\<rparr>"
  have fe: "bs_data ?st = bs_data st" "bs_byteLength ?st = n" by simp_all
  have st: "slot (mm_stores w1) s = Some st" by (subst w1(3)) (simp add: assms(2))
  have h: "holds ?B ?st" using memory_holds [OF w1(2) st] assms(3,4) by (auto simp: holds_def)
  have o: "holds ?B u \<and> bs_data u \<noteq> bs_data ?st" if "t \<noteq> s" "slot (mm_stores w1) t = Some u" for t u
    using memory_holds [OF w1(2) that(2)] memory_data [OF w1(2) st that(2,1)] by simp
  have ww: "w1\<lparr>mm_blocks := ?B, mm_stores := (mm_stores w1)[s := Some ?st]\<rparr> = w\<lparr>mm_blocks := ?B, mm_stores := (mm_stores w)[s := Some ?st]\<rparr>"
    "w1\<lparr>mm_blocks := ?B, mm_stores := (mm_stores w1)[s := Some ?st], mm_views := vs\<rparr> = w\<lparr>mm_blocks := ?B, mm_stores := (mm_stores w)[s := Some ?st], mm_views := vs\<rparr>"
    "mm_buffers w1 = mm_buffers w" "mm_views w1 = mm_views w" for vs by (subst w1(3), simp)+
  show ?thesis
  proof (rule store_change_ok [OF w1(2) st _ h o, unfolded ww])
    fix vs
    assume vs: "storeUpdated s (w\<lparr>mm_blocks := ?B, mm_stores := (mm_stores w)[s := Some ?st]\<rparr>) = Some (w\<lparr>mm_blocks := ?B, mm_stores := (mm_stores w)[s := Some ?st], mm_views := vs\<rparr>)"
      "memory_ok (w\<lparr>mm_blocks := ?B, mm_stores := (mm_stores w)[s := Some ?st], mm_views := vs\<rparr>)"
      "\<And>i. slot vs i = map_option (\<lambda>v. if \<exists>b buf. v_buffer v = Some b \<and> slot (mm_buffers w) b = Some buf \<and> ab_backingStore buf = Some s
        then refresh (w\<lparr>mm_blocks := ?B, mm_stores := (mm_stores w)[s := Some ?st]\<rparr>) (Some (bs_data ?st)) (bs_byteLength ?st) v else v) (slot (mm_views w) i)"
    have c: "changeStore s (\<lambda>st. st\<lparr>bs_byteLength := n\<rparr>) w1 = Some (w1\<lparr>mm_stores := (mm_stores w1)[s := Some ?st]\<rparr>)" using st by (simp add: changeStore_def)
    have "w1\<lparr>mm_stores := (mm_stores w1)[s := Some ?st]\<rparr> = w\<lparr>mm_blocks := ?B, mm_stores := (mm_stores w)[s := Some ?st]\<rparr>" using ww(1) by simp
    then have "resize s n w = Some (w\<lparr>mm_blocks := ?B, mm_stores := (mm_stores w)[s := Some ?st], mm_views := vs\<rparr>)"
      using assms(2-4) w1(1) c vs(1) by (simp add: resize_def)
    then show thesis
    proof (rule that)
      show "slot vs i = map_option (\<lambda>v. if \<exists>b buf. v_buffer v = Some b \<and> slot (mm_buffers w) b = Some buf \<and> ab_backingStore buf = Some s
          then refresh (w\<lparr>mm_blocks := ?B, mm_stores := (mm_stores w)[s := Some ?st]\<rparr>) (Some (bs_data st)) n v else v) (slot (mm_views w) i)" for i
        using vs(3) [of i] unfolding fe .
    qed (rule vs(2))
  qed simp_all
qed

lemma slot_free: "slot (mm_blocks (freeData d w)) e = (if e = d then None else slot (mm_blocks w) e)"
  by (simp add: freeData_def slot_def)

lemma reallocate_ok:
  assumes "memory_ok w" "slot (mm_stores w) s = Some st" "\<not> bs_isResizable st"
  obtains w' where "reallocate s n w = Some w'" "memory_ok w'"
proof (cases "bs_byteLength st = n")
  case True
  then show ?thesis using that assms by (simp add: reallocate_def)
next
  case False
  let ?d = "length (mm_blocks w)"
  obtain bytes where bytes: "slot (mm_blocks w) (bs_data st) = Some bytes" "bs_byteLength st \<le> length bytes" using memory_holds [OF assms(1,2)] by (auto simp: holds_def)
  define new where "new = (if bs_isAllocatedByPlatform st then take n (take (bs_byteLength st) bytes @ replicate n 0) else replicate n (0 :: byte))"
  have new: "length new = n" using bytes(2) by (auto simp: new_def min_def)
  let ?B = "mm_blocks (freeData (bs_data st) w) @ [Some new]"
  let ?st = "st\<lparr>bs_data := ?d, bs_byteLength := n, bs_isAllocatedByPlatform := True\<rparr>"
  have len: "length (mm_blocks (freeData (bs_data st) w)) = ?d" by (simp add: freeData_def)
  have a: "(if bs_isAllocatedByPlatform st then reallocData (bs_data st) (bs_byteLength st) n w else Some (mallocData (replicate n 0) (freeData (bs_data st) w))) = Some (?d, w\<lparr>mm_blocks := ?B\<rparr>)"
    using bytes(1) by (simp add: reallocData_def mallocData_def new_def freeData_def)
  have h: "holds ?B ?st" using assms(3) new len by (simp add: holds_def slot_append)
  have o: "holds ?B u \<and> bs_data u \<noteq> bs_data ?st" if t: "t \<noteq> s" "slot (mm_stores w) t = Some u" for t u
  proof -
    have u: "holds (mm_blocks w) u" "bs_data u \<noteq> bs_data st" using memory_holds [OF assms(1) t(2)] memory_data [OF assms(1,2) t(2,1)] by simp_all
    then have "bs_data u \<noteq> ?d" by (auto simp: holds_def)
    then show ?thesis using u len by (auto simp: holds_def slot_append slot_free)
  qed
  show ?thesis
  proof (rule store_change_ok [OF assms(1,2) _ h o])
    fix vs
    assume vs: "storeUpdated s (w\<lparr>mm_blocks := ?B, mm_stores := (mm_stores w)[s := Some ?st]\<rparr>) = Some (w\<lparr>mm_blocks := ?B, mm_stores := (mm_stores w)[s := Some ?st], mm_views := vs\<rparr>)"
      "memory_ok (w\<lparr>mm_blocks := ?B, mm_stores := (mm_stores w)[s := Some ?st], mm_views := vs\<rparr>)"
    then have "reallocate s n w = Some (w\<lparr>mm_blocks := ?B, mm_stores := (mm_stores w)[s := Some ?st], mm_views := vs\<rparr>)"
      using False assms(2) a by (simp add: reallocate_def changeStore_def)
    then show thesis using vs(2) by (rule that)
  qed simp_all
qed

section \<open>New objects\<close>

lemma createStore_ok:
  assumes "memory_ok w" and mk: "\<And>d. bs_data (mk d) = d \<and> bs_observerItems (mk d) = [] \<and> bs_byteLength (mk d) \<le> length bytes \<and> (bs_isResizable (mk d) \<longrightarrow> bs_maxByteLength (mk d) \<le> length bytes)"
  obtains d where "createStore bytes mk w = (length (mm_stores w), w\<lparr>mm_blocks := mm_blocks w @ [Some bytes], mm_stores := mm_stores w @ [Some (mk d)]\<rparr>)"
    "memory_ok (w\<lparr>mm_blocks := mm_blocks w @ [Some bytes], mm_stores := mm_stores w @ [Some (mk d)]\<rparr>)"
proof -
  let ?d = "length (mm_blocks w)" and ?s = "length (mm_stores w)"
  let ?w = "w\<lparr>mm_blocks := mm_blocks w @ [Some bytes], mm_stores := mm_stores w @ [Some (mk ?d)]\<rparr>"
  have l: "memoryLinks_ok w" using assms(1) by (simp add: memory_ok_def)
  have sl: "slot (mm_stores ?w) t = (if t = ?s then Some (mk ?d) else slot (mm_stores w) t)" for t by (simp add: slot_append)
  have none: "ab_backingStore buf \<noteq> Some ?s" if "slot (mm_buffers w) b = Some buf" for b buf
    using memoryLinks_okD(2) [OF l that] by (auto simp: buffer_ok_def slot_def)
  have old: "holds (mm_blocks ?w) u \<and> bs_data u \<noteq> ?d" if "slot (mm_stores w) t = Some u" for t u
    using memory_holds [OF assms(1) that] by (auto simp: holds_def slot_append)
  have "backingStore_ok ?w t u" if t: "slot (mm_stores ?w) t = Some u" for t u
  proof (cases "t = ?s")
    case True
    then have u: "u = mk ?d" using t sl by simp
    have "holds (mm_blocks ?w) (mk ?d)" using mk [of ?d] by (simp add: holds_def slot_append)
    moreover have "t' = ?s" if "slot (mm_stores ?w) t' = Some u'" "bs_data u' = bs_data (mk ?d)" for t' u' using that old [of t' u'] mk [of ?d] unfolding sl by (auto split: if_splits)
    ultimately show ?thesis using True mk [of ?d] none unfolding u backingStore_ok_holds by auto
  next
    case False
    then have u: "slot (mm_stores w) t = Some u" using t sl by simp
    have "t' = t" if "slot (mm_stores ?w) t' = Some u'" "bs_data u' = bs_data u" for t' u'
      using that old [OF u] mk [of ?d] memoryLinks_okD(1) [OF l u] unfolding sl backingStore_ok_holds by (auto split: if_splits)
    then show ?thesis using memoryLinks_okD(1) [OF l u] old [OF u] unfolding backingStore_ok_holds by simp
  qed
  moreover have "buffer_ok ?w b buf" if "slot (mm_buffers w) b = Some buf" for b buf
    using memoryLinks_okD(2) [OF l that] unfolding buffer_ok_def sl by auto
  ultimately have "memoryLinks_ok ?w" using l unfolding memoryLinks_ok_def by simp
  moreover have "view_ok ?w v" if v: "slot (mm_views w) i = Some v" for i v
  proof -
    have "bufferStore ?w b = bufferStore w b" for b
    proof (cases "slot (mm_buffers w) b")
      case (Some buf)
      then show ?thesis using none [OF Some] unfolding bufferStore_def sl by (cases "ab_backingStore buf") auto
    qed (simp add: bufferStore_def)
    then have "viewMemory ?w v = viewMemory w v" by (cases "v_buffer v") (simp_all add: viewMemory_def bufferData_def bufferByteLength_def)
    from view_ok_memory [OF this] show ?thesis using memory_shape [OF assms(1) v] by simp
  qed
  ultimately have "memory_ok ?w" by (simp add: memory_ok_def)
  then show ?thesis using that [of ?d] by (simp add: createStore_def mallocData_def)
qed

lemma newBuffer_ok:
  assumes "memory_ok w"
  shows "memory_ok (w\<lparr>mm_buffers := mm_buffers w @ [Some newArrayBuffer]\<rparr>)"
proof -
  let ?b = "length (mm_buffers w)"
  let ?w = "w\<lparr>mm_buffers := mm_buffers w @ [Some newArrayBuffer]\<rparr>"
  have l: "memoryLinks_ok w" using assms by (simp add: memory_ok_def)
  have sl: "slot (mm_buffers ?w) c = (if c = ?b then Some newArrayBuffer else slot (mm_buffers w) c)" for c by (simp add: slot_append)
  have none: "slot (mm_buffers w) ?b = None" by (simp add: slot_def)
  have e: "(\<exists>buf. slot (mm_buffers ?w) c = Some buf \<and> ab_backingStore buf = Some s) \<longleftrightarrow> (\<exists>buf. slot (mm_buffers w) c = Some buf \<and> ab_backingStore buf = Some s)" for c s
    unfolding sl using none by (auto simp: newArrayBuffer_def)
  have v: "v_buffer v \<noteq> Some ?b" if "slot (mm_views w) i = Some v" for i v using memoryLinks_okD(3) [OF l that, of ?b] none by auto
  have "backingStore_ok ?w = backingStore_ok w" by (intro ext) (simp add: backingStore_ok_def e [simplified])
  moreover have "buffer_ok ?w c buf" if "slot (mm_buffers ?w) c = Some buf" for c buf
    using that v memoryLinks_okD(2) [OF l, of c buf] unfolding sl by (auto simp: buffer_ok_def newArrayBuffer_def split: if_splits)
  moreover have "slot (mm_buffers ?w) b \<noteq> None" if "slot (mm_views w) i = Some v" "v_buffer v = Some b" for i v b
    using memoryLinks_okD(3) [OF l that] unfolding sl by auto
  ultimately have "memoryLinks_ok ?w" using l unfolding memoryLinks_ok_def by simp
  moreover have "view_ok ?w v'" if v': "slot (mm_views w) i = Some v'" for i v'
  proof -
    have "viewMemory ?w v' = viewMemory w v'" using v [OF v'] unfolding viewMemory_def bufferData_def bufferByteLength_def bufferStore_def sl
      by (cases "v_buffer v'") auto
    from view_ok_memory [OF this] show ?thesis using memory_shape [OF assms v'] by simp
  qed
  ultimately show ?thesis by (simp add: memory_ok_def)
qed

lemma newView_ok:
  assumes "memory_ok w"
  shows "memory_ok (w\<lparr>mm_views := mm_views w @ [Some (newArrayBufferView k)]\<rparr>)"
proof -
  let ?i = "length (mm_views w)"
  have sl: "slot (mm_views w @ [Some (newArrayBufferView k)]) j = (if j = ?i then Some (newArrayBufferView k) else slot (mm_views w) j)" for j by (simp add: slot_append)
  have none: "slot (mm_views w) ?i = None" by (simp add: slot_def)
  have e: "(\<exists>v. slot (mm_views w @ [Some (newArrayBufferView k)]) j = Some v \<and> v_buffer v = Some b) \<longleftrightarrow> (\<exists>v. slot (mm_views w) j = Some v \<and> v_buffer v = Some b)" for j b
    unfolding sl using none by (auto simp: newArrayBufferView_def)
  have "buffer_ok (w\<lparr>mm_views := mm_views w @ [Some (newArrayBufferView k)]\<rparr>) = buffer_ok w" by (intro ext) (simp add: buffer_ok_def e)
  moreover have "backingStore_ok (w\<lparr>mm_views := mm_views w @ [Some (newArrayBufferView k)]\<rparr>) = backingStore_ok w" by (intro ext) (simp add: backingStore_ok_def)
  moreover have "view_ok w (newArrayBufferView k)" by (simp add: view_ok_def view_shape_def newArrayBufferView_def)
  moreover have "slot (mm_views w @ [Some (newArrayBufferView k)]) j = Some v \<Longrightarrow> v = newArrayBufferView k \<or> slot (mm_views w) j = Some v" for j v
    by (auto simp: sl split: if_splits)
  moreover have "v_buffer (newArrayBufferView k) = None" by (simp add: newArrayBufferView_def)
  ultimately show ?thesis using assms unfolding memory_ok_def memoryLinks_ok_def by (simp, metis option.distinct(1))
qed

section \<open>Binding a view to a buffer\<close>

text \<open>The buffers after a view changed from one to another\<close>

definition rewired :: "nat \<Rightarrow> nat option \<Rightarrow> nat option \<Rightarrow> nat \<Rightarrow> nat option list \<Rightarrow> nat option list" where
  "rewired i old bo c items = (if bo = Some c then addObserver i else id) ((if old = Some c then removeObserver i else id) items)"

lemma rewired_ok:
  assumes "observers_ok items" "i \<in> observers items \<longleftrightarrow> old = Some c"
  shows "observers_ok (rewired i old bo c items)" "observers (rewired i old bo c items) = observers items - {i} \<union> (if bo = Some c then {i} else {})"
  using assms by (auto simp: rewired_def removeObserver_ok removeObserver_set intro!: addObserver_ok)

lemma setBuffer_rewires:
  assumes "memoryLinks_ok w" "slot (mm_views w) i = Some v" "\<And>b. bo = Some b \<Longrightarrow> slot (mm_buffers w) b \<noteq> None"
  obtains buffers where "\<And>c. slot buffers c = map_option (\<lambda>buf. buf\<lparr>ab_observerItems := rewired i (v_buffer v) bo c (ab_observerItems buf)\<rparr>) (slot (mm_buffers w) c)"
    "setBuffer i bo byteOffset byteLength arrayLength isAuto w = Some (w\<lparr>mm_buffers := buffers, mm_views := (mm_views w)[i := Some (updateBufferCallback w (Option.bind bo (bufferData w))
       (v\<lparr>v_buffer := bo, v_byteOffset := byteOffset, v_originalByteOffset := byteOffset, v_byteLength := byteLength,
          v_originalByteLength := byteLength, v_arrayLength := arrayLength, v_auto := isAuto\<rparr>))]\<rparr>)"
proof -
  let ?v = "v\<lparr>v_buffer := bo, v_byteOffset := byteOffset, v_originalByteOffset := byteOffset, v_byteLength := byteLength,
          v_originalByteLength := byteLength, v_arrayLength := arrayLength, v_auto := isAuto\<rparr>"
  obtain mid where mid: "(case v_buffer v of None \<Rightarrow> Some w | Some b \<Rightarrow> changeBuffer b (\<lambda>buf. buf\<lparr>ab_observerItems := removeObserver i (ab_observerItems buf)\<rparr>) w) = Some (w\<lparr>mm_buffers := mid\<rparr>)"
    "\<And>c. slot mid c = map_option (\<lambda>buf. buf\<lparr>ab_observerItems := (if v_buffer v = Some c then removeObserver i else id) (ab_observerItems buf)\<rparr>) (slot (mm_buffers w) c)"
  proof (cases "v_buffer v")
    case None
    show ?thesis by (rule that [of "mm_buffers w"]) (use None in \<open>simp_all add: option.map_ident\<close>)
  next
    case (Some b)
    then obtain buf where "slot (mm_buffers w) b = Some buf" using memoryLinks_okD(3) [OF assms(1,2)] by blast
    then show ?thesis using Some
      by (intro that [of "(mm_buffers w)[b := Some (buf\<lparr>ab_observerItems := removeObserver i (ab_observerItems buf)\<rparr>)]"]) (auto simp: changeBuffer_def slot_list_update option.map_ident)
  qed
  have bs: "bufferStore (w\<lparr>mm_buffers := mid\<rparr>) b = bufferStore w b" for b by (cases "slot (mm_buffers w) b") (simp_all add: bufferStore_def mid(2))
  have bd: "bufferData (w\<lparr>mm_buffers := mid\<rparr>) = bufferData w" "bufferByteLength (w\<lparr>mm_buffers := mid\<rparr>) = bufferByteLength w"
    by (rule ext, simp add: bufferData_def bufferByteLength_def bs)+
  have up: "updateBufferCallback (w\<lparr>mm_buffers := mid\<rparr>) a u = updateBufferCallback w a u" for a u unfolding updateBufferCallback_def bd ..
  show ?thesis
  proof (cases bo)
    case None
    show ?thesis
    proof (rule that [of mid])
      show "slot mid c = map_option (\<lambda>buf. buf\<lparr>ab_observerItems := rewired i (v_buffer v) bo c (ab_observerItems buf)\<rparr>) (slot (mm_buffers w) c)" for c
        by (simp add: mid(2) rewired_def None)
    qed (use None assms(2) mid(1) in \<open>simp add: setBuffer_def up bd Let_def\<close>)
  next
    case (Some b)
    then obtain buf where buf: "slot mid b = Some buf" using assms(3) by (auto simp: mid(2))
    show ?thesis
    proof (rule that [of "mid[b := Some (buf\<lparr>ab_observerItems := addObserver i (ab_observerItems buf)\<rparr>)]"])
      show "slot (mid[b := Some (buf\<lparr>ab_observerItems := addObserver i (ab_observerItems buf)\<rparr>)]) c =
          map_option (\<lambda>buf. buf\<lparr>ab_observerItems := rewired i (v_buffer v) bo c (ab_observerItems buf)\<rparr>) (slot (mm_buffers w) c)" for c
        using buf Some slot_Some [OF buf] by (auto simp: slot_list_update mid(2) rewired_def)
    qed (use Some assms(2) mid(1) buf in \<open>simp add: setBuffer_def up bd Let_def changeBuffer_def\<close>)
  qed
qed

lemma rewired_links:
  assumes "memoryLinks_ok w" "slot (mm_views w) i = Some v" "v_buffer v' = bo" "\<And>b. bo = Some b \<Longrightarrow> slot (mm_buffers w) b \<noteq> None"
    and bufs: "\<And>c. slot buffers c = map_option (\<lambda>buf. buf\<lparr>ab_observerItems := rewired i (v_buffer v) bo c (ab_observerItems buf)\<rparr>) (slot (mm_buffers w) c)"
  shows "memoryLinks_ok (w\<lparr>mm_buffers := buffers, mm_views := (mm_views w)[i := Some v']\<rparr>)"
proof -
  let ?w = "w\<lparr>mm_buffers := buffers, mm_views := (mm_views w)[i := Some v']\<rparr>"
  have sl: "slot (mm_views ?w) j = (if j = i then Some v' else slot (mm_views w) j)" for j using assms(2) by (auto simp: slot_list_update)
  have e: "(\<exists>buf. slot buffers b = Some buf \<and> ab_backingStore buf = Some s) \<longleftrightarrow> (\<exists>buf. slot (mm_buffers w) b = Some buf \<and> ab_backingStore buf = Some s)" for b s
    by (cases "slot (mm_buffers w) b") (simp_all add: bufs)
  have "backingStore_ok ?w = backingStore_ok w" by (intro ext) (simp add: backingStore_ok_def e)
  moreover have "buffer_ok ?w c buf'" if c: "slot buffers c = Some buf'" for c buf'
  proof -
    obtain buf where buf: "slot (mm_buffers w) c = Some buf" "buf' = buf\<lparr>ab_observerItems := rewired i (v_buffer v) bo c (ab_observerItems buf)\<rparr>" using c by (auto simp: bufs)
    note ok = memoryLinks_okD(2) [OF assms(1) buf(1), unfolded buffer_ok_def]
    have "i \<in> observers (ab_observerItems buf) \<longleftrightarrow> v_buffer v = Some c" using ok assms(2) by auto
    note rw = rewired_ok [OF _ this, of bo]
    have "j \<in> observers (ab_observerItems buf') \<longleftrightarrow> (\<exists>u. slot (mm_views ?w) j = Some u \<and> v_buffer u = Some c)" for j
    proof (cases "j = i")
      case True
      then show ?thesis using rw(2) ok assms(3) unfolding sl buf(2) by auto
    next
      case False
      then show ?thesis using rw(2) ok unfolding sl buf(2) by auto
    qed
    then show ?thesis using rw(1) ok unfolding buffer_ok_def buf(2) by simp
  qed
  moreover have "slot buffers b \<noteq> None" if "slot (mm_views ?w) j = Some u" "v_buffer u = Some b" for j u b
    using that assms(3,4) memoryLinks_okD(3) [OF assms(1), of j u b] unfolding sl by (auto simp: bufs split: if_splits)
  ultimately show ?thesis using assms(1) unfolding memoryLinks_ok_def by simp
qed

lemma setBuffer_ok:
  assumes "memory_ok w" "slot (mm_views w) i = Some v" "\<And>b. bo = Some b \<Longrightarrow> slot (mm_buffers w) b \<noteq> None"
    and "byteOffset + byteLength \<le> (case bo of None \<Rightarrow> 0 | Some b \<Rightarrow> bufferByteLength w b)" "arrayLength * viewElementSize (v_kind v) \<le> byteLength"
  obtains w' where "setBuffer i bo byteOffset byteLength arrayLength isAuto w = Some w'" "memory_ok w'" "mm_blocks w' = mm_blocks w" "mm_stores w' = mm_stores w"
    "\<And>c. map_option (\<lambda>buf. (ab_isResizable buf, ab_backingStore buf)) (slot (mm_buffers w') c) = map_option (\<lambda>buf. (ab_isResizable buf, ab_backingStore buf)) (slot (mm_buffers w) c)"
    "mm_views w' = (mm_views w)[i := Some (updateBufferCallback w (Option.bind bo (bufferData w))
       (v\<lparr>v_buffer := bo, v_byteOffset := byteOffset, v_originalByteOffset := byteOffset, v_byteLength := byteLength,
          v_originalByteLength := byteLength, v_arrayLength := arrayLength, v_auto := isAuto\<rparr>))]"
proof -
  have l: "memoryLinks_ok w" using assms(1) by (simp add: memory_ok_def)
  let ?v = "updateBufferCallback w (Option.bind bo (bufferData w)) (v\<lparr>v_buffer := bo, v_byteOffset := byteOffset, v_originalByteOffset := byteOffset, v_byteLength := byteLength,
          v_originalByteLength := byteLength, v_arrayLength := arrayLength, v_auto := isAuto\<rparr>)"
  obtain buffers where b: "\<And>c. slot buffers c = map_option (\<lambda>buf. buf\<lparr>ab_observerItems := rewired i (v_buffer v) bo c (ab_observerItems buf)\<rparr>) (slot (mm_buffers w) c)"
    "setBuffer i bo byteOffset byteLength arrayLength isAuto w = Some (w\<lparr>mm_buffers := buffers, mm_views := (mm_views w)[i := Some ?v]\<rparr>)"
    using setBuffer_rewires [OF l assms(2,3)] by blast
  let ?w = "w\<lparr>mm_buffers := buffers, mm_views := (mm_views w)[i := Some ?v]\<rparr>"
  have L: "memoryLinks_ok ?w" by (rule rewired_links [OF l assms(2) _ assms(3) b(1)]) simp
  have "bufferStore ?w c = bufferStore w c" for c by (cases "slot (mm_buffers w) c") (simp_all add: bufferStore_def b(1))
  then have e: "view_ok ?w = view_ok w" by (intro view_ok_cong ext) (simp_all add: bufferData_def bufferByteLength_def)
  have "view_ok w ?v"
  proof (cases bo)
    case None
    then show ?thesis using assms(4,5) by (simp add: view_ok_def view_shape_def viewMemory_def updateBufferCallback_def Let_def)
  next
    case (Some c)
    have "bufferData w c \<noteq> None" if "arrayLength \<noteq> 0"
    proof -
      have "0 < arrayLength * viewElementSize (v_kind v)" using that by simp
      then have "0 < bufferByteLength w c" using assms(4,5) Some by (simp del: nat_0_less_mult_iff)
      then show ?thesis by (auto simp: bufferByteLength_def bufferData_def split: option.splits)
    qed
    then show ?thesis using assms(4,5) Some by (auto simp: view_ok_def view_shape_def viewMemory_def updateBufferCallback_def Let_def split: option.splits)
  qed
  then have "memory_ok ?w" using L assms(1) e assms(2) unfolding memory_ok_def by (auto simp: slot_list_update)
  moreover have "map_option (\<lambda>buf. (ab_isResizable buf, ab_backingStore buf)) (slot (mm_buffers ?w) c) = map_option (\<lambda>buf. (ab_isResizable buf, ab_backingStore buf)) (slot (mm_buffers w) c)" for c
    by (cases "slot (mm_buffers w) c") (simp_all add: b(1))
  ultimately show ?thesis using that [OF b(2)] by simp
qed

section \<open>Garbage collection\<close>

lemma collectViews_ok:
  assumes "memory_ok w"
  shows "memory_ok (collectViews dead w)"
proof -
  let ?w = "collectViews dead w"
  have l: "memoryLinks_ok w" using assms by (simp add: memory_ok_def)
  have v: "slot (mm_views ?w) i = (if i \<in> set dead then None else slot (mm_views w) i)" for i by (simp add: collectViews_def slot_def)
  have b: "slot (mm_buffers ?w) c = map_option (\<lambda>buf. buf\<lparr>ab_observerItems := clearLinks dead (ab_observerItems buf)\<rparr>) (slot (mm_buffers w) c)" for c
    by (simp add: collectViews_def slot_map)
  have o: "mm_stores ?w = mm_stores w" "mm_blocks ?w = mm_blocks w" by (simp_all add: collectViews_def)
  have e: "(\<exists>buf. slot (mm_buffers ?w) c = Some buf \<and> ab_backingStore buf = Some s) \<longleftrightarrow> (\<exists>buf. slot (mm_buffers w) c = Some buf \<and> ab_backingStore buf = Some s)" for c s
    by (cases "slot (mm_buffers w) c") (simp_all add: b)
  have "backingStore_ok ?w = backingStore_ok w" by (intro ext) (simp add: backingStore_ok_def e o)
  moreover have "buffer_ok ?w c buf'" if c: "slot (mm_buffers ?w) c = Some buf'" for c buf'
  proof -
    obtain buf where buf: "slot (mm_buffers w) c = Some buf" "buf' = buf\<lparr>ab_observerItems := clearLinks dead (ab_observerItems buf)\<rparr>" using c by (auto simp: b)
    note ok = memoryLinks_okD(2) [OF l buf(1), unfolded buffer_ok_def]
    have "j \<in> observers (ab_observerItems buf') \<longleftrightarrow> (\<exists>u. slot (mm_views ?w) j = Some u \<and> v_buffer u = Some c)" for j
      using ok unfolding v buf(2) by (auto simp: clearLinks_set)
    then show ?thesis using ok unfolding buffer_ok_def buf(2) o by (simp add: clearLinks_ok)
  qed
  moreover have "slot (mm_buffers ?w) c \<noteq> None" if "slot (mm_views ?w) j = Some u" "v_buffer u = Some c" for j u c
    using that memoryLinks_okD(3) [OF l, of j u c] unfolding v b by (auto split: if_splits)
  ultimately have "memoryLinks_ok ?w" using l unfolding memoryLinks_ok_def o by simp
  moreover have "bufferStore ?w c = bufferStore w c" for c by (cases "slot (mm_buffers w) c") (simp_all add: bufferStore_def b o)
  then have "view_ok ?w = view_ok w" by (intro view_ok_cong ext) (simp_all add: bufferData_def bufferByteLength_def)
  ultimately show ?thesis using assms unfolding memory_ok_def v by simp
qed

lemma collectBuffers_ok:
  assumes "memory_ok w" "\<And>i v b. slot (mm_views w) i = Some v \<Longrightarrow> v_buffer v = Some b \<Longrightarrow> b \<notin> set dead"
  shows "memory_ok (collectBuffers dead w)"
proof -
  let ?w = "collectBuffers dead w"
  have l: "memoryLinks_ok w" using assms(1) by (simp add: memory_ok_def)
  have b: "slot (mm_buffers ?w) c = (if c \<in> set dead then None else slot (mm_buffers w) c)" for c by (simp add: collectBuffers_def slot_def)
  have s: "slot (mm_stores ?w) t = map_option (\<lambda>st. st\<lparr>bs_observerItems := clearLinks dead (bs_observerItems st)\<rparr>) (slot (mm_stores w) t)" for t
    by (simp add: collectBuffers_def slot_map)
  have o: "mm_views ?w = mm_views w" "mm_blocks ?w = mm_blocks w" by (simp_all add: collectBuffers_def)
  have "backingStore_ok ?w t st'" if t: "slot (mm_stores ?w) t = Some st'" for t st'
  proof -
    obtain st where st: "slot (mm_stores w) t = Some st" "st' = st\<lparr>bs_observerItems := clearLinks dead (bs_observerItems st)\<rparr>" using t by (auto simp: s)
    note ok = memoryLinks_okD(1) [OF l st(1), unfolded backingStore_ok_def]
    have "c \<in> observers (bs_observerItems st') \<longleftrightarrow> (\<exists>buf. slot (mm_buffers ?w) c = Some buf \<and> ab_backingStore buf = Some t)" for c
      using ok unfolding b st(2) by (auto simp: clearLinks_set)
    moreover have "t' = t" if "slot (mm_stores ?w) t' = Some u" "bs_data u = bs_data st'" for t' u
      using that ok unfolding s st(2) by auto
    ultimately show ?thesis using ok unfolding backingStore_ok_def st(2) o by (simp add: clearLinks_ok)
  qed
  moreover have "buffer_ok ?w c buf" if c: "slot (mm_buffers ?w) c = Some buf" for c buf
    using c memoryLinks_okD(2) [OF l, of c buf] unfolding buffer_ok_def b o s by (auto split: if_splits)
  moreover have "slot (mm_buffers ?w) c \<noteq> None" if "slot (mm_views w) j = Some u" "v_buffer u = Some c" for j u c
    using memoryLinks_okD(3) [OF l that] assms(2) [OF that] unfolding b by auto
  ultimately have "memoryLinks_ok ?w" unfolding memoryLinks_ok_def o by blast
  moreover have "view_ok ?w u" if u: "slot (mm_views w) j = Some u" for j u
  proof -
    have "bufferData ?w c = bufferData w c \<and> bufferByteLength ?w c = bufferByteLength w c" if "v_buffer u = Some c" for c
    proof (cases "slot (mm_buffers w) c")
      case (Some buf)
      then show ?thesis using assms(2) [OF u that] by (cases "ab_backingStore buf") (auto simp: bufferData_def bufferByteLength_def bufferStore_def b s split: option.splits)
    qed (use assms(2) [OF u that] in \<open>simp add: bufferData_def bufferByteLength_def bufferStore_def b\<close>)
    then have "viewMemory ?w u = viewMemory w u" by (cases "v_buffer u") (simp_all add: viewMemory_def)
    from view_ok_memory [OF this] show ?thesis using memory_shape [OF assms(1) u] by simp
  qed
  ultimately show ?thesis by (simp add: memory_ok_def o)
qed

lemma collectStore_ok:
  assumes "memory_ok w" "\<And>b buf. slot (mm_buffers w) b = Some buf \<Longrightarrow> ab_backingStore buf \<noteq> Some s"
  shows "memory_ok (collectStore s w)"
proof (cases "slot (mm_stores w) s")
  case None
  then show ?thesis using assms(1) by (simp add: collectStore_def)
next
  case (Some st)
  let ?w = "freeData (bs_data st) (w\<lparr>mm_stores := (mm_stores w)[s := None]\<rparr>)"
  have l: "memoryLinks_ok w" using assms(1) by (simp add: memory_ok_def)
  have s: "slot (mm_stores ?w) t = (if t = s then None else slot (mm_stores w) t)" for t by (simp add: freeData_def slot_def)
  have o: "mm_views ?w = mm_views w" "mm_buffers ?w = mm_buffers w" by (simp_all add: freeData_def)
  have "backingStore_ok ?w t u" if t: "slot (mm_stores ?w) t = Some u" for t u
  proof -
    have u: "t \<noteq> s" "slot (mm_stores w) t = Some u" using t unfolding s by (auto split: if_splits)
    note ok = memoryLinks_okD(1) [OF l u(2), unfolded backingStore_ok_holds]
    have "holds (mm_blocks ?w) u" using ok memory_data [OF assms(1) Some u(2,1)] by (auto simp: holds_def slot_free)
    moreover have "t' = t" if "slot (mm_stores ?w) t' = Some u'" "bs_data u' = bs_data u" for t' u' using that ok unfolding s by (auto split: if_splits)
    ultimately show ?thesis using ok unfolding backingStore_ok_holds o by simp
  qed
  moreover have "buffer_ok ?w c buf" if c: "slot (mm_buffers w) c = Some buf" for c buf
    using memoryLinks_okD(2) [OF l c] assms(2) [OF c] unfolding buffer_ok_def o s by auto
  ultimately have "memoryLinks_ok ?w" using l unfolding memoryLinks_ok_def o by blast
  moreover have "bufferStore ?w c = bufferStore w c" for c
  proof (cases "slot (mm_buffers w) c")
    case buf: (Some buf)
    then show ?thesis using assms(2) [OF buf] unfolding bufferStore_def o s by (cases "ab_backingStore buf") auto
  qed (simp add: bufferStore_def o)
  then have "view_ok ?w = view_ok w" by (intro view_ok_cong ext) (simp_all add: bufferData_def bufferByteLength_def)
  ultimately have "memory_ok ?w" using assms(1) unfolding memory_ok_def o by simp
  then show ?thesis using Some by (simp add: collectStore_def)
qed

section \<open>Everything that happens to buffers\<close>

definition liveBuffer :: "Memory \<Rightarrow> nat \<Rightarrow> bool" where
  "liveBuffer w b \<longleftrightarrow> slot (mm_buffers w) b \<noteq> None"

definition liveStore :: "Memory \<Rightarrow> nat \<Rightarrow> bool" where
  "liveStore w s \<longleftrightarrow> slot (mm_stores w) s \<noteq> None"

text \<open>The operations of scripts and of the embedder. A view is bound to bytes that its buffer has; only stores that are not resizable are
  reallocated (\<open>NonSharedBackingStore::reallocate\<close> itself has no such test, and reallocating a resizable store to fewer bytes than its maximum lets a later
  \<open>resize\<close> leave memory); elements are written inside of a view; the collector frees what is not referred to.\<close>

inductive memoryStep :: "Memory \<Rightarrow> Memory \<Rightarrow> bool" where
  new_buffer: "memoryStep w (w\<lparr>mm_buffers := mm_buffers w @ [Some newArrayBuffer]\<rparr>)"
| new_view: "memoryStep w (w\<lparr>mm_views := mm_views w @ [Some (newArrayBufferView k)]\<rparr>)"
| new_store: "memoryStep w (snd (createDefaultNonSharedBackingStore n w))"
| new_resizable: "n \<le> m \<Longrightarrow> memoryStep w (snd (createDefaultResizableNonSharedBackingStore n m w))"
| new_external: "memoryStep w (snd (createNonSharedBackingStore bytes w))"
| allocate: "allocateBuffer b n w = Some w' \<Longrightarrow> memoryStep w w'"
| allocate_resizable: "n \<le> m \<Longrightarrow> allocateResizableBuffer b n m w = Some w' \<Longrightarrow> memoryStep w w'"
| attach: "liveStore w s \<Longrightarrow> attachBuffer b s w = Some w' \<Longrightarrow> memoryStep w w'"
| detach: "detachArrayBuffer b w = Some w' \<Longrightarrow> memoryStep w w'"
| resize: "resize s n w = Some w' \<Longrightarrow> memoryStep w w'"
| reallocate: "slot (mm_stores w) s = Some st \<Longrightarrow> \<not> bs_isResizable st \<Longrightarrow> reallocate s n w = Some w' \<Longrightarrow> memoryStep w w'"
| bind: "slot (mm_views w) i = Some v \<Longrightarrow> liveBuffer w b \<Longrightarrow> byteOffset + byteLength \<le> bufferByteLength w b \<Longrightarrow> arrayLength * viewElementSize (v_kind v) \<le> byteLength \<Longrightarrow>
    setBuffer i (Some b) byteOffset byteLength arrayLength isAuto w = Some w' \<Longrightarrow> memoryStep w w'"
| write_bytes: "writeData w d i bytes = Some w' \<Longrightarrow> memoryStep w w'"
| collect_views: "memoryStep w (collectViews dead w)"
| collect_buffers: "(\<And>i v b. slot (mm_views w) i = Some v \<Longrightarrow> v_buffer v = Some b \<Longrightarrow> b \<notin> set dead) \<Longrightarrow> memoryStep w (collectBuffers dead w)"
| collect_store: "(\<And>b buf. slot (mm_buffers w) b = Some buf \<Longrightarrow> ab_backingStore buf \<noteq> Some s) \<Longrightarrow> memoryStep w (collectStore s w)"

definition emptyMemory :: Memory where
  "emptyMemory = \<lparr>mm_blocks = [], mm_stores = [], mm_buffers = [], mm_views = []\<rparr>"

lemma emptyMemory_ok: "memory_ok emptyMemory"
  by (simp add: memory_ok_def memoryLinks_ok_def emptyMemory_def slot_def)

lemmas create_defs = createDefaultNonSharedBackingStore_def createDefaultResizableNonSharedBackingStore_def createNonSharedBackingStore_def

lemma createStore_snd:
  assumes "memory_ok w" and mk: "\<And>d. bs_data (mk d) = d \<and> bs_observerItems (mk d) = [] \<and> bs_byteLength (mk d) \<le> length bytes \<and> (bs_isResizable (mk d) \<longrightarrow> bs_maxByteLength (mk d) \<le> length bytes)"
  shows "memory_ok (snd (createStore bytes mk w))"
  using createStore_ok [OF assms] by (metis snd_conv)

lemma createBuffer_ok:
  assumes "memory_ok w"
  shows "memory_ok (snd (createDefaultNonSharedBackingStore n w))" "n \<le> m \<Longrightarrow> memory_ok (snd (createDefaultResizableNonSharedBackingStore n m w))"
    "memory_ok (snd (createNonSharedBackingStore bytes w))"
  unfolding create_defs by (rule createStore_snd [OF assms]; simp)+

lemma create_live:
  "liveStore (snd (createStore bytes mk w)) (fst (createStore bytes mk w))" "mm_buffers (snd (createStore bytes mk w)) = mm_buffers w"
  by (simp_all add: createStore_def mallocData_def liveStore_def slot_append)

lemma detach_ok:
  assumes "memory_ok w" "liveBuffer w b"
  obtains w' where "detachArrayBuffer b w = Some w'" "memory_ok w'" "\<And>c. liveBuffer w' c = liveBuffer w c" "\<And>s. liveStore w' s = liveStore w s"
proof -
  obtain buf where "slot (mm_buffers w) b = Some buf" using assms(2) by (auto simp: liveBuffer_def)
  then show ?thesis
  proof (rule updateBackingStore_ok [OF assms(1), where bs = None])
    fix w' stores
    assume u: "updateBackingStore b None w = Some w'" "memory_ok w'" "mm_stores w' = stores" "relinks b None (mm_stores w) stores"
      "\<And>c. slot (mm_buffers w') c = (if c = b then Some (buf\<lparr>ab_backingStore := None, ab_isResizable := (case Option.bind None (slot (mm_stores w)) of
        None \<Rightarrow> ab_isResizable buf | Some st \<Rightarrow> bs_isResizable st)\<rparr>) else slot (mm_buffers w) c)"
    have "liveStore w' s = liveStore w s" for s using relinks_fields(1) [OF u(4), of s] u(3)
      by (cases "slot (mm_stores w) s"; cases "slot stores s") (auto simp: liveStore_def)
    moreover have "liveBuffer w' c = liveBuffer w c" for c using u(5) [of c] assms(2) by (auto simp: liveBuffer_def)
    ultimately show thesis using that u by (simp add: detachArrayBuffer_def)
  qed simp
qed

lemma attach_ok:
  assumes "memory_ok w" "liveBuffer w b" "liveStore w s"
  obtains w' where "updateBackingStore b (Some s) w = Some w'" "memory_ok w'"
proof -
  obtain buf where buf: "slot (mm_buffers w) b = Some buf" using assms(2) by (auto simp: liveBuffer_def)
  obtain w' where "updateBackingStore b (Some s) w = Some w'" "memory_ok w'"
    using assms(3) by (rule_tac updateBackingStore_ok [OF assms(1) buf, where bs = "Some s"]) (auto simp: liveStore_def)
  then show ?thesis by (rule that)
qed

lemma attachBuffer_ok:
  assumes "memory_ok w" "liveBuffer w b" "liveStore w s"
  obtains w' where "attachBuffer b s w = Some w'" "memory_ok w'"
proof (rule detach_ok [OF assms(1,2)])
  fix w1
  assume w1: "detachArrayBuffer b w = Some w1" "memory_ok w1" "\<And>c. liveBuffer w1 c = liveBuffer w c" "\<And>s. liveStore w1 s = liveStore w s"
  show thesis by (rule attach_ok [OF w1(2), of b s]) (use w1 assms that in \<open>simp_all add: attachBuffer_def\<close>)
qed

lemma allocate_ok:
  assumes "memory_ok w" "liveBuffer w b" and mk: "\<And>w. memory_ok w \<Longrightarrow> memory_ok (snd (createStore bytes mk w))"
  obtains w' where "Option.bind (detachArrayBuffer b w) (\<lambda>w1. let (s, w2) = createStore bytes mk w1 in updateBackingStore b (Some s) w2) = Some w'" "memory_ok w'"
proof (rule detach_ok [OF assms(1,2)])
  fix w1
  assume w1: "detachArrayBuffer b w = Some w1" "memory_ok w1" "\<And>c. liveBuffer w1 c = liveBuffer w c"
  obtain s w2 where c: "createStore bytes mk w1 = (s, w2)" by (cases "createStore bytes mk w1")
  have "memory_ok w2" "liveStore w2 s" "liveBuffer w2 b" using mk [OF w1(2)] create_live [of bytes mk w1] w1(3) assms(2) by (simp_all add: c liveBuffer_def)
  from attach_ok [OF this(1,3,2)] show thesis using that w1(1) c by (metis Option.bind.simps(2) case_prod_conv)
qed

lemma allocateBuffer_ok:
  assumes "memory_ok w" "liveBuffer w b"
  obtains w' where "allocateBuffer b n w = Some w'" "memory_ok w'"
  unfolding allocateBuffer_def createDefaultNonSharedBackingStore_def
  by (rule allocate_ok [OF assms]) (use createBuffer_ok(1) [unfolded create_defs] in blast)+

lemma allocateResizableBuffer_ok:
  assumes "memory_ok w" "liveBuffer w b" "n \<le> m"
  obtains w' where "allocateResizableBuffer b n m w = Some w'" "memory_ok w'"
  unfolding allocateResizableBuffer_def createDefaultResizableNonSharedBackingStore_def
  by (rule allocate_ok [OF assms(1,2)]) (use createBuffer_ok(2) [unfolded create_defs] assms(3) in blast)+

lemma live_if_updated: "updateBackingStore b bs w = Some w' \<Longrightarrow> liveBuffer w b"
  by (auto simp: updateBackingStore_def liveBuffer_def split: option.splits)

lemma live_if_done:
  "detachArrayBuffer b w = Some w' \<Longrightarrow> liveBuffer w b" "attachBuffer b s w = Some w' \<Longrightarrow> liveBuffer w b"
  "allocateBuffer b n w = Some w' \<Longrightarrow> liveBuffer w b" "allocateResizableBuffer b n m w = Some w' \<Longrightarrow> liveBuffer w b"
  by (auto simp: detachArrayBuffer_def attachBuffer_def allocateBuffer_def allocateResizableBuffer_def Option.bind_eq_Some_conv intro: live_if_updated)

lemma bind_view_ok:
  assumes "memory_ok w" "slot (mm_views w) i = Some v" "liveBuffer w b" "byteOffset + byteLength \<le> bufferByteLength w b" "arrayLength * viewElementSize (v_kind v) \<le> byteLength"
  obtains w' where "setBuffer i (Some b) byteOffset byteLength arrayLength isAuto w = Some w'" "memory_ok w'"
  by (rule setBuffer_ok [OF assms(1,2), of "Some b" byteOffset byteLength arrayLength isAuto]) (use assms(3-5) in \<open>auto simp: liveBuffer_def\<close>)

lemma step_ok: "memoryStep w w' \<Longrightarrow> memory_ok w \<Longrightarrow> memory_ok w'"
proof (induction rule: memoryStep.induct)
  case (allocate b n w w')
  show ?case by (rule allocateBuffer_ok [OF allocate.prems live_if_done(3) [OF allocate.hyps], of n]) (use allocate.hyps in simp)
next
  case (allocate_resizable n m b w w')
  show ?case by (rule allocateResizableBuffer_ok [OF allocate_resizable.prems live_if_done(4) [OF allocate_resizable.hyps(2)] allocate_resizable.hyps(1)])
      (use allocate_resizable.hyps in simp)
next
  case (attach w s b w')
  show ?case by (rule attachBuffer_ok [OF attach.prems live_if_done(2) [OF attach.hyps(2)] attach.hyps(1)]) (use attach.hyps in simp)
next
  case (detach b w w')
  show ?case by (rule detach_ok [OF detach.prems live_if_done(1) [OF detach.hyps]]) (use detach.hyps in simp)
next
  case (resize s n w w')
  obtain st where st: "slot (mm_stores w) s = Some st" "bs_isResizable st" "n \<le> bs_maxByteLength st" using resize.hyps by (rule resize_SomeD)
  show ?case by (rule resize_ok [OF resize.prems st]) (use resize.hyps in simp)
next
  case (reallocate w s st n w')
  show ?case by (rule reallocate_ok [OF reallocate.prems reallocate.hyps(1,2), of n]) (use reallocate.hyps in simp)
next
  case (bind w i v b byteOffset byteLength arrayLength isAuto w')
  show ?case by (rule bind_view_ok [OF bind.prems bind.hyps(1-4), of isAuto]) (use bind.hyps in simp)
next
  case (collect_buffers w dead)
  then show ?case by (intro collectBuffers_ok)
next
  case (collect_store w s)
  then show ?case by (intro collectStore_ok)
next
  case (write_bytes w d i bytes w')
  then show ?case using writeData_ok(1) by blast
qed (rule newBuffer_ok newView_ok createBuffer_ok collectViews_ok; assumption)+

lemma reachable_ok: "memoryStep\<^sup>*\<^sup>* emptyMemory w \<Longrightarrow> memory_ok w"
  by (induction rule: rtranclp_induct) (auto intro: emptyMemory_ok step_ok)

section \<open>Properties\<close>

lemma view_reads:
  assumes "memory_ok w" "slot (mm_views w) i = Some v" "v_cachedRawBufferAddress v = Some (d, offset)" "k + n \<le> v_byteLength v"
  shows "\<exists>bytes. readData w d (offset + k) n = Some bytes \<and> length bytes = n"
proof -
  have ok: "offset = v_byteOffset v" "v_byteOffset v + v_byteLength v \<le> snd (viewMemory w v)" "fst (viewMemory w v) = Some d"
    using memory_shape [OF assms(1,2)] assms(3) by (auto simp: view_ok_def)
  obtain b where b: "v_buffer v = Some b" "bufferData w b = Some d" using ok(3) by (auto simp: viewMemory_def split: option.splits)
  then obtain buf s st where st: "slot (mm_buffers w) b = Some buf" "ab_backingStore buf = Some s" "slot (mm_stores w) s = Some st" "bs_data st = d"
    by (auto simp: bufferData_Some bufferStore_def Option.bind_eq_Some_conv)
  have "snd (viewMemory w v) = bs_byteLength st" using b(1) st by (simp add: viewMemory_def bufferByteLength_def bufferStore_def)
  moreover obtain bytes where "slot (mm_blocks w) d = Some bytes" "bs_byteLength st \<le> length bytes" using memory_holds [OF assms(1) st(3)] st(4) by (auto simp: holds_def)
  ultimately show ?thesis using ok(1,2) assms(4) by (simp add: readData_def)
qed

lemma element_fits:
  assumes "k < v_arrayLength v" "view_shape v" "v_kind v = TypedArrayView t"
  shows "k * elementSize t + elementSize t \<le> v_byteLength v"
proof -
  have "(k + 1) * elementSize t \<le> v_arrayLength v * elementSize t" using assms(1) by (intro mult_right_mono) auto
  then show ?thesis using assms(2,3) by (simp add: view_shape_def)
qed

text \<open>A buffer of eight bytes and an array of two numbers of 32 bits on it\<close>

definition sampleMemory :: Memory where
  "sampleMemory = \<lparr>mm_blocks = [Some (replicate 8 0)],
     mm_stores = [Some \<lparr>bs_data = 0, bs_byteLength = 8, bs_maxByteLength = 0, bs_isAllocatedByPlatform = True, bs_isResizable = False, bs_observerItems = [Some 0]\<rparr>],
     mm_buffers = [Some \<lparr>ab_isResizable = False, ab_backingStore = Some 0, ab_observerItems = [Some 0]\<rparr>],
     mm_views = [Some \<lparr>v_kind = TypedArrayView TInt32, v_buffer = Some 0, v_cachedRawBufferAddress = Some (0, 0), v_byteLength = 8, v_byteOffset = 0, v_arrayLength = 2,
       v_originalByteLength = 8, v_originalByteOffset = 0, v_auto = False, v_wasResetByInvalidByteLength = False\<rparr>]\<rparr>"

lemma sample_allocates: "allocateBuffer 0 8 (emptyMemory\<lparr>mm_buffers := mm_buffers emptyMemory @ [Some newArrayBuffer]\<rparr>) =
    Some (sampleMemory\<lparr>mm_buffers := [Some \<lparr>ab_isResizable = False, ab_backingStore = Some 0, ab_observerItems = []\<rparr>], mm_views := []\<rparr>)"
  by (simp add: emptyMemory_def sampleMemory_def slot_def newArrayBuffer_def allocateBuffer_def detachArrayBuffer_def updateBackingStore_def changeBuffer_def changeStore_def
    bufferUpdated_def createDefaultNonSharedBackingStore_def createStore_def mallocData_def)

lemma sample_binds:
  fixes w defines "w \<equiv> sampleMemory\<lparr>mm_buffers := [Some \<lparr>ab_isResizable = False, ab_backingStore = Some 0, ab_observerItems = []\<rparr>],
    mm_views := [Some (newArrayBufferView (TypedArrayView TInt32))]\<rparr>"
  shows "slot (mm_views w) 0 = Some (newArrayBufferView (TypedArrayView TInt32))" "liveBuffer w 0" "bufferByteLength w 0 = 8" "setBuffer 0 (Some 0) 0 8 2 False w = Some sampleMemory"
proof -
  show "slot (mm_views w) 0 = Some (newArrayBufferView (TypedArrayView TInt32))" "liveBuffer w 0" by (simp_all add: w_def slot_def liveBuffer_def)
  have st: "bufferStore w 0 = slot (mm_stores sampleMemory) 0" by (simp add: w_def bufferStore_def slot_def)
  then show "bufferByteLength w 0 = 8" by (simp add: bufferByteLength_def slot_def sampleMemory_def)
  have "bufferData w 0 = Some 0" using st by (simp add: bufferData_def slot_def sampleMemory_def)
  then show "setBuffer 0 (Some 0) 0 8 2 False w = Some sampleMemory"
    by (simp add: setBuffer_def updateBufferCallback_def changeBuffer_def newArrayBufferView_def w_def slot_def sampleMemory_def)
qed

lemma sampleMemory_reachable: "memoryStep\<^sup>*\<^sup>* emptyMemory sampleMemory"
proof -
  let ?w1 = "emptyMemory\<lparr>mm_buffers := mm_buffers emptyMemory @ [Some newArrayBuffer]\<rparr>"
  let ?w2 = "sampleMemory\<lparr>mm_buffers := [Some \<lparr>ab_isResizable = False, ab_backingStore = Some 0, ab_observerItems = []\<rparr>], mm_views := []\<rparr>"
  let ?w3 = "sampleMemory\<lparr>mm_buffers := [Some \<lparr>ab_isResizable = False, ab_backingStore = Some 0, ab_observerItems = []\<rparr>], mm_views := [Some (newArrayBufferView (TypedArrayView TInt32))]\<rparr>"
  have "memoryStep emptyMemory ?w1" by (rule new_buffer)
  moreover have "memoryStep ?w1 ?w2" by (rule allocate [OF sample_allocates])
  moreover have "memoryStep ?w2 ?w3" using new_view [of ?w2 "TypedArrayView TInt32"] by simp
  moreover have "memoryStep ?w3 sampleMemory" by (rule bind [OF sample_binds(1,2) _ _ sample_binds(4)]) (simp_all only: sample_binds(3), simp_all add: newArrayBufferView_def)
  ultimately show ?thesis by (meson rtranclp.rtrancl_refl rtranclp.rtrancl_into_rtrancl)
qed

text \<open>C18: Whatever sequence of creations, resizings, detachments, attachments, collections and reallocations of stores that are not resizable happened, every element of every typed array is at the raw
  address that the array keeps: that address points into memory that was not freed, and the bytes of the element are inside of it.\<close>

theorem views_in_bounds:
  assumes "memoryStep\<^sup>*\<^sup>* emptyMemory w" "slot (mm_views w) i = Some v" "v_kind v = TypedArrayView t" "k < v_arrayLength v"
  shows "\<exists>d offset bytes. v_cachedRawBufferAddress v = Some (d, offset) \<and> readData w d (offset + k * elementSize t) (elementSize t) = Some bytes"
proof -
  have ok: "memory_ok w" using assms(1) by (rule reachable_ok)
  note v = memory_shape [OF ok assms(2)]
  obtain d offset where c: "v_cachedRawBufferAddress v = Some (d, offset)" using v assms(3,4) by (cases "v_cachedRawBufferAddress v") (auto simp: view_ok_def)
  from view_reads [OF ok assms(2) this element_fits [OF assms(4) _ assms(3)]] v c show ?thesis by auto
qed

text \<open>The second number of the sample array\<close>

theorem views_in_bounds_witness:
  "\<exists>bytes. readData sampleMemory 0 (0 + 1 * elementSize TInt32) (elementSize TInt32) = Some bytes"
  using views_in_bounds [OF sampleMemory_reachable, of 0 "the (slot (mm_views sampleMemory) 0)" TInt32 1] by (simp add: sampleMemory_def slot_def)

text \<open>In every state that such a sequence leads to, no operation on a live array buffer or store follows a link to a collected object or writes outside of a block: all of them
  end.\<close>

theorem buffer_operations_end:
  assumes "memoryStep\<^sup>*\<^sup>* emptyMemory w" "liveBuffer w b" "slot (mm_stores w) s = Some st" "n \<le> m"
  shows "(\<exists>w'. detachArrayBuffer b w = Some w') \<and> (\<exists>w'. attachBuffer b s w = Some w') \<and> (\<exists>w'. allocateBuffer b n w = Some w') \<and>
    (\<exists>w'. allocateResizableBuffer b n m w = Some w') \<and> (bs_isResizable st \<and> k \<le> bs_maxByteLength st \<longrightarrow> (\<exists>w'. resize s k w = Some w')) \<and>
    (\<not> bs_isResizable st \<longrightarrow> (\<exists>w'. reallocate s k w = Some w'))"
proof (intro conjI impI)
  have ok: "memory_ok w" using assms(1) by (rule reachable_ok)
  show "\<exists>w'. detachArrayBuffer b w = Some w'" using detach_ok [OF ok assms(2)] by metis
  show "\<exists>w'. attachBuffer b s w = Some w'" using attachBuffer_ok [OF ok assms(2), of s] assms(3) by (metis liveStore_def option.distinct(1))
  show "\<exists>w'. allocateBuffer b n w = Some w'" using allocateBuffer_ok [OF ok assms(2)] by metis
  show "\<exists>w'. allocateResizableBuffer b n m w = Some w'" using allocateResizableBuffer_ok [OF ok assms(2,4)] by metis
  show "\<exists>w'. resize s k w = Some w'" if "bs_isResizable st \<and> k \<le> bs_maxByteLength st" using resize_ok [OF ok assms(3) conjunct1 [OF that] conjunct2 [OF that]] by metis
  show "\<exists>w'. reallocate s k w = Some w'" if "\<not> bs_isResizable st" using reallocate_ok [OF ok assms(3) that] by metis
qed

text \<open>The buffer and the store of the sample memory\<close>

theorem buffer_operations_end_witness:
  "(\<exists>w'. detachArrayBuffer 0 sampleMemory = Some w') \<and> (\<exists>w'. reallocate 0 16 sampleMemory = Some w')"
  using buffer_operations_end [OF sampleMemory_reachable, of 0 0 "the (slot (mm_stores sampleMemory) 0)" 4 8 16] by (simp add: sampleMemory_def slot_def liveBuffer_def)

end
