(* ===== verification/TypedArrays.thy ===== *)
theory TypedArrays
  imports BufferSafety Float16 ProxyObject
begin

text \<open>
  The elements of typed arrays and data views: \<open>src/runtime/TypedArrayInlines.h\<close>, \<open>TypedArrayObject.cpp\<close>, \<open>DataViewObject.h\<close>, the accesses of
  \<open>ArrayBufferObject.cpp\<close>, and conversions of numbers of \<open>ValueInlines.h\<close>. Numbers in memory are little endian. The conversions of
  values that are not numbers may run scripts, which may do every step of the theory \<open>BufferSafety\<close>: they are a parameter, as are the big integers, which are those of a
  library. A computation that is \<open>None\<close> accessed memory outside of a block.
\<close>

unbundle bit_operations_syntax

section \<open>Parameters\<close>

record ElementHost =
  h_toNumber :: "Value \<Rightarrow> (Memory, u64) js"
  h_toBigInt :: "Value \<Rightarrow> (Memory, int) js"
  h_toNumeric :: "Value \<Rightarrow> (Memory, Value) js"
  h_bigModulo :: "int \<Rightarrow> u64"
  h_newBigInt :: "int \<Rightarrow> addr"
  h_isObject :: "addr \<Rightarrow> bool"
  h_castOutOfRange :: "u64 \<Rightarrow> int"

section \<open>Numbers\<close>

definition throwRangeError :: "('s, 'a) js" where
  "throwRangeError s = Some (Inl RangeError, s)"

definition isFinite :: "u64 \<Rightarrow> bool" where
  "isFinite d \<longleftrightarrow> biasedExponent d \<noteq> 2047"

text \<open>A cast of a double to a type of integers. The result is not defined if the number does not fit.\<close>

definition castDouble :: "(u64 \<Rightarrow> int) \<Rightarrow> int \<Rightarrow> int \<Rightarrow> u64 \<Rightarrow> int" where
  "castDouble outOfRange lo hi d = (if isFinite d \<and> lo \<le> truncDouble d \<and> truncDouble d \<le> hi then truncDouble d else outOfRange d)"

definition truncateDoubleToInt32Unchecked :: "(u64 \<Rightarrow> int) \<Rightarrow> u64 \<Rightarrow> int" where
  "truncateDoubleToInt32Unchecked outOfRange d = castDouble (\<lambda>d. sint (word_of_int (outOfRange d) :: 32 word)) (- (2 ^ 31)) (2 ^ 31 - 1) d"

definition isInt32ConvertibleDouble :: "(u64 \<Rightarrow> int) \<Rightarrow> u64 \<Rightarrow> bool" where
  "isInt32ConvertibleDouble outOfRange d =
     (let asInt32 = truncateDoubleToInt32Unchecked outOfRange d
      in \<not> (\<not> doubleEq (int32ToDouble asInt32) d \<or> asInt32 = 0 \<and> bit d 63))"

definition quietNaNBits :: u64 where
  "quietNaNBits = 0x7FF8000000000000"

text \<open>The constructor \<open>Value(DoubleToIntConvertibleTestNeeds, d)\<close>\<close>

definition numberValue :: "(u64 \<Rightarrow> int) \<Rightarrow> u64 \<Rightarrow> Value" where
  "numberValue outOfRange d =
     (if isInt32ConvertibleDouble outOfRange d then Int32 (truncateDoubleToInt32Unchecked outOfRange d)
      else if d AND 0xfffe000000000000 = 0xfffe000000000000 then Double quietNaNBits
      else Double d)"

definition unsignedValue :: "int \<Rightarrow> Value" where
  "unsignedValue i = (if sint (word_of_int i :: 32 word) < 0 then Double (int32ToDouble i) else Int32 (sint (word_of_int i :: 32 word)))"

fun toNumber :: "ElementHost \<Rightarrow> Value \<Rightarrow> (Memory, u64) js" where
  "toNumber H (Int32 i) = retJ (int32ToDouble i)"
| "toNumber H (Double d) = retJ d"
| "toNumber H Undefined = retJ quietNaNBits"
| "toNumber H Null = retJ 0"
| "toNumber H (Boolean b) = retJ (if b then 0x3FF0000000000000 else 0)"
| "toNumber H v = h_toNumber H v"

fun toBigInt :: "ElementHost \<Rightarrow> Value \<Rightarrow> (Memory, int) js" where
  "toBigInt H (BigIntValue p n) = retJ n"
| "toBigInt H v = h_toBigInt H v"

fun toNumeric :: "ElementHost \<Rightarrow> Value \<Rightarrow> (Memory, Value) js" where
  "toNumeric H (Int32 i) = retJ (Int32 i)"
| "toNumeric H (Double d) = retJ (Double d)"
| "toNumeric H Undefined = retJ (Double quietNaNBits)"
| "toNumeric H Null = retJ (Int32 0)"
| "toNumeric H (Boolean b) = retJ (Int32 (if b then 1 else 0))"
| "toNumeric H v = h_toNumeric H v"

text \<open>\<open>Value::toIndex\<close>; \<open>None\<close> is \<open>InvalidIndexValue\<close>.\<close>

definition numberToIndex :: "u64 \<Rightarrow> nat option" where
  "numberToIndex d = (if isnan d then Some 0 else if \<not> isFinite d \<or> truncDouble d < 0 \<or> truncDouble d > 2 ^ 53 - 1 then None else Some (nat (truncDouble d)))"

definition toIndex :: "ElementHost \<Rightarrow> Value \<Rightarrow> (Memory, nat option) js" where
  "toIndex H v =
     (case v of
        Int32 i \<Rightarrow> if i \<ge> 0 then retJ (Some (nat i)) else bindJ (toNumber H v) (\<lambda>d. retJ (numberToIndex d))
      | Undefined \<Rightarrow> retJ (Some 0)
      | _ \<Rightarrow> bindJ (toNumber H v) (\<lambda>d. retJ (numberToIndex d)))"

section \<open>Bytes\<close>

fun bytesOf :: "nat \<Rightarrow> int \<Rightarrow> byte list" where
  "bytesOf 0 c = []"
| "bytesOf (Suc n) c = word_of_int c # bytesOf n (c div 256)"

fun codeOf :: "byte list \<Rightarrow> int" where
  "codeOf [] = 0"
| "codeOf (b # bs) = uint b + 256 * codeOf bs"

section \<open>Conversions of elements\<close>

fun isSigned :: "TypedArrayType \<Rightarrow> bool" where
  "isSigned TInt8 = True" | "isSigned TInt16 = True" | "isSigned TInt32 = True" | "isSigned t = False"

definition typeMin :: "TypedArrayType \<Rightarrow> int" where
  "typeMin t = (if isSigned t then - (2 ^ (8 * elementSize t - 1)) else 0)"

definition typeMax :: "TypedArrayType \<Rightarrow> int" where
  "typeMax t = (if isSigned t then 2 ^ (8 * elementSize t - 1) - 1 else 2 ^ (8 * elementSize t) - 1)"

definition toNativeFromDouble :: "(u64 \<Rightarrow> int) \<Rightarrow> u64 \<Rightarrow> int" where
  "toNativeFromDouble outOfRange value =
     (let result = truncateDoubleToInt32Unchecked outOfRange value
      in if \<not> doubleEq (int32ToDouble result) value then toInt32SlowCase value else result)"

definition integralToNative :: "ElementHost \<Rightarrow> TypedArrayType \<Rightarrow> Value \<Rightarrow> (Memory, int) js" where
  "integralToNative H t val =
     (case val of
        Int32 i \<Rightarrow> retJ i
      | Double d \<Rightarrow> retJ (toNativeFromDouble (h_castOutOfRange H) d)
      | _ \<Rightarrow> bindJ (toNumber H val) (\<lambda>d. retJ (if isnan d then 0 else castDouble (h_castOutOfRange H) (typeMin t) (typeMax t) d)))"

definition float32ToNative :: "ElementHost \<Rightarrow> Value \<Rightarrow> (Memory, int) js" where
  "float32ToNative H val =
     (case val of
        Int32 i \<Rightarrow> retJ (withSign 23 8 i (roundTo 23 8 \<bar>i\<bar> 0))
      | Double d \<Rightarrow> retJ (floatCast 52 11 23 8 (uint d))
      | _ \<Rightarrow> bindJ (toNumber H val) (\<lambda>d. retJ (floatCast 52 11 23 8 (uint d))))"

definition float64ToNative :: "ElementHost \<Rightarrow> Value \<Rightarrow> (Memory, int) js" where
  "float64ToNative H val = bindJ (toNumber H val) (\<lambda>d. retJ (uint d))"

definition float16ToNative :: "ElementHost \<Rightarrow> Value \<Rightarrow> (Memory, int) js" where
  "float16ToNative H val = bindJ (toNumber H val) (\<lambda>d. retJ (uint (convertFloat64ToFloat16 d)))"

definition bigIntegralToNative :: "ElementHost \<Rightarrow> Value \<Rightarrow> (Memory, int) js" where
  "bigIntegralToNative H val = bindJ (toBigInt H val) (\<lambda>n. retJ (uint (h_bigModulo H n)))"

text \<open>\<open>lrint\<close> of a double between 0 and 255; 0x406FE00000000000 is 255.\<close>

definition clampedFromDouble :: "u64 \<Rightarrow> int" where
  "clampedFromDouble value =
     (if isnan value then 0
      else if bit value 63 then 0
      else if value > 0x406FE00000000000 then 255
      else roundShift (significand value) (nat (- scale value)))"

definition clampedToNative :: "ElementHost \<Rightarrow> Value \<Rightarrow> (Memory, int) js" where
  "clampedToNative H val =
     (case val of
        Int32 i \<Rightarrow> retJ (if i < 0 then 0 else if i > 255 then 255 else i)
      | Double d \<Rightarrow> retJ (clampedFromDouble d)
      | _ \<Rightarrow> bindJ (toNumber H val) (\<lambda>d. retJ (clampedFromDouble d)))"

fun toNative :: "ElementHost \<Rightarrow> TypedArrayType \<Rightarrow> Value \<Rightarrow> (Memory, int) js" where
  "toNative H TUint8Clamped val = clampedToNative H val"
| "toNative H TFloat16 val = float16ToNative H val"
| "toNative H TFloat32 val = float32ToNative H val"
| "toNative H TFloat64 val = float64ToNative H val"
| "toNative H TBigInt64 val = bigIntegralToNative H val"
| "toNative H TBigUint64 val = bigIntegralToNative H val"
| "toNative H t val = integralToNative H t val"

definition numberToRawBytes :: "ElementHost \<Rightarrow> TypedArrayType \<Rightarrow> Value \<Rightarrow> (Memory, byte list) js" where
  "numberToRawBytes H t val = bindJ (toNative H t val) (\<lambda>c. retJ (bytesOf (elementSize t) c))"

fun rawBytesToNumber :: "ElementHost \<Rightarrow> TypedArrayType \<Rightarrow> byte list \<Rightarrow> Value" where
  "rawBytesToNumber H TInt8 bytes = Int32 (sint (word_of_int (codeOf bytes) :: 8 word))"
| "rawBytesToNumber H TUint8 bytes = Int32 (codeOf bytes)"
| "rawBytesToNumber H TUint8Clamped bytes = Int32 (codeOf bytes)"
| "rawBytesToNumber H TInt16 bytes = Int32 (sint (word_of_int (codeOf bytes) :: 16 word))"
| "rawBytesToNumber H TUint16 bytes = Int32 (codeOf bytes)"
| "rawBytesToNumber H TInt32 bytes = Int32 (sint (word_of_int (codeOf bytes) :: 32 word))"
| "rawBytesToNumber H TUint32 bytes = unsignedValue (codeOf bytes)"
| "rawBytesToNumber H TFloat16 bytes = numberValue (h_castOutOfRange H) (convertFloat16ToFloat64 (word_of_int (codeOf bytes)))"
| "rawBytesToNumber H TFloat32 bytes = numberValue (h_castOutOfRange H) (word_of_int (floatCast 23 8 52 11 (codeOf bytes)))"
| "rawBytesToNumber H TFloat64 bytes = numberValue (h_castOutOfRange H) (word_of_int (codeOf bytes))"
| "rawBytesToNumber H TBigInt64 bytes = (let n = sint (word_of_int (codeOf bytes) :: u64) in BigIntValue (h_newBigInt H n) n)"
| "rawBytesToNumber H TBigUint64 bytes = (let n = codeOf bytes in BigIntValue (h_newBigInt H n) n)"

section \<open>Access to buffers\<close>

definition getValueFromBuffer :: "ElementHost \<Rightarrow> nat \<Rightarrow> nat \<Rightarrow> TypedArrayType \<Rightarrow> bool \<Rightarrow> (Memory, Value) js" where
  "getValueFromBuffer H b byteindex t isLittleEndian w =
     (if isDetachedBuffer w b then throwTypeError w
      else if byteindex + elementSize t > bufferByteLength w b then throwRangeError w
      else case Option.bind (bufferData w b) (\<lambda>d. readData w d byteindex (elementSize t)) of
             None \<Rightarrow> None
           | Some bytes \<Rightarrow> retJ (rawBytesToNumber H t (if isLittleEndian then bytes else rev bytes)) w)"

definition setValueInBuffer :: "ElementHost \<Rightarrow> nat \<Rightarrow> nat \<Rightarrow> TypedArrayType \<Rightarrow> Value \<Rightarrow> bool \<Rightarrow> (Memory, unit) js" where
  "setValueInBuffer H b byteindex t val isLittleEndian w =
     (if isDetachedBuffer w b then throwTypeError w
      else if byteindex + elementSize t > bufferByteLength w b then throwRangeError w
      else case bufferData w b of
             None \<Rightarrow> None
           | Some d \<Rightarrow> bindJ (numberToRawBytes H t val)
               (\<lambda>bytes w1. case writeData w1 d byteindex (if isLittleEndian then bytes else rev bytes) of None \<Rightarrow> None | Some w2 \<Rightarrow> retJ () w2) w)"

section \<open>Data views\<close>

definition withView :: "nat \<Rightarrow> (ArrayBufferView \<Rightarrow> nat \<Rightarrow> (Memory, 'a) js) \<Rightarrow> (Memory, 'a) js" where
  "withView i f w = (case slot (mm_views w) i of None \<Rightarrow> None | Some v \<Rightarrow> (case v_buffer v of None \<Rightarrow> None | Some b \<Rightarrow> f v b w))"

definition getViewValue :: "ElementHost \<Rightarrow> nat \<Rightarrow> Value \<Rightarrow> bool \<Rightarrow> TypedArrayType \<Rightarrow> (Memory, Value) js" where
  "getViewValue H i index isLittleEndian t =
     bindJ (toIndex H index) (\<lambda>numberIndex.
       case numberIndex of
         None \<Rightarrow> throwRangeError
       | Some n \<Rightarrow> withView i (\<lambda>v b.
           if v_cachedRawBufferAddress v = None then throwTypeError
           else if n + elementSize t > v_byteLength v then throwRangeError
           else getValueFromBuffer H b (n + v_byteOffset v) t isLittleEndian))"

definition setViewValue :: "ElementHost \<Rightarrow> nat \<Rightarrow> Value \<Rightarrow> bool \<Rightarrow> TypedArrayType \<Rightarrow> Value \<Rightarrow> (Memory, unit) js" where
  "setViewValue H i index isLittleEndian t val =
     bindJ (toIndex H index) (\<lambda>numberIndex.
       case numberIndex of
         None \<Rightarrow> throwRangeError
       | Some n \<Rightarrow> bindJ (toNumeric H val) (\<lambda>numericValue.
           withView i (\<lambda>v b.
             if v_cachedRawBufferAddress v = None then throwTypeError
             else if n + elementSize t > v_byteLength v then throwRangeError
             else setValueInBuffer H b (n + v_byteOffset v) t numericValue isLittleEndian)))"

section \<open>Elements of typed arrays\<close>

definition withTypedArray :: "nat \<Rightarrow> (TypedArrayType \<Rightarrow> ArrayBufferView \<Rightarrow> nat \<Rightarrow> (Memory, 'a) js) \<Rightarrow> (Memory, 'a) js" where
  "withTypedArray i f = withView i (\<lambda>v b. case v_kind v of TypedArrayView t \<Rightarrow> f t v b | DataView \<Rightarrow> (\<lambda>w. None))"

text \<open>\<open>Value::isInteger\<close> of a number\<close>

definition isIntegerNumber :: "u64 \<Rightarrow> bool" where
  "isIntegerNumber d \<longleftrightarrow> isFinite d \<and> (0 \<le> scale d \<or> significand d mod 2 ^ nat (- scale d) = 0)"

text \<open>The tests of an index: an integer, not \<open>-0\<close> (which \<open>MinusZeroIndex\<close> stands for), not negative and below the length\<close>

definition validElementIndex :: "u64 \<Rightarrow> nat \<Rightarrow> bool" where
  "validElementIndex index arrayLength \<longleftrightarrow>
     \<not> (\<not> isIntegerNumber index \<or> index = 0x0010000000000000 \<or> (bit index 63 \<and> \<not> iszero index) \<or> truncDouble index \<ge> int arrayLength)"

definition integerIndexedElementGet :: "ElementHost \<Rightarrow> nat \<Rightarrow> u64 \<Rightarrow> (Memory, Value option) js" where
  "integerIndexedElementGet H i index =
     withTypedArray i (\<lambda>t v b w.
       if isDetachedBuffer w b \<or> \<not> validElementIndex index (v_arrayLength v) then retJ None w
       else bindJ (getValueFromBuffer H b (nat (truncDouble index) * elementSize t + v_byteOffset v) t True) (\<lambda>x. retJ (Some x)) w)"

fun isBigIntArray :: "TypedArrayType \<Rightarrow> bool" where
  "isBigIntArray TBigInt64 = True" | "isBigIntArray TBigUint64 = True" | "isBigIntArray t = False"

definition integerIndexedElementSet :: "ElementHost \<Rightarrow> nat \<Rightarrow> u64 \<Rightarrow> Value \<Rightarrow> (Memory, bool) js" where
  "integerIndexedElementSet H i index value =
     withTypedArray i (\<lambda>t v b.
       bindJ (if isBigIntArray t then bindJ (toBigInt H value) (\<lambda>n. retJ (BigIntValue (h_newBigInt H n) n))
              else bindJ (toNumber H value) (\<lambda>d. retJ (numberValue (h_castOutOfRange H) d)))
         (\<lambda>numValue. withTypedArray i (\<lambda>t v b w.
            if isDetachedBuffer w b then retJ True w
            else if \<not> validElementIndex index (v_arrayLength v) then retJ False w
            else bindJ (setValueInBuffer H b (nat (truncDouble index) * elementSize t + v_byteOffset v) t numValue True) (\<lambda>_. retJ True) w)))"

text \<open>Direct access through the address that the view keeps\<close>

definition getDirectValueFromBuffer :: "ElementHost \<Rightarrow> TypedArrayType \<Rightarrow> ArrayBufferView \<Rightarrow> nat \<Rightarrow> (Memory, Value) js" where
  "getDirectValueFromBuffer H t v byteindex w =
     (case v_cachedRawBufferAddress v of
        None \<Rightarrow> retJ Undefined w
      | Some (d, offset) \<Rightarrow> (case readData w d (offset + byteindex) (elementSize t) of None \<Rightarrow> None | Some bytes \<Rightarrow> retJ (rawBytesToNumber H t bytes) w))"

definition setDirectValueInBuffer :: "ElementHost \<Rightarrow> nat \<Rightarrow> nat \<Rightarrow> Value \<Rightarrow> (Memory, unit) js" where
  "setDirectValueInBuffer H i byteindex val =
     withTypedArray i (\<lambda>t v b. bindJ (toNative H t val) (\<lambda>c. withTypedArray i (\<lambda>t v b w.
       case v_cachedRawBufferAddress v of
         None \<Rightarrow> None
       | Some (d, offset) \<Rightarrow> (case writeData w d (offset + byteindex) (bytesOf (elementSize t) c) of None \<Rightarrow> None | Some w' \<Rightarrow> retJ () w'))))"

fun isPrimitive :: "ElementHost \<Rightarrow> Value \<Rightarrow> bool" where
  "isPrimitive H (PointerValue p) = (\<not> h_isObject H p)"
| "isPrimitive H v = True"

text \<open>Reading and writing at an array index; the product with the size is one of 32 bits. Without the fast path the key is a string of digits, and the element is that of \<open>integerIndexedElementGet\<close>.\<close>

definition getIndexedPropertyValue :: "ElementHost \<Rightarrow> nat \<Rightarrow> nat \<Rightarrow> (Memory, Value) js" where
  "getIndexedPropertyValue H i property =
     withTypedArray i (\<lambda>t v b w.
       if property < v_arrayLength v
       then if isDetachedBuffer w b then retJ Undefined w else getDirectValueFromBuffer H t v (property * elementSize t mod 2 ^ 32) w
       else bindJ (integerIndexedElementGet H i (int32ToDouble (int property))) (\<lambda>x. retJ (case x of None \<Rightarrow> Undefined | Some y \<Rightarrow> y)) w)"

text \<open>The receiver is the array itself, as in an assignment to an element; the general way is then \<open>TypedArrayObject::set\<close> on the array.\<close>

definition setIndexedProperty :: "ElementHost \<Rightarrow> nat \<Rightarrow> nat \<Rightarrow> Value \<Rightarrow> (Memory, bool) js" where
  "setIndexedProperty H i property value =
     withTypedArray i (\<lambda>t v b w.
       if property < v_arrayLength v \<and> \<not> isDetachedBuffer w b \<and> isPrimitive H value
       then bindJ (setDirectValueInBuffer H i (property * elementSize t mod 2 ^ 32) value) (\<lambda>_. retJ True) w
       else bindJ (integerIndexedElementSet H i (int32ToDouble (int property)) value) (\<lambda>_. retJ True) w)"

end
