(* ===== verification/ElementSafety.thy ===== *)
theory ElementSafety
  imports TypedArrays
begin

text \<open>
  No access to an element of a typed array or of a data view leaves the memory of its buffer, whatever scripts the conversions run.
\<close>

section \<open>Scripts\<close>

text \<open>An object that code still uses is not collected, and a view keeps its kind and its buffer.\<close>

definition keepsObjects :: "Memory \<Rightarrow> Memory \<Rightarrow> bool" where
  "keepsObjects w w' \<longleftrightarrow>
     (\<forall>i v. slot (mm_views w) i = Some v \<longrightarrow> (\<exists>v'. slot (mm_views w') i = Some v' \<and> v_kind v' = v_kind v \<and> v_buffer v' = v_buffer v)) \<and>
     (\<forall>b. liveBuffer w b \<longrightarrow> liveBuffer w' b)"

definition safeAt :: "(Memory, 'a) js \<Rightarrow> Memory \<Rightarrow> ('a \<Rightarrow> Memory \<Rightarrow> bool) \<Rightarrow> bool" where
  "safeAt m w Q \<longleftrightarrow> (\<exists>r w'. m w = Some (r, w') \<and> memoryStep\<^sup>*\<^sup>* w w' \<and> keepsObjects w w' \<and> (\<forall>x. r = Inr x \<longrightarrow> Q x w'))"

definition reachableMemory :: "Memory \<Rightarrow> bool" where
  "reachableMemory w \<longleftrightarrow> memoryStep\<^sup>*\<^sup>* emptyMemory w"

text \<open>The conversions run scripts, that is steps, on objects only. \<open>ToNumeric\<close> gives a primitive value.\<close>

definition conversions_ok :: "ElementHost \<Rightarrow> bool" where
  "conversions_ok H \<longleftrightarrow> (\<forall>w v. reachableMemory w \<longrightarrow>
     safeAt (h_toNumber H v) w (\<lambda>_ _. True) \<and> safeAt (h_toBigInt H v) w (\<lambda>_ _. True) \<and> safeAt (h_toNumeric H v) w (\<lambda>x _. isPrimitive H x) \<and>
     (isPrimitive H v \<longrightarrow> (\<exists>r. h_toNumber H v w = Some (r, w)) \<and> (\<exists>r. h_toBigInt H v w = Some (r, w))))"

lemma keepsObjects_refl [simp]: "keepsObjects w w"
  by (simp add: keepsObjects_def)

lemma keepsObjects_trans: "keepsObjects w w1 \<Longrightarrow> keepsObjects w1 w2 \<Longrightarrow> keepsObjects w w2"
  unfolding keepsObjects_def by metis

lemma reachable_step: "reachableMemory w \<Longrightarrow> memoryStep\<^sup>*\<^sup>* w w' \<Longrightarrow> reachableMemory w'"
  unfolding reachableMemory_def by (rule rtranclp_trans)

lemma reachable_memory_ok: "reachableMemory w \<Longrightarrow> memory_ok w"
  unfolding reachableMemory_def by (rule reachable_ok)

lemma safe_ret: "Q x w \<Longrightarrow> safeAt (retJ x) w Q"
  by (auto simp: safeAt_def retJ_def)

lemma safe_throw: "safeAt throwTypeError w Q" "safeAt throwRangeError w Q"
  by (auto simp: safeAt_def throwTypeError_def throwRangeError_def)

lemma safe_bind:
  assumes "safeAt m w Q" "\<And>x w1. Q x w1 \<Longrightarrow> memoryStep\<^sup>*\<^sup>* w w1 \<Longrightarrow> keepsObjects w w1 \<Longrightarrow> safeAt (f x) w1 R"
  shows "safeAt (bindJ m f) w R"
proof -
  obtain r w1 where m: "m w = Some (r, w1)" "memoryStep\<^sup>*\<^sup>* w w1" "keepsObjects w w1" "\<forall>x. r = Inr x \<longrightarrow> Q x w1" using assms(1) by (auto simp: safeAt_def)
  show ?thesis
  proof (cases r)
    case (Inl e)
    then show ?thesis using m by (auto simp: safeAt_def bindJ_def)
  next
    case (Inr x)
    then have "Q x w1" using m(4) by simp
    from assms(2) [OF this m(2,3)] obtain r' w2 where f: "f x w1 = Some (r', w2)" "memoryStep\<^sup>*\<^sup>* w1 w2" "keepsObjects w1 w2" "\<forall>y. r' = Inr y \<longrightarrow> R y w2"
      by (auto simp: safeAt_def)
    have "memoryStep\<^sup>*\<^sup>* w w2" "keepsObjects w w2" using m(2,3) f(2,3) keepsObjects_trans by (auto intro: rtranclp_trans)
    then show ?thesis using m(1) Inr f(1,4) by (auto simp: safeAt_def bindJ_def)
  qed
qed

lemma safe_weaken: "safeAt m w Q \<Longrightarrow> (\<And>x w'. Q x w' \<Longrightarrow> R x w') \<Longrightarrow> safeAt m w R"
  unfolding safeAt_def by blast

lemma safe_pure: "m w = Some (r, w) \<Longrightarrow> safeAt m w (\<lambda>_ w'. w' = w)"
  by (auto simp: safeAt_def)

lemma safe_view:
  assumes "slot (mm_views w) i = Some v" "v_buffer v = Some b" "safeAt (f v b) w Q"
  shows "safeAt (withView i f) w Q"
  using assms unfolding safeAt_def withView_def by simp

lemma safe_typed:
  assumes "slot (mm_views w) i = Some v" "v_buffer v = Some b" "v_kind v = TypedArrayView t" "safeAt (f t v b) w Q"
  shows "safeAt (withTypedArray i f) w Q"
  unfolding withTypedArray_def using assms by (intro safe_view [OF assms(1,2)]) simp

section \<open>Conversions\<close>

lemma safe_toNumber: "conversions_ok H \<Longrightarrow> reachableMemory w \<Longrightarrow> safeAt (toNumber H v) w (\<lambda>_ _. True)"
  unfolding conversions_ok_def by (cases v) (simp_all add: safe_ret)

lemma safe_toBigInt: "conversions_ok H \<Longrightarrow> reachableMemory w \<Longrightarrow> safeAt (toBigInt H v) w (\<lambda>_ _. True)"
  unfolding conversions_ok_def by (cases v) (simp_all add: safe_ret)

lemma safe_toNumeric: "conversions_ok H \<Longrightarrow> reachableMemory w \<Longrightarrow> safeAt (toNumeric H v) w (\<lambda>x _. isPrimitive H x)"
  unfolding conversions_ok_def by (cases v) (simp_all add: safe_ret)

lemma safe_toIndex:
  assumes "conversions_ok H" "reachableMemory w"
  shows "safeAt (toIndex H v) w (\<lambda>_ _. True)"
proof -
  have "safeAt (bindJ (toNumber H v) (\<lambda>d. retJ (numberToIndex d))) w (\<lambda>_ _. True)" by (rule safe_bind [OF safe_toNumber [OF assms]]) (rule safe_ret, simp)
  then show ?thesis unfolding toIndex_def by (auto simp: safe_ret split: Value.split)
qed

text \<open>The conversion of a primitive value does not change memory.\<close>

lemma primitive_toNumber:
  assumes "conversions_ok H" "reachableMemory w" "isPrimitive H v"
  shows "\<exists>r. toNumber H v w = Some (r, w)" "\<exists>r. toBigInt H v w = Some (r, w)"
proof -
  show "\<exists>r. toNumber H v w = Some (r, w)" using assms by (cases v) (auto simp: retJ_def conversions_ok_def)
  show "\<exists>r. toBigInt H v w = Some (r, w)" using assms by (cases v) (auto simp: retJ_def conversions_ok_def)
qed

lemma bind_pure: "\<exists>r. m w = Some (r, w) \<Longrightarrow> (\<And>x. \<exists>r. f x w = Some (r, w)) \<Longrightarrow> \<exists>r. bindJ m f w = Some (r, w)"
  unfolding bindJ_def by (auto split: sum.split)

lemma ret_pure: "\<exists>r. retJ x w = Some (r, w)"
  by (simp add: retJ_def)

lemma primitive_toNative:
  assumes "conversions_ok H" "reachableMemory w" "isPrimitive H v"
  shows "\<exists>r. toNative H t v w = Some (r, w)"
proof -
  note p = primitive_toNumber [OF assms]
  have b: "\<exists>r. bindJ (toNumber H v) (\<lambda>d. retJ (f d)) w = Some (r, w)" "\<exists>r. bindJ (toBigInt H v) (\<lambda>n. retJ (g n)) w = Some (r, w)" for f :: "u64 \<Rightarrow> int" and g :: "int \<Rightarrow> int"
    by (rule bind_pure; simp add: p ret_pure)+
  have "\<exists>r. clampedToNative H v w = Some (r, w)" "\<exists>r. float16ToNative H v w = Some (r, w)" "\<exists>r. float32ToNative H v w = Some (r, w)" "\<exists>r. float64ToNative H v w = Some (r, w)"
    "\<exists>r. bigIntegralToNative H v w = Some (r, w)" "\<exists>r. integralToNative H t v w = Some (r, w)" for t
    using b ret_pure unfolding clampedToNative_def float16ToNative_def float32ToNative_def float64ToNative_def bigIntegralToNative_def integralToNative_def by (auto split: Value.split)
  then show ?thesis by (cases t) simp_all
qed

lemma length_bytesOf [simp]: "length (bytesOf n c) = n"
  by (induction n arbitrary: c) simp_all

section \<open>Access to memory\<close>

lemma buffer_block:
  assumes "memory_ok w" "\<not> isDetachedBuffer w b"
  obtains d bytes where "bufferData w b = Some d" "slot (mm_blocks w) d = Some bytes" "bufferByteLength w b \<le> length bytes"
proof -
  obtain buf s st where st: "slot (mm_buffers w) b = Some buf" "ab_backingStore buf = Some s" "slot (mm_stores w) s = Some st"
    using assms(2) by (auto simp: isDetachedBuffer_def bufferStore_def Option.bind_eq_Some_conv)
  then have "bufferStore w b = Some st" by (simp add: bufferStore_def)
  moreover obtain bytes where "slot (mm_blocks w) (bs_data st) = Some bytes" "bs_byteLength st \<le> length bytes" using memory_holds [OF assms(1) st(3)] by (auto simp: holds_def)
  ultimately show ?thesis using that by (simp add: bufferData_def bufferByteLength_def)
qed

lemma writeData_Some: "slot (mm_blocks w) d = Some bytes \<Longrightarrow> i + length new \<le> length bytes \<Longrightarrow> \<exists>w'. writeData w d i new = Some w'"
  by (simp add: writeData_def)

lemma write_step:
  assumes "writeData w d i new = Some w'"
  shows "memoryStep\<^sup>*\<^sup>* w w'" "keepsObjects w w'"
proof -
  show "memoryStep\<^sup>*\<^sup>* w w'" using write_bytes [OF assms] by simp
  have "mm_views w' = mm_views w" "mm_buffers w' = mm_buffers w" using assms by (auto simp: writeData_def split: option.splits if_splits)
  then show "keepsObjects w w'" by (simp add: keepsObjects_def liveBuffer_def)
qed

lemma safe_getValueFromBuffer:
  assumes "reachableMemory w"
  shows "safeAt (getValueFromBuffer H b k t le) w (\<lambda>_ _. True)"
proof (cases "isDetachedBuffer w b \<or> k + elementSize t > bufferByteLength w b")
  case True
  then show ?thesis by (auto simp: getValueFromBuffer_def safeAt_def throwTypeError_def throwRangeError_def)
next
  case False
  then have "\<not> isDetachedBuffer w b" by simp
  with reachable_memory_ok [OF assms] obtain d bytes where d: "bufferData w b = Some d" "slot (mm_blocks w) d = Some bytes" "bufferByteLength w b \<le> length bytes" by (rule buffer_block)
  then have "readData w d k (elementSize t) = Some (take (elementSize t) (drop k bytes))" using False by (simp add: readData_def)
  then show ?thesis using False d(1) by (simp add: getValueFromBuffer_def safeAt_def retJ_def)
qed

lemma safe_setValueInBuffer:
  assumes H: "conversions_ok H" and w: "reachableMemory w" and p: "isPrimitive H val"
  shows "safeAt (setValueInBuffer H b k t val le) w (\<lambda>_ _. True)"
proof (cases "isDetachedBuffer w b \<or> k + elementSize t > bufferByteLength w b")
  case True
  then show ?thesis by (auto simp: setValueInBuffer_def safeAt_def throwTypeError_def throwRangeError_def)
next
  case False
  then have "\<not> isDetachedBuffer w b" by simp
  with reachable_memory_ok [OF w] obtain d bytes where d: "bufferData w b = Some d" "slot (mm_blocks w) d = Some bytes" "bufferByteLength w b \<le> length bytes" by (rule buffer_block)
  obtain r where r: "toNative H t val w = Some (r, w)" using primitive_toNative [OF H w p] by blast
  show ?thesis
  proof (cases r)
    case (Inl e)
    then show ?thesis using False d(1) r by (simp add: setValueInBuffer_def safeAt_def numberToRawBytes_def bindJ_def)
  next
    case (Inr c)
    let ?new = "if le then bytesOf (elementSize t) c else rev (bytesOf (elementSize t) c)"
    have "k + length ?new \<le> length bytes" using d False by (cases le) simp_all
    then obtain w' where w': "writeData w d k ?new = Some w'" using writeData_Some [OF d(2)] by blast
    then have "setValueInBuffer H b k t val le w = Some (Inr (), w')" using False d(1) r Inr by (simp add: setValueInBuffer_def numberToRawBytes_def bindJ_def retJ_def)
    then show ?thesis using write_step [OF w'] by (auto simp: safeAt_def)
  qed
qed

section \<open>Views\<close>

lemma kept_view:
  assumes "keepsObjects w w'" "slot (mm_views w) i = Some v" "v_buffer v = Some b"
  obtains v' where "slot (mm_views w') i = Some v'" "v_kind v' = v_kind v" "v_buffer v' = Some b"
  using assms unfolding keepsObjects_def by metis

lemma safe_getViewValue:
  assumes H: "conversions_ok H" and w: "reachableMemory w" and v: "slot (mm_views w) i = Some v" "v_buffer v = Some b"
  shows "safeAt (getViewValue H i index le t) w (\<lambda>_ _. True)"
  unfolding getViewValue_def
proof (rule safe_bind [OF safe_toIndex [OF H w]])
  fix n w1 assume w1: "memoryStep\<^sup>*\<^sup>* w w1" "keepsObjects w w1"
  obtain v' where v': "slot (mm_views w1) i = Some v'" "v_buffer v' = Some b" using kept_view [OF w1(2) v] by metis
  have r: "reachableMemory w1" using w w1(1) by (rule reachable_step)
  show "safeAt (case n of None \<Rightarrow> throwRangeError | Some n \<Rightarrow> withView i (\<lambda>v b. if v_cachedRawBufferAddress v = None then throwTypeError
      else if n + elementSize t > v_byteLength v then throwRangeError else getValueFromBuffer H b (n + v_byteOffset v) t le)) w1 (\<lambda>_ _. True)"
    by (cases n) (auto intro!: safe_view [OF v'] simp: safe_throw safe_getValueFromBuffer [OF r])
qed

lemma safe_setViewValue:
  assumes H: "conversions_ok H" and w: "reachableMemory w" and v: "slot (mm_views w) i = Some v" "v_buffer v = Some b"
  shows "safeAt (setViewValue H i index le t val) w (\<lambda>_ _. True)"
  unfolding setViewValue_def
proof (rule safe_bind [OF safe_toIndex [OF H w]])
  fix n w1 assume w1: "memoryStep\<^sup>*\<^sup>* w w1" "keepsObjects w w1"
  have r1: "reachableMemory w1" using w w1(1) by (rule reachable_step)
  have "safeAt (bindJ (toNumeric H val) (\<lambda>numericValue. withView i (\<lambda>v b. if v_cachedRawBufferAddress v = None then throwTypeError
      else if m + elementSize t > v_byteLength v then throwRangeError else setValueInBuffer H b (m + v_byteOffset v) t numericValue le))) w1 (\<lambda>_ _. True)" for m
  proof (rule safe_bind [OF safe_toNumeric [OF H r1]])
    fix x w2 assume x: "isPrimitive H x" and w2: "memoryStep\<^sup>*\<^sup>* w1 w2" "keepsObjects w1 w2"
    obtain v' where v': "slot (mm_views w2) i = Some v'" "v_buffer v' = Some b" using kept_view [OF keepsObjects_trans [OF w1(2) w2(2)] v] by metis
    have r: "reachableMemory w2" using r1 w2(1) by (rule reachable_step)
    show "safeAt (withView i (\<lambda>v b. if v_cachedRawBufferAddress v = None then throwTypeError
      else if m + elementSize t > v_byteLength v then throwRangeError else setValueInBuffer H b (m + v_byteOffset v) t x le)) w2 (\<lambda>_ _. True)"
      by (rule safe_view [OF v']) (simp add: safe_throw safe_setValueInBuffer [OF H r x])
  qed
  then show "safeAt (case n of None \<Rightarrow> throwRangeError | Some n \<Rightarrow> bindJ (toNumeric H val) (\<lambda>numericValue. withView i (\<lambda>v b. if v_cachedRawBufferAddress v = None then throwTypeError
      else if n + elementSize t > v_byteLength v then throwRangeError else setValueInBuffer H b (n + v_byteOffset v) t numericValue le))) w1 (\<lambda>_ _. True)"
    by (cases n) (simp_all add: safe_throw)
qed

lemma safe_elementGet:
  assumes w: "reachableMemory w" and v: "slot (mm_views w) i = Some v" "v_buffer v = Some b" "v_kind v = TypedArrayView t"
  shows "safeAt (integerIndexedElementGet H i index) w (\<lambda>_ _. True)"
  unfolding integerIndexedElementGet_def
proof (rule safe_typed [OF v])
  let ?get = "bindJ (getValueFromBuffer H b (nat (truncDouble index) * elementSize t + v_byteOffset v) t True) (\<lambda>x. retJ (Some x))"
  have "safeAt ?get w (\<lambda>_ _. True)" by (rule safe_bind [OF safe_getValueFromBuffer [OF w]]) (simp add: safe_ret)
  then show "safeAt (\<lambda>w. if isDetachedBuffer w b \<or> \<not> validElementIndex index (v_arrayLength v) then retJ None w else ?get w) w (\<lambda>_ _. True)"
    by (auto simp: safeAt_def retJ_def)
qed

lemma safe_elementSet:
  assumes H: "conversions_ok H" and w: "reachableMemory w" and v: "slot (mm_views w) i = Some v" "v_buffer v = Some b" "v_kind v = TypedArrayView t"
  shows "safeAt (integerIndexedElementSet H i index value) w (\<lambda>_ _. True)"
  unfolding integerIndexedElementSet_def
proof (rule safe_typed [OF v], rule safe_bind)
  have big: "safeAt (bindJ (toBigInt H value) (\<lambda>n. retJ (BigIntValue (h_newBigInt H n) n))) w (\<lambda>x _. isPrimitive H x)"
    by (rule safe_bind [OF safe_toBigInt [OF H w]]) (simp add: safe_ret)
  have num: "safeAt (bindJ (toNumber H value) (\<lambda>d. retJ (numberValue (h_castOutOfRange H) d))) w (\<lambda>x _. isPrimitive H x)"
    by (rule safe_bind [OF safe_toNumber [OF H w]]) (simp add: safe_ret numberValue_def)
  show "safeAt (if isBigIntArray t then bindJ (toBigInt H value) (\<lambda>n. retJ (BigIntValue (h_newBigInt H n) n)) else bindJ (toNumber H value) (\<lambda>d. retJ (numberValue (h_castOutOfRange H) d))) w
    (\<lambda>x _. isPrimitive H x)" using big num by simp
next
  fix x w1 assume x: "isPrimitive H x" and w1: "memoryStep\<^sup>*\<^sup>* w w1" "keepsObjects w w1"
  obtain v' where v': "slot (mm_views w1) i = Some v'" "v_kind v' = v_kind v" "v_buffer v' = Some b" by (rule kept_view [OF w1(2) v(1,2)])
  have r: "reachableMemory w1" using w w1(1) by (rule reachable_step)
  let ?set = "\<lambda>v b t. bindJ (setValueInBuffer H b (nat (truncDouble index) * elementSize t + v_byteOffset v) t x True) (\<lambda>_. retJ True)"
  have "safeAt (?set v' b t) w1 (\<lambda>_ _. True)" by (rule safe_bind [OF safe_setValueInBuffer [OF H r x]]) (simp add: safe_ret)
  then have "safeAt (\<lambda>w. if isDetachedBuffer w b then retJ True w else if \<not> validElementIndex index (v_arrayLength v') then retJ False w else ?set v' b t w) w1 (\<lambda>_ _. True)"
    by (auto simp: safeAt_def retJ_def)
  then show "safeAt (withTypedArray i (\<lambda>t v b w. if isDetachedBuffer w b then retJ True w else if \<not> validElementIndex index (v_arrayLength v) then retJ False w else ?set v b t w)) w1 (\<lambda>_ _. True)"
    using v' v(3) by (intro safe_typed [of w1 i v' b t]) simp_all
qed

text \<open>Direct access: the byte index is that of an element, or a smaller one if the product of 32 bits wrapped.\<close>

lemma direct_fits:
  assumes "memory_ok w" "slot (mm_views w) i = Some v" "v_kind v = TypedArrayView t" "k < v_arrayLength v"
  shows "k * elementSize t mod 2 ^ 32 + elementSize t \<le> v_byteLength v" "v_cachedRawBufferAddress v \<noteq> None"
proof -
  have "k * elementSize t + elementSize t \<le> v_byteLength v" using element_fits [OF assms(4) _ assms(3)] memory_shape [OF assms(1,2)] by simp
  moreover have "k * elementSize t mod 2 ^ 32 \<le> k * elementSize t" by simp
  ultimately show "k * elementSize t mod 2 ^ 32 + elementSize t \<le> v_byteLength v" by linarith
  show "v_cachedRawBufferAddress v \<noteq> None" using memory_shape [OF assms(1,2)] assms(3,4) by (cases "v_cachedRawBufferAddress v") (auto simp: view_ok_def)
qed

lemma safe_getIndexed:
  assumes w: "reachableMemory w" and v: "slot (mm_views w) i = Some v" "v_buffer v = Some b" "v_kind v = TypedArrayView t"
  shows "safeAt (getIndexedPropertyValue H i k) w (\<lambda>_ _. True)"
  unfolding getIndexedPropertyValue_def
proof (rule safe_typed [OF v])
  note ok = reachable_memory_ok [OF w]
  have slow: "safeAt (bindJ (integerIndexedElementGet H i (int32ToDouble (int k))) (\<lambda>x. retJ (case x of None \<Rightarrow> Undefined | Some y \<Rightarrow> y))) w (\<lambda>_ _. True)"
    by (rule safe_bind [OF safe_elementGet [OF w v]]) (simp add: safe_ret)
  have fast: "safeAt (getDirectValueFromBuffer H t v (k * elementSize t mod 2 ^ 32)) w (\<lambda>_ _. True)" if "k < v_arrayLength v"
  proof -
    note f = direct_fits [OF ok v(1,3) that]
    then obtain d offset where c: "v_cachedRawBufferAddress v = Some (d, offset)" by auto
    from view_reads [OF ok v(1) c f(1)] obtain bytes where "readData w d (offset + k * elementSize t mod 2 ^ 32) (elementSize t) = Some bytes" by blast
    then show ?thesis using c by (simp add: getDirectValueFromBuffer_def safeAt_def retJ_def)
  qed
  show "safeAt (\<lambda>w. if k < v_arrayLength v then if isDetachedBuffer w b then retJ Undefined w else getDirectValueFromBuffer H t v (k * elementSize t mod 2 ^ 32) w
      else bindJ (integerIndexedElementGet H i (int32ToDouble (int k))) (\<lambda>x. retJ (case x of None \<Rightarrow> Undefined | Some y \<Rightarrow> y)) w) w (\<lambda>_ _. True)"
    using slow fast by (auto simp: safeAt_def retJ_def)
qed

lemma safe_setDirect:
  assumes H: "conversions_ok H" and w: "reachableMemory w" and v: "slot (mm_views w) i = Some v" "v_buffer v = Some b" "v_kind v = TypedArrayView t" and p: "isPrimitive H value"
    and k: "k + elementSize t \<le> v_byteLength v" "v_cachedRawBufferAddress v \<noteq> None"
  shows "safeAt (setDirectValueInBuffer H i k value) w (\<lambda>_ _. True)"
  unfolding setDirectValueInBuffer_def
proof (rule safe_typed [OF v], rule safe_bind)
  obtain r where "toNative H t value w = Some (r, w)" using primitive_toNative [OF H w p] by blast
  then show "safeAt (toNative H t value) w (\<lambda>_ w'. w' = w)" by (rule safe_pure)
next
  fix c w1 assume "w1 = w"
  obtain d offset where a: "v_cachedRawBufferAddress v = Some (d, offset)" using k(2) by auto
  from view_reads [OF reachable_memory_ok [OF w] v(1) a k(1)] obtain bytes where "slot (mm_blocks w) d = Some bytes" "offset + k + elementSize t \<le> length bytes"
    by (auto simp: readData_def split: option.splits if_splits)
  then obtain w' where w': "writeData w d (offset + k) (bytesOf (elementSize t) c) = Some w'" using writeData_Some by fastforce
  show "safeAt (withTypedArray i (\<lambda>t v b w. case v_cachedRawBufferAddress v of None \<Rightarrow> None | Some (d, offset) \<Rightarrow>
      (case writeData w d (offset + k) (bytesOf (elementSize t) c) of None \<Rightarrow> None | Some w' \<Rightarrow> retJ () w'))) w1 (\<lambda>_ _. True)"
    unfolding \<open>w1 = w\<close> by (rule safe_typed [OF v]) (use a w' write_step [OF w'] in \<open>simp add: safeAt_def retJ_def\<close>)
qed

lemma safe_setIndexed:
  assumes H: "conversions_ok H" and w: "reachableMemory w" and v: "slot (mm_views w) i = Some v" "v_buffer v = Some b" "v_kind v = TypedArrayView t"
  shows "safeAt (setIndexedProperty H i k value) w (\<lambda>_ _. True)"
  unfolding setIndexedProperty_def
proof (rule safe_typed [OF v])
  let ?fast = "bindJ (setDirectValueInBuffer H i (k * elementSize t mod 2 ^ 32) value) (\<lambda>_. retJ True)" and ?slow = "bindJ (integerIndexedElementSet H i (int32ToDouble (int k)) value) (\<lambda>_. retJ True)"
  have slow: "safeAt ?slow w (\<lambda>_ _. True)" by (rule safe_bind [OF safe_elementSet [OF H w v]]) (simp add: safe_ret)
  have fast: "safeAt ?fast w (\<lambda>_ _. True)" if "k < v_arrayLength v" "isPrimitive H value"
    by (rule safe_bind [OF safe_setDirect [OF H w v that(2) direct_fits [OF reachable_memory_ok [OF w] v(1,3) that(1)]]]) (simp add: safe_ret)
  show "safeAt (\<lambda>w. if k < v_arrayLength v \<and> \<not> isDetachedBuffer w b \<and> isPrimitive H value then ?fast w else ?slow w) w (\<lambda>_ _. True)"
    using slow fast by (cases "k < v_arrayLength v \<and> \<not> isDetachedBuffer w b \<and> isPrimitive H value") (simp_all only: safeAt_def if_True if_False, simp_all)
qed

lemma safe_runs: "safeAt m w Q \<Longrightarrow> reachableMemory w \<Longrightarrow> \<exists>r w'. m w = Some (r, w') \<and> reachableMemory w'"
  unfolding safeAt_def using reachable_step by blast

section \<open>Properties\<close>

text \<open>C19: Reading and writing an element of a data view or of a typed array ends without an access outside of a block of memory, in every state that the operations on
  buffers lead to and whatever scripts the conversions of the index and of the value run: they may resize, detach or reallocate the buffer of the very view. The state after it
  is again such a state.\<close>

theorem element_access_safe:
  assumes "conversions_ok H" "reachableMemory w" "slot (mm_views w) i = Some v" "v_buffer v = Some b"
  shows "(\<exists>r w'. getViewValue H i index le t w = Some (r, w') \<and> reachableMemory w') \<and>
    (\<exists>r w'. setViewValue H i index le t value w = Some (r, w') \<and> reachableMemory w') \<and>
    (v_kind v \<noteq> DataView \<longrightarrow>
      (\<exists>r w'. integerIndexedElementGet H i d w = Some (r, w') \<and> reachableMemory w') \<and>
      (\<exists>r w'. integerIndexedElementSet H i d value w = Some (r, w') \<and> reachableMemory w') \<and>
      (\<exists>r w'. getIndexedPropertyValue H i k w = Some (r, w') \<and> reachableMemory w') \<and>
      (\<exists>r w'. setIndexedProperty H i k value w = Some (r, w') \<and> reachableMemory w'))"
proof (intro conjI impI)
  note a = assms
  show "\<exists>r w'. getViewValue H i index le t w = Some (r, w') \<and> reachableMemory w'" by (rule safe_runs [OF safe_getViewValue [OF a] a(2)])
  show "\<exists>r w'. setViewValue H i index le t value w = Some (r, w') \<and> reachableMemory w'" by (rule safe_runs [OF safe_setViewValue [OF a] a(2)])
  assume "v_kind v \<noteq> DataView"
  then obtain t' where k: "v_kind v = TypedArrayView t'" by (cases "v_kind v") auto
  show "\<exists>r w'. integerIndexedElementGet H i d w = Some (r, w') \<and> reachableMemory w'" by (rule safe_runs [OF safe_elementGet [OF a(2-4) k] a(2)])
  show "\<exists>r w'. integerIndexedElementSet H i d value w = Some (r, w') \<and> reachableMemory w'" by (rule safe_runs [OF safe_elementSet [OF a k] a(2)])
  show "\<exists>r w'. getIndexedPropertyValue H i k w = Some (r, w') \<and> reachableMemory w'" for k by (rule safe_runs [OF safe_getIndexed [OF a(2-4) k] a(2)])
  show "\<exists>r w'. setIndexedProperty H i k value w = Some (r, w') \<and> reachableMemory w'" for k by (rule safe_runs [OF safe_setIndexed [OF a k] a(2)])
qed

text \<open>A script that detaches the first buffer\<close>

lemma observer_keeps: "arrayBufferObserver a n i w = Some w' \<Longrightarrow> keepsObjects w w'"
  by (auto simp: arrayBufferObserver_def keepsObjects_def liveBuffer_def slot_list_update Let_def split: option.splits)

lemma notify_keeps: "notifyAll (arrayBufferObserver a n) items w = Some w' \<Longrightarrow> keepsObjects w w'"
proof (induction items arbitrary: w)
  case (Cons i items)
  show ?case
  proof (cases i)
    case None
    then show ?thesis using Cons by simp
  next
    case (Some x)
    then obtain w1 where "arrayBufferObserver a n x w = Some w1" "notifyAll (arrayBufferObserver a n) items w1 = Some w'" using Cons.prems by (auto simp: Option.bind_eq_Some_conv)
    then show ?thesis using Cons.IH observer_keeps keepsObjects_trans by blast
  qed
qed simp

lemma change_keeps: "changeStore s f w = Some w' \<Longrightarrow> keepsObjects w w'" "changeBuffer b g w = Some w' \<Longrightarrow> keepsObjects w w'"
proof -
  show "changeStore s f w = Some w' \<Longrightarrow> keepsObjects w w'" by (auto simp: changeStore_def keepsObjects_def liveBuffer_def split: option.splits)
  assume "changeBuffer b g w = Some w'"
  then obtain buf where b: "slot (mm_buffers w) b = Some buf" "w' = w\<lparr>mm_buffers := (mm_buffers w)[b := Some (g buf)]\<rparr>" by (auto simp: changeBuffer_def split: option.splits)
  have "liveBuffer w c \<Longrightarrow> liveBuffer w' c" for c unfolding b(2) liveBuffer_def by (simp add: slot_list_update)
  then show "keepsObjects w w'" using b(2) by (simp add: keepsObjects_def)
qed

lemma detach_keeps:
  assumes "detachArrayBuffer b w = Some w'"
  shows "keepsObjects w w'"
proof -
  obtain buf where buf: "slot (mm_buffers w) b = Some buf" using assms by (auto simp: detachArrayBuffer_def updateBackingStore_def split: option.splits)
  then obtain w1 w2 where d: "(case ab_backingStore buf of None \<Rightarrow> Some w | Some s \<Rightarrow> changeStore s (\<lambda>st. st\<lparr>bs_observerItems := removeObserver b (bs_observerItems st)\<rparr>) w) = Some w1"
    "changeBuffer b (\<lambda>buf. buf\<lparr>ab_backingStore := None\<rparr>) w1 = Some w2" "bufferUpdated None 0 b w2 = Some w'"
    using assms by (simp add: detachArrayBuffer_def updateBackingStore_def Option.bind_eq_Some_conv) blast
  have "keepsObjects w w1" using d(1) change_keeps(1) by (auto split: option.splits)
  moreover have "keepsObjects w1 w2" using d(2) by (rule change_keeps(2))
  moreover have "keepsObjects w2 w'" using d(3) notify_keeps by (auto simp: bufferUpdated_def split: option.splits)
  ultimately show ?thesis using keepsObjects_trans by blast
qed

definition detachingScript :: "Value \<Rightarrow> 'a \<Rightarrow> (Memory, 'a) js" where
  "detachingScript v x w = (case v of PointerValue p \<Rightarrow> (case detachArrayBuffer 0 w of None \<Rightarrow> Some (Inl TypeError, w) | Some w' \<Rightarrow> Some (Inr x, w')) | _ \<Rightarrow> Some (Inl TypeError, w))"

definition detachingHost :: ElementHost where
  "detachingHost = \<lparr>h_toNumber = (\<lambda>v. detachingScript v 0), h_toBigInt = (\<lambda>v. detachingScript v 0), h_toNumeric = (\<lambda>v. detachingScript v (Int32 0)),
     h_bigModulo = word_of_int, h_newBigInt = (\<lambda>_. 0), h_isObject = (\<lambda>_. True), h_castOutOfRange = (\<lambda>_. 0)\<rparr>"

lemma detachingScript_safe: "Q x \<Longrightarrow> safeAt (detachingScript v x) w (\<lambda>y _. Q y)"
proof (cases "detachArrayBuffer 0 w")
  case (Some w')
  assume "Q x"
  moreover have "memoryStep\<^sup>*\<^sup>* w w'" "keepsObjects w w'" using detach [OF Some] detach_keeps [OF Some] by auto
  ultimately show ?thesis using Some by (cases v) (auto simp: detachingScript_def safeAt_def)
qed (cases v; auto simp: detachingScript_def safeAt_def)

lemma detachingScript_primitive: "isPrimitive detachingHost v \<Longrightarrow> \<exists>r. detachingScript v x w = Some (r, w)"
  by (cases v) (simp_all add: detachingScript_def detachingHost_def)

lemma detachingHost_ok: "conversions_ok detachingHost"
proof -
  have "h_toNumber detachingHost v = detachingScript v 0" "h_toBigInt detachingHost v = detachingScript v 0" "h_toNumeric detachingHost v = detachingScript v (Int32 0)" for v
    by (simp_all add: detachingHost_def)
  then show ?thesis unfolding conversions_ok_def by (simp add: detachingScript_safe detachingScript_primitive)
qed

text \<open>Writing an object to the second number of the sample array, where the conversion of the object detaches the buffer\<close>

theorem element_access_safe_witness: "\<exists>r w'. setIndexedProperty detachingHost 0 1 (PointerValue 8) sampleMemory = Some (r, w') \<and> reachableMemory w'"
proof -
  have "reachableMemory sampleMemory" unfolding reachableMemory_def by (rule sampleMemory_reachable)
  moreover have "slot (mm_views sampleMemory) 0 = Some (the (slot (mm_views sampleMemory) 0))" "v_buffer (the (slot (mm_views sampleMemory) 0)) = Some 0" "v_kind (the (slot (mm_views sampleMemory) 0)) \<noteq> DataView"
    by (simp_all add: sampleMemory_def slot_def)
  ultimately show ?thesis using element_access_safe [OF detachingHost_ok] by blast
qed

end
