(* ===== verification/ElementValues.thy ===== *)
theory ElementValues
  imports ElementSafety
begin

text \<open>
  The values of elements: what is written to an element of a typed array is read back converted as ECMAScript says, and the fast path of reading agrees with the general one.
\<close>

section \<open>Integers as doubles\<close>

lemma int_double_fields:
  assumes "- (2 ^ 31) \<le> i" "i < 2 ^ 31" "i \<noteq> 0"
  shows "scale (int32ToDouble i) < 0" "significand (int32ToDouble i) = \<bar>i\<bar> * 2 ^ nat (- scale (int32ToDouble i))" "isFinite (int32ToDouble i)" "bit (int32ToDouble i) 63 \<longleftrightarrow> i < 0"
proof -
  obtain e m where u: "unat (int32ToDouble i) = (if i < 0 then 2 ^ 63 else 0) + (e * 2 ^ 52 + m)" and e: "1023 \<le> e" "e < 1055" and m: "m < 2 ^ 52"
    and n: "nat \<bar>i\<bar> * 2 ^ 52 = 2 ^ (e - 1023) * (2 ^ 52 + m)" using int32ToDouble_payload [OF assms] by metis
  let ?d = "int32ToDouble i"
  have U: "uint ?d = (if i < 0 then 2 ^ 63 else 0) + (int e * 2 ^ 52 + int m)" using arg_cong [OF u, of int] by (simp split: if_splits)
  have E: "biasedExponent ?d = int e" "mantissa ?d = int m"
  proof -
    define q :: int where "q = (if i < 0 then 2 ^ 11 else 0) + int e"
    have "uint ?d = int m + q * 2 ^ 52" unfolding U q_def by simp
    moreover have "int m div 2 ^ 52 = 0" "int m mod 2 ^ 52 = int m" using m by (simp_all add: div_pos_pos_trivial mod_pos_pos_trivial)
    ultimately have "uint ?d div 2 ^ 52 = q" "uint ?d mod 2 ^ 52 = int m" by simp_all
    moreover have "q mod 2 ^ 11 = int e" using e by (simp add: q_def mod_pos_pos_trivial)
    ultimately show "biasedExponent ?d = int e" "mantissa ?d = int m" by (simp_all add: biasedExponent_def mantissa_def)
  qed
  then have s: "scale ?d = int e - 1075" "significand ?d = 2 ^ 52 + int m" using e by (simp_all add: scale_def significand_def)
  then show "scale ?d < 0" "isFinite ?d" using e E by (simp_all add: isFinite_def)
  have "int (nat \<bar>i\<bar> * 2 ^ 52) = int (2 ^ (e - 1023) * (2 ^ 52 + m))" using n by simp
  then have "\<bar>i\<bar> * 2 ^ 52 = 2 ^ (e - 1023) * (2 ^ 52 + int m)" by simp
  moreover have "(2 :: int) ^ 52 = 2 ^ (e - 1023) * 2 ^ (1075 - e)" using e by (simp flip: power_add)
  ultimately have "2 ^ (e - 1023) * (\<bar>i\<bar> * 2 ^ (1075 - e)) = 2 ^ (e - 1023) * (2 ^ 52 + int m)" by (metis mult.assoc mult.commute)
  then have "\<bar>i\<bar> * 2 ^ (1075 - e) = 2 ^ 52 + int m" by simp
  moreover have "nat (- scale ?d) = 1075 - e" using s e by simp
  ultimately show "significand ?d = \<bar>i\<bar> * 2 ^ nat (- scale ?d)" using s by simp
  have "(int e * 2 ^ 52 + int m :: int) < 2 ^ 63" using e m by simp
  moreover have "uint ?d = (if bit ?d 63 then 2 ^ 63 else 0) + (int e * 2 ^ 52 + int m)" using double_bits [of ?d] E by simp
  ultimately show "bit ?d 63 \<longleftrightarrow> i < 0" using U by (simp split: if_splits)
qed

lemma truncDouble_int: "- (2 ^ 31) \<le> i \<Longrightarrow> i < 2 ^ 31 \<Longrightarrow> truncDouble (int32ToDouble i) = i"
proof (cases "i = 0")
  case True
  then show ?thesis by (simp add: truncDouble_def truncMagnitude_def significand_def biasedExponent_def mantissa_def scale_def)
next
  case False
  assume "- (2 ^ 31) \<le> i" "i < 2 ^ 31"
  note f = int_double_fields [OF this False]
  have "truncMagnitude (int32ToDouble i) = \<bar>i\<bar>" using f(1-3) by (simp add: truncMagnitude_def isFinite_def)
  then show ?thesis using f(4) by (simp add: truncDouble_def)
qed

lemma validElementIndex_int:
  assumes "k < 2 ^ 31"
  shows "validElementIndex (int32ToDouble (int k)) n \<longleftrightarrow> k < n"
proof (cases "k = 0")
  case True
  have "isIntegerNumber 0" by (simp add: isIntegerNumber_def isFinite_def significand_def biasedExponent_def mantissa_def)
  then show ?thesis using True truncDouble_int [of 0] by (simp add: validElementIndex_def)
next
  case False
  note f = int_double_fields [of "int k"]
  have "isIntegerNumber (int32ToDouble (int k))" using f assms False by (simp add: isIntegerNumber_def)
  moreover have "int32ToDouble (int k) \<noteq> 0x0010000000000000"
  proof
    assume "int32ToDouble (int k) = 0x0010000000000000"
    moreover have "truncDouble 0x0010000000000000 = 0" by (simp add: truncDouble_def truncMagnitude_def significand_def biasedExponent_def mantissa_def scale_def)
    ultimately show False using truncDouble_int [of "int k"] assms False by simp
  qed
  moreover have "\<not> bit (int32ToDouble (int k)) 63" using f(4) assms False by simp
  ultimately show ?thesis using truncDouble_int [of "int k"] assms by (auto simp: validElementIndex_def)
qed

section \<open>The fast path of reading\<close>

lemma direct_reads:
  assumes ok: "memory_ok w" and v: "slot (mm_views w) i = Some v" "v_buffer v = Some b" "v_kind v = TypedArrayView t" and k: "k < v_arrayLength v" "v_byteLength v \<le> 2 ^ 32"
    and d: "\<not> isDetachedBuffer w b"
  shows "getDirectValueFromBuffer H t v (k * elementSize t mod 2 ^ 32) w = getValueFromBuffer H b (k * elementSize t + v_byteOffset v) t True w"
proof -
  note shape = memory_shape [OF ok v(1)]
  have fits: "k * elementSize t + elementSize t \<le> v_byteLength v" using element_fits [OF k(1) _ v(3)] shape by simp
  then have m: "k * elementSize t mod 2 ^ 32 = k * elementSize t" using k(2) elementSize_pos [of t] by (intro mod_less) linarith
  obtain a offset where c: "v_cachedRawBufferAddress v = Some (a, offset)" using direct_fits(2) [OF ok v(1,3) k(1)] by auto
  have o: "offset = v_byteOffset v" "bufferData w b = Some a" "v_byteOffset v + v_byteLength v \<le> bufferByteLength w b"
    using shape c v(2) by (auto simp: view_ok_def viewMemory_def)
  then have "\<not> bufferByteLength w b < k * elementSize t + v_byteOffset v + elementSize t" using fits by simp
  then show ?thesis unfolding getDirectValueFromBuffer_def getValueFromBuffer_def m using d c o by (simp add: add.commute split: option.split)
qed

text \<open>C22: Reading a typed array of at most \<open>2 ^ 32\<close> bytes at an index below \<open>2 ^ 31\<close> by its fast path, through the address that the array keeps, gives the same value and the same state as the general way through the
  buffer: its element if the index is below the length, else undefined.\<close>

theorem fast_read_agrees:
  assumes "reachableMemory w" "slot (mm_views w) i = Some v" "v_buffer v = Some b" "v_kind v = TypedArrayView t" "v_byteLength v \<le> 2 ^ 32" "k < 2 ^ 31"
  shows "getIndexedPropertyValue H i k w = bindJ (integerIndexedElementGet H i (int32ToDouble (int k))) (\<lambda>x. retJ (case x of None \<Rightarrow> Undefined | Some y \<Rightarrow> y)) w"
proof (cases "k < v_arrayLength v \<and> \<not> isDetachedBuffer w b")
  case True
  let ?get = "getValueFromBuffer H b (k * elementSize t + v_byteOffset v) t True"
  have "getIndexedPropertyValue H i k w = ?get w"
    using direct_reads [OF reachable_memory_ok [OF assms(1)] assms(2-4) _ assms(5)] True assms(2-4) by (simp add: getIndexedPropertyValue_def withTypedArray_def withView_def)
  moreover have "integerIndexedElementGet H i (int32ToDouble (int k)) w = bindJ ?get (\<lambda>x. retJ (Some x)) w"
    using True assms(2-4,6) truncDouble_int [of "int k"] by (simp add: integerIndexedElementGet_def withTypedArray_def withView_def validElementIndex_int)
  ultimately show ?thesis by (simp add: bindJ_def retJ_def split: option.split sum.split)
next
  case False
  then show ?thesis using assms(2-4) by (auto simp: getIndexedPropertyValue_def integerIndexedElementGet_def withTypedArray_def withView_def bindJ_def retJ_def)
qed

text \<open>The second number of the sample array\<close>

theorem fast_read_agrees_witness:
  "getIndexedPropertyValue detachingHost 0 1 sampleMemory = bindJ (integerIndexedElementGet detachingHost 0 (int32ToDouble (int 1))) (\<lambda>x. retJ (case x of None \<Rightarrow> Undefined | Some y \<Rightarrow> y)) sampleMemory"
proof (rule fast_read_agrees [of _ _ "the (slot (mm_views sampleMemory) 0)" 0 TInt32])
  show "reachableMemory sampleMemory" unfolding reachableMemory_def by (rule sampleMemory_reachable)
qed (simp_all add: sampleMemory_def slot_def)

section \<open>Writing and reading back\<close>

lemma codeOf_bytesOf: "codeOf (bytesOf n c) = c mod 256 ^ n"
proof (induction n arbitrary: c)
  case (Suc n)
  have "uint (word_of_int c :: byte) = c mod 256" by (simp add: unsigned_of_int take_bit_eq_mod)
  moreover have "c mod (256 * 256 ^ n) = 256 * (c div 256 mod 256 ^ n) + c mod 256" by (rule zmod_zmult2_eq) simp
  ultimately show ?case using Suc by simp
qed simp

lemma read_written:
  assumes "writeData w d i new = Some w'"
  shows "readData w' d i (length new) = Some new"
proof -
  obtain bytes where b: "slot (mm_blocks w) d = Some bytes" "i + length new \<le> length bytes"
    "w' = w\<lparr>mm_blocks := (mm_blocks w)[d := Some (take i bytes @ new @ drop (i + length new) bytes)]\<rparr>"
    using assms by (auto simp: writeData_def split: option.splits if_splits)
  then have "slot (mm_blocks w') d = Some (take i bytes @ new @ drop (i + length new) bytes)" by (auto simp: slot_list_update)
  then show ?thesis using b(2) by (simp add: readData_def)
qed

lemma attached_if_long:
  assumes "memory_ok w" "slot (mm_views w) i = Some v" "v_buffer v = Some b" "v_kind v = TypedArrayView t" "k < v_arrayLength v"
  shows "\<not> isDetachedBuffer w b"
proof
  assume "isDetachedBuffer w b"
  then have "snd (viewMemory w v) = 0" using assms(3) by (simp add: viewMemory_def isDetachedBuffer_def bufferByteLength_def)
  then have "v_byteLength v = 0" using memory_shape [OF assms(1,2)] by (simp add: view_ok_def)
  then show False using element_fits [OF assms(5) _ assms(4)] memory_shape [OF assms(1,2)] elementSize_pos [of t] by simp
qed

lemma write_then_read:
  assumes w: "reachableMemory w" and v: "slot (mm_views w) i = Some v" "v_buffer v = Some b" "v_kind v = TypedArrayView t" and k: "k < v_arrayLength v"
    and c: "isPrimitive H value" "toNative H t value w = Some (Inr c, w)"
  shows "\<exists>w'. setIndexedProperty H i k value w = Some (Inr True, w') \<and> getIndexedPropertyValue H i k w' = Some (Inr (rawBytesToNumber H t (bytesOf (elementSize t) c)), w')"
proof -
  note ok = reachable_memory_ok [OF w]
  let ?k = "k * elementSize t mod 2 ^ 32" and ?new = "bytesOf (elementSize t) c"
  note f = direct_fits [OF ok v(1,3) k] and att = attached_if_long [OF ok v k]
  then obtain d offset where a: "v_cachedRawBufferAddress v = Some (d, offset)" by auto
  from view_reads [OF ok v(1) a f(1)] obtain bytes where "slot (mm_blocks w) d = Some bytes" "offset + ?k + elementSize t \<le> length bytes"
    by (auto simp: readData_def split: option.splits if_splits)
  then obtain w' where w': "writeData w d (offset + ?k) ?new = Some w'" using writeData_Some [of w d bytes "offset + ?k" ?new] by auto
  have "setIndexedProperty H i k value w = Some (Inr True, w')"
    using v k att a c w' by (simp add: setIndexedProperty_def setDirectValueInBuffer_def withTypedArray_def withView_def bindJ_def retJ_def)
  moreover note r = writeData_ok [OF ok w']
  have "slot (mm_views w') i = Some v" "\<not> isDetachedBuffer w' b" using v(1) att r(2-4) by (simp_all add: isDetachedBuffer_def bufferStore_def)
  then have "getIndexedPropertyValue H i k w' = Some (Inr (rawBytesToNumber H t ?new), w')"
    using v(2,3) k a read_written [OF w'] by (simp add: getIndexedPropertyValue_def getDirectValueFromBuffer_def withTypedArray_def withView_def retJ_def)
  ultimately show ?thesis by blast
qed

text \<open>The number that an array of integers keeps: ECMAScript's ToInt8, ToUint8, ToInt16, ToUint16, ToInt32 and ToUint32\<close>

fun elementInteger :: "TypedArrayType \<Rightarrow> int \<Rightarrow> int" where
  "elementInteger TInt8 n = sint (word_of_int n :: 8 word)"
| "elementInteger TUint8 n = n mod 2 ^ 8"
| "elementInteger TInt16 n = sint (word_of_int n :: 16 word)"
| "elementInteger TUint16 n = n mod 2 ^ 16"
| "elementInteger TInt32 n = sint (word_of_int n :: 32 word)"
| "elementInteger t n = n mod 2 ^ 32"

fun numberInteger :: "Value \<Rightarrow> int" where
  "numberInteger (Int32 i) = i"
| "numberInteger (Double d) = truncDouble d"
| "numberInteger v = 0"

definition integerValue :: "int \<Rightarrow> Value" where
  "integerValue n = (if n < 2 ^ 31 then Int32 n else Double (int32ToDouble n))"

lemma doubleEq_int:
  assumes "- (2 ^ 31) \<le> r" "r < 2 ^ 31" "doubleEq (int32ToDouble r) d"
  shows "truncDouble d = r"
proof (cases "int32ToDouble r = d")
  case True
  then show ?thesis using truncDouble_int [OF assms(1,2)] by simp
next
  case False
  then have z: "iszero (int32ToDouble r)" "iszero d" using assms(3) by (auto simp: doubleEq_def)
  then have "r = 0" using int32ToDouble_finite(1) [OF assms(1,2)] by auto
  have "take_bit 63 (uint d) = 0" using z(2) unfolding iszero_def by (metis unsigned_0 unsigned_take_bit_eq)
  then have "uint d mod 2 ^ 63 = 0" by (simp add: take_bit_eq_mod)
  moreover have "uint d mod 2 ^ 63 = biasedExponent d * 2 ^ 52 + mantissa d"
    unfolding biasedExponent_def mantissa_def using mod_mult2_eq' [of "uint d" "2 ^ 52" "2 ^ 11"] by (simp add: mult.commute)
  ultimately have "biasedExponent d = 0" "mantissa d = 0" using exponent_bound(1) [of d] mantissa_bound(1) [of d] by auto
  then show ?thesis using \<open>r = 0\<close> by (simp add: truncDouble_def truncMagnitude_def significand_def scale_def)
qed

lemma toNativeFromDouble_wraps: "(word_of_int (toNativeFromDouble out d) :: 32 word) = word_of_int (truncDouble d)"
proof -
  define r where "r = truncateDoubleToInt32Unchecked out d"
  have r: "- (2 ^ 31) \<le> r" "r < 2 ^ 31"
    using sint_ge [of "word_of_int (out d) :: 32 word"] sint_lt [of "word_of_int (out d) :: 32 word"] by (auto simp: r_def truncateDoubleToInt32Unchecked_def castDouble_def)
  show ?thesis
  proof (cases "doubleEq (int32ToDouble r) d")
    case True
    then show ?thesis using doubleEq_int [OF r True] by (simp add: toNativeFromDouble_def r_def [symmetric])
  next
    case False
    then show ?thesis by (simp add: toNativeFromDouble_def r_def [symmetric] toInt32_truncates)
  qed
qed

fun isIntegerArray :: "TypedArrayType \<Rightarrow> bool" where
  "isIntegerArray TInt8 = True" | "isIntegerArray TInt16 = True" | "isIntegerArray TInt32 = True" | "isIntegerArray TUint8 = True" | "isIntegerArray TUint16 = True"
| "isIntegerArray TUint32 = True" | "isIntegerArray t = False"

lemma number_native:
  assumes "isNumber value" "isIntegerArray t"
  obtains c where "toNative H t value w = Some (Inr c, w)" "(word_of_int c :: 32 word) = word_of_int (numberInteger value)"
proof -
  have t: "toNative H t value = integralToNative H t value" using assms(2) by (cases t) simp_all
  show ?thesis
  proof (cases "value")
    case (Int32 i)
    then show ?thesis using that [of i] unfolding t by (simp add: integralToNative_def retJ_def)
  next
    case (Double d)
    then show ?thesis using that [of "toNativeFromDouble (h_castOutOfRange H) d"] unfolding t by (simp add: integralToNative_def retJ_def toNativeFromDouble_wraps)
  qed (use assms(1) in simp_all)
qed

lemma narrow_word:
  assumes "(word_of_int c :: 32 word) = word_of_int n" "k \<le> 32"
  shows "c mod 2 ^ k = n mod 2 ^ k"
proof -
  have "take_bit 32 c = take_bit 32 n" using assms(1) by (simp add: word_of_int_eq_iff)
  then have "take_bit k (take_bit 32 c) = take_bit k (take_bit 32 n)" by simp
  then show ?thesis using assms(2) by (simp add: take_bit_eq_mod [symmetric])
qed

lemma signed_word: "(word_of_int (c mod 2 ^ LENGTH('a)) :: 'a :: len word) = word_of_int c"
  by (simp add: word_of_int_eq_iff take_bit_eq_mod)

lemma sint_word32: "sint (word_of_int n :: 32 word) = (if n mod 2 ^ 32 < 2 ^ 31 then n mod 2 ^ 32 else n mod 2 ^ 32 - 2 ^ 32)"
proof -
  define x where "x = n mod 2 ^ 32"
  have x: "0 \<le> x" "x < 2 ^ 32" by (simp_all add: x_def)
  have u: "uint (word_of_int n :: 32 word) = x" by (simp add: unsigned_of_int take_bit_eq_mod x_def)
  have "sint (word_of_int n :: 32 word) = take_bit 32 x - 2 ^ 32 * of_bool (bit x 31)" by (simp add: sint_uint u signed_take_bit_eq_take_bit_minus)
  moreover have "take_bit 32 x = x" using x by (simp add: take_bit_eq_mod mod_pos_pos_trivial)
  moreover have "bit x 31 \<longleftrightarrow> \<not> x < 2 ^ 31"
  proof -
    have "x div 2 ^ 31 = (if x < 2 ^ 31 then 0 else 1)" using x by (auto simp: div_pos_pos_trivial intro: int_div_pos_eq [of _ _ 1 "x - 2 ^ 31"])
    then show ?thesis by (simp add: bit_iff_odd)
  qed
  ultimately show ?thesis unfolding x_def [symmetric] by simp
qed

lemma stored_integer:
  assumes "isIntegerArray t" "(word_of_int c :: 32 word) = word_of_int n"
  shows "rawBytesToNumber H t (bytesOf (elementSize t) c) = integerValue (elementInteger t n)"
proof -
  have m: "c mod 2 ^ 8 = n mod 2 ^ 8" "c mod 2 ^ 16 = n mod 2 ^ 16" "c mod 2 ^ 32 = n mod 2 ^ 32" using narrow_word [OF assms(2), of 8] narrow_word [OF assms(2), of 16] narrow_word [OF assms(2), of 32] by simp_all
  have b: "sint (x :: 8 word) < 2 ^ 31" "sint (y :: 16 word) < 2 ^ 31" "sint (z :: 32 word) < 2 ^ 31" for x y z
    using sint_lt [of x] sint_lt [of y] sint_lt [of z] by simp_all
  have s: "(word_of_int (n mod 2 ^ 8) :: 8 word) = word_of_int n" "(word_of_int (n mod 2 ^ 16) :: 16 word) = word_of_int n" "(word_of_int (n mod 2 ^ 32) :: 32 word) = word_of_int n"
    using signed_word [where 'a = 8, of n] signed_word [where 'a = 16, of n] signed_word [where 'a = 32, of n] by simp_all
  have u: "unsignedValue (n mod 2 ^ 32) = integerValue (n mod 2 ^ 32)"
  proof -
    have "n mod 2 ^ 32 < 2 ^ 32" "0 \<le> n mod 2 ^ 32" by simp_all
    then show ?thesis unfolding unsignedValue_def integerValue_def s sint_word32 by auto
  qed
  have c: "codeOf (bytesOf 1 c) = n mod 2 ^ 8" "codeOf (bytesOf 2 c) = n mod 2 ^ 16" "codeOf (bytesOf 4 c) = n mod 2 ^ 32" unfolding codeOf_bytesOf using m by simp_all
  show ?thesis
    using assms(1) by (cases t) (simp_all only: rawBytesToNumber.simps elementSize.simps c s u elementInteger.simps isIntegerArray.simps, simp_all add: integerValue_def b [simplified])
qed

lemma stored_double:
  assumes "isNumber value"
  shows "\<exists>c. toNative H TFloat64 value w = Some (Inr c, w) \<and> rawBytesToNumber H TFloat64 (bytesOf (elementSize TFloat64) c) = numberValue (h_castOutOfRange H) (asNumber value)"
proof -
  let ?c = "uint (asNumber value)"
  have "?c < 2 ^ 64" using uint_lt2p [of "asNumber value"] by simp
  then have "codeOf (bytesOf 8 ?c) = ?c" by (simp add: codeOf_bytesOf mod_pos_pos_trivial)
  then have "rawBytesToNumber H TFloat64 (bytesOf (elementSize TFloat64) ?c) = numberValue (h_castOutOfRange H) (asNumber value)" by simp
  moreover have "toNative H TFloat64 value w = Some (Inr ?c, w)" using assms by (cases "value") (simp_all add: float64ToNative_def bindJ_def retJ_def)
  ultimately show ?thesis by blast
qed

text \<open>Rounding to a narrower format\<close>

lemma double_code:
  fixes d :: u64
  shows "magnitudeOf 52 11 (uint d) = biasedExponent d * 2 ^ 52 + mantissa d" "signOf 52 11 (uint d) = (if bit d 63 then - 1 else 1)"
    "significandOf 52 (magnitudeOf 52 11 (uint d)) = significand d" "scaleOf 52 11 (magnitudeOf 52 11 (uint d)) = scale d"
proof -
  have b: "0 \<le> biasedExponent d" "biasedExponent d < 2 ^ 11" "0 \<le> mantissa d" "mantissa d < 2 ^ 52" using exponent_bound [of d] mantissa_bound [of d] by simp_all
  let ?a = "biasedExponent d * 2 ^ 52 + mantissa d"
  have a: "0 \<le> ?a" "?a < 2 ^ 63" using b by simp_all
  show m: "magnitudeOf 52 11 (uint d) = ?a" using double_bits [of d] a by (auto simp: magnitudeOf_def mod_pos_pos_trivial intro: int_mod_pos_eq [of _ _ 1])
  show "signOf 52 11 (uint d) = (if bit d 63 then - 1 else 1)" using double_bits [of d] a by (auto simp: signOf_def)
  have "?a div 2 ^ 52 = biasedExponent d" "?a mod 2 ^ 52 = mantissa d" using b by (simp_all add: div_pos_pos_trivial mod_pos_pos_trivial)
  then show "significandOf 52 (magnitudeOf 52 11 (uint d)) = significand d" "scaleOf 52 11 (magnitudeOf 52 11 (uint d)) = scale d"
    unfolding m significandOf_def scaleOf_def significand_def scale_def by (simp_all add: minScale_def)
qed

lemma int32_floatCast:
  assumes "- (2 ^ 31) \<le> i" "i < 2 ^ 31"
  shows "floatCast 52 11 23 8 (uint (int32ToDouble i)) = withSign 23 8 i (roundTo 23 8 \<bar>i\<bar> 0)"
proof (cases "i = 0")
  case True
  then show ?thesis by (simp add: floatCast_def magnitudeOf_def signOf_def withSign_def infinityOf_def significandOf_def roundTo_def Let_def)
next
  case False
  let ?d = "int32ToDouble i"
  note f = int_double_fields [OF assms False] and c = double_code [of ?d]
  have "\<not> infinityOf 52 11 < magnitudeOf 52 11 (uint ?d)" "magnitudeOf 52 11 (uint ?d) \<noteq> infinityOf 52 11"
    unfolding c(1) using f(3) exponent_bound [of ?d] mantissa_bound [of ?d] by (auto simp: isFinite_def infinityOf_def)
  then have "floatCast 52 11 23 8 (uint ?d) = withSign 23 8 (if i < 0 then - 1 else 1) (roundTo 23 8 (\<bar>i\<bar> * 2 ^ nat (- scale ?d)) (scale ?d))"
    unfolding floatCast_def Let_def c(2-4) using f(2,4) by simp
  also have "roundTo 23 8 (\<bar>i\<bar> * 2 ^ nat (- scale ?d)) (scale ?d) = roundTo 23 8 \<bar>i\<bar> 0" using roundTo_shift [of "\<bar>i\<bar>" 23 8 "nat (- scale ?d)" "scale ?d"] f(1) by simp
  finally show ?thesis by (simp add: withSign_def)
qed

definition roundThrough :: "nat \<Rightarrow> nat \<Rightarrow> u64 \<Rightarrow> u64" where
  "roundThrough p w d = word_of_int (floatCast p w 52 11 (floatCast 52 11 p w (uint d)))"

lemma stored_float32:
  assumes "isNumber value" "\<forall>i. value = Int32 i \<longrightarrow> - (2 ^ 31) \<le> i \<and> i < 2 ^ 31"
  shows "\<exists>c. toNative H TFloat32 value w = Some (Inr c, w) \<and>
    rawBytesToNumber H TFloat32 (bytesOf (elementSize TFloat32) c) = numberValue (h_castOutOfRange H) (roundThrough 23 8 (asNumber value))"
proof -
  let ?c = "floatCast 52 11 23 8 (uint (asNumber value))"
  have "toNative H TFloat32 value w = Some (Inr ?c, w)" using assms int32_floatCast by (cases "value") (simp_all add: float32ToNative_def retJ_def)
  moreover have "codeOf (bytesOf 4 ?c) = ?c" using floatCast_bounds [of 23 52 11 8 "uint (asNumber value)"] by (simp add: codeOf_bytesOf mod_pos_pos_trivial)
  ultimately show ?thesis by (simp add: roundThrough_def)
qed

lemma stored_float16:
  assumes "isNumber value"
  shows "\<exists>c. toNative H TFloat16 value w = Some (Inr c, w) \<and>
    rawBytesToNumber H TFloat16 (bytesOf (elementSize TFloat16) c) = numberValue (h_castOutOfRange H) (roundThrough 10 5 (asNumber value))"
proof -
  let ?h = "convertFloat64ToFloat16 (asNumber value)"
  have "toNative H TFloat16 value w = Some (Inr (uint ?h), w)" using assms by (cases "value") (simp_all add: float16ToNative_def bindJ_def retJ_def)
  moreover have "codeOf (bytesOf 2 (uint ?h)) = uint ?h" using uint_lt2p [of ?h] by (simp add: codeOf_bytesOf mod_pos_pos_trivial)
  moreover have "convertFloat16ToFloat64 ?h = roundThrough 10 5 (asNumber value)"
    using convertFloat16ToFloat64_casts [of ?h] unfolding convertFloat64ToFloat16_casts by (metis roundThrough_def word_of_int_uint)
  ultimately show ?thesis by simp
qed

text \<open>ToUint8Clamp of ECMAScript: between 0 and 255, the nearest integer, of two the even one. NaN becomes 0.\<close>

definition toUint8Clamp :: "u64 \<Rightarrow> int" where
  "toUint8Clamp d =
     (if isnan d \<or> bit d 63 then 0
      else if \<not> isFinite d \<or> 255 \<le> truncDouble d then 255
      else let f = truncDouble d; unit = 2 ^ nat (- scale d); rest = significand d - f * unit
           in if unit < 2 * rest then f + 1 else if 2 * rest < unit then f else if even f then f else f + 1)"

lemma roundShift_halves:
  "roundShift m k = (if 2 ^ k < 2 * (m - m div 2 ^ k * 2 ^ k) then m div 2 ^ k + 1 else if 2 * (m - m div 2 ^ k * 2 ^ k) < 2 ^ k then m div 2 ^ k
     else if even (m div 2 ^ k) then m div 2 ^ k else m div 2 ^ k + 1)"
  by (auto simp: roundShift_def Let_def minus_div_mult_eq_mod)

lemma div_below:
  fixes m q :: int
  assumes "m < n * q" "0 < q"
  shows "m div q < n"
proof (rule ccontr)
  assume "\<not> m div q < n"
  then have "n * q \<le> m div q * q" using assms(2) by (intro mult_right_mono) simp_all
  moreover have "m div q * q \<le> m" using assms(2) by (simp add: minus_mod_eq_div_mult [symmetric])
  ultimately show False using assms(1) by simp
qed

lemma clamped_rounds: "clampedFromDouble d = toUint8Clamp d"
proof (cases "isnan d \<or> bit d 63")
  case True
  then show ?thesis by (auto simp: clampedFromDouble_def toUint8Clamp_def)
next
  case False
  have u: "uint d = biasedExponent d * 2 ^ 52 + mantissa d" using double_bits [of d] False by simp
  have b: "0 \<le> biasedExponent d" "0 \<le> mantissa d" "mantissa d < 2 ^ 52" using exponent_bound [of d] mantissa_bound [of d] by simp_all
  have g: "d > 0x406FE00000000000 \<longleftrightarrow> 1030 * 2 ^ 52 + 127 * 2 ^ 45 < uint d" by (simp add: word_less_def)
  have small: "clampedFromDouble d = toUint8Clamp d"
    if "truncDouble d = significand d div 2 ^ nat (- scale d)" "truncDouble d < 255" "isFinite d" "\<not> d > 0x406FE00000000000"
    using False that by (simp add: clampedFromDouble_def toUint8Clamp_def Let_def roundShift_halves)
  consider "biasedExponent d = 2047" | "1031 \<le> biasedExponent d" "biasedExponent d \<noteq> 2047" | "biasedExponent d = 1030" | "biasedExponent d < 1030" by linarith
  then show ?thesis
  proof cases
    case 1
    then show ?thesis using False g u b by (simp add: clampedFromDouble_def toUint8Clamp_def isFinite_def)
  next
    case 2
    have s: "significand d = 2 ^ 52 + mantissa d" "scale d = biasedExponent d - 1075" using 2 by (simp_all add: scale_def significand_def)
    have "255 \<le> truncMagnitude d"
    proof (cases "0 \<le> scale d")
      case True
      have "1 * 2 ^ 52 \<le> 2 ^ nat (scale d) * significand d" using s b by (intro mult_mono) simp_all
      then show ?thesis using True 2 by (simp add: truncMagnitude_def mult.commute)
    next
      case n: False
      define k where "k = nat (- scale d)"
      have "k \<le> 44" using n s 2 by (simp add: k_def)
      then have "(2 :: int) ^ 8 * 2 ^ k \<le> 2 ^ 52" unfolding power_add [symmetric] by (intro power_increasing) simp_all
      then have "2 ^ 8 * 2 ^ k div 2 ^ k \<le> significand d div 2 ^ k" using s b by (intro zdiv_mono1) simp_all
      then show ?thesis using n 2 by (simp add: truncMagnitude_def k_def)
    qed
    then show ?thesis using False g u b 2 by (simp add: clampedFromDouble_def toUint8Clamp_def truncDouble_def)
  next
    case 3
    then have s: "scale d = - 45" "significand d = 2 ^ 52 + mantissa d" by (simp_all add: scale_def significand_def)
    then have t: "truncDouble d = (2 ^ 52 + mantissa d) div 2 ^ 45" using False 3 by (simp add: truncDouble_def truncMagnitude_def)
    consider "127 * 2 ^ 45 < mantissa d" | "mantissa d = 127 * 2 ^ 45" | "mantissa d < 127 * 2 ^ 45" by linarith
    then show ?thesis
    proof cases
      case 1
      then have "255 * 2 ^ 45 div 2 ^ 45 \<le> truncDouble d" unfolding t by (intro zdiv_mono1) simp_all
      then show ?thesis using False g u b 1 3 by (simp add: clampedFromDouble_def toUint8Clamp_def)
    next
      case 2
      have "roundShift (255 * 2 ^ 45) 45 = 255" by (rule roundShift_exact)
      then show ?thesis using False g u b 2 3 s t by (simp add: clampedFromDouble_def toUint8Clamp_def)
    next
      case 3
      then have "truncDouble d < 255" unfolding t by (simp add: div_less_iff_less_mult)
      then show ?thesis using small s t g u 3 \<open>biasedExponent d = 1030\<close> by (simp add: isFinite_def)
    qed
  next
    case 4
    then have s: "scale d < - 45" by (simp add: scale_def)
    have t: "truncDouble d = significand d div 2 ^ nat (- scale d)" using False 4 s by (simp add: truncDouble_def truncMagnitude_def)
    have "significand d < 2 ^ 53" using b by (simp add: significand_def)
    also have "(2 :: int) ^ 53 \<le> 2 ^ 7 * 2 ^ nat (- scale d)" unfolding power_add [symmetric] using s by (intro power_increasing) simp_all
    finally have "significand d div 2 ^ nat (- scale d) < 2 ^ 7" by (rule div_below) simp
    then have "truncDouble d < 255" unfolding t by simp
    moreover have "biasedExponent d * 2 ^ 52 \<le> 1029 * 2 ^ 52" using 4 by (intro mult_right_mono) simp_all
    ultimately show ?thesis using small t g u b 4 by (simp add: isFinite_def)
  qed
qed

lemma toUint8Clamp_bounds: "0 \<le> toUint8Clamp d" "toUint8Clamp d \<le> 255"
proof -
  have "0 \<le> truncMagnitude d" using mantissa_bound [of d] by (simp add: truncMagnitude_def significand_def pos_imp_zdiv_nonneg_iff)
  then show "0 \<le> toUint8Clamp d" "toUint8Clamp d \<le> 255" by (auto simp: toUint8Clamp_def Let_def truncDouble_def)
qed

fun clampedNumber :: "Value \<Rightarrow> int" where
  "clampedNumber (Int32 i) = max 0 (min 255 i)"
| "clampedNumber v = toUint8Clamp (asNumber v)"

lemma stored_clamped:
  assumes "isNumber value"
  shows "\<exists>c. toNative H TUint8Clamped value w = Some (Inr c, w) \<and> rawBytesToNumber H TUint8Clamped (bytesOf (elementSize TUint8Clamped) c) = Int32 (clampedNumber value)"
proof -
  have "toNative H TUint8Clamped value w = Some (Inr (clampedNumber value), w)"
    using assms by (cases "value") (auto simp: clampedToNative_def retJ_def clamped_rounds)
  moreover have "0 \<le> clampedNumber value" "clampedNumber value < 256" using toUint8Clamp_bounds [of "asNumber value"] by (cases "value"; simp)+
  then have "codeOf (bytesOf 1 (clampedNumber value)) = clampedNumber value" by (simp only: codeOf_bytesOf) (simp add: mod_pos_pos_trivial)
  ultimately show ?thesis by (simp del: bytesOf.simps)
qed

lemma stored_whole:
  assumes "isNumber value" "isIntegerArray t"
  shows "\<exists>c. toNative H t value w = Some (Inr c, w) \<and> rawBytesToNumber H t (bytesOf (elementSize t) c) = integerValue (elementInteger t (numberInteger value))"
  using number_native [OF assms, of H w] stored_integer [OF assms(2)] by metis

text \<open>The number that an element keeps of a number written to it\<close>

fun storedNumber :: "(u64 \<Rightarrow> int) \<Rightarrow> TypedArrayType \<Rightarrow> Value \<Rightarrow> Value" where
  "storedNumber outOfRange TFloat64 v = numberValue outOfRange (asNumber v)"
| "storedNumber outOfRange TFloat32 v = numberValue outOfRange (roundThrough 23 8 (asNumber v))"
| "storedNumber outOfRange TFloat16 v = numberValue outOfRange (roundThrough 10 5 (asNumber v))"
| "storedNumber outOfRange TUint8Clamped v = Int32 (clampedNumber v)"
| "storedNumber outOfRange t v = integerValue (elementInteger t (numberInteger v))"

text \<open>C21: A number that is written to an element of a typed array of numbers, at an index below the length, is read back as ECMAScript converts it: in an array of integers it is
  truncated and taken modulo the size of the element, signed or unsigned; in an array of clamped bytes it is rounded to the nearest integer between 0 and 255, ties to the even one; in an
  array of 16-bit or 32-bit floating point numbers it is rounded to the nearest number of that format, ties to even; in an array of doubles it is the same number. The arrays of
  BigInts are not covered.\<close>

theorem element_roundtrip:
  assumes "reachableMemory w" "slot (mm_views w) i = Some v" "v_buffer v = Some b" "v_kind v = TypedArrayView t" "k < v_arrayLength v" "isNumber value"
    and "\<forall>n. value = Int32 n \<longrightarrow> - (2 ^ 31) \<le> n \<and> n < 2 ^ 31" and "t \<noteq> TBigInt64" "t \<noteq> TBigUint64"
  shows "\<exists>w'. setIndexedProperty H i k value w = Some (Inr True, w') \<and>
    getIndexedPropertyValue H i k w' = Some (Inr (storedNumber (h_castOutOfRange H) t value), w')"
proof -
  have p: "isPrimitive H value" using assms(6) by (cases "value") simp_all
  have "\<exists>c. toNative H t value w = Some (Inr c, w) \<and> rawBytesToNumber H t (bytesOf (elementSize t) c) = storedNumber (h_castOutOfRange H) t value"
    using assms(8,9) stored_double [OF assms(6)] stored_float32 [OF assms(6,7)] stored_float16 [OF assms(6)] stored_clamped [OF assms(6)] stored_whole [OF assms(6), of t]
    by (cases t) (simp_all only: storedNumber.simps isIntegerArray.simps simp_thms)
  then obtain c where "toNative H t value w = Some (Inr c, w)" "rawBytesToNumber H t (bytesOf (elementSize t) c) = storedNumber (h_castOutOfRange H) t value" by blast
  then show ?thesis using write_then_read [OF assms(1-5) p] by metis
qed

text \<open>The number \<open>2 ^ 31 + 5\<close> wraps in the array of 32 bits of the sample memory.\<close>

theorem element_roundtrip_witness:
  "\<exists>w'. setIndexedProperty detachingHost 0 1 (Double 0x41E0000000A00000) sampleMemory = Some (Inr True, w') \<and> getIndexedPropertyValue detachingHost 0 1 w' = Some (Inr (Int32 (- 2147483643)), w')"
proof -
  have "truncDouble 0x41E0000000A00000 = 2147483653" by (simp add: truncDouble_def truncMagnitude_def significand_def biasedExponent_def mantissa_def scale_def)
  then have "integerValue (elementInteger TInt32 (numberInteger (Double 0x41E0000000A00000))) = Int32 (- 2147483643)" by (simp add: integerValue_def)
  moreover have "reachableMemory sampleMemory" unfolding reachableMemory_def by (rule sampleMemory_reachable)
  moreover have "slot (mm_views sampleMemory) 0 = Some (the (slot (mm_views sampleMemory) 0))" "v_buffer (the (slot (mm_views sampleMemory) 0)) = Some 0"
    "v_kind (the (slot (mm_views sampleMemory) 0)) = TypedArrayView TInt32" "1 < v_arrayLength (the (slot (mm_views sampleMemory) 0))"
    by (simp_all add: sampleMemory_def slot_def)
  ultimately show ?thesis using element_roundtrip [of sampleMemory 0 "the (slot (mm_views sampleMemory) 0)" 0 TInt32 1 "Double 0x41E0000000A00000" detachingHost] by simp
qed

end
