(* ===== verification/BufferBuiltins.thy ===== *)
theory BufferBuiltins
  imports TypedArrays
begin

text \<open>
  Built-in functions on buffers and arrays: \<open>allocateArrayBuffer\<close> and \<open>fillData\<close> of \<open>src/runtime/ArrayBufferObject.cpp\<close>, \<open>resize\<close>, \<open>transfer\<close> and
  \<open>transferToFixedLength\<close> of \<open>src/builtins/BuiltinArrayBuffer.cpp\<close>, the constructors of views and \<open>indexOf\<close> and \<open>lastIndexOf\<close> of
  \<open>BuiltinTypedArray.cpp\<close> and \<open>BuiltinDataView.cpp\<close>.
\<close>

section \<open>Buffers\<close>

definition maxArrayBufferSize :: nat where
  "maxArrayBufferSize = 210000000"

text \<open>An operation on buffers as a computation\<close>

definition doJ :: "(Memory \<Rightarrow> Memory option) \<Rightarrow> (Memory, unit) js" where
  "doJ f w = (case f w of None \<Rightarrow> None | Some w' \<Rightarrow> retJ () w')"

definition allocateArrayBuffer :: "nat \<Rightarrow> nat option \<Rightarrow> bool \<Rightarrow> (Memory, nat) js" where
  "allocateArrayBuffer byteLength maxByteLength resizable w =
     (if byteLength \<ge> maxArrayBufferSize then throwRangeError w
      else let obj = length (mm_buffers w); w1 = w\<lparr>mm_buffers := mm_buffers w @ [Some newArrayBuffer]\<rparr>
           in case maxByteLength of
                Some maxLength \<Rightarrow>
                  if maxLength \<ge> maxArrayBufferSize then throwRangeError w1
                  else bindJ (doJ (if resizable then allocateResizableBuffer obj byteLength maxLength else allocateBuffer obj byteLength)) (\<lambda>_. retJ obj) w1
              | None \<Rightarrow> bindJ (doJ (allocateBuffer obj byteLength)) (\<lambda>_. retJ obj) w1)"

text \<open>\<open>newValue->fillData(obj->data(), length)\<close>; nothing is read if the length is 0.\<close>

definition copyData :: "nat \<Rightarrow> nat \<Rightarrow> nat \<Rightarrow> Memory \<Rightarrow> Memory option" where
  "copyData newValue obj count w =
     (if count = 0 then Some w
      else case (bufferData w obj, bufferData w newValue) of
             (Some d, Some e) \<Rightarrow> Option.bind (readData w d 0 count) (writeData w e 0)
           | _ \<Rightarrow> None)"

definition isResizableArrayBuffer :: "Memory \<Rightarrow> nat \<Rightarrow> bool" where
  "isResizableArrayBuffer w b = (case slot (mm_buffers w) b of None \<Rightarrow> False | Some buf \<Rightarrow> ab_isResizable buf)"

text \<open>The assertion that the store is resizable; otherwise the field is that of the deleter.\<close>

definition maxByteLength :: "Memory \<Rightarrow> nat \<Rightarrow> nat option" where
  "maxByteLength w b = (case bufferStore w b of None \<Rightarrow> None | Some st \<Rightarrow> if bs_isResizable st then Some (bs_maxByteLength st) else None)"

definition throwTypeErrorIfDetached :: "nat \<Rightarrow> (Memory, unit) js" where
  "throwTypeErrorIfDetached b w = (if isDetachedBuffer w b then throwTypeError w else retJ () w)"

text \<open>\<open>toInteger\<close> of a number; \<open>None\<close> is an infinity.\<close>

definition numberToInteger :: "u64 \<Rightarrow> int option" where
  "numberToInteger d = (if isnan d then Some 0 else if \<not> isFinite d then None else Some (truncDouble d))"

definition builtinArrayBufferResize :: "ElementHost \<Rightarrow> nat \<Rightarrow> Value \<Rightarrow> (Memory, unit) js" where
  "builtinArrayBufferResize H obj arg w =
     (if \<not> isResizableArrayBuffer w obj then throwTypeError w
      else bindJ (toNumber H arg) (\<lambda>d. bindJ (throwTypeErrorIfDetached obj) (\<lambda>_ w.
             case numberToInteger d of
               None \<Rightarrow> throwRangeError w
             | Some n \<Rightarrow>
                 (case maxByteLength w obj of
                    None \<Rightarrow> None
                  | Some maxLength \<Rightarrow>
                      if n < 0 \<or> n > int maxLength then throwRangeError w
                      else case Option.bind (slot (mm_buffers w) obj) ab_backingStore of
                             None \<Rightarrow> None
                           | Some s \<Rightarrow> doJ (resize s (nat n)) w))) w)"

text \<open>\<open>toIndex\<close> with the error that its callers throw\<close>

definition checkedIndex :: "ElementHost \<Rightarrow> Value \<Rightarrow> (Memory, nat) js" where
  "checkedIndex H v = bindJ (toIndex H v) (\<lambda>n. case n of None \<Rightarrow> throwRangeError | Some n \<Rightarrow> retJ n)"

text \<open>The new length; \<open>None\<close> as argument stands for none, or undefined.\<close>

definition transferLength :: "ElementHost \<Rightarrow> nat \<Rightarrow> Value option \<Rightarrow> (Memory, nat) js" where
  "transferLength H obj arg w =
     (case arg of
        None \<Rightarrow> retJ (bufferByteLength w obj) w
      | Some v \<Rightarrow> checkedIndex H v w)"

definition moveData :: "nat \<Rightarrow> nat \<Rightarrow> nat \<Rightarrow> (Memory, nat) js" where
  "moveData obj newByteLength newValue =
     bindJ (doJ (\<lambda>w. copyData newValue obj (min newByteLength (bufferByteLength w obj)) w)) (\<lambda>_. bindJ (doJ (detachArrayBuffer obj)) (\<lambda>_. retJ newValue))"

definition builtinArrayBufferTransfer :: "ElementHost \<Rightarrow> nat \<Rightarrow> Value option \<Rightarrow> (Memory, nat) js" where
  "builtinArrayBufferTransfer H obj arg =
     bindJ (throwTypeErrorIfDetached obj) (\<lambda>_. bindJ (transferLength H obj arg) (\<lambda>newByteLength. bindJ (throwTypeErrorIfDetached obj) (\<lambda>_ w.
       if isResizableArrayBuffer w obj
       then case maxByteLength w obj of
              None \<Rightarrow> None
            | Some maxLength \<Rightarrow>
                if newByteLength > maxLength then throwRangeError w
                else bindJ (allocateArrayBuffer newByteLength (Some maxLength) True) (moveData obj newByteLength) w
       else bindJ (allocateArrayBuffer newByteLength (Some newByteLength) False) (moveData obj newByteLength) w)))"

definition builtinArrayBufferTransferToFixedLength :: "ElementHost \<Rightarrow> nat \<Rightarrow> Value option \<Rightarrow> (Memory, nat) js" where
  "builtinArrayBufferTransferToFixedLength H obj arg =
     bindJ (throwTypeErrorIfDetached obj) (\<lambda>_. bindJ (transferLength H obj arg) (\<lambda>newByteLength.
       bindJ (allocateArrayBuffer newByteLength (Some newByteLength) False) (moveData obj newByteLength)))"

section \<open>Constructors of views\<close>

definition newView :: "ViewKind \<Rightarrow> (Memory, nat) js" where
  "newView kind w = retJ (length (mm_views w)) (w\<lparr>mm_views := mm_views w @ [Some (newArrayBufferView kind)]\<rparr>)"

text \<open>\<open>length\<close> is \<open>None\<close> if it is undefined.\<close>

definition initializeTypedArrayFromArrayBuffer :: "ElementHost \<Rightarrow> TypedArrayType \<Rightarrow> nat \<Rightarrow> nat \<Rightarrow> Value \<Rightarrow> Value option \<Rightarrow> (Memory, unit) js" where
  "initializeTypedArrayFromArrayBuffer H t obj buf byteOffset count =
     bindJ (checkedIndex H byteOffset) (\<lambda>offset.
           if offset mod elementSize t \<noteq> 0 then throwRangeError
           else bindJ (case count of None \<Rightarrow> retJ 0 | Some v \<Rightarrow> checkedIndex H v)
             (\<lambda>newLength. bindJ (throwTypeErrorIfDetached buf) (\<lambda>_ w.
                let bufferByteLength = bufferByteLength w buf
                in case count of
                     None \<Rightarrow>
                       if (bufferByteLength mod elementSize t \<noteq> 0 \<and> \<not> isResizableArrayBuffer w buf) \<or> bufferByteLength < offset then throwRangeError w
                       else let newByteLength = bufferByteLength - offset
                            in doJ (setBuffer obj (Some buf) offset newByteLength (newByteLength div elementSize t) True) w
                   | Some _ \<Rightarrow>
                       let newByteLength = newLength * elementSize t
                       in if bufferByteLength < newByteLength \<or> offset > bufferByteLength - newByteLength then throwRangeError w
                          else doJ (setBuffer obj (Some buf) offset newByteLength (newByteLength div elementSize t) False) w)))"

text \<open>The end of the constructor of data views: the new view is bound to the buffer.\<close>

definition bindDataView :: "nat \<Rightarrow> nat \<Rightarrow> bool \<Rightarrow> nat option \<Rightarrow> bool \<Rightarrow> (Memory, nat) js" where
  "bindDataView buf offset given viewByteLength isAuto =
     bindJ (newView DataView) (\<lambda>obj. bindJ (throwTypeErrorIfDetached buf) (\<lambda>_ w.
               let bufferByteLength = ArrayBuffers.bufferByteLength w buf
               in if offset > bufferByteLength then throwRangeError w
                  else if given \<and> offset + the viewByteLength > bufferByteLength then throwRangeError w
                  else bindJ (doJ (setBuffer obj (Some buf) offset (case viewByteLength of None \<Rightarrow> bufferByteLength - offset | Some n \<Rightarrow> n) 0 isAuto))
                         (\<lambda>_. retJ obj) w))"

text \<open>\<open>new DataView(buffer, ...)\<close>: the arguments behind the buffer, and the reading of the prototype, which may run a script\<close>

definition builtinDataViewConstructor :: "ElementHost \<Rightarrow> (Memory, unit) js \<Rightarrow> nat \<Rightarrow> Value list \<Rightarrow> (Memory, nat) js" where
  "builtinDataViewConstructor H getPrototype buf args =
     bindJ (case args of [] \<Rightarrow> retJ 0 | v # _ \<Rightarrow> checkedIndex H v) (\<lambda>offset.
     bindJ (throwTypeErrorIfDetached buf) (\<lambda>_ w.
       let bufferByteLength = bufferByteLength w buf; given = (2 \<le> length args \<and> args ! 1 \<noteq> Undefined)
       in if offset > bufferByteLength then throwRangeError w
          else bindJ (if given then bindJ (checkedIndex H (args ! 1)) (\<lambda>n w. if offset + n > bufferByteLength then throwRangeError w else retJ (Some n) w)
                      else retJ (if isResizableArrayBuffer w buf then None else Some (bufferByteLength - offset)))
            (\<lambda>viewByteLength. bindJ getPrototype (\<lambda>_. bindDataView buf offset given viewByteLength (length args < 2))) w))"

section \<open>Searching\<close>

function searchUp :: "(nat \<Rightarrow> bool option) \<Rightarrow> nat \<Rightarrow> nat \<Rightarrow> nat option option" where
  "searchUp m k count = (if k < count then (case m k of None \<Rightarrow> None | Some True \<Rightarrow> Some (Some k) | Some False \<Rightarrow> searchUp m (Suc k) count) else Some None)"
  by pat_completeness auto
termination by (relation "measure (\<lambda>(m, k, count). count - k)") auto

declare searchUp.simps [simp del]

fun searchDown :: "(nat \<Rightarrow> bool option) \<Rightarrow> nat \<Rightarrow> nat option option" where
  "searchDown m k = (case m k of None \<Rightarrow> None | Some True \<Rightarrow> Some (Some k) | Some False \<Rightarrow> (case k of 0 \<Rightarrow> Some None | Suc j \<Rightarrow> searchDown m j))"

declare searchDown.simps [simp del]

text \<open>The test of the bytes of an element; \<open>None\<close> means that no element can match.\<close>

definition searchTest :: "ElementHost \<Rightarrow> TypedArrayType \<Rightarrow> Value \<Rightarrow> (byte list \<Rightarrow> bool) option" where
  "searchTest H t value =
     (if isBigIntArray t
      then (case value of BigIntValue p n \<Rightarrow> Some (\<lambda>bytes. codeOf bytes = uint (h_bigModulo H n)) | _ \<Rightarrow> None)
      else if \<not> isNumber value then None
      else if t = TFloat16 \<or> t = TFloat32 \<or> t = TFloat64
      then if isnan (asNumber value) then None
           else Some (\<lambda>bytes. doubleEq
                  (if t = TFloat16 then convertFloat16ToFloat64 (word_of_int (codeOf bytes))
                   else if t = TFloat32 then word_of_int (floatCast 23 8 52 11 (codeOf bytes)) else word_of_int (codeOf bytes)) (asNumber value))
      else (case value of
              Int32 i \<Rightarrow> Some (\<lambda>bytes. bytes = bytesOf (elementSize t) i)
            | Double d \<Rightarrow> if iszero d then Some (\<lambda>bytes. bytes = bytesOf (elementSize t) 0) else None
            | _ \<Rightarrow> None))"

definition searchIndex :: "bool \<Rightarrow> (nat \<Rightarrow> bool option) \<Rightarrow> nat \<Rightarrow> nat \<Rightarrow> nat option option" where
  "searchIndex isForward m k count =
     (if isForward then searchUp m k count
      else if k \<ge> count then (if count = 0 then Some None else searchDown m (count - 1))
      else searchDown m k)"

definition fastTypedArrayIndexSearch :: "ElementHost \<Rightarrow> bool \<Rightarrow> TypedArrayType \<Rightarrow> ArrayBufferView \<Rightarrow> nat \<Rightarrow> nat \<Rightarrow> Value \<Rightarrow> (Memory, int) js" where
  "fastTypedArrayIndexSearch H isForward t v k count value w =
     (case searchTest H t value of
        None \<Rightarrow> retJ (- 1) w
      | Some test \<Rightarrow>
          if \<not> isBigIntArray t \<and> v_cachedRawBufferAddress v = None then retJ (- 1) w
          else (case searchIndex isForward
                  (\<lambda>j. map_option test (Option.bind (v_cachedRawBufferAddress v) (\<lambda>(d, offset). readData w d (offset + j * elementSize t) (elementSize t)))) k count of
                  None \<Rightarrow> None
                | Some None \<Rightarrow> retJ (- 1) w
                | Some (Some j) \<Rightarrow> retJ (int j) w))"

definition validateTypedArray :: "nat \<Rightarrow> (Memory, unit) js" where
  "validateTypedArray i = withTypedArray i (\<lambda>t v b w. if isDetachedBuffer w b \<or> v_wasResetByInvalidByteLength v then throwTypeError w else retJ () w)"

definition toInteger :: "ElementHost \<Rightarrow> Value \<Rightarrow> (Memory, int option \<times> bool) js" where
  "toInteger H v = bindJ (toNumber H v) (\<lambda>d. retJ (numberToInteger d, bit d 63))"

text \<open>\<open>fromIndex\<close> is \<open>None\<close> if it was not passed.\<close>

definition builtinTypedArrayIndexOf :: "ElementHost \<Rightarrow> nat \<Rightarrow> Value \<Rightarrow> Value option \<Rightarrow> (Memory, int) js" where
  "builtinTypedArrayIndexOf H i value fromIndex =
     bindJ (validateTypedArray i) (\<lambda>_. withTypedArray i (\<lambda>t v b.
       let count = v_arrayLength v
       in if count = 0 then retJ (- 1)
          else bindJ (case fromIndex of None \<Rightarrow> retJ (Some 0, False) | Some f \<Rightarrow> toInteger H f) (\<lambda>(n, negative).
            if (case n of None \<Rightarrow> \<not> negative | Some n \<Rightarrow> n \<ge> int count) then retJ (- 1)
            else let k = (case n of None \<Rightarrow> 0 | Some n \<Rightarrow> if n \<ge> 0 then nat n else nat (int count + n))
                 in withTypedArray i (\<lambda>t v b. fastTypedArrayIndexSearch H True t v k (min (v_arrayLength v) count) value))))"

definition builtinTypedArrayLastIndexOf :: "ElementHost \<Rightarrow> nat \<Rightarrow> Value \<Rightarrow> Value option \<Rightarrow> (Memory, int) js" where
  "builtinTypedArrayLastIndexOf H i value fromIndex =
     bindJ (validateTypedArray i) (\<lambda>_. withTypedArray i (\<lambda>t v b.
       let count = v_arrayLength v
       in if count = 0 then retJ (- 1)
          else bindJ (case fromIndex of None \<Rightarrow> retJ (Some (int count - 1), False) | Some f \<Rightarrow> toInteger H f) (\<lambda>(n, negative).
            if n = None \<and> negative then retJ (- 1)
            else let k = (case n of None \<Rightarrow> int count - 1 | Some n \<Rightarrow> if n \<ge> 0 then min n (int count - 1) else int count + n)
                 in if k < 0 then retJ (- 1)
                    else withTypedArray i (\<lambda>t v b. fastTypedArrayIndexSearch H False t v (nat k) (v_arrayLength v) value))))"

end
