(* ===== verification/BuiltinSafety.thy ===== *)
theory BuiltinSafety
  imports BufferBuiltins ElementSafety
begin

text \<open>
  The built-in functions on buffers and arrays end without an access outside of memory. A buffer that says it is resizable has a store that is (\<open>resizable_ok\<close>), since
  \<open>resize\<close> of \<open>src/builtins/BuiltinArrayBuffer.cpp\<close> tests the flag of the buffer and resizes the store.
\<close>

section \<open>Buffers that say they are resizable\<close>

definition flagsOf :: "Memory \<Rightarrow> nat \<Rightarrow> (nat option \<times> bool) option" where
  "flagsOf w b = map_option (\<lambda>buf. (ab_backingStore buf, ab_isResizable buf)) (slot (mm_buffers w) b)"

definition fieldsOf :: "Memory \<Rightarrow> nat \<Rightarrow> (bool \<times> nat) option" where
  "fieldsOf w s = map_option (\<lambda>st. (bs_isResizable st, bs_byteLength st)) (slot (mm_stores w) s)"

definition kindOf :: "Memory \<Rightarrow> nat \<Rightarrow> bool option" where
  "kindOf w s = map_option bs_isResizable (slot (mm_stores w) s)"

definition resizable_ok :: "Memory \<Rightarrow> bool" where
  "resizable_ok w \<longleftrightarrow> (\<forall>b s r k. flagsOf w b = Some (Some s, r) \<longrightarrow> kindOf w s = Some k \<longrightarrow> r = k)"

lemma observer_links: "arrayBufferObserver a n i w = Some w' \<Longrightarrow> mm_buffers w' = mm_buffers w \<and> mm_stores w' = mm_stores w"
  by (auto simp: arrayBufferObserver_def Let_def split: option.splits)

lemma notify_links:
  assumes "\<And>x w w'. f x w = Some w' \<Longrightarrow> mm_buffers w' = mm_buffers w \<and> mm_stores w' = mm_stores w"
  shows "notifyAll f items w = Some w' \<Longrightarrow> mm_buffers w' = mm_buffers w \<and> mm_stores w' = mm_stores w"
proof (induction items arbitrary: w)
  case (Cons i items)
  show ?case
  proof (cases i)
    case (Some x)
    then obtain w1 where "f x w = Some w1" "notifyAll f items w1 = Some w'" using Cons.prems by (auto simp: Option.bind_eq_Some_conv)
    then show ?thesis using assms Cons.IH by metis
  qed (use Cons in simp)
qed simp

lemma bufferUpdated_links: "bufferUpdated a n b w = Some w' \<Longrightarrow> mm_buffers w' = mm_buffers w \<and> mm_stores w' = mm_stores w"
  by (cases "slot (mm_buffers w) b") (simp_all add: bufferUpdated_def notify_links [OF observer_links])

lemma storeUpdated_links: "storeUpdated s w = Some w' \<Longrightarrow> mm_buffers w' = mm_buffers w \<and> mm_stores w' = mm_stores w"
  by (cases "slot (mm_stores w) s") (simp_all add: storeUpdated_def notify_links [OF bufferUpdated_links])

lemma update_links:
  assumes "memory_ok w" "updateBackingStore b bs w = Some w'" "\<And>s. bs = Some s \<Longrightarrow> liveStore w s"
  shows "fieldsOf w' = fieldsOf w" "kindOf w' = kindOf w" "c \<noteq> b \<Longrightarrow> flagsOf w' c = flagsOf w c" "\<exists>r. flagsOf w' b = Some (bs, r) \<and> (\<forall>s. bs = Some s \<longrightarrow> kindOf w s = Some r)"
proof -
  obtain buf where b: "slot (mm_buffers w) b = Some buf" using live_if_updated [OF assms(2)] by (auto simp: liveBuffer_def)
  obtain stores where u: "mm_stores w' = stores" "relinks b bs (mm_stores w) stores"
    "\<And>c. slot (mm_buffers w') c = (if c = b then Some (buf\<lparr>ab_backingStore := bs, ab_isResizable := (case Option.bind bs (slot (mm_stores w)) of
        None \<Rightarrow> ab_isResizable buf | Some st \<Rightarrow> bs_isResizable st)\<rparr>) else slot (mm_buffers w) c)"
    using assms(2,3) by (rule_tac updateBackingStore_ok [OF assms(1) b, of bs]) (auto simp: liveStore_def)
  note f = relinks_fields [OF u(2)]
  show "kindOf w' = kindOf w" using f(3) u(1) by (simp add: kindOf_def fun_eq_iff)
  show "fieldsOf w' = fieldsOf w"
  proof
    fix s
    show "fieldsOf w' s = fieldsOf w s" using f(2) [of s] f(3) [of s] u(1) by (cases "slot (mm_stores w) s"; cases "slot stores s") (simp_all add: fieldsOf_def)
  qed
  show "c \<noteq> b \<Longrightarrow> flagsOf w' c = flagsOf w c" using u(3) [of c] by (simp add: flagsOf_def)
  show "\<exists>r. flagsOf w' b = Some (bs, r) \<and> (\<forall>s. bs = Some s \<longrightarrow> kindOf w s = Some r)"
    using u(3) [of b] assms(3) by (cases bs) (auto simp: flagsOf_def kindOf_def liveStore_def)
qed

lemma update_resizable:
  assumes "memory_ok w" "resizable_ok w" "updateBackingStore b bs w = Some w'" "\<And>s. bs = Some s \<Longrightarrow> liveStore w s"
  shows "resizable_ok w'"
  unfolding resizable_ok_def
proof (intro allI impI)
  fix c s r k
  assume c: "flagsOf w' c = Some (Some s, r)" "kindOf w' s = Some k"
  note u = update_links [OF assms(1,3,4)]
  show "r = k"
  proof (cases "c = b")
    case True
    then show ?thesis using u(2,4) c by auto
  next
    case False
    then show ?thesis using u(2) u(3) [of c] c assms(2) unfolding resizable_ok_def by metis
  qed
qed

lemma same_resizable:
  assumes "resizable_ok w" "\<And>b s r. flagsOf w' b = Some (Some s, r) \<Longrightarrow> flagsOf w b = Some (Some s, r)" "\<And>s k. kindOf w' s = Some k \<Longrightarrow> kindOf w s = Some k"
  shows "resizable_ok w'"
  using assms unfolding resizable_ok_def by metis

lemma create_resizable:
  assumes "memory_ok w" "resizable_ok w"
  shows "resizable_ok (snd (createStore bytes mk w))"
  unfolding resizable_ok_def
proof (intro allI impI)
  fix b s r k
  assume b: "flagsOf (snd (createStore bytes mk w)) b = Some (Some s, r)" "kindOf (snd (createStore bytes mk w)) s = Some k"
  have f: "flagsOf w b = Some (Some s, r)" using b(1) by (simp add: flagsOf_def create_live(2))
  then obtain buf where "slot (mm_buffers w) b = Some buf" "ab_backingStore buf = Some s" by (auto simp: flagsOf_def)
  then have "slot (mm_stores w) s \<noteq> None" using assms(1) memoryLinks_okD(2) [of w b buf] by (auto simp: memory_ok_def buffer_ok_def)
  then have "s < length (mm_stores w)" by (auto simp: slot_def split: if_splits)
  then have "kindOf w s = Some k" using b(2) by (simp add: kindOf_def createStore_def mallocData_def slot_append)
  then show "r = k" using f assms(2) unfolding resizable_ok_def by blast
qed

lemma detach_resizable:
  assumes "memory_ok w" "resizable_ok w" "detachArrayBuffer b w = Some w'"
  shows "resizable_ok w'"
  using update_resizable [OF assms(1,2), of b None] assms(3) by (simp add: detachArrayBuffer_def)

lemma detach_facts:
  assumes "memory_ok w" "detachArrayBuffer b w = Some w'"
  shows "memory_ok w'" "liveBuffer w' c = liveBuffer w c" "liveStore w' s = liveStore w s"
  using detach_ok [OF assms(1) live_if_done(1) [OF assms(2)]] assms(2) by (metis option.inject)+

lemma allocate_links:
  assumes ok: "memory_ok w" and r: "resizable_ok w" and mk: "\<And>w. memory_ok w \<Longrightarrow> memory_ok (snd (createStore bytes mk w))"
    and a: "Option.bind (detachArrayBuffer b w) (\<lambda>w1. let (s, w2) = createStore bytes mk w1 in updateBackingStore b (Some s) w2) = Some w'"
  shows "resizable_ok w'" "\<exists>s st. flagsOf w' b = Some (Some s, bs_isResizable (mk st)) \<and> fieldsOf w' s = Some (bs_isResizable (mk st), bs_byteLength (mk st))"
proof -
  obtain w1 where w1: "detachArrayBuffer b w = Some w1" using a by (cases "detachArrayBuffer b w") simp_all
  obtain s w2 where c: "createStore bytes mk w1 = (s, w2)" by (cases "createStore bytes mk w1")
  then have u: "updateBackingStore b (Some s) w2 = Some w'" using a w1 by simp
  note d = detach_facts [OF ok w1]
  have w2: "memory_ok w2" "liveStore w2 s" "resizable_ok w2" using mk [OF d(1)] create_live(1) [of bytes mk w1] create_resizable [OF d(1) detach_resizable [OF ok r w1], of bytes mk] by (simp_all add: c)
  show "resizable_ok w'" by (rule update_resizable [OF w2(1,3) u]) (use w2(2) in simp)
  have "\<exists>st. slot (mm_stores w2) s = Some (mk st)" using c by (auto simp: createStore_def mallocData_def slot_append)
  then obtain st where st: "slot (mm_stores w2) s = Some (mk st)" by blast
  note l = update_links [OF w2(1) u]
  have "fieldsOf w' s = Some (bs_isResizable (mk st), bs_byteLength (mk st))" using l(1) w2(2) st by (simp add: fieldsOf_def)
  moreover have "flagsOf w' b = Some (Some s, bs_isResizable (mk st))" using l(4) w2(2) st by (auto simp: kindOf_def)
  ultimately show "\<exists>s st. flagsOf w' b = Some (Some s, bs_isResizable (mk st)) \<and> fieldsOf w' s = Some (bs_isResizable (mk st), bs_byteLength (mk st))" by blast
qed

lemma allocateBuffer_links:
  assumes "memory_ok w" "resizable_ok w" "allocateBuffer b n w = Some w'"
  shows "resizable_ok w'" "\<exists>s. flagsOf w' b = Some (Some s, False) \<and> fieldsOf w' s = Some (False, n)"
  using allocate_links [OF assms(1,2) createBuffer_ok(1) [unfolded create_defs] assms(3) [unfolded allocateBuffer_def createDefaultNonSharedBackingStore_def]] by simp_all

lemma allocateResizableBuffer_links:
  assumes "memory_ok w" "resizable_ok w" "n \<le> m" "allocateResizableBuffer b n m w = Some w'"
  shows "resizable_ok w'" "\<exists>s. flagsOf w' b = Some (Some s, True) \<and> fieldsOf w' s = Some (True, n)"
  using allocate_links [OF assms(1,2) createBuffer_ok(2) [unfolded create_defs, OF _ assms(3)]
    assms(4) [unfolded allocateResizableBuffer_def createDefaultResizableNonSharedBackingStore_def]] by simp_all

lemma changeStore_links:
  assumes "changeStore s f w = Some w'" "\<And>st. bs_isResizable (f st) = bs_isResizable st"
  shows "mm_buffers w' = mm_buffers w" "kindOf w' = kindOf w"
  using assms by (auto simp: changeStore_def kindOf_def slot_list_update fun_eq_iff split: option.splits)

lemma realloc_links: "reallocData d m n w = Some (e, w') \<Longrightarrow> mm_buffers w' = mm_buffers w \<and> mm_stores w' = mm_stores w"
  by (auto simp: reallocData_def mallocData_def freeData_def split: option.splits)

lemma changed_links:
  assumes "mm_buffers w1 = mm_buffers w" "mm_stores w1 = mm_stores w" "Option.bind (changeStore s f w1) (storeUpdated s) = Some w'" "\<And>st. bs_isResizable (f st) = bs_isResizable st"
  shows "mm_buffers w' = mm_buffers w" "kindOf w' = kindOf w"
proof -
  obtain w2 where w2: "changeStore s f w1 = Some w2" "storeUpdated s w2 = Some w'" using assms(3) by (auto simp: Option.bind_eq_Some_conv)
  note c = changeStore_links [OF w2(1) assms(4)] and u = storeUpdated_links [OF w2(2)]
  show "mm_buffers w' = mm_buffers w" using c(1) u assms(1) by simp
  show "kindOf w' = kindOf w" using c(2) u assms(2) by (simp add: kindOf_def fun_eq_iff)
qed

lemma bindOption:
  assumes "Option.bind m f = Some y"
  obtains x where "m = Some x" "f x = Some y"
  using assms by (cases m) simp_all

lemma resize_links:
  assumes "resize s n w = Some w'"
  shows "mm_buffers w' = mm_buffers w \<and> kindOf w' = kindOf w"
proof -
  obtain st where st: "slot (mm_stores w) s = Some st" using assms by (cases "slot (mm_stores w) s") (simp_all add: resize_def)
  let ?m = "if bs_byteLength st < n then writeData w (bs_data st) (bs_byteLength st) (replicate (n - bs_byteLength st) 0) else Some w"
  have "Option.bind ?m (\<lambda>w1. Option.bind (changeStore s (\<lambda>st. st\<lparr>bs_byteLength := n\<rparr>) w1) (storeUpdated s)) = Some w'" using assms st by (simp add: resize_def split: if_splits)
  then obtain w1 where r: "?m = Some w1" "Option.bind (changeStore s (\<lambda>st. st\<lparr>bs_byteLength := n\<rparr>) w1) (storeUpdated s) = Some w'" by (rule bindOption)
  have "mm_buffers w1 = mm_buffers w" "mm_stores w1 = mm_stores w" using r(1) by (auto simp: writeData_def split: option.splits if_splits)
  from changed_links [OF this r(2)] show ?thesis by simp
qed

lemma reallocate_links:
  assumes "reallocate s n w = Some w'"
  shows "mm_buffers w' = mm_buffers w \<and> kindOf w' = kindOf w"
proof -
  obtain st where st: "slot (mm_stores w) s = Some st" using assms by (cases "slot (mm_stores w) s") (simp_all add: reallocate_def)
  let ?m = "if bs_isAllocatedByPlatform st then reallocData (bs_data st) (bs_byteLength st) n w else Some (mallocData (replicate n 0) (freeData (bs_data st) w))"
  show ?thesis
  proof (cases "bs_byteLength st = n")
    case True
    then show ?thesis using assms st by (simp add: reallocate_def)
  next
    case False
    then have "Option.bind ?m (\<lambda>(d, w1). Option.bind (changeStore s (\<lambda>st. st\<lparr>bs_data := d, bs_byteLength := n, bs_isAllocatedByPlatform := True\<rparr>) w1) (storeUpdated s)) = Some w'"
      using assms st by (simp add: reallocate_def)
    then obtain x where x: "?m = Some x" "(case x of (d, w1) \<Rightarrow> Option.bind (changeStore s (\<lambda>st. st\<lparr>bs_data := d, bs_byteLength := n, bs_isAllocatedByPlatform := True\<rparr>) w1) (storeUpdated s)) = Some w'"
      by (rule bindOption)
    obtain d w1 where [simp]: "x = (d, w1)" by (cases x)
    have "mm_buffers w1 = mm_buffers w" "mm_stores w1 = mm_stores w" using x(1) by (auto simp: mallocData_def freeData_def split: if_splits dest: realloc_links)
    from changed_links [OF this x(2) [simplified prod.case \<open>x = (d, w1)\<close>]] show ?thesis by simp
  qed
qed

lemma setBuffer_links:
  assumes "setBuffer i bo byteOffset byteLength arrayLength isAuto w = Some w'"
  shows "flagsOf w' = flagsOf w" "mm_stores w' = mm_stores w"
proof -
  have c: "changeBuffer b (\<lambda>buf. buf\<lparr>ab_observerItems := f buf\<rparr>) w1 = Some w2 \<Longrightarrow> flagsOf w2 = flagsOf w1 \<and> mm_stores w2 = mm_stores w1" for b f w1 w2
    by (auto simp: changeBuffer_def flagsOf_def slot_list_update fun_eq_iff split: option.splits)
  have vw: "flagsOf (w1\<lparr>mm_views := vs\<rparr>) = flagsOf w1" for w1 vs by (simp add: flagsOf_def fun_eq_iff)
  obtain v where v: "slot (mm_views w) i = Some v" using assms by (cases "slot (mm_views w) i") (simp_all add: setBuffer_def)
  let ?m = "case v_buffer v of None \<Rightarrow> Some w | Some b \<Rightarrow> changeBuffer b (\<lambda>buf. buf\<lparr>ab_observerItems := removeObserver i (ab_observerItems buf)\<rparr>) w"
  obtain w1 where w1: "?m = Some w1" using assms [unfolded setBuffer_def v option.case] by (rule bindOption)
  then have a: "flagsOf w1 = flagsOf w \<and> mm_stores w1 = mm_stores w" using c by (cases "v_buffer v") auto
  obtain vs where vs: "(case bo of None \<Rightarrow> Some (w1\<lparr>mm_views := vs\<rparr>) | Some b \<Rightarrow> changeBuffer b (\<lambda>buf. buf\<lparr>ab_observerItems := addObserver i (ab_observerItems buf)\<rparr>) (w1\<lparr>mm_views := vs\<rparr>)) = Some w'"
    using assms [unfolded setBuffer_def v option.case w1 Option.bind.simps Let_def] by (rule that)
  have "flagsOf w' = flagsOf (w1\<lparr>mm_views := vs\<rparr>) \<and> mm_stores w' = mm_stores (w1\<lparr>mm_views := vs\<rparr>)" using vs c by (cases bo) auto
  then show "flagsOf w' = flagsOf w" "mm_stores w' = mm_stores w" using a vw by simp_all
qed

lemma step_resizable: "memoryStep w w' \<Longrightarrow> memory_ok w \<Longrightarrow> resizable_ok w \<Longrightarrow> resizable_ok w'"
proof (induction rule: memoryStep.induct)
  case (new_buffer w)
  show ?case by (rule same_resizable [OF new_buffer(2)]) (auto simp: flagsOf_def kindOf_def slot_append newArrayBuffer_def split: if_splits)
next
  case (new_view w k)
  show ?case by (rule same_resizable [OF new_view(2)]) (auto simp: flagsOf_def kindOf_def)
next
  case (new_store w n)
  then show ?case unfolding create_defs using create_resizable by blast
next
  case (new_resizable n m w)
  then show ?case unfolding create_defs using create_resizable by blast
next
  case (new_external w bytes)
  then show ?case unfolding create_defs using create_resizable by blast
next
  case (allocate b n w w')
  show ?case by (rule allocateBuffer_links(1) [OF allocate(2,3,1)])
next
  case (allocate_resizable n m b w w')
  show ?case by (rule allocateResizableBuffer_links(1) [OF allocate_resizable(3,4,1,2)])
next
  case (attach w s b w')
  then obtain w1 where w1: "detachArrayBuffer b w = Some w1" "updateBackingStore b (Some s) w1 = Some w'" unfolding attachBuffer_def by (elim bindOption)
  note d = detach_facts [OF attach(3) w1(1)]
  show ?case by (rule update_resizable [OF d(1) detach_resizable [OF attach(3,4) w1(1)] w1(2)]) (use attach(1) d(3) in simp)
next
  case (detach b w w')
  show ?case by (rule detach_resizable [OF detach(2,3,1)])
next
  case (resize s n w w')
  note l = resize_links [OF resize(1)]
  show ?case by (rule same_resizable [OF resize(3)]) (use l in \<open>simp_all add: flagsOf_def\<close>)
next
  case (reallocate w s st n w')
  note l = reallocate_links [OF reallocate(3)]
  show ?case by (rule same_resizable [OF reallocate(5)]) (use l in \<open>simp_all add: flagsOf_def\<close>)
next
  case (bind w i v b byteOffset byteLength arrayLength isAuto w')
  note l = setBuffer_links [OF bind(5)]
  show ?case by (rule same_resizable [OF bind(7)]) (use l in \<open>simp_all add: kindOf_def\<close>)
next
  case (write_bytes w d i bytes w')
  note l = writeData_ok [OF write_bytes(2,1)]
  show ?case by (rule same_resizable [OF write_bytes(3)]) (use l in \<open>simp_all add: flagsOf_def kindOf_def\<close>)
next
  case (collect_views w dead)
  show ?case by (rule same_resizable [OF collect_views(2)]) (auto simp: flagsOf_def kindOf_def collectViews_def slot_map)
next
  case (collect_buffers w dead)
  show ?case by (rule same_resizable [OF collect_buffers(3)]) (auto simp: flagsOf_def kindOf_def collectBuffers_def slot_map slot_map_upt slot_def split: if_splits)
next
  case (collect_store w s)
  show ?case by (rule same_resizable [OF collect_store(3)]) (auto simp: flagsOf_def kindOf_def collectStore_def freeData_def slot_list_update split: option.splits if_splits)
qed

lemma reachable_resizable: "reachableMemory w \<Longrightarrow> resizable_ok w"
  unfolding reachableMemory_def
proof (induction rule: rtranclp_induct)
  case base
  show ?case by (simp add: resizable_ok_def flagsOf_def emptyMemory_def slot_def)
next
  case (step w w')
  then show ?case using step_resizable reachable_ok by blast
qed

section \<open>The functions end\<close>

definition endsSafely :: "(Memory, 'a) js \<Rightarrow> Memory \<Rightarrow> bool" where
  "endsSafely m w \<longleftrightarrow> (\<exists>r w'. m w = Some (r, w') \<and> reachableMemory w')"

lemma ends_simple: "reachableMemory w \<Longrightarrow> endsSafely (retJ x) w" "reachableMemory w \<Longrightarrow> endsSafely throwTypeError w" "reachableMemory w \<Longrightarrow> endsSafely throwRangeError w"
  by (simp_all add: endsSafely_def retJ_def throwTypeError_def throwRangeError_def)

lemma ends_bind:
  assumes "safeAt m w Q" "reachableMemory w" "\<And>x w1. Q x w1 \<Longrightarrow> reachableMemory w1 \<Longrightarrow> keepsObjects w w1 \<Longrightarrow> endsSafely (f x) w1"
  shows "endsSafely (bindJ m f) w"
proof -
  obtain r w1 where m: "m w = Some (r, w1)" "memoryStep\<^sup>*\<^sup>* w w1" "keepsObjects w w1" "\<forall>x. r = Inr x \<longrightarrow> Q x w1" using assms(1) by (auto simp: safeAt_def)
  have "reachableMemory w1" using assms(2) m(2) by (rule reachable_step)
  then show ?thesis using m assms(3) by (cases r) (auto simp: endsSafely_def bindJ_def)
qed

lemma ends_do:
  assumes "f w = Some w1" "endsSafely (g ()) w1"
  shows "endsSafely (bindJ (doJ f) g) w"
  using assms by (simp add: endsSafely_def bindJ_def doJ_def retJ_def)

lemma ends_attached:
  assumes "reachableMemory w" "\<not> isDetachedBuffer w b \<Longrightarrow> endsSafely (f ()) w"
  shows "endsSafely (bindJ (throwTypeErrorIfDetached b) f) w"
  using assms by (cases "isDetachedBuffer w b") (simp_all add: throwTypeErrorIfDetached_def endsSafely_def bindJ_def throwTypeError_def retJ_def)

lemma safe_checkedIndex:
  assumes "conversions_ok H" "reachableMemory w"
  shows "safeAt (checkedIndex H v) w (\<lambda>_ _. True)"
  unfolding checkedIndex_def by (rule safe_bind [OF safe_toIndex [OF assms]]) (simp add: safe_ret safe_throw split: option.split)

lemma live_flags: "liveBuffer w c \<longleftrightarrow> flagsOf w c \<noteq> None"
  by (simp add: liveBuffer_def flagsOf_def)

lemma allocate_live:
  assumes ok: "memory_ok w" and mk: "\<And>w. memory_ok w \<Longrightarrow> memory_ok (snd (createStore bytes mk w))"
    and a: "Option.bind (detachArrayBuffer b w) (\<lambda>w1. let (s, w2) = createStore bytes mk w1 in updateBackingStore b (Some s) w2) = Some w'" and c: "liveBuffer w c"
  shows "liveBuffer w' c"
proof -
  obtain w1 where w1: "detachArrayBuffer b w = Some w1" using a by (cases "detachArrayBuffer b w") simp_all
  obtain s w2 where cr: "createStore bytes mk w1 = (s, w2)" by (cases "createStore bytes mk w1")
  then have u: "updateBackingStore b (Some s) w2 = Some w'" using a w1 by simp
  note d = detach_facts [OF ok w1]
  have w2: "memory_ok w2" "liveStore w2 s" "liveBuffer w2 c" using mk [OF d(1)] create_live [of bytes mk w1] d(2) [of c] c by (simp_all add: cr liveBuffer_def)
  note l = update_links [OF w2(1) u]
  show ?thesis using l(3) [of c] l(4) w2(2,3) by (cases "c = b") (auto simp: live_flags)
qed

lemma attached_length:
  assumes "flagsOf w b = Some (Some s, r)" "fieldsOf w s = Some (k, n)"
  shows "\<not> isDetachedBuffer w b" "bufferByteLength w b = n"
  using assms by (auto simp: flagsOf_def fieldsOf_def isDetachedBuffer_def bufferByteLength_def bufferStore_def)

lemma allocateArrayBuffer_ends:
  assumes w: "reachableMemory w" and m: "\<And>m. mx = Some m \<Longrightarrow> n \<le> m"
  obtains r w' where "allocateArrayBuffer n mx rz w = Some (r, w')" "reachableMemory w'" "\<And>c. liveBuffer w c \<Longrightarrow> liveBuffer w' c"
    "\<And>nb. r = Inr nb \<Longrightarrow> \<not> isDetachedBuffer w' nb \<and> bufferByteLength w' nb = n"
proof (cases "n \<ge> maxArrayBufferSize")
  case True
  then show ?thesis using that [of "Inl RangeError" w] w by (simp add: allocateArrayBuffer_def throwRangeError_def)
next
  case False
  let ?b = "length (mm_buffers w)"
  define w1 where "w1 = w\<lparr>mm_buffers := mm_buffers w @ [Some newArrayBuffer]\<rparr>"
  have w1: "reachableMemory w1" "liveBuffer w1 ?b" "\<And>c. liveBuffer w c \<Longrightarrow> liveBuffer w1 c"
    using reachable_step [OF w r_into_rtranclp [of memoryStep, OF new_buffer]] by (auto simp: w1_def liveBuffer_def slot_append)
  note ok = reachable_memory_ok [OF w1(1)] and rs = reachable_resizable [OF w1(1)]
  show ?thesis
  proof (cases "\<exists>m. mx = Some m \<and> m \<ge> maxArrayBufferSize")
    case True
    then show ?thesis using that [of "Inl RangeError" w1] w1 False by (auto simp: allocateArrayBuffer_def throwRangeError_def w1_def [symmetric])
  next
    case small: False
    show ?thesis
    proof (cases "rz \<and> mx \<noteq> None")
      case True
      then obtain m where mx: "mx = Some m" "n \<le> m" using m by auto
      obtain w2 where w2: "allocateResizableBuffer ?b n m w1 = Some w2" by (rule allocateResizableBuffer_ok [OF ok w1(2) mx(2)])
      have r: "reachableMemory w2" using reachable_step [OF w1(1) r_into_rtranclp [of memoryStep, OF memoryStep.allocate_resizable [OF mx(2) w2]]] .
      have lv: "liveBuffer w c \<Longrightarrow> liveBuffer w2 c" for c
        using allocate_live [OF ok createBuffer_ok(2) [unfolded create_defs, OF _ mx(2)] w2 [unfolded allocateResizableBuffer_def createDefaultResizableNonSharedBackingStore_def]] w1(3) by blast
      obtain s where s: "flagsOf w2 ?b = Some (Some s, True)" "fieldsOf w2 s = Some (True, n)" using allocateResizableBuffer_links(2) [OF ok rs mx(2) w2] by blast
      show ?thesis by (rule that [of "Inr ?b" w2]) (use False small True mx w2 r lv attached_length [OF s] in \<open>auto simp: allocateArrayBuffer_def w1_def [symmetric] bindJ_def doJ_def retJ_def\<close>)
    next
      case nr: False
      obtain w2 where w2: "allocateBuffer ?b n w1 = Some w2" by (rule allocateBuffer_ok [OF ok w1(2)])
      have r: "reachableMemory w2" using reachable_step [OF w1(1) r_into_rtranclp [of memoryStep, OF allocate [OF w2]]] .
      have lv: "liveBuffer w c \<Longrightarrow> liveBuffer w2 c" for c
        using allocate_live [OF ok createBuffer_ok(1) [unfolded create_defs] w2 [unfolded allocateBuffer_def createDefaultNonSharedBackingStore_def]] w1(3) by blast
      obtain s where s: "flagsOf w2 ?b = Some (Some s, False)" "fieldsOf w2 s = Some (False, n)" using allocateBuffer_links(2) [OF ok rs w2] by blast
      have e: "allocateArrayBuffer n mx rz w = Some (Inr ?b, w2)"
        using False small nr w2 by (cases mx) (auto simp: allocateArrayBuffer_def w1_def [symmetric] bindJ_def doJ_def retJ_def)
      show ?thesis by (rule that [of "Inr ?b" w2]) (use e r lv attached_length [OF s] in auto)
    qed
  qed
qed

lemma ends_allocate:
  assumes w: "reachableMemory w" and m: "\<And>m. mx = Some m \<Longrightarrow> n \<le> m"
    and f: "\<And>nb w1. reachableMemory w1 \<Longrightarrow> (\<And>c. liveBuffer w c \<Longrightarrow> liveBuffer w1 c) \<Longrightarrow> \<not> isDetachedBuffer w1 nb \<Longrightarrow> bufferByteLength w1 nb = n \<Longrightarrow> endsSafely (f nb) w1"
  shows "endsSafely (bindJ (allocateArrayBuffer n mx rz) f) w"
proof (rule allocateArrayBuffer_ends [OF w m, where rz = rz])
  fix r w'
  assume a: "allocateArrayBuffer n mx rz w = Some (r, w')" "reachableMemory w'" "\<And>c. liveBuffer w c \<Longrightarrow> liveBuffer w' c"
    "\<And>nb. r = Inr nb \<Longrightarrow> \<not> isDetachedBuffer w' nb \<and> bufferByteLength w' nb = n"
  show ?thesis
  proof (cases r)
    case (Inl e)
    then show ?thesis using a by (simp add: endsSafely_def bindJ_def)
  next
    case (Inr nb)
    then have "endsSafely (f nb) w'" using a f by simp
    then show ?thesis using a(1) Inr by (simp add: endsSafely_def bindJ_def)
  qed
qed

lemma copyData_ends:
  assumes "reachableMemory w" "\<not> isDetachedBuffer w nb" "count \<le> bufferByteLength w nb" "count \<le> bufferByteLength w obj"
  obtains w' where "copyData nb obj count w = Some w'" "reachableMemory w'" "keepsObjects w w'"
proof (cases "count = 0")
  case True
  then show ?thesis using that assms(1) by (simp add: copyData_def)
next
  case False
  note ok = reachable_memory_ok [OF assms(1)]
  have "\<not> isDetachedBuffer w obj" using False assms(4) by (auto simp: isDetachedBuffer_def bufferByteLength_def split: option.splits)
  with ok obtain d from_bytes where d: "bufferData w obj = Some d" "slot (mm_blocks w) d = Some from_bytes" "bufferByteLength w obj \<le> length from_bytes" by (rule buffer_block)
  from ok assms(2) obtain e bytes where e: "bufferData w nb = Some e" "slot (mm_blocks w) e = Some bytes" "bufferByteLength w nb \<le> length bytes" by (rule buffer_block)
  have "0 + length (take count from_bytes) \<le> length bytes" using e(3) assms(3) by simp
  then obtain w' where w': "writeData w e 0 (take count from_bytes) = Some w'" using writeData_Some [OF e(2)] by blast
  have "copyData nb obj count w = Some w'" using False d e(1) w' assms(4) by (simp add: copyData_def readData_def)
  then show ?thesis using that write_step [OF w'] reachable_step [OF assms(1)] by blast
qed

lemma ends_moveData:
  assumes "reachableMemory w" "liveBuffer w obj" "\<not> isDetachedBuffer w nb" "bufferByteLength w nb = n"
  shows "endsSafely (moveData obj n nb) w"
proof -
  have c: "min n (bufferByteLength w obj) \<le> bufferByteLength w nb" "min n (bufferByteLength w obj) \<le> bufferByteLength w obj" using assms(4) by simp_all
  obtain w1 where w1: "copyData nb obj (min n (bufferByteLength w obj)) w = Some w1" "reachableMemory w1" "keepsObjects w w1"
    by (rule copyData_ends [OF assms(1,3) c])
  then have "liveBuffer w1 obj" using assms(2) by (simp add: keepsObjects_def)
  with reachable_memory_ok [OF w1(2)] obtain w2 where w2: "detachArrayBuffer obj w1 = Some w2" by (rule detach_ok)
  then have "reachableMemory w2" using reachable_step [OF w1(2)] detach by blast
  then show ?thesis unfolding moveData_def using w1(1) w2 by (simp add: endsSafely_def bindJ_def doJ_def retJ_def)
qed

lemma safe_transferLength:
  assumes "conversions_ok H" "reachableMemory w"
  shows "safeAt (transferLength H obj arg) w (\<lambda>_ _. True)"
proof (cases arg)
  case None
  then show ?thesis by (simp add: transferLength_def safeAt_def retJ_def)
next
  case (Some v)
  then show ?thesis using safe_checkedIndex [OF assms, of v] by (simp add: transferLength_def safeAt_def)
qed

text \<open>The store of an attached resizable buffer is resizable, so that the assertion of \<open>maxByteLength\<close> holds.\<close>

lemma attached_store:
  assumes "reachableMemory w" "isResizableArrayBuffer w obj" "\<not> isDetachedBuffer w obj"
  obtains buf s st where "slot (mm_buffers w) obj = Some buf" "ab_backingStore buf = Some s" "slot (mm_stores w) s = Some st" "bs_isResizable st"
    "maxByteLength w obj = Some (bs_maxByteLength st)"
proof -
  obtain buf s st where st: "slot (mm_buffers w) obj = Some buf" "ab_backingStore buf = Some s" "slot (mm_stores w) s = Some st"
    using assms(3) by (auto simp: isDetachedBuffer_def bufferStore_def Option.bind_eq_Some_conv)
  have "flagsOf w obj = Some (Some s, True)" "kindOf w s = Some (bs_isResizable st)" using assms(2) st by (simp_all add: flagsOf_def kindOf_def isResizableArrayBuffer_def)
  then have r: "bs_isResizable st" using reachable_resizable [OF assms(1)] unfolding resizable_ok_def by blast
  have "maxByteLength w obj = Some (bs_maxByteLength st)" using st r by (simp add: maxByteLength_def bufferStore_def)
  then show ?thesis using that st r by blast
qed

lemma ends_transfer:
  assumes H: "conversions_ok H" and w: "reachableMemory w" and b: "liveBuffer w obj"
  shows "endsSafely (builtinArrayBufferTransfer H obj arg) w"
  unfolding builtinArrayBufferTransfer_def
proof (intro ends_attached [OF w] ends_bind [OF safe_transferLength [OF H w] w])
  fix n w1 assume w1: "reachableMemory w1" "keepsObjects w w1"
  then have b1: "liveBuffer w1 obj" using b by (simp add: keepsObjects_def)
  have move: "endsSafely (bindJ (allocateArrayBuffer n (Some m) rz) (moveData obj n)) w1" if "n \<le> m" for m rz
    by (rule ends_allocate [OF w1(1)]) (use that b1 ends_moveData in auto)
  show "endsSafely (bindJ (throwTypeErrorIfDetached obj) (\<lambda>_ w.
       if isResizableArrayBuffer w obj
       then case maxByteLength w obj of
              None \<Rightarrow> None
            | Some maxLength \<Rightarrow>
                if n > maxLength then throwRangeError w
                else bindJ (allocateArrayBuffer n (Some maxLength) True) (moveData obj n) w
       else bindJ (allocateArrayBuffer n (Some n) False) (moveData obj n) w)) w1"
  proof (rule ends_attached [OF w1(1)])
    assume att: "\<not> isDetachedBuffer w1 obj"
    show "endsSafely (\<lambda>w. if isResizableArrayBuffer w obj
       then case maxByteLength w obj of
              None \<Rightarrow> None
            | Some maxLength \<Rightarrow>
                if n > maxLength then throwRangeError w
                else bindJ (allocateArrayBuffer n (Some maxLength) True) (moveData obj n) w
       else bindJ (allocateArrayBuffer n (Some n) False) (moveData obj n) w) w1"
    proof (cases "isResizableArrayBuffer w1 obj")
      case True
      obtain buf s st where "slot (mm_buffers w1) obj = Some buf" "ab_backingStore buf = Some s" "slot (mm_stores w1) s = Some st" "bs_isResizable st"
        "maxByteLength w1 obj = Some (bs_maxByteLength st)" by (rule attached_store [OF w1(1) True att])
      then show ?thesis using True move [of "bs_maxByteLength st" True] ends_simple(3) [OF w1(1)] by (auto simp: endsSafely_def)
    qed (use move [of n False] in \<open>simp add: endsSafely_def\<close>)
  qed
qed

lemma ends_transferToFixedLength:
  assumes H: "conversions_ok H" and w: "reachableMemory w" and b: "liveBuffer w obj"
  shows "endsSafely (builtinArrayBufferTransferToFixedLength H obj arg) w"
  unfolding builtinArrayBufferTransferToFixedLength_def
proof (intro ends_attached [OF w] ends_bind [OF safe_transferLength [OF H w] w])
  fix n w1 assume w1: "reachableMemory w1" "keepsObjects w w1"
  then have "liveBuffer w1 obj" using b by (simp add: keepsObjects_def)
  then show "endsSafely (bindJ (allocateArrayBuffer n (Some n) False) (moveData obj n)) w1" by (rule_tac ends_allocate [OF w1(1)]) (auto intro: ends_moveData)
qed

lemma ends_resize:
  assumes w: "reachableMemory w" and c: "safeAt (toNumber H arg) w (\<lambda>_ w'. isResizableArrayBuffer w' obj)"
  shows "endsSafely (builtinArrayBufferResize H obj arg) w"
proof -
  have "endsSafely (bindJ (toNumber H arg) (\<lambda>d. bindJ (throwTypeErrorIfDetached obj) (\<lambda>_ w.
             case numberToInteger d of
               None \<Rightarrow> throwRangeError w
             | Some n \<Rightarrow>
                 (case maxByteLength w obj of
                    None \<Rightarrow> None
                  | Some maxLength \<Rightarrow>
                      if n < 0 \<or> n > int maxLength then throwRangeError w
                      else case Option.bind (slot (mm_buffers w) obj) ab_backingStore of
                             None \<Rightarrow> None
                           | Some s \<Rightarrow> doJ (resize s (nat n)) w)))) w"
  proof (rule ends_bind [OF c w], rule ends_attached)
    fix d w1 assume w1: "isResizableArrayBuffer w1 obj" "reachableMemory w1"
    show "reachableMemory w1" by fact
    assume att: "\<not> isDetachedBuffer w1 obj"
    obtain buf s st where st: "slot (mm_buffers w1) obj = Some buf" "ab_backingStore buf = Some s" "slot (mm_stores w1) s = Some st"
      and r: "bs_isResizable st" and m: "maxByteLength w1 obj = Some (bs_maxByteLength st)" by (rule attached_store [OF w1(2,1) att])
    have step: "\<exists>w'. resize s n w1 = Some w' \<and> reachableMemory w'" if "n \<le> bs_maxByteLength st" for n
    proof (rule resize_ok [OF reachable_memory_ok [OF w1(2)] st(3) r that])
      fix B vs
      assume "resize s n w1 = Some (w1\<lparr>mm_blocks := B, mm_stores := (mm_stores w1)[s := Some (st\<lparr>bs_byteLength := n\<rparr>)], mm_views := vs\<rparr>)"
      then show ?thesis using memoryStep.resize [of s n w1] reachable_step [OF w1(2) r_into_rtranclp [of memoryStep]] by blast
    qed
    have "\<exists>w'. resize s (nat n) w1 = Some w' \<and> reachableMemory w'" if "\<not> int (bs_maxByteLength st) < n" for n
      by (rule step) (use that in simp)
    then show "endsSafely (\<lambda>w. case numberToInteger d of
               None \<Rightarrow> throwRangeError w
             | Some n \<Rightarrow>
                 (case maxByteLength w obj of
                    None \<Rightarrow> None
                  | Some maxLength \<Rightarrow>
                      if n < 0 \<or> n > int maxLength then throwRangeError w
                      else case Option.bind (slot (mm_buffers w) obj) ab_backingStore of
                             None \<Rightarrow> None
                           | Some s \<Rightarrow> doJ (resize s (nat n)) w)) w1"
      using st m w1(2) by (fastforce simp: endsSafely_def throwRangeError_def doJ_def retJ_def split: option.split)
  qed
  then show ?thesis using w by (simp add: builtinArrayBufferResize_def endsSafely_def throwTypeError_def)
qed

section \<open>Constructors and searches end\<close>

lemma ends_bindView:
  assumes "reachableMemory w" "slot (mm_views w) i = Some v" "liveBuffer w b" "byteOffset + byteLength \<le> bufferByteLength w b" "arrayLength * viewElementSize (v_kind v) \<le> byteLength"
  obtains w' where "setBuffer i (Some b) byteOffset byteLength arrayLength isAuto w = Some w'" "reachableMemory w'"
proof (rule bind_view_ok [OF reachable_memory_ok [OF assms(1)] assms(2-5), where isAuto = isAuto])
  fix w' assume s: "setBuffer i (Some b) byteOffset byteLength arrayLength isAuto w = Some w'"
  show thesis by (rule that [OF s reachable_step [OF assms(1) r_into_rtranclp [of memoryStep, OF memoryStep.bind [OF assms(2-5) s]]]])
qed

lemma ends_initialize:
  assumes H: "conversions_ok H" and w: "reachableMemory w" and v: "slot (mm_views w) obj = Some v" "v_kind v = TypedArrayView t" and b: "liveBuffer w buf"
  shows "endsSafely (initializeTypedArrayFromArrayBuffer H t obj buf byteOffset count) w"
  unfolding initializeTypedArrayFromArrayBuffer_def
proof (rule ends_bind [OF safe_checkedIndex [OF H w] w])
  fix offset w1 assume w1: "reachableMemory w1" "keepsObjects w w1"
  have c: "safeAt (case count of None \<Rightarrow> retJ 0 | Some v \<Rightarrow> checkedIndex H v) w1 (\<lambda>_ _. True)"
    by (cases count) (simp_all add: safe_ret safe_checkedIndex [OF H w1(1)])
  let ?set = "\<lambda>newLength (_::unit) w. let bufferByteLength = bufferByteLength w buf
                in case count of
                     None \<Rightarrow>
                       if (bufferByteLength mod elementSize t \<noteq> 0 \<and> \<not> isResizableArrayBuffer w buf) \<or> bufferByteLength < offset then throwRangeError w
                       else let newByteLength = bufferByteLength - offset
                            in doJ (setBuffer obj (Some buf) offset newByteLength (newByteLength div elementSize t) True) w
                   | Some _ \<Rightarrow>
                       let newByteLength = newLength * elementSize t
                       in if bufferByteLength < newByteLength \<or> offset > bufferByteLength - newByteLength then throwRangeError w
                          else doJ (setBuffer obj (Some buf) offset newByteLength (newByteLength div elementSize t) False) w"
  have "endsSafely (bindJ (case count of None \<Rightarrow> retJ 0 | Some v \<Rightarrow> checkedIndex H v) (\<lambda>newLength. bindJ (throwTypeErrorIfDetached buf) (?set newLength))) w1"
  proof (rule ends_bind [OF c w1(1)], rule ends_attached)
    fix n w2 assume w2: "reachableMemory w2" "keepsObjects w1 w2"
    show "reachableMemory w2" by fact
    have k: "keepsObjects w w2" using w1(2) w2(2) by (rule keepsObjects_trans)
    obtain v2 where v2: "slot (mm_views w2) obj = Some v2" "v_kind v2 = TypedArrayView t" using k v unfolding keepsObjects_def by metis
    have "liveBuffer w2 buf" using k b by (simp add: keepsObjects_def)
    then have bind: "\<exists>w'. setBuffer obj (Some buf) offset m (m div elementSize t) auto w2 = Some w' \<and> reachableMemory w'" if "offset + m \<le> bufferByteLength w2 buf" for m auto
      using ends_bindView [OF w2(1) v2(1) _ that, of "m div elementSize t" auto] v2(2) by (metis div_times_less_eq_dividend viewElementSize.simps(1))
    show "endsSafely (?set n ()) w2"
    proof (cases count)
      case None
      show ?thesis
      proof (cases "(bufferByteLength w2 buf mod elementSize t \<noteq> 0 \<and> \<not> isResizableArrayBuffer w2 buf) \<or> bufferByteLength w2 buf < offset")
        case True
        then show ?thesis using None w2(1) by (auto simp: endsSafely_def throwRangeError_def Let_def)
      next
        case False
        then have "offset + (bufferByteLength w2 buf - offset) \<le> bufferByteLength w2 buf" by linarith
        from bind [OF this, of True] show ?thesis using None False by (auto simp: endsSafely_def doJ_def retJ_def Let_def)
      qed
    next
      case (Some x)
      show ?thesis
      proof (cases "bufferByteLength w2 buf < n * elementSize t \<or> offset > bufferByteLength w2 buf - n * elementSize t")
        case True
        then show ?thesis using Some w2(1) by (auto simp: endsSafely_def throwRangeError_def Let_def)
      next
        case False
        then have "offset + n * elementSize t \<le> bufferByteLength w2 buf" by linarith
        from bind [OF this, of False] show ?thesis using Some False by (auto simp: endsSafely_def doJ_def retJ_def Let_def)
      qed
    qed
  qed
  then show "endsSafely (if offset mod elementSize t \<noteq> 0 then throwRangeError
           else bindJ (case count of None \<Rightarrow> retJ 0 | Some v \<Rightarrow> checkedIndex H v) (\<lambda>newLength. bindJ (throwTypeErrorIfDetached buf) (?set newLength))) w1"
    using w1(1) by (simp add: ends_simple)
qed

lemma searchUp_ends: "(\<And>j. j < count \<Longrightarrow> m j \<noteq> None) \<Longrightarrow> \<exists>r. searchUp m k count = Some r"
proof (induction m k count rule: searchUp.induct)
  case (1 m k count)
  show ?case
  proof (cases "k < count")
    case True
    then obtain x where "m k = Some x" using 1(2) by blast
    then show ?thesis using True 1 by (cases x) (simp_all add: searchUp.simps [of m k])
  qed (simp add: searchUp.simps)
qed

lemma searchDown_ends: "(\<And>j. j \<le> k \<Longrightarrow> m j \<noteq> None) \<Longrightarrow> \<exists>r. searchDown m k = Some r"
proof (induction m k rule: searchDown.induct)
  case (1 m k)
  obtain x where x: "m k = Some x" using 1(2) by blast
  show ?case
  proof (cases "x \<or> k = 0")
    case True
    then show ?thesis using x by (auto simp: searchDown.simps [of m k] split: bool.split)
  next
    case False
    then obtain j where "k = Suc j" by (cases k) auto
    then show ?thesis using 1 x False by (simp add: searchDown.simps [of m "Suc j"])
  qed
qed

lemma searchIndex_ends:
  assumes "\<And>j. j < count \<Longrightarrow> m j \<noteq> None"
  shows "\<exists>r. searchIndex isForward m k count = Some r"
proof -
  have "\<exists>r. searchUp m k count = Some r" using assms by (rule searchUp_ends)
  moreover have "\<exists>r. searchDown m j = Some r" if "j < count" for j by (rule searchDown_ends) (use assms that in simp)
  ultimately show ?thesis by (simp add: searchIndex_def)
qed

lemma fastSearch_ends:
  assumes w: "reachableMemory w" and v: "slot (mm_views w) i = Some v" "v_kind v = TypedArrayView t" and c: "count \<le> v_arrayLength v"
  shows "\<exists>r. fastTypedArrayIndexSearch H isForward t v k count value w = Some (Inr r, w)"
proof (cases "searchTest H t value")
  case None
  then show ?thesis by (simp add: fastTypedArrayIndexSearch_def retJ_def)
next
  case (Some test)
  let ?m = "\<lambda>j. map_option test (Option.bind (v_cachedRawBufferAddress v) (\<lambda>(d, offset). readData w d (offset + j * elementSize t) (elementSize t)))"
  note ok = reachable_memory_ok [OF w]
  note sh = memory_shape [OF ok v(1)]
  have "?m j \<noteq> None" if "j < count" for j
  proof -
    have j: "j < v_arrayLength v" using that c by simp
    obtain d offset where a: "v_cachedRawBufferAddress v = Some (d, offset)" using sh v(2) j by (cases "v_cachedRawBufferAddress v") (auto simp: view_ok_def)
    from view_reads [OF ok v(1) a element_fits [OF j _ v(2)]] sh show ?thesis using a by auto
  qed
  then have "\<exists>r. searchIndex isForward ?m k count = Some r" by (rule searchIndex_ends)
  then obtain r where "searchIndex isForward ?m k count = Some r" ..
  then show ?thesis using Some by (cases r) (simp_all add: fastTypedArrayIndexSearch_def retJ_def)
qed

lemma ends_typed:
  assumes "slot (mm_views w) i = Some v" "v_kind v = TypedArrayView t" "v_buffer v = Some b" "endsSafely (f t v b) w"
  shows "endsSafely (withTypedArray i f) w"
  using assms by (simp add: endsSafely_def withTypedArray_def withView_def)

lemma safe_validate:
  assumes "slot (mm_views w) i = Some v" "v_kind v = TypedArrayView t" "v_buffer v = Some b"
  shows "safeAt (validateTypedArray i) w (\<lambda>_ w'. w' = w)"
  unfolding validateTypedArray_def by (rule safe_typed [OF assms(1,3,2)]) (simp add: safeAt_def throwTypeError_def retJ_def)

lemma safe_toInteger:
  assumes "conversions_ok H" "reachableMemory w"
  shows "safeAt (toInteger H x) w (\<lambda>_ _. True)"
  unfolding toInteger_def by (rule safe_bind [OF safe_toNumber [OF assms]]) (simp add: safe_ret)

lemma ends_search:
  assumes w: "reachableMemory w" and v: "slot (mm_views w) i = Some v" "v_kind v = TypedArrayView t" "v_buffer v = Some b" and c: "\<And>n. count n \<le> n"
  shows "endsSafely (withTypedArray i (\<lambda>t v b. fastTypedArrayIndexSearch H isForward t v k (count (v_arrayLength v)) value)) w"
  by (rule ends_typed [OF v]) (use fastSearch_ends [OF w v(1,2) c, of H isForward k "value"] w in \<open>auto simp: endsSafely_def\<close>)

lemma ends_indexOf:
  assumes H: "conversions_ok H" and w: "reachableMemory w" and v: "slot (mm_views w) i = Some v" "v_kind v = TypedArrayView t" "v_buffer v = Some b"
  shows "endsSafely (builtinTypedArrayIndexOf H i value fromIndex) w"
  unfolding builtinTypedArrayIndexOf_def Let_def
proof (rule ends_bind [OF safe_validate [OF v] w])
  fix x w0 assume w0: "w0 = w"
  have c: "safeAt (case fromIndex of None \<Rightarrow> retJ (Some 0, False) | Some f \<Rightarrow> toInteger H f) w (\<lambda>_ _. True)"
    by (cases fromIndex) (simp_all add: safe_ret safe_toInteger [OF H w])
  have search: "endsSafely (withTypedArray i (\<lambda>t v' b. fastTypedArrayIndexSearch H True t v' k (min (v_arrayLength v') (v_arrayLength v)) value)) w1"
    if "reachableMemory w1" "keepsObjects w w1" for w1 k
  proof (rule kept_view [OF that(2) v(1,3)])
    fix v' assume v': "slot (mm_views w1) i = Some v'" "v_kind v' = v_kind v" "v_buffer v' = Some b"
    show ?thesis by (rule ends_search [OF that(1) v'(1) _ v'(3), of t "\<lambda>n. min n (v_arrayLength v)"]) (use v(2) v'(2) in simp_all)
  qed
  have "endsSafely (if v_arrayLength v = 0 then retJ (- 1)
          else bindJ (case fromIndex of None \<Rightarrow> retJ (Some 0, False) | Some f \<Rightarrow> toInteger H f) (\<lambda>(n, negative).
            if (case n of None \<Rightarrow> \<not> negative | Some n \<Rightarrow> n \<ge> int (v_arrayLength v)) then retJ (- 1)
            else withTypedArray i (\<lambda>t v' b. fastTypedArrayIndexSearch H True t v'
              (case n of None \<Rightarrow> 0 | Some n \<Rightarrow> if n \<ge> 0 then nat n else nat (int (v_arrayLength v) + n)) (min (v_arrayLength v') (v_arrayLength v)) value))) w"
  proof (cases "v_arrayLength v = 0")
    case False
    then show ?thesis by (simp only: if_False) (rule ends_bind [OF c w], auto intro: ends_simple search)
  qed (simp add: ends_simple w)
  then show "endsSafely (withTypedArray i (\<lambda>t v b. if v_arrayLength v = 0 then retJ (- 1)
          else bindJ (case fromIndex of None \<Rightarrow> retJ (Some 0, False) | Some f \<Rightarrow> toInteger H f) (\<lambda>(n, negative).
            if (case n of None \<Rightarrow> \<not> negative | Some n \<Rightarrow> n \<ge> int (v_arrayLength v)) then retJ (- 1)
            else withTypedArray i (\<lambda>t v' b. fastTypedArrayIndexSearch H True t v'
              (case n of None \<Rightarrow> 0 | Some n \<Rightarrow> if n \<ge> 0 then nat n else nat (int (v_arrayLength v) + n)) (min (v_arrayLength v') (v_arrayLength v)) value)))) w0"
    unfolding w0 by (rule ends_typed [OF v])
qed

lemma ends_lastIndexOf:
  assumes H: "conversions_ok H" and w: "reachableMemory w" and v: "slot (mm_views w) i = Some v" "v_kind v = TypedArrayView t" "v_buffer v = Some b"
  shows "endsSafely (builtinTypedArrayLastIndexOf H i value fromIndex) w"
  unfolding builtinTypedArrayLastIndexOf_def
proof (rule ends_bind [OF safe_validate [OF v] w], rule ends_typed)
  fix x w0 assume w0: "w0 = w"
  show "slot (mm_views w0) i = Some v" "v_kind v = TypedArrayView t" "v_buffer v = Some b" using v w0 by simp_all
  have c: "safeAt (case fromIndex of None \<Rightarrow> retJ (Some (int (v_arrayLength v) - 1), False) | Some f \<Rightarrow> toInteger H f) w (\<lambda>_ _. True)"
    by (cases fromIndex) (simp_all add: safe_ret safe_toInteger [OF H w])
  have search: "endsSafely (withTypedArray i (\<lambda>t v' b. fastTypedArrayIndexSearch H False t v' k (v_arrayLength v') value)) w1"
    if "reachableMemory w1" "keepsObjects w w1" for w1 k
  proof (rule kept_view [OF that(2) v(1,3)])
    fix v' assume v': "slot (mm_views w1) i = Some v'" "v_kind v' = v_kind v" "v_buffer v' = Some b"
    show ?thesis by (rule ends_search [OF that(1) v'(1) _ v'(3), of t "\<lambda>n. n"]) (use v(2) v'(2) in simp_all)
  qed
  show "endsSafely (let count = v_arrayLength v
       in if count = 0 then retJ (- 1)
          else bindJ (case fromIndex of None \<Rightarrow> retJ (Some (int count - 1), False) | Some f \<Rightarrow> toInteger H f) (\<lambda>(n, negative).
            if n = None \<and> negative then retJ (- 1)
            else let k = (case n of None \<Rightarrow> int count - 1 | Some n \<Rightarrow> if n \<ge> 0 then min n (int count - 1) else int count + n)
                 in if k < 0 then retJ (- 1)
                    else withTypedArray i (\<lambda>t v b. fastTypedArrayIndexSearch H False t v (nat k) (v_arrayLength v) value))) w0"
  proof (cases "v_arrayLength v = 0")
    case False
    then show ?thesis unfolding Let_def w0 by (simp only: if_False) (rule ends_bind [OF c w], auto intro: ends_simple search)
  qed (simp add: ends_simple w w0)
qed

lemma ends_bindDataView:
  assumes w: "reachableMemory w" and b: "liveBuffer w buf"
    and n: "\<And>n. viewByteLength = Some n \<Longrightarrow> given \<or> isDetachedBuffer w buf \<or> offset + n \<le> bufferByteLength w buf"
  shows "endsSafely (bindDataView buf offset given viewByteLength isAuto) w"
proof -
  let ?obj = "length (mm_views w)"
  define w1 where "w1 = w\<lparr>mm_views := mm_views w @ [Some (newArrayBufferView DataView)]\<rparr>"
  have w1: "reachableMemory w1" using reachable_step [OF w r_into_rtranclp [of memoryStep, OF new_view]] by (simp add: w1_def)
  have v: "slot (mm_views w1) ?obj = Some (newArrayBufferView DataView)" by (simp add: w1_def slot_append)
  have same: "bufferByteLength w1 buf = bufferByteLength w buf" "isDetachedBuffer w1 buf = isDetachedBuffer w buf" "liveBuffer w1 buf"
    using b by (simp_all add: w1_def isDetachedBuffer_def liveBuffer_def)
  let ?size = "case viewByteLength of None \<Rightarrow> bufferByteLength w buf - offset | Some n \<Rightarrow> n"
  show ?thesis
  proof (cases "isDetachedBuffer w buf \<or> offset > bufferByteLength w buf \<or> (given \<and> offset + the viewByteLength > bufferByteLength w buf)")
    case True
    then show ?thesis using w1 same
      by (auto simp: bindDataView_def newView_def w1_def [symmetric] endsSafely_def bindJ_def retJ_def throwTypeErrorIfDetached_def throwTypeError_def throwRangeError_def Let_def)
  next
    case False
    then have f: "offset + ?size \<le> bufferByteLength w1 buf" using n same(1) by (cases viewByteLength) auto
    have z: "0 * viewElementSize (v_kind (newArrayBufferView DataView)) \<le> ?size" by simp
    obtain w2 where w2: "setBuffer ?obj (Some buf) offset ?size 0 isAuto w1 = Some w2" "reachableMemory w2" by (rule ends_bindView [OF w1 v same(3) f z])
    show ?thesis using False same w2
      by (cases viewByteLength) (auto simp: bindDataView_def newView_def w1_def [symmetric] endsSafely_def bindJ_def retJ_def throwTypeErrorIfDetached_def doJ_def Let_def)
  qed
qed

text \<open>Reading the prototype of \<open>newTarget\<close> may run a script, which does not make a buffer of fixed length shorter other than by detaching it.\<close>

definition prototype_ok :: "(Memory, unit) js \<Rightarrow> nat \<Rightarrow> bool" where
  "prototype_ok getPrototype buf \<longleftrightarrow> (\<forall>w. reachableMemory w \<longrightarrow>
     safeAt getPrototype w (\<lambda>_ w'. isResizableArrayBuffer w buf \<or> isDetachedBuffer w' buf \<or> bufferByteLength w buf \<le> bufferByteLength w' buf))"

lemma ends_dataViewConstructor:
  assumes H: "conversions_ok H" and p: "prototype_ok getPrototype buf" and w: "reachableMemory w" and b: "liveBuffer w buf"
  shows "endsSafely (builtinDataViewConstructor H getPrototype buf args) w"
  unfolding builtinDataViewConstructor_def
proof (rule ends_bind [OF _ w])
  show "safeAt (case args of [] \<Rightarrow> retJ 0 | v # _ \<Rightarrow> checkedIndex H v) w (\<lambda>_ _. True)" by (cases args) (simp_all add: safe_ret safe_checkedIndex [OF H w])
  fix offset w1 assume w1: "reachableMemory w1" "keepsObjects w w1"
  let ?given = "2 \<le> length args \<and> args ! 1 \<noteq> Undefined" and ?L = "bufferByteLength w1 buf"
  let ?length = "if ?given then bindJ (checkedIndex H (args ! 1)) (\<lambda>n w. if offset + n > ?L then throwRangeError w else retJ (Some n) w)
                      else retJ (if isResizableArrayBuffer w1 buf then None else Some (?L - offset))"
  let ?Q = "\<lambda>x w2. ?given \<or> (w2 = w1 \<and> x = (if isResizableArrayBuffer w1 buf then None else Some (?L - offset)))"
  have len: "safeAt ?length w1 ?Q"
  proof (cases ?given)
    case True
    have "safeAt (bindJ (checkedIndex H (args ! 1)) (\<lambda>n w. if offset + n > ?L then throwRangeError w else retJ (Some n) w)) w1 (\<lambda>_ _. True)"
      by (rule safe_bind [OF safe_checkedIndex [OF H w1(1)]]) (simp add: safeAt_def throwRangeError_def retJ_def)
    then show ?thesis using True by simp
  next
    case False
    then show ?thesis by (simp only: if_False) (rule safe_ret, simp)
  qed
  have tail: "endsSafely (bindJ getPrototype (\<lambda>_. bindDataView buf offset ?given x (length args < 2))) w2"
    if x: "?Q x w2" and w2: "reachableMemory w2" "keepsObjects w1 w2" and o: "\<not> offset > ?L" for x w2
  proof (rule ends_bind [OF _ w2(1)])
    show "safeAt getPrototype w2 (\<lambda>_ w'. isResizableArrayBuffer w2 buf \<or> isDetachedBuffer w' buf \<or> bufferByteLength w2 buf \<le> bufferByteLength w' buf)"
      using p w2(1) by (simp add: prototype_ok_def)
    fix u w3
    assume w3: "isResizableArrayBuffer w2 buf \<or> isDetachedBuffer w3 buf \<or> bufferByteLength w2 buf \<le> bufferByteLength w3 buf" "reachableMemory w3" "keepsObjects w2 w3"
    have "liveBuffer w3 buf" using b w1(2) w2(2) w3(3) by (simp add: keepsObjects_def)
    then show "endsSafely (bindDataView buf offset ?given x (length args < 2)) w3"
      by (rule ends_bindDataView [OF w3(2)]) (use x w3(1) o in \<open>auto split: if_splits\<close>)
  qed
  show "endsSafely (bindJ (throwTypeErrorIfDetached buf) (\<lambda>_ w.
       let bufferByteLength = bufferByteLength w buf; given = ?given
       in if offset > bufferByteLength then throwRangeError w
          else bindJ (if given then bindJ (checkedIndex H (args ! 1)) (\<lambda>n w. if offset + n > bufferByteLength then throwRangeError w else retJ (Some n) w)
                      else retJ (if isResizableArrayBuffer w buf then None else Some (bufferByteLength - offset)))
            (\<lambda>viewByteLength. bindJ getPrototype (\<lambda>_. bindDataView buf offset given viewByteLength (length args < 2))) w)) w1"
  proof (rule ends_attached [OF w1(1)])
    have "endsSafely (bindJ ?length (\<lambda>viewByteLength. bindJ getPrototype (\<lambda>_. bindDataView buf offset ?given viewByteLength (length args < 2)))) w1" if "\<not> offset > ?L"
      by (rule ends_bind [OF len w1(1)]) (rule tail [OF _ _ _ that])
    then show "endsSafely (\<lambda>w.
       let bufferByteLength = bufferByteLength w buf; given = ?given
       in if offset > bufferByteLength then throwRangeError w
          else bindJ (if given then bindJ (checkedIndex H (args ! 1)) (\<lambda>n w. if offset + n > bufferByteLength then throwRangeError w else retJ (Some n) w)
                      else retJ (if isResizableArrayBuffer w buf then None else Some (bufferByteLength - offset)))
            (\<lambda>viewByteLength. bindJ getPrototype (\<lambda>_. bindDataView buf offset given viewByteLength (length args < 2))) w) w1"
      using w1(1) by (simp add: endsSafely_def Let_def throwRangeError_def)
  qed
qed

section \<open>Properties\<close>

text \<open>C20: Transferring and resizing a buffer, creating a data view or a typed array on it, and searching in an array end without an access outside of a block or to memory that
  was freed, in every state that the operations lead to and whatever the conversions of the arguments do, the detachment of the very buffer included; the state after it is again such
  a state. A conversion must not attach other memory to a buffer that is being resized, and reading the prototype for a data view must not shorten a buffer of fixed length.\<close>

theorem buffer_builtins_safe:
  assumes "conversions_ok H" "reachableMemory w" "liveBuffer w b"
  shows "endsSafely (builtinArrayBufferTransfer H b arg) w \<and> endsSafely (builtinArrayBufferTransferToFixedLength H b arg) w \<and>
    (safeAt (toNumber H x) w (\<lambda>_ w'. isResizableArrayBuffer w' b) \<longrightarrow> endsSafely (builtinArrayBufferResize H b x) w) \<and>
    (prototype_ok getPrototype b \<longrightarrow> endsSafely (builtinDataViewConstructor H getPrototype b args) w) \<and>
    (slot (mm_views w) i = Some v \<and> v_kind v = TypedArrayView t \<longrightarrow>
      endsSafely (initializeTypedArrayFromArrayBuffer H t i b x count) w \<and>
      (v_buffer v \<noteq> None \<longrightarrow> endsSafely (builtinTypedArrayIndexOf H i value fromIndex) w \<and> endsSafely (builtinTypedArrayLastIndexOf H i value fromIndex) w))"
  using assms ends_indexOf ends_lastIndexOf
  by (auto intro: ends_transfer ends_transferToFixedLength ends_resize ends_dataViewConstructor ends_initialize)

text \<open>A resizable buffer, made from the sample memory\<close>

lemma resizable_sample: "\<exists>w. reachableMemory w \<and> liveBuffer w 0 \<and> isResizableArrayBuffer w 0"
proof -
  have r: "reachableMemory sampleMemory" unfolding reachableMemory_def by (rule sampleMemory_reachable)
  note ok = reachable_memory_ok [OF r]
  have l: "liveBuffer sampleMemory 0" "(4::nat) \<le> 8" by (simp_all add: sampleMemory_def liveBuffer_def slot_def)
  obtain w where w: "allocateResizableBuffer 0 4 8 sampleMemory = Some w" by (rule allocateResizableBuffer_ok [OF ok l])
  have "\<exists>s. flagsOf w 0 = Some (Some s, True)" using allocateResizableBuffer_links(2) [OF ok reachable_resizable [OF r] l(2) w] by blast
  moreover have "reachableMemory w" using reachable_step [OF r r_into_rtranclp [of memoryStep, OF memoryStep.allocate_resizable [OF l(2) w]]] .
  ultimately show ?thesis by (auto simp: flagsOf_def liveBuffer_def isResizableArrayBuffer_def)
qed

text \<open>Transferring with a length whose conversion detaches the buffer, a data view, a search, and the resizing of a resizable buffer\<close>

theorem buffer_builtins_safe_witness:
  "endsSafely (builtinArrayBufferTransferToFixedLength detachingHost 0 (Some (PointerValue 8))) sampleMemory \<and>
   endsSafely (builtinDataViewConstructor detachingHost (retJ ()) 0 [Int32 4]) sampleMemory \<and>
   endsSafely (builtinTypedArrayIndexOf detachingHost 0 (Int32 7) (Some (PointerValue 8))) sampleMemory \<and>
   (\<exists>w. isResizableArrayBuffer w 0 \<and> endsSafely (builtinArrayBufferResize detachingHost 0 (Int32 2)) w)"
proof (intro conjI)
  have s: "reachableMemory sampleMemory" "liveBuffer sampleMemory 0" unfolding reachableMemory_def by (rule sampleMemory_reachable) (simp add: sampleMemory_def liveBuffer_def slot_def)
  note safe = buffer_builtins_safe [OF detachingHost_ok]
  show "endsSafely (builtinArrayBufferTransferToFixedLength detachingHost 0 (Some (PointerValue 8))) sampleMemory" using safe [OF s] by blast
  have "prototype_ok (retJ ()) 0" by (simp add: prototype_ok_def safeAt_def retJ_def)
  then show "endsSafely (builtinDataViewConstructor detachingHost (retJ ()) 0 [Int32 4]) sampleMemory" using safe [OF s] by blast
  have "slot (mm_views sampleMemory) 0 = Some (the (slot (mm_views sampleMemory) 0))" "v_kind (the (slot (mm_views sampleMemory) 0)) = TypedArrayView TInt32"
    "v_buffer (the (slot (mm_views sampleMemory) 0)) \<noteq> None" by (simp_all add: sampleMemory_def slot_def)
  then show "endsSafely (builtinTypedArrayIndexOf detachingHost 0 (Int32 7) (Some (PointerValue 8))) sampleMemory" using safe [OF s] by blast
  obtain w where w: "reachableMemory w" "liveBuffer w 0" "isResizableArrayBuffer w 0" using resizable_sample by blast
  have "safeAt (toNumber detachingHost (Int32 2)) w (\<lambda>_ w'. isResizableArrayBuffer w' 0)" using w(3) by (simp add: safeAt_def retJ_def)
  then have "endsSafely (builtinArrayBufferResize detachingHost 0 (Int32 2)) w" using safe [OF w(1,2)] by blast
  then show "\<exists>w. isResizableArrayBuffer w 0 \<and> endsSafely (builtinArrayBufferResize detachingHost 0 (Int32 2)) w" using w(3) by blast
qed

lemma bytesOf_shift: "bytesOf n (x + 256 ^ n) = bytesOf n x"
proof (induction n arbitrary: x)
  case (Suc n)
  have "(x + 256 * 256 ^ n) div 256 = x div 256 + 256 ^ n" by simp
  moreover have "(word_of_int (x + 256 * k) :: byte) = word_of_int x" for k by (simp only: word_of_int_eq_iff take_bit_eq_mod) (simp add: mod_mult_self1)
  ultimately show ?case using Suc [of "x div 256"] by (simp only: bytesOf.simps power_Suc)
qed simp

text \<open>C23: In an array of integers, \<open>indexOf\<close> compares only as many low bytes of the value as an element has: it gives the same answer for a value and for one that is greater by
  the number of different elements, which no element can be equal to.\<close>

theorem indexOf_compares_low_bytes:
  assumes "slot (mm_views w) i = Some v" "v_kind v = TypedArrayView t" "\<not> isBigIntArray t" "t \<notin> {TFloat16, TFloat32, TFloat64}"
  shows "builtinTypedArrayIndexOf H i (Int32 (x + 256 ^ elementSize t)) None w = builtinTypedArrayIndexOf H i (Int32 x) None w"
proof -
  have "searchTest H t (Int32 (x + 256 ^ elementSize t)) = searchTest H t (Int32 x)" using assms(3,4) by (simp add: searchTest_def bytesOf_shift)
  then have f: "fastTypedArrayIndexSearch H True t v k n (Int32 (x + 256 ^ elementSize t)) w = fastTypedArrayIndexSearch H True t v k n (Int32 x) w" for k n
    by (simp add: fastTypedArrayIndexSearch_def)
  show ?thesis
  proof (cases "v_buffer v")
    case (Some b)
    then have body: "withTypedArray i g w = g t v b w" for g :: "TypedArrayType \<Rightarrow> ArrayBufferView \<Rightarrow> nat \<Rightarrow> (Memory, 'a) js" using assms(1,2) by (simp add: withTypedArray_def withView_def)
    show ?thesis
    proof (cases "isDetachedBuffer w b \<or> v_wasResetByInvalidByteLength v \<or> v_arrayLength v = 0")
      case True
      then show ?thesis by (auto simp: builtinTypedArrayIndexOf_def validateTypedArray_def bindJ_def body throwTypeError_def retJ_def)
    next
      case False
      then show ?thesis by (simp add: builtinTypedArrayIndexOf_def validateTypedArray_def bindJ_def body retJ_def f Let_def)
    qed
  qed (use assms in \<open>simp add: builtinTypedArrayIndexOf_def validateTypedArray_def bindJ_def withTypedArray_def withView_def\<close>)
qed

text \<open>An array of eight bytes that are 0: 256 is found.\<close>

definition byteArray :: Memory where
  "byteArray = sampleMemory\<lparr>mm_views := [Some ((newArrayBufferView (TypedArrayView TInt8))\<lparr>v_buffer := Some 0, v_cachedRawBufferAddress := Some (0, 0), v_byteLength := 8,
     v_arrayLength := 8, v_originalByteLength := 8\<rparr>)]\<rparr>"

theorem indexOf_compares_low_bytes_witness: "builtinTypedArrayIndexOf detachingHost 0 (Int32 256) None byteArray = Some (Inr 0, byteArray)"
proof -
  have "slot (mm_views byteArray) 0 = Some (the (slot (mm_views byteArray) 0))" "v_kind (the (slot (mm_views byteArray) 0)) = TypedArrayView TInt8"
    by (simp_all add: byteArray_def slot_def newArrayBufferView_def)
  from indexOf_compares_low_bytes [OF this, of detachingHost 0]
  have "builtinTypedArrayIndexOf detachingHost 0 (Int32 256) None byteArray = builtinTypedArrayIndexOf detachingHost 0 (Int32 0) None byteArray" by simp
  also have "\<dots> = Some (Inr 0, byteArray)" 
    by (simp add: builtinTypedArrayIndexOf_def validateTypedArray_def withTypedArray_def withView_def bindJ_def retJ_def fastTypedArrayIndexSearch_def searchIndex_def searchUp.simps
      searchTest_def byteArray_def sampleMemory_def newArrayBufferView_def slot_def readData_def isDetachedBuffer_def bufferStore_def numeral_eq_Suc)
  finally show ?thesis .
qed

end
