(* ===== verification/Spec2Isabelle.thy ===== *)
theory Spec2Isabelle
  imports Prelude PropertyDescriptor Strings SetAssociativeCache PropertyName OrderedDictionary ObjectStructure
    KeyedCollection MapSet WeakCollections Calendar Unicode
    ParserMonad ISO8601Parser ISO8601Safety ISO8601Print Promises
    ObjectDescriptor OrdinaryObject ObjectHeap ObjectMethods ObjectInvariants
    ArrayObject ArrayStorage ArrayRefinement MergeSort ArraySort
    ProxyObject OwnPropertyKeys ProxyContract ObjectKeys HeapEngine
    FloatFormat NumberConversion Float16 ArrayBuffers BufferSafety TypedArrays ElementSafety ElementValues BufferBuiltins BuiltinSafety
begin

text \<open>
  A verification development for Escargot, a JavaScript engine in C++. The engine compiles scripts to byte code (\<open>src/src/parser\<close>,
  \<open>src/src/interpreter\<close>), runs them over a runtime of objects, strings and collections (\<open>src/src/runtime\<close>, \<open>src/src/util\<close>), and offers
  the standard library of the language on top of it (\<open>src/src/builtins\<close>, \<open>src/src/intl\<close>). The development models parts of the runtime
  whose data structures and algorithms are the engine's own, from the attribute words of properties up to promises.

  \<^bold>\<open>The parts and how they interact.\<close>

  \<^item> Property access. A property name is an interned string, a plain string or a symbol in one machine word
    (\<^theory_text>\<open>PropertyName\<close>: \<open>ObjectStructurePropertyName.h\<close>, \<open>AtomicString.cpp\<close>, \<open>toPropertyName\<close> of \<open>Object.cpp\<close>); a property is described by
    one attribute word (\<^theory_text>\<open>PropertyDescriptor\<close>: \<open>ObjectStructurePropertyDescriptor.h\<close>); an object points to a hidden class, which maps
    names to positions and comes in three layouts (\<^theory_text>\<open>ObjectStructure\<close>: \<open>ObjectStructure.h\<close>, \<open>ObjectStructure.cpp\<close>). The store of hidden
    classes is a list, a pointer to a hidden class is a position in it; the interned strings are a table and a store of strings.
    Property names depend on index strings and integer printing (\<^theory_text>\<open>Strings\<close>: \<open>String.cpp\<close>) and on a content cache
    (\<^theory_text>\<open>SetAssociativeCache\<close>: \<open>SetAssociativeCache.h\<close>).

  \<^item> Objects (\<open>Object.cpp\<close>, \<open>Object.h\<close>). \<^theory_text>\<open>ObjectDescriptor\<close> has property descriptors, results of lookups and \<open>isCompatiblePropertyDescriptor\<close>, beside
    \<open>ValidateAndApplyPropertyDescriptor\<close> of ECMA-262; \<^theory_text>\<open>OrdinaryObject\<close> the heap of objects, each with a hidden class, its slots and a prototype, and the
    internal methods (\<open>getOwnProperty\<close>, \<open>defineOwnProperty\<close>, \<open>deleteOwnProperty\<close>, \<open>get\<close>, \<open>set\<close>, \<open>hasProperty\<close>, \<open>setPrototype\<close>, \<open>preventExtensions\<close>).
    Getters and setters of the engine and of scripts are the parameter \<open>NativeCode\<close>. \<^theory_text>\<open>ObjectHeap\<close> has the invariant of the heap, without native
    properties, \<^theory_text>\<open>ObjectMethods\<close> the lemmas on each method (the walks along prototypes share the locale \<open>prototype_walk\<close>),
    \<^theory_text>\<open>ObjectInvariants\<close> the properties.

  \<^item> Arrays (\<open>ArrayObject.cpp\<close>). \<^theory_text>\<open>ArrayObject\<close> has an array as a length, a buffer of cells for the fast mode, the rare data and the ordinary
    properties, with every path of \<open>defineOwnProperty\<close> and \<open>setArrayLength\<close> in both 64-bit builds; \<^theory_text>\<open>ArrayStorage\<close> and \<^theory_text>\<open>ArrayRefinement\<close>
    the contract and the proofs. The ordinary properties follow the specification that \<^theory_text>\<open>ObjectInvariants\<close> shows for \<open>Object.cpp\<close>.
    \<^theory_text>\<open>MergeSort\<close> has \<open>mergeSort\<close> of \<open>Util.h\<close> with a comparator that may run scripts, \<^theory_text>\<open>ArraySort\<close> the sorting of fast arrays
    (\<open>ArrayObject::sort\<close>) and the comparators of \<open>Array.prototype.sort\<close>; \<open>Object::sort\<close> for slow arrays is a parameter.

  \<^item> Numbers. \<^theory_text>\<open>FloatFormat\<close> has binary floating point numbers as their bits, with rounding, addition, multiplication and casts between formats;
    \<^theory_text>\<open>NumberConversion\<close> the conversion to 32-bit integers (\<open>Value.cpp\<close>); \<^theory_text>\<open>Float16\<close> the half-precision conversions of \<open>Float16.h\<close>.

  \<^item> Buffers and typed arrays. \<^theory_text>\<open>ArrayBuffers\<close> has blocks of memory, backing stores, array buffers and views with the raw addresses that views keep and
    the observers that update them (\<open>BackingStore.cpp\<close>, \<open>ArrayBuffer.cpp\<close>, \<open>ArrayBufferObject.cpp\<close>); \<^theory_text>\<open>BufferSafety\<close> the invariant and the relation
    \<open>memoryStep\<close> of everything that scripts, the embedder and the collector do to them. \<^theory_text>\<open>TypedArrays\<close> has the conversions of elements and the access to
    them (\<open>TypedArrayInlines.h\<close>, \<open>TypedArrayObject.cpp\<close>, \<open>DataViewObject.h\<close>); the conversions that call scripts come from the parameter \<open>ElementHost\<close>.
    \<^theory_text>\<open>ElementSafety\<close> and \<^theory_text>\<open>ElementValues\<close> prove that accesses stay in memory and what they read; \<^theory_text>\<open>BufferBuiltins\<close> and \<^theory_text>\<open>BuiltinSafety\<close> do the same for
    \<open>resize\<close>, \<open>transfer\<close>, the constructors of views, \<open>indexOf\<close> and \<open>lastIndexOf\<close> (\<open>BuiltinArrayBuffer.cpp\<close>, \<open>BuiltinDataView.cpp\<close>, \<open>BuiltinTypedArray.cpp\<close>).

  \<^item> Proxies, keys and integrity levels (\<open>ProxyObject.cpp\<close>, \<open>Object.cpp\<close>). \<^theory_text>\<open>ProxyObject\<close> has the internal methods of proxies over any objects: the
    virtual methods of an object are a record of functions on a state, and the record \<open>Engine\<close> gives those of every address; \<^theory_text>\<open>OwnPropertyKeys\<close> the
    order of keys, \<open>setIntegrityLevel\<close> and \<open>testIntegrityLevel\<close>. \<^theory_text>\<open>ProxyContract\<close> and \<^theory_text>\<open>ObjectKeys\<close> prove what follows from the laws of a
    target (locales \<open>proxied\<close>, \<open>keyed_object\<close>, \<open>integrity_object\<close> and \<open>key_proxied\<close>); \<^theory_text>\<open>HeapEngine\<close> interprets them on the heap of ordinary
    objects. There, handlers, functions, the proxy itself as a receiver, and all other objects that are not ordinary are scripts: on each request
    (\<open>Request\<close>) a script does any operations on the heap and then gives any answer (\<open>Answer\<close>).

  \<^item> Collections. \<open>Map\<close> and \<open>Set\<close> keep their entries in a vector with holes, in insertion order, and build a hash index when they grow
    (\<^theory_text>\<open>KeyedCollection\<close>: \<open>KeyedCollectionHashIndex.h\<close> and the search routines of \<open>MapObject.cpp\<close> and \<open>SetObject.cpp\<close>; \<^theory_text>\<open>MapSet\<close>: all
    operations and the iterators). \<open>WeakMap\<close> and \<open>WeakSet\<close> share the index (\<^theory_text>\<open>WeakCollections\<close>: \<open>WeakMapObject.cpp\<close>, \<open>WeakSetObject.cpp\<close>);
    a garbage collection is a step that may come between two operations and clears the weak links of the dead keys.

  \<^item> Text and dates. UTF-8, UTF-16 and code points (\<^theory_text>\<open>Unicode\<close>: \<open>String.cpp\<close>, \<open>String.h\<close>), dates, exact times and rounding (\<^theory_text>\<open>Calendar\<close>:
    \<open>ISO8601.cpp\<close>, \<open>ISO8601.h\<close>), the parser of ISO 8601 and RFC 9557 strings (\<^theory_text>\<open>ParserMonad\<close>, \<^theory_text>\<open>ISO8601Parser\<close>, \<^theory_text>\<open>ISO8601Safety\<close>:
    \<open>ISO8601.cpp\<close>) and the printers of the Temporal objects (\<^theory_text>\<open>ISO8601Print\<close>: \<open>TemporalPlainDateObject.cpp\<close>,
    \<open>TemporalPlainTimeObject.cpp\<close>, \<open>TemporalObject.cpp\<close>). A parser is a function of the buffer and a position; a read past the end is
    a third outcome beside success and failure, so that a theorem can say that it never happens.

  \<^item> Promises and jobs (\<^theory_text>\<open>Promises\<close>: \<open>PromiseObject.cpp\<close>, \<open>Job.cpp\<close>, \<open>JobQueue.h\<close>, \<open>BuiltinPromise.cpp\<close>). The store holds promises,
    pairs of resolving functions and the queue. Scripts, handlers and getters are a parameter; the relation \<open>steps\<close> is every sequence of
    calls they can make, and \<open>host\<close> interleaves scripts and jobs.

  \<^bold>\<open>What the theorems show.\<close>

  \<^item> \<^theory_text>\<open>ObjectStructure\<close>: the three layouts find, add, remove and replace what an insertion-ordered dictionary does
    (\<^theory_text>\<open>OrderedDictionary\<close>, a locale, interpreted on the store of hidden classes), for every sequence of operations; equal additions
    share a hidden class; the transition tables are written in bounds.
  \<^item> \<^theory_text>\<open>ObjectDescriptor\<close>, \<^theory_text>\<open>ObjectInvariants\<close>: definitions, deletions and assignments do what the internal methods of ECMA-262 say and change one
    object only; lookups end at the first holder up the chain; no cycle of prototypes can be made; every sequence of operations keeps the invariants
    of the internal methods (what may not change does not change).
  \<^item> \<^theory_text>\<open>ArrayRefinement\<close>: every sequence of operations on an array refines the array exotic object of ECMA-262, with no access outside of a buffer, in
    the build with 32-bit references; in the large build the same for all keys but \<open>length\<close>, and two theorems show how \<open>length\<close> breaks it.
  \<^item> \<^theory_text>\<open>MergeSort\<close>, \<^theory_text>\<open>ArraySort\<close>: the merge sort stays in bounds, permutes, and is the stable sort; sorting an array stays in its buffer as long as the
    comparator does not make a changed length read-only, and a theorem shows the write outside of the buffer when it does.
  \<^item> \<^theory_text>\<open>NumberConversion\<close>, \<^theory_text>\<open>Float16\<close>: the bit-level conversions are truncation modulo \<open>2 ^ 32\<close> and rounding to the nearest number.
  \<^item> \<^theory_text>\<open>BufferSafety\<close>, \<^theory_text>\<open>ElementSafety\<close>, \<^theory_text>\<open>BuiltinSafety\<close>: every raw address that a view keeps points into live memory that holds the view, and no access of an
    element or of a builtin leaves memory, whatever scripts the conversions run; resizable stores are assumed not to be reallocated, which the
    embedder can do. \<^theory_text>\<open>ElementValues\<close>: what is written to an element of any number type is read back converted as ECMAScript says; the fast path of
    reading agrees with the general one. A theorem shows that \<open>indexOf\<close> compares only the low bytes of integers.
  \<^item> \<^theory_text>\<open>HeapEngine\<close>: whatever a handler does, a method of a proxy to an ordinary object ends, keeps the invariants of every object, and
    answers what the target did (\<open>untrapped\<close>) or what the trap answered (\<open>trapAnswers\<close>), if the target, in the state after the trap, could have answered so;
    the exceptions are the tests for \<open>undefined\<close> in \<open>hidden_allowed\<close>. The keys that a trap gives are accepted exactly under the conditions of ECMA-262. Freezing and sealing
    reach every property and change nothing else, and no operation changes a frozen object; own keys come in the order of the specification.
  \<^item> \<^theory_text>\<open>PropertyName\<close>: interning is canonical, the comparisons of names decide equality of keys, \<open>ToPropertyKey\<close> builds the right name.
  \<^item> \<^theory_text>\<open>SetAssociativeCache\<close>: a cache between a caller and a pure function never changes a result (locale \<open>content_cache\<close>).
  \<^item> \<^theory_text>\<open>Strings\<close>, \<^theory_text>\<open>PropertyDescriptor\<close>: index strings are the canonical numerals, printing and reading are inverse.
  \<^item> \<^theory_text>\<open>KeyedCollection\<close>, \<^theory_text>\<open>MapSet\<close>, \<^theory_text>\<open>WeakCollections\<close>: SameValueZero keys hash alike, the probing ends and finds what a scan finds, the
    index stays complete; each collection refines a dictionary or a set for every sequence of operations (locales \<open>keyed_set\<close> and
    \<open>weak_collection\<close>); iterators give the live entries in order.
  \<^item> \<^theory_text>\<open>Calendar\<close>: the closed form of the day number counts days, rounding gives the multiple that the mode asks for.
  \<^item> \<^theory_text>\<open>ISO8601Safety\<close>, \<^theory_text>\<open>ISO8601Print\<close>: six entry points never read outside of the buffer, their results are in range, and printed dates,
    times and instants are parsed back; two other entry points read past the end when the string is a month alone.
  \<^item> \<^theory_text>\<open>Unicode\<close>: the decoder is safe and gives well-formed text, encoding and decoding round trip on the planes 0 to 3 and 16, and not on the planes 4 to 15.
  \<^item> \<^theory_text>\<open>Promises\<close>: a settled promise never changes, a pair of resolving functions works once, a promise has at most one settler, and its
    reactions are queued in the order in which \<open>then\<close> was called, whatever happens between the calls (\<open>thenHistory\<close>).

  \<^bold>\<open>Conventions and bounds.\<close> A failing assertion, a null pointer or a read out of bounds is \<open>None\<close> (or the outcome of its own in the parser); a
  thrown JavaScript value is \<open>Inl\<close>. Words are kept at their width for the attribute word, the property name, hashes, characters and the
  fields of the transition tables. The targets are 64-bit builds in the \<open>C\<close> locale. Collections have at most \<open>2 ^ 28\<close> entries, a
  premise of their theorems: with more, the 32-bit products of the load test wrap. The invariant of hidden classes has the premise \<open>hash_coherent\<close>, that
  equal names have equal hashes, which interned numerals of more than 16 characters can break. Years are unbounded integers. \<open>Int128\<close> values are unbounded integers, and every value the
  theorems speak about is far inside of that width. Loops whose end depends on an invariant (probing and growing an index) are
  \<open>partial_function (option)\<close>, so that not ending is \<open>None\<close>, and the theorems show that they return.

  \<^bold>\<open>Parameters.\<close> The scripts behind handlers and getters, the callbacks of \<open>getOrInsertComputed\<close>, the JavaScript code that promises call, the addresses that allocations return and the
  choice of the keys that a garbage collection drops are arguments of the definitions; the premises on them (a callback keeps the invariant, code
  changes promises only through their operations, an allocation is fresh) are stated in the theorems, and witnesses meet them.

  \<^bold>\<open>Not modelled.\<close> The parser and the byte code interpreter; the garbage collector and the typed allocators; the public interface, the shell and the
  debugger; regular expressions, big integers, \<open>Intl\<close> and WebAssembly, which rest on third-party code (Yarr, libbf, ICU, wabt); numeric
  libraries (IEEE754.cpp, dtoa); most of the builtins, which are argument handling over the runtime; shared array buffers. Inside of the modelled parts: the
  calendars of ICU, durations, time zone names, the combinators of promises and their hooks; prototypes that are not ordinary objects; receivers other than the array in
  \<open>setIndexedProperty\<close>; \<open>BigInt\<close> values, whose words come from a parameter.

  \<^bold>\<open>Plan.\<close> Promise combinators and capabilities of other constructors; durations;
  \<open>Base64\<close>; \<open>DateObject\<close>; the vectors of \<open>src/src/util\<close>.
\<close>

end
